(* ===== verification/Frame_Interface.thy ===== *)
theory Frame_Interface
  imports Prelude
begin

text \<open>
  The trait \<open>PhysicalFrameAllocator\<close>
  (\<open>frame-alloctor-api/api-v0/src/lib.rs\<close>) as a locale: \<open>alloc_frame\<close> and
  \<open>dealloc_frame\<close>, together with the abstraction a caller reasons with, the number of
  references each managed frame has. The stack allocator and the global allocator with its
  zeroed-page cache are both shown to provide \<open>frame_source\<close>, and the stack
  allocator also \<open>frame_provider\<close>.
\<close>

datatype frame_alloc_error = OutOfMemory | InvalidFrame | Unsupported

locale frame_source =
  fixes alloc :: "'s \<Rightarrow> 's \<times> (frame_alloc_error, nat) result"
    and dealloc :: "nat \<Rightarrow> 's \<Rightarrow> 's \<times> (frame_alloc_error, unit) result"
    and count :: "'s \<Rightarrow> nat \<Rightarrow> nat"
    and managed :: "'s \<Rightarrow> nat set"
    and inv :: "'s \<Rightarrow> bool"
  assumes alloc_ok: "inv s \<Longrightarrow> alloc s = (s', Inr p) \<Longrightarrow>
        inv s' \<and> p \<in> managed s \<and> count s p = 0 \<and> count s' = (count s)(p := 1) \<and>
        managed s' = managed s"
    and alloc_fails: "inv s \<Longrightarrow> alloc s = (s', Inl e) \<Longrightarrow>
        e = OutOfMemory \<and> inv s' \<and> count s' = count s \<and> managed s' = managed s \<and>
        (\<forall>p \<in> managed s. 0 < count s p)"
    and dealloc_ok: "inv s \<Longrightarrow> 0 < count s p \<Longrightarrow>
        \<exists>s'. dealloc p s = (s', Inr ()) \<and> inv s' \<and>
             count s' = (count s)(p := count s p - 1) \<and> managed s' = managed s"
    and unmanaged: "inv s \<Longrightarrow> p \<notin> managed s \<Longrightarrow> count s p = 0"
begin

lemma alloc_total:
  assumes "inv s"
  obtains s' p where "alloc s = (s', Inr p)" | s' where "alloc s = (s', Inl OutOfMemory)"
proof (cases "alloc s")
  case (Pair s' r)
  show ?thesis
  proof (cases r)
    case (Inl e)
    with Pair alloc_fails [OF assms] have "alloc s = (s', Inl OutOfMemory)" by auto
    then show ?thesis by (rule that(2))
  next
    case (Inr p)
    with Pair have "alloc s = (s', Inr p)" by simp
    then show ?thesis by (rule that(1))
  qed
qed

lemma alloc_fails_iff:
  assumes "inv s"
  shows "(\<exists>s'. alloc s = (s', Inl OutOfMemory)) \<longleftrightarrow> (\<forall>p \<in> managed s. 0 < count s p)"
proof
  assume "\<exists>s'. alloc s = (s', Inl OutOfMemory)"
  then show "\<forall>p \<in> managed s. 0 < count s p" using alloc_fails [OF assms] by blast
next
  assume full: "\<forall>p \<in> managed s. 0 < count s p"
  show "\<exists>s'. alloc s = (s', Inl OutOfMemory)"
  proof (rule alloc_total [OF assms])
    fix s' p
    assume "alloc s = (s', Inr p)"
    with alloc_ok [OF assms] have "p \<in> managed s" "count s p = 0" by blast+
    with full show ?thesis by auto
  qed blast
qed

text \<open>An allocated frame goes back with one release.\<close>

lemma alloc_dealloc_roundtrip:
  assumes "inv s" and "alloc s = (s', Inr p)"
  obtains s'' where "dealloc p s' = (s'', Inr ())" and "inv s''" and "count s'' = count s"
proof -
  from alloc_ok [OF assms] have inv': "inv s'" and zero: "count s p = 0"
    and cnt: "count s' = (count s)(p := 1)" by auto
  from cnt have "0 < count s' p" by simp
  from dealloc_ok [OF inv' this] obtain s'' where
    d: "dealloc p s' = (s'', Inr ())" "inv s''" "count s'' = (count s')(p := count s' p - 1)"
    by blast
  from d(3) cnt zero have c: "count s'' = count s" by auto
  with d show ?thesis by (intro that)
qed

text \<open>Two allocations in a row never give the same frame.\<close>

lemma alloc_twice_distinct:
  assumes "inv s" and "alloc s = (s', Inr p)" and "alloc s' = (s'', Inr q)"
  shows "p \<noteq> q"
  using alloc_ok [OF assms(1,2)] alloc_ok [OF _ assms(3)] by auto

end

text \<open>
  A provider that also refuses to release a frame nobody holds: a second release of the same
  allocation is reported. The zeroed-page cache weakens this law, because a cached frame has no
  user but is still marked allocated.
\<close>

locale frame_provider = frame_source +
  assumes dealloc_fails: "inv s \<Longrightarrow> count s p = 0 \<Longrightarrow> dealloc p s = (s, Inl InvalidFrame)"
begin

lemma double_release_refused:
  assumes "inv s" and "alloc s = (s', Inr p)" and "dealloc p s' = (s'', Inr ())"
  shows "dealloc p s'' = (s'', Inl InvalidFrame)"
  by (rule alloc_dealloc_roundtrip [OF assms(1,2)])
    (use assms alloc_ok [OF assms(1,2)] dealloc_fails in auto)

end

end
