(* ===== verification/Frame_Alloc.thy ===== *)
theory Frame_Alloc
  imports Frame_Interface
begin

text \<open>
  The stack allocator of physical frames
  (\<open>mm-frame-alloctor/frame-alloctor-impl/impl-stack/src/lib.rs\<close>): the free list
  \<open>recycled\<close>, the occupancy bits, the per-frame reference counts and the lazily consumed
  upper range \<open>[start_ppn, next_novel)\<close>. A physical page number is a \<open>nat\<close>; a
  reference count is bounded by \<open>u32_max\<close> and saturates there as in the source.
\<close>

section \<open>State\<close>

record frame_allocator =
  recycled :: "nat list"
  allocated :: "bool list"
  ref_counts :: "nat list"
  start_ppn :: nat
  end_ppn :: nat
  reserved_start_ppn :: nat
  reserved_end_ppn :: nat
  next_novel :: nat

record frame_mem_stats =
  total_frames :: nat
  free_frames :: nat
  page_bytes :: nat

definition page_size :: nat where
  "page_size = 4096"

definition new_frame_allocator :: frame_allocator where
  "new_frame_allocator =
     \<lparr>recycled = [], allocated = [], ref_counts = [], start_ppn = 0, end_ppn = 0,
      reserved_start_ppn = 0, reserved_end_ppn = 0, next_novel = 0\<rparr>"

text \<open>
  \<open>usize::clamp\<close> panics when its bounds are reversed, so initialising a reversed range
  is \<open>None\<close>.
\<close>

definition init_with_reserved ::
  "nat \<Rightarrow> nat \<Rightarrow> nat \<Rightarrow> nat \<Rightarrow> frame_allocator \<Rightarrow> frame_allocator option" where
  "init_with_reserved st en rs re s =
     (if en < st then None
      else let rs' = clamp_nat st en rs; re' = clamp_nat rs' en re
        in Some (s\<lparr>recycled := [], start_ppn := st, end_ppn := en,
                   reserved_start_ppn := rs', reserved_end_ppn := re',
                   next_novel := en,
                   allocated := replicate (en - st) False,
                   ref_counts := replicate (en - st) 0\<rparr>))"

definition init_allocator :: "nat \<Rightarrow> nat \<Rightarrow> frame_allocator \<Rightarrow> frame_allocator option" where
  "init_allocator st en s = init_with_reserved st en st st s"

section \<open>Operations\<close>

definition is_reserved :: "frame_allocator \<Rightarrow> nat \<Rightarrow> bool" where
  "is_reserved s ppn \<longleftrightarrow> reserved_start_ppn s \<le> ppn \<and> ppn < reserved_end_ppn s"

definition frame_index :: "frame_allocator \<Rightarrow> nat \<Rightarrow> nat option" where
  "frame_index s frame =
     (if frame < start_ppn s \<or> end_ppn s \<le> frame \<or> is_reserved s frame then None
      else Some (frame - start_ppn s))"

definition novel_free_frames :: "frame_allocator \<Rightarrow> nat" where
  "novel_free_frames s =
     (let total = next_novel s - start_ppn s;
          reserved_below_next = min (next_novel s) (reserved_end_ppn s) - reserved_start_ppn s
      in total - reserved_below_next)"

definition mem_stats :: "frame_allocator \<Rightarrow> frame_mem_stats" where
  "mem_stats s =
     (let reserved_frames = reserved_end_ppn s - reserved_start_ppn s;
          total = end_ppn s - start_ppn s - reserved_frames;
          free = sat_add usize_max (length (recycled s)) (novel_free_frames s)
      in \<lparr>total_frames = total, free_frames = min free total, page_bytes = page_size\<rparr>)"

definition mark_allocated :: "nat \<Rightarrow> frame_allocator \<Rightarrow> frame_allocator" where
  "mark_allocated idx s =
     s\<lparr>allocated := (allocated s)[idx := True], ref_counts := (ref_counts s)[idx := 1]\<rparr>"

text \<open>The \<open>while let Some(p) = self.recycled.pop()\<close> loop of \<open>alloc_frame\<close>.\<close>

function pop_recycled :: "frame_allocator \<Rightarrow> frame_allocator \<times> nat option" where
  "pop_recycled s =
     (if recycled s = [] then (s, None)
      else let p = last (recycled s); s' = s\<lparr>recycled := butlast (recycled s)\<rparr>
        in case frame_index s' p of
             None \<Rightarrow> pop_recycled s'
           | Some idx \<Rightarrow>
               if allocated s' ! idx then pop_recycled s'
               else (mark_allocated idx s', Some p))"
  by pat_completeness auto
termination
  by (relation "measure (\<lambda>s. length (recycled s))") auto

declare pop_recycled.simps [simp del]

definition alloc_novel ::
  "frame_allocator \<Rightarrow> frame_allocator \<times> (frame_alloc_error, nat) result" where
  "alloc_novel s1 =
     (let s2 = (if next_novel s1 = reserved_end_ppn s1
                then s1\<lparr>next_novel := reserved_start_ppn s1\<rparr> else s1)
      in if start_ppn s2 < next_novel s2
         then let p = next_novel s2 - 1; s3 = s2\<lparr>next_novel := p\<rparr>; idx = p - start_ppn s2
           in if allocated s3 ! idx then (s3, Inl InvalidFrame)
              else (mark_allocated idx s3, Inr p)
         else (s2, Inl OutOfMemory))"

definition alloc_frame ::
  "frame_allocator \<Rightarrow> frame_allocator \<times> (frame_alloc_error, nat) result" where
  "alloc_frame s =
     (case pop_recycled s of
        (s1, Some p) \<Rightarrow> (s1, Inr p)
      | (s1, None) \<Rightarrow> alloc_novel s1)"

definition dealloc_frame ::
  "nat \<Rightarrow> frame_allocator \<Rightarrow> frame_allocator \<times> (frame_alloc_error, unit) result" where
  "dealloc_frame frame s =
     (case frame_index s frame of
        None \<Rightarrow> (s, Inl InvalidFrame)
      | Some idx \<Rightarrow>
          if frame < next_novel s \<or> \<not> allocated s ! idx \<or> ref_counts s ! idx = 0
          then (s, Inl InvalidFrame)
          else if 1 < ref_counts s ! idx
          then (s\<lparr>ref_counts := (ref_counts s)[idx := ref_counts s ! idx - 1]\<rparr>, Inr ())
          else (s\<lparr>ref_counts := (ref_counts s)[idx := 0],
                  allocated := (allocated s)[idx := False],
                  recycled := recycled s @ [frame]\<rparr>, Inr ()))"

definition inc_ref ::
  "nat \<Rightarrow> frame_allocator \<Rightarrow> frame_allocator \<times> (frame_alloc_error, nat) result" where
  "inc_ref frame s =
     (case frame_index s frame of
        None \<Rightarrow> (s, Inl InvalidFrame)
      | Some idx \<Rightarrow>
          if \<not> allocated s ! idx \<or> ref_counts s ! idx = 0 then (s, Inl InvalidFrame)
          else let n = sat_add u32_max (ref_counts s ! idx) 1
            in (s\<lparr>ref_counts := (ref_counts s)[idx := n]\<rparr>, Inr n))"

definition ref_count :: "nat \<Rightarrow> frame_allocator \<Rightarrow> (frame_alloc_error, nat) result" where
  "ref_count frame s =
     (case frame_index s frame of
        None \<Rightarrow> Inl InvalidFrame
      | Some idx \<Rightarrow>
          if \<not> allocated s ! idx \<or> ref_counts s ! idx = 0 then Inl InvalidFrame
          else Inr (ref_counts s ! idx))"

fun dealloc_all :: "nat list \<Rightarrow> frame_allocator \<Rightarrow> frame_allocator" where
  "dealloc_all [] s = s"
| "dealloc_all (f # fs) s = dealloc_all fs (fst (dealloc_frame f s))"

fun alloc_batch_loop ::
  "nat \<Rightarrow> nat list \<Rightarrow> frame_allocator
     \<Rightarrow> frame_allocator \<times> (frame_alloc_error, nat list) result" where
  "alloc_batch_loop 0 out s = (s, Inr out)"
| "alloc_batch_loop (Suc n) out s =
     (case alloc_frame s of
        (s', Inr frame) \<Rightarrow> alloc_batch_loop n (out @ [frame]) s'
      | (s', Inl e) \<Rightarrow>
          if e = OutOfMemory \<and> out \<noteq> [] then (s', Inr out)
          else (dealloc_all out s', Inl e))"

text \<open>\<open>alloc_batch\<close> fills a slice; the model returns the filled prefix of it.\<close>

definition alloc_batch ::
  "nat \<Rightarrow> frame_allocator \<Rightarrow> frame_allocator \<times> (frame_alloc_error, nat list) result" where
  "alloc_batch n s =
     (case alloc_batch_loop n [] s of
        (s', Inl e) \<Rightarrow> (s', Inl e)
      | (s', Inr out) \<Rightarrow> if out = [] then (s', Inl OutOfMemory) else (s', Inr out))"


section \<open>Abstraction and invariant\<close>

text \<open>
  What a caller sees of the allocator: the set of frames it manages and how many references
  each of them has. \<open>owners\<close> is 0 for a frame outside the pool.
\<close>

definition pool_frames :: "frame_allocator \<Rightarrow> nat set" where
  "pool_frames s = {p. start_ppn s \<le> p \<and> p < end_ppn s \<and> \<not> is_reserved s p}"

definition owners :: "frame_allocator \<Rightarrow> nat \<Rightarrow> nat" where
  "owners s p = (case frame_index s p of None \<Rightarrow> 0 | Some i \<Rightarrow> ref_counts s ! i)"

definition free_set :: "frame_allocator \<Rightarrow> nat set" where
  "free_set s = {p \<in> pool_frames s. owners s p = 0}"

definition geometry_ok :: "frame_allocator \<Rightarrow> bool" where
  "geometry_ok s \<longleftrightarrow>
     start_ppn s \<le> reserved_start_ppn s \<and> reserved_start_ppn s \<le> reserved_end_ppn s \<and>
     reserved_end_ppn s \<le> end_ppn s \<and> start_ppn s \<le> next_novel s \<and>
     next_novel s \<le> end_ppn s \<and> end_ppn s \<le> usize_max \<and>
     \<not> (reserved_start_ppn s < next_novel s \<and> next_novel s < reserved_end_ppn s) \<and>
     length (allocated s) = end_ppn s - start_ppn s \<and>
     length (ref_counts s) = end_ppn s - start_ppn s"

definition frame_inv :: "frame_allocator \<Rightarrow> bool" where
  "frame_inv s \<longleftrightarrow>
     geometry_ok s \<and>
     (\<forall>p \<in> pool_frames s. allocated s ! (p - start_ppn s) = (0 < owners s p)
        \<and> owners s p \<le> u32_max) \<and>
     distinct (recycled s) \<and>
     set (recycled s) = {p \<in> free_set s. next_novel s \<le> p} \<and>
     (\<forall>p \<in> pool_frames s. p < next_novel s \<longrightarrow> owners s p = 0)"

lemma frame_index_iff: "frame_index s p = Some i \<longleftrightarrow> p \<in> pool_frames s \<and> i = p - start_ppn s"
  by (auto simp: frame_index_def pool_frames_def)

lemma frame_index_None_iff: "frame_index s p = None \<longleftrightarrow> p \<notin> pool_frames s"
  by (auto simp: frame_index_def pool_frames_def)

lemma frame_index_pool [simp]:
  "p \<in> pool_frames s \<Longrightarrow> frame_index s p = Some (p - start_ppn s)"
  by (simp add: frame_index_iff)

lemma frame_index_no_pool [simp]: "p \<notin> pool_frames s \<Longrightarrow> frame_index s p = None"
  by (simp add: frame_index_None_iff)

lemma owners_pool: "p \<in> pool_frames s \<Longrightarrow> owners s p = ref_counts s ! (p - start_ppn s)"
  by (simp add: owners_def)

lemma owners_no_pool [simp]: "p \<notin> pool_frames s \<Longrightarrow> owners s p = 0"
  by (simp add: owners_def)

text \<open>Every index the code computes is inside both vectors, so no read can panic.\<close>

lemma frame_index_in_bounds:
  "geometry_ok s \<Longrightarrow> frame_index s p = Some i \<Longrightarrow>
     i < length (allocated s) \<and> i < length (ref_counts s)"
  by (auto simp: frame_index_iff geometry_ok_def pool_frames_def)

lemma pool_frames_cong:
  "start_ppn t = start_ppn s \<Longrightarrow> end_ppn t = end_ppn s \<Longrightarrow>
   reserved_start_ppn t = reserved_start_ppn s \<Longrightarrow> reserved_end_ppn t = reserved_end_ppn s \<Longrightarrow>
   pool_frames t = pool_frames s"
  by (simp add: pool_frames_def is_reserved_def)

text \<open>Writing a reference count changes the owners of that one frame.\<close>

lemma pool_index_bounds:
  assumes "geometry_ok s" and "p \<in> pool_frames s"
  shows "p - start_ppn s < length (allocated s)" "p - start_ppn s < length (ref_counts s)"
  using assms by (auto simp: geometry_ok_def pool_frames_def)

lemma pool_index_inj:
  "p \<in> pool_frames s \<Longrightarrow> q \<in> pool_frames s \<Longrightarrow>
     p - start_ppn s = q - start_ppn s \<longleftrightarrow> q = p"
  by (auto simp: pool_frames_def)

lemma owners_write:
  assumes "geometry_ok s" and "p \<in> pool_frames s"
    and pf: "pool_frames t = pool_frames s" and st: "start_ppn t = start_ppn s"
    and rc: "ref_counts t = (ref_counts s)[p - start_ppn s := n]"
  shows "owners t = (owners s)(p := n)"
proof
  fix q
  show "owners t q = ((owners s)(p := n)) q"
  proof (cases "q \<in> pool_frames s")
    case True
    have len: "p - start_ppn s < length (ref_counts s)"
      using assms(1,2) by (rule pool_index_bounds)
    show ?thesis
      using True len pool_index_inj [OF assms(2) True]
      by (simp add: owners_pool pf st rc nth_list_update)
  next
    case False
    then show ?thesis using assms(2) by (auto simp: pf)
  qed
qed

lemma allocated_write:
  assumes "p \<in> pool_frames s" and "q \<in> pool_frames s" and "geometry_ok s"
  shows "(allocated s)[p - start_ppn s := b] ! (q - start_ppn s) =
     (if q = p then b else allocated s ! (q - start_ppn s))"
  using pool_index_bounds(1) [OF assms(3,1)] pool_index_inj [OF assms(1,2)]
  by (simp add: nth_list_update)

lemma frame_invD:
  assumes "frame_inv s"
  shows "geometry_ok s" "distinct (recycled s)"
    "set (recycled s) = {p \<in> free_set s. next_novel s \<le> p}"
    "p \<in> pool_frames s \<Longrightarrow> allocated s ! (p - start_ppn s) = (0 < owners s p)"
    "p \<in> pool_frames s \<Longrightarrow> p < next_novel s \<Longrightarrow> owners s p = 0"
  using assms unfolding frame_inv_def by blast+

lemma frame_inv_u32: "frame_inv s \<Longrightarrow> owners s p \<le> u32_max"
  by (cases "p \<in> pool_frames s") (auto simp: frame_inv_def)

section \<open>The operations against the abstraction\<close>

lemma init_with_reserved_inv:
  assumes "init_with_reserved st en rs re s0 = Some s" and "en \<le> usize_max"
  shows "frame_inv s \<and> pool_frames s =
     {st..<en} - {clamp_nat st en rs..<clamp_nat (clamp_nat st en rs) en re} \<and>
     owners s = (\<lambda>_. 0)"
proof -
  have le: "st \<le> en" and s: "s = s0\<lparr>recycled := [], start_ppn := st, end_ppn := en,
       reserved_start_ppn := clamp_nat st en rs,
       reserved_end_ppn := clamp_nat (clamp_nat st en rs) en re, next_novel := en,
       allocated := replicate (en - st) False, ref_counts := replicate (en - st) 0\<rparr>"
    using assms(1) by (auto simp: init_with_reserved_def Let_def split: if_splits)
  have c1: "st \<le> clamp_nat st en rs \<and> clamp_nat st en rs \<le> en"
    using le by (rule clamp_nat_range)
  then have c2: "clamp_nat st en rs \<le> clamp_nat (clamp_nat st en rs) en re \<and>
      clamp_nat (clamp_nat st en rs) en re \<le> en"
    by (intro clamp_nat_range) simp
  have pf: "pool_frames s =
     {st..<en} - {clamp_nat st en rs..<clamp_nat (clamp_nat st en rs) en re}"
    using c1 c2 by (auto simp: s pool_frames_def is_reserved_def)
  have ow: "owners s = (\<lambda>_. 0)"
    by (rule ext) (auto simp: owners_def frame_index_def s)
  have geo: "geometry_ok s"
    using le c1 c2 assms(2) by (simp add: geometry_ok_def s)
  have "frame_inv s"
    using geo ow
    by (auto simp: frame_inv_def free_set_def pool_frames_def s)
  with pf ow show ?thesis by simp
qed

text \<open>Under the invariant the recycled loop pops exactly once.\<close>

lemma pop_recycled_inv:
  assumes inv: "frame_inv s"
  shows "pop_recycled s =
    (if recycled s = [] then (s, None)
     else (mark_allocated (last (recycled s) - start_ppn s)
             (s\<lparr>recycled := butlast (recycled s)\<rparr>), Some (last (recycled s))))"
proof (cases "recycled s = []")
  case True
  then show ?thesis by (simp add: pop_recycled.simps)
next
  case False
  let ?p = "last (recycled s)"
  let ?s' = "s\<lparr>recycled := butlast (recycled s)\<rparr>"
  have mem: "?p \<in> pool_frames s" "owners s ?p = 0"
    using last_in_set [OF False] frame_invD(3) [OF inv] by (auto simp: free_set_def)
  have pf: "pool_frames ?s' = pool_frames s"
    by (rule pool_frames_cong) simp_all
  have "\<not> allocated s ! (?p - start_ppn s)"
    using frame_invD(4) [OF inv mem(1)] mem(2) by simp
  with False mem pf show ?thesis
    by (subst pop_recycled.simps) (simp add: Let_def)
qed

lemma mark_allocated_owners:
  assumes "geometry_ok s" "p \<in> pool_frames s"
  shows "owners (mark_allocated (p - start_ppn s) s) = (owners s)(p := 1)"
  using assms
  by (intro owners_write [where s = s]) (simp_all add: mark_allocated_def pool_frames_def
      is_reserved_def)

lemma mark_allocated_simps [simp]:
  "pool_frames (mark_allocated i s) = pool_frames s"
  "start_ppn (mark_allocated i s) = start_ppn s"
  "recycled (mark_allocated i s) = recycled s"
  "next_novel (mark_allocated i s) = next_novel s"
  "geometry_ok (mark_allocated i s) = geometry_ok s"
  by (simp_all add: mark_allocated_def pool_frames_def is_reserved_def geometry_ok_def)

lemma mark_allocated_bit:
  assumes "geometry_ok s" "p \<in> pool_frames s" "q \<in> pool_frames s"
  shows "allocated (mark_allocated (p - start_ppn s) s) ! (q - start_ppn s) =
     (q = p \<or> allocated s ! (q - start_ppn s))"
  using assms by (simp add: mark_allocated_def allocated_write)


lemma mark_allocated_inv:
  assumes geo: "geometry_ok s" and p: "p \<in> pool_frames s" "owners s p = 0" "next_novel s \<le> p"
    and rec: "distinct (recycled s)" "set (recycled s) = {q \<in> free_set s. next_novel s \<le> q} - {p}"
    and bits: "\<And>q. q \<in> pool_frames s \<Longrightarrow>
        allocated s ! (q - start_ppn s) = (0 < owners s q) \<and> owners s q \<le> u32_max"
    and low: "\<And>q. q \<in> pool_frames s \<Longrightarrow> q < next_novel s \<Longrightarrow> owners s q = 0"
  shows "frame_inv (mark_allocated (p - start_ppn s) s)"
proof -
  note ow = mark_allocated_owners [OF geo p(1)]
  have "free_set (mark_allocated (p - start_ppn s) s) = free_set s - {p}"
    by (auto simp: free_set_def ow)
  then have "set (recycled (mark_allocated (p - start_ppn s) s)) =
     {q \<in> free_set (mark_allocated (p - start_ppn s) s). next_novel s \<le> q}"
    using rec(2) by auto
  moreover have "\<forall>q \<in> pool_frames s. allocated (mark_allocated (p - start_ppn s) s)
       ! (q - start_ppn s) = (0 < owners (mark_allocated (p - start_ppn s) s) q) \<and>
       owners (mark_allocated (p - start_ppn s) s) q \<le> u32_max"
    using bits mark_allocated_bit [OF geo p(1)] by (auto simp: ow u32_max_def)
  moreover have "\<forall>q \<in> pool_frames s. q < next_novel s \<longrightarrow>
       owners (mark_allocated (p - start_ppn s) s) q = 0"
    using low p(3) by (auto simp: ow)
  ultimately show ?thesis
    using geo rec(1) by (simp add: frame_inv_def)
qed

lemma alloc_recycled_ok:
  assumes inv: "frame_inv s" and ne: "recycled s \<noteq> []"
  shows "alloc_frame s =
      (mark_allocated (last (recycled s) - start_ppn s) (s\<lparr>recycled := butlast (recycled s)\<rparr>),
       Inr (last (recycled s)))"
    and "last (recycled s) \<in> free_set s"
    and "frame_inv (fst (alloc_frame s))"
    and "owners (fst (alloc_frame s)) = (owners s)(last (recycled s) := 1)"
    and "pool_frames (fst (alloc_frame s)) = pool_frames s"
proof -
  let ?p = "last (recycled s)" and ?s = "s\<lparr>recycled := butlast (recycled s)\<rparr>"
  show eq: "alloc_frame s = (mark_allocated (?p - start_ppn s) ?s, Inr ?p)"
    using ne by (simp add: alloc_frame_def pop_recycled_inv [OF inv])
  have pf: "pool_frames ?s = pool_frames s" and ow: "owners ?s = owners s"
    by (auto simp: pool_frames_def is_reserved_def owners_def frame_index_def)
  then have fs: "free_set ?s = free_set s" by (simp add: free_set_def)
  have geo: "geometry_ok ?s" using frame_invD(1) [OF inv] by (simp add: geometry_ok_def)
  have p: "?p \<in> free_set s" "next_novel s \<le> ?p"
    using last_in_set [OF ne] frame_invD(3) [OF inv] by auto
  then show "?p \<in> free_set s" by simp
  have d: "distinct (recycled ?s)" using frame_invD(2) [OF inv] by (simp add: distinct_butlast)
  have r: "set (recycled ?s) = {q \<in> free_set ?s. next_novel ?s \<le> q} - {?p}"
    using distinct_butlast_last [OF ne frame_invD(2) [OF inv]] set_butlast_last [OF ne]
      frame_invD(3) [OF inv] fs by auto
  have "frame_inv (mark_allocated (?p - start_ppn ?s) ?s)"
    by (rule mark_allocated_inv)
      (use geo d r p frame_invD(4,5) [OF inv] frame_inv_u32 [OF inv] in
        \<open>auto simp: pf ow free_set_def\<close>)
  then show "frame_inv (fst (alloc_frame s))" by (simp add: eq)
  show "owners (fst (alloc_frame s)) = (owners s)(?p := 1)"
    using mark_allocated_owners [of ?s ?p] geo p by (simp add: eq pf ow free_set_def)
  show "pool_frames (fst (alloc_frame s)) = pool_frames s" by (simp add: eq pf)
qed

text \<open>The boundary after skipping the reserved range, as \<open>alloc_frame\<close> computes it.\<close>

definition novel_bound :: "frame_allocator \<Rightarrow> nat" where
  "novel_bound s = (if next_novel s = reserved_end_ppn s then reserved_start_ppn s
                    else next_novel s)"

lemma novel_bound_props:
  assumes "geometry_ok s"
  shows "start_ppn s \<le> novel_bound s" "novel_bound s \<le> end_ppn s" "novel_bound s \<le> next_novel s"
    "q \<in> pool_frames s \<Longrightarrow> novel_bound s \<le> q \<Longrightarrow> next_novel s \<le> q"
    "start_ppn s < novel_bound s \<Longrightarrow> novel_bound s - 1 \<in> pool_frames s"
    "geometry_ok (s\<lparr>next_novel := novel_bound s\<rparr>)"
    "start_ppn s < novel_bound s \<Longrightarrow> geometry_ok (s\<lparr>next_novel := novel_bound s - 1\<rparr>)"
  using assms unfolding geometry_ok_def novel_bound_def pool_frames_def is_reserved_def
  by (auto split: if_splits)

lemma set_novel_simps [simp]:
  "pool_frames (s\<lparr>next_novel := n\<rparr>) = pool_frames s"
  "owners (s\<lparr>next_novel := n\<rparr>) = owners s"
  "free_set (s\<lparr>next_novel := n\<rparr>) = free_set s"
  by (auto simp: free_set_def pool_frames_def is_reserved_def owners_def frame_index_def
      split: option.splits)

lemma alloc_novel_inv:
  assumes inv: "frame_inv s" and ne: "recycled s = []"
  shows "alloc_frame s =
     (if start_ppn s < novel_bound s
      then (mark_allocated (novel_bound s - 1 - start_ppn s)
              (s\<lparr>next_novel := novel_bound s - 1\<rparr>), Inr (novel_bound s - 1))
      else (s\<lparr>next_novel := novel_bound s\<rparr>, Inl OutOfMemory))"
proof -
  have geo: "geometry_ok s" using inv by (rule frame_invD)
  have "\<not> allocated s ! (novel_bound s - 1 - start_ppn s)" if "start_ppn s < novel_bound s"
    using novel_bound_props(3,5) [OF geo] that
      frame_invD(4,5) [OF inv, of "novel_bound s - 1"] by simp
  then show ?thesis
    using ne
    by (cases "next_novel s = reserved_end_ppn s")
      (auto simp: alloc_frame_def pop_recycled_inv [OF inv] alloc_novel_def Let_def
        novel_bound_def)
qed

lemma alloc_novel_ok:
  assumes inv: "frame_inv s" and ne: "recycled s = []" and lt: "start_ppn s < novel_bound s"
  shows "novel_bound s - 1 \<in> free_set s"
    and "frame_inv (mark_allocated (novel_bound s - 1 - start_ppn s)
              (s\<lparr>next_novel := novel_bound s - 1\<rparr>))"
    and "owners (mark_allocated (novel_bound s - 1 - start_ppn s)
              (s\<lparr>next_novel := novel_bound s - 1\<rparr>)) = (owners s)(novel_bound s - 1 := 1)"
proof -
  let ?p = "novel_bound s - 1" and ?s = "s\<lparr>next_novel := novel_bound s - 1\<rparr>"
  have geo: "geometry_ok s" using inv by (rule frame_invD)
  note nb = novel_bound_props [OF geo]
  have p: "?p \<in> pool_frames s" using lt by (rule nb)
  have "owners s ?p = 0"
    using frame_invD(5) [OF inv p] nb(3) lt by simp
  with p show free: "?p \<in> free_set s" by (simp add: free_set_def)
  have none: "{q \<in> free_set s. next_novel s \<le> q} = {}"
    using frame_invD(3) [OF inv] ne by simp
  have "q = ?p" if "q \<in> free_set s" "?p \<le> q" for q
    using nb(4) [of q] that none lt by (force simp: free_set_def)
  then have r: "set (recycled ?s) = {q \<in> free_set ?s. next_novel ?s \<le> q} - {?p}"
    using ne by auto
  have "frame_inv (mark_allocated (?p - start_ppn ?s) ?s)"
  proof (rule mark_allocated_inv)
    show "geometry_ok ?s" using lt by (rule nb)
    show "set (recycled ?s) = {q \<in> free_set ?s. next_novel ?s \<le> q} - {?p}" by (rule r)
    show "owners ?s q = 0" if "q \<in> pool_frames ?s" "q < next_novel ?s" for q
      using that frame_invD(5) [OF inv, of q] nb(3) by simp
  qed (use p \<open>owners s ?p = 0\<close> ne frame_invD(4) [OF inv] frame_inv_u32 [OF inv] in auto)
  then show "frame_inv (mark_allocated (?p - start_ppn s) ?s)" by simp
  show "owners (mark_allocated (?p - start_ppn s) ?s) = (owners s)(?p := 1)"
    using mark_allocated_owners [of ?s ?p] nb(7) [OF lt] p by simp
qed


lemma alloc_frame_Inr:
  assumes inv: "frame_inv s" and r: "alloc_frame s = (s', Inr p)"
  shows "frame_inv s' \<and> p \<in> free_set s \<and> owners s' = (owners s)(p := 1) \<and>
     pool_frames s' = pool_frames s"
proof (cases "recycled s = []")
  case False
  from alloc_recycled_ok [OF inv False] r show ?thesis by simp
next
  case True
  with r have lt: "start_ppn s < novel_bound s"
    by (auto simp: alloc_novel_inv [OF inv] split: if_splits)
  from alloc_novel_ok [OF inv True lt] r lt True show ?thesis
    by (auto simp: alloc_novel_inv [OF inv])
qed

lemma alloc_frame_Inl:
  assumes inv: "frame_inv s" and r: "alloc_frame s = (s', Inl e)"
  shows "e = OutOfMemory \<and> frame_inv s' \<and> free_set s = {} \<and> owners s' = owners s \<and>
     pool_frames s' = pool_frames s"
proof -
  have rec: "recycled s = []"
    using r alloc_recycled_ok(1) [OF inv] by auto
  with r have ge: "\<not> start_ppn s < novel_bound s" and e: "e = OutOfMemory"
    and s': "s' = s\<lparr>next_novel := novel_bound s\<rparr>"
    by (auto simp: alloc_novel_inv [OF inv] split: if_splits)
  have geo: "geometry_ok s" using inv by (rule frame_invD)
  note nb = novel_bound_props [OF geo]
  have "next_novel s \<le> q" if "q \<in> pool_frames s" for q
    using nb(4) [OF that] ge that by (auto simp: pool_frames_def)
  then have free: "free_set s = {}"
    using frame_invD(3) [OF inv] rec by (auto simp: free_set_def)
  have bits: "allocated s ! (q - start_ppn s) = (0 < owners s q)" if "q \<in> pool_frames s" for q
    using frame_invD(4) [OF inv that] .
  have low: "owners s q = 0" if "q \<in> pool_frames s" "q < novel_bound s" for q
    using frame_invD(5) [OF inv, of q] that nb(3) by simp
  have "frame_inv s'"
    using nb(6) rec free bits low frame_inv_u32 [OF inv] by (auto simp: s' frame_inv_def)
  with e free show ?thesis by (simp add: s')
qed

text \<open>What \<open>dealloc_frame\<close> does on each branch.\<close>

lemma dealloc_frame_unowned:
  assumes inv: "frame_inv s" and "owners s p = 0"
  shows "dealloc_frame p s = (s, Inl InvalidFrame)"
  using assms frame_invD(4) [OF inv, of p]
  by (cases "p \<in> pool_frames s") (simp_all add: dealloc_frame_def)

lemma dealloc_frame_owned_eq:
  assumes inv: "frame_inv s" and own: "0 < owners s p"
  shows "dealloc_frame p s =
    (if 1 < owners s p
     then (s\<lparr>ref_counts := (ref_counts s)[p - start_ppn s := owners s p - 1]\<rparr>, Inr ())
     else (s\<lparr>ref_counts := (ref_counts s)[p - start_ppn s := 0],
             allocated := (allocated s)[p - start_ppn s := False],
             recycled := recycled s @ [p]\<rparr>, Inr ()))"
proof -
  have p: "p \<in> pool_frames s"
    using own by (cases "p \<in> pool_frames s") auto
  then show ?thesis
    using frame_invD(4) [OF inv p] frame_invD(5) [OF inv p] own
    by (auto simp: dealloc_frame_def owners_pool [OF p])
qed

lemma dealloc_frame_owned:
  assumes inv: "frame_inv s" and own: "0 < owners s p"
  obtains s' where "dealloc_frame p s = (s', Inr ())" and "frame_inv s'"
    and "owners s' = (owners s)(p := owners s p - 1)" and "pool_frames s' = pool_frames s"
proof -
  define s' where "s' = fst (dealloc_frame p s)"
  have p: "p \<in> pool_frames s"
    using own by (cases "p \<in> pool_frames s") auto
  have geo: "geometry_ok s" using inv by (rule frame_invD)
  have high: "next_novel s \<le> p"
    using frame_invD(5) [OF inv p] own by (cases "p < next_novel s") auto
  have r: "dealloc_frame p s = (s', Inr ())"
    by (simp add: s'_def dealloc_frame_owned_eq [OF inv own])
  have pf: "pool_frames s' = pool_frames s" and st: "start_ppn s' = start_ppn s"
    and nn: "next_novel s' = next_novel s" and g': "geometry_ok s'"
    using geo by (simp_all add: s'_def dealloc_frame_owned_eq [OF inv own] pool_frames_def
        is_reserved_def geometry_ok_def)
  have ow: "owners s' = (owners s)(p := owners s p - 1)"
    using own
    by (intro owners_write [OF geo p pf st]) (auto simp: s'_def dealloc_frame_owned_eq [OF inv own])
  have al: "allocated s' = (if 1 < owners s p then allocated s
      else (allocated s)[p - start_ppn s := False])"
    and rec: "recycled s' = (if 1 < owners s p then recycled s else recycled s @ [p])"
    by (simp_all add: s'_def dealloc_frame_owned_eq [OF inv own])
  have bits: "allocated s' ! (q - start_ppn s') = (0 < owners s' q) \<and> owners s' q \<le> u32_max"
    if "q \<in> pool_frames s" for q
  proof -
    have "allocated s' ! (q - start_ppn s') =
        (if q = p then 1 < owners s p else allocated s ! (q - start_ppn s))"
      using allocated_write [OF p that geo, of False] frame_invD(4) [OF inv p] own
      by (cases "q = p") (auto simp: al st)
    then show ?thesis
      using frame_invD(4) [OF inv that] frame_inv_u32 [OF inv, of q]
      by (cases "q = p") (auto simp: ow)
  qed
  have notin: "p \<notin> set (recycled s)"
    using own frame_invD(3) [OF inv] by (auto simp: free_set_def)
  have "distinct (recycled s') \<and> set (recycled s') = {q \<in> free_set s'. next_novel s' \<le> q}"
    using notin own high p frame_invD(2,3) [OF inv]
    by (auto simp: nn free_set_def ow pf rec)
  moreover have "owners s' q = 0" if "q \<in> pool_frames s" "q < next_novel s" for q
    using that frame_invD(5) [OF inv that] high by (simp add: ow)
  ultimately have "frame_inv s'"
    using g' bits by (simp add: frame_inv_def pf nn)
  with r ow pf show ?thesis by (intro that)
qed


text \<open>\<open>inc_ref\<close> and \<open>ref_count\<close> on every branch.\<close>

lemma ref_count_eq:
  assumes "frame_inv s"
  shows "ref_count p s = (if owners s p = 0 then Inl InvalidFrame else Inr (owners s p))"
  using frame_invD(4) [OF assms, of p]
  by (cases "p \<in> pool_frames s") (auto simp: ref_count_def owners_pool)

lemma inc_ref_eq:
  assumes "frame_inv s"
  shows "inc_ref p s =
    (if owners s p = 0 then (s, Inl InvalidFrame)
     else (s\<lparr>ref_counts := (ref_counts s)[p - start_ppn s := sat_add u32_max (owners s p) 1]\<rparr>,
           Inr (sat_add u32_max (owners s p) 1)))"
  using frame_invD(4) [OF assms, of p]
  by (cases "p \<in> pool_frames s") (auto simp: inc_ref_def owners_pool Let_def)

lemma inc_ref_owned:
  assumes inv: "frame_inv s" and own: "0 < owners s p"
  shows "frame_inv (fst (inc_ref p s)) \<and>
    owners (fst (inc_ref p s)) = (owners s)(p := sat_add u32_max (owners s p) 1) \<and>
    pool_frames (fst (inc_ref p s)) = pool_frames s"
proof -
  define s' where "s' = fst (inc_ref p s)"
  have eq: "s' = s\<lparr>ref_counts :=
      (ref_counts s)[p - start_ppn s := sat_add u32_max (owners s p) 1]\<rparr>"
    using own by (simp add: s'_def inc_ref_eq [OF inv])
  have p: "p \<in> pool_frames s"
    using own by (cases "p \<in> pool_frames s") auto
  have geo: "geometry_ok s" using inv by (rule frame_invD)
  have pf: "pool_frames s' = pool_frames s"
    by (simp add: eq pool_frames_def is_reserved_def)
  have ow: "owners s' = (owners s)(p := sat_add u32_max (owners s p) 1)"
    by (rule owners_write [OF geo p pf]) (simp_all add: eq)
  have pos: "0 < sat_add u32_max (owners s p) 1"
    by (simp add: sat_add_def u32_max_def)
  have g': "geometry_ok s'" using geo by (simp add: eq geometry_ok_def)
  have fs: "free_set s' = free_set s"
    using own pos by (auto simp: free_set_def ow pf)
  have "frame_inv s'"
    unfolding frame_inv_def
    using g' fs own pos frame_invD [OF inv] frame_inv_u32 [OF inv]
    by (auto simp: pf ow) (auto simp: eq)
  then show ?thesis using ow pf by (simp add: s'_def)
qed

section \<open>Statistics\<close>

lemma finite_pool_frames [simp]: "finite (pool_frames s)"
  by (rule finite_subset [of _ "{..<end_ppn s}"]) (auto simp: pool_frames_def)

lemma finite_free_set [simp]: "finite (free_set s)"
  by (simp add: free_set_def)

lemma card_pool_below:
  assumes "geometry_ok s" "n = next_novel s \<or> n = end_ppn s"
  shows "card {p \<in> pool_frames s. p < n} =
     n - start_ppn s - (min n (reserved_end_ppn s) - reserved_start_ppn s)"
proof -
  have *: "{p \<in> pool_frames s. p < n} =
      {start_ppn s..<n} - {reserved_start_ppn s..<min n (reserved_end_ppn s)}"
    using assms by (auto simp: pool_frames_def is_reserved_def geometry_ok_def)
  have sub: "{reserved_start_ppn s..<min n (reserved_end_ppn s)} \<subseteq> {start_ppn s..<n}"
    using assms by (auto simp: geometry_ok_def)
  have "card {p \<in> pool_frames s. p < n} =
      card {start_ppn s..<n} - card {reserved_start_ppn s..<min n (reserved_end_ppn s)}"
    unfolding * by (rule card_Diff_subset) (use sub in auto)
  then show ?thesis by simp
qed

lemma novel_free_frames_card:
  "geometry_ok s \<Longrightarrow> novel_free_frames s = card {p \<in> pool_frames s. p < next_novel s}"
  by (simp add: card_pool_below novel_free_frames_def Let_def)

lemma card_free_set:
  assumes inv: "frame_inv s"
  shows "card (free_set s) = length (recycled s) + novel_free_frames s"
proof -
  have geo: "geometry_ok s" using inv by (rule frame_invD)
  have split: "free_set s = set (recycled s) \<union> {p \<in> pool_frames s. p < next_novel s}"
    using frame_invD(3,5) [OF inv] by (auto simp: free_set_def)
  have "card (free_set s) = card (set (recycled s)) + card {p \<in> pool_frames s. p < next_novel s}"
    unfolding split by (rule card_Un_disjoint) (use frame_invD(3) [OF inv] in auto)
  then show ?thesis
    using frame_invD(2) [OF inv] by (simp add: distinct_card novel_free_frames_card [OF geo])
qed

lemma mem_stats_exact:
  assumes inv: "frame_inv s"
  shows "free_frames (mem_stats s) = card (free_set s) \<and>
     total_frames (mem_stats s) = card (pool_frames s) \<and> page_bytes (mem_stats s) = page_size"
proof -
  have geo: "geometry_ok s" using inv by (rule frame_invD)
  have "{p \<in> pool_frames s. p < end_ppn s} = pool_frames s"
    by (auto simp: pool_frames_def)
  then have tot: "card (pool_frames s) =
      end_ppn s - start_ppn s - (reserved_end_ppn s - reserved_start_ppn s)"
    using card_pool_below [OF geo, of "end_ppn s"] geo
    by (simp add: geometry_ok_def min_absorb2)
  have le: "card (free_set s) \<le> card (pool_frames s)"
    by (rule card_mono) (auto simp: free_set_def)
  then have "card (free_set s) \<le> usize_max"
    using tot geo by (auto simp: geometry_ok_def)
  with le tot show ?thesis
    by (simp add: mem_stats_def Let_def card_free_set [OF inv, symmetric] sat_add_exact min_def)
qed


section \<open>The allocator provides the frame interface\<close>

interpretation stack: frame_provider alloc_frame dealloc_frame owners pool_frames frame_inv
proof unfold_locales
  fix s s' p
  assume "frame_inv s" "alloc_frame s = (s', Inr p)"
  then show "frame_inv s' \<and> p \<in> pool_frames s \<and> owners s p = 0 \<and>
      owners s' = (owners s)(p := 1) \<and> pool_frames s' = pool_frames s"
    using alloc_frame_Inr by (simp add: free_set_def)
next
  fix s s' e
  assume "frame_inv s" "alloc_frame s = (s', Inl e)"
  then show "e = OutOfMemory \<and> frame_inv s' \<and> owners s' = owners s \<and>
      pool_frames s' = pool_frames s \<and> (\<forall>p \<in> pool_frames s. 0 < owners s p)"
    using alloc_frame_Inl by (fastforce simp: free_set_def)
next
  fix s p
  assume "frame_inv s" "0 < owners s p"
  then show "\<exists>s'. dealloc_frame p s = (s', Inr ()) \<and> frame_inv s' \<and>
      owners s' = (owners s)(p := owners s p - 1) \<and> pool_frames s' = pool_frames s"
    by (blast elim: dealloc_frame_owned)
next
  fix s p
  assume "frame_inv s" "owners s p = 0"
  then show "dealloc_frame p s = (s, Inl InvalidFrame)"
    by (rule dealloc_frame_unowned)
next
  fix s p
  assume "frame_inv s" "p \<notin> pool_frames s"
  then show "owners s p = 0" by simp
qed

end
