(* ===== verification/Zeroed_Pool.thy ===== *)
theory Zeroed_Pool
  imports Frame_Alloc
begin

text \<open>
  The cache of zeroed frames in front of the allocator and the global functions that combine
  the two (same source file). The pool is a fixed array of which the first \<open>pool_len\<close>
  slots are published, a number of slots reserved by producers (\<open>in_flight\<close>) and the
  watermark state. The statistics counters are compiled out unless the feature
  \<open>zeroed-frame-pool-stats\<close> is on, which it is not by default, and are not modelled.
\<close>

section \<open>The pool\<close>

definition zeroed_pool_capacity :: nat where "zeroed_pool_capacity = 1024"
definition zeroed_pool_low_watermark :: nat where "zeroed_pool_low_watermark = 256"
definition zeroed_pool_high_watermark :: nat where
  "zeroed_pool_high_watermark = zeroed_pool_capacity"
definition zeroed_sync_batch :: nat where "zeroed_sync_batch = 16"
definition zeroed_idle_batch :: nat where "zeroed_idle_batch = 32"
definition zeroed_oom_drain_batch :: nat where "zeroed_oom_drain_batch = 32"

record zeroed_pool =
  frames :: "nat list"
  pool_len :: nat
  in_flight :: nat
  refill_active :: bool

definition new_zeroed_pool :: zeroed_pool where
  "new_zeroed_pool = \<lparr>frames = replicate zeroed_pool_capacity 0, pool_len = 0,
     in_flight = 0, refill_active = True\<rparr>"

definition pool_reset :: "zeroed_pool \<Rightarrow> zeroed_pool" where
  "pool_reset z = z\<lparr>pool_len := 0, in_flight := 0, refill_active := True\<rparr>"

definition update_refill_state :: "zeroed_pool \<Rightarrow> zeroed_pool" where
  "update_refill_state z =
     (let effective = sat_add usize_max (pool_len z) (in_flight z)
      in if effective < zeroed_pool_low_watermark then z\<lparr>refill_active := True\<rparr>
         else if zeroed_pool_high_watermark \<le> effective then z\<lparr>refill_active := False\<rparr>
         else z)"

definition pool_take :: "bool \<Rightarrow> zeroed_pool \<Rightarrow> zeroed_pool \<times> nat option" where
  "pool_take preserve_low_watermark z =
     (if pool_len z = 0 \<or> (preserve_low_watermark \<and> pool_len z \<le> zeroed_pool_low_watermark)
      then (z, None)
      else let n = pool_len z - 1; frame = frames z ! n
        in (update_refill_state (z\<lparr>pool_len := n\<rparr>), Some frame))"

definition claim_sync_publish_slots :: "nat \<Rightarrow> zeroed_pool \<Rightarrow> zeroed_pool \<times> nat" where
  "claim_sync_publish_slots wanted z =
     (let available = zeroed_pool_capacity - sat_add usize_max (pool_len z) (in_flight z);
          claimed = min wanted available
      in (z\<lparr>in_flight := in_flight z + claimed\<rparr>, claimed))"

definition claim_idle_publish_slots :: "zeroed_pool \<Rightarrow> zeroed_pool \<times> nat" where
  "claim_idle_publish_slots z0 =
     (let z = update_refill_state z0
      in if \<not> refill_active z then (z, 0)
         else let effective = sat_add usize_max (pool_len z) (in_flight z);
                  claimed = min zeroed_idle_batch (zeroed_pool_high_watermark - effective)
           in (update_refill_state (z\<lparr>in_flight := in_flight z + claimed\<rparr>), claimed))"

fun publish :: "nat list \<Rightarrow> zeroed_pool \<Rightarrow> zeroed_pool" where
  "publish [] z = z"
| "publish (f # fs) z =
     publish fs (z\<lparr>frames := (frames z)[pool_len z := f], pool_len := pool_len z + 1\<rparr>)"

definition finish_claim :: "nat \<Rightarrow> nat list \<Rightarrow> zeroed_pool \<Rightarrow> zeroed_pool" where
  "finish_claim claimed fs z =
     (let z1 = publish fs z
      in update_refill_state (z1\<lparr>in_flight := in_flight z1 - claimed\<rparr>))"

definition pool_drain :: "nat \<Rightarrow> zeroed_pool \<Rightarrow> zeroed_pool \<times> nat list" where
  "pool_drain out_len z =
     (let count = min (pool_len z) out_len; start = pool_len z - count;
          out = take count (drop start (frames z))
      in (update_refill_state (z\<lparr>pool_len := start\<rparr>), out))"

section \<open>The global allocator\<close>

record frame_globals =
  alloc_state :: frame_allocator
  zero_pool :: zeroed_pool

definition init_frame_allocator_with_reserved ::
  "nat \<Rightarrow> nat \<Rightarrow> nat \<Rightarrow> nat \<Rightarrow> frame_globals \<Rightarrow> frame_globals option" where
  "init_frame_allocator_with_reserved st en rs re g =
     (case init_with_reserved st en rs re (alloc_state g) of
        None \<Rightarrow> None
      | Some s \<Rightarrow> Some \<lparr>alloc_state = s, zero_pool = pool_reset (zero_pool g)\<rparr>)"

text \<open>Return the reclaimed frames one by one, stopping at the first error (\<open>?\<close>).\<close>

fun dealloc_seq ::
  "nat list \<Rightarrow> frame_allocator \<Rightarrow> frame_allocator \<times> (frame_alloc_error, unit) result" where
  "dealloc_seq [] s = (s, Inr ())"
| "dealloc_seq (f # fs) s =
     (case dealloc_frame f s of
        (s', Inl e) \<Rightarrow> (s', Inl e)
      | (s', Inr u) \<Rightarrow> dealloc_seq fs s')"

definition frame_alloc_result ::
  "frame_globals \<Rightarrow> frame_globals \<times> (frame_alloc_error, nat) result" where
  "frame_alloc_result g =
     (case alloc_frame (alloc_state g) of
        (s1, first) \<Rightarrow>
          if first \<noteq> Inl OutOfMemory then (g\<lparr>alloc_state := s1\<rparr>, first)
          else (case pool_drain zeroed_oom_drain_batch (zero_pool g) of
            (z, reclaimed) \<Rightarrow>
              if reclaimed = [] then (\<lparr>alloc_state = s1, zero_pool = z\<rparr>, first)
              else (case dealloc_seq reclaimed s1 of
                (s2, Inl e) \<Rightarrow> (\<lparr>alloc_state = s2, zero_pool = z\<rparr>, Inl e)
              | (s2, Inr u) \<Rightarrow> (case alloc_frame s2 of
                  (s3, r) \<Rightarrow> (\<lparr>alloc_state = s3, zero_pool = z\<rparr>, r)))))"

definition frame_dealloc_result ::
  "nat \<Rightarrow> frame_globals \<Rightarrow> frame_globals \<times> (frame_alloc_error, unit) result" where
  "frame_dealloc_result f g =
     (case dealloc_frame f (alloc_state g) of (s, r) \<Rightarrow> (g\<lparr>alloc_state := s\<rparr>, r))"

text \<open>
  \<open>frame_alloc_zeroed_result\<close> with no other CPU running between its critical sections;
  the interleaved version is the step relation below. Zeroing the bytes of a frame is outside
  the model.
\<close>

definition frame_alloc_zeroed_result ::
  "frame_globals \<Rightarrow> frame_globals \<times> (frame_alloc_error, nat) result" where
  "frame_alloc_zeroed_result g =
     (case pool_take False (zero_pool g) of
        (z0, Some frame) \<Rightarrow> (g\<lparr>zero_pool := z0\<rparr>, Inr frame)
      | (z0, None) \<Rightarrow>
          (case claim_sync_publish_slots (zeroed_sync_batch - 1) z0 of
             (z1, claimed) \<Rightarrow>
               (case alloc_batch (1 + claimed) (alloc_state g) of
                  (s, Inl e) \<Rightarrow>
                    (case pool_take False (finish_claim claimed [] z1) of
                       (z2, r) \<Rightarrow> (\<lparr>alloc_state = s, zero_pool = z2\<rparr>, ok_or e r))
                | (s, Inr fs) \<Rightarrow>
                    (\<lparr>alloc_state = s, zero_pool = finish_claim claimed (tl fs) z1\<rparr>,
                     Inr (hd fs)))))"

definition try_alloc_zeroed_frame_for_prefault ::
  "frame_globals \<Rightarrow> frame_globals \<times> nat option" where
  "try_alloc_zeroed_frame_for_prefault g =
     (case pool_take True (zero_pool g) of (z, r) \<Rightarrow> (g\<lparr>zero_pool := z\<rparr>, r))"

text \<open>\<open>lock_free\<close>: whether \<open>try_lock\<close> on the allocator succeeds.\<close>

definition idle_zeroed_frame_pool_maintenance :: "bool \<Rightarrow> frame_globals \<Rightarrow> frame_globals" where
  "idle_zeroed_frame_pool_maintenance lock_free g =
     (case claim_idle_publish_slots (zero_pool g) of
        (z1, claimed) \<Rightarrow>
          if claimed = 0 then g\<lparr>zero_pool := z1\<rparr>
          else if \<not> lock_free then g\<lparr>zero_pool := finish_claim claimed [] z1\<rparr>
          else (case alloc_batch claimed (alloc_state g) of
            (s, Inl e) \<Rightarrow> \<lparr>alloc_state = s, zero_pool = finish_claim claimed [] z1\<rparr>
          | (s, Inr fs) \<Rightarrow> \<lparr>alloc_state = s, zero_pool = finish_claim claimed fs z1\<rparr>))"

definition frame_mem_stats_global :: "frame_globals \<Rightarrow> frame_mem_stats" where
  "frame_mem_stats_global g =
     (let st = mem_stats (alloc_state g)
      in st\<lparr>free_frames := min (sat_add usize_max (free_frames st) (pool_len (zero_pool g)))
                               (total_frames st)\<rparr>)"


section \<open>The pool as a stack of cached frames\<close>

definition cached :: "zeroed_pool \<Rightarrow> nat list" where
  "cached z = take (pool_len z) (frames z)"

definition pool_inv :: "zeroed_pool \<Rightarrow> bool" where
  "pool_inv z \<longleftrightarrow> length (frames z) = zeroed_pool_capacity \<and>
     pool_len z + in_flight z \<le> zeroed_pool_capacity"

lemma capacity_le_usize: "zeroed_pool_capacity \<le> usize_max"
  by (simp add: zeroed_pool_capacity_def usize_max_def)

lemma update_refill_simps [simp]:
  "frames (update_refill_state z) = frames z"
  "pool_len (update_refill_state z) = pool_len z"
  "in_flight (update_refill_state z) = in_flight z"
  "cached (update_refill_state z) = cached z"
  "pool_inv (update_refill_state z) = pool_inv z"
  by (auto simp: update_refill_state_def cached_def pool_inv_def Let_def)

lemma pool_inv_effective:
  "pool_inv z \<Longrightarrow> sat_add usize_max (pool_len z) (in_flight z) = pool_len z + in_flight z"
  using capacity_le_usize by (intro sat_add_exact) (simp add: pool_inv_def)

lemma length_cached: "pool_inv z \<Longrightarrow> length (cached z) = pool_len z"
  by (simp add: cached_def pool_inv_def)

lemma cached_Nil_iff: "pool_inv z \<Longrightarrow> cached z = [] \<longleftrightarrow> pool_len z = 0"
  using length_cached [of z] by (metis length_0_conv)

lemma pool_take_None:
  "pool_take b z = (z', None) \<Longrightarrow> z' = z \<and> (pool_len z = 0 \<or> b)"
  by (auto simp: pool_take_def Let_def split: if_splits)

lemma pool_take_Some:
  assumes "pool_inv z" and "pool_take b z = (z', Some f)"
  shows "pool_inv z' \<and> cached z = cached z' @ [f] \<and> in_flight z' = in_flight z \<and>
     (b \<longrightarrow> zeroed_pool_low_watermark \<le> pool_len z')"
proof -
  let ?n = "pool_len z - 1"
  from assms(2) have ne: "pool_len z \<noteq> 0" and f: "f = frames z ! ?n"
    and z': "z' = update_refill_state (z\<lparr>pool_len := ?n\<rparr>)"
    and low: "b \<longrightarrow> zeroed_pool_low_watermark < pool_len z"
    by (auto simp: pool_take_def Let_def split: if_splits)
  have "take (Suc ?n) (frames z) = take ?n (frames z) @ [frames z ! ?n]"
    by (rule take_Suc_conv_app_nth) (use ne assms(1) in \<open>auto simp: pool_inv_def\<close>)
  with ne f low show ?thesis
    using assms(1) by (auto simp: z') (auto simp: cached_def pool_inv_def)
qed

lemma publish_spec:
  assumes "length (frames z) = zeroed_pool_capacity"
    and "pool_len z + length fs \<le> zeroed_pool_capacity"
  shows "cached (publish fs z) = cached z @ fs \<and> in_flight (publish fs z) = in_flight z \<and>
     pool_len (publish fs z) = pool_len z + length fs \<and>
     length (frames (publish fs z)) = zeroed_pool_capacity"
  using assms
proof (induction fs arbitrary: z)
  case Nil
  then show ?case by simp
next
  case (Cons f fs)
  let ?z = "z\<lparr>frames := (frames z)[pool_len z := f], pool_len := pool_len z + 1\<rparr>"
  have "cached ?z = cached z @ [f]"
    using Cons.prems by (simp add: cached_def take_Suc_conv_app_nth take_update_cancel)
  with Cons.IH [of ?z] Cons.prems show ?case by simp
qed

text \<open>
  The assertions of \<open>finish_claim\<close> are its precondition; under them nothing is lost and
  the array is not overrun.
\<close>

lemma finish_claim_spec:
  assumes "pool_inv z" and "claimed \<le> in_flight z" and "length fs \<le> claimed"
  shows "pool_inv (finish_claim claimed fs z) \<and>
     cached (finish_claim claimed fs z) = cached z @ fs \<and>
     in_flight (finish_claim claimed fs z) = in_flight z - claimed"
proof -
  have "length (frames z) = zeroed_pool_capacity"
      "pool_len z + length fs \<le> zeroed_pool_capacity"
    using assms by (auto simp: pool_inv_def)
  note p = publish_spec [OF this]
  with assms show ?thesis
    by (auto simp: finish_claim_def Let_def) (auto simp: cached_def pool_inv_def)
qed

lemma pool_drain_spec:
  assumes "pool_inv z" and "pool_drain n z = (z', out)"
  shows "pool_inv z' \<and> cached z = cached z' @ out \<and> in_flight z' = in_flight z \<and>
     length out = min (pool_len z) n"
proof -
  let ?c = "min (pool_len z) n"
  let ?st = "pool_len z - ?c"
  from assms(2) have z': "z' = update_refill_state (z\<lparr>pool_len := ?st\<rparr>)"
    and out: "out = take ?c (drop ?st (frames z))"
    by (auto simp: pool_drain_def Let_def)
  have "take (pool_len z) (frames z) = take ?st (frames z) @ take ?c (drop ?st (frames z))"
    by (simp add: take_add [symmetric])
  with assms(1) show ?thesis
    by (auto simp: z' out) (auto simp: cached_def pool_inv_def)
qed

lemma claim_sync_spec:
  assumes "pool_inv z" and "claim_sync_publish_slots w z = (z', c)"
  shows "pool_inv z' \<and> cached z' = cached z \<and> in_flight z' = in_flight z + c \<and> c \<le> w"
  using assms pool_inv_effective [OF assms(1)]
  by (auto simp: claim_sync_publish_slots_def Let_def) (auto simp: cached_def pool_inv_def)

lemma claim_idle_spec:
  assumes "pool_inv z" and "claim_idle_publish_slots z = (z', c)"
  shows "pool_inv z' \<and> cached z' = cached z \<and> in_flight z' = in_flight z + c \<and>
     c \<le> zeroed_idle_batch"
proof -
  let ?u = "update_refill_state z"
  have "pool_inv ?u" using assms(1) by simp
  note eff = pool_inv_effective [OF this]
  show ?thesis
    using assms eff
    by (auto simp: claim_idle_publish_slots_def Let_def zeroed_pool_high_watermark_def
        split: if_splits) (auto simp: cached_def pool_inv_def)
qed

section \<open>Batches\<close>

lemma dealloc_seq_ok:
  assumes "frame_inv s" and "distinct fs" and "\<And>f. f \<in> set fs \<Longrightarrow> owners s f = 1"
  shows "\<exists>s'. dealloc_seq fs s = (s', Inr ()) \<and> frame_inv s' \<and>
     owners s' = (\<lambda>p. if p \<in> set fs then 0 else owners s p) \<and> pool_frames s' = pool_frames s"
  using assms
proof (induction fs arbitrary: s)
  case Nil
  then show ?case by simp
next
  case (Cons f fs)
  have "0 < owners s f" using Cons.prems(3) by simp
  from stack.dealloc_ok [OF Cons.prems(1) this] obtain s1 where
    d: "dealloc_frame f s = (s1, Inr ())" "frame_inv s1"
       "owners s1 = (owners s)(f := owners s f - 1)" "pool_frames s1 = pool_frames s" by blast
  have "owners s1 g = 1" if "g \<in> set fs" for g
    using that Cons.prems(2,3) d(3) by auto
  with Cons.IH [OF d(2)] Cons.prems(2) obtain s' where
    "dealloc_seq fs s1 = (s', Inr ())" "frame_inv s'"
    "owners s' = (\<lambda>p. if p \<in> set fs then 0 else owners s1 p)" "pool_frames s' = pool_frames s1"
    by auto
  with d Cons.prems show ?case by (intro exI [of _ s']) (auto simp: fun_eq_iff)
qed

lemma alloc_batch_loop_spec:
  assumes "frame_inv s" and "alloc_batch_loop n out s = (s', r)"
    and "distinct out" and "\<And>f. f \<in> set out \<Longrightarrow> owners s f = 1"
  shows "frame_inv s' \<and> pool_frames s' = pool_frames s \<and>
    (case r of
       Inl e \<Rightarrow> e = OutOfMemory \<and> out = [] \<and> n \<noteq> 0 \<and> free_set s = {} \<and> owners s' = owners s
     | Inr fs \<Rightarrow> (\<exists>new. fs = out @ new \<and> length new \<le> n \<and> distinct fs \<and>
          set new \<subseteq> free_set s \<and>
          owners s' = (\<lambda>p. if p \<in> set new then 1 else owners s p) \<and>
          (length new = n \<or> free_set s' = {})))"
  using assms
proof (induction n arbitrary: out s)
  case 0
  then show ?case by auto
next
  case (Suc n)
  show ?case
  proof (rule stack.alloc_total [OF Suc.prems(1)])
    fix s1 p
    assume a: "alloc_frame s = (s1, Inr p)"
    note ok = alloc_frame_Inr [OF Suc.prems(1) a]
    have p_out: "p \<notin> set out"
      using ok Suc.prems(4) by (auto simp: free_set_def)
    have step: "alloc_batch_loop n (out @ [p]) s1 = (s', r)"
      using Suc.prems(2) a by simp
    have "owners s1 f = 1" if "f \<in> set (out @ [p])" for f
      using that ok Suc.prems(4) by auto
    with Suc.IH [of s1 "out @ [p]"] ok step p_out Suc.prems(3)
    have ih: "frame_inv s' \<and> pool_frames s' = pool_frames s1 \<and>
      (case r of
         Inl e \<Rightarrow> False
       | Inr fs \<Rightarrow> (\<exists>new. fs = (out @ [p]) @ new \<and> length new \<le> n \<and> distinct fs \<and>
            set new \<subseteq> free_set s1 \<and>
            owners s' = (\<lambda>q. if q \<in> set new then 1 else owners s1 q) \<and>
            (length new = n \<or> free_set s' = {})))"
      by (auto split: sum.splits)
    show ?thesis
    proof (cases r)
      case (Inl e)
      with ih show ?thesis by simp
    next
      case (Inr fs)
      with ih obtain new where new: "fs = out @ (p # new)" "length new \<le> n" "distinct fs"
        "set new \<subseteq> free_set s1" "owners s' = (\<lambda>q. if q \<in> set new then 1 else owners s1 q)"
        "length new = n \<or> free_set s' = {}" by auto
      have "set (p # new) \<subseteq> free_set s"
        using new(4) ok by (auto simp: free_set_def split: if_splits)
      moreover have "owners s' = (\<lambda>q. if q \<in> set (p # new) then 1 else owners s q)"
        using new(5) ok by (auto simp: fun_eq_iff)
      ultimately show ?thesis
        using ih ok new Inr by (auto intro!: exI [of _ "p # new"])
    qed
  next
    fix s1
    assume a: "alloc_frame s = (s1, Inl OutOfMemory)"
    with alloc_frame_Inl [OF Suc.prems(1) a] Suc.prems(2,3) show ?thesis
      by (auto simp: free_set_def split: if_splits)
  qed
qed

lemma alloc_batch_Inr:
  assumes "frame_inv s" and "alloc_batch n s = (s', Inr fs)"
  shows "frame_inv s' \<and> pool_frames s' = pool_frames s \<and> fs \<noteq> [] \<and> length fs \<le> n \<and>
     distinct fs \<and> set fs \<subseteq> free_set s \<and>
     owners s' = (\<lambda>p. if p \<in> set fs then 1 else owners s p) \<and>
     (length fs = n \<or> free_set s' = {})"
proof -
  from assms(2) have loop: "alloc_batch_loop n [] s = (s', Inr fs)" "fs \<noteq> []"
    by (auto simp: alloc_batch_def split: prod.splits sum.splits if_splits)
  with alloc_batch_loop_spec [OF assms(1) loop(1)] show ?thesis by auto
qed

lemma alloc_batch_Inl:
  assumes "frame_inv s" and "alloc_batch n s = (s', Inl e)" and "n \<noteq> 0"
  shows "e = OutOfMemory \<and> frame_inv s' \<and> pool_frames s' = pool_frames s \<and>
     free_set s = {} \<and> owners s' = owners s"
proof -
  obtain s1 r where loop: "alloc_batch_loop n [] s = (s1, r)" by fastforce
  note spec = alloc_batch_loop_spec [OF assms(1) loop]
  show ?thesis
  proof (cases r)
    case (Inl e')
    with spec loop assms(2) show ?thesis by (auto simp: alloc_batch_def)
  next
    case (Inr fs)
    with loop assms(2) have fs: "fs = []" and e: "e = OutOfMemory" and s1: "s1 = s'"
      by (auto simp: alloc_batch_def split: if_splits)
    from spec Inr fs assms(3) have *: "frame_inv s'" "pool_frames s' = pool_frames s"
      "owners s' = owners s" "free_set s' = {}" by (auto simp: s1)
    then have "free_set s = {}" by (simp add: free_set_def)
    with * e show ?thesis by simp
  qed
qed


section \<open>The global allocator provides frames\<close>

text \<open>
  A user of the global allocator does not own the frames the cache holds: they count as having
  no reference, although the underlying allocator marks them allocated.
\<close>

definition g_owners :: "frame_globals \<Rightarrow> nat \<Rightarrow> nat" where
  "g_owners g p = (if p \<in> set (cached (zero_pool g)) then 0 else owners (alloc_state g) p)"

definition g_frames :: "frame_globals \<Rightarrow> nat set" where
  "g_frames g = pool_frames (alloc_state g)"

definition g_inv :: "frame_globals \<Rightarrow> bool" where
  "g_inv g \<longleftrightarrow> frame_inv (alloc_state g) \<and> pool_inv (zero_pool g) \<and>
     distinct (cached (zero_pool g)) \<and>
     (\<forall>p \<in> set (cached (zero_pool g)). owners (alloc_state g) p = 1)"

lemma g_invD:
  assumes "g_inv g"
  shows "frame_inv (alloc_state g)" "pool_inv (zero_pool g)" "distinct (cached (zero_pool g))"
    "p \<in> set (cached (zero_pool g)) \<Longrightarrow> owners (alloc_state g) p = 1"
  using assms by (auto simp: g_inv_def)

lemma owners_pos_pool: "0 < owners s p \<Longrightarrow> p \<in> pool_frames s"
  by (cases "p \<in> pool_frames s") auto

lemma init_globals_inv:
  assumes "init_frame_allocator_with_reserved st en rs re g0 = Some g"
    and "en \<le> usize_max" and "length (frames (zero_pool g0)) = zeroed_pool_capacity"
  shows "g_inv g \<and> g_owners g = (\<lambda>_. 0)"
proof -
  from assms(1) obtain s where s: "init_with_reserved st en rs re (alloc_state g0) = Some s"
    and g: "g = \<lparr>alloc_state = s, zero_pool = pool_reset (zero_pool g0)\<rparr>"
    by (auto simp: init_frame_allocator_with_reserved_def split: option.splits)
  from init_with_reserved_inv [OF s assms(2)] show ?thesis
    using assms(3) by (auto simp: g g_inv_def g_owners_def pool_inv_def cached_def
        pool_reset_def fun_eq_iff)
qed

lemma frame_alloc_result_drained:
  assumes inv: "g_inv g" and a: "alloc_frame (alloc_state g) = (s1, Inl OutOfMemory)"
    and d: "pool_drain zeroed_oom_drain_batch (zero_pool g) = (z, out)" and ne: "out \<noteq> []"
  obtains s2 where "dealloc_seq out s1 = (s2, Inr ())" and "frame_inv s2"
    and "pool_frames s2 = pool_frames (alloc_state g)"
    and "owners s2 = (\<lambda>p. if p \<in> set out then 0 else owners (alloc_state g) p)"
    and "set out \<subseteq> free_set s2"
proof -
  note oom = alloc_frame_Inl [OF g_invD(1) [OF inv] a]
  note dr = pool_drain_spec [OF g_invD(2) [OF inv] d]
  from dr have sub: "set out \<subseteq> set (cached (zero_pool g))" and "distinct out"
    using g_invD(3) [OF inv] by auto
  moreover have own1: "owners s1 f = 1" if "f \<in> set out" for f
    using that sub oom g_invD(4) [OF inv] by auto
  ultimately obtain s2 where s2: "dealloc_seq out s1 = (s2, Inr ())" "frame_inv s2"
    "owners s2 = (\<lambda>p. if p \<in> set out then 0 else owners s1 p)" "pool_frames s2 = pool_frames s1"
    using dealloc_seq_ok [of s1 out] oom by blast
  have "p \<in> pool_frames s1" if "p \<in> set out" for p
    using own1 [OF that] by (intro owners_pos_pool) simp
  with s2 have "set out \<subseteq> free_set s2" by (auto simp: free_set_def)
  with s2 oom show ?thesis by (intro that) auto
qed

lemma frame_alloc_result_Inr:
  assumes inv: "g_inv g" and r: "frame_alloc_result g = (g', Inr p)"
  shows "g_inv g' \<and> p \<in> g_frames g \<and> g_owners g p = 0 \<and> g_owners g' = (g_owners g)(p := 1) \<and>
     g_frames g' = g_frames g"
proof (rule stack.alloc_total [OF g_invD(1) [OF inv]])
  fix s1 q
  assume a: "alloc_frame (alloc_state g) = (s1, Inr q)"
  with r have "g' = g\<lparr>alloc_state := s1\<rparr>" "q = p"
    by (auto simp: frame_alloc_result_def)
  with alloc_frame_Inr [OF g_invD(1) [OF inv] a] inv show ?thesis
    by (auto simp: g_inv_def g_owners_def g_frames_def free_set_def fun_eq_iff)
next
  fix s1
  assume a: "alloc_frame (alloc_state g) = (s1, Inl OutOfMemory)"
  obtain z out where d: "pool_drain zeroed_oom_drain_batch (zero_pool g) = (z, out)" by fastforce
  note dr = pool_drain_spec [OF g_invD(2) [OF inv] d]
  from r a d have ne: "out \<noteq> []" by (auto simp: frame_alloc_result_def split: if_splits)
  obtain s2 where s2: "dealloc_seq out s1 = (s2, Inr ())" "frame_inv s2"
    "pool_frames s2 = pool_frames (alloc_state g)"
    "owners s2 = (\<lambda>p. if p \<in> set out then 0 else owners (alloc_state g) p)"
    by (rule frame_alloc_result_drained [OF inv a d ne])
  obtain s3 where a3: "alloc_frame s2 = (s3, Inr p)"
    and g': "g' = \<lparr>alloc_state = s3, zero_pool = z\<rparr>"
    using r a d ne s2(1) by (auto simp: frame_alloc_result_def split: prod.splits)
  have dc: "distinct (cached z @ out)" using dr g_invD(3) [OF inv] by simp
  with alloc_frame_Inr [OF s2(2) a3] s2 dr inv show ?thesis
    by (auto simp: g' g_inv_def g_owners_def g_frames_def free_set_def fun_eq_iff
        split: if_splits)
qed

lemma frame_alloc_result_Inl:
  assumes inv: "g_inv g" and r: "frame_alloc_result g = (g', Inl e)"
  shows "e = OutOfMemory \<and> g_inv g' \<and> g_owners g' = g_owners g \<and> g_frames g' = g_frames g \<and>
     cached (zero_pool g) = [] \<and> (\<forall>p \<in> g_frames g. 0 < g_owners g p)"
proof (rule stack.alloc_total [OF g_invD(1) [OF inv]])
  fix s1 q
  assume "alloc_frame (alloc_state g) = (s1, Inr q)"
  with r show ?thesis by (simp add: frame_alloc_result_def)
next
  fix s1
  assume a: "alloc_frame (alloc_state g) = (s1, Inl OutOfMemory)"
  obtain z out where d: "pool_drain zeroed_oom_drain_batch (zero_pool g) = (z, out)" by fastforce
  note dr = pool_drain_spec [OF g_invD(2) [OF inv] d]
  note oom = alloc_frame_Inl [OF g_invD(1) [OF inv] a]
  show ?thesis
  proof (cases "out = []")
    case True
    with r a d have g': "g' = \<lparr>alloc_state = s1, zero_pool = z\<rparr>" and e: "e = OutOfMemory"
      by (auto simp: frame_alloc_result_def)
    have "pool_len (zero_pool g) = 0"
      using True dr by (auto simp: zeroed_oom_drain_batch_def)
    then have "cached (zero_pool g) = []" by (simp add: cached_def)
    with True dr oom e inv show ?thesis
      by (auto simp: g' g_inv_def g_owners_def g_frames_def free_set_def fun_eq_iff)
  next
    case False
    obtain s2 where s2: "dealloc_seq out s1 = (s2, Inr ())" "frame_inv s2"
      "set out \<subseteq> free_set s2"
      by (rule frame_alloc_result_drained [OF inv a d False])
    obtain s3 where "alloc_frame s2 = (s3, Inl e)"
      using r a d False s2(1) by (auto simp: frame_alloc_result_def split: prod.splits)
    from alloc_frame_Inl [OF s2(2) this] s2(3) False show ?thesis by auto
  qed
qed

lemma frame_dealloc_result_ok:
  assumes inv: "g_inv g" and own: "0 < g_owners g p"
  shows "\<exists>g'. frame_dealloc_result p g = (g', Inr ()) \<and> g_inv g' \<and>
     g_owners g' = (g_owners g)(p := g_owners g p - 1) \<and> g_frames g' = g_frames g"
proof -
  from own have nc: "p \<notin> set (cached (zero_pool g))" and "0 < owners (alloc_state g) p"
    by (auto simp: g_owners_def split: if_splits)
  from stack.dealloc_ok [OF g_invD(1) [OF inv] this(2)] obtain s' where
    "dealloc_frame p (alloc_state g) = (s', Inr ())" "frame_inv s'"
    "owners s' = (owners (alloc_state g))(p := owners (alloc_state g) p - 1)"
    "pool_frames s' = pool_frames (alloc_state g)" by blast
  with nc inv show ?thesis
    by (intro exI [of _ "g\<lparr>alloc_state := s'\<rparr>"])
      (auto simp: frame_dealloc_result_def g_inv_def g_owners_def g_frames_def fun_eq_iff)
qed

interpretation global: frame_source frame_alloc_result frame_dealloc_result g_owners g_frames g_inv
proof unfold_locales
  fix g g' p
  assume "g_inv g" "frame_alloc_result g = (g', Inr p)"
  then show "g_inv g' \<and> p \<in> g_frames g \<and> g_owners g p = 0 \<and>
      g_owners g' = (g_owners g)(p := 1) \<and> g_frames g' = g_frames g"
    by (rule frame_alloc_result_Inr)
next
  fix g g' e
  assume "g_inv g" "frame_alloc_result g = (g', Inl e)"
  then show "e = OutOfMemory \<and> g_inv g' \<and> g_owners g' = g_owners g \<and>
      g_frames g' = g_frames g \<and> (\<forall>p \<in> g_frames g. 0 < g_owners g p)"
    using frame_alloc_result_Inl by blast
next
  fix g p
  assume "g_inv g" "0 < g_owners g p"
  then show "\<exists>g'. frame_dealloc_result p g = (g', Inr ()) \<and> g_inv g' \<and>
      g_owners g' = (g_owners g)(p := g_owners g p - 1) \<and> g_frames g' = g_frames g"
    by (rule frame_dealloc_result_ok)
next
  fix g p
  assume "g_inv g" "p \<notin> g_frames g"
  then show "g_owners g p = 0" by (simp add: g_owners_def g_frames_def)
qed

text \<open>The zeroed path hands out a frame nobody owned and loses no other frame.\<close>

lemma g_inv_cached_free:
  "g_inv g \<Longrightarrow> p \<in> set (cached (zero_pool g)) \<Longrightarrow> p \<in> g_frames g \<and> g_owners g p = 0"
  using owners_pos_pool [of "alloc_state g" p] g_invD(4) [of g p]
  by (simp add: g_frames_def g_owners_def)

lemma zeroed_hit:
  assumes inv: "g_inv g" and t: "pool_take b (zero_pool g) = (z, Some p)"
  shows "g_inv (g\<lparr>zero_pool := z\<rparr>) \<and> p \<in> g_frames g \<and> g_owners g p = 0 \<and>
     g_owners (g\<lparr>zero_pool := z\<rparr>) = (g_owners g)(p := 1) \<and>
     g_frames (g\<lparr>zero_pool := z\<rparr>) = g_frames g"
proof -
  note tk = pool_take_Some [OF g_invD(2) [OF inv] t]
  then have mem: "p \<in> set (cached (zero_pool g))" by simp
  note cf = g_inv_cached_free [OF inv mem]
  have "distinct (cached z @ [p])" using tk g_invD(3) [OF inv] by simp
  with tk cf inv show ?thesis
    by (auto simp: g_inv_def g_owners_def g_frames_def fun_eq_iff)
qed

lemma zeroed_refill:
  assumes inv: "g_inv g" and b: "alloc_batch n (alloc_state g) = (s, Inr fs)"
    and z: "pool_inv z" "cached z = cached (zero_pool g) @ pub"
    and pub: "distinct pub" "set pub \<subseteq> set fs" and held: "set held = set fs - set pub"
  shows "g_inv \<lparr>alloc_state = s, zero_pool = z\<rparr> \<and>
     g_owners \<lparr>alloc_state = s, zero_pool = z\<rparr> =
       (\<lambda>p. if p \<in> set held then 1 else g_owners g p) \<and>
     g_frames \<lparr>alloc_state = s, zero_pool = z\<rparr> = g_frames g"
proof -
  note ab = alloc_batch_Inr [OF g_invD(1) [OF inv] b]
  have fresh: "owners (alloc_state g) p = 0" if "p \<in> set fs" for p
    using that ab by (auto simp: free_set_def)
  have disj: "set (cached (zero_pool g)) \<inter> set fs = {}"
    using fresh g_invD(4) [OF inv] by fastforce
  then have "distinct (cached z)"
    using z(2) pub g_invD(3) [OF inv] by auto
  moreover have "\<forall>p \<in> set (cached z). owners s p = 1"
    using ab z(2) pub(2) g_invD(4) [OF inv] by auto
  ultimately show ?thesis
    using ab z(1) held pub(2) disj fresh
    by (auto simp: g_inv_def g_owners_def g_frames_def fun_eq_iff z(2))
qed


lemma frame_alloc_zeroed_miss:
  assumes inv: "g_inv g" and t: "pool_take False (zero_pool g) = (z0, None)"
  obtains z1 claimed where
    "claim_sync_publish_slots (zeroed_sync_batch - 1) (zero_pool g) = (z1, claimed)"
    "pool_inv z1" "cached z1 = []" "cached (zero_pool g) = []"
    "in_flight z1 = in_flight (zero_pool g) + claimed" "z0 = zero_pool g"
proof -
  obtain z1 c where c: "claim_sync_publish_slots (zeroed_sync_batch - 1) (zero_pool g) = (z1, c)"
    by fastforce
  from pool_take_None [OF t] have "z0 = zero_pool g" "pool_len (zero_pool g) = 0" by auto
  with claim_sync_spec [OF g_invD(2) [OF inv] c] c show ?thesis
    by (intro that) (auto simp: cached_def)
qed

lemma zeroed_alloc_spec:
  assumes inv: "g_inv g"
  shows "case frame_alloc_zeroed_result g of
      (g', Inr p) \<Rightarrow> g_inv g' \<and> p \<in> g_frames g \<and> g_owners g p = 0 \<and>
        g_owners g' = (g_owners g)(p := 1) \<and> g_frames g' = g_frames g
    | (g', Inl e) \<Rightarrow> e = OutOfMemory \<and> g_inv g' \<and> g_owners g' = g_owners g \<and>
        g_frames g' = g_frames g \<and> (\<forall>p \<in> g_frames g. 0 < g_owners g p)"
proof (cases "pool_take False (zero_pool g)")
  case (Pair z0 r)
  show ?thesis
  proof (cases r)
    case (Some p)
    with Pair zeroed_hit [OF inv, of False z0 p] show ?thesis
      by (simp add: frame_alloc_zeroed_result_def)
  next
    case None
    with Pair have t: "pool_take False (zero_pool g) = (z0, None)" by simp
    obtain z1 c where c: "claim_sync_publish_slots (zeroed_sync_batch - 1) (zero_pool g) = (z1, c)"
      "pool_inv z1" "cached z1 = []" "cached (zero_pool g) = []"
      "in_flight z1 = in_flight (zero_pool g) + c" "z0 = zero_pool g"
      by (rule frame_alloc_zeroed_miss [OF inv t])
    obtain s r' where b: "alloc_batch (1 + c) (alloc_state g) = (s, r')" by fastforce
    show ?thesis
    proof (cases r')
      case (Inl e)
      note fin = finish_claim_spec [OF c(2), of c "[]"]
      have "pool_take False (finish_claim c [] z1) = (finish_claim c [] z1, None)"
        using fin c(3,5) cached_Nil_iff [of "finish_claim c [] z1"]
        by (simp add: pool_take_def)
      with alloc_batch_Inl [OF g_invD(1) [OF inv]] b Inl t c fin inv show ?thesis
        by (auto simp: frame_alloc_zeroed_result_def g_inv_def g_owners_def g_frames_def
            free_set_def)
    next
      case (Inr fs)
      with b have b': "alloc_batch (1 + c) (alloc_state g) = (s, Inr fs)" by simp
      note ab = alloc_batch_Inr [OF g_invD(1) [OF inv] b']
      then obtain f rest where fs: "fs = f # rest" by (cases fs) auto
      with ab have len: "length rest \<le> c" by simp
      note fin = finish_claim_spec [OF c(2) _ len]
      have held: "set [f] = set fs - set rest" and pub: "distinct rest" "set rest \<subseteq> set fs"
        using ab fs by auto
      have "pool_inv (finish_claim c rest z1)"
        "cached (finish_claim c rest z1) = cached (zero_pool g) @ rest"
        using fin c(3,4,5) by auto
      from zeroed_refill [OF inv b' this pub held]
      have "g_inv \<lparr>alloc_state = s, zero_pool = finish_claim c rest z1\<rparr> \<and>
        g_owners \<lparr>alloc_state = s, zero_pool = finish_claim c rest z1\<rparr> =
          (g_owners g)(f := 1) \<and>
        g_frames \<lparr>alloc_state = s, zero_pool = finish_claim c rest z1\<rparr> = g_frames g"
        by (auto simp: fun_upd_def)
      moreover have "f \<in> g_frames g" "g_owners g f = 0"
        using ab fs c(4) by (auto simp: g_frames_def g_owners_def free_set_def)
      ultimately show ?thesis
        using t b' c fs by (simp add: frame_alloc_zeroed_result_def)
    qed
  qed
qed

section \<open>Properties\<close>

text \<open>
  C1. the stack allocator hands out a frame that no one owned, gives it exactly one
  reference and changes nothing else; it fails only with \<open>OutOfMemory\<close>, and only when
  every managed frame has an owner.
\<close>

theorem alloc_frame_correct:
  assumes "frame_inv s"
  shows "case alloc_frame s of
      (s', Inr p) \<Rightarrow> frame_inv s' \<and> p \<in> free_set s \<and> owners s' = (owners s)(p := 1) \<and>
        pool_frames s' = pool_frames s
    | (s', Inl e) \<Rightarrow> e = OutOfMemory \<and> frame_inv s' \<and> free_set s = {} \<and>
        owners s' = owners s \<and> pool_frames s' = pool_frames s"
  using alloc_frame_Inr [OF assms] alloc_frame_Inl [OF assms]
  by (auto split: prod.splits sum.splits)

definition demo_alloc :: frame_allocator where
  "demo_alloc = the (init_with_reserved 16 20 17 18 new_frame_allocator)"

lemma demo_alloc_inv: "frame_inv demo_alloc"
proof -
  have "init_with_reserved 16 20 17 18 new_frame_allocator = Some demo_alloc"
    by (simp add: demo_alloc_def init_with_reserved_def Let_def)
  from init_with_reserved_inv [OF this] show ?thesis by (simp add: usize_max_def)
qed

lemma demo_alloc_free: "owners demo_alloc p = 0" "19 \<in> free_set demo_alloc"
  "19 \<in> pool_frames demo_alloc"
proof -
  have d: "demo_alloc = new_frame_allocator\<lparr>recycled := [], start_ppn := 16, end_ppn := 20,
      reserved_start_ppn := 17, reserved_end_ppn := 18, next_novel := 20,
      allocated := replicate 4 False, ref_counts := replicate 4 0\<rparr>"
    by (simp add: demo_alloc_def init_with_reserved_def Let_def clamp_nat_def)
  have "frame_index demo_alloc p = Some i \<Longrightarrow> i < 4" for i
    by (auto simp: d frame_index_def split: if_splits)
  then show o: "owners demo_alloc p = 0" for p
    by (auto simp: owners_def d frame_index_def split: option.split)
  show "19 \<in> pool_frames demo_alloc" by (simp add: pool_frames_def d is_reserved_def)
  then show "19 \<in> free_set demo_alloc" by (simp add: free_set_def o)
qed

theorem alloc_frame_correct_witness:
  "\<exists>s p. alloc_frame demo_alloc = (s, Inr p) \<and> frame_inv s \<and> p \<in> free_set demo_alloc \<and> owners s p = 1"
proof -
  note A = alloc_frame_correct [OF demo_alloc_inv]
  have "free_set demo_alloc \<noteq> {}" using demo_alloc_free(2) by blast
  with A show ?thesis
    by (cases "alloc_frame demo_alloc"; cases "snd (alloc_frame demo_alloc)") auto
qed

text \<open>
  C2. releasing a frame drops one reference, keeps the invariant and never fails for a frame
  with a reference; a frame without one (outside the pool, reserved, never allocated or already
  returned) is refused and the allocator is unchanged.
\<close>

theorem dealloc_frame_correct:
  assumes "frame_inv s"
  shows "(owners s p = 0 \<longrightarrow> dealloc_frame p s = (s, Inl InvalidFrame)) \<and>
    (0 < owners s p \<longrightarrow> (\<exists>s'. dealloc_frame p s = (s', Inr ()) \<and> frame_inv s' \<and>
       owners s' = (owners s)(p := owners s p - 1) \<and> pool_frames s' = pool_frames s))"
  using stack.dealloc_ok [OF assms] stack.dealloc_fails [OF assms] by blast

theorem dealloc_frame_correct_witness:
  "dealloc_frame 19 demo_alloc = (demo_alloc, Inl InvalidFrame) \<and>
   (\<exists>s p s'. alloc_frame demo_alloc = (s, Inr p) \<and> dealloc_frame p s = (s', Inr ()) \<and> owners s' p = 0)"
proof
  show "dealloc_frame 19 demo_alloc = (demo_alloc, Inl InvalidFrame)"
    using dealloc_frame_correct [OF demo_alloc_inv, of 19] by (simp add: demo_alloc_free)
  obtain s p where a: "alloc_frame demo_alloc = (s, Inr p)"
    using alloc_frame_Inl [OF demo_alloc_inv] demo_alloc_free(2)
    by (cases "alloc_frame demo_alloc"; cases "snd (alloc_frame demo_alloc)") auto
  have "frame_inv s" "owners s p = 1" using alloc_frame_Inr [OF demo_alloc_inv a] by auto
  with dealloc_frame_correct [of s p] a
  show "\<exists>s p s'. alloc_frame demo_alloc = (s, Inr p) \<and> dealloc_frame p s = (s', Inr ()) \<and> owners s' p = 0"
    by auto
qed

text \<open>
  the global allocator reports out of memory only when the cache of zeroed frames has been
  drained and every frame has a user; otherwise it returns a frame without a user. In both
  cases the invariant between cache and allocator is kept.
\<close>

theorem frame_alloc_result_correct:
  assumes "g_inv g"
  shows "case frame_alloc_result g of
      (g', Inr p) \<Rightarrow> g_inv g' \<and> p \<in> g_frames g \<and> g_owners g p = 0 \<and>
        g_owners g' = (g_owners g)(p := 1)
    | (g', Inl e) \<Rightarrow> e = OutOfMemory \<and> g_inv g' \<and> g_owners g' = g_owners g \<and>
        cached (zero_pool g) = [] \<and> (\<forall>p \<in> g_frames g. 0 < g_owners g p)"
  using frame_alloc_result_Inr [OF assms] frame_alloc_result_Inl [OF assms]
  by (auto split: prod.splits sum.splits)

definition demo_globals :: frame_globals where
  "demo_globals = \<lparr>alloc_state = demo_alloc, zero_pool = new_zeroed_pool\<rparr>"

lemma demo_globals_inv: "g_inv demo_globals"
  by (simp add: g_inv_def demo_globals_def demo_alloc_inv new_zeroed_pool_def pool_inv_def
      cached_def)

lemma demo_globals_free: "19 \<in> g_frames demo_globals" "g_owners demo_globals 19 = 0"
  by (simp_all add: g_frames_def g_owners_def demo_globals_def demo_alloc_free)

theorem frame_alloc_result_correct_witness:
  "\<exists>g p. frame_alloc_result demo_globals = (g, Inr p) \<and> g_inv g \<and> g_owners g p = 1"
proof -
  note A = frame_alloc_result_correct [OF demo_globals_inv]
  show ?thesis
    using A demo_globals_free
    by (cases "frame_alloc_result demo_globals"; cases "snd (frame_alloc_result demo_globals)") auto
qed



end
