(* ===== verification/Pool_Interleaving.thy ===== *)
theory Pool_Interleaving
  imports Zeroed_Pool "HOL-Library.Multiset"
begin

text \<open>
  The zeroed pool with several CPUs: every critical section of
  \<open>frame_alloc_result\<close>, \<open>frame_alloc_zeroed_result\<close> and
  \<open>idle_zeroed_frame_pool_maintenance\<close> is one step, and the steps of different CPUs
  interleave freely. Between its sections a CPU holds a claim on publication slots and, once the
  batch is taken, the frames it is zeroing.
\<close>

section \<open>Steps\<close>

datatype producer =
    PIdle
  | PClaimed bool nat
  | PHolding bool nat "nat list"
  | PDraining "nat list"

record pool_sys =
  globals :: frame_globals
  producers :: "producer list"

fun claim_of :: "producer \<Rightarrow> nat" where
  "claim_of (PClaimed sync c) = c"
| "claim_of (PHolding sync c fs) = c"
| "claim_of PIdle = 0"
| "claim_of (PDraining fs) = 0"

fun held_by :: "producer \<Rightarrow> nat multiset" where
  "held_by (PHolding sync c fs) = mset fs"
| "held_by (PDraining fs) = mset fs"
| "held_by PIdle = {#}"
| "held_by (PClaimed sync c) = {#}"

text \<open>The foreground path keeps the first frame of its batch for its caller.\<close>

definition to_publish :: "bool \<Rightarrow> nat list \<Rightarrow> nat list" where
  "to_publish sync fs = (if sync then tl fs else fs)"

definition batch_size :: "bool \<Rightarrow> nat \<Rightarrow> nat" where
  "batch_size sync c = (if sync then 1 + c else c)"

definition private_frames :: "pool_sys \<Rightarrow> nat multiset" where
  "private_frames s =
     mset (cached (zero_pool (globals s))) + sum_list (map held_by (producers s))"

definition with_pool :: "zeroed_pool \<Rightarrow> nat \<Rightarrow> producer \<Rightarrow> pool_sys \<Rightarrow> pool_sys" where
  "with_pool z i p s =
     s\<lparr>globals := (globals s)\<lparr>zero_pool := z\<rparr>, producers := (producers s)[i := p]\<rparr>"

definition with_alloc :: "frame_allocator \<Rightarrow> nat \<Rightarrow> producer \<Rightarrow> pool_sys \<Rightarrow> pool_sys" where
  "with_alloc a i p s =
     s\<lparr>globals := (globals s)\<lparr>alloc_state := a\<rparr>, producers := (producers s)[i := p]\<rparr>"

abbreviation the_pool :: "pool_sys \<Rightarrow> zeroed_pool" where
  "the_pool s \<equiv> zero_pool (globals s)"

abbreviation the_alloc :: "pool_sys \<Rightarrow> frame_allocator" where
  "the_alloc s \<equiv> alloc_state (globals s)"

inductive pool_step :: "pool_sys \<Rightarrow> pool_sys \<Rightarrow> bool" where
  take: "i < length (producers s) \<Longrightarrow> producers s ! i = PIdle \<Longrightarrow>
     pool_take b (the_pool s) = (z, r) \<Longrightarrow> pool_step s (with_pool z i PIdle s)"
| claim_sync: "i < length (producers s) \<Longrightarrow> producers s ! i = PIdle \<Longrightarrow>
     claim_sync_publish_slots (zeroed_sync_batch - 1) (the_pool s) = (z, c) \<Longrightarrow>
     pool_step s (with_pool z i (PClaimed True c) s)"
| claim_idle: "i < length (producers s) \<Longrightarrow> producers s ! i = PIdle \<Longrightarrow>
     claim_idle_publish_slots (the_pool s) = (z, c) \<Longrightarrow>
     pool_step s (with_pool z i (if c = 0 then PIdle else PClaimed False c) s)"
| batch_ok: "i < length (producers s) \<Longrightarrow> producers s ! i = PClaimed sync c \<Longrightarrow>
     alloc_batch (batch_size sync c) (the_alloc s) = (a, Inr fs) \<Longrightarrow>
     pool_step s (with_alloc a i (PHolding sync c fs) s)"
| batch_fails: "i < length (producers s) \<Longrightarrow> producers s ! i = PClaimed sync c \<Longrightarrow>
     alloc_batch (batch_size sync c) (the_alloc s) = (a, Inl e) \<Longrightarrow> batch_size sync c \<noteq> 0 \<Longrightarrow>
     pool_step s (with_alloc a i (PHolding sync c []) s)"
| lock_busy: "i < length (producers s) \<Longrightarrow> producers s ! i = PClaimed False c \<Longrightarrow>
     pool_step s (with_alloc (the_alloc s) i (PHolding False c []) s)"
| finish: "i < length (producers s) \<Longrightarrow> producers s ! i = PHolding sync c fs \<Longrightarrow>
     pool_step s (with_pool (finish_claim c (to_publish sync fs) (the_pool s)) i PIdle s)"
| drain: "i < length (producers s) \<Longrightarrow> producers s ! i = PIdle \<Longrightarrow>
     pool_drain zeroed_oom_drain_batch (the_pool s) = (z, out) \<Longrightarrow>
     pool_step s (with_pool z i (PDraining out) s)"
| reclaim: "i < length (producers s) \<Longrightarrow> producers s ! i = PDraining out \<Longrightarrow>
     dealloc_seq out (the_alloc s) = (a, r) \<Longrightarrow>
     pool_step s (with_alloc a i PIdle s)"
| raw_alloc: "i < length (producers s) \<Longrightarrow> producers s ! i = PIdle \<Longrightarrow>
     alloc_frame (the_alloc s) = (a, r) \<Longrightarrow> pool_step s (with_alloc a i PIdle s)"
| user_release: "i < length (producers s) \<Longrightarrow> producers s ! i = PIdle \<Longrightarrow>
     p \<notin># private_frames s \<Longrightarrow> dealloc_frame p (the_alloc s) = (a, r') \<Longrightarrow>
     pool_step s (with_alloc a i PIdle s)"
| user_share: "i < length (producers s) \<Longrightarrow> producers s ! i = PIdle \<Longrightarrow>
     p \<notin># private_frames s \<Longrightarrow> inc_ref p (the_alloc s) = (a, n) \<Longrightarrow>
     pool_step s (with_alloc a i PIdle s)"

inductive pool_reach :: "pool_sys \<Rightarrow> pool_sys \<Rightarrow> bool" for s0 where
  start: "pool_reach s0 s0"
| step: "pool_reach s0 s \<Longrightarrow> pool_step s t \<Longrightarrow> pool_reach s0 t"

section \<open>Invariant\<close>

fun producer_ok :: "producer \<Rightarrow> bool" where
  "producer_ok (PHolding sync c fs) = (length (to_publish sync fs) \<le> c)"
| "producer_ok PIdle = True"
| "producer_ok (PClaimed sync c) = True"
| "producer_ok (PDraining fs) = True"

definition pool_sys_inv :: "pool_sys \<Rightarrow> bool" where
  "pool_sys_inv s \<longleftrightarrow>
     frame_inv (the_alloc s) \<and> pool_inv (the_pool s) \<and>
     in_flight (the_pool s) = sum_list (map claim_of (producers s)) \<and>
     (\<forall>p. count (private_frames s) p \<le> 1) \<and>
     (\<forall>p. p \<in># private_frames s \<longrightarrow> owners (the_alloc s) p = 1) \<and>
     (\<forall>x \<in> set (producers s). producer_ok x)"

lemma sum_list_map_update:
  "i < length xs \<Longrightarrow>
     sum_list (map f (xs[i := y])) + f (xs ! i) = sum_list (map f xs) + (f y :: 'b::comm_monoid_add)"
proof (induction xs arbitrary: i)
  case Nil
  then show ?case by simp
next
  case (Cons x xs)
  then show ?case
    by (cases i) (auto simp: ac_simps)
qed

lemma with_pool_simps [simp]:
  "the_pool (with_pool z i p s) = z"
  "the_alloc (with_pool z i p s) = the_alloc s"
  "producers (with_pool z i p s) = (producers s)[i := p]"
  by (simp_all add: with_pool_def)

lemma with_alloc_simps [simp]:
  "the_pool (with_alloc a i p s) = the_pool s"
  "the_alloc (with_alloc a i p s) = a"
  "producers (with_alloc a i p s) = (producers s)[i := p]"
  by (simp_all add: with_alloc_def)

lemma pool_sys_invD:
  assumes "pool_sys_inv s"
  shows "frame_inv (the_alloc s)" "pool_inv (the_pool s)"
    "in_flight (the_pool s) = sum_list (map claim_of (producers s))"
    "count (private_frames s) p \<le> 1"
    "p \<in># private_frames s \<Longrightarrow> owners (the_alloc s) p = 1"
    "i < length (producers s) \<Longrightarrow> producer_ok (producers s ! i)"
  using assms by (auto simp: pool_sys_inv_def)

text \<open>
  One lemma per kind of step. A pool step replaces the pool and one producer; what it moves
  between the cache and that producer must balance.
\<close>

lemma pool_part_inv:
  assumes inv: "pool_sys_inv s" and i: "i < length (producers s)"
    and z: "pool_inv z" "in_flight z + claim_of (producers s ! i) = in_flight (the_pool s) + claim_of p"
    and fr: "mset (cached z) + held_by p \<subseteq># mset (cached (the_pool s)) + held_by (producers s ! i)"
    and ok: "producer_ok p"
  shows "pool_sys_inv (with_pool z i p s)"
proof -
  note upd = sum_list_map_update [OF i]
  have fl: "in_flight z = sum_list (map claim_of ((producers s)[i := p]))"
    using upd [of claim_of p] z(2) pool_sys_invD(3) [OF inv] by simp
  have "private_frames (with_pool z i p s) + held_by (producers s ! i) =
      mset (cached z) + sum_list (map held_by (producers s)) + held_by p"
    using upd [of held_by p] by (simp add: private_frames_def ac_simps)
  also have "\<dots> \<subseteq># private_frames s + held_by (producers s ! i)"
    using fr by (simp add: private_frames_def ac_simps)
  finally have sub: "private_frames (with_pool z i p s) \<subseteq># private_frames s" by simp
  have "count (private_frames (with_pool z i p s)) q \<le> 1" for q
    using mset_subset_eq_count [OF sub, of q] pool_sys_invD(4) [OF inv, of q] by simp
  moreover have "owners (the_alloc s) q = 1" if "q \<in># private_frames (with_pool z i p s)" for q
    using mset_subset_eqD [OF sub that] by (rule pool_sys_invD(5) [OF inv])
  ultimately show ?thesis
    using inv z(1) fl ok by (auto simp: pool_sys_inv_def set_update_subset_insert
        dest!: subsetD [OF set_update_subset_insert])
qed

lemma alloc_part_inv:
  assumes inv: "pool_sys_inv s" and i: "i < length (producers s)" and a: "frame_inv a"
    and cl: "claim_of p = claim_of (producers s ! i)"
    and own: "\<And>q. q \<in># held_by p \<Longrightarrow> owners a q = 1 \<and> count (held_by p) q \<le> 1 \<and>
        (q \<notin># private_frames s \<or> q \<in># held_by (producers s ! i))"
    and frame: "\<And>q. q \<in># private_frames s \<Longrightarrow> q \<notin># held_by (producers s ! i) \<Longrightarrow>
        owners a q = owners (the_alloc s) q"
    and ok: "producer_ok p"
  shows "pool_sys_inv (with_alloc a i p s)"
proof -
  note upd = sum_list_map_update [OF i]
  have fl: "in_flight (the_pool s) = sum_list (map claim_of ((producers s)[i := p]))"
    using upd [of claim_of p] cl pool_sys_invD(3) [OF inv] by simp
  have eq: "private_frames (with_alloc a i p s) + held_by (producers s ! i) =
      private_frames s + held_by p"
    using upd [of held_by p] by (simp add: private_frames_def ac_simps)
  have cnt: "count (private_frames (with_alloc a i p s)) q + count (held_by (producers s ! i)) q =
      count (private_frames s) q + count (held_by p) q" for q
    using arg_cong [OF eq, of "\<lambda>m. count m q"] by simp
  have le: "count (held_by (producers s ! i)) q \<le> count (private_frames s) q" for q
  proof -
    have "held_by (producers s ! i) \<subseteq># sum_list (map held_by (producers s))"
      using i by (metis nth_mem sum_list_map_remove1 mset_subset_eq_add_left)
    then show ?thesis
      by (simp add: private_frames_def mset_subset_eq_count trans_le_add2)
  qed
  have "count (private_frames (with_alloc a i p s)) q \<le> 1 \<and>
      (q \<in># private_frames (with_alloc a i p s) \<longrightarrow> owners a q = 1)" for q
  proof (cases "q \<in># held_by p")
    case True
    note o = own [OF True]
    have "count (private_frames s) q \<le> count (held_by (producers s ! i)) q"
      using o pool_sys_invD(4) [OF inv, of q]
      by (auto simp: not_in_iff) (metis One_nat_def Suc_leI count_greater_zero_iff le_trans)
    with o cnt [of q] show ?thesis by linarith
  next
    case False
    then have c: "count (private_frames (with_alloc a i p s)) q +
        count (held_by (producers s ! i)) q = count (private_frames s) q"
      using cnt [of q] by (simp add: not_in_iff)
    show ?thesis
    proof (intro conjI impI)
      show "count (private_frames (with_alloc a i p s)) q \<le> 1"
        using c pool_sys_invD(4) [OF inv, of q] by linarith
      assume "q \<in># private_frames (with_alloc a i p s)"
      then have "q \<in># private_frames s" "q \<notin># held_by (producers s ! i)"
        using c pool_sys_invD(4) [OF inv, of q]
        by (auto simp: not_in_iff simp flip: count_greater_zero_iff)
      then show "owners a q = 1"
        using frame pool_sys_invD(5) [OF inv] by simp
    qed
  qed
  then show ?thesis
    using inv a fl ok by (auto simp: pool_sys_inv_def
        dest!: subsetD [OF set_update_subset_insert])
qed


section \<open>Every step keeps the invariant\<close>

lemma private_held:
  assumes "i < length (producers s)" and "q \<in># held_by (producers s ! i)"
  shows "q \<in># private_frames s"
proof -
  have "producers s ! i \<in> set (producers s)" using assms(1) by simp
  then have "held_by (producers s ! i) \<subseteq># sum_list (map held_by (producers s))"
    by (metis sum_list_map_remove1 mset_subset_eq_add_left)
  with assms(2) show ?thesis by (auto simp: private_frames_def dest: mset_subset_eqD)
qed

lemma free_not_private:
  "pool_sys_inv s \<Longrightarrow> q \<in> free_set (the_alloc s) \<Longrightarrow> q \<notin># private_frames s"
  using pool_sys_invD(5) [of s q] by (auto simp: free_set_def)

lemma distinct_count_le_1: "distinct xs \<Longrightarrow> count (mset xs) q \<le> 1"
  by (simp add: distinct_count_atmost_1)

lemma count_le_1_distinct:
  assumes "\<And>q. count (mset xs) q \<le> 1"
  shows "distinct xs"
  unfolding distinct_count_atmost_1
proof
  fix a
  show "count (mset xs) a = (if a \<in> set xs then 1 else 0)"
    using assms [of a] count_greater_zero_iff [of "mset xs" a]
    by (cases "a \<in> set xs") (auto simp: count_eq_zero_iff simp del: count_greater_zero_iff)
qed

lemma batch_ok_inv:
  assumes inv: "pool_sys_inv s" and i: "i < length (producers s)"
    and p: "producers s ! i = PClaimed sync c"
    and b: "alloc_batch (batch_size sync c) (the_alloc s) = (a, Inr fs)"
  shows "pool_sys_inv (with_alloc a i (PHolding sync c fs) s)"
proof (rule alloc_part_inv [OF inv i])
  note ab = alloc_batch_Inr [OF pool_sys_invD(1) [OF inv] b]
  show "frame_inv a" using ab by simp
  show "owners a q = 1 \<and> count (held_by (PHolding sync c fs)) q \<le> 1 \<and>
      (q \<notin># private_frames s \<or> q \<in># held_by (producers s ! i))"
    if "q \<in># held_by (PHolding sync c fs)" for q
    using that ab free_not_private [OF inv, of q] distinct_count_le_1 [of fs q] by auto
  show "owners a q = owners (the_alloc s) q"
    if "q \<in># private_frames s" "q \<notin># held_by (producers s ! i)" for q
    using that ab free_not_private [OF inv, of q] by auto
  show "producer_ok (PHolding sync c fs)"
    using ab by (auto simp: to_publish_def batch_size_def)
qed (simp add: p)

lemma quiet_alloc_inv:
  assumes inv: "pool_sys_inv s" and i: "i < length (producers s)" and a: "frame_inv a"
    and cl: "claim_of p = claim_of (producers s ! i)" and none: "held_by p = {#}"
    and frame: "\<And>q. q \<in># private_frames s \<Longrightarrow> q \<notin># held_by (producers s ! i) \<Longrightarrow>
        owners a q = owners (the_alloc s) q"
    and ok: "producer_ok p"
  shows "pool_sys_inv (with_alloc a i p s)"
  by (rule alloc_part_inv [OF inv i a cl]) (use none frame ok in auto)

lemma reclaim_inv:
  assumes inv: "pool_sys_inv s" and i: "i < length (producers s)"
    and p: "producers s ! i = PDraining out" and d: "dealloc_seq out (the_alloc s) = (a, r)"
  shows "pool_sys_inv (with_alloc a i PIdle s)"
proof -
  have mem: "q \<in># private_frames s" if "q \<in> set out" for q
    using that i p by (intro private_held [of i]) auto
  have sub: "mset out \<subseteq># private_frames s"
  proof -
    have "producers s ! i \<in> set (producers s)" using i by simp
    then have "held_by (producers s ! i) \<subseteq># sum_list (map held_by (producers s))"
      by (metis sum_list_map_remove1 mset_subset_eq_add_left)
    then show ?thesis
      using subset_mset.add_increasing [of "mset (cached (the_pool s))"]
      by (simp add: p private_frames_def)
  qed
  have "count (mset out) q \<le> 1" for q
    using mset_subset_eq_count [OF sub] pool_sys_invD(4) [OF inv] by (rule le_trans)
  then have "distinct out" by (rule count_le_1_distinct)
  moreover have "owners (the_alloc s) q = 1" if "q \<in> set out" for q
    using mem [OF that] by (rule pool_sys_invD(5) [OF inv])
  ultimately obtain a' where "dealloc_seq out (the_alloc s) = (a', Inr ())" "frame_inv a'"
    "owners a' = (\<lambda>q. if q \<in> set out then 0 else owners (the_alloc s) q)"
    using dealloc_seq_ok [OF pool_sys_invD(1) [OF inv]] by blast
  with d have "frame_inv a"
    "owners a = (\<lambda>q. if q \<in> set out then 0 else owners (the_alloc s) q)" by auto
  then show ?thesis
    by (intro quiet_alloc_inv [OF inv i]) (auto simp: p)
qed

lemma raw_alloc_inv:
  assumes inv: "pool_sys_inv s" and i: "i < length (producers s)" and p: "producers s ! i = PIdle"
    and a: "alloc_frame (the_alloc s) = (a, r)"
  shows "pool_sys_inv (with_alloc a i PIdle s)"
proof (cases r)
  case (Inl e)
  with alloc_frame_Inl [OF pool_sys_invD(1) [OF inv]] a show ?thesis
    by (intro quiet_alloc_inv [OF inv i]) (auto simp: p)
next
  case (Inr f)
  with alloc_frame_Inr [OF pool_sys_invD(1) [OF inv]] a free_not_private [OF inv]
  show ?thesis by (intro quiet_alloc_inv [OF inv i]) (auto simp: p)
qed

lemma user_release_inv:
  assumes inv: "pool_sys_inv s" and i: "i < length (producers s)" and p: "producers s ! i = PIdle"
    and q: "q \<notin># private_frames s" and d: "dealloc_frame q (the_alloc s) = (a, r)"
  shows "pool_sys_inv (with_alloc a i PIdle s)"
proof (cases "owners (the_alloc s) q = 0")
  case True
  with stack.dealloc_fails [OF pool_sys_invD(1) [OF inv]] d have "a = the_alloc s" by auto
  then show ?thesis
    using pool_sys_invD(1) [OF inv] by (intro quiet_alloc_inv [OF inv i]) (auto simp: p)
next
  case False
  with stack.dealloc_ok [OF pool_sys_invD(1) [OF inv], of q] d q show ?thesis
    by (intro quiet_alloc_inv [OF inv i]) (auto simp: p)
qed

lemma user_share_inv:
  assumes inv: "pool_sys_inv s" and i: "i < length (producers s)" and p: "producers s ! i = PIdle"
    and q: "q \<notin># private_frames s" and d: "inc_ref q (the_alloc s) = (a, r)"
  shows "pool_sys_inv (with_alloc a i PIdle s)"
proof (cases "owners (the_alloc s) q = 0")
  case True
  with inc_ref_eq [OF pool_sys_invD(1) [OF inv]] d have "a = the_alloc s" by auto
  then show ?thesis
    using pool_sys_invD(1) [OF inv] by (intro quiet_alloc_inv [OF inv i]) (auto simp: p)
next
  case False
  with inc_ref_owned [OF pool_sys_invD(1) [OF inv], of q] d q show ?thesis
    by (intro quiet_alloc_inv [OF inv i]) (auto simp: p)
qed

lemma finish_inv:
  assumes inv: "pool_sys_inv s" and i: "i < length (producers s)"
    and p: "producers s ! i = PHolding sync c fs"
  shows "pool_sys_inv (with_pool (finish_claim c (to_publish sync fs) (the_pool s)) i PIdle s)"
proof (rule pool_part_inv [OF inv i])
  have le: "length (to_publish sync fs) \<le> c"
    using pool_sys_invD(6) [OF inv i] by (simp add: p)
  have "c \<le> in_flight (the_pool s)"
    using sum_list_map_update [OF i, of claim_of PIdle] pool_sys_invD(3) [OF inv] by (simp add: p)
  note fin = finish_claim_spec [OF pool_sys_invD(2) [OF inv] this le]
  show "pool_inv (finish_claim c (to_publish sync fs) (the_pool s))" using fin by simp
  show "in_flight (finish_claim c (to_publish sync fs) (the_pool s)) + claim_of (producers s ! i) =
      in_flight (the_pool s) + claim_of PIdle"
    using fin \<open>c \<le> in_flight (the_pool s)\<close> by (simp add: p)
  have "mset (to_publish sync fs) \<subseteq># mset fs"
    by (cases fs) (auto simp: to_publish_def)
  then show "mset (cached (finish_claim c (to_publish sync fs) (the_pool s))) + held_by PIdle
      \<subseteq># mset (cached (the_pool s)) + held_by (producers s ! i)"
    using fin by (simp add: p)
qed simp

lemma pool_step_inv:
  assumes "pool_step s t" and inv: "pool_sys_inv s"
  shows "pool_sys_inv t"
  using assms(1)
proof cases
  case (take i b z r)
  show ?thesis
  proof (cases r)
    case None
    with take pool_take_None [of b "the_pool s" z] pool_sys_invD(2) [OF inv] show ?thesis
      unfolding take(1) by (intro pool_part_inv [OF inv]) auto
  next
    case (Some f)
    with take pool_take_Some [OF pool_sys_invD(2) [OF inv], of b z f] show ?thesis
      unfolding take(1) by (intro pool_part_inv [OF inv]) auto
  qed
next
  case (claim_sync i z c)
  with claim_sync_spec [OF pool_sys_invD(2) [OF inv]] show ?thesis
    unfolding claim_sync(1) by (intro pool_part_inv [OF inv]) auto
next
  case (claim_idle i z c)
  with claim_idle_spec [OF pool_sys_invD(2) [OF inv]] show ?thesis
    unfolding claim_idle(1) by (intro pool_part_inv [OF inv]) auto
next
  case (batch_ok i sync c a fs)
  with batch_ok_inv [OF inv] show ?thesis by simp
next
  case (batch_fails i sync c a e)
  with alloc_batch_Inl [OF pool_sys_invD(1) [OF inv] batch_fails(4,5)] show ?thesis
    unfolding batch_fails(1) by (intro quiet_alloc_inv [OF inv]) (auto simp: to_publish_def)
next
  case (lock_busy i c)
  with pool_sys_invD(1) [OF inv] show ?thesis
    unfolding lock_busy(1) by (intro quiet_alloc_inv [OF inv]) (auto simp: to_publish_def)
next
  case (finish i sync c fs)
  with finish_inv [OF inv] show ?thesis by simp
next
  case (drain i z out)
  with pool_drain_spec [OF pool_sys_invD(2) [OF inv]] show ?thesis
    unfolding drain(1) by (intro pool_part_inv [OF inv]) auto
next
  case (reclaim i out a r)
  with reclaim_inv [OF inv] show ?thesis by simp
next
  case (raw_alloc i a r)
  with raw_alloc_inv [OF inv] show ?thesis by simp
next
  case (user_release i p a r)
  with user_release_inv [OF inv] show ?thesis by simp
next
  case (user_share i p a n)
  with user_share_inv [OF inv] show ?thesis by simp
qed

lemma pool_reach_inv: "pool_reach s0 s \<Longrightarrow> pool_sys_inv s0 \<Longrightarrow> pool_sys_inv s"
  by (induction rule: pool_reach.induct) (auto intro: pool_step_inv)

section \<open>Property\<close>

definition boot_sys :: "nat \<Rightarrow> frame_globals \<Rightarrow> pool_sys" where
  "boot_sys cpus g = \<lparr>globals = g, producers = replicate cpus PIdle\<rparr>"

lemma sum_list_replicate_empty [simp]: "sum_list (replicate n {#}) = {#}"
  by (induction n) simp_all

lemma boot_sys_inv:
  assumes "g_inv g" and "in_flight (zero_pool g) = 0"
  shows "pool_sys_inv (boot_sys cpus g)"
  using g_invD [OF assms(1)] assms(2)
  by (auto simp: pool_sys_inv_def boot_sys_def private_frames_def
      intro!: distinct_count_le_1 [simplified])

text \<open>
  C4. from a freshly initialised allocator, in every state that any interleaving of the CPUs'
  critical sections reaches: the slots in use and reserved never exceed the pool's capacity, the
  reserved slots are exactly those the CPUs have claimed, no frame is in the cache or in a CPU's
  batch twice, and each of those frames is marked allocated with one reference. So the
  assertions of \<open>finish_claim\<close> hold and its array write is in bounds.
\<close>

theorem pool_interleaving_safe:
  assumes "g_inv g" and "in_flight (zero_pool g) = 0" and "pool_reach (boot_sys cpus g) s"
  shows "pool_len (the_pool s) + in_flight (the_pool s) \<le> zeroed_pool_capacity \<and>
    in_flight (the_pool s) = sum_list (map claim_of (producers s)) \<and>
    (\<forall>p. count (private_frames s) p \<le> 1) \<and>
    (\<forall>p. p \<in># private_frames s \<longrightarrow> owners (the_alloc s) p = 1) \<and>
    (\<forall>x \<in> set (producers s). producer_ok x)"
  using pool_reach_inv [OF assms(3) boot_sys_inv [OF assms(1,2)]]
  by (simp add: pool_sys_inv_def pool_inv_def)

definition demo_claimed :: pool_sys where
  "demo_claimed = with_pool ((zero_pool demo_globals)\<lparr>in_flight := 15\<rparr>) 0 (PClaimed True 15)
     (boot_sys 2 demo_globals)"

lemma demo_claimed_reach: "pool_reach (boot_sys 2 demo_globals) demo_claimed"
  unfolding demo_claimed_def
  by (rule pool_reach.step [OF pool_reach.start], rule pool_step.claim_sync)
    (simp_all add: boot_sys_def demo_globals_def new_zeroed_pool_def sat_add_def Let_def
      claim_sync_publish_slots_def zeroed_sync_batch_def zeroed_pool_capacity_def usize_max_def)

lemma demo_globals_in_flight: "in_flight (zero_pool demo_globals) = 0"
  by (simp add: demo_globals_def new_zeroed_pool_def)

theorem pool_interleaving_safe_witness:
  "g_inv demo_globals \<and> in_flight (zero_pool demo_globals) = 0 \<and>
   pool_reach (boot_sys 2 demo_globals) demo_claimed \<and> in_flight (the_pool demo_claimed) = 15 \<and>
   pool_len (the_pool demo_claimed) + in_flight (the_pool demo_claimed) \<le> zeroed_pool_capacity"
  using pool_interleaving_safe [OF demo_globals_inv demo_globals_in_flight demo_claimed_reach]
    demo_globals_inv demo_globals_in_flight demo_claimed_reach
  by (simp add: demo_claimed_def)

end
