(* ===== verification/Ordered_Map.thy ===== *)
theory Ordered_Map
  imports Prelude
begin

text \<open>
  \<open>alloc::collections::BTreeMap\<close> as the kernel uses it: a finite map that is iterated in
  key order and searched for the neighbours of a key. The interface is a locale over lookup,
  update, removal and the two neighbour searches; the list of entries in ascending key order
  provides it. \<open>map.range(..=k).next_back()\<close> is the greatest key with the property
  \<open>\<le> k\<close>, \<open>map.range(k..).next()\<close> the least with \<open>\<ge> k\<close>, and so on.
\<close>

locale ordered_map =
  fixes get :: "'m \<Rightarrow> 'k::linorder \<Rightarrow> 'v option"
    and put :: "'k \<Rightarrow> 'v \<Rightarrow> 'm \<Rightarrow> 'm"
    and del :: "'k \<Rightarrow> 'm \<Rightarrow> 'm"
    and greatest :: "('k \<Rightarrow> bool) \<Rightarrow> 'm \<Rightarrow> ('k \<times> 'v) option"
    and least :: "('k \<Rightarrow> bool) \<Rightarrow> 'm \<Rightarrow> ('k \<times> 'v) option"
    and wf :: "'m \<Rightarrow> bool"
  assumes get_put: "wf m \<Longrightarrow> get (put k v m) = (get m)(k \<mapsto> v)"
    and wf_put: "wf m \<Longrightarrow> wf (put k v m)"
    and get_del: "wf m \<Longrightarrow> get (del k m) = (get m)(k := None)"
    and wf_del: "wf m \<Longrightarrow> wf (del k m)"
    and greatest_Some: "wf m \<Longrightarrow> greatest P m = Some (j, v) \<longleftrightarrow>
        get m j = Some v \<and> P j \<and> (\<forall>i. get m i \<noteq> None \<and> P i \<longrightarrow> i \<le> j)"
    and greatest_None: "wf m \<Longrightarrow> greatest P m = None \<longleftrightarrow> (\<forall>i. get m i \<noteq> None \<longrightarrow> \<not> P i)"
    and least_Some: "wf m \<Longrightarrow> least P m = Some (j, v) \<longleftrightarrow>
        get m j = Some v \<and> P j \<and> (\<forall>i. get m i \<noteq> None \<and> P i \<longrightarrow> j \<le> i)"
    and least_None: "wf m \<Longrightarrow> least P m = None \<longleftrightarrow> (\<forall>i. get m i \<noteq> None \<longrightarrow> \<not> P i)"
begin

lemma greatest_get: "wf m \<Longrightarrow> greatest P m = Some (j, v) \<Longrightarrow> get m j = Some v \<and> P j"
  by (simp add: greatest_Some)

lemma least_get: "wf m \<Longrightarrow> least P m = Some (j, v) \<Longrightarrow> get m j = Some v \<and> P j"
  by (simp add: least_Some)

lemma greatest_ge: "wf m \<Longrightarrow> greatest P m = Some (j, v) \<Longrightarrow> get m i = Some w \<Longrightarrow> P i \<Longrightarrow> i \<le> j"
  by (auto simp: greatest_Some)

lemma least_le: "wf m \<Longrightarrow> least P m = Some (j, v) \<Longrightarrow> get m i = Some w \<Longrightarrow> P i \<Longrightarrow> j \<le> i"
  by (auto simp: least_Some)

lemma put_put_del:
  "wf m \<Longrightarrow> get (put k v (del i m)) = (get m)(i := None, k \<mapsto> v) \<and> wf (put k v (del i m))"
  by (simp add: get_put get_del wf_del wf_put)

end

section \<open>Entries in key order\<close>

type_synonym ('k, 'v) omap = "('k \<times> 'v) list"

definition om_ok :: "('k::linorder, 'v) omap \<Rightarrow> bool" where
  "om_ok m \<longleftrightarrow> sorted_wrt (<) (map fst m)"

definition om_get :: "('k, 'v) omap \<Rightarrow> 'k \<Rightarrow> 'v option" where
  "om_get m k = map_of m k"

definition om_insert :: "'k::linorder \<Rightarrow> 'v \<Rightarrow> ('k, 'v) omap \<Rightarrow> ('k, 'v) omap" where
  "om_insert k v m = filter (\<lambda>e. fst e < k) m @ (k, v) # filter (\<lambda>e. k < fst e) m"

definition om_remove :: "'k \<Rightarrow> ('k, 'v) omap \<Rightarrow> ('k, 'v) omap" where
  "om_remove k m = filter (\<lambda>e. fst e \<noteq> k) m"

definition om_greatest :: "('k \<Rightarrow> bool) \<Rightarrow> ('k, 'v) omap \<Rightarrow> ('k \<times> 'v) option" where
  "om_greatest P m =
     (case rev (filter (\<lambda>e. P (fst e)) m) of [] \<Rightarrow> None | e # _ \<Rightarrow> Some e)"

definition om_least :: "('k \<Rightarrow> bool) \<Rightarrow> ('k, 'v) omap \<Rightarrow> ('k \<times> 'v) option" where
  "om_least P m = (case filter (\<lambda>e. P (fst e)) m of [] \<Rightarrow> None | e # _ \<Rightarrow> Some e)"

text \<open>\<open>range(a..b)\<close> and \<open>range(a..)\<close> in ascending order.\<close>

definition om_range :: "'k::linorder \<Rightarrow> 'k \<Rightarrow> ('k, 'v) omap \<Rightarrow> ('k \<times> 'v) list" where
  "om_range a b m = filter (\<lambda>e. a \<le> fst e \<and> fst e < b) m"

definition om_from :: "'k::linorder \<Rightarrow> ('k, 'v) omap \<Rightarrow> ('k \<times> 'v) list" where
  "om_from a m = filter (\<lambda>e. a \<le> fst e) m"

lemma om_ok_distinct: "om_ok m \<Longrightarrow> distinct (map fst m)"
  by (simp add: om_ok_def strict_sorted_iff)

lemma om_ok_Nil [simp]: "om_ok []"
  by (simp add: om_ok_def)

lemma om_ok_Cons: "om_ok (e # m) \<longleftrightarrow> om_ok m \<and> (\<forall>e' \<in> set m. fst e < fst e')"
  by (auto simp: om_ok_def)

lemma om_ok_append:
  "om_ok (xs @ ys) \<longleftrightarrow> om_ok xs \<and> om_ok ys \<and> (\<forall>x \<in> set xs. \<forall>y \<in> set ys. fst x < fst y)"
  by (auto simp: om_ok_def sorted_wrt_append)

lemma om_ok_filter: "om_ok m \<Longrightarrow> om_ok (filter P m)"
  by (induction m) (auto simp: om_ok_Cons)

lemma om_get_iff: "om_ok m \<Longrightarrow> om_get m k = Some v \<longleftrightarrow> (k, v) \<in> set m"
  by (simp add: om_get_def om_ok_distinct)

lemma om_get_eqI:
  assumes "om_ok m" and "\<And>i w. (i, w) \<in> set m \<longleftrightarrow> f i = Some w"
  shows "om_get m = f"
proof
  fix i
  show "om_get m i = f i"
    using om_get_iff [OF assms(1), of i] assms(2) [of i] by (metis not_None_eq option.collapse)
qed

lemma om_ok_insert: "om_ok m \<Longrightarrow> om_ok (om_insert k v m)"
  by (auto simp: om_insert_def om_ok_append om_ok_Cons om_ok_filter intro: less_trans)

lemma om_get_insert: "om_ok m \<Longrightarrow> om_get (om_insert k v m) = (om_get m)(k \<mapsto> v)"
  by (rule om_get_eqI) (auto simp: om_ok_insert om_get_iff, auto simp: om_insert_def)

lemma om_ok_remove: "om_ok m \<Longrightarrow> om_ok (om_remove k m)"
  by (simp add: om_remove_def om_ok_filter)

lemma om_get_remove: "om_ok m \<Longrightarrow> om_get (om_remove k m) = (om_get m)(k := None)"
  by (rule om_get_eqI) (auto simp: om_ok_remove om_get_iff, auto simp: om_remove_def)

lemma om_get_None: "om_ok m \<Longrightarrow> om_get m i \<noteq> None \<longleftrightarrow> (\<exists>w. (i, w) \<in> set m)"
  using om_get_iff [of m i] by auto

lemma om_ok_hd_least:
  assumes "om_ok (e # m)" and "e' \<in> set (e # m)"
  shows "fst e \<le> fst e'"
  using assms by (auto simp: om_ok_Cons less_imp_le)

lemma om_ok_last_greatest:
  assumes "om_ok (m @ [e])" and "e' \<in> set (m @ [e])"
  shows "fst e' \<le> fst e"
  using assms by (auto simp: om_ok_append less_imp_le)

lemma om_least_Some:
  assumes ok: "om_ok m"
  shows "om_least P m = Some (j, v) \<longleftrightarrow>
    om_get m j = Some v \<and> P j \<and> (\<forall>i. om_get m i \<noteq> None \<and> P i \<longrightarrow> j \<le> i)"
    (is "_ \<longleftrightarrow> ?R")
proof (cases "om_least P m")
  case None
  then have "filter (\<lambda>e. P (fst e)) m = []"
    by (auto simp: om_least_def split: list.splits)
  then have "\<not> ?R" by (auto simp: om_get_iff [OF ok] filter_empty_conv)
  with None show ?thesis by simp
next
  let ?f = "filter (\<lambda>e. P (fst e)) m"
  case (Some e)
  then obtain rest where f: "?f = e # rest"
    by (auto simp: om_least_def split: list.splits)
  obtain a w where e: "e = (a, w)" by (cases e)
  have "e \<in> set ?f" by (simp add: f)
  then have a: "om_get m a = Some w" "P a" by (simp_all add: e om_get_iff [OF ok])
  have bound: "a \<le> i" if "om_get m i \<noteq> None" "P i" for i
  proof -
    from that(1) obtain u where "(i, u) \<in> set m" using om_get_None [OF ok] by blast
    with that(2) have "(i, u) \<in> set ?f" by simp
    then have "(i, u) \<in> set (e # rest)" by (simp only: f)
    moreover have "om_ok (e # rest)"
      using om_ok_filter [OF ok, of "\<lambda>e. P (fst e)"] by (simp only: f)
    ultimately have "fst e \<le> fst (i, u)" using om_ok_hd_least by blast
    then show ?thesis by (simp add: e)
  qed
  show ?thesis
  proof
    assume "om_least P m = Some (j, v)"
    with Some e a bound show ?R by auto
  next
    assume r: ?R
    with a bound have "j = a" by (auto intro: antisym)
    with r a Some e show "om_least P m = Some (j, v)" by simp
  qed
qed

lemma om_greatest_Some:
  assumes ok: "om_ok m"
  shows "om_greatest P m = Some (j, v) \<longleftrightarrow>
    om_get m j = Some v \<and> P j \<and> (\<forall>i. om_get m i \<noteq> None \<and> P i \<longrightarrow> i \<le> j)"
    (is "_ \<longleftrightarrow> ?R")
proof (cases "om_greatest P m")
  case None
  then have "rev (filter (\<lambda>e. P (fst e)) m) = []"
    by (auto simp: om_greatest_def simp del: rev_is_Nil_conv split: list.splits)
  then have "\<not> ?R" by (auto simp: om_get_iff [OF ok] filter_empty_conv)
  with None show ?thesis by simp
next
  let ?f = "filter (\<lambda>e. P (fst e)) m"
  case (Some e)
  then obtain rest where "rev ?f = e # rest"
    by (auto simp: om_greatest_def simp del: rev_filter split: list.splits)
  then have f: "?f = rev rest @ [e]" by (simp only: rev_eq_Cons_iff)
  obtain a w where e: "e = (a, w)" by (cases e)
  have "e \<in> set ?f" by (simp add: f)
  then have a: "om_get m a = Some w" "P a" by (simp_all add: e om_get_iff [OF ok])
  have bound: "i \<le> a" if "om_get m i \<noteq> None" "P i" for i
  proof -
    from that(1) obtain u where "(i, u) \<in> set m" using om_get_None [OF ok] by blast
    with that(2) have "(i, u) \<in> set ?f" by simp
    then have "(i, u) \<in> set (rev rest @ [e])" by (simp only: f)
    moreover have "om_ok (rev rest @ [e])"
      using om_ok_filter [OF ok, of "\<lambda>e. P (fst e)"] by (simp only: f)
    ultimately have "fst (i, u) \<le> fst e" using om_ok_last_greatest by blast
    then show ?thesis by (simp add: e)
  qed
  show ?thesis
  proof
    assume "om_greatest P m = Some (j, v)"
    with Some e a bound show ?R by auto
  next
    assume r: ?R
    with a bound have "j = a" by (auto intro: antisym)
    with r a Some e show "om_greatest P m = Some (j, v)" by simp
  qed
qed

lemma om_least_None:
  assumes ok: "om_ok m"
  shows "om_least P m = None \<longleftrightarrow> (\<forall>i. om_get m i \<noteq> None \<longrightarrow> \<not> P i)"
proof -
  have "om_least P m = None \<longleftrightarrow> filter (\<lambda>e. P (fst e)) m = []"
    by (simp add: om_least_def split: list.splits)
  then show ?thesis
    unfolding om_get_None [OF ok] by (auto simp: filter_empty_conv)
qed

lemma om_greatest_None:
  assumes ok: "om_ok m"
  shows "om_greatest P m = None \<longleftrightarrow> (\<forall>i. om_get m i \<noteq> None \<longrightarrow> \<not> P i)"
proof -
  have "om_greatest P m = None \<longleftrightarrow> filter (\<lambda>e. P (fst e)) m = []"
    by (cases "rev (filter (\<lambda>e. P (fst e)) m)") (auto simp: om_greatest_def)
  then show ?thesis
    unfolding om_get_None [OF ok] by (auto simp: filter_empty_conv)
qed

interpretation om: ordered_map om_get om_insert om_remove om_greatest om_least om_ok
  by unfold_locales (simp_all only: om_get_insert om_ok_insert om_get_remove om_ok_remove
      om_greatest_Some om_greatest_None om_least_Some om_least_None)

lemma om_range_mem: "om_ok m \<Longrightarrow> (k, v) \<in> set (om_range a b m) \<longleftrightarrow>
    om_get m k = Some v \<and> a \<le> k \<and> k < b"
  by (auto simp: om_range_def om_get_iff)

lemma om_from_mem: "om_ok m \<Longrightarrow> (k, v) \<in> set (om_from a m) \<longleftrightarrow> om_get m k = Some v \<and> a \<le> k"
  by (auto simp: om_from_def om_get_iff)

lemma om_ok_range: "om_ok m \<Longrightarrow> om_ok (om_range a b m)"
  by (simp add: om_range_def om_ok_filter)

lemma om_ok_from: "om_ok m \<Longrightarrow> om_ok (om_from a m)"
  by (simp add: om_from_def om_ok_filter)

text \<open>Sizes, for the termination of loops that merge entries.\<close>

lemma length_om_remove_less: "om_get m k \<noteq> None \<Longrightarrow> length (om_remove k m) < length m"
  by (auto simp: om_remove_def om_get_def map_of_eq_None_iff intro!: length_filter_less)

lemma length_om_insert_present:
  assumes "om_get m k \<noteq> None"
  shows "length (om_insert k v m) \<le> length m"
proof -
  have "length (filter (\<lambda>e. fst e < k) m) + length (filter (\<lambda>e. k < fst e) m) +
      length (filter (\<lambda>e. fst e = k) m) = length m"
    by (induction m) auto
  moreover have "0 < length (filter (\<lambda>e. fst e = k) m)"
    using assms by (auto simp: om_get_def map_of_eq_None_iff filter_empty_conv)
  ultimately have "length (filter (\<lambda>e. fst e < k) m) +
      Suc (length (filter (\<lambda>e. k < fst e) m)) \<le> length m" by linarith
  then show ?thesis
    by (simp add: om_insert_def)
qed

lemma om_least_present:
  assumes "om_least P m = Some (j, v)"
  shows "om_get m j \<noteq> None \<and> P j"
proof -
  from assms obtain rest where "filter (\<lambda>e. P (fst e)) m = (j, v) # rest"
    by (auto simp: om_least_def split: list.splits)
  then have "(j, v) \<in> set (filter (\<lambda>e. P (fst e)) m)" by simp
  then show ?thesis by (force simp: om_get_def map_of_eq_None_iff)
qed

lemma om_get_remove_other: "j \<noteq> k \<Longrightarrow> om_get (om_remove j m) k = om_get m k"
  by (induction m) (auto simp: om_get_def om_remove_def)

lemma om_insert_remove: "om_insert k v (om_remove k m) = om_insert k v m"
proof -
  have "filter (\<lambda>e. fst e < k) (om_remove k m) = filter (\<lambda>e. fst e < k) m"
    "filter (\<lambda>e. k < fst e) (om_remove k m) = filter (\<lambda>e. k < fst e) m"
    unfolding om_remove_def filter_filter by (rule filter_cong, simp, auto)+
  then show ?thesis by (simp add: om_insert_def)
qed

end
