(* ===== verification/Vma.thy ===== *)
theory Vma
  imports Ordered_Map Frame_Alloc
begin

unbundle bit_operations_syntax

text \<open>
  The user address space registry (\<open>mm-impl/common/src/vma.rs\<close>): \<open>vm_area\<close> is
  \<open>VmArea\<close>, \<open>vma_set\<close> the \<open>BTreeMap\<close> inside \<open>VmaSet\<close>. Addresses are
  \<open>nat\<close> with \<open>usize_max\<close> written out where the source uses checked additions. A
  demand loader is an opaque value of type \<open>'l\<close>; its only operation the registry calls,
  \<open>duplicate_box\<close>, may fail and is the parameter \<open>dup\<close>. A device lease is an opaque
  value of type \<open>'d\<close> whose clone is itself.
\<close>

section \<open>Areas\<close>

datatype mm_error =
    MmOutOfMemory
  | InvalidAddress
  | AlreadyMapped
  | NotMapped
  | AccessViolation
  | MmUnsupported
  | MmFrameAlloc frame_alloc_error

datatype vma_kind = KAnonymous | KFile | KHeap | KStack | KSharedMemory | KDevice

datatype vma_sharing = Private | Shared

datatype ('l, 'd) vma_backing =
    BAnonymous
  | BFile "'l option"
  | BExternal
  | BDevice nat 'd

type_synonym page_perm = "8 word"

record ('l, 'd) vm_area =
  start :: nat
  end_addr :: nat
  perm :: page_perm
  sharing :: vma_sharing
  kind :: vma_kind
  demand_paged :: bool
  file_offset :: nat
  file_size :: nat
  backing :: "('l, 'd) vma_backing"

definition backing_duplicate ::
  "('l \<Rightarrow> (mm_error, 'l) result) \<Rightarrow> ('l, 'd) vma_backing \<Rightarrow> (mm_error, ('l, 'd) vma_backing) result"
where
  "backing_duplicate dup b =
     (case b of
        BAnonymous \<Rightarrow> Inr BAnonymous
      | BFile None \<Rightarrow> Inr (BFile None)
      | BFile (Some loader) \<Rightarrow> res_bind (dup loader) (\<lambda>l. Inr (BFile (Some l)))
      | BExternal \<Rightarrow> Inr BExternal
      | BDevice phys lease \<Rightarrow> Inr (BDevice phys lease))"

definition shift_start :: "nat \<Rightarrow> ('l, 'd) vma_backing \<Rightarrow> (mm_error, ('l, 'd) vma_backing) result"
where
  "shift_start skipped b =
     (case b of
        BDevice phys lease \<Rightarrow>
          if skipped mod page_size \<noteq> 0 then Inl InvalidAddress
          else res_bind (ok_or InvalidAddress (checked_add usize_max phys (skipped div page_size)))
                 (\<lambda>p. Inr (BDevice p lease))
      | _ \<Rightarrow> Inr b)"

definition area_anonymous ::
  "nat \<Rightarrow> nat \<Rightarrow> page_perm \<Rightarrow> vma_sharing \<Rightarrow> vma_kind \<Rightarrow> bool \<Rightarrow> ('l, 'd) vm_area" where
  "area_anonymous st en p sh k demand =
     \<lparr>start = st, end_addr = en, perm = p, sharing = sh, kind = k, demand_paged = demand,
      file_offset = 0, file_size = 0, backing = BAnonymous\<rparr>"

definition area_file ::
  "nat \<Rightarrow> nat \<Rightarrow> page_perm \<Rightarrow> vma_sharing \<Rightarrow> bool \<Rightarrow> nat \<Rightarrow> nat \<Rightarrow> 'l option \<Rightarrow> ('l, 'd) vm_area"
where
  "area_file st en p sh demand off sz loader =
     \<lparr>start = st, end_addr = en, perm = p, sharing = sh, kind = KFile, demand_paged = demand,
      file_offset = off, file_size = sz, backing = BFile loader\<rparr>"

definition area_device :: "nat \<Rightarrow> nat \<Rightarrow> page_perm \<Rightarrow> nat \<Rightarrow> 'd \<Rightarrow> ('l, 'd) vm_area" where
  "area_device st en p phys lease =
     \<lparr>start = st, end_addr = en, perm = p, sharing = Shared, kind = KDevice,
      demand_paged = False, file_offset = 0, file_size = 0, backing = BDevice phys lease\<rparr>"

definition area_external :: "nat \<Rightarrow> nat \<Rightarrow> page_perm \<Rightarrow> ('l, 'd) vm_area" where
  "area_external st en p =
     \<lparr>start = st, end_addr = en, perm = p, sharing = Shared, kind = KSharedMemory,
      demand_paged = False, file_offset = 0, file_size = 0, backing = BExternal\<rparr>"

definition area_duplicate ::
  "('l \<Rightarrow> (mm_error, 'l) result) \<Rightarrow> ('l, 'd) vm_area \<Rightarrow> (mm_error, ('l, 'd) vm_area) result" where
  "area_duplicate dup v =
     res_bind (backing_duplicate dup (backing v)) (\<lambda>b. Inr (v\<lparr>backing := b\<rparr>))"

definition contains_page :: "('l, 'd) vm_area \<Rightarrow> nat \<Rightarrow> bool" where
  "contains_page v page \<longleftrightarrow> start v \<le> page \<and> page < end_addr v"

definition area_overlaps :: "('l, 'd) vm_area \<Rightarrow> nat \<Rightarrow> nat \<Rightarrow> bool" where
  "area_overlaps v st en \<longleftrightarrow> st < end_addr v \<and> start v < en"

definition is_external :: "('l, 'd) vm_area \<Rightarrow> bool" where
  "is_external v \<longleftrightarrow> (case backing v of BExternal \<Rightarrow> True | _ \<Rightarrow> False)"

definition is_non_owned :: "('l, 'd) vm_area \<Rightarrow> bool" where
  "is_non_owned v \<longleftrightarrow> (case backing v of BExternal \<Rightarrow> True | BDevice p d \<Rightarrow> True | _ \<Rightarrow> False)"

definition device_phys_start :: "('l, 'd) vm_area \<Rightarrow> nat option" where
  "device_phys_start v = (case backing v of BDevice p d \<Rightarrow> Some p | _ \<Rightarrow> None)"

definition validate_new_start :: "('l, 'd) vm_area \<Rightarrow> nat \<Rightarrow> (mm_error, unit) result" where
  "validate_new_start v st =
     (if st < start v \<or> end_addr v \<le> st \<or> st mod page_size \<noteq> 0 then Inl InvalidAddress
      else let skipped = st - start v in
        if kind v = KFile \<and> checked_add usize_max (file_offset v) skipped = None
        then Inl InvalidAddress
        else (case backing v of
            BDevice phys d \<Rightarrow>
              if checked_add usize_max phys (skipped div page_size) = None
              then Inl InvalidAddress else Inr ()
          | _ \<Rightarrow> Inr ()))"

definition set_start :: "nat \<Rightarrow> ('l, 'd) vm_area \<Rightarrow> (mm_error, ('l, 'd) vm_area) result" where
  "set_start st v =
     res_bind (validate_new_start v st) (\<lambda>_.
       let skipped = st - start v in
       res_bind (if kind v = KFile
                 then ok_or InvalidAddress (checked_add usize_max (file_offset v) skipped)
                 else Inr (file_offset v)) (\<lambda>off.
       res_bind (shift_start skipped (backing v)) (\<lambda>b.
       Inr (v\<lparr>file_offset := off, backing := b, start := st\<rparr>))))"

definition duplicate_range ::
  "('l \<Rightarrow> (mm_error, 'l) result) \<Rightarrow> ('l, 'd) vm_area \<Rightarrow> nat \<Rightarrow> nat
     \<Rightarrow> (mm_error, ('l, 'd) vm_area) result" where
  "duplicate_range dup v st en =
     (if st < start v \<or> end_addr v < en \<or> en \<le> st then Inl InvalidAddress
      else res_bind (area_duplicate dup v) (\<lambda>copy.
           res_bind (set_start st copy) (\<lambda>copy. Inr (copy\<lparr>end_addr := en\<rparr>))))"

definition mergeable_with :: "('l, 'd) vm_area \<Rightarrow> ('l, 'd) vm_area \<Rightarrow> bool" where
  "mergeable_with v next \<longleftrightarrow>
     \<not> (end_addr v \<noteq> start next \<or> perm v \<noteq> perm next \<or> sharing v \<noteq> sharing next \<or>
        kind v \<noteq> kind next \<or> demand_paged v \<noteq> demand_paged next) \<and>
     (case (backing v, backing next) of (BAnonymous, BAnonymous) \<Rightarrow> True | _ \<Rightarrow> False)"

section \<open>The registry\<close>

type_synonym ('l, 'd) vma_set = "(nat, ('l, 'd) vm_area) omap"

definition last_at_most :: "nat \<Rightarrow> ('l, 'd) vma_set \<Rightarrow> (nat \<times> ('l, 'd) vm_area) option" where
  "last_at_most k m = om_greatest (\<lambda>i. i \<le> k) m"

definition vs_lookup :: "('l, 'd) vma_set \<Rightarrow> nat \<Rightarrow> nat option" where
  "vs_lookup m page =
     (case last_at_most page m of
        None \<Rightarrow> None
      | Some (k, v) \<Rightarrow> if contains_page v page then Some k else None)"

definition first_overlap_key :: "('l, 'd) vma_set \<Rightarrow> nat \<Rightarrow> nat \<Rightarrow> nat option" where
  "first_overlap_key m st en =
     (if en \<le> st then None
      else case last_at_most st m of
          Some (k, v) \<Rightarrow>
            if st < end_addr v then Some k
            else map_option fst (om_least (\<lambda>i. st \<le> i \<and> i < en) m)
        | None \<Rightarrow> map_option fst (om_least (\<lambda>i. st \<le> i \<and> i < en) m))"

definition overlapping_keys :: "('l, 'd) vma_set \<Rightarrow> nat \<Rightarrow> nat \<Rightarrow> nat list" where
  "overlapping_keys m st en =
     (case first_overlap_key m st en of
        None \<Rightarrow> []
      | Some first \<Rightarrow> map fst (takeWhile (\<lambda>e. start (snd e) < en) (om_range first en m)))"

definition next_key :: "('l, 'd) vma_set \<Rightarrow> nat \<Rightarrow> nat option" where
  "next_key m key = map_option fst (om_least (\<lambda>i. key < i) m)"

text \<open>The forward loop of \<open>coalesce_at\<close>; each merge removes an entry.\<close>

function coalesce_forward :: "nat \<Rightarrow> ('l, 'd) vma_set \<Rightarrow> ('l, 'd) vma_set" where
  "coalesce_forward current m =
     (case next_key m current of
        None \<Rightarrow> m
      | Some nxt \<Rightarrow>
          (case (om_get m current, om_get m nxt) of
             (Some left, Some right) \<Rightarrow>
               if mergeable_with left right
               then coalesce_forward current
                      (om_insert current (left\<lparr>end_addr := end_addr right\<rparr>) (om_remove nxt m))
               else m
           | _ \<Rightarrow> m))"
  by pat_completeness auto
termination
proof (relation "measure (\<lambda>(current, m). length m)", goal_cases)
  case 1
  then show ?case by simp
next
  case (2 current m nxt l r left right)
  then have n: "om_get m nxt \<noteq> None" and "current < nxt"
    by (auto simp: next_key_def dest: om_least_present)
  then have "om_get (om_remove nxt m) current \<noteq> None"
    using 2 by (cases "om_get m current") (auto simp: om_get_remove_other)
  from length_om_insert_present [OF this] length_om_remove_less [OF n]
  have "length (om_insert current (left\<lparr>end_addr := end_addr right\<rparr>) (om_remove nxt m)) < length m"
    by (rule le_less_trans)
  then show ?case by simp
qed

declare coalesce_forward.simps [simp del]

definition coalesce_at :: "nat \<Rightarrow> ('l, 'd) vma_set \<Rightarrow> ('l, 'd) vma_set" where
  "coalesce_at key m =
     (if om_get m key = None then m
      else case om_greatest (\<lambda>i. i < key) m of
          None \<Rightarrow> coalesce_forward key m
        | Some (previous, left) \<Rightarrow>
            (case om_get m key of
               None \<Rightarrow> m
             | Some right \<Rightarrow>
                 if mergeable_with left right
                 then coalesce_forward previous
                   (om_insert previous (left\<lparr>end_addr := end_addr right\<rparr>) (om_remove key m))
                 else coalesce_forward key m))"

definition vs_insert ::
  "('l, 'd) vm_area \<Rightarrow> ('l, 'd) vma_set \<Rightarrow> (mm_error, ('l, 'd) vma_set) result" where
  "vs_insert vma m =
     (if end_addr vma \<le> start vma \<or> start vma mod page_size \<noteq> 0 \<or>
         end_addr vma mod page_size \<noteq> 0 then Inl InvalidAddress
      else if (case last_at_most (start vma) m of
                 None \<Rightarrow> False | Some (k, previous) \<Rightarrow> start vma < end_addr previous)
      then Inl AlreadyMapped
      else if (case om_least (\<lambda>i. start vma \<le> i) m of
                 None \<Rightarrow> False | Some (next_start, v) \<Rightarrow> next_start < end_addr vma)
      then Inl AlreadyMapped
      else Inr (coalesce_at (start vma) (om_insert (start vma) vma m)))"

fun remove_prepared :: "nat list \<Rightarrow> ('l, 'd) vma_set \<Rightarrow> ('l, 'd) vma_set" where
  "remove_prepared [] m = m"
| "remove_prepared (k # ks) m = remove_prepared ks (om_remove k m)"

fun insert_all_prepared :: "('l, 'd) vm_area list \<Rightarrow> ('l, 'd) vma_set \<Rightarrow> ('l, 'd) vma_set" where
  "insert_all_prepared [] m = m"
| "insert_all_prepared (v # vs) m = insert_all_prepared vs (om_insert (start v) v m)"

fun coalesce_prepared :: "nat list \<Rightarrow> ('l, 'd) vma_set \<Rightarrow> ('l, 'd) vma_set" where
  "coalesce_prepared [] m = m"
| "coalesce_prepared (c # cs) m =
     (let key = (if om_get m c \<noteq> None then Some c
                 else map_option fst (om_greatest (\<lambda>i. i < c) m))
      in coalesce_prepared cs (case key of None \<Rightarrow> m | Some k \<Rightarrow> coalesce_at k m))"

definition commit_replacement ::
  "nat list \<Rightarrow> ('l, 'd) vm_area list \<Rightarrow> ('l, 'd) vma_set \<Rightarrow> ('l, 'd) vma_set" where
  "commit_replacement keys fragments m =
     coalesce_prepared (map start fragments)
       (insert_all_prepared fragments (remove_prepared keys m))"

definition validate_page_range :: "nat \<Rightarrow> nat \<Rightarrow> (mm_error, unit) result" where
  "validate_page_range st en =
     (if en \<le> st \<or> st mod page_size \<noteq> 0 \<or> en mod page_size \<noteq> 0 then Inl InvalidAddress
      else Inr ())"

text \<open>The fragment kept when \<open>a < b\<close>, nothing otherwise (the \<open>if\<close> around each push).\<close>

definition opt_fragment ::
  "('l \<Rightarrow> (mm_error, 'l) result) \<Rightarrow> ('l, 'd) vm_area \<Rightarrow> nat \<Rightarrow> nat
     \<Rightarrow> (mm_error, ('l, 'd) vm_area list) result" where
  "opt_fragment dup v a b =
     (if a < b then res_bind (duplicate_range dup v a b) (\<lambda>w. Inr [w]) else Inr [])"

fun remove_fragments ::
  "('l \<Rightarrow> (mm_error, 'l) result) \<Rightarrow> nat \<Rightarrow> nat \<Rightarrow> ('l, 'd) vma_set \<Rightarrow> nat list
     \<Rightarrow> (mm_error, ('l, 'd) vm_area list) result" where
  "remove_fragments dup st en m [] = Inr []"
| "remove_fragments dup st en m (key # keys) =
     res_bind (ok_or InvalidAddress (om_get m key)) (\<lambda>vma.
     res_bind (opt_fragment dup vma (start vma) st) (\<lambda>left.
     res_bind (opt_fragment dup vma en (end_addr vma)) (\<lambda>right.
     res_bind (remove_fragments dup st en m keys) (\<lambda>rest. Inr (left @ right @ rest)))))"

definition vs_remove_range ::
  "('l \<Rightarrow> (mm_error, 'l) result) \<Rightarrow> nat \<Rightarrow> nat \<Rightarrow> ('l, 'd) vma_set
     \<Rightarrow> (mm_error, ('l, 'd) vma_set) result" where
  "vs_remove_range dup st en m =
     (if en \<le> st then Inr m
      else res_bind (validate_page_range st en) (\<lambda>_.
        let keys = overlapping_keys m st en in
        res_bind (remove_fragments dup st en m keys) (\<lambda>fragments.
        Inr (commit_replacement keys fragments m))))"

fun prepare_updated_fragments ::
  "('l \<Rightarrow> (mm_error, 'l) result) \<Rightarrow> (page_perm \<Rightarrow> page_perm) \<Rightarrow> nat \<Rightarrow> nat \<Rightarrow> ('l, 'd) vma_set
     \<Rightarrow> nat list \<Rightarrow> (mm_error, ('l, 'd) vm_area list) result" where
  "prepare_updated_fragments dup upd st en m [] = Inr []"
| "prepare_updated_fragments dup upd st en m (key # keys) =
     res_bind (ok_or InvalidAddress (om_get m key)) (\<lambda>vma.
     let mid_start = max st (start vma); mid_end = min en (end_addr vma) in
     res_bind (opt_fragment dup vma (start vma) mid_start) (\<lambda>left.
     res_bind (duplicate_range dup vma mid_start mid_end) (\<lambda>middle.
     res_bind (opt_fragment dup vma mid_end (end_addr vma)) (\<lambda>right.
     res_bind (prepare_updated_fragments dup upd st en m keys) (\<lambda>rest.
     Inr (left @ [middle\<lparr>perm := upd (perm middle)\<rparr>] @ right @ rest))))))"

definition vs_update_perm ::
  "('l \<Rightarrow> (mm_error, 'l) result) \<Rightarrow> nat \<Rightarrow> nat \<Rightarrow> (page_perm \<Rightarrow> page_perm) \<Rightarrow> ('l, 'd) vma_set
     \<Rightarrow> (mm_error, ('l, 'd) vma_set) result" where
  "vs_update_perm dup st en upd m =
     (if en \<le> st then Inr m
      else res_bind (validate_page_range st en) (\<lambda>_.
        let keys = overlapping_keys m st en in
        res_bind (prepare_updated_fragments dup upd st en m keys) (\<lambda>fragments.
        Inr (commit_replacement keys fragments m))))"

definition vs_protect_range ::
  "('l \<Rightarrow> (mm_error, 'l) result) \<Rightarrow> nat \<Rightarrow> nat \<Rightarrow> page_perm \<Rightarrow> ('l, 'd) vma_set
     \<Rightarrow> (mm_error, ('l, 'd) vma_set) result" where
  "vs_protect_range dup st en p m = vs_update_perm dup st en (\<lambda>_. p) m"

definition vs_merge_perm ::
  "('l \<Rightarrow> (mm_error, 'l) result) \<Rightarrow> nat \<Rightarrow> nat \<Rightarrow> page_perm \<Rightarrow> ('l, 'd) vma_set
     \<Rightarrow> (mm_error, ('l, 'd) vma_set) result" where
  "vs_merge_perm dup st en p m = vs_update_perm dup st en (\<lambda>old. old OR p) m"

definition vs_duplicate_subrange ::
  "('l \<Rightarrow> (mm_error, 'l) result) \<Rightarrow> nat \<Rightarrow> nat \<Rightarrow> ('l, 'd) vma_set
     \<Rightarrow> (mm_error, ('l, 'd) vm_area option) result" where
  "vs_duplicate_subrange dup st en m =
     res_bind (validate_page_range st en) (\<lambda>_.
       case Option.bind (vs_lookup m st) (om_get m) of
         None \<Rightarrow> Inr None
       | Some vma \<Rightarrow>
           if end_addr vma < en then Inr None
           else res_bind (duplicate_range dup vma st en) (\<lambda>w. Inr (Some w)))"

definition vs_overlap_end :: "('l, 'd) vma_set \<Rightarrow> nat \<Rightarrow> nat \<Rightarrow> nat option" where
  "vs_overlap_end m st en =
     (if en \<le> st then None
      else map_option end_addr (Option.bind (first_overlap_key m st en) (om_get m)))"

definition vs_overlaps :: "('l, 'd) vma_set \<Rightarrow> nat \<Rightarrow> nat \<Rightarrow> bool" where
  "vs_overlaps m st en \<longleftrightarrow> vs_overlap_end m st en \<noteq> None"

definition vs_overlaps_where ::
  "(('l, 'd) vm_area \<Rightarrow> bool) \<Rightarrow> ('l, 'd) vma_set \<Rightarrow> nat \<Rightarrow> nat \<Rightarrow> bool" where
  "vs_overlaps_where P m st en =
     (case first_overlap_key m st en of
        None \<Rightarrow> False
      | Some first \<Rightarrow> list_ex (\<lambda>e. P (snd e)) (om_range first en m))"

fun covers_loop :: "(('l, 'd) vm_area \<Rightarrow> bool) \<Rightarrow> ('l, 'd) vm_area list \<Rightarrow> nat \<Rightarrow> nat \<Rightarrow> bool" where
  "covers_loop P [] cursor en = (\<not> cursor < en)"
| "covers_loop P (vma # values) cursor en =
     (if cursor < en
      then if cursor < start vma \<or> end_addr vma \<le> cursor \<or> \<not> P vma then False
           else covers_loop P values (min (end_addr vma) en) en
      else True)"

definition vs_covers_where ::
  "(('l, 'd) vm_area \<Rightarrow> bool) \<Rightarrow> ('l, 'd) vma_set \<Rightarrow> nat \<Rightarrow> nat \<Rightarrow> bool" where
  "vs_covers_where P m st en =
     (if en \<le> st then True
      else case first_overlap_key m st en of
          None \<Rightarrow> False
        | Some first \<Rightarrow> covers_loop P (map snd (om_from first m)) st en)"

definition vs_covers :: "('l, 'd) vma_set \<Rightarrow> nat \<Rightarrow> nat \<Rightarrow> bool" where
  "vs_covers m st en = vs_covers_where (\<lambda>_. True) m st en"

fun duplicate_loop ::
  "('l \<Rightarrow> (mm_error, 'l) result) \<Rightarrow> ('l, 'd) vm_area list \<Rightarrow> ('l, 'd) vma_set
     \<Rightarrow> (mm_error, ('l, 'd) vma_set) result" where
  "duplicate_loop dup [] inner = Inr inner"
| "duplicate_loop dup (vma # vs) inner =
     res_bind (area_duplicate dup vma) (\<lambda>copy.
       duplicate_loop dup vs (om_insert (start copy) copy inner))"

definition vs_duplicate ::
  "('l \<Rightarrow> (mm_error, 'l) result) \<Rightarrow> ('l, 'd) vma_set \<Rightarrow> (mm_error, ('l, 'd) vma_set) result" where
  "vs_duplicate dup m = duplicate_loop dup (map snd m) []"

end
