(* ===== verification/Vma_Correct.thy ===== *)
theory Vma_Correct
  imports Vma
begin

text \<open>
  What the registry promises: seen as a function from addresses to attributes
  (\<open>vs_at\<close>), insertion fills a hole, removal clears a range, a permission change rewrites
  one attribute over a range, and nothing else changes; the areas stay page aligned, non-empty,
  keyed by their start and disjoint. Splitting and merging of areas is invisible in this view.
\<close>

section \<open>The attributes of an address\<close>

datatype 'd page_source = SrcZero | SrcFile | SrcExternal | SrcDevice nat 'd

record 'd page_attr =
  a_perm :: page_perm
  a_sharing :: vma_sharing
  a_kind :: vma_kind
  a_demand :: bool
  a_offset :: nat
  a_file_size :: nat
  a_source :: "'d page_source"

fun source_at :: "('l, 'd) vma_backing \<Rightarrow> nat \<Rightarrow> 'd page_source" where
  "source_at BAnonymous off = SrcZero"
| "source_at (BFile l) off = SrcFile"
| "source_at BExternal off = SrcExternal"
| "source_at (BDevice phys d) off = SrcDevice (phys + off div page_size) d"

definition attr :: "('l, 'd) vm_area \<Rightarrow> nat \<Rightarrow> 'd page_attr" where
  "attr v a = \<lparr>a_perm = perm v, a_sharing = sharing v, a_kind = kind v,
     a_demand = demand_paged v,
     a_offset = (if kind v = KFile then file_offset v + (a - start v) else file_offset v),
     a_file_size = file_size v, a_source = source_at (backing v) (a - start v)\<rparr>"

definition vs_at :: "('l, 'd) vma_set \<Rightarrow> nat \<Rightarrow> 'd page_attr option" where
  "vs_at m a =
     (case last_at_most a m of
        None \<Rightarrow> None
      | Some (k, v) \<Rightarrow> if a < end_addr v then Some (attr v a) else None)"

section \<open>Well-formed areas and registries\<close>

definition area_ok :: "('l, 'd) vm_area \<Rightarrow> bool" where
  "area_ok v \<longleftrightarrow> start v < end_addr v \<and> start v mod page_size = 0 \<and>
     end_addr v mod page_size = 0 \<and>
     (backing v = BAnonymous \<longrightarrow> kind v \<noteq> KFile \<and> file_offset v = 0 \<and> file_size v = 0)"

definition disjoint_areas :: "('l, 'd) vm_area \<Rightarrow> ('l, 'd) vm_area \<Rightarrow> bool" where
  "disjoint_areas v w \<longleftrightarrow> end_addr v \<le> start w \<or> end_addr w \<le> start v"

definition vs_inv :: "('l, 'd) vma_set \<Rightarrow> bool" where
  "vs_inv m \<longleftrightarrow> om_ok m \<and>
     (\<forall>k v. om_get m k = Some v \<longrightarrow> start v = k \<and> area_ok v) \<and>
     (\<forall>k v k' v'. om_get m k = Some v \<longrightarrow> om_get m k' = Some v' \<longrightarrow> k < k' \<longrightarrow> end_addr v \<le> k')"

text \<open>Areas from the four constructors are well formed when their range is.\<close>

lemma constructors_area_ok:
  assumes "st < en" "st mod page_size = 0" "en mod page_size = 0"
  shows "k \<noteq> KFile \<Longrightarrow> area_ok (area_anonymous st en p sh k dm)"
    "area_ok (area_file st en p sh dm off sz l)"
    "area_ok (area_device st en p phys lease)"
    "area_ok (area_external st en p)"
  using assms
  by (simp_all add: area_ok_def area_anonymous_def area_file_def area_device_def
      area_external_def)

lemma vs_invD:
  assumes "vs_inv m"
  shows "om_ok m"
    "om_get m k = Some v \<Longrightarrow> start v = k \<and> area_ok v \<and> k < end_addr v"
    "om_get m k = Some v \<Longrightarrow> om_get m k' = Some v' \<Longrightarrow> k < k' \<Longrightarrow> end_addr v \<le> k'"
  using assms unfolding vs_inv_def area_ok_def by blast+

lemma vs_inv_empty: "vs_inv []"
  by (simp add: vs_inv_def om_get_def)

text \<open>The executable view agrees with the areas that contain the address.\<close>

lemma vs_at_iff:
  assumes inv: "vs_inv m"
  shows "vs_at m a = Some x \<longleftrightarrow>
    (\<exists>k v. om_get m k = Some v \<and> k \<le> a \<and> a < end_addr v \<and> x = attr v a)" (is "_ \<longleftrightarrow> ?R")
proof
  assume "vs_at m a = Some x"
  then obtain k v where "last_at_most a m = Some (k, v)" "a < end_addr v" "x = attr v a"
    by (auto simp: vs_at_def split: option.splits if_splits)
  then show ?R
    using om.greatest_get [OF vs_invD(1) [OF inv]] unfolding last_at_most_def by blast
next
  assume ?R
  then obtain k v where kv: "om_get m k = Some v" "k \<le> a" "a < end_addr v" "x = attr v a" by blast
  have "last_at_most a m = Some (k, v)"
    unfolding last_at_most_def om.greatest_Some [OF vs_invD(1) [OF inv]]
  proof (intro conjI allI impI)
    fix i
    assume "om_get m i \<noteq> None \<and> i \<le> a"
    then show "i \<le> k" using vs_invD(3) [OF inv kv(1)] kv(3) by fastforce
  qed (use kv in auto)
  with kv show "vs_at m a = Some x" by (simp add: vs_at_def)
qed

lemma vs_at_None:
  assumes inv: "vs_inv m"
  shows "vs_at m a = None \<longleftrightarrow> (\<forall>k v. om_get m k = Some v \<longrightarrow> \<not> (k \<le> a \<and> a < end_addr v))"
  using vs_at_iff [OF inv, of a] by (metis not_None_eq)

lemma vs_at_eqI:
  assumes "vs_inv m" "om_get m k = Some v" "k \<le> a" "a < end_addr v"
  shows "vs_at m a = Some (attr v a)"
  using assms by (auto simp: vs_at_iff)

text \<open>Two registries with the same containing areas have the same view.\<close>

lemma vs_at_cong:
  assumes "vs_inv m" "vs_inv m'"
    and "\<And>k v. om_get m k = Some v \<Longrightarrow> k \<le> a \<Longrightarrow> a < end_addr v \<Longrightarrow> vs_at m' a = Some (attr v a)"
    and "\<And>k v. om_get m' k = Some v \<Longrightarrow> k \<le> a \<Longrightarrow> a < end_addr v \<Longrightarrow> vs_at m a = Some (attr v a)"
  shows "vs_at m' a = vs_at m a"
proof (cases "vs_at m a")
  case None
  then show ?thesis using assms(4) vs_at_None [OF assms(2)] by fastforce
next
  case (Some x)
  then obtain k v where "om_get m k = Some v" "k \<le> a" "a < end_addr v" "x = attr v a"
    using vs_at_iff [OF assms(1)] by blast
  with assms(3) Some show ?thesis by simp
qed

section \<open>Inserting and removing whole areas\<close>

lemma insert_area:
  assumes inv: "vs_inv m" and v: "area_ok v"
    and disj: "\<And>k w. om_get m k = Some w \<Longrightarrow> disjoint_areas v w"
  shows "vs_inv (om_insert (start v) v m)"
    and "vs_at (om_insert (start v) v m) a =
      (if start v \<le> a \<and> a < end_addr v then Some (attr v a) else vs_at m a)"
proof -
  let ?m = "om_insert (start v) v m"
  note ok = vs_invD(1) [OF inv]
  note get = om.get_put [OF ok, of "start v" v]
  have ne: "start v < end_addr v" using v by (simp add: area_ok_def)
  show inv': "vs_inv ?m"
    unfolding vs_inv_def
  proof (intro conjI allI impI)
    show "om_ok ?m" using ok by (rule om.wf_put)
  next
    fix k w
    assume "om_get ?m k = Some w"
    then show "start w = k" "area_ok w"
      using v vs_invD(2) [OF inv] by (auto simp: get split: if_splits)
  next
    fix k w k' w'
    assume a: "om_get ?m k = Some w" "om_get ?m k' = Some w'" "k < k'"
    show "end_addr w \<le> k'"
    proof (cases "k = start v")
      case True
      have "om_get m k' = Some w'" using a(2,3) True by (simp add: get)
      moreover have "w = v" using a(1) True by (simp add: get)
      ultimately show ?thesis
        using disj [of k' w'] vs_invD(2) [OF inv, of k' w'] a(3) True
        by (auto simp: disjoint_areas_def)
    next
      case False
      then have w: "om_get m k = Some w" using a(1) by (simp add: get)
      show ?thesis
      proof (cases "k' = start v")
        case True
        with disj [OF w] vs_invD(2) [OF inv w] a(3) ne show ?thesis
          by (auto simp: disjoint_areas_def)
      next
        case False
        with a w vs_invD(3) [OF inv] show ?thesis by (simp add: get)
      qed
    qed
  qed
  show "vs_at ?m a =
      (if start v \<le> a \<and> a < end_addr v then Some (attr v a) else vs_at m a)"
  proof (cases "start v \<le> a \<and> a < end_addr v")
    case True
    then show ?thesis using vs_at_eqI [OF inv', of "start v" v a] by (simp add: get)
  next
    case False
    have none: "om_get m (start v) = None"
    proof (cases "om_get m (start v)")
      case (Some w)
      with disj [OF Some] vs_invD(2) [OF inv Some] ne show ?thesis
        by (auto simp: disjoint_areas_def)
    qed simp
    have "vs_at ?m a = vs_at m a"
    proof (rule vs_at_cong [OF inv inv'])
      fix k w
      assume w: "om_get m k = Some w" "k \<le> a" "a < end_addr w"
      with none have "om_get ?m k = Some w" by (auto simp: get)
      from vs_at_eqI [OF inv' this w(2,3)] show "vs_at ?m a = Some (attr w a)" .
    next
      fix k w
      assume w: "om_get ?m k = Some w" "k \<le> a" "a < end_addr w"
      with False have "om_get m k = Some w" by (auto simp: get split: if_splits)
      from vs_at_eqI [OF inv this w(2,3)] show "vs_at m a = Some (attr w a)" .
    qed
    with False show ?thesis by auto
  qed
qed

lemma remove_prepared_get:
  "om_ok m \<Longrightarrow> om_ok (remove_prepared ks m) \<and>
     om_get (remove_prepared ks m) = (\<lambda>k. if k \<in> set ks then None else om_get m k)"
proof (induction ks arbitrary: m)
  case Nil
  then show ?case by simp
next
  case (Cons k ks)
  then show ?case by (auto simp: om.get_del om.wf_del fun_eq_iff)
qed

lemma remove_prepared_inv:
  assumes inv: "vs_inv m"
  shows "vs_inv (remove_prepared ks m)"
    and "vs_at (remove_prepared ks m) a =
      (if \<exists>k v. k \<in> set ks \<and> om_get m k = Some v \<and> k \<le> a \<and> a < end_addr v then None
       else vs_at m a)"
proof -
  note g = remove_prepared_get [OF vs_invD(1) [OF inv], of ks]
  show inv': "vs_inv (remove_prepared ks m)"
    using g inv unfolding vs_inv_def by (auto split: if_splits)
  have uniq: "k = k'" if "om_get m k = Some v" "k \<le> a" "a < end_addr v"
     "om_get m k' = Some v'" "k' \<le> a" "a < end_addr v'" for k v k' v'
    using vs_invD(3) [OF inv that(1,4)] vs_invD(3) [OF inv that(4,1)] that
    by (metis linorder_neqE_nat not_le le_trans)
  show "vs_at (remove_prepared ks m) a =
      (if \<exists>k v. k \<in> set ks \<and> om_get m k = Some v \<and> k \<le> a \<and> a < end_addr v then None
       else vs_at m a)"
  proof (cases "\<exists>k v. k \<in> set ks \<and> om_get m k = Some v \<and> k \<le> a \<and> a < end_addr v")
    case True
    then have "vs_at (remove_prepared ks m) a = None"
      using uniq g by (auto simp: vs_at_None [OF inv'] split: if_splits)
    with True show ?thesis by simp
  next
    case False
    have "vs_at (remove_prepared ks m) a = vs_at m a"
    proof (rule vs_at_cong [OF inv inv'])
      fix k v
      assume kv: "om_get m k = Some v" "k \<le> a" "a < end_addr v"
      with False have "om_get (remove_prepared ks m) k = Some v" using g by auto
      from vs_at_eqI [OF inv' this kv(2,3)] show "vs_at (remove_prepared ks m) a = Some (attr v a)" .
    next
      fix k v
      assume kv: "om_get (remove_prepared ks m) k = Some v" "k \<le> a" "a < end_addr v"
      then have "om_get m k = Some v" using g by (auto split: if_splits)
      from vs_at_eqI [OF inv this kv(2,3)] show "vs_at m a = Some (attr v a)" .
    qed
    with False show ?thesis by auto
  qed
qed

lemma insert_all_inv:
  assumes "vs_inv m" and "\<And>v. v \<in> set vs \<Longrightarrow> area_ok v"
    and "sorted_wrt disjoint_areas vs"
    and "\<And>v k w. v \<in> set vs \<Longrightarrow> om_get m k = Some w \<Longrightarrow> disjoint_areas v w"
  shows "vs_inv (insert_all_prepared vs m) \<and>
    (\<forall>v \<in> set vs. \<forall>a. start v \<le> a \<and> a < end_addr v \<longrightarrow>
       vs_at (insert_all_prepared vs m) a = Some (attr v a)) \<and>
    (\<forall>a. (\<forall>v \<in> set vs. \<not> (start v \<le> a \<and> a < end_addr v)) \<longrightarrow>
       vs_at (insert_all_prepared vs m) a = vs_at m a)"
  using assms
proof (induction vs arbitrary: m)
  case Nil
  then show ?case by simp
next
  case (Cons v vs)
  let ?m = "om_insert (start v) v m"
  have v: "area_ok v" using Cons.prems(2) by simp
  have dv: "\<And>k w. om_get m k = Some w \<Longrightarrow> disjoint_areas v w" using Cons.prems(4) by simp
  have ins: "vs_inv ?m" "\<And>a. vs_at ?m a =
      (if start v \<le> a \<and> a < end_addr v then Some (attr v a) else vs_at m a)"
    by (rule insert_area [OF Cons.prems(1) v], erule dv)+
  have rest: "vs_inv (insert_all_prepared vs ?m) \<and>
    (\<forall>v \<in> set vs. \<forall>a. start v \<le> a \<and> a < end_addr v \<longrightarrow>
       vs_at (insert_all_prepared vs ?m) a = Some (attr v a)) \<and>
    (\<forall>a. (\<forall>v \<in> set vs. \<not> (start v \<le> a \<and> a < end_addr v)) \<longrightarrow>
       vs_at (insert_all_prepared vs ?m) a = vs_at ?m a)"
  proof (rule Cons.IH)
    show "vs_inv ?m" by (rule ins)
    show "area_ok u" if "u \<in> set vs" for u using that Cons.prems(2) by simp
    show "sorted_wrt disjoint_areas vs" using Cons.prems(3) by simp
    show "disjoint_areas u w" if "u \<in> set vs" "om_get ?m k = Some w" for u k w
    proof (cases "k = start v")
      case True
      with that(2) have "w = v" by (simp add: om.get_put [OF vs_invD(1) [OF Cons.prems(1)]])
      with that(1) Cons.prems(3) show ?thesis by (auto simp: disjoint_areas_def)
    next
      case False
      with that Cons.prems(4) show ?thesis
        by (simp add: om.get_put [OF vs_invD(1) [OF Cons.prems(1)]])
    qed
  qed
  moreover have "vs_at (insert_all_prepared vs ?m) a = Some (attr v a)"
    if in_v: "start v \<le> a" "a < end_addr v" for a
  proof -
    have "\<forall>u \<in> set vs. \<not> (start u \<le> a \<and> a < end_addr u)"
      using Cons.prems(3) in_v by (auto simp: disjoint_areas_def)
    with rest ins(2) in_v show ?thesis by simp
  qed
  ultimately show ?case using ins(2) by auto
qed

section \<open>Merging neighbours is invisible\<close>

lemma attr_end_addr [simp]: "attr (v\<lparr>end_addr := e\<rparr>) = attr v"
  by (simp add: attr_def fun_eq_iff)

lemma mergeable_attr:
  assumes "mergeable_with left right" "area_ok left" "area_ok right"
  shows "attr right = attr left"
proof -
  from assms(1) have "backing left = BAnonymous" "backing right = BAnonymous"
    by (auto simp: mergeable_with_def split: vma_backing.splits)
  with assms show ?thesis
    by (auto simp: mergeable_with_def area_ok_def attr_def fun_eq_iff)
qed

lemma mergeable_area_ok:
  assumes "mergeable_with left right" "area_ok left" "area_ok right"
  shows "area_ok (left\<lparr>end_addr := end_addr right\<rparr>)" "end_addr left = start right"
  using assms by (auto simp: mergeable_with_def area_ok_def split: vma_backing.splits)

lemma merge_step:
  assumes inv: "vs_inv m" and l: "om_get m k = Some left" and r: "om_get m n = Some right"
    and kn: "k < n" and mg: "mergeable_with left right"
  shows "vs_inv (om_insert k (left\<lparr>end_addr := end_addr right\<rparr>) (om_remove n m)) \<and>
    vs_at (om_insert k (left\<lparr>end_addr := end_addr right\<rparr>) (om_remove n m)) = vs_at m"
proof -
  let ?L = "left\<lparr>end_addr := end_addr right\<rparr>"
  let ?m = "remove_prepared [n, k] m"
  from vs_invD(2) [OF inv l] vs_invD(2) [OF inv r]
  have lr: "start left = k" "area_ok left" "start right = n" "area_ok right" "n < end_addr right"
    by simp_all
  note L = mergeable_area_ok [OF mg lr(2,4)]
  have sL: "start ?L = k" using lr by simp
  have eq: "om_insert k ?L (om_remove n m) = om_insert (start ?L) ?L ?m"
    unfolding sL by (simp add: om_insert_remove)
  have inv': "vs_inv ?m" by (rule remove_prepared_inv [OF inv])
  have get': "om_get ?m j = (if j = n \<or> j = k then None else om_get m j)" for j
    using remove_prepared_get [OF vs_invD(1) [OF inv], of "[n, k]"] by simp
  have disj: "disjoint_areas ?L w" if w: "om_get ?m j = Some w" for j w
  proof -
    from w have j: "om_get m j = Some w" "j \<noteq> n" "j \<noteq> k"
      unfolding get' by (auto split: if_splits)
    from vs_invD(2) [OF inv j(1)] have jw: "start w = j" "j < end_addr w" by simp_all
    consider "j < k" | "k < j" "j < n" | "n < j" using j by linarith
    then show ?thesis
    proof cases
      case 1
      from vs_invD(3) [OF inv j(1) l 1] show ?thesis by (simp add: disjoint_areas_def lr)
    next
      case 2
      from vs_invD(3) [OF inv l j(1) 2(1)] 2 L(2) lr show ?thesis by simp
    next
      case 3
      from vs_invD(3) [OF inv r j(1) 3] show ?thesis by (simp add: disjoint_areas_def jw)
    qed
  qed
  have ins: "vs_inv (om_insert (start ?L) ?L ?m)" "\<And>a. vs_at (om_insert (start ?L) ?L ?m) a =
      (if start ?L \<le> a \<and> a < end_addr ?L then Some (attr ?L a) else vs_at ?m a)"
    by (rule insert_area [OF inv' L(1)], erule disj)+
  have view: "vs_at (om_insert (start ?L) ?L ?m) a = vs_at m a" for a
  proof (cases "k \<le> a \<and> a < end_addr right")
    case True
    have "vs_at m a = Some (attr left a)"
    proof (cases "a < n")
      case True
      with \<open>k \<le> a \<and> a < end_addr right\<close> L(2) lr show ?thesis
        using vs_at_eqI [OF inv l, of a] by simp
    next
      case False
      with \<open>k \<le> a \<and> a < end_addr right\<close> show ?thesis
        using vs_at_eqI [OF inv r, of a] mergeable_attr [OF mg lr(2,4)] by simp
    qed
    with True show ?thesis unfolding ins(2) by (simp add: lr)
  next
    case False
    have "\<not> (\<exists>j v. j \<in> set [n, k] \<and> om_get m j = Some v \<and> j \<le> a \<and> a < end_addr v)"
      using False l r L(2) lr kn by auto
    then have "vs_at ?m a = vs_at m a" unfolding remove_prepared_inv(2) [OF inv] by auto
    with False show ?thesis unfolding ins(2) by (auto simp: lr)
  qed
  show ?thesis
    unfolding eq using ins(1) view by (simp only: fun_eq_iff simp_thms)
qed

lemma coalesce_forward_correct:
  "vs_inv m \<Longrightarrow> vs_inv (coalesce_forward c m) \<and> vs_at (coalesce_forward c m) = vs_at m"
proof (induction c m rule: coalesce_forward.induct)
  case (1 c m)
  show ?case
  proof (cases "\<exists>n left right. next_key m c = Some n \<and> om_get m c = Some left \<and>
      om_get m n = Some right \<and> mergeable_with left right")
    case True
    then obtain n left right where n: "next_key m c = Some n" "om_get m c = Some left"
      "om_get m n = Some right" "mergeable_with left right" by blast
    from n(1) have "c < n" by (auto simp: next_key_def dest: om_least_present)
    from merge_step [OF 1(2) n(2,3) this n(4)]
    show ?thesis using 1(1) [OF n(1) refl n(2,3,4)] n by (simp add: coalesce_forward.simps [of c m])
  next
    case False
    then have "coalesce_forward c m = m"
      by (subst coalesce_forward.simps) (auto split: option.splits)
    with 1(2) show ?thesis by simp
  qed
qed

lemma coalesce_at_correct:
  assumes inv: "vs_inv m"
  shows "vs_inv (coalesce_at k m) \<and> vs_at (coalesce_at k m) = vs_at m"
proof -
  have merge: "vs_inv (coalesce_forward p (om_insert p (left\<lparr>end_addr := end_addr right\<rparr>) (om_remove k m)))
     \<and> vs_at (coalesce_forward p (om_insert p (left\<lparr>end_addr := end_addr right\<rparr>) (om_remove k m))) = vs_at m"
    if g: "om_greatest (\<lambda>i. i < k) m = Some (p, left)" and r: "om_get m k = Some right"
      and mg: "mergeable_with left right" for p left right
  proof -
    from om.greatest_get [OF vs_invD(1) [OF inv] g] have "om_get m p = Some left" "p < k" by simp_all
    from merge_step [OF inv this(1) r this(2) mg] show ?thesis
      using coalesce_forward_correct by metis
  qed
  show ?thesis
    using inv coalesce_forward_correct [OF inv, of k] merge
    by (auto simp: coalesce_at_def split: option.splits)
qed

lemma coalesce_prepared_correct:
  "vs_inv m \<Longrightarrow> vs_inv (coalesce_prepared cs m) \<and> vs_at (coalesce_prepared cs m) = vs_at m"
proof (induction cs arbitrary: m)
  case (Cons c cs)
  show ?case
    using Cons coalesce_at_correct [OF Cons.prems] by (auto simp: Let_def split: option.splits)
qed simp

section \<open>The areas that overlap a range\<close>

lemma first_overlap_Some:
  assumes inv: "vs_inv m" and ne: "st < en"
  shows "first_overlap_key m st en = Some k \<longleftrightarrow>
    (\<exists>v. om_get m k = Some v \<and> area_overlaps v st en) \<and>
    (\<forall>j w. om_get m j = Some w \<longrightarrow> area_overlaps w st en \<longrightarrow> k \<le> j)"
    (is "_ \<longleftrightarrow> ?least k")
proof -
  note ok = vs_invD(1) [OF inv]
  note D = vs_invD(2,3) [OF inv]
  have uniq: "k = j" if "?least k" "?least j" for k j
    using that by (meson antisym)
  let ?r = "first_overlap_key m st en"
  have below: "j = p" if "last_at_most st m = Some (p, v)" "om_get m j = Some w" "j \<le> st"
    "area_overlaps w st en" for p v j w
  proof -
    from that(1) have p: "om_get m p = Some v" "p \<le> st"
      using om.greatest_get [OF ok] unfolding last_at_most_def by blast+
    have "j \<le> p" using om.greatest_ge [OF ok] that(1-3) unfolding last_at_most_def by blast
    moreover have "\<not> j < p" using D(2) [OF that(2) p(1)] p(2) that(4) by (auto simp: area_overlaps_def)
    ultimately show ?thesis by simp
  qed
  have some: "?least j" if "?r = Some j" for j
  proof (cases "\<exists>p v. last_at_most st m = Some (p, v) \<and> st < end_addr v")
    case True
    then obtain p v where l: "last_at_most st m = Some (p, v)" "st < end_addr v" by blast
    with that ne have "j = p" by (simp add: first_overlap_key_def)
    moreover from l have p: "om_get m p = Some v" "p \<le> st"
      using om.greatest_get [OF ok] unfolding last_at_most_def by blast+
    moreover have "p \<le> i" if "om_get m i = Some w" "area_overlaps w st en" for i w
      using below [OF l(1) that(1) _ that(2)] p(2) by (cases "i \<le> st") auto
    ultimately show ?thesis using D(1) [OF p(1)] l ne by (auto simp: area_overlaps_def)
  next
    case False
    with that ne obtain v where l: "om_least (\<lambda>i. st \<le> i \<and> i < en) m = Some (j, v)"
      by (auto simp: first_overlap_key_def split: option.splits if_splits)
    then have j: "om_get m j = Some v" "st \<le> j" "j < en" using om.least_get [OF ok] by blast+
    have "j \<le> i" if w: "om_get m i = Some w" "area_overlaps w st en" for i w
    proof (cases "st \<le> i")
      case True
      with w D(1) [OF w(1)] show ?thesis
        using om.least_le [OF ok l w(1)] by (simp add: area_overlaps_def)
    next
      case False
      then have "last_at_most st m \<noteq> None"
        unfolding last_at_most_def using om.greatest_None [OF ok] w(1) by auto
      then obtain p u where pu: "last_at_most st m = Some (p, u)" by auto
      from below [OF pu w(1) _ w(2)] False have "i = p" by simp
      moreover have "om_get m p = Some u"
        using om.greatest_get [OF ok] pu unfolding last_at_most_def by blast
      ultimately have "u = w" using w(1) by simp
      with w(2) pu \<open>\<not> (\<exists>p v. last_at_most st m = Some (p, v) \<and> st < end_addr v)\<close>
      show ?thesis by (auto simp: area_overlaps_def)
    qed
    with j D(1) [OF j(1)] show ?thesis by (auto simp: area_overlaps_def)
  qed
  have none: "\<not> ?least j" if "?r = None" for j
  proof
    assume "?least j"
    then obtain v where v: "om_get m j = Some v" "area_overlaps v st en" by blast
    from that ne have n: "om_least (\<lambda>i. st \<le> i \<and> i < en) m = None"
      and l: "\<And>p u. last_at_most st m = Some (p, u) \<Longrightarrow> \<not> st < end_addr u"
      by (auto simp: first_overlap_key_def split: option.splits if_splits)
    have "\<not> st \<le> j"
      using n v D(1) [OF v(1)] unfolding om.least_None [OF ok] by (auto simp: area_overlaps_def)
    then have "last_at_most st m \<noteq> None"
      unfolding last_at_most_def using om.greatest_None [OF ok] v(1) by auto
    then obtain p u where pu: "last_at_most st m = Some (p, u)" by auto
    from below [OF pu v(1) _ v(2)] \<open>\<not> st \<le> j\<close> have "j = p" by simp
    moreover have "om_get m p = Some u"
      using om.greatest_get [OF ok] pu unfolding last_at_most_def by blast
    ultimately show False using v l [OF pu] by (simp add: area_overlaps_def)
  qed
  show ?thesis
  proof
    assume "?least k"
    then obtain j where "?r = Some j" using none by (cases ?r) auto
    with some [OF this] uniq [OF \<open>?least k\<close>] show "?r = Some k" by simp
  qed (rule some)
qed

lemma first_overlap_None:
  assumes inv: "vs_inv m" and ne: "st < en"
  shows "first_overlap_key m st en = None \<longleftrightarrow>
    (\<forall>k v. om_get m k = Some v \<longrightarrow> \<not> area_overlaps v st en)"
proof
  assume none: "first_overlap_key m st en = None"
  show "\<forall>k v. om_get m k = Some v \<longrightarrow> \<not> area_overlaps v st en"
  proof (rule ccontr)
    assume "\<not> ?thesis"
    then have ex: "\<exists>k. \<exists>v. om_get m k = Some v \<and> area_overlaps v st en" by blast
    let ?k = "LEAST k. \<exists>v. om_get m k = Some v \<and> area_overlaps v st en"
    have "first_overlap_key m st en = Some ?k"
      unfolding first_overlap_Some [OF inv ne] using LeastI_ex [OF ex] by (auto intro: Least_le)
    with none show False by simp
  qed
next
  assume "\<forall>k v. om_get m k = Some v \<longrightarrow> \<not> area_overlaps v st en"
  then show "first_overlap_key m st en = None"
    using first_overlap_Some [OF inv ne] by (cases "first_overlap_key m st en") blast+
qed

lemma overlapping_keys_spec:
  assumes inv: "vs_inv m" and ne: "st < en"
  shows "k \<in> set (overlapping_keys m st en) \<longleftrightarrow>
      (\<exists>v. om_get m k = Some v \<and> area_overlaps v st en)"
    and "distinct (overlapping_keys m st en)"
proof -
  note ok = vs_invD(1) [OF inv]
  have tw: "takeWhile (\<lambda>e. start (snd e) < en) (om_range f en m) = om_range f en m" for f
    unfolding takeWhile_eq_all_conv
  proof
    fix e
    assume "e \<in> set (om_range f en m)"
    then have "om_get m (fst e) = Some (snd e)" "fst e < en"
      using om_range_mem [OF ok, of "fst e" "snd e"] by simp_all
    then show "start (snd e) < en" using vs_invD(2) [OF inv] by simp
  qed
  show "distinct (overlapping_keys m st en)"
    using om_ok_distinct [OF om_ok_range [OF ok]]
    by (simp add: overlapping_keys_def tw split: option.split)
  show "k \<in> set (overlapping_keys m st en) \<longleftrightarrow>
      (\<exists>v. om_get m k = Some v \<and> area_overlaps v st en)"
  proof (cases "first_overlap_key m st en")
    case None
    then show ?thesis
      using first_overlap_None [OF inv ne] by (auto simp: overlapping_keys_def)
  next
    case (Some f)
    from iffD1 [OF first_overlap_Some [OF inv ne] Some]
    obtain u where u: "om_get m f = Some u" "area_overlaps u st en"
      and least: "\<And>j w. om_get m j = Some w \<Longrightarrow> area_overlaps w st en \<Longrightarrow> f \<le> j" by blast
    have "k \<in> set (overlapping_keys m st en) \<longleftrightarrow> (\<exists>v. (k, v) \<in> set (om_range f en m))"
      using Some by (force simp: overlapping_keys_def tw)
    also have "\<dots> \<longleftrightarrow> (\<exists>v. om_get m k = Some v \<and> f \<le> k \<and> k < en)"
      by (simp add: om_range_mem [OF ok])
    also have "\<dots> \<longleftrightarrow> (\<exists>v. om_get m k = Some v \<and> area_overlaps v st en)"
    proof
      assume "\<exists>v. om_get m k = Some v \<and> f \<le> k \<and> k < en"
      then obtain v where v: "om_get m k = Some v" "f \<le> k" "k < en" by blast
      have "st < end_addr v"
      proof (cases "f = k")
        case True
        with u v show ?thesis by (simp add: area_overlaps_def)
      next
        case False
        with v(2) have "end_addr u \<le> k" using vs_invD(3) [OF inv u(1) v(1)] by simp
        with u(2) vs_invD(2) [OF inv v(1)] show ?thesis by (simp add: area_overlaps_def)
      qed
      with v vs_invD(2) [OF inv v(1)] show "\<exists>v. om_get m k = Some v \<and> area_overlaps v st en"
        by (simp add: area_overlaps_def)
    next
      assume "\<exists>v. om_get m k = Some v \<and> area_overlaps v st en"
      then show "\<exists>v. om_get m k = Some v \<and> f \<le> k \<and> k < en"
        using least vs_invD(2) [OF inv] by (auto simp: area_overlaps_def)
    qed
    finally show ?thesis .
  qed
qed

end
