(* ===== verification/Vma_Ranges.thy ===== *)
theory Vma_Ranges
  imports Vma_Correct
begin

text \<open>
  Range operations on the registry: the fragments prepared for each overlapping area
  (\<open>duplicate_range\<close>), their installation (\<open>commit_replacement\<close>), and the properties of
  insertion, removal, permission changes and the range queries, all stated on the address view
  \<open>vs_at\<close>.
\<close>

section \<open>Fragments of one area\<close>

lemma page_div_add:
  fixes a b :: nat
  assumes "a mod page_size = 0"
  shows "a div page_size + b div page_size = (a + b) div page_size"
  using assms by (metis div_plus_div_distrib_dvd_left mod_0_imp_dvd)

lemma backing_duplicate_Inr:
  assumes "backing_duplicate dup b = Inr b'"
  shows "source_at b' = source_at b" "b' = BAnonymous \<longleftrightarrow> b = BAnonymous"
  using assms by (auto simp: backing_duplicate_def fun_eq_iff res_bind_def
      split: vma_backing.splits option.splits sum.splits)

lemma shift_start_Inr:
  assumes "shift_start skipped b = Inr b'" "skipped mod page_size = 0"
  shows "source_at b' off = source_at b (skipped + off)" "b' = BAnonymous \<longleftrightarrow> b = BAnonymous"
  using assms page_div_add [of skipped off]
  by (auto simp: shift_start_def res_bind_def ok_or_def checked_add_def
      split: vma_backing.splits option.splits sum.splits if_splits)

lemma set_start_Inr:
  assumes "set_start st v = Inr w" "start v mod page_size = 0"
  shows "start w = st \<and> end_addr w = end_addr v \<and> st < end_addr v \<and> start v \<le> st \<and>
    st mod page_size = 0 \<and>
    (backing w = BAnonymous \<longleftrightarrow> backing v = BAnonymous) \<and> kind w = kind v \<and>
    (kind v \<noteq> KFile \<longrightarrow> file_offset w = file_offset v) \<and> file_size w = file_size v \<and>
    (\<forall>a \<ge> st. attr w a = attr v a)"
proof -
  let ?s = "st - start v"
  from assms obtain off b where
    val: "validate_new_start v st = Inr ()" and
    off: "off = (if kind v = KFile then file_offset v + ?s else file_offset v)" and
    b: "shift_start ?s (backing v) = Inr b" and
    w: "w = v\<lparr>file_offset := off, backing := b, start := st\<rparr>"
    by (auto simp: set_start_def Let_def res_bind_def ok_or_def checked_add_def
        split: sum.splits if_splits option.splits)
  from val have v: "start v \<le> st" "st < end_addr v" "st mod page_size = 0"
    by (auto simp: validate_new_start_def Let_def split: if_splits)
  have s0: "?s mod page_size = 0" using v assms(2) mod_eq_dvd_iff_nat [of "start v" st page_size]
    by (simp add: mod_0_imp_dvd)
  note sh = shift_start_Inr [OF b s0]
  have "attr w a = attr v a" if "st \<le> a" for a
  proof -
    have "?s + (a - st) = a - start v" using v that by simp
    then show ?thesis using w off v that sh(1) [of "a - st"] by (auto simp: attr_def)
  qed
  with w v sh(2) off show ?thesis by simp
qed

lemma duplicate_range_Inr:
  assumes "duplicate_range dup v s e = Inr w" "area_ok v" "e mod page_size = 0"
  shows "start w = s \<and> end_addr w = e \<and> area_ok w \<and> start v \<le> s \<and> s < e \<and> e \<le> end_addr v \<and>
    (\<forall>a \<ge> s. attr w a = attr v a)"
proof -
  from assms obtain b c where
    b: "backing_duplicate dup (backing v) = Inr b" and
    c: "set_start s (v\<lparr>backing := b\<rparr>) = Inr c" and
    w: "w = c\<lparr>end_addr := e\<rparr>" and r: "start v \<le> s" "e \<le> end_addr v" "s < e"
    by (auto simp: duplicate_range_def area_duplicate_def res_bind_def
        split: sum.splits if_splits)
  note B = backing_duplicate_Inr [OF b]
  have "start v mod page_size = 0" using assms(2) by (simp add: area_ok_def)
  with set_start_Inr [OF c] have S: "start c = s \<and> end_addr c = end_addr v \<and> s mod page_size = 0 \<and>
    (backing c = BAnonymous \<longleftrightarrow> b = BAnonymous) \<and> kind c = kind v \<and>
    (kind v \<noteq> KFile \<longrightarrow> file_offset c = file_offset v) \<and> file_size c = file_size v \<and>
    (\<forall>a \<ge> s. attr c a = attr (v\<lparr>backing := b\<rparr>) a)" by simp
  have "attr (v\<lparr>backing := b\<rparr>) = attr v" using B(1) by (simp add: attr_def fun_eq_iff)
  with S w r B(2) assms(2,3) show ?thesis by (auto simp: area_ok_def)
qed

text \<open>The fragments of one area, and of the areas at a list of keys.\<close>

definition in_area :: "('l, 'd) vm_area \<Rightarrow> nat \<Rightarrow> bool" where
  "in_area v a \<longleftrightarrow> start v \<le> a \<and> a < end_addr v"

definition pieces ::
  "(nat \<Rightarrow> bool) \<Rightarrow> (nat \<Rightarrow> 'd page_attr \<Rightarrow> 'd page_attr) \<Rightarrow> ('l, 'd) vm_area
     \<Rightarrow> ('l, 'd) vm_area list \<Rightarrow> bool" where
  "pieces keep g v fs \<longleftrightarrow>
     (\<forall>f \<in> set fs. area_ok f \<and> start v \<le> start f \<and> end_addr f \<le> end_addr v \<and>
        (\<forall>a. in_area f a \<longrightarrow> keep a \<and> attr f a = g a (attr v a))) \<and>
     sorted_wrt disjoint_areas fs \<and>
     (\<forall>a. in_area v a \<longrightarrow> keep a \<longrightarrow> (\<exists>f \<in> set fs. in_area f a))"

definition all_pieces ::
  "(nat \<Rightarrow> bool) \<Rightarrow> (nat \<Rightarrow> 'd page_attr \<Rightarrow> 'd page_attr) \<Rightarrow> ('l, 'd) vma_set \<Rightarrow> nat list
     \<Rightarrow> ('l, 'd) vm_area list \<Rightarrow> bool" where
  "all_pieces keep g m keys fs \<longleftrightarrow>
     (\<forall>f \<in> set fs. \<exists>k v. k \<in> set keys \<and> om_get m k = Some v \<and> area_ok f \<and>
        start v \<le> start f \<and> end_addr f \<le> end_addr v \<and>
        (\<forall>a. in_area f a \<longrightarrow> keep a \<and> attr f a = g a (attr v a))) \<and>
     sorted_wrt disjoint_areas fs \<and>
     (\<forall>k \<in> set keys. \<forall>v a. om_get m k = Some v \<longrightarrow> in_area v a \<longrightarrow> keep a \<longrightarrow>
        (\<exists>f \<in> set fs. in_area f a))"

lemma vs_inv_disjoint:
  assumes "vs_inv m" "om_get m k = Some v" "om_get m k' = Some v'" "k \<noteq> k'"
  shows "disjoint_areas v v'"
proof (cases "k < k'")
  case True
  with vs_invD(3) [OF assms(1-3)] vs_invD(2) [OF assms(1,3)] show ?thesis
    by (simp add: disjoint_areas_def)
next
  case False
  with assms(4) have "k' < k" by simp
  with vs_invD(3) [OF assms(1,3,2)] vs_invD(2) [OF assms(1,2)] show ?thesis
    by (simp add: disjoint_areas_def)
qed

lemma disjoint_areas_mono:
  assumes "disjoint_areas v w" "start v \<le> start f" "end_addr f \<le> end_addr v"
    "start w \<le> start g" "end_addr g \<le> end_addr w"
  shows "disjoint_areas f g"
  using assms by (auto simp: disjoint_areas_def)

lemma all_pieces_Cons:
  assumes inv: "vs_inv m" and v: "om_get m k = Some v" and fresh: "k \<notin> set keys"
    and p: "pieces keep g v fs" and ps: "all_pieces keep g m keys rest"
  shows "all_pieces keep g m (k # keys) (fs @ rest)"
proof -
  have cross: "disjoint_areas f r" if f: "f \<in> set fs" and r: "r \<in> set rest" for f r
  proof -
    from ps r obtain k' v' where k': "k' \<in> set keys" "om_get m k' = Some v'"
      "start v' \<le> start r" "end_addr r \<le> end_addr v'" unfolding all_pieces_def by blast
    from p f have "start v \<le> start f" "end_addr f \<le> end_addr v" unfolding pieces_def by blast+
    moreover have "disjoint_areas v v'"
      using vs_inv_disjoint [OF inv v k'(2)] fresh k'(1) by blast
    ultimately show ?thesis using disjoint_areas_mono k'(3,4) by blast
  qed
  show ?thesis
    unfolding all_pieces_def
  proof (intro conjI)
    show "sorted_wrt disjoint_areas (fs @ rest)"
      using p ps cross by (simp add: sorted_wrt_append pieces_def all_pieces_def)
  next
    show "\<forall>f \<in> set (fs @ rest). \<exists>j w. j \<in> set (k # keys) \<and> om_get m j = Some w \<and> area_ok f \<and>
        start w \<le> start f \<and> end_addr f \<le> end_addr w \<and>
        (\<forall>a. in_area f a \<longrightarrow> keep a \<and> attr f a = g a (attr w a))"
    proof
      fix f
      assume "f \<in> set (fs @ rest)"
      then consider "f \<in> set fs" | "f \<in> set rest" by auto
      then show "\<exists>j w. j \<in> set (k # keys) \<and> om_get m j = Some w \<and> area_ok f \<and>
        start w \<le> start f \<and> end_addr f \<le> end_addr w \<and>
        (\<forall>a. in_area f a \<longrightarrow> keep a \<and> attr f a = g a (attr w a))"
      proof cases
        case 1
        with p v show ?thesis unfolding pieces_def by (intro exI [of _ k] exI [of _ v]) simp
      next
        case 2
        then obtain j w where "j \<in> set keys" "om_get m j = Some w" "area_ok f"
          "start w \<le> start f" "end_addr f \<le> end_addr w"
          "\<forall>a. in_area f a \<longrightarrow> keep a \<and> attr f a = g a (attr w a)"
          using ps unfolding all_pieces_def by blast
        then show ?thesis by (intro exI [of _ j] exI [of _ w]) simp
      qed
    qed
  next
    show "\<forall>j \<in> set (k # keys). \<forall>w a. om_get m j = Some w \<longrightarrow> in_area w a \<longrightarrow> keep a \<longrightarrow>
        (\<exists>f \<in> set (fs @ rest). in_area f a)"
    proof (intro ballI allI impI)
      fix j w a
      assume a: "j \<in> set (k # keys)" "om_get m j = Some w" "in_area w a" "keep a"
      show "\<exists>f \<in> set (fs @ rest). in_area f a"
      proof (cases "j = k")
        case True
        with a v p show ?thesis unfolding pieces_def by auto
      next
        case False
        with a(1) have "j \<in> set keys" by simp
        with a(2-4) ps have "\<exists>f \<in> set rest. in_area f a" unfolding all_pieces_def by blast
        then show ?thesis by auto
      qed
    qed
  qed
qed

section \<open>Installing the fragments\<close>

definition rewritten ::
  "(nat \<Rightarrow> bool) \<Rightarrow> (nat \<Rightarrow> 'd page_attr \<Rightarrow> 'd page_attr) \<Rightarrow> ('l, 'd) vma_set \<Rightarrow> nat list
     \<Rightarrow> nat \<Rightarrow> 'd page_attr option" where
  "rewritten keep g m keys a =
     (if \<exists>k v. k \<in> set keys \<and> om_get m k = Some v \<and> in_area v a
      then if keep a then map_option (g a) (vs_at m a) else None
      else vs_at m a)"

lemma commit_replacement_correct:
  assumes inv: "vs_inv m" and ps: "all_pieces keep g m keys fs"
  shows "vs_inv (commit_replacement keys fs m)"
    and "vs_at (commit_replacement keys fs m) a = rewritten keep g m keys a"
proof -
  let ?base = "remove_prepared keys m"
  let ?full = "insert_all_prepared fs ?base"
  note base = remove_prepared_inv [OF inv, of keys]
  have get: "om_get ?base k = (if k \<in> set keys then None else om_get m k)" for k
    using remove_prepared_get [OF vs_invD(1) [OF inv], of keys] by simp
  have ok: "area_ok f" if "f \<in> set fs" for f using ps that unfolding all_pieces_def by blast
  have sorted: "sorted_wrt disjoint_areas fs" using ps unfolding all_pieces_def by blast
  have dis: "disjoint_areas f w" if f: "f \<in> set fs" and w: "om_get ?base k = Some w" for f k w
  proof -
    from w have w: "om_get m k = Some w" "k \<notin> set keys" by (auto simp: get split: if_splits)
    from ps f obtain j v where j: "j \<in> set keys" "om_get m j = Some v"
      "start v \<le> start f" "end_addr f \<le> end_addr v" unfolding all_pieces_def by blast
    have "disjoint_areas v w" using vs_inv_disjoint [OF inv j(2) w(1)] j(1) w(2) by blast
    with j show ?thesis using disjoint_areas_mono by blast
  qed
  have full: "vs_inv ?full \<and>
    (\<forall>f \<in> set fs. \<forall>a. start f \<le> a \<and> a < end_addr f \<longrightarrow> vs_at ?full a = Some (attr f a)) \<and>
    (\<forall>a. (\<forall>f \<in> set fs. \<not> (start f \<le> a \<and> a < end_addr f)) \<longrightarrow> vs_at ?full a = vs_at ?base a)"
    by (rule insert_all_inv [OF base(1) _ sorted]) (erule ok, erule (1) dis)
  have view: "vs_at ?full a = rewritten keep g m keys a"
  proof (cases "\<exists>f \<in> set fs. in_area f a")
    case True
    then obtain f where f: "f \<in> set fs" "in_area f a" by blast
    from ps f obtain k v where k: "k \<in> set keys" "om_get m k = Some v"
      "start v \<le> start f" "end_addr f \<le> end_addr v" "keep a" "attr f a = g a (attr v a)"
      unfolding all_pieces_def by blast
    with f have va: "in_area v a" by (auto simp: in_area_def)
    then have "vs_at m a = Some (attr v a)"
      using vs_at_eqI [OF inv k(2)] vs_invD(2) [OF inv k(2)] by (auto simp: in_area_def)
    with k va have "rewritten keep g m keys a = Some (attr f a)" by (auto simp: rewritten_def)
    with full f show ?thesis by (auto simp: in_area_def)
  next
    case False
    then have eq: "vs_at ?full a = vs_at ?base a" using full by (auto simp: in_area_def)
    show ?thesis
    proof (cases "\<exists>k v. k \<in> set keys \<and> om_get m k = Some v \<and> in_area v a")
      case True
      then obtain k v where k: "k \<in> set keys" "om_get m k = Some v" "in_area v a" by blast
      with False ps have "\<not> keep a" unfolding all_pieces_def by blast
      moreover have "vs_at ?base a = None"
        unfolding base(2) using k vs_invD(2) [OF inv k(2)] by (auto simp: in_area_def)
      ultimately show ?thesis using True eq by (simp add: rewritten_def)
    next
      case False
      then have "vs_at ?base a = vs_at m a"
        unfolding base(2) using vs_invD(2) [OF inv] by (auto simp: in_area_def)
      moreover have "rewritten keep g m keys a = vs_at m a"
        unfolding rewritten_def using False by (simp only: if_False)
      ultimately show ?thesis using eq by simp
    qed
  qed
  from full have "vs_inv ?full" by blast
  from coalesce_prepared_correct [OF this] view
  show "vs_inv (commit_replacement keys fs m)"
    "vs_at (commit_replacement keys fs m) a = rewritten keep g m keys a"
    by (simp_all add: commit_replacement_def)
qed

section \<open>The fragments the operations prepare\<close>

definition frag :: "('l, 'd) vm_area \<Rightarrow> nat \<Rightarrow> nat \<Rightarrow> ('l, 'd) vm_area \<Rightarrow> bool" where
  "frag v a b w \<longleftrightarrow> start w = a \<and> end_addr w = b \<and> area_ok w \<and> start v \<le> a \<and> a < b \<and>
     b \<le> end_addr v \<and> (\<forall>x \<ge> a. attr w x = attr v x)"

lemma duplicate_range_frag:
  "duplicate_range dup v a b = Inr w \<Longrightarrow> area_ok v \<Longrightarrow> b mod page_size = 0 \<Longrightarrow> frag v a b w"
  by (drule (2) duplicate_range_Inr) (simp add: frag_def)

lemma opt_fragment_cases:
  assumes "opt_fragment dup v a b = Inr fs" "area_ok v" "b mod page_size = 0"
  obtains w where "a < b" "fs = [w]" "frag v a b w" | "b \<le> a" "fs = []"
  using assms duplicate_range_frag [of dup v a b]
  by (auto simp: opt_fragment_def res_bind_def split: if_splits sum.splits)

lemma remove_pieces:
  assumes v: "area_ok v" "area_overlaps v st en" and al: "st mod page_size = 0" "en mod page_size = 0"
    and l: "opt_fragment dup v (start v) st = Inr left"
    and r: "opt_fragment dup v en (end_addr v) = Inr right"
    and ne: "st < en"
  shows "pieces (\<lambda>a. \<not> (st \<le> a \<and> a < en)) (\<lambda>a x. x) v (left @ right)"
proof -
  have e: "end_addr v mod page_size = 0" using v by (simp add: area_ok_def)
  show ?thesis
    by (rule opt_fragment_cases [OF l v(1) al(1)]; rule opt_fragment_cases [OF r v(1) e];
        insert ne v(2); clarsimp simp: pieces_def; intro conjI allI impI;
        auto simp: frag_def in_area_def area_overlaps_def disjoint_areas_def)
qed

lemma update_pieces:
  assumes v: "area_ok v" "area_overlaps v st en" and al: "st mod page_size = 0" "en mod page_size = 0"
    and l: "opt_fragment dup v (start v) (max st (start v)) = Inr left"
    and mid: "duplicate_range dup v (max st (start v)) (min en (end_addr v)) = Inr middle"
    and r: "opt_fragment dup v (min en (end_addr v)) (end_addr v) = Inr right"
  shows "pieces (\<lambda>a. True)
    (\<lambda>a x. if st \<le> a \<and> a < en then x\<lparr>a_perm := upd (a_perm x)\<rparr> else x) v
    (left @ [middle\<lparr>perm := upd (perm middle)\<rparr>] @ right)"
proof -
  let ?M = "middle\<lparr>perm := upd (perm middle)\<rparr>"
  have e: "end_addr v mod page_size = 0" "start v mod page_size = 0"
    using v by (simp_all add: area_ok_def)
  have s': "max st (start v) mod page_size = 0" and e': "min en (end_addr v) mod page_size = 0"
    using e al by (simp_all add: max_def min_def)
  have m: "frag v (max st (start v)) (min en (end_addr v)) middle"
    by (rule duplicate_range_frag [OF mid v(1) e'])
  then have M: "start ?M = max st (start v) \<and> end_addr ?M = min en (end_addr v) \<and> area_ok ?M \<and>
      max st (start v) < min en (end_addr v) \<and>
      (\<forall>x \<ge> max st (start v). attr ?M x = (attr v x)\<lparr>a_perm := upd (a_perm (attr v x))\<rparr>)"
    by (auto simp: frag_def area_ok_def attr_def)
  show ?thesis
    by (rule opt_fragment_cases [OF l v(1) s']; rule opt_fragment_cases [OF r v(1) e(1)];
        insert M; clarsimp simp: pieces_def; intro conjI allI impI;
        auto simp: frag_def in_area_def disjoint_areas_def)
qed

section \<open>Operations on ranges\<close>

lemma res_bind_InrE:
  assumes "res_bind r f = Inr y"
  obtains x where "r = Inr x" "f x = Inr y"
  using assms by (cases r) (auto simp: res_bind_def)

lemma remove_fragments_pieces:
  assumes inv: "vs_inv m" and al: "st mod page_size = 0" "en mod page_size = 0" "st < en"
  shows "remove_fragments dup st en m keys = Inr fs \<Longrightarrow> distinct keys \<Longrightarrow>
    (\<And>k. k \<in> set keys \<Longrightarrow> \<exists>v. om_get m k = Some v \<and> area_overlaps v st en) \<Longrightarrow>
    all_pieces (\<lambda>a. \<not> (st \<le> a \<and> a < en)) (\<lambda>a x. x) m keys fs"
proof (induction keys arbitrary: fs)
  case Nil
  then show ?case by (simp add: all_pieces_def)
next
  case (Cons k keys)
  from Cons.prems(3) [of k] obtain v where v: "om_get m k = Some v" "area_overlaps v st en" by auto
  from Cons.prems(1) v(1) obtain left right rest where
    l: "opt_fragment dup v (start v) st = Inr left" and
    r: "opt_fragment dup v en (end_addr v) = Inr right" and
    rest: "remove_fragments dup st en m keys = Inr rest" and fs: "fs = (left @ right) @ rest"
    by (auto simp: ok_or_def res_bind_def split: sum.splits)
  have "area_ok v" using vs_invD(2) [OF inv v(1)] by simp
  from remove_pieces [OF this v(2) al(1,2) l r al(3)]
  have p: "pieces (\<lambda>a. \<not> (st \<le> a \<and> a < en)) (\<lambda>a x. x) v (left @ right)" .
  have ps: "all_pieces (\<lambda>a. \<not> (st \<le> a \<and> a < en)) (\<lambda>a x. x) m keys rest"
    by (rule Cons.IH [OF rest]) (use Cons.prems(2,3) in auto)
  show ?case unfolding fs
    by (rule all_pieces_Cons [OF inv v(1) _ p ps]) (use Cons.prems(2) in simp)
qed

lemma update_fragments_pieces:
  assumes inv: "vs_inv m" and al: "st mod page_size = 0" "en mod page_size = 0"
  shows "prepare_updated_fragments dup upd st en m keys = Inr fs \<Longrightarrow> distinct keys \<Longrightarrow>
    (\<And>k. k \<in> set keys \<Longrightarrow> \<exists>v. om_get m k = Some v \<and> area_overlaps v st en) \<Longrightarrow>
    all_pieces (\<lambda>a. True)
      (\<lambda>a x. if st \<le> a \<and> a < en then x\<lparr>a_perm := upd (a_perm x)\<rparr> else x) m keys fs"
proof (induction keys arbitrary: fs)
  case Nil
  then show ?case by (simp add: all_pieces_def)
next
  case (Cons k keys)
  from Cons.prems(3) [of k] obtain v where v: "om_get m k = Some v" "area_overlaps v st en" by auto
  from Cons.prems(1) v(1) obtain left middle right rest where
    l: "opt_fragment dup v (start v) (max st (start v)) = Inr left" and
    mid: "duplicate_range dup v (max st (start v)) (min en (end_addr v)) = Inr middle" and
    r: "opt_fragment dup v (min en (end_addr v)) (end_addr v) = Inr right" and
    rest: "prepare_updated_fragments dup upd st en m keys = Inr rest" and
    fs: "fs = (left @ [middle\<lparr>perm := upd (perm middle)\<rparr>] @ right) @ rest"
    by (auto simp: ok_or_def res_bind_def Let_def split: sum.splits)
  have ok: "area_ok v" using vs_invD(2) [OF inv v(1)] by simp
  note p = update_pieces [OF ok v(2) al l mid r, of upd]
  have ps: "all_pieces (\<lambda>a. True)
      (\<lambda>a x. if st \<le> a \<and> a < en then x\<lparr>a_perm := upd (a_perm x)\<rparr> else x) m keys rest"
    by (rule Cons.IH [OF rest]) (use Cons.prems(2,3) in auto)
  show ?case unfolding fs
    by (rule all_pieces_Cons [OF inv v(1) _ p ps]) (use Cons.prems(2) in simp)
qed

lemma rewritten_overlapping:
  assumes inv: "vs_inv m" and ne: "st < en"
  shows "rewritten keep g m (overlapping_keys m st en) a =
    (if \<exists>k v. om_get m k = Some v \<and> area_overlaps v st en \<and> in_area v a
     then if keep a then map_option (g a) (vs_at m a) else None
     else vs_at m a)"
proof -
  have "(\<exists>k v. k \<in> set (overlapping_keys m st en) \<and> om_get m k = Some v \<and> in_area v a) \<longleftrightarrow>
    (\<exists>k v. om_get m k = Some v \<and> area_overlaps v st en \<and> in_area v a)"
    unfolding overlapping_keys_spec(1) [OF inv ne]
    by (metis (no_types, lifting) option.inject)
  then show ?thesis unfolding rewritten_def by (simp only:)
qed

lemma in_range_unmapped:
  assumes inv: "vs_inv m" and a: "st \<le> a" "a < en"
    and none: "\<not> (\<exists>k v. om_get m k = Some v \<and> area_overlaps v st en \<and> in_area v a)"
  shows "vs_at m a = None"
  unfolding vs_at_None [OF inv]
proof (intro allI impI notI)
  fix k v
  assume v: "om_get m k = Some v" "k \<le> a \<and> a < end_addr v"
  with vs_invD(2) [OF inv v(1)] a have "area_overlaps v st en \<and> in_area v a"
    by (auto simp: area_overlaps_def in_area_def)
  with v none show False by blast
qed

lemma validate_page_range_Inr:
  "validate_page_range st en = Inr u \<longleftrightarrow>
    st < en \<and> st mod page_size = 0 \<and> en mod page_size = 0"
  by (simp add: validate_page_range_def)

lemma remove_range_view:
  assumes inv: "vs_inv m" and r: "vs_remove_range dup st en m = Inr m'"
  shows "vs_inv m' \<and>
    vs_at m' = (\<lambda>a. if st \<le> a \<and> a < en then None else vs_at m a)"
proof (cases "en \<le> st")
  case True
  with r inv show ?thesis by (auto simp: vs_remove_range_def fun_eq_iff)
next
  case False
  then have ne: "st < en" by simp
  let ?keys = "overlapping_keys m st en"
  from r False obtain fs where al: "st mod page_size = 0" "en mod page_size = 0"
    and fs: "remove_fragments dup st en m ?keys = Inr fs"
    and m': "m' = commit_replacement ?keys fs m"
    by (auto simp: vs_remove_range_def Let_def validate_page_range_Inr elim!: res_bind_InrE)
  have ps: "all_pieces (\<lambda>a. \<not> (st \<le> a \<and> a < en)) (\<lambda>a x. x) m ?keys fs"
    by (rule remove_fragments_pieces [OF inv al ne fs])
      (use overlapping_keys_spec [OF inv ne] in auto)
  have "vs_at m' a = (if st \<le> a \<and> a < en then None else vs_at m a)" for a
    unfolding m' commit_replacement_correct(2) [OF inv ps] rewritten_overlapping [OF inv ne]
    using in_range_unmapped [OF inv, of st a en] by (auto simp: option.map_ident)
  then show ?thesis
    unfolding m' using commit_replacement_correct(1) [OF inv ps] by (simp add: fun_eq_iff)
qed

lemma update_perm_view:
  assumes inv: "vs_inv m" and r: "vs_update_perm dup st en upd m = Inr m'"
  shows "vs_inv m' \<and>
    vs_at m' = (\<lambda>a. if st \<le> a \<and> a < en then map_option (\<lambda>x. x\<lparr>a_perm := upd (a_perm x)\<rparr>) (vs_at m a)
                else vs_at m a)"
proof (cases "en \<le> st")
  case True
  with r inv show ?thesis by (auto simp: vs_update_perm_def fun_eq_iff)
next
  case False
  then have ne: "st < en" by simp
  let ?keys = "overlapping_keys m st en"
  let ?g = "\<lambda>a x. if st \<le> a \<and> a < en then x\<lparr>a_perm := upd (a_perm x)\<rparr> else x"
  from r False obtain fs where al: "st mod page_size = 0" "en mod page_size = 0"
    and fs: "prepare_updated_fragments dup upd st en m ?keys = Inr fs"
    and m': "m' = commit_replacement ?keys fs m"
    by (auto simp: vs_update_perm_def Let_def validate_page_range_Inr elim!: res_bind_InrE)
  have ps: "all_pieces (\<lambda>a. True) ?g m ?keys fs"
    by (rule update_fragments_pieces [OF inv al fs])
      (use overlapping_keys_spec [OF inv ne] in auto)
  have "vs_at m' a = (if st \<le> a \<and> a < en
      then map_option (\<lambda>x. x\<lparr>a_perm := upd (a_perm x)\<rparr>) (vs_at m a) else vs_at m a)" for a
    unfolding m' commit_replacement_correct(2) [OF inv ps] rewritten_overlapping [OF inv ne]
    using in_range_unmapped [OF inv, of st a en] by (auto simp: option.map_ident)
  then show ?thesis
    unfolding m' using commit_replacement_correct(1) [OF inv ps] by (simp add: fun_eq_iff)
qed

end
