(* ===== verification/Vma_Props.thy ===== *)
theory Vma_Props
  imports Vma_Ranges
begin

text \<open>
  The properties of the address space registry, on the address view \<open>vs_at\<close>: insertion
  fills a hole or is refused, removal and permission changes rewrite exactly the range, the
  queries answer for every address, and the fallible operations fail only for the reasons
  the source gives.
\<close>

section \<open>Insertion\<close>

definition plain_area :: "('l, 'd) vm_area \<Rightarrow> bool" where
  "plain_area v \<longleftrightarrow> (backing v = BAnonymous \<longrightarrow> kind v \<noteq> KFile \<and> file_offset v = 0 \<and> file_size v = 0)"

definition bad_range :: "('l, 'd) vm_area \<Rightarrow> bool" where
  "bad_range v \<longleftrightarrow> end_addr v \<le> start v \<or> start v mod page_size \<noteq> 0 \<or> end_addr v mod page_size \<noteq> 0"

lemma area_ok_split: "area_ok v \<longleftrightarrow> plain_area v \<and> \<not> bad_range v"
  by (auto simp: area_ok_def plain_area_def bad_range_def)

lemma vs_at_get:
  assumes "vs_inv m" "om_get m k = Some v" "in_area v a"
  shows "vs_at m a = Some (attr v a)"
  using vs_at_eqI [OF assms(1,2), of a] vs_invD(2) [OF assms(1,2)] assms(3)
  by (simp add: in_area_def)

lemma vs_at_area:
  assumes "vs_inv m" "vs_at m a \<noteq> None"
  obtains k v where "om_get m k = Some v" "in_area v a"
proof -
  from assms(2) obtain x where "vs_at m a = Some x" by blast
  from iffD1 [OF vs_at_iff [OF assms(1)] this] obtain k v where
    "om_get m k = Some v" "k \<le> a" "a < end_addr v" by blast
  with vs_invD(2) [OF assms(1) this(1)] that show ?thesis by (simp add: in_area_def)
qed

text \<open>The two neighbour tests find an overlapping area when there is one.\<close>

lemma insert_tests:
  assumes inv: "vs_inv m" and ne: "start v < end_addr v"
  shows "((case last_at_most (start v) m of
             None \<Rightarrow> False | Some (k, p) \<Rightarrow> start v < end_addr p) \<or>
          (case om_least (\<lambda>i. start v \<le> i) m of
             None \<Rightarrow> False | Some (n, w) \<Rightarrow> n < end_addr v)) \<longleftrightarrow>
         (\<exists>k w. om_get m k = Some w \<and> area_overlaps w (start v) (end_addr v))"
    (is "?L \<longleftrightarrow> ?R")
proof
  note ok = vs_invD(1) [OF inv]
  assume ?L
  then consider k p where "last_at_most (start v) m = Some (k, p)" "start v < end_addr p"
    | n w where "om_least (\<lambda>i. start v \<le> i) m = Some (n, w)" "n < end_addr v"
    by (auto split: option.splits)
  then show ?R
  proof cases
    case 1
    then have "om_get m k = Some p" "k \<le> start v"
      using om.greatest_get [OF ok] unfolding last_at_most_def by blast+
    with 1 vs_invD(2) [OF inv this(1)] ne show ?thesis
      by (intro exI [of _ k] exI [of _ p]) (simp add: area_overlaps_def)
  next
    case 2
    then have "om_get m n = Some w" "start v \<le> n" using om.least_get [OF ok] by blast+
    with 2 vs_invD(2) [OF inv this(1)] ne show ?thesis
      by (intro exI [of _ n] exI [of _ w]) (simp add: area_overlaps_def)
  qed
next
  note ok = vs_invD(1) [OF inv]
  assume ?R
  then obtain k w where w: "om_get m k = Some w" "area_overlaps w (start v) (end_addr v)" by blast
  note k = vs_invD(2) [OF inv w(1)]
  show ?L
  proof (cases "start v \<le> k")
    case True
    then have "om_least (\<lambda>i. start v \<le> i) m \<noteq> None"
      using om.least_None [OF ok] w(1) by auto
    then obtain n u where n: "om_least (\<lambda>i. start v \<le> i) m = Some (n, u)" by auto
    have "n \<le> k" using om.least_le [OF ok n w(1)] True by simp
    with n w k show ?thesis by (simp add: area_overlaps_def)
  next
    case False
    then have "last_at_most (start v) m \<noteq> None"
      unfolding last_at_most_def using om.greatest_None [OF ok] w(1) by auto
    then obtain p u where p: "last_at_most (start v) m = Some (p, u)" by auto
    then have pu: "om_get m p = Some u" "p \<le> start v"
      using om.greatest_get [OF ok] unfolding last_at_most_def by blast+
    have "k \<le> p" using om.greatest_ge [OF ok _ w(1)] p False unfolding last_at_most_def by auto
    moreover have "\<not> k < p"
      using vs_invD(3) [OF inv w(1) pu(1)] w(2) pu(2) by (auto simp: area_overlaps_def)
    ultimately have "u = w" using pu(1) w(1) by simp
    with p w(2) show ?thesis by (simp add: area_overlaps_def)
  qed
qed

lemma overlap_mapped:
  assumes inv: "vs_inv m" and ne: "st < en"
  shows "(\<exists>k w. om_get m k = Some w \<and> area_overlaps w st en) \<longleftrightarrow>
    (\<exists>a. st \<le> a \<and> a < en \<and> vs_at m a \<noteq> None)"
proof
  assume "\<exists>k w. om_get m k = Some w \<and> area_overlaps w st en"
  then obtain k w where w: "om_get m k = Some w" "area_overlaps w st en" by blast
  with vs_invD(2) [OF inv w(1)] ne have "in_area w (max st k)" "max st k < en"
    by (auto simp: area_overlaps_def in_area_def)
  with vs_at_get [OF inv w(1)] show "\<exists>a. st \<le> a \<and> a < en \<and> vs_at m a \<noteq> None"
    by (intro exI [of _ "max st k"]) simp
next
  assume "\<exists>a. st \<le> a \<and> a < en \<and> vs_at m a \<noteq> None"
  then obtain a where a: "st \<le> a" "a < en" "vs_at m a \<noteq> None" by blast
  from vs_at_area [OF inv a(3)] obtain k v where "om_get m k = Some v" "in_area v a" .
  with a show "\<exists>k w. om_get m k = Some w \<and> area_overlaps w st en"
    by (intro exI [of _ k] exI [of _ v]) (auto simp: in_area_def area_overlaps_def)
qed

text \<open>
  C5. Inserting an area (an anonymous one without a file offset, as the constructors build
  them) into a well-formed registry is refused with \<open>InvalidAddress\<close> exactly when its range
  is empty or unaligned and with \<open>AlreadyMapped\<close> exactly when a valid range contains a
  mapped address; otherwise the registry stays well formed, every address of the range gets
  the attributes of the area and every other address keeps its own, whatever was merged.
\<close>

theorem vs_insert_correct:
  assumes "vs_inv m" and "plain_area v"
  shows "(vs_insert v m = Inl InvalidAddress \<longleftrightarrow> bad_range v) \<and>
    (vs_insert v m = Inl AlreadyMapped \<longleftrightarrow>
       \<not> bad_range v \<and> (\<exists>a. in_area v a \<and> vs_at m a \<noteq> None)) \<and>
    (\<forall>e. vs_insert v m = Inl e \<longrightarrow> e = InvalidAddress \<or> e = AlreadyMapped) \<and>
    (\<forall>m'. vs_insert v m = Inr m' \<longrightarrow> vs_inv m' \<and>
       vs_at m' = (\<lambda>a. if in_area v a then Some (attr v a) else vs_at m a))"
proof (cases "bad_range v")
  case True
  then have "vs_insert v m = Inl InvalidAddress" by (simp add: vs_insert_def bad_range_def)
  with True show ?thesis by simp
next
  case False
  then have ne: "start v < end_addr v" and ok: "area_ok v"
    using assms(2) by (auto simp: area_ok_split bad_range_def)
  let ?o = "\<exists>k w. om_get m k = Some w \<and> area_overlaps w (start v) (end_addr v)"
  have split: "vs_insert v m = (if ?o then Inl AlreadyMapped
      else Inr (coalesce_at (start v) (om_insert (start v) v m)))"
    unfolding insert_tests [OF assms(1) ne, symmetric]
    using False by (auto simp: vs_insert_def bad_range_def)
  have o: "?o \<longleftrightarrow> (\<exists>a. in_area v a \<and> vs_at m a \<noteq> None)"
    unfolding overlap_mapped [OF assms(1) ne] in_area_def by blast
  have "vs_inv (coalesce_at (start v) (om_insert (start v) v m)) \<and>
    vs_at (coalesce_at (start v) (om_insert (start v) v m)) =
      (\<lambda>a. if in_area v a then Some (attr v a) else vs_at m a)" if no: "\<not> ?o"
  proof -
    have disj: "disjoint_areas v w" if "om_get m k = Some w" for k w
      using no that by (auto simp: area_overlaps_def disjoint_areas_def not_less)
    have ins: "vs_inv (om_insert (start v) v m)" "\<And>a. vs_at (om_insert (start v) v m) a =
        (if start v \<le> a \<and> a < end_addr v then Some (attr v a) else vs_at m a)"
      by (rule insert_area [OF assms(1) ok], erule disj)+
    from coalesce_at_correct [OF ins(1), of "start v"] ins(2) show ?thesis
      by (simp add: fun_eq_iff in_area_def)
  qed
  with split o False show ?thesis by simp
qed

definition demo_area :: "nat \<Rightarrow> nat \<Rightarrow> (unit, unit) vm_area" where
  "demo_area st en = area_anonymous st en 3 Private KAnonymous True"

lemma demo_area_plain: "plain_area (demo_area st en)"
  by (simp add: plain_area_def demo_area_def area_anonymous_def)

definition demo_set :: "(unit, unit) vma_set" where
  "demo_set = om_insert 8192 (demo_area 8192 20480) []"

lemma demo_area_fields:
  "start (demo_area st en) = st" "end_addr (demo_area st en) = en"
  "backing (demo_area st en) = BAnonymous" "perm (demo_area st en) = 3"
  by (simp_all add: demo_area_def area_anonymous_def)

lemma demo_set_get: "om_get demo_set k = (if k = 8192 then Some (demo_area 8192 20480) else None)"
  by (simp add: demo_set_def om.get_put [OF om_ok_Nil] om_get_def)

lemma demo_set_inv: "vs_inv demo_set"
proof -
  have ok: "area_ok (demo_area 8192 20480)"
    by (simp add: area_ok_split demo_area_plain bad_range_def demo_area_fields page_size_def)
  have "vs_inv (om_insert (start (demo_area 8192 20480)) (demo_area 8192 20480) [])"
    by (rule insert_area(1) [OF vs_inv_empty ok]) (simp add: om_get_def)
  then show ?thesis by (simp add: demo_set_def demo_area_fields)
qed

theorem vs_insert_correct_witness:
  "(vs_insert (demo_area 20480 24576) demo_set = Inl InvalidAddress \<longleftrightarrow>
      bad_range (demo_area 20480 24576)) \<and> \<not> bad_range (demo_area 20480 24576) \<and>
   vs_inv demo_set"
  using vs_insert_correct [OF demo_set_inv demo_area_plain, of 20480 24576] demo_set_inv
  by (simp add: bad_range_def demo_area_fields page_size_def)

section \<open>When the range operations succeed\<close>

text \<open>No checked addition of the area overflows inside its range.\<close>

definition area_fits :: "('l, 'd) vm_area \<Rightarrow> bool" where
  "area_fits v \<longleftrightarrow>
     (kind v = KFile \<longrightarrow> file_offset v + (end_addr v - start v) \<le> usize_max) \<and>
     (case backing v of
        BDevice phys d \<Rightarrow> phys + (end_addr v - start v) div page_size \<le> usize_max
      | _ \<Rightarrow> True)"

lemma duplicate_range_total:
  assumes v: "area_ok v" "area_fits v" and dup: "\<forall>l. is_ok (dup l)"
    and r: "start v \<le> s" "s < e" "e \<le> end_addr v" "s mod page_size = 0"
  shows "\<exists>w. duplicate_range dup v s e = Inr w"
proof -
  have "\<exists>b. backing_duplicate dup (backing v) = Inr b"
  proof (cases "\<exists>l. backing v = BFile (Some l)")
    case True
    then obtain l where l: "backing v = BFile (Some l)" ..
    have "is_ok (dup l)" using dup by blast
    then obtain l' where "dup l = Inr l'" by (cases "dup l") auto
    with l show ?thesis by (simp add: backing_duplicate_def res_bind_def)
  next
    case False
    then show ?thesis
      by (auto simp: backing_duplicate_def split: vma_backing.splits option.splits)
  qed
  then obtain b where b: "backing_duplicate dup (backing v) = Inr b" ..
  have bdev: "b = BDevice p d \<longleftrightarrow> backing v = BDevice p d" for p d
    using b by (auto simp: backing_duplicate_def res_bind_def
        split: vma_backing.splits option.splits sum.splits)
  let ?c = "v\<lparr>backing := b\<rparr>"
  have le: "s - start v \<le> end_addr v - start v" using r by simp
  have foff: "kind v = KFile \<Longrightarrow> file_offset v + (s - start v) \<le> usize_max"
    using v(2) le by (simp add: area_fits_def)
  have dev: "phys + (s - start v) div page_size \<le> usize_max" if "b = BDevice phys d" for phys d
    using v(2) that div_le_mono [OF le, of page_size] by (simp add: area_fits_def bdev)
  have s0: "(s - start v) mod page_size = 0"
    using v(1) r mod_eq_dvd_iff_nat [of "start v" s page_size]
    by (simp add: area_ok_def mod_0_imp_dvd)
  have "validate_new_start ?c s = Inr ()"
    using r foff dev
    by (auto simp: validate_new_start_def Let_def checked_add_def split: vma_backing.splits)
  moreover have "\<exists>b'. shift_start (s - start v) b = Inr b'"
    using s0 dev
    by (auto simp: shift_start_def res_bind_def ok_or_def checked_add_def split: vma_backing.splits)
  ultimately have "\<exists>c. set_start s ?c = Inr c"
    using foff by (auto simp: set_start_def Let_def res_bind_def ok_or_def checked_add_def)
  with b r show ?thesis
    by (auto simp: duplicate_range_def area_duplicate_def res_bind_def)
qed

lemma opt_fragment_total:
  assumes "area_ok v" "area_fits v" "\<forall>l. is_ok (dup l)"
    and "a < b \<Longrightarrow> start v \<le> a \<and> b \<le> end_addr v \<and> a mod page_size = 0"
  shows "\<exists>fs. opt_fragment dup v a b = Inr fs"
  using duplicate_range_total [OF assms(1-3), of a b] assms(4)
  by (auto simp: opt_fragment_def res_bind_def)

lemma remove_fragments_total:
  assumes inv: "vs_inv m" and fits: "\<forall>k v. om_get m k = Some v \<longrightarrow> area_fits v"
    and dup: "\<forall>l. is_ok (dup l)" and al: "st mod page_size = 0" "en mod page_size = 0"
  shows "(\<And>k. k \<in> set keys \<Longrightarrow> \<exists>v. om_get m k = Some v \<and> area_overlaps v st en) \<Longrightarrow>
    \<exists>fs. remove_fragments dup st en m keys = Inr fs"
proof (induction keys)
  case (Cons k keys)
  from Cons.prems [of k] obtain v where v: "om_get m k = Some v" "area_overlaps v st en" by auto
  have fv: "area_fits v" using fits v(1) by blast
  have ok: "area_ok v" using vs_invD(2) [OF inv v(1)] by simp
  then have e: "start v mod page_size = 0" by (simp add: area_ok_def)
  obtain l where "opt_fragment dup v (start v) st = Inr l"
    using opt_fragment_total [OF ok fv dup, of "start v" st] e v(2)
    by (auto simp: area_overlaps_def)
  moreover obtain r where "opt_fragment dup v en (end_addr v) = Inr r"
    using opt_fragment_total [OF ok fv dup, of en "end_addr v"] al v(2)
    by (auto simp: area_overlaps_def)
  moreover obtain rest where "remove_fragments dup st en m keys = Inr rest"
    using Cons by auto
  ultimately show ?case using v(1) by (simp add: ok_or_def res_bind_def)
qed simp

lemma update_fragments_total:
  assumes inv: "vs_inv m" and fits: "\<forall>k v. om_get m k = Some v \<longrightarrow> area_fits v"
    and dup: "\<forall>l. is_ok (dup l)" and al: "st mod page_size = 0" "en mod page_size = 0"
    and ne: "st < en"
  shows "(\<And>k. k \<in> set keys \<Longrightarrow> \<exists>v. om_get m k = Some v \<and> area_overlaps v st en) \<Longrightarrow>
    \<exists>fs. prepare_updated_fragments dup upd st en m keys = Inr fs"
proof (induction keys)
  case (Cons k keys)
  from Cons.prems [of k] obtain v where v: "om_get m k = Some v" "area_overlaps v st en" by auto
  have fv: "area_fits v" using fits v(1) by blast
  have ok: "area_ok v" using vs_invD(2) [OF inv v(1)] by simp
  then have e: "start v mod page_size = 0" "end_addr v mod page_size = 0" "start v < end_addr v"
    by (simp_all add: area_ok_def)
  have mid: "max st (start v) mod page_size = 0" "min en (end_addr v) mod page_size = 0"
    "max st (start v) < min en (end_addr v)"
    using e al v(2) ne by (auto simp: max_def min_def area_overlaps_def)
  obtain l where "opt_fragment dup v (start v) (max st (start v)) = Inr l"
    using opt_fragment_total [OF ok fv dup, of "start v" "max st (start v)"] e v(2)
    by (auto simp: area_overlaps_def)
  moreover obtain r where "opt_fragment dup v (min en (end_addr v)) (end_addr v) = Inr r"
    using opt_fragment_total [OF ok fv dup, of "min en (end_addr v)" "end_addr v"]
      mid e al by auto
  moreover obtain w where "duplicate_range dup v (max st (start v)) (min en (end_addr v)) = Inr w"
    using duplicate_range_total [OF ok fv dup, of "max st (start v)"
        "min en (end_addr v)"] mid by auto
  moreover obtain rest where "prepare_updated_fragments dup upd st en m keys = Inr rest"
    using Cons by auto
  ultimately show ?case using v(1) by (simp add: ok_or_def res_bind_def Let_def)
qed simp

lemma range_total:
  assumes "vs_inv m" and "\<forall>k v. om_get m k = Some v \<longrightarrow> area_fits v"
    and "\<forall>l. is_ok (dup l)"
  shows "(if en \<le> st \<or> st mod page_size = 0 \<and> en mod page_size = 0
      then (\<exists>m'. vs_remove_range dup st en m = Inr m') \<and>
           (\<exists>m'. vs_update_perm dup st en upd m = Inr m')
      else vs_remove_range dup st en m = Inl InvalidAddress \<and>
           vs_update_perm dup st en upd m = Inl InvalidAddress)"
proof (cases "st < en \<and> st mod page_size = 0 \<and> en mod page_size = 0")
  case True
  then have al: "st mod page_size = 0" "en mod page_size = 0" "st < en" by auto
  have keys: "\<exists>v. om_get m k = Some v \<and> area_overlaps v st en"
    if "k \<in> set (overlapping_keys m st en)" for k
    using that overlapping_keys_spec(1) [OF assms(1) al(3)] by blast
  obtain fs gs where "remove_fragments dup st en m (overlapping_keys m st en) = Inr fs"
    "prepare_updated_fragments dup upd st en m (overlapping_keys m st en) = Inr gs"
    using remove_fragments_total [OF assms al(1,2), of "overlapping_keys m st en"]
      update_fragments_total [OF assms al, of "overlapping_keys m st en"] keys by blast
  with al show ?thesis
    by (simp add: vs_remove_range_def vs_update_perm_def validate_page_range_def res_bind_def)
next
  case False
  then show ?thesis
    by (auto simp: vs_remove_range_def vs_update_perm_def validate_page_range_def res_bind_def)
qed

lemma demo_set_fits: "\<forall>k v. om_get demo_set k = Some v \<longrightarrow> area_fits v"
  by (simp add: demo_set_get area_fits_def demo_area_def area_anonymous_def)

lemma demo_range_total:
  assumes "st mod page_size = 0" "en mod page_size = 0"
  shows "\<exists>m'. vs_remove_range Inr st en demo_set = Inr m'"
    "\<exists>m'. vs_update_perm Inr st en upd demo_set = Inr m'"
  using range_total [OF demo_set_inv demo_set_fits, of Inr en st upd] assms by auto

text \<open>
  On a well-formed registry whose file offsets and device pages do not overflow, with
  loaders that can be duplicated, \<open>remove_range\<close> and \<open>update_perm\<close> succeed on every empty
  or page-aligned range, whether or not it is mapped, and fail with \<open>InvalidAddress\<close> on
  every other one.
\<close>

theorem vs_range_operations_total:
  assumes "vs_inv m" and "\<forall>k v. om_get m k = Some v \<longrightarrow> area_fits v"
    and "\<forall>l. is_ok (dup l)"
  shows "(if en \<le> st \<or> st mod page_size = 0 \<and> en mod page_size = 0
      then (\<exists>m'. vs_remove_range dup st en m = Inr m') \<and>
           (\<exists>m'. vs_update_perm dup st en upd m = Inr m')
      else vs_remove_range dup st en m = Inl InvalidAddress \<and>
           vs_update_perm dup st en upd m = Inl InvalidAddress)"
  using assms by (rule range_total)

theorem vs_range_operations_total_witness:
  "(\<exists>m'. vs_remove_range Inr 4096 12288 demo_set = Inr m') \<and>
   (\<exists>m'. vs_update_perm Inr 4096 12288 (\<lambda>p. p) demo_set = Inr m')"
  using vs_range_operations_total [OF demo_set_inv demo_set_fits, of Inr 12288 4096 "\<lambda>p. p"]
  by (simp add: page_size_def)

section \<open>Removal and permission changes\<close>

text \<open>
  C6. Removing a range from a well-formed registry, when it succeeds, leaves a well-formed
  registry in which every address of the range is unmapped and every other address keeps its
  attributes, file offset and device page included, although areas are split, their starts
  shifted and their neighbours merged.
\<close>

theorem vs_remove_range_correct:
  assumes "vs_inv m" and "vs_remove_range dup st en m = Inr m'"
  shows "vs_inv m' \<and> vs_at m' = (\<lambda>a. if st \<le> a \<and> a < en then None else vs_at m a)"
  using assms by (rule remove_range_view)

theorem vs_remove_range_correct_witness:
  "\<exists>m'. vs_remove_range Inr 12288 16384 demo_set = Inr m' \<and> vs_inv m' \<and>
     vs_at m' = (\<lambda>a. if 12288 \<le> a \<and> a < 16384 then None else vs_at demo_set a)"
proof -
  obtain m' where "vs_remove_range Inr 12288 16384 demo_set = Inr m'"
    using demo_range_total(1) [of 12288 16384] by (auto simp: page_size_def)
  with vs_remove_range_correct [OF demo_set_inv this] show ?thesis by blast
qed

text \<open>
  C7. \<open>update_perm\<close> with any function on permissions (\<open>protect_range\<close> with a constant,
  \<open>merge_perm\<close> with a union), when it succeeds, leaves a well-formed registry in which the
  permission of every mapped address of the range is rewritten by the function, its other
  attributes are kept, unmapped addresses stay unmapped and every other address is untouched.
\<close>

theorem vs_update_perm_correct:
  assumes "vs_inv m" and "vs_update_perm dup st en upd m = Inr m'"
  shows "vs_inv m' \<and>
    vs_at m' = (\<lambda>a. if st \<le> a \<and> a < en
                    then map_option (\<lambda>x. x\<lparr>a_perm := upd (a_perm x)\<rparr>) (vs_at m a)
                    else vs_at m a)"
  using assms by (rule update_perm_view)

theorem vs_update_perm_correct_witness:
  "\<exists>m'. vs_update_perm Inr 8192 12288 (\<lambda>_. 1) demo_set = Inr m' \<and> vs_inv m' \<and>
     vs_at m' 8192 = map_option (\<lambda>x. x\<lparr>a_perm := 1\<rparr>) (vs_at demo_set 8192)"
proof -
  obtain m' where "vs_update_perm Inr 8192 12288 (\<lambda>_. 1) demo_set = Inr m'"
    using demo_range_total(2) [of 8192 12288] by (auto simp: page_size_def)
  with vs_update_perm_correct [OF demo_set_inv this] show ?thesis by auto
qed

section \<open>Queries\<close>

lemma covers_loop_correct:
  assumes "sorted_wrt (\<lambda>v w. end_addr v \<le> start w) vs"
    and "\<And>v. v \<in> set vs \<Longrightarrow> start v < end_addr v \<and> cursor < end_addr v"
  shows "covers_loop P vs cursor en \<longleftrightarrow>
    (\<forall>a. cursor \<le> a \<longrightarrow> a < en \<longrightarrow> (\<exists>v \<in> set vs. in_area v a \<and> P v))"
  using assms
proof (induction vs arbitrary: cursor)
  case Nil
  show ?case by (auto simp: not_less intro: le_less_trans)
next
  case (Cons v vs)
  have v: "start v < end_addr v" "cursor < end_addr v" using Cons.prems(2) by simp_all
  have later: "end_addr v \<le> start w" if "w \<in> set vs" for w using Cons.prems(1) that by simp
  show ?case
  proof (cases "cursor < en \<and> start v \<le> cursor \<and> P v")
    case False
    show ?thesis
    proof (cases "cursor < en")
      case True
      with False have "\<not> (start v \<le> cursor \<and> P v)" by simp
      moreover have "\<not> in_area w cursor" if "w \<in> set vs" for w
        using later [OF that] v by (auto simp: in_area_def)
      ultimately have "\<not> (\<exists>w \<in> set (v # vs). in_area w cursor \<and> P w)"
        by (auto simp: in_area_def)
      with True False v show ?thesis by (auto intro!: exI [of _ cursor])
    qed auto
  next
    case True
    let ?c = "min (end_addr v) en"
    have IH: "covers_loop P vs ?c en \<longleftrightarrow>
      (\<forall>a. ?c \<le> a \<longrightarrow> a < en \<longrightarrow> (\<exists>w \<in> set vs. in_area w a \<and> P w))"
    proof (rule Cons.IH)
      show "sorted_wrt (\<lambda>v w. end_addr v \<le> start w) vs" using Cons.prems(1) by simp
      show "start w < end_addr w \<and> ?c < end_addr w" if "w \<in> set vs" for w
        using later [OF that] Cons.prems(2) [of w] that by auto
    qed
    have split: "(\<exists>w \<in> set (v # vs). in_area w a \<and> P w) \<longleftrightarrow>
        a < end_addr v \<or> (\<exists>w \<in> set vs. in_area w a \<and> P w)" if "cursor \<le> a" for a
      using that True later by (auto simp: in_area_def)
    have c: "?c \<le> a \<longleftrightarrow> \<not> a < end_addr v" if "a < en" for a using that by auto
    have "(\<forall>a. cursor \<le> a \<longrightarrow> a < en \<longrightarrow> (\<exists>w \<in> set (v # vs). in_area w a \<and> P w)) \<longleftrightarrow>
        (\<forall>a. ?c \<le> a \<longrightarrow> a < en \<longrightarrow> (\<exists>w \<in> set vs. in_area w a \<and> P w))"
      (is "?all \<longleftrightarrow> ?rest")
    proof
      assume all: ?all
      show ?rest
      proof (intro allI impI)
        fix a
        assume a: "?c \<le> a" "a < en"
        then have "cursor \<le> a" "\<not> a < end_addr v" using v(2) True by auto
        with all a split [of a] show "\<exists>w \<in> set vs. in_area w a \<and> P w" by blast
      qed
    next
      assume rest: ?rest
      show ?all
      proof (intro allI impI)
        fix a
        assume a: "cursor \<le> a" "a < en"
        with rest split [of a] c [of a] show "\<exists>w \<in> set (v # vs). in_area w a \<and> P w" by blast
      qed
    qed
    with True v IH show ?thesis by simp
  qed
qed

lemma om_from_sorted_areas:
  assumes inv: "vs_inv m"
  shows "sorted_wrt (\<lambda>v w. end_addr v \<le> start w) (map snd (om_from f m))"
proof -
  have get: "om_get m (fst e) = Some (snd e)" if "e \<in> set (om_from f m)" for e
    using om_from_mem [OF vs_invD(1) [OF inv], of "fst e" "snd e"] that by simp
  have "sorted_wrt (\<lambda>e e'. fst e < fst e') (om_from f m)"
    using om_ok_from [OF vs_invD(1) [OF inv], of f] by (simp add: om_ok_def sorted_wrt_map)
  then have "sorted_wrt (\<lambda>e e'. end_addr (snd e) \<le> start (snd e')) (om_from f m)"
  proof (rule sorted_wrt_mono_rel [rotated])
    fix e e'
    assume e: "e \<in> set (om_from f m)" "e' \<in> set (om_from f m)" "fst e < fst e'"
    from vs_invD(3) [OF inv get [OF e(1)] get [OF e(2)] e(3)] vs_invD(2) [OF inv get [OF e(2)]]
    show "end_addr (snd e) \<le> start (snd e')" by simp
  qed
  then show ?thesis by (simp add: sorted_wrt_map)
qed

lemma covers_where_spec:
  assumes inv: "vs_inv m"
  shows "vs_covers_where P m st en \<longleftrightarrow>
    (\<forall>a. st \<le> a \<longrightarrow> a < en \<longrightarrow> (\<exists>k v. om_get m k = Some v \<and> in_area v a \<and> P v))"
proof (cases "st < en")
  case False
  then show ?thesis by (auto simp: vs_covers_where_def)
next
  case ne: True
  note ok = vs_invD(1) [OF inv]
  show ?thesis
  proof (cases "first_overlap_key m st en")
    case None
    then have "\<not> in_area v st" if "om_get m k = Some v" for k v
    proof -
      have "\<not> area_overlaps v st en" using iffD1 [OF first_overlap_None [OF inv ne] None] that by blast
      with ne show ?thesis by (auto simp: in_area_def area_overlaps_def)
    qed
    with None ne show ?thesis by (auto simp: vs_covers_where_def intro!: exI [of _ st])
  next
    case (Some f)
    from iffD1 [OF first_overlap_Some [OF inv ne] Some]
    obtain u where u: "om_get m f = Some u" "area_overlaps u st en"
      and least: "\<And>j w. om_get m j = Some w \<Longrightarrow> area_overlaps w st en \<Longrightarrow> f \<le> j" by blast
    have mem: "v \<in> set (map snd (om_from f m)) \<longleftrightarrow> om_get m (start v) = Some v \<and> f \<le> start v" for v
    proof -
      have "v \<in> set (map snd (om_from f m)) \<longleftrightarrow> (\<exists>k. om_get m k = Some v \<and> f \<le> k)"
      proof
        assume "v \<in> set (map snd (om_from f m))"
        then obtain k where "(k, v) \<in> set (om_from f m)" by auto
        then show "\<exists>k. om_get m k = Some v \<and> f \<le> k" using om_from_mem [OF ok] by blast
      next
        assume "\<exists>k. om_get m k = Some v \<and> f \<le> k"
        then obtain k where "(k, v) \<in> set (om_from f m)" using om_from_mem [OF ok] by blast
        then have "snd (k, v) \<in> snd ` set (om_from f m)" by (rule imageI)
        then show "v \<in> set (map snd (om_from f m))" by simp
      qed
      also have "\<dots> \<longleftrightarrow> om_get m (start v) = Some v \<and> f \<le> start v"
        using vs_invD(2) [OF inv] by auto
      finally show ?thesis .
    qed
    have ends: "start v < end_addr v \<and> st < end_addr v" if "v \<in> set (map snd (om_from f m))" for v
    proof -
      from that mem have v: "om_get m (start v) = Some v" "f \<le> start v" by blast+
      note a = vs_invD(2) [OF inv v(1)]
      show ?thesis
      proof (cases "f = start v")
        case True
        with u v a show ?thesis by (simp add: area_overlaps_def)
      next
        case False
        with v(2) vs_invD(3) [OF inv u(1) v(1)] u(2) a show ?thesis
          by (simp add: area_overlaps_def)
      qed
    qed
    have "vs_covers_where P m st en \<longleftrightarrow> covers_loop P (map snd (om_from f m)) st en"
      using ne Some by (simp add: vs_covers_where_def)
    also have "\<dots> \<longleftrightarrow> (\<forall>a. st \<le> a \<longrightarrow> a < en \<longrightarrow>
        (\<exists>v \<in> set (map snd (om_from f m)). in_area v a \<and> P v))"
      by (rule covers_loop_correct [OF om_from_sorted_areas [OF inv]]) (rule ends)
    also have "\<dots> \<longleftrightarrow>
        (\<forall>a. st \<le> a \<longrightarrow> a < en \<longrightarrow> (\<exists>k v. om_get m k = Some v \<and> in_area v a \<and> P v))"
    proof -
      have "(\<exists>v \<in> set (map snd (om_from f m)). in_area v a \<and> P v) \<longleftrightarrow>
          (\<exists>k v. om_get m k = Some v \<and> in_area v a \<and> P v)" if a: "st \<le> a" "a < en" for a
      proof
        assume "\<exists>v \<in> set (map snd (om_from f m)). in_area v a \<and> P v"
        then show "\<exists>k v. om_get m k = Some v \<and> in_area v a \<and> P v" using mem by blast
      next
        assume "\<exists>k v. om_get m k = Some v \<and> in_area v a \<and> P v"
        then obtain k v where v: "om_get m k = Some v" "in_area v a" "P v" by blast
        with vs_invD(2) [OF inv v(1)] a have "area_overlaps v st en" "start v = k"
          by (auto simp: area_overlaps_def in_area_def)
        with least v mem show "\<exists>v \<in> set (map snd (om_from f m)). in_area v a \<and> P v" by blast
      qed
      then show ?thesis by simp
    qed
    finally show ?thesis .
  qed
qed

lemma overlaps_spec:
  assumes inv: "vs_inv m"
  shows "vs_overlaps m st en \<longleftrightarrow> (\<exists>a. st \<le> a \<and> a < en \<and> vs_at m a \<noteq> None)"
proof (cases "st < en")
  case False
  then show ?thesis by (auto simp: vs_overlaps_def vs_overlap_end_def)
next
  case ne: True
  show ?thesis
  proof (cases "first_overlap_key m st en")
    case None
    with ne overlap_mapped [OF inv ne] first_overlap_None [OF inv ne] show ?thesis
      by (auto simp: vs_overlaps_def vs_overlap_end_def)
  next
    case (Some f)
    with ne overlap_mapped [OF inv ne] iffD1 [OF first_overlap_Some [OF inv ne] Some] show ?thesis
      by (auto simp: vs_overlaps_def vs_overlap_end_def)
  qed
qed

lemma lookup_spec:
  assumes inv: "vs_inv m"
  shows "vs_lookup m a = Some k \<longleftrightarrow> (\<exists>v. om_get m k = Some v \<and> in_area v a)"
proof -
  note ok = vs_invD(1) [OF inv]
  have last: "last_at_most a m = Some (k, v)" if v: "om_get m k = Some v" "in_area v a" for k v
    unfolding last_at_most_def om.greatest_Some [OF ok]
  proof (intro conjI allI impI)
    show "om_get m k = Some v" by (rule v)
    show "k \<le> a" using v vs_invD(2) [OF inv v(1)] by (simp add: in_area_def)
    fix i
    assume i: "om_get m i \<noteq> None \<and> i \<le> a"
    then obtain w where "om_get m i = Some w" by blast
    from vs_invD(3) [OF inv v(1) this] i v(2) show "i \<le> k" by (force simp: in_area_def)
  qed
  show ?thesis
  proof
    assume "vs_lookup m a = Some k"
    then obtain v where "last_at_most a m = Some (k, v)" "contains_page v a"
      by (auto simp: vs_lookup_def split: option.splits if_splits)
    then show "\<exists>v. om_get m k = Some v \<and> in_area v a"
      using om.greatest_get [OF ok] unfolding last_at_most_def contains_page_def in_area_def by blast
  next
    assume "\<exists>v. om_get m k = Some v \<and> in_area v a"
    then show "vs_lookup m a = Some k"
      using last by (auto simp: vs_lookup_def contains_page_def in_area_def)
  qed
qed

text \<open>
  The queries of a well-formed registry answer for every address: \<open>lookup\<close> names the one
  area that contains the address and fails exactly on unmapped ones, \<open>covers_where\<close> holds
  exactly when every address of the range lies in an area with the predicate, and
  \<open>overlaps\<close> exactly when some address of the range is mapped.
\<close>

theorem vs_queries_correct:
  assumes "vs_inv m"
  shows "(vs_lookup m a = Some k \<longleftrightarrow> (\<exists>v. om_get m k = Some v \<and> in_area v a)) \<and>
    (vs_lookup m a = None \<longleftrightarrow> vs_at m a = None) \<and>
    (vs_covers_where P m st en \<longleftrightarrow>
       (\<forall>x. st \<le> x \<longrightarrow> x < en \<longrightarrow> (\<exists>k v. om_get m k = Some v \<and> in_area v x \<and> P v))) \<and>
    (vs_overlaps m st en \<longleftrightarrow> (\<exists>x. st \<le> x \<and> x < en \<and> vs_at m x \<noteq> None))"
proof -
  have "vs_lookup m a = None \<longleftrightarrow> vs_at m a = None"
  proof
    assume "vs_lookup m a = None"
    then show "vs_at m a = None"
      using lookup_spec [OF assms, of a] vs_at_area [OF assms, of a] by force
  next
    assume n: "vs_at m a = None"
    show "vs_lookup m a = None"
    proof (cases "vs_lookup m a")
      case (Some k)
      with lookup_spec [OF assms] obtain v where "om_get m k = Some v" "in_area v a" by blast
      from vs_at_get [OF assms this] n show ?thesis by simp
    qed
  qed
  with lookup_spec [OF assms] covers_where_spec [OF assms] overlaps_spec [OF assms]
  show ?thesis by blast
qed

theorem vs_queries_correct_witness:
  "vs_lookup demo_set 12288 = Some 8192 \<and> \<not> vs_covers_where (\<lambda>_. True) demo_set 4096 12288 \<and>
   vs_overlaps demo_set 4096 12288"
proof -
  have at: "vs_at demo_set 8192 \<noteq> None" "vs_at demo_set 4096 = None"
    by (simp_all add: vs_at_def last_at_most_def om_greatest_def demo_set_def om_insert_def
        demo_area_fields)
  have "\<not> (\<exists>k v. om_get demo_set k = Some v \<and> in_area v 4096)"
    by (auto simp: demo_set_get in_area_def demo_area_fields split: if_splits)
  then have "\<not> vs_covers_where (\<lambda>_. True) demo_set 4096 12288"
    using vs_queries_correct [OF demo_set_inv, of 12288 8192 "\<lambda>_. True" 4096 12288]
    by (auto dest: spec [of _ 4096])
  moreover have "vs_overlaps demo_set 4096 12288"
    using vs_queries_correct [OF demo_set_inv, of 12288 8192 "\<lambda>_. True" 4096 12288] at(1)
    by (auto intro!: exI [of _ 8192])
  moreover have "vs_lookup demo_set 12288 = Some 8192"
    using vs_queries_correct [OF demo_set_inv, of 12288 8192 "\<lambda>_. True" 4096 12288]
    by (simp add: demo_set_get in_area_def demo_area_fields)
  ultimately show ?thesis by simp
qed

section \<open>Copying a registry\<close>

lemma area_duplicate_Inr:
  assumes "area_duplicate dup v = Inr c"
  shows "start c = start v" "end_addr c = end_addr v" "attr c = attr v" "area_ok c = area_ok v"
  using assms backing_duplicate_Inr [of dup "backing v"]
  by (auto simp: area_duplicate_def res_bind_def attr_def area_ok_def fun_eq_iff split: sum.splits)

lemma duplicate_loop_get:
  assumes "duplicate_loop dup vs inner = Inr m'" "om_ok inner" "distinct (map start vs)"
  shows "om_ok m' \<and>
    (\<forall>v \<in> set vs. \<exists>c. area_duplicate dup v = Inr c \<and> om_get m' (start v) = Some c) \<and>
    (\<forall>k. k \<notin> start ` set vs \<longrightarrow> om_get m' k = om_get inner k)"
  using assms
proof (induction vs arbitrary: inner)
  case (Cons v vs)
  from Cons.prems(1) obtain c where c: "area_duplicate dup v = Inr c"
    "duplicate_loop dup vs (om_insert (start c) c inner) = Inr m'" by (auto elim!: res_bind_InrE)
  note get = om.get_put [OF Cons.prems(2), of "start v" c]
  from Cons.IH [OF c(2) om.wf_put [OF Cons.prems(2)]] Cons.prems(3)
  show ?case using c(1) get area_duplicate_Inr(1) [OF c(1)] by auto
qed simp

lemma vs_duplicate_get:
  assumes "vs_inv m" and "vs_duplicate dup m = Inr m'"
  shows "om_ok m'" "om_get m k = Some v \<Longrightarrow> \<exists>c. om_get m' k = Some c \<and> area_duplicate dup v = Inr c"
    "om_get m k = None \<Longrightarrow> om_get m' k = None"
proof -
  note ok = vs_invD(1) [OF assms(1)]
  have st: "start (snd e) = fst e" "om_get m (fst e) = Some (snd e)" if "e \<in> set m" for e
    using that vs_invD(2) [OF assms(1)] om_get_iff [OF ok, of "fst e" "snd e"] by auto
  then have keys: "map start (map snd m) = map fst m" by simp
  have D: "om_ok m' \<and>
    (\<forall>v \<in> set (map snd m). \<exists>c. area_duplicate dup v = Inr c \<and> om_get m' (start v) = Some c) \<and>
    (\<forall>k. k \<notin> start ` set (map snd m) \<longrightarrow> om_get m' k = om_get [] k)"
    by (rule duplicate_loop_get)
      (use assms(2) keys om_ok_distinct [OF ok] in \<open>simp_all only: vs_duplicate_def om_ok_Nil\<close>)
  then show "om_ok m'" by blast
  show "\<exists>c. om_get m' k = Some c \<and> area_duplicate dup v = Inr c" if "om_get m k = Some v"
    using D that om_get_iff [OF ok, of k v] vs_invD(2) [OF assms(1) that] by force
  show "om_get m' k = None" if "om_get m k = None"
  proof -
    have "k \<notin> start ` set (map snd m)" using st that by force
    with D show ?thesis by (simp add: om_get_def)
  qed
qed

text \<open>
  Copying a well-formed registry for \<open>fork\<close>, when every loader can be duplicated, gives
  a well-formed registry with the same areas at the same starts and the same attributes at
  every address.
\<close>

theorem vs_duplicate_correct:
  assumes "vs_inv m" and "vs_duplicate dup m = Inr m'"
  shows "vs_inv m' \<and> vs_at m' = vs_at m \<and> (\<forall>k. om_get m' k = None \<longleftrightarrow> om_get m k = None)"
proof -
  note ok' = vs_duplicate_get(1) [OF assms] and here = vs_duplicate_get(2) [OF assms]
    and gone = vs_duplicate_get(3) [OF assms]
  have orig: "\<exists>v. om_get m k = Some v \<and> area_duplicate dup v = Inr c" if "om_get m' k = Some c" for k c
    using that gone [of k] here [of k] by (cases "om_get m k") auto
  have inv': "vs_inv m'"
    unfolding vs_inv_def
  proof (intro conjI allI impI)
    fix k c
    assume "om_get m' k = Some c"
    from orig [OF this] obtain v where v: "om_get m k = Some v" "area_duplicate dup v = Inr c" by blast
    from area_duplicate_Inr [OF v(2)] vs_invD(2) [OF assms(1) v(1)]
    show "start c = k" "area_ok c" by simp_all
  next
    fix k c k' c'
    assume a: "om_get m' k = Some c" "om_get m' k' = Some c'" "k < k'"
    from orig [OF a(1)] orig [OF a(2)] obtain v v' where "om_get m k = Some v"
      "area_duplicate dup v = Inr c" "om_get m k' = Some v'" by blast
    with vs_invD(3) [OF assms(1) this(1,3) a(3)] area_duplicate_Inr show "end_addr c \<le> k'" by metis
  qed (rule ok')
  have "vs_at m' a = vs_at m a" for a
  proof (rule vs_at_cong [OF assms(1) inv'])
    fix k v
    assume v: "om_get m k = Some v" "k \<le> a" "a < end_addr v"
    from here [OF v(1)] obtain c where c: "om_get m' k = Some c" "area_duplicate dup v = Inr c" by blast
    from vs_at_eqI [OF inv' c(1) v(2)] v(3) area_duplicate_Inr [OF c(2)]
    show "vs_at m' a = Some (attr v a)" by simp
  next
    fix k c
    assume c: "om_get m' k = Some c" "k \<le> a" "a < end_addr c"
    from orig [OF c(1)] obtain v where v: "om_get m k = Some v" "area_duplicate dup v = Inr c" by blast
    from vs_at_eqI [OF assms(1) v(1) c(2)] c(3) area_duplicate_Inr [OF v(2)]
    show "vs_at m a = Some (attr c a)" by simp
  qed
  moreover have "om_get m' k = None \<longleftrightarrow> om_get m k = None" for k
    using gone [of k] here [of k] by (cases "om_get m k") auto
  ultimately show ?thesis using inv' by (simp add: fun_eq_iff)
qed

theorem vs_duplicate_correct_witness:
  "\<exists>m'. vs_duplicate Inr demo_set = Inr m' \<and> vs_inv m' \<and> vs_at m' = vs_at demo_set"
proof -
  obtain m' where "vs_duplicate Inr demo_set = Inr m'"
    by (simp add: vs_duplicate_def demo_set_def om_insert_def area_duplicate_def
        backing_duplicate_def demo_area_fields res_bind_def)
  from vs_duplicate_correct [OF demo_set_inv this] this show ?thesis by blast
qed

end
