(* ===== verification/Pipe.thy ===== *)
theory Pipe
  imports Prelude "HOL-Library.Word"
begin

unbundle bit_operations_syntax

text \<open>
  The ring buffer pipe (\<open>ipc-pipe/pipe-impl/impl-ringbuf/src/kernel_pipe.rs\<close>). Every
  operation that takes the state lock is a function on \<open>pipe_state\<close> that returns its result,
  the new state and the wait queues it wakes after it has dropped the lock. Whether
  \<open>try_reserve_exact\<close> finds memory is the argument \<open>mem\<close>. The blocking loops take the list
  of what the rest of the system does before each locked section and of what each wait
  returns; a list that ends before the loop does gives \<open>None\<close>.
\<close>

section \<open>State\<close>

type_synonym byte = "8 word"

datatype pipe_error =
    WouldBlock | Interrupted | BrokenPipe | PipeClosed | InvalidCapacity | NoMemory

datatype pipe_read_finish = FinishBytes nat | FinishFault

datatype pipe_wake = WakeReaders | WakeWriters

record pipe_segment =
  seg_len :: nat
  seg_packet :: bool

record read_reservation =
  res_id :: "64 word"
  res_exposed :: nat
  res_consume :: nat
  res_packet :: bool

record pipe_state =
  pbuf :: "byte list"
  pcap :: nat
  segments :: "pipe_segment list"
  reservation :: "read_reservation option"
  next_res_id :: "64 word"
  read_open :: bool
  write_open :: bool
  read_refs :: nat
  write_refs :: nat

definition pollin :: "16 word" where "pollin = 1"
definition pollout :: "16 word" where "pollout = 4"
definition pollerr :: "16 word" where "pollerr = 8"
definition pollhup :: "16 word" where "pollhup = 16"
definition pipe_buf :: nat where "pipe_buf = 4096"
definition default_pipe_capacity :: nat where "default_pipe_capacity = 64 * 1024"

definition pipe_with_open_state :: "nat \<Rightarrow> bool \<Rightarrow> (pipe_error, pipe_state) result" where
  "pipe_with_open_state cap opn =
     (if cap = 0 then Inl InvalidCapacity
      else Inr \<lparr>pbuf = [], pcap = cap, segments = [], reservation = None, next_res_id = 1,
        read_open = opn, write_open = opn, read_refs = 0, write_refs = 0\<rparr>)"

definition pipe_with_capacity :: "nat \<Rightarrow> (pipe_error, pipe_state) result" where
  "pipe_with_capacity cap = pipe_with_open_state cap True"

definition free_len :: "pipe_state \<Rightarrow> nat" where
  "free_len s = pcap s - length (pbuf s)"

definition pipe_empty :: "pipe_state \<Rightarrow> bool" where
  "pipe_empty s \<longleftrightarrow> pbuf s = []"

definition is_full :: "pipe_state \<Rightarrow> bool" where
  "is_full s \<longleftrightarrow> length (pbuf s) = pcap s"

section \<open>Reading and writing under the lock\<close>

definition read_plan :: "nat \<Rightarrow> pipe_state \<Rightarrow> nat \<times> nat \<times> bool" where
  "read_plan max_len s =
     (case segments s of
        [] \<Rightarrow> (0, 0, False)
      | segment # _ \<Rightarrow>
          let exposed = min (seg_len segment) max_len;
              consumed = (if seg_packet segment then seg_len segment else exposed)
          in (exposed, consumed, seg_packet segment))"

definition copy_head :: "nat \<Rightarrow> pipe_state \<Rightarrow> byte list" where
  "copy_head n s = take n (pbuf s)"

function consume_segments :: "nat \<Rightarrow> pipe_segment list \<Rightarrow> pipe_segment list" where
  "consume_segments count [] = []"
| "consume_segments count (front # rest) =
     (if count = 0 then front # rest
      else let n = min count (seg_len front) in
        if seg_len front - n = 0 then consume_segments (count - n) rest
        else consume_segments (count - n) (front\<lparr>seg_len := seg_len front - n\<rparr> # rest))"
  by pat_completeness auto
termination by (relation "measure (\<lambda>(c, ss). c + length ss)") auto

definition consume :: "nat \<Rightarrow> pipe_state \<Rightarrow> pipe_state" where
  "consume n s =
     (let count = min n (length (pbuf s)) in
      if count = 0 then s
      else s\<lparr>segments := consume_segments count (segments s), pbuf := drop count (pbuf s)\<rparr>)"

definition read_into :: "nat \<Rightarrow> pipe_state \<Rightarrow> byte list \<times> pipe_state" where
  "read_into max_len s =
     (case read_plan max_len s of (exposed, consumed, _) \<Rightarrow>
        if exposed = 0 then ([], s)
        else (copy_head exposed s, consume consumed s))"

definition record_segment :: "nat \<Rightarrow> bool \<Rightarrow> pipe_segment list \<Rightarrow> pipe_segment list" where
  "record_segment n packet segs =
     (if n = 0 then segs
      else if \<not> packet \<and> segs \<noteq> [] \<and> \<not> seg_packet (last segs)
      then butlast segs @ [(last segs)\<lparr>seg_len := seg_len (last segs) + n\<rparr>]
      else segs @ [\<lparr>seg_len = n, seg_packet = packet\<rparr>])"

definition write_from ::
  "bool \<Rightarrow> byte list \<Rightarrow> bool \<Rightarrow> pipe_state \<Rightarrow> (pipe_error, nat) result \<times> pipe_state" where
  "write_from mem input packet s =
     (let count = min (length input) (free_len s) in
      if count = 0 then (Inr 0, s)
      else if \<not> mem then (Inl NoMemory, s)
      else (Inr count, s\<lparr>pbuf := pbuf s @ take count input,
              segments := record_segment count packet (segments s)\<rparr>))"

definition begin_read ::
  "nat \<Rightarrow> pipe_state \<Rightarrow> (pipe_error, read_reservation \<times> byte list) result \<times> pipe_state" where
  "begin_read staging_capacity s =
     (if reservation s \<noteq> None then (Inl WouldBlock, s)
      else case read_plan staging_capacity s of (exposed, consume_on_success, packet) \<Rightarrow>
        let r = \<lparr>res_id = next_res_id s, res_exposed = exposed,
                 res_consume = consume_on_success, res_packet = packet\<rparr>
        in (Inr (r, copy_head exposed s),
            s\<lparr>next_res_id := max (next_res_id s + 1) 1, reservation := Some r\<rparr>))"

definition finish_read ::
  "64 word \<Rightarrow> nat \<Rightarrow> bool \<Rightarrow> pipe_state
     \<Rightarrow> (pipe_error, pipe_read_finish \<times> bool) result \<times> pipe_state" where
  "finish_read rid copied complete s =
     (case reservation s of
        None \<Rightarrow> (Inl PipeClosed, s)
      | Some r \<Rightarrow>
          if res_id r \<noteq> rid \<or> copied > res_exposed r then (Inl PipeClosed, s)
          else
            let (finish, consumed) =
              (if res_packet r then
                 if complete then (FinishBytes copied, res_consume r)
                 else if copied = 0 then (FinishFault, 0)
                 else (FinishFault, res_consume r)
               else if copied = 0 \<and> \<not> complete then (FinishFault, 0)
               else (FinishBytes copied, copied))
            in (Inr (finish, consumed \<noteq> 0), consume consumed (s\<lparr>reservation := None\<rparr>)))"

definition cancel_read :: "64 word \<Rightarrow> pipe_state \<Rightarrow> pipe_state" where
  "cancel_read rid s =
     (if map_option res_id (reservation s) = Some rid then s\<lparr>reservation := None\<rparr> else s)"

section \<open>Pipe operations\<close>

type_synonym 'a pipe_outcome = "(pipe_error, 'a) result \<times> pipe_state \<times> pipe_wake list"

definition pipe_set_capacity :: "nat \<Rightarrow> pipe_state \<Rightarrow> nat pipe_outcome" where
  "pipe_set_capacity cap s =
     (if cap = 0 then (Inl InvalidCapacity, s, [])
      else if \<not> pipe_empty s then (Inl InvalidCapacity, s, [])
      else (Inr cap, s\<lparr>pcap := cap, segments := []\<rparr>, []))"

definition pipe_try_read :: "nat \<Rightarrow> pipe_state \<Rightarrow> byte list pipe_outcome" where
  "pipe_try_read out_len s =
     (if out_len = 0 then (Inr [], s, [])
      else if reservation s \<noteq> None then (Inl WouldBlock, s, [])
      else if pipe_empty s then
        (if write_open s then (Inl WouldBlock, s, []) else (Inr [], s, []))
      else let (bytes, s') = read_into out_len s in (Inr bytes, s', [WakeWriters]))"

definition pipe_try_write :: "bool \<Rightarrow> byte list \<Rightarrow> pipe_state \<Rightarrow> nat pipe_outcome" where
  "pipe_try_write mem input s =
     (if input = [] then (Inr 0, s, [])
      else if \<not> read_open s then (Inl BrokenPipe, s, [])
      else if is_full s then (Inl WouldBlock, s, [])
      else case write_from mem input False s of
          (Inl e, s') \<Rightarrow> (Inl e, s', [])
        | (Inr written, s') \<Rightarrow> (Inr written, s', [WakeReaders]))"

definition pipe_try_write_mode :: "bool \<Rightarrow> byte list \<Rightarrow> bool \<Rightarrow> pipe_state \<Rightarrow> nat pipe_outcome" where
  "pipe_try_write_mode mem input packet s =
     (if input = [] then (Inr 0, s, [])
      else if \<not> read_open s then (Inl BrokenPipe, s, [])
      else
        let packet_len = min (min (length input) pipe_buf) (pcap s) in
        if is_full s \<or> (packet \<and> free_len s < packet_len) then (Inl WouldBlock, s, [])
        else case write_from mem (if packet then take packet_len input else input) packet s of
            (Inl e, s') \<Rightarrow> (Inl e, s', [])
          | (Inr written, s') \<Rightarrow> (Inr written, s', [WakeReaders]))"

text \<open>
  A lease is the reservation id it holds, if any, and its snapshot. \<open>try_acquire_lease\<close> is one
  pass of the loop of \<open>acquire_read_lease\<close>; \<open>None\<close> means that the caller waits or, when it
  is non-blocking, returns \<open>WouldBlock\<close>.
\<close>

record pipe_lease =
  lease_id :: "64 word option"
  lease_data :: "byte list"

definition try_acquire_lease ::
  "nat \<Rightarrow> pipe_state \<Rightarrow> (pipe_error, pipe_lease) result option \<times> pipe_state" where
  "try_acquire_lease allocation s =
     (if reservation s = None \<and> \<not> pipe_empty s then
        (case begin_read allocation s of
           (Inl e, s') \<Rightarrow> (Some (Inl e), s')
         | (Inr (r, bytes), s') \<Rightarrow>
             (Some (Inr \<lparr>lease_id = Some (res_id r), lease_data = bytes\<rparr>), s'))
      else if reservation s = None \<and> \<not> write_open s then
        (Some (Inr \<lparr>lease_id = None, lease_data = []\<rparr>), s)
      else (None, s))"

definition lease_finish ::
  "pipe_lease \<Rightarrow> nat \<Rightarrow> bool \<Rightarrow> pipe_state \<Rightarrow> pipe_read_finish pipe_outcome" where
  "lease_finish l copied complete s =
     (case lease_id l of
        None \<Rightarrow> (Inr (FinishBytes 0), s, [])
      | Some rid \<Rightarrow>
          (case finish_read rid copied complete s of
             (Inl e, s') \<Rightarrow> (Inl e, s', [])
           | (Inr (finish, freed), s') \<Rightarrow>
               (Inr finish, s', WakeReaders # (if freed then [WakeWriters] else []))))"

definition lease_drop :: "pipe_lease \<Rightarrow> pipe_state \<Rightarrow> unit pipe_outcome" where
  "lease_drop l s =
     (case lease_id l of
        None \<Rightarrow> (Inr (), s, [])
      | Some rid \<Rightarrow> (Inr (), cancel_read rid s, [WakeReaders, WakeWriters]))"

definition acquire_read :: "pipe_state \<Rightarrow> unit pipe_outcome" where
  "acquire_read s =
     (Inr (), s\<lparr>read_refs := read_refs s + 1, read_open := True\<rparr>,
      if read_refs s = 0 then [WakeWriters] else [])"

definition acquire_write :: "pipe_state \<Rightarrow> unit pipe_outcome" where
  "acquire_write s =
     (Inr (), s\<lparr>write_refs := write_refs s + 1, write_open := True\<rparr>,
      if write_refs s = 0 then [WakeReaders] else [])"

definition release_read :: "pipe_state \<Rightarrow> unit pipe_outcome" where
  "release_read s =
     (let s1 = (if read_refs s > 0 then s\<lparr>read_refs := read_refs s - 1\<rparr> else s) in
      if read_refs s1 = 0
      then (Inr (), s1\<lparr>read_open := False, reservation := None\<rparr>, [WakeReaders, WakeWriters])
      else (Inr (), s1, []))"

definition release_write :: "pipe_state \<Rightarrow> unit pipe_outcome" where
  "release_write s =
     (let s1 = (if write_refs s > 0 then s\<lparr>write_refs := write_refs s - 1\<rparr> else s) in
      if write_refs s1 = 0
      then (Inr (), s1\<lparr>write_open := False\<rparr>, [WakeReaders])
      else (Inr (), s1, []))"

definition poll_revents_read :: "pipe_state \<Rightarrow> 16 word" where
  "poll_revents_read s =
     (if \<not> read_open s then pollhup
      else (if reservation s = None \<and> (\<not> pipe_empty s \<or> \<not> write_open s) then pollin else 0) OR
           (if \<not> write_open s then pollhup else 0))"

definition poll_revents_write :: "pipe_state \<Rightarrow> 16 word" where
  "poll_revents_write s =
     (if \<not> write_open s then pollhup OR pollerr
      else (if read_open s \<and> \<not> is_full s then pollout else 0) OR
           (if \<not> read_open s then pollhup OR pollerr else 0))"

section \<open>The conditions the wait queues check\<close>

definition read_poll_blocked :: "pipe_state \<Rightarrow> bool" where
  "read_poll_blocked s \<longleftrightarrow> reservation s \<noteq> None \<or> (pipe_empty s \<and> write_open s)"

definition write_poll_blocked :: "pipe_state \<Rightarrow> bool" where
  "write_poll_blocked s \<longleftrightarrow> is_full s \<and> read_open s"

definition write_mode_waits :: "nat \<Rightarrow> bool \<Rightarrow> pipe_state \<Rightarrow> bool" where
  "write_mode_waits remaining packet s \<longleftrightarrow>
     (let needed = (if packet then min (min remaining pipe_buf) (pcap s) else 1)
      in free_len s < needed \<and> read_open s)"

section \<open>Blocking loops\<close>

text \<open>
  One entry of the environment list: the state change the other holders of the lock make
  before the next locked section, whether memory is found in it, and whether a wait that
  follows it is interrupted.
\<close>

record pipe_env =
  env_change :: "pipe_state \<Rightarrow> pipe_state"
  env_mem :: bool
  env_interrupted :: bool

fun pipe_read :: "pipe_env list \<Rightarrow> nat \<Rightarrow> pipe_state
    \<Rightarrow> ((pipe_error, byte list) result \<times> pipe_state) option" where
  "pipe_read [] out_len s = None"
| "pipe_read (e # es) out_len s =
     (case pipe_try_read out_len (env_change e s) of
        (Inl WouldBlock, s', w) \<Rightarrow>
          if env_interrupted e then Some (Inl Interrupted, s') else pipe_read es out_len s'
      | (r, s', w) \<Rightarrow> Some (r, s'))"

fun acquire_lease_loop :: "pipe_env list \<Rightarrow> nat \<Rightarrow> bool \<Rightarrow> pipe_state
    \<Rightarrow> ((pipe_error, pipe_lease) result \<times> pipe_state) option" where
  "acquire_lease_loop [] allocation nonblocking s = None"
| "acquire_lease_loop (e # es) allocation nonblocking s =
     (case try_acquire_lease allocation (env_change e s) of
        (Some r, s') \<Rightarrow> Some (r, s')
      | (None, s') \<Rightarrow>
          if nonblocking then Some (Inl WouldBlock, s')
          else if env_interrupted e then Some (Inl Interrupted, s')
          else acquire_lease_loop es allocation nonblocking s')"

definition acquire_read_lease :: "bool \<Rightarrow> pipe_env list \<Rightarrow> nat \<Rightarrow> bool \<Rightarrow> pipe_state
    \<Rightarrow> ((pipe_error, pipe_lease) result \<times> pipe_state) option" where
  "acquire_read_lease mem es max_len nonblocking s =
     (let allocation = min max_len (pcap s) in
      if \<not> mem then Some (Inl NoMemory, s)
      else acquire_lease_loop es allocation nonblocking s)"

text \<open>The loop also returns, as ghost output, the chunks the pipe has accepted.\<close>

fun write_mode_loop :: "pipe_env list \<Rightarrow> byte list \<Rightarrow> bool \<Rightarrow> nat \<Rightarrow> pipe_state
    \<Rightarrow> ((pipe_error, nat) result \<times> byte list list \<times> pipe_state) option" where
  "write_mode_loop [] input packet written s =
     (if written < length input then None else Some (Inr written, [], s))"
| "write_mode_loop (e # es) input packet written s =
     (if \<not> written < length input then Some (Inr written, [], s)
      else case pipe_try_write_mode (env_mem e) (drop written input) packet (env_change e s) of
          (Inr n, s', w) \<Rightarrow>
            if n = 0 then Some (Inr written, [], s')
            else map_option (\<lambda>(r, cs, t). (r, take n (drop written input) # cs, t))
                   (write_mode_loop es input packet (written + n) s')
        | (Inl WouldBlock, s', w) \<Rightarrow>
            if env_interrupted e
            then Some (if written = 0 then Inl Interrupted else Inr written, [], s')
            else write_mode_loop es input packet written s'
        | (Inl BrokenPipe, s', w) \<Rightarrow>
            Some (if written > 0 then Inr written else Inl BrokenPipe, [], s')
        | (Inl err, s', w) \<Rightarrow> Some (Inl err, [], s'))"

definition pipe_write_mode :: "pipe_env list \<Rightarrow> byte list \<Rightarrow> bool \<Rightarrow> pipe_state
    \<Rightarrow> ((pipe_error, nat) result \<times> byte list list \<times> pipe_state) option" where
  "pipe_write_mode es input packet s = write_mode_loop es input packet 0 s"

end
