(* ===== verification/Pipe_Correct.thy ===== *)
theory Pipe_Correct
  imports Pipe
begin

text \<open>
  What a pipe promises. Its state stands for a queue of messages (\<open>messages\<close>): a stream
  write extends the last stream message, a packet write adds a message, a read takes bytes
  from the first message only and a packet is never delivered across two reads. The state
  invariant ties the segment lengths, the buffer, the capacity and the read reservation
  together; the reserved bytes stay at the head of the buffer until the lease ends.
\<close>

section \<open>Invariant\<close>

definition seg_total :: "pipe_segment list \<Rightarrow> nat" where
  "seg_total ss = sum_list (map seg_len ss)"

definition reservation_ok :: "pipe_state \<Rightarrow> read_reservation \<Rightarrow> bool" where
  "reservation_ok s r \<longleftrightarrow>
     segments s \<noteq> [] \<and> res_packet r = seg_packet (hd (segments s)) \<and>
     res_exposed r \<le> seg_len (hd (segments s)) \<and>
     res_consume r = (if res_packet r then seg_len (hd (segments s)) else res_exposed r)"

definition pipe_inv :: "pipe_state \<Rightarrow> bool" where
  "pipe_inv s \<longleftrightarrow> seg_total (segments s) = length (pbuf s) \<and>
     (\<forall>g \<in> set (segments s). 0 < seg_len g) \<and>
     length (pbuf s) \<le> pcap s \<and> 0 < pcap s \<and>
     (\<forall>r. reservation s = Some r \<longrightarrow> reservation_ok s r)"

lemma seg_total_simps [simp]:
  "seg_total [] = 0" "seg_total (g # ss) = seg_len g + seg_total ss"
  "seg_total (xs @ ys) = seg_total xs + seg_total ys"
  by (simp_all add: seg_total_def)

lemma pipe_inv_new: "pipe_with_open_state cap opn = Inr s \<Longrightarrow> pipe_inv s"
  by (auto simp: pipe_with_open_state_def pipe_inv_def split: if_splits)

lemma pipe_inv_empty: "pipe_inv s \<Longrightarrow> pbuf s = [] \<longleftrightarrow> segments s = []"
  by (cases "segments s") (auto simp: pipe_inv_def)

lemma consume_segments_total:
  "n \<le> seg_total ss \<Longrightarrow> seg_total (consume_segments n ss) = seg_total ss - n"
  by (induction n ss rule: consume_segments.induct) (auto simp: Let_def min_def)

lemma consume_segments_pos:
  "\<forall>g \<in> set ss. 0 < seg_len g \<Longrightarrow> \<forall>g \<in> set (consume_segments n ss). 0 < seg_len g"
  by (induction n ss rule: consume_segments.induct) (auto simp: Let_def min_def)

text \<open>Inside the first segment the loop shortens it or, at its end, drops it.\<close>

lemma consume_segments_head:
  assumes "0 < n" "n \<le> seg_len g"
  shows "consume_segments n (g # rest) =
    (if n = seg_len g then consume_segments 0 rest else g\<lparr>seg_len := seg_len g - n\<rparr> # rest)"
  using assms by simp

lemma consume_segments_0 [simp]: "consume_segments 0 ss = ss"
  by (cases ss) auto

lemma consume_inv:
  assumes "pipe_inv s" "reservation s = None"
  shows "pipe_inv (consume n s)"
  using assms consume_segments_total [of "min n (length (pbuf s))" "segments s"]
    consume_segments_pos [of "segments s"]
  by (auto simp: pipe_inv_def consume_def Let_def)

lemma read_plan_bounds:
  assumes "pipe_inv s" "read_plan k s = (exposed, consumed, packet)"
  shows "exposed \<le> k \<and> exposed \<le> consumed \<and> consumed \<le> length (pbuf s) \<and>
    (0 < k \<longrightarrow> pbuf s \<noteq> [] \<longrightarrow> 0 < exposed)"
  using assms pipe_inv_empty [OF assms(1)]
  by (cases "segments s") (auto simp: read_plan_def pipe_inv_def Let_def split: if_splits)

lemma record_segment_total: "seg_total (record_segment n packet ss) = seg_total ss + n"
proof (cases "n = 0 \<or> ss = []")
  case False
  then have "seg_total ss = seg_total (butlast ss) + seg_len (last ss)"
    using seg_total_simps(3) [of "butlast ss" "[last ss]"] by simp
  with False show ?thesis by (simp add: record_segment_def)
qed (auto simp: record_segment_def)

lemma record_segment_pos:
  assumes "\<forall>g \<in> set ss. 0 < seg_len g"
  shows "\<forall>g \<in> set (record_segment n packet ss). 0 < seg_len g"
  using assms by (auto simp: record_segment_def dest: in_set_butlastD)

lemma record_segment_hd:
  assumes "ss \<noteq> []"
  shows "seg_packet (hd (record_segment n packet ss)) = seg_packet (hd ss) \<and>
    seg_len (hd ss) \<le> seg_len (hd (record_segment n packet ss)) \<and>
    (seg_packet (hd ss) \<longrightarrow> seg_len (hd (record_segment n packet ss)) = seg_len (hd ss)) \<and>
    record_segment n packet ss \<noteq> []"
proof (cases ss)
  case (Cons g rest)
  then show ?thesis by (cases rest) (auto simp: record_segment_def)
qed (use assms in simp)

lemma write_from_inv:
  assumes inv: "pipe_inv s" and w: "write_from mem input packet s = (r, s')"
  shows "pipe_inv s'"
proof (cases "s' = s")
  case False
  let ?n = "min (length input) (free_len s)"
  from w False have s': "s' = s\<lparr>pbuf := pbuf s @ take ?n input,
      segments := record_segment ?n packet (segments s)\<rparr>"
    by (auto simp: write_from_def Let_def split: if_splits)
  have res: "reservation_ok s' q" if "reservation s = Some q" for q
  proof -
    from inv that have q: "reservation_ok s q" by (simp add: pipe_inv_def)
    then have ne: "segments s \<noteq> []" by (simp add: reservation_ok_def)
    from q record_segment_hd [OF ne, of ?n packet] show ?thesis
      unfolding s' by (auto simp: reservation_ok_def)
  qed
  with inv record_segment_pos [of "segments s" ?n packet] show ?thesis
    by (auto simp: s' pipe_inv_def record_segment_total free_len_def)
qed (use inv in simp)

lemma read_into_inv:
  assumes "pipe_inv s" "reservation s = None" "read_into k s = (bs, s')"
  shows "pipe_inv s'"
  using assms consume_inv by (auto simp: read_into_def split: prod.splits if_splits)

lemma begin_read_inv:
  assumes "pipe_inv s" "pbuf s \<noteq> []" "begin_read k s = (r, s')"
  shows "pipe_inv s'"
  using assms pipe_inv_empty [OF assms(1)]
  by (cases "segments s")
    (auto simp: begin_read_def read_plan_def Let_def pipe_inv_def reservation_ok_def split: if_splits)

lemma pipe_inv_no_reservation: "pipe_inv s \<Longrightarrow> pipe_inv (s\<lparr>reservation := None\<rparr>)"
  by (simp add: pipe_inv_def)

lemma finish_read_inv:
  assumes "pipe_inv s" "finish_read rid copied complete s = (r, s')"
  shows "pipe_inv s'"
  using assms consume_inv [OF pipe_inv_no_reservation [OF assms(1)]]
  by (auto simp: finish_read_def Let_def split: option.splits if_splits prod.splits)

lemma pipe_inv_cong:
  assumes "pipe_inv s" "pbuf s' = pbuf s" "segments s' = segments s" "pcap s' = pcap s"
    "reservation s' = reservation s \<or> reservation s' = None"
  shows "pipe_inv s'"
  using assms by (auto simp: pipe_inv_def reservation_ok_def)

lemma pipe_ops_inv:
  assumes "pipe_inv s"
  shows "pipe_set_capacity cap s = (r1, s', w) \<Longrightarrow> pipe_inv s'"
    "pipe_try_read k s = (r2, s', w) \<Longrightarrow> pipe_inv s'"
    "pipe_try_write_mode mem input packet s = (r3, s', w) \<Longrightarrow> pipe_inv s'"
    "try_acquire_lease k s = (r4, s') \<Longrightarrow> pipe_inv s'"
    "lease_finish l copied complete s = (r5, s', w) \<Longrightarrow> pipe_inv s'"
    "lease_drop l s = (r6, s', w) \<Longrightarrow> pipe_inv s'"
    "acquire_read s = (r6, s', w) \<Longrightarrow> pipe_inv s'"
    "acquire_write s = (r6, s', w) \<Longrightarrow> pipe_inv s'"
    "release_read s = (r6, s', w) \<Longrightarrow> pipe_inv s'"
    "release_write s = (r6, s', w) \<Longrightarrow> pipe_inv s'"
proof -
  show "pipe_inv s'" if "pipe_set_capacity cap s = (r1, s', w)"
    using that assms pipe_inv_empty [OF assms]
    by (auto simp: pipe_set_capacity_def pipe_empty_def pipe_inv_def reservation_ok_def
        split: if_splits)
  show "pipe_inv s'" if "pipe_try_read k s = (r2, s', w)"
    using that assms read_into_inv [OF assms]
    by (auto simp: pipe_try_read_def split: if_splits prod.splits)
  show "pipe_inv s'" if "pipe_try_write_mode mem input packet s = (r3, s', w)"
    using that assms write_from_inv [OF assms]
    by (auto simp: pipe_try_write_mode_def Let_def split: if_splits prod.splits sum.splits)
  show "pipe_inv s'" if "try_acquire_lease k s = (r4, s')"
    using that assms begin_read_inv [OF assms]
    by (auto simp: try_acquire_lease_def pipe_empty_def split: if_splits prod.splits sum.splits)
  show "pipe_inv s'" if "lease_finish l copied complete s = (r5, s', w)"
    using that assms finish_read_inv [OF assms]
    by (auto simp: lease_finish_def split: option.splits prod.splits sum.splits)
qed (use assms in \<open>auto simp: lease_drop_def cancel_read_def acquire_read_def acquire_write_def
    release_read_def release_write_def Let_def split: option.splits if_splits
    elim!: pipe_inv_cong\<close>)

section \<open>The queue of messages\<close>

fun messages_of :: "pipe_segment list \<Rightarrow> byte list \<Rightarrow> (bool \<times> byte list) list" where
  "messages_of [] bs = []"
| "messages_of (g # ss) bs =
     (seg_packet g, take (seg_len g) bs) # messages_of ss (drop (seg_len g) bs)"

definition messages :: "pipe_state \<Rightarrow> (bool \<times> byte list) list" where
  "messages s = messages_of (segments s) (pbuf s)"

definition queue_write :: "byte list \<Rightarrow> bool \<Rightarrow> (bool \<times> byte list) list \<Rightarrow> (bool \<times> byte list) list"
where
  "queue_write bs packet q =
     (if \<not> packet \<and> q \<noteq> [] \<and> \<not> fst (last q)
      then butlast q @ [(False, snd (last q) @ bs)] else q @ [(packet, bs)])"

definition queue_read :: "nat \<Rightarrow> (bool \<times> byte list) list \<Rightarrow> byte list \<times> (bool \<times> byte list) list"
where
  "queue_read k q =
     (case q of [] \<Rightarrow> ([], [])
      | (packet, bs) # rest \<Rightarrow>
          (take k bs, if packet \<or> length bs \<le> k then rest else (False, drop k bs) # rest))"

lemma messages_of_length:
  "seg_total ss \<le> length bs \<Longrightarrow> length (messages_of ss bs) = length ss"
  by (induction ss arbitrary: bs) auto

lemma messages_of_concat:
  "seg_total ss = length bs \<Longrightarrow> concat (map snd (messages_of ss bs)) = bs"
  by (induction ss arbitrary: bs) auto

lemma messages_of_snoc:
  "seg_total ss = length bs \<Longrightarrow>
   messages_of (ss @ [g]) (bs @ cs) = messages_of ss bs @ [(seg_packet g, take (seg_len g) cs)]"
  by (induction ss arbitrary: bs) auto

lemma messages_of_append:
  "seg_total ss = length bs \<Longrightarrow> messages_of (ss @ ts) (bs @ cs) = messages_of ss bs @ messages_of ts cs"
  by (induction ss arbitrary: bs) auto

lemma messages_of_record:
  assumes t: "seg_total ss = length bs" and n: "length cs = n" "0 < n"
  shows "messages_of (record_segment n packet ss) (bs @ cs) = queue_write cs packet (messages_of ss bs)"
proof (cases "\<not> packet \<and> ss \<noteq> [] \<and> \<not> seg_packet (last ss)")
  case True
  then obtain ss' g where ss: "ss = ss' @ [g]" "\<not> seg_packet g" by (metis append_butlast_last_id)
  let ?b = "take (seg_total ss') bs" and ?d = "drop (seg_total ss') bs"
  have tl: "seg_total ss' = length ?b" and dl: "length ?d = seg_len g" using t ss by simp_all
  have q: "messages_of ss bs = messages_of ss' ?b @ [(False, ?d)]"
    using messages_of_snoc [OF tl, of g ?d] ss dl by simp
  have "messages_of (ss' @ [g\<lparr>seg_len := seg_len g + n\<rparr>]) (?b @ ?d @ cs) =
      messages_of ss' ?b @ [(False, ?d @ cs)]"
    using messages_of_snoc [OF tl, of "g\<lparr>seg_len := seg_len g + n\<rparr>" "?d @ cs"] ss(2) dl n by simp
  moreover have "?b @ ?d @ cs = bs @ cs" by simp
  moreover have "queue_write cs packet (messages_of ss bs) = messages_of ss' ?b @ [(False, ?d @ cs)]"
    using True by (simp add: q queue_write_def)
  moreover have "record_segment n packet ss = ss' @ [g\<lparr>seg_len := seg_len g + n\<rparr>]"
    using True ss n by (simp add: record_segment_def)
  ultimately show ?thesis by simp
next
  case False
  have "messages_of ss bs = [] \<longleftrightarrow> ss = []" by (cases ss) auto
  moreover have "fst (last (messages_of ss bs)) = seg_packet (last ss)" if "ss \<noteq> []"
  proof -
    from that obtain ss' g where ss: "ss = ss' @ [g]" by (metis append_butlast_last_id)
    then have "seg_total ss' = length (take (seg_total ss') bs)" using t by simp
    from messages_of_snoc [OF this, of g "drop (seg_total ss') bs"] ss show ?thesis by simp
  qed
  ultimately have "queue_write cs packet (messages_of ss bs) = messages_of ss bs @ [(packet, cs)]"
    using False by (auto simp: queue_write_def)
  moreover have "record_segment n packet ss = ss @ [\<lparr>seg_len = n, seg_packet = packet\<rparr>]"
    using False n by (auto simp: record_segment_def)
  ultimately show ?thesis using messages_of_snoc [OF t, of _ cs] n by simp
qed

lemma pbuf_messages: "pipe_inv s \<Longrightarrow> concat (map snd (messages s)) = pbuf s"
  by (simp add: messages_def pipe_inv_def messages_of_concat)

lemma write_from_messages:
  assumes inv: "pipe_inv s" and w: "write_from mem input packet s = (Inr n, s')" and n: "0 < n"
  shows "messages s' = queue_write (take n input) packet (messages s)"
    "n = min (length input) (free_len s)" "pbuf s' = pbuf s @ take n input"
proof -
  from w n have s': "n = min (length input) (free_len s)"
    "s' = s\<lparr>pbuf := pbuf s @ take n input, segments := record_segment n packet (segments s)\<rparr>"
    by (auto simp: write_from_def Let_def split: if_splits)
  have "seg_total (segments s) = length (pbuf s)" using inv by (simp add: pipe_inv_def)
  from messages_of_record [OF this, of "take n input" n packet] n s'
  show "messages s' = queue_write (take n input) packet (messages s)"
    by (simp add: messages_def)
  show "n = min (length input) (free_len s)" by (rule s'(1))
  show "pbuf s' = pbuf s @ take n input" using s' by simp
qed

text \<open>Consuming a prefix of the first message.\<close>

lemma consume_messages:
  assumes inv: "pipe_inv s" and ne: "segments s = g # rest" and n: "0 < n" "n \<le> seg_len g"
  shows "messages (consume n s) =
    (if n = seg_len g then tl (messages s)
     else (seg_packet g, drop n (snd (hd (messages s)))) # tl (messages s))"
    "pbuf (consume n s) = drop n (pbuf s)"
proof -
  have le: "seg_len g \<le> length (pbuf s)" using inv ne by (simp add: pipe_inv_def)
  have "min n (length (pbuf s)) = n" using n le by simp
  then have c: "consume n s = s\<lparr>segments := consume_segments n (segments s), pbuf := drop n (pbuf s)\<rparr>"
    using n by (simp add: consume_def)
  show "pbuf (consume n s) = drop n (pbuf s)" by (simp add: c)
  show "messages (consume n s) =
    (if n = seg_len g then tl (messages s)
     else (seg_packet g, drop n (snd (hd (messages s)))) # tl (messages s))"
    using n le ne unfolding messages_def c
    by (auto simp: consume_segments_head simp del: consume_segments.simps simp: drop_take)
qed

lemma read_into_messages:
  assumes inv: "pipe_inv s" and ne: "pbuf s \<noteq> []" and k: "0 < k" and r: "read_into k s = (bs, s')"
  shows "(bs, messages s') = queue_read k (messages s)" "bs \<noteq> []"
proof -
  from ne obtain g rest where g: "segments s = g # rest"
    using pipe_inv_empty [OF inv] by (cases "segments s") auto
  have pos: "0 < seg_len g" and le: "seg_len g \<le> length (pbuf s)"
    using inv g by (simp_all add: pipe_inv_def)
  let ?e = "min (seg_len g) k" and ?c = "if seg_packet g then seg_len g else min (seg_len g) k"
  from r g pos k have bs: "bs = take ?e (pbuf s)" and s': "s' = consume ?c s"
    by (auto simp: read_into_def read_plan_def Let_def copy_head_def split: if_splits)
  show "bs \<noteq> []" using bs pos k le by auto
  have c: "0 < ?c" "?c \<le> seg_len g" using pos k by auto
  obtain h t where hd: "messages s = (seg_packet g, h) # t"
    and len: "length h = seg_len g" and tk: "take k h = bs"
    using bs le by (simp add: messages_def g min.commute)
  have "messages s' = (if ?c = seg_len g then t else (seg_packet g, drop ?c h) # t)"
    unfolding s' consume_messages(1) [OF inv g c] hd by simp
  then show "(bs, messages s') = queue_read k (messages s)"
    unfolding hd queue_read_def by (auto simp: tk len min_def)
qed

text \<open>Ending a lease takes its bytes off the first message.\<close>

lemma finish_read_messages:
  assumes inv: "pipe_inv s" and r: "reservation s = Some r"
    and f: "finish_read (res_id r) copied complete s = (Inr (fin, freed), s')"
    and pos: "0 < res_exposed r"
  shows "(case fin of
      FinishBytes n \<Rightarrow> n = copied \<and> (if n = 0 \<and> \<not> res_packet r then messages s' = messages s
        else messages s' = snd (queue_read n (messages s)))
    | FinishFault \<Rightarrow> (if copied = 0 then messages s' = messages s
        else res_packet r \<and> messages s' = tl (messages s)))"
proof -
  from inv r have ro: "reservation_ok s r" by (simp add: pipe_inv_def)
  then obtain g rest where g: "segments s = g # rest" "res_packet r = seg_packet g"
    "res_exposed r \<le> seg_len g" "res_consume r = (if seg_packet g then seg_len g else res_exposed r)"
    by (cases "segments s") (auto simp: reservation_ok_def)
  let ?s = "s\<lparr>reservation := None\<rparr>"
  have inv': "pipe_inv ?s" by (rule pipe_inv_no_reservation [OF inv])
  have g': "segments ?s = g # rest" using g by simp
  have m: "messages ?s = messages s" by (simp add: messages_def)
  have le: "seg_len g \<le> length (pbuf s)" and gpos: "0 < seg_len g"
    using inv g by (simp_all add: pipe_inv_def)
  obtain h t where hd: "messages s = (seg_packet g, h) # t" and len: "length h = seg_len g"
    using le by (simp add: messages_def g)
  have c0: "consume 0 ?s = ?s" by (simp add: consume_def)
  have step: "messages (consume n ?s) = (if n = seg_len g then t else (seg_packet g, drop n h) # t)"
    if "0 < n" "n \<le> seg_len g" for n
    using consume_messages(1) [OF inv' g' that] by (simp add: m hd)
  have cp: "copied \<le> res_exposed r" using f r by (auto simp: finish_read_def split: if_splits)
  show ?thesis
  proof (cases "seg_packet g")
    case True
    then show ?thesis
      using f r g cp gpos step [of "seg_len g"] m hd c0
      by (auto simp: finish_read_def queue_read_def split: if_splits)
  next
    case False
    then show ?thesis
      using f r g cp m hd c0 len step [of copied]
      by (auto simp: finish_read_def queue_read_def split: if_splits)
  qed
qed

section \<open>The properties of the locked operations\<close>

text \<open>
  C8. Every operation of a pipe keeps its invariant: the segment lengths are positive and add
  up to the buffered bytes, the buffer never exceeds the capacity, and a reservation covers
  a prefix of the first segment. A new pipe has it, and the capacity changes only to a
  positive value while the buffer is empty.
\<close>

theorem pipe_operations_keep_inv:
  assumes "pipe_inv s"
  shows "pipe_inv (fst (snd (pipe_set_capacity cap s))) \<and>
    pipe_inv (fst (snd (pipe_try_read k s))) \<and>
    pipe_inv (fst (snd (pipe_try_write_mode mem input packet s))) \<and>
    pipe_inv (snd (try_acquire_lease k s)) \<and>
    pipe_inv (fst (snd (lease_finish l copied complete s))) \<and>
    pipe_inv (fst (snd (lease_drop l s))) \<and>
    pipe_inv (fst (snd (acquire_read s))) \<and> pipe_inv (fst (snd (acquire_write s))) \<and>
    pipe_inv (fst (snd (release_read s))) \<and> pipe_inv (fst (snd (release_write s))) \<and>
    (fst (snd (pipe_set_capacity cap s)) \<noteq> s \<longrightarrow> 0 < cap \<and> pbuf s = [])"
proof -
  have tri: "x = (fst x, fst (snd x), snd (snd x))" for x :: "'a \<times> 'b \<times> 'c" by simp
  have "0 < cap \<and> pbuf s = []" if "fst (snd (pipe_set_capacity cap s)) \<noteq> s"
    using that by (auto simp: pipe_set_capacity_def pipe_empty_def split: if_splits)
  then show ?thesis
    using pipe_ops_inv(1) [OF assms tri] pipe_ops_inv(2) [OF assms tri]
      pipe_ops_inv(3) [OF assms tri] pipe_ops_inv(4) [OF assms surjective_pairing]
      pipe_ops_inv(5) [OF assms tri] pipe_ops_inv(6) [OF assms tri] pipe_ops_inv(7) [OF assms tri]
      pipe_ops_inv(8) [OF assms tri] pipe_ops_inv(9) [OF assms tri] pipe_ops_inv(10) [OF assms tri]
    by (intro conjI impI) simp_all
qed

definition demo_pipe :: pipe_state where
  "demo_pipe = \<lparr>pbuf = [1, 2, 3], pcap = 8, segments = [\<lparr>seg_len = 3, seg_packet = False\<rparr>],
     reservation = None, next_res_id = 1, read_open = True, write_open = True,
     read_refs = 1, write_refs = 1\<rparr>"

lemma demo_pipe_inv: "pipe_inv demo_pipe"
  by (simp add: pipe_inv_def demo_pipe_def)

theorem pipe_operations_keep_inv_witness:
  "pipe_inv demo_pipe \<and> pipe_inv (fst (snd (pipe_try_read 2 demo_pipe))) \<and>
   pbuf (fst (snd (pipe_try_read 2 demo_pipe))) = [3]"
  using pipe_operations_keep_inv [OF demo_pipe_inv, of 1 2] demo_pipe_inv
  by (simp add: demo_pipe_def pipe_try_read_def pipe_empty_def read_into_def read_plan_def
      consume_def copy_head_def)

text \<open>
  C9. On the queue of messages a successful write of \<open>n\<close> bytes appends the first \<open>n\<close> bytes of
  the input, to the last message when both are stream data and as a message of its own
  otherwise, a packet is accepted as a whole up to \<open>PIPE_BUF\<close> bytes and the capacity or not
  at all, and a successful read from a non-empty pipe returns bytes of the first message
  only, dropping the rest of a packet and keeping the rest of stream data.
\<close>

theorem pipe_refines_message_queue:
  assumes "pipe_inv s"
  shows "(pipe_try_write_mode mem input packet s = (Inr n, s', w) \<longrightarrow> input \<noteq> [] \<longrightarrow>
      0 < n \<and> messages s' = queue_write (take n input) packet (messages s) \<and>
      (packet \<longrightarrow> n = min (min (length input) pipe_buf) (pcap s))) \<and>
    (pipe_try_read k s = (Inr bs, s', w) \<longrightarrow> 0 < k \<longrightarrow> pbuf s \<noteq> [] \<longrightarrow>
      bs \<noteq> [] \<and> (bs, messages s') = queue_read k (messages s)) \<and>
    (pipe_try_write_mode mem input packet s = (Inl e, s', w) \<longrightarrow> s' = s) \<and>
    (pipe_try_read k s = (Inl e, s', w) \<longrightarrow> s' = s)"
proof (intro conjI impI)
  assume w: "pipe_try_write_mode mem input packet s = (Inr n, s', w)" and ne: "input \<noteq> []"
  let ?pl = "min (min (length input) pipe_buf) (pcap s)"
  let ?in = "if packet then take ?pl input else input"
  from w ne have nf: "\<not> is_full s" "packet \<longrightarrow> ?pl \<le> free_len s"
    and wf: "write_from mem ?in packet s = (Inr n, s')"
    by (auto simp: pipe_try_write_mode_def Let_def split: if_splits prod.splits sum.splits)
  have pos: "0 < free_len s" "0 < length input" "0 < pcap s"
    using nf(1) assms ne by (auto simp: free_len_def is_full_def pipe_inv_def)
  have pl: "0 < ?pl" using pos by (simp add: pipe_buf_def)
  have "n = min (length ?in) (free_len s)"
    using wf by (auto simp: write_from_def Let_def split: if_splits)
  with pos pl nf show n: "0 < n" "packet \<Longrightarrow> n = ?pl" by auto
  have "take n ?in = take n input"
    using n(2) by (cases packet) simp_all
  with write_from_messages(1) [OF assms wf n(1)]
  show "messages s' = queue_write (take n input) packet (messages s)" by simp
next
  assume r: "pipe_try_read k s = (Inr bs, s', w)" "0 < k" "pbuf s \<noteq> []"
  then have "read_into k s = (bs, s')"
    by (auto simp: pipe_try_read_def pipe_empty_def split: if_splits prod.splits)
  from read_into_messages [OF assms r(3,2) this]
  show "bs \<noteq> []" "(bs, messages s') = queue_read k (messages s)" by simp_all
qed (auto simp: pipe_try_write_mode_def pipe_try_read_def Let_def write_from_def
    split: if_splits prod.splits sum.splits)

theorem pipe_refines_message_queue_witness:
  "messages (fst (snd (pipe_try_write_mode True [7, 8] True demo_pipe))) =
     queue_write [7, 8] True (messages demo_pipe) \<and>
   messages demo_pipe = [(False, [1, 2, 3])]"
  using pipe_refines_message_queue [OF demo_pipe_inv, of True "[7, 8]" True 2
      "fst (snd (pipe_try_write_mode True [7, 8] True demo_pipe))" "[WakeReaders]"]
  by (simp add: pipe_try_write_mode_def demo_pipe_def is_full_def free_len_def pipe_buf_def
      write_from_def record_segment_def messages_def)

end
