(* ===== verification/Pipe_System.thy ===== *)
theory Pipe_System
  imports Pipe_Correct
begin

text \<open>
  Whole runs of a pipe. \<open>pipe_reach\<close> lists the locked sections that any number of tasks can
  execute in any order on one pipe used as a byte stream, with the leases they hold and, as
  ghost data, the bytes the pipe has accepted and the bytes it has delivered. The wake-ups of
  the operations are compared with the conditions the wait queues check, and the blocking
  write loop is run against an arbitrary environment.
\<close>

section \<open>Runs of a byte stream\<close>

inductive pipe_reach ::
  "nat \<Rightarrow> pipe_state \<Rightarrow> pipe_lease list \<Rightarrow> byte list \<Rightarrow> byte list \<Rightarrow> bool" where
  reach_new: "pipe_with_open_state cap opn = Inr s \<Longrightarrow> pipe_reach 0 s [] [] []"
| reach_write: "pipe_reach n s ls acc del \<Longrightarrow>
    pipe_try_write_mode mem input False s = (r, s', w) \<Longrightarrow>
    pipe_reach n s' ls (acc @ (case r of Inr k \<Rightarrow> take k input | Inl e \<Rightarrow> [])) del"
| reach_read: "pipe_reach n s ls acc del \<Longrightarrow> pipe_try_read k s = (r, s', w) \<Longrightarrow>
    pipe_reach n s' ls acc (del @ (case r of Inr bs \<Rightarrow> bs | Inl e \<Rightarrow> []))"
| reach_lease: "pipe_reach n s ls acc del \<Longrightarrow> try_acquire_lease k s = (Some (Inr l), s') \<Longrightarrow>
    pipe_reach (n + 1) s' (l # ls) acc del"
| reach_finish: "pipe_reach n s (xs @ l # ys) acc del \<Longrightarrow>
    lease_finish l copied complete s = (r, s', w) \<Longrightarrow>
    pipe_reach n s' (xs @ ys) acc
      (del @ (case r of Inr (FinishBytes k) \<Rightarrow> take k (lease_data l) | _ \<Rightarrow> []))"
| reach_drop: "pipe_reach n s (xs @ l # ys) acc del \<Longrightarrow> lease_drop l s = (r, s', w) \<Longrightarrow>
    pipe_reach n s' (xs @ ys) acc del"
| reach_capacity: "pipe_reach n s ls acc del \<Longrightarrow> pipe_set_capacity cap s = (r, s', w) \<Longrightarrow>
    pipe_reach n s' ls acc del"
| reach_acquire_read: "pipe_reach n s ls acc del \<Longrightarrow> acquire_read s = (r, s', w) \<Longrightarrow>
    pipe_reach n s' ls acc del"
| reach_acquire_write: "pipe_reach n s ls acc del \<Longrightarrow> acquire_write s = (r, s', w) \<Longrightarrow>
    pipe_reach n s' ls acc del"
| reach_release_read: "pipe_reach n s ls acc del \<Longrightarrow> release_read s = (r, s', w) \<Longrightarrow>
    pipe_reach n s' ls acc del"
| reach_release_write: "pipe_reach n s ls acc del \<Longrightarrow> release_write s = (r, s', w) \<Longrightarrow>
    pipe_reach n s' ls acc del"

text \<open>
  What holds in every reachable state while fewer than \<open>2 ^ 64 - 1\<close> leases have been taken:
  reservation ids count up from 1, so that a lease whose reservation was cancelled by the last
  close never matches a later one, and the lease that does match holds the reserved bytes.
\<close>

definition stream_inv ::
  "nat \<Rightarrow> pipe_state \<Rightarrow> pipe_lease list \<Rightarrow> byte list \<Rightarrow> byte list \<Rightarrow> bool" where
  "stream_inv n s ls acc del \<longleftrightarrow>
     pipe_inv s \<and> (\<forall>g \<in> set (segments s). \<not> seg_packet g) \<and> acc = del @ pbuf s \<and>
     (\<exists>m \<le> n. unat (next_res_id s) = m + 1) \<and>
     (\<forall>l \<in> set ls. \<forall>i. lease_id l = Some i \<longrightarrow> unat i < unat (next_res_id s)) \<and>
     (\<forall>r. reservation s = Some r \<longrightarrow> unat (res_id r) < unat (next_res_id s) \<and>
        (\<forall>l \<in> set ls. lease_id l = Some (res_id r) \<longrightarrow>
           lease_data l = take (res_exposed r) (pbuf s)))"

lemma stream_invD:
  assumes "stream_inv n s ls acc del"
  shows "pipe_inv s" "\<forall>g \<in> set (segments s). \<not> seg_packet g" "acc = del @ pbuf s"
  using assms by (simp_all add: stream_inv_def)

lemma record_segment_stream:
  "\<forall>g \<in> set ss. \<not> seg_packet g \<Longrightarrow> \<forall>g \<in> set (record_segment n False ss). \<not> seg_packet g"
  by (auto simp: record_segment_def dest: in_set_butlastD)

lemma consume_segments_stream:
  "\<forall>g \<in> set ss. \<not> seg_packet g \<Longrightarrow> \<forall>g \<in> set (consume_segments n ss). \<not> seg_packet g"
  by (induction n ss rule: consume_segments.induct) (auto simp: Let_def min_def)

lemma consume_pbuf: "pbuf (consume n s) = drop n (pbuf s)"
  by (cases "n \<le> length (pbuf s)") (auto simp: consume_def Let_def min_def)

lemma consume_other:
  "next_res_id (consume n s) = next_res_id s" "reservation (consume n s) = reservation s"
  "\<forall>g \<in> set (segments s). \<not> seg_packet g \<Longrightarrow> \<forall>g \<in> set (segments (consume n s)). \<not> seg_packet g"
  using consume_segments_stream [of "segments s"] by (auto simp: consume_def Let_def)

lemma reservation_exposed_le:
  assumes "pipe_inv s" "reservation s = Some r"
  shows "res_exposed r \<le> length (pbuf s)"
  using assms by (cases "segments s") (auto simp: pipe_inv_def reservation_ok_def)

lemma stream_write:
  assumes inv: "stream_inv n s ls acc del"
    and w: "pipe_try_write_mode mem input False s = (r, s', w)"
  shows "stream_inv n s' ls (acc @ (case r of Inr k \<Rightarrow> take k input | Inl e \<Rightarrow> [])) del"
proof (cases "\<exists>k. r = Inr k \<and> 0 < k")
  case True
  then obtain k where k: "r = Inr k" "0 < k" by blast
  with w have "write_from mem input False s = (Inr k, s')"
    by (auto simp: pipe_try_write_mode_def Let_def split: if_splits prod.splits sum.splits)
  then have s': "s' = s\<lparr>pbuf := pbuf s @ take k input,
      segments := record_segment k False (segments s)\<rparr>"
    using k(2) by (auto simp: write_from_def Let_def split: if_splits)
  note D = stream_invD [OF inv]
  have "take (res_exposed q) (pbuf s @ take k input) = take (res_exposed q) (pbuf s)"
    if "reservation s = Some q" for q
    using reservation_exposed_le [OF D(1) that] by simp
  with inv k(1) pipe_ops_inv(3) [OF D(1) w] record_segment_stream [OF D(2)] show ?thesis
    by (simp add: stream_inv_def s')
next
  case False
  then have "s' = s \<and> (case r of Inr k \<Rightarrow> take k input | Inl e \<Rightarrow> []) = []"
    using w by (auto simp: pipe_try_write_mode_def write_from_def record_segment_def Let_def
        split: if_splits prod.splits sum.splits)
  with inv show ?thesis by simp
qed

lemma read_into_stream:
  assumes inv: "stream_inv n s ls acc del" and none: "reservation s = None"
    and r: "read_into k s = (bs, s')"
  shows "stream_inv n s' ls acc (del @ bs)"
proof -
  note D = stream_invD [OF inv]
  have "\<exists>j. s' = consume j s \<and> bs = take j (pbuf s)"
  proof (cases "segments s")
    case Nil
    with r have "s' = consume 0 s \<and> bs = take 0 (pbuf s)"
      by (auto simp: read_into_def read_plan_def consume_def)
    then show ?thesis by blast
  next
    case (Cons g rest)
    then have "seg_len g \<le> length (pbuf s)" "\<not> seg_packet g"
      using D(1,2) by (simp_all add: pipe_inv_def)
    with r Cons have "s' = consume (min (seg_len g) k) s \<and> bs = take (min (seg_len g) k) (pbuf s)"
      by (auto simp: read_into_def read_plan_def copy_head_def consume_def Let_def split: if_splits)
    then show ?thesis by blast
  qed
  then obtain j where s': "s' = consume j s" and bs: "bs = take j (pbuf s)" by blast
  have "bs @ drop j (pbuf s) = pbuf s" using bs by simp
  with inv none read_into_inv [OF D(1) none r] consume_other(3) [OF D(2)] show ?thesis
    by (simp add: stream_inv_def s' consume_other(1,2) consume_pbuf)
qed

lemma stream_read:
  assumes inv: "stream_inv n s ls acc del" and r: "pipe_try_read k s = (r, s', w)"
  shows "stream_inv n s' ls acc (del @ (case r of Inr bs \<Rightarrow> bs | Inl e \<Rightarrow> []))"
  using assms read_into_stream [OF inv]
  by (auto simp: pipe_try_read_def split: if_splits prod.splits)

lemma next_id_succ:
  fixes x :: "64 word"
  assumes "unat x = m + 1" "m + 1 < 2 ^ 64 - 1"
  shows "unat (max (x + 1) 1) = m + 2"
proof -
  have u: "unat (x + 1) = m + 2"
    using assms by (simp add: unat_word_ariths(1))
  then have "1 \<le> x + 1" by (simp add: word_le_nat_alt)
  then show ?thesis using u by (simp only: max_absorb1)
qed

lemma stream_lease:
  assumes inv: "stream_inv n s ls acc del" and b: "n + 1 < 2 ^ 64 - 1"
    and a: "try_acquire_lease k s = (Some (Inr l), s')"
  shows "stream_inv (n + 1) s' (l # ls) acc del"
proof (cases "lease_id l")
  case None
  with a have "s' = s"
    by (auto simp: try_acquire_lease_def split: if_splits prod.splits sum.splits)
  with inv None show ?thesis by (auto simp: stream_inv_def intro: le_SucI)
next
  case (Some i)
  note D = stream_invD [OF inv]
  from inv obtain m where m: "m \<le> n" "unat (next_res_id s) = m + 1" by (auto simp: stream_inv_def)
  obtain e c p where plan: "read_plan k s = (e, c, p)" by (cases "read_plan k s")
  from a Some plan have none: "reservation s = None" "pbuf s \<noteq> []"
    and i: "i = next_res_id s" and data: "lease_data l = take e (pbuf s)"
    and s': "s' = s\<lparr>next_res_id := max (next_res_id s + 1) 1,
       reservation := Some \<lparr>res_id = i, res_exposed = e, res_consume = c, res_packet = p\<rparr>\<rparr>"
    by (auto simp: try_acquire_lease_def begin_read_def copy_head_def pipe_empty_def Let_def
        split: if_splits prod.splits sum.splits)
  have nxt: "unat (max (next_res_id s + 1) 1) = m + 2"
    using next_id_succ [OF m(2)] m(1) b by simp
  have old: "lease_id l' \<noteq> Some i" if "l' \<in> set ls" for l'
    using inv that i unfolding stream_inv_def by (metis less_irrefl)
  show ?thesis
    using inv D nxt m Some data i old pipe_ops_inv(4) [OF D(1) a]
    by (auto simp: stream_inv_def s')
qed

lemma stream_finish:
  assumes inv: "stream_inv n s (xs @ l # ys) acc del"
    and f: "lease_finish l copied complete s = (r, s', w)"
  shows "stream_inv n s' (xs @ ys) acc
    (del @ (case r of Inr (FinishBytes k) \<Rightarrow> take k (lease_data l) | _ \<Rightarrow> []))"
proof (cases "\<exists>i q. lease_id l = Some i \<and> reservation s = Some q \<and> res_id q = i \<and> copied \<le> res_exposed q")
  case False
  then have "s' = s \<and> (case r of Inr (FinishBytes k) \<Rightarrow> take k (lease_data l) | _ \<Rightarrow> []) = []"
    using f by (auto simp: lease_finish_def finish_read_def split: option.splits prod.splits if_splits)
  with inv show ?thesis by (auto simp: stream_inv_def)
next
  case True
  then obtain q where q: "lease_id l = Some (res_id q)" "reservation s = Some q"
    "copied \<le> res_exposed q" by blast
  note D = stream_invD [OF inv]
  have "\<not> res_packet q"
    using D(1,2) q(2) by (cases "segments s") (auto simp: pipe_inv_def reservation_ok_def)
  with f q have s': "s' = consume copied (s\<lparr>reservation := None\<rparr>)"
    and out: "(case r of Inr (FinishBytes k) \<Rightarrow> take k (lease_data l) | _ \<Rightarrow> []) =
      take copied (lease_data l)"
    by (auto simp: lease_finish_def finish_read_def Let_def split: if_splits)
  have "lease_data l = take (res_exposed q) (pbuf s)"
    using inv q by (simp add: stream_inv_def)
  then have data: "take copied (lease_data l) = take copied (pbuf s)" using q(3) by simp
  have seg: "\<forall>g \<in> set (segments s'). \<not> seg_packet g"
    unfolding s' using consume_other(3) [of "s\<lparr>reservation := None\<rparr>"] D(2) by simp
  show ?thesis
    using inv pipe_ops_inv(5) [OF D(1) f] seg unfolding out data
    by (auto simp: stream_inv_def s' consume_other consume_pbuf)
qed

lemma stream_other:
  assumes inv: "stream_inv n s ls acc del" and p: "pipe_inv s'" and ls: "set ls' \<subseteq> set ls"
    and eq: "pbuf s' = pbuf s" "set (segments s') \<subseteq> set (segments s)" "next_res_id s' = next_res_id s"
      "reservation s' = reservation s \<or> reservation s' = None"
  shows "stream_inv n s' ls' acc del"
  using inv p ls eq by (auto simp: stream_inv_def)

lemma stream_inv_reach:
  "pipe_reach n s ls acc del \<Longrightarrow> n < 2 ^ 64 - 2 \<Longrightarrow> stream_inv n s ls acc del"
proof (induction rule: pipe_reach.induct)
  case (reach_new cap opn s)
  then show ?case using pipe_inv_new [OF reach_new(1)]
    by (auto simp: stream_inv_def pipe_with_open_state_def split: if_splits)
next
  case reach_write
  then show ?case using stream_write by blast
next
  case reach_read
  then show ?case using stream_read by blast
next
  case (reach_lease n s ls acc del k l s')
  then have "stream_inv n s ls acc del" "n + 1 < 2 ^ 64 - 1" by simp_all
  from stream_lease [OF this reach_lease(2)] show ?case .
next
  case reach_finish
  then show ?case using stream_finish by blast
next
  case (reach_drop n s xs l ys acc del r s' w)
  show ?case
    by (rule stream_other [OF reach_drop(3) [OF reach_drop(4)]
          pipe_ops_inv(6) [OF stream_invD(1) [OF reach_drop(3) [OF reach_drop(4)]] reach_drop(2)]])
      (use reach_drop(2) in \<open>auto simp: lease_drop_def cancel_read_def split: option.splits if_splits\<close>)
next
  case (reach_capacity n s ls acc del cap r s' w)
  show ?case
    by (rule stream_other [OF reach_capacity(3) [OF reach_capacity(4)]
          pipe_ops_inv(1) [OF stream_invD(1) [OF reach_capacity(3) [OF reach_capacity(4)]]
            reach_capacity(2)]])
      (use reach_capacity(2) in \<open>auto simp: pipe_set_capacity_def split: if_splits\<close>)
next
  case (reach_acquire_read n s ls acc del r s' w)
  show ?case
    by (rule stream_other [OF reach_acquire_read(3) [OF reach_acquire_read(4)]
          pipe_ops_inv(7) [OF stream_invD(1) [OF reach_acquire_read(3) [OF reach_acquire_read(4)]]
            reach_acquire_read(2)]])
      (use reach_acquire_read(2) in \<open>auto simp: acquire_read_def\<close>)
next
  case (reach_acquire_write n s ls acc del r s' w)
  show ?case
    by (rule stream_other [OF reach_acquire_write(3) [OF reach_acquire_write(4)]
          pipe_ops_inv(8) [OF stream_invD(1) [OF reach_acquire_write(3) [OF reach_acquire_write(4)]]
            reach_acquire_write(2)]])
      (use reach_acquire_write(2) in \<open>auto simp: acquire_write_def\<close>)
next
  case (reach_release_read n s ls acc del r s' w)
  show ?case
    by (rule stream_other [OF reach_release_read(3) [OF reach_release_read(4)]
          pipe_ops_inv(9) [OF stream_invD(1) [OF reach_release_read(3) [OF reach_release_read(4)]]
            reach_release_read(2)]])
      (use reach_release_read(2) in \<open>auto simp: release_read_def Let_def split: if_splits\<close>)
next
  case (reach_release_write n s ls acc del r s' w)
  show ?case
    by (rule stream_other [OF reach_release_write(3) [OF reach_release_write(4)]
          pipe_ops_inv(10) [OF stream_invD(1) [OF reach_release_write(3) [OF reach_release_write(4)]]
            reach_release_write(2)]])
      (use reach_release_write(2) in \<open>auto simp: release_write_def Let_def split: if_splits\<close>)
qed

text \<open>
  C10. Used as a byte stream, a pipe is a FIFO: whatever tasks interleave writes, reads,
  read leases (finished, faulted, dropped or outliving the last close and reopen of the read
  side), capacity changes, opens and closes, the bytes it has accepted are always the bytes
  it has delivered followed by the bytes it buffers, as long as fewer than \<open>2 ^ 64 - 2\<close>
  leases were taken: nothing is lost, duplicated or reordered.
\<close>

theorem pipe_stream_fifo:
  assumes "pipe_reach n s ls acc del" and "n < 2 ^ 64 - 2"
  shows "acc = del @ pbuf s \<and> length (pbuf s) \<le> pcap s"
  using stream_inv_reach [OF assms] by (simp add: stream_inv_def pipe_inv_def)

lemma demo_pipe_reach:
  "\<exists>s. pipe_reach 0 s [] [7, 8] [7] \<and> pbuf s = [8]"
proof -
  have new: "pipe_with_open_state 4 True = Inr \<lparr>pbuf = [], pcap = 4, segments = [],
    reservation = None, next_res_id = 1, read_open = True, write_open = True,
    read_refs = 0, write_refs = 0\<rparr>"
    by (simp add: pipe_with_open_state_def)
  let ?s = "\<lparr>pbuf = [7, 8], pcap = 4, segments = [\<lparr>seg_len = 2, seg_packet = False\<rparr>],
    reservation = None, next_res_id = 1, read_open = True, write_open = True,
    read_refs = 0, write_refs = 0\<rparr>"
  have "pipe_reach 0 ?s [] [7, 8] []"
    using reach_write [OF reach_new [OF new], of True "[7, 8]" "Inr 2" ?s "[WakeReaders]"]
    by (simp add: pipe_try_write_mode_def is_full_def free_len_def pipe_buf_def write_from_def
        record_segment_def)
  from reach_read [OF this, of 1 "Inr [7]" "?s\<lparr>pbuf := [8],
      segments := [\<lparr>seg_len = 1, seg_packet = False\<rparr>]\<rparr>" "[WakeWriters]"]
  show ?thesis
    by (intro exI [of _ "?s\<lparr>pbuf := [8], segments := [\<lparr>seg_len = 1, seg_packet = False\<rparr>]\<rparr>"])
      (simp add: pipe_try_read_def pipe_empty_def read_into_def read_plan_def consume_def
        copy_head_def)
qed

theorem pipe_stream_fifo_witness:
  "\<exists>s. pipe_reach 0 s [] [7, 8] [7] \<and> [7, 8] = [7] @ pbuf s \<and> length (pbuf s) \<le> pcap s"
proof -
  obtain s where s: "pipe_reach 0 s [] [7, 8] [7]" using demo_pipe_reach by blast
  from pipe_stream_fifo [OF this] s show ?thesis by auto
qed

section \<open>Wake-ups\<close>

text \<open>
  The operations that change the state, each with the queues it wakes. Readers wait on
  \<open>read_wait\<close> while \<open>read_poll_blocked\<close> (a blocking read, lease or poll) or while there is
  no writer (a FIFO open); writers wait on \<open>write_wait\<close> while \<open>write_mode_waits\<close> or
  \<open>write_poll_blocked\<close> or while there is no reader.
\<close>

datatype pipe_op =
    OpRead nat
  | OpWrite bool "byte list" bool
  | OpLease nat
  | OpFinish pipe_lease nat bool
  | OpDrop pipe_lease
  | OpSetCapacity nat
  | OpAcquireRead | OpAcquireWrite | OpReleaseRead | OpReleaseWrite

fun pipe_op_step :: "pipe_op \<Rightarrow> pipe_state \<Rightarrow> pipe_state \<times> pipe_wake list" where
  "pipe_op_step (OpRead k) s = snd (pipe_try_read k s)"
| "pipe_op_step (OpWrite mem bs packet) s = snd (pipe_try_write_mode mem bs packet s)"
| "pipe_op_step (OpLease k) s = (snd (try_acquire_lease k s), [])"
| "pipe_op_step (OpFinish l copied complete) s = snd (lease_finish l copied complete s)"
| "pipe_op_step (OpDrop l) s = snd (lease_drop l s)"
| "pipe_op_step (OpSetCapacity cap) s = snd (pipe_set_capacity cap s)"
| "pipe_op_step OpAcquireRead s = snd (acquire_read s)"
| "pipe_op_step OpAcquireWrite s = snd (acquire_write s)"
| "pipe_op_step OpReleaseRead s = snd (release_read s)"
| "pipe_op_step OpReleaseWrite s = snd (release_write s)"

datatype pipe_waiter =
    WaitRead | WaitForWriter | WaitWrite nat bool | WaitPollWrite | WaitForReader

fun still_blocked :: "pipe_waiter \<Rightarrow> pipe_state \<Rightarrow> bool" where
  "still_blocked WaitRead s = read_poll_blocked s"
| "still_blocked WaitForWriter s = (write_refs s = 0)"
| "still_blocked (WaitWrite remaining packet) s = write_mode_waits remaining packet s"
| "still_blocked WaitPollWrite s = write_poll_blocked s"
| "still_blocked WaitForReader s = (read_refs s = 0)"

fun waits_on :: "pipe_waiter \<Rightarrow> pipe_wake" where
  "waits_on WaitRead = WakeReaders"
| "waits_on WaitForWriter = WakeReaders"
| "waits_on (WaitWrite remaining packet) = WakeWriters"
| "waits_on WaitPollWrite = WakeWriters"
| "waits_on WaitForReader = WakeWriters"

lemma consume_zero: "consume 0 s = s" by (simp add: consume_def)

lemma finish_consumed:
  assumes "finish_read rid copied complete s = (Inr (fin, freed), s')"
  shows "\<exists>n. s' = consume n (s\<lparr>reservation := None\<rparr>) \<and> (freed \<longleftrightarrow> n \<noteq> 0)"
  using assms by (auto simp: finish_read_def Let_def split: option.splits if_splits prod.splits)

lemma no_lost_wakeup_finish:
  assumes "still_blocked wt s" "\<not> still_blocked wt (fst (pipe_op_step (OpFinish l copied complete) s))"
  shows "waits_on wt \<in> set (snd (pipe_op_step (OpFinish l copied complete) s))"
proof (cases "lease_id l")
  case None
  with assms show ?thesis by (simp add: lease_finish_def)
next
  case (Some rid)
  obtain r s' where f: "finish_read rid copied complete s = (r, s')" by (metis surj_pair)
  show ?thesis
  proof (cases r)
    case (Inl e)
    then have "s' = s"
      using f by (auto simp: finish_read_def Let_def split: option.splits if_splits prod.splits)
    with assms Some f Inl show ?thesis by (simp add: lease_finish_def)
  next
    case (Inr p)
    obtain fin freed where p: "p = (fin, freed)" by (cases p)
    from finish_consumed f Inr p obtain n where
      n: "s' = consume n (s\<lparr>reservation := None\<rparr>)" "freed \<longleftrightarrow> n \<noteq> 0" by blast
    show ?thesis
      using assms Some f Inr p n
      by (cases wt; cases "n = 0")
        (auto simp: lease_finish_def consume_zero write_mode_waits_def write_poll_blocked_def
          is_full_def free_len_def consume_def Let_def split: if_splits)
  qed
qed

text \<open>What reading, writing and taking a lease can change.\<close>

lemma try_read_effect:
  assumes "pipe_try_read k s = (r, s', w)"
  shows "s' = s \<or> w = [WakeWriters] \<and> \<not> read_poll_blocked s \<and> write_refs s' = write_refs s"
  using assms
  by (auto simp: pipe_try_read_def read_poll_blocked_def read_into_def consume_def Let_def
      split: if_splits prod.splits)

lemma try_write_effect:
  assumes "pipe_try_write_mode mem bs packet s = (r, s', w)"
  shows "s' = s \<or> w = [WakeReaders] \<and> \<not> is_full s \<and> read_refs s' = read_refs s \<and>
    read_open s' = read_open s \<and> pcap s' = pcap s \<and> length (pbuf s) \<le> length (pbuf s')"
  using assms
  by (auto simp: pipe_try_write_mode_def write_from_def Let_def
      split: if_splits prod.splits sum.splits)

lemma try_lease_effect:
  assumes "try_acquire_lease k s = (r, s')"
  shows "s' = s \<or> (\<exists>q i. s' = s\<lparr>next_res_id := i, reservation := Some q\<rparr>)"
  using assms
  by (auto simp: try_acquire_lease_def begin_read_def Let_def split: if_splits prod.splits sum.splits)

lemma waits_same_buffer:
  assumes "pbuf s' = pbuf s" "pcap s' = pcap s" "read_open s' = read_open s"
  shows "write_mode_waits n p s' = write_mode_waits n p s" "write_poll_blocked s' = write_poll_blocked s"
  using assms by (simp_all add: write_mode_waits_def write_poll_blocked_def is_full_def free_len_def)

lemma waits_fuller:
  assumes "length (pbuf s) \<le> length (pbuf s')" "pcap s' = pcap s" "read_open s' = read_open s"
    "write_mode_waits n p s"
  shows "write_mode_waits n p s'"
  using assms by (auto simp: write_mode_waits_def free_len_def Let_def split: if_splits)

text \<open>
  C11. No wake-up is lost: whenever an operation on a well-formed pipe ends the condition a
  task may be sleeping on (data or end of file for a reader, enough space or a broken pipe
  for a writer, the other side of a FIFO opening), it wakes the queue on which that task
  sleeps.
\<close>

theorem pipe_no_lost_wakeup:
  assumes "pipe_inv s" and "still_blocked wt s" and "\<not> still_blocked wt (fst (pipe_op_step opr s))"
  shows "waits_on wt \<in> set (snd (pipe_op_step opr s))"
proof (cases opr)
  case (OpFinish l copied complete)
  with assms no_lost_wakeup_finish show ?thesis by blast
next
  case (OpSetCapacity cap)
  with assms show ?thesis
    by (cases wt) (auto simp: pipe_set_capacity_def pipe_empty_def read_poll_blocked_def
        write_mode_waits_def write_poll_blocked_def is_full_def free_len_def pipe_inv_def Let_def
        split: if_splits)
next
  case (OpRead k)
  obtain r s' w where "pipe_try_read k s = (r, s', w)" by (metis surj_pair)
  with try_read_effect [OF this] assms OpRead show ?thesis by (cases wt) auto
next
  case (OpWrite mem bs packet)
  obtain r s' w where w: "pipe_try_write_mode mem bs packet s = (r, s', w)" by (metis surj_pair)
  with try_write_effect [OF w] assms OpWrite waits_fuller [of s s'] show ?thesis
    by (cases wt) (auto simp: write_poll_blocked_def)
next
  case (OpLease k)
  obtain r s' where l: "try_acquire_lease k s = (r, s')" by (metis surj_pair)
  with try_lease_effect [OF l] assms OpLease waits_same_buffer [of s' s] show ?thesis
    by (cases wt) (auto simp: read_poll_blocked_def)
next
  case (OpDrop l)
  with assms show ?thesis
    by (cases wt) (auto simp: lease_drop_def split: option.splits)
next
  case OpAcquireRead
  with assms show ?thesis
    by (cases wt) (auto simp: acquire_read_def read_poll_blocked_def write_mode_waits_def
        write_poll_blocked_def is_full_def free_len_def pipe_empty_def Let_def split: if_splits)
next
  case OpAcquireWrite
  with assms show ?thesis
    by (cases wt) (auto simp: acquire_write_def read_poll_blocked_def write_mode_waits_def
        write_poll_blocked_def is_full_def free_len_def pipe_empty_def Let_def split: if_splits)
next
  case OpReleaseRead
  with assms show ?thesis
    by (cases wt) (auto simp: release_read_def read_poll_blocked_def write_mode_waits_def
        write_poll_blocked_def is_full_def free_len_def pipe_empty_def Let_def split: if_splits)
next
  case OpReleaseWrite
  with assms show ?thesis
    by (cases wt) (auto simp: release_write_def read_poll_blocked_def write_mode_waits_def
        write_poll_blocked_def is_full_def free_len_def pipe_empty_def Let_def split: if_splits)
qed

theorem pipe_no_lost_wakeup_witness:
  "still_blocked WaitRead (demo_pipe\<lparr>pbuf := [], segments := []\<rparr>) \<and>
   waits_on WaitRead \<in>
     set (snd (pipe_op_step (OpWrite True [5] False) (demo_pipe\<lparr>pbuf := [], segments := []\<rparr>)))"
proof -
  let ?s = "demo_pipe\<lparr>pbuf := [], segments := []\<rparr>"
  have b: "still_blocked WaitRead ?s" by (simp add: read_poll_blocked_def pipe_empty_def demo_pipe_def)
  have "pipe_inv ?s" by (simp add: pipe_inv_def demo_pipe_def)
  moreover have "\<not> still_blocked WaitRead (fst (pipe_op_step (OpWrite True [5] False) ?s))"
    by (simp add: read_poll_blocked_def pipe_empty_def demo_pipe_def pipe_try_write_mode_def
        is_full_def write_from_def free_len_def)
  ultimately show ?thesis using pipe_no_lost_wakeup [OF _ b] b by blast
qed

section \<open>The blocking write loop\<close>

lemma try_write_mode_Inr:
  assumes "pipe_inv s" "pipe_try_write_mode mem bs packet s = (Inr n, s', w)" "bs \<noteq> []"
  shows "0 < n" "n \<le> length bs" "packet \<Longrightarrow> n \<le> pipe_buf"
proof -
  let ?pl = "min (min (length bs) pipe_buf) (pcap s)"
  have pos: "0 < free_len s" "0 < length bs" "0 < pcap s" if "\<not> is_full s"
    using that assms(1,3) by (auto simp: free_len_def is_full_def pipe_inv_def)
  from assms(2,3) have nf: "\<not> is_full s" and
    n: "n = min (length (if packet then take ?pl bs else bs)) (free_len s)"
    by (auto simp: pipe_try_write_mode_def write_from_def Let_def
        split: if_splits prod.splits sum.splits)
  from n pos [OF nf] show "0 < n" "n \<le> length bs" "packet \<Longrightarrow> n \<le> pipe_buf"
    by (auto simp: pipe_buf_def)
qed

lemma try_write_mode_Inl:
  assumes "pipe_try_write_mode mem bs packet s = (Inl e, s', w)"
  shows "e \<in> {BrokenPipe, WouldBlock, NoMemory}" "s' = s" "e = BrokenPipe \<Longrightarrow> \<not> read_open s"
    "e = NoMemory \<Longrightarrow> \<not> mem"
  using assms by (auto simp: pipe_try_write_mode_def write_from_def Let_def
      split: if_splits prod.splits sum.splits)

definition env_keeps_inv :: "pipe_env list \<Rightarrow> bool" where
  "env_keeps_inv es \<longleftrightarrow> (\<forall>e \<in> set es. \<forall>s. pipe_inv s \<longrightarrow> pipe_inv (env_change e s))"

definition write_result_ok ::
  "pipe_env list \<Rightarrow> byte list \<Rightarrow> bool \<Rightarrow> nat \<Rightarrow> (pipe_error, nat) result \<Rightarrow> byte list list
     \<Rightarrow> pipe_state \<Rightarrow> bool" where
  "write_result_ok es input packet written r cs s' \<longleftrightarrow>
     (\<exists>n. written \<le> n \<and> n \<le> length input \<and> concat cs = take (n - written) (drop written input) \<and>
        (case r of
           Inr k \<Rightarrow> k = n \<and> (n < length input \<longrightarrow>
             (\<exists>e \<in> set es. env_interrupted e) \<or> \<not> read_open s')
         | Inl Interrupted \<Rightarrow> n = 0 \<and> (\<exists>e \<in> set es. env_interrupted e)
         | Inl BrokenPipe \<Rightarrow> n = 0 \<and> \<not> read_open s'
         | Inl NoMemory \<Rightarrow> \<exists>e \<in> set es. \<not> env_mem e
         | Inl e \<Rightarrow> False)) \<and>
     (\<forall>c \<in> set cs. c \<noteq> [] \<and> (packet \<longrightarrow> length c \<le> pipe_buf))"

lemma write_result_ok_Cons:
  "write_result_ok es input packet written r cs s' \<Longrightarrow> write_result_ok (e # es) input packet written r cs s'"
  unfolding write_result_ok_def
  by (elim conjE exE, rule conjI, rule exI, intro conjI, assumption, assumption, assumption)
    (auto split: sum.splits pipe_error.splits)

lemma write_result_ok_chunk:
  assumes "write_result_ok es input packet (written + n) r cs s'" "written + n \<le> length input"
    "0 < n" "packet \<longrightarrow> n \<le> pipe_buf"
  shows "write_result_ok es input packet written r (take n (drop written input) # cs) s'"
proof -
  from assms(1) obtain m where m: "written + n \<le> m" "m \<le> length input"
    "concat cs = take (m - (written + n)) (drop (written + n) input)"
    and rest: "(case r of
           Inr k \<Rightarrow> k = m \<and> (m < length input \<longrightarrow>
             (\<exists>e \<in> set es. env_interrupted e) \<or> \<not> read_open s')
         | Inl Interrupted \<Rightarrow> m = 0 \<and> (\<exists>e \<in> set es. env_interrupted e)
         | Inl BrokenPipe \<Rightarrow> m = 0 \<and> \<not> read_open s'
         | Inl NoMemory \<Rightarrow> \<exists>e \<in> set es. \<not> env_mem e
         | Inl e \<Rightarrow> False)"
    and cs: "\<forall>c \<in> set cs. c \<noteq> [] \<and> (packet \<longrightarrow> length c \<le> pipe_buf)"
    unfolding write_result_ok_def by blast
  have "take n (drop written input) @ concat cs = take (n + (m - (written + n))) (drop written input)"
    by (simp add: m(3) take_add add.commute)
  also have "n + (m - (written + n)) = m - written" using m(1) by simp
  finally have "concat (take n (drop written input) # cs) = take (m - written) (drop written input)"
    by simp
  moreover have "take n (drop written input) \<noteq> []" "length (take n (drop written input)) = n"
    using assms(2,3) by auto
  ultimately show ?thesis
    unfolding write_result_ok_def using m(1,2) rest cs assms(4)
    by (intro conjI exI [of _ m]) auto
qed

lemma write_mode_loop_ok:
  "write_mode_loop es input packet written s = Some (r, cs, s') \<Longrightarrow> written \<le> length input \<Longrightarrow>
    env_keeps_inv es \<Longrightarrow> pipe_inv s \<Longrightarrow>
    pipe_inv s' \<and> write_result_ok es input packet written r cs s'"
proof (induction es arbitrary: written s cs)
  case Nil
  then show ?case by (auto simp: write_result_ok_def split: if_splits)
next
  case (Cons e es)
  show ?case
  proof (cases "written < length input")
    case False
    with Cons.prems show ?thesis by (auto simp: write_result_ok_def)
  next
    case True
    let ?bs = "drop written input" and ?s = "env_change e s"
    have inv: "pipe_inv ?s" and keeps: "env_keeps_inv es"
      using Cons.prems(3,4) by (simp_all add: env_keeps_inv_def)
    have ne: "?bs \<noteq> []" using True by simp
    obtain q t w where st: "pipe_try_write_mode (env_mem e) ?bs packet ?s = (q, t, w)"
      by (metis surj_pair)
    have t: "pipe_inv t" using pipe_ops_inv(3) [OF inv st] .
    show ?thesis
    proof (cases q)
      case (Inr n)
      note n = try_write_mode_Inr [OF inv st [unfolded Inr] ne]
      then have n0: "n \<noteq> 0" "written + n \<le> length input" by auto
      from Cons.prems(1) True st Inr n0 obtain cs' where
        "write_mode_loop es input packet (written + n) t = Some (r, cs', s')"
        and cs: "cs = take n ?bs # cs'"
        by auto
      from Cons.IH [OF this(1) n0(2) keeps t] n n0
      have "pipe_inv s'" "write_result_ok es input packet written r cs s'"
        unfolding cs by (auto intro: write_result_ok_chunk)
      then show ?thesis using write_result_ok_Cons by blast
    next
      case (Inl err)
      note er = try_write_mode_Inl [OF st [unfolded Inl]]
      then consider "err = BrokenPipe" | "err = NoMemory" | "err = WouldBlock" by auto
      then show ?thesis
      proof cases
        case 1
        with Cons.prems(1) True st Inl er t show ?thesis
          by (auto simp: write_result_ok_def split: if_splits)
      next
        case 2
        with Cons.prems(1) True st Inl er t show ?thesis
          by (auto simp: write_result_ok_def split: if_splits)
      next
        case 3
        show ?thesis
        proof (cases "env_interrupted e")
          case True
          with 3 Cons.prems(1) \<open>written < length input\<close> st Inl t show ?thesis
            by (auto simp: write_result_ok_def split: if_splits)
        next
          case False
          with 3 Cons.prems(1) \<open>written < length input\<close> st Inl
          have "write_mode_loop es input packet written t = Some (r, cs, s')" by simp
          from Cons.IH [OF this Cons.prems(2) keeps t] show ?thesis
            using write_result_ok_Cons by blast
        qed
      qed
    qed
  qed
qed

lemma write_mode_loop_completes:
  assumes "\<forall>e \<in> set es. env_mem e \<and>
    (\<forall>s. pipe_inv s \<longrightarrow> pipe_inv (env_change e s) \<and> read_open (env_change e s) \<and> \<not> is_full (env_change e s))"
  shows "pipe_inv s \<Longrightarrow> written \<le> length input \<Longrightarrow> length input - written \<le> length es \<Longrightarrow>
    \<exists>cs s'. write_mode_loop es input False written s = Some (Inr (length input), cs, s')"
  using assms
proof (induction es arbitrary: written s)
  case Nil
  then show ?case by simp
next
  case (Cons e es)
  show ?case
  proof (cases "written < length input")
    case False
    with Cons.prems show ?thesis by auto
  next
    case True
    let ?bs = "drop written input" and ?s = "env_change e s"
    have e: "env_mem e" "pipe_inv ?s" "read_open ?s" "\<not> is_full ?s" using Cons.prems(1,4) by auto
    have ne: "?bs \<noteq> []" using True by simp
    obtain q t w where st: "pipe_try_write_mode (env_mem e) ?bs False ?s = (q, t, w)"
      by (metis surj_pair)
    obtain n where q: "q = Inr n"
      using st e ne by (cases q) (auto simp: pipe_try_write_mode_def write_from_def Let_def
          split: if_splits prod.splits sum.splits)
    note n = try_write_mode_Inr [OF e(2) st [unfolded q] ne]
    have "\<exists>cs s'. write_mode_loop es input False (written + n) t = Some (Inr (length input), cs, s')"
      by (rule Cons.IH) (use Cons.prems n pipe_ops_inv(3) [OF e(2) st] True in auto)
    with True st q n show ?thesis by auto
  qed
qed


definition quiet_env :: pipe_env where
  "quiet_env = \<lparr>env_change = id, env_mem = True, env_interrupted = False\<rparr>"


text \<open>
  The one error that hides progress: when memory runs out after the first chunk, the loop
  returns \<open>NoMemory\<close> although the pipe keeps the bytes it has accepted.
\<close>

lemma write_mode_no_memory_after_progress:
  "\<exists>s'. pipe_write_mode
      [quiet_env, \<lparr>env_change = (\<lambda>s. s\<lparr>pbuf := [], segments := []\<rparr>), env_mem = False,
         env_interrupted = False\<rparr>] [1, 2, 3, 4, 5, 6] False demo_pipe =
     Some (Inl NoMemory, [[1, 2, 3, 4, 5]], s')"
  by (simp add: pipe_write_mode_def quiet_env_def pipe_try_write_mode_def demo_pipe_def
      is_full_def free_len_def pipe_buf_def write_from_def)

end
