(* ===== verification/Pipe_Endpoint.thy ===== *)
theory Pipe_Endpoint
  imports Pipe_System
begin

text \<open>
  Pipe endpoints as the descriptor table holds them
  (\<open>ipc-pipe/pipe-impl/impl-ringbuf/src/endpoint.rs\<close>). \<open>endpoint_sys\<close> is one shared pipe,
  the status flags that a clone shares with its original, and all endpoints ever made for the
  pipe; an endpoint is named by its index, and dropping one closes it. The claims tie the
  reference counts of the pipe to the endpoints that are open.
\<close>

section \<open>Endpoints\<close>

datatype endpoint_kind = ReadEnd | WriteEnd

record pipe_endpoint =
  ep_kind :: endpoint_kind
  ep_flags :: nat
  ep_closed :: bool

record pipe_flags =
  fl_nonblocking :: bool
  fl_direct :: bool

record endpoint_sys =
  sys_pipe :: pipe_state
  sys_flags :: "pipe_flags list"
  sys_eps :: "pipe_endpoint list"

definition acquire_kind :: "endpoint_kind \<Rightarrow> pipe_state \<Rightarrow> pipe_state" where
  "acquire_kind k s =
     (case k of ReadEnd \<Rightarrow> fst (snd (acquire_read s)) | WriteEnd \<Rightarrow> fst (snd (acquire_write s)))"

definition release_kind :: "endpoint_kind \<Rightarrow> pipe_state \<Rightarrow> pipe_state" where
  "release_kind k s =
     (case k of ReadEnd \<Rightarrow> fst (snd (release_read s)) | WriteEnd \<Rightarrow> fst (snd (release_write s)))"

definition ep_open :: "endpoint_kind \<Rightarrow> bool \<Rightarrow> endpoint_sys \<Rightarrow> endpoint_sys" where
  "ep_open k nonblocking sys =
     \<lparr>sys_pipe = acquire_kind k (sys_pipe sys),
      sys_flags = sys_flags sys @ [\<lparr>fl_nonblocking = nonblocking, fl_direct = False\<rparr>],
      sys_eps = sys_eps sys @ [\<lparr>ep_kind = k, ep_flags = length (sys_flags sys), ep_closed = False\<rparr>]\<rparr>"

definition ep_pair :: "bool \<Rightarrow> (pipe_error, endpoint_sys) result" where
  "ep_pair nonblocking =
     res_bind (pipe_with_capacity default_pipe_capacity) (\<lambda>p.
       Inr (ep_open WriteEnd nonblocking
         (ep_open ReadEnd nonblocking \<lparr>sys_pipe = p, sys_flags = [], sys_eps = []\<rparr>)))"

definition set_direct :: "nat \<Rightarrow> bool \<Rightarrow> endpoint_sys \<Rightarrow> endpoint_sys" where
  "set_direct i value sys =
     (let f = ep_flags (sys_eps sys ! i)
      in sys\<lparr>sys_flags := (sys_flags sys)[f := (sys_flags sys ! f)\<lparr>fl_direct := value\<rparr>]\<rparr>)"

definition set_nonblocking :: "nat \<Rightarrow> bool \<Rightarrow> endpoint_sys \<Rightarrow> endpoint_sys" where
  "set_nonblocking i value sys =
     (let f = ep_flags (sys_eps sys ! i)
      in sys\<lparr>sys_flags := (sys_flags sys)[f := (sys_flags sys ! f)\<lparr>fl_nonblocking := value\<rparr>]\<rparr>)"

definition ep_nonblocking :: "nat \<Rightarrow> endpoint_sys \<Rightarrow> bool" where
  "ep_nonblocking i sys = fl_nonblocking (sys_flags sys ! ep_flags (sys_eps sys ! i))"

definition ep_direct :: "nat \<Rightarrow> endpoint_sys \<Rightarrow> bool" where
  "ep_direct i sys = fl_direct (sys_flags sys ! ep_flags (sys_eps sys ! i))"

definition ep_pair_with_flags :: "bool \<Rightarrow> bool \<Rightarrow> (pipe_error, endpoint_sys) result" where
  "ep_pair_with_flags nonblocking direct =
     res_bind (ep_pair nonblocking) (\<lambda>sys. Inr (set_direct 1 direct (set_direct 0 direct sys)))"

definition ep_clone :: "nat \<Rightarrow> endpoint_sys \<Rightarrow> endpoint_sys" where
  "ep_clone i sys =
     (let e = sys_eps sys ! i in
      sys\<lparr>sys_pipe := (if ep_closed e then sys_pipe sys else acquire_kind (ep_kind e) (sys_pipe sys)),
          sys_eps := sys_eps sys @ [e]\<rparr>)"

definition release_once :: "nat \<Rightarrow> endpoint_sys \<Rightarrow> endpoint_sys" where
  "release_once i sys =
     (let e = sys_eps sys ! i in
      if ep_closed e then sys
      else sys\<lparr>sys_pipe := release_kind (ep_kind e) (sys_pipe sys),
               sys_eps := (sys_eps sys)[i := e\<lparr>ep_closed := True\<rparr>]\<rparr>)"

definition ep_close :: "nat \<Rightarrow> endpoint_sys \<Rightarrow> endpoint_sys" where
  "ep_close i sys = release_once i sys"

definition ensure_open :: "nat \<Rightarrow> endpoint_sys \<Rightarrow> (pipe_error, unit) result" where
  "ensure_open i sys = (if ep_closed (sys_eps sys ! i) then Inl PipeClosed else Inr ())"

section \<open>Input and output\<close>

definition ep_read :: "pipe_env list \<Rightarrow> nat \<Rightarrow> nat \<Rightarrow> endpoint_sys
    \<Rightarrow> ((pipe_error, byte list) result \<times> endpoint_sys) option" where
  "ep_read es i out_len sys =
     (case ensure_open i sys of
        Inl e \<Rightarrow> Some (Inl e, sys)
      | Inr _ \<Rightarrow>
          if ep_kind (sys_eps sys ! i) \<noteq> ReadEnd then Some (Inl BrokenPipe, sys)
          else if ep_nonblocking i sys then
            (case pipe_try_read out_len (sys_pipe sys) of (r, p, w) \<Rightarrow> Some (r, sys\<lparr>sys_pipe := p\<rparr>))
          else map_option (\<lambda>(r, p). (r, sys\<lparr>sys_pipe := p\<rparr>)) (pipe_read es out_len (sys_pipe sys)))"

definition ep_acquire_read_lease :: "bool \<Rightarrow> pipe_env list \<Rightarrow> nat \<Rightarrow> nat \<Rightarrow> endpoint_sys
    \<Rightarrow> ((pipe_error, pipe_lease) result \<times> endpoint_sys) option" where
  "ep_acquire_read_lease mem es i max_len sys =
     (case ensure_open i sys of
        Inl e \<Rightarrow> Some (Inl e, sys)
      | Inr _ \<Rightarrow>
          if ep_kind (sys_eps sys ! i) \<noteq> ReadEnd then Some (Inl BrokenPipe, sys)
          else map_option (\<lambda>(r, p). (r, sys\<lparr>sys_pipe := p\<rparr>))
                 (acquire_read_lease mem es max_len (ep_nonblocking i sys) (sys_pipe sys)))"

definition ep_write :: "bool \<Rightarrow> pipe_env list \<Rightarrow> nat \<Rightarrow> byte list \<Rightarrow> endpoint_sys
    \<Rightarrow> ((pipe_error, nat) result \<times> endpoint_sys) option" where
  "ep_write mem es i input sys =
     (case ensure_open i sys of
        Inl e \<Rightarrow> Some (Inl e, sys)
      | Inr _ \<Rightarrow>
          if ep_kind (sys_eps sys ! i) \<noteq> WriteEnd then Some (Inl BrokenPipe, sys)
          else if ep_nonblocking i sys then
            (case pipe_try_write_mode mem input (ep_direct i sys) (sys_pipe sys) of
               (r, p, w) \<Rightarrow> Some (r, sys\<lparr>sys_pipe := p\<rparr>))
          else map_option (\<lambda>(r, cs, p). (r, sys\<lparr>sys_pipe := p\<rparr>))
                 (pipe_write_mode es input (ep_direct i sys) (sys_pipe sys)))"

definition ep_set_pipe_capacity :: "nat \<Rightarrow> nat \<Rightarrow> endpoint_sys
    \<Rightarrow> (pipe_error, nat) result \<times> endpoint_sys" where
  "ep_set_pipe_capacity i cap sys =
     (case ensure_open i sys of
        Inl e \<Rightarrow> (Inl e, sys)
      | Inr _ \<Rightarrow>
          (case pipe_set_capacity cap (sys_pipe sys) of (r, p, w) \<Rightarrow> (r, sys\<lparr>sys_pipe := p\<rparr>)))"

definition ep_poll_revents :: "nat \<Rightarrow> 16 word \<Rightarrow> endpoint_sys \<Rightarrow> (pipe_error, 16 word) result" where
  "ep_poll_revents i events sys =
     res_bind (ensure_open i sys) (\<lambda>_.
       let raw = (case ep_kind (sys_eps sys ! i) of
                    ReadEnd \<Rightarrow> poll_revents_read (sys_pipe sys)
                  | WriteEnd \<Rightarrow> poll_revents_write (sys_pipe sys));
           out1 = (if events AND pollin \<noteq> 0 \<and> raw AND pollin \<noteq> 0 then pollin else 0);
           out2 = (if events AND pollout \<noteq> 0 \<and> raw AND pollout \<noteq> 0 then out1 OR pollout else out1)
       in Inr (if raw AND (8 OR 16) \<noteq> 0 then out2 OR (raw AND (8 OR 16)) else out2))"

text \<open>
  A FIFO: opening waits for the other side unless non-blocking. What the system does during
  the wait is \<open>env\<close>; an interrupted wait drops the new endpoint.
\<close>

definition named_pipe :: "endpoint_sys option" where
  "named_pipe =
     (case pipe_with_open_state default_pipe_capacity False of
        Inl e \<Rightarrow> None
      | Inr p \<Rightarrow> Some \<lparr>sys_pipe = p, sys_flags = [], sys_eps = []\<rparr>)"

definition open_read :: "(endpoint_sys \<Rightarrow> endpoint_sys) \<Rightarrow> bool \<Rightarrow> bool \<Rightarrow> endpoint_sys
    \<Rightarrow> (pipe_error, nat) result \<times> endpoint_sys" where
  "open_read env interrupted nonblocking sys =
     (let i = length (sys_eps sys); sys1 = ep_open ReadEnd nonblocking sys in
      if nonblocking then (Inr i, sys1)
      else if interrupted then (Inl Interrupted, release_once i (env sys1))
      else (Inr i, env sys1))"

definition open_write :: "(endpoint_sys \<Rightarrow> endpoint_sys) \<Rightarrow> bool \<Rightarrow> bool \<Rightarrow> endpoint_sys
    \<Rightarrow> (pipe_error, nat) result \<times> endpoint_sys" where
  "open_write env interrupted nonblocking sys =
     (if nonblocking \<and> \<not> read_refs (sys_pipe sys) \<noteq> 0 then (Inl BrokenPipe, sys)
      else
        let i = length (sys_eps sys); sys1 = ep_open WriteEnd nonblocking sys in
        if nonblocking then (Inr i, sys1)
        else if interrupted then (Inl Interrupted, release_once i (env sys1))
        else (Inr i, env sys1))"

section \<open>Reference counts\<close>

definition open_eps :: "endpoint_kind \<Rightarrow> endpoint_sys \<Rightarrow> pipe_endpoint list" where
  "open_eps k sys = filter (\<lambda>e. ep_kind e = k \<and> \<not> ep_closed e) (sys_eps sys)"

definition ep_inv :: "endpoint_sys \<Rightarrow> bool" where
  "ep_inv sys \<longleftrightarrow>
     pipe_inv (sys_pipe sys) \<and>
     read_refs (sys_pipe sys) = length (open_eps ReadEnd sys) \<and>
     write_refs (sys_pipe sys) = length (open_eps WriteEnd sys) \<and>
     (\<forall>e \<in> set (sys_eps sys). ep_flags e < length (sys_flags sys))"

text \<open>The open flags of the pipe; a new anonymous pipe gets them from its two endpoints.\<close>

definition open_flags_ok :: "endpoint_sys \<Rightarrow> bool" where
  "open_flags_ok sys \<longleftrightarrow>
     read_open (sys_pipe sys) = (0 < read_refs (sys_pipe sys)) \<and>
     write_open (sys_pipe sys) = (0 < write_refs (sys_pipe sys))"

lemma acquire_kind_inv: "pipe_inv s \<Longrightarrow> pipe_inv (acquire_kind k s)"
  by (cases k) (simp_all add: acquire_kind_def acquire_read_def acquire_write_def pipe_inv_def
      reservation_ok_def)

lemma release_kind_inv: "pipe_inv s \<Longrightarrow> pipe_inv (release_kind k s)"
  by (cases k) (auto simp: release_kind_def release_read_def release_write_def Let_def
      elim!: pipe_inv_cong)

lemma acquire_kind_refs:
  "read_refs (acquire_kind k s) = read_refs s + (if k = ReadEnd then 1 else 0)"
  "write_refs (acquire_kind k s) = write_refs s + (if k = WriteEnd then 1 else 0)"
  "read_open (acquire_kind k s) = (read_open s \<or> k = ReadEnd)"
  "write_open (acquire_kind k s) = (write_open s \<or> k = WriteEnd)"
  by (cases k; simp add: acquire_kind_def acquire_read_def acquire_write_def)+

lemma release_kind_refs:
  "read_refs (release_kind k s) = (if k = ReadEnd then read_refs s - 1 else read_refs s)"
  "write_refs (release_kind k s) = (if k = WriteEnd then write_refs s - 1 else write_refs s)"
  "read_open (release_kind k s) = (if k = ReadEnd then read_open s \<and> 1 < read_refs s else read_open s)"
  "write_open (release_kind k s) =
     (if k = WriteEnd then write_open s \<and> 1 < write_refs s else write_open s)"
  by (cases k; auto simp: release_kind_def release_read_def release_write_def Let_def)+

lemma ep_open_inv:
  assumes "ep_inv sys"
  shows "ep_inv (ep_open k nb sys)" "open_flags_ok sys \<Longrightarrow> open_flags_ok (ep_open k nb sys)"
  using assms acquire_kind_inv [of "sys_pipe sys" k]
  by (cases k; auto simp: ep_inv_def ep_open_def open_eps_def acquire_kind_refs open_flags_ok_def
      less_Suc_eq)+

lemma ep_clone_inv:
  assumes "ep_inv sys" "i < length (sys_eps sys)"
  shows "ep_inv (ep_clone i sys)" "open_flags_ok sys \<Longrightarrow> open_flags_ok (ep_clone i sys)"
proof -
  have "sys_eps sys ! i \<in> set (sys_eps sys)" using assms(2) by simp
  with assms acquire_kind_inv [of "sys_pipe sys" "ep_kind (sys_eps sys ! i)"]
  show "ep_inv (ep_clone i sys)" "open_flags_ok sys \<Longrightarrow> open_flags_ok (ep_clone i sys)"
    by (cases "ep_kind (sys_eps sys ! i)";
        auto simp: ep_inv_def ep_clone_def open_eps_def acquire_kind_refs open_flags_ok_def Let_def)+
qed

lemma filter_length_update:
  assumes "i < length xs" "P (xs ! i)" "\<not> P y"
  shows "length (filter P (xs[i := y])) = length (filter P xs) - 1"
    "0 < length (filter P xs)"
proof -
  have x: "xs = take i xs @ xs ! i # drop (Suc i) xs" by (rule id_take_nth_drop [OF assms(1)])
  have l: "length (filter P xs) =
      length (filter P (take i xs)) + 1 + length (filter P (drop (Suc i) xs))"
    by (subst x, subst filter_append) (simp add: assms(2))
  have "xs[i := y] = take i xs @ y # drop (Suc i) xs" by (rule upd_conv_take_nth_drop [OF assms(1)])
  then have "length (filter P (xs[i := y])) = length (filter P (take i xs)) + length (filter P (drop (Suc i) xs))"
    using assms(3) by simp
  with l show "length (filter P (xs[i := y])) = length (filter P xs) - 1" "0 < length (filter P xs)"
    by simp_all
qed

lemma filter_length_same:
  assumes "i < length xs" "P (xs ! i) = P y"
  shows "length (filter P (xs[i := y])) = length (filter P xs)"
proof -
  have "xs = take i xs @ xs ! i # drop (Suc i) xs" by (rule id_take_nth_drop [OF assms(1)])
  then have "filter P xs = filter P (take i xs @ xs ! i # drop (Suc i) xs)" by simp
  moreover have "xs[i := y] = take i xs @ y # drop (Suc i) xs"
    by (rule upd_conv_take_nth_drop [OF assms(1)])
  ultimately show ?thesis using assms(2) by simp
qed

lemma release_once_inv:
  assumes "ep_inv sys" "i < length (sys_eps sys)"
  shows "ep_inv (release_once i sys)" "open_flags_ok sys \<Longrightarrow> open_flags_ok (release_once i sys)"
proof -
  let ?e = "sys_eps sys ! i" and ?P = "\<lambda>k e. ep_kind e = k \<and> \<not> ep_closed e"
  have mem: "?e \<in> set (sys_eps sys)" using assms(2) by simp
  have "ep_inv (release_once i sys) \<and> (open_flags_ok sys \<longrightarrow> open_flags_ok (release_once i sys))"
  proof (cases "ep_closed ?e")
    case True
    with assms show ?thesis by (simp add: release_once_def)
  next
    case False
    let ?y = "?e\<lparr>ep_closed := True\<rparr>"
    have same: "length (filter (?P k) ((sys_eps sys)[i := ?y])) = length (filter (?P k) (sys_eps sys))"
      if "k \<noteq> ep_kind ?e" for k
      by (rule filter_length_same [OF assms(2)]) (use that in simp)
    have less: "length (filter (?P (ep_kind ?e)) ((sys_eps sys)[i := ?y])) =
        length (filter (?P (ep_kind ?e)) (sys_eps sys)) - 1"
      "0 < length (filter (?P (ep_kind ?e)) (sys_eps sys))"
      using filter_length_update [OF assms(2), of "?P (ep_kind ?e)" ?y] False by simp_all
    have fl: "\<forall>e \<in> set ((sys_eps sys)[i := ?y]). ep_flags e < length (sys_flags sys)"
      using assms(1) mem set_update_subset_insert [of "sys_eps sys" i ?y]
      by (auto simp: ep_inv_def)
    show ?thesis
    proof (cases "ep_kind ?e")
      case ReadEnd
      with assms(1) False same [of WriteEnd] less fl release_kind_inv [of "sys_pipe sys" ReadEnd]
      show ?thesis
        by (auto simp: ep_inv_def release_once_def open_eps_def release_kind_refs open_flags_ok_def)
    next
      case WriteEnd
      with assms(1) False same [of ReadEnd] less fl release_kind_inv [of "sys_pipe sys" WriteEnd]
      show ?thesis
        by (auto simp: ep_inv_def release_once_def open_eps_def release_kind_refs open_flags_ok_def)
    qed
  qed
  then show "ep_inv (release_once i sys)" "open_flags_ok sys \<Longrightarrow> open_flags_ok (release_once i sys)"
    by blast+
qed

section \<open>Reachable endpoint systems\<close>

text \<open>
  The rules are the locked sections of the endpoint operations: waiting in a FIFO open and
  the blocking loops are sequences of them, an interrupted FIFO open ends with
  \<open>reach_close\<close> on the new endpoint.
\<close>

fun is_io :: "pipe_op \<Rightarrow> bool" where
  "is_io OpAcquireRead = False"
| "is_io OpAcquireWrite = False"
| "is_io OpReleaseRead = False"
| "is_io OpReleaseWrite = False"
| "is_io opr = True"

inductive ep_reach :: "endpoint_sys \<Rightarrow> bool" where
  ep_reach_pair: "ep_pair_with_flags nonblocking direct = Inr sys \<Longrightarrow> ep_reach sys"
| ep_reach_named: "named_pipe = Some sys \<Longrightarrow> ep_reach sys"
| ep_reach_open: "ep_reach sys \<Longrightarrow> ep_reach (ep_open k nonblocking sys)"
| ep_reach_clone: "ep_reach sys \<Longrightarrow> i < length (sys_eps sys) \<Longrightarrow> ep_reach (ep_clone i sys)"
| ep_reach_close: "ep_reach sys \<Longrightarrow> i < length (sys_eps sys) \<Longrightarrow> ep_reach (ep_close i sys)"
| ep_reach_io: "ep_reach sys \<Longrightarrow> is_io opr \<Longrightarrow>
    ep_reach (sys\<lparr>sys_pipe := fst (pipe_op_step opr (sys_pipe sys))\<rparr>)"
| ep_reach_direct: "ep_reach sys \<Longrightarrow> ep_reach (set_direct i v sys)"
| ep_reach_nonblocking: "ep_reach sys \<Longrightarrow> ep_reach (set_nonblocking i v sys)"

lemma set_flag_inv:
  "ep_inv (set_direct i v sys) = ep_inv sys" "open_flags_ok (set_direct i v sys) = open_flags_ok sys"
  "ep_inv (set_nonblocking i v sys) = ep_inv sys"
  "open_flags_ok (set_nonblocking i v sys) = open_flags_ok sys"
  by (simp_all add: set_direct_def set_nonblocking_def Let_def ep_inv_def open_flags_ok_def
      open_eps_def)

lemma consume_refs:
  "read_refs (consume n s) = read_refs s" "write_refs (consume n s) = write_refs s"
  "read_open (consume n s) = read_open s" "write_open (consume n s) = write_open s"
  by (simp_all add: consume_def Let_def)

lemma io_keeps_refs:
  assumes "is_io opr"
  shows "read_refs (fst (pipe_op_step opr s)) = read_refs s"
    "write_refs (fst (pipe_op_step opr s)) = write_refs s"
    "read_open (fst (pipe_op_step opr s)) = read_open s"
    "write_open (fst (pipe_op_step opr s)) = write_open s"
  using assms
  by (cases opr; auto simp: pipe_try_read_def pipe_try_write_mode_def try_acquire_lease_def
      lease_finish_def lease_drop_def pipe_set_capacity_def read_into_def write_from_def
      begin_read_def finish_read_def cancel_read_def consume_refs Let_def
      split: option.splits sum.splits prod.splits if_splits)+

lemma pipe_op_step_inv:
  assumes "pipe_inv s"
  shows "pipe_inv (fst (pipe_op_step opr s))"
proof -
  have tri: "x = (fst x, fst (snd x), snd (snd x))" for x :: "'a \<times> 'b \<times> 'c" by simp
  show ?thesis
    using pipe_ops_inv(1) [OF assms tri] pipe_ops_inv(2) [OF assms tri]
      pipe_ops_inv(3) [OF assms tri] pipe_ops_inv(4) [OF assms surjective_pairing]
      pipe_ops_inv(5) [OF assms tri] pipe_ops_inv(6) [OF assms tri] pipe_ops_inv(7) [OF assms tri]
      pipe_ops_inv(8) [OF assms tri] pipe_ops_inv(9) [OF assms tri] pipe_ops_inv(10) [OF assms tri]
    by (cases opr) simp_all
qed

lemma ep_pair_inv:
  assumes "ep_pair nonblocking = Inr sys"
  shows "ep_inv sys \<and> open_flags_ok sys"
proof -
  from assms obtain p where p: "pipe_with_open_state default_pipe_capacity True = Inr p"
    and sys: "sys = ep_open WriteEnd nonblocking
         (ep_open ReadEnd nonblocking \<lparr>sys_pipe = p, sys_flags = [], sys_eps = []\<rparr>)"
    by (auto simp: ep_pair_def pipe_with_capacity_def res_bind_def split: sum.splits)
  let ?s0 = "\<lparr>sys_pipe = p, sys_flags = [], sys_eps = []\<rparr>"
  have "ep_inv ?s0" and refs: "read_refs p = 0" "write_refs p = 0"
    using pipe_inv_new [OF p] p
    by (auto simp: ep_inv_def open_eps_def pipe_with_open_state_def split: if_splits)
  from ep_open_inv(1) [OF ep_open_inv(1) [OF this(1)]] have "ep_inv sys" by (simp add: sys)
  moreover have "open_flags_ok sys"
    using refs by (simp add: sys open_flags_ok_def ep_open_def acquire_kind_refs)
  ultimately show ?thesis by blast
qed

lemma ep_reach_inv: "ep_reach sys \<Longrightarrow> ep_inv sys \<and> open_flags_ok sys"
proof (induction rule: ep_reach.induct)
  case (ep_reach_pair nonblocking direct sys)
  then show ?case
    using ep_pair_inv [of nonblocking]
    by (auto simp: ep_pair_with_flags_def res_bind_def set_flag_inv split: sum.splits)
next
  case (ep_reach_named sys)
  then obtain p where p: "pipe_with_open_state default_pipe_capacity False = Inr p"
    and sys: "sys = \<lparr>sys_pipe = p, sys_flags = [], sys_eps = []\<rparr>"
    by (auto simp: named_pipe_def split: sum.splits)
  show ?case
    using pipe_inv_new [OF p] p
    by (auto simp: sys ep_inv_def open_eps_def open_flags_ok_def pipe_with_open_state_def
        split: if_splits)
next
  case (ep_reach_open sys k nonblocking)
  then show ?case using ep_open_inv by blast
next
  case (ep_reach_clone sys i)
  then show ?case using ep_clone_inv by blast
next
  case (ep_reach_close sys i)
  then show ?case unfolding ep_close_def using release_once_inv by blast
next
  case (ep_reach_io sys opr)
  then show ?case
    using io_keeps_refs [OF ep_reach_io(2), of "sys_pipe sys"]
      pipe_op_step_inv [of "sys_pipe sys" opr]
    by (simp add: ep_inv_def open_flags_ok_def open_eps_def)
qed (simp_all add: set_flag_inv)

lemma write_never_broken_loop_free:
  assumes "input \<noteq> []" "pipe_try_write_mode mem input d p = (r, p', w)"
  shows "r = Inl BrokenPipe \<longleftrightarrow> \<not> read_open p"
  using assms by (auto simp: pipe_try_write_mode_def write_from_def Let_def
      split: if_splits prod.splits sum.splits)

lemma try_read_eof:
  assumes "pipe_inv p" "0 < k" "pipe_try_read k p = (r, p', w)"
  shows "r = Inr [] \<longleftrightarrow> pbuf p = [] \<and> reservation p = None \<and> \<not> write_open p"
proof (cases "pbuf p = [] \<or> reservation p \<noteq> None")
  case True
  with assms show ?thesis
    by (cases "reservation p"; cases "write_open p") (auto simp: pipe_try_read_def pipe_empty_def)
next
  case False
  with assms obtain bs where "read_into k p = (bs, p')" "r = Inr bs"
    by (auto simp: pipe_try_read_def pipe_empty_def split: prod.splits)
  with False read_into_messages(2) [OF assms(1) _ assms(2) this(1)] show ?thesis by auto
qed

lemma ep_close_twice: "i < length (sys_eps sys) \<Longrightarrow> ep_close i (ep_close i sys) = ep_close i sys"
  by (simp add: ep_close_def release_once_def Let_def)

text \<open>
  C13. In every reachable endpoint system the reference counts of the pipe are the numbers of
  open endpoints of each direction and its open flags say whether there is one. Closing an
  endpoint, whether it is open or not, twice is closing it once, and closing a closed one changes
  nothing; a closed endpoint refuses to read and to write. A non-blocking read of at least one
  byte through an open read end reports end of file exactly when the pipe is empty, no lease is
  outstanding and no write end is open; a non-blocking write of at least one byte through an open
  write end fails with \<open>BrokenPipe\<close> exactly when no read end is open.
\<close>

theorem pipe_endpoint_lifecycle:
  assumes "ep_reach sys"
  shows "read_refs (sys_pipe sys) = length (open_eps ReadEnd sys) \<and>
    write_refs (sys_pipe sys) = length (open_eps WriteEnd sys) \<and>
    (read_open (sys_pipe sys) \<longleftrightarrow> open_eps ReadEnd sys \<noteq> []) \<and>
    (write_open (sys_pipe sys) \<longleftrightarrow> open_eps WriteEnd sys \<noteq> []) \<and>
    (\<forall>i < length (sys_eps sys). ep_close i (ep_close i sys) = ep_close i sys \<and>
       (ep_closed (sys_eps sys ! i) \<longrightarrow> ep_close i sys = sys \<and>
          ep_read es i k sys = Some (Inl PipeClosed, sys) \<and>
          ep_write mem es i input sys = Some (Inl PipeClosed, sys))) \<and>
    (\<forall>i < length (sys_eps sys). \<not> ep_closed (sys_eps sys ! i) \<longrightarrow> ep_nonblocking i sys \<longrightarrow>
       (ep_kind (sys_eps sys ! i) = ReadEnd \<longrightarrow> 0 < k \<longrightarrow>
         ((\<exists>sys'. ep_read es i k sys = Some (Inr [], sys')) \<longleftrightarrow>
           pbuf (sys_pipe sys) = [] \<and> reservation (sys_pipe sys) = None \<and> open_eps WriteEnd sys = [])) \<and>
       (ep_kind (sys_eps sys ! i) = WriteEnd \<longrightarrow> input \<noteq> [] \<longrightarrow>
         ((\<exists>sys'. ep_write mem es i input sys = Some (Inl BrokenPipe, sys')) \<longleftrightarrow>
           open_eps ReadEnd sys = [])))"
proof -
  from ep_reach_inv [OF assms] have inv: "ep_inv sys" and fl: "open_flags_ok sys" by blast+
  then have refs: "read_refs (sys_pipe sys) = length (open_eps ReadEnd sys)"
    "write_refs (sys_pipe sys) = length (open_eps WriteEnd sys)"
    by (simp_all add: ep_inv_def)
  have flags: "read_open (sys_pipe sys) \<longleftrightarrow> open_eps ReadEnd sys \<noteq> []"
    "write_open (sys_pipe sys) \<longleftrightarrow> open_eps WriteEnd sys \<noteq> []"
    using fl refs by (auto simp: open_flags_ok_def)
  have closed: "ep_close i sys = sys" "ep_read es i k sys = Some (Inl PipeClosed, sys)"
    "ep_write mem es i input sys = Some (Inl PipeClosed, sys)" if "ep_closed (sys_eps sys ! i)" for i
    using that by (simp_all add: ep_close_def release_once_def ep_read_def ep_write_def ensure_open_def Let_def)
  have eof: "(\<exists>sys'. ep_read es i k sys = Some (Inr [], sys')) \<longleftrightarrow>
        pbuf (sys_pipe sys) = [] \<and> reservation (sys_pipe sys) = None \<and> open_eps WriteEnd sys = []"
    if "\<not> ep_closed (sys_eps sys ! i)" "ep_nonblocking i sys" "ep_kind (sys_eps sys ! i) = ReadEnd" "0 < k" for i
  proof -
    obtain r p w where r: "pipe_try_read k (sys_pipe sys) = (r, p, w)" by (metis surj_pair)
    then have "(\<exists>sys'. ep_read es i k sys = Some (Inr [], sys')) \<longleftrightarrow> r = Inr []"
      using that by (simp add: ep_read_def ensure_open_def)
    with try_read_eof [OF _ that(4) r] inv fl refs show ?thesis
      by (auto simp: ep_inv_def open_flags_ok_def)
  qed
  have broken: "(\<exists>sys'. ep_write mem es i input sys = Some (Inl BrokenPipe, sys')) \<longleftrightarrow>
        open_eps ReadEnd sys = []"
    if "\<not> ep_closed (sys_eps sys ! i)" "ep_nonblocking i sys" "ep_kind (sys_eps sys ! i) = WriteEnd" "input \<noteq> []" for i
  proof -
    obtain r p w where r: "pipe_try_write_mode mem input (ep_direct i sys) (sys_pipe sys) = (r, p, w)"
      by (metis surj_pair)
    then have "(\<exists>sys'. ep_write mem es i input sys = Some (Inl BrokenPipe, sys')) \<longleftrightarrow> r = Inl BrokenPipe"
      using that by (simp add: ep_write_def ensure_open_def)
    with write_never_broken_loop_free [OF that(4) r] fl refs show ?thesis
      by (auto simp: open_flags_ok_def)
  qed
  show ?thesis using refs flags closed eof broken ep_close_twice by blast
qed

theorem pipe_endpoint_lifecycle_witness:
  "\<exists>sys. ep_reach sys \<and> ep_nonblocking 0 sys \<and> open_eps WriteEnd sys = [] \<and>
     (\<exists>sys'. ep_read [] 0 5 sys = Some (Inr [], sys'))"
proof -
  obtain sys where sys: "ep_pair_with_flags True False = Inr sys"
    by (simp add: ep_pair_with_flags_def ep_pair_def pipe_with_capacity_def
        pipe_with_open_state_def default_pipe_capacity_def res_bind_def)
  then have e: "sys_eps sys = [\<lparr>ep_kind = ReadEnd, ep_flags = 0, ep_closed = False\<rparr>,
      \<lparr>ep_kind = WriteEnd, ep_flags = 1, ep_closed = False\<rparr>]"
    "sys_flags sys = [\<lparr>fl_nonblocking = True, fl_direct = False\<rparr>, \<lparr>fl_nonblocking = True, fl_direct = False\<rparr>]"
    "pbuf (sys_pipe sys) = []" "reservation (sys_pipe sys) = None"
    by (auto simp: ep_pair_with_flags_def ep_pair_def pipe_with_capacity_def
        pipe_with_open_state_def default_pipe_capacity_def res_bind_def ep_open_def set_direct_def
        acquire_kind_def acquire_read_def acquire_write_def)
  let ?sys = "ep_close 1 sys"
  have r: "ep_reach ?sys" by (rule ep_reach_close [OF ep_reach_pair [OF sys]]) (simp add: e)
  have c: "sys_eps ?sys = [\<lparr>ep_kind = ReadEnd, ep_flags = 0, ep_closed = False\<rparr>,
      \<lparr>ep_kind = WriteEnd, ep_flags = 1, ep_closed = True\<rparr>]" "sys_flags ?sys = sys_flags sys"
    "pbuf (sys_pipe ?sys) = []" "reservation (sys_pipe ?sys) = None"
    by (simp_all add: ep_close_def release_once_def e release_kind_def release_write_def Let_def)
  have n: "ep_nonblocking 0 ?sys" "open_eps WriteEnd ?sys = []" "0 < length (sys_eps ?sys)"
    "\<not> ep_closed (sys_eps ?sys ! 0)" "ep_kind (sys_eps ?sys ! 0) = ReadEnd"
    by (simp_all add: ep_nonblocking_def open_eps_def c [simplified] e)
  have "\<exists>sys'. ep_read [] 0 5 ?sys = Some (Inr [], sys')"
    using pipe_endpoint_lifecycle [where es = "[]" and k = 5, OF r, THEN conjunct2, THEN conjunct2, THEN conjunct2,
        THEN conjunct2, THEN conjunct2, rule_format, OF n(3,4,1), THEN conjunct1] n c(3,4) by simp
  with n(1,2) r show ?thesis by blast
qed

end
