(* ===== verification/Task_Types.thy ===== *)
theory Task_Types
  imports Prelude
begin

text \<open>
  The types tasks are described with (\<open>task-api/api-v0/src/\<close>): ids, states, wait targets
  and results, scheduling policies and runtime statistics.
\<close>

type_synonym task_id = nat

datatype sched_policy = Other | Fifo | Rr | Batch | Idle

datatype wait_target = WaitQueue nat | TaskExit task_id | ChildExit task_id | Manual

datatype wait_result = Woken | TimedOut | Interrupted

datatype task_state = Ready | Running | Blocking wait_target | Sleeping nat | Exited int

datatype task_kind = KindKernel | KindUser

record runtime_stats =
  schedule_count :: nat
  tick_count :: nat

definition zero_stats :: runtime_stats where
  "zero_stats = \<lparr>schedule_count = 0, tick_count = 0\<rparr>"

end
