(* ===== verification/Ready_Queues.thy ===== *)
theory Ready_Queues
  imports Task_Types Ordered_Map
begin

text \<open>
  The per-CPU ready queues of the scheduler
  (\<open>task-scheduler/scheduler-api/api-v0/src/{rr_queue,fifo_queue,cfs_queue}.rs\<close>). A real-time
  queue has one FIFO bucket per priority, the fair queue one per virtual runtime. What the
  scheduler relies on is the locale \<open>ready_queue\<close>: the FIFO list of waiting tasks under each
  key, an insertion at the end of one list, a removal from all lists, and a choice of the head
  of the best non-empty list. An index outside the buckets is a panic, the value \<open>None\<close>.
\<close>

section \<open>The interface\<close>

locale ready_queue =
  fixes wf :: "'q \<Rightarrow> bool"
    and content :: "'q \<Rightarrow> 'k \<Rightarrow> task_id list"
    and valid_key :: "'k \<Rightarrow> bool"
    and enq :: "task_id \<Rightarrow> 'k \<Rightarrow> 'q \<Rightarrow> 'q option"
    and deq :: "task_id \<Rightarrow> 'q \<Rightarrow> 'q"
    and pick :: "'q \<Rightarrow> task_id option \<times> 'q"
    and tasks :: "'q \<Rightarrow> nat"
    and prefers :: "'k \<Rightarrow> 'k \<Rightarrow> bool"
  assumes enq_valid: "wf q \<Longrightarrow> valid_key k \<Longrightarrow> tasks q < usize_max \<Longrightarrow>
      \<exists>q'. enq t k q = Some q' \<and> wf q' \<and> content q' = (content q)(k := content q k @ [t]) \<and>
        tasks q' = tasks q + 1"
    and enq_invalid: "\<not> valid_key k \<Longrightarrow> enq t k q = None"
    and deq_ok: "wf q \<Longrightarrow> wf (deq t q) \<and> content (deq t q) = (\<lambda>k. filter (\<lambda>i. i \<noteq> t) (content q k))"
    and tasks_zero: "wf q \<Longrightarrow> tasks q = 0 \<longleftrightarrow> (\<forall>k. content q k = [])"
    and pick_none: "wf q \<Longrightarrow> fst (pick q) = None \<longleftrightarrow> tasks q = 0"
    and pick_some: "wf q \<Longrightarrow> pick q = (Some t, q') \<Longrightarrow> wf q' \<and> tasks q = tasks q' + 1 \<and>
      (\<exists>k. content q k \<noteq> [] \<and> t = hd (content q k) \<and>
        content q' = (content q)(k := tl (content q k)) \<and>
        (\<forall>j. content q j \<noteq> [] \<longrightarrow> prefers k j))"
begin

definition waiting :: "'q \<Rightarrow> task_id set" where
  "waiting q = {t. \<exists>k. t \<in> set (content q k)}"

lemma waiting_enq: "wf q \<Longrightarrow> tasks q < usize_max \<Longrightarrow> enq t k q = Some q' \<Longrightarrow>
    waiting q' = insert t (waiting q) \<and> wf q'"
  using enq_valid [of q k t] enq_invalid [of k t q]
  by (cases "valid_key k") (auto simp: waiting_def split: if_splits)

lemma waiting_deq: "wf q \<Longrightarrow> waiting (deq t q) = waiting q - {t}"
  using deq_ok [of q t] by (auto simp: waiting_def)

lemma pick_works: "wf q \<Longrightarrow> tasks q \<noteq> 0 \<Longrightarrow> \<exists>t q'. pick q = (Some t, q')"
  using pick_none [of q] by (cases "pick q") auto

lemma pick_waiting:
  assumes "wf q" "pick q = (Some t, q')"
  shows "t \<in> waiting q" "waiting q \<subseteq> insert t (waiting q')" "waiting q' \<subseteq> waiting q"
proof -
  from pick_some [OF assms] obtain k where k: "content q k \<noteq> []" "t = hd (content q k)"
    "content q' = (content q)(k := tl (content q k))" by blast
  then obtain rest where c: "content q k = t # rest" by (cases "content q k") auto
  show "t \<in> waiting q" using c by (auto simp: waiting_def intro: exI [of _ k])
  show "waiting q \<subseteq> insert t (waiting q')"
  proof
    fix x
    assume "x \<in> waiting q"
    then obtain j where "x \<in> set (content q j)" by (auto simp: waiting_def)
    then show "x \<in> insert t (waiting q')"
      using k(3) c by (cases "j = k") (auto simp: waiting_def intro: exI [of _ j])
  qed
  show "waiting q' \<subseteq> waiting q"
    using k(3) c by (auto simp: waiting_def split: if_splits intro: exI [of _ k])
qed

lemma dequeued_not_picked:
  assumes "wf q" "pick (deq t q) = (Some u, q')"
  shows "u \<noteq> t"
  using pick_waiting(1) [OF _ assms(2)] deq_ok [OF assms(1)] waiting_deq [OF assms(1), of t] by blast

lemma pick_stays_wf: "wf q \<Longrightarrow> wf (snd (pick q)) \<or> fst (pick q) = None"
  using pick_some [of q] by (cases "pick q"; cases "fst (pick q)") auto

end

section \<open>Priority buckets\<close>

definition priority_min :: int where "priority_min = 1"
definition priority_max :: int where "priority_max = 99"

definition bucket_count :: nat where
  "bucket_count = nat (priority_max - priority_min + 1)"

text \<open>\<open>(priority - 1) as usize\<close>, with the bounds check of the array access.\<close>

definition bucket_index :: "int \<Rightarrow> nat option" where
  "bucket_index p = (if 1 \<le> p \<and> nat (p - 1) < bucket_count then Some (nat (p - 1)) else None)"

fun removed_count :: "task_id \<Rightarrow> task_id list list \<Rightarrow> nat" where
  "removed_count t [] = 0"
| "removed_count t (q # qs) =
     sat_add usize_max (length q - length (filter (\<lambda>i. i \<noteq> t) q)) (removed_count t qs)"

text \<open>The scan of the buckets from the highest one; the argument is the reversed list.\<close>

fun pop_first_nonempty :: "task_id list list \<Rightarrow> (task_id \<times> task_id list list) option" where
  "pop_first_nonempty [] = None"
| "pop_first_nonempty ((t # q) # qs) = Some (t, q # qs)"
| "pop_first_nonempty ([] # qs) =
     (case pop_first_nonempty qs of None \<Rightarrow> None | Some (t, qs') \<Rightarrow> Some (t, [] # qs'))"

text \<open>The bucket number of the first non-empty bucket of the reversed list, counted down.\<close>

fun highest_nonempty :: "task_id list list \<Rightarrow> int option" where
  "highest_nonempty [] = None"
| "highest_nonempty (q # qs) =
     (if q \<noteq> [] then Some (int (length qs) + 1) else highest_nonempty qs)"

record fifo_queue =
  fq_queues :: "task_id list list"
  fq_count :: nat

definition fifo_new :: fifo_queue where
  "fifo_new = \<lparr>fq_queues = replicate bucket_count [], fq_count = 0\<rparr>"

definition fifo_init :: "fifo_queue \<Rightarrow> fifo_queue" where
  "fifo_init q = q\<lparr>fq_queues := map (\<lambda>_. []) (fq_queues q), fq_count := 0\<rparr>"

definition fifo_enqueue :: "task_id \<Rightarrow> int \<Rightarrow> fifo_queue \<Rightarrow> fifo_queue option" where
  "fifo_enqueue t p q =
     (case bucket_index p of
        None \<Rightarrow> None
      | Some i \<Rightarrow> Some (q\<lparr>fq_queues := (fq_queues q)[i := fq_queues q ! i @ [t]],
          fq_count := sat_add usize_max (fq_count q) 1\<rparr>))"

definition fifo_dequeue :: "task_id \<Rightarrow> fifo_queue \<Rightarrow> fifo_queue" where
  "fifo_dequeue t q =
     (let removed = removed_count t (fq_queues q);
          q1 = q\<lparr>fq_queues := map (filter (\<lambda>i. i \<noteq> t)) (fq_queues q)\<rparr>
      in if removed \<noteq> 0 then q1\<lparr>fq_count := fq_count q - removed\<rparr> else q1)"

definition fifo_pick :: "fifo_queue \<Rightarrow> task_id option \<times> fifo_queue" where
  "fifo_pick q =
     (if fq_count q = 0 then (None, q)
      else case pop_first_nonempty (rev (fq_queues q)) of
          None \<Rightarrow> (None, q)
        | Some (t, qs) \<Rightarrow> (Some t, q\<lparr>fq_queues := rev qs, fq_count := fq_count q - 1\<rparr>))"

definition fifo_pick_at_priority :: "int \<Rightarrow> fifo_queue \<Rightarrow> (task_id option \<times> fifo_queue) option" where
  "fifo_pick_at_priority p q =
     (if fq_count q = 0 then Some (None, q)
      else case bucket_index p of
          None \<Rightarrow> None
        | Some i \<Rightarrow>
            (case fq_queues q ! i of
               [] \<Rightarrow> Some (None, q)
             | t # rest \<Rightarrow>
                 Some (Some t, q\<lparr>fq_queues := (fq_queues q)[i := rest], fq_count := fq_count q - 1\<rparr>)))"

definition fifo_front_at_priority :: "int \<Rightarrow> fifo_queue \<Rightarrow> task_id option option" where
  "fifo_front_at_priority p q =
     (case bucket_index p of
        None \<Rightarrow> None
      | Some i \<Rightarrow> Some (case fq_queues q ! i of [] \<Rightarrow> None | t # _ \<Rightarrow> Some t))"

definition fifo_highest_priority :: "fifo_queue \<Rightarrow> int option" where
  "fifo_highest_priority q =
     (if fq_count q = 0 then None else highest_nonempty (rev (fq_queues q)))"

record rr_queue =
  rq_queues :: "task_id list list"
  rq_ticks :: nat
  rq_count :: nat

definition rr_new :: rr_queue where
  "rr_new = \<lparr>rq_queues = replicate bucket_count [], rq_ticks = 0, rq_count = 0\<rparr>"

definition rr_init :: "rr_queue \<Rightarrow> rr_queue" where
  "rr_init q = q\<lparr>rq_queues := map (\<lambda>_. []) (rq_queues q), rq_ticks := 0, rq_count := 0\<rparr>"

definition rr_reset_tick :: "rr_queue \<Rightarrow> rr_queue" where
  "rr_reset_tick q = q\<lparr>rq_ticks := 0\<rparr>"

definition rr_enqueue :: "task_id \<Rightarrow> int \<Rightarrow> rr_queue \<Rightarrow> rr_queue option" where
  "rr_enqueue t p q =
     (case bucket_index p of
        None \<Rightarrow> None
      | Some i \<Rightarrow> Some (q\<lparr>rq_queues := (rq_queues q)[i := rq_queues q ! i @ [t]],
          rq_count := sat_add usize_max (rq_count q) 1\<rparr>))"

definition rr_dequeue :: "task_id \<Rightarrow> rr_queue \<Rightarrow> rr_queue" where
  "rr_dequeue t q =
     (let removed = removed_count t (rq_queues q);
          q1 = q\<lparr>rq_queues := map (filter (\<lambda>i. i \<noteq> t)) (rq_queues q)\<rparr>
      in if removed \<noteq> 0 then q1\<lparr>rq_count := rq_count q - removed\<rparr> else q1)"

definition rr_pick :: "rr_queue \<Rightarrow> task_id option \<times> rr_queue" where
  "rr_pick q =
     (if rq_count q = 0 then (None, q)
      else case pop_first_nonempty (rev (rq_queues q)) of
          None \<Rightarrow> (None, q)
        | Some (t, qs) \<Rightarrow> (Some t, q\<lparr>rq_queues := rev qs, rq_count := rq_count q - 1\<rparr>))"

definition rr_pick_at_priority :: "int \<Rightarrow> rr_queue \<Rightarrow> (task_id option \<times> rr_queue) option" where
  "rr_pick_at_priority p q =
     (if rq_count q = 0 then Some (None, q)
      else case bucket_index p of
          None \<Rightarrow> None
        | Some i \<Rightarrow>
            (case rq_queues q ! i of
               [] \<Rightarrow> Some (None, q)
             | t # rest \<Rightarrow>
                 Some (Some t, q\<lparr>rq_queues := (rq_queues q)[i := rest], rq_count := rq_count q - 1\<rparr>)))"

definition rr_front_at_priority :: "int \<Rightarrow> rr_queue \<Rightarrow> task_id option option" where
  "rr_front_at_priority p q =
     (case bucket_index p of
        None \<Rightarrow> None
      | Some i \<Rightarrow> Some (case rq_queues q ! i of [] \<Rightarrow> None | t # _ \<Rightarrow> Some t))"

definition rr_highest_priority :: "rr_queue \<Rightarrow> int option" where
  "rr_highest_priority q =
     (if rq_count q = 0 then None else highest_nonempty (rev (rq_queues q)))"

section \<open>Facts about the buckets\<close>

definition bucket_content :: "task_id list list \<Rightarrow> int \<Rightarrow> task_id list" where
  "bucket_content qs p = (case bucket_index p of None \<Rightarrow> [] | Some i \<Rightarrow> qs ! i)"

definition total_length :: "task_id list list \<Rightarrow> nat" where
  "total_length qs = sum_list (map length qs)"

definition buckets_ok :: "task_id list list \<Rightarrow> nat \<Rightarrow> bool" where
  "buckets_ok qs n \<longleftrightarrow> length qs = bucket_count \<and> n = total_length qs \<and> n \<le> usize_max"

lemma bucket_index_iff: "bucket_index p = Some i \<longleftrightarrow> p = int i + 1 \<and> i < bucket_count"
  by (auto simp: bucket_index_def)

lemma bucket_content_nth: "i < bucket_count \<Longrightarrow> bucket_content qs (int i + 1) = qs ! i"
  by (simp add: bucket_content_def bucket_index_def)

lemma bucket_content_eqI:
  assumes "\<And>i. i < bucket_count \<Longrightarrow> qs ! i = f (int i + 1)"
    and "\<And>p. bucket_index p = None \<Longrightarrow> f p = []"
  shows "bucket_content qs = f"
  using assms by (auto simp: fun_eq_iff bucket_content_def bucket_index_iff split: option.split)

lemma total_length_update:
  "i < length qs \<Longrightarrow> total_length (qs[i := q]) + length (qs ! i) = total_length qs + length q"
  by (induction qs arbitrary: i) (auto simp: total_length_def nth_Cons split: nat.splits)

lemma total_length_zero: "total_length qs = 0 \<longleftrightarrow> (\<forall>q \<in> set qs. q = [])"
  by (auto simp: total_length_def)

lemma removed_count_exact:
  "total_length qs \<le> usize_max \<Longrightarrow>
    removed_count t qs = total_length qs - total_length (map (filter (\<lambda>i. i \<noteq> t)) qs) \<and>
    total_length (map (filter (\<lambda>i. i \<noteq> t)) qs) \<le> total_length qs"
proof (induction qs)
  case (Cons q qs)
  with Cons show ?case
    by (auto simp: total_length_def sat_add_def intro!: add_mono)
qed (simp add: total_length_def)

lemma buckets_remove:
  assumes "buckets_ok qs n"
  shows "buckets_ok (map (filter (\<lambda>i. i \<noteq> t)) qs) (n - removed_count t qs)"
    "bucket_content (map (filter (\<lambda>i. i \<noteq> t)) qs) = (\<lambda>k. filter (\<lambda>i. i \<noteq> t) (bucket_content qs k))"
proof -
  from assms have b: "length qs = bucket_count" "n = total_length qs" "total_length qs \<le> usize_max"
    by (auto simp: buckets_ok_def)
  from removed_count_exact [OF b(3), of t] b
  show "buckets_ok (map (filter (\<lambda>i. i \<noteq> t)) qs) (n - removed_count t qs)"
    by (auto simp: buckets_ok_def)
  show "bucket_content (map (filter (\<lambda>i. i \<noteq> t)) qs) = (\<lambda>k. filter (\<lambda>i. i \<noteq> t) (bucket_content qs k))"
    by (rule bucket_content_eqI) (auto simp: b bucket_content_def bucket_index_def)
qed

lemma buckets_add:
  assumes "buckets_ok qs n" "n < usize_max" "i < bucket_count"
  shows "buckets_ok (qs[i := qs ! i @ [t]]) (n + 1)"
    "bucket_content (qs[i := qs ! i @ [t]]) =
       (bucket_content qs)(int i + 1 := bucket_content qs (int i + 1) @ [t])"
proof -
  from assms have b: "length qs = bucket_count" "n = total_length qs" by (auto simp: buckets_ok_def)
  from total_length_update [of i qs "qs ! i @ [t]"] b assms
  show "buckets_ok (qs[i := qs ! i @ [t]]) (n + 1)" by (simp add: buckets_ok_def)
  show "bucket_content (qs[i := qs ! i @ [t]]) =
       (bucket_content qs)(int i + 1 := bucket_content qs (int i + 1) @ [t])"
    by (rule bucket_content_eqI)
      (use assms(3) b in \<open>auto simp: bucket_content_nth nth_list_update bucket_content_def
        bucket_index_def\<close>)
qed

lemma buckets_pop:
  assumes "buckets_ok qs n" "i < bucket_count" "qs ! i = t # rest"
  shows "buckets_ok (qs[i := rest]) (n - 1)" "0 < n"
    "bucket_content (qs[i := rest]) = (bucket_content qs)(int i + 1 := rest)"
proof -
  from assms have b: "length qs = bucket_count" "n = total_length qs" by (auto simp: buckets_ok_def)
  from total_length_update [of i qs rest] b assms
  show "buckets_ok (qs[i := rest]) (n - 1)" "0 < n" by (auto simp: buckets_ok_def)
  show "bucket_content (qs[i := rest]) = (bucket_content qs)(int i + 1 := rest)"
    by (rule bucket_content_eqI)
      (use assms(2) b in \<open>auto simp: bucket_content_nth nth_list_update bucket_content_def
        bucket_index_def\<close>)
qed

lemma buckets_zero:
  assumes "buckets_ok qs n"
  shows "n = 0 \<longleftrightarrow> (\<forall>k. bucket_content qs k = [])"
proof
  from assms have b: "length qs = bucket_count" "n = total_length qs" by (auto simp: buckets_ok_def)
  show "\<forall>k. bucket_content qs k = []" if "n = 0"
    using that b total_length_zero [of qs]
    by (auto simp: bucket_content_def bucket_index_iff split: option.split)
  show "n = 0" if "\<forall>k. bucket_content qs k = []"
  proof -
    have "qs ! i = []" if "i < length qs" for i
      using \<open>\<forall>k. bucket_content qs k = []\<close> bucket_content_nth [of i qs] that b by metis
    then have "\<forall>q \<in> set qs. q = []" by (metis in_set_conv_nth)
    with b total_length_zero [of qs] show ?thesis by simp
  qed
qed

text \<open>The downward scans find the highest non-empty bucket.\<close>

lemma pop_first_nonempty_None: "pop_first_nonempty qs = None \<longleftrightarrow> (\<forall>q \<in> set qs. q = [])"
  by (induction qs rule: pop_first_nonempty.induct) (auto split: option.splits)

lemma pop_first_nonempty_Some:
  "pop_first_nonempty qs = Some (t, qs') \<Longrightarrow>
    \<exists>i rest. i < length qs \<and> qs ! i = t # rest \<and> qs' = qs[i := rest] \<and> (\<forall>j < i. qs ! j = [])"
proof (induction qs arbitrary: qs' rule: pop_first_nonempty.induct)
  case (2 u q qs)
  then show ?case by (intro exI [of _ 0] exI [of _ q]) auto
next
  case (3 qs)
  then obtain qs'' where qs'': "pop_first_nonempty qs = Some (t, qs'')" "qs' = [] # qs''"
    by (auto split: option.splits)
  from 3(1) [OF qs''(1)] obtain i rest where
    "i < length qs" "qs ! i = t # rest" "qs'' = qs[i := rest]" "\<forall>j < i. qs ! j = []" by blast
  with qs''(2) show ?case
    by (intro exI [of _ "Suc i"] exI [of _ rest]) (auto simp: nth_Cons split: nat.splits)
qed simp

lemma rev_scan:
  assumes "pop_first_nonempty (rev qs) = Some (t, qs')"
  shows "\<exists>i rest. i < length qs \<and> qs ! i = t # rest \<and> rev qs' = qs[i := rest] \<and>
    (\<forall>j. i < j \<longrightarrow> j < length qs \<longrightarrow> qs ! j = [])"
proof -
  from pop_first_nonempty_Some [OF assms] obtain i rest where
    i: "i < length qs" "rev qs ! i = t # rest" "qs' = (rev qs)[i := rest]"
      "\<forall>j < i. rev qs ! j = []" by auto
  let ?i = "length qs - Suc i"
  have "qs ! j = []" if "?i < j" "j < length qs" for j
  proof -
    have "length qs - Suc j < i" using that i(1) by simp
    with i(4) have "rev qs ! (length qs - Suc j) = []" by blast
    then show ?thesis using that by (simp add: rev_nth)
  qed
  moreover have "rev qs' = qs[?i := rest]" using i by (simp add: rev_update)
  moreover have "qs ! ?i = t # rest" using i by (simp add: rev_nth)
  ultimately show ?thesis using i(1) by (intro exI [of _ ?i] exI [of _ rest]) auto
qed

lemma highest_nonempty_None: "highest_nonempty qs = None \<longleftrightarrow> (\<forall>q \<in> set qs. q = [])"
  by (induction qs) auto

lemma highest_nonempty_Some:
  "highest_nonempty qs = Some p \<Longrightarrow>
    \<exists>i. i < length qs \<and> qs ! i \<noteq> [] \<and> p = int (length qs - i) \<and> (\<forall>j < i. qs ! j = [])"
proof (induction qs)
  case (Cons q qs)
  show ?case
  proof (cases "q = []")
    case True
    with Cons obtain i where "i < length qs" "qs ! i \<noteq> []" "p = int (length qs - i)"
      "\<forall>j < i. qs ! j = []" by auto
    with True show ?thesis
      by (intro exI [of _ "Suc i"]) (auto simp: nth_Cons split: nat.splits)
  next
    case False
    with Cons show ?thesis by (intro exI [of _ 0]) auto
  qed
qed simp

lemma buckets_highest:
  assumes "buckets_ok qs n"
  shows "highest_nonempty (rev qs) = Some p \<longleftrightarrow>
    bucket_content qs p \<noteq> [] \<and> (\<forall>j. bucket_content qs j \<noteq> [] \<longrightarrow> j \<le> p)" (is "_ \<longleftrightarrow> ?best p")
proof -
  from assms have b: "length qs = bucket_count" by (auto simp: buckets_ok_def)
  have some: "?best p" if h: "highest_nonempty (rev qs) = Some p" for p
  proof -
    from highest_nonempty_Some [OF h] obtain i where
      i: "i < length qs" "rev qs ! i \<noteq> []" "p = int (length qs - i)" "\<forall>j < i. rev qs ! j = []"
      by auto
    let ?i = "length qs - Suc i"
    have p: "p = int ?i + 1" using i by simp
    have "bucket_content qs p \<noteq> []"
      using i b unfolding p by (subst bucket_content_nth) (auto simp: rev_nth)
    moreover have "j \<le> p" if j: "bucket_content qs j \<noteq> []" for j
    proof -
      from j obtain m where m: "j = int m + 1" "m < length qs" "qs ! m \<noteq> []"
        by (auto simp: bucket_content_def bucket_index_iff b split: option.splits)
      have "\<not> length qs - Suc m < i" using i(4) m by (auto simp: rev_nth)
      with m p i(1) show ?thesis by simp
    qed
    ultimately show ?thesis by blast
  qed
  show ?thesis
  proof
    assume best: "?best p"
    then obtain m where "p = int m + 1" "m < length qs" "qs ! m \<noteq> []"
      by (auto simp: bucket_content_def bucket_index_iff b split: option.splits)
    then have "highest_nonempty (rev qs) \<noteq> None"
      by (auto simp: highest_nonempty_None)
    then obtain r where r: "highest_nonempty (rev qs) = Some r" by blast
    with some [OF r] best have "r = p" by (meson antisym)
    with r show "highest_nonempty (rev qs) = Some p" by simp
  qed (rule some)
qed

lemma buckets_scan:
  assumes ok: "buckets_ok qs n"
  shows "pop_first_nonempty (rev qs) = None \<longleftrightarrow> n = 0"
    and "pop_first_nonempty (rev qs) = Some (t, qs') \<Longrightarrow>
      buckets_ok (rev qs') (n - 1) \<and> 0 < n \<and>
      (\<exists>k. bucket_content qs k \<noteq> [] \<and> t = hd (bucket_content qs k) \<and>
        bucket_content (rev qs') = (bucket_content qs)(k := tl (bucket_content qs k)) \<and>
        (\<forall>j. bucket_content qs j \<noteq> [] \<longrightarrow> j \<le> k))"
proof -
  from ok have b: "length qs = bucket_count" "n = total_length qs" by (auto simp: buckets_ok_def)
  show "pop_first_nonempty (rev qs) = None \<longleftrightarrow> n = 0"
    by (simp add: pop_first_nonempty_None b total_length_zero)
  assume "pop_first_nonempty (rev qs) = Some (t, qs')"
  from rev_scan [OF this] obtain i rest where
    i: "i < length qs" "qs ! i = t # rest" "rev qs' = qs[i := rest]"
      "\<forall>j. i < j \<longrightarrow> j < length qs \<longrightarrow> qs ! j = []" by blast
  note pop = buckets_pop [OF ok i(1) [unfolded b(1)] i(2)]
  have c: "bucket_content qs (int i + 1) = t # rest" using i b by (simp add: bucket_content_nth)
  have best: "j \<le> int i + 1" if j: "bucket_content qs j \<noteq> []" for j
  proof -
    from j obtain m where "j = int m + 1" "m < length qs" "qs ! m \<noteq> []"
      by (auto simp: bucket_content_def bucket_index_iff b split: option.splits)
    with i(4) show ?thesis by (auto simp: not_less [symmetric])
  qed
  show "buckets_ok (rev qs') (n - 1) \<and> 0 < n \<and>
      (\<exists>k. bucket_content qs k \<noteq> [] \<and> t = hd (bucket_content qs k) \<and>
        bucket_content (rev qs') = (bucket_content qs)(k := tl (bucket_content qs k)) \<and>
        (\<forall>j. bucket_content qs j \<noteq> [] \<longrightarrow> j \<le> k))"
    unfolding i(3) using pop c best by (intro conjI exI [of _ "int i + 1"]) auto
qed

section \<open>The fair queue\<close>

record cfs_queue =
  cfs_tree :: "(nat, task_id list) omap"
  cfs_count :: nat

definition cfs_new :: cfs_queue where
  "cfs_new = \<lparr>cfs_tree = [], cfs_count = 0\<rparr>"

definition cfs_init :: "cfs_queue \<Rightarrow> cfs_queue" where
  "cfs_init q = q\<lparr>cfs_tree := [], cfs_count := 0\<rparr>"

definition cfs_enqueue :: "task_id \<Rightarrow> nat \<Rightarrow> cfs_queue \<Rightarrow> cfs_queue" where
  "cfs_enqueue t v q =
     (let entry = (case om_get (cfs_tree q) v of None \<Rightarrow> [] | Some ts \<Rightarrow> ts)
      in q\<lparr>cfs_tree := om_insert v (entry @ [t]) (cfs_tree q),
           cfs_count := sat_add usize_max (cfs_count q) 1\<rparr>)"

definition cfs_dequeue :: "task_id \<Rightarrow> cfs_queue \<Rightarrow> cfs_queue" where
  "cfs_dequeue t q =
     (let removed = sum_list (map (\<lambda>e. length (snd e) - length (filter (\<lambda>i. i \<noteq> t) (snd e))) (cfs_tree q));
          kept = filter (\<lambda>e. snd e \<noteq> [])
                   (map (\<lambda>e. (fst e, filter (\<lambda>i. i \<noteq> t) (snd e))) (cfs_tree q));
          q1 = q\<lparr>cfs_tree := kept\<rparr>
      in if removed \<noteq> 0 then q1\<lparr>cfs_count := cfs_count q - removed\<rparr> else q1)"

definition cfs_pick :: "cfs_queue \<Rightarrow> (task_id \<times> nat) option \<times> cfs_queue" where
  "cfs_pick q =
     (if cfs_count q = 0 then (None, q)
      else case om_least (\<lambda>_. True) (cfs_tree q) of
          None \<Rightarrow> (None, q)
        | Some (v, []) \<Rightarrow> (None, q)
        | Some (v, t # ts) \<Rightarrow>
            (Some (t, v),
             q\<lparr>cfs_tree := (if ts = [] then om_remove v (cfs_tree q)
                           else om_insert v ts (cfs_tree q)),
               cfs_count := cfs_count q - 1\<rparr>))"

definition cfs_front :: "cfs_queue \<Rightarrow> (task_id \<times> nat) option" where
  "cfs_front q =
     (case om_least (\<lambda>_. True) (cfs_tree q) of
        None \<Rightarrow> None
      | Some (v, ts) \<Rightarrow> (case ts of [] \<Rightarrow> None | t # _ \<Rightarrow> Some (t, v)))"

definition min_ready_vruntime :: "cfs_queue \<Rightarrow> nat option" where
  "min_ready_vruntime q = map_option fst (om_least (\<lambda>_. True) (cfs_tree q))"

definition cfs_content :: "cfs_queue \<Rightarrow> nat \<Rightarrow> task_id list" where
  "cfs_content q v = (case om_get (cfs_tree q) v of None \<Rightarrow> [] | Some ts \<Rightarrow> ts)"

definition tree_total :: "(nat, task_id list) omap \<Rightarrow> nat" where
  "tree_total m = sum_list (map (\<lambda>e. length (snd e)) m)"

definition cfs_ok :: "cfs_queue \<Rightarrow> bool" where
  "cfs_ok q \<longleftrightarrow> om_ok (cfs_tree q) \<and> (\<forall>k ts. om_get (cfs_tree q) k = Some ts \<longrightarrow> ts \<noteq> []) \<and>
     cfs_count q = tree_total (cfs_tree q) \<and> cfs_count q \<le> usize_max"

lemma tree_total_split:
  assumes "om_ok m"
  shows "tree_total m = tree_total (om_remove k m) +
    (case om_get m k of None \<Rightarrow> 0 | Some ts \<Rightarrow> length ts)"
  using assms
proof (induction m)
  case Nil
  then show ?case by (simp add: tree_total_def om_remove_def om_get_def)
next
  case (Cons e m)
  show ?case
  proof (cases "fst e = k")
    case True
    have "\<forall>e' \<in> set m. fst e' \<noteq> k" using Cons.prems True by (auto simp: om_ok_Cons)
    then have "filter (\<lambda>e'. fst e' \<noteq> k) m = m" by (simp add: filter_id_conv)
    with True show ?thesis by (cases e) (simp add: tree_total_def om_remove_def om_get_def)
  next
    case False
    have "om_ok m" using Cons.prems by (simp add: om_ok_Cons)
    with Cons.IH False show ?thesis
      by (cases e) (simp add: tree_total_def om_remove_def om_get_def)
  qed
qed

lemma tree_total_insert:
  assumes "om_ok m"
  shows "tree_total (om_insert k ts m) = tree_total (om_remove k m) + length ts"
proof -
  have "om_remove k (om_insert k ts m) = om_remove k m"
  proof -
    have "filter (\<lambda>e. fst e < k) m @ filter (\<lambda>e. k < fst e) m = filter (\<lambda>e. fst e \<noteq> k) m"
      using assms
    proof (induction m)
      case (Cons e m)
      then have IH: "filter (\<lambda>e. fst e < k) m @ filter (\<lambda>e. k < fst e) m = filter (\<lambda>e. fst e \<noteq> k) m"
        by (simp add: om_ok_Cons)
      have "filter (\<lambda>e. fst e < k) m = []" if "k \<le> fst e"
        using Cons.prems that by (auto simp: om_ok_Cons filter_empty_conv)
      with IH show ?case by (cases "fst e" k rule: linorder_cases) auto
    qed simp
    moreover have "filter (\<lambda>e. fst e < k \<and> fst e \<noteq> k) m = filter (\<lambda>e. fst e < k) m"
      "filter (\<lambda>e. k < fst e \<and> fst e \<noteq> k) m = filter (\<lambda>e. k < fst e) m"
      by (rule filter_cong, simp, auto)+
    ultimately show ?thesis by (simp add: om_remove_def om_insert_def)
  qed
  with tree_total_split [OF om.wf_put [OF assms], of k ts k] show ?thesis
    by (simp add: om.get_put [OF assms])
qed

lemma om_least_eqI:
  assumes "om_ok m" "om_get m k = Some v" "\<And>j. om_get m j \<noteq> None \<Longrightarrow> k \<le> j"
  shows "om_least (\<lambda>_. True) m = Some (k, v)"
  using assms by (simp add: om.least_Some)

lemma cfs_new_ok: "cfs_ok cfs_new"
  by (simp add: cfs_ok_def cfs_new_def om_get_def tree_total_def)

lemma cfs_enqueue_ok:
  assumes "cfs_ok q" "cfs_count q < usize_max"
  shows "cfs_ok (cfs_enqueue t v q)" "cfs_count (cfs_enqueue t v q) = cfs_count q + 1"
    "cfs_content (cfs_enqueue t v q) = (cfs_content q)(v := cfs_content q v @ [t])"
proof -
  from assms have ok: "om_ok (cfs_tree q)" and c: "cfs_count q = tree_total (cfs_tree q)"
    by (simp_all add: cfs_ok_def)
  note get = om.get_put [OF ok]
  show n: "cfs_count (cfs_enqueue t v q) = cfs_count q + 1"
    using assms(2) by (simp add: cfs_enqueue_def Let_def sat_add_def)
  have "tree_total (cfs_tree (cfs_enqueue t v q)) = tree_total (cfs_tree q) + 1"
    using tree_total_split [OF ok, of v]
    by (auto simp: cfs_enqueue_def Let_def tree_total_insert [OF ok] split: option.split)
  then show "cfs_ok (cfs_enqueue t v q)"
    using assms n c
    by (auto simp: cfs_ok_def cfs_enqueue_def Let_def get om.wf_put [OF ok] split: if_splits)
  show "cfs_content (cfs_enqueue t v q) = (cfs_content q)(v := cfs_content q v @ [t])"
    by (auto simp: cfs_content_def cfs_enqueue_def Let_def get fun_eq_iff split: option.split)
qed

lemma cfs_dequeue_tree:
  fixes m :: "(nat, task_id list) omap" and t :: task_id
  assumes "om_ok m"
  defines "kept \<equiv> filter (\<lambda>e. snd e \<noteq> []) (map (\<lambda>e. (fst e, filter (\<lambda>i. i \<noteq> t) (snd e))) m)"
  shows "om_ok kept \<and> om_get kept = (\<lambda>k. case om_get m k of None \<Rightarrow> None
      | Some ts \<Rightarrow> if filter (\<lambda>i. i \<noteq> t) ts = [] then None else Some (filter (\<lambda>i. i \<noteq> t) ts)) \<and>
    tree_total m = tree_total kept +
      sum_list (map (\<lambda>e. length (snd e) - length (filter (\<lambda>i. i \<noteq> t) (snd e))) m)"
proof -
  let ?f = "\<lambda>e. (fst e, filter (\<lambda>i. i \<noteq> t) (snd e))"
  have okm: "om_ok (map ?f m)" using assms(1) by (simp add: om_ok_def comp_def)
  then have ok: "om_ok kept" unfolding kept_def by (rule om_ok_filter)
  have get: "om_get kept = (\<lambda>k. case om_get m k of None \<Rightarrow> None
      | Some ts \<Rightarrow> if filter (\<lambda>i. i \<noteq> t) ts = [] then None else Some (filter (\<lambda>i. i \<noteq> t) ts))"
  proof (rule om_get_eqI [OF ok])
    fix k ts
    have "(k, ts) \<in> set kept \<longleftrightarrow>
        (\<exists>us. om_get m k = Some us \<and> ts = filter (\<lambda>i. i \<noteq> t) us \<and> ts \<noteq> [])"
      unfolding kept_def om_get_iff [OF assms(1)] by force
    then show "(k, ts) \<in> set kept \<longleftrightarrow> (case om_get m k of None \<Rightarrow> None
      | Some ts \<Rightarrow> if filter (\<lambda>i. i \<noteq> t) ts = [] then None else Some (filter (\<lambda>i. i \<noteq> t) ts)) = Some ts"
      by (cases "om_get m k") auto
  qed
  have "tree_total m = tree_total kept +
      sum_list (map (\<lambda>e. length (snd e) - length (filter (\<lambda>i. i \<noteq> t) (snd e))) m)"
    unfolding kept_def tree_total_def
  proof (induction m)
    case (Cons e m)
    obtain d where "length (snd e) = length (filter (\<lambda>i. i \<noteq> t) (snd e)) + d"
      using length_filter_le le_Suc_ex by blast
    with Cons show ?case by auto
  qed simp
  with ok get show ?thesis by blast
qed

lemma cfs_dequeue_ok:
  assumes "cfs_ok q"
  shows "cfs_ok (cfs_dequeue t q)"
    "cfs_content (cfs_dequeue t q) = (\<lambda>k. filter (\<lambda>i. i \<noteq> t) (cfs_content q k))"
proof -
  from assms have ok: "om_ok (cfs_tree q)" and c: "cfs_count q = tree_total (cfs_tree q)"
    "cfs_count q \<le> usize_max" by (simp_all add: cfs_ok_def)
  note D = cfs_dequeue_tree [OF ok, of t]
  show "cfs_ok (cfs_dequeue t q)"
    using D c by (auto simp: cfs_ok_def cfs_dequeue_def Let_def split: option.splits if_splits)
  show "cfs_content (cfs_dequeue t q) = (\<lambda>k. filter (\<lambda>i. i \<noteq> t) (cfs_content q k))"
    using D by (auto simp: cfs_content_def cfs_dequeue_def Let_def fun_eq_iff split: option.splits)
qed

lemma cfs_zero:
  assumes "cfs_ok q"
  shows "cfs_count q = 0 \<longleftrightarrow> (\<forall>k. cfs_content q k = [])" "cfs_count q = 0 \<longleftrightarrow> cfs_tree q = []"
proof -
  from assms have ok: "om_ok (cfs_tree q)" and c: "cfs_count q = tree_total (cfs_tree q)"
    and ne: "\<And>k ts. om_get (cfs_tree q) k = Some ts \<Longrightarrow> ts \<noteq> []" by (simp_all add: cfs_ok_def)
  have ne': "snd e \<noteq> []" if "e \<in> set (cfs_tree q)" for e
    using that ne om_get_iff [OF ok, of "fst e" "snd e"] by simp
  show z: "cfs_count q = 0 \<longleftrightarrow> cfs_tree q = []"
    using ne' unfolding c tree_total_def by (cases "cfs_tree q") auto
  show "cfs_count q = 0 \<longleftrightarrow> (\<forall>k. cfs_content q k = [])"
  proof
    assume "cfs_count q = 0"
    then show "\<forall>k. cfs_content q k = []" using z by (simp add: cfs_content_def om_get_def)
  next
    assume all: "\<forall>k. cfs_content q k = []"
    have "cfs_tree q = []"
    proof (cases "cfs_tree q")
      case (Cons e m)
      then have "om_get (cfs_tree q) (fst e) = Some (snd e)" using om_get_iff [OF ok] by simp
      with all ne show ?thesis by (auto simp: cfs_content_def dest: spec [of _ "fst e"])
    qed
    with z show "cfs_count q = 0" by simp
  qed
qed

lemma cfs_pick_ok:
  assumes ok: "cfs_ok q"
  shows "fst (cfs_pick q) = None \<longleftrightarrow> cfs_count q = 0"
    and "cfs_pick q = (Some (t, v), q') \<Longrightarrow> cfs_ok q' \<and> cfs_count q = cfs_count q' + 1 \<and>
      cfs_content q v \<noteq> [] \<and> t = hd (cfs_content q v) \<and>
      cfs_content q' = (cfs_content q)(v := tl (cfs_content q v)) \<and>
      (\<forall>j. cfs_content q j \<noteq> [] \<longrightarrow> v \<le> j)"
proof -
  from ok have m: "om_ok (cfs_tree q)" and c: "cfs_count q = tree_total (cfs_tree q)"
    "cfs_count q \<le> usize_max"
    and ne: "\<And>k ts. om_get (cfs_tree q) k = Some ts \<Longrightarrow> ts \<noteq> []" by (simp_all add: cfs_ok_def)
  show "fst (cfs_pick q) = None \<longleftrightarrow> cfs_count q = 0"
  proof (cases "cfs_count q = 0")
    case False
    then obtain e es where "cfs_tree q = e # es" using cfs_zero(2) [OF ok] by (cases "cfs_tree q") auto
    then have "om_get (cfs_tree q) (fst e) = Some (snd e)" using om_get_iff [OF m] by simp
    then obtain v ts where l: "om_least (\<lambda>_. True) (cfs_tree q) = Some (v, ts)"
      using om.least_None [OF m, of "\<lambda>_. True"]
      by (cases "om_least (\<lambda>_. True) (cfs_tree q)") auto
    with om.least_get [OF m l] ne obtain t us where "ts = t # us" by (cases ts) auto
    with l False show ?thesis by (simp add: cfs_pick_def)
  qed (simp add: cfs_pick_def)
  assume p: "cfs_pick q = (Some (t, v), q')"
  then obtain ts where pos: "cfs_count q \<noteq> 0"
    and l: "om_least (\<lambda>_. True) (cfs_tree q) = Some (v, t # ts)"
    and q': "q' = q\<lparr>cfs_tree := (if ts = [] then om_remove v (cfs_tree q)
                           else om_insert v ts (cfs_tree q)), cfs_count := cfs_count q - 1\<rparr>"
    by (auto simp: cfs_pick_def split: if_splits option.splits list.splits)
  from om.least_get [OF m l] have g: "om_get (cfs_tree q) v = Some (t # ts)" by simp
  have tot: "tree_total (cfs_tree q') = tree_total (cfs_tree q) - 1"
    using tree_total_split [OF m, of v] g by (auto simp: q' tree_total_insert [OF m])
  have "cfs_ok q'"
    using ok c pos tot ne
    by (auto simp: cfs_ok_def q' om.wf_put [OF m] om.wf_del [OF m] om.get_put [OF m]
        om.get_del [OF m] split: if_splits)
  moreover have "cfs_content q' = (cfs_content q)(v := tl (cfs_content q v))"
    using g by (auto simp: cfs_content_def q' om.get_put [OF m] om.get_del [OF m] fun_eq_iff)
  moreover have "v \<le> j" if "cfs_content q j \<noteq> []" for j
    using that om.least_le [OF m l, of j] by (auto simp: cfs_content_def split: option.splits)
  ultimately show "cfs_ok q' \<and> cfs_count q = cfs_count q' + 1 \<and>
      cfs_content q v \<noteq> [] \<and> t = hd (cfs_content q v) \<and>
      cfs_content q' = (cfs_content q)(v := tl (cfs_content q v)) \<and>
      (\<forall>j. cfs_content q j \<noteq> [] \<longrightarrow> v \<le> j)"
    using pos g by (auto simp: q' cfs_content_def)
qed

lemma min_ready_spec:
  assumes ok: "cfs_ok q"
  shows "min_ready_vruntime q = Some v \<longleftrightarrow>
      cfs_content q v \<noteq> [] \<and> (\<forall>j. cfs_content q j \<noteq> [] \<longrightarrow> v \<le> j)"
    "min_ready_vruntime q = None \<longleftrightarrow> cfs_count q = 0"
proof -
  from ok have m: "om_ok (cfs_tree q)"
    and ne: "\<And>k ts. om_get (cfs_tree q) k = Some ts \<Longrightarrow> ts \<noteq> []" by (simp_all add: cfs_ok_def)
  have c: "cfs_content q k \<noteq> [] \<longleftrightarrow> om_get (cfs_tree q) k \<noteq> None" for k
    using ne by (auto simp: cfs_content_def split: option.splits)
  show "min_ready_vruntime q = Some v \<longleftrightarrow>
      cfs_content q v \<noteq> [] \<and> (\<forall>j. cfs_content q j \<noteq> [] \<longrightarrow> v \<le> j)"
    unfolding c by (auto simp: min_ready_vruntime_def om.least_Some [OF m])
  show "min_ready_vruntime q = None \<longleftrightarrow> cfs_count q = 0"
    unfolding cfs_zero(1) [OF ok] using c
    by (auto simp: min_ready_vruntime_def om.least_None [OF m])
qed

section \<open>The queues provide the interface\<close>

definition fifo_ok :: "fifo_queue \<Rightarrow> bool" where
  "fifo_ok q \<longleftrightarrow> buckets_ok (fq_queues q) (fq_count q)"

definition rr_ok :: "rr_queue \<Rightarrow> bool" where
  "rr_ok q \<longleftrightarrow> buckets_ok (rq_queues q) (rq_count q)"

definition valid_priority :: "int \<Rightarrow> bool" where
  "valid_priority p \<longleftrightarrow> 1 \<le> p \<and> p \<le> 99"

definition cfs_pick_task :: "cfs_queue \<Rightarrow> task_id option \<times> cfs_queue" where
  "cfs_pick_task q = (map_option fst (fst (cfs_pick q)), snd (cfs_pick q))"

lemma bucket_count_eq: "bucket_count = 99"
  by (simp add: bucket_count_def priority_max_def priority_min_def)

lemma valid_priority_index: "valid_priority p \<longleftrightarrow> (\<exists>i. i < bucket_count \<and> p = int i + 1)"
proof
  assume "valid_priority p"
  then have "nat (p - 1) < bucket_count \<and> p = int (nat (p - 1)) + 1"
    unfolding valid_priority_def bucket_count_eq by linarith
  then show "\<exists>i. i < bucket_count \<and> p = int i + 1" by blast
next
  assume "\<exists>i. i < bucket_count \<and> p = int i + 1"
  then obtain i where "i < 99" "p = int i + 1" unfolding bucket_count_eq by blast
  then show "valid_priority p" unfolding valid_priority_def by linarith
qed

lemma bucket_index_valid: "bucket_index p = None \<longleftrightarrow> \<not> valid_priority p"
proof -
  have "bucket_index p = None \<longleftrightarrow> \<not> (\<exists>i. bucket_index p = Some i)" by simp
  also have "\<dots> \<longleftrightarrow> \<not> (\<exists>i. i < bucket_count \<and> p = int i + 1)"
    unfolding bucket_index_iff by blast
  finally show ?thesis unfolding valid_priority_index .
qed

lemma buckets_new: "buckets_ok (replicate bucket_count []) 0"
  by (simp add: buckets_ok_def total_length_def)

lemma fifo_new_ok: "fifo_ok fifo_new" "rr_ok rr_new"
  using buckets_new by (simp_all add: fifo_ok_def fifo_new_def rr_ok_def rr_new_def)

interpretation fifo: ready_queue fifo_ok "\<lambda>q. bucket_content (fq_queues q)" valid_priority
  fifo_enqueue fifo_dequeue fifo_pick fq_count "(\<ge>)"
proof unfold_locales
  fix q k t
  assume "fifo_ok q" "valid_priority k" "fq_count q < usize_max"
  then show "\<exists>q'. fifo_enqueue t k q = Some q' \<and> fifo_ok q' \<and>
      bucket_content (fq_queues q') =
        (bucket_content (fq_queues q))(k := bucket_content (fq_queues q) k @ [t]) \<and>
      fq_count q' = fq_count q + 1"
    using buckets_add [of "fq_queues q" "fq_count q" "nat (k - 1)" t]
    by (auto simp: valid_priority_index fifo_ok_def fifo_enqueue_def bucket_index_def sat_add_def)
next
  fix q t
  assume "fifo_ok q"
  with buckets_remove [of "fq_queues q" "fq_count q" t]
  show "fifo_ok (fifo_dequeue t q) \<and> bucket_content (fq_queues (fifo_dequeue t q)) =
      (\<lambda>k. filter (\<lambda>i. i \<noteq> t) (bucket_content (fq_queues q) k))"
    by (auto simp: fifo_ok_def fifo_dequeue_def Let_def)
next
  fix q t q'
  assume "fifo_ok q" "fifo_pick q = (Some t, q')"
  with buckets_scan(2) [of "fq_queues q" "fq_count q" t]
  show "fifo_ok q' \<and> fq_count q = fq_count q' + 1 \<and>
      (\<exists>k. bucket_content (fq_queues q) k \<noteq> [] \<and> t = hd (bucket_content (fq_queues q) k) \<and>
        bucket_content (fq_queues q') =
          (bucket_content (fq_queues q))(k := tl (bucket_content (fq_queues q) k)) \<and>
        (\<forall>j. bucket_content (fq_queues q) j \<noteq> [] \<longrightarrow> j \<le> k))"
    by (auto simp: fifo_ok_def fifo_pick_def split: if_splits option.splits)
next
  fix q :: fifo_queue
  assume "fifo_ok q"
  with buckets_scan(1) [of "fq_queues q" "fq_count q"]
  show "fst (fifo_pick q) = None \<longleftrightarrow> fq_count q = 0"
    by (auto simp: fifo_ok_def fifo_pick_def split: option.splits)
next
  fix q :: fifo_queue
  assume "fifo_ok q"
  then show "fq_count q = 0 \<longleftrightarrow> (\<forall>k. bucket_content (fq_queues q) k = [])"
    unfolding fifo_ok_def by (rule buckets_zero)
qed (simp add: fifo_enqueue_def bucket_index_valid [symmetric])

interpretation rr: ready_queue rr_ok "\<lambda>q. bucket_content (rq_queues q)" valid_priority
  rr_enqueue rr_dequeue rr_pick rq_count "(\<ge>)"
proof unfold_locales
  fix q k t
  assume "rr_ok q" "valid_priority k" "rq_count q < usize_max"
  then show "\<exists>q'. rr_enqueue t k q = Some q' \<and> rr_ok q' \<and>
      bucket_content (rq_queues q') =
        (bucket_content (rq_queues q))(k := bucket_content (rq_queues q) k @ [t]) \<and>
      rq_count q' = rq_count q + 1"
    using buckets_add [of "rq_queues q" "rq_count q" "nat (k - 1)" t]
    by (auto simp: valid_priority_index rr_ok_def rr_enqueue_def bucket_index_def sat_add_def)
next
  fix q t
  assume "rr_ok q"
  with buckets_remove [of "rq_queues q" "rq_count q" t]
  show "rr_ok (rr_dequeue t q) \<and> bucket_content (rq_queues (rr_dequeue t q)) =
      (\<lambda>k. filter (\<lambda>i. i \<noteq> t) (bucket_content (rq_queues q) k))"
    by (auto simp: rr_ok_def rr_dequeue_def Let_def)
next
  fix q t q'
  assume "rr_ok q" "rr_pick q = (Some t, q')"
  with buckets_scan(2) [of "rq_queues q" "rq_count q" t]
  show "rr_ok q' \<and> rq_count q = rq_count q' + 1 \<and>
      (\<exists>k. bucket_content (rq_queues q) k \<noteq> [] \<and> t = hd (bucket_content (rq_queues q) k) \<and>
        bucket_content (rq_queues q') =
          (bucket_content (rq_queues q))(k := tl (bucket_content (rq_queues q) k)) \<and>
        (\<forall>j. bucket_content (rq_queues q) j \<noteq> [] \<longrightarrow> j \<le> k))"
    by (auto simp: rr_ok_def rr_pick_def split: if_splits option.splits)
next
  fix q :: rr_queue
  assume "rr_ok q"
  with buckets_scan(1) [of "rq_queues q" "rq_count q"]
  show "fst (rr_pick q) = None \<longleftrightarrow> rq_count q = 0"
    by (auto simp: rr_ok_def rr_pick_def split: option.splits)
next
  fix q :: rr_queue
  assume "rr_ok q"
  then show "rq_count q = 0 \<longleftrightarrow> (\<forall>k. bucket_content (rq_queues q) k = [])"
    unfolding rr_ok_def by (rule buckets_zero)
qed (simp add: rr_enqueue_def bucket_index_valid [symmetric])

interpretation cfs: ready_queue cfs_ok cfs_content "\<lambda>_. True"
  "\<lambda>t v q. Some (cfs_enqueue t v q)" cfs_dequeue cfs_pick_task cfs_count "(\<le>)"
proof unfold_locales
  fix q t q'
  assume ok: "cfs_ok q" and "cfs_pick_task q = (Some t, q')"
  then obtain v where "cfs_pick q = (Some (t, v), q')"
    by (cases "cfs_pick q") (auto simp: cfs_pick_task_def)
  from cfs_pick_ok(2) [OF ok this]
  show "cfs_ok q' \<and> cfs_count q = cfs_count q' + 1 \<and>
      (\<exists>k. cfs_content q k \<noteq> [] \<and> t = hd (cfs_content q k) \<and>
        cfs_content q' = (cfs_content q)(k := tl (cfs_content q k)) \<and>
        (\<forall>j. cfs_content q j \<noteq> [] \<longrightarrow> k \<le> j))" by blast
qed (auto simp: cfs_enqueue_ok cfs_dequeue_ok cfs_zero(1) cfs_pick_ok(1) cfs_pick_task_def)

end
