(* ===== verification/Cpu_Mask.thy ===== *)
theory Cpu_Mask
  imports Prelude "HOL-Library.Word"
begin

unbundle bit_operations_syntax

text \<open>
  Sets of logical CPUs (\<open>wateros-base/src/cpu.rs\<close>): a mask is a 64-bit word, parsed from
  and written to the little-endian bytes of a Linux \<open>cpu_set_t\<close>. \<open>insert\<close> and \<open>remove\<close> panic
  on a number the word cannot hold, the value \<open>None\<close>.
\<close>

type_synonym cpu_mask = "64 word"

definition mask_empty :: cpu_mask where "mask_empty = 0"

definition max_cpus_all :: "nat \<Rightarrow> cpu_mask" where
  "max_cpus_all max_cpus = (if max_cpus = 64 then - 1 else push_bit max_cpus 1 - 1)"

text \<open>The loop over the first eight bytes, from byte \<open>i\<close> on.\<close>

fun le_bits :: "nat \<Rightarrow> 8 word list \<Rightarrow> cpu_mask" where
  "le_bits i [] = 0"
| "le_bits i (b # bs) = (if 8 \<le> i then 0 else push_bit (i * 8) (ucast b) OR le_bits (i + 1) bs)"

definition try_from_le_bytes :: "8 word list \<Rightarrow> cpu_mask option" where
  "try_from_le_bytes bytes =
     (if 8 \<le> length bytes \<and> list_ex (\<lambda>b. b \<noteq> 0) (drop 8 bytes) then None
      else Some (le_bits 0 bytes))"

definition to_le_bytes :: "cpu_mask \<Rightarrow> 8 word list" where
  "to_le_bytes m = map (\<lambda>i. ucast (drop_bit (i * 8) m)) [0..<8]"

definition write_le_bytes :: "cpu_mask \<Rightarrow> nat \<Rightarrow> 8 word list" where
  "write_le_bytes m out_len =
     (let n = min out_len 8 in take n (to_le_bytes m) @ replicate (out_len - n) 0)"

definition mask_contains :: "cpu_mask \<Rightarrow> nat \<Rightarrow> bool" where
  "mask_contains m cpu \<longleftrightarrow> cpu < 64 \<and> m AND push_bit cpu 1 \<noteq> 0"

definition mask_insert :: "nat \<Rightarrow> cpu_mask \<Rightarrow> cpu_mask option" where
  "mask_insert cpu m = (if cpu < 64 then Some (m OR push_bit cpu 1) else None)"

definition mask_remove :: "nat \<Rightarrow> cpu_mask \<Rightarrow> cpu_mask option" where
  "mask_remove cpu m = (if cpu < 64 then Some (m AND NOT (push_bit cpu 1)) else None)"

definition mask_is_empty :: "cpu_mask \<Rightarrow> bool" where
  "mask_is_empty m \<longleftrightarrow> m = 0"

definition mask_count :: "cpu_mask \<Rightarrow> nat" where
  "mask_count m = length (filter (\<lambda>i. bit m i) [0..<64])"

section \<open>Membership\<close>

lemma bit_push_one: "bit ((2 :: 64 word) ^ n) i \<longleftrightarrow> i = n \<and> n < 64"
  by (auto simp: bit_exp_iff)

lemma mask_contains_bit: "mask_contains m cpu \<longleftrightarrow> bit m cpu"
proof
  assume "mask_contains m cpu"
  then have "cpu < 64" "m AND push_bit cpu 1 \<noteq> 0" by (simp_all add: mask_contains_def)
  then obtain i where "bit (m AND push_bit cpu 1) i" by (metis bit_eqI bit_0_eq bot_apply bot_bool_def)
  then have "bit (m AND 2 ^ cpu) i" by simp
  then show "bit m cpu" by (auto simp: bit_and_iff bit_push_one)
next
  assume b: "bit m cpu"
  then have c: "cpu < 64" using bit_imp_le_length by fastforce
  with b have "bit (m AND 2 ^ cpu) cpu" by (simp add: bit_and_iff bit_push_one)
  then have "m AND push_bit cpu 1 \<noteq> 0" by auto
  with c show "mask_contains m cpu" by (simp add: mask_contains_def)
qed

lemma mask_insert_contains:
  "mask_insert cpu m = Some m' \<Longrightarrow> mask_contains m' i \<longleftrightarrow> i = cpu \<or> mask_contains m i"
  by (auto simp: mask_insert_def mask_contains_bit bit_or_iff bit_push_one split: if_splits)

lemma mask_remove_contains:
  "mask_remove cpu m = Some m' \<Longrightarrow> mask_contains m' i \<longleftrightarrow> i \<noteq> cpu \<and> mask_contains m i"
  using bit_imp_le_length [of m i]
  by (auto simp: mask_remove_def mask_contains_bit bit_and_iff bit_not_iff bit_push_one split: if_splits)

lemma max_cpus_contains: "n \<le> 64 \<Longrightarrow> mask_contains (max_cpus_all n) i \<longleftrightarrow> i < n"
proof (cases "n = 64")
  case False
  assume "n \<le> 64"
  have e: "max_cpus_all n = mask n" using False by (simp add: max_cpus_all_def mask_eq_exp_minus_1)
  show ?thesis
    using \<open>n \<le> 64\<close> False by (auto simp: mask_contains_bit e bit_mask_iff)
qed (auto simp: mask_contains_bit max_cpus_all_def bit_minus_1_iff)

section \<open>The byte format\<close>

lemma bit_le_bits:
  "bit (le_bits i bs) n \<longleftrightarrow>
    n < 64 \<and> i * 8 \<le> n \<and> n div 8 - i < length bs \<and> bit (bs ! (n div 8 - i)) (n mod 8)"
proof (induction i bs rule: le_bits.induct)
  case (2 i b bs)
  show ?case
  proof (cases "8 \<le> i")
    case True
    then show ?thesis by auto
  next
    case False
    have ucast: "bit (ucast b :: 64 word) k \<longleftrightarrow> bit b k" for k
      using bit_imp_le_length [of b k] by (auto simp: bit_simps)
    have head: "bit (push_bit (i * 8) (ucast b) :: 64 word) n \<longleftrightarrow> n < 64 \<and> n div 8 = i \<and> bit b (n mod 8)"
    proof -
      have "bit (push_bit (i * 8) (ucast b) :: 64 word) n \<longleftrightarrow> i * 8 \<le> n \<and> n < 64 \<and> bit b (n - i * 8)"
        by (auto simp: bit_push_bit_iff ucast)
      also have "\<dots> \<longleftrightarrow> n < 64 \<and> n div 8 = i \<and> bit b (n mod 8)"
      proof
        assume a: "i * 8 \<le> n \<and> n < 64 \<and> bit b (n - i * 8)"
        then have "n - i * 8 < 8" using bit_imp_le_length [of b "n - i * 8"] by simp
        with a have "n div 8 = i" by linarith
        with a show "n < 64 \<and> n div 8 = i \<and> bit b (n mod 8)"
          by (auto simp: minus_mult_div_eq_mod [symmetric] mult.commute)
      next
        assume a: "n < 64 \<and> n div 8 = i \<and> bit b (n mod 8)"
        then show "i * 8 \<le> n \<and> n < 64 \<and> bit b (n - i * 8)"
          by (auto simp: minus_mult_div_eq_mod [symmetric] mult.commute)
      qed
      finally show ?thesis .
    qed
    show ?thesis
    proof (cases "n div 8" i rule: linorder_cases)
      case less
      then have "n < i * 8" by (simp add: div_less_iff_less_mult)
      then have "\<not> i * 8 \<le> n" "\<not> (i + 1) * 8 \<le> n" by simp_all
      with False less head 2 show ?thesis by (simp add: bit_or_iff)
    next
      case equal
      then have "i * 8 \<le> n" "\<not> (i + 1) * 8 \<le> n"
        using div_times_less_eq_dividend [of n 8] dividend_less_div_times [of 8 n] by simp_all
      with False equal head 2 show ?thesis by (auto simp: bit_or_iff)
    next
      case greater
      then have "(i + 1) * 8 \<le> n div 8 * 8" by simp
      then have c2: "(i + 1) * 8 \<le> n"
        using div_times_less_eq_dividend [of n 8] by (rule order_trans)
      then have c: "i * 8 \<le> n" "(i + 1) * 8 \<le> n" by simp_all
      obtain d where d: "n div 8 - i = Suc d" "n div 8 - (i + 1) = d"
        using greater by (metis Suc_diff_Suc Suc_eq_plus1 diff_Suc_eq_diff_pred diff_Suc_1)
      show ?thesis using False head 2 greater c d by (simp add: bit_or_iff)
    qed
  qed
qed simp

lemma length_to_le_bytes: "length (to_le_bytes m) = 8"
  by (simp add: to_le_bytes_def)

lemma bit_to_le_bytes: "i < 8 \<Longrightarrow> bit (to_le_bytes m ! i) k \<longleftrightarrow> k < 8 \<and> bit m (i * 8 + k)"
  by (auto simp: to_le_bytes_def bit_ucast_iff bit_drop_bit_eq add.commute)

text \<open>
  C14. The byte format of a CPU set round-trips: writing a mask into a buffer of at least
  eight bytes (the rest is zeroed) and parsing it gives the mask back; parsing fails exactly
  when a byte after the eighth is not zero, and otherwise the parsed set contains exactly the
  CPUs whose bit is set in the first eight bytes.
\<close>

theorem cpu_mask_bytes_roundtrip:
  "(8 \<le> out_len \<longrightarrow> try_from_le_bytes (write_le_bytes m out_len) = Some m) \<and>
   length (write_le_bytes m out_len) = out_len \<and>
   (try_from_le_bytes bytes = None \<longleftrightarrow> (\<exists>i. 8 \<le> i \<and> i < length bytes \<and> bytes ! i \<noteq> 0)) \<and>
   (\<forall>mask cpu. try_from_le_bytes bytes = Some mask \<longrightarrow>
     (mask_contains mask cpu \<longleftrightarrow>
       cpu < 64 \<and> cpu div 8 < length bytes \<and> bit (bytes ! (cpu div 8)) (cpu mod 8)))"
proof (intro conjI impI allI)
  show "length (write_le_bytes m out_len) = out_len"
    by (simp add: write_le_bytes_def length_to_le_bytes Let_def)
  show "try_from_le_bytes bytes = None \<longleftrightarrow> (\<exists>i. 8 \<le> i \<and> i < length bytes \<and> bytes ! i \<noteq> 0)"
  proof -
    have "list_ex (\<lambda>b. b \<noteq> 0) (drop 8 bytes) \<longleftrightarrow> (\<exists>j < length bytes - 8. bytes ! (8 + j) \<noteq> 0)"
      unfolding list_ex_iff Bex_def in_set_conv_nth by auto
    also have "\<dots> \<longleftrightarrow> (\<exists>i. 8 \<le> i \<and> i < length bytes \<and> bytes ! i \<noteq> 0)"
    proof
      assume "\<exists>j < length bytes - 8. bytes ! (8 + j) \<noteq> 0"
      then obtain j where "j < length bytes - 8" "bytes ! (8 + j) \<noteq> 0" by blast
      then show "\<exists>i. 8 \<le> i \<and> i < length bytes \<and> bytes ! i \<noteq> 0"
        by (intro exI [of _ "8 + j"]) auto
    next
      assume "\<exists>i. 8 \<le> i \<and> i < length bytes \<and> bytes ! i \<noteq> 0"
      then obtain i where "8 \<le> i" "i < length bytes" "bytes ! i \<noteq> 0" by blast
      then show "\<exists>j < length bytes - 8. bytes ! (8 + j) \<noteq> 0"
        by (intro exI [of _ "i - 8"]) auto
    qed
    finally show ?thesis by (auto simp: try_from_le_bytes_def)
  qed
  show "mask_contains mask cpu \<longleftrightarrow>
       cpu < 64 \<and> cpu div 8 < length bytes \<and> bit (bytes ! (cpu div 8)) (cpu mod 8)"
    if "try_from_le_bytes bytes = Some mask" for mask cpu
    using that by (auto simp: try_from_le_bytes_def mask_contains_bit bit_le_bits split: if_splits)
  assume n: "8 \<le> out_len"
  let ?bs = "write_le_bytes m out_len"
  have bs: "?bs = to_le_bytes m @ replicate (out_len - 8) 0"
    using n by (simp add: write_le_bytes_def length_to_le_bytes Let_def)
  have "\<not> list_ex (\<lambda>b. b \<noteq> 0) (drop 8 ?bs)"
    by (simp add: bs length_to_le_bytes list_ex_iff)
  then have "try_from_le_bytes ?bs = Some (le_bits 0 ?bs)" by (simp add: try_from_le_bytes_def)
  moreover have "le_bits 0 ?bs = m"
  proof (rule bit_eqI)
    fix k
    assume "possible_bit TYPE(64 word) k"
    then have k: "k < 64" by simp
    then have "k div 8 < 8" by linarith
    then have "?bs ! (k div 8) = to_le_bytes m ! (k div 8)" "k div 8 < length ?bs"
      by (simp_all add: bs nth_append length_to_le_bytes)
    then show "bit (le_bits 0 ?bs) k = bit m k"
      using k \<open>k div 8 < 8\<close> by (simp add: bit_le_bits bit_to_le_bytes)
  qed
  ultimately show "try_from_le_bytes ?bs = Some m" by simp
qed

theorem cpu_mask_bytes_roundtrip_witness:
  "try_from_le_bytes (write_le_bytes 5 16) = Some 5 \<and> try_from_le_bytes [1, 0, 0, 0, 0, 0, 0, 0, 1] = None"
proof -
  have "try_from_le_bytes [1, 0, 0, 0, 0, 0, 0, 0, 1] = None"
    using cpu_mask_bytes_roundtrip [of 16 5 "[1, 0, 0, 0, 0, 0, 0, 0, 1]"]
    by (auto intro!: exI [of _ 8])
  moreover have "try_from_le_bytes (write_le_bytes 5 16) = Some 5"
    using cpu_mask_bytes_roundtrip [of 16 5 "[]"] by simp
  ultimately show ?thesis by blast
qed

end
