(* ===== verification/Cpu_State.thy ===== *)
theory Cpu_State
  imports Ready_Queues Cpu_Mask
begin

text \<open>
  The per-CPU scheduler state (\<open>CPUState\<close> of
  \<open>task-scheduler/scheduler-api/api-v0/src/cpu.rs\<close>): the five ready queues, the cached
  snapshot of the running task, and the two virtual-runtime baselines. The architecture
  context of the boot stack and the fields of a task snapshot that no operation of this state
  reads are left out. A panic of the source is the value \<open>None\<close>.
\<close>

section \<open>State\<close>

record task_snapshot =
  snap_id :: task_id
  snap_parent :: "task_id option"
  snap_kind :: task_kind
  snap_state :: task_state
  snap_policy :: sched_policy
  snap_priority :: int
  snap_nice :: int
  snap_io_priority :: nat
  snap_vruntime :: nat
  snap_stats :: runtime_stats
  snap_ready_cpu :: "nat option"
  snap_running_cpu :: "nat option"
  snap_last_cpu :: "nat option"
  snap_affinity :: cpu_mask
  snap_aspace :: nat
  snap_task_cx :: nat

record cpu_state =
  cs_cpu_id :: nat
  boot_context_active :: bool
  idle_task_id :: "task_id option"
  online :: bool
  need_resched :: bool
  context_switches :: nat
  timer_ticks :: nat
  idle_ticks :: nat
  min_vruntime :: nat
  idle_min_vruntime :: nat
  cfs_q :: cfs_queue
  rr_q :: rr_queue
  fifo_q :: fifo_queue
  batch_q :: cfs_queue
  idle_q :: cfs_queue
  current_snapshot :: "task_snapshot option"
  current_ticks :: nat
  current_runtime_ticks :: nat
  deferred_ready :: "task_id option"

definition vruntime_scale :: nat where "vruntime_scale = 2 ^ 20"
definition nice_0_weight :: nat where "nice_0_weight = 1024"
definition max_ticks_per_task :: nat where "max_ticks_per_task = 50"
definition nice_min :: int where "nice_min = -20"

definition nice_to_weight :: "nat list" where
  "nice_to_weight =
    [88761, 71755, 56483, 46273, 36291,
     29154, 23254, 18705, 14949, 11916,
     9548, 7620, 6100, 4904, 3906,
     3121, 2501, 1991, 1586, 1277,
     1024, 820, 655, 526, 423,
     335, 272, 215, 172, 137,
     110, 87, 70, 56, 45,
     36, 29, 23, 18, 15]"

definition cpu_new :: "nat \<Rightarrow> cpu_state" where
  "cpu_new cpu =
     \<lparr>cs_cpu_id = cpu, boot_context_active = True, idle_task_id = None, online = False,
      need_resched = False, context_switches = 0, timer_ticks = 0, idle_ticks = 0,
      min_vruntime = 0, idle_min_vruntime = 0, cfs_q = cfs_new, rr_q = rr_new,
      fifo_q = fifo_new, batch_q = cfs_new, idle_q = cfs_new, current_snapshot = None,
      current_ticks = 0, current_runtime_ticks = 0, deferred_ready = None\<rparr>"

definition cpu_init :: "nat \<Rightarrow> cpu_state \<Rightarrow> cpu_state" where
  "cpu_init cpu s =
     \<lparr>cs_cpu_id = cpu, boot_context_active = True, idle_task_id = None, online = False,
      need_resched = False, context_switches = 0, timer_ticks = 0, idle_ticks = 0,
      min_vruntime = 0, idle_min_vruntime = 0, cfs_q = cfs_init (cfs_q s), rr_q = rr_init (rr_q s),
      fifo_q = fifo_init (fifo_q s), batch_q = cfs_init (batch_q s), idle_q = cfs_init (idle_q s),
      current_snapshot = None, current_ticks = 0, current_runtime_ticks = 0, deferred_ready = None\<rparr>"

section \<open>The current task\<close>

definition is_cfs_policy :: "sched_policy \<Rightarrow> bool" where
  "is_cfs_policy p \<longleftrightarrow> p \<in> {Other, Batch, Idle}"

definition normalize_vruntime :: "nat \<Rightarrow> sched_policy \<Rightarrow> cpu_state \<Rightarrow> nat option" where
  "normalize_vruntime v p s =
     (case p of
        Other \<Rightarrow> Some (max v (min_vruntime s))
      | Batch \<Rightarrow> Some (max v (min_vruntime s))
      | Idle \<Rightarrow> Some (max v (idle_min_vruntime s))
      | _ \<Rightarrow> None)"

definition current_policy :: "cpu_state \<Rightarrow> sched_policy" where
  "current_policy s = (case current_snapshot s of None \<Rightarrow> Other | Some t \<Rightarrow> snap_policy t)"

definition current_priority :: "cpu_state \<Rightarrow> int" where
  "current_priority s = (case current_snapshot s of None \<Rightarrow> priority_min | Some t \<Rightarrow> snap_priority t)"

definition current_vruntime :: "cpu_state \<Rightarrow> nat" where
  "current_vruntime s = (case current_snapshot s of None \<Rightarrow> 0 | Some t \<Rightarrow> snap_vruntime t)"

definition current_nice :: "cpu_state \<Rightarrow> int" where
  "current_nice s = (case current_snapshot s of None \<Rightarrow> nice_min | Some t \<Rightarrow> snap_nice t)"

definition current_affinity :: "cpu_state \<Rightarrow> cpu_mask" where
  "current_affinity s = (case current_snapshot s of None \<Rightarrow> mask_empty | Some t \<Rightarrow> snap_affinity t)"

definition current_task_cx :: "cpu_state \<Rightarrow> nat" where
  "current_task_cx s = (case current_snapshot s of None \<Rightarrow> 0 | Some t \<Rightarrow> snap_task_cx t)"

definition current_aspace :: "cpu_state \<Rightarrow> nat" where
  "current_aspace s = (case current_snapshot s of None \<Rightarrow> 0 | Some t \<Rightarrow> snap_aspace t)"

definition current_task_id :: "cpu_state \<Rightarrow> task_id option" where
  "current_task_id s = map_option snap_id (current_snapshot s)"

definition is_current_idle :: "cpu_state \<Rightarrow> bool" where
  "is_current_idle s \<longleftrightarrow> current_task_id s = idle_task_id s"

definition set_current_nice :: "int \<Rightarrow> cpu_state \<Rightarrow> cpu_state" where
  "set_current_nice n s =
     s\<lparr>current_snapshot := map_option (\<lambda>t. t\<lparr>snap_nice := n\<rparr>) (current_snapshot s)\<rparr>"

definition set_current_aspace :: "nat \<Rightarrow> cpu_state \<Rightarrow> cpu_state" where
  "set_current_aspace a s =
     s\<lparr>current_snapshot := map_option (\<lambda>t. t\<lparr>snap_aspace := a\<rparr>) (current_snapshot s)\<rparr>"

definition set_current_task_id :: "task_id \<Rightarrow> cpu_state \<Rightarrow> cpu_state" where
  "set_current_task_id i s =
     s\<lparr>current_snapshot := map_option (\<lambda>t. t\<lparr>snap_id := i\<rparr>) (current_snapshot s)\<rparr>"

definition leave_boot_context :: "cpu_state \<Rightarrow> cpu_state" where
  "leave_boot_context s = s\<lparr>boot_context_active := False\<rparr>"

definition set_online :: "bool \<Rightarrow> cpu_state \<Rightarrow> cpu_state" where
  "set_online b s = s\<lparr>online := b\<rparr>"

definition set_idle_task_id :: "task_id \<Rightarrow> cpu_state \<Rightarrow> cpu_state" where
  "set_idle_task_id t s = s\<lparr>idle_task_id := Some t\<rparr>"

definition advance_current_vruntime :: "nat \<Rightarrow> cpu_state \<Rightarrow> cpu_state" where
  "advance_current_vruntime d s =
     s\<lparr>current_snapshot :=
        map_option (\<lambda>t. t\<lparr>snap_vruntime := sat_add u64_max (snap_vruntime t) d\<rparr>) (current_snapshot s)\<rparr>"

section \<open>Baselines and ticks\<close>

definition min_option :: "nat option \<Rightarrow> nat option \<Rightarrow> nat option" where
  "min_option a b =
     (case (a, b) of
        (None, r) \<Rightarrow> r
      | (Some x, None) \<Rightarrow> Some x
      | (Some x, Some y) \<Rightarrow> Some (min x y))"

definition max_option :: "int option \<Rightarrow> int option \<Rightarrow> int option" where
  "max_option a b =
     (case (a, b) of
        (None, r) \<Rightarrow> r
      | (Some x, None) \<Rightarrow> Some x
      | (Some x, Some y) \<Rightarrow> Some (max x y))"

definition min_ready_fair :: "cpu_state \<Rightarrow> nat option" where
  "min_ready_fair s = min_option (min_ready_vruntime (cfs_q s)) (min_ready_vruntime (batch_q s))"

definition min_ready_idle :: "cpu_state \<Rightarrow> nat option" where
  "min_ready_idle s = min_ready_vruntime (idle_q s)"

definition update_min_vruntime :: "cpu_state \<Rightarrow> cpu_state" where
  "update_min_vruntime s =
     (let candidate = min_ready_fair s;
          candidate = (if \<not> is_current_idle s \<and> current_policy s \<in> {Other, Batch}
            then Some (case candidate of None \<Rightarrow> current_vruntime s
                       | Some ready \<Rightarrow> min ready (current_vruntime s))
            else candidate)
      in case candidate of
           None \<Rightarrow> s
         | Some c \<Rightarrow> s\<lparr>min_vruntime := max (min_vruntime s) c\<rparr>)"

definition update_idle_min_vruntime :: "cpu_state \<Rightarrow> cpu_state" where
  "update_idle_min_vruntime s =
     (let candidate = min_ready_idle s;
          candidate = (if \<not> is_current_idle s \<and> current_policy s = Idle
            then Some (case candidate of None \<Rightarrow> current_vruntime s
                       | Some ready \<Rightarrow> min ready (current_vruntime s))
            else candidate)
      in case candidate of
           None \<Rightarrow> s
         | Some c \<Rightarrow> s\<lparr>idle_min_vruntime := max (idle_min_vruntime s) c\<rparr>)"

definition prepare_yield :: "cpu_state \<Rightarrow> cpu_state" where
  "prepare_yield s =
     (case (case current_policy s of
              Other \<Rightarrow> min_ready_fair s
            | Batch \<Rightarrow> min_ready_fair s
            | Idle \<Rightarrow> min_ready_idle s
            | Fifo \<Rightarrow> None
            | Rr \<Rightarrow> None) of
        None \<Rightarrow> s
      | Some ready \<Rightarrow>
          s\<lparr>current_snapshot :=
             map_option (\<lambda>t. t\<lparr>snap_vruntime := max (snap_vruntime t) (sat_add u64_max ready 1)\<rparr>)
               (current_snapshot s)\<rparr>)"

text \<open>\<open>NICE_TO_WEIGHT[(nice + 20) as usize]\<close> and the virtual runtime of one tick.\<close>

definition nice_weight :: "int \<Rightarrow> nat option" where
  "nice_weight n =
     (if 0 \<le> n + 20 \<and> nat (n + 20) < length nice_to_weight
      then Some (nice_to_weight ! nat (n + 20)) else None)"

definition tick_delta :: "nat \<Rightarrow> nat" where
  "tick_delta weight = max (min u64_max (nice_0_weight * vruntime_scale) div weight) 1"

definition cpu_tick :: "cpu_state \<Rightarrow> cpu_state option" where
  "cpu_tick s =
     (let s1 = s\<lparr>timer_ticks := sat_add u64_max (timer_ticks s) 1\<rparr>;
          s2 = (if is_current_idle s1 then s1\<lparr>idle_ticks := sat_add u64_max (idle_ticks s1) 1\<rparr> else s1);
          s3 = s2\<lparr>current_runtime_ticks := sat_add u64_max (current_runtime_ticks s2) 1\<rparr>
      in case current_policy s3 of
           Other \<Rightarrow>
             if is_current_idle s3 then Some s3
             else map_option (\<lambda>w. update_min_vruntime (advance_current_vruntime (tick_delta w) s3))
                    (nice_weight (current_nice s3))
         | Batch \<Rightarrow>
             if is_current_idle s3 then Some s3
             else map_option (\<lambda>w. update_min_vruntime (advance_current_vruntime (tick_delta w) s3))
                    (nice_weight (current_nice s3))
         | Idle \<Rightarrow>
             if is_current_idle s3 then Some s3
             else map_option (\<lambda>w. update_idle_min_vruntime (advance_current_vruntime (tick_delta w) s3))
                    (nice_weight (current_nice s3))
         | Rr \<Rightarrow> Some (s3\<lparr>current_ticks := sat_add u64_max (current_ticks s3) 1\<rparr>)
         | Fifo \<Rightarrow> Some s3)"

section \<open>Choosing and placing tasks\<close>

definition highest_priority :: "cpu_state \<Rightarrow> int option" where
  "highest_priority s =
     max_option (fifo_highest_priority (fifo_q s)) (rr_highest_priority (rr_q s))"

datatype resched_cause = CauseTick | CauseReady sched_policy | CauseForced

definition some_less :: "nat option \<Rightarrow> nat \<Rightarrow> bool" where
  "some_less m v \<longleftrightarrow> (case m of None \<Rightarrow> False | Some x \<Rightarrow> v > x)"

definition some_above :: "int option \<Rightarrow> int \<Rightarrow> bool" where
  "some_above m p \<longleftrightarrow> (case m of None \<Rightarrow> False | Some x \<Rightarrow> x > p)"

definition cpu_should_reschedule :: "resched_cause \<Rightarrow> cpu_state \<Rightarrow> bool" where
  "cpu_should_reschedule cause s =
     (if \<not> mask_contains (current_affinity s) (cs_cpu_id s) then True
      else if cause = CauseForced then True
      else if cause = CauseReady Batch \<and> \<not> is_current_idle s \<and> current_policy s \<noteq> Idle then False
      else if cause = CauseReady Idle \<and> \<not> is_current_idle s then False
      else if is_current_idle s then
        (min_ready_fair s \<noteq> None \<or> highest_priority s \<noteq> None \<or> min_ready_idle s \<noteq> None)
      else case current_policy s of
          Other \<Rightarrow>
            if highest_priority s \<noteq> None then True
            else some_less (min_ready_fair s) (current_vruntime s)
        | Batch \<Rightarrow> highest_priority s \<noteq> None \<or> some_less (min_ready_fair s) (current_vruntime s)
        | Idle \<Rightarrow>
            highest_priority s \<noteq> None \<or> cfs_count (cfs_q s) > 0 \<or> cfs_count (batch_q s) > 0 \<or>
            some_less (min_ready_idle s) (current_vruntime s)
        | Fifo \<Rightarrow> some_above (highest_priority s) (current_priority s)
        | Rr \<Rightarrow>
            if current_ticks s \<ge> max_ticks_per_task then True
            else some_above (highest_priority s) (current_priority s))"

text \<open>The scan of the real-time priorities from \<open>n\<close> down to 1; the bucket index is in range.\<close>

fun pick_realtime :: "nat \<Rightarrow> cpu_state \<Rightarrow> (task_id \<times> cpu_state) option" where
  "pick_realtime 0 s = None"
| "pick_realtime (Suc n) s =
     (case fifo_pick_at_priority (int (Suc n)) (fifo_q s) of
        Some (Some t, q) \<Rightarrow> Some (t, s\<lparr>fifo_q := q\<rparr>)
      | _ \<Rightarrow>
        (case rr_pick_at_priority (int (Suc n)) (rr_q s) of
           Some (Some t, q) \<Rightarrow> Some (t, s\<lparr>rr_q := q\<rparr>)
         | _ \<Rightarrow> pick_realtime n s))"

definition pick_fair :: "cpu_state \<Rightarrow> (task_id \<times> nat) option \<times> cpu_state" where
  "pick_fair s =
     (case (min_ready_vruntime (cfs_q s), min_ready_vruntime (batch_q s)) of
        (Some _, None) \<Rightarrow> (case cfs_pick (cfs_q s) of (r, q) \<Rightarrow> (r, s\<lparr>cfs_q := q\<rparr>))
      | (None, Some _) \<Rightarrow> (case cfs_pick (batch_q s) of (r, q) \<Rightarrow> (r, s\<lparr>batch_q := q\<rparr>))
      | (Some other, Some batch) \<Rightarrow>
          if other \<le> batch
          then (case cfs_pick (cfs_q s) of (r, q) \<Rightarrow> (r, s\<lparr>cfs_q := q\<rparr>))
          else (case cfs_pick (batch_q s) of (r, q) \<Rightarrow> (r, s\<lparr>batch_q := q\<rparr>))
      | (None, None) \<Rightarrow> (None, s))"

definition pick_next_runnable :: "cpu_state \<Rightarrow> (task_id \<times> cpu_state) option" where
  "pick_next_runnable s =
     (case pick_realtime 99 s of
        Some r \<Rightarrow> Some r
      | None \<Rightarrow>
          (case pick_fair s of
             (Some (t, v), s1) \<Rightarrow> Some (t, s1\<lparr>min_vruntime := max (min_vruntime s1) v\<rparr>)
           | (None, s1) \<Rightarrow>
               (case cfs_pick (idle_q s1) of
                  (Some (t, v), q) \<Rightarrow>
                    Some (t, s1\<lparr>idle_q := q, idle_min_vruntime := max (idle_min_vruntime s1) v\<rparr>)
                | (None, q) \<Rightarrow>
                    map_option (\<lambda>t. (t, s1\<lparr>idle_q := q\<rparr>)) (idle_task_id s1))))"

definition cpu_load :: "cpu_state \<Rightarrow> nat" where
  "cpu_load s =
     rq_count (rr_q s) + fq_count (fifo_q s) + cfs_count (cfs_q s) + cfs_count (batch_q s) +
     cfs_count (idle_q s) + (if \<not> is_current_idle s then 1 else 0)"

definition cpu_dequeue :: "task_id \<Rightarrow> cpu_state \<Rightarrow> cpu_state" where
  "cpu_dequeue t s =
     s\<lparr>cfs_q := cfs_dequeue t (cfs_q s), batch_q := cfs_dequeue t (batch_q s),
       fifo_q := fifo_dequeue t (fifo_q s), rr_q := rr_dequeue t (rr_q s),
       idle_q := cfs_dequeue t (idle_q s)\<rparr>"

definition cpu_enqueue :: "task_id \<Rightarrow> task_snapshot \<Rightarrow> cpu_state \<Rightarrow> cpu_state option" where
  "cpu_enqueue t snap s =
     (case snap_policy snap of
        Other \<Rightarrow> Some (s\<lparr>cfs_q := cfs_enqueue t (snap_vruntime snap) (cfs_q s)\<rparr>)
      | Batch \<Rightarrow> Some (s\<lparr>batch_q := cfs_enqueue t (snap_vruntime snap) (batch_q s)\<rparr>)
      | Idle \<Rightarrow> Some (s\<lparr>idle_q := cfs_enqueue t (snap_vruntime snap) (idle_q s)\<rparr>)
      | Fifo \<Rightarrow> map_option (\<lambda>q. s\<lparr>fifo_q := q\<rparr>) (fifo_enqueue t (snap_priority snap) (fifo_q s))
      | Rr \<Rightarrow> map_option (\<lambda>q. s\<lparr>rr_q := q\<rparr>) (rr_enqueue t (snap_priority snap) (rr_q s)))"

definition cpu_set_current_task :: "task_snapshot \<Rightarrow> cpu_state \<Rightarrow> cpu_state" where
  "cpu_set_current_task snap s =
     (let s1 = (if current_task_id s \<noteq> Some (snap_id snap)
                then s\<lparr>context_switches := sat_add u64_max (context_switches s) 1\<rparr> else s)
      in s1\<lparr>current_snapshot := Some snap, current_ticks := 0, current_runtime_ticks := 0\<rparr>)"

definition set_deferred_ready :: "task_id \<Rightarrow> cpu_state \<Rightarrow> cpu_state option" where
  "set_deferred_ready t s =
     (if deferred_ready s \<noteq> None then None else Some (s\<lparr>deferred_ready := Some t\<rparr>))"

definition take_deferred_ready :: "cpu_state \<Rightarrow> task_id option \<times> cpu_state" where
  "take_deferred_ready s = (deferred_ready s, s\<lparr>deferred_ready := None\<rparr>)"

datatype sched_error = SchedInvalidArg | NoSuchTask | NotPermitted

definition validate_policy_param :: "sched_policy \<Rightarrow> int \<Rightarrow> (sched_error, unit) result" where
  "validate_policy_param p prio =
     (if p \<in> {Fifo, Rr} \<and> \<not> (1 \<le> prio \<and> prio \<le> 99) then Inl SchedInvalidArg
      else if is_cfs_policy p \<and> prio \<noteq> 0 then Inl SchedInvalidArg
      else Inr ())"

end
