(* ===== verification/Cpu_Correct.thy ===== *)
theory Cpu_Correct
  imports Cpu_State
begin

text \<open>
  What the per-CPU scheduler state promises: the choice of the next task follows the class
  order real-time, fair, idle and takes the head of the best list; placing and removing a task
  changes only its own membership; the reschedule test is exact; the virtual-runtime baseline
  never overtakes a fair task; and a yield lets another fair task run.
\<close>

section \<open>Well-formed states and their waiting lists\<close>

definition cpu_ok :: "cpu_state \<Rightarrow> bool" where
  "cpu_ok s \<longleftrightarrow> fifo_ok (fifo_q s) \<and> rr_ok (rr_q s) \<and> cfs_ok (cfs_q s) \<and> cfs_ok (batch_q s) \<and>
     cfs_ok (idle_q s)"

text \<open>Real-time tasks by priority, FIFO before RR; fair tasks by runtime, OTHER before BATCH.\<close>

definition rt_list :: "cpu_state \<Rightarrow> int \<Rightarrow> task_id list" where
  "rt_list s p = bucket_content (fq_queues (fifo_q s)) p @ bucket_content (rq_queues (rr_q s)) p"

definition fair_list :: "cpu_state \<Rightarrow> nat \<Rightarrow> task_id list" where
  "fair_list s v = cfs_content (cfs_q s) v @ cfs_content (batch_q s) v"

definition idle_list :: "cpu_state \<Rightarrow> nat \<Rightarrow> task_id list" where
  "idle_list s v = cfs_content (idle_q s) v"

definition members :: "('k \<Rightarrow> task_id list) \<Rightarrow> task_id set" where
  "members f = {t. \<exists>k. t \<in> set (f k)}"

definition queued :: "cpu_state \<Rightarrow> task_id set" where
  "queued s = members (rt_list s) \<union> members (fair_list s) \<union> members (idle_list s)"

lemma members_update:
  assumes "\<And>j. set (f' j) = (if j = k then insert t (set (f j)) else set (f j))"
  shows "members f' = insert t (members f)"
proof (rule set_eqI)
  fix x
  show "x \<in> members f' \<longleftrightarrow> x \<in> insert t (members f)"
  proof (cases "x = t")
    case True
    then have "x \<in> set (f' k)" using assms by simp
    with True show ?thesis by (auto simp: members_def)
  next
    case False
    then have "x \<in> set (f' j) \<longleftrightarrow> x \<in> set (f j)" for j using assms [of j] by auto
    with False show ?thesis by (simp add: members_def)
  qed
qed

lemma members_filter: "members (\<lambda>k. filter (\<lambda>i. i \<noteq> t) (f k)) = members f - {t}"
  by (auto simp: members_def)

lemma members_hd: "f k \<noteq> [] \<Longrightarrow> hd (f k) \<in> members f"
  unfolding members_def using hd_in_set [of "f k"] by blast

lemma members_empty: "members f = {} \<longleftrightarrow> (\<forall>k. f k = [])"
  by (auto simp: members_def) (metis list.set_intros(1) neq_Nil_conv)

lemma cpu_okD:
  assumes "cpu_ok s"
  shows "fifo_ok (fifo_q s)" "rr_ok (rr_q s)" "cfs_ok (cfs_q s)" "cfs_ok (batch_q s)"
    "cfs_ok (idle_q s)"
  using assms by (simp_all add: cpu_ok_def)

lemma cpu_new_ok: "cpu_ok (cpu_new cpu)"
  by (simp add: cpu_ok_def cpu_new_def fifo_new_ok cfs_new_ok)

lemma bucket_content_valid: "bucket_content qs p \<noteq> [] \<Longrightarrow> valid_priority p"
  using bucket_index_valid [of p] by (auto simp: bucket_content_def split: option.splits)

section \<open>Real-time choice\<close>

lemma fifo_pick_at:
  assumes ok: "fifo_ok q" and p: "valid_priority p"
  shows "(case bucket_content (fq_queues q) p of
      [] \<Rightarrow> fifo_pick_at_priority p q = Some (None, q)
    | t # rest \<Rightarrow> (\<exists>q'. fifo_pick_at_priority p q = Some (Some t, q') \<and> fifo_ok q' \<and>
        bucket_content (fq_queues q') = (bucket_content (fq_queues q))(p := rest)))"
proof -
  obtain i where i: "i < bucket_count" "p = int i + 1" using p unfolding valid_priority_index by blast
  then have idx: "bucket_index p = Some i" by (simp add: bucket_index_iff)
  have c: "bucket_content (fq_queues q) p = fq_queues q ! i" by (simp add: bucket_content_def idx)
  show ?thesis
  proof (cases "fq_queues q ! i")
    case Nil
    then show ?thesis by (simp add: c fifo_pick_at_priority_def idx)
  next
    case (Cons t rest)
    from buckets_pop [OF ok [unfolded fifo_ok_def] i(1) Cons, folded i(2)] show ?thesis
      by (simp add: c Cons fifo_pick_at_priority_def idx fifo_ok_def)
  qed
qed

lemma rr_pick_at:
  assumes ok: "rr_ok q" and p: "valid_priority p"
  shows "(case bucket_content (rq_queues q) p of
      [] \<Rightarrow> rr_pick_at_priority p q = Some (None, q)
    | t # rest \<Rightarrow> (\<exists>q'. rr_pick_at_priority p q = Some (Some t, q') \<and> rr_ok q' \<and>
        bucket_content (rq_queues q') = (bucket_content (rq_queues q))(p := rest)))"
proof -
  obtain i where i: "i < bucket_count" "p = int i + 1" using p unfolding valid_priority_index by blast
  then have idx: "bucket_index p = Some i" by (simp add: bucket_index_iff)
  have c: "bucket_content (rq_queues q) p = rq_queues q ! i" by (simp add: bucket_content_def idx)
  show ?thesis
  proof (cases "rq_queues q ! i")
    case Nil
    then show ?thesis by (simp add: c rr_pick_at_priority_def idx)
  next
    case (Cons t rest)
    from buckets_pop [OF ok [unfolded rr_ok_def] i(1) Cons, folded i(2)] show ?thesis
      by (simp add: c Cons rr_pick_at_priority_def idx rr_ok_def)
  qed
qed

text \<open>The state after taking the head of the list at the best key of one class.\<close>

definition took_rt :: "cpu_state \<Rightarrow> int \<Rightarrow> task_id \<Rightarrow> cpu_state \<Rightarrow> bool" where
  "took_rt s p t s' \<longleftrightarrow> rt_list s p \<noteq> [] \<and> t = hd (rt_list s p) \<and>
     rt_list s' = (rt_list s)(p := tl (rt_list s p)) \<and>
     fair_list s' = fair_list s \<and> idle_list s' = idle_list s \<and>
     min_vruntime s' = min_vruntime s \<and> idle_min_vruntime s' = idle_min_vruntime s"

lemma pick_realtime_spec:
  assumes ok: "cpu_ok s"
  shows "n \<le> 99 \<Longrightarrow> (case pick_realtime n s of
      None \<Rightarrow> \<forall>p. p \<le> int n \<longrightarrow> rt_list s p = []
    | Some (t, s') \<Rightarrow> cpu_ok s' \<and> idle_task_id s' = idle_task_id s \<and>
        current_snapshot s' = current_snapshot s \<and>
        (\<exists>p. took_rt s p t s' \<and> p \<le> int n \<and> (\<forall>j. p < j \<longrightarrow> j \<le> int n \<longrightarrow> rt_list s j = [])))"
proof (induction n)
  case 0
  have "rt_list s p = []" if "p \<le> 0" for p
    using that bucket_content_valid [of _ p] by (auto simp: rt_list_def valid_priority_def)
  then show ?case by simp
next
  case (Suc n)
  let ?p = "int (Suc n)"
  have p: "valid_priority ?p" using Suc.prems by (simp add: valid_priority_def)
  note f = fifo_pick_at [OF cpu_okD(1) [OF ok] p] and r = rr_pick_at [OF cpu_okD(2) [OF ok] p]
  show ?case
  proof (cases "bucket_content (fq_queues (fifo_q s)) ?p")
    case fc: (Cons t rest)
    with f obtain q' where q': "fifo_pick_at_priority ?p (fifo_q s) = Some (Some t, q')" "fifo_ok q'"
      "bucket_content (fq_queues q') = (bucket_content (fq_queues (fifo_q s)))(?p := rest)" by auto
    have "took_rt s ?p t (s\<lparr>fifo_q := q'\<rparr>)"
      using q'(3) fc
      by (simp add: took_rt_def rt_list_def fair_list_def idle_list_def fun_eq_iff)
    then show ?thesis
      using q' ok by (auto simp: cpu_ok_def intro!: exI [of _ ?p])
  next
    case fn: Nil
    then have f0: "fifo_pick_at_priority ?p (fifo_q s) = Some (None, fifo_q s)" using f by simp
    show ?thesis
    proof (cases "bucket_content (rq_queues (rr_q s)) ?p")
      case rc: (Cons t rest)
      with r obtain q' where q': "rr_pick_at_priority ?p (rr_q s) = Some (Some t, q')" "rr_ok q'"
        "bucket_content (rq_queues q') = (bucket_content (rq_queues (rr_q s)))(?p := rest)" by auto
      have "took_rt s ?p t (s\<lparr>rr_q := q'\<rparr>)"
        using q'(3) rc fn
        by (simp add: took_rt_def rt_list_def fair_list_def idle_list_def fun_eq_iff)
      then show ?thesis
        using q' f0 ok by (auto simp: cpu_ok_def intro!: exI [of _ ?p])
    next
      case rn: Nil
      then have r0: "rr_pick_at_priority ?p (rr_q s) = Some (None, rr_q s)" using r by simp
      have e: "pick_realtime (Suc n) s = pick_realtime n s" using f0 r0 by simp
      have empty: "rt_list s ?p = []" using fn rn by (simp add: rt_list_def)
      have le: "j \<le> ?p \<longleftrightarrow> j \<le> int n \<or> j = ?p" for j by auto
      from Suc.IH Suc.prems have IH: "case pick_realtime n s of
          None \<Rightarrow> \<forall>p. p \<le> int n \<longrightarrow> rt_list s p = []
        | Some (t, s') \<Rightarrow> cpu_ok s' \<and> idle_task_id s' = idle_task_id s \<and>
            current_snapshot s' = current_snapshot s \<and>
            (\<exists>p. took_rt s p t s' \<and> p \<le> int n \<and> (\<forall>j. p < j \<longrightarrow> j \<le> int n \<longrightarrow> rt_list s j = []))"
        by simp
      show ?thesis
      proof (cases "pick_realtime n s")
        case None
        with IH empty show ?thesis unfolding e by (simp del: of_nat_Suc add: le)
      next
        case (Some ts)
        with IH empty show ?thesis unfolding e by (cases ts) (auto simp del: of_nat_Suc simp: le)
      qed
    qed
  qed
qed

section \<open>Fair and idle choice\<close>

definition took_fair :: "cpu_state \<Rightarrow> nat \<Rightarrow> task_id \<Rightarrow> cpu_state \<Rightarrow> bool" where
  "took_fair s v t s' \<longleftrightarrow> fair_list s v \<noteq> [] \<and> t = hd (fair_list s v) \<and>
     fair_list s' = (fair_list s)(v := tl (fair_list s v)) \<and>
     rt_list s' = rt_list s \<and> idle_list s' = idle_list s \<and>
     idle_min_vruntime s' = idle_min_vruntime s"

lemma pick_fair_spec:
  assumes ok: "cpu_ok s"
  shows "(case pick_fair s of
      (None, s') \<Rightarrow> s' = s \<and> (\<forall>v. fair_list s v = [])
    | (Some (t, v), s') \<Rightarrow> cpu_ok s' \<and> took_fair s v t s' \<and> min_vruntime s' = min_vruntime s \<and>
        idle_task_id s' = idle_task_id s \<and> current_snapshot s' = current_snapshot s \<and>
        (\<forall>w. fair_list s w \<noteq> [] \<longrightarrow> v \<le> w))"
proof -
  note oc = cpu_okD(3) [OF ok] and ob = cpu_okD(4) [OF ok]
  note mc = min_ready_spec [OF oc] and mb = min_ready_spec [OF ob]
  note pc = cfs_pick_ok [OF oc] and pb = cfs_pick_ok [OF ob]
  let ?c = "min_ready_vruntime (cfs_q s)" and ?b = "min_ready_vruntime (batch_q s)"
  have from_cfs: ?thesis
    if x: "?c = Some x" and no: "\<And>w. cfs_content (batch_q s) w \<noteq> [] \<Longrightarrow> x \<le> w"
      and pf: "pick_fair s = (case cfs_pick (cfs_q s) of (r, q) \<Rightarrow> (r, s\<lparr>cfs_q := q\<rparr>))" for x
  proof -
    have "cfs_count (cfs_q s) \<noteq> 0" using x mc(2) by auto
    with pc(1) obtain t v q' where q': "cfs_pick (cfs_q s) = (Some (t, v), q')"
      by (cases "cfs_pick (cfs_q s)"; cases "fst (cfs_pick (cfs_q s))") auto
    note P = pc(2) [OF q']
    have "v = x" using P x mc(1) by (meson antisym)
    then have "took_fair s v t (s\<lparr>cfs_q := q'\<rparr>)"
      using P by (auto simp: took_fair_def fair_list_def rt_list_def idle_list_def fun_eq_iff)
    with P no \<open>v = x\<close> ok show ?thesis
      unfolding pf q' by (auto simp: cpu_ok_def fair_list_def)
  qed
  have from_batch: ?thesis
    if x: "?b = Some x" and no: "\<And>w. cfs_content (cfs_q s) w \<noteq> [] \<Longrightarrow> x < w"
      and pf: "pick_fair s = (case cfs_pick (batch_q s) of (r, q) \<Rightarrow> (r, s\<lparr>batch_q := q\<rparr>))" for x
  proof -
    have "cfs_count (batch_q s) \<noteq> 0" using x mb(2) by auto
    with pb(1) obtain t v q' where q': "cfs_pick (batch_q s) = (Some (t, v), q')"
      by (cases "cfs_pick (batch_q s)"; cases "fst (cfs_pick (batch_q s))") auto
    note P = pb(2) [OF q']
    have "v = x" using P x mb(1) by (meson antisym)
    moreover have "cfs_content (cfs_q s) x = []" using no [of x] by auto
    ultimately have "took_fair s v t (s\<lparr>batch_q := q'\<rparr>)"
      using P by (auto simp: took_fair_def fair_list_def rt_list_def idle_list_def fun_eq_iff)
    with P no \<open>v = x\<close> ok show ?thesis
      unfolding pf q' by (auto simp: cpu_ok_def fair_list_def less_imp_le)
  qed
  show ?thesis
  proof (cases ?c)
    case None
    then have c0: "cfs_content (cfs_q s) w = []" for w
      using mc(2) cfs_zero(1) [OF oc] by simp
    show ?thesis
    proof (cases ?b)
      case None
      then have "cfs_content (batch_q s) w = []" for w
        using mb(2) cfs_zero(1) [OF ob] by simp
      with c0 None \<open>?c = None\<close> show ?thesis by (simp add: pick_fair_def fair_list_def)
    next
      case (Some x)
      show ?thesis
        by (rule from_batch [OF Some]) (use c0 Some \<open>?c = None\<close> in \<open>auto simp: pick_fair_def\<close>)
    qed
  next
    case c: (Some x)
    show ?thesis
    proof (cases ?b)
      case None
      then have "cfs_content (batch_q s) w = []" for w
        using mb(2) cfs_zero(1) [OF ob] by simp
      then show ?thesis
        by (intro from_cfs [OF c]) (use c None in \<open>auto simp: pick_fair_def\<close>)
    next
      case b: (Some y)
      show ?thesis
      proof (cases "x \<le> y")
        case True
        show ?thesis
        proof (rule from_cfs [OF c])
          show "x \<le> w" if "cfs_content (batch_q s) w \<noteq> []" for w
            using iffD1 [OF mb(1) b] True that by (blast intro: le_trans)
          show "pick_fair s = (case cfs_pick (cfs_q s) of (r, q) \<Rightarrow> (r, s\<lparr>cfs_q := q\<rparr>))"
            using c b True by (simp add: pick_fair_def)
        qed
      next
        case False
        have "y < w" if "cfs_content (cfs_q s) w \<noteq> []" for w
          using mc(1) [of x] c that False by (meson leD leI le_trans not_le)
        then show ?thesis
          by (intro from_batch [OF b]) (use c b False in \<open>auto simp: pick_fair_def\<close>)
      qed
    qed
  qed
qed

section \<open>The choice of the next task\<close>

text \<open>What the scheduling classes demand: the first class with a waiting task wins.\<close>

definition next_choice :: "cpu_state \<Rightarrow> task_id \<Rightarrow> cpu_state \<Rightarrow> bool" where
  "next_choice s t s' \<longleftrightarrow>
     (if \<exists>p. rt_list s p \<noteq> [] then
        (\<exists>p. took_rt s p t s' \<and> (\<forall>j. rt_list s j \<noteq> [] \<longrightarrow> j \<le> p))
      else if \<exists>v. fair_list s v \<noteq> [] then
        (\<exists>v. took_fair s v t s' \<and> (\<forall>w. fair_list s w \<noteq> [] \<longrightarrow> v \<le> w) \<and>
           min_vruntime s' = max (min_vruntime s) v)
      else if \<exists>v. idle_list s v \<noteq> [] then
        (\<exists>v. idle_list s v \<noteq> [] \<and> t = hd (idle_list s v) \<and>
           (\<forall>w. idle_list s w \<noteq> [] \<longrightarrow> v \<le> w) \<and>
           idle_list s' = (idle_list s)(v := tl (idle_list s v)) \<and>
           rt_list s' = rt_list s \<and> fair_list s' = fair_list s \<and>
           min_vruntime s' = min_vruntime s \<and>
           idle_min_vruntime s' = max (idle_min_vruntime s) v)
      else idle_task_id s = Some t \<and> s' = s)"

lemma pick_next_spec:
  assumes ok: "cpu_ok s"
  shows "case pick_next_runnable s of
      None \<Rightarrow> queued s = {} \<and> idle_task_id s = None
    | Some (t, s') \<Rightarrow> cpu_ok s' \<and> next_choice s t s' \<and> idle_task_id s' = idle_task_id s \<and>
        current_snapshot s' = current_snapshot s"
proof (cases "pick_realtime 99 s")
  case (Some r)
  obtain t s' where r: "r = (t, s')" by (cases r)
  from pick_realtime_spec [OF ok, of 99] Some r obtain p where
    p: "cpu_ok s'" "idle_task_id s' = idle_task_id s" "current_snapshot s' = current_snapshot s"
    "took_rt s p t s'" "\<And>j. p < j \<Longrightarrow> j \<le> 99 \<Longrightarrow> rt_list s j = []" by auto
  have "j \<le> p" if "rt_list s j \<noteq> []" for j
  proof -
    from that have "valid_priority j" using bucket_content_valid by (auto simp: rt_list_def)
    then have "j \<le> 99" by (simp add: valid_priority_def)
    with p(5) [of j] that show ?thesis by (cases "p < j") auto
  qed
  moreover have "\<exists>p. rt_list s p \<noteq> []" using p(4) by (auto simp: took_rt_def)
  ultimately have "next_choice s t s'" using p(4) unfolding next_choice_def by auto
  with p Some r show ?thesis by (simp add: pick_next_runnable_def)
next
  case None
  have rt: "rt_list s p = []" for p
  proof (cases "p \<le> 99")
    case True
    with pick_realtime_spec [OF ok, of 99] None show ?thesis by simp
  next
    case False
    then have "\<not> valid_priority p" by (simp add: valid_priority_def)
    then show ?thesis using bucket_content_valid by (auto simp: rt_list_def)
  qed
  show ?thesis
  proof (cases "fst (pick_fair s)")
    case (Some tv)
    obtain t v s1 where f: "pick_fair s = (Some (t, v), s1)"
      using Some by (cases "pick_fair s"; cases tv) auto
    from pick_fair_spec [OF ok] f have P: "cpu_ok s1" "took_fair s v t s1"
      "min_vruntime s1 = min_vruntime s" "idle_task_id s1 = idle_task_id s"
      "current_snapshot s1 = current_snapshot s" "\<forall>w. fair_list s w \<noteq> [] \<longrightarrow> v \<le> w" by simp_all
    let ?s = "s1\<lparr>min_vruntime := max (min_vruntime s1) v\<rparr>"
    have "fair_list ?s = fair_list s1" "rt_list ?s = rt_list s1" "idle_list ?s = idle_list s1"
      by (simp_all add: fair_list_def rt_list_def idle_list_def fun_eq_iff)
    then have "took_fair s v t ?s"
      using P(2) by (simp add: took_fair_def)
    moreover have "\<exists>v. fair_list s v \<noteq> []" using P(2) by (auto simp: took_fair_def)
    ultimately have "next_choice s t ?s"
      using rt P by (auto simp: next_choice_def intro!: exI [of _ v])
    moreover have "cpu_ok ?s" using P(1) by (simp add: cpu_ok_def)
    ultimately show ?thesis using None f P(4,5) by (simp add: pick_next_runnable_def)
  next
    case fn: None
    then obtain s1 where "pick_fair s = (None, s1)" by (cases "pick_fair s") auto
    with pick_fair_spec [OF ok] have f: "pick_fair s = (None, s)" and fair: "\<And>v. fair_list s v = []"
      by simp_all
    note oi = cpu_okD(5) [OF ok]
    show ?thesis
    proof (cases "fst (cfs_pick (idle_q s))")
      case (Some tv)
      obtain t v q where q: "cfs_pick (idle_q s) = (Some (t, v), q)"
        using Some by (cases "cfs_pick (idle_q s)"; cases tv) auto
      note P = cfs_pick_ok(2) [OF oi q]
      let ?s = "s\<lparr>idle_q := q, idle_min_vruntime := max (idle_min_vruntime s) v\<rparr>"
      have lists: "idle_list ?s = (idle_list s)(v := tl (idle_list s v))" "rt_list ?s = rt_list s"
        "fair_list ?s = fair_list s" "idle_list s v \<noteq> []" "t = hd (idle_list s v)"
        "\<forall>w. idle_list s w \<noteq> [] \<longrightarrow> v \<le> w"
        using P by (simp_all add: idle_list_def rt_list_def fair_list_def fun_eq_iff)
      then have "next_choice s t ?s"
        using rt fair unfolding next_choice_def by (auto intro!: exI [of _ v])
      moreover have "cpu_ok ?s" using ok P by (simp add: cpu_ok_def)
      ultimately show ?thesis using None f q by (simp add: pick_next_runnable_def)
    next
      case None
      then have z: "cfs_count (idle_q s) = 0" using cfs_pick_ok(1) [OF oi] by simp
      then have idle: "idle_list s v = []" for v
        using cfs_zero(1) [OF oi] by (simp add: idle_list_def)
      have q: "cfs_pick (idle_q s) = (None, idle_q s)" using z by (simp add: cfs_pick_def)
      have "queued s = {}" using rt fair idle by (simp add: queued_def members_def)
      then show ?thesis
        using \<open>pick_realtime 99 s = None\<close> f q ok rt fair idle
        by (auto simp: pick_next_runnable_def next_choice_def split: option.split)
    qed
  qed
qed

end
