(* ===== verification/Cpu_Props.thy ===== *)
theory Cpu_Props
  imports Cpu_Correct
begin

text \<open>The properties of the per-CPU scheduler state.\<close>

section \<open>Choosing the next task\<close>

text \<open>
  C15. On a well-formed CPU, \<open>pick_next_runnable\<close> panics only without an idle task, and
  otherwise returns the task the classes demand: the head of the highest non-empty real-time
  priority, FIFO before RR; without real-time tasks the head of the smallest virtual runtime
  over the OTHER and BATCH trees, OTHER first on a tie; without those the same of the IDLE
  tree; and the idle task when nothing waits. Exactly that entry leaves its list, the other
  lists are unchanged, and the baseline of the class moves up to the runtime taken.
\<close>

theorem pick_next_runnable_correct:
  assumes "cpu_ok s"
  shows "case pick_next_runnable s of
      None \<Rightarrow> queued s = {} \<and> idle_task_id s = None
    | Some (t, s') \<Rightarrow> cpu_ok s' \<and> next_choice s t s' \<and> idle_task_id s' = idle_task_id s \<and>
        current_snapshot s' = current_snapshot s"
  using assms by (rule pick_next_spec)

definition demo_cpu :: cpu_state where
  "demo_cpu = (cpu_new 0)\<lparr>idle_task_id := Some 1,
     cfs_q := cfs_enqueue 7 20 (cfs_enqueue 5 10 cfs_new),
     current_snapshot := Some \<lparr>snap_id = 9, snap_parent = None, snap_kind = KindUser,
       snap_state = Running, snap_policy = Other, snap_priority = 0, snap_nice = 0,
       snap_io_priority = 0, snap_vruntime = 4, snap_stats = zero_stats, snap_ready_cpu = None,
       snap_running_cpu = Some 0, snap_last_cpu = Some 0, snap_affinity = 1, snap_aspace = 0,
       snap_task_cx = 0\<rparr>\<rparr>"

lemma demo_cfs: "cfs_ok (cfs_enqueue 7 20 (cfs_enqueue 5 10 cfs_new))"
  "cfs_content (cfs_enqueue 7 20 (cfs_enqueue 5 10 cfs_new)) =
     (\<lambda>v. if v = 10 then [5] else if v = 20 then [7] else [])"
proof -
  have n: "cfs_content cfs_new = (\<lambda>_. [])" "cfs_count cfs_new = 0"
    by (simp_all add: cfs_content_def cfs_new_def om_get_def fun_eq_iff)
  have u: "(0::nat) < usize_max" "(1::nat) < usize_max" by (simp_all add: usize_max_def)
  note a = cfs_enqueue_ok [OF cfs_new_ok, of 5 10, unfolded n, OF u(1)]
  have "cfs_count (cfs_enqueue 5 10 cfs_new) < usize_max" using a(2) u(2) by simp
  note b = cfs_enqueue_ok [OF a(1) this, of 7 20]
  show "cfs_ok (cfs_enqueue 7 20 (cfs_enqueue 5 10 cfs_new))" by (rule b(1))
  show "cfs_content (cfs_enqueue 7 20 (cfs_enqueue 5 10 cfs_new)) =
     (\<lambda>v. if v = 10 then [5] else if v = 20 then [7] else [])"
    unfolding b(3) a(3) by (auto simp: fun_eq_iff)
qed

lemma demo_cpu_ok: "cpu_ok demo_cpu"
  by (simp add: cpu_ok_def demo_cpu_def cpu_new_def fifo_new_ok cfs_new_ok demo_cfs)

lemma demo_lists: "rt_list demo_cpu p = []" "idle_list demo_cpu v = []"
  "fair_list demo_cpu v = (if v = 10 then [5] else if v = 20 then [7] else [])"
  by (auto simp: rt_list_def idle_list_def fair_list_def demo_cpu_def cpu_new_def fifo_new_def
      rr_new_def bucket_content_def bucket_index_iff cfs_content_def [of cfs_new] cfs_new_def [symmetric]
      demo_cfs om_get_def split: option.split)
    (simp_all add: cfs_new_def)

theorem pick_next_runnable_correct_witness:
  "\<exists>s'. pick_next_runnable demo_cpu = Some (5, s') \<and> fair_list s' 10 = [] \<and> fair_list s' 20 = [7]"
proof -
  note P = pick_next_runnable_correct [OF demo_cpu_ok]
  have "idle_task_id demo_cpu \<noteq> None" by (simp add: demo_cpu_def)
  with P obtain t s' where s': "pick_next_runnable demo_cpu = Some (t, s')"
    and c: "next_choice demo_cpu t s'"
    by (cases "pick_next_runnable demo_cpu") auto
  from c obtain v where v: "took_fair demo_cpu v t s'" "\<forall>w. fair_list demo_cpu w \<noteq> [] \<longrightarrow> v \<le> w"
    by (auto simp: next_choice_def demo_lists split: if_splits)
  then have "v = 10" by (auto simp: took_fair_def demo_lists split: if_splits)
  with v(1) s' show ?thesis by (auto simp: took_fair_def demo_lists)
qed

section \<open>Placing and removing tasks\<close>

lemma queued_dequeue:
  assumes ok: "cpu_ok s"
  shows "cpu_ok (cpu_dequeue t s) \<and> queued (cpu_dequeue t s) = queued s - {t}"
proof -
  note f = fifo.deq_ok [OF cpu_okD(1) [OF ok], of t] and r = rr.deq_ok [OF cpu_okD(2) [OF ok], of t]
    and c = cfs.deq_ok [OF cpu_okD(3) [OF ok], of t] and b = cfs.deq_ok [OF cpu_okD(4) [OF ok], of t]
    and i = cfs.deq_ok [OF cpu_okD(5) [OF ok], of t]
  have "rt_list (cpu_dequeue t s) p = filter (\<lambda>i. i \<noteq> t) (rt_list s p)"
    "fair_list (cpu_dequeue t s) v = filter (\<lambda>i. i \<noteq> t) (fair_list s v)"
    "idle_list (cpu_dequeue t s) v = filter (\<lambda>i. i \<noteq> t) (idle_list s v)" for p v
    using f r c b i by (simp_all add: rt_list_def fair_list_def idle_list_def cpu_dequeue_def)
  then have "rt_list (cpu_dequeue t s) = (\<lambda>p. filter (\<lambda>i. i \<noteq> t) (rt_list s p))"
    "fair_list (cpu_dequeue t s) = (\<lambda>p. filter (\<lambda>i. i \<noteq> t) (fair_list s p))"
    "idle_list (cpu_dequeue t s) = (\<lambda>p. filter (\<lambda>i. i \<noteq> t) (idle_list s p))" by blast+
  then have "queued (cpu_dequeue t s) = queued s - {t}"
    by (simp add: queued_def members_filter Un_Diff)
  moreover have "cpu_ok (cpu_dequeue t s)"
    using f r c b i by (simp add: cpu_ok_def cpu_dequeue_def)
  ultimately show ?thesis by blast
qed

definition has_room :: "cpu_state \<Rightarrow> bool" where
  "has_room s \<longleftrightarrow> fq_count (fifo_q s) < usize_max \<and> rq_count (rr_q s) < usize_max \<and>
     cfs_count (cfs_q s) < usize_max \<and> cfs_count (batch_q s) < usize_max \<and>
     cfs_count (idle_q s) < usize_max"

lemma cpu_enqueue_spec:
  assumes ok: "cpu_ok s" and room: "has_room s"
    and valid: "validate_policy_param (snap_policy snap) (snap_priority snap) = Inr ()"
  shows "\<exists>s'. cpu_enqueue t snap s = Some s' \<and> cpu_ok s' \<and> queued s' = insert t (queued s) \<and>
    cpu_load s' = cpu_load s + 1"
proof (cases "snap_policy snap")
  case Fifo
  with valid have "valid_priority (snap_priority snap)"
    by (auto simp: validate_policy_param_def valid_priority_def split: if_splits)
  from fifo.enq_valid [OF cpu_okD(1) [OF ok] this, of t] room obtain q' where
    q': "fifo_enqueue t (snap_priority snap) (fifo_q s) = Some q'" "fifo_ok q'"
    "bucket_content (fq_queues q') = (bucket_content (fq_queues (fifo_q s)))
       (snap_priority snap := bucket_content (fq_queues (fifo_q s)) (snap_priority snap) @ [t])"
    "fq_count q' = fq_count (fifo_q s) + 1" by (auto simp: has_room_def)
  let ?s = "s\<lparr>fifo_q := q'\<rparr>"
  have "queued ?s = insert t (queued s)"
  proof -
    have "members (rt_list ?s) = insert t (members (rt_list s))"
      by (rule members_update [of _ "snap_priority snap"]) (auto simp: rt_list_def q'(3))
    moreover have "fair_list ?s = fair_list s" "idle_list ?s = idle_list s"
      by (simp_all add: fair_list_def idle_list_def fun_eq_iff)
    ultimately show ?thesis by (auto simp: queued_def)
  qed
  with Fifo q' ok show ?thesis
    by (simp add: cpu_enqueue_def cpu_ok_def cpu_load_def is_current_idle_def current_task_id_def)
next
  case Rr
  with valid have "valid_priority (snap_priority snap)"
    by (auto simp: validate_policy_param_def valid_priority_def split: if_splits)
  from rr.enq_valid [OF cpu_okD(2) [OF ok] this, of t] room obtain q' where
    q': "rr_enqueue t (snap_priority snap) (rr_q s) = Some q'" "rr_ok q'"
    "bucket_content (rq_queues q') = (bucket_content (rq_queues (rr_q s)))
       (snap_priority snap := bucket_content (rq_queues (rr_q s)) (snap_priority snap) @ [t])"
    "rq_count q' = rq_count (rr_q s) + 1" by (auto simp: has_room_def)
  let ?s = "s\<lparr>rr_q := q'\<rparr>"
  have "queued ?s = insert t (queued s)"
  proof -
    have "members (rt_list ?s) = insert t (members (rt_list s))"
      by (rule members_update [of _ "snap_priority snap"]) (auto simp: rt_list_def q'(3))
    moreover have "fair_list ?s = fair_list s" "idle_list ?s = idle_list s"
      by (simp_all add: fair_list_def idle_list_def fun_eq_iff)
    ultimately show ?thesis by (auto simp: queued_def)
  qed
  with Rr q' ok show ?thesis
    by (simp add: cpu_enqueue_def cpu_ok_def cpu_load_def is_current_idle_def current_task_id_def)
next
  case Other
  have "cfs_count (cfs_q s) < usize_max" using room by (simp add: has_room_def)
  note e = cfs_enqueue_ok [OF cpu_okD(3) [OF ok] this, of t "snap_vruntime snap"]
  let ?s = "s\<lparr>cfs_q := cfs_enqueue t (snap_vruntime snap) (cfs_q s)\<rparr>"
  have "queued ?s = insert t (queued s)"
  proof -
    have "members (fair_list ?s) = insert t (members (fair_list s))"
      by (rule members_update [of _ "snap_vruntime snap"]) (auto simp: fair_list_def e(3))
    moreover have "rt_list ?s = rt_list s" "idle_list ?s = idle_list s"
      by (simp_all add: rt_list_def idle_list_def fun_eq_iff)
    ultimately show ?thesis by (auto simp: queued_def)
  qed
  with Other e ok show ?thesis
    by (simp add: cpu_enqueue_def cpu_ok_def cpu_load_def is_current_idle_def current_task_id_def)
next
  case Batch
  have "cfs_count (batch_q s) < usize_max" using room by (simp add: has_room_def)
  note e = cfs_enqueue_ok [OF cpu_okD(4) [OF ok] this, of t "snap_vruntime snap"]
  let ?s = "s\<lparr>batch_q := cfs_enqueue t (snap_vruntime snap) (batch_q s)\<rparr>"
  have "queued ?s = insert t (queued s)"
  proof -
    have "members (fair_list ?s) = insert t (members (fair_list s))"
      by (rule members_update [of _ "snap_vruntime snap"]) (auto simp: fair_list_def e(3))
    moreover have "rt_list ?s = rt_list s" "idle_list ?s = idle_list s"
      by (simp_all add: rt_list_def idle_list_def fun_eq_iff)
    ultimately show ?thesis by (auto simp: queued_def)
  qed
  with Batch e ok show ?thesis
    by (simp add: cpu_enqueue_def cpu_ok_def cpu_load_def is_current_idle_def current_task_id_def)
next
  case Idle
  have "cfs_count (idle_q s) < usize_max" using room by (simp add: has_room_def)
  note e = cfs_enqueue_ok [OF cpu_okD(5) [OF ok] this, of t "snap_vruntime snap"]
  let ?s = "s\<lparr>idle_q := cfs_enqueue t (snap_vruntime snap) (idle_q s)\<rparr>"
  have "queued ?s = insert t (queued s)"
  proof -
    have "members (idle_list ?s) = insert t (members (idle_list s))"
      by (rule members_update [of _ "snap_vruntime snap"]) (auto simp: idle_list_def e(3))
    moreover have "rt_list ?s = rt_list s" "fair_list ?s = fair_list s"
      by (simp_all add: rt_list_def fair_list_def fun_eq_iff)
    ultimately show ?thesis by (auto simp: queued_def)
  qed
  with Idle e ok show ?thesis
    by (simp add: cpu_enqueue_def cpu_ok_def cpu_load_def is_current_idle_def current_task_id_def)
qed

lemma next_choice_queued:
  assumes "next_choice s t s'" "t \<notin> queued s"
  shows "idle_task_id s = Some t"
proof -
  have a: "\<not> took_rt s p t s'" "\<not> took_fair s v t s'"
    "\<not> (idle_list s v \<noteq> [] \<and> t = hd (idle_list s v))" for p v
    using assms(2) by (auto simp: took_rt_def took_fair_def queued_def members_hd)
  from assms(1) show ?thesis
    unfolding next_choice_def using a by (auto split: if_splits)
qed

text \<open>
  Placing a task with parameters \<open>validate_policy_param\<close> accepts never panics and adds
  exactly that task to the waiting ones, raising the load by one; removing a task leaves every
  other one in place, in whichever queues it waited, and from then on \<open>pick_next_runnable\<close>
  returns it only if it is the idle task of the CPU.
\<close>

theorem cpu_enqueue_dequeue_correct:
  assumes "cpu_ok s" and "has_room s"
    and "validate_policy_param (snap_policy snap) (snap_priority snap) = Inr ()"
  shows "(\<exists>s'. cpu_enqueue t snap s = Some s' \<and> cpu_ok s' \<and> queued s' = insert t (queued s) \<and>
      cpu_load s' = cpu_load s + 1) \<and>
    cpu_ok (cpu_dequeue u s) \<and> queued (cpu_dequeue u s) = queued s - {u} \<and>
    (\<forall>s'. pick_next_runnable (cpu_dequeue u s) = Some (u, s') \<longrightarrow> idle_task_id s = Some u)"
proof (intro conjI allI impI)
  note d = queued_dequeue [OF assms(1), of u]
  show "\<exists>s'. cpu_enqueue t snap s = Some s' \<and> cpu_ok s' \<and> queued s' = insert t (queued s) \<and>
      cpu_load s' = cpu_load s + 1"
    by (rule cpu_enqueue_spec [OF assms])
  show "cpu_ok (cpu_dequeue u s)" "queued (cpu_dequeue u s) = queued s - {u}" using d by blast+
  fix s'
  assume p: "pick_next_runnable (cpu_dequeue u s) = Some (u, s')"
  have "next_choice (cpu_dequeue u s) u s'" using pick_next_spec [OF conjunct1 [OF d]] p by simp
  from next_choice_queued [OF this] d show "idle_task_id s = Some u" by (simp add: cpu_dequeue_def)
qed

definition demo_snap :: task_snapshot where
  "demo_snap = \<lparr>snap_id = 8, snap_parent = None, snap_kind = KindUser,
     snap_state = Ready, snap_policy = Rr, snap_priority = 50, snap_nice = 0, snap_io_priority = 0,
     snap_vruntime = 0, snap_stats = zero_stats, snap_ready_cpu = None, snap_running_cpu = None,
     snap_last_cpu = None, snap_affinity = 1, snap_aspace = 0, snap_task_cx = 0\<rparr>"

lemma demo_cpu_room: "has_room demo_cpu"
  by (simp add: has_room_def demo_cpu_def cpu_new_def fifo_new_def rr_new_def cfs_new_def
      cfs_enqueue_def usize_max_def sat_add_def Let_def)

theorem cpu_enqueue_dequeue_correct_witness:
  "(\<exists>s'. cpu_enqueue 8 demo_snap demo_cpu = Some s' \<and> queued s' = insert 8 (queued demo_cpu)) \<and>
   queued (cpu_dequeue 5 demo_cpu) = queued demo_cpu - {5}"
  using cpu_enqueue_dequeue_correct [OF demo_cpu_ok demo_cpu_room, of demo_snap 8 5]
  by (auto simp: validate_policy_param_def demo_snap_def is_cfs_policy_def)

section \<open>When to reschedule\<close>

lemma min_option_less:
  "some_less (min_option a b) v \<longleftrightarrow> some_less a v \<or> some_less b v"
  by (auto simp: some_less_def min_option_def split: option.split)

lemma min_option_None: "min_option a b = None \<longleftrightarrow> a = None \<and> b = None"
  by (auto simp: min_option_def split: option.split)

lemma max_option_above: "some_above (max_option a b) p \<longleftrightarrow> some_above a p \<or> some_above b p"
  by (auto simp: some_above_def max_option_def split: option.split)

lemma max_option_None: "max_option a b = None \<longleftrightarrow> a = None \<and> b = None"
  by (auto simp: max_option_def split: option.split)

lemma min_ready_less:
  assumes "cfs_ok q"
  shows "some_less (min_ready_vruntime q) v \<longleftrightarrow> (\<exists>w. cfs_content q w \<noteq> [] \<and> w < v)"
    "min_ready_vruntime q = None \<longleftrightarrow> (\<forall>w. cfs_content q w = [])"
proof -
  show n: "min_ready_vruntime q = None \<longleftrightarrow> (\<forall>w. cfs_content q w = [])"
    using min_ready_spec(2) [OF assms] cfs_zero(1) [OF assms] by simp
  show "some_less (min_ready_vruntime q) v \<longleftrightarrow> (\<exists>w. cfs_content q w \<noteq> [] \<and> w < v)"
  proof (cases "min_ready_vruntime q")
    case None
    with n show ?thesis by (simp add: some_less_def)
  next
    case (Some x)
    with iffD1 [OF min_ready_spec(1) [OF assms] Some] show ?thesis
      by (auto simp: some_less_def intro: le_less_trans)
  qed
qed

lemma fifo_highest:
  assumes "fifo_ok q"
  shows "some_above (fifo_highest_priority q) p \<longleftrightarrow> (\<exists>j > p. bucket_content (fq_queues q) j \<noteq> [])"
    "fifo_highest_priority q = None \<longleftrightarrow> (\<forall>j. bucket_content (fq_queues q) j = [])"
proof -
  have ok: "buckets_ok (fq_queues q) (fq_count q)" using assms by (simp add: fifo_ok_def)
  show n: "fifo_highest_priority q = None \<longleftrightarrow> (\<forall>j. bucket_content (fq_queues q) j = [])"
    using buckets_zero [OF ok] highest_nonempty_None [of "rev (fq_queues q)"] ok
    by (auto simp: fifo_highest_priority_def buckets_ok_def total_length_zero)
  show "some_above (fifo_highest_priority q) p \<longleftrightarrow> (\<exists>j > p. bucket_content (fq_queues q) j \<noteq> [])"
  proof (cases "fifo_highest_priority q")
    case None
    with n show ?thesis by (simp add: some_above_def)
  next
    case (Some x)
    then have "highest_nonempty (rev (fq_queues q)) = Some x"
      by (simp add: fifo_highest_priority_def split: if_splits)
    with Some iffD1 [OF buckets_highest [OF ok] this] show ?thesis
      by (auto simp: some_above_def intro: less_le_trans)
  qed
qed

lemma rr_highest:
  assumes "rr_ok q"
  shows "some_above (rr_highest_priority q) p \<longleftrightarrow> (\<exists>j > p. bucket_content (rq_queues q) j \<noteq> [])"
    "rr_highest_priority q = None \<longleftrightarrow> (\<forall>j. bucket_content (rq_queues q) j = [])"
proof -
  have ok: "buckets_ok (rq_queues q) (rq_count q)" using assms by (simp add: rr_ok_def)
  show n: "rr_highest_priority q = None \<longleftrightarrow> (\<forall>j. bucket_content (rq_queues q) j = [])"
    using buckets_zero [OF ok] highest_nonempty_None [of "rev (rq_queues q)"] ok
    by (auto simp: rr_highest_priority_def buckets_ok_def total_length_zero)
  show "some_above (rr_highest_priority q) p \<longleftrightarrow> (\<exists>j > p. bucket_content (rq_queues q) j \<noteq> [])"
  proof (cases "rr_highest_priority q")
    case None
    with n show ?thesis by (simp add: some_above_def)
  next
    case (Some x)
    then have "highest_nonempty (rev (rq_queues q)) = Some x"
      by (simp add: rr_highest_priority_def split: if_splits)
    with Some iffD1 [OF buckets_highest [OF ok] this] show ?thesis
      by (auto simp: some_above_def intro: less_le_trans)
  qed
qed

lemma ready_queries:
  assumes ok: "cpu_ok s"
  shows "some_less (min_ready_fair s) v \<longleftrightarrow> (\<exists>w < v. fair_list s w \<noteq> [])"
    "min_ready_fair s = None \<longleftrightarrow> (\<forall>w. fair_list s w = [])"
    "some_less (min_ready_idle s) v \<longleftrightarrow> (\<exists>w < v. idle_list s w \<noteq> [])"
    "min_ready_idle s = None \<longleftrightarrow> (\<forall>w. idle_list s w = [])"
    "some_above (highest_priority s) p \<longleftrightarrow> (\<exists>j > p. rt_list s j \<noteq> [])"
    "highest_priority s = None \<longleftrightarrow> (\<forall>j. rt_list s j = [])"
    "0 < cfs_count (cfs_q s) \<or> 0 < cfs_count (batch_q s) \<longleftrightarrow> (\<exists>w. fair_list s w \<noteq> [])"
proof -
  note c = min_ready_less [OF cpu_okD(3) [OF ok]] and b = min_ready_less [OF cpu_okD(4) [OF ok]]
    and i = min_ready_less [OF cpu_okD(5) [OF ok]] and f = fifo_highest [OF cpu_okD(1) [OF ok]]
    and r = rr_highest [OF cpu_okD(2) [OF ok]]
  show "some_less (min_ready_fair s) v \<longleftrightarrow> (\<exists>w < v. fair_list s w \<noteq> [])"
    unfolding min_ready_fair_def min_option_less c(1) b(1) fair_list_def by auto
  show "min_ready_fair s = None \<longleftrightarrow> (\<forall>w. fair_list s w = [])"
    unfolding min_ready_fair_def min_option_None c(2) b(2) fair_list_def by auto
  show "some_less (min_ready_idle s) v \<longleftrightarrow> (\<exists>w < v. idle_list s w \<noteq> [])"
    unfolding min_ready_idle_def i(1) idle_list_def by auto
  show "min_ready_idle s = None \<longleftrightarrow> (\<forall>w. idle_list s w = [])"
    unfolding min_ready_idle_def i(2) idle_list_def by auto
  show "some_above (highest_priority s) p \<longleftrightarrow> (\<exists>j > p. rt_list s j \<noteq> [])"
    unfolding highest_priority_def max_option_above f(1) r(1) rt_list_def by auto
  show "highest_priority s = None \<longleftrightarrow> (\<forall>j. rt_list s j = [])"
    unfolding highest_priority_def max_option_None f(2) r(2) rt_list_def by auto
  have z: "0 < cfs_count q \<longleftrightarrow> (\<exists>w. cfs_content q w \<noteq> [])" if "cfs_ok q" for q
    using cfs_zero(1) [OF that] by (metis gr0I not_gr_zero)
  show "0 < cfs_count (cfs_q s) \<or> 0 < cfs_count (batch_q s) \<longleftrightarrow> (\<exists>w. fair_list s w \<noteq> [])"
    unfolding z [OF cpu_okD(3) [OF ok]] z [OF cpu_okD(4) [OF ok]] fair_list_def by auto
qed

text \<open>
  On a well-formed CPU whose current task may run there, the tick-time check asks for a
  reschedule exactly when a waiting task should run instead: any waiting task when the CPU
  idles; for a fair task any real-time task or a fair task with a smaller virtual runtime; for
  an IDLE-class task also any fair task; for a real-time task only a strictly higher priority,
  or, for RR, an expired time slice.
\<close>

theorem cpu_should_reschedule_correct:
  assumes "cpu_ok s" and "mask_contains (current_affinity s) (cs_cpu_id s)"
  shows "cpu_should_reschedule CauseTick s \<longleftrightarrow>
    (if is_current_idle s then queued s \<noteq> {}
     else case current_policy s of
       Other \<Rightarrow> (\<exists>p. rt_list s p \<noteq> []) \<or> (\<exists>v < current_vruntime s. fair_list s v \<noteq> [])
     | Batch \<Rightarrow> (\<exists>p. rt_list s p \<noteq> []) \<or> (\<exists>v < current_vruntime s. fair_list s v \<noteq> [])
     | Idle \<Rightarrow> (\<exists>p. rt_list s p \<noteq> []) \<or> (\<exists>v. fair_list s v \<noteq> []) \<or>
         (\<exists>v < current_vruntime s. idle_list s v \<noteq> [])
     | Fifo \<Rightarrow> (\<exists>p > current_priority s. rt_list s p \<noteq> [])
     | Rr \<Rightarrow> max_ticks_per_task \<le> current_ticks s \<or> (\<exists>p > current_priority s. rt_list s p \<noteq> []))"
proof -
  note q = ready_queries [OF assms(1)]
  have empty: "queued s \<noteq> {} \<longleftrightarrow> (\<exists>p. rt_list s p \<noteq> []) \<or> (\<exists>v. fair_list s v \<noteq> []) \<or>
      (\<exists>v. idle_list s v \<noteq> [])"
    by (auto simp: queued_def members_empty)
  have idle: "is_current_idle s \<Longrightarrow> cpu_should_reschedule CauseTick s \<longleftrightarrow>
      \<not> (\<forall>w. fair_list s w = []) \<or> \<not> (\<forall>j. rt_list s j = []) \<or> \<not> (\<forall>w. idle_list s w = [])"
    using assms(2) by (simp only: cpu_should_reschedule_def q(2) q(4) q(6) not_not if_True if_False
        resched_cause.distinct simp_thms)
  have fair: "some_less (min_ready_fair s) v \<longleftrightarrow> (\<exists>w < v. fair_list s w \<noteq> [])" for v
    by (rule ready_queries(1) [OF assms(1)])
  have lazy: "some_less (min_ready_idle s) v \<longleftrightarrow> (\<exists>w < v. idle_list s w \<noteq> [])" for v
    by (rule ready_queries(3) [OF assms(1)])
  have rt: "some_above (highest_priority s) p \<longleftrightarrow> (\<exists>j > p. rt_list s j \<noteq> [])" for p
    by (rule ready_queries(5) [OF assms(1)])
  have rt_any: "highest_priority s \<noteq> None \<longleftrightarrow> (\<exists>j. rt_list s j \<noteq> [])" using q(6) by simp
  show ?thesis
  proof (cases "is_current_idle s")
    case True
    with idle empty show ?thesis by auto
  next
    case False
    then have "cpu_should_reschedule CauseTick s =
      (case current_policy s of
         Other \<Rightarrow> highest_priority s \<noteq> None \<or> some_less (min_ready_fair s) (current_vruntime s)
       | Batch \<Rightarrow> highest_priority s \<noteq> None \<or> some_less (min_ready_fair s) (current_vruntime s)
       | Idle \<Rightarrow> highest_priority s \<noteq> None \<or> (0 < cfs_count (cfs_q s) \<or> 0 < cfs_count (batch_q s)) \<or>
           some_less (min_ready_idle s) (current_vruntime s)
       | Fifo \<Rightarrow> some_above (highest_priority s) (current_priority s)
       | Rr \<Rightarrow> current_ticks s \<ge> max_ticks_per_task \<or> some_above (highest_priority s) (current_priority s))"
      using assms(2) by (simp add: cpu_should_reschedule_def split: sched_policy.split)
    then show ?thesis
      using False by (simp only: fair lazy rt rt_any q(7) if_False)
  qed
qed

theorem cpu_should_reschedule_correct_witness:
  "\<not> cpu_should_reschedule CauseTick demo_cpu"
proof -
  have m: "mask_contains (current_affinity demo_cpu) (cs_cpu_id demo_cpu)"
    by (simp add: current_affinity_def demo_cpu_def cpu_new_def mask_contains_def)
  have c: "\<not> is_current_idle demo_cpu" "current_policy demo_cpu = Other"
    "current_vruntime demo_cpu = 4"
    by (simp_all add: is_current_idle_def current_task_id_def current_policy_def
        current_vruntime_def demo_cpu_def)
  from cpu_should_reschedule_correct [OF demo_cpu_ok m] show ?thesis
    by (auto simp: c demo_lists split: if_splits)
qed

section \<open>Virtual runtime\<close>

text \<open>
  The baseline of a class never passes what still has to run: no waiting fair task and no
  running fair task has a virtual runtime below \<open>min_vruntime\<close>, and likewise for the IDLE class.
\<close>

definition base_queue :: "cpu_state \<Rightarrow> bool" where
  "base_queue s \<longleftrightarrow> (\<forall>v. fair_list s v \<noteq> [] \<longrightarrow> min_vruntime s \<le> v) \<and>
     (\<forall>v. idle_list s v \<noteq> [] \<longrightarrow> idle_min_vruntime s \<le> v)"

lemma lists_of_queues:
  assumes "cfs_q s' = cfs_q s" "batch_q s' = batch_q s" "idle_q s' = idle_q s" "rr_q s' = rr_q s"
    "fifo_q s' = fifo_q s"
  shows "fair_list s' = fair_list s" "idle_list s' = idle_list s" "rt_list s' = rt_list s"
    "cpu_ok s' = cpu_ok s" "queued s' = queued s" "min_ready_fair s' = min_ready_fair s"
    "min_ready_idle s' = min_ready_idle s"
proof -
  show "fair_list s' = fair_list s" "idle_list s' = idle_list s" "rt_list s' = rt_list s"
    by (simp_all add: fair_list_def idle_list_def rt_list_def assms fun_eq_iff)
  then show "queued s' = queued s" by (simp add: queued_def)
  show "cpu_ok s' = cpu_ok s" "min_ready_fair s' = min_ready_fair s"
    "min_ready_idle s' = min_ready_idle s"
    by (simp_all add: cpu_ok_def min_ready_fair_def min_ready_idle_def assms)
qed

lemma min_ready_le:
  assumes "cpu_ok s"
  shows "min_ready_fair s = Some m \<Longrightarrow> fair_list s v \<noteq> [] \<Longrightarrow> m \<le> v"
    "min_ready_idle s = Some m \<Longrightarrow> idle_list s v \<noteq> [] \<Longrightarrow> m \<le> v"
proof -
  assume "min_ready_fair s = Some m" "fair_list s v \<noteq> []"
  with ready_queries(1) [OF assms, of m] show "m \<le> v"
    by (auto simp: some_less_def not_less [symmetric])
next
  assume "min_ready_idle s = Some m" "idle_list s v \<noteq> []"
  with ready_queries(3) [OF assms, of m] show "m \<le> v"
    by (auto simp: some_less_def not_less [symmetric])
qed

lemma update_min_vruntime_spec:
  assumes ok: "cpu_ok s" and base: "base_queue s"
  shows "base_queue (update_min_vruntime s) \<and> min_vruntime s \<le> min_vruntime (update_min_vruntime s)
    \<and> idle_min_vruntime (update_min_vruntime s) = idle_min_vruntime s
    \<and> (\<exists>m. update_min_vruntime s = s\<lparr>min_vruntime := m\<rparr>)
    \<and> (\<not> is_current_idle s \<longrightarrow> current_policy s \<in> {Other, Batch} \<longrightarrow>
         min_vruntime s \<le> current_vruntime s \<longrightarrow>
         min_vruntime (update_min_vruntime s) \<le> current_vruntime s)"
proof -
  let ?run = "\<not> is_current_idle s \<and> current_policy s \<in> {Other, Batch}"
  let ?c = "if ?run then Some (case min_ready_fair s of None \<Rightarrow> current_vruntime s
                       | Some ready \<Rightarrow> min ready (current_vruntime s)) else min_ready_fair s"
  have u: "update_min_vruntime s =
      (case ?c of None \<Rightarrow> s | Some c \<Rightarrow> s\<lparr>min_vruntime := max (min_vruntime s) c\<rparr>)"
    by (simp add: update_min_vruntime_def Let_def)
  have keep: "\<exists>m. s = s\<lparr>min_vruntime := m\<rparr>" by (rule exI [of _ "min_vruntime s"]) simp
  show ?thesis
  proof (cases ?c)
    case None
    then show ?thesis
      unfolding u using base keep by (auto simp: split: if_splits)
  next
    case (Some c)
    have low: "c \<le> v" if "fair_list s v \<noteq> []" for v
    proof -
      have "min_ready_fair s \<noteq> None" using that ready_queries(2) [OF ok] by auto
      then obtain m where m: "min_ready_fair s = Some m" by auto
      have "m \<le> v" by (rule min_ready_le(1) [OF ok m that])
      moreover have "c \<le> m" using Some m by (auto split: if_splits)
      ultimately show ?thesis by simp
    qed
    have run: "c \<le> current_vruntime s" if ?run
      using Some [unfolded if_P [OF that]] by (auto split: option.splits)
    let ?s = "s\<lparr>min_vruntime := max (min_vruntime s) c\<rparr>"
    have us: "update_min_vruntime s = ?s" unfolding u Some by simp
    have "fair_list ?s = fair_list s" "idle_list ?s = idle_list s"
      by (rule lists_of_queues; simp)+
    then have "base_queue ?s" using base low by (simp add: base_queue_def)
    with run show ?thesis unfolding us by auto
  qed
qed

lemma update_idle_min_vruntime_spec:
  assumes ok: "cpu_ok s" and base: "base_queue s"
  shows "base_queue (update_idle_min_vruntime s) \<and>
    idle_min_vruntime s \<le> idle_min_vruntime (update_idle_min_vruntime s)
    \<and> min_vruntime (update_idle_min_vruntime s) = min_vruntime s
    \<and> (\<exists>m. update_idle_min_vruntime s = s\<lparr>idle_min_vruntime := m\<rparr>)
    \<and> (\<not> is_current_idle s \<longrightarrow> current_policy s = Idle \<longrightarrow>
         idle_min_vruntime s \<le> current_vruntime s \<longrightarrow>
         idle_min_vruntime (update_idle_min_vruntime s) \<le> current_vruntime s)"
proof -
  let ?run = "\<not> is_current_idle s \<and> current_policy s = Idle"
  let ?c = "if ?run then Some (case min_ready_idle s of None \<Rightarrow> current_vruntime s
                       | Some ready \<Rightarrow> min ready (current_vruntime s)) else min_ready_idle s"
  have u: "update_idle_min_vruntime s =
      (case ?c of None \<Rightarrow> s | Some c \<Rightarrow> s\<lparr>idle_min_vruntime := max (idle_min_vruntime s) c\<rparr>)"
    by (simp add: update_idle_min_vruntime_def Let_def)
  have keep: "\<exists>m. s = s\<lparr>idle_min_vruntime := m\<rparr>"
    by (rule exI [of _ "idle_min_vruntime s"]) simp
  show ?thesis
  proof (cases ?c)
    case None
    then show ?thesis
      unfolding u using base keep by (auto simp: split: if_splits)
  next
    case (Some c)
    have low: "c \<le> v" if "idle_list s v \<noteq> []" for v
    proof -
      have "min_ready_idle s \<noteq> None" using that ready_queries(4) [OF ok] by auto
      then obtain m where m: "min_ready_idle s = Some m" by auto
      have "m \<le> v" by (rule min_ready_le(2) [OF ok m that])
      moreover have "c \<le> m" using Some m by (auto split: if_splits)
      ultimately show ?thesis by simp
    qed
    have run: "c \<le> current_vruntime s" if ?run
      using Some [unfolded if_P [OF that]] by (auto split: option.splits)
    let ?s = "s\<lparr>idle_min_vruntime := max (idle_min_vruntime s) c\<rparr>"
    have us: "update_idle_min_vruntime s = ?s" unfolding u Some by simp
    have "fair_list ?s = fair_list s" "idle_list ?s = idle_list s"
      by (rule lists_of_queues; simp)+
    then have "base_queue ?s" using base low by (simp add: base_queue_def)
    with run show ?thesis unfolding us by auto
  qed
qed

subsection \<open>The timer tick\<close>

definition base_current :: "cpu_state \<Rightarrow> bool" where
  "base_current s \<longleftrightarrow> (\<not> is_current_idle s \<longrightarrow>
     (current_policy s \<in> {Other, Batch} \<longrightarrow> min_vruntime s \<le> current_vruntime s) \<and>
     (current_policy s = Idle \<longrightarrow> idle_min_vruntime s \<le> current_vruntime s))"

lemma advance_current_vruntime_spec:
  fixes s d
  defines "a \<equiv> advance_current_vruntime d s"
  shows "current_policy a = current_policy s" "current_task_id a = current_task_id s"
    "is_current_idle a = is_current_idle s" "min_vruntime a = min_vruntime s"
    "idle_min_vruntime a = idle_min_vruntime s" "idle_task_id a = idle_task_id s"
    "current_snapshot s \<noteq> None \<Longrightarrow> current_vruntime a = sat_add u64_max (current_vruntime s) d"
    "current_snapshot s = None \<Longrightarrow> a = s"
    "cpu_ok a = cpu_ok s" "base_queue a = base_queue s" "queued a = queued s"
proof -
  have l: "fair_list a = fair_list s" "idle_list a = idle_list s" "cpu_ok a = cpu_ok s" "queued a = queued s"
    unfolding a_def by (rule lists_of_queues; simp add: advance_current_vruntime_def)+
  show "cpu_ok a = cpu_ok s" "queued a = queued s" by (rule l)+
  show "min_vruntime a = min_vruntime s" "idle_min_vruntime a = idle_min_vruntime s"
    by (simp_all add: a_def advance_current_vruntime_def)
  with l show "base_queue a = base_queue s" by (simp add: base_queue_def)
qed (cases "current_snapshot s";
    simp add: a_def advance_current_vruntime_def current_policy_def current_task_id_def
      is_current_idle_def current_vruntime_def)+

text \<open>The state with the tick counted, before any runtime is charged.\<close>

definition counted :: "cpu_state \<Rightarrow> cpu_state" where
  "counted s = s\<lparr>timer_ticks := sat_add u64_max (timer_ticks s) 1,
       idle_ticks := (if is_current_idle s then sat_add u64_max (idle_ticks s) 1 else idle_ticks s),
       current_runtime_ticks := sat_add u64_max (current_runtime_ticks s) 1\<rparr>"

lemma counted_projections:
  "current_policy (counted s) = current_policy s" "current_task_id (counted s) = current_task_id s"
  "is_current_idle (counted s) = is_current_idle s" "current_nice (counted s) = current_nice s"
  "current_vruntime (counted s) = current_vruntime s" "base_current (counted s) = base_current s"
  "cpu_ok (counted s) = cpu_ok s" "base_queue (counted s) = base_queue s"
  "queued (counted s) = queued s" "current_snapshot (counted s) = current_snapshot s"
  "min_vruntime (counted s) = min_vruntime s" "idle_min_vruntime (counted s) = idle_min_vruntime s"
proof -
  have l: "fair_list (counted s) = fair_list s" "idle_list (counted s) = idle_list s"
    "cpu_ok (counted s) = cpu_ok s" "queued (counted s) = queued s"
    unfolding counted_def by (rule lists_of_queues; simp)+
  show "cpu_ok (counted s) = cpu_ok s" "queued (counted s) = queued s" by (rule l)+
  show "base_queue (counted s) = base_queue s" using l by (simp add: base_queue_def counted_def)
qed (simp_all add: counted_def current_policy_def current_task_id_def is_current_idle_def
    current_nice_def current_vruntime_def base_current_def)

lemma cpu_tick_eq:
  "cpu_tick s =
    (let a = counted s
     in if current_policy s \<in> {Other, Batch} \<and> \<not> is_current_idle s then
          map_option (\<lambda>w. update_min_vruntime (advance_current_vruntime (tick_delta w) a))
            (nice_weight (current_nice s))
        else if current_policy s = Idle \<and> \<not> is_current_idle s then
          map_option (\<lambda>w. update_idle_min_vruntime (advance_current_vruntime (tick_delta w) a))
            (nice_weight (current_nice s))
        else if current_policy s = Rr then
          Some (a\<lparr>current_ticks := sat_add u64_max (current_ticks s) 1\<rparr>)
        else Some a)"
proof -
  have "is_current_idle (s\<lparr>timer_ticks := n\<rparr>) = is_current_idle s" for n
    by (simp add: is_current_idle_def current_task_id_def)
  moreover have "is_current_idle (s\<lparr>timer_ticks := n, idle_ticks := i, current_runtime_ticks := r\<rparr>) =
      is_current_idle s"
    "is_current_idle (s\<lparr>timer_ticks := n, current_runtime_ticks := r\<rparr>) = is_current_idle s"
    "current_policy (s\<lparr>timer_ticks := n, idle_ticks := i, current_runtime_ticks := r\<rparr>) = current_policy s"
    "current_policy (s\<lparr>timer_ticks := n, current_runtime_ticks := r\<rparr>) = current_policy s"
    "current_nice (s\<lparr>timer_ticks := n, current_runtime_ticks := r\<rparr>) = current_nice s"
    "s\<lparr>timer_ticks := n, idle_ticks := idle_ticks s, current_runtime_ticks := r\<rparr> =
      s\<lparr>timer_ticks := n, current_runtime_ticks := r\<rparr>" for n i r
    by (simp_all add: is_current_idle_def current_task_id_def current_policy_def current_nice_def)
  ultimately show ?thesis
    by (cases "current_policy s"; cases "is_current_idle s") (simp_all add: cpu_tick_def counted_def Let_def)
qed

lemma nice_weight_None: "nice_weight n = None \<longleftrightarrow> n < -20 \<or> 19 < n"
  by (auto simp: nice_weight_def nice_to_weight_def)

lemma tick_deltas: "sorted_wrt (<) (map tick_delta nice_to_weight)"
  by (simp add: nice_to_weight_def tick_delta_def nice_0_weight_def vruntime_scale_def u64_max_def)

lemma baseline_projections:
  "current_policy (s\<lparr>min_vruntime := m\<rparr>) = current_policy s"
  "current_task_id (s\<lparr>min_vruntime := m\<rparr>) = current_task_id s"
  "is_current_idle (s\<lparr>min_vruntime := m\<rparr>) = is_current_idle s"
  "current_vruntime (s\<lparr>min_vruntime := m\<rparr>) = current_vruntime s"
  "cpu_ok (s\<lparr>min_vruntime := m\<rparr>) = cpu_ok s"
  "queued (s\<lparr>min_vruntime := m\<rparr>) = queued s"
  "current_policy (s\<lparr>idle_min_vruntime := m\<rparr>) = current_policy s"
  "current_task_id (s\<lparr>idle_min_vruntime := m\<rparr>) = current_task_id s"
  "is_current_idle (s\<lparr>idle_min_vruntime := m\<rparr>) = is_current_idle s"
  "current_vruntime (s\<lparr>idle_min_vruntime := m\<rparr>) = current_vruntime s"
  "cpu_ok (s\<lparr>idle_min_vruntime := m\<rparr>) = cpu_ok s"
  "queued (s\<lparr>idle_min_vruntime := m\<rparr>) = queued s"
proof -
  show "queued (s\<lparr>min_vruntime := m\<rparr>) = queued s" "queued (s\<lparr>idle_min_vruntime := m\<rparr>) = queued s"
    by (rule lists_of_queues; simp)+
qed (simp_all add: current_policy_def current_task_id_def is_current_idle_def current_vruntime_def
    cpu_ok_def)

definition tick_keeps :: "cpu_state \<Rightarrow> cpu_state \<Rightarrow> bool" where
  "tick_keeps s s' \<longleftrightarrow> cpu_ok s' \<and> base_queue s' \<and> base_current s' \<and> queued s' = queued s \<and>
     current_task_id s' = current_task_id s \<and> current_policy s' = current_policy s \<and>
     min_vruntime s \<le> min_vruntime s' \<and> idle_min_vruntime s \<le> idle_min_vruntime s'"

lemma update_min_keeps:
  assumes "cpu_ok s" "base_queue s" "base_current s"
  shows "current_policy s \<in> {Other, Batch} \<Longrightarrow> \<not> is_current_idle s \<Longrightarrow>
      tick_keeps s (update_min_vruntime s) \<and>
      current_vruntime (update_min_vruntime s) = current_vruntime s"
    "current_policy s = Idle \<Longrightarrow> \<not> is_current_idle s \<Longrightarrow>
      tick_keeps s (update_idle_min_vruntime s) \<and>
      current_vruntime (update_idle_min_vruntime s) = current_vruntime s"
proof -
  assume p: "current_policy s \<in> {Other, Batch}" and i: "\<not> is_current_idle s"
  have b: "min_vruntime s \<le> current_vruntime s" using assms(3) p i by (auto simp: base_current_def)
  note u = update_min_vruntime_spec [OF assms(1,2)]
  then obtain m where m: "update_min_vruntime s = s\<lparr>min_vruntime := m\<rparr>" by blast
  from u p i b have "m \<le> current_vruntime s" by (auto simp: m)
  with u p assms show "tick_keeps s (update_min_vruntime s) \<and>
      current_vruntime (update_min_vruntime s) = current_vruntime s"
    unfolding m tick_keeps_def base_current_def baseline_projections by auto
next
  assume p: "current_policy s = Idle" and i: "\<not> is_current_idle s"
  have b: "idle_min_vruntime s \<le> current_vruntime s" using assms(3) p i by (simp add: base_current_def)
  note u = update_idle_min_vruntime_spec [OF assms(1,2)]
  then obtain m where m: "update_idle_min_vruntime s = s\<lparr>idle_min_vruntime := m\<rparr>" by blast
  from u p i b have "m \<le> current_vruntime s" by (auto simp: m)
  with u p assms show "tick_keeps s (update_idle_min_vruntime s) \<and>
      current_vruntime (update_idle_min_vruntime s) = current_vruntime s"
    unfolding m tick_keeps_def base_current_def baseline_projections by auto
qed

lemma advance_keeps:
  assumes "base_current s" "current_vruntime s \<le> u64_max"
  shows "base_current (advance_current_vruntime d s)"
proof (cases "current_snapshot s")
  case None
  with advance_current_vruntime_spec(8) [OF None, of d] assms show ?thesis by simp
next
  case (Some t)
  then have "current_vruntime (advance_current_vruntime d s) = sat_add u64_max (current_vruntime s) d"
    by (intro advance_current_vruntime_spec(7)) simp
  moreover have "current_vruntime s \<le> sat_add u64_max (current_vruntime s) d"
    using assms(2) by (simp add: sat_add_def)
  ultimately show ?thesis
    using assms(1) by (auto simp: base_current_def advance_current_vruntime_spec)
qed

text \<open>
  C16. A timer tick on a well-formed CPU panics only for a running fair task whose nice value
  is outside -20..19. Otherwise it charges the running fair task, and only that one, the
  runtime of one tick weighted by its nice value (at least one unit, and more the higher the
  nice value); it keeps the queues, the current task and the invariant that no waiting or
  running task of a class is behind the baseline of its class; and it never moves a baseline
  back.
\<close>

theorem cpu_tick_correct:
  assumes "cpu_ok s" and "base_queue s" and "base_current s" and "current_vruntime s \<le> u64_max"
  shows "(case cpu_tick s of
      None \<Rightarrow> \<not> is_current_idle s \<and> is_cfs_policy (current_policy s) \<and>
        (current_nice s < -20 \<or> 19 < current_nice s)
    | Some s' \<Rightarrow> tick_keeps s s' \<and>
        (if \<not> is_current_idle s \<and> is_cfs_policy (current_policy s) \<and> current_snapshot s \<noteq> None
         then \<exists>w. nice_weight (current_nice s) = Some w \<and> 0 < tick_delta w \<and>
           current_vruntime s' = sat_add u64_max (current_vruntime s) (tick_delta w)
         else current_vruntime s' = current_vruntime s)) \<and>
    (\<forall>m n. -20 \<le> m \<and> m < n \<and> n \<le> 19 \<longrightarrow> (\<exists>w w'. nice_weight m = Some w \<and>
      nice_weight n = Some w' \<and> tick_delta w < tick_delta w'))"
proof (intro conjI allI impI; (elim conjE)?)
  fix m n :: int
  assume mn: "-20 \<le> m" "m < n" "n \<le> 19"
  have len: "length nice_to_weight = 40" by (simp add: nice_to_weight_def)
  have "nat (m + 20) < nat (n + 20)" "nat (n + 20) < 40" using mn by auto
  from sorted_wrt_nth_less [OF tick_deltas this(1)] this len mn
  show "\<exists>w w'. nice_weight m = Some w \<and> nice_weight n = Some w' \<and> tick_delta w < tick_delta w'"
    by (auto simp: nice_weight_def)
next
  let ?a = "counted s"
  note a = counted_projections [of s]
  have ak: "tick_keeps s ?a"
    using assms by (simp add: tick_keeps_def a)
  have delta: "0 < tick_delta w" for w by (simp add: tick_delta_def)
  let ?b = "\<lambda>w. advance_current_vruntime (tick_delta w) ?a"
  note b = advance_current_vruntime_spec [where s = ?a and d = "tick_delta w" for w, unfolded a]
  have bk: "cpu_ok (?b w)" "base_queue (?b w)" "base_current (?b w)" for w
    using assms by (simp_all add: b advance_keeps a)
  have bv: "current_vruntime (?b w) =
      (if current_snapshot s \<noteq> None then sat_add u64_max (current_vruntime s) (tick_delta w)
       else current_vruntime s)" for w
    using b(7) [of w] b(8) [of w] by (cases "current_snapshot s") (simp_all add: a)
  have through: "tick_keeps s s'" if "tick_keeps (?b w) s'" for s' w
    using that by (simp add: tick_keeps_def b)
  show "case cpu_tick s of
      None \<Rightarrow> \<not> is_current_idle s \<and> is_cfs_policy (current_policy s) \<and>
        (current_nice s < -20 \<or> 19 < current_nice s)
    | Some s' \<Rightarrow> tick_keeps s s' \<and>
        (if \<not> is_current_idle s \<and> is_cfs_policy (current_policy s) \<and> current_snapshot s \<noteq> None
         then \<exists>w. nice_weight (current_nice s) = Some w \<and> 0 < tick_delta w \<and>
           current_vruntime s' = sat_add u64_max (current_vruntime s) (tick_delta w)
         else current_vruntime s' = current_vruntime s)"
  proof (cases "\<not> is_current_idle s \<and> is_cfs_policy (current_policy s)")
    case fair: True
    show ?thesis
    proof (cases "nice_weight (current_nice s)")
      case None
      with fair have "cpu_tick s = None" by (auto simp: cpu_tick_eq is_cfs_policy_def Let_def)
      with fair None show ?thesis by (simp add: nice_weight_None)
    next
      case (Some w)
      obtain s' where s': "cpu_tick s = Some s'" "tick_keeps (?b w) s'"
        "current_vruntime s' = current_vruntime (?b w)"
      proof (cases "current_policy s = Idle")
        case True
        then have "cpu_tick s = Some (update_idle_min_vruntime (?b w))"
          using fair Some by (simp add: cpu_tick_eq Let_def)
        with update_min_keeps(2) [OF bk(1-3) [of w]] True fair that show ?thesis by (simp add: b)
      next
        case False
        then have p: "current_policy s \<in> {Other, Batch}" using fair by (auto simp: is_cfs_policy_def)
        then have "cpu_tick s = Some (update_min_vruntime (?b w))"
          using fair Some by (simp add: cpu_tick_eq Let_def)
        with update_min_keeps(1) [OF bk(1-3) [of w]] p fair that show ?thesis by (simp add: b)
      qed
      with through [OF s'(2)] fair Some bv delta show ?thesis by simp
    qed
  next
    case False
    let ?r = "?a\<lparr>current_ticks := sat_add u64_max (current_ticks s) 1\<rparr>"
    have l: "fair_list ?r = fair_list ?a" "idle_list ?r = idle_list ?a" "cpu_ok ?r = cpu_ok ?a"
      "queued ?r = queued ?a"
      by (rule lists_of_queues; simp)+
    have v: "current_vruntime ?r = current_vruntime ?a" "current_policy ?r = current_policy ?a"
      "current_task_id ?r = current_task_id ?a" "is_current_idle ?r = is_current_idle ?a"
      by (simp_all add: current_vruntime_def current_policy_def current_task_id_def is_current_idle_def)
    have "tick_keeps s ?r"
      using ak l v by (simp add: tick_keeps_def base_queue_def base_current_def)
    have rv: "current_vruntime ?r = current_vruntime s" using v(1) a(5) by simp
    have "cpu_tick s = Some ?r \<or> cpu_tick s = Some ?a"
    proof -
      have "\<not> (current_policy s \<in> {Other, Batch} \<and> \<not> is_current_idle s)"
        "\<not> (current_policy s = Idle \<and> \<not> is_current_idle s)"
        using False by (auto simp: is_cfs_policy_def)
      then show ?thesis
        unfolding cpu_tick_eq Let_def by (simp only: if_False split: if_split) blast
    qed
    then obtain s' where "cpu_tick s = Some s'" "tick_keeps s s'"
      "current_vruntime s' = current_vruntime s"
    proof (elim disjE)
      assume "cpu_tick s = Some ?r"
      then show thesis using \<open>tick_keeps s ?r\<close> rv by (rule that)
    next
      assume "cpu_tick s = Some ?a"
      then show thesis using ak a(5) by (rule that)
    qed
    then show ?thesis using False by auto
  qed
qed

lemma demo_base: "base_queue demo_cpu" "base_current demo_cpu" "current_vruntime demo_cpu = 4"
  "current_nice demo_cpu = 0" "current_policy demo_cpu = Other" "\<not> is_current_idle demo_cpu"
  "current_snapshot demo_cpu \<noteq> None"
proof -
  show v: "current_vruntime demo_cpu = 4" "current_nice demo_cpu = 0" "current_policy demo_cpu = Other"
    "\<not> is_current_idle demo_cpu" "current_snapshot demo_cpu \<noteq> None"
    by (simp_all add: demo_cpu_def current_vruntime_def current_nice_def current_policy_def
        is_current_idle_def current_task_id_def)
  have m: "min_vruntime demo_cpu = 0" "idle_min_vruntime demo_cpu = 0"
    by (simp_all add: demo_cpu_def cpu_new_def)
  show "base_queue demo_cpu" by (simp add: base_queue_def m)
  show "base_current demo_cpu" by (simp add: base_current_def m)
qed

theorem cpu_tick_correct_witness:
  "\<exists>s'. cpu_tick demo_cpu = Some s' \<and> current_vruntime s' = 4 + 2 ^ 20 \<and> base_queue s'"
proof -
  have w: "nice_weight 0 = Some 1024" by (simp add: nice_weight_def nice_to_weight_def)
  have d: "sat_add u64_max 4 (tick_delta 1024) = 4 + 2 ^ 20"
    by (simp add: tick_delta_def sat_add_def u64_max_def nice_0_weight_def vruntime_scale_def)
  have "current_vruntime demo_cpu \<le> u64_max" by (simp add: demo_base u64_max_def)
  note C = cpu_tick_correct [OF demo_cpu_ok demo_base(1,2) this, THEN conjunct1]
  obtain s' where s': "cpu_tick demo_cpu = Some s'" using C by (cases "cpu_tick demo_cpu") (auto simp: demo_base)
  with C have "current_vruntime s' = sat_add u64_max 4 (tick_delta 1024)" "tick_keeps demo_cpu s'"
    by (auto simp: demo_base is_cfs_policy_def w)
  with s' d show ?thesis by (simp add: tick_keeps_def)
qed

subsection \<open>Placing and picking against the baseline\<close>

lemma cpu_enqueue_fair:
  assumes ok: "cpu_ok s" and room: "has_room s" and p: "snap_policy snap \<in> {Other, Batch}"
  obtains s' where "cpu_enqueue t snap s = Some s'" "cpu_ok s'" "rt_list s' = rt_list s"
    "idle_list s' = idle_list s" "\<And>w. w \<noteq> snap_vruntime snap \<Longrightarrow> fair_list s' w = fair_list s w"
    "set (fair_list s' (snap_vruntime snap)) = insert t (set (fair_list s (snap_vruntime snap)))"
    "min_vruntime s' = min_vruntime s" "idle_min_vruntime s' = idle_min_vruntime s"
proof -
  have "cfs_count (cfs_q s) < usize_max" "cfs_count (batch_q s) < usize_max"
    using room by (simp_all add: has_room_def)
  note c = cfs_enqueue_ok [OF cpu_okD(3) [OF ok] this(1), of t "snap_vruntime snap"]
    and b = cfs_enqueue_ok [OF cpu_okD(4) [OF ok] this(2), of t "snap_vruntime snap"]
  show thesis
  proof (cases "snap_policy snap = Other")
    case True
    let ?s = "s\<lparr>cfs_q := cfs_enqueue t (snap_vruntime snap) (cfs_q s)\<rparr>"
    have "cpu_enqueue t snap s = Some ?s" using True by (simp add: cpu_enqueue_def)
    then show thesis
      by (rule that) (use ok c in \<open>auto simp: cpu_ok_def rt_list_def idle_list_def fair_list_def fun_eq_iff\<close>)
  next
    case False
    let ?s = "s\<lparr>batch_q := cfs_enqueue t (snap_vruntime snap) (batch_q s)\<rparr>"
    have "cpu_enqueue t snap s = Some ?s" using False p by (simp add: cpu_enqueue_def)
    then show thesis
      by (rule that) (use ok b in \<open>auto simp: cpu_ok_def rt_list_def idle_list_def fair_list_def fun_eq_iff\<close>)
  qed
qed

lemma cpu_enqueue_idle:
  assumes ok: "cpu_ok s" and room: "has_room s" and p: "snap_policy snap = Idle"
  obtains s' where "cpu_enqueue t snap s = Some s'" "fair_list s' = fair_list s"
    "\<And>w. w \<noteq> snap_vruntime snap \<Longrightarrow> idle_list s' w = idle_list s w"
    "min_vruntime s' = min_vruntime s" "idle_min_vruntime s' = idle_min_vruntime s"
proof -
  have "cfs_count (idle_q s) < usize_max" using room by (simp add: has_room_def)
  note c = cfs_enqueue_ok [OF cpu_okD(5) [OF ok] this(1), of t "snap_vruntime snap"]
  let ?s = "s\<lparr>idle_q := cfs_enqueue t (snap_vruntime snap) (idle_q s)\<rparr>"
  have "cpu_enqueue t snap s = Some ?s" using p by (simp add: cpu_enqueue_def)
  then show thesis
    by (rule that) (use c in \<open>auto simp: idle_list_def fair_list_def fun_eq_iff\<close>)
qed

definition place_normalized :: "task_id \<Rightarrow> task_snapshot \<Rightarrow> cpu_state \<Rightarrow> cpu_state option" where
  "place_normalized t snap s =
     cpu_enqueue t (case normalize_vruntime (snap_vruntime snap) (snap_policy snap) s of
         None \<Rightarrow> snap | Some v \<Rightarrow> snap\<lparr>snap_vruntime := v\<rparr>) s"

lemma place_normalized_base:
  assumes ok: "cpu_ok s" and base: "base_queue s" and room: "has_room s"
    and s': "place_normalized t snap s = Some s'"
  shows "base_queue s' \<and> min_vruntime s' = min_vruntime s \<and> idle_min_vruntime s' = idle_min_vruntime s"
proof (cases "snap_policy snap \<in> {Other, Batch}")
  case True
  let ?snap = "snap\<lparr>snap_vruntime := max (snap_vruntime snap) (min_vruntime s)\<rparr>"
  have pl: "place_normalized t snap s = cpu_enqueue t ?snap s"
    using True by (auto simp: place_normalized_def normalize_vruntime_def)
  have p: "snap_policy ?snap \<in> {Other, Batch}" using True by simp
  show ?thesis
  proof (rule cpu_enqueue_fair [OF ok room p, of t])
    fix s2
    assume e: "cpu_enqueue t ?snap s = Some s2" "idle_list s2 = idle_list s"
      "\<And>w. w \<noteq> snap_vruntime ?snap \<Longrightarrow> fair_list s2 w = fair_list s w"
      "min_vruntime s2 = min_vruntime s" "idle_min_vruntime s2 = idle_min_vruntime s"
    have "min_vruntime s \<le> w" if "fair_list s2 w \<noteq> []" for w
      using e(3) [of w] that base by (cases "w = snap_vruntime ?snap") (auto simp: base_queue_def)
    with e s' pl base show ?thesis by (simp add: base_queue_def)
  qed
next
  case np: False
  show ?thesis
  proof (cases "snap_policy snap = Idle")
    case True
    let ?snap = "snap\<lparr>snap_vruntime := max (snap_vruntime snap) (idle_min_vruntime s)\<rparr>"
    have pl: "place_normalized t snap s = cpu_enqueue t ?snap s"
      using True by (simp add: place_normalized_def normalize_vruntime_def)
    have p: "snap_policy ?snap = Idle" using True by simp
    show ?thesis
    proof (rule cpu_enqueue_idle [OF ok room p, of t])
      fix s2
      assume e: "cpu_enqueue t ?snap s = Some s2" "fair_list s2 = fair_list s"
        "\<And>w. w \<noteq> snap_vruntime ?snap \<Longrightarrow> idle_list s2 w = idle_list s w"
        "min_vruntime s2 = min_vruntime s" "idle_min_vruntime s2 = idle_min_vruntime s"
      have "idle_min_vruntime s \<le> w" if "idle_list s2 w \<noteq> []" for w
        using e(3) [of w] that base by (cases "w = snap_vruntime ?snap") (auto simp: base_queue_def)
      with e s' pl base show ?thesis by (simp add: base_queue_def)
    qed
  next
    case False
    with np have rt: "snap_policy snap = Fifo \<or> snap_policy snap = Rr"
      by (cases "snap_policy snap") auto
    then have "(\<exists>q. s' = s\<lparr>fifo_q := q\<rparr>) \<or> (\<exists>q. s' = s\<lparr>rr_q := q\<rparr>)"
      using s' by (auto simp: place_normalized_def normalize_vruntime_def cpu_enqueue_def)
    moreover have "fair_list (s\<lparr>fifo_q := q\<rparr>) = fair_list s" "idle_list (s\<lparr>fifo_q := q\<rparr>) = idle_list s"
      "fair_list (s\<lparr>rr_q := q'\<rparr>) = fair_list s" "idle_list (s\<lparr>rr_q := q'\<rparr>) = idle_list s" for q q'
      by (simp_all add: fair_list_def idle_list_def fun_eq_iff)
    ultimately show ?thesis using base by (auto simp: base_queue_def)
  qed
qed

lemma next_choice_base:
  assumes base: "base_queue s" and c: "next_choice s t s'"
  shows "base_queue s' \<and> min_vruntime s \<le> min_vruntime s' \<and>
    idle_min_vruntime s \<le> idle_min_vruntime s' \<and>
    ((\<forall>p. rt_list s p = []) \<longrightarrow> (\<exists>v. fair_list s v \<noteq> []) \<longrightarrow>
      (\<exists>v. fair_list s v \<noteq> [] \<and> t = hd (fair_list s v) \<and> min_vruntime s' = v \<and>
         (\<forall>w. fair_list s w \<noteq> [] \<longrightarrow> v \<le> w)))"
proof (cases "\<exists>p. rt_list s p \<noteq> []")
  case True
  with c obtain p where "took_rt s p t s'" by (auto simp: next_choice_def)
  with base True show ?thesis by (auto simp: took_rt_def base_queue_def)
next
  case rt: False
  show ?thesis
  proof (cases "\<exists>v. fair_list s v \<noteq> []")
    case True
    with c rt obtain v where v: "took_fair s v t s'" "\<forall>w. fair_list s w \<noteq> [] \<longrightarrow> v \<le> w"
      "min_vruntime s' = max (min_vruntime s) v" by (auto simp: next_choice_def)
    have "min_vruntime s \<le> v" using v(1) base by (simp add: took_fair_def base_queue_def)
    then have m: "min_vruntime s' = v" using v(3) by simp
    have "v \<le> w" if "fair_list s' w \<noteq> []" for w
      using v(1,2) that by (cases "w = v") (auto simp: took_fair_def)
    with v base m \<open>min_vruntime s \<le> v\<close> show ?thesis
      by (auto simp: took_fair_def base_queue_def)
  next
    case fair: False
    show ?thesis
    proof (cases "\<exists>v. idle_list s v \<noteq> []")
      case True
      with c rt fair obtain v where v: "\<forall>w. idle_list s w \<noteq> [] \<longrightarrow> v \<le> w"
        "idle_list s' = (idle_list s)(v := tl (idle_list s v))" "fair_list s' = fair_list s"
        "min_vruntime s' = min_vruntime s" "idle_min_vruntime s' = max (idle_min_vruntime s) v"
        by (auto simp: next_choice_def)
      have "idle_min_vruntime s' \<le> w" if "idle_list s' w \<noteq> []" for w
      proof (cases "w = v")
        case True
        with that v(2) have "idle_list s v \<noteq> []" by auto
        with base True v(5) show ?thesis by (simp add: base_queue_def)
      next
        case False
        with that v(1,2,5) base show ?thesis by (auto simp: base_queue_def)
      qed
      with v fair show ?thesis by (auto simp: base_queue_def)
    next
      case False
      with c rt fair have "s' = s" by (auto simp: next_choice_def)
      with base fair show ?thesis by simp
    qed
  qed
qed

text \<open>
  Picking the next task and placing a ready task (with its virtual runtime lifted to the
  baseline of its class first) keep every waiting task at or above the baseline of its class;
  neither moves a baseline back, and when a fair task is picked the baseline becomes exactly
  the runtime it was queued with, which is the least of all waiting fair tasks.
\<close>

theorem baseline_kept:
  assumes "cpu_ok s" and "base_queue s" and "has_room s"
  shows "(\<forall>t s'. pick_next_runnable s = Some (t, s') \<longrightarrow>
      base_queue s' \<and> min_vruntime s \<le> min_vruntime s' \<and> idle_min_vruntime s \<le> idle_min_vruntime s' \<and>
      ((\<forall>p. rt_list s p = []) \<longrightarrow> (\<exists>v. fair_list s v \<noteq> []) \<longrightarrow>
        (\<exists>v. fair_list s v \<noteq> [] \<and> t = hd (fair_list s v) \<and> min_vruntime s' = v \<and>
           (\<forall>w. fair_list s w \<noteq> [] \<longrightarrow> v \<le> w)))) \<and>
    (\<forall>t snap s'. place_normalized t snap s = Some s' \<longrightarrow>
      base_queue s' \<and> min_vruntime s' = min_vruntime s \<and> idle_min_vruntime s' = idle_min_vruntime s)"
proof (intro conjI allI impI)
  fix t s'
  assume p: "pick_next_runnable s = Some (t, s')"
  have "next_choice s t s'" using pick_next_spec [OF assms(1)] p by simp
  note b = next_choice_base [OF assms(2) this]
  then show "base_queue s'" "min_vruntime s \<le> min_vruntime s'"
    "idle_min_vruntime s \<le> idle_min_vruntime s'" by blast+
  assume "\<forall>p. rt_list s p = []" "\<exists>v. fair_list s v \<noteq> []"
  with b show "\<exists>v. fair_list s v \<noteq> [] \<and> t = hd (fair_list s v) \<and> min_vruntime s' = v \<and>
    (\<forall>w. fair_list s w \<noteq> [] \<longrightarrow> v \<le> w)" by blast
next
  fix t snap s'
  assume "place_normalized t snap s = Some s'"
  from place_normalized_base [OF assms this]
  show "base_queue s'" "min_vruntime s' = min_vruntime s" "idle_min_vruntime s' = idle_min_vruntime s"
    by blast+
qed

theorem baseline_kept_witness:
  "\<exists>t s'. pick_next_runnable demo_cpu = Some (t, s') \<and> min_vruntime s' = 10 \<and> t = 5"
proof -
  have "idle_task_id demo_cpu \<noteq> None" by (simp add: demo_cpu_def)
  then obtain t s' where s': "pick_next_runnable demo_cpu = Some (t, s')"
    using pick_next_spec [OF demo_cpu_ok] by (cases "pick_next_runnable demo_cpu") auto
  have "\<exists>v. fair_list demo_cpu v \<noteq> []" by (rule exI [of _ 10]) (simp add: demo_lists)
  with baseline_kept [OF demo_cpu_ok demo_base(1) demo_cpu_room] s' obtain v where
    v: "fair_list demo_cpu v \<noteq> []" "t = hd (fair_list demo_cpu v)" "min_vruntime s' = v"
      "\<forall>w. fair_list demo_cpu w \<noteq> [] \<longrightarrow> v \<le> w" by (auto simp: demo_lists(1))
  from v(4) have "v \<le> 10" by (simp add: demo_lists)
  with v(1) have "v = 10" by (auto simp: demo_lists split: if_splits)
  with v s' show ?thesis by (simp add: demo_lists)
qed

subsection \<open>Yielding\<close>

text \<open>
  \<open>sched_yield\<close> gives way: when a fair task yields while another fair task waits and no
  real-time task does, raising its virtual runtime past the least waiting one and placing it
  again makes \<open>pick_next_runnable\<close> choose the waiting task with the least runtime, never the
  yielding task itself, provided that least runtime has not saturated.
\<close>

theorem yield_gives_way:
  assumes "cpu_ok s" and "has_room s" and "current_snapshot s = Some cur"
    and "snap_policy cur \<in> {Other, Batch}" and "snap_id cur \<notin> queued s"
    and "\<forall>p. rt_list s p = []" and "min_ready_fair s = Some m" and "m < u64_max"
    and "current_snapshot (prepare_yield s) = Some cur'"
    and "place_normalized (snap_id cur') cur' (prepare_yield s) = Some s'"
  shows "snap_id cur' = snap_id cur \<and> m < snap_vruntime cur' \<and>
    (\<exists>t s''. pick_next_runnable s' = Some (t, s'') \<and> t = hd (fair_list s m) \<and> t \<noteq> snap_id cur)"
proof -
  let ?y = "prepare_yield s"
  have y: "?y = s\<lparr>current_snapshot := Some (cur\<lparr>snap_vruntime := max (snap_vruntime cur) (sat_add u64_max m 1)\<rparr>)\<rparr>"
    using assms(3,4,7) by (auto simp: prepare_yield_def current_policy_def)
  then have cur': "cur' = cur\<lparr>snap_vruntime := max (snap_vruntime cur) (sat_add u64_max m 1)\<rparr>"
    using assms(9) by simp
  have gt: "m < snap_vruntime cur'" using assms(8) by (simp add: cur' sat_add_def)
  have l: "fair_list ?y = fair_list s" "rt_list ?y = rt_list s" "cpu_ok ?y = cpu_ok s"
    by (rule lists_of_queues; simp add: y)+
  have room: "has_room ?y" using assms(2) by (simp add: has_room_def y)
  let ?snap = "cur'\<lparr>snap_vruntime := max (snap_vruntime cur') (min_vruntime ?y)\<rparr>"
  have pl: "place_normalized (snap_id cur') cur' ?y = cpu_enqueue (snap_id cur') ?snap ?y"
    using assms(4) by (auto simp: place_normalized_def normalize_vruntime_def cur')
  have p: "snap_policy ?snap \<in> {Other, Batch}" using assms(4) by (simp add: cur')
  have oky: "cpu_ok ?y" using assms(1) l(3) by simp
  obtain s2 where "cpu_enqueue (snap_id cur') ?snap ?y = Some s2" "cpu_ok s2" "rt_list s2 = rt_list ?y"
    "\<And>w. w \<noteq> snap_vruntime ?snap \<Longrightarrow> fair_list s2 w = fair_list ?y w"
  proof (rule cpu_enqueue_fair [OF oky room p, of "snap_id cur'"])
    fix s2
    assume "cpu_enqueue (snap_id cur') ?snap ?y = Some s2" "cpu_ok s2" "rt_list s2 = rt_list ?y"
      "\<And>w. w \<noteq> snap_vruntime ?snap \<Longrightarrow> fair_list s2 w = fair_list ?y w"
    then show thesis by (rule that)
  qed
  then have e: "cpu_ok s'" "\<forall>p. rt_list s' p = []"
    "\<And>w. w \<noteq> snap_vruntime ?snap \<Longrightarrow> fair_list s' w = fair_list s w"
    using pl assms(10,6) l by auto
  have other: "fair_list s' m = fair_list s m" using e(3) [of m] gt by simp
  have m: "fair_list s m \<noteq> []" "\<And>w. fair_list s w \<noteq> [] \<Longrightarrow> m \<le> w"
  proof -
    show le: "m \<le> w" if "fair_list s w \<noteq> []" for w by (rule min_ready_le(1) [OF assms(1,7) that])
    have "some_less (min_ready_fair s) (Suc m)" using assms(7) by (simp add: some_less_def)
    then obtain w where "w < Suc m" "fair_list s w \<noteq> []"
      using ready_queries(1) [OF assms(1)] by blast
    moreover from this have "w = m" using le [of w] by simp
    ultimately show "fair_list s m \<noteq> []" by simp
  qed
  have least: "m \<le> w" if "fair_list s' w \<noteq> []" for w
    using that e(3) [of w] m(2) gt by (cases "w = snap_vruntime ?snap") auto
  from pick_next_spec [OF e(1)] have "pick_next_runnable s' \<noteq> None"
    using m(1) other by (auto simp: queued_def members_empty split: option.splits)
  then obtain t s'' where pick: "pick_next_runnable s' = Some (t, s'')" by auto
  with pick_next_spec [OF e(1)] have c: "next_choice s' t s''" by simp
  then obtain v where v: "took_fair s' v t s''" "\<forall>w. fair_list s' w \<noteq> [] \<longrightarrow> v \<le> w"
  proof -
    have "fair_list s' m \<noteq> []" using m(1) other by simp
    then have "\<not> (\<exists>p. rt_list s' p \<noteq> [])" "\<exists>v. fair_list s' v \<noteq> []"
      using e(2) by blast+
    with c have "\<exists>v. took_fair s' v t s'' \<and> (\<forall>w. fair_list s' w \<noteq> [] \<longrightarrow> v \<le> w)"
      unfolding next_choice_def by (simp only: if_True if_False) blast
    then show thesis using that by blast
  qed
  have "v = m" using v least [of v] m(1) other by (auto simp: took_fair_def intro: antisym)
  then have t: "t = hd (fair_list s m)" using v(1) other by (simp add: took_fair_def)
  have "t \<in> queued s" unfolding t queued_def using members_hd m(1) by auto
  with assms(5) t pick gt show ?thesis by (auto simp: cur')
qed

theorem yield_gives_way_witness:
  "\<exists>cur' s' t s''. current_snapshot (prepare_yield demo_cpu) = Some cur' \<and>
     place_normalized 9 cur' (prepare_yield demo_cpu) = Some s' \<and>
     pick_next_runnable s' = Some (t, s'') \<and> t = 5"
proof -
  let ?y = "prepare_yield demo_cpu"
  obtain cur where cur: "current_snapshot demo_cpu = Some cur" "snap_policy cur \<in> {Other, Batch}"
    "snap_id cur = 9" by (simp add: demo_cpu_def)
  have n: "snap_id cur \<notin> queued demo_cpu"
    by (simp add: cur queued_def members_def demo_lists)
  have r: "\<forall>p. rt_list demo_cpu p = []" by (simp add: demo_lists)
  have "min_ready_fair demo_cpu \<noteq> None"
    unfolding ready_queries(2) [OF demo_cpu_ok] by (auto simp: demo_lists intro!: exI [of _ 10])
  then obtain m where m: "min_ready_fair demo_cpu = Some m" by auto
  have "\<not> some_less (Some m) 10"
    using ready_queries(1) [OF demo_cpu_ok, of 10] unfolding m by (auto simp: demo_lists)
  moreover have "some_less (Some m) 11"
    using ready_queries(1) [OF demo_cpu_ok, of 11] unfolding m
    by (auto simp: demo_lists intro!: exI [of _ 10])
  ultimately have m10: "m = 10" by (simp add: some_less_def)
  then have small: "m < u64_max" by (simp add: u64_max_def)
  obtain cur' where cur': "current_snapshot ?y = Some cur'" "snap_policy cur' \<in> {Other, Batch}"
    using cur m by (auto simp: prepare_yield_def current_policy_def)
  have ok: "cpu_ok ?y" and room: "has_room ?y"
    using demo_cpu_ok demo_cpu_room
    by (auto simp: prepare_yield_def cpu_ok_def has_room_def split: option.split sched_policy.split)
  let ?snap = "cur'\<lparr>snap_vruntime := max (snap_vruntime cur') (min_vruntime ?y)\<rparr>"
  have pl: "place_normalized (snap_id cur') cur' ?y = cpu_enqueue (snap_id cur') ?snap ?y"
    using cur'(2) by (auto simp: place_normalized_def normalize_vruntime_def)
  have p: "snap_policy ?snap \<in> {Other, Batch}" using cur'(2) by simp
  obtain s' where s': "place_normalized (snap_id cur') cur' ?y = Some s'"
    unfolding pl by (rule cpu_enqueue_fair [OF ok room p, of "snap_id cur'"])
  from yield_gives_way [OF demo_cpu_ok demo_cpu_room cur(1,2) n r m small cur'(1) s'] cur(3) m10 cur'(1) s'
  show ?thesis by (auto simp: demo_lists)
qed

end
