(* ===== verification/Task_Registry.thy ===== *)
theory Task_Registry
  imports Cpu_State Ordered_Map
begin

text \<open>
  The task control block and the task registry
  (\<open>task-impl/impl-core/src/tcb.rs\<close>,
  \<open>task-scheduler/scheduler-api/api-v0/src/registry.rs\<close>): the fields the scheduler reads
  and writes, the state changes of a task, and the table of tasks by id. The kernel stack, the
  saved context and the trap frame are memory of the architecture layer and are left out: the
  address of the saved context is a number the creator passes in, and a creation that may fail
  for want of a kernel stack takes the outcome of that allocation as an argument. A panic of
  the source is the value \<open>None\<close>.
\<close>

section \<open>The task control block\<close>

text \<open>The address space of a user task is gone once the task has exited.\<close>

datatype task_inner = InnerIdle | InnerKernel | InnerUser "nat option"

record tcb =
  tc_id :: task_id
  tc_parent :: "task_id option"
  tc_state :: task_state
  tc_policy :: sched_policy
  tc_priority :: int
  tc_nice :: int
  tc_io_priority :: nat
  tc_vruntime :: nat
  tc_stats :: runtime_stats
  tc_wait_result :: "wait_result option"
  tc_cx :: nat
  tc_inner :: task_inner
  tc_ready_cpu :: "nat option"
  tc_last_cpu :: "nat option"
  tc_running_cpu :: "nat option"
  tc_affinity :: cpu_mask

record exited_task =
  et_id :: task_id
  et_parent :: "task_id option"
  et_kind :: task_kind
  et_exit_code :: int
  et_stats :: runtime_stats

definition new_task :: "nat \<Rightarrow> task_id \<Rightarrow> task_id option \<Rightarrow> task_inner \<Rightarrow> nat \<Rightarrow> tcb" where
  "new_task max_cpus i parent inner cx =
     \<lparr>tc_id = i, tc_parent = parent, tc_state = Ready, tc_policy = Other, tc_priority = 0,
      tc_nice = 0, tc_io_priority = 0, tc_vruntime = 0, tc_stats = zero_stats,
      tc_wait_result = None, tc_cx = cx, tc_inner = inner, tc_ready_cpu = None, tc_last_cpu = None,
      tc_running_cpu = None, tc_affinity = max_cpus_all max_cpus\<rparr>"

text \<open>
  What \<open>fork_from\<close> and \<open>clone_thread_from\<close> copy: the child inherits the scheduling
  parameters, the virtual runtime and the affinity, and starts with no statistics, no wait
  result and no CPU. The image and the stack that \<open>fork_from\<close> expects of the parent are set by the
  only constructor of \<open>UserTask\<close> and never cleared, so those expectations cannot fail. \<open>stack\<close> is the outcome of \<open>KernelStack::try_new\<close>: the address
  of the child's context, or nothing.
\<close>

definition inherit_task :: "tcb \<Rightarrow> task_id \<Rightarrow> task_id \<Rightarrow> nat option \<Rightarrow> nat \<Rightarrow> tcb" where
  "inherit_task t child parent aspace cx =
     \<lparr>tc_id = child, tc_parent = Some parent, tc_state = Ready, tc_policy = tc_policy t,
      tc_priority = tc_priority t, tc_nice = tc_nice t, tc_io_priority = tc_io_priority t,
      tc_vruntime = tc_vruntime t, tc_stats = zero_stats,
      tc_wait_result = None, tc_cx = cx, tc_inner = InnerUser aspace, tc_ready_cpu = None,
      tc_last_cpu = None, tc_running_cpu = None, tc_affinity = tc_affinity t\<rparr>"

definition fork_from :: "task_id \<Rightarrow> task_id \<Rightarrow> nat \<Rightarrow> nat option \<Rightarrow> tcb \<Rightarrow> tcb option" where
  "fork_from child child_parent new_aspace stack t =
     (case tc_inner t of
        InnerUser _ \<Rightarrow> map_option (inherit_task t child child_parent (Some new_aspace)) stack
      | _ \<Rightarrow> None)"

definition clone_thread_from :: "task_id \<Rightarrow> nat option \<Rightarrow> tcb \<Rightarrow> tcb option" where
  "clone_thread_from child stack t =
     (case tc_inner t of
        InnerUser aspace \<Rightarrow> map_option (inherit_task t child (tc_id t) aspace) stack
      | _ \<Rightarrow> None)"

definition execve_from :: "nat \<Rightarrow> tcb \<Rightarrow> tcb" where
  "execve_from aspace t =
     (case tc_inner t of InnerUser _ \<Rightarrow> t\<lparr>tc_inner := InnerUser (Some aspace)\<rparr> | _ \<Rightarrow> t)"

definition tcb_is_idle :: "tcb \<Rightarrow> bool" where
  "tcb_is_idle t \<longleftrightarrow> tc_inner t = InnerIdle"

definition tcb_kind :: "tcb \<Rightarrow> task_kind" where
  "tcb_kind t = (case tc_inner t of InnerUser _ \<Rightarrow> KindUser | _ \<Rightarrow> KindKernel)"

definition tcb_aspace_ptr :: "tcb \<Rightarrow> nat" where
  "tcb_aspace_ptr t = (case tc_inner t of InnerUser (Some p) \<Rightarrow> p | _ \<Rightarrow> 0)"

text \<open>The fields of the snapshot the per-CPU state keeps.\<close>

definition tcb_snapshot :: "tcb \<Rightarrow> task_snapshot" where
  "tcb_snapshot t =
     \<lparr>snap_id = tc_id t, snap_parent = tc_parent t, snap_kind = tcb_kind t, snap_state = tc_state t,
      snap_policy = tc_policy t, snap_priority = tc_priority t, snap_nice = tc_nice t,
      snap_io_priority = tc_io_priority t, snap_vruntime = tc_vruntime t, snap_stats = tc_stats t,
      snap_ready_cpu = tc_ready_cpu t, snap_running_cpu = tc_running_cpu t,
      snap_last_cpu = tc_last_cpu t, snap_affinity = tc_affinity t,
      snap_aspace = tcb_aspace_ptr t, snap_task_cx = tc_cx t\<rparr>"

definition set_sched :: "sched_policy \<Rightarrow> int \<Rightarrow> tcb \<Rightarrow> tcb" where
  "set_sched p prio t = t\<lparr>tc_policy := p, tc_priority := prio\<rparr>"

definition mark_ready :: "nat \<Rightarrow> tcb \<Rightarrow> tcb" where
  "mark_ready cpu t = t\<lparr>tc_state := Ready, tc_ready_cpu := Some cpu, tc_running_cpu := None\<rparr>"

definition mark_running :: "nat \<Rightarrow> tcb \<Rightarrow> tcb" where
  "mark_running cpu t =
     (let t1 = t\<lparr>tc_state := Running, tc_ready_cpu := None\<rparr>;
          t2 = (if tcb_is_idle t1 then t1\<lparr>tc_running_cpu := None\<rparr>
                else t1\<lparr>tc_running_cpu := Some cpu, tc_last_cpu := Some cpu\<rparr>)
      in t2\<lparr>tc_stats := (tc_stats t2)\<lparr>schedule_count :=
            sat_add usize_max (schedule_count (tc_stats t2)) 1\<rparr>\<rparr>)"

definition mark_blocking :: "wait_target \<Rightarrow> tcb \<Rightarrow> tcb" where
  "mark_blocking reason t =
     t\<lparr>tc_state := Blocking reason, tc_ready_cpu := None, tc_running_cpu := None\<rparr>"

definition mark_sleeping :: "nat \<Rightarrow> tcb \<Rightarrow> tcb" where
  "mark_sleeping wake_tick t =
     t\<lparr>tc_state := Sleeping wake_tick, tc_ready_cpu := None, tc_running_cpu := None\<rparr>"

definition mark_exited :: "int \<Rightarrow> tcb \<Rightarrow> tcb" where
  "mark_exited exit_code t =
     (let t1 = (case tc_inner t of InnerUser _ \<Rightarrow> t\<lparr>tc_inner := InnerUser None\<rparr> | _ \<Rightarrow> t)
      in t1\<lparr>tc_state := Exited exit_code, tc_ready_cpu := None, tc_running_cpu := None\<rparr>)"

definition tcb_add_ticks :: "nat \<Rightarrow> tcb \<Rightarrow> tcb" where
  "tcb_add_ticks n t =
     t\<lparr>tc_stats := (tc_stats t)\<lparr>tick_count :=
       sat_add usize_max (tick_count (tc_stats t)) (min n usize_max)\<rparr>\<rparr>"

definition tcb_clear_wait_result :: "tcb \<Rightarrow> tcb" where
  "tcb_clear_wait_result t = t\<lparr>tc_wait_result := None\<rparr>"

definition tcb_finish_wait :: "wait_result \<Rightarrow> tcb \<Rightarrow> tcb" where
  "tcb_finish_wait r t = t\<lparr>tc_wait_result := Some r\<rparr>"

definition tcb_take_wait_result :: "tcb \<Rightarrow> wait_result \<times> tcb" where
  "tcb_take_wait_result t =
     ((case tc_wait_result t of None \<Rightarrow> Woken | Some r \<Rightarrow> r), t\<lparr>tc_wait_result := None\<rparr>)"

definition tcb_ready_to_wake :: "nat \<Rightarrow> tcb \<Rightarrow> bool" where
  "tcb_ready_to_wake now t \<longleftrightarrow> (case tc_state t of Sleeping w \<Rightarrow> w \<le> now | _ \<Rightarrow> False)"

definition is_exited :: "task_state \<Rightarrow> bool" where
  "is_exited s \<longleftrightarrow> (case s of Exited _ \<Rightarrow> True | _ \<Rightarrow> False)"

definition tcb_exited_task :: "tcb \<Rightarrow> exited_task option" where
  "tcb_exited_task t =
     (case tc_state t of
        Exited code \<Rightarrow> Some \<lparr>et_id = tc_id t, et_parent = tc_parent t, et_kind = tcb_kind t,
          et_exit_code = code, et_stats = tc_stats t\<rparr>
      | _ \<Rightarrow> None)"

section \<open>The registry\<close>

record registry =
  reg_tasks :: "(task_id, tcb) omap"
  reg_next_id :: task_id

definition reg_new :: registry where
  "reg_new = \<lparr>reg_tasks = [], reg_next_id = 0\<rparr>"

definition reg_init :: "registry \<Rightarrow> registry" where
  "reg_init r = r\<lparr>reg_tasks := [], reg_next_id := 0\<rparr>"

text \<open>Taking the next id, as every creation does first.\<close>

definition take_next_id :: "registry \<Rightarrow> task_id \<times> registry" where
  "take_next_id r = (reg_next_id r, r\<lparr>reg_next_id := sat_add usize_max (reg_next_id r) 1\<rparr>)"

definition reg_put :: "task_id \<Rightarrow> tcb \<Rightarrow> registry \<Rightarrow> registry" where
  "reg_put i t r = r\<lparr>reg_tasks := om_insert i t (reg_tasks r)\<rparr>"

definition reg_get :: "registry \<Rightarrow> task_id \<Rightarrow> tcb option" where
  "reg_get r i = om_get (reg_tasks r) i"

definition spawn_idle_task :: "nat \<Rightarrow> nat \<Rightarrow> registry \<Rightarrow> task_id \<times> registry" where
  "spawn_idle_task max_cpus cx r =
     (case take_next_id r of (i, r1) \<Rightarrow> (i, reg_put i (new_task max_cpus i None InnerIdle cx) r1))"

text \<open>
  \<open>KernelStack::new\<close> panics when its allocation fails: \<open>stack\<close> is \<open>None\<close> then, and otherwise the
  address of the new context. A user task needs its address space (\<open>UserResources::new\<close>); its image
  and its stack are always there, since \<open>UserTask::new\<close>, the only constructor, sets them.
\<close>

definition spawn_kernel_task :: "nat \<Rightarrow> nat option \<Rightarrow> task_id option \<Rightarrow> registry \<Rightarrow> (task_id \<times> registry) option" where
  "spawn_kernel_task max_cpus stack parent r =
     (case take_next_id r of (i, r1) \<Rightarrow>
        map_option (\<lambda>cx. (i, reg_put i (new_task max_cpus i parent InnerKernel cx) r1)) stack)"

definition spawn_user_task_spec :: "nat \<Rightarrow> nat option \<Rightarrow> nat option \<Rightarrow> task_id option \<Rightarrow> registry \<Rightarrow>
    (task_id \<times> registry) option" where
  "spawn_user_task_spec max_cpus stack aspace parent r =
     (case take_next_id r of (i, r1) \<Rightarrow>
        (case stack of
           None \<Rightarrow> None
         | Some cx \<Rightarrow>
             (case aspace of
                None \<Rightarrow> None
              | Some a \<Rightarrow> Some (i, reg_put i (new_task max_cpus i parent (InnerUser (Some a)) cx) r1))))"

definition fork_current :: "nat \<Rightarrow> nat option \<Rightarrow> task_id \<Rightarrow> task_id \<Rightarrow> registry \<Rightarrow>
    (task_id option \<times> registry) option" where
  "fork_current new_aspace stack source child_parent r =
     (case take_next_id r of (child, r1) \<Rightarrow>
        (case reg_get r1 source of
           None \<Rightarrow> None
         | Some p \<Rightarrow>
             (case fork_from child child_parent new_aspace stack p of
                None \<Rightarrow> Some (None, r1)
              | Some c \<Rightarrow> Some (Some child, reg_put (tc_id c) c r1))))"

definition clone_current_thread :: "nat option \<Rightarrow> task_id \<Rightarrow> registry \<Rightarrow>
    (task_id option \<times> registry) option" where
  "clone_current_thread stack parent r =
     (case take_next_id r of (child, r1) \<Rightarrow>
        (case reg_get r1 parent of
           None \<Rightarrow> None
         | Some p \<Rightarrow>
             (case clone_thread_from child stack p of
                None \<Rightarrow> Some (None, r1)
              | Some c \<Rightarrow> Some (Some child, reg_put (tc_id c) c r1))))"

text \<open>\<open>get_mut(..).expect(..)\<close> and \<open>if let Some(task) = get_mut(..)\<close>.\<close>

definition reg_expect :: "task_id \<Rightarrow> (tcb \<Rightarrow> tcb) \<Rightarrow> registry \<Rightarrow> registry option" where
  "reg_expect i f r = map_option (\<lambda>t. reg_put i (f t) r) (reg_get r i)"

definition reg_modify :: "task_id \<Rightarrow> (tcb \<Rightarrow> tcb) \<Rightarrow> registry \<Rightarrow> registry" where
  "reg_modify i f r = (case reg_get r i of None \<Rightarrow> r | Some t \<Rightarrow> reg_put i (f t) r)"

definition reg_execve :: "nat \<Rightarrow> task_id \<Rightarrow> registry \<Rightarrow> registry option" where
  "reg_execve aspace i = reg_expect i (execve_from aspace)"

definition reg_set_vruntime :: "task_id \<Rightarrow> nat \<Rightarrow> registry \<Rightarrow> registry option" where
  "reg_set_vruntime i v = reg_expect i (\<lambda>t. t\<lparr>tc_vruntime := v\<rparr>)"

definition reg_mark_running :: "task_id \<Rightarrow> nat \<Rightarrow> registry \<Rightarrow> registry option" where
  "reg_mark_running i cpu = reg_expect i (mark_running cpu)"

definition reg_add_ticks :: "task_id \<Rightarrow> nat \<Rightarrow> registry \<Rightarrow> registry" where
  "reg_add_ticks i n r =
     (if n = 0 then r else reg_modify i (\<lambda>t. if \<not> tcb_is_idle t then tcb_add_ticks n t else t) r)"

definition reg_tick :: "task_id \<Rightarrow> registry \<Rightarrow> registry" where
  "reg_tick i = reg_modify i (\<lambda>t. if \<not> tcb_is_idle t then tcb_add_ticks 1 t else t)"

definition reg_set_task_sched :: "task_id \<Rightarrow> sched_policy \<Rightarrow> int \<Rightarrow> registry \<Rightarrow> bool \<times> registry" where
  "reg_set_task_sched i p prio r =
     (case reg_get r i of None \<Rightarrow> (False, r) | Some t \<Rightarrow> (True, reg_put i (set_sched p prio t) r))"

definition reg_mark_ready :: "task_id \<Rightarrow> nat \<Rightarrow> registry \<Rightarrow> registry" where
  "reg_mark_ready i cpu = reg_modify i (mark_ready cpu)"

definition reg_mark_blocking :: "task_id \<Rightarrow> wait_target \<Rightarrow> registry \<Rightarrow> registry" where
  "reg_mark_blocking i reason = reg_modify i (mark_blocking reason)"

definition reg_mark_sleeping :: "task_id \<Rightarrow> nat \<Rightarrow> registry \<Rightarrow> registry" where
  "reg_mark_sleeping i w = reg_modify i (mark_sleeping w)"

definition reg_mark_exited :: "task_id \<Rightarrow> int \<Rightarrow> registry \<Rightarrow> registry" where
  "reg_mark_exited i code = reg_modify i (mark_exited code)"

definition reg_clear_wait_result :: "task_id \<Rightarrow> registry \<Rightarrow> registry" where
  "reg_clear_wait_result i = reg_modify i tcb_clear_wait_result"

definition reg_finish_wait :: "task_id \<Rightarrow> wait_result \<Rightarrow> registry \<Rightarrow> registry" where
  "reg_finish_wait i res = reg_modify i (tcb_finish_wait res)"

definition reg_take_wait_result :: "task_id \<Rightarrow> registry \<Rightarrow> (wait_result \<times> registry) option" where
  "reg_take_wait_result i r =
     map_option (\<lambda>t. case tcb_take_wait_result t of (res, t') \<Rightarrow> (res, reg_put i t' r)) (reg_get r i)"

definition reg_state :: "registry \<Rightarrow> task_id \<Rightarrow> task_state option" where
  "reg_state r i = map_option tc_state (reg_get r i)"

definition reg_ready_cpu :: "registry \<Rightarrow> task_id \<Rightarrow> nat option" where
  "reg_ready_cpu r i = (case reg_get r i of None \<Rightarrow> None | Some t \<Rightarrow> tc_ready_cpu t)"

definition reg_running_cpu :: "registry \<Rightarrow> task_id \<Rightarrow> nat option" where
  "reg_running_cpu r i = (case reg_get r i of None \<Rightarrow> None | Some t \<Rightarrow> tc_running_cpu t)"

definition reg_set_affinity :: "task_id \<Rightarrow> cpu_mask \<Rightarrow> registry \<Rightarrow> (sched_error, unit) result \<times> registry" where
  "reg_set_affinity i m r =
     (case reg_get r i of None \<Rightarrow> (Inl NoSuchTask, r)
      | Some t \<Rightarrow> (Inr (), reg_put i (t\<lparr>tc_affinity := m\<rparr>) r))"

definition reg_set_nice :: "task_id \<Rightarrow> int \<Rightarrow> registry \<Rightarrow> (sched_error, unit) result \<times> registry" where
  "reg_set_nice i n r =
     (case reg_get r i of None \<Rightarrow> (Inl NoSuchTask, r)
      | Some t \<Rightarrow> (Inr (), reg_put i (t\<lparr>tc_nice := n\<rparr>) r))"

definition reg_set_io_priority :: "task_id \<Rightarrow> nat \<Rightarrow> registry \<Rightarrow> (sched_error, unit) result \<times> registry" where
  "reg_set_io_priority i n r =
     (case reg_get r i of None \<Rightarrow> (Inl NoSuchTask, r)
      | Some t \<Rightarrow> (Inr (), reg_put i (t\<lparr>tc_io_priority := n\<rparr>) r))"

definition reg_get_affinity :: "registry \<Rightarrow> task_id \<Rightarrow> (sched_error, cpu_mask) result" where
  "reg_get_affinity r i = (case reg_get r i of None \<Rightarrow> Inl NoSuchTask | Some t \<Rightarrow> Inr (tc_affinity t))"

definition reg_is_idle_task :: "registry \<Rightarrow> task_id \<Rightarrow> bool" where
  "reg_is_idle_task r i = (case reg_get r i of None \<Rightarrow> False | Some t \<Rightarrow> tcb_is_idle t)"

definition reg_ready_to_wake :: "registry \<Rightarrow> task_id \<Rightarrow> nat \<Rightarrow> bool" where
  "reg_ready_to_wake r i now =
     (case reg_get r i of None \<Rightarrow> False | Some t \<Rightarrow> tcb_ready_to_wake now t)"

definition wait_target_ready :: "wait_target \<Rightarrow> registry \<Rightarrow> bool" where
  "wait_target_ready w r =
     (case w of
        TaskExit i \<Rightarrow> (case reg_get r i of None \<Rightarrow> False | Some t \<Rightarrow> is_exited (tc_state t))
      | _ \<Rightarrow> False)"

definition reg_has_child :: "task_id \<Rightarrow> registry \<Rightarrow> bool" where
  "reg_has_child parent r \<longleftrightarrow> list_ex (\<lambda>(_, t). tc_parent t = Some parent) (reg_tasks r)"

definition find_exited_child :: "task_id \<Rightarrow> registry \<Rightarrow> task_id option" where
  "find_exited_child parent r =
     map_option (\<lambda>(_, t). tc_id t)
       (List.find (\<lambda>(_, t). tc_parent t = Some parent \<and> is_exited (tc_state t)) (reg_tasks r))"

definition reg_task_snapshot :: "registry \<Rightarrow> task_id \<Rightarrow> task_snapshot option" where
  "reg_task_snapshot r i = map_option tcb_snapshot (reg_get r i)"

text \<open>
  \<open>reap_task\<close>; its last \<open>expect\<close> cannot fail, since the state was just checked.
\<close>

definition reap_task :: "task_id \<Rightarrow> registry \<Rightarrow> exited_task option \<times> registry" where
  "reap_task i r =
     (case reg_get r i of
        Some t \<Rightarrow>
          if is_exited (tc_state t)
          then (tcb_exited_task t, r\<lparr>reg_tasks := om_remove i (reg_tasks r)\<rparr>)
          else (None, r)
      | None \<Rightarrow> (None, r))"

definition discard_task :: "task_id \<Rightarrow> registry \<Rightarrow> bool \<times> registry" where
  "discard_task i r = (reg_get r i \<noteq> None, r\<lparr>reg_tasks := om_remove i (reg_tasks r)\<rparr>)"

end
