(* ===== verification/Task_Lifecycle.thy ===== *)
theory Task_Lifecycle
  imports Task_Registry
begin

text \<open>
  The task registry as a state machine: one step per operation, the invariant every reachable
  registry keeps, and the lifecycle property. \<open>execve_current\<close> is called for the running
  task only, which is the one guard the step relation adds.
\<close>

section \<open>Invariant\<close>

definition tcb_ok :: "tcb \<Rightarrow> bool" where
  "tcb_ok t \<longleftrightarrow>
     (tc_ready_cpu t \<noteq> None \<longrightarrow> tc_state t = Ready) \<and>
     (tc_running_cpu t \<noteq> None \<longleftrightarrow> tc_state t = Running \<and> \<not> tcb_is_idle t) \<and>
     (tc_running_cpu t \<noteq> None \<longrightarrow> tc_last_cpu t = tc_running_cpu t) \<and>
     (is_exited (tc_state t) \<longrightarrow> tcb_aspace_ptr t = 0)"

definition reg_ok :: "registry \<Rightarrow> bool" where
  "reg_ok r \<longleftrightarrow> om_ok (reg_tasks r) \<and> reg_next_id r \<le> usize_max \<and>
     (\<forall>i t. reg_get r i = Some t \<longrightarrow>
        tc_id t = i \<and> tcb_ok t \<and> (i < reg_next_id r \<or> reg_next_id r = usize_max))"

lemma reg_get_put: "om_ok (reg_tasks r) \<Longrightarrow> reg_get (reg_put i t r) = (reg_get r)(i \<mapsto> t)"
  by (simp add: reg_get_def [abs_def] reg_put_def om.get_put fun_eq_iff)

lemma reg_put_simps [simp]:
  "reg_next_id (reg_put i t r) = reg_next_id r"
  "om_ok (reg_tasks r) \<Longrightarrow> om_ok (reg_tasks (reg_put i t r))"
  by (simp_all add: reg_put_def om.wf_put)

lemma reg_get_next [simp]: "reg_get (r\<lparr>reg_next_id := n\<rparr>) = reg_get r"
  by (simp add: reg_get_def [abs_def])

lemma reg_get_removed:
  "om_ok (reg_tasks r) \<Longrightarrow>
     reg_get (r\<lparr>reg_tasks := om_remove i (reg_tasks r)\<rparr>) = (reg_get r)(i := None)"
  by (simp add: reg_get_def [abs_def] om.get_del fun_eq_iff)

section \<open>The state changes of a task\<close>

named_theorems tcb_defs
lemmas [tcb_defs] = set_sched_def mark_ready_def mark_running_def mark_blocking_def mark_sleeping_def
  mark_exited_def tcb_add_ticks_def tcb_clear_wait_result_def tcb_finish_wait_def
  tcb_take_wait_result_def execve_from_def Let_def

definition keeps_task :: "(tcb \<Rightarrow> tcb) \<Rightarrow> bool" where
  "keeps_task f \<longleftrightarrow> (\<forall>t. tcb_ok t \<longrightarrow> tcb_ok (f t) \<and> tc_id (f t) = tc_id t)"

lemma keeps_taskI:
  assumes "\<And>t. tcb_ok t \<Longrightarrow> tcb_ok (f t)" "\<And>t. tc_id (f t) = tc_id t"
  shows "keeps_task f"
  using assms by (simp add: keeps_task_def)

lemma keeps_marks:
  "keeps_task (mark_ready cpu)" "keeps_task (mark_running cpu)" "keeps_task (mark_blocking w)"
  "keeps_task (mark_sleeping n)" "keeps_task (mark_exited code)"
  by (rule keeps_taskI; auto simp: tcb_defs tcb_ok_def tcb_is_idle_def is_exited_def
      tcb_aspace_ptr_def split: task_inner.splits)+

lemma keeps_fields:
  "keeps_task (set_sched p n)" "keeps_task (tcb_add_ticks k)" "keeps_task tcb_clear_wait_result"
  "keeps_task (tcb_finish_wait res)" "keeps_task (\<lambda>t. snd (tcb_take_wait_result t))"
  "keeps_task (\<lambda>t. t\<lparr>tc_vruntime := v\<rparr>)" "keeps_task (\<lambda>t. t\<lparr>tc_affinity := m\<rparr>)"
  "keeps_task (\<lambda>t. t\<lparr>tc_nice := z\<rparr>)" "keeps_task (\<lambda>t. t\<lparr>tc_io_priority := k\<rparr>)"
  by (rule keeps_taskI; simp add: tcb_defs tcb_ok_def tcb_is_idle_def tcb_aspace_ptr_def)+

lemma keeps_ticks: "keeps_task (\<lambda>t. if \<not> tcb_is_idle t then tcb_add_ticks n t else t)"
  using keeps_fields(2) [of n] by (auto simp: keeps_task_def)

lemma new_task_ok:
  "tcb_ok (new_task mc i parent inner cx)" "tc_id (new_task mc i parent inner cx) = i"
  by (simp_all add: new_task_def tcb_ok_def is_exited_def)

lemma inherit_task_ok:
  "tcb_ok (inherit_task t i parent aspace cx)" "tc_id (inherit_task t i parent aspace cx) = i"
  by (simp_all add: inherit_task_def tcb_ok_def is_exited_def)

section \<open>Steps\<close>

inductive reg_step :: "registry \<Rightarrow> registry \<Rightarrow> bool" where
  spawn_idle: "spawn_idle_task mc cx r = (i, r') \<Longrightarrow> reg_step r r'"
| spawn_kernel: "spawn_kernel_task mc stack parent r = Some (i, r') \<Longrightarrow> reg_step r r'"
| spawn_user: "spawn_user_task_spec mc stack aspace parent r = Some (i, r') \<Longrightarrow> reg_step r r'"
| fork: "fork_current aspace stack src parent r = Some (c, r') \<Longrightarrow> reg_step r r'"
| clone: "clone_current_thread stack parent r = Some (c, r') \<Longrightarrow> reg_step r r'"
| execve: "reg_state r i = Some Running \<Longrightarrow> reg_execve aspace i r = Some r' \<Longrightarrow> reg_step r r'"
| set_vruntime: "reg_set_vruntime i v r = Some r' \<Longrightarrow> reg_step r r'"
| running: "reg_mark_running i cpu r = Some r' \<Longrightarrow> reg_step r r'"
| add_ticks: "reg_step r (reg_add_ticks i n r)"
| tick: "reg_step r (reg_tick i r)"
| set_sched: "reg_set_task_sched i p n r = (b, r') \<Longrightarrow> reg_step r r'"
| ready: "reg_step r (reg_mark_ready i cpu r)"
| blocking: "reg_step r (reg_mark_blocking i w r)"
| sleeping: "reg_step r (reg_mark_sleeping i n r)"
| exited: "reg_step r (reg_mark_exited i code r)"
| clear_result: "reg_step r (reg_clear_wait_result i r)"
| finish_wait: "reg_step r (reg_finish_wait i res r)"
| take_result: "reg_take_wait_result i r = Some (res, r') \<Longrightarrow> reg_step r r'"
| affinity: "reg_set_affinity i m r = (e, r') \<Longrightarrow> reg_step r r'"
| nice: "reg_set_nice i z r = (e, r') \<Longrightarrow> reg_step r r'"
| io_priority: "reg_set_io_priority i n r = (e, r') \<Longrightarrow> reg_step r r'"
| reap: "reap_task i r = (x, r') \<Longrightarrow> reg_step r r'"
| discard: "discard_task i r = (b, r') \<Longrightarrow> reg_step r r'"

inductive reg_reach :: "registry \<Rightarrow> bool" where
  reach_new: "reg_reach reg_new"
| reach_init: "reg_reach (reg_init r)"
| reach_step: "reg_reach r \<Longrightarrow> reg_step r r' \<Longrightarrow> reg_reach r'"

text \<open>Every step is one of five shapes.\<close>

definition advanced :: "registry \<Rightarrow> registry" where
  "advanced r = r\<lparr>reg_next_id := sat_add usize_max (reg_next_id r) 1\<rparr>"

definition created :: "tcb \<Rightarrow> registry \<Rightarrow> registry" where
  "created t r = reg_put (reg_next_id r) t (advanced r)"

inductive reg_shape :: "registry \<Rightarrow> registry \<Rightarrow> bool" where
  shape_same: "reg_shape r r"
| shape_advance: "reg_shape r (advanced r)"
| shape_create: "tcb_ok t \<Longrightarrow> tc_id t = reg_next_id r \<Longrightarrow> tc_state t = Ready \<Longrightarrow>
    tc_ready_cpu t = None \<Longrightarrow> reg_shape r (created t r)"
| shape_update: "reg_get r i = Some t \<Longrightarrow> (tcb_ok t \<Longrightarrow> tcb_ok t' \<and> tc_id t' = tc_id t) \<Longrightarrow>
    reg_shape r (reg_put i t' r)"
| shape_remove: "reg_shape r (r\<lparr>reg_tasks := om_remove i (reg_tasks r)\<rparr>)"

lemma shape_modify: "keeps_task f \<Longrightarrow> reg_shape r (reg_modify i f r)"
  by (cases "reg_get r i")
    (auto simp: reg_modify_def keeps_task_def intro: shape_same shape_update)

lemma shape_expect: "keeps_task f \<Longrightarrow> reg_expect i f r = Some r' \<Longrightarrow> reg_shape r r'"
  by (auto simp: reg_expect_def keeps_task_def intro: shape_update)

lemma shape_put: "keeps_task f \<Longrightarrow> reg_get r i = Some t \<Longrightarrow> reg_shape r (reg_put i (f t) r)"
  by (auto simp: keeps_task_def intro: shape_update)

lemma shape_spawn:
  "spawn_idle_task mc cx r = (i, r') \<Longrightarrow> reg_shape r r'"
  "spawn_kernel_task mc stack parent r = Some (i, r') \<Longrightarrow> reg_shape r r'"
  "spawn_user_task_spec mc stack aspace parent r = Some (i, r') \<Longrightarrow> reg_shape r r'"
proof -
  have "reg_shape r (reg_put (reg_next_id r) (new_task mc (reg_next_id r) p inner cx)
      (r\<lparr>reg_next_id := sat_add usize_max (reg_next_id r) 1\<rparr>))" for p inner cx
    using shape_create [of "new_task mc (reg_next_id r) p inner cx" r]
    by (simp add: new_task_ok created_def advanced_def) (simp add: new_task_def)
  then show "spawn_idle_task mc cx r = (i, r') \<Longrightarrow> reg_shape r r'"
    "spawn_kernel_task mc stack parent r = Some (i, r') \<Longrightarrow> reg_shape r r'"
    "spawn_user_task_spec mc stack aspace parent r = Some (i, r') \<Longrightarrow> reg_shape r r'"
    by (auto simp: spawn_idle_task_def spawn_kernel_task_def spawn_user_task_spec_def take_next_id_def split: option.splits)
qed

lemma shape_inherit:
  "reg_shape r (reg_put (reg_next_id r) (inherit_task t (reg_next_id r) p aspace cx)
     (r\<lparr>reg_next_id := sat_add usize_max (reg_next_id r) 1\<rparr>))"
  using shape_create [of "inherit_task t (reg_next_id r) p aspace cx" r]
  by (simp add: inherit_task_ok created_def advanced_def) (simp add: inherit_task_def)

lemma shape_advanced: "reg_shape r (r\<lparr>reg_next_id := sat_add usize_max (reg_next_id r) 1\<rparr>)"
  using shape_advance [of r] by (simp add: advanced_def)

lemma shape_fork: "fork_current aspace stack src parent r = Some (c, r') \<Longrightarrow> reg_shape r r'"
  by (auto simp: fork_current_def take_next_id_def fork_from_def inherit_task_ok
      simp del: One_nat_def intro: shape_inherit shape_advanced
      split: option.splits task_inner.splits)

lemma shape_clone: "clone_current_thread stack parent r = Some (c, r') \<Longrightarrow> reg_shape r r'"
  by (auto simp: clone_current_thread_def take_next_id_def clone_thread_from_def inherit_task_ok
      simp del: One_nat_def intro: shape_inherit shape_advanced
      split: option.splits task_inner.splits)

lemma shape_execve:
  assumes "reg_state r i = Some Running" "reg_execve aspace i r = Some r'"
  shows "reg_shape r r'"
proof -
  from assms obtain t where t: "reg_get r i = Some t" "tc_state t = Running"
    "r' = reg_put i (execve_from aspace t) r"
    by (auto simp: reg_state_def reg_execve_def reg_expect_def)
  have "tcb_ok t \<Longrightarrow> tcb_ok (execve_from aspace t) \<and> tc_id (execve_from aspace t) = tc_id t"
    using t(2) by (auto simp: execve_from_def tcb_ok_def is_exited_def tcb_is_idle_def
        split: task_inner.splits)
  with t show ?thesis by (auto intro: shape_update)
qed

lemma reg_step_shape: "reg_step r r' \<Longrightarrow> reg_shape r r'"
proof (induction rule: reg_step.induct)
  case (execve r i aspace r')
  then show ?case by (rule shape_execve)
next
  case (take_result i r res r')
  then obtain t where "reg_get r i = Some t" "r' = reg_put i (snd (tcb_take_wait_result t)) r"
    by (auto simp: reg_take_wait_result_def case_prod_beta)
  with shape_put [OF keeps_fields(5)] show ?case by simp
next
  case (reap i r x r')
  then show ?case
    by (auto simp: reap_task_def intro: shape_same shape_remove split: option.splits if_splits)
next
  case (set_sched i p n r b r')
  then show ?case
    by (auto simp: reg_set_task_sched_def intro: shape_same shape_put [OF keeps_fields(1)]
        split: option.splits)
next
  case (affinity i m r e r')
  then show ?case
    by (auto simp: reg_set_affinity_def intro: shape_same shape_put [OF keeps_fields(7)]
        split: option.splits)
next
  case (nice i z r e r')
  then show ?case
    by (auto simp: reg_set_nice_def intro: shape_same shape_put [OF keeps_fields(8)]
        split: option.splits)
next
  case (io_priority i n r e r')
  then show ?case
    by (auto simp: reg_set_io_priority_def intro: shape_same shape_put [OF keeps_fields(9)]
        split: option.splits)
next
  case (discard i r b r')
  then show ?case by (auto simp: discard_task_def intro: shape_remove)
next
  case (add_ticks r i n)
  then show ?case by (simp add: reg_add_ticks_def shape_same shape_modify keeps_ticks)
qed (auto intro: shape_spawn shape_fork shape_clone
    shape_modify [OF keeps_marks(1)] shape_modify [OF keeps_marks(3)] shape_modify [OF keeps_marks(4)]
    shape_modify [OF keeps_marks(5)] shape_modify [OF keeps_ticks] shape_modify [OF keeps_fields(3)]
    shape_modify [OF keeps_fields(4)] shape_expect [OF keeps_marks(2)] shape_expect [OF keeps_fields(6)]
    simp: reg_mark_ready_def reg_mark_blocking_def reg_mark_sleeping_def reg_mark_exited_def
      reg_tick_def reg_clear_wait_result_def reg_finish_wait_def reg_mark_running_def
      reg_set_vruntime_def)

inductive_cases reg_reachE: "reg_reach r"

section \<open>The lifecycle\<close>

lemma bound_advance:
  "n \<le> m \<Longrightarrow> i < n \<or> n = m \<Longrightarrow> i < sat_add m n 1 \<or> sat_add m n 1 = m"
  by (auto simp: sat_add_def)

lemma reg_ok_shape:
  assumes "reg_shape r r'" "reg_ok r"
  shows "reg_ok r' \<and> reg_next_id r \<le> reg_next_id r' \<and>
    (\<forall>i t. reg_next_id r < usize_max \<longrightarrow> reg_get r i = None \<longrightarrow> reg_get r' i = Some t \<longrightarrow>
       i = reg_next_id r \<and> reg_next_id r' = i + 1 \<and> tc_state t = Ready \<and> tc_ready_cpu t = None)"
  using assms(1)
proof (cases rule: reg_shape.cases)
  case shape_same
  with assms(2) show ?thesis by simp
next
  case shape_advance
  have "reg_get (advanced r) = reg_get r" "reg_next_id (advanced r) = sat_add usize_max (reg_next_id r) 1"
    "reg_tasks (advanced r) = reg_tasks r" by (simp_all add: advanced_def)
  with assms(2) bound_advance [of "reg_next_id r" usize_max] show ?thesis
    unfolding shape_advance reg_ok_def by (auto simp: sat_add_def)
next
  case (shape_create t)
  have ok: "om_ok (reg_tasks (advanced r))" using assms(2) by (simp add: reg_ok_def advanced_def)
  have g: "reg_get (created t r) = (reg_get r)(reg_next_id r \<mapsto> t)"
    unfolding created_def reg_get_put [OF ok] by (simp add: advanced_def)
  have n: "reg_next_id (created t r) = sat_add usize_max (reg_next_id r) 1"
    by (simp add: created_def advanced_def)
  have "om_ok (reg_tasks (created t r))" using ok by (simp add: created_def)
  moreover have "i < reg_next_id (created t r) \<or> reg_next_id (created t r) = usize_max"
    if "reg_get (created t r) i = Some u" for i u
  proof (cases "i = reg_next_id r")
    case True
    then show ?thesis using assms(2) unfolding n by (auto simp: reg_ok_def sat_add_def)
  next
    case False
    with that assms(2) have "i < reg_next_id r \<or> reg_next_id r = usize_max" "reg_next_id r \<le> usize_max"
      unfolding g by (auto simp: reg_ok_def)
    with bound_advance show ?thesis unfolding n by blast
  qed
  moreover have "tc_id u = i \<and> tcb_ok u" if "reg_get (created t r) i = Some u" for i u
    using that assms(2) shape_create unfolding g by (auto simp: reg_ok_def split: if_splits)
  ultimately have "reg_ok (created t r)" using n by (simp add: reg_ok_def)
  moreover have "reg_next_id r \<le> reg_next_id (created t r)"
    using assms(2) unfolding n by (simp add: reg_ok_def sat_add_def)
  ultimately show ?thesis
    using shape_create by (auto simp: g n sat_add_def split: if_splits)
next
  case (shape_update i t t')
  have ok: "om_ok (reg_tasks r)" using assms(2) by (simp add: reg_ok_def)
  have t: "tcb_ok t" "tc_id t = i" using assms(2) shape_update(2) by (auto simp: reg_ok_def)
  have "tc_id t' = i \<and> tcb_ok t'" using shape_update(3) t by simp
  moreover have "i < reg_next_id r \<or> reg_next_id r = usize_max"
    using assms(2) shape_update(2) by (auto simp: reg_ok_def)
  ultimately have "reg_ok r'"
    using assms(2) by (auto simp: reg_ok_def shape_update(1) reg_get_put [OF ok] split: if_splits)
  then show ?thesis
    using shape_update(2) by (auto simp: shape_update(1) reg_get_put [OF ok] split: if_splits)
next
  case (shape_remove i)
  have ok: "om_ok (reg_tasks r)" using assms(2) by (simp add: reg_ok_def)
  show ?thesis
    using assms(2) unfolding shape_remove
    by (auto simp: reg_ok_def reg_get_removed [OF ok] om.wf_del split: if_splits)
qed

lemma reg_reach_ok: "reg_reach r \<Longrightarrow> reg_ok r"
proof (induction rule: reg_reach.induct)
  case (reach_step r r')
  with reg_ok_shape [OF reg_step_shape] show ?case by blast
qed (simp_all add: reg_ok_def reg_new_def reg_init_def reg_get_def om_get_def)

text \<open>
  C17. In every registry reachable through its operations, every task is stored under its own
  id and is consistent: it has a ready CPU only while Ready, a running CPU exactly while it is
  Running and not an idle task, and then that is also its last CPU, and an exited task holds no
  address space. Until the id counter saturates a step creates at most the task with the next
  id, Ready and on no CPU, so no id is ever given out twice. Reaping succeeds exactly for an
  exited task, returns its exit code and removes that task alone.
\<close>

theorem task_registry_lifecycle:
  assumes "reg_reach r"
  shows "(\<forall>i t. reg_get r i = Some t \<longrightarrow> tc_id t = i \<and> tcb_ok t) \<and>
    (\<forall>r'. reg_step r r' \<longrightarrow> reg_next_id r \<le> reg_next_id r' \<and>
      (\<forall>i t. reg_next_id r < usize_max \<and> reg_get r i = None \<and> reg_get r' i = Some t \<longrightarrow>
         i = reg_next_id r \<and> reg_next_id r' = i + 1 \<and> tc_state t = Ready \<and> tc_ready_cpu t = None)) \<and>
    (\<forall>i. case reap_task i r of
        (Some e, r') \<Rightarrow> reg_state r i = Some (Exited (et_exit_code e)) \<and> et_id e = i \<and>
          reg_get r' = (reg_get r)(i := None)
      | (None, r') \<Rightarrow> r' = r \<and> (\<forall>code. reg_state r i \<noteq> Some (Exited code)))"
proof -
  have ok: "reg_ok r" by (rule reg_reach_ok [OF assms])
  then have om: "om_ok (reg_tasks r)" by (simp add: reg_ok_def)
  have steps: "reg_next_id r \<le> reg_next_id r' \<and>
      (\<forall>i t. reg_next_id r < usize_max \<and> reg_get r i = None \<and> reg_get r' i = Some t \<longrightarrow>
         i = reg_next_id r \<and> reg_next_id r' = i + 1 \<and> tc_state t = Ready \<and> tc_ready_cpu t = None)"
    if "reg_step r r'" for r'
    using reg_ok_shape [OF reg_step_shape [OF that] ok] by blast
  have reap: "case reap_task i r of
        (Some e, r') \<Rightarrow> reg_state r i = Some (Exited (et_exit_code e)) \<and> et_id e = i \<and>
          reg_get r' = (reg_get r)(i := None)
      | (None, r') \<Rightarrow> r' = r \<and> (\<forall>code. reg_state r i \<noteq> Some (Exited code))" for i
  proof (cases "reg_get r i")
    case None
    then show ?thesis by (simp add: reap_task_def reg_state_def)
  next
    case (Some t)
    then have "tc_id t = i" using ok by (simp add: reg_ok_def)
    with Some show ?thesis
      by (cases "tc_state t")
        (simp_all add: reap_task_def reg_state_def is_exited_def tcb_exited_task_def
          reg_get_removed [OF om])
  qed
  have "\<forall>i t. reg_get r i = Some t \<longrightarrow> tc_id t = i \<and> tcb_ok t" using ok by (simp add: reg_ok_def)
  with steps reap show ?thesis by (intro conjI allI) blast+
qed

theorem task_registry_lifecycle_witness:
  "\<exists>r t. spawn_kernel_task 8 (Some 64) None reg_new = Some (0, r) \<and> reg_get r 0 = Some t \<and> tcb_ok t \<and>
     (\<exists>e. fst (reap_task 0 (reg_mark_exited 0 7 r)) = Some e \<and> et_exit_code e = 7)"
proof -
  obtain r where r: "spawn_kernel_task 8 (Some 64) None reg_new = Some (0, r)"
    by (simp add: spawn_kernel_task_def take_next_id_def reg_new_def)
  then have g: "reg_get r 0 = Some (new_task 8 0 None InnerKernel 64)"
    by (auto simp: spawn_kernel_task_def take_next_id_def reg_new_def reg_get_def reg_put_def om_get_def
        om_insert_def)
  have reach: "reg_reach r" by (rule reach_step [OF reach_new spawn_kernel [OF r]])
  then have om: "om_ok (reg_tasks r)" using reg_reach_ok by (simp add: reg_ok_def)
  let ?x = "reg_mark_exited 0 7 r"
  have reach': "reg_reach ?x" by (rule reach_step [OF reach exited])
  have "reg_state ?x 0 = Some (Exited 7)"
    by (simp add: reg_mark_exited_def reg_modify_def g reg_state_def reg_get_put [OF om] mark_exited_def
        new_task_def)
  with task_registry_lifecycle [OF reach', THEN conjunct2, THEN conjunct2, rule_format, of 0]
  have "\<exists>e. fst (reap_task 0 ?x) = Some e \<and> et_exit_code e = 7"
    by (cases "reap_task 0 ?x"; cases "fst (reap_task 0 ?x)") auto
  with r g task_registry_lifecycle [OF reach, THEN conjunct1] show ?thesis by blast
qed

end
