(* ===== verification/Wait_Queues.thy ===== *)
theory Wait_Queues
  imports Task_Registry
begin

text \<open>
  The waiting, sleeping, timeout and exit queues
  (\<open>task-scheduler/scheduler-api/api-v0/src/wait_queues.rs\<close>). A \<open>VecDeque\<close> is a list
  with its front first, a \<open>BTreeMap\<close> a list of entries in key order, the set of released
  queue ids an ascending list. Use of a queue id that was never allocated panics in the source
  (\<open>wait_queue_mut\<close>), which is \<open>None\<close> here.
\<close>

section \<open>State\<close>

record timeout_task =
  tt_task :: task_id
  tt_target :: wait_target
  tt_tick :: nat

record wait_queues =
  wq_queues :: "task_id list list"
  wq_names :: "string option list"
  wq_free :: "nat list"
  wq_exit :: "(task_id, task_id list) omap"
  wq_child :: "(task_id, task_id list) omap"
  wq_timeouts :: "timeout_task list"
  wq_blocked :: "task_id list"
  wq_sleep :: "(task_id \<times> nat) list"
  wq_exited :: "task_id list"
  wq_now :: nat

definition wq_new :: wait_queues where
  "wq_new = \<lparr>wq_queues = [], wq_names = [], wq_free = [], wq_exit = [], wq_child = [],
     wq_timeouts = [], wq_blocked = [], wq_sleep = [], wq_exited = [], wq_now = 0\<rparr>"

definition wq_init :: "wait_queues \<Rightarrow> wait_queues" where
  "wq_init w = w\<lparr>wq_queues := [], wq_names := [], wq_free := [], wq_exit := [], wq_child := [],
     wq_timeouts := [], wq_blocked := [], wq_sleep := [], wq_exited := [], wq_now := 0\<rparr>"

section \<open>Queue ids\<close>

definition allocate_wait_queue :: "string \<Rightarrow> wait_queues \<Rightarrow> (nat \<times> wait_queues) option" where
  "allocate_wait_queue name w =
     (case wq_free w of
        q # rest \<Rightarrow>
          if q < length (wq_queues w) \<and> q < length (wq_names w)
          then Some (q, w\<lparr>wq_free := rest, wq_queues := (wq_queues w)[q := []],
                 wq_names := (wq_names w)[q := Some name]\<rparr>)
          else None
      | [] \<Rightarrow>
          Some (length (wq_queues w),
            w\<lparr>wq_queues := wq_queues w @ [[]], wq_names := wq_names w @ [Some name]\<rparr>))"

definition wait_queue_name :: "nat \<Rightarrow> wait_queues \<Rightarrow> string option" where
  "wait_queue_name q w = (if q < length (wq_names w) then wq_names w ! q else None)"

definition try_release_wait_queue :: "nat \<Rightarrow> wait_queues \<Rightarrow> (bool \<times> wait_queues) option" where
  "try_release_wait_queue q w =
     (if \<not> q < length (wq_queues w) then Some (False, w)
      else if wq_queues w ! q \<noteq> [] then Some (False, w)
      else if q \<in> set (wq_free w) then Some (False, w)
      else if \<not> q < length (wq_names w) then None
      else Some (True, w\<lparr>wq_free := insort q (wq_free w), wq_names := (wq_names w)[q := None],
             wq_timeouts := filter (\<lambda>e. tt_target e \<noteq> WaitQueue q) (wq_timeouts w)\<rparr>))"

section \<open>Time\<close>

definition advance_ticks :: "nat \<Rightarrow> wait_queues \<Rightarrow> wait_queues" where
  "advance_ticks n w = w\<lparr>wq_now := sat_add u64_max (wq_now w) n\<rparr>"

definition wq_tick :: "wait_queues \<Rightarrow> wait_queues" where
  "wq_tick w = advance_ticks 1 w"

definition has_woken_or_timeout_tasks :: "wait_queues \<Rightarrow> bool" where
  "has_woken_or_timeout_tasks w =
     ((case wq_timeouts w of [] \<Rightarrow> False | e # _ \<Rightarrow> tt_tick e \<le> wq_now w) \<or>
      (case wq_sleep w of [] \<Rightarrow> False | (_, t) # _ \<Rightarrow> t \<le> wq_now w))"

section \<open>Waiting and removal\<close>

definition drop_task :: "task_id \<Rightarrow> task_id list \<Rightarrow> task_id list" where
  "drop_task t q = filter (\<lambda>i. i \<noteq> t) q"

text \<open>\<open>take_task_id_by_id\<close>: the queue without the task, and whether it got shorter.\<close>

definition take_task_id_by_id :: "task_id \<Rightarrow> task_id list \<Rightarrow> bool \<times> task_id list" where
  "take_task_id_by_id t q = (length (drop_task t q) \<noteq> length q, drop_task t q)"

definition om_map_values :: "('v \<Rightarrow> 'v) \<Rightarrow> ('k, 'v) omap \<Rightarrow> ('k, 'v) omap" where
  "om_map_values f m = map (\<lambda>(k, v). (k, f v)) m"

text \<open>\<open>entry(k).or_insert_with(VecDeque::new)\<close>.\<close>

definition queue_entry :: "task_id \<Rightarrow> (task_id, task_id list) omap \<Rightarrow> task_id list" where
  "queue_entry k m = (case om_get m k of None \<Rightarrow> [] | Some q \<Rightarrow> q)"

definition detach_task_from_run_queues :: "task_id \<Rightarrow> wait_queues \<Rightarrow> wait_queues" where
  "detach_task_from_run_queues t w =
     w\<lparr>wq_blocked := drop_task t (wq_blocked w),
       wq_sleep := filter (\<lambda>(i, _). i \<noteq> t) (wq_sleep w),
       wq_queues := map (drop_task t) (wq_queues w),
       wq_exit := om_remove t (om_map_values (drop_task t) (wq_exit w)),
       wq_child := om_remove t (om_map_values (drop_task t) (wq_child w)),
       wq_timeouts := filter (\<lambda>e. tt_task e \<noteq> t) (wq_timeouts w)\<rparr>"

definition enqueue_wait_task :: "task_id \<Rightarrow> wait_target \<Rightarrow> wait_queues \<Rightarrow> wait_queues option" where
  "enqueue_wait_task t target w =
     (case target of
        WaitQueue q \<Rightarrow>
          if q < length (wq_queues w)
          then Some (w\<lparr>wq_queues := (wq_queues w)[q := wq_queues w ! q @ [t]]\<rparr>) else None
      | ChildExit p \<Rightarrow> Some (w\<lparr>wq_child := om_insert p (queue_entry p (wq_child w) @ [t]) (wq_child w)\<rparr>)
      | TaskExit i \<Rightarrow> Some (w\<lparr>wq_exit := om_insert i (queue_entry i (wq_exit w) @ [t]) (wq_exit w)\<rparr>)
      | Manual \<Rightarrow> Some (w\<lparr>wq_blocked := wq_blocked w @ [t]\<rparr>))"

text \<open>Insertion before the first entry with a later tick (\<open>position\<close> and \<open>insert\<close>).\<close>

fun insert_by_tick :: "('a \<Rightarrow> nat) \<Rightarrow> 'a \<Rightarrow> 'a list \<Rightarrow> 'a list" where
  "insert_by_tick key x [] = [x]"
| "insert_by_tick key x (y # ys) =
     (if key y > key x then x # y # ys else y # insert_by_tick key x ys)"

definition enqueue_sleep_task :: "task_id \<Rightarrow> nat \<Rightarrow> wait_queues \<Rightarrow> wait_queues" where
  "enqueue_sleep_task t wake w = w\<lparr>wq_sleep := insert_by_tick snd (t, wake) (wq_sleep w)\<rparr>"

definition enqueue_wait_timeout :: "task_id \<Rightarrow> wait_target \<Rightarrow> nat \<Rightarrow> wait_queues \<Rightarrow> wait_queues" where
  "enqueue_wait_timeout t target wake w =
     w\<lparr>wq_timeouts := insert_by_tick tt_tick \<lparr>tt_task = t, tt_target = target, tt_tick = wake\<rparr>
         (wq_timeouts w)\<rparr>"

definition enqueue_exited_task :: "task_id \<Rightarrow> wait_queues \<Rightarrow> wait_queues" where
  "enqueue_exited_task t w =
     (let w1 = detach_task_from_run_queues t w in w1\<lparr>wq_exited := wq_exited w1 @ [t]\<rparr>)"

definition kill_task :: "task_id \<Rightarrow> wait_queues \<Rightarrow> wait_queues" where
  "kill_task t w =
     (let w1 = detach_task_from_run_queues t w in w1\<lparr>wq_exited := wq_exited w1 @ [t]\<rparr>)"

text \<open>Taking a task from its exact target; the exit queues are created when missing.\<close>

definition remove_task_from_wait_target ::
    "task_id \<Rightarrow> wait_target \<Rightarrow> wait_queues \<Rightarrow> (bool \<times> wait_queues) option" where
  "remove_task_from_wait_target t target w =
     (case target of
        WaitQueue q \<Rightarrow>
          if q < length (wq_queues w)
          then (case take_task_id_by_id t (wq_queues w ! q) of
                  (b, r) \<Rightarrow> Some (b, w\<lparr>wq_queues := (wq_queues w)[q := r]\<rparr>))
          else None
      | ChildExit p \<Rightarrow>
          (case take_task_id_by_id t (queue_entry p (wq_child w)) of
             (b, r) \<Rightarrow> Some (b, w\<lparr>wq_child := om_insert p r (wq_child w)\<rparr>))
      | TaskExit i \<Rightarrow>
          (case take_task_id_by_id t (queue_entry i (wq_exit w)) of
             (b, r) \<Rightarrow> Some (b, w\<lparr>wq_exit := om_insert i r (wq_exit w)\<rparr>))
      | Manual \<Rightarrow>
          (case take_task_id_by_id t (wq_blocked w) of (b, r) \<Rightarrow> Some (b, w\<lparr>wq_blocked := r\<rparr>)))"

section \<open>Expiry\<close>

fun pop_woken :: "nat \<Rightarrow> (task_id \<times> nat) list \<Rightarrow> task_id list \<times> (task_id \<times> nat) list" where
  "pop_woken now [] = ([], [])"
| "pop_woken now ((t, wake) # rest) =
     (if wake \<le> now then (case pop_woken now rest of (woken, r) \<Rightarrow> (t # woken, r))
      else ([], (t, wake) # rest))"

definition woken_tasks :: "wait_queues \<Rightarrow> task_id list \<times> wait_queues" where
  "woken_tasks w = (case pop_woken (wq_now w) (wq_sleep w) of (woken, r) \<Rightarrow> (woken, w\<lparr>wq_sleep := r\<rparr>))"

text \<open>The loop of \<open>timeout_tasks\<close>, over the timeout queue, which no iteration but its own
  pop changes.\<close>

fun timeout_loop :: "timeout_task list \<Rightarrow> wait_queues \<Rightarrow>
    ((task_id \<times> wait_target) list \<times> wait_queues) option" where
  "timeout_loop [] w = Some ([], w\<lparr>wq_timeouts := []\<rparr>)"
| "timeout_loop (e # rest) w =
     (if tt_tick e \<le> wq_now w then
        (case remove_task_from_wait_target (tt_task e) (tt_target e) (w\<lparr>wq_timeouts := rest\<rparr>) of
           None \<Rightarrow> None
         | Some (b, w1) \<Rightarrow>
             (case timeout_loop rest w1 of
                None \<Rightarrow> None
              | Some (out, w2) \<Rightarrow>
                  Some ((if b then (tt_task e, tt_target e) # out else out), w2)))
      else Some ([], w\<lparr>wq_timeouts := e # rest\<rparr>))"

definition timeout_tasks :: "wait_queues \<Rightarrow> ((task_id \<times> wait_target) list \<times> wait_queues) option" where
  "timeout_tasks w = timeout_loop (wq_timeouts w) w"

section \<open>Waking one task by id\<close>

fun remove_sleeper :: "task_id \<Rightarrow> (task_id \<times> nat) list \<Rightarrow> (task_id \<times> nat) list option" where
  "remove_sleeper t [] = None"
| "remove_sleeper t ((i, wake) # rest) =
     (if i = t then Some rest else map_option (Cons (i, wake)) (remove_sleeper t rest))"

fun take_from_queues :: "task_id \<Rightarrow> task_id list list \<Rightarrow> task_id list list option" where
  "take_from_queues t [] = None"
| "take_from_queues t (q # qs) =
     (case take_task_id_by_id t q of
        (True, r) \<Rightarrow> Some (r # qs)
      | (False, r) \<Rightarrow> map_option (Cons r) (take_from_queues t qs))"

definition take_from_map :: "task_id \<Rightarrow> (task_id, task_id list) omap \<Rightarrow> (task_id, task_id list) omap option" where
  "take_from_map t m = map_option (zip (map fst m)) (take_from_queues t (map snd m))"

definition remove_task_from_any_queue :: "task_id \<Rightarrow> wait_queues \<Rightarrow> bool \<times> wait_queues" where
  "remove_task_from_any_queue t w0 =
     (let w = w0\<lparr>wq_timeouts := filter (\<lambda>e. tt_task e \<noteq> t) (wq_timeouts w0)\<rparr>
      in case take_task_id_by_id t (wq_blocked w) of
           (True, r) \<Rightarrow> (True, w\<lparr>wq_blocked := r\<rparr>)
         | (False, _) \<Rightarrow>
      (case remove_sleeper t (wq_sleep w) of
           Some r \<Rightarrow> (True, w\<lparr>wq_sleep := r\<rparr>)
         | None \<Rightarrow>
      (case take_from_queues t (wq_queues w) of
           Some r \<Rightarrow> (True, w\<lparr>wq_queues := r\<rparr>)
         | None \<Rightarrow>
      (case take_from_map t (wq_exit w) of
           Some r \<Rightarrow> (True, w\<lparr>wq_exit := r\<rparr>)
         | None \<Rightarrow>
      (case take_from_map t (wq_child w) of
           Some r \<Rightarrow> (True, w\<lparr>wq_child := r\<rparr>)
         | None \<Rightarrow> (False, w))))))"

definition wake_task :: "task_id \<Rightarrow> wait_queues \<Rightarrow> bool \<times> wait_queues" where
  "wake_task t w = remove_task_from_any_queue t w"

definition interrupt_task :: "task_id \<Rightarrow> wait_queues \<Rightarrow> bool \<times> wait_queues" where
  "interrupt_task t w = remove_task_from_any_queue t w"

section \<open>Waking and moving the tasks of an explicit queue\<close>

definition remove_wait_timeout :: "task_id \<Rightarrow> wait_target \<Rightarrow> wait_queues \<Rightarrow> wait_queues" where
  "remove_wait_timeout t target w =
     w\<lparr>wq_timeouts := filter (\<lambda>e. tt_task e \<noteq> t \<or> tt_target e \<noteq> target) (wq_timeouts w)\<rparr>"

definition update_wait_timeout_target :: "task_id \<Rightarrow> nat \<Rightarrow> nat \<Rightarrow> wait_queues \<Rightarrow> wait_queues" where
  "update_wait_timeout_target t from_id to_id w =
     w\<lparr>wq_timeouts :=
        map (\<lambda>e. if tt_task e = t \<and> tt_target e = WaitQueue from_id
                 then e\<lparr>tt_target := WaitQueue to_id\<rparr> else e) (wq_timeouts w)\<rparr>"

text \<open>\<open>wait_queue_mut(q).pop_front()\<close>.\<close>

definition pop_wait_queue :: "nat \<Rightarrow> wait_queues \<Rightarrow> (task_id option \<times> wait_queues) option" where
  "pop_wait_queue q w =
     (if q < length (wq_queues w) then
        (case wq_queues w ! q of
           [] \<Rightarrow> Some (None, w)
         | t # rest \<Rightarrow> Some (Some t, w\<lparr>wq_queues := (wq_queues w)[q := rest]\<rparr>))
      else None)"

definition wake_one_in_wait_queue :: "nat \<Rightarrow> wait_queues \<Rightarrow> (task_id option \<times> wait_queues) option" where
  "wake_one_in_wait_queue q w =
     (case pop_wait_queue q w of
        None \<Rightarrow> None
      | Some (None, w1) \<Rightarrow> Some (None, w1)
      | Some (Some t, w1) \<Rightarrow> Some (Some t, remove_wait_timeout t (WaitQueue q) w1))"

text \<open>At most \<open>n\<close> tasks from the front; the third component is the number popped, added to
  the caller's counter.\<close>

fun wake_n_from_wait_queue :: "nat \<Rightarrow> nat \<Rightarrow> nat \<Rightarrow> wait_queues \<Rightarrow>
    (task_id list \<times> nat \<times> wait_queues) option" where
  "wake_n_from_wait_queue q 0 changed w = Some ([], changed, w)"
| "wake_n_from_wait_queue q (Suc n) changed w =
     (case pop_wait_queue q w of
        None \<Rightarrow> None
      | Some (None, w1) \<Rightarrow> Some ([], changed, w1)
      | Some (Some t, w1) \<Rightarrow>
          (case wake_n_from_wait_queue q n (sat_add usize_max changed 1)
                  (remove_wait_timeout t (WaitQueue q) w1) of
             None \<Rightarrow> None
           | Some (woken, c, w2) \<Rightarrow> Some (t # woken, c, w2)))"

text \<open>\<open>wake_all_in_wait_queue\<close> pops until the queue is empty: as many times as it is long.\<close>

definition wake_all_in_wait_queue :: "nat \<Rightarrow> wait_queues \<Rightarrow> (task_id list \<times> wait_queues) option" where
  "wake_all_in_wait_queue q w =
     (if q < length (wq_queues w)
      then map_option (\<lambda>(woken, _, w1). (woken, w1))
             (wake_n_from_wait_queue q (length (wq_queues w ! q)) 0 w)
      else None)"

fun move_tasks_between_queues :: "nat \<Rightarrow> nat \<Rightarrow> nat \<Rightarrow> nat \<Rightarrow> wait_queues \<Rightarrow>
    ((task_id \<times> nat) list \<times> nat \<times> wait_queues) option" where
  "move_tasks_between_queues from_id to_id 0 changed w = Some ([], changed, w)"
| "move_tasks_between_queues from_id to_id (Suc n) changed w =
     (case pop_wait_queue from_id w of
        None \<Rightarrow> None
      | Some (None, w1) \<Rightarrow> Some ([], changed, w1)
      | Some (Some t, w1) \<Rightarrow>
          (case enqueue_wait_task t (WaitQueue to_id) (update_wait_timeout_target t from_id to_id w1) of
             None \<Rightarrow> None
           | Some w2 \<Rightarrow>
               (case move_tasks_between_queues from_id to_id n (sat_add usize_max changed 1) w2 of
                  None \<Rightarrow> None
                | Some (moved, c, w3) \<Rightarrow> Some ((t, from_id) # moved, c, w3))))"

definition requeue_wait_queue :: "nat \<Rightarrow> nat \<Rightarrow> nat \<Rightarrow> nat \<Rightarrow> wait_queues \<Rightarrow>
    (task_id list \<times> (task_id \<times> nat) list \<times> nat \<times> wait_queues) option" where
  "requeue_wait_queue from_id to_id wake_count requeue_count w =
     (case wake_n_from_wait_queue from_id wake_count 0 w of
        None \<Rightarrow> None
      | Some (woken, changed, w1) \<Rightarrow>
          if from_id = to_id then
            (if from_id < length (wq_queues w1)
             then Some (woken, [],
                    sat_add usize_max changed (min (length (wq_queues w1 ! from_id)) requeue_count), w1)
             else None)
          else
            (case move_tasks_between_queues from_id to_id requeue_count changed w1 of
               None \<Rightarrow> None
             | Some (moved, c, w2) \<Rightarrow> Some (woken, moved, c, w2)))"

section \<open>Exit\<close>

text \<open>
  The loop \<open>while let Some(waiter) = queue.pop_front()\<close> of the two wake-ups of an exit, on the
  queue of the key, which they create when missing. The first argument is \<open>woken\<close>.
\<close>

fun pop_waiters :: "task_id list \<Rightarrow> task_id list \<Rightarrow> task_id list \<times> task_id list" where
  "pop_waiters woken [] = (woken, [])"
| "pop_waiters woken (waiter # queue) = pop_waiters (woken @ [waiter]) queue"

definition wake_all_waiters_for_task_exit :: "task_id \<Rightarrow> wait_queues \<Rightarrow> task_id list \<times> wait_queues" where
  "wake_all_waiters_for_task_exit i w =
     (case pop_waiters [] (queue_entry i (wq_exit w)) of
        (woken, queue) \<Rightarrow> (woken, w\<lparr>wq_exit := om_insert i queue (wq_exit w)\<rparr>))"

definition wake_child_exit_waiters :: "task_id \<Rightarrow> wait_queues \<Rightarrow> task_id list \<times> wait_queues" where
  "wake_child_exit_waiters p w =
     (case pop_waiters [] (queue_entry p (wq_child w)) of
        (woken, queue) \<Rightarrow> (woken, w\<lparr>wq_child := om_insert p queue (wq_child w)\<rparr>))"

definition forget_exited :: "task_id \<Rightarrow> wait_queues \<Rightarrow> wait_queues" where
  "forget_exited t w =
     (let w1 = detach_task_from_run_queues t w
      in w1\<lparr>wq_exit := om_remove t (wq_exit w1), wq_child := om_remove t (wq_child w1)\<rparr>)"

definition reap_exited_task :: "task_id \<Rightarrow> wait_queues \<Rightarrow> registry \<Rightarrow>
    exited_task option \<times> wait_queues \<times> registry" where
  "reap_exited_task t w r =
     (case take_task_id_by_id t (wq_exited w) of
        (False, _) \<Rightarrow> (None, w, r)
      | (True, q) \<Rightarrow>
          (case reap_task t r of
             (e, r1) \<Rightarrow> (e, forget_exited t (w\<lparr>wq_exited := q\<rparr>), r1)))"

text \<open>The loop of \<open>reap_one_exited_task\<close>, over the exited queue, which only its own pop
  changes.\<close>

fun reap_one_loop :: "task_id list \<Rightarrow> wait_queues \<Rightarrow> registry \<Rightarrow>
    exited_task option \<times> wait_queues \<times> registry" where
  "reap_one_loop [] w r = (None, w\<lparr>wq_exited := []\<rparr>, r)"
| "reap_one_loop (t # rest) w r =
     (let w1 = forget_exited t (w\<lparr>wq_exited := rest\<rparr>)
      in case reap_task t r of
           (Some e, r1) \<Rightarrow> (Some e, w1, r1)
         | (None, r1) \<Rightarrow> reap_one_loop rest w1 r1)"

definition reap_one_exited_task :: "wait_queues \<Rightarrow> registry \<Rightarrow>
    exited_task option \<times> wait_queues \<times> registry" where
  "reap_one_exited_task w r = reap_one_loop (wq_exited w) w r"

end
