(* ===== verification/Wait_Correct.thy ===== *)
theory Wait_Correct
  imports Wait_Queues
begin

text \<open>
  Who waits where, the invariant of the wait queues, and what each operation does to both.
\<close>

section \<open>Waiters and invariant\<close>

lemma pop_waiters_all [simp]: "pop_waiters woken q = (woken @ q, [])"
  by (induction woken q rule: pop_waiters.induct) simp_all

definition waiters :: "wait_target \<Rightarrow> wait_queues \<Rightarrow> task_id list" where
  "waiters target w =
     (case target of
        WaitQueue q \<Rightarrow> if q < length (wq_queues w) then wq_queues w ! q else []
      | TaskExit i \<Rightarrow> queue_entry i (wq_exit w)
      | ChildExit p \<Rightarrow> queue_entry p (wq_child w)
      | Manual \<Rightarrow> wq_blocked w)"

text \<open>A target that may be used: for an explicit queue, an id that is allocated and not released.\<close>

definition held :: "wait_target \<Rightarrow> wait_queues \<Rightarrow> bool" where
  "held target w \<longleftrightarrow> (\<forall>q. target = WaitQueue q \<longrightarrow> q < length (wq_queues w) \<and> q \<notin> set (wq_free w))"

definition free_ok :: "wait_queues \<Rightarrow> bool" where
  "free_ok w \<longleftrightarrow> sorted (wq_free w) \<and> distinct (wq_free w) \<and>
     (\<forall>q \<in> set (wq_free w). q < length (wq_queues w) \<and> wq_queues w ! q = [] \<and> wq_names w ! q = None)"

definition wq_ok :: "wait_queues \<Rightarrow> bool" where
  "wq_ok w \<longleftrightarrow> length (wq_names w) = length (wq_queues w) \<and> free_ok w \<and>
     om_ok (wq_exit w) \<and> om_ok (wq_child w) \<and>
     sorted (map tt_tick (wq_timeouts w)) \<and> sorted (map snd (wq_sleep w)) \<and>
     (\<forall>e \<in> set (wq_timeouts w). held (tt_target e) w)"

lemma wq_okD:
  assumes "wq_ok w"
  shows "length (wq_names w) = length (wq_queues w)" "free_ok w" "om_ok (wq_exit w)"
    "om_ok (wq_child w)" "sorted (map tt_tick (wq_timeouts w))" "sorted (map snd (wq_sleep w))"
    "\<And>e. e \<in> set (wq_timeouts w) \<Longrightarrow> held (tt_target e) w"
  using assms by (simp_all add: wq_ok_def)

lemma queue_entry_insert:
  "om_ok m \<Longrightarrow> queue_entry k (om_insert j q m) = (if k = j then q else queue_entry k m)"
  by (simp add: queue_entry_def om.get_put)

section \<open>Lists ordered by tick\<close>

lemma insert_by_tick_set: "set (insert_by_tick key x ys) = insert x (set ys)"
  by (induction ys) auto

lemma insert_by_tick_sorted: "sorted (map key ys) \<Longrightarrow> sorted (map key (insert_by_tick key x ys))"
  by (induction ys) (auto simp: insert_by_tick_set)

lemma insert_by_tick_split:
  "insert_by_tick key x ys = takeWhile (\<lambda>y. key y \<le> key x) ys @ x # dropWhile (\<lambda>y. key y \<le> key x) ys"
  by (induction ys) auto

lemma sorted_split_filter:
  "sorted (map key ys) \<Longrightarrow> takeWhile (\<lambda>y. key y \<le> n) ys = filter (\<lambda>y. key y \<le> n) ys \<and>
     dropWhile (\<lambda>y. key y \<le> n) ys = filter (\<lambda>y. n < key y) ys"
proof (induction ys)
  case (Cons y ys)
  show ?case
  proof (cases "key y \<le> n")
    case True
    with Cons show ?thesis by auto
  next
    case False
    with Cons.prems have "\<forall>z \<in> set ys. n < key z" by auto
    then have "filter (\<lambda>y. key y \<le> n) ys = []" "filter (\<lambda>y. n < key y) ys = ys"
      by (auto simp: filter_empty_conv filter_id_conv)
    with False show ?thesis by simp
  qed
qed simp

lemma pop_woken_eq:
  "pop_woken now ys =
     (map fst (takeWhile (\<lambda>e. snd e \<le> now) ys), dropWhile (\<lambda>e. snd e \<le> now) ys)"
  by (induction now ys rule: pop_woken.induct) auto

section \<open>Taking one task out of its target\<close>

lemma drop_task_id: "t \<notin> set q \<Longrightarrow> drop_task t q = q"
  by (simp add: drop_task_def filter_id_conv) blast

lemma drop_task_shorter: "length (drop_task t q) \<noteq> length q \<longleftrightarrow> t \<in> set q"
proof -
  have "t \<in> set q \<Longrightarrow> length (drop_task t q) < length q"
    unfolding drop_task_def by (rule length_filter_less) auto
  then show ?thesis using drop_task_id [of t q] by fastforce
qed

lemma take_task_eq: "take_task_id_by_id t q = (t \<in> set q, drop_task t q)"
  by (simp add: take_task_id_by_id_def drop_task_shorter)

lemma set_drop_task [simp]: "set (drop_task t q) = set q - {t}"
  by (auto simp: drop_task_def)

text \<open>What an operation leaves alone when it only rewrites queues of waiters.\<close>

definition same_times :: "wait_queues \<Rightarrow> wait_queues \<Rightarrow> bool" where
  "same_times w w' \<longleftrightarrow> wq_timeouts w' = wq_timeouts w \<and> wq_sleep w' = wq_sleep w \<and>
     wq_now w' = wq_now w \<and> wq_free w' = wq_free w \<and> wq_names w' = wq_names w \<and>
     wq_exited w' = wq_exited w \<and> length (wq_queues w') = length (wq_queues w)"

lemma same_times_refl [simp]: "same_times w w"
  by (simp add: same_times_def)

lemma same_times_held: "same_times w w' \<Longrightarrow> held target w' = held target w"
  by (simp add: same_times_def held_def)

lemma waiters_queue: "q < length (wq_queues w) \<Longrightarrow> waiters (WaitQueue q) w = wq_queues w ! q"
  by (simp add: waiters_def)

lemma waiters_update_queue:
  "q < length (wq_queues w) \<Longrightarrow>
     waiters target (w\<lparr>wq_queues := (wq_queues w)[q := r]\<rparr>) =
       (if target = WaitQueue q then r else waiters target w)"
  by (auto simp: waiters_def split: wait_target.splits)

lemma remove_from_target_spec:
  assumes "held target w" "om_ok (wq_exit w)" "om_ok (wq_child w)"
  obtains w' where
    "remove_task_from_wait_target t target w = Some (t \<in> set (waiters target w), w')"
    "same_times w w'" "om_ok (wq_exit w')" "om_ok (wq_child w')"
    "\<And>x. waiters x w' = (if x = target then drop_task t (waiters x w) else waiters x w)"
proof (cases target)
  case (WaitQueue q)
  then have q: "q < length (wq_queues w)" using assms(1) by (simp add: held_def)
  let ?w = "w\<lparr>wq_queues := (wq_queues w)[q := drop_task t (wq_queues w ! q)]\<rparr>"
  have "remove_task_from_wait_target t target w = Some (t \<in> set (waiters target w), ?w)"
    using q by (simp add: remove_task_from_wait_target_def WaitQueue take_task_eq waiters_def)
  then show thesis
    by (rule that) (use assms q in \<open>auto simp: same_times_def waiters_update_queue WaitQueue waiters_queue\<close>)
next
  case (TaskExit i)
  let ?w = "w\<lparr>wq_exit := om_insert i (drop_task t (queue_entry i (wq_exit w))) (wq_exit w)\<rparr>"
  have "remove_task_from_wait_target t target w = Some (t \<in> set (waiters target w), ?w)"
    by (simp add: remove_task_from_wait_target_def TaskExit take_task_eq waiters_def)
  then show thesis
    by (rule that) (use assms in \<open>auto simp: same_times_def waiters_def TaskExit om.wf_put
        queue_entry_insert split: wait_target.splits\<close>)
next
  case (ChildExit i)
  let ?w = "w\<lparr>wq_child := om_insert i (drop_task t (queue_entry i (wq_child w))) (wq_child w)\<rparr>"
  have "remove_task_from_wait_target t target w = Some (t \<in> set (waiters target w), ?w)"
    by (simp add: remove_task_from_wait_target_def ChildExit take_task_eq waiters_def)
  then show thesis
    by (rule that) (use assms in \<open>auto simp: same_times_def waiters_def ChildExit om.wf_put
        queue_entry_insert split: wait_target.splits\<close>)
next
  case Manual
  let ?w = "w\<lparr>wq_blocked := drop_task t (wq_blocked w)\<rparr>"
  have "remove_task_from_wait_target t target w = Some (t \<in> set (waiters target w), ?w)"
    by (simp add: remove_task_from_wait_target_def Manual take_task_eq waiters_def)
  then show thesis
    by (rule that) (use assms in \<open>auto simp: same_times_def waiters_def Manual split: wait_target.splits\<close>)
qed

lemma enqueue_wait_spec:
  assumes "held target w" "om_ok (wq_exit w)" "om_ok (wq_child w)"
  obtains w' where "enqueue_wait_task t target w = Some w'" "same_times w w'" "om_ok (wq_exit w')"
    "om_ok (wq_child w')"
    "\<And>x. waiters x w' = (if x = target then waiters x w @ [t] else waiters x w)"
proof (cases target)
  case (WaitQueue q)
  then have q: "q < length (wq_queues w)" using assms(1) by (simp add: held_def)
  let ?w = "w\<lparr>wq_queues := (wq_queues w)[q := wq_queues w ! q @ [t]]\<rparr>"
  have "enqueue_wait_task t target w = Some ?w"
    using q by (simp add: enqueue_wait_task_def WaitQueue)
  then show thesis
    by (rule that) (use assms q in \<open>auto simp: same_times_def waiters_update_queue WaitQueue waiters_queue\<close>)
next
  case (TaskExit i)
  let ?w = "w\<lparr>wq_exit := om_insert i (queue_entry i (wq_exit w) @ [t]) (wq_exit w)\<rparr>"
  have "enqueue_wait_task t target w = Some ?w" by (simp add: enqueue_wait_task_def TaskExit)
  then show thesis
    by (rule that) (use assms in \<open>auto simp: same_times_def waiters_def TaskExit om.wf_put
        queue_entry_insert split: wait_target.splits\<close>)
next
  case (ChildExit i)
  let ?w = "w\<lparr>wq_child := om_insert i (queue_entry i (wq_child w) @ [t]) (wq_child w)\<rparr>"
  have "enqueue_wait_task t target w = Some ?w" by (simp add: enqueue_wait_task_def ChildExit)
  then show thesis
    by (rule that) (use assms in \<open>auto simp: same_times_def waiters_def ChildExit om.wf_put
        queue_entry_insert split: wait_target.splits\<close>)
next
  case Manual
  let ?w = "w\<lparr>wq_blocked := wq_blocked w @ [t]\<rparr>"
  have "enqueue_wait_task t target w = Some ?w" by (simp add: enqueue_wait_task_def Manual)
  then show thesis
    by (rule that) (use assms in \<open>auto simp: same_times_def waiters_def Manual split: wait_target.splits\<close>)
qed

text \<open>The invariant after a change of waiters at held targets.\<close>

lemma wq_ok_same_times:
  assumes "wq_ok w" "same_times w w'" "om_ok (wq_exit w')" "om_ok (wq_child w')"
    and "\<And>q. q \<in> set (wq_free w) \<Longrightarrow> waiters (WaitQueue q) w' = []"
  shows "wq_ok w'"
proof -
  have "wq_queues w' ! q = []" if "q \<in> set (wq_free w)" for q
    using assms(5) [OF that] assms(1,2) that
    by (auto simp: waiters_def wq_ok_def free_ok_def same_times_def split: if_splits)
  then show ?thesis
    using assms(1-4) same_times_held [OF assms(2)]
    by (auto simp: wq_ok_def free_ok_def same_times_def)
qed

lemma free_no_waiters: "wq_ok w \<Longrightarrow> q \<in> set (wq_free w) \<Longrightarrow> waiters (WaitQueue q) w = []"
  by (simp add: wq_ok_def free_ok_def waiters_def)

end
