(* ===== verification/Wait_Props.thy ===== *)
theory Wait_Props
  imports Wait_Correct Task_Lifecycle
begin

text \<open>The properties of the wait queues.\<close>

section \<open>Expiry\<close>

definition due_pairs :: "timeout_task list \<Rightarrow> nat \<Rightarrow> (task_id \<times> wait_target) set" where
  "due_pairs es now = (\<lambda>e. (tt_task e, tt_target e)) ` {e \<in> set es. tt_tick e \<le> now}"

lemma due_pairs_simps [simp]:
  "due_pairs [] now = {}"
  "tt_tick e \<le> now \<Longrightarrow> due_pairs (e # es) now = insert (tt_task e, tt_target e) (due_pairs es now)"
  "\<not> tt_tick e \<le> now \<Longrightarrow> due_pairs (e # es) now = due_pairs es now"
  by (auto simp: due_pairs_def)

lemma waiters_timeouts [simp]: "waiters x (w\<lparr>wq_timeouts := es\<rparr>) = waiters x w"
  by (simp add: waiters_def split: wait_target.split)

lemma held_timeouts [simp]: "held x (w\<lparr>wq_timeouts := es\<rparr>) = held x w"
  by (simp add: held_def)

lemma insert_selected:
  assumes "S = {p \<in> D. A p \<and> p \<noteq> q}" "set qs = S"
  shows "set (if A q then q # qs else qs) = {p \<in> insert q D. A p}"
  using assms by auto

lemma selected_one: "A q \<Longrightarrow> {p \<in> {q}. A p} = {q}"
  by auto

lemma timeout_loop_spec:
  assumes "\<forall>e \<in> set es. held (tt_target e) w" "om_ok (wq_exit w)" "om_ok (wq_child w)"
    and "sorted (map tt_tick es)"
  shows "\<exists>out w'. timeout_loop es w = Some (out, w') \<and>
    same_times (w\<lparr>wq_timeouts := filter (\<lambda>e. wq_now w < tt_tick e) es\<rparr>) w' \<and>
    om_ok (wq_exit w') \<and> om_ok (wq_child w') \<and> distinct out \<and>
    set out = {p \<in> due_pairs es (wq_now w). fst p \<in> set (waiters (snd p) w)} \<and>
    (\<forall>x. waiters x w' = filter (\<lambda>t. (t, x) \<notin> due_pairs es (wq_now w)) (waiters x w))"
  using assms
proof (induction es arbitrary: w)
  case Nil
  then show ?case by simp
next
  case (Cons e rest)
  show ?case
  proof (cases "tt_tick e \<le> wq_now w")
    case False
    have later: "\<forall>x \<in> set rest. wq_now w < tt_tick x" using Cons.prems(4) False by auto
    have none: "due_pairs (e # rest) (wq_now w) = {}" using later False by (auto simp: due_pairs_def)
    have "filter (\<lambda>e. wq_now w < tt_tick e) (e # rest) = e # rest"
      using later False by (simp add: filter_id_conv)
    with False Cons.prems show ?thesis unfolding none by simp
  next
    case True
    let ?w = "w\<lparr>wq_timeouts := rest\<rparr>"
    have h: "held (tt_target e) ?w" "om_ok (wq_exit ?w)" "om_ok (wq_child ?w)" using Cons.prems by simp_all
    obtain w1 where w1: "remove_task_from_wait_target (tt_task e) (tt_target e) ?w =
        Some (tt_task e \<in> set (waiters (tt_target e) ?w), w1)"
      "same_times ?w w1" "om_ok (wq_exit w1)" "om_ok (wq_child w1)"
      "\<forall>x. waiters x w1 = (if x = tt_target e then drop_task (tt_task e) (waiters x ?w) else waiters x ?w)"
      using remove_from_target_spec [OF h, of "tt_task e"] by metis
    have now: "wq_now w1 = wq_now w" using w1(2) by (simp add: same_times_def)
    have "\<forall>e \<in> set rest. held (tt_target e) w1"
      using Cons.prems(1) same_times_held [OF w1(2)] by simp
    from Cons.IH [OF this w1(3,4)] Cons.prems(4) obtain out w' where
      IH: "timeout_loop rest w1 = Some (out, w')"
      "same_times (w1\<lparr>wq_timeouts := filter (\<lambda>e. wq_now w < tt_tick e) rest\<rparr>) w'"
      "om_ok (wq_exit w')" "om_ok (wq_child w')" "distinct out"
      "set out = {p \<in> due_pairs rest (wq_now w). fst p \<in> set (waiters (snd p) w1)}"
      "\<forall>x. waiters x w' = filter (\<lambda>t. (t, x) \<notin> due_pairs rest (wq_now w)) (waiters x w1)"
      unfolding now by auto
    let ?p = "(tt_task e, tt_target e)"
    let ?out = "if tt_task e \<in> set (waiters (tt_target e) w) then ?p # out else out"
    have loop: "timeout_loop (e # rest) w = Some (?out, w')"
      using True w1(1) IH(1) by simp
    have same: "same_times (w\<lparr>wq_timeouts := filter (\<lambda>e. wq_now w < tt_tick e) (e # rest)\<rparr>) w'"
      using IH(2) w1(2) True by (simp add: same_times_def)
    have wait: "waiters x w' = filter (\<lambda>t. (t, x) \<notin> due_pairs (e # rest) (wq_now w)) (waiters x w)" for x
      using IH(7) w1(5) True by (auto simp: drop_task_def filter_filter intro: filter_cong)
    have set: "set ?out = {p \<in> due_pairs (e # rest) (wq_now w). fst p \<in> set (waiters (snd p) w)}"
    proof -
      have mem: "fst p \<in> set (waiters (snd p) w1) \<longleftrightarrow> fst p \<in> set (waiters (snd p) w) \<and> p \<noteq> ?p" for p
        using w1(5) by (cases p) auto
      show ?thesis
        unfolding due_pairs_simps(2) [OF True]
        using insert_selected [of "set out" "due_pairs rest (wq_now w)"
            "\<lambda>p. fst p \<in> set (waiters (snd p) w)" ?p out]
        unfolding IH(6) mem by simp
    qed
    have "?p \<notin> set out" using IH(6) w1(5) by auto
    then have "distinct ?out" using IH(5) by simp
    with loop same wait set IH(3,4) show ?thesis by blast
  qed
qed

text \<open>
  C18. On well-formed queues the expiry of waits never panics. It consumes exactly the due
  timeout records (the others stay, in order), reports every task that was still waiting at the
  target of a due record, once per task and target and nothing else, and takes precisely those
  tasks out of those targets, so that a timed-out task can never be woken from the queue it
  left. Waking the sleepers removes exactly those whose tick has come, in wake order. Both keep
  the invariant.
\<close>

theorem timeout_expiry_correct:
  assumes "wq_ok w"
  shows "(\<exists>out w'. timeout_tasks w = Some (out, w') \<and> wq_ok w' \<and> distinct out \<and>
      wq_timeouts w' = filter (\<lambda>e. wq_now w < tt_tick e) (wq_timeouts w) \<and>
      set out = {p \<in> due_pairs (wq_timeouts w) (wq_now w). fst p \<in> set (waiters (snd p) w)} \<and>
      (\<forall>x. waiters x w' = filter (\<lambda>t. (t, x) \<notin> due_pairs (wq_timeouts w) (wq_now w)) (waiters x w)) \<and>
      wq_sleep w' = wq_sleep w \<and> wq_now w' = wq_now w) \<and>
    woken_tasks w = (map fst (filter (\<lambda>e. snd e \<le> wq_now w) (wq_sleep w)),
      w\<lparr>wq_sleep := filter (\<lambda>e. wq_now w < snd e) (wq_sleep w)\<rparr>) \<and>
    wq_ok (snd (woken_tasks w))"
proof -
  note ok = wq_okD [OF assms]
  have "\<forall>e \<in> set (wq_timeouts w). held (tt_target e) w" using ok(7) by blast
  from timeout_loop_spec [OF this ok(3,4,5)] obtain out w' where
    t: "timeout_tasks w = Some (out, w')" "distinct out"
    "same_times (w\<lparr>wq_timeouts := filter (\<lambda>e. wq_now w < tt_tick e) (wq_timeouts w)\<rparr>) w'"
    "om_ok (wq_exit w')" "om_ok (wq_child w')"
    "set out = {p \<in> due_pairs (wq_timeouts w) (wq_now w). fst p \<in> set (waiters (snd p) w)}"
    "\<forall>x. waiters x w' = filter (\<lambda>t. (t, x) \<notin> due_pairs (wq_timeouts w) (wq_now w)) (waiters x w)"
    by (auto simp: timeout_tasks_def)
  let ?w = "w\<lparr>wq_timeouts := filter (\<lambda>e. wq_now w < tt_tick e) (wq_timeouts w)\<rparr>"
  have "sorted (map tt_tick (filter P (wq_timeouts w)))" for P
    using ok(5) by (rule sorted_filter)
  then have "wq_ok ?w" using assms by (simp add: wq_ok_def free_ok_def)
  then have "wq_ok w'"
    by (rule wq_ok_same_times) (use t free_no_waiters [OF assms] in simp_all)
  moreover have "woken_tasks w = (map fst (filter (\<lambda>e. snd e \<le> wq_now w) (wq_sleep w)),
      w\<lparr>wq_sleep := filter (\<lambda>e. wq_now w < snd e) (wq_sleep w)\<rparr>)"
    using sorted_split_filter [OF ok(6), of "wq_now w"] by (simp add: woken_tasks_def pop_woken_eq)
  moreover have "sorted (map snd (filter P (wq_sleep w)))" for P
    using ok(6) by (rule sorted_filter)
  then have "wq_ok (w\<lparr>wq_sleep := filter P (wq_sleep w)\<rparr>)" for P
    using assms by (simp add: wq_ok_def free_ok_def held_def)
  ultimately show ?thesis using t by (auto simp: same_times_def)
qed

definition demo_wait :: wait_queues where
  "demo_wait = \<lparr>wq_queues = [[7, 8], []], wq_names = [Some ''futex'', Some ''pipe''], wq_free = [],
     wq_exit = [], wq_child = [], wq_timeouts = [\<lparr>tt_task = 8, tt_target = WaitQueue 0, tt_tick = 3\<rparr>],
     wq_blocked = [], wq_sleep = [(5, 2), (6, 9)], wq_exited = [], wq_now = 4\<rparr>"

lemma demo_wait_ok: "wq_ok demo_wait"
  by (simp add: wq_ok_def demo_wait_def free_ok_def held_def)

theorem timeout_expiry_correct_witness:
  "\<exists>out w'. timeout_tasks demo_wait = Some (out, w') \<and> set out = {(8, WaitQueue 0)} \<and>
     waiters (WaitQueue 0) w' = [7] \<and> fst (woken_tasks demo_wait) = [5]"
proof -
  have d: "due_pairs (wq_timeouts demo_wait) (wq_now demo_wait) = {(8, WaitQueue 0)}"
    by (simp add: demo_wait_def)
  have m: "8 \<in> set (waiters (WaitQueue 0) demo_wait)" "waiters (WaitQueue 0) demo_wait = [7, 8]"
    by (simp_all add: waiters_def demo_wait_def)
  note T = timeout_expiry_correct [OF demo_wait_ok, unfolded d]
  from conjunct1 [OF T] obtain out w' where o: "timeout_tasks demo_wait = Some (out, w')"
    "set out = {p \<in> {(8, WaitQueue 0)}. fst p \<in> set (waiters (snd p) demo_wait)}"
    "\<forall>x. waiters x w' = filter (\<lambda>t. (t, x) \<notin> {(8, WaitQueue 0)}) (waiters x demo_wait)"
    by (elim exE conjE) (rule that)
  have "set out = {(8, WaitQueue 0)}"
    unfolding o(2) by (rule selected_one) (simp add: m)
  moreover have "waiters (WaitQueue 0) w' = [7]" using o(3) m(2) by simp
  moreover have "fst (woken_tasks demo_wait) = [5]"
    using conjunct1 [OF conjunct2 [OF T]] by (simp add: demo_wait_def)
  ultimately show ?thesis using o(1) by blast
qed

section \<open>Waking in order\<close>

definition set_queue :: "nat \<Rightarrow> task_id list \<Rightarrow> wait_queues \<Rightarrow> wait_queues" where
  "set_queue q ts w = w\<lparr>wq_queues := (wq_queues w)[q := ts]\<rparr>"

definition forget :: "task_id set \<Rightarrow> wait_target \<Rightarrow> wait_queues \<Rightarrow> wait_queues" where
  "forget S x w =
     w\<lparr>wq_timeouts := filter (\<lambda>e. \<not> (tt_task e \<in> S \<and> tt_target e = x)) (wq_timeouts w)\<rparr>"

definition retarget :: "task_id set \<Rightarrow> nat \<Rightarrow> nat \<Rightarrow> timeout_task \<Rightarrow> timeout_task" where
  "retarget S f t e =
     (if tt_task e \<in> S \<and> tt_target e = WaitQueue f then e\<lparr>tt_target := WaitQueue t\<rparr> else e)"

lemma remove_wait_timeout_eq: "remove_wait_timeout t x w = forget {t} x w"
  by (simp add: remove_wait_timeout_def forget_def)

lemma forget_forget: "forget S x (set_queue q ts (forget S' x w)) = set_queue q ts (forget (S' \<union> S) x w)"
proof -
  have fil: "filter (\<lambda>e. \<not> (tt_task e \<in> S \<and> tt_target e = x))
      (filter (\<lambda>e. \<not> (tt_task e \<in> S' \<and> tt_target e = x)) es) =
      filter (\<lambda>e. \<not> (tt_task e \<in> S' \<union> S \<and> tt_target e = x)) es" for es
    unfolding filter_filter by (rule filter_cong) auto
  show ?thesis
    unfolding forget_def set_queue_def by (cases w) (simp only: wait_queues.simps fil)
qed

lemma wake_n_spec:
  "q < length (wq_queues w) \<Longrightarrow> c \<le> usize_max \<Longrightarrow>
   wake_n_from_wait_queue q n c w =
     Some (take n (wq_queues w ! q), sat_add usize_max c (length (take n (wq_queues w ! q))),
       set_queue q (drop n (wq_queues w ! q))
         (forget (set (take n (wq_queues w ! q))) (WaitQueue q) w))"
proof (induction n arbitrary: c w)
  case 0
  then show ?case by (simp add: set_queue_def forget_def sat_add_def)
next
  case (Suc n)
  show ?case
  proof (cases "wq_queues w ! q")
    case Nil
    then have "(wq_queues w)[q := []] = wq_queues w" using list_update_id [of "wq_queues w" q] by simp
    with Nil Suc.prems show ?thesis
      by (simp add: pop_wait_queue_def set_queue_def forget_def sat_add_def)
  next
    case (Cons t rest)
    let ?w = "forget {t} (WaitQueue q) (set_queue q rest w)"
    have w: "q < length (wq_queues ?w)" "wq_queues ?w ! q = rest"
      using Suc.prems by (simp_all add: forget_def set_queue_def)
    have pop: "pop_wait_queue q w = Some (Some t, set_queue q rest w)"
      using Suc.prems Cons by (simp add: pop_wait_queue_def set_queue_def)
    have ih: "wake_n_from_wait_queue q n (sat_add usize_max c 1) ?w =
        Some (take n rest, sat_add usize_max (sat_add usize_max c 1) (length (take n rest)),
          set_queue q (drop n rest) (forget (set (take n rest)) (WaitQueue q) ?w))"
      using Suc.IH [OF w(1), of "sat_add usize_max c 1"] unfolding w(2) by simp
    have sat: "sat_add usize_max (sat_add usize_max c 1) k = sat_add usize_max c (Suc k)" for k
      by (simp add: sat_add_def)
    have st: "set_queue q (drop n rest) (forget (set (take n rest)) (WaitQueue q) ?w) =
        set_queue q (drop n rest) (forget (insert t (set (take n rest))) (WaitQueue q) w)"
    proof -
      have "?w = set_queue q rest (forget {t} (WaitQueue q) w)" by (simp add: forget_def set_queue_def)
      then have "forget (set (take n rest)) (WaitQueue q) ?w =
          set_queue q rest (forget (insert t (set (take n rest))) (WaitQueue q) w)"
        using forget_forget [of "set (take n rest)" "WaitQueue q" q rest "{t}" w] by simp
      then show ?thesis by (simp add: set_queue_def)
    qed
    show ?thesis
      using pop ih by (simp add: Cons remove_wait_timeout_eq st sat del: One_nat_def)
  qed
qed

lemma update_timeout_eq:
  "update_wait_timeout_target t f d w = w\<lparr>wq_timeouts := map (retarget {t} f d) (wq_timeouts w)\<rparr>"
  by (auto simp: update_wait_timeout_target_def retarget_def)

lemma retarget_retarget:
  "f \<noteq> d \<Longrightarrow> retarget S f d (retarget S' f d e) = retarget (S' \<union> S) f d e"
  by (auto simp: retarget_def)

lemma update_twice: "f \<noteq> d \<Longrightarrow> xs[f := a, d := b, f := c, d := e] = xs[f := c, d := e]"
  by (simp add: list_update_swap [of f d])

lemma move_tasks_spec:
  assumes "f \<noteq> d"
  shows "f < length (wq_queues w) \<Longrightarrow> d < length (wq_queues w) \<Longrightarrow> c \<le> usize_max \<Longrightarrow>
    move_tasks_between_queues f d n c w =
      Some (map (\<lambda>t. (t, f)) (take n (wq_queues w ! f)),
        sat_add usize_max c (length (take n (wq_queues w ! f))),
        set_queue d (wq_queues w ! d @ take n (wq_queues w ! f))
          (set_queue f (drop n (wq_queues w ! f))
            (w\<lparr>wq_timeouts := map (retarget (set (take n (wq_queues w ! f))) f d) (wq_timeouts w)\<rparr>)))"
proof (induction n arbitrary: c w)
  case 0
  have "retarget {} f d = id" by (auto simp: retarget_def)
  with 0 show ?case by (simp add: set_queue_def sat_add_def)
next
  case (Suc n)
  show ?case
  proof (cases "wq_queues w ! f")
    case Nil
    have "retarget {} f d = id" by (auto simp: retarget_def)
    with Nil Suc.prems show ?thesis
      using list_update_id [of "wq_queues w" f]
      by (simp add: pop_wait_queue_def set_queue_def sat_add_def)
  next
    case (Cons t rest)
    let ?w = "set_queue d (wq_queues w ! d @ [t]) (set_queue f rest
        (w\<lparr>wq_timeouts := map (retarget {t} f d) (wq_timeouts w)\<rparr>))"
    have w: "f < length (wq_queues ?w)" "d < length (wq_queues ?w)" "wq_queues ?w ! f = rest"
      "wq_queues ?w ! d = wq_queues w ! d @ [t]"
      using Suc.prems assms by (simp_all add: set_queue_def)
    have pop: "pop_wait_queue f w = Some (Some t, set_queue f rest w)"
      using Suc.prems Cons by (simp add: pop_wait_queue_def set_queue_def)
    have enq: "enqueue_wait_task t (WaitQueue d) (update_wait_timeout_target t f d (set_queue f rest w)) =
        Some ?w"
      using Suc.prems assms by (simp add: enqueue_wait_task_def update_timeout_eq set_queue_def)
    have sat: "sat_add usize_max (sat_add usize_max c 1) k = sat_add usize_max c (Suc k)" for k
      by (simp add: sat_add_def)
    have es: "map (retarget (set (take n rest)) f d) (map (retarget {t} f d) es) =
        map (retarget (insert t (set (take n rest))) f d) es" for es
      by (simp add: retarget_retarget [OF assms] comp_def)
    have st: "set_queue d ((wq_queues w ! d @ [t]) @ take n rest) (set_queue f (drop n rest)
        (?w\<lparr>wq_timeouts := map (retarget (set (take n rest)) f d) (wq_timeouts ?w)\<rparr>)) =
      set_queue d (wq_queues w ! d @ t # take n rest) (set_queue f (drop n rest)
        (w\<lparr>wq_timeouts := map (retarget (insert t (set (take n rest))) f d) (wq_timeouts w)\<rparr>))"
    proof -
      have "(((wq_queues w)[f := rest, d := wq_queues w ! d @ [t]])[f := drop n rest])
          [d := wq_queues w ! d @ t # take n rest] =
        ((wq_queues w)[f := drop n rest])[d := wq_queues w ! d @ t # take n rest]"
        by (rule update_twice [OF assms])
      then show ?thesis using es [of "wq_timeouts w"] by (simp add: set_queue_def)
    qed
    have ih: "move_tasks_between_queues f d n (sat_add usize_max c 1) ?w =
        Some (map (\<lambda>t. (t, f)) (take n rest),
          sat_add usize_max (sat_add usize_max c 1) (length (take n rest)),
          set_queue d ((wq_queues w ! d @ [t]) @ take n rest) (set_queue f (drop n rest)
            (?w\<lparr>wq_timeouts := map (retarget (set (take n rest)) f d) (wq_timeouts ?w)\<rparr>)))"
      using Suc.IH [OF w(1,2), of "sat_add usize_max c 1"] unfolding w(3,4) by simp
    show ?thesis
      using pop enq ih unfolding st sat by (simp add: Cons del: One_nat_def)
  qed
qed

lemma waiters_set_queue:
  "q < length (wq_queues w) \<Longrightarrow>
     waiters x (set_queue q ts w) = (if x = WaitQueue q then ts else waiters x w)"
  by (simp add: set_queue_def waiters_update_queue)

lemma waiters_forget [simp]: "waiters x (forget S y w) = waiters x w"
  by (simp add: forget_def)

lemma set_queue_length [simp]: "length (wq_queues (set_queue q ts w)) = length (wq_queues w)"
  "wq_queues (forget S x w) = wq_queues w"
  by (simp_all add: set_queue_def forget_def)

lemma wq_ok_set_queue:
  assumes "wq_ok w" "held (WaitQueue q) w"
  shows "wq_ok (set_queue q ts w)"
proof -
  have q: "q < length (wq_queues w)" "q \<notin> set (wq_free w)" using assms(2) by (simp_all add: held_def)
  show ?thesis
  proof (rule wq_ok_same_times [OF assms(1)])
    show "same_times w (set_queue q ts w)" by (simp add: same_times_def set_queue_def)
    show "om_ok (wq_exit (set_queue q ts w))" "om_ok (wq_child (set_queue q ts w))"
      using assms(1) by (simp_all add: set_queue_def wq_ok_def)
    show "waiters (WaitQueue i) (set_queue q ts w) = []" if "i \<in> set (wq_free w)" for i
      using that q free_no_waiters [OF assms(1) that] by (auto simp: waiters_set_queue)
  qed
qed

lemma wq_ok_timeouts:
  assumes "wq_ok w" "sorted (map tt_tick es)" "\<forall>e \<in> set es. held (tt_target e) w"
  shows "wq_ok (w\<lparr>wq_timeouts := es\<rparr>)"
  using assms by (simp add: wq_ok_def free_ok_def held_def)

lemma wq_ok_forget: "wq_ok w \<Longrightarrow> wq_ok (forget S x w)"
  unfolding forget_def by (rule wq_ok_timeouts) (auto simp: wq_ok_def intro: sorted_filter)

lemma wq_ok_retarget:
  assumes "wq_ok w" "held (WaitQueue d) w"
  shows "wq_ok (w\<lparr>wq_timeouts := map (retarget S f d) (wq_timeouts w)\<rparr>)"
proof (rule wq_ok_timeouts [OF assms(1)])
  have "tt_tick \<circ> retarget S f d = tt_tick" by (auto simp: retarget_def)
  then show "sorted (map tt_tick (map (retarget S f d) (wq_timeouts w)))"
    using wq_okD(5) [OF assms(1)] by simp
  show "\<forall>e \<in> set (map (retarget S f d) (wq_timeouts w)). held (tt_target e) w"
    using assms wq_okD(7) [OF assms(1)] by (auto simp: retarget_def)
qed

lemma held_set_queue [simp]:
  "held x (set_queue q ts w) = held x w" "held x (forget S y w) = held x w"
  by (simp_all add: held_def set_queue_def forget_def)

definition requeued :: "nat \<Rightarrow> nat \<Rightarrow> nat \<Rightarrow> nat \<Rightarrow> wait_queues \<Rightarrow> wait_queues \<Rightarrow> bool" where
  "requeued f d k n w w' \<longleftrightarrow>
     (let ws = waiters (WaitQueue f) w; woken = take k ws;
          moved = (if f = d then [] else take n (drop k ws)) in
      waiters (WaitQueue f) w' = drop (length moved) (drop k ws) \<and>
      (f \<noteq> d \<longrightarrow> waiters (WaitQueue d) w' = waiters (WaitQueue d) w @ moved) \<and>
      (\<forall>x. x \<noteq> WaitQueue f \<and> x \<noteq> WaitQueue d \<longrightarrow> waiters x w' = waiters x w) \<and>
      wq_timeouts w' = map (retarget (set moved) f d)
        (filter (\<lambda>e. \<not> (tt_task e \<in> set woken \<and> tt_target e = WaitQueue f)) (wq_timeouts w)))"

lemma drop_length_take: "drop (length (take n xs)) xs = drop n xs"
  by (cases "n \<le> length xs") (simp_all add: min_def)

lemma requeue_spec:
  assumes ok: "wq_ok w" and hf: "held (WaitQueue f) w" and hd: "held (WaitQueue d) w"
  shows "\<exists>c w'. requeue_wait_queue f d k n w =
      Some (take k (waiters (WaitQueue f) w),
        (if f = d then [] else map (\<lambda>t. (t, f)) (take n (drop k (waiters (WaitQueue f) w)))), c, w') \<and>
    c = sat_add usize_max (length (take k (waiters (WaitQueue f) w)))
          (length (take n (drop k (waiters (WaitQueue f) w)))) \<and>
    wq_ok w' \<and> requeued f d k n w w'"
proof -
  let ?ws = "waiters (WaitQueue f) w"
  have f: "f < length (wq_queues w)" and d: "d < length (wq_queues w)"
    using hf hd by (simp_all add: held_def)
  have ws: "wq_queues w ! f = ?ws" using f by (simp add: waiters_queue)
  let ?w1 = "set_queue f (drop k ?ws) (forget (set (take k ?ws)) (WaitQueue f) w)"
  have wake: "wake_n_from_wait_queue f k 0 w =
      Some (take k ?ws, sat_add usize_max 0 (length (take k ?ws)), ?w1)"
    using wake_n_spec [OF f, of 0 k] by (simp add: ws)
  have ok1: "wq_ok ?w1" using ok hf by (simp add: wq_ok_set_queue wq_ok_forget)
  have w1f: "wq_queues ?w1 ! f = drop k ?ws" "length (wq_queues ?w1) = length (wq_queues w)"
    using f by (simp_all add: set_queue_def)
  have sat: "sat_add usize_max (sat_add usize_max 0 a) b = sat_add usize_max a b" for a b
    by (simp add: sat_add_def)
  have id: "retarget {} f d = (\<lambda>e. e)" by (auto simp: retarget_def)
  show ?thesis
  proof (cases "f = d")
    case True
    have "requeued f d k n w ?w1"
      using f True id
      by (simp add: requeued_def Let_def waiters_set_queue) (simp add: set_queue_def forget_def)
    with wake w1f f True ok1 show ?thesis
      by (simp add: requeue_wait_queue_def sat min.commute)
  next
    case False
    let ?mv = "take n (drop k ?ws)"
    let ?w2 = "set_queue d (wq_queues ?w1 ! d @ ?mv) (set_queue f (drop n (drop k ?ws))
      (?w1\<lparr>wq_timeouts := map (retarget (set ?mv) f d) (wq_timeouts ?w1)\<rparr>))"
    have move: "move_tasks_between_queues f d n (sat_add usize_max 0 (length (take k ?ws))) ?w1 =
        Some (map (\<lambda>t. (t, f)) ?mv,
          sat_add usize_max (sat_add usize_max 0 (length (take k ?ws))) (length ?mv), ?w2)"
      using move_tasks_spec [OF False, of ?w1 "sat_add usize_max 0 (length (take k ?ws))" n]
      unfolding w1f using f d by simp
    have req: "requeue_wait_queue f d k n w =
        Some (take k ?ws, map (\<lambda>t. (t, f)) ?mv, sat_add usize_max (length (take k ?ws)) (length ?mv), ?w2)"
      using wake move False by (simp add: requeue_wait_queue_def sat)
    have ok2: "wq_ok ?w2"
      by (intro wq_ok_set_queue wq_ok_retarget ok1) (simp_all add: hf hd)
    have d1: "wq_queues ?w1 ! d = waiters (WaitQueue d) w"
      using d False by (simp add: set_queue_def waiters_queue)
    have times: "wq_timeouts ?w2 = map (retarget (set ?mv) f d)
        (filter (\<lambda>e. \<not> (tt_task e \<in> set (take k ?ws) \<and> tt_target e = WaitQueue f)) (wq_timeouts w))"
      by (simp add: set_queue_def forget_def)
    have wait: "waiters x ?w2 = (if x = WaitQueue d then waiters (WaitQueue d) w @ ?mv
        else if x = WaitQueue f then drop n (drop k ?ws) else waiters x w)" for x
      using f d d1 by (simp add: waiters_set_queue)
    have "requeued f d k n w ?w2"
      unfolding requeued_def Let_def wait times using False
      by (simp only: drop_length_take if_False if_True simp_thms) simp
    with req ok2 False show ?thesis by auto
  qed
qed

text \<open>
  Waking and requeueing are first in, first out. Between two queue ids in use
  \<open>requeue_wait_queue\<close> never panics: it wakes the first \<open>k\<close> waiters in the order they came,
  moves the next \<open>n\<close> in order to the end of the other queue together with their timeouts,
  counts both (of one queue, the waiters that would stay), forgets the timeouts of the woken
  ones, and leaves every other target alone. Waking one task takes the longest waiting one,
  waking all returns every waiter in order.
\<close>

theorem requeue_fifo:
  assumes "wq_ok w" and "held (WaitQueue f) w" and "held (WaitQueue d) w"
  shows "(\<exists>w'. requeue_wait_queue f d k n w =
      Some (take k (waiters (WaitQueue f) w),
        (if f = d then [] else map (\<lambda>t. (t, f)) (take n (drop k (waiters (WaitQueue f) w)))),
        sat_add usize_max (length (take k (waiters (WaitQueue f) w)))
          (length (take n (drop k (waiters (WaitQueue f) w)))), w') \<and>
      wq_ok w' \<and> requeued f d k n w w') \<and>
    (\<exists>w'. wake_one_in_wait_queue f w =
        Some ((case waiters (WaitQueue f) w of [] \<Rightarrow> None | t # _ \<Rightarrow> Some t), w') \<and>
      requeued f f 1 0 w w') \<and>
    (\<exists>w'. wake_all_in_wait_queue f w = Some (waiters (WaitQueue f) w, w') \<and>
      waiters (WaitQueue f) w' = [] \<and> requeued f f (length (waiters (WaitQueue f) w)) 0 w w')"
proof (intro conjI)
  show "\<exists>w'. requeue_wait_queue f d k n w =
      Some (take k (waiters (WaitQueue f) w),
        (if f = d then [] else map (\<lambda>t. (t, f)) (take n (drop k (waiters (WaitQueue f) w)))),
        sat_add usize_max (length (take k (waiters (WaitQueue f) w)))
          (length (take n (drop k (waiters (WaitQueue f) w)))), w') \<and>
      wq_ok w' \<and> requeued f d k n w w'"
    using requeue_spec [OF assms] by blast
  have f: "f < length (wq_queues w)" using assms(2) by (simp add: held_def)
  have id: "retarget {} f f = (\<lambda>e. e)" by (auto simp: retarget_def)
  have rq: "requeued f f m 0 w (set_queue f (drop m (waiters (WaitQueue f) w))
      (forget (set (take m (waiters (WaitQueue f) w))) (WaitQueue f) w))" for m
    using f id by (simp add: requeued_def Let_def waiters_set_queue) (simp add: set_queue_def forget_def)
  show "\<exists>w'. wake_one_in_wait_queue f w =
        Some ((case waiters (WaitQueue f) w of [] \<Rightarrow> None | t # _ \<Rightarrow> Some t), w') \<and>
      requeued f f 1 0 w w'"
  proof (cases "waiters (WaitQueue f) w")
    case Nil
    have "requeued f f 1 0 w w" using Nil id by (simp add: requeued_def Let_def)
    with Nil f show ?thesis
      by (simp add: wake_one_in_wait_queue_def pop_wait_queue_def waiters_queue)
  next
    case (Cons t rest)
    have "wake_one_in_wait_queue f w = Some (Some t, set_queue f rest (forget {t} (WaitQueue f) w))"
      using Cons f unfolding wake_one_in_wait_queue_def pop_wait_queue_def
      by (simp add: waiters_queue remove_wait_timeout_eq) (simp add: set_queue_def forget_def)
    with rq [of 1] Cons show ?thesis by simp
  qed
  show "\<exists>w'. wake_all_in_wait_queue f w = Some (waiters (WaitQueue f) w, w') \<and>
      waiters (WaitQueue f) w' = [] \<and> requeued f f (length (waiters (WaitQueue f) w)) 0 w w'"
    using wake_n_spec [OF f, of 0 "length (wq_queues w ! f)"]
      rq [of "length (waiters (WaitQueue f) w)"] f
    by (auto simp: wake_all_in_wait_queue_def waiters_queue waiters_set_queue)
qed

theorem requeue_fifo_witness:
  "\<exists>w'. requeue_wait_queue 0 1 1 1 demo_wait = Some ([7], [(8, 0)], 2, w') \<and>
     waiters (WaitQueue 1) w' = [8] \<and> map tt_target (wq_timeouts w') = [WaitQueue 1]"
proof -
  have h: "held (WaitQueue 0) demo_wait" "held (WaitQueue 1) demo_wait"
    by (simp_all add: held_def demo_wait_def)
  have w: "waiters (WaitQueue 0) demo_wait = [7, 8]" "waiters (WaitQueue (Suc 0)) demo_wait = []"
    "wq_timeouts demo_wait = [\<lparr>tt_task = 8, tt_target = WaitQueue 0, tt_tick = 3\<rparr>]"
    by (simp_all add: waiters_def demo_wait_def)
  have "sat_add usize_max (Suc 0) (Suc 0) = 2" by (simp add: sat_add_def usize_max_def)
  with requeue_fifo [OF demo_wait_ok h, of 1 1, THEN conjunct1] show ?thesis
    by (auto simp: w requeued_def retarget_def)
qed

end
