(* ===== verification/Wait_Lifecycle.thy ===== *)
theory Wait_Lifecycle
  imports Wait_Props
begin

text \<open>
  Taking one task out of the wait queues, and the wait queues as a state machine: the invariant
  that a task waits in one place at most, every operation as a step, and what holds in every
  reachable state.
\<close>

section \<open>A task waits in one place\<close>

definition sleepers :: "wait_queues \<Rightarrow> task_id set" where
  "sleepers w = fst ` set (wq_sleep w)"

definition waiting :: "task_id \<Rightarrow> wait_queues \<Rightarrow> bool" where
  "waiting t w \<longleftrightarrow> (\<exists>x. t \<in> set (waiters x w)) \<or> t \<in> sleepers w"

definition waits_once :: "wait_queues \<Rightarrow> bool" where
  "waits_once w \<longleftrightarrow> (\<forall>x. distinct (waiters x w)) \<and> distinct (map fst (wq_sleep w)) \<and>
     (\<forall>x y t. t \<in> set (waiters x w) \<longrightarrow> t \<in> set (waiters y w) \<longrightarrow> x = y) \<and>
     (\<forall>x t. t \<in> set (waiters x w) \<longrightarrow> t \<notin> sleepers w)"

lemma waits_onceD:
  assumes "waits_once w"
  shows "distinct (waiters x w)" "distinct (map fst (wq_sleep w))"
    "t \<in> set (waiters x w) \<Longrightarrow> t \<in> set (waiters y w) \<Longrightarrow> x = y"
    "t \<in> set (waiters x w) \<Longrightarrow> t \<notin> sleepers w"
  using assms unfolding waits_once_def by blast+

text \<open>
  The invariant is kept when every waiter of the new state comes from a place of the old one
  that determines where it is now.
\<close>

lemma waits_once_move:
  assumes "waits_once w" and d: "\<And>x. distinct (waiters x w')"
    and orig: "\<And>x t. t \<in> set (waiters x w') \<Longrightarrow> \<exists>y. t \<in> set (waiters y w) \<and> x = g t y"
    and s: "\<exists>P. wq_sleep w' = filter P (wq_sleep w)"
  shows "waits_once w'"
proof -
  obtain P where P: "wq_sleep w' = filter P (wq_sleep w)" using s by blast
  have sl: "sleepers w' \<subseteq> sleepers w" "distinct (map fst (wq_sleep w'))"
    using waits_onceD(2) [OF assms(1)] by (auto simp: sleepers_def P distinct_map_filter)
  have "x = y" if "t \<in> set (waiters x w')" "t \<in> set (waiters y w')" for x y t
  proof -
    note m = that
    obtain x0 y0 where o: "t \<in> set (waiters x0 w)" "x = g t x0" "t \<in> set (waiters y0 w)" "y = g t y0"
      using orig [OF m(1)] orig [OF m(2)] by blast
    from waits_onceD(3) [OF assms(1) o(1,3)] o(2,4) show ?thesis by simp
  qed
  moreover have "t \<notin> sleepers w'" if "t \<in> set (waiters x w')" for x t
    using orig [OF that] waits_onceD(4) [OF assms(1)] sl(1) by blast
  ultimately show ?thesis using d sl(2) unfolding waits_once_def by blast
qed

lemma waits_once_shrink:
  assumes "waits_once w" and "\<And>x. \<exists>P. waiters x w' = filter P (waiters x w)"
    and "\<exists>P. wq_sleep w' = filter P (wq_sleep w)"
  shows "waits_once w'"
proof (rule waits_once_move [OF assms(1) _ _ assms(3)])
  fix x
  obtain P where P: "waiters x w' = filter P (waiters x w)" using assms(2) by blast
  then show "distinct (waiters x w')" using waits_onceD(1) [OF assms(1), of x] by simp
  show "\<exists>y. t \<in> set (waiters y w) \<and> x = (\<lambda>t y. y) t y" if "t \<in> set (waiters x w')" for t
    using that P by auto
qed

section \<open>Taking a task out of wherever it waits\<close>

lemma remove_sleeper_eq:
  "distinct (map fst s) \<Longrightarrow> remove_sleeper t s =
     (if t \<in> fst ` set s then Some (filter (\<lambda>e. fst e \<noteq> t) s) else None)"
proof (induction s)
  case (Cons e s)
  obtain i n where e: "e = (i, n)" by (cases e)
  show ?case
  proof (cases "i = t")
    case True
    then have "filter (\<lambda>e. fst e \<noteq> t) s = s"
      using Cons.prems by (auto simp: e filter_id_conv)
    with True show ?thesis by (simp add: e)
  next
    case False
    with Cons show ?thesis by (auto simp: e)
  qed
qed simp

definition in_one :: "task_id \<Rightarrow> task_id list list \<Rightarrow> bool" where
  "in_one t qs \<longleftrightarrow> (\<forall>i j. i < length qs \<longrightarrow> j < length qs \<longrightarrow> t \<in> set (qs ! i) \<longrightarrow>
     t \<in> set (qs ! j) \<longrightarrow> i = j)"

lemma in_one_Cons:
  assumes "in_one t (q # qs)"
  shows "in_one t qs" "t \<in> set q \<Longrightarrow> r \<in> set qs \<Longrightarrow> t \<notin> set r"
proof -
  show "in_one t qs"
    unfolding in_one_def
  proof (intro allI impI)
    fix i j assume "i < length qs" "j < length qs" "t \<in> set (qs ! i)" "t \<in> set (qs ! j)"
    with assms [unfolded in_one_def, rule_format, of "Suc i" "Suc j"] show "i = j" by simp
  qed
  assume t: "t \<in> set q" and r: "r \<in> set qs"
  then obtain j where "j < length qs" "r = qs ! j" by (auto simp: in_set_conv_nth)
  with t assms [unfolded in_one_def, rule_format, of 0 "Suc j"] show "t \<notin> set r" by auto
qed

lemma map_drop_task_id: "(\<And>q. q \<in> set qs \<Longrightarrow> t \<notin> set q) \<Longrightarrow> map (drop_task t) qs = qs"
  by (induction qs) (simp_all add: drop_task_id)

lemma take_from_queues_eq:
  "in_one t qs \<Longrightarrow> take_from_queues t qs =
     (if \<exists>q \<in> set qs. t \<in> set q then Some (map (drop_task t) qs) else None)"
proof (induction qs)
  case (Cons q qs)
  show ?case
  proof (cases "t \<in> set q")
    case True
    with in_one_Cons(2) [OF Cons.prems] have "map (drop_task t) qs = qs"
      by (intro map_drop_task_id) blast
    with True show ?thesis by (simp add: take_task_eq)
  next
    case False
    with Cons.IH [OF in_one_Cons(1) [OF Cons.prems]] show ?thesis by (simp add: take_task_eq)
  qed
qed simp

lemma queue_entry_map_values:
  "queue_entry k (om_map_values (drop_task t) m) = drop_task t (queue_entry k m)"
  by (induction m) (auto simp: queue_entry_def om_map_values_def om_get_def drop_task_def)

lemma om_ok_map_values: "om_ok (om_map_values f m) = om_ok m"
proof -
  have "map fst (om_map_values f m) = map fst m"
    by (simp add: om_map_values_def case_prod_unfold comp_def)
  then show ?thesis by (simp add: om_ok_def)
qed

lemma queue_entry_mem: "om_ok m \<Longrightarrow> (k, q) \<in> set m \<Longrightarrow> queue_entry k m = q"
  using om_get_iff [of m k q] by (simp add: queue_entry_def)

lemma queue_entry_in: "t \<in> set (queue_entry k m) \<Longrightarrow> \<exists>q \<in> set (map snd m). t \<in> set q"
proof -
  assume t: "t \<in> set (queue_entry k m)"
  then obtain q where q: "map_of m k = Some q" "t \<in> set q"
    by (cases "map_of m k") (auto simp: queue_entry_def om_get_def)
  then have "(k, q) \<in> set m" by (blast dest: map_of_SomeD)
  with q(2) show ?thesis by force
qed

lemma take_from_map_eq:
  assumes ok: "om_ok m"
    and one: "\<And>k j. t \<in> set (queue_entry k m) \<Longrightarrow> t \<in> set (queue_entry j m) \<Longrightarrow> k = j"
  shows "take_from_map t m =
     (if \<exists>k. t \<in> set (queue_entry k m) then Some (om_map_values (drop_task t) m) else None)"
proof -
  have "in_one t (map snd m)"
    unfolding in_one_def
  proof (intro allI impI)
    fix i j
    assume b: "i < length (map snd m)" "j < length (map snd m)"
      and t: "t \<in> set (map snd m ! i)" "t \<in> set (map snd m ! j)"
    have "queue_entry (fst (m ! n)) m = map snd m ! n" if "n < length m" for n
      using queue_entry_mem [OF ok, of "fst (m ! n)" "snd (m ! n)"] that by simp
    with b t one have "map fst m ! i = map fst m ! j" by simp
    then show "i = j"
      using nth_eq_iff_index_eq [OF om_ok_distinct [OF ok]] b by simp
  qed
  note eq = take_from_queues_eq [OF this]
  have ex: "(\<exists>q \<in> set (map snd m). t \<in> set q) \<longleftrightarrow> (\<exists>k. t \<in> set (queue_entry k m))"
    using queue_entry_in queue_entry_mem [OF ok] by fastforce
  have "zip (map fst m) (map (drop_task t) (map snd m)) = om_map_values (drop_task t) m"
    by (induction m) (auto simp: om_map_values_def)
  with eq ex show ?thesis by (simp add: take_from_map_def)
qed

text \<open>What is left when a task has been taken out.\<close>

definition without :: "task_id \<Rightarrow> wait_queues \<Rightarrow> wait_queues \<Rightarrow> bool" where
  "without t w w' \<longleftrightarrow> (\<forall>x. waiters x w' = drop_task t (waiters x w)) \<and>
     wq_sleep w' = filter (\<lambda>e. fst e \<noteq> t) (wq_sleep w) \<and>
     wq_timeouts w' = filter (\<lambda>e. tt_task e \<noteq> t) (wq_timeouts w) \<and>
     wq_now w' = wq_now w \<and> wq_free w' = wq_free w \<and> wq_names w' = wq_names w \<and>
     wq_exited w' = wq_exited w \<and> length (wq_queues w') = length (wq_queues w) \<and>
     om_ok (wq_exit w') \<and> om_ok (wq_child w')"

lemma without_waiting: "without t w w' \<Longrightarrow> \<not> waiting t w'"
  by (auto simp: without_def waiting_def sleepers_def)

lemma without_other:
  assumes "without t w w'" "s \<noteq> t"
  shows "s \<in> set (waiters x w') \<longleftrightarrow> s \<in> set (waiters x w)" "s \<in> sleepers w' \<longleftrightarrow> s \<in> sleepers w"
  using assms by (auto simp: without_def sleepers_def)

lemma without_once: "waits_once w \<Longrightarrow> without t w w' \<Longrightarrow> waits_once w'"
  by (rule waits_once_shrink) (auto simp: without_def drop_task_def)

lemma sorted_map_filter: "sorted (map f xs) \<Longrightarrow> sorted (map f (filter P xs))"
  by (induction xs) auto

lemma without_ok:
  assumes "wq_ok w" "without t w w'"
  shows "wq_ok w'"
proof -
  let ?v = "w\<lparr>wq_timeouts := wq_timeouts w', wq_sleep := wq_sleep w'\<rparr>"
  note d = assms(2) [unfolded without_def]
  have v: "wq_ok ?v"
    using assms(1) d unfolding wq_ok_def
    by (simp add: free_ok_def held_def sorted_map_filter) blast
  have t: "same_times ?v w'" using d by (simp add: same_times_def)
  have "waiters (WaitQueue q) w' = []" if "q \<in> set (wq_free w)" for q
  proof -
    have "waiters (WaitQueue q) w = []" by (rule free_no_waiters [OF assms(1) that])
    with d show ?thesis by (simp add: drop_task_def)
  qed
  then have f: "waiters (WaitQueue q) w' = []" if "q \<in> set (wq_free ?v)" for q using that by simp
  show ?thesis
    by (rule wq_ok_same_times [OF v t]) (use d f in blast)+
qed

lemma drop_task_absent: "\<not> waiting t w \<Longrightarrow> drop_task t (waiters x w) = waiters x w"
  by (simp add: waiting_def drop_task_id)

lemma filter_absent: "t \<notin> fst ` set s \<Longrightarrow> filter (\<lambda>e. fst e \<noteq> t) s = s"
  by (auto simp: filter_id_conv)

lemma without_place:
  assumes once: "waits_once w" and t: "t \<in> set (waiters x w)"
    and w': "same_times (w\<lparr>wq_timeouts := filter (\<lambda>e. tt_task e \<noteq> t) (wq_timeouts w)\<rparr>) w'"
    "om_ok (wq_exit w')" "om_ok (wq_child w')"
    and at: "waiters x w' = drop_task t (waiters x w)"
    and off: "\<And>y. y \<noteq> x \<Longrightarrow> waiters y w' = drop_task t (waiters y w) \<or> waiters y w' = waiters y w"
  shows "without t w w'"
proof -
  have "waiters y w' = drop_task t (waiters y w)" for y
  proof (cases "y = x")
    case False
    then have "drop_task t (waiters y w) = waiters y w"
      using waits_onceD(3) [OF once t, of y] by (intro drop_task_id) blast
    with off [OF False] show ?thesis by auto
  qed (simp add: at)
  moreover have "filter (\<lambda>e. fst e \<noteq> t) (wq_sleep w) = wq_sleep w"
    using waits_onceD(4) [OF once t] by (intro filter_absent) (simp add: sleepers_def)
  ultimately show ?thesis
    using w' by (simp add: without_def same_times_def)
qed

lemma without_none:
  assumes "\<not> waiting t w" "om_ok (wq_exit w)" "om_ok (wq_child w)"
  shows "without t w (w\<lparr>wq_timeouts := filter (\<lambda>e. tt_task e \<noteq> t) (wq_timeouts w)\<rparr>)"
  using assms drop_task_absent [OF assms(1)] filter_absent [of t "wq_sleep w"]
  by (simp add: without_def waiting_def sleepers_def)

lemma without_sleep:
  assumes "waits_once w" "t \<in> sleepers w" "om_ok (wq_exit w)" "om_ok (wq_child w)"
  shows "without t w (w\<lparr>wq_timeouts := filter (\<lambda>e. tt_task e \<noteq> t) (wq_timeouts w),
      wq_sleep := filter (\<lambda>e. fst e \<noteq> t) (wq_sleep w)\<rparr>)"
proof -
  have "t \<notin> set (waiters x w)" for x using waits_onceD(4) [OF assms(1)] assms(2) by blast
  then have "drop_task t (waiters x w) = waiters x w" for x by (rule drop_task_id)
  with assms(3,4) show ?thesis by (simp add: without_def) (simp add: waiters_def split: wait_target.split)
qed

lemma waiting_places:
  "waiting t w \<longleftrightarrow> t \<in> set (wq_blocked w) \<or> t \<in> fst ` set (wq_sleep w) \<or>
     (\<exists>q \<in> set (wq_queues w). t \<in> set q) \<or> (\<exists>k. t \<in> set (queue_entry k (wq_exit w))) \<or>
     (\<exists>k. t \<in> set (queue_entry k (wq_child w)))" (is "_ \<longleftrightarrow> ?R")
proof
  assume "waiting t w"
  then show ?R
  proof (unfold waiting_def, elim disjE exE)
    fix x assume "t \<in> set (waiters x w)"
    then show ?R by (cases x) (auto simp: waiters_def split: if_splits)
  qed (simp add: sleepers_def)
next
  assume ?R
  then show "waiting t w"
  proof (elim disjE bexE exE)
    fix q assume "q \<in> set (wq_queues w)" "t \<in> set q"
    then obtain n where "n < length (wq_queues w)" "wq_queues w ! n = q" by (auto simp: in_set_conv_nth)
    with \<open>t \<in> set q\<close> have "t \<in> set (waiters (WaitQueue n) w)" by (simp add: waiters_def)
    then show ?thesis unfolding waiting_def by blast
  next
    fix k assume "t \<in> set (queue_entry k (wq_exit w))"
    then have "t \<in> set (waiters (TaskExit k) w)" by (simp add: waiters_def)
    then show ?thesis unfolding waiting_def by blast
  next
    fix k assume "t \<in> set (queue_entry k (wq_child w))"
    then have "t \<in> set (waiters (ChildExit k) w)" by (simp add: waiters_def)
    then show ?thesis unfolding waiting_def by blast
  next
    assume "t \<in> set (wq_blocked w)"
    then have "t \<in> set (waiters Manual w)" by (simp add: waiters_def)
    then show ?thesis unfolding waiting_def by blast
  qed (simp add: waiting_def sleepers_def)
qed

lemma waits_once_maps:
  assumes "waits_once w"
  shows "in_one t (wq_queues w)"
    "t \<in> set (queue_entry k (wq_exit w)) \<Longrightarrow> t \<in> set (queue_entry j (wq_exit w)) \<Longrightarrow> k = j"
    "t \<in> set (queue_entry k (wq_child w)) \<Longrightarrow> t \<in> set (queue_entry j (wq_child w)) \<Longrightarrow> k = j"
proof -
  note o = waits_onceD(3) [OF assms]
  show "in_one t (wq_queues w)"
    unfolding in_one_def
  proof (intro allI impI)
    fix i j assume "i < length (wq_queues w)" "j < length (wq_queues w)" "t \<in> set (wq_queues w ! i)"
      "t \<in> set (wq_queues w ! j)"
    with o [of t "WaitQueue i" "WaitQueue j"] show "i = j" by (simp add: waiters_def)
  qed
  show "t \<in> set (queue_entry k (wq_exit w)) \<Longrightarrow> t \<in> set (queue_entry j (wq_exit w)) \<Longrightarrow> k = j"
    using o [of t "TaskExit k" "TaskExit j"] by (simp add: waiters_def)
  show "t \<in> set (queue_entry k (wq_child w)) \<Longrightarrow> t \<in> set (queue_entry j (wq_child w)) \<Longrightarrow> k = j"
    using o [of t "ChildExit k" "ChildExit j"] by (simp add: waiters_def)
qed

lemma remove_from_any_spec:
  assumes ok: "wq_ok w" and once: "waits_once w"
  shows "\<exists>w'. remove_task_from_any_queue t w = (waiting t w, w') \<and> without t w w'"
proof -
  note om = wq_okD(3,4) [OF ok] and m = waits_once_maps [OF once]
  have e: "take_from_map t (wq_exit w) = (if \<exists>k. t \<in> set (queue_entry k (wq_exit w))
      then Some (om_map_values (drop_task t) (wq_exit w)) else None)"
    by (rule take_from_map_eq [OF om(1)]) (rule m(2))
  have c: "take_from_map t (wq_child w) = (if \<exists>k. t \<in> set (queue_entry k (wq_child w))
      then Some (om_map_values (drop_task t) (wq_child w)) else None)"
    by (rule take_from_map_eq [OF om(2)]) (rule m(3))
  note eqs = remove_task_from_any_queue_def Let_def take_task_eq e c
    remove_sleeper_eq [OF waits_onceD(2) [OF once]] take_from_queues_eq [OF m(1)]
  let ?w = "w\<lparr>wq_timeouts := filter (\<lambda>e. tt_task e \<noteq> t) (wq_timeouts w)\<rparr>"
  note place = waiters_def queue_entry_map_values om_ok_map_values drop_task_def same_times_def om
  consider (manual) "t \<in> set (wq_blocked w)"
    | (sleep) "t \<notin> set (wq_blocked w)" "t \<in> sleepers w"
    | (queue) "t \<notin> set (wq_blocked w)" "t \<notin> sleepers w" "\<exists>q \<in> set (wq_queues w). t \<in> set q"
    | (exit) "t \<notin> set (wq_blocked w)" "t \<notin> sleepers w" "\<not> (\<exists>q \<in> set (wq_queues w). t \<in> set q)"
        "\<exists>k. t \<in> set (queue_entry k (wq_exit w))"
    | (child) "t \<notin> set (wq_blocked w)" "t \<notin> sleepers w" "\<not> (\<exists>q \<in> set (wq_queues w). t \<in> set q)"
        "\<not> (\<exists>k. t \<in> set (queue_entry k (wq_exit w)))" "\<exists>k. t \<in> set (queue_entry k (wq_child w))"
    | (none) "t \<notin> set (wq_blocked w)" "t \<notin> sleepers w" "\<not> (\<exists>q \<in> set (wq_queues w). t \<in> set q)"
        "\<not> (\<exists>k. t \<in> set (queue_entry k (wq_exit w)))" "\<not> (\<exists>k. t \<in> set (queue_entry k (wq_child w)))"
    by blast
  then show ?thesis
  proof cases
    case manual
    have "without t w (?w\<lparr>wq_blocked := drop_task t (wq_blocked w)\<rparr>)"
      by (rule without_place [OF once, of t Manual])
        (use manual in \<open>auto simp: place split: wait_target.splits\<close>)
    with manual show ?thesis by (simp add: eqs waiting_places)
  next
    case sleep
    with without_sleep [OF once _ om] show ?thesis by (simp add: eqs waiting_places sleepers_def)
  next
    case queue
    then obtain n where n: "n < length (wq_queues w)" "t \<in> set (wq_queues w ! n)"
      by (metis in_set_conv_nth)
    have "without t w (?w\<lparr>wq_queues := map (drop_task t) (wq_queues w)\<rparr>)"
      by (rule without_place [OF once, of t "WaitQueue n"])
        (use n in \<open>auto simp: place split: wait_target.splits\<close>)
    with queue show ?thesis by (simp add: eqs waiting_places sleepers_def)
  next
    case exit
    then obtain k where k: "t \<in> set (queue_entry k (wq_exit w))" by blast
    have "without t w (?w\<lparr>wq_exit := om_map_values (drop_task t) (wq_exit w)\<rparr>)"
      by (rule without_place [OF once, of t "TaskExit k"])
        (use k in \<open>auto simp: place split: wait_target.splits\<close>)
    with exit show ?thesis by (simp add: eqs waiting_places sleepers_def)
  next
    case child
    then obtain k where k: "t \<in> set (queue_entry k (wq_child w))" by blast
    have "without t w (?w\<lparr>wq_child := om_map_values (drop_task t) (wq_child w)\<rparr>)"
      by (rule without_place [OF once, of t "ChildExit k"])
        (use k in \<open>auto simp: place split: wait_target.splits\<close>)
    with child show ?thesis by (simp add: eqs waiting_places sleepers_def)
  next
    case none
    then have "\<not> waiting t w" by (simp add: waiting_places sleepers_def)
    with without_none [OF _ om] none show ?thesis by (simp add: eqs sleepers_def)
  qed
qed

section \<open>Detaching a task\<close>

text \<open>Leaving the run queues also deletes the exit queues of the task itself, waiters included.\<close>

definition detached :: "task_id \<Rightarrow> wait_queues \<Rightarrow> wait_queues \<Rightarrow> bool" where
  "detached t w w' \<longleftrightarrow>
     (\<forall>x. waiters x w' =
        (if x = TaskExit t \<or> x = ChildExit t then [] else drop_task t (waiters x w))) \<and>
     wq_sleep w' = filter (\<lambda>e. fst e \<noteq> t) (wq_sleep w) \<and>
     wq_timeouts w' = filter (\<lambda>e. tt_task e \<noteq> t) (wq_timeouts w) \<and>
     wq_now w' = wq_now w \<and> wq_free w' = wq_free w \<and> wq_names w' = wq_names w"

lemma queue_entry_remove:
  "om_ok m \<Longrightarrow> queue_entry k (om_remove t m) = (if k = t then [] else queue_entry k m)"
  by (simp add: queue_entry_def om.get_del)

lemma detach_spec:
  assumes "wq_ok w"
  shows "detached t w (detach_task_from_run_queues t w)"
proof -
  note om = wq_okD(3,4) [OF assms]
  have ok: "om_ok (om_map_values (drop_task t) (wq_exit w))" "om_ok (om_map_values (drop_task t) (wq_child w))"
    using om by (simp_all add: om_ok_map_values)
  let ?d = "detach_task_from_run_queues t w"
  have "waiters x ?d = (if x = TaskExit t \<or> x = ChildExit t then [] else drop_task t (waiters x w))" for x
    using queue_entry_remove [OF ok(1)] queue_entry_remove [OF ok(2)]
    by (cases x) (auto simp: waiters_def detach_task_from_run_queues_def queue_entry_map_values drop_task_def)
  then show ?thesis
    by (simp add: detached_def) (simp add: detach_task_from_run_queues_def case_prod_unfold)
qed

lemma detached_once: "waits_once w \<Longrightarrow> detached t w w' \<Longrightarrow> waits_once w'"
proof (rule waits_once_shrink)
  fix x assume "detached t w w'"
  then have "waiters x w' = filter (\<lambda>i. x \<noteq> TaskExit t \<and> x \<noteq> ChildExit t \<and> i \<noteq> t) (waiters x w)"
    by (simp add: detached_def drop_task_def)
  then show "\<exists>P. waiters x w' = filter P (waiters x w)" by blast
qed (auto simp: detached_def)

lemma detach_ok:
  assumes "wq_ok w"
  shows "wq_ok (detach_task_from_run_queues t w)"
proof -
  note om = wq_okD(3,4) [OF assms]
  have ok: "om_ok (om_map_values (drop_task t) (wq_exit w))" "om_ok (om_map_values (drop_task t) (wq_child w))"
    using om by (simp_all add: om_ok_map_values)
  have q: "map (drop_task t) (wq_queues w) ! i = []" if "i \<in> set (wq_free w)" for i
    using that assms by (auto simp: wq_ok_def free_ok_def drop_task_def)
  show ?thesis
    using assms q om.wf_del [OF ok(1)] om.wf_del [OF ok(2)]
    unfolding wq_ok_def detach_task_from_run_queues_def
    by (simp add: free_ok_def held_def case_prod_unfold sorted_map_filter) blast
qed

lemma wq_exited_irrelevant:
  "wq_ok (w\<lparr>wq_exited := es\<rparr>) = wq_ok w" "waits_once (w\<lparr>wq_exited := es\<rparr>) = waits_once w"
  "waiters x (w\<lparr>wq_exited := es\<rparr>) = waiters x w" "waiting t (w\<lparr>wq_exited := es\<rparr>) = waiting t w"
  "detached t v (w\<lparr>wq_exited := es\<rparr>) = detached t v w" "held x (w\<lparr>wq_exited := es\<rparr>) = held x w"
proof -
  show wt: "waiters x (w\<lparr>wq_exited := es\<rparr>) = waiters x w" for x w
    by (simp add: waiters_def split: wait_target.split)
  show h: "held x (w\<lparr>wq_exited := es\<rparr>) = held x w" for x by (simp add: held_def)
  show "wq_ok (w\<lparr>wq_exited := es\<rparr>) = wq_ok w" by (simp add: wq_ok_def free_ok_def h)
  show "waits_once (w\<lparr>wq_exited := es\<rparr>) = waits_once w"
    "waiting t (w\<lparr>wq_exited := es\<rparr>) = waiting t w"
    "detached t v (w\<lparr>wq_exited := es\<rparr>) = detached t v w"
    by (simp_all add: waits_once_def waiting_def sleepers_def detached_def wt)
qed

lemma detached_waiting: "detached t w w' \<Longrightarrow> \<not> waiting t w'"
  by (auto simp: detached_def waiting_def sleepers_def)

text \<open>Who waited for the exit of the task, or for a child of it, is in no queue any more.\<close>

lemma detached_drops:
  assumes "waits_once w" "detached t w d" "u \<in> set (waiters (TaskExit t) w) \<union> set (waiters (ChildExit t) w)"
  shows "\<not> waiting u d"
proof -
  obtain x where x: "x = TaskExit t \<or> x = ChildExit t" "u \<in> set (waiters x w)" using assms(3) by blast
  have "u \<notin> set (waiters y d)" for y
    using waits_onceD(3) [OF assms(1) x(2), of y] x assms(2) by (auto simp: detached_def drop_task_def)
  moreover have "u \<notin> sleepers d"
    using waits_onceD(4) [OF assms(1) x(2)] assms(2) by (auto simp: detached_def sleepers_def)
  ultimately show ?thesis by (simp add: waiting_def)
qed

text \<open>
  C19. Waking, interrupting, killing and detaching one task. When every task waits in at most
  one place, \<open>wake_task\<close> and \<open>interrupt_task\<close> report exactly whether the task was waiting or
  sleeping, and leave no waiter, sleep or timeout record of it while every other task keeps its
  place and order. Detaching takes the task out in the same way, and in addition drops the two
  queues of those who wait for its exit or for a child of it: these waiters are then in no queue,
  and every task in any other queue keeps its place and order. Killing and exiting do the same and
  put the task at the end of the exited list. All keep the invariants.
\<close>

theorem take_out_correct:
  assumes "wq_ok w" and "waits_once w"
  shows "(\<exists>w'. wake_task t w = (waiting t w, w') \<and> interrupt_task t w = (waiting t w, w') \<and>
      without t w w' \<and> \<not> waiting t w' \<and> wq_ok w' \<and> waits_once w') \<and>
    (let d = detach_task_from_run_queues t w in
      detached t w d \<and> \<not> waiting t d \<and>
      (\<forall>u \<in> set (waiters (TaskExit t) w) \<union> set (waiters (ChildExit t) w). \<not> waiting u d) \<and>
      wq_ok d \<and> waits_once d \<and> wq_exited d = wq_exited w \<and>
      kill_task t w = d\<lparr>wq_exited := wq_exited w @ [t]\<rparr> \<and>
      enqueue_exited_task t w = d\<lparr>wq_exited := wq_exited w @ [t]\<rparr>)"
proof -
  obtain w' where w': "remove_task_from_any_queue t w = (waiting t w, w')" "without t w w'"
    using remove_from_any_spec [OF assms] by blast
  note d = detach_spec [OF assms(1), of t]
  have e: "wq_exited (detach_task_from_run_queues t w) = wq_exited w"
    by (simp add: detach_task_from_run_queues_def)
  from w' without_waiting without_ok [OF assms(1)] without_once [OF assms(2)]
    d detach_ok [OF assms(1)] detached_once [OF assms(2) d] detached_waiting [OF d] e
    detached_drops [OF assms(2) d]
  show ?thesis
    by (simp add: wake_task_def interrupt_task_def Let_def kill_task_def enqueue_exited_task_def)
qed

lemma demo_wait_once: "waits_once demo_wait"
  by (auto simp: waits_once_def waiters_def sleepers_def demo_wait_def queue_entry_def om_get_def
      nth_Cons split: wait_target.splits nat.splits)

theorem take_out_correct_witness:
  "\<exists>w'. wake_task 8 demo_wait = (True, w') \<and> waiters (WaitQueue 0) w' = [7] \<and> wq_timeouts w' = []"
proof -
  have "waiting 8 demo_wait" "waiters (WaitQueue 0) demo_wait = [7, 8]"
    "wq_timeouts demo_wait = [\<lparr>tt_task = 8, tt_target = WaitQueue 0, tt_tick = 3\<rparr>]"
    by (auto simp: waiting_def waiters_def demo_wait_def intro!: exI [of _ "WaitQueue 0"])
  with take_out_correct [OF demo_wait_ok demo_wait_once, of 8, THEN conjunct1] show ?thesis
    by (auto simp: without_def drop_task_def)
qed

end
