(* ===== verification/Wait_Reach.thy ===== *)
theory Wait_Reach
  imports Wait_Lifecycle
begin

text \<open>
  The wait queues as a state machine. A step is one operation, with what its callers guarantee:
  a task blocks or sleeps only while it waits nowhere, and only ids in use are named. Every
  reachable state keeps both invariants; in it an operation panics exactly on a queue id that was
  never allocated.
\<close>

section \<open>Steps\<close>

inductive wq_step :: "wait_queues \<Rightarrow> wait_queues \<Rightarrow> bool" where
  new_queue: "allocate_wait_queue name w = Some (q, w') \<Longrightarrow> wq_step w w'"
| release: "try_release_wait_queue q w = Some (b, w') \<Longrightarrow> wq_step w w'"
| advance: "wq_step w (advance_ticks n w)"
| block: "\<not> waiting t w \<Longrightarrow> held target w \<Longrightarrow> enqueue_wait_task t target w = Some w' \<Longrightarrow> wq_step w w'"
| set_timeout: "t \<in> set (waiters target w) \<Longrightarrow> wq_step w (enqueue_wait_timeout t target wake w)"
| sleep: "\<not> waiting t w \<Longrightarrow> wq_step w (enqueue_sleep_task t wake w)"
| expire: "timeout_tasks w = Some (out, w') \<Longrightarrow> wq_step w w'"
| wake_sleepers: "woken_tasks w = (ts, w') \<Longrightarrow> wq_step w w'"
| wake: "wake_task t w = (b, w') \<Longrightarrow> wq_step w w'"
| wake_one: "held (WaitQueue q) w \<Longrightarrow> wake_one_in_wait_queue q w = Some (r, w') \<Longrightarrow> wq_step w w'"
| wake_all: "held (WaitQueue q) w \<Longrightarrow> wake_all_in_wait_queue q w = Some (ts, w') \<Longrightarrow> wq_step w w'"
| requeue: "held (WaitQueue f) w \<Longrightarrow> held (WaitQueue d) w \<Longrightarrow>
    requeue_wait_queue f d k n w = Some (ts, ms, c, w') \<Longrightarrow> wq_step w w'"
| task_exit: "wake_all_waiters_for_task_exit i w = (ts, w') \<Longrightarrow> wq_step w w'"
| child_exit: "wake_child_exit_waiters p w = (ts, w') \<Longrightarrow> wq_step w w'"
| detach: "wq_step w (detach_task_from_run_queues t w)"
| exited: "wq_step w (enqueue_exited_task t w)"
| kill: "wq_step w (kill_task t w)"
| reap: "reap_exited_task t w r = (e, w', r') \<Longrightarrow> wq_step w w'"
| reap_one: "reap_one_exited_task w r = (e, w', r') \<Longrightarrow> wq_step w w'"

inductive wq_reach :: "wait_queues \<Rightarrow> bool" where
  reach_new: "wq_reach wq_new"
| reach_init: "wq_reach (wq_init w)"
| reach_step: "wq_reach w \<Longrightarrow> wq_step w w' \<Longrightarrow> wq_reach w'"

definition wq_inv :: "wait_queues \<Rightarrow> bool" where
  "wq_inv w \<longleftrightarrow> wq_ok w \<and> waits_once w"

lemma wq_inv_empty: "wq_inv wq_new" "wq_inv (wq_init w)"
  by (auto simp: wq_inv_def wq_new_def wq_init_def wq_ok_def free_ok_def waits_once_def waiters_def
      sleepers_def queue_entry_def om_get_def split: wait_target.splits)

section \<open>Every step keeps the invariants\<close>

lemma waits_once_same:
  assumes "waits_once w" "\<And>x. waiters x w' = waiters x w" "wq_sleep w' = wq_sleep w"
  shows "waits_once w'"
  using assms by (simp add: waits_once_def sleepers_def)

lemma allocate_spec:
  assumes "wq_ok w"
  shows "\<exists>q w'. allocate_wait_queue name w = Some (q, w') \<and> \<not> held (WaitQueue q) w \<and>
    held (WaitQueue q) w' \<and> wait_queue_name q w' = Some name \<and> (\<forall>x. waiters x w' = waiters x w) \<and>
    wq_timeouts w' = wq_timeouts w \<and> wq_sleep w' = wq_sleep w \<and> wq_ok w'"
proof (cases "wq_free w")
  case Nil
  let ?w = "w\<lparr>wq_queues := wq_queues w @ [[]], wq_names := wq_names w @ [Some name]\<rparr>"
  have h: "held x w \<Longrightarrow> held x ?w" for x by (auto simp: held_def)
  have "waiters x ?w = waiters x w" for x
    by (auto simp: waiters_def nth_append split: wait_target.split)
  moreover have "wq_ok ?w"
    using assms h by (auto simp: wq_ok_def free_ok_def Nil)
  moreover have "wait_queue_name (length (wq_queues w)) ?w = Some name"
    using wq_okD(1) [OF assms] by (simp add: wait_queue_name_def nth_append)
  ultimately show ?thesis
    by (simp add: allocate_wait_queue_def Nil) (simp add: held_def Nil)
next
  case (Cons q rest)
  have f: "sorted (q # rest)" "distinct (q # rest)"
    "\<forall>i \<in> set (q # rest). i < length (wq_queues w) \<and> wq_queues w ! i = [] \<and> wq_names w ! i = None"
    using wq_okD(2) [OF assms] unfolding free_ok_def Cons by blast+
  then have q: "q < length (wq_queues w)" "wq_queues w ! q = []" "q \<notin> set rest" by simp_all
  let ?w = "w\<lparr>wq_free := rest, wq_queues := (wq_queues w)[q := []], wq_names := (wq_names w)[q := Some name]\<rparr>"
  have same: "(wq_queues w)[q := []] = wq_queues w" using q(2) list_update_id [of "wq_queues w" q] by simp
  have "free_ok ?w"
    using f q wq_okD(1) [OF assms] by (auto simp: free_ok_def nth_list_update)
  moreover have "held x w \<Longrightarrow> held x ?w" for x by (auto simp: held_def Cons)
  ultimately have "wq_ok ?w"
    using assms by (simp add: wq_ok_def same)
  moreover have "waiters x ?w = waiters x w" for x
    unfolding same by (simp add: waiters_def split: wait_target.split)
  ultimately show ?thesis
    using q wq_okD(1) [OF assms]
    by (simp add: allocate_wait_queue_def Cons) (simp add: held_def Cons wait_queue_name_def)
qed

definition no_record :: "wait_target \<Rightarrow> wait_queues \<Rightarrow> bool" where
  "no_record x w \<longleftrightarrow> (\<forall>e \<in> set (wq_timeouts w). tt_target e \<noteq> x)"

lemma not_held_no_record: "wq_ok w \<Longrightarrow> \<not> held x w \<Longrightarrow> no_record x w"
  using wq_okD(7) unfolding no_record_def by blast

lemma release_spec:
  assumes ok: "wq_ok w"
  shows "\<exists>w'. try_release_wait_queue q w =
      Some (held (WaitQueue q) w \<and> waiters (WaitQueue q) w = [], w') \<and> wq_ok w' \<and>
    (\<forall>x. waiters x w' = waiters x w) \<and> wq_sleep w' = wq_sleep w \<and>
    (if held (WaitQueue q) w \<and> waiters (WaitQueue q) w = []
     then \<not> held (WaitQueue q) w' \<and> no_record (WaitQueue q) w' else w' = w)"
proof (cases "held (WaitQueue q) w \<and> waiters (WaitQueue q) w = []")
  case False
  then have "try_release_wait_queue q w = Some (False, w)"
    by (auto simp: try_release_wait_queue_def held_def waiters_def)
  with False ok show ?thesis by simp
next
  case True
  then have q: "q < length (wq_queues w)" "q \<notin> set (wq_free w)" "wq_queues w ! q = []"
    by (auto simp: held_def waiters_def)
  let ?w = "w\<lparr>wq_free := insort q (wq_free w), wq_names := (wq_names w)[q := None],
    wq_timeouts := filter (\<lambda>e. tt_target e \<noteq> WaitQueue q) (wq_timeouts w)\<rparr>"
  have r: "try_release_wait_queue q w = Some (True, ?w)"
    using q wq_okD(1) [OF ok] by (simp add: try_release_wait_queue_def)
  have "free_ok ?w"
    using wq_okD(1,2) [OF ok] q
    by (auto simp: free_ok_def sorted_insort distinct_insort set_insort_key nth_list_update)
  moreover have "\<forall>e \<in> set (wq_timeouts ?w). held (tt_target e) ?w"
    using wq_okD(7) [OF ok] by (auto simp: held_def set_insort_key)
  ultimately have "wq_ok ?w"
    using ok by (simp add: wq_ok_def sorted_map_filter)
  moreover have "waiters x ?w = waiters x w" for x by (simp add: waiters_def split: wait_target.split)
  ultimately show ?thesis
    using True r by (simp add: held_def no_record_def set_insort_key)
qed

lemma enqueue_step:
  assumes "wq_ok w" "held x w" "enqueue_wait_task t x w = Some w'"
  shows "wq_ok w' \<and> same_times w w' \<and>
    (\<forall>y. waiters y w' = (if y = x then waiters y w @ [t] else waiters y w))"
proof -
  note om = wq_okD(3,4) [OF assms(1)]
  obtain v where v: "enqueue_wait_task t x w = Some v" "same_times w v" "om_ok (wq_exit v)"
    "om_ok (wq_child v)" "\<And>y. waiters y v = (if y = x then waiters y w @ [t] else waiters y w)"
  proof (rule enqueue_wait_spec [OF assms(2) om, of t])
    fix v assume "enqueue_wait_task t x w = Some v" "same_times w v" "om_ok (wq_exit v)"
      "om_ok (wq_child v)" "\<And>y. waiters y v = (if y = x then waiters y w @ [t] else waiters y w)"
    then show thesis by (rule that)
  qed
  have "waiters (WaitQueue q) v = []" if "q \<in> set (wq_free w)" for q
    using that assms(2) free_no_waiters [OF assms(1) that] by (auto simp: v(5) held_def)
  then have "wq_ok v" by (rule wq_ok_same_times [OF assms(1) v(2,3,4)])
  with v assms(3) show ?thesis by simp
qed

lemma waiters_held: "wq_ok w \<Longrightarrow> t \<in> set (waiters x w) \<Longrightarrow> held x w"
  using free_no_waiters [of w] by (cases x) (force simp: held_def waiters_def split: if_splits)+

lemma block_keeps:
  assumes "wq_inv w" "\<not> waiting t w" "held x w" "enqueue_wait_task t x w = Some w'"
  shows "wq_inv w'"
proof -
  note o = waits_onceD [of w] and i = assms(1) [unfolded wq_inv_def]
  note e = enqueue_step [OF conjunct1 [OF i] assms(3,4)]
  have sl: "wq_sleep w' = wq_sleep w" using e by (simp add: same_times_def)
  have mem: "s \<in> set (waiters y w') \<longleftrightarrow> s \<in> set (waiters y w) \<or> s = t \<and> y = x" for s y using e by auto
  have "distinct (waiters y w')" for y
    using e assms(2) o(1) i by (auto simp: waiting_def)
  moreover have "y = z" if "s \<in> set (waiters y w')" "s \<in> set (waiters z w')" for s y z
    using that o(3) i assms(2) unfolding mem waiting_def by blast
  moreover have "s \<notin> sleepers w'" if "s \<in> set (waiters y w')" for s y
    using that o(4) i assms(2) unfolding mem waiting_def sleepers_def sl by blast
  ultimately have "waits_once w'"
    using o(2) i unfolding waits_once_def sl by blast
  with e show ?thesis by (simp add: wq_inv_def)
qed

lemma sleep_keeps:
  assumes "wq_inv w" "\<not> waiting t w"
  shows "wq_inv (enqueue_sleep_task t wake w)"
proof -
  let ?w = "enqueue_sleep_task t wake w"
  have wt: "waiters x ?w = waiters x w" for x
    by (simp add: waiters_def enqueue_sleep_task_def split: wait_target.split)
  have split: "distinct (map fst (insert_by_tick snd (t, wake) s)) \<longleftrightarrow> t \<notin> fst ` set s \<and> distinct (map fst s)"
    for s :: "(task_id \<times> nat) list"
    by (induction s) (auto simp: insert_by_tick_set)
  have sl: "sleepers ?w = insert t (sleepers w)"
    by (simp add: sleepers_def enqueue_sleep_task_def insert_by_tick_set)
  have "waits_once ?w"
    using assms unfolding wq_inv_def waits_once_def wt sl
    by (auto simp: waiting_def enqueue_sleep_task_def split sleepers_def)
  moreover have "wq_ok ?w"
    using assms(1) insert_by_tick_sorted [of snd "wq_sleep w" "(t, wake)"]
    by (simp add: wq_inv_def wq_ok_def enqueue_sleep_task_def free_ok_def held_def)
  ultimately show ?thesis by (simp add: wq_inv_def)
qed

lemma set_timeout_keeps:
  assumes "wq_inv w" "t \<in> set (waiters x w)"
  shows "wq_inv (enqueue_wait_timeout t x wake w)"
proof -
  have h: "held x w" using waiters_held assms by (auto simp: wq_inv_def)
  have "wq_ok (enqueue_wait_timeout t x wake w)"
    unfolding enqueue_wait_timeout_def
  proof (rule wq_ok_timeouts)
    show "wq_ok w" using assms by (simp add: wq_inv_def)
    then show "sorted (map tt_tick (insert_by_tick tt_tick \<lparr>tt_task = t, tt_target = x, tt_tick = wake\<rparr>
        (wq_timeouts w)))" by (intro insert_by_tick_sorted wq_okD(5))
    show "\<forall>e \<in> set (insert_by_tick tt_tick \<lparr>tt_task = t, tt_target = x, tt_tick = wake\<rparr> (wq_timeouts w)).
        held (tt_target e) w"
      using \<open>wq_ok w\<close> wq_okD(7) h by (auto simp: insert_by_tick_set)
  qed
  moreover have "waits_once (enqueue_wait_timeout t x wake w)"
    by (rule waits_once_same [of w]) (use assms in \<open>simp_all add: wq_inv_def enqueue_wait_timeout_def\<close>)
  ultimately show ?thesis by (simp add: wq_inv_def)
qed

text \<open>Waking and moving leave the sleepers alone.\<close>

lemma pop_sleep:
  "pop_wait_queue q w = Some (r, w') \<Longrightarrow> wq_sleep w' = wq_sleep w \<and> wq_exited w' = wq_exited w"
  by (auto simp: pop_wait_queue_def split: if_splits list.splits)

lemma wake_n_sleep:
  "wake_n_from_wait_queue q n c w = Some (ts, c', w') \<Longrightarrow> wq_sleep w' = wq_sleep w \<and> wq_exited w' = wq_exited w"
proof (induction n arbitrary: c w ts c')
  case (Suc n)
  then show ?case
    by (fastforce dest!: pop_sleep simp: remove_wait_timeout_def split: option.splits prod.splits)
qed simp

lemma move_sleep:
  "move_tasks_between_queues f d n c w = Some (ts, c', w') \<Longrightarrow>
     wq_sleep w' = wq_sleep w \<and> wq_exited w' = wq_exited w"
proof (induction n arbitrary: c w ts c')
  case (Suc n)
  then show ?case
    by (fastforce dest!: pop_sleep simp: enqueue_wait_task_def update_wait_timeout_target_def
        split: option.splits prod.splits if_splits)
qed simp

lemma requeue_sleep:
  assumes "requeue_wait_queue f d k n w = Some (ts, ms, c, w')"
  shows "wq_sleep w' = wq_sleep w" "wq_exited w' = wq_exited w"
proof -
  have "wq_sleep w' = wq_sleep w \<and> wq_exited w' = wq_exited w"
    using assms by (fastforce simp: requeue_wait_queue_def dest!: wake_n_sleep move_sleep
        split: option.splits prod.splits if_splits)
  then show "wq_sleep w' = wq_sleep w" "wq_exited w' = wq_exited w" by simp_all
qed

lemma requeued_once:
  assumes once: "waits_once w" and r: "requeued f d k n w w'" and s: "wq_sleep w' = wq_sleep w"
  shows "waits_once w'"
proof -
  let ?ws = "waiters (WaitQueue f) w"
  define moved where "moved = (if f = d then [] else take n (drop k ?ws))"
  note r' = r [unfolded requeued_def Let_def, folded moved_def]
  have dist: "distinct ?ws" by (rule waits_onceD(1) [OF once])
  have sub: "set moved \<subseteq> set ?ws" "distinct moved"
    using dist set_take_subset [of n "drop k ?ws"] set_drop_subset [of k ?ws] by (auto simp: moved_def)
  have left: "set (drop (length moved) (drop k ?ws)) \<inter> set moved = {}"
  proof (cases "f = d")
    case False
    then have m: "moved = take n (drop k ?ws)" by (simp add: moved_def)
    have "distinct (take n (drop k ?ws) @ drop n (drop k ?ws))"
      unfolding append_take_drop_id by (simp add: dist)
    then show ?thesis
      unfolding m drop_length_take distinct_append by blast
  qed (simp add: moved_def)
  have left_sub: "set (drop (length moved) (drop k ?ws)) \<subseteq> set ?ws"
    using set_drop_subset [of _ ?ws] by (metis drop_drop)
  have wt: "waiters x w' = (if x = WaitQueue f then drop (length moved) (drop k ?ws)
      else if x = WaitQueue d then waiters (WaitQueue d) w @ moved else waiters x w)" for x
    using r' by auto
  show ?thesis
  proof (rule waits_once_move [OF once])
    show "distinct (waiters x w')" for x
    proof -
      have "set (waiters (WaitQueue d) w) \<inter> set moved = {}" if "f \<noteq> d"
        using waits_onceD(3) [OF once, of _ "WaitQueue d" "WaitQueue f"] sub(1) that by blast
      then show ?thesis
        using dist sub(2) waits_onceD(1) [OF once] by (auto simp: wt)
    qed
    show "\<exists>y. t \<in> set (waiters y w) \<and>
        x = (\<lambda>t y. if y = WaitQueue f \<and> t \<in> set moved then WaitQueue d else y) t y"
      if m: "t \<in> set (waiters x w')" for x t
    proof -
      consider "x = WaitQueue f" "t \<in> set (drop (length moved) (drop k ?ws))"
        | "x = WaitQueue d" "t \<in> set moved" | "x \<noteq> WaitQueue f" "t \<in> set (waiters x w)"
        using m by (auto simp: wt split: if_splits)
      then show ?thesis
      proof cases
        case 1
        with left left_sub show ?thesis by (intro exI [of _ x]) auto
      next
        case 2
        with sub(1) show ?thesis by (intro exI [of _ "WaitQueue f"]) auto
      next
        case 3
        then show ?thesis by (intro exI [of _ x]) auto
      qed
    qed
    show "\<exists>P. wq_sleep w' = filter P (wq_sleep w)"
      by (rule exI [of _ "\<lambda>_. True"]) (simp add: s)
  qed
qed

lemma forget_exited_eq: "forget_exited t w = detach_task_from_run_queues t w"
  by (simp add: forget_exited_def Let_def detach_task_from_run_queues_def om_remove_def)

lemma detach_keeps:
  assumes "wq_inv w"
  shows "wq_inv (detach_task_from_run_queues t (w\<lparr>wq_exited := es\<rparr>))"
proof -
  have w: "wq_ok (w\<lparr>wq_exited := es\<rparr>)" "waits_once (w\<lparr>wq_exited := es\<rparr>)"
    using assms by (simp_all add: wq_inv_def wq_exited_irrelevant)
  from detach_ok [OF w(1)] detached_once [OF w(2) detach_spec [OF w(1)]] show ?thesis
    by (simp add: wq_inv_def)
qed

lemma detach_keeps': "wq_inv w \<Longrightarrow> wq_inv (detach_task_from_run_queues t w)"
  using detach_keeps [of w t "wq_exited w"] by simp

lemma wq_inv_exited: "wq_inv (w\<lparr>wq_exited := es\<rparr>) = wq_inv w"
  by (simp add: wq_inv_def wq_exited_irrelevant)

lemma reap_one_keeps: "wq_inv w \<Longrightarrow> reap_one_loop es w r = (e, w', r') \<Longrightarrow> wq_inv w'"
proof (induction es arbitrary: w r)
  case Nil
  then show ?case by (auto simp: wq_inv_exited)
next
  case (Cons t es)
  from Cons.prems Cons.IH [OF detach_keeps [OF Cons.prems(1)]] show ?case
    by (auto simp: forget_exited_eq Let_def detach_keeps split: prod.splits option.splits)
qed

lemma emptied_keeps:
  assumes "wq_inv w" "om_ok (wq_exit w')" "om_ok (wq_child w')" "same_times w w'"
    "\<And>x. waiters x w' = (if x = y then [] else waiters x w)"
  shows "wq_inv w'"
proof -
  have i: "wq_ok w" "waits_once w" using assms(1) by (simp_all add: wq_inv_def)
  have "wq_ok w'"
    by (rule wq_ok_same_times [OF i(1) assms(4,2,3)]) (simp add: assms(5) free_no_waiters [OF i(1)])
  moreover have "waits_once w'"
  proof (rule waits_once_shrink [OF i(2)])
    have "waiters x w' = filter (\<lambda>_. x \<noteq> y) (waiters x w)" for x by (simp add: assms(5))
    then show "\<exists>P. waiters x w' = filter P (waiters x w)" for x by blast
    have "wq_sleep w' = filter (\<lambda>_. True) (wq_sleep w)" using assms(4) by (simp add: same_times_def)
    then show "\<exists>P. wq_sleep w' = filter P (wq_sleep w)" by blast
  qed
  ultimately show ?thesis by (simp add: wq_inv_def)
qed

lemma exit_wake_spec:
  assumes "wq_ok w"
  shows "\<exists>w'. wake_all_waiters_for_task_exit i w = (waiters (TaskExit i) w, w') \<and> same_times w w' \<and>
      om_ok (wq_exit w') \<and> om_ok (wq_child w') \<and>
      (\<forall>x. waiters x w' = (if x = TaskExit i then [] else waiters x w))"
    "\<exists>w'. wake_child_exit_waiters i w = (waiters (ChildExit i) w, w') \<and> same_times w w' \<and>
      om_ok (wq_exit w') \<and> om_ok (wq_child w') \<and>
      (\<forall>x. waiters x w' = (if x = ChildExit i then [] else waiters x w))"
  using wq_okD(3,4) [OF assms]
  by (auto simp: wake_all_waiters_for_task_exit_def wake_child_exit_waiters_def same_times_def
      waiters_def om.wf_put queue_entry_insert split: wait_target.split)

lemma exit_wake_keeps:
  assumes "wq_inv w"
  shows "wake_all_waiters_for_task_exit i w = (ts, w') \<Longrightarrow> wq_inv w'"
    "wake_child_exit_waiters i w = (ts, w') \<Longrightarrow> wq_inv w'"
  using exit_wake_spec [of w i] assms emptied_keeps [OF assms, of w'] by (auto simp: wq_inv_def)

lemma expire_keeps:
  assumes "wq_inv w" "timeout_tasks w = Some (out, w')"
  shows "wq_inv w'"
proof -
  have i: "wq_ok w" "waits_once w" using assms(1) by (simp_all add: wq_inv_def)
  have "\<forall>e \<in> set (wq_timeouts w). held (tt_target e) w" using wq_okD(7) [OF i(1)] by blast
  from timeout_loop_spec [OF this wq_okD(3,4,5) [OF i(1)]] assms(2)
  have t: "same_times (w\<lparr>wq_timeouts := filter (\<lambda>e. wq_now w < tt_tick e) (wq_timeouts w)\<rparr>) w'"
    "om_ok (wq_exit w')" "om_ok (wq_child w')"
    "\<And>x. waiters x w' = filter (\<lambda>t. (t, x) \<notin> due_pairs (wq_timeouts w) (wq_now w)) (waiters x w)"
    unfolding timeout_tasks_def by auto
  have "wq_ok (w\<lparr>wq_timeouts := filter (\<lambda>e. wq_now w < tt_tick e) (wq_timeouts w)\<rparr>)"
    by (rule wq_ok_timeouts [OF i(1)]) (use wq_okD(5,7) [OF i(1)] in \<open>auto intro: sorted_map_filter\<close>)
  then have "wq_ok w'"
  proof (rule wq_ok_same_times [OF _ t(1-3)])
    fix q assume "q \<in> set (wq_free (w\<lparr>wq_timeouts := filter (\<lambda>e. wq_now w < tt_tick e) (wq_timeouts w)\<rparr>))"
    then show "waiters (WaitQueue q) w' = []" using free_no_waiters [OF i(1), of q] by (simp add: t(4))
  qed
  moreover have "waits_once w'"
  proof (rule waits_once_shrink [OF i(2)])
    show "\<exists>P. waiters x w' = filter P (waiters x w)" for x using t(4) by blast
    have "wq_sleep w' = filter (\<lambda>_. True) (wq_sleep w)" using t(1) by (simp add: same_times_def)
    then show "\<exists>P. wq_sleep w' = filter P (wq_sleep w)" by blast
  qed
  ultimately show ?thesis by (simp add: wq_inv_def)
qed

lemma woken_keeps:
  assumes "wq_inv w" "woken_tasks w = (ts, w')"
  shows "wq_inv w'"
proof -
  have i: "wq_ok w" "waits_once w" using assms(1) by (simp_all add: wq_inv_def)
  have w': "w' = w\<lparr>wq_sleep := filter (\<lambda>e. wq_now w < snd e) (wq_sleep w)\<rparr>"
    using assms(2) sorted_split_filter [OF wq_okD(6) [OF i(1)], of "wq_now w"]
    by (simp add: woken_tasks_def pop_woken_eq)
  have wt: "waiters x w' = waiters x w" for x
    by (simp add: w' waiters_def split: wait_target.split)
  have "waits_once w'"
  proof (rule waits_once_shrink [OF i(2)])
    have "waiters x w' = filter (\<lambda>_. True) (waiters x w)" for x by (simp add: wt)
    then show "\<exists>P. waiters x w' = filter P (waiters x w)" for x by blast
    show "\<exists>P. wq_sleep w' = filter P (wq_sleep w)" unfolding w' by auto
  qed
  moreover have "wq_ok w'"
    using i(1) by (simp add: w' wq_ok_def free_ok_def held_def sorted_map_filter)
  ultimately show ?thesis by (simp add: wq_inv_def)
qed

lemma requeue_keeps:
  assumes "wq_inv w" "held (WaitQueue f) w" "held (WaitQueue d) w"
    "requeue_wait_queue f d k n w = Some (ts, ms, c, w')"
  shows "wq_inv w'"
proof -
  have i: "wq_ok w" "waits_once w" using assms(1) by (simp_all add: wq_inv_def)
  from requeue_spec [OF i(1) assms(2,3), of k n] assms(4)
  have "wq_ok w'" "requeued f d k n w w'" by auto
  with requeued_once [OF i(2) _ requeue_sleep(1) [OF assms(4)]] show ?thesis by (simp add: wq_inv_def)
qed

lemma wake_front_keeps:
  assumes "wq_inv w" "held (WaitQueue q) w"
  shows "wake_all_in_wait_queue q w = Some (ts, w') \<Longrightarrow> wq_inv w'"
    "wake_one_in_wait_queue q w = Some (r, w') \<Longrightarrow> wq_inv w'"
proof -
  have q: "q < length (wq_queues w)" using assms(2) by (simp add: held_def)
  have k: "wq_inv v" if "wake_n_from_wait_queue q n 0 w = Some (ts, c, v)" for n ts c v
  proof -
    have "q < length (wq_queues v)" using wake_n_spec [OF q, of 0 n] that q by auto
    with that have "requeue_wait_queue q q n 0 w =
        Some (ts, [], sat_add usize_max c (min (length (wq_queues v ! q)) 0), v)"
      by (simp add: requeue_wait_queue_def)
    then show ?thesis by (rule requeue_keeps [OF assms(1,2,2)])
  qed
  show "wake_all_in_wait_queue q w = Some (ts, w') \<Longrightarrow> wq_inv w'"
    using k by (auto simp: wake_all_in_wait_queue_def split: if_splits)
  assume o: "wake_one_in_wait_queue q w = Some (r, w')"
  have "\<exists>ts c. wake_n_from_wait_queue q (Suc 0) 0 w = Some (ts, c, w')"
    using o by (auto simp: wake_one_in_wait_queue_def split: option.splits prod.splits)
  then show "wq_inv w'" using k by blast
qed

lemma alloc_release_keep:
  assumes "wq_inv w"
  shows "allocate_wait_queue name w = Some (q, w') \<Longrightarrow> wq_inv w'"
    "try_release_wait_queue q w = Some (b, w') \<Longrightarrow> wq_inv w'"
proof -
  have i: "wq_ok w" "waits_once w" using assms by (simp_all add: wq_inv_def)
  show "wq_inv w'" if "allocate_wait_queue name w = Some (q, w')"
    using allocate_spec [OF i(1), of name] that waits_once_same [OF i(2), of w'] by (auto simp: wq_inv_def)
  show "wq_inv w'" if "try_release_wait_queue q w = Some (b, w')"
    using release_spec [OF i(1), of q] that waits_once_same [OF i(2), of w'] by (auto simp: wq_inv_def)
qed

lemma time_keeps:
  assumes "wq_inv w"
  shows "wq_inv (advance_ticks n w)"
proof -
  have "waiters x (advance_ticks n w) = waiters x w" for x
    by (simp add: advance_ticks_def waiters_def split: wait_target.split)
  with assms show ?thesis
    by (simp add: wq_inv_def waits_once_def sleepers_def)
      (simp add: advance_ticks_def wq_ok_def free_ok_def held_def)
qed

lemma wake_keeps: "wq_inv w \<Longrightarrow> wake_task t w = (b, w') \<Longrightarrow> wq_inv w'"
  using remove_from_any_spec [of w t] without_ok [of w t w'] without_once [of w t w']
  by (auto simp: wq_inv_def wake_task_def)

lemma wq_step_keeps: "wq_step w w' \<Longrightarrow> wq_inv w \<Longrightarrow> wq_inv w'"
proof (induction rule: wq_step.induct)
  case (exited w t)
  then show ?case by (simp add: enqueue_exited_task_def Let_def wq_inv_exited detach_keeps')
next
  case (kill w t)
  then show ?case by (simp add: kill_task_def Let_def wq_inv_exited detach_keeps')
next
  case (reap t w r e w' r')
  then show ?case
    by (auto simp: reap_exited_task_def forget_exited_eq detach_keeps split: prod.splits bool.splits)
next
  case (reap_one w r e w' r')
  then show ?case by (auto simp: reap_one_exited_task_def dest: reap_one_keeps)
qed (blast intro: alloc_release_keep time_keeps block_keeps set_timeout_keeps sleep_keeps
    expire_keeps woken_keeps wake_keeps wake_front_keeps requeue_keeps exit_wake_keeps detach_keeps')+

lemma wq_reach_inv: "wq_reach w \<Longrightarrow> wq_inv w"
  by (induction rule: wq_reach.induct) (auto simp: wq_inv_empty wq_step_keeps)

section \<open>What holds in every reachable state\<close>

lemma front_panics:
  "wake_one_in_wait_queue q w \<noteq> None \<longleftrightarrow> q < length (wq_queues w)"
  "wake_all_in_wait_queue q w \<noteq> None \<longleftrightarrow> q < length (wq_queues w)"
  "enqueue_wait_task t x w \<noteq> None \<longleftrightarrow> (\<forall>q. x = WaitQueue q \<longrightarrow> q < length (wq_queues w))"
  using wake_n_spec [of q w 0]
  by (auto simp: wake_one_in_wait_queue_def pop_wait_queue_def wake_all_in_wait_queue_def
      enqueue_wait_task_def split: list.splits wait_target.splits)

lemma move_runs:
  "f < length (wq_queues w) \<Longrightarrow> d < length (wq_queues w) \<Longrightarrow>
   move_tasks_between_queues f d n c w \<noteq> None"
proof (induction n arbitrary: c w)
  case (Suc n)
  show ?case
  proof (cases "wq_queues w ! f")
    case Nil
    with Suc.prems show ?thesis by (simp add: pop_wait_queue_def)
  next
    case (Cons t rest)
    let ?w = "update_wait_timeout_target t f d (w\<lparr>wq_queues := (wq_queues w)[f := rest]\<rparr>)"
    have l: "length (wq_queues ?w) = length (wq_queues w)" by (simp add: update_wait_timeout_target_def)
    have "move_tasks_between_queues f d n c'
        (?w\<lparr>wq_queues := (wq_queues ?w)[d := wq_queues ?w ! d @ [t]]\<rparr>) \<noteq> None" for c'
      using Suc.prems l by (intro Suc.IH) simp_all
    with Cons Suc.prems l show ?thesis
      by (auto simp: pop_wait_queue_def enqueue_wait_task_def split: option.splits)
  qed
qed simp

lemma requeue_runs:
  assumes "f < length (wq_queues w)" "d < length (wq_queues w)"
  shows "requeue_wait_queue f d k n w \<noteq> None"
proof -
  let ?w = "set_queue f (drop k (wq_queues w ! f)) (forget (set (take k (wq_queues w ! f))) (WaitQueue f) w)"
  let ?c = "sat_add usize_max 0 (length (take k (wq_queues w ! f)))"
  have l: "length (wq_queues ?w) = length (wq_queues w)" by (simp add: set_queue_def forget_def)
  with assms have "move_tasks_between_queues f d n ?c ?w \<noteq> None" by (intro move_runs) simp_all
  then obtain r where "move_tasks_between_queues f d n ?c ?w = Some r" by blast
  with assms l show ?thesis
    unfolding requeue_wait_queue_def wake_n_spec [OF assms(1) zero_le] by (cases r) simp
qed

text \<open>
  C20. In every reachable state of the wait queues each task waits in at most one place and every
  timeout record names a queue id in use. Expiry never panics; blocking on a queue and waking one
  or all of its tasks panics exactly when its id was never allocated, and moving tasks between two
  allocated queues never does. A new queue gets an id that was not in use, has no waiter and no
  timeout record, and carries its name; releasing an id succeeds exactly when it is in use and
  nobody waits there, ends its use and forgets its records, and otherwise changes nothing; and a
  task can wait on any target in use, at its end.
\<close>

theorem wait_queues_lifecycle:
  assumes "wq_reach w"
  shows "waits_once w \<and> (\<forall>e \<in> set (wq_timeouts w). held (tt_target e) w) \<and> timeout_tasks w \<noteq> None \<and>
    (\<forall>t x. enqueue_wait_task t x w \<noteq> None \<longleftrightarrow> (\<forall>q. x = WaitQueue q \<longrightarrow> q < length (wq_queues w))) \<and>
    (\<forall>q. (wake_one_in_wait_queue q w \<noteq> None \<longleftrightarrow> q < length (wq_queues w)) \<and>
       (wake_all_in_wait_queue q w \<noteq> None \<longleftrightarrow> q < length (wq_queues w))) \<and>
    (\<forall>f d k n. f < length (wq_queues w) \<longrightarrow> d < length (wq_queues w) \<longrightarrow>
       requeue_wait_queue f d k n w \<noteq> None) \<and>
    (\<forall>name. \<exists>q w'. allocate_wait_queue name w = Some (q, w') \<and> \<not> held (WaitQueue q) w \<and>
       held (WaitQueue q) w' \<and> waiters (WaitQueue q) w' = [] \<and> no_record (WaitQueue q) w' \<and>
       wait_queue_name q w' = Some name \<and> (\<forall>x. waiters x w' = waiters x w)) \<and>
    (\<forall>q. \<exists>w'. try_release_wait_queue q w =
         Some (held (WaitQueue q) w \<and> waiters (WaitQueue q) w = [], w') \<and>
       (if held (WaitQueue q) w \<and> waiters (WaitQueue q) w = []
        then \<not> held (WaitQueue q) w' \<and> no_record (WaitQueue q) w' else w' = w)) \<and>
    (\<forall>t x. held x w \<longrightarrow> (\<exists>w'. enqueue_wait_task t x w = Some w' \<and>
       (\<forall>y. waiters y w' = (if y = x then waiters y w @ [t] else waiters y w))))"
proof -
  have i: "wq_ok w" "waits_once w" using wq_reach_inv [OF assms] by (simp_all add: wq_inv_def)
  have rec: "\<forall>e \<in> set (wq_timeouts w). held (tt_target e) w" using wq_okD(7) [OF i(1)] by blast
  from timeout_loop_spec [OF this wq_okD(3,4,5) [OF i(1)]] have exp: "timeout_tasks w \<noteq> None"
    by (auto simp: timeout_tasks_def)
  have new: "\<exists>q w'. allocate_wait_queue name w = Some (q, w') \<and> \<not> held (WaitQueue q) w \<and>
       held (WaitQueue q) w' \<and> waiters (WaitQueue q) w' = [] \<and> no_record (WaitQueue q) w' \<and>
       wait_queue_name q w' = Some name \<and> (\<forall>x. waiters x w' = waiters x w)" for name
  proof -
    obtain q w' where a: "allocate_wait_queue name w = Some (q, w')" "\<not> held (WaitQueue q) w"
      "held (WaitQueue q) w'" "wait_queue_name q w' = Some name" "\<forall>x. waiters x w' = waiters x w"
      "wq_timeouts w' = wq_timeouts w"
      using allocate_spec [OF i(1), of name] by blast
    have "waiters (WaitQueue q) w = []" using waiters_held [OF i(1), of _ "WaitQueue q"] a(2)
      by (cases "waiters (WaitQueue q) w") auto
    moreover have "no_record (WaitQueue q) w'"
      using not_held_no_record [OF i(1) a(2)] by (simp add: no_record_def a(6))
    ultimately show ?thesis using a by auto
  qed
  have rel: "\<exists>w'. try_release_wait_queue q w =
         Some (held (WaitQueue q) w \<and> waiters (WaitQueue q) w = [], w') \<and>
       (if held (WaitQueue q) w \<and> waiters (WaitQueue q) w = []
        then \<not> held (WaitQueue q) w' \<and> no_record (WaitQueue q) w' else w' = w)" for q
    using release_spec [OF i(1), of q] by blast
  have enq: "\<exists>w'. enqueue_wait_task t x w = Some w' \<and>
       (\<forall>y. waiters y w' = (if y = x then waiters y w @ [t] else waiters y w))" if h: "held x w" for t x
  proof -
    obtain w' where "enqueue_wait_task t x w = Some w'"
      by (rule enqueue_wait_spec [OF h wq_okD(3,4) [OF i(1)], of t])
    with enqueue_step [OF i(1) h this] show ?thesis by blast
  qed
  show ?thesis
    by (intro conjI allI impI)
      (fact i(2) rec exp front_panics | rule requeue_runs new rel enq | assumption)+
qed

theorem wait_queues_lifecycle_witness:
  "\<exists>q w'. allocate_wait_queue ''futex'' wq_new = Some (q, w') \<and> held (WaitQueue q) w' \<and>
     wait_queue_name q w' = Some ''futex'' \<and> fst (the (try_release_wait_queue q w'))"
proof -
  obtain q w' where a: "allocate_wait_queue ''futex'' wq_new = Some (q, w')" "held (WaitQueue q) w'"
    "waiters (WaitQueue q) w' = []" "wait_queue_name q w' = Some ''futex''"
    using wait_queues_lifecycle [OF reach_new, THEN conjunct2, THEN conjunct2, THEN conjunct2,
        THEN conjunct2, THEN conjunct2, THEN conjunct2, THEN conjunct1] by blast
  have "wq_reach w'" by (rule reach_step [OF reach_new new_queue [OF a(1)]])
  then have "fst (the (try_release_wait_queue q w'))"
    using wait_queues_lifecycle [of w', THEN conjunct2, THEN conjunct2, THEN conjunct2, THEN conjunct2,
        THEN conjunct2, THEN conjunct2, THEN conjunct2, THEN conjunct1, rule_format, of q] a(2,3) by auto
  with a show ?thesis by blast
qed

text \<open>
  The wake-ups of an exit keep the timeout records of the tasks they wake, unlike every other
  wake-up: this run blocks task 7 on a child exit until tick 5, wakes it, blocks it again until
  tick 100, and tick 5 still times it out.
\<close>

lemma exit_wake_stale_timeout:
  "\<exists>w1 w2 w3 w4. enqueue_wait_task 7 (ChildExit 3) wq_new = Some w1 \<and>
     wake_child_exit_waiters 3 (enqueue_wait_timeout 7 (ChildExit 3) 5 w1) = ([7], w2) \<and>
     enqueue_wait_task 7 (ChildExit 3) w2 = Some w3 \<and>
     timeout_tasks (advance_ticks 5 (enqueue_wait_timeout 7 (ChildExit 3) 100 w3)) =
       Some ([(7, ChildExit 3)], w4)"
  by (simp add: enqueue_wait_task_def wq_new_def queue_entry_def om_get_def om_insert_def
      enqueue_wait_timeout_def wake_child_exit_waiters_def timeout_tasks_def advance_ticks_def
      remove_task_from_wait_target_def take_task_eq drop_task_def sat_add_def u64_max_def)

end
