(* ===== verification/Multi_State.thy ===== *)
theory Multi_State
  imports Wait_Queues "HOL-Library.Monad_Syntax"
begin

text \<open>
  The multi-class scheduler (\<open>scheduler-impl/impl-multi-class/src/scheduler.rs\<close> and
  \<open>scheduler/\<close>): the registry of tasks, the wait queues and one scheduler state per CPU under
  one lock, the queries on them, and the choice of a CPU for a task that becomes ready. A method
  that may panic returns an option, whose \<open>None\<close> is the panic; indexing a CPU that does not
  exist is one.

  The notifications of \<open>user_aspace_lifecycle\<close> are callbacks of the memory manager: the state
  records them in order. The check that the saved context of a task does not return into the
  kernel heap reads memory of the architecture layer: it is the parameter \<open>ctx_ok\<close>.
\<close>

section \<open>State\<close>

datatype schedule_reason =
  StartFirst | Yield | Reschedule | Tick | Block wait_target | Sleep nat | Exit int

datatype queue_target = ToReady | ToBlocked wait_target | ToSleeping nat | ToExited int

datatype ready_placement = LeastLoaded | LastCpu | Prefer nat

datatype aspace_event = AspaceLeave nat nat | AspaceEnter nat nat

record mcs =
  ms_reg :: registry
  ms_wait :: wait_queues
  ms_cpus :: "cpu_state list"
  next_placement_cpu :: nat
  timekeeper_cpu :: "nat option"
  timekeeper_last_ns :: "nat option"
  pending_cpus :: cpu_mask
  ms_events :: "aspace_event list"

definition mcs_new :: "nat \<Rightarrow> mcs" where
  "mcs_new max_cpus =
     \<lparr>ms_reg = reg_new, ms_wait = wq_new, ms_cpus = map cpu_new [0..<max_cpus],
      next_placement_cpu = 0, timekeeper_cpu = None, timekeeper_last_ns = None,
      pending_cpus = mask_empty, ms_events = []\<rparr>"

text \<open>\<open>self.cpu_states[cpu_id.raw()]\<close>, read and written.\<close>

definition cpu_at :: "mcs \<Rightarrow> nat \<Rightarrow> cpu_state option" where
  "cpu_at s c = (if c < length (ms_cpus s) then Some (ms_cpus s ! c) else None)"

definition put_cpu :: "nat \<Rightarrow> cpu_state \<Rightarrow> mcs \<Rightarrow> mcs" where
  "put_cpu c st s = s\<lparr>ms_cpus := (ms_cpus s)[c := st]\<rparr>"

definition put_reg :: "registry \<Rightarrow> mcs \<Rightarrow> mcs" where
  "put_reg r s = s\<lparr>ms_reg := r\<rparr>"

definition put_wait :: "wait_queues \<Rightarrow> mcs \<Rightarrow> mcs" where
  "put_wait w s = s\<lparr>ms_wait := w\<rparr>"

definition assert_that :: "bool \<Rightarrow> unit option" where
  "assert_that b = (if b then Some () else None)"

text \<open>
  The loop of \<open>init\<close> over the CPUs from \<open>c\<close> on: every CPU gets a fresh state and an idle task of
  its own, whose saved context is at \<open>cx c\<close>.
\<close>

fun init_cpus :: "(nat \<Rightarrow> nat) \<Rightarrow> nat \<Rightarrow> nat \<Rightarrow> nat \<Rightarrow> cpu_state list \<Rightarrow> registry \<Rightarrow>
    (cpu_state list \<times> registry) option" where
  "init_cpus cx max_cpus boot c [] r = Some ([], r)"
| "init_cpus cx max_cpus boot c (st # sts) r =
     (case spawn_idle_task max_cpus (cx c) r of (idle, r1) \<Rightarrow>
        do {
          snap \<leftarrow> reg_task_snapshot r1 idle;
          (rest, r2) \<leftarrow> init_cpus cx max_cpus boot (Suc c) sts r1;
          Some (cpu_set_current_task snap
                  (set_idle_task_id idle (set_online (boot = c) (cpu_init c st))) # rest, r2)
        })"

definition mcs_init :: "(nat \<Rightarrow> nat) \<Rightarrow> nat \<Rightarrow> nat \<Rightarrow> mcs \<Rightarrow> mcs option" where
  "mcs_init cx max_cpus boot s =
     do {
       (cpus, r) \<leftarrow> init_cpus cx max_cpus boot 0 (ms_cpus s) (reg_init (ms_reg s));
       Some (s\<lparr>ms_reg := r, ms_wait := wq_init (ms_wait s), ms_cpus := cpus,
         next_placement_cpu := 0, timekeeper_cpu := None, timekeeper_last_ns := None,
         pending_cpus := mask_empty\<rparr>)
     }"

section \<open>Queries\<close>

definition set_timekeeper_cpu :: "nat \<Rightarrow> nat option \<Rightarrow> mcs \<Rightarrow> mcs option" where
  "set_timekeeper_cpu c now_ns s =
     (if \<not> c < length (ms_cpus s) then None
      else case timekeeper_cpu s of
          Some previous \<Rightarrow> if previous = c then Some (s\<lparr>timekeeper_cpu := Some c\<rparr>) else None
        | None \<Rightarrow> Some (s\<lparr>timekeeper_cpu := Some c, timekeeper_last_ns := now_ns\<rparr>))"

definition is_timekeeper_cpu :: "nat \<Rightarrow> mcs \<Rightarrow> bool" where
  "is_timekeeper_cpu c s \<longleftrightarrow> timekeeper_cpu s = Some c"

definition set_cpu_online :: "nat \<Rightarrow> mcs \<Rightarrow> mcs" where
  "set_cpu_online c s =
     (case cpu_at s c of
        None \<Rightarrow> s
      | Some st \<Rightarrow> if online st then s else put_cpu c (set_online True st) s)"

fun online_mask_of :: "cpu_state list \<Rightarrow> cpu_mask \<Rightarrow> cpu_mask option" where
  "online_mask_of [] m = Some m"
| "online_mask_of (st # sts) m =
     (if online st then Option.bind (mask_insert (cs_cpu_id st) m) (online_mask_of sts)
      else online_mask_of sts m)"

definition online_cpu_mask :: "mcs \<Rightarrow> cpu_mask option" where
  "online_cpu_mask s = online_mask_of (ms_cpus s) mask_empty"

definition total_idle_ticks :: "mcs \<Rightarrow> nat" where
  "total_idle_ticks s =
     fold (\<lambda>st total. sat_add u64_max total (idle_ticks st)) (filter online (ms_cpus s)) 0"

definition running_cpu :: "mcs \<Rightarrow> task_id \<Rightarrow> nat option" where
  "running_cpu s t = reg_running_cpu (ms_reg s) t"

definition mcs_current_task_id :: "mcs \<Rightarrow> nat \<Rightarrow> task_id option option" where
  "mcs_current_task_id s c = map_option current_task_id (cpu_at s c)"

definition mcs_current_aspace :: "mcs \<Rightarrow> nat \<Rightarrow> nat option" where
  "mcs_current_aspace s c = map_option current_aspace (cpu_at s c)"

text \<open>The running task's snapshot, with the ticks and the virtual runtime its CPU caches.\<close>

definition current_task_snapshot :: "mcs \<Rightarrow> nat \<Rightarrow> task_snapshot option option" where
  "current_task_snapshot s c =
     do {
       st \<leftarrow> cpu_at s c;
       (case current_task_id st of
          None \<Rightarrow> Some None
        | Some t \<Rightarrow>
            do {
              snap \<leftarrow> reg_task_snapshot (ms_reg s) t;
              let live = min (current_runtime_ticks st) usize_max;
              let snap = snap\<lparr>snap_stats := (snap_stats snap)\<lparr>tick_count :=
                    sat_add usize_max (tick_count (snap_stats snap)) live\<rparr>\<rparr>;
              Some (Some (if is_cfs_policy (current_policy st)
                then snap\<lparr>snap_vruntime := current_vruntime st\<rparr> else snap))
            })
     }"

definition diagnostic_task_snapshots :: "mcs \<Rightarrow> task_snapshot list" where
  "diagnostic_task_snapshots s =
     map (\<lambda>(_, t). tcb_snapshot t) (filter (\<lambda>(_, t). \<not> tcb_is_idle t) (reg_tasks (ms_reg s)))"

definition cpu_is_overloaded :: "nat \<Rightarrow> mcs \<Rightarrow> bool option" where
  "cpu_is_overloaded c s =
     do {
       st \<leftarrow> cpu_at s c;
       let load = cpu_load st;
       Some (if load = 0 then False
         else if list_ex (\<lambda>x. online x \<and> cpu_load x = 0) (ms_cpus s) then True
         else (let loads = map cpu_load (filter online (ms_cpus s))
           in if loads = [] then False else load > sum_list loads div length loads + 1))
     }"

section \<open>The choice of a CPU\<close>

text \<open>
  The ring scan for the least loaded usable CPU: the offsets still to visit, the least load seen
  and its CPU. A CPU is usable when it is online and in the affinity of the task.
\<close>

fun ring_scan :: "cpu_mask \<Rightarrow> cpu_state list \<Rightarrow> nat \<Rightarrow> nat list \<Rightarrow> nat option \<Rightarrow> nat \<Rightarrow> nat option" where
  "ring_scan aff cpus base [] best min_load = best"
| "ring_scan aff cpus base (offset # rest) best min_load =
     (let index = (base + offset) mod length cpus; load = cpu_load (cpus ! index)
      in if \<not> online (cpus ! index) \<or> \<not> mask_contains aff index
         then ring_scan aff cpus base rest best min_load
         else if load < min_load then ring_scan aff cpus base rest (Some index) load
         else ring_scan aff cpus base rest best min_load)"

definition preferred_cpu :: "task_snapshot \<Rightarrow> ready_placement \<Rightarrow> mcs \<Rightarrow> nat option option" where
  "preferred_cpu snap placement s =
     (case placement of
        LeastLoaded \<Rightarrow> Some None
      | LastCpu \<Rightarrow>
          (case snap_last_cpu snap of
             None \<Rightarrow> Some None
           | Some c \<Rightarrow> map_option (\<lambda>over. if over then None else Some c) (cpu_is_overloaded c s))
      | Prefer c \<Rightarrow> Some (Some c))"

definition pick_least_loaded :: "cpu_mask \<Rightarrow> mcs \<Rightarrow> (nat \<times> mcs) option" where
  "pick_least_loaded aff s =
     do {
       c \<leftarrow> ring_scan aff (ms_cpus s) (next_placement_cpu s) [0..<length (ms_cpus s)] None usize_max;
       Some (c, s\<lparr>next_placement_cpu := (c + 1) mod length (ms_cpus s)\<rparr>)
     }"

definition pick_ready_cpu :: "task_id \<Rightarrow> ready_placement \<Rightarrow> mcs \<Rightarrow> (nat \<times> mcs) option" where
  "pick_ready_cpu t placement s =
     do {
       snap \<leftarrow> reg_task_snapshot (ms_reg s) t;
       preferred \<leftarrow> preferred_cpu snap placement s;
       (case preferred of
          Some c \<Rightarrow>
            if c < length (ms_cpus s) \<and> online (ms_cpus s ! c) \<and> mask_contains (snap_affinity snap) c
            then Some (c, s) else pick_least_loaded (snap_affinity snap) s
        | None \<Rightarrow> pick_least_loaded (snap_affinity snap) s)
     }"

section \<open>Reschedule requests\<close>

definition mark_need_resched :: "nat \<Rightarrow> mcs \<Rightarrow> mcs option" where
  "mark_need_resched c s =
     do {
       st \<leftarrow> cpu_at s c;
       pending \<leftarrow> mask_insert c (pending_cpus s);
       Some ((put_cpu c (st\<lparr>need_resched := True\<rparr>) s)\<lparr>pending_cpus := pending\<rparr>)
     }"

definition request_reschedule :: "nat \<Rightarrow> resched_cause \<Rightarrow> mcs \<Rightarrow> mcs option" where
  "request_reschedule c cause s =
     do {
       st \<leftarrow> cpu_at s c;
       (if \<not> cpu_should_reschedule cause st then Some s else mark_need_resched c s)
     }"

definition take_pending_reschedule_cpus :: "mcs \<Rightarrow> cpu_mask \<times> mcs" where
  "take_pending_reschedule_cpus s = (pending_cpus s, s\<lparr>pending_cpus := mask_empty\<rparr>)"

definition take_need_resched :: "nat \<Rightarrow> mcs \<Rightarrow> (bool \<times> mcs) option" where
  "take_need_resched c s =
     do { st \<leftarrow> cpu_at s c; Some (need_resched st, put_cpu c (st\<lparr>need_resched := False\<rparr>) s) }"

definition request_task_reschedule :: "task_id \<Rightarrow> mcs \<Rightarrow> mcs option" where
  "request_task_reschedule t s =
     (case running_cpu s t of
        None \<Rightarrow> Some s
      | Some c \<Rightarrow> request_reschedule c CauseForced s)"

section \<open>Placing a task\<close>

text \<open>Write-back of what the CPU caches of its running task.\<close>

definition sync_current_to_registry :: "nat \<Rightarrow> mcs \<Rightarrow> mcs option" where
  "sync_current_to_registry c s =
     do {
       st \<leftarrow> cpu_at s c;
       (case current_task_id st of
          None \<Rightarrow> Some s
        | Some t \<Rightarrow>
            do {
              let s1 = put_cpu c (st\<lparr>current_runtime_ticks := 0\<rparr>) s;
              r \<leftarrow> (if is_cfs_policy (current_policy st)
                    then reg_set_vruntime t (current_vruntime st) (ms_reg s1) else Some (ms_reg s1));
              Some (put_reg (reg_add_ticks t (current_runtime_ticks st) r) s1)
            })
     }"

text \<open>
  The assertion against publishing a task that still runs: when its running CPU has it as the
  current task, only that CPU may take it.
\<close>

definition publish_ok :: "task_id \<Rightarrow> nat \<Rightarrow> mcs \<Rightarrow> unit option" where
  "publish_ok t c s =
     (case reg_running_cpu (ms_reg s) t of
        None \<Rightarrow> Some ()
      | Some running \<Rightarrow>
          do {
            st \<leftarrow> cpu_at s running;
            assert_that (current_task_id st = Some t \<longrightarrow> running = c)
          })"

definition clear_old_queue :: "task_id \<Rightarrow> mcs \<Rightarrow> mcs option" where
  "clear_old_queue t s =
     (case reg_ready_cpu (ms_reg s) t of
        None \<Rightarrow> Some s
      | Some old \<Rightarrow> do { st \<leftarrow> cpu_at s old; Some (put_cpu old (cpu_dequeue t st) s) })"

definition enqueue_ready_on_cpu :: "task_id \<Rightarrow> nat \<Rightarrow> mcs \<Rightarrow> mcs option" where
  "enqueue_ready_on_cpu t c s =
     do {
       st0 \<leftarrow> cpu_at s c;
       assert_that (Some t \<noteq> idle_task_id st0);
       assert_that (online st0);
       aff \<leftarrow> (case reg_get_affinity (ms_reg s) t of Inl _ \<Rightarrow> None | Inr m \<Rightarrow> Some m);
       assert_that (mask_contains aff c);
       publish_ok t c s;
       s1 \<leftarrow> clear_old_queue t s;
       snap \<leftarrow> reg_task_snapshot (ms_reg s1) t;
       st \<leftarrow> cpu_at s1 c;
       (snap, r) \<leftarrow> (case normalize_vruntime (snap_vruntime snap) (snap_policy snap) st of
            None \<Rightarrow> Some (snap, ms_reg s1)
          | Some v \<Rightarrow> map_option (\<lambda>r. (snap\<lparr>snap_vruntime := v\<rparr>, r)) (reg_set_vruntime t v (ms_reg s1)));
       st' \<leftarrow> cpu_enqueue t snap st;
       Some (put_cpu c st' (put_reg (reg_mark_ready t c r) s1))
     }"

definition activate_ready_task :: "task_id \<Rightarrow> ready_placement \<Rightarrow> mcs \<Rightarrow> (nat \<times> mcs) option" where
  "activate_ready_task t placement s =
     do {
       (target, s1) \<leftarrow> pick_ready_cpu t placement s;
       s2 \<leftarrow> enqueue_ready_on_cpu t target s1;
       snap \<leftarrow> reg_task_snapshot (ms_reg s2) t;
       s3 \<leftarrow> request_reschedule target (CauseReady (snap_policy snap)) s2;
       Some (target, s3)
     }"

definition activate :: "task_id \<Rightarrow> ready_placement \<Rightarrow> mcs \<Rightarrow> mcs option" where
  "activate t placement s = map_option snd (activate_ready_task t placement s)"

text \<open>The end of a wait: its result is recorded and the task becomes ready.\<close>

definition resume :: "wait_result \<Rightarrow> task_id \<Rightarrow> mcs \<Rightarrow> mcs option" where
  "resume res t s = activate t LastCpu (put_reg (reg_finish_wait t res (ms_reg s)) s)"

fun resume_all :: "task_id list \<Rightarrow> mcs \<Rightarrow> mcs option" where
  "resume_all [] s = Some s"
| "resume_all (t # ts) s = Option.bind (resume Woken t s) (resume_all ts)"

definition enqueue_deferred_task :: "nat \<Rightarrow> mcs \<Rightarrow> mcs option" where
  "enqueue_deferred_task c s =
     do {
       st \<leftarrow> cpu_at s c;
       (case take_deferred_ready st of
          (None, _) \<Rightarrow> Some s
        | (Some t, st') \<Rightarrow> activate t LeastLoaded (put_cpu c st' s))
     }"

definition dequeue_from_all_cpus :: "task_id \<Rightarrow> mcs \<Rightarrow> mcs" where
  "dequeue_from_all_cpus t s = s\<lparr>ms_cpus := map (cpu_dequeue t) (ms_cpus s)\<rparr>"

section \<open>Expired waits\<close>

fun activate_sleepers :: "task_id list \<Rightarrow> mcs \<Rightarrow> mcs option" where
  "activate_sleepers [] s = Some s"
| "activate_sleepers (t # ts) s = Option.bind (activate t LastCpu s) (activate_sleepers ts)"

fun activate_timeouts :: "(task_id \<times> wait_target) list \<Rightarrow> mcs \<Rightarrow> mcs option" where
  "activate_timeouts [] s = Some s"
| "activate_timeouts ((t, target) # rest) s =
     (if reg_state (ms_reg s) t = Some (Blocking target)
      then Option.bind (resume TimedOut t s) (activate_timeouts rest)
      else activate_timeouts rest s)"

definition activate_woken_and_timeout_tasks :: "mcs \<Rightarrow> mcs option" where
  "activate_woken_and_timeout_tasks s =
     (case woken_tasks (ms_wait s) of (woken, w1) \<Rightarrow>
        do {
          s1 \<leftarrow> activate_sleepers woken (put_wait w1 s);
          (out, w2) \<leftarrow> timeout_tasks (ms_wait s1);
          activate_timeouts out (put_wait w2 s1)
        })"

end
