(* ===== verification/Multi_Class.thy ===== *)
theory Multi_Class
  imports Multi_State
begin

text \<open>
  The operations of the multi-class scheduler: the state changes of the running task, the
  scheduling entry points, waiting and waking, task creation, killing and reaping, and changes
  of the scheduling parameters
  (\<open>scheduler.rs\<close>, \<open>scheduler/runqueue.rs\<close>, \<open>wait.rs\<close>, \<open>tasks.rs\<close>, \<open>policy.rs\<close>).
\<close>

section \<open>Leaving the CPU\<close>

definition enqueue_task :: "queue_target \<Rightarrow> task_id \<Rightarrow> nat \<Rightarrow> mcs \<Rightarrow> mcs option" where
  "enqueue_task target current c s0 =
     do {
       s \<leftarrow> sync_current_to_registry c s0;
       (case target of
          ToReady \<Rightarrow>
            do {
              aff \<leftarrow> (case reg_get_affinity (ms_reg s) current of Inl _ \<Rightarrow> None | Inr m \<Rightarrow> Some m);
              (if mask_contains aff c then activate current (Prefer c) s
               else do {
                 st \<leftarrow> cpu_at s c;
                 st' \<leftarrow> set_deferred_ready current (cpu_dequeue current st);
                 Some (put_cpu c st' s)
               })
            }
        | ToBlocked reason \<Rightarrow>
            do {
              let r = reg_mark_blocking current reason (reg_clear_wait_result current (ms_reg s));
              w \<leftarrow> enqueue_wait_task current reason (ms_wait s);
              Some (put_wait w (put_reg r s))
            }
        | ToSleeping wake_tick \<Rightarrow>
            (let r = reg_mark_sleeping current wake_tick (reg_clear_wait_result current (ms_reg s));
                 w = enqueue_sleep_task current wake_tick (ms_wait s)
             in Some (put_wait w (put_reg r s)))
        | ToExited code \<Rightarrow>
            (case wake_all_waiters_for_task_exit current (ms_wait s) of (waiters, w1) \<Rightarrow>
               do {
                 s1 \<leftarrow> resume_all waiters (put_wait w1 s);
                 snap \<leftarrow> reg_task_snapshot (ms_reg s1) current;
                 s2 \<leftarrow> (case snap_parent snap of
                     None \<Rightarrow> Some s1
                   | Some parent \<Rightarrow>
                       (case wake_child_exit_waiters parent (ms_wait s1) of (waiters, w2) \<Rightarrow>
                          resume_all waiters (put_wait w2 s1)));
                 let w3 = enqueue_exited_task current (ms_wait s2);
                 Some (put_reg (reg_mark_exited current code (ms_reg s2)) (put_wait w3 s2))
               }))
     }"

section \<open>Taking the CPU\<close>

text \<open>The notifications ignore the null address space.\<close>

definition notify_switch :: "nat \<Rightarrow> nat \<Rightarrow> nat \<Rightarrow> aspace_event list" where
  "notify_switch previous next c =
     (if previous = next then []
      else (if previous = 0 then [] else [AspaceLeave previous c]) @
           (if next = 0 then [] else [AspaceEnter next c]))"

definition set_current_task :: "task_snapshot \<Rightarrow> nat \<Rightarrow> mcs \<Rightarrow> mcs option" where
  "set_current_task snap c s =
     do {
       assert_that (\<forall>running \<in> set_option (snap_running_cpu snap). running = c);
       st \<leftarrow> cpu_at s c;
       let s1 = put_cpu c (cpu_set_current_task snap st)
         (s\<lparr>ms_events := ms_events s @ notify_switch (current_aspace st) (snap_aspace snap) c\<rparr>);
       r \<leftarrow> reg_mark_running (snap_id snap) c (ms_reg s1);
       Some (put_reg r s1)
     }"

definition switch_pair :: "(nat \<Rightarrow> bool) \<Rightarrow> nat \<Rightarrow> nat \<Rightarrow> (nat \<times> nat) option" where
  "switch_pair ctx_ok current next =
     do { assert_that (next \<noteq> 0); assert_that (ctx_ok next); Some (current, next) }"

text \<open>
  The choice of the next task and its installation, which every scheduling path ends with: the
  snapshot is taken before the task is marked running.
\<close>

definition choose_next :: "nat \<Rightarrow> mcs \<Rightarrow> (task_id \<times> task_snapshot \<times> mcs) option" where
  "choose_next c s =
     do {
       st \<leftarrow> cpu_at s c;
       (next, st') \<leftarrow> pick_next_runnable st;
       let s1 = put_cpu c st' s;
       snap \<leftarrow> reg_task_snapshot (ms_reg s1) next;
       Some (next, snap, s1)
     }"

definition install_next :: "nat \<Rightarrow> mcs \<Rightarrow> (task_snapshot \<times> mcs) option" where
  "install_next c s =
     do {
       (next, snap, s1) \<leftarrow> choose_next c s;
       s2 \<leftarrow> set_current_task snap c s1;
       Some (snap, s2)
     }"

definition prepare_first_switch :: "(nat \<Rightarrow> bool) \<Rightarrow> nat \<Rightarrow> nat \<Rightarrow> mcs \<Rightarrow> ((nat \<times> nat) \<times> mcs) option" where
  "prepare_first_switch ctx_ok boot_cx c s =
     do {
       st \<leftarrow> cpu_at s c;
       (snap, s1) \<leftarrow> install_next c (put_cpu c (leave_boot_context st) s);
       pair \<leftarrow> switch_pair ctx_ok boot_cx (snap_task_cx snap);
       Some (pair, s1)
     }"

section \<open>The timer\<close>

definition sched_timer_period_ns :: nat where
  "sched_timer_period_ns = max 10 1 * 1000000"

text \<open>The ticks that passed since the last reading of the clock, and the new reading.\<close>

definition elapsed_ticks :: "nat option \<Rightarrow> nat option \<Rightarrow> nat \<times> nat option" where
  "elapsed_ticks prev now =
     (case (prev, now) of
        (Some l, Some n) \<Rightarrow>
          (let ticks = (n - l) div sched_timer_period_ns
           in (min ticks u64_max,
               if ticks \<noteq> 0 then Some (sat_add (2 ^ 128 - 1) l (ticks * sched_timer_period_ns)) else prev))
      | (None, Some n) \<Rightarrow> (1, Some n)
      | (_, None) \<Rightarrow> (1, prev))"

definition advance_time :: "nat option \<Rightarrow> nat \<Rightarrow> mcs \<Rightarrow> mcs" where
  "advance_time now_ns c s =
     (if is_timekeeper_cpu c s
      then (case elapsed_ticks (timekeeper_last_ns s) now_ns of
              (ticks, base) \<Rightarrow>
                put_wait (advance_ticks (max ticks 1) (ms_wait s)) (s\<lparr>timekeeper_last_ns := base\<rparr>))
      else s)"

text \<open>The result tells whether the CPU must switch.\<close>

definition mcs_tick :: "nat option \<Rightarrow> nat \<Rightarrow> mcs \<Rightarrow> (bool \<times> mcs) option" where
  "mcs_tick now_ns c s0 =
     do {
       let s = advance_time now_ns c s0;
       st \<leftarrow> cpu_at s c;
       st' \<leftarrow> cpu_tick st;
       let s1 = put_cpu c st' s;
       let needs_switch = cpu_should_reschedule CauseTick st';
       s2 \<leftarrow> (if (needs_switch \<or> has_woken_or_timeout_tasks (ms_wait s1)) \<and> is_timekeeper_cpu c s1
             then activate_woken_and_timeout_tasks s1 else Some s1);
       Some (needs_switch, s2)
     }"

section \<open>Scheduling\<close>

definition pick_queue :: "schedule_reason \<Rightarrow> mcs \<Rightarrow> queue_target" where
  "pick_queue reason s =
     (case reason of
        StartFirst \<Rightarrow> ToReady
      | Yield \<Rightarrow> ToReady
      | Tick \<Rightarrow> ToReady
      | Reschedule \<Rightarrow> ToReady
      | Block target \<Rightarrow> ToBlocked target
      | Sleep ticks \<Rightarrow>
          if ticks = 0 then ToReady else ToSleeping (sat_add u64_max (wq_now (ms_wait s)) ticks)
      | Exit code \<Rightarrow> ToExited code)"

text \<open>The first phase: whether to go on, and the state after it.\<close>

definition before_schedule :: "nat option \<Rightarrow> schedule_reason \<Rightarrow> nat \<Rightarrow> mcs \<Rightarrow> (bool \<times> mcs) option" where
  "before_schedule now_ns reason c s =
     (case reason of
        Reschedule \<Rightarrow> Some (True, s)
      | Tick \<Rightarrow> mcs_tick now_ns c s
      | _ \<Rightarrow>
          if is_timekeeper_cpu c s
          then map_option (\<lambda>s1. (True, s1)) (activate_woken_and_timeout_tasks s) else Some (True, s))"

definition finish_switch :: "(nat \<Rightarrow> bool) \<Rightarrow> bool \<Rightarrow> task_id \<Rightarrow> nat \<Rightarrow> nat \<Rightarrow> mcs \<Rightarrow>
    ((nat \<times> nat) option \<times> mcs) option" where
  "finish_switch ctx_ok is_exit current current_cx c s =
     do {
       (next, snap, s1) \<leftarrow> choose_next c s;
       assert_that (next = current \<longrightarrow> \<not> is_exit);
       s2 \<leftarrow> set_current_task snap c s1;
       (if next = current then Some (None, s2)
        else map_option (\<lambda>pair. (Some pair, s2)) (switch_pair ctx_ok current_cx (snap_task_cx snap)))
     }"

definition schedule :: "(nat \<Rightarrow> bool) \<Rightarrow> nat option \<Rightarrow> schedule_reason \<Rightarrow> nat \<Rightarrow> mcs \<Rightarrow>
    ((nat \<times> nat) option \<times> mcs) option" where
  "schedule ctx_ok now_ns reason c s0 =
     do {
       (go, s) \<leftarrow> before_schedule now_ns reason c s0;
       (if \<not> go then Some (None, s)
        else do {
          st \<leftarrow> cpu_at s c;
          current \<leftarrow> current_task_id st;
          let current_cx = current_task_cx st;
          (if is_current_idle st then finish_switch ctx_ok False current current_cx c s
           else do {
             let s1 = (if reason \<in> {Yield, Sleep 0} then put_cpu c (prepare_yield st) s else s);
             s2 \<leftarrow> enqueue_task (pick_queue reason s1) current c s1;
             finish_switch ctx_ok (case reason of Exit _ \<Rightarrow> True | _ \<Rightarrow> False) current current_cx c s2
           })
        })
     }"

definition schedule_wait :: "(nat \<Rightarrow> bool) \<Rightarrow> wait_target \<Rightarrow> nat option \<Rightarrow> nat \<Rightarrow> mcs \<Rightarrow>
    ((nat \<times> nat) option \<times> mcs) option" where
  "schedule_wait ctx_ok target timeout_ticks c s0 =
     do {
       s \<leftarrow> (if is_timekeeper_cpu c s0 then activate_woken_and_timeout_tasks s0 else Some s0);
       st \<leftarrow> cpu_at s c;
       (if wait_target_ready target (ms_reg s) then
          Some (None, (case current_task_id st of
             None \<Rightarrow> s
           | Some t \<Rightarrow> put_reg (reg_finish_wait t Woken (ms_reg s)) s))
        else (case current_task_id st of
          None \<Rightarrow> Some (None, s)
        | Some current \<Rightarrow>
            do {
              s1 \<leftarrow> enqueue_task (ToBlocked target) current c (put_cpu c (cpu_dequeue current st) s);
              let s2 = (case timeout_ticks of
                  None \<Rightarrow> s1
                | Some ticks \<Rightarrow>
                    put_wait (enqueue_wait_timeout current target
                      (sat_add u64_max (wq_now (ms_wait s1)) (max ticks 1)) (ms_wait s1)) s1);
              (snap, s3) \<leftarrow> install_next c s2;
              pair \<leftarrow> switch_pair ctx_ok (current_task_cx st) (snap_task_cx snap);
              Some (Some pair, s3)
            }))
     }"

end
