(* ===== verification/Multi_Ops.thy ===== *)
theory Multi_Ops
  imports Multi_Class
begin

text \<open>
  The operations of the multi-class scheduler on other tasks: waking
  (\<open>scheduler/wait.rs\<close>), creation, killing and reaping (\<open>tasks.rs\<close>), and the
  scheduling parameters (\<open>policy.rs\<close>).
\<close>

section \<open>Wait queues\<close>

definition mcs_allocate_wait_queue :: "string \<Rightarrow> mcs \<Rightarrow> (nat \<times> mcs) option" where
  "mcs_allocate_wait_queue name s =
     map_option (\<lambda>(q, w). (q, put_wait w s)) (allocate_wait_queue name (ms_wait s))"

definition mcs_try_release_wait_queue :: "nat \<Rightarrow> mcs \<Rightarrow> (bool \<times> mcs) option" where
  "mcs_try_release_wait_queue q s =
     map_option (\<lambda>(b, w). (b, put_wait w s)) (try_release_wait_queue q (ms_wait s))"

definition is_waiting_state :: "task_state option \<Rightarrow> bool" where
  "is_waiting_state st \<longleftrightarrow> (case st of Some (Blocking _) \<Rightarrow> True | Some (Sleeping _) \<Rightarrow> True | _ \<Rightarrow> False)"

definition mcs_wake_task :: "task_id \<Rightarrow> mcs \<Rightarrow> (bool \<times> mcs) option" where
  "mcs_wake_task t s =
     (case wake_task t (ms_wait s) of (found, w) \<Rightarrow>
        (let s1 = put_wait w s
         in if \<not> found \<or> \<not> is_waiting_state (reg_state (ms_reg s1) t) then Some (False, s1)
            else map_option (\<lambda>s2. (True, s2)) (resume Woken t s1)))"

definition mcs_interrupt_task :: "task_id \<Rightarrow> mcs \<Rightarrow> (bool \<times> mcs) option" where
  "mcs_interrupt_task t s =
     (case interrupt_task t (ms_wait s) of (found, w) \<Rightarrow>
        (let s1 = put_wait w s
         in if \<not> found \<or> \<not> is_waiting_state (reg_state (ms_reg s1) t) then Some (False, s1)
            else map_option (\<lambda>s2. (True, s2)) (resume Interrupted t s1)))"

definition mcs_wake_child_exit_waiters :: "task_id \<Rightarrow> mcs \<Rightarrow> mcs option" where
  "mcs_wake_child_exit_waiters parent s =
     (case wake_child_exit_waiters parent (ms_wait s) of (waiters, w) \<Rightarrow>
        resume_all waiters (put_wait w s))"

text \<open>
  The loop of \<open>wake_one_in_wait_queue\<close> drops entries whose task no longer waits there. Each
  round takes one entry, so one round more than the queue is long always suffices.
\<close>

fun wake_one_loop :: "nat \<Rightarrow> nat \<Rightarrow> mcs \<Rightarrow> (task_id option \<times> mcs) option" where
  "wake_one_loop 0 q s = None"
| "wake_one_loop (Suc fuel) q s =
     (case wake_one_in_wait_queue q (ms_wait s) of
        None \<Rightarrow> None
      | Some (None, w) \<Rightarrow> Some (None, put_wait w s)
      | Some (Some t, w) \<Rightarrow>
          if reg_state (ms_reg s) t \<noteq> Some (Blocking (WaitQueue q)) then wake_one_loop fuel q (put_wait w s)
          else map_option (\<lambda>s1. (Some t, s1)) (resume Woken t (put_wait w s)))"

definition mcs_wake_one_in_wait_queue :: "nat \<Rightarrow> mcs \<Rightarrow> (task_id option \<times> mcs) option" where
  "mcs_wake_one_in_wait_queue q s = wake_one_loop (Suc (length (wq_queues (ms_wait s) ! q))) q s"

text \<open>The tasks of a list that still wait at the target become ready; the result lists them.\<close>

fun resume_waiting :: "wait_target \<Rightarrow> task_id list \<Rightarrow> mcs \<Rightarrow> (task_id list \<times> mcs) option" where
  "resume_waiting target [] s = Some ([], s)"
| "resume_waiting target (t # ts) s =
     (if reg_state (ms_reg s) t \<noteq> Some (Blocking target) then resume_waiting target ts s
      else do {
        s1 \<leftarrow> resume Woken t s;
        (woken, s2) \<leftarrow> resume_waiting target ts s1;
        Some (t # woken, s2)
      })"

definition mcs_wake_all_in_wait_queue :: "nat \<Rightarrow> mcs \<Rightarrow> (nat \<times> mcs) option" where
  "mcs_wake_all_in_wait_queue q s =
     do {
       (ts, w) \<leftarrow> wake_all_in_wait_queue q (ms_wait s);
       (woken, s1) \<leftarrow> resume_waiting (WaitQueue q) ts (put_wait w s);
       Some (min (length woken) usize_max, s1)
     }"

text \<open>
  The moved tasks change their target in the registry; an entry whose task did not wait at the
  source is taken out of the destination again.
\<close>

fun retarget_moved :: "wait_target \<Rightarrow> wait_target \<Rightarrow> (task_id \<times> nat) list \<Rightarrow> mcs \<Rightarrow> task_id list \<times> mcs" where
  "retarget_moved source dest [] s = ([], s)"
| "retarget_moved source dest ((t, _) # rest) s =
     (if reg_state (ms_reg s) t \<noteq> Some (Blocking source)
      then retarget_moved source dest rest (put_wait (snd (wake_task t (ms_wait s))) s)
      else (case retarget_moved source dest rest (put_reg (reg_mark_blocking t dest (ms_reg s)) s) of
              (moved, s1) \<Rightarrow> (t # moved, s1)))"

definition requeue_wait_queue_detailed :: "nat \<Rightarrow> nat \<Rightarrow> nat \<Rightarrow> nat \<Rightarrow> mcs \<Rightarrow>
    ((task_id list \<times> task_id list) \<times> mcs) option" where
  "requeue_wait_queue_detailed from_id to_id wake_count requeue_count s =
     do {
       (ts, ms, changed, w) \<leftarrow> requeue_wait_queue from_id to_id wake_count requeue_count (ms_wait s);
       (woken, s1) \<leftarrow> resume_waiting (WaitQueue from_id) ts (put_wait w s);
       (case retarget_moved (WaitQueue from_id) (WaitQueue to_id) ms s1 of
          (moved, s2) \<Rightarrow> Some ((woken, moved), s2))
     }"

definition requeue_changed :: "task_id list \<times> task_id list \<Rightarrow> nat" where
  "requeue_changed r = sat_add usize_max (length (fst r)) (length (snd r))"

definition mcs_requeue_wait_queue :: "nat \<Rightarrow> nat \<Rightarrow> nat \<Rightarrow> nat \<Rightarrow> mcs \<Rightarrow> (nat \<times> mcs) option" where
  "mcs_requeue_wait_queue from_id to_id k n s =
     map_option (\<lambda>(r, s1). (requeue_changed r, s1)) (requeue_wait_queue_detailed from_id to_id k n s)"

definition requeue_wait_queue_while :: "nat \<Rightarrow> nat \<Rightarrow> nat \<Rightarrow> nat \<Rightarrow> bool \<Rightarrow> mcs \<Rightarrow> (nat option \<times> mcs) option" where
  "requeue_wait_queue_while from_id to_id k n condition s =
     (if \<not> condition then Some (None, s)
      else map_option (\<lambda>(r, s1). (Some r, s1)) (mcs_requeue_wait_queue from_id to_id k n s))"

section \<open>Creating tasks\<close>

text \<open>
  The current task of the CPU is the parent; \<open>stack\<close> is the outcome of the kernel stack's
  allocation: the new context's address, or nothing.
\<close>

definition mcs_spawn_kernel_task :: "nat \<Rightarrow> nat option \<Rightarrow> nat \<Rightarrow> mcs \<Rightarrow> (task_id \<times> mcs) option" where
  "mcs_spawn_kernel_task max_cpus stack c s =
     do {
       st \<leftarrow> cpu_at s c;
       (t, r) \<leftarrow> spawn_kernel_task max_cpus stack (current_task_id st) (ms_reg s);
       map_option (\<lambda>s1. (t, s1)) (activate t LeastLoaded (put_reg r s))
     }"

definition create_user_task_spec :: "nat \<Rightarrow> nat option \<Rightarrow> nat option \<Rightarrow> nat \<Rightarrow> mcs \<Rightarrow> (task_id \<times> mcs) option" where
  "create_user_task_spec max_cpus stack aspace c s =
     do {
       st \<leftarrow> cpu_at s c;
       (t, r) \<leftarrow> spawn_user_task_spec max_cpus stack aspace (current_task_id st) (ms_reg s);
       Some (t, put_reg r s)
     }"

definition mcs_spawn_user_task_spec :: "nat \<Rightarrow> nat option \<Rightarrow> nat option \<Rightarrow> nat \<Rightarrow> mcs \<Rightarrow> (task_id \<times> mcs) option" where
  "mcs_spawn_user_task_spec max_cpus stack aspace c s =
     do {
       (t, s1) \<leftarrow> create_user_task_spec max_cpus stack aspace c s;
       map_option (\<lambda>s2. (t, s2)) (activate t LeastLoaded s1)
     }"

definition create_fork_child :: "nat \<Rightarrow> nat option \<Rightarrow> task_id \<Rightarrow> nat \<Rightarrow> mcs \<Rightarrow>
    (task_id option \<times> mcs) option" where
  "create_fork_child new_aspace stack child_parent c s =
     do {
       st \<leftarrow> cpu_at s c;
       (case current_task_id st of
          None \<Rightarrow> Some (None, s)
        | Some source \<Rightarrow>
            map_option (\<lambda>(child, r). (child, put_reg r s))
              (Task_Registry.fork_current new_aspace stack source child_parent (ms_reg s)))
     }"

text \<open>A created child becomes ready.\<close>

definition activate_child :: "task_id option \<times> mcs \<Rightarrow> (task_id option \<times> mcs) option" where
  "activate_child r =
     (case r of
        (None, s) \<Rightarrow> Some (None, s)
      | (Some child, s) \<Rightarrow> map_option (\<lambda>s1. (Some child, s1)) (activate child LeastLoaded s))"

definition mcs_fork_current :: "nat \<Rightarrow> nat option \<Rightarrow> nat \<Rightarrow> mcs \<Rightarrow> (task_id option \<times> mcs) option" where
  "mcs_fork_current new_aspace stack c s =
     do {
       st \<leftarrow> cpu_at s c;
       (case current_task_id st of
          None \<Rightarrow> Some (None, s)
        | Some parent \<Rightarrow> Option.bind (create_fork_child new_aspace stack parent c s) activate_child)
     }"

definition create_clone_thread :: "nat option \<Rightarrow> nat \<Rightarrow> mcs \<Rightarrow> (task_id option \<times> mcs) option" where
  "create_clone_thread stack c s =
     do {
       st \<leftarrow> cpu_at s c;
       (case current_task_id st of
          None \<Rightarrow> Some (None, s)
        | Some parent \<Rightarrow>
            map_option (\<lambda>(child, r). (child, put_reg r s))
              (Task_Registry.clone_current_thread stack parent (ms_reg s)))
     }"

definition mcs_clone_current_thread :: "nat option \<Rightarrow> nat \<Rightarrow> mcs \<Rightarrow> (task_id option \<times> mcs) option" where
  "mcs_clone_current_thread stack c s = Option.bind (create_clone_thread stack c s) activate_child"

definition mcs_execve_current :: "nat \<Rightarrow> nat \<Rightarrow> mcs \<Rightarrow> mcs option" where
  "mcs_execve_current aspace c s =
     do {
       st \<leftarrow> cpu_at s c;
       t \<leftarrow> current_task_id st;
       r \<leftarrow> reg_execve aspace t (ms_reg s);
       Some (if current_aspace st \<noteq> aspace
         then put_cpu c (set_current_aspace aspace st)
           ((put_reg r s)\<lparr>ms_events := ms_events s @ notify_switch (current_aspace st) aspace c\<rparr>)
         else put_reg r s)
     }"

definition take_current_wait_result :: "nat \<Rightarrow> mcs \<Rightarrow> (wait_result \<times> mcs) option" where
  "take_current_wait_result c s =
     do {
       st \<leftarrow> cpu_at s c;
       t \<leftarrow> current_task_id st;
       (res, r) \<leftarrow> reg_take_wait_result t (ms_reg s);
       Some (res, put_reg r s)
     }"

section \<open>Ending tasks\<close>

definition mcs_kill_task :: "task_id \<Rightarrow> int \<Rightarrow> mcs \<Rightarrow> bool \<times> mcs" where
  "mcs_kill_task t code s =
     (if reg_is_idle_task (ms_reg s) t then (False, s)
      else case reg_state (ms_reg s) t of
          None \<Rightarrow> (False, s)
        | Some (Exited _) \<Rightarrow> (True, s)
        | Some _ \<Rightarrow>
            if list_ex (\<lambda>st. current_task_id st = Some t) (ms_cpus s) then (False, s)
            else (let s1 = dequeue_from_all_cpus t s;
                      s2 = put_wait (kill_task t (ms_wait s1)) s1
                  in (True, put_reg (reg_mark_exited t code (ms_reg s2)) s2)))"

definition discard_unstarted_task :: "task_id \<Rightarrow> mcs \<Rightarrow> mcs" where
  "discard_unstarted_task t s =
     (let s1 = dequeue_from_all_cpus t s;
          s2 = put_wait (detach_task_from_run_queues t (ms_wait s1)) s1
      in put_reg (snd (discard_task t (ms_reg s2))) s2)"

definition mcs_reap_exited_task :: "task_id \<Rightarrow> mcs \<Rightarrow> exited_task option \<times> mcs" where
  "mcs_reap_exited_task t s =
     (case reap_exited_task t (ms_wait s) (ms_reg s) of (e, w, r) \<Rightarrow> (e, put_reg r (put_wait w s)))"

definition mcs_reap_one_exited_task :: "mcs \<Rightarrow> exited_task option \<times> mcs" where
  "mcs_reap_one_exited_task s =
     (case reap_one_exited_task (ms_wait s) (ms_reg s) of (e, w, r) \<Rightarrow> (e, put_reg r (put_wait w s)))"

definition reap_one_exited_child :: "task_id \<Rightarrow> mcs \<Rightarrow> exited_task option \<times> mcs" where
  "reap_one_exited_child parent s =
     (case find_exited_child parent (ms_reg s) of
        None \<Rightarrow> (None, s)
      | Some t \<Rightarrow> mcs_reap_exited_task t s)"

section \<open>Scheduling parameters\<close>

text \<open>The end of a parameter change: whether the calling CPU must reschedule.\<close>

definition resched_after :: "nat \<Rightarrow> resched_cause \<Rightarrow> nat \<Rightarrow> mcs \<Rightarrow> (bool \<times> mcs) option" where
  "resched_after target cause c s =
     do {
       st \<leftarrow> cpu_at s target;
       (if \<not> cpu_should_reschedule cause st then Some (False, s)
        else if target = c then Some (True, s)
        else map_option (\<lambda>s1. (False, s1)) (mark_need_resched target s))
     }"

definition apply_sched_policy_change :: "task_id \<Rightarrow> sched_policy \<Rightarrow> int \<Rightarrow> nat \<Rightarrow> mcs \<Rightarrow>
    ((sched_error, bool) result \<times> mcs) option" where
  "apply_sched_policy_change t policy priority c s =
     do {
       old \<leftarrow> reg_task_snapshot (ms_reg s) t;
       (if is_exited (snap_state old) then Some (Inl NoSuchTask, s)
        else do {
          s1 \<leftarrow> (if snap_state old = Running
                then Option.bind (snap_running_cpu old) (\<lambda>running. sync_current_to_registry running s)
                else Some s);
          let s2 = dequeue_from_all_cpus t s1;
          (case reg_set_task_sched t policy priority (ms_reg s2) of
             (False, _) \<Rightarrow> Some (Inl NoSuchTask, s2)
           | (True, r) \<Rightarrow>
               do {
                 let s3 = put_reg r s2;
                 new \<leftarrow> reg_task_snapshot (ms_reg s3) t;
                 (b, s4) \<leftarrow> (case snap_state old of
                     Ready \<Rightarrow>
                       do {
                         let target = (case snap_ready_cpu old of None \<Rightarrow> c | Some x \<Rightarrow> x);
                         s4 \<leftarrow> enqueue_ready_on_cpu t target s3;
                         resched_after target (CauseReady (snap_policy new)) c s4
                       }
                   | Running \<Rightarrow>
                       do {
                         running \<leftarrow> snap_running_cpu old;
                         st \<leftarrow> cpu_at s3 running;
                         resched_after running CauseTick c (put_cpu running (cpu_set_current_task new st) s3)
                       }
                   | _ \<Rightarrow> Some (False, s3));
                 Some (Inr b, s4)
               })
        })
     }"

definition mcs_set_affinity :: "nat \<Rightarrow> task_id \<Rightarrow> cpu_mask \<Rightarrow> mcs \<Rightarrow> ((sched_error, unit) result \<times> mcs) option" where
  "mcs_set_affinity max_cpus t new_mask s =
     (if new_mask AND NOT (max_cpus_all max_cpus) \<noteq> 0 then Some (Inl SchedInvalidArg, s)
      else do {
        on \<leftarrow> online_cpu_mask s;
        (if new_mask AND on = 0 then Some (Inl SchedInvalidArg, s)
         else case reg_state (ms_reg s) t of
             None \<Rightarrow> Some (Inl NoSuchTask, s)
           | Some state \<Rightarrow>
               if is_exited state then Some (Inl NoSuchTask, s)
               else (case reg_set_affinity t new_mask (ms_reg s) of
                   (Inl e, r) \<Rightarrow> Some (Inl e, put_reg r s)
                 | (Inr _, r) \<Rightarrow>
                     map_option (\<lambda>s2. (Inr (), s2))
                       (let s1 = put_reg r s
                        in case state of
                            Ready \<Rightarrow>
                              (case reg_ready_cpu r t of
                                 None \<Rightarrow> Some s1
                               | Some ready \<Rightarrow>
                                   if mask_contains new_mask ready then Some s1
                                   else activate t LeastLoaded s1)
                          | Running \<Rightarrow>
                              (case reg_running_cpu r t of
                                 None \<Rightarrow> None
                               | Some running \<Rightarrow>
                                   if mask_contains new_mask running then Some s1
                                   else request_reschedule running CauseForced s1)
                          | _ \<Rightarrow> Some s1)))
      })"

definition mcs_set_nice :: "task_id \<Rightarrow> int \<Rightarrow> mcs \<Rightarrow> ((sched_error, unit) result \<times> mcs) option" where
  "mcs_set_nice t nice s =
     (case reg_state (ms_reg s) t of
        None \<Rightarrow> Some (Inl NoSuchTask, s)
      | Some state \<Rightarrow>
          if is_exited state then Some (Inl NoSuchTask, s)
          else do {
            s1 \<leftarrow> (case reg_running_cpu (ms_reg s) t of
                None \<Rightarrow> Some s
              | Some running \<Rightarrow>
                  do { st \<leftarrow> cpu_at s running; Some (put_cpu running (set_current_nice nice st) s) });
            (case reg_set_nice t nice (ms_reg s1) of (e, r) \<Rightarrow> Some (e, put_reg r s1))
          })"

definition mcs_set_io_priority :: "task_id \<Rightarrow> nat \<Rightarrow> mcs \<Rightarrow> (sched_error, unit) result \<times> mcs" where
  "mcs_set_io_priority t prio s =
     (case reg_state (ms_reg s) t of
        None \<Rightarrow> (Inl NoSuchTask, s)
      | Some state \<Rightarrow>
          if is_exited state then (Inl NoSuchTask, s)
          else (case reg_set_io_priority t prio (ms_reg s) of (e, r) \<Rightarrow> (e, put_reg r s)))"

end
