(* ===== verification/Cpu_Mset.thy ===== *)
theory Cpu_Mset
  imports Cpu_Props "HOL-Library.Multiset"
begin

text \<open>
  The tasks waiting on a CPU as a multiset, which says how often a task is queued: placing adds
  one, removing takes all, the choice of the next task takes one. The counters of the five
  queues are bounded by its size.
\<close>

section \<open>Families of lists with finite support\<close>

definition support :: "('k \<Rightarrow> task_id list) \<Rightarrow> 'k set" where
  "support f = {k. f k \<noteq> []}"

definition fam_mset :: "('k \<Rightarrow> task_id list) \<Rightarrow> task_id multiset" where
  "fam_mset f = (\<Sum>k \<in> support f. mset (f k))"

lemma fam_mset_on: "finite S \<Longrightarrow> support f \<subseteq> S \<Longrightarrow> fam_mset f = (\<Sum>k \<in> S. mset (f k))"
  unfolding fam_mset_def by (rule sum.mono_neutral_left) (auto simp: support_def)

lemma fam_mset_upd:
  assumes "finite (support f)"
  shows "fam_mset (f(k := l)) + mset (f k) = fam_mset f + mset l"
proof -
  let ?S = "insert k (support f)"
  have S: "finite ?S" "support f \<subseteq> ?S" "support (f(k := l)) \<subseteq> ?S"
    using assms by (auto simp: support_def)
  have "(\<Sum>j \<in> ?S - {k}. mset ((f(k := l)) j)) = (\<Sum>j \<in> ?S - {k}. mset (f j))"
    by (rule sum.cong) auto
  then show ?thesis
    using S by (simp add: fam_mset_on [OF S(1,2)] fam_mset_on [OF S(1,3)] sum.remove [of ?S k])
qed

lemma fam_mset_filter:
  assumes "finite (support f)"
  shows "fam_mset (\<lambda>k. filter P (f k)) = filter_mset P (fam_mset f)"
proof -
  have "support (\<lambda>k. filter P (f k)) \<subseteq> support f" by (auto simp: support_def)
  then have "fam_mset (\<lambda>k. filter P (f k)) = (\<Sum>k \<in> support f. filter_mset P (mset (f k)))"
    by (simp add: fam_mset_on [OF assms] )
  also have "\<dots> = filter_mset P (\<Sum>k \<in> support f. mset (f k))"
    using assms by (induction rule: finite_induct) auto
  finally show ?thesis by (simp add: fam_mset_def)
qed

lemma fam_mset_append:
  assumes "finite (support f)" "finite (support g)"
  shows "fam_mset (\<lambda>k. f k @ g k) = fam_mset f + fam_mset g"
proof -
  let ?S = "support f \<union> support g"
  have S: "finite ?S" "support f \<subseteq> ?S" "support g \<subseteq> ?S" "support (\<lambda>k. f k @ g k) \<subseteq> ?S"
    using assms by (auto simp: support_def)
  show ?thesis
    by (simp add: fam_mset_on [OF S(1,2)] fam_mset_on [OF S(1,3)] fam_mset_on [OF S(1,4)] sum.distrib)
qed

lemma support_append: "support (\<lambda>k. f k @ g k) = support f \<union> support g"
  by (auto simp: support_def)

lemma set_fam_mset: "finite (support f) \<Longrightarrow> set_mset (fam_mset f) = members f"
proof -
  assume "finite (support f)"
  then have "set_mset (fam_mset f) = (\<Union>k \<in> support f. set (f k))"
    unfolding fam_mset_def by (induction rule: finite_induct) auto
  also have "\<dots> = members f"
  proof
    show "members f \<subseteq> (\<Union>k \<in> support f. set (f k))"
    proof
      fix x assume "x \<in> members f"
      then obtain k where k: "x \<in> set (f k)" by (auto simp: members_def)
      then have "k \<in> support f" by (auto simp: support_def)
      with k show "x \<in> (\<Union>k \<in> support f. set (f k))" by blast
    qed
  qed (auto simp: members_def)
  finally show ?thesis .
qed

lemma fam_mset_tl:
  assumes "finite (support f)" "f k \<noteq> []"
  shows "hd (f k) \<in># fam_mset f" "fam_mset (f(k := tl (f k))) = fam_mset f - {#hd (f k)#}"
proof -
  show "hd (f k) \<in># fam_mset f"
    using members_hd [of f k] assms set_fam_mset [OF assms(1)] by simp
  obtain x xs where x: "f k = x # xs" using assms(2) by (cases "f k") auto
  from fam_mset_upd [OF assms(1), of k "tl (f k)"] x
  have "fam_mset f = add_mset x (fam_mset (f(k := xs)))" by simp
  with x show "fam_mset (f(k := tl (f k))) = fam_mset f - {#hd (f k)#}" by simp
qed

section \<open>The queues of a CPU\<close>

lemma bucket_support: "support (bucket_content qs) \<subseteq> int ` {1..99}"
proof
  fix p assume "p \<in> support (bucket_content qs)"
  then have "valid_priority p" using bucket_content_valid by (auto simp: support_def)
  then have "p = int (nat p)" "nat p \<in> {1..99}" by (auto simp: valid_priority_def)
  then show "p \<in> int ` {1..99}" by blast
qed

lemma bucket_finite [simp]: "finite (support (bucket_content qs))"
  by (rule finite_subset [OF bucket_support]) simp

lemma cfs_support: "support (cfs_content q) \<subseteq> fst ` set (cfs_tree q)"
proof
  fix k assume "k \<in> support (cfs_content q)"
  then have "map_of (cfs_tree q) k \<noteq> None"
    by (auto simp: support_def cfs_content_def om_get_def split: option.splits)
  then show "k \<in> fst ` set (cfs_tree q)" by (simp add: map_of_eq_None_iff)
qed

lemma cfs_finite [simp]: "finite (support (cfs_content q))"
  by (rule finite_subset [OF cfs_support]) simp

lemma lists_finite [simp]:
  "finite (support (rt_list s))" "finite (support (fair_list s))" "finite (support (idle_list s))"
proof -
  show "finite (support (rt_list s))" unfolding rt_list_def [abs_def] support_append by simp
  show "finite (support (fair_list s))" unfolding fair_list_def [abs_def] support_append by simp
  show "finite (support (idle_list s))" unfolding idle_list_def [abs_def] by simp
qed

definition ready_mset :: "cpu_state \<Rightarrow> task_id multiset" where
  "ready_mset s = fam_mset (rt_list s) + fam_mset (fair_list s) + fam_mset (idle_list s)"

lemma set_ready_mset: "set_mset (ready_mset s) = queued s"
  by (simp add: ready_mset_def queued_def set_fam_mset)

lemma ready_mset_parts:
  "ready_mset s = fam_mset (bucket_content (fq_queues (fifo_q s))) +
     fam_mset (bucket_content (rq_queues (rr_q s))) + fam_mset (cfs_content (cfs_q s)) +
     fam_mset (cfs_content (batch_q s)) + fam_mset (cfs_content (idle_q s))"
  unfolding ready_mset_def rt_list_def [abs_def] fair_list_def [abs_def] idle_list_def [abs_def]
  by (simp add: fam_mset_append eta_contract_eq)

lemma ready_mset_queues:
  assumes "cfs_q s' = cfs_q s" "batch_q s' = batch_q s" "idle_q s' = idle_q s" "rr_q s' = rr_q s"
    "fifo_q s' = fifo_q s"
  shows "ready_mset s' = ready_mset s" "cpu_ok s' = cpu_ok s"
  using assms by (simp_all add: ready_mset_parts cpu_ok_def)

section \<open>Placing, removing and choosing\<close>

lemma ready_dequeue:
  assumes "cpu_ok s"
  shows "ready_mset (cpu_dequeue t s) = filter_mset (\<lambda>i. i \<noteq> t) (ready_mset s)"
    "cpu_ok (cpu_dequeue t s)"
proof -
  note f = fifo.deq_ok [OF cpu_okD(1) [OF assms], of t] and r = rr.deq_ok [OF cpu_okD(2) [OF assms], of t]
    and c = cfs.deq_ok [OF cpu_okD(3) [OF assms], of t] and b = cfs.deq_ok [OF cpu_okD(4) [OF assms], of t]
    and i = cfs.deq_ok [OF cpu_okD(5) [OF assms], of t]
  show "ready_mset (cpu_dequeue t s) = filter_mset (\<lambda>i. i \<noteq> t) (ready_mset s)"
    using f r c b i by (simp add: ready_mset_parts cpu_dequeue_def fam_mset_filter)
  show "cpu_ok (cpu_dequeue t s)" using queued_dequeue [OF assms] by blast
qed

lemma fam_mset_add:
  "finite (support f) \<Longrightarrow> fam_mset (f(k := f k @ [t])) = add_mset t (fam_mset f)"
  using fam_mset_upd [of f k "f k @ [t]"] by simp

lemma ready_enqueue:
  assumes ok: "cpu_ok s" and room: "has_room s"
    and valid: "validate_policy_param (snap_policy snap) (snap_priority snap) = Inr ()"
  obtains s' where "cpu_enqueue t snap s = Some s'" "cpu_ok s'" "ready_mset s' = add_mset t (ready_mset s)"
proof -
  obtain s' where s': "cpu_enqueue t snap s = Some s'" "cpu_ok s'"
    using cpu_enqueue_spec [OF assms] by blast
  have vp: "valid_priority (snap_priority snap)" if "snap_policy snap \<in> {Fifo, Rr}"
    using valid that by (auto simp: validate_policy_param_def valid_priority_def split: if_splits)
  have "ready_mset s' = add_mset t (ready_mset s)"
  proof (cases "snap_policy snap")
    case Fifo
    from fifo.enq_valid [OF cpu_okD(1) [OF ok] vp, of t] Fifo room s'(1)
    show ?thesis by (auto simp: has_room_def cpu_enqueue_def ready_mset_parts fam_mset_add)
  next
    case Rr
    from rr.enq_valid [OF cpu_okD(2) [OF ok] vp, of t] Rr room s'(1)
    show ?thesis by (auto simp: has_room_def cpu_enqueue_def ready_mset_parts fam_mset_add)
  next
    case Other
    from cfs_enqueue_ok(3) [OF cpu_okD(3) [OF ok], of t] Other room s'(1)
    show ?thesis by (auto simp: has_room_def cpu_enqueue_def ready_mset_parts fam_mset_add)
  next
    case Batch
    from cfs_enqueue_ok(3) [OF cpu_okD(4) [OF ok], of t] Batch room s'(1)
    show ?thesis by (auto simp: has_room_def cpu_enqueue_def ready_mset_parts fam_mset_add)
  next
    case Idle
    from cfs_enqueue_ok(3) [OF cpu_okD(5) [OF ok], of t] Idle room s'(1)
    show ?thesis by (auto simp: has_room_def cpu_enqueue_def ready_mset_parts fam_mset_add)
  qed
  with s' that show thesis by blast
qed

lemma ready_pick:
  assumes ok: "cpu_ok s" and idle: "idle_task_id s = Some i"
  obtains t s' where "pick_next_runnable s = Some (t, s')" "cpu_ok s'"
    "if ready_mset s = {#} then t = i \<and> ready_mset s' = {#}
     else t \<in># ready_mset s \<and> ready_mset s' = ready_mset s - {#t#}"
proof -
  obtain t s' where s': "pick_next_runnable s = Some (t, s')" "cpu_ok s'" "next_choice s t s'"
    using pick_next_spec [OF ok] idle by (cases "pick_next_runnable s") auto
  have take: "t \<in># ready_mset s \<and> ready_mset s' = ready_mset s - {#t#}"
    if "(\<exists>p. took_rt s p t s') \<or> (\<exists>v. took_fair s v t s') \<or>
      (\<exists>v. idle_list s v \<noteq> [] \<and> t = hd (idle_list s v) \<and>
         idle_list s' = (idle_list s)(v := tl (idle_list s v)) \<and>
         rt_list s' = rt_list s \<and> fair_list s' = fair_list s)"
    using that
  proof (elim disjE exE conjE)
    fix p assume "took_rt s p t s'"
    then show ?thesis
      using fam_mset_tl [of "rt_list s" p] by (auto simp: ready_mset_def took_rt_def)
  next
    fix v assume "took_fair s v t s'"
    then show ?thesis
      using fam_mset_tl [of "fair_list s" v] by (auto simp: ready_mset_def took_fair_def)
  next
    fix v assume "idle_list s v \<noteq> []" "t = hd (idle_list s v)"
      "idle_list s' = (idle_list s)(v := tl (idle_list s v))" "rt_list s' = rt_list s" "fair_list s' = fair_list s"
    then show ?thesis
      using fam_mset_tl [of "idle_list s" v] by (auto simp: ready_mset_def)
  qed
  have none: "ready_mset s = {#}" if "\<And>p. rt_list s p = []" "\<And>v. fair_list s v = []" "\<And>v. idle_list s v = []"
    using that by (simp add: ready_mset_def fam_mset_def support_def)
  have "if ready_mset s = {#} then t = i \<and> ready_mset s' = {#}
     else t \<in># ready_mset s \<and> ready_mset s' = ready_mset s - {#t#}"
  proof (cases "(\<exists>p. rt_list s p \<noteq> []) \<or> (\<exists>v. fair_list s v \<noteq> []) \<or> (\<exists>v. idle_list s v \<noteq> [])")
    case True
    then have "t \<in># ready_mset s \<and> ready_mset s' = ready_mset s - {#t#}"
      by (intro take) (use s'(3) in \<open>auto simp: next_choice_def split: if_splits\<close>)
    then show ?thesis by auto
  next
    case False
    with s'(3) idle have "t = i" "s' = s" by (simp_all add: next_choice_def)
    with none False show ?thesis by simp
  qed
  with s'(1,2) that show thesis by blast
qed

section \<open>Room\<close>

lemma bucket_size:
  assumes "length qs = bucket_count"
  shows "size (fam_mset (bucket_content qs)) = total_length qs"
proof -
  have inj: "inj_on (\<lambda>i. int i + 1) {..<bucket_count}" by (auto intro: inj_onI)
  let ?S = "(\<lambda>i. int i + 1) ` {..<bucket_count}"
  have "support (bucket_content qs) \<subseteq> ?S"
    by (auto simp: support_def bucket_content_def bucket_index_iff image_iff split: option.splits)
  then have "fam_mset (bucket_content qs) = (\<Sum>k \<in> ?S. mset (bucket_content qs k))"
    by (intro fam_mset_on) simp
  also have "\<dots> = (\<Sum>i < bucket_count. mset (qs ! i))"
    by (simp add: sum.reindex [OF inj] bucket_content_nth)
  finally have "size (fam_mset (bucket_content qs)) = (\<Sum>i < bucket_count. length (qs ! i))"
    by (simp add: size_multiset_sum)
  then show ?thesis
    using assms by (simp add: total_length_def sum_list_sum_nth atLeast0LessThan)
qed

lemma cfs_size:
  assumes "om_ok (cfs_tree q)"
  shows "size (fam_mset (cfs_content q)) = tree_total (cfs_tree q)"
proof -
  let ?m = "cfs_tree q"
  have d: "distinct (map fst ?m)" by (rule om_ok_distinct [OF assms])
  have get: "cfs_content q (fst e) = snd e" if "e \<in> set ?m" for e
    using that map_of_is_SomeI [OF d, of "fst e" "snd e"] by (simp add: cfs_content_def om_get_def)
  have "fam_mset (cfs_content q) = (\<Sum>k \<in> fst ` set ?m. mset (cfs_content q k))"
    by (rule fam_mset_on [OF _ cfs_support]) simp
  also have "\<dots> = (\<Sum>e \<in> set ?m. mset (cfs_content q (fst e)))"
    by (rule sum.reindex [unfolded comp_def]) (use d in \<open>simp add: distinct_map\<close>)
  also have "\<dots> = (\<Sum>e \<in> set ?m. mset (snd e))"
    using get by (intro sum.cong) auto
  finally have "size (fam_mset (cfs_content q)) = (\<Sum>e \<in> set ?m. length (snd e))"
    by (simp add: size_multiset_sum)
  also have "\<dots> = tree_total ?m"
    using d by (simp add: tree_total_def sum_list_distinct_conv_sum_set distinct_map)
  finally show ?thesis .
qed

lemma ready_size:
  assumes "cpu_ok s" "size (ready_mset s) < usize_max"
  shows "has_room s"
proof -
  have "total_length (fq_queues (fifo_q s)) = fq_count (fifo_q s)" "length (fq_queues (fifo_q s)) = bucket_count"
    "total_length (rq_queues (rr_q s)) = rq_count (rr_q s)" "length (rq_queues (rr_q s)) = bucket_count"
    using cpu_okD(1,2) [OF assms(1)] by (auto simp: fifo_ok_def rr_ok_def buckets_ok_def)
  moreover have "tree_total (cfs_tree (cfs_q s)) = cfs_count (cfs_q s)"
    "tree_total (cfs_tree (batch_q s)) = cfs_count (batch_q s)"
    "tree_total (cfs_tree (idle_q s)) = cfs_count (idle_q s)"
    "om_ok (cfs_tree (cfs_q s))" "om_ok (cfs_tree (batch_q s))" "om_ok (cfs_tree (idle_q s))"
    using cpu_okD(3-5) [OF assms(1)] by (auto simp: cfs_ok_def)
  ultimately show ?thesis
    using assms(2) by (simp add: ready_mset_parts has_room_def bucket_size cfs_size)
qed

end
