(* ===== verification/Multi_Inv.thy ===== *)
theory Multi_Inv
  imports Multi_Ops Cpu_Mset Wait_Reach
begin

text \<open>
  The invariant of the multi-class scheduler. What is said of one task depends on a few
  observations of it: its entry in the registry, the CPUs whose queues hold it, that run it or
  hold it for a migration, and the wait queues it is in. An operation that leaves these alone
  keeps the task consistent, so each operation is checked for the one task it moves.
\<close>

section \<open>Observations\<close>

lemma is_exited_simps [simp]:
  "is_exited (Exited code)" "\<not> is_exited Ready" "\<not> is_exited Running" "\<not> is_exited (Blocking x)"
  "\<not> is_exited (Sleeping n)"
  by (simp_all add: is_exited_def)

definition on_queue :: "mcs \<Rightarrow> task_id \<Rightarrow> nat \<Rightarrow> bool" where
  "on_queue s t c \<longleftrightarrow> c < length (ms_cpus s) \<and> t \<in># ready_mset (ms_cpus s ! c)"

definition on_cpu :: "mcs \<Rightarrow> task_id \<Rightarrow> nat \<Rightarrow> bool" where
  "on_cpu s t c \<longleftrightarrow> c < length (ms_cpus s) \<and> current_task_id (ms_cpus s ! c) = Some t"

definition defers :: "mcs \<Rightarrow> task_id \<Rightarrow> nat \<Rightarrow> bool" where
  "defers s t c \<longleftrightarrow> c < length (ms_cpus s) \<and> deferred_ready (ms_cpus s ! c) = Some t"

definition idle_of :: "mcs \<Rightarrow> task_id \<Rightarrow> nat \<Rightarrow> bool" where
  "idle_of s t c \<longleftrightarrow> c < length (ms_cpus s) \<and> idle_task_id (ms_cpus s ! c) = Some t"

definition is_online :: "mcs \<Rightarrow> nat \<Rightarrow> bool" where
  "is_online s c \<longleftrightarrow> c < length (ms_cpus s) \<and> online (ms_cpus s ! c)"

definition waits :: "mcs \<Rightarrow> task_id \<Rightarrow> wait_target \<Rightarrow> bool" where
  "waits s t x \<longleftrightarrow> t \<in> set (waiters x (ms_wait s))"

definition sleeps :: "mcs \<Rightarrow> task_id \<Rightarrow> bool" where
  "sleeps s t \<longleftrightarrow> t \<in> sleepers (ms_wait s)"

definition in_exited :: "mcs \<Rightarrow> task_id \<Rightarrow> bool" where
  "in_exited s t \<longleftrightarrow> t \<in> set (wq_exited (ms_wait s))"

definition task :: "mcs \<Rightarrow> task_id \<Rightarrow> tcb option" where
  "task s t = reg_get (ms_reg s) t"

section \<open>The invariant\<close>

definition cpu_wf :: "nat \<Rightarrow> cpu_state \<Rightarrow> bool" where
  "cpu_wf c st \<longleftrightarrow> cpu_ok st \<and> cs_cpu_id st = c \<and> idle_task_id st \<noteq> None \<and>
     (\<exists>snap. current_snapshot st = Some snap \<and> -20 \<le> snap_nice snap \<and> snap_nice snap \<le> 19) \<and>
     (\<forall>t. count (ready_mset st) t \<le> 1)"

text \<open>
  What scheduling needs of a task: valid parameters, a CPU it may run on and a saved context that
  satisfies the condition \<open>K\<close> of the architecture layer. An idle task is nobody's child.
\<close>

definition tcb_fit :: "(nat \<Rightarrow> bool) \<Rightarrow> mcs \<Rightarrow> tcb \<Rightarrow> bool" where
  "tcb_fit K s T \<longleftrightarrow> validate_policy_param (tc_policy T) (tc_priority T) = Inr () \<and>
     -20 \<le> tc_nice T \<and> tc_nice T \<le> 19 \<and> K (tc_cx T) \<and> (tcb_is_idle T \<longrightarrow> tc_parent T = None) \<and>
     (\<exists>c. is_online s c \<and> mask_contains (tc_affinity T) c) \<and>
     (\<forall>c. tc_last_cpu T = Some c \<longrightarrow> c < length (ms_cpus s))"

definition sys_glob :: "(nat \<Rightarrow> bool) \<Rightarrow> mcs \<Rightarrow> bool" where
  "sys_glob K s \<longleftrightarrow> reg_ok (ms_reg s) \<and> reg_next_id (ms_reg s) < usize_max \<and> wq_inv (ms_wait s) \<and>
     distinct (wq_exited (ms_wait s)) \<and> length (ms_cpus s) \<le> 64 \<and>
     (\<forall>c < length (ms_cpus s). cpu_wf c (ms_cpus s ! c)) \<and>
     (\<forall>i c. idle_of s i c \<longrightarrow> (\<exists>T. task s i = Some T \<and> tcb_is_idle T)) \<and>
     (\<forall>t c. on_queue s t c \<longrightarrow> (\<exists>T. task s t = Some T \<and> \<not> tcb_is_idle T)) \<and>
     (\<forall>t T. task s t = Some T \<longrightarrow> tcb_fit K s T) \<and>
     (\<forall>i c d. idle_of s i c \<longrightarrow> idle_of s i d \<longrightarrow> c = d)"

text \<open>
  The consistency of one task. An idle task is never queued and only runs on its own CPU. Any
  other task is in the queue of exactly its ready CPU, which is online and which it may use, runs on or waits for its migration from
  exactly its running CPU, waits only at the target its state names and sleeps only when its
  state says so; and unless it waits for an exit, a blocked task is in its queue and a sleeping
  task among the sleepers. The CPUs in \<open>E\<close> are in the middle of a switch: what they run does
  not count.
\<close>

definition live_ok :: "nat set \<Rightarrow> mcs \<Rightarrow> task_id \<Rightarrow> tcb \<Rightarrow> bool" where
  "live_ok E s t T \<longleftrightarrow>
     (\<forall>c. on_queue s t c \<longleftrightarrow> tc_ready_cpu T = Some c) \<and>
     (\<forall>c. tc_ready_cpu T = Some c \<longrightarrow> is_online s c \<and> mask_contains (tc_affinity T) c) \<and>
     (\<forall>c. tc_running_cpu T = Some c \<longleftrightarrow> c \<notin> E \<and> on_cpu s t c \<or> defers s t c) \<and>
     (\<forall>c. c \<notin> E \<longrightarrow> defers s t c \<longrightarrow> \<not> on_cpu s t c) \<and>
     (\<forall>x. waits s t x \<longrightarrow> tc_state T = Blocking x) \<and>
     (sleeps s t \<longrightarrow> (\<exists>n. tc_state T = Sleeping n)) \<and>
     (in_exited s t \<longleftrightarrow> is_exited (tc_state T)) \<and>
     (\<forall>x. tc_state T = Blocking x \<longrightarrow> waits s t x \<or> (\<exists>i. x = TaskExit i \<or> x = ChildExit i)) \<and>
     (\<forall>n. tc_state T = Sleeping n \<longrightarrow> sleeps s t)"

definition absent_ok :: "nat set \<Rightarrow> mcs \<Rightarrow> task_id \<Rightarrow> bool" where
  "absent_ok E s t \<longleftrightarrow>
     (\<forall>c. \<not> on_queue s t c \<and> \<not> defers s t c \<and> (c \<notin> E \<longrightarrow> on_cpu s t c \<longrightarrow> idle_of s t c)) \<and>
     (\<forall>x. \<not> waits s t x) \<and> \<not> sleeps s t \<and> \<not> in_exited s t"

definition task_ok :: "nat set \<Rightarrow> mcs \<Rightarrow> task_id \<Rightarrow> bool" where
  "task_ok E s t \<longleftrightarrow>
     (case task s t of
        None \<Rightarrow> absent_ok E s t
      | Some T \<Rightarrow> if tcb_is_idle T then absent_ok E s t else live_ok E s t T)"

definition sys_inv :: "(nat \<Rightarrow> bool) \<Rightarrow> nat set \<Rightarrow> task_id set \<Rightarrow> mcs \<Rightarrow> bool" where
  "sys_inv K E X s \<longleftrightarrow> sys_glob K s \<and> (\<forall>t. t \<notin> X \<longrightarrow> task_ok E s t)"

section \<open>What leaves a task alone\<close>

definition same_cpus :: "mcs \<Rightarrow> mcs \<Rightarrow> bool" where
  "same_cpus s s' \<longleftrightarrow> length (ms_cpus s') = length (ms_cpus s) \<and> idle_of s' = idle_of s \<and>
     is_online s' = is_online s"

definition same_task :: "mcs \<Rightarrow> mcs \<Rightarrow> task_id \<Rightarrow> bool" where
  "same_task s s' t \<longleftrightarrow> task s' t = task s t \<and> on_queue s' t = on_queue s t \<and>
     on_cpu s' t = on_cpu s t \<and> defers s' t = defers s t \<and> waits s' t = waits s t \<and>
     sleeps s' t = sleeps s t \<and> in_exited s' t = in_exited s t"

lemma task_ok_cong:
  assumes "task s' t = task s t" "on_queue s' t = on_queue s t" "\<And>c. c \<notin> E \<Longrightarrow> on_cpu s' t c = on_cpu s t c"
    "defers s' t = defers s t" "waits s' t = waits s t" "sleeps s' t = sleeps s t"
    "in_exited s' t = in_exited s t" "idle_of s' = idle_of s" "is_online s' = is_online s"
  shows "task_ok E s' t = task_ok E s t"
proof -
  have "live_ok E s' t = live_ok E s t" "absent_ok E s' t = absent_ok E s t"
    by (simp_all add: live_ok_def [abs_def] absent_ok_def assms cong: conj_cong imp_cong)
  then show ?thesis by (simp add: task_ok_def assms(1) split: option.split)
qed

lemma task_ok_same: "same_cpus s s' \<Longrightarrow> same_task s s' t \<Longrightarrow> task_ok E s' t = task_ok E s t"
  by (rule task_ok_cong) (simp_all add: same_cpus_def same_task_def)

lemma same_refl [simp]: "same_cpus s s" "same_task s s t"
  by (simp_all add: same_cpus_def same_task_def)

lemma same_trans:
  "same_cpus s s' \<Longrightarrow> same_cpus s' s'' \<Longrightarrow> same_cpus s s''"
  "same_task s s' t \<Longrightarrow> same_task s' s'' t \<Longrightarrow> same_task s s'' t"
  by (simp_all add: same_cpus_def same_task_def)

lemma tcb_fit_same: "same_cpus s s' \<Longrightarrow> tcb_fit K s' T = tcb_fit K s T"
  by (simp add: tcb_fit_def same_cpus_def)

lemma sys_globD:
  assumes "sys_glob K s"
  shows "reg_ok (ms_reg s)" "reg_next_id (ms_reg s) < usize_max" "wq_inv (ms_wait s)"
    "distinct (wq_exited (ms_wait s))" "length (ms_cpus s) \<le> 64"
    "\<And>c. c < length (ms_cpus s) \<Longrightarrow> cpu_wf c (ms_cpus s ! c)"
    "\<And>i c. idle_of s i c \<Longrightarrow> \<exists>T. task s i = Some T \<and> tcb_is_idle T"
    "\<And>t c. on_queue s t c \<Longrightarrow> \<exists>T. task s t = Some T \<and> \<not> tcb_is_idle T"
    "\<And>t T. task s t = Some T \<Longrightarrow> tcb_fit K s T"
    "\<And>i c d. idle_of s i c \<Longrightarrow> idle_of s i d \<Longrightarrow> c = d"
  using assms unfolding sys_glob_def by blast+

lemma sys_invD: "sys_inv K E X s \<Longrightarrow> sys_glob K s" "sys_inv K E X s \<Longrightarrow> t \<notin> X \<Longrightarrow> task_ok E s t"
  by (simp_all add: sys_inv_def)

lemma sys_inv_mono: "sys_inv K E X s \<Longrightarrow> X \<subseteq> Y \<Longrightarrow> sys_inv K E Y s"
  by (auto simp: sys_inv_def)

lemma sys_inv_close: "sys_inv K E X s \<Longrightarrow> task_ok E s t \<Longrightarrow> sys_inv K E (X - {t}) s"
  by (auto simp: sys_inv_def)

lemma cpu_wfD:
  assumes "cpu_wf c st"
  shows "cpu_ok st" "cs_cpu_id st = c" "\<exists>i. idle_task_id st = Some i" "\<exists>t. current_task_id st = Some t"
    "count (ready_mset st) t \<le> 1" "-20 \<le> current_nice st" "current_nice st \<le> 19"
  using assms by (auto simp: cpu_wf_def current_task_id_def current_nice_def)

text \<open>Observations of a state put together from parts.\<close>

lemma obs_cong:
  assumes "ms_cpus s' = ms_cpus s"
  shows "on_queue s' = on_queue s" "on_cpu s' = on_cpu s" "defers s' = defers s" "idle_of s' = idle_of s"
    "is_online s' = is_online s"
  using assms by (simp_all add: on_queue_def on_cpu_def defers_def idle_of_def is_online_def fun_eq_iff)

lemma wait_cong:
  assumes "ms_wait s' = ms_wait s"
  shows "waits s' = waits s" "sleeps s' = sleeps s" "in_exited s' = in_exited s"
  using assms by (simp_all add: waits_def sleeps_def in_exited_def fun_eq_iff)

lemma sys_inv_cong:
  assumes "ms_reg s' = ms_reg s" "ms_wait s' = ms_wait s" "ms_cpus s' = ms_cpus s"
  shows "sys_inv K E X s' = sys_inv K E X s" "same_task s s' t" "same_cpus s s'"
    "task_ok E s' t = task_ok E s t" "sys_glob K s' = sys_glob K s" "task s' = task s"
proof -
  have t: "task s' = task s" using assms(1) by (simp add: task_def fun_eq_iff)
  have f: "tcb_fit K s' = tcb_fit K s"
    using obs_cong [OF assms(3)] assms(3) by (simp add: tcb_fit_def fun_eq_iff)
  show ok: "task_ok E s' t = task_ok E s t" for t
    by (rule task_ok_cong) (simp_all add: t obs_cong [OF assms(3)] wait_cong [OF assms(2)])
  show g: "sys_glob K s' = sys_glob K s"
    using assms t f obs_cong [OF assms(3)] by (simp add: sys_glob_def)
  show "sys_inv K E X s' = sys_inv K E X s" by (simp add: sys_inv_def ok g)
  show "same_task s s' t"
    using t obs_cong [OF assms(3)] wait_cong [OF assms(2)] by (simp add: same_task_def)
  show "same_cpus s s'"
    using obs_cong [OF assms(3)] assms(3) by (simp add: same_cpus_def)
  show "task s' = task s" by (rule t)
qed

lemma put_simps [simp]:
  "ms_reg (put_cpu c st s) = ms_reg s" "ms_wait (put_cpu c st s) = ms_wait s"
  "ms_cpus (put_cpu c st s) = (ms_cpus s)[c := st]"
  "ms_reg (put_reg r s) = r" "ms_wait (put_reg r s) = ms_wait s" "ms_cpus (put_reg r s) = ms_cpus s"
  "ms_reg (put_wait w s) = ms_reg s" "ms_wait (put_wait w s) = w" "ms_cpus (put_wait w s) = ms_cpus s"
  by (simp_all add: put_cpu_def put_reg_def put_wait_def)

lemma put_cpu_obs:
  assumes "c < length (ms_cpus s)"
  shows "on_queue (put_cpu c st s) t d = (if d = c then t \<in># ready_mset st else on_queue s t d)"
    "on_cpu (put_cpu c st s) t d = (if d = c then current_task_id st = Some t else on_cpu s t d)"
    "defers (put_cpu c st s) t d = (if d = c then deferred_ready st = Some t else defers s t d)"
    "idle_of (put_cpu c st s) t d = (if d = c then idle_task_id st = Some t else idle_of s t d)"
    "is_online (put_cpu c st s) d = (if d = c then online st else is_online s d)"
    "task (put_cpu c st s) = task s" "waits (put_cpu c st s) = waits s" "sleeps (put_cpu c st s) = sleeps s"
    "in_exited (put_cpu c st s) = in_exited s"
  using assms
  by (auto simp: on_queue_def on_cpu_def defers_def idle_of_def is_online_def task_def waits_def
      sleeps_def in_exited_def fun_eq_iff)

lemma put_cpu_same_cpus:
  assumes "c < length (ms_cpus s)" "idle_task_id st = idle_task_id (ms_cpus s ! c)"
    "online st = online (ms_cpus s ! c)"
  shows "same_cpus s (put_cpu c st s)"
proof -
  have "idle_of (put_cpu c st s) = idle_of s" "is_online (put_cpu c st s) = is_online s"
    using assms by (auto simp: fun_eq_iff put_cpu_obs) (auto simp: idle_of_def is_online_def)
  then show ?thesis by (simp add: same_cpus_def)
qed

lemma put_cpu_same_task:
  assumes c: "c < length (ms_cpus s)" and u: "u \<in># ready_mset st \<longleftrightarrow> u \<in># ready_mset (ms_cpus s ! c)"
    "current_task_id st = Some u \<longleftrightarrow> current_task_id (ms_cpus s ! c) = Some u"
    "deferred_ready st = Some u \<longleftrightarrow> deferred_ready (ms_cpus s ! c) = Some u"
  shows "same_task s (put_cpu c st s) u"
proof -
  have "on_queue (put_cpu c st s) u d = on_queue s u d" "on_cpu (put_cpu c st s) u d = on_cpu s u d"
    "defers (put_cpu c st s) u d = defers s u d" for d
    using c u by (simp_all add: put_cpu_obs) (simp_all add: on_queue_def on_cpu_def defers_def)
  then show ?thesis using c by (simp add: same_task_def fun_eq_iff put_cpu_obs)
qed

section \<open>Changing one part\<close>

text \<open>A CPU whose idle task and online state stay, and whose queues change for \<open>X\<close> only.\<close>

lemma put_cpu_inv:
  assumes inv: "sys_inv K E X s" and c: "c < length (ms_cpus s)" and wf: "cpu_wf c st"
    and st: "idle_task_id st = idle_task_id (ms_cpus s ! c)" "online st = online (ms_cpus s ! c)"
    and u: "\<And>u. u \<notin> X \<Longrightarrow> (u \<in># ready_mset st \<longleftrightarrow> on_queue s u c) \<and>
      (c \<notin> E \<longrightarrow> (current_task_id st = Some u \<longleftrightarrow> on_cpu s u c)) \<and>
      (deferred_ready st = Some u \<longleftrightarrow> defers s u c)"
    and q: "\<And>u. u \<in># ready_mset st \<Longrightarrow> \<exists>T. task s u = Some T \<and> \<not> tcb_is_idle T"
  shows "sys_inv K E X (put_cpu c st s)"
proof -
  let ?s = "put_cpu c st s"
  note o = put_cpu_obs [OF c] and g = sys_globD [OF sys_invD(1) [OF inv]]
  have sc: "same_cpus s ?s" by (rule put_cpu_same_cpus [OF c st])
  then have i: "idle_of ?s = idle_of s" "is_online ?s = is_online s" by (simp_all add: same_cpus_def)
  have w: "cpu_wf d (ms_cpus ?s ! d)" if "d < length (ms_cpus ?s)" for d
    using g(6) [of d] wf that by (cases "d = c") simp_all
  have "sys_glob K ?s"
    unfolding sys_glob_def o(6) i
    using g w q by (auto simp: tcb_fit_same [OF sc] o(1))
  moreover have "task_ok E ?s t" if "t \<notin> X" for t
  proof -
    have k: "on_queue ?s t = on_queue s t" "defers ?s t = defers s t"
      "\<And>d. d \<notin> E \<Longrightarrow> on_cpu ?s t d = on_cpu s t d"
      using u [OF that] by (auto simp: fun_eq_iff o(1,2,3))
    have "task_ok E s t" by (rule sys_invD(2) [OF inv that])
    moreover have "task_ok E ?s t = task_ok E s t"
      by (rule task_ok_cong) (simp_all add: o(6-9) i k)
    ultimately show ?thesis by simp
  qed
  ultimately show "sys_inv K E X ?s" by (simp add: sys_inv_def)
qed

text \<open>The entry of one task in the registry.\<close>

lemma task_put_reg: "task (put_reg r s) = reg_get r"
  by (simp add: task_def fun_eq_iff)

lemma put_reg_obs [simp]:
  "on_queue (put_reg r s) = on_queue s" "on_cpu (put_reg r s) = on_cpu s" "defers (put_reg r s) = defers s"
  "idle_of (put_reg r s) = idle_of s" "is_online (put_reg r s) = is_online s"
  "waits (put_reg r s) = waits s" "sleeps (put_reg r s) = sleeps s" "in_exited (put_reg r s) = in_exited s"
  using obs_cong [of "put_reg r s" s] wait_cong [of "put_reg r s" s] by simp_all

lemma put_reg_same [simp]: "same_cpus s (put_reg r s)"
  by (simp add: same_cpus_def)

lemma reg_ok_put:
  assumes "reg_ok r" "reg_get r t = Some T" "tcb_ok T'" "tc_id T' = t"
  shows "reg_ok (reg_put t T' r)" "reg_get (reg_put t T' r) = (reg_get r)(t \<mapsto> T')"
proof -
  have om: "om_ok (reg_tasks r)" using assms(1) by (simp add: reg_ok_def)
  show g: "reg_get (reg_put t T' r) = (reg_get r)(t \<mapsto> T')" by (rule reg_get_put [OF om])
  show "reg_ok (reg_put t T' r)"
    using assms om by (auto simp: reg_ok_def g split: if_splits)
qed

lemma put_task_inv:
  assumes inv: "sys_inv K E X s" and T: "task s t = Some T" and t: "t \<in> X"
    and T': "tcb_ok T'" "tc_id T' = t" "tcb_is_idle T' = tcb_is_idle T" "tcb_fit K s T'"
  shows "sys_inv K E X (put_reg (reg_put t T' (ms_reg s)) s)"
    "task (put_reg (reg_put t T' (ms_reg s)) s) = (task s)(t \<mapsto> T')"
proof -
  let ?s = "put_reg (reg_put t T' (ms_reg s)) s"
  note g = sys_globD [OF sys_invD(1) [OF inv]]
  have T0: "reg_get (ms_reg s) t = Some T" using T by (simp add: task_def)
  note p = reg_ok_put [OF g(1) T0 T'(1,2)]
  show tk: "task ?s = (task s)(t \<mapsto> T')" by (simp add: task_put_reg p(2)) (simp add: task_def [abs_def] fun_eq_iff)
  have f: "tcb_fit K ?s = tcb_fit K s" using tcb_fit_same [OF put_reg_same] by blast
  have i: "\<exists>T. task ?s i = Some T \<and> tcb_is_idle T" if "idle_of s i c" for i c
    using g(7) [OF that] T T'(3) by (cases "i = t") (auto simp: tk)
  have q: "\<exists>T. task ?s i = Some T \<and> \<not> tcb_is_idle T" if "on_queue s i c" for i c
    using g(8) [OF that] T T'(3) by (cases "i = t") (auto simp: tk)
  have k: "tcb_fit K s U" if "task ?s i = Some U" for i U
    using that g(9) T'(4) by (cases "i = t") (auto simp: tk)
  have n: "reg_next_id (reg_put t T' (ms_reg s)) < usize_max" using g(2) by simp
  have "sys_glob K ?s"
    unfolding sys_glob_def f put_reg_obs put_simps using g(3-6,10) p(1) n i q k by blast
  moreover have "task_ok E ?s u" if "u \<notin> X" for u
  proof -
    have "task_ok E ?s u = task_ok E s u"
      by (rule task_ok_same [OF put_reg_same]) (use that t in \<open>auto simp: same_task_def tk\<close>)
    with sys_invD(2) [OF inv that] show ?thesis by simp
  qed
  ultimately show "sys_inv K E X ?s" by (simp add: sys_inv_def)
qed

text \<open>Changes of a task that its consistency does not look at.\<close>

definition cosmetic :: "tcb \<Rightarrow> tcb \<Rightarrow> bool" where
  "cosmetic T T' \<longleftrightarrow> tc_id T' = tc_id T \<and> tc_state T' = tc_state T \<and> tc_ready_cpu T' = tc_ready_cpu T \<and>
     tc_running_cpu T' = tc_running_cpu T \<and> tc_last_cpu T' = tc_last_cpu T \<and> tc_inner T' = tc_inner T \<and>
     tc_policy T' = tc_policy T \<and> tc_priority T' = tc_priority T \<and> tc_nice T' = tc_nice T \<and>
     tc_affinity T' = tc_affinity T \<and> tc_parent T' = tc_parent T \<and> tc_cx T' = tc_cx T"

lemma cosmeticD:
  assumes "cosmetic T T'"
  shows "tcb_ok T' = tcb_ok T" "tcb_is_idle T' = tcb_is_idle T" "tcb_fit K s T' = tcb_fit K s T"
    "live_ok E s t T' = live_ok E s t T"
  using assms
  by (simp_all add: cosmetic_def tcb_ok_def tcb_is_idle_def tcb_fit_def tcb_aspace_ptr_def live_ok_def)

lemma cosmetic_inv:
  assumes inv: "sys_inv K E X s" and T: "task s t = Some T" and c: "cosmetic T T'"
  shows "sys_inv K E X (put_reg (reg_put t T' (ms_reg s)) s)"
    "task (put_reg (reg_put t T' (ms_reg s)) s) = (task s)(t \<mapsto> T')"
proof -
  let ?s = "put_reg (reg_put t T' (ms_reg s)) s"
  note g = sys_globD [OF sys_invD(1) [OF inv]]
  have T0: "tc_id T = t" "tcb_ok T" using T g(1) by (auto simp: task_def reg_ok_def)
  have i: "sys_inv K E (insert t X) s" by (rule sys_inv_mono [OF inv]) blast
  have T': "tcb_ok T'" "tc_id T' = t" "tcb_is_idle T' = tcb_is_idle T" "tcb_fit K s T'"
    using cosmeticD [OF c] T0 c g(9) [OF T] by (simp_all add: cosmetic_def)
  note p = put_task_inv [OF i T _ T', simplified]
  show "task ?s = (task s)(t \<mapsto> T')" by (rule p(2))
  have "task_ok E ?s t = task_ok E s t"
  proof -
    have "live_ok E ?s t = live_ok E s t" "absent_ok E ?s t = absent_ok E s t"
      by (simp_all add: live_ok_def [abs_def] absent_ok_def)
    then show ?thesis using cosmeticD [OF c] by (simp add: task_ok_def p(2) T)
  qed
  with sys_inv_close [OF p(1), of t] p(1) sys_invD(2) [OF inv, of t]
  show "sys_inv K E X ?s"
    by (cases "t \<in> X") (auto simp: insert_absorb)
qed

text \<open>The wait queues, whose change concerns \<open>X\<close> only.\<close>

lemma put_wait_obs:
  "on_queue (put_wait w s) = on_queue s" "on_cpu (put_wait w s) = on_cpu s" "defers (put_wait w s) = defers s"
  "idle_of (put_wait w s) = idle_of s" "is_online (put_wait w s) = is_online s" "task (put_wait w s) = task s"
  "waits (put_wait w s) t x \<longleftrightarrow> t \<in> set (waiters x w)" "sleeps (put_wait w s) t \<longleftrightarrow> t \<in> sleepers w"
  "in_exited (put_wait w s) t \<longleftrightarrow> t \<in> set (wq_exited w)" "same_cpus s (put_wait w s)"
  using obs_cong [of "put_wait w s" s]
  by (simp_all add: waits_def sleeps_def in_exited_def task_def fun_eq_iff same_cpus_def)

lemma put_wait_inv:
  assumes inv: "sys_inv K E X s" and w: "wq_inv w" "distinct (wq_exited w)"
    and u: "\<And>u x. u \<notin> X \<Longrightarrow> u \<in> set (waiters x w) \<longleftrightarrow> waits s u x"
      "\<And>u. u \<notin> X \<Longrightarrow> u \<in> sleepers w \<longleftrightarrow> sleeps s u" "\<And>u. u \<notin> X \<Longrightarrow> u \<in> set (wq_exited w) \<longleftrightarrow> in_exited s u"
  shows "sys_inv K E X (put_wait w s)"
proof -
  note g = sys_globD [OF sys_invD(1) [OF inv]]
  have f: "tcb_fit K (put_wait w s) = tcb_fit K s" using tcb_fit_same [OF put_wait_obs(10)] by blast
  have "sys_glob K (put_wait w s)"
    unfolding sys_glob_def put_wait_obs(1-6) f using g w by simp
  moreover have "task_ok E (put_wait w s) t" if "t \<notin> X" for t
  proof -
    have "task_ok E (put_wait w s) t = task_ok E s t"
      by (rule task_ok_cong) (use u [OF that] in \<open>auto simp: put_wait_obs fun_eq_iff\<close>)
    with sys_invD(2) [OF inv that] show ?thesis by simp
  qed
  ultimately show ?thesis by (simp add: sys_inv_def)
qed

end
