(* ===== verification/Multi_Place.thy ===== *)
theory Multi_Place
  imports Multi_Inv
begin

text \<open>
  The choice of a CPU for a ready task and its placement there: both are total under the
  invariant, the choice is usable and least loaded, and the placement re-establishes the
  consistency of the task it moves while no other task is affected.
\<close>

section \<open>Loads\<close>

lemma registered_below: "reg_ok r \<Longrightarrow> reg_next_id r < usize_max \<Longrightarrow> reg_get r i = Some T \<Longrightarrow> i < reg_next_id r"
  unfolding reg_ok_def by (metis less_irrefl)

lemma size_once: "(\<And>t. count M t \<le> 1) \<Longrightarrow> size M = card (set_mset M)"
proof -
  assume "\<And>t. count M t \<le> 1"
  then have "count M t = 1" if "t \<in># M" for t
    using that by (metis One_nat_def count_greater_eq_one_iff le_antisym)
  then show ?thesis by (simp add: size_multiset_overloaded_eq)
qed

lemma ready_bound:
  assumes g: "sys_glob K s" and c: "c < length (ms_cpus s)"
  shows "size (ready_mset (ms_cpus s ! c)) < reg_next_id (ms_reg s)"
proof -
  note G = sys_globD [OF g]
  let ?st = "ms_cpus s ! c" and ?n = "reg_next_id (ms_reg s)"
  obtain i where i: "idle_task_id ?st = Some i" using cpu_wfD(3) [OF G(6) [OF c]] by blast
  then obtain T where T: "task s i = Some T" "tcb_is_idle T" using G(7) [of i c] c by (auto simp: idle_of_def)
  have "u < ?n" if "task s u = Some U" for u U
    using registered_below [OF G(1,2)] that by (simp add: task_def)
  with G(8) T c have "set_mset (ready_mset ?st) \<subseteq> {..<?n} - {i}"
    by (fastforce simp: on_queue_def)
  then have "card (set_mset (ready_mset ?st)) \<le> card ({..<?n} - {i})"
    by (intro card_mono) auto
  also have "\<dots> < ?n"
    using registered_below [OF G(1,2), of i] T(1) by (simp add: task_def)
  finally show ?thesis
    using size_once [of "ready_mset ?st"] cpu_wfD(5) [OF G(6) [OF c]] by simp
qed

lemma cpu_load_size:
  assumes "cpu_ok st"
  shows "cpu_load st = size (ready_mset st) + (if is_current_idle st then 0 else 1)"
proof -
  have "total_length (fq_queues (fifo_q st)) = fq_count (fifo_q st)" "length (fq_queues (fifo_q st)) = bucket_count"
    "total_length (rq_queues (rr_q st)) = rq_count (rr_q st)" "length (rq_queues (rr_q st)) = bucket_count"
    using cpu_okD(1,2) [OF assms] by (auto simp: fifo_ok_def rr_ok_def buckets_ok_def)
  moreover have "tree_total (cfs_tree (cfs_q st)) = cfs_count (cfs_q st)"
    "tree_total (cfs_tree (batch_q st)) = cfs_count (batch_q st)"
    "tree_total (cfs_tree (idle_q st)) = cfs_count (idle_q st)"
    "om_ok (cfs_tree (cfs_q st))" "om_ok (cfs_tree (batch_q st))" "om_ok (cfs_tree (idle_q st))"
    using cpu_okD(3-5) [OF assms] by (auto simp: cfs_ok_def)
  ultimately show ?thesis
    by (simp add: cpu_load_def ready_mset_parts bucket_size cfs_size)
qed

lemma load_bound:
  assumes "sys_glob K s" "c < length (ms_cpus s)"
  shows "cpu_load (ms_cpus s ! c) < usize_max" "has_room (ms_cpus s ! c)"
proof -
  note G = sys_globD [OF assms(1)] and b = ready_bound [OF assms]
  have ok: "cpu_ok (ms_cpus s ! c)" using cpu_wfD(1) [OF G(6) [OF assms(2)]] .
  show "cpu_load (ms_cpus s ! c) < usize_max"
    using cpu_load_size [OF ok] b G(2) by simp
  show "has_room (ms_cpus s ! c)" using ready_size [OF ok] b G(2) by simp
qed

section \<open>The ring scan\<close>

definition usable :: "cpu_mask \<Rightarrow> cpu_state list \<Rightarrow> nat \<Rightarrow> bool" where
  "usable aff cpus c \<longleftrightarrow> c < length cpus \<and> online (cpus ! c) \<and> mask_contains aff c"

definition seen :: "cpu_mask \<Rightarrow> cpu_state list \<Rightarrow> nat \<Rightarrow> nat list \<Rightarrow> nat set" where
  "seen aff cpus base offs =
     {c. usable aff cpus c \<and> (\<exists>k \<in> set offs. c = (base + k) mod length cpus)}"

lemma seen_simps:
  "seen aff cpus base [] = {}"
  "usable aff cpus ((base + k) mod length cpus) \<Longrightarrow>
     seen aff cpus base (k # offs) = insert ((base + k) mod length cpus) (seen aff cpus base offs)"
  "\<not> usable aff cpus ((base + k) mod length cpus) \<Longrightarrow> seen aff cpus base (k # offs) = seen aff cpus base offs"
  by (auto simp: seen_def)

lemma ring_scan_spec:
  assumes "cpus \<noteq> []" and "best = None \<and> min_load = usize_max \<or> best \<noteq> None \<and> min_load = cpu_load (cpus ! the best)"
    and "\<And>c. usable aff cpus c \<Longrightarrow> cpu_load (cpus ! c) < usize_max"
  shows "case ring_scan aff cpus base offs best min_load of
      None \<Rightarrow> best = None \<and> seen aff cpus base offs = {}
    | Some c \<Rightarrow> (best = Some c \<or> c \<in> seen aff cpus base offs) \<and> cpu_load (cpus ! c) \<le> min_load \<and>
        (\<forall>d \<in> seen aff cpus base offs. cpu_load (cpus ! c) \<le> cpu_load (cpus ! d))"
  using assms(2)
proof (induction offs arbitrary: best min_load)
  case Nil
  then show ?case by (cases best) (auto simp: seen_simps)
next
  case (Cons k offs)
  let ?i = "(base + k) mod length cpus" and ?S = "seen aff cpus base"
  have i: "?i < length cpus" using assms(1) by simp
  show ?case
  proof (cases "usable aff cpus ?i \<and> cpu_load (cpus ! ?i) < min_load")
    case True
    then have e: "ring_scan aff cpus base (k # offs) best min_load =
        ring_scan aff cpus base offs (Some ?i) (cpu_load (cpus ! ?i))"
      by (simp add: usable_def Let_def)
    have "case ring_scan aff cpus base offs (Some ?i) (cpu_load (cpus ! ?i)) of
        None \<Rightarrow> Some ?i = None \<and> ?S offs = {}
      | Some c \<Rightarrow> (Some ?i = Some c \<or> c \<in> ?S offs) \<and> cpu_load (cpus ! c) \<le> cpu_load (cpus ! ?i) \<and>
          (\<forall>d \<in> ?S offs. cpu_load (cpus ! c) \<le> cpu_load (cpus ! d))"
      by (rule Cons.IH) simp
    with True show ?thesis
      unfolding e seen_simps(2) [OF conjunct1 [OF True]] by (auto split: option.splits)
  next
    case False
    then have e: "ring_scan aff cpus base (k # offs) best min_load = ring_scan aff cpus base offs best min_load"
      using i by (auto simp: usable_def Let_def)
    have bound: "best \<noteq> None \<and> min_load \<le> cpu_load (cpus ! ?i)" if "usable aff cpus ?i"
      using False that assms(3) [OF that] Cons.prems by auto
    note IH = Cons.IH [OF Cons.prems]
    show ?thesis
    proof (cases "usable aff cpus ?i")
      case True
      with IH bound show ?thesis
        unfolding e seen_simps(2) [OF True] by (auto split: option.splits)
    next
      case False
      with IH show ?thesis unfolding e seen_simps(3) [OF False] by simp
    qed
  qed
qed

lemma ring_covers:
  fixes n :: nat
  assumes "c < n"
  shows "\<exists>k \<in> set [0..<n]. c = (base + k) mod n"
proof -
  let ?k = "(c + (n - base mod n)) mod n"
  have "base mod n < n" using assms by simp
  then have e: "base + (c + (n - base mod n)) = c + n + (base div n) * n"
    using div_mult_mod_eq [of base n] by linarith
  have "(base + ?k) mod n = (base + (c + (n - base mod n))) mod n" by (rule mod_add_right_eq)
  also have "\<dots> = (c + n + (base div n) * n) mod n" by (simp only: e)
  also have "\<dots> = c" using assms by (metis mod_add_self2 mod_less mod_mult_self1)
  finally show ?thesis using assms by (intro bexI [of _ ?k]) auto
qed

lemma pick_least_loaded_spec:
  assumes g: "sys_glob K s" and u: "usable aff (ms_cpus s) d"
  shows "\<exists>c. pick_least_loaded aff s = Some (c, s\<lparr>next_placement_cpu := (c + 1) mod length (ms_cpus s)\<rparr>) \<and>
    usable aff (ms_cpus s) c \<and>
    (\<forall>d. usable aff (ms_cpus s) d \<longrightarrow> cpu_load (ms_cpus s ! c) \<le> cpu_load (ms_cpus s ! d))"
proof -
  let ?cs = "ms_cpus s" and ?b = "next_placement_cpu s"
  have ne: "?cs \<noteq> []" using u by (auto simp: usable_def)
  have all: "seen aff ?cs ?b [0..<length ?cs] = {c. usable aff ?cs c}"
    using ring_covers [of _ "length ?cs" ?b] by (auto simp: seen_def usable_def)
  have "case ring_scan aff ?cs ?b [0..<length ?cs] None usize_max of
      None \<Rightarrow> (None :: nat option) = None \<and> {c. usable aff ?cs c} = {}
    | Some c \<Rightarrow> ((None :: nat option) = Some c \<or> c \<in> {c. usable aff ?cs c}) \<and> cpu_load (?cs ! c) \<le> usize_max \<and>
        (\<forall>d \<in> {c. usable aff ?cs c}. cpu_load (?cs ! c) \<le> cpu_load (?cs ! d))"
    using ring_scan_spec [OF ne, of None usize_max aff ?b "[0..<length ?cs]"] load_bound(1) [OF g]
    unfolding all by (auto simp: usable_def)
  with u show ?thesis
    by (auto simp: pick_least_loaded_def split: option.splits)
qed

lemma overloaded_total: "c < length (ms_cpus s) \<Longrightarrow> \<exists>b. cpu_is_overloaded c s = Some b"
  by (simp add: cpu_is_overloaded_def cpu_at_def Let_def)

lemma tcb_fit_usable: "tcb_fit K s T \<Longrightarrow> \<exists>c. usable (tc_affinity T) (ms_cpus s) c"
  by (auto simp: tcb_fit_def usable_def is_online_def)

lemma pick_ready_cpu_spec:
  assumes g: "sys_glob K s" and T: "task s t = Some T"
  shows "\<exists>c k. pick_ready_cpu t p s = Some (c, s\<lparr>next_placement_cpu := k\<rparr>) \<and>
    usable (tc_affinity T) (ms_cpus s) c \<and>
    (if p = Prefer c \<or> p = LastCpu \<and> tc_last_cpu T = Some c \<and> cpu_is_overloaded c s = Some False then True
     else \<forall>d. usable (tc_affinity T) (ms_cpus s) d \<longrightarrow> cpu_load (ms_cpus s ! c) \<le> cpu_load (ms_cpus s ! d)) \<and>
    (\<forall>d. p = Prefer d \<longrightarrow> usable (tc_affinity T) (ms_cpus s) d \<longrightarrow> c = d)"
proof -
  have fit: "tcb_fit K s T" using sys_globD(9) [OF g T] .
  have snap: "reg_task_snapshot (ms_reg s) t = Some (tcb_snapshot T)"
    using T by (simp add: reg_task_snapshot_def task_def)
  obtain d where "usable (tc_affinity T) (ms_cpus s) d" using tcb_fit_usable [OF fit] by blast
  note least = pick_least_loaded_spec [OF g this]
  have keep: "s = s\<lparr>next_placement_cpu := next_placement_cpu s\<rparr>" by simp
  have pref: "\<exists>r. preferred_cpu (tcb_snapshot T) p s = Some r \<and>
      (\<forall>c. r = Some c \<longrightarrow> p = Prefer c \<or> p = LastCpu \<and> tc_last_cpu T = Some c \<and> cpu_is_overloaded c s = Some False) \<and>
      (\<forall>c. p = Prefer c \<longrightarrow> r = Some c)"
  proof (cases p)
    case LastCpu
    show ?thesis
    proof (cases "tc_last_cpu T")
      case (Some c)
      then have "c < length (ms_cpus s)" using fit by (simp add: tcb_fit_def)
      with overloaded_total obtain b where "cpu_is_overloaded c s = Some b" by blast
      with LastCpu Some show ?thesis by (cases b) (simp_all add: preferred_cpu_def tcb_snapshot_def)
    qed (simp add: LastCpu preferred_cpu_def tcb_snapshot_def)
  qed (simp_all add: preferred_cpu_def)
  then obtain r where r: "preferred_cpu (tcb_snapshot T) p s = Some r"
    "\<And>c. r = Some c \<Longrightarrow> p = Prefer c \<or> p = LastCpu \<and> tc_last_cpu T = Some c \<and> cpu_is_overloaded c s = Some False"
    "\<And>c. p = Prefer c \<Longrightarrow> r = Some c" by blast
  have aff: "snap_affinity (tcb_snapshot T) = tc_affinity T" by (simp add: tcb_snapshot_def)
  show ?thesis
  proof (cases "\<exists>c. r = Some c \<and> usable (tc_affinity T) (ms_cpus s) c")
    case True
    then obtain c where c: "r = Some c" "usable (tc_affinity T) (ms_cpus s) c" by blast
    then have "pick_ready_cpu t p s = Some (c, s\<lparr>next_placement_cpu := next_placement_cpu s\<rparr>)"
      using snap r(1) by (simp add: pick_ready_cpu_def aff usable_def)
    with c r(2) [OF c(1)] r(3) show ?thesis by fastforce
  next
    case False
    then have "pick_ready_cpu t p s = pick_least_loaded (tc_affinity T) s"
      using snap r(1) by (auto simp: pick_ready_cpu_def aff usable_def split: option.splits)
    with least False r(3) show ?thesis by fastforce
  qed
qed

section \<open>Requests\<close>

lemma mask_insert_total: "c < 64 \<Longrightarrow> \<exists>m'. mask_insert c m = Some m'"
  by (simp add: mask_insert_def)

text \<open>What a request changes is no part of the consistency.\<close>

definition requested :: "mcs \<Rightarrow> mcs \<Rightarrow> bool" where
  "requested s s' \<longleftrightarrow> ms_reg s' = ms_reg s \<and> ms_wait s' = ms_wait s \<and> same_cpus s s' \<and>
     (\<forall>t. same_task s s' t) \<and> (\<forall>K E X. sys_inv K E X s \<longrightarrow> sys_inv K E X s')"

lemma requested_refl [simp]: "requested s s"
  by (simp add: requested_def)

lemma mark_need_resched_spec:
  assumes g: "sys_glob K s" and c: "c < length (ms_cpus s)"
  shows "\<exists>s'. mark_need_resched c s = Some s' \<and> requested s s'"
proof -
  let ?st = "ms_cpus s ! c" and ?st' = "(ms_cpus s ! c)\<lparr>need_resched := True\<rparr>"
  obtain m where m: "mask_insert c (pending_cpus s) = Some m"
    using mask_insert_total [of c] c sys_globD(5) [OF g] by fastforce
  have r: "ready_mset ?st' = ready_mset ?st" "cpu_ok ?st' = cpu_ok ?st" by (rule ready_mset_queues; simp)+
  have wf: "cpu_wf c ?st'" using sys_globD(6) [OF g c] by (simp add: cpu_wf_def r)
  let ?s = "put_cpu c ?st' s"
  have cu: "current_task_id ?st' = current_task_id ?st" by (simp add: current_task_id_def)
  have i: "sys_inv K E X ?s" if "sys_inv K E X s" for K E X
    by (rule put_cpu_inv [OF that c wf])
      (use r(1) cu sys_globD(8) [OF g] c in \<open>auto simp: on_queue_def on_cpu_def defers_def\<close>)
  have t: "same_task s ?s t" for t
    by (rule put_cpu_same_task [OF c]) (simp_all add: r(1) cu)
  have sc: "same_cpus s ?s" by (rule put_cpu_same_cpus [OF c]) simp_all
  let ?s' = "?s\<lparr>pending_cpus := m\<rparr>"
  have k: "sys_inv K E X ?s' = sys_inv K E X ?s" "same_task ?s ?s' t" "same_cpus ?s ?s'" for K E X t
    by (rule sys_inv_cong; simp)+
  have "requested s ?s'"
    using i t sc k same_trans(1) [OF sc k(3)] same_trans(2) [OF t k(2)] by (simp add: requested_def)
  then show ?thesis using m c by (simp add: mark_need_resched_def cpu_at_def)
qed

lemma request_reschedule_spec:
  assumes "sys_glob K s" "c < length (ms_cpus s)"
  shows "\<exists>s'. request_reschedule c cause s = Some s' \<and> requested s s'"
  using mark_need_resched_spec [OF assms] assms(2)
  by (auto simp: request_reschedule_def cpu_at_def)

section \<open>Placing a task\<close>

text \<open>A task that may become ready: it waits nowhere, and it does not run where others could see it.\<close>

definition dormant :: "nat set \<Rightarrow> mcs \<Rightarrow> task_id \<Rightarrow> tcb \<Rightarrow> bool" where
  "dormant E s t T \<longleftrightarrow> task s t = Some T \<and> \<not> tcb_is_idle T \<and>
     (\<forall>c. on_queue s t c \<longrightarrow> tc_ready_cpu T = Some c) \<and>
     (\<forall>c. tc_ready_cpu T = Some c \<longrightarrow> c < length (ms_cpus s)) \<and>
     (\<forall>c. \<not> defers s t c) \<and> (\<forall>c. c \<notin> E \<longrightarrow> \<not> on_cpu s t c) \<and>
     (\<forall>x. \<not> waits s t x) \<and> \<not> sleeps s t \<and> \<not> in_exited s t"

definition may_publish :: "mcs \<Rightarrow> task_id \<Rightarrow> tcb \<Rightarrow> nat \<Rightarrow> bool" where
  "may_publish s t T c \<longleftrightarrow>
     (\<forall>r. tc_running_cpu T = Some r \<longrightarrow> r < length (ms_cpus s) \<and> (on_cpu s t r \<longrightarrow> r = c))"

text \<open>The state after one task has been placed: every other task is as it was.\<close>

definition placed :: "task_id \<Rightarrow> nat \<Rightarrow> mcs \<Rightarrow> mcs \<Rightarrow> bool" where
  "placed t c s s' \<longleftrightarrow> same_cpus s s' \<and> ms_wait s' = ms_wait s \<and> on_cpu s' = on_cpu s \<and>
     defers s' = defers s \<and> (\<forall>u. u \<noteq> t \<longrightarrow> same_task s s' u) \<and> on_queue s' t = (\<lambda>d. d = c) \<and>
     (\<exists>T v. task s t = Some T \<and> task s' t = Some (mark_ready c (T\<lparr>tc_vruntime := v\<rparr>)))"

lemma placed_ok:
  assumes inv: "sys_inv K E X s'" and p: "placed t c s s'" and d: "dormant E s t T"
    and u: "usable (tc_affinity T) (ms_cpus s) c"
  shows "sys_inv K E (X - {t}) s'"
proof -
  obtain v where T': "task s' t = Some (mark_ready c (T\<lparr>tc_vruntime := v\<rparr>))"
    using p d by (auto simp: placed_def dormant_def)
  have w: "waits s' = waits s" "sleeps s' = sleeps s" "in_exited s' = in_exited s"
    using wait_cong [of s' s] p by (simp_all add: placed_def)
  have on: "is_online s' = is_online s" using p by (simp add: placed_def same_cpus_def)
  have "task_ok E s' t"
    using p d u unfolding task_ok_def T'
    by (auto simp: live_ok_def placed_def dormant_def mark_ready_def tcb_is_idle_def w on usable_def is_online_def)
  with sys_inv_close [OF inv, of t] show ?thesis by simp
qed

lemma clear_old_queue_spec:
  assumes inv: "sys_inv K E X s" and t: "t \<in> X" and d: "dormant E s t T"
  shows "\<exists>s'. clear_old_queue t s = Some s' \<and> sys_inv K E X s' \<and> same_cpus s s' \<and> ms_wait s' = ms_wait s \<and>
    ms_reg s' = ms_reg s \<and> on_cpu s' = on_cpu s \<and> defers s' = defers s \<and> (\<forall>u. u \<noteq> t \<longrightarrow> same_task s s' u) \<and>
    (\<forall>c. \<not> on_queue s' t c)"
proof -
  have T: "reg_get (ms_reg s) t = Some T" using d by (simp add: dormant_def task_def)
  show ?thesis
  proof (cases "tc_ready_cpu T")
    case None
    with d inv T show ?thesis by (auto simp: clear_old_queue_def reg_ready_cpu_def dormant_def)
  next
    case (Some c)
    with d have c: "c < length (ms_cpus s)" by (simp add: dormant_def)
    note g = sys_globD [OF sys_invD(1) [OF inv]]
    let ?st = "ms_cpus s ! c" and ?s = "put_cpu c (cpu_dequeue t (ms_cpus s ! c)) s"
    have ok: "cpu_ok ?st" by (rule cpu_wfD(1) [OF g(6) [OF c]])
    note r = ready_dequeue [OF ok, of t]
    have k: "current_snapshot (cpu_dequeue t ?st) = current_snapshot ?st"
      "idle_task_id (cpu_dequeue t ?st) = idle_task_id ?st" "online (cpu_dequeue t ?st) = online ?st"
      "deferred_ready (cpu_dequeue t ?st) = deferred_ready ?st" "cs_cpu_id (cpu_dequeue t ?st) = cs_cpu_id ?st"
      by (simp_all add: cpu_dequeue_def)
    then have cu: "current_task_id (cpu_dequeue t ?st) = current_task_id ?st" by (simp add: current_task_id_def)
    have wf: "cpu_wf c (cpu_dequeue t ?st)"
      using g(6) [OF c] r by (simp add: cpu_wf_def k)
    have cl: "clear_old_queue t s = Some ?s"
      using T Some c by (simp add: clear_old_queue_def reg_ready_cpu_def cpu_at_def)
    have p: "sys_inv K E X ?s"
      by (rule put_cpu_inv [OF inv c wf])
        (use t g(8) c k cu in \<open>auto simp: r on_queue_def on_cpu_def defers_def\<close>)
    have sc: "same_cpus s ?s" by (rule put_cpu_same_cpus [OF c]) (simp_all add: k)
    have "same_task s ?s u" if "u \<noteq> t" for u
      by (rule put_cpu_same_task [OF c]) (use that k cu r in simp_all)
    moreover have "on_cpu ?s = on_cpu s" "defers ?s = defers s"
      using c k cu by (simp_all add: fun_eq_iff put_cpu_obs) (simp_all add: on_cpu_def defers_def)
    moreover have "\<not> on_queue ?s t e" for e
      using d Some by (auto simp: put_cpu_obs(1) [OF c] r dormant_def)
    ultimately show ?thesis using cl p sc by simp
  qed
qed

lemma cpu_enqueue_fields:
  assumes "cpu_enqueue t snap st = Some st'"
  shows "current_snapshot st' = current_snapshot st" "idle_task_id st' = idle_task_id st"
    "online st' = online st" "deferred_ready st' = deferred_ready st" "cs_cpu_id st' = cs_cpu_id st"
    "current_task_id st' = current_task_id st"
  using assms by (auto simp: cpu_enqueue_def current_task_id_def split: sched_policy.splits)

lemma snapshot_fields [simp]:
  "snap_policy (tcb_snapshot T) = tc_policy T" "snap_priority (tcb_snapshot T) = tc_priority T"
  "snap_vruntime (tcb_snapshot T) = tc_vruntime T" "snap_id (tcb_snapshot T) = tc_id T"
  "snap_nice (tcb_snapshot T) = tc_nice T" "snap_running_cpu (tcb_snapshot T) = tc_running_cpu T"
  "snap_ready_cpu (tcb_snapshot T) = tc_ready_cpu T" "snap_state (tcb_snapshot T) = tc_state T"
  "snap_parent (tcb_snapshot T) = tc_parent T" "snap_task_cx (tcb_snapshot T) = tc_cx T"
  "snap_affinity (tcb_snapshot T) = tc_affinity T" "snap_last_cpu (tcb_snapshot T) = tc_last_cpu T"
  by (simp_all add: tcb_snapshot_def)

lemma put_reg_twice [simp]: "put_reg r (put_reg r' s) = put_reg r s" "put_reg (ms_reg s) s = s"
  by (simp_all add: put_reg_def)

lemma publish_total:
  assumes "task s t = Some T" "may_publish s t T c"
  shows "publish_ok t c s = Some ()"
  using assms
  by (auto simp: publish_ok_def reg_running_cpu_def task_def may_publish_def assert_that_def cpu_at_def
      on_cpu_def split: option.split)

text \<open>The virtual runtime the target CPU sees, written back before the task is placed.\<close>

lemma normalize_spec:
  assumes inv: "sys_inv K E X s" and t: "t \<in> X" and T: "task s t = Some T"
  shows "\<exists>v r. (case normalize_vruntime (snap_vruntime (tcb_snapshot T)) (snap_policy (tcb_snapshot T)) st of
        None \<Rightarrow> Some (tcb_snapshot T, ms_reg s)
      | Some v \<Rightarrow> map_option (\<lambda>r. ((tcb_snapshot T)\<lparr>snap_vruntime := v\<rparr>, r)) (reg_set_vruntime t v (ms_reg s))) =
      Some ((tcb_snapshot T)\<lparr>snap_vruntime := v\<rparr>, r) \<and>
    sys_inv K E X (put_reg r s) \<and> task (put_reg r s) = (task s)(t \<mapsto> T\<lparr>tc_vruntime := v\<rparr>)"
proof (cases "normalize_vruntime (snap_vruntime (tcb_snapshot T)) (snap_policy (tcb_snapshot T)) st")
  case None
  have "(tcb_snapshot T)\<lparr>snap_vruntime := tc_vruntime T\<rparr> = tcb_snapshot T" by (simp add: tcb_snapshot_def)
  moreover have "task s = (task s)(t \<mapsto> T\<lparr>tc_vruntime := tc_vruntime T\<rparr>)" using T by (simp add: fun_eq_iff)
  ultimately show ?thesis
    unfolding None using inv by (intro exI [of _ "tc_vruntime T"] exI [of _ "ms_reg s"]) simp
next
  case (Some v)
  have "cosmetic T (T\<lparr>tc_vruntime := v\<rparr>)" by (simp add: cosmetic_def)
  note c = cosmetic_inv [OF inv T this]
  have "reg_set_vruntime t v (ms_reg s) = Some (reg_put t (T\<lparr>tc_vruntime := v\<rparr>) (ms_reg s))"
    using T by (simp add: reg_set_vruntime_def reg_expect_def task_def)
  with c Some show ?thesis by auto
qed

lemma mark_ready_fit:
  assumes "tcb_ok T" "tcb_fit K s T"
  shows "tcb_ok (mark_ready c T)" "tcb_is_idle (mark_ready c T) = tcb_is_idle T" "tc_id (mark_ready c T) = tc_id T"
    "tcb_fit K s (mark_ready c T)"
  using assms by (auto simp: mark_ready_def tcb_ok_def tcb_is_idle_def tcb_fit_def is_exited_def)

lemma task_tcb_ok: "sys_glob K s \<Longrightarrow> task s t = Some T \<Longrightarrow> tcb_ok T \<and> tc_id T = t"
  using sys_globD(1) [of K s] by (auto simp: reg_ok_def task_def)

lemma enqueue_ready_spec:
  assumes inv: "sys_inv K E X s" and t: "t \<in> X" and d: "dormant E s t T" and pub: "may_publish s t T c"
    and u: "usable (tc_affinity T) (ms_cpus s) c"
  shows "\<exists>s'. enqueue_ready_on_cpu t c s = Some s' \<and> sys_inv K E (X - {t}) s' \<and> placed t c s s'"
proof -
  have T: "task s t = Some T" and live: "\<not> tcb_is_idle T" using d by (simp_all add: dormant_def)
  have c: "c < length (ms_cpus s)" "online (ms_cpus s ! c)" "mask_contains (tc_affinity T) c"
    using u by (simp_all add: usable_def)
  note G = sys_globD [OF sys_invD(1) [OF inv]]
  have notidle: "Some t \<noteq> idle_task_id (ms_cpus s ! c)"
    using G(7) [of t c] T live c(1) by (auto simp: idle_of_def)
  obtain s1 where s1: "clear_old_queue t s = Some s1" "sys_inv K E X s1" "same_cpus s s1" "ms_wait s1 = ms_wait s"
    "ms_reg s1 = ms_reg s" "on_cpu s1 = on_cpu s" "defers s1 = defers s" "\<forall>u. u \<noteq> t \<longrightarrow> same_task s s1 u"
    "\<forall>c. \<not> on_queue s1 t c"
    using clear_old_queue_spec [OF inv t d] by blast
  have c1: "c < length (ms_cpus s1)" using c(1) s1(3) by (simp add: same_cpus_def)
  have T1: "task s1 t = Some T" using T s1(5) by (simp add: task_def)
  let ?st = "ms_cpus s1 ! c"
  obtain v r where r: "(case normalize_vruntime (snap_vruntime (tcb_snapshot T)) (snap_policy (tcb_snapshot T)) ?st of
        None \<Rightarrow> Some (tcb_snapshot T, ms_reg s1)
      | Some v \<Rightarrow> map_option (\<lambda>r. ((tcb_snapshot T)\<lparr>snap_vruntime := v\<rparr>, r)) (reg_set_vruntime t v (ms_reg s1))) =
      Some ((tcb_snapshot T)\<lparr>snap_vruntime := v\<rparr>, r)"
    "sys_inv K E X (put_reg r s1)" "task (put_reg r s1) = (task s1)(t \<mapsto> T\<lparr>tc_vruntime := v\<rparr>)"
    using normalize_spec [OF s1(2) t T1, of ?st] by blast
  let ?T = "T\<lparr>tc_vruntime := v\<rparr>" and ?s2 = "put_reg r s1"
  have T2: "task ?s2 t = Some ?T" using r(3) by simp
  note g2 = sys_invD(1) [OF r(2)]
  note mf = mark_ready_fit [OF conjunct1 [OF task_tcb_ok [OF g2 T2]] sys_globD(9) [OF g2 T2], of c]
  have reg: "reg_mark_ready t c r = reg_put t (mark_ready c ?T) (ms_reg ?s2)"
    using T2 by (simp add: reg_mark_ready_def reg_modify_def task_def)
  let ?s3 = "put_reg (reg_mark_ready t c r) s1"
  have s3: "sys_inv K E X ?s3" "task ?s3 = (task s1)(t \<mapsto> mark_ready c ?T)"
    using put_task_inv [OF r(2) T2 t mf(1) _ mf(2,4)] mf(3) task_tcb_ok [OF g2 T2] r(3)
    unfolding reg by simp_all
  let ?snap = "(tcb_snapshot T)\<lparr>snap_vruntime := v\<rparr>"
  have wf: "cpu_wf c ?st" by (rule sys_globD(6) [OF sys_invD(1) [OF s1(2)] c1])
  have "has_room ?st" by (rule load_bound(2) [OF sys_invD(1) [OF s1(2)] c1])
  moreover have "validate_policy_param (snap_policy ?snap) (snap_priority ?snap) = Inr ()"
    using G(9) [OF T] by (simp add: tcb_fit_def)
  ultimately obtain st' where st': "cpu_enqueue t ?snap ?st = Some st'" "cpu_ok st'"
    "ready_mset st' = add_mset t (ready_mset ?st)"
    by (rule ready_enqueue [OF cpu_wfD(1) [OF wf]])
  note f = cpu_enqueue_fields [OF st'(1)]
  let ?s4 = "put_cpu c st' ?s3"
  have absent: "count (ready_mset ?st) t = 0" using s1(9) c1 by (auto simp: on_queue_def count_eq_zero_iff)
  have wf': "cpu_wf c st'" using wf st' absent by (auto simp: cpu_wf_def f)
  have c3: "c < length (ms_cpus ?s3)" using c1 by simp
  have run: "enqueue_ready_on_cpu t c s = Some ?s4"
    using c notidle T s1(1,5) r(1) st'(1) publish_total [OF T pub] c1
    by (simp add: enqueue_ready_on_cpu_def cpu_at_def assert_that_def reg_get_affinity_def task_def
        reg_task_snapshot_def)
  have queued: "\<exists>T. task ?s3 u = Some T \<and> \<not> tcb_is_idle T" if "u \<in># ready_mset st'" for u
  proof (cases "u = t")
    case True
    then show ?thesis using s3(2) live by (simp add: mark_ready_def tcb_is_idle_def)
  next
    case False
    with that have "on_queue ?s3 u c" using c1 st'(3) by (simp add: on_queue_def)
    then show ?thesis by (rule sys_globD(8) [OF sys_invD(1) [OF s3(1)]])
  qed
  have inv4: "sys_inv K E X ?s4"
    by (rule put_cpu_inv [OF s3(1) c3 wf'])
      (use t f queued st'(3) c1 in \<open>auto simp: on_queue_def on_cpu_def defers_def\<close>)
  have "placed t c s ?s4"
  proof -
    have sc: "same_cpus s ?s4"
      using same_trans(1) [OF same_trans(1) [OF s1(3) put_reg_same] put_cpu_same_cpus [OF c3]] f by simp
    have other: "same_task s ?s4 u" if "u \<noteq> t" for u
    proof -
      have "same_task ?s3 ?s4 u"
        by (rule put_cpu_same_task [OF c3]) (use that f st'(3) in simp_all)
      moreover have "same_task s1 ?s3 u" using that s3(2) by (simp add: same_task_def)
      ultimately show ?thesis using s1(8) that same_trans(2) by blast
    qed
    have "on_cpu ?s4 = on_cpu s" "defers ?s4 = defers s"
      using c3 f s1(6,7) by (simp_all add: fun_eq_iff put_cpu_obs(2,3)) (metis on_cpu_def defers_def c1)+
    moreover have "on_queue ?s4 t = (\<lambda>d. d = c)"
      using s1(9) st'(3) by (simp add: fun_eq_iff put_cpu_obs(1) [OF c3])
    ultimately show ?thesis
      using sc other s1(4) T s3(2) c3 by (auto simp: placed_def put_cpu_obs(6))
  qed
  with run placed_ok [OF inv4 this d u] show ?thesis by blast
qed

text \<open>Activation may choose any usable CPU; only a task that still runs must stay on its CPU.\<close>

definition may_activate :: "mcs \<Rightarrow> task_id \<Rightarrow> tcb \<Rightarrow> ready_placement \<Rightarrow> bool" where
  "may_activate s t T p \<longleftrightarrow>
     (\<forall>r. tc_running_cpu T = Some r \<longrightarrow> r < length (ms_cpus s) \<and>
        (on_cpu s t r \<longrightarrow> p = Prefer r \<and> usable (tc_affinity T) (ms_cpus s) r))"

lemma placed_requested:
  assumes p: "placed t c s s1" and q: "requested s1 s2"
  shows "placed t c s s2"
proof -
  have st: "same_task s1 s2 u" "same_cpus s1 s2" for u using q by (simp_all add: requested_def)
  have o: "on_cpu s2 = on_cpu s1" "defers s2 = defers s1" "on_queue s2 = on_queue s1" "task s2 = task s1"
    using st(1) by (simp_all add: same_task_def fun_eq_iff)
  have "same_task s s2 u" if "u \<noteq> t" for u
    using p that same_trans(2) [OF _ st(1)] by (simp add: placed_def)
  moreover have "same_cpus s s2" using p same_trans(1) [OF _ st(2)] by (simp add: placed_def)
  ultimately show ?thesis
    using p q by (simp add: placed_def o) (simp add: requested_def)
qed

lemma activate_spec:
  assumes inv: "sys_inv K E X s" and t: "t \<in> X" and d: "dormant E s t T" and pub: "may_activate s t T p"
  shows "\<exists>s' c. activate_ready_task t p s = Some (c, s') \<and> sys_inv K E (X - {t}) s' \<and> placed t c s s' \<and>
    usable (tc_affinity T) (ms_cpus s) c"
proof -
  have T: "task s t = Some T" using d by (simp add: dormant_def)
  obtain c k where c: "pick_ready_cpu t p s = Some (c, s\<lparr>next_placement_cpu := k\<rparr>)"
    "usable (tc_affinity T) (ms_cpus s) c"
    "\<forall>d. p = Prefer d \<longrightarrow> usable (tc_affinity T) (ms_cpus s) d \<longrightarrow> c = d"
    using pick_ready_cpu_spec [OF sys_invD(1) [OF inv] T, of p] by blast
  let ?s = "s\<lparr>next_placement_cpu := k\<rparr>"
  have inv': "sys_inv K E X ?s" using inv sys_inv_cong(1) [of ?s s K E X] by simp
  have e: "task ?s = task s" "on_queue ?s = on_queue s" "on_cpu ?s = on_cpu s" "defers ?s = defers s"
    "waits ?s = waits s" "sleeps ?s = sleeps s" "in_exited ?s = in_exited s" "idle_of ?s = idle_of s"
    "is_online ?s = is_online s"
    using obs_cong [of ?s s] wait_cong [of ?s s] by (simp_all add: task_def fun_eq_iff)
  have "dormant E ?s t T" "may_publish ?s t T c"
    using d pub c(2,3) by (auto simp: dormant_def may_publish_def may_activate_def e)
  from enqueue_ready_spec [OF inv' t this] c(2) obtain s1 where
    s1: "enqueue_ready_on_cpu t c ?s = Some s1" "sys_inv K E (X - {t}) s1" "placed t c ?s s1" by auto
  have p1: "placed t c s s1"
    using s1(3) by (simp add: placed_def same_cpus_def same_task_def e)
  then obtain v where T1: "task s1 t = Some (mark_ready c (T\<lparr>tc_vruntime := v\<rparr>))"
    using T by (auto simp: placed_def)
  have "c < length (ms_cpus s1)" using p1 c(2) by (simp add: placed_def same_cpus_def usable_def)
  from request_reschedule_spec [OF sys_invD(1) [OF s1(2)] this] obtain s2 where
    s2: "request_reschedule c (CauseReady (tc_policy (mark_ready c (T\<lparr>tc_vruntime := v\<rparr>)))) s1 = Some s2"
    "requested s1 s2" by blast
  have "activate_ready_task t p s = Some (c, s2)"
    using c(1) s1(1) s2(1) T1 by (simp add: activate_ready_task_def reg_task_snapshot_def task_def)
  moreover have "sys_inv K E (X - {t}) s2" using s2(2) s1(2) by (simp add: requested_def)
  ultimately show ?thesis using placed_requested [OF p1 s2(2)] c(2) by blast
qed

lemma activate_keeps:
  assumes "sys_inv K E X s" "t \<in> X" "dormant E s t T" "may_activate s t T p"
  shows "\<exists>s' c. activate t p s = Some s' \<and> sys_inv K E (X - {t}) s' \<and> placed t c s s'"
  using activate_spec [OF assms] by (auto simp: activate_def)

end
