(* ===== verification/Multi_Wake.thy ===== *)
theory Multi_Wake
  imports Multi_Place
begin

text \<open>
  Ends of waits: the tasks that leave the wait queues become ready one after the other, which no
  other task notices. Every such operation of the scheduler is total under the invariant and
  keeps it.
\<close>

section \<open>Several tasks moved\<close>

definition moved :: "task_id set \<Rightarrow> mcs \<Rightarrow> mcs \<Rightarrow> bool" where
  "moved A s s' \<longleftrightarrow> same_cpus s s' \<and> ms_wait s' = ms_wait s \<and> on_cpu s' = on_cpu s \<and>
     defers s' = defers s \<and> (\<forall>u. u \<notin> A \<longrightarrow> same_task s s' u)"

lemma moved_refl [simp]: "moved A s s"
  by (simp add: moved_def)

lemma moved_trans:
  assumes "moved A s s'" "moved B s' s''"
  shows "moved (A \<union> B) s s''"
  using assms same_trans(1) [of s s' s''] same_trans(2) [of s s' _ s''] by (simp add: moved_def)

lemma moved_mono: "moved A s s' \<Longrightarrow> A \<subseteq> B \<Longrightarrow> moved B s s'"
  by (auto simp: moved_def)

lemma movedD:
  assumes "moved A s s'"
  shows "same_cpus s s'" "ms_wait s' = ms_wait s" "on_cpu s' = on_cpu s" "defers s' = defers s"
    "u \<notin> A \<Longrightarrow> same_task s s' u"
  using assms by (simp_all add: moved_def)

lemma placed_moved: "placed t c s s' \<Longrightarrow> moved {t} s s'"
  by (simp add: placed_def moved_def)

text \<open>A task that is ready, in the queue of exactly one CPU.\<close>

definition readied :: "task_id \<Rightarrow> mcs \<Rightarrow> bool" where
  "readied t s \<longleftrightarrow> (\<exists>c T. task s t = Some T \<and> tc_state T = Ready \<and> tc_ready_cpu T = Some c \<and>
     on_queue s t = (\<lambda>d. d = c))"

lemma readied_moved: "readied t s \<Longrightarrow> moved A s s' \<Longrightarrow> t \<notin> A \<Longrightarrow> readied t s'"
  by (simp add: readied_def moved_def same_task_def)

lemma placed_readied: "placed t c s s' \<Longrightarrow> readied t s'"
  by (auto simp: placed_def readied_def mark_ready_def)

text \<open>A task that waits nowhere, runs nowhere and may be placed on any CPU.\<close>

definition resting :: "nat set \<Rightarrow> mcs \<Rightarrow> task_id \<Rightarrow> bool" where
  "resting E s t \<longleftrightarrow> (\<exists>T. dormant E s t T \<and> tc_running_cpu T = None)"

lemma dormant_same: "same_cpus s s' \<Longrightarrow> same_task s s' t \<Longrightarrow> dormant E s' t T = dormant E s t T"
  by (simp add: same_task_def same_cpus_def dormant_def)

lemma resting_moved: "resting E s t \<Longrightarrow> moved A s s' \<Longrightarrow> t \<notin> A \<Longrightarrow> resting E s' t"
  unfolding resting_def using dormant_same movedD(1,5) by blast

lemma resting_activate: "dormant E s t T \<Longrightarrow> tc_running_cpu T = None \<Longrightarrow> may_activate s t T p"
  by (simp add: may_activate_def)

section \<open>Making tasks ready, one and many\<close>

definition wakes :: "(nat \<Rightarrow> bool) \<Rightarrow> nat set \<Rightarrow> task_id set \<Rightarrow> mcs \<Rightarrow> task_id set \<Rightarrow> mcs \<Rightarrow> bool" where
  "wakes K E X s A s' \<longleftrightarrow> sys_inv K E (X - A) s' \<and> moved A s s' \<and> (\<forall>t \<in> A. readied t s')"

lemma activate_wakes:
  assumes inv: "sys_inv K E X s" and t: "t \<in> X" and r: "resting E s t"
  shows "\<exists>s'. activate t p s = Some s' \<and> wakes K E X s {t} s'"
proof -
  obtain T where T: "dormant E s t T" "tc_running_cpu T = None" using r by (auto simp: resting_def)
  from activate_keeps [OF inv t T(1) resting_activate [OF T]] obtain s' c where
    "activate t p s = Some s'" "sys_inv K E (X - {t}) s'" "placed t c s s'" by blast
  then show ?thesis using placed_moved placed_readied by (auto simp: wakes_def)
qed

lemma resume_wakes:
  assumes inv: "sys_inv K E X s" and t: "t \<in> X" and r: "resting E s t"
  shows "\<exists>s'. resume res t s = Some s' \<and> wakes K E X s {t} s' \<and>
    (\<exists>T. task s' t = Some T \<and> tc_wait_result T = Some res)"
proof -
  obtain T where T: "dormant E s t T" "tc_running_cpu T = None" using r by (auto simp: resting_def)
  let ?T = "tcb_finish_wait res T"
  have t0: "task s t = Some T" using T(1) by (simp add: dormant_def)
  have e: "reg_finish_wait t res (ms_reg s) = reg_put t ?T (ms_reg s)"
    using t0 by (simp add: reg_finish_wait_def reg_modify_def task_def)
  let ?s = "put_reg (reg_put t ?T (ms_reg s)) s"
  have "cosmetic T ?T" by (simp add: cosmetic_def tcb_finish_wait_def)
  note c = cosmetic_inv [OF inv t0 this]
  have f: "tcb_is_idle ?T = tcb_is_idle T" "tc_ready_cpu ?T = tc_ready_cpu T" "tc_running_cpu ?T = tc_running_cpu T"
    by (simp_all add: tcb_finish_wait_def tcb_is_idle_def)
  then have T': "dormant E ?s t ?T" "tc_running_cpu ?T = None"
    using T by (simp_all add: dormant_def c(2))
  from activate_keeps [OF c(1) t T'(1) resting_activate [OF T']] obtain s' d where
    s': "activate t LastCpu ?s = Some s'" "sys_inv K E (X - {t}) s'" "placed t d ?s s'" by blast
  have "moved {t} s ?s" by (simp add: moved_def same_task_def c(2))
  from moved_trans [OF this placed_moved [OF s'(3)]] have "moved {t} s s'" by simp
  moreover have "\<exists>T. task s' t = Some T \<and> tc_wait_result T = Some res"
    using s'(3) c(2) unfolding placed_def by (auto simp: mark_ready_def) (simp add: tcb_finish_wait_def)
  ultimately show ?thesis
    using s' placed_readied [OF s'(3)] by (simp add: resume_def e wakes_def)
qed

text \<open>The loops over the tasks of a list.\<close>

fun each :: "('a \<Rightarrow> mcs \<Rightarrow> mcs option) \<Rightarrow> 'a list \<Rightarrow> mcs \<Rightarrow> mcs option" where
  "each f [] s = Some s"
| "each f (x # xs) s = Option.bind (f x s) (each f xs)"

lemma each_wakes:
  assumes step: "\<And>x s X. sys_inv K E X s \<Longrightarrow> key x \<in> X \<Longrightarrow> P x s \<Longrightarrow>
      \<exists>s'. f x s = Some s' \<and> wakes K E X s {key x} s'"
    and stable: "\<And>x s s' A. P x s \<Longrightarrow> moved A s s' \<Longrightarrow> key x \<notin> A \<Longrightarrow> P x s'"
  shows "sys_inv K E X s \<Longrightarrow> distinct (map key xs) \<Longrightarrow> key ` set xs \<subseteq> X \<Longrightarrow>
    (\<And>x. x \<in> set xs \<Longrightarrow> P x s) \<Longrightarrow>
    \<exists>s'. each f xs s = Some s' \<and> wakes K E X s (key ` set xs) s'"
proof (induction xs arbitrary: s X)
  case Nil
  then show ?case by (simp add: wakes_def)
next
  case (Cons x xs)
  have "key x \<in> X" "P x s" using Cons.prems by auto
  from step [OF Cons.prems(1) this] obtain s1 where
    s1: "f x s = Some s1" "sys_inv K E (X - {key x}) s1" "moved {key x} s s1" "readied (key x) s1"
    by (auto simp: wakes_def)
  have other: "key y \<noteq> key x" if "y \<in> set xs" for y
    using that Cons.prems(2) by (simp add: image_iff) metis
  have r: "P y s1" if "y \<in> set xs" for y
    using stable [OF Cons.prems(4) s1(3)] that other [OF that] by simp
  have "key ` set xs \<subseteq> X - {key x}" using other Cons.prems(3) by auto
  from Cons.IH [OF s1(2) _ this r] Cons.prems(2) obtain s2 where
    s2: "each f xs s1 = Some s2" "sys_inv K E (X - {key x} - key ` set xs) s2"
    "moved (key ` set xs) s1 s2" "\<forall>t \<in> key ` set xs. readied t s2"
    by (auto simp: wakes_def)
  have "moved (key ` set (x # xs)) s s2" using moved_trans [OF s1(3) s2(3)] by simp
  moreover have "readied (key x) s2"
    using readied_moved [OF s1(4) s2(3)] Cons.prems(2) by auto
  moreover have "X - {key x} - key ` set xs = X - key ` set (x # xs)" by auto
  ultimately show ?case using s1(1) s2 by (simp add: wakes_def)
qed

text \<open>A task taken out of the queue of a target that it still names.\<close>

definition blocked_at :: "nat set \<Rightarrow> wait_target \<Rightarrow> task_id \<Rightarrow> mcs \<Rightarrow> bool" where
  "blocked_at E x t s \<longleftrightarrow> resting E s t \<and> reg_state (ms_reg s) t = Some (Blocking x)"

lemma blocked_at_moved: "blocked_at E x t s \<Longrightarrow> moved A s s' \<Longrightarrow> t \<notin> A \<Longrightarrow> blocked_at E x t s'"
  using resting_moved [of E s t A s']
  by (simp add: blocked_at_def reg_state_def moved_def same_task_def task_def)

lemma resume_all_each: "resume_all ts s = each (resume Woken) ts s"
  by (induction ts arbitrary: s) (auto cong: Option.bind_cong)

lemma activate_sleepers_each: "activate_sleepers ts s = each (\<lambda>t. activate t LastCpu) ts s"
  by (induction ts arbitrary: s) (auto cong: Option.bind_cong)

lemma resume_all_wakes:
  assumes "sys_inv K E X s" "distinct ts" "set ts \<subseteq> X" "\<And>t. t \<in> set ts \<Longrightarrow> resting E s t"
  shows "\<exists>s'. resume_all ts s = Some s' \<and> wakes K E X s (set ts) s'"
  unfolding resume_all_each
  using each_wakes [where key = "\<lambda>t. t" and f = "resume Woken" and P = "\<lambda>t s. resting E s t", OF _ _ assms(1)]
    resume_wakes resting_moved assms by fastforce

lemma activate_sleepers_wakes:
  assumes "sys_inv K E X s" "distinct ts" "set ts \<subseteq> X" "\<And>t. t \<in> set ts \<Longrightarrow> resting E s t"
  shows "\<exists>s'. activate_sleepers ts s = Some s' \<and> wakes K E X s (set ts) s'"
  unfolding activate_sleepers_each
  using each_wakes [where key = "\<lambda>t. t" and f = "\<lambda>t. activate t LastCpu" and P = "\<lambda>t s. resting E s t",
      OF _ _ assms(1)]
    activate_wakes resting_moved assms by fastforce

definition time_out :: "task_id \<times> wait_target \<Rightarrow> mcs \<Rightarrow> mcs option" where
  "time_out p s = (if reg_state (ms_reg s) (fst p) = Some (Blocking (snd p)) then resume TimedOut (fst p) s else Some s)"

lemma activate_timeouts_each: "activate_timeouts ps s = each time_out ps s"
  by (induction ps s rule: activate_timeouts.induct) (auto simp: time_out_def cong: Option.bind_cong)

lemma activate_timeouts_wakes:
  assumes "sys_inv K E X s" "distinct (map fst ps)" "fst ` set ps \<subseteq> X"
    and "\<And>t x. (t, x) \<in> set ps \<Longrightarrow> blocked_at E x t s"
  shows "\<exists>s'. activate_timeouts ps s = Some s' \<and> wakes K E X s (fst ` set ps) s'"
  unfolding activate_timeouts_each
proof (rule each_wakes [where P = "\<lambda>p. blocked_at E (snd p) (fst p)"])
  show "\<exists>s'. time_out p s = Some s' \<and> wakes K E X s {fst p} s'"
    if "sys_inv K E X s" "fst p \<in> X" "blocked_at E (snd p) (fst p) s" for p s X
    using resume_wakes [OF that(1,2), of TimedOut] that(3) by (auto simp: time_out_def blocked_at_def)
qed (use assms blocked_at_moved in auto)

lemma resume_waiting_wakes:
  "sys_inv K E X s \<Longrightarrow> distinct ts \<Longrightarrow> set ts \<subseteq> X \<Longrightarrow> (\<And>t. t \<in> set ts \<Longrightarrow> blocked_at E x t s) \<Longrightarrow>
   \<exists>s'. resume_waiting x ts s = Some (ts, s') \<and> wakes K E X s (set ts) s'"
proof (induction ts arbitrary: s X)
  case Nil
  then show ?case by (simp add: wakes_def)
next
  case (Cons t ts)
  have t: "t \<in> X" "blocked_at E x t s" using Cons.prems(3,4) by auto
  then obtain s1 where s1: "resume Woken t s = Some s1" "sys_inv K E (X - {t}) s1" "moved {t} s s1" "readied t s1"
    using resume_wakes [OF Cons.prems(1), of t Woken] by (auto simp: blocked_at_def wakes_def)
  have b: "blocked_at E x u s1" if "u \<in> set ts" for u
    using blocked_at_moved [OF Cons.prems(4) s1(3)] that Cons.prems(2) by auto
  have "set ts \<subseteq> X - {t}" using Cons.prems(2,3) by auto
  from Cons.IH [OF s1(2) _ this b] Cons.prems(2) obtain s2 where
    s2: "resume_waiting x ts s1 = Some (ts, s2)" "sys_inv K E (X - {t} - set ts) s2" "moved (set ts) s1 s2"
    "\<forall>t \<in> set ts. readied t s2" by (auto simp: wakes_def)
  have "moved (set (t # ts)) s s2" using moved_trans [OF s1(3) s2(3)] by simp
  moreover have "readied t s2" using readied_moved [OF s1(4) s2(3)] Cons.prems(2) by simp
  moreover have "X - {t} - set ts = X - set (t # ts)" by auto
  ultimately show ?case using s1(1) s2 t(2) by (simp add: wakes_def blocked_at_def)
qed

section \<open>Leaving the wait queues\<close>

text \<open>The tasks \<open>A\<close> have left the wait queues, and nothing else changed there.\<close>

definition left_waits :: "task_id set \<Rightarrow> mcs \<Rightarrow> wait_queues \<Rightarrow> bool" where
  "left_waits A s w \<longleftrightarrow> wq_inv w \<and> wq_exited w = wq_exited (ms_wait s) \<and>
     (\<forall>x. held x w = held x (ms_wait s)) \<and>
     (\<forall>u x. u \<in> set (waiters x w) \<longleftrightarrow> u \<notin> A \<and> waits s u x) \<and>
     (\<forall>u. u \<in> sleepers w \<longleftrightarrow> u \<notin> A \<and> sleeps s u)"

lemma waiting_live:
  assumes "task_ok E s t" "waits s t x \<or> sleeps s t"
  obtains T where "task s t = Some T" "\<not> tcb_is_idle T" "live_ok E s t T"
  using assms by (auto simp: task_ok_def absent_ok_def split: option.splits if_splits)

lemma waiting_dormant:
  assumes g: "sys_glob K s" and ok: "task_ok E s t" and w: "waits s t x \<or> sleeps s t"
  obtains T where "task s t = Some T" "\<not> tcb_is_idle T" "tc_running_cpu T = None" "tc_ready_cpu T = None"
    "\<And>c. \<not> on_queue s t c" "\<And>c. \<not> defers s t c" "\<And>c. c \<notin> E \<Longrightarrow> \<not> on_cpu s t c" "\<not> in_exited s t"
    "\<And>y. waits s t y \<Longrightarrow> tc_state T = Blocking y" "sleeps s t \<Longrightarrow> \<exists>n. tc_state T = Sleeping n"
proof -
  obtain T where T: "task s t = Some T" "\<not> tcb_is_idle T" "live_ok E s t T" by (rule waiting_live [OF ok w])
  have st: "\<not> is_exited (tc_state T)" "tc_state T \<noteq> Ready" "tc_state T \<noteq> Running"
    using w T(3) by (auto simp: live_ok_def is_exited_def)
  have c: "tc_running_cpu T = None" "tc_ready_cpu T = None"
    using st task_tcb_ok [OF g T(1)] by (auto simp: tcb_ok_def)
  show thesis
    by (rule that [OF T(1,2) c]) (use T(3) c st in \<open>auto simp: live_ok_def\<close>)
qed

lemma left_waits_spec:
  assumes inv: "sys_inv K E X s" and w: "left_waits A s w" and disj: "A \<inter> X = {}"
    and was: "\<And>u. u \<in> A \<Longrightarrow> sleeps s u \<or> (\<exists>x. waits s u x)"
  shows "sys_inv K E (X \<union> A) (put_wait w s)" "u \<in> A \<Longrightarrow> resting E (put_wait w s) u"
    "u \<in> A \<Longrightarrow> waits s u x \<Longrightarrow> blocked_at E x u (put_wait w s)"
proof -
  note d = w [unfolded left_waits_def] and g = sys_invD(1) [OF inv]
  show "sys_inv K E (X \<union> A) (put_wait w s)"
  proof (rule put_wait_inv [OF sys_inv_mono [OF inv]])
    show "distinct (wq_exited w)" using d sys_globD(4) [OF g] by simp
  qed (use d in \<open>auto simp: in_exited_def\<close>)
  have r: "\<exists>T. task s u = Some T \<and> resting E (put_wait w s) u \<and> (\<forall>x. waits s u x \<longrightarrow> tc_state T = Blocking x)"
    if "u \<in> A" for u
  proof -
    obtain x where x: "waits s u x \<or> sleeps s u" using was [OF \<open>u \<in> A\<close>] by blast
    have "task_ok E s u" using disj \<open>u \<in> A\<close> by (intro sys_invD(2) [OF inv]) blast
    then obtain T where T: "task s u = Some T" "\<not> tcb_is_idle T" "tc_running_cpu T = None" "tc_ready_cpu T = None"
      "\<And>c. \<not> on_queue s u c" "\<And>c. \<not> defers s u c" "\<And>c. c \<notin> E \<Longrightarrow> \<not> on_cpu s u c" "\<not> in_exited s u"
      "\<And>y. waits s u y \<Longrightarrow> tc_state T = Blocking y"
      using waiting_dormant [OF g _ x] by metis
    have "dormant E (put_wait w s) u T"
      using T d \<open>u \<in> A\<close> by (simp add: dormant_def put_wait_obs) (simp add: in_exited_def)
    with T show ?thesis by (auto simp: resting_def)
  qed
  show "u \<in> A \<Longrightarrow> resting E (put_wait w s) u" using r by blast
  show "u \<in> A \<Longrightarrow> waits s u x \<Longrightarrow> blocked_at E x u (put_wait w s)"
    using r by (auto simp: blocked_at_def reg_state_def task_def)
qed

section \<open>Expired waits\<close>

text \<open>What an operation that only makes the tasks \<open>A\<close> ready leaves as it was.\<close>

definition passes :: "task_id set \<Rightarrow> mcs \<Rightarrow> mcs \<Rightarrow> bool" where
  "passes A s s' \<longleftrightarrow> same_cpus s s' \<and> on_cpu s' = on_cpu s \<and> defers s' = defers s \<and>
     (\<forall>x. held x (ms_wait s') = held x (ms_wait s)) \<and>
     (\<forall>u. u \<notin> A \<longrightarrow> same_task s s' u) \<and> (\<forall>t \<in> A. readied t s')"

lemma passes_refl [simp]: "passes {} s s"
  by (simp add: passes_def)

lemma passes_trans:
  assumes "passes A s s'" "passes B s' s''"
  shows "passes (A \<union> B) s s''"
proof -
  have "same_task s s'' u" if "u \<notin> A" "u \<notin> B" for u
    using assms that same_trans(2) [of s s' u s''] by (simp add: passes_def)
  moreover have "readied t s''" if "t \<in> A" "t \<notin> B" for t
    using assms that by (auto simp: passes_def readied_def same_task_def)
  ultimately show ?thesis
    using assms same_trans(1) [of s s' s''] by (auto simp: passes_def)
qed

lemma put_wait_same_task:
  assumes "\<And>x. u \<in> set (waiters x w) \<longleftrightarrow> waits s u x" "u \<in> sleepers w \<longleftrightarrow> sleeps s u"
    "u \<in> set (wq_exited w) \<longleftrightarrow> in_exited s u"
  shows "same_task s (put_wait w s) u"
  using assms by (simp add: same_task_def put_wait_obs fun_eq_iff)

lemma left_waits_passes:
  assumes w: "left_waits A s w" and wk: "wakes K E X (put_wait w s) A s'"
  shows "passes A s s'"
proof -
  have m: "moved A (put_wait w s) s'" using wk by (simp add: wakes_def)
  have "same_task s (put_wait w s) u" if "u \<notin> A" for u
    by (rule put_wait_same_task) (use w that in \<open>simp_all add: left_waits_def in_exited_def\<close>)
  moreover have "\<forall>x. held x w = held x (ms_wait s)" using w by (simp add: left_waits_def)
  ultimately show ?thesis
    using m wk same_trans(2) [of s "put_wait w s" _ s'] same_trans(1) [OF put_wait_obs(10) [of s w], of s']
    by (simp add: passes_def wakes_def moved_def put_wait_obs)
qed

lemma sys_wait_ok: "sys_inv K E X s \<Longrightarrow> wq_ok (ms_wait s)" "sys_inv K E X s \<Longrightarrow> waits_once (ms_wait s)"
  using sys_globD(3) [OF sys_invD(1)] by (auto simp: wq_inv_def)

definition woken_at :: "nat \<Rightarrow> wait_queues \<Rightarrow> task_id set" where
  "woken_at now w = fst ` {e \<in> set (wq_sleep w). snd e \<le> now}"

lemma woken_left:
  assumes inv: "sys_inv K E X s" and w: "woken_tasks (ms_wait s) = (ts, w')"
  shows "distinct ts" "set ts = woken_at (wq_now (ms_wait s)) (ms_wait s)" "left_waits (set ts) s w'"
    "wq_timeouts w' = wq_timeouts (ms_wait s)" "wq_now w' = wq_now (ms_wait s)"
    "\<And>u. u \<in> set ts \<Longrightarrow> sleeps s u"
proof -
  let ?w = "ms_wait s"
  note ok = sys_wait_ok [OF inv] and o = waits_onceD [OF sys_wait_ok(2) [OF inv]]
  have e: "ts = map fst (filter (\<lambda>e. snd e \<le> wq_now ?w) (wq_sleep ?w))"
    "w' = ?w\<lparr>wq_sleep := filter (\<lambda>e. wq_now ?w < snd e) (wq_sleep ?w)\<rparr>"
    using w sorted_split_filter [OF wq_okD(6) [OF ok(1)], of "wq_now ?w"]
    by (simp_all add: woken_tasks_def pop_woken_eq)
  show "distinct ts" using o(2) unfolding e(1) by (rule distinct_map_filter)
  show ts: "set ts = woken_at (wq_now ?w) ?w" by (auto simp: e(1) woken_at_def)
  show "wq_timeouts w' = wq_timeouts ?w" "wq_now w' = wq_now ?w" by (simp_all add: e(2))
  have sl: "u \<in> sleepers w' \<longleftrightarrow> u \<notin> set ts \<and> sleeps s u" for u
  proof -
    have "snd a = snd b" if "a \<in> set (wq_sleep ?w)" "b \<in> set (wq_sleep ?w)" "fst a = fst b" for a b
      using o(2) that by (metis eq_key_imp_eq_value prod.collapse)
    then have "(\<exists>e \<in> set (wq_sleep ?w). fst e = u \<and> wq_now ?w < snd e) \<longleftrightarrow>
        \<not> (\<exists>e \<in> set (wq_sleep ?w). fst e = u \<and> snd e \<le> wq_now ?w) \<and> (\<exists>e \<in> set (wq_sleep ?w). fst e = u)"
      by (metis not_le)
    moreover have "u \<in> sleepers w' \<longleftrightarrow> (\<exists>e \<in> set (wq_sleep ?w). fst e = u \<and> wq_now ?w < snd e)"
      by (force simp: e(2) sleepers_def)
    moreover have "u \<in> set ts \<longleftrightarrow> (\<exists>e \<in> set (wq_sleep ?w). fst e = u \<and> snd e \<le> wq_now ?w)"
      by (force simp: e(1))
    moreover have "sleeps s u \<longleftrightarrow> (\<exists>e \<in> set (wq_sleep ?w). fst e = u)"
      by (force simp: sleeps_def sleepers_def)
    ultimately show ?thesis by simp
  qed
  show was: "\<And>u. u \<in> set ts \<Longrightarrow> sleeps s u" by (auto simp: e(1) sleeps_def sleepers_def)
  have wt: "waiters x w' = waiters x ?w" for x by (simp add: e(2) waiters_def split: wait_target.split)
  have "u \<notin> set (waiters x ?w)" if "u \<in> set ts" for u x
    using was [OF that] o(4) by (auto simp: sleeps_def)
  have "held x w' = held x ?w" for x by (simp add: e(2) held_def)
  with \<open>\<And>x u. u \<in> set ts \<Longrightarrow> u \<notin> set (waiters x ?w)\<close> show "left_waits (set ts) s w'"
    using woken_keeps [OF sys_globD(3) [OF sys_invD(1) [OF inv]] w] sl wt
    by (auto simp: left_waits_def waits_def e(2))
qed

text \<open>The expired timeouts whose task still waits at the target they were set for.\<close>

definition timed_out_at :: "nat \<Rightarrow> wait_queues \<Rightarrow> (task_id \<times> wait_target) set" where
  "timed_out_at now w = {p \<in> due_pairs (wq_timeouts w) now. fst p \<in> set (waiters (snd p) w)}"

lemma timeout_left:
  assumes inv: "sys_inv K E X s"
  shows "\<exists>ps w'. timeout_tasks (ms_wait s) = Some (ps, w') \<and> distinct (map fst ps) \<and>
    set ps = timed_out_at (wq_now (ms_wait s)) (ms_wait s) \<and> left_waits (fst ` set ps) s w' \<and>
    (\<forall>p \<in> set ps. waits s (fst p) (snd p))"
proof -
  let ?w = "ms_wait s"
  note ok = sys_wait_ok [OF inv] and o = waits_onceD [OF sys_wait_ok(2) [OF inv]]
  have "\<forall>e \<in> set (wq_timeouts ?w). held (tt_target e) ?w" using wq_okD(7) [OF ok(1)] by blast
  from timeout_loop_spec [OF this wq_okD(3,4,5) [OF ok(1)]] obtain ps w' where
    t: "timeout_tasks ?w = Some (ps, w')"
    "same_times (?w\<lparr>wq_timeouts := filter (\<lambda>e. wq_now ?w < tt_tick e) (wq_timeouts ?w)\<rparr>) w'"
    "distinct ps" "set ps = timed_out_at (wq_now ?w) ?w"
    "\<And>x. waiters x w' = filter (\<lambda>t. (t, x) \<notin> due_pairs (wq_timeouts ?w) (wq_now ?w)) (waiters x ?w)"
    unfolding timeout_tasks_def timed_out_at_def by blast
  have was: "waits s (fst p) (snd p)" if "p \<in> set ps" for p
    using that by (simp add: t(4) timed_out_at_def waits_def)
  have once: "p = q" if "p \<in> set ps" "q \<in> set ps" "fst p = fst q" for p q
    using was [OF that(1)] was [OF that(2)] that(3) o(3) [of "fst p" "snd p" "snd q"]
    by (simp add: waits_def prod_eq_iff)
  then have "distinct (map fst ps)" using t(3) by (auto simp: distinct_map inj_on_def)
  moreover have "left_waits (fst ` set ps) s w'"
  proof -
    have "u \<in> set (waiters x w') \<longleftrightarrow> u \<notin> fst ` set ps \<and> waits s u x" for u x
    proof
      assume u: "u \<in> set (waiters x w')"
      then have "waits s u x" "(u, x) \<notin> set ps" by (auto simp: t(4,5) timed_out_at_def waits_def)
      moreover have "y = x" if "(u, y) \<in> set ps" for y
        using was [OF that] \<open>waits s u x\<close> o(3) [of u y x] by (simp add: waits_def)
      ultimately show "u \<notin> fst ` set ps \<and> waits s u x" by auto
    next
      assume u: "u \<notin> fst ` set ps \<and> waits s u x"
      then have "(u, x) \<notin> set ps" by force
      with u show "u \<in> set (waiters x w')" by (auto simp: t(4,5) timed_out_at_def waits_def)
    qed
    moreover have "u \<in> sleepers w' \<longleftrightarrow> u \<notin> fst ` set ps \<and> sleeps s u" for u
    proof -
      have "u \<notin> sleepers ?w" if "u \<in> fst ` set ps" using was that o(4) by (fastforce simp: waits_def)
      then show ?thesis using t(2) by (auto simp: same_times_def sleepers_def sleeps_def)
    qed
    moreover have "wq_inv w'" by (rule expire_keeps [OF sys_globD(3) [OF sys_invD(1) [OF inv]] t(1)])
    moreover have "wq_exited w' = wq_exited ?w" using t(2) by (simp add: same_times_def)
    moreover have "held x w' = held x ?w" for x using same_times_held [OF t(2), of x] by (simp add: held_def)
    ultimately show ?thesis by (simp add: left_waits_def)
  qed
  ultimately show ?thesis using t(1,4) was by blast
qed

definition expired :: "mcs \<Rightarrow> task_id set" where
  "expired s = woken_at (wq_now (ms_wait s)) (ms_wait s) \<union>
     fst ` timed_out_at (wq_now (ms_wait s)) (ms_wait s)"

lemma woken_timeouts_same:
  assumes "left_waits W s w'" "\<And>u. u \<in> W \<Longrightarrow> sleeps s u" "sys_inv K E X s"
    "wq_timeouts w' = wq_timeouts (ms_wait s)" "wq_now w' = wq_now (ms_wait s)"
  shows "timed_out_at (wq_now w') w' = timed_out_at (wq_now (ms_wait s)) (ms_wait s)"
proof -
  have "u \<in> set (waiters x w') \<longleftrightarrow> u \<in> set (waiters x (ms_wait s))" for u x
    using assms(1,2) waits_onceD(4) [OF sys_wait_ok(2) [OF assms(3)], of u x]
    by (auto simp: left_waits_def waits_def sleeps_def)
  then show ?thesis by (simp add: timed_out_at_def assms(4,5))
qed

lemma expire_spec:
  assumes inv: "sys_inv K E {} s"
  shows "\<exists>s'. activate_woken_and_timeout_tasks s = Some s' \<and> sys_inv K E {} s' \<and> passes (expired s) s s'"
proof -
  let ?w = "ms_wait s"
  obtain ts w1 where w1: "woken_tasks ?w = (ts, w1)" by (cases "woken_tasks ?w")
  note L = woken_left [OF inv w1]
  note l = left_waits_spec [OF inv L(3)]
  have i1: "sys_inv K E (set ts) (put_wait w1 s)" using l(1) L(6) by simp
  have r1: "resting E (put_wait w1 s) t" if "t \<in> set ts" for t using l(2) [of t] L(6) that by simp
  obtain s1 where s1: "activate_sleepers ts (put_wait w1 s) = Some s1"
    "wakes K E (set ts) (put_wait w1 s) (set ts) s1"
    using activate_sleepers_wakes [OF i1 L(1) order_refl r1] by blast
  have i2: "sys_inv K E {} s1" using s1(2) by (simp add: wakes_def)
  have e1: "ms_wait s1 = w1" using s1(2) by (simp add: wakes_def moved_def)
  obtain ps w2 where p: "timeout_tasks w1 = Some (ps, w2)" "distinct (map fst ps)"
    "set ps = timed_out_at (wq_now w1) w1" "left_waits (fst ` set ps) s1 w2"
    "\<forall>p \<in> set ps. waits s1 (fst p) (snd p)"
    using timeout_left [OF i2] unfolding e1 by blast
  have was: "sleeps s1 u \<or> (\<exists>x. waits s1 u x)" if "u \<in> fst ` set ps" for u using p(5) that by blast
  note m = left_waits_spec [OF i2 p(4) _ was]
  have i3: "sys_inv K E (fst ` set ps) (put_wait w2 s1)" using m(1) by simp
  have b: "blocked_at E x t (put_wait w2 s1)" if "(t, x) \<in> set ps" for t x
    by (rule m(3)) (use p(5) that in \<open>force+\<close>)
  obtain s2 where s2: "activate_timeouts ps (put_wait w2 s1) = Some s2"
    "wakes K E (fst ` set ps) (put_wait w2 s1) (fst ` set ps) s2"
    using activate_timeouts_wakes [OF i3 p(2) order_refl b] by blast
  have "activate_woken_and_timeout_tasks s = Some s2"
    using s1(1) s2(1) p(1) by (simp add: activate_woken_and_timeout_tasks_def w1 e1)
  moreover have "sys_inv K E {} s2" using s2(2) by (simp add: wakes_def)
  moreover have "passes (expired s) s s2"
    using passes_trans [OF left_waits_passes [OF L(3) s1(2)] left_waits_passes [OF p(4) s2(2)]]
      woken_timeouts_same [OF L(3,6) inv L(4,5)]
    by (simp add: expired_def L(2) p(3))
  ultimately show ?thesis by blast
qed

end
