(* ===== verification/Multi_Wakers.thy ===== *)
theory Multi_Wakers
  imports Multi_Wake
begin

text \<open>
  Waking by id and by queue, requeueing, and the wake-ups of an exit: under the invariant each of
  them wakes exactly the tasks the wait queues name, panics never and keeps the invariant.
\<close>

section \<open>Waking one task by id\<close>

lemma without_left:
  assumes "sys_inv K E X s" "without t (ms_wait s) w"
  shows "left_waits {t} s w"
proof -
  have "wq_inv w"
    using without_ok [OF sys_wait_ok(1) [OF assms(1)] assms(2)]
      without_once [OF sys_wait_ok(2) [OF assms(1)] assms(2)] by (simp add: wq_inv_def)
  then show ?thesis
    using assms(2) by (auto simp: left_waits_def without_def waits_def sleeps_def sleepers_def drop_task_def held_def)
qed

lemma waiting_obs: "waiting t (ms_wait s) \<longleftrightarrow> (\<exists>x. waits s t x) \<or> sleeps s t"
  by (simp add: waiting_def waits_def sleeps_def)

definition result_is :: "mcs \<Rightarrow> task_id \<Rightarrow> wait_result \<Rightarrow> bool" where
  "result_is s t r \<longleftrightarrow> (\<exists>T. task s t = Some T \<and> tc_wait_result T = Some r)"

lemma take_out_spec:
  assumes inv: "sys_inv K E {} s"
  shows "\<exists>w s'. remove_task_from_any_queue t (ms_wait s) = (waiting t (ms_wait s), w) \<and>
    (if waiting t (ms_wait s)
     then is_waiting_state (reg_state (ms_reg s) t) \<and> resume res t (put_wait w s) = Some s' \<and>
       passes {t} s s' \<and> result_is s' t res
     else s' = put_wait w s \<and> passes {} s s') \<and> sys_inv K E {} s'"
proof -
  obtain w where w: "remove_task_from_any_queue t (ms_wait s) = (waiting t (ms_wait s), w)" "without t (ms_wait s) w"
    using remove_from_any_spec [OF sys_wait_ok [OF inv], of t] by blast
  note l = without_left [OF inv w(2)]
  show ?thesis
  proof (cases "waiting t (ms_wait s)")
    case True
    then have was: "\<And>u. u \<in> {t} \<Longrightarrow> sleeps s u \<or> (\<exists>x. waits s u x)" by (auto simp: waiting_obs)
    note L = left_waits_spec [OF inv l _ was]
    have i: "sys_inv K E {t} (put_wait w s)" using L(1) by simp
    have r: "resting E (put_wait w s) t" by (rule L(2)) simp_all
    from resume_wakes [OF i _ r, of res] obtain s' where
      s': "resume res t (put_wait w s) = Some s'" "wakes K E {t} (put_wait w s) {t} s'" "result_is s' t res"
      by (auto simp: result_is_def)
    have st: "is_waiting_state (reg_state (ms_reg s) t)"
    proof -
      obtain x where x: "waits s t x \<or> sleeps s t" using was by blast
      have "task_ok E s t" by (rule sys_invD(2) [OF inv]) simp
      then obtain T where "task s t = Some T" "live_ok E s t T" by (rule waiting_live [OF _ x])
      with x show ?thesis by (auto simp: is_waiting_state_def reg_state_def task_def live_ok_def)
    qed
    have "sys_inv K E {} s'" using s'(2) by (simp add: wakes_def)
    with True w(1) s' left_waits_passes [OF l s'(2)] st show ?thesis by auto
  next
    case False
    then have no: "left_waits {} s w" using l by (auto simp: left_waits_def waiting_obs)
    have "sys_inv K E {} (put_wait w s)" using left_waits_spec(1) [OF inv no] by simp
    moreover from this have "wakes K E {} (put_wait w s) {} (put_wait w s)" by (simp add: wakes_def)
    from left_waits_passes [OF no this] have "passes {} s (put_wait w s)" .
    ultimately show ?thesis using False w(1) by auto
  qed
qed

lemma wake_task_spec:
  assumes "sys_inv K E {} s"
  shows "\<exists>s'. mcs_wake_task t s = Some (waiting t (ms_wait s), s') \<and> sys_inv K E {} s' \<and>
      (if waiting t (ms_wait s) then passes {t} s s' \<and> result_is s' t Woken else passes {} s s')"
    "\<exists>s'. mcs_interrupt_task t s = Some (waiting t (ms_wait s), s') \<and> sys_inv K E {} s' \<and>
      (if waiting t (ms_wait s) then passes {t} s s' \<and> result_is s' t Interrupted else passes {} s s')"
  using take_out_spec [OF assms, of t Woken] take_out_spec [OF assms, of t Interrupted]
  by (auto simp: mcs_wake_task_def wake_task_def mcs_interrupt_task_def interrupt_task_def Let_def
      split: if_splits)

section \<open>Waking the front of a queue\<close>

lemma emptied_left:
  assumes "wq_inv w" "same_times (ms_wait s) w"
    "\<And>x. waiters x w = (if x = y then [] else waiters x (ms_wait s))" "sys_inv K E X s"
  shows "left_waits (set (waiters y (ms_wait s))) s w" "distinct (waiters y (ms_wait s))"
proof -
  note o = waits_onceD [OF sys_wait_ok(2) [OF assms(4)]]
  show "distinct (waiters y (ms_wait s))" by (rule o(1))
  have "sleepers w = sleepers (ms_wait s)" using assms(2) by (simp add: same_times_def sleepers_def)
  then show "left_waits (set (waiters y (ms_wait s))) s w"
    using assms(1-3) o(3,4) same_times_held [OF assms(2)] unfolding left_waits_def waits_def sleeps_def same_times_def by auto
qed

text \<open>All waiters of a target leave its queue and become ready in turn.\<close>

lemma resume_left:
  assumes inv: "sys_inv K E {} s" and l: "left_waits (set ts) s w" and d: "distinct ts"
    and was: "\<And>t. t \<in> set ts \<Longrightarrow> waits s t x"
  shows "\<exists>s'. resume_all ts (put_wait w s) = Some s' \<and> sys_inv K E {} s' \<and> passes (set ts) s s'"
    "\<exists>s'. resume_waiting x ts (put_wait w s) = Some (ts, s') \<and> sys_inv K E {} s' \<and> passes (set ts) s s'"
proof -
  have w: "\<And>u. u \<in> set ts \<Longrightarrow> sleeps s u \<or> (\<exists>x. waits s u x)" using was by blast
  note L = left_waits_spec [OF inv l _ w]
  have i: "sys_inv K E (set ts) (put_wait w s)" using L(1) by simp
  have r: "resting E (put_wait w s) t" if "t \<in> set ts" for t using L(2) that by simp
  have b: "blocked_at E x t (put_wait w s)" if "t \<in> set ts" for t using L(3) [of t x] was that by simp
  obtain s1 where "resume_all ts (put_wait w s) = Some s1" "wakes K E (set ts) (put_wait w s) (set ts) s1"
    using resume_all_wakes [OF i d order_refl r] by blast
  then show "\<exists>s'. resume_all ts (put_wait w s) = Some s' \<and> sys_inv K E {} s' \<and> passes (set ts) s s'"
    using left_waits_passes [OF l, of K E "set ts" s1] by (auto simp: wakes_def)
  obtain s2 where "resume_waiting x ts (put_wait w s) = Some (ts, s2)"
    "wakes K E (set ts) (put_wait w s) (set ts) s2"
    using resume_waiting_wakes [OF i d order_refl b] by blast
  then show "\<exists>s'. resume_waiting x ts (put_wait w s) = Some (ts, s') \<and> sys_inv K E {} s' \<and> passes (set ts) s s'"
    using left_waits_passes [OF l, of K E "set ts" s2] by (auto simp: wakes_def)
qed

lemma exit_waiters_spec:
  assumes inv: "sys_inv K E {} s"
  shows "\<exists>ts w s'. wake_all_waiters_for_task_exit i (ms_wait s) = (ts, w) \<and> ts = waiters (TaskExit i) (ms_wait s) \<and>
      resume_all ts (put_wait w s) = Some s' \<and> sys_inv K E {} s' \<and> passes (set ts) s s'"
    "\<exists>ts w s'. wake_child_exit_waiters i (ms_wait s) = (ts, w) \<and> ts = waiters (ChildExit i) (ms_wait s) \<and>
      resume_all ts (put_wait w s) = Some s' \<and> sys_inv K E {} s' \<and> passes (set ts) s s'"
proof -
  note q = sys_globD(3) [OF sys_invD(1) [OF inv]]
  obtain w where w: "wake_all_waiters_for_task_exit i (ms_wait s) = (waiters (TaskExit i) (ms_wait s), w)"
    "same_times (ms_wait s) w" "\<And>x. waiters x w = (if x = TaskExit i then [] else waiters x (ms_wait s))"
    using exit_wake_spec(1) [OF sys_wait_ok(1) [OF inv]] by blast
  note e = emptied_left [OF exit_wake_keeps(1) [OF q w(1)] w(2,3) inv]
  from resume_left(1) [OF inv e, of "TaskExit i"] w(1) show
    "\<exists>ts w s'. wake_all_waiters_for_task_exit i (ms_wait s) = (ts, w) \<and> ts = waiters (TaskExit i) (ms_wait s) \<and>
      resume_all ts (put_wait w s) = Some s' \<and> sys_inv K E {} s' \<and> passes (set ts) s s'"
    by (auto simp: waits_def)
  obtain w where w: "wake_child_exit_waiters i (ms_wait s) = (waiters (ChildExit i) (ms_wait s), w)"
    "same_times (ms_wait s) w" "\<And>x. waiters x w = (if x = ChildExit i then [] else waiters x (ms_wait s))"
    using exit_wake_spec(2) [OF sys_wait_ok(1) [OF inv]] by blast
  note e = emptied_left [OF exit_wake_keeps(2) [OF q w(1)] w(2,3) inv]
  from resume_left(1) [OF inv e, of "ChildExit i"] w(1) show
    "\<exists>ts w s'. wake_child_exit_waiters i (ms_wait s) = (ts, w) \<and> ts = waiters (ChildExit i) (ms_wait s) \<and>
      resume_all ts (put_wait w s) = Some s' \<and> sys_inv K E {} s' \<and> passes (set ts) s s'"
    by (auto simp: waits_def)
qed

lemma child_waiters_spec:
  assumes "sys_inv K E {} s"
  shows "\<exists>s'. mcs_wake_child_exit_waiters p s = Some s' \<and> sys_inv K E {} s' \<and>
    passes (set (waiters (ChildExit p) (ms_wait s))) s s'"
  using exit_waiters_spec(2) [OF assms, of p] by (auto simp: mcs_wake_child_exit_waiters_def)

section \<open>Waking and moving the tasks of an explicit queue\<close>

definition queue_of :: "nat \<Rightarrow> mcs \<Rightarrow> task_id list" where
  "queue_of q s = waiters (WaitQueue q) (ms_wait s)"

lemma popped_left:
  assumes inv: "sys_inv K E X s" and h: "held (WaitQueue q) (ms_wait s)"
    and w: "wq_inv w" "wq_sleep w = wq_sleep (ms_wait s)" "wq_exited w = wq_exited (ms_wait s)"
      "\<And>x. held x w = held x (ms_wait s)"
    and x: "\<And>x. waiters x w = (if x = WaitQueue q then drop n (queue_of q s) else waiters x (ms_wait s))"
  shows "left_waits (set (take n (queue_of q s))) s w" "distinct (take n (queue_of q s))"
    "\<And>t. t \<in> set (take n (queue_of q s)) \<Longrightarrow> waits s t (WaitQueue q)"
proof -
  note o = waits_onceD [OF sys_wait_ok(2) [OF inv]]
  have d: "distinct (queue_of q s)" by (simp add: queue_of_def o(1))
  then show "distinct (take n (queue_of q s))" by (rule distinct_take)
  show was: "waits s t (WaitQueue q)" if "t \<in> set (take n (queue_of q s))" for t
    using in_set_takeD [OF that] by (simp add: waits_def queue_of_def)
  have disj: "set (take n (queue_of q s)) \<inter> set (drop n (queue_of q s)) = {}"
    by (rule set_take_disj_set_drop_if_distinct [OF d order_refl])
  have split: "t \<in> set (queue_of q s) \<longleftrightarrow> t \<in> set (take n (queue_of q s)) \<or> t \<in> set (drop n (queue_of q s))" for t
    by (metis append_take_drop_id set_append UnE UnCI)
  have "t \<in> set (waiters x w) \<longleftrightarrow> t \<notin> set (take n (queue_of q s)) \<and> waits s t x" for t x
  proof (cases "x = WaitQueue q")
    case True
    then show ?thesis using x split [of t] disj by (auto simp: waits_def queue_of_def)
  next
    case False
    then show ?thesis using x was [of t] o(3) [of t x "WaitQueue q"] by (auto simp: waits_def)
  qed
  moreover have "t \<in> sleepers w \<longleftrightarrow> t \<notin> set (take n (queue_of q s)) \<and> sleeps s t" for t
    using was [of t] o(4) by (auto simp: waits_def sleepers_def sleeps_def w(2))
  ultimately show "left_waits (set (take n (queue_of q s))) s w"
    using w by (simp add: left_waits_def)
qed

lemma wake_all_spec:
  assumes inv: "sys_inv K E {} s" and h: "held (WaitQueue q) (ms_wait s)"
  shows "\<exists>s'. mcs_wake_all_in_wait_queue q s = Some (min (length (queue_of q s)) usize_max, s') \<and>
    sys_inv K E {} s' \<and> passes (set (queue_of q s)) s s'"
proof -
  let ?w = "ms_wait s" and ?ts = "queue_of q s"
  have q: "q < length (wq_queues ?w)" using h by (simp add: held_def)
  have ts: "?ts = wq_queues ?w ! q" using q by (simp add: queue_of_def waiters_queue)
  let ?w' = "set_queue q [] (forget (set ?ts) (WaitQueue q) ?w)"
  have a: "wake_all_in_wait_queue q ?w = Some (?ts, ?w')"
    using wake_n_spec [OF q, of 0 "length ?ts"] q by (simp add: wake_all_in_wait_queue_def ts)
  have i: "wq_inv ?w'" by (rule wake_front_keeps(1) [OF sys_globD(3) [OF sys_invD(1) [OF inv]] h a])
  note p = popped_left [OF inv h i, of "length ?ts"]
  have L: "left_waits (set ?ts) s ?w'" "distinct ?ts" "\<And>t. t \<in> set ?ts \<Longrightarrow> waits s t (WaitQueue q)"
    using p q by (simp_all add: waiters_set_queue) (simp_all add: set_queue_def forget_def)
  from resume_left(2) [OF inv L] a show ?thesis by (auto simp: mcs_wake_all_in_wait_queue_def)
qed

lemma wake_one_spec:
  assumes inv: "sys_inv K E {} s" and h: "held (WaitQueue q) (ms_wait s)"
  shows "\<exists>s'. mcs_wake_one_in_wait_queue q s =
      Some (case queue_of q s of [] \<Rightarrow> None | t # _ \<Rightarrow> Some t, s') \<and>
    sys_inv K E {} s' \<and> passes (set (take 1 (queue_of q s))) s s'"
proof -
  let ?w = "ms_wait s" and ?ts = "queue_of q s"
  have q: "q < length (wq_queues ?w)" using h by (simp add: held_def)
  have ts: "?ts = wq_queues ?w ! q" using q by (simp add: queue_of_def waiters_queue)
  show ?thesis
  proof (cases ?ts)
    case Nil
    then have "wake_one_in_wait_queue q ?w = Some (None, ?w)"
      using q ts by (simp add: wake_one_in_wait_queue_def pop_wait_queue_def)
    then have "mcs_wake_one_in_wait_queue q s = Some (None, s)"
      by (simp add: mcs_wake_one_in_wait_queue_def put_wait_def)
    with Nil inv show ?thesis by simp
  next
    case (Cons t rest)
    let ?w' = "remove_wait_timeout t (WaitQueue q) (set_queue q rest ?w)"
    have front: "wq_queues ?w ! q = t # rest" using ts Cons by simp
    have one: "wake_one_in_wait_queue q ?w = Some (Some t, ?w')"
      using q front by (simp add: wake_one_in_wait_queue_def pop_wait_queue_def set_queue_def)
    have i: "wq_inv ?w'" by (rule wake_front_keeps(2) [OF sys_globD(3) [OF sys_invD(1) [OF inv]] h one])
    note p = popped_left [OF inv h i, of 1]
    have L: "left_waits (set [t]) s ?w'" "distinct [t]" "\<And>u. u \<in> set [t] \<Longrightarrow> waits s u (WaitQueue q)"
      using p q Cons by (simp_all add: waiters_set_queue remove_wait_timeout_eq) (simp_all add: set_queue_def forget_def)
    have st: "reg_state (ms_reg s) t = Some (Blocking (WaitQueue q))"
      using left_waits_spec(3) [OF inv L(1), of t "WaitQueue q"] L(3) by (auto simp: blocked_at_def)
    obtain s' where "resume_all [t] (put_wait ?w' s) = Some s'" "sys_inv K E {} s'" "passes (set [t]) s s'"
      using resume_left(1) [OF inv L] by blast
    moreover have "mcs_wake_one_in_wait_queue q s = Some (Some t, s')"
      if "resume_all [t] (put_wait ?w' s) = Some s'"
      using that one st by (auto simp: mcs_wake_one_in_wait_queue_def bind_eq_Some_conv)
    ultimately show ?thesis using Cons by auto
  qed
qed

text \<open>A task moved to the queue of \<open>y\<close> while its state still names \<open>x\<close>.\<close>

definition moved_waiter :: "nat set \<Rightarrow> wait_target \<Rightarrow> wait_target \<Rightarrow> task_id \<Rightarrow> mcs \<Rightarrow> bool" where
  "moved_waiter E x y t s \<longleftrightarrow> (\<exists>T. task s t = Some T \<and> \<not> tcb_is_idle T \<and> tc_state T = Blocking x \<and>
     (\<forall>c. \<not> on_queue s t c) \<and> (\<forall>c. \<not> defers s t c) \<and> (\<forall>c. c \<notin> E \<longrightarrow> \<not> on_cpu s t c) \<and>
     (\<forall>z. waits s t z \<longleftrightarrow> z = y) \<and> \<not> sleeps s t \<and> \<not> in_exited s t)"

lemma moved_waiter_same: "same_task s s' t \<Longrightarrow> moved_waiter E x y t s' = moved_waiter E x y t s"
  by (simp add: moved_waiter_def same_task_def)

lemma mark_blocking_fit:
  assumes "tcb_ok T" "tcb_fit K s T"
  shows "tcb_ok (mark_blocking x T)" "tcb_is_idle (mark_blocking x T) = tcb_is_idle T"
    "tc_id (mark_blocking x T) = tc_id T" "tcb_fit K s (mark_blocking x T)"
  using assms by (auto simp: mark_blocking_def tcb_ok_def tcb_is_idle_def tcb_fit_def is_exited_def)

lemma retarget_one:
  assumes inv: "sys_inv K E X s" and t: "t \<in> X" and m: "moved_waiter E x y t s"
  shows "sys_inv K E (X - {t}) (put_reg (reg_mark_blocking t y (ms_reg s)) s)"
    "u \<noteq> t \<Longrightarrow> same_task s (put_reg (reg_mark_blocking t y (ms_reg s)) s) u"
    "reg_state (reg_mark_blocking t y (ms_reg s)) t = Some (Blocking y)"
proof -
  obtain T where T: "task s t = Some T" "\<not> tcb_is_idle T" "tc_state T = Blocking x" using m by (auto simp: moved_waiter_def)
  let ?T = "mark_blocking y T"
  have e: "reg_mark_blocking t y (ms_reg s) = reg_put t ?T (ms_reg s)"
    using T by (simp add: reg_mark_blocking_def reg_modify_def task_def)
  note g = sys_invD(1) [OF inv]
  note f = mark_blocking_fit [OF conjunct1 [OF task_tcb_ok [OF g T(1)]] sys_globD(9) [OF g T(1)], of y]
  note p = put_task_inv [OF inv T(1) t f(1) _ f(2,4)]
  have tk: "task (put_reg (reg_put t ?T (ms_reg s)) s) = (task s)(t \<mapsto> ?T)"
    using p(2) f(3) task_tcb_ok [OF g T(1)] by simp
  have "live_ok E (put_reg (reg_put t ?T (ms_reg s)) s) t ?T"
    using m by (auto simp: moved_waiter_def live_ok_def mark_blocking_def)
  then have "task_ok E (put_reg (reg_put t ?T (ms_reg s)) s) t"
    using T f(2) by (simp add: task_ok_def tk)
  moreover have "sys_inv K E X (put_reg (reg_put t ?T (ms_reg s)) s)"
    using p(1) f(3) task_tcb_ok [OF g T(1)] by simp
  ultimately show "sys_inv K E (X - {t}) (put_reg (reg_mark_blocking t y (ms_reg s)) s)"
    unfolding e by (metis sys_inv_close)
  show "u \<noteq> t \<Longrightarrow> same_task s (put_reg (reg_mark_blocking t y (ms_reg s)) s) u"
    unfolding e by (simp add: same_task_def tk)
  show "reg_state (reg_mark_blocking t y (ms_reg s)) t = Some (Blocking y)"
    using tk unfolding e by (simp add: reg_state_def task_put_reg mark_blocking_def)
qed

lemma retarget_moved_spec:
  "sys_inv K E X s \<Longrightarrow> distinct ts \<Longrightarrow> set ts \<subseteq> X \<Longrightarrow> (\<And>t. t \<in> set ts \<Longrightarrow> moved_waiter E x y t s) \<Longrightarrow>
   \<exists>s'. retarget_moved x y (map (\<lambda>t. (t, f)) ts) s = (ts, s') \<and> sys_inv K E (X - set ts) s' \<and>
     same_cpus s s' \<and> ms_wait s' = ms_wait s \<and> on_cpu s' = on_cpu s \<and> defers s' = defers s \<and>
     (\<forall>u. u \<notin> set ts \<longrightarrow> same_task s s' u) \<and>
     (\<forall>t \<in> set ts. waits s' t y \<and> reg_state (ms_reg s') t = Some (Blocking y))"
proof (induction ts arbitrary: s X)
  case Nil
  then show ?case by auto
next
  case (Cons t ts)
  have t: "t \<in> X" "moved_waiter E x y t s" using Cons.prems(3,4) by auto
  let ?s = "put_reg (reg_mark_blocking t y (ms_reg s)) s"
  note r = retarget_one [OF Cons.prems(1) t]
  have m: "moved_waiter E x y u ?s" if "u \<in> set ts" for u
  proof -
    have "u \<noteq> t" using Cons.prems(2) that by auto
    then show ?thesis using Cons.prems(4) [of u] that moved_waiter_same [OF r(2)] by simp
  qed
  have "set ts \<subseteq> X - {t}" using Cons.prems(2,3) by auto
  from Cons.IH [OF r(1) _ this m] Cons.prems(2) obtain s' where
    s': "retarget_moved x y (map (\<lambda>t. (t, f)) ts) ?s = (ts, s')" "sys_inv K E (X - {t} - set ts) s'"
    "same_cpus ?s s'" "ms_wait s' = ms_wait s" "on_cpu s' = on_cpu s" "defers s' = defers s"
    "\<forall>u. u \<notin> set ts \<longrightarrow> same_task ?s s' u"
    "\<forall>t \<in> set ts. waits s' t y \<and> reg_state (ms_reg s') t = Some (Blocking y)" by auto
  have st: "reg_state (ms_reg s) t = Some (Blocking x)"
    using t(2) by (auto simp: moved_waiter_def reg_state_def task_def)
  have "same_task ?s s' t" using s'(7) Cons.prems(2) by simp
  then have "waits s' t y \<and> reg_state (ms_reg s') t = Some (Blocking y)"
    using t(2) r(3) by (auto simp: same_task_def moved_waiter_def reg_state_def task_def)
  moreover have "same_task s s' u" if "u \<notin> set (t # ts)" for u
    using same_trans(2) [OF r(2)] s'(7) that by simp
  moreover have "X - {t} - set ts = X - set (t # ts)" by auto
  moreover have "same_cpus s s'" using s'(3) by (simp add: same_cpus_def)
  ultimately show ?case using s' st by simp
qed

text \<open>The wait queues after the first waiters left and the next ones moved.\<close>

lemma requeued_obs:
  assumes inv: "sys_inv K E X s" and r: "requeued f d k n (ms_wait s) w"
    and ws: "woken = take k (queue_of f s)" "ms = (if f = d then [] else take n (drop k (queue_of f s)))"
  shows "u \<in> set (waiters x w) \<longleftrightarrow>
      u \<notin> set woken \<and> (if u \<in> set ms then x = WaitQueue d else waits s u x)"
    "distinct (woken @ ms)" "\<And>t. t \<in> set (woken @ ms) \<Longrightarrow> waits s t (WaitQueue f)"
proof -
  let ?q = "queue_of f s"
  note o = waits_onceD [OF sys_wait_ok(2) [OF inv]]
  have dq: "distinct ?q" by (simp add: queue_of_def o(1))
  define rest where "rest = drop (length ms) (drop k ?q)"
  have ms: "ms = (if f = d then [] else take n (drop k ?q))" by (rule ws(2))
  have "ms @ rest = drop k ?q"
    unfolding rest_def ms by (simp only: drop_length_take append_take_drop_id list.size drop_0 append_Nil split: if_split) simp
  then have split: "?q = woken @ ms @ rest" by (simp add: ws(1))
  show dist: "distinct (woken @ ms)" using dq split by (metis append_assoc distinct_append)
  show at: "waits s t (WaitQueue f)" if "t \<in> set (woken @ ms)" for t
    using that split by (auto simp: waits_def queue_of_def)
  have q: "waiters (WaitQueue f) w = rest" "f \<noteq> d \<Longrightarrow> waiters (WaitQueue d) w = queue_of d s @ ms"
    "\<And>x. x \<noteq> WaitQueue f \<Longrightarrow> x \<noteq> WaitQueue d \<Longrightarrow> waiters x w = waiters x (ms_wait s)"
    using r unfolding requeued_def Let_def rest_def ms queue_of_def by (simp_all split: if_splits)
  have here: "u \<in> set (woken @ ms @ rest) \<longleftrightarrow> waits s u (WaitQueue f)"
    using split by (simp add: waits_def queue_of_def)
  have apart: "u \<in> set (woken @ ms @ rest) \<Longrightarrow> waits s u y \<Longrightarrow> y = WaitQueue f" for y
    using o(3) here by (auto simp: waits_def)
  have dr: "distinct (woken @ ms @ rest)" using dq split by simp
  show "u \<in> set (waiters x w) \<longleftrightarrow>
      u \<notin> set woken \<and> (if u \<in> set ms then x = WaitQueue d else waits s u x)"
  proof (cases "x = WaitQueue f")
    case True
    have "u \<in> set ms \<Longrightarrow> f \<noteq> d" by (auto simp: ms split: if_splits)
    with True q(1) here dr show ?thesis by auto
  next
    case False
    show ?thesis
    proof (cases "x = WaitQueue d")
      case True
      then have "set (waiters x w) = {u. waits s u x} \<union> set ms"
        using False q(2) by (auto simp: waits_def queue_of_def)
      then show ?thesis using True False apart [of x] dr by auto
    next
      case other: False
      then have "set (waiters x w) = {u. waits s u x}" using False q(3) by (auto simp: waits_def)
      then show ?thesis using other False apart [of x] by auto
    qed
  qed
qed

lemma requeue_detailed_spec:
  assumes inv: "sys_inv K E {} s" and hf: "held (WaitQueue f) (ms_wait s)" and hd: "held (WaitQueue d) (ms_wait s)"
    and ws: "woken = take k (queue_of f s)" "ms = (if f = d then [] else take n (drop k (queue_of f s)))"
  shows "\<exists>s'. requeue_wait_queue_detailed f d k n s = Some ((woken, ms), s') \<and> sys_inv K E {} s' \<and>
    same_cpus s s' \<and> on_cpu s' = on_cpu s \<and> defers s' = defers s \<and>
    (\<forall>u. u \<notin> set (woken @ ms) \<longrightarrow> same_task s s' u) \<and> (\<forall>t \<in> set woken. readied t s') \<and>
    (\<forall>t \<in> set ms. waits s' t (WaitQueue d) \<and> reg_state (ms_reg s') t = Some (Blocking (WaitQueue d)))"
proof -
  let ?w = "ms_wait s"
  note g = sys_globD [OF sys_invD(1) [OF inv]]
  obtain c w where w: "requeue_wait_queue f d k n ?w = Some (woken, map (\<lambda>t. (t, f)) ms, c, w)"
    "requeued f d k n ?w w"
    using requeue_spec [OF sys_wait_ok(1) [OF inv] hf hd, of k n] ws by (auto simp: queue_of_def split: if_splits)
  note obs = requeued_obs [OF inv w(2) ws]
  have sl: "wq_sleep w = wq_sleep ?w" by (rule requeue_sleep(1) [OF w(1)])
  have ex: "wq_exited w = wq_exited ?w" by (rule requeue_sleep(2) [OF w(1)])
  let ?s = "put_wait w s" and ?A = "set (woken @ ms)"
  have i: "sys_inv K E ?A ?s"
  proof (rule put_wait_inv [OF sys_inv_mono [OF inv]])
    show "wq_inv w" by (rule requeue_keeps [OF g(3) hf hd w(1)])
    show "distinct (wq_exited w)" using g(4) ex by simp
  qed (use obs(1) in \<open>auto simp: sleeps_def sleepers_def sl ex in_exited_def\<close>)
  have st: "\<exists>T. task s t = Some T \<and> \<not> tcb_is_idle T \<and> tc_running_cpu T = None \<and> tc_ready_cpu T = None \<and>
      (\<forall>c. \<not> on_queue s t c) \<and> (\<forall>c. \<not> defers s t c) \<and> (\<forall>c. c \<notin> E \<longrightarrow> \<not> on_cpu s t c) \<and> \<not> in_exited s t \<and>
      tc_state T = Blocking (WaitQueue f) \<and> \<not> sleeps s t" if "t \<in> ?A" for t
  proof -
    have a: "waits s t (WaitQueue f) \<or> sleeps s t" "waits s t (WaitQueue f)" using obs(3) [OF that] by auto
    have k: "task_ok E s t" by (rule sys_invD(2) [OF inv]) simp
    have n: "\<not> sleeps s t"
      using a(2) waits_onceD(4) [OF sys_wait_ok(2) [OF inv]] by (simp add: waits_def sleeps_def)
    show ?thesis
      by (rule waiting_dormant [OF sys_invD(1) [OF inv] k a(1)]) (use a(2) n in blast)
  qed
  have dw: "distinct woken" "distinct ms" "set woken \<inter> set ms = {}" using obs(2) by auto
  have b: "blocked_at E (WaitQueue f) t ?s" if t: "t \<in> set woken" for t
  proof -
    obtain T where T: "task s t = Some T" "\<not> tcb_is_idle T" "tc_running_cpu T = None" "tc_ready_cpu T = None"
      "\<forall>c. \<not> on_queue s t c" "\<forall>c. \<not> defers s t c" "\<forall>c. c \<notin> E \<longrightarrow> \<not> on_cpu s t c" "\<not> in_exited s t"
      "tc_state T = Blocking (WaitQueue f)" "\<not> sleeps s t" using st [of t] t by auto
    have "dormant E ?s t T"
      using T t obs(1) by (simp add: dormant_def put_wait_obs) (simp add: sleepers_def sleeps_def sl ex in_exited_def)
    with T show ?thesis by (auto simp: blocked_at_def resting_def reg_state_def task_def)
  qed
  have m: "moved_waiter E (WaitQueue f) (WaitQueue d) t ?s" if t: "t \<in> set ms" for t
  proof -
    obtain T where T: "task s t = Some T" "\<not> tcb_is_idle T"
      "\<forall>c. \<not> on_queue s t c" "\<forall>c. \<not> defers s t c" "\<forall>c. c \<notin> E \<longrightarrow> \<not> on_cpu s t c" "\<not> in_exited s t"
      "tc_state T = Blocking (WaitQueue f)" "\<not> sleeps s t" using st [of t] t by auto
    then show ?thesis
      using t obs(1) dw(3) by (auto simp: moved_waiter_def put_wait_obs sleepers_def sleeps_def sl ex in_exited_def)
  qed
  obtain s1 where s1: "resume_waiting (WaitQueue f) woken ?s = Some (woken, s1)"
    "wakes K E ?A ?s (set woken) s1"
    using resume_waiting_wakes [OF i dw(1) _ b] by auto
  have mv: "moved (set woken) ?s s1" using s1(2) by (simp add: wakes_def)
  have "?A - set woken = set ms" using dw(3) by auto
  then have i1: "sys_inv K E (set ms) s1" using s1(2) by (simp add: wakes_def)
  have m1: "moved_waiter E (WaitQueue f) (WaitQueue d) t s1" if "t \<in> set ms" for t
  proof -
    have "same_task ?s s1 t" by (rule movedD(5) [OF mv]) (use that dw(3) in blast)
    then show ?thesis using m [OF that] moved_waiter_same by blast
  qed
  obtain s2 where s2: "retarget_moved (WaitQueue f) (WaitQueue d) (map (\<lambda>t. (t, f)) ms) s1 = (ms, s2)"
    "sys_inv K E {} s2" "same_cpus s1 s2" "on_cpu s2 = on_cpu s1" "defers s2 = defers s1"
    "\<forall>u. u \<notin> set ms \<longrightarrow> same_task s1 s2 u"
    "\<forall>t \<in> set ms. waits s2 t (WaitQueue d) \<and> reg_state (ms_reg s2) t = Some (Blocking (WaitQueue d))"
    using retarget_moved_spec [OF i1 dw(2) order_refl m1, of f] by auto
  have run: "requeue_wait_queue_detailed f d k n s = Some ((woken, ms), s2)"
    using w(1) s1(1) s2(1) by (simp add: requeue_wait_queue_detailed_def)
  have cpus: "same_cpus s s2" "on_cpu s2 = on_cpu s" "defers s2 = defers s"
    using movedD(1,3,4) [OF mv] s2(3-5) by (simp_all add: same_cpus_def put_wait_obs) 
  have other: "same_task s s2 u" if "u \<notin> ?A" for u
  proof -
    have "same_task s ?s u"
      by (rule put_wait_same_task) (use that obs(1) in \<open>auto simp: sleepers_def sleeps_def sl ex in_exited_def\<close>)
    moreover have "same_task ?s s1 u" by (rule movedD(5) [OF mv]) (use that in simp)
    moreover have "same_task s1 s2 u" using s2(6) that by simp
    ultimately show ?thesis using same_trans(2) by blast
  qed
  have "readied t s2" if "t \<in> set woken" for t
  proof -
    have "readied t s1" using s1(2) that by (simp add: wakes_def)
    moreover have "same_task s1 s2 t" using s2(6) that dw(3) by blast
    ultimately show ?thesis by (simp add: readied_def same_task_def)
  qed
  with run s2(2,7) cpus other show ?thesis by blast
qed

end
