(* ===== verification/Multi_Switch.thy ===== *)
theory Multi_Switch
  imports Multi_Wakers
begin

text \<open>
  Switches: the running task leaves its CPU to where the reason of the switch sends it, the next
  task is chosen and installed. While a CPU is in between it is in the set \<open>E\<close> of the invariant,
  so that what it runs is not counted.
\<close>

section \<open>The fields the operations of a CPU keep\<close>

definition same_place :: "cpu_state \<Rightarrow> cpu_state \<Rightarrow> bool" where
  "same_place st st' \<longleftrightarrow> cs_cpu_id st' = cs_cpu_id st \<and> idle_task_id st' = idle_task_id st \<and>
     online st' = online st \<and> deferred_ready st' = deferred_ready st"

lemma pick_realtime_place:
  "pick_realtime n st = Some (t, st') \<Longrightarrow> same_place st st' \<and> current_snapshot st' = current_snapshot st"
proof (induction n)
  case (Suc n)
  then show ?case by (auto simp: same_place_def split: option.splits prod.splits)
qed simp

lemma pick_place:
  assumes "pick_next_runnable st = Some (t, st')"
  shows "same_place st st' \<and> current_snapshot st' = current_snapshot st"
proof (cases "pick_realtime 99 st")
  case None
  have f: "same_place st (snd (pick_fair st)) \<and> current_snapshot (snd (pick_fair st)) = current_snapshot st"
    by (auto simp: pick_fair_def same_place_def split: option.splits prod.splits)
  obtain r s1 where r: "pick_fair st = (r, s1)" by (cases "pick_fair st")
  with f have f1: "same_place st s1 \<and> current_snapshot s1 = current_snapshot st" by simp
  show ?thesis
  proof (cases r)
    case None': None
    then show ?thesis
      using assms None r f1 by (auto simp: pick_next_runnable_def same_place_def split: option.splits prod.splits)
  next
    case (Some p)
    then show ?thesis
      using assms None r f1 by (cases p) (auto simp: pick_next_runnable_def same_place_def)
  qed
next
  case (Some p)
  then show ?thesis using assms pick_realtime_place by (auto simp: pick_next_runnable_def)
qed

text \<open>A change of one CPU that moves no task and keeps the nice value in range.\<close>

definition touched :: "cpu_state \<Rightarrow> cpu_state \<Rightarrow> bool" where
  "touched st st' \<longleftrightarrow> same_place st st' \<and> cpu_ok st' \<and> ready_mset st' = ready_mset st \<and>
     current_task_id st' = current_task_id st \<and> current_nice st' = current_nice st"

lemma touched_queues:
  assumes "cpu_ok st" "same_place st st'" "current_task_id st' = current_task_id st"
    "current_nice st' = current_nice st" "cfs_q st' = cfs_q st" "batch_q st' = batch_q st"
    "idle_q st' = idle_q st" "rr_q st' = rr_q st" "fifo_q st' = fifo_q st"
  shows "touched st st'"
  using assms ready_mset_queues [of st' st] by (simp add: touched_def)

lemma touched_wf:
  assumes "cpu_wf c st" "touched st st'"
  shows "cpu_wf c st'"
  using assms
  by (auto simp: cpu_wf_def touched_def same_place_def current_nice_def current_task_id_def split: option.splits)

text \<open>Nothing moved: the observations of every task are the same.\<close>

definition still :: "mcs \<Rightarrow> mcs \<Rightarrow> bool" where
  "still s s' \<longleftrightarrow> same_cpus s s' \<and> ms_wait s' = ms_wait s \<and> (\<forall>t. same_task s s' t)"

lemma still_refl [simp]: "still s s"
  by (auto simp: still_def)

lemma still_trans: "still s s' \<Longrightarrow> still s' s'' \<Longrightarrow> still s s''"
  using same_trans(1) [of s s' s''] same_trans(2) [of s s' _ s''] by (simp add: still_def)

lemma stillD:
  assumes "still s s'"
  shows "same_cpus s s'" "ms_wait s' = ms_wait s" "task s' = task s" "on_queue s' = on_queue s"
    "on_cpu s' = on_cpu s" "defers s' = defers s"
  using assms by (simp_all add: still_def same_task_def fun_eq_iff)

lemma touch_spec:
  assumes inv: "sys_inv K E X s" and c: "c < length (ms_cpus s)" and t: "touched (ms_cpus s ! c) st"
  shows "sys_inv K E X (put_cpu c st s)" "still s (put_cpu c st s)"
proof -
  note g = sys_globD [OF sys_invD(1) [OF inv]]
  have wf: "cpu_wf c st" by (rule touched_wf [OF g(6) [OF c] t])
  show "sys_inv K E X (put_cpu c st s)"
    by (rule put_cpu_inv [OF inv c wf])
      (use t c g(8) in \<open>auto simp: touched_def same_place_def on_queue_def on_cpu_def defers_def\<close>)
  have "same_task s (put_cpu c st s) u" for u
    by (rule put_cpu_same_task [OF c]) (use t in \<open>simp_all add: touched_def same_place_def\<close>)
  then show "still s (put_cpu c st s)"
    using put_cpu_same_cpus [OF c] t by (simp add: still_def touched_def same_place_def)
qed

lemma touches:
  assumes "cpu_ok st"
  shows "touched st (prepare_yield st)" "touched st (leave_boot_context st)"
    "touched st (st\<lparr>current_runtime_ticks := n\<rparr>)" "touched st (st\<lparr>need_resched := b\<rparr>)"
  using assms
  by (auto intro!: touched_queues simp: same_place_def prepare_yield_def leave_boot_context_def current_task_id_def
      current_nice_def option.map_comp comp_def split: option.splits sched_policy.splits)

lemma tick_touched:
  assumes ok: "cpu_ok st" and n: "-20 \<le> current_nice st" "current_nice st \<le> 19"
  shows "\<exists>st'. cpu_tick st = Some st' \<and> touched st st'"
proof -
  have w: "\<exists>w. nice_weight (current_nice st) = Some w"
    using n nice_weight_None [of "current_nice st"] by (cases "nice_weight (current_nice st)") auto
  have f: "touched st (counted st)"
    by (rule touched_queues [OF ok]) (simp_all add: counted_def same_place_def current_task_id_def current_nice_def Let_def)
  have a: "touched st (advance_current_vruntime d (counted st))" for d
    by (rule touched_queues [OF ok])
      (simp_all add: advance_current_vruntime_def counted_def same_place_def current_task_id_def current_nice_def
        Let_def option.map_comp comp_def split: option.split)
  have u: "touched st (x\<lparr>min_vruntime := m\<rparr>)" "touched st (x\<lparr>idle_min_vruntime := m\<rparr>)" if "touched st x" for x m
    using that ready_mset_queues [of "x\<lparr>min_vruntime := m\<rparr>" x] ready_mset_queues [of "x\<lparr>idle_min_vruntime := m\<rparr>" x]
    by (simp_all add: touched_def same_place_def current_task_id_def current_nice_def)
  have m: "touched st (update_min_vruntime x)" "touched st (update_idle_min_vruntime x)" if "touched st x" for x
    using u [OF that] that by (auto simp: update_min_vruntime_def update_idle_min_vruntime_def Let_def split: option.split)
  have r: "touched st ((counted st)\<lparr>current_ticks := k\<rparr>)" for k
    by (rule touched_queues [OF ok]) (simp_all add: counted_def same_place_def current_task_id_def current_nice_def Let_def)
  show ?thesis
    using w f a m r by (auto simp: cpu_tick_eq Let_def)
qed

section \<open>Writing back what the CPU caches\<close>

text \<open>Only fields that the consistency of a task does not look at have changed.\<close>

definition refreshed :: "task_id \<Rightarrow> mcs \<Rightarrow> mcs \<Rightarrow> bool" where
  "refreshed i s s' \<longleftrightarrow> same_cpus s s' \<and> ms_wait s' = ms_wait s \<and> on_queue s' = on_queue s \<and>
     on_cpu s' = on_cpu s \<and> defers s' = defers s \<and>
     (\<forall>t. rel_option cosmetic (task s t) (task s' t)) \<and> (\<forall>t. t \<noteq> i \<longrightarrow> task s' t = task s t)"

lemma cosmetic_refl [simp]: "cosmetic T T"
  by (simp add: cosmetic_def)

lemma cosmetic_trans: "cosmetic T T' \<Longrightarrow> cosmetic T' T'' \<Longrightarrow> cosmetic T T''"
  by (simp add: cosmetic_def)

lemma cosmetic_rel [simp]: "rel_option cosmetic x x"
  by (cases x) simp_all

lemma still_refreshed: "still s s' \<Longrightarrow> refreshed i s s'"
  by (simp add: refreshed_def still_def same_task_def fun_eq_iff)

lemma refreshed_trans:
  assumes "refreshed i s s'" "refreshed i s' s''"
  shows "refreshed i s s''"
proof -
  have "rel_option cosmetic (task s t) (task s'' t)" for t
  proof -
    have "rel_option cosmetic (task s t) (task s' t)" "rel_option cosmetic (task s' t) (task s'' t)"
      using assms by (simp_all add: refreshed_def)
    then show ?thesis
      by (cases "task s t"; cases "task s' t"; cases "task s'' t") (auto intro: cosmetic_trans)
  qed
  then show ?thesis
    using assms same_trans(1) [of s s' s''] by (simp add: refreshed_def)
qed

lemma refreshed_task:
  assumes "refreshed i s s'" "task s t = Some T"
  obtains T' where "task s' t = Some T'" "cosmetic T T'"
proof -
  have "rel_option cosmetic (task s t) (task s' t)" using assms(1) by (simp add: refreshed_def)
  then show thesis using assms(2) that by (auto simp: option_rel_Some1)
qed

lemma cosmetic_put:
  assumes inv: "sys_inv K E X s" and T: "task s t = Some T" and c: "cosmetic T T'"
  shows "sys_inv K E X (put_reg (reg_put t T' (ms_reg s)) s)"
    "refreshed t s (put_reg (reg_put t T' (ms_reg s)) s)"
    "task (put_reg (reg_put t T' (ms_reg s)) s) t = Some T'"
  using cosmetic_inv [OF assms] T c by (simp_all add: refreshed_def)

lemma modify_put:
  assumes "task s t = Some T"
  shows "reg_modify t f (ms_reg s) = reg_put t (f T) (ms_reg s)"
  using assms by (simp add: reg_modify_def task_def)

lemma add_ticks_spec:
  assumes inv: "sys_inv K E X s" and T: "task s t = Some T"
  shows "sys_inv K E X (put_reg (reg_add_ticks t n (ms_reg s)) s) \<and>
    refreshed t s (put_reg (reg_add_ticks t n (ms_reg s)) s)"
proof (cases "n = 0")
  case True
  then show ?thesis using inv still_refreshed [OF still_refl] by (simp add: reg_add_ticks_def)
next
  case False
  let ?f = "\<lambda>T. if \<not> tcb_is_idle T then tcb_add_ticks n T else T"
  have "cosmetic T (?f T)" by (simp add: cosmetic_def tcb_add_ticks_def)
  from cosmetic_put [OF inv T this] show ?thesis
    using False by (simp add: reg_add_ticks_def modify_put [OF T])
qed

lemma sync_spec:
  assumes inv: "sys_inv K E X s" and c: "c < length (ms_cpus s)"
    and t: "current_task_id (ms_cpus s ! c) = Some t" and reg: "task s t \<noteq> None"
  shows "\<exists>s'. sync_current_to_registry c s = Some s' \<and> sys_inv K E X s' \<and> refreshed t s s'"
proof -
  let ?st = "ms_cpus s ! c"
  note g = sys_globD [OF sys_invD(1) [OF inv]]
  obtain T where T: "task s t = Some T" using reg by blast
  let ?s1 = "put_cpu c (?st\<lparr>current_runtime_ticks := 0\<rparr>) s"
  note s1 = touch_spec [OF inv c touches(3) [OF cpu_wfD(1) [OF g(6) [OF c]]], of 0]
  have T1: "task ?s1 t = Some T" using T stillD(3) [OF s1(2)] by simp
  obtain r T2 where r: "(if is_cfs_policy (current_policy ?st)
      then reg_set_vruntime t (current_vruntime ?st) (ms_reg ?s1) else Some (ms_reg ?s1)) = Some r"
    "sys_inv K E X (put_reg r ?s1)" "refreshed t ?s1 (put_reg r ?s1)" "task (put_reg r ?s1) t = Some T2"
  proof (cases "is_cfs_policy (current_policy ?st)")
    case True
    let ?T = "T\<lparr>tc_vruntime := current_vruntime ?st\<rparr>"
    have e: "reg_set_vruntime t (current_vruntime ?st) (ms_reg ?s1) = Some (reg_put t ?T (ms_reg ?s1))"
      using T1 by (simp add: reg_set_vruntime_def reg_expect_def task_def)
    have "cosmetic T ?T" by (simp add: cosmetic_def)
    from cosmetic_put [OF s1(1) T1 this] e True show thesis by (auto intro: that)
  next
    case False
    have "put_reg (ms_reg ?s1) ?s1 = ?s1" by (simp only: put_reg_twice)
    then show thesis
      by (intro that [of "ms_reg ?s1" T]) (use False s1 T1 still_refreshed [OF still_refl] in \<open>simp_all del: put_simps\<close>)
  qed
  let ?s2 = "put_reg (reg_add_ticks t (current_runtime_ticks ?st) r) ?s1"
  have a: "sys_inv K E X ?s2 \<and> refreshed t (put_reg r ?s1) ?s2"
    using add_ticks_spec [OF r(2,4), of "current_runtime_ticks ?st"] by simp
  have "sync_current_to_registry c s = Some ?s2"
    using t r(1) c by (simp add: sync_current_to_registry_def cpu_at_def)
  moreover have "refreshed t s ?s2"
    using refreshed_trans [OF refreshed_trans [OF still_refreshed [OF s1(2)] r(3)]] a by blast
  ultimately show ?thesis using a by blast
qed

section \<open>Opening and closing a switch\<close>

lemma task_okI:
  "task s t = Some T \<Longrightarrow> \<not> tcb_is_idle T \<Longrightarrow> live_ok E s t T \<Longrightarrow> task_ok E s t"
  by (simp add: task_ok_def)

lemma current_cpu:
  assumes "on_cpu s t c" "on_cpu s u c"
  shows "u = t"
  using assms by (simp add: on_cpu_def)

lemma open_switch:
  assumes inv: "sys_inv K {} X s" and t: "on_cpu s t c" and ex: "t \<in> X \<or> idle_of s t c"
  shows "sys_inv K {c} X s"
proof -
  have "task_ok {c} s u" if u: "u \<notin> X" for u
  proof -
    have ok: "task_ok {} s u" by (rule sys_invD(2) [OF inv u])
    have ab: "absent_ok {} s u \<Longrightarrow> absent_ok {c} s u" by (auto simp: absent_ok_def)
    show ?thesis
    proof (cases "u = t")
      case True
      with ex u obtain T where "task s u = Some T" "tcb_is_idle T"
        using sys_globD(7) [OF sys_invD(1) [OF inv]] by blast
      with ok ab show ?thesis by (simp add: task_ok_def)
    next
      case False
      then have "\<not> on_cpu s u c" using current_cpu [OF t] by blast
      then have "live_ok {} s u T \<Longrightarrow> live_ok {c} s u T" for T by (auto simp: live_ok_def)
      with ok ab show ?thesis by (auto simp: task_ok_def split: option.splits)
    qed
  qed
  with sys_invD(1) [OF inv] show ?thesis by (simp add: sys_inv_def)
qed

lemma close_switch:
  assumes inv: "sys_inv K {c} {t} s" and t: "on_cpu s t c" and ok: "task_ok {} s t"
  shows "sys_inv K {} {} s"
proof -
  have "task_ok {} s u" for u
  proof (cases "u = t")
    case False
    then have "\<not> on_cpu s u c" using current_cpu [OF t] by blast
    then have "live_ok {c} s u T \<Longrightarrow> live_ok {} s u T" "absent_ok {c} s u \<Longrightarrow> absent_ok {} s u" for T
      by (auto simp: live_ok_def absent_ok_def)
    moreover have "task_ok {c} s u" using False by (intro sys_invD(2) [OF inv]) simp
    ultimately show ?thesis by (auto simp: task_ok_def split: option.splits)
  qed (use ok in simp)
  with sys_invD(1) [OF inv] show ?thesis by (simp add: sys_inv_def)
qed

text \<open>The running task of a CPU that is not idle.\<close>

lemma running_task:
  assumes inv: "sys_inv K {} {} s" and t: "on_cpu s t c" and n: "\<not> idle_of s t c"
  obtains T where "task s t = Some T" "\<not> tcb_is_idle T" "live_ok {} s t T" "tc_running_cpu T = Some c"
    "tc_state T = Running" "tc_ready_cpu T = None"
proof -
  have ok: "task_ok {} s t" by (rule sys_invD(2) [OF inv]) simp
  then obtain T where T: "task s t = Some T" "\<not> tcb_is_idle T" "live_ok {} s t T"
    using t n by (auto simp: task_ok_def absent_ok_def split: option.splits if_splits)
  have r: "tc_running_cpu T = Some c" using T(3) t by (auto simp: live_ok_def)
  moreover from this have "tc_state T = Running" "tc_ready_cpu T = None"
    using task_tcb_ok [OF sys_invD(1) [OF inv] T(1)] by (auto simp: tcb_ok_def)
  ultimately show thesis using T that by blast
qed

lemma current_registered:
  assumes inv: "sys_inv K {} {} s" and t: "on_cpu s t c"
  shows "task s t \<noteq> None"
proof (cases "idle_of s t c")
  case True
  then show ?thesis using sys_globD(7) [OF sys_invD(1) [OF inv]] by blast
next
  case False
  then show ?thesis using running_task [OF inv t] by blast
qed

end
