(* ===== verification/Multi_Leave.thy ===== *)
theory Multi_Leave
  imports Multi_Switch
begin

text \<open>
  How the running task leaves its CPU: to a ready queue, to the slot for its migration, to a wait
  queue, to the sleepers or to the exited tasks. Every way out is total under the invariant and
  ends with the CPU in the middle of its switch.
\<close>

section \<open>The outcome\<close>

definition state_is :: "mcs \<Rightarrow> task_id \<Rightarrow> task_state \<Rightarrow> bool" where
  "state_is s t st \<longleftrightarrow> (\<exists>T. task s t = Some T \<and> tc_state T = st)"

definition left_to :: "queue_target \<Rightarrow> task_id \<Rightarrow> nat \<Rightarrow> mcs \<Rightarrow> mcs \<Rightarrow> bool" where
  "left_to target t c s s' \<longleftrightarrow>
     (case target of
        ToReady \<Rightarrow>
          (case task s t of
             None \<Rightarrow> False
           | Some T \<Rightarrow>
               if mask_contains (tc_affinity T) c then readied t s' \<and> on_queue s' t c else defers s' t c)
      | ToBlocked x \<Rightarrow> waits s' t x \<and> state_is s' t (Blocking x)
      | ToSleeping n \<Rightarrow> sleeps s' t \<and> state_is s' t (Sleeping n)
      | ToExited code \<Rightarrow> in_exited s' t \<and> state_is s' t (Exited code))"

text \<open>The tasks an exit wakes: those that wait for the task, and those that wait for a child of its parent.\<close>

definition exit_wakes :: "mcs \<Rightarrow> task_id \<Rightarrow> task_id set" where
  "exit_wakes s t = set (waiters (TaskExit t) (ms_wait s)) \<union>
     (case task s t of
        None \<Rightarrow> {}
      | Some T \<Rightarrow> (case tc_parent T of None \<Rightarrow> {} | Some p \<Rightarrow> set (waiters (ChildExit p) (ms_wait s))))"

definition woken_by :: "queue_target \<Rightarrow> task_id \<Rightarrow> mcs \<Rightarrow> task_id set" where
  "woken_by target t s = (case target of ToExited _ \<Rightarrow> exit_wakes s t | _ \<Rightarrow> {})"

text \<open>
  The tasks an exit forgets: the wait for a child of the exiting task is deleted with its queue, so
  whoever else waits there stays blocked in no queue.
\<close>

definition lost_by :: "queue_target \<Rightarrow> task_id \<Rightarrow> mcs \<Rightarrow> task_id set" where
  "lost_by target t s =
     (case target of ToExited _ \<Rightarrow> set (waiters (ChildExit t) (ms_wait s)) - exit_wakes s t | _ \<Rightarrow> {})"

definition leaves :: "(nat \<Rightarrow> bool) \<Rightarrow> queue_target \<Rightarrow> task_id \<Rightarrow> nat \<Rightarrow> mcs \<Rightarrow> mcs \<Rightarrow> bool" where
  "leaves K target t c s s' \<longleftrightarrow> sys_inv K {c} {} s' \<and> same_cpus s s' \<and> on_cpu s' = on_cpu s \<and>
     left_to target t c s s' \<and> (\<forall>u \<in> woken_by target t s. readied u s') \<and>
     (\<forall>u \<in> lost_by target t s. state_is s' u (Blocking (ChildExit t)) \<and> (\<forall>x. \<not> waits s' u x)) \<and>
     (\<forall>u. u \<noteq> t \<longrightarrow> u \<notin> woken_by target t s \<longrightarrow> u \<notin> lost_by target t s \<longrightarrow> same_task s s' u)"

text \<open>
  The running task after its ticks were written back: it is not idle, it runs on \<open>c\<close>, and the
  switch of \<open>c\<close> is open for it.
\<close>

definition departing :: "(nat \<Rightarrow> bool) \<Rightarrow> task_id \<Rightarrow> tcb \<Rightarrow> nat \<Rightarrow> mcs \<Rightarrow> bool" where
  "departing K t T c s \<longleftrightarrow> sys_inv K {c} {t} s \<and> sys_inv K {} {} s \<and> on_cpu s t c \<and> task s t = Some T \<and>
     \<not> tcb_is_idle T \<and> tc_state T = Running \<and> tc_running_cpu T = Some c \<and> tc_ready_cpu T = None \<and>
     (\<forall>d. \<not> on_queue s t d) \<and> (\<forall>d. \<not> defers s t d) \<and> (\<forall>d. on_cpu s t d \<longrightarrow> d = c) \<and>
     (\<forall>x. \<not> waits s t x) \<and> \<not> sleeps s t \<and> \<not> in_exited s t"

lemma departingD:
  assumes "departing K t T c s"
  shows "sys_inv K {c} {t} s" "sys_inv K {} {} s" "on_cpu s t c" "task s t = Some T" "\<not> tcb_is_idle T"
    "tc_state T = Running" "tc_running_cpu T = Some c" "tc_ready_cpu T = None" "\<not> on_queue s t e"
    "\<not> defers s t e" "on_cpu s t e \<longleftrightarrow> e = c" "\<not> waits s t x" "\<not> sleeps s t" "\<not> in_exited s t"
  using assms unfolding departing_def by blast+

lemma departingI:
  assumes inv: "sys_inv K {} {} s" and t: "on_cpu s t c" and n: "\<not> idle_of s t c"
  obtains T where "departing K t T c s"
proof -
  obtain T where T: "task s t = Some T" "\<not> tcb_is_idle T" "live_ok {} s t T" "tc_running_cpu T = Some c"
    "tc_state T = Running" "tc_ready_cpu T = None" by (rule running_task [OF assms])
  have "sys_inv K {} {t} s" by (rule sys_inv_mono [OF inv]) simp
  from open_switch [OF this t] have "sys_inv K {c} {t} s" by simp
  with T inv t have "departing K t T c s"
    unfolding departing_def by (auto simp: live_ok_def is_exited_def)
  then show thesis by (rule that)
qed

lemma not_idle_task:
  assumes "sys_glob K s" "task s t = Some T" "\<not> tcb_is_idle T"
  shows "\<not> idle_of s t c"
proof
  assume "idle_of s t c"
  from sys_globD(7) [OF assms(1) this] assms(2,3) show False by simp
qed

lemma refreshed_same: "refreshed t s s' \<Longrightarrow> u \<noteq> t \<Longrightarrow> same_task s s' u"
  using wait_cong [of s' s] by (simp add: refreshed_def same_task_def)

lemma departing_sync:
  assumes d: "departing K t T c s"
  shows "\<exists>s' T'. sync_current_to_registry c s = Some s' \<and> departing K t T' c s' \<and> cosmetic T T' \<and>
    refreshed t s s'"
proof -
  have i: "sys_inv K {} {} s" "on_cpu s t c" "task s t = Some T" using d by (simp_all add: departing_def)
  have c: "c < length (ms_cpus s)" "current_task_id (ms_cpus s ! c) = Some t" using i(2) by (simp_all add: on_cpu_def)
  obtain s' where s': "sync_current_to_registry c s = Some s'" "sys_inv K {} {} s'" "refreshed t s s'"
    using sync_spec [OF i(1) c] i(3) by auto
  obtain T' where T': "task s' t = Some T'" "cosmetic T T'" by (rule refreshed_task [OF s'(3) i(3)])
  have o: "on_cpu s' = on_cpu s" "idle_of s' = idle_of s" using s'(3) by (simp_all add: refreshed_def same_cpus_def)
  have "\<not> tcb_is_idle T" using d by (simp add: departing_def)
  then have n: "\<not> idle_of s' t c" unfolding o by (rule not_idle_task [OF sys_invD(1) [OF i(1)] i(3)])
  have "on_cpu s' t c" using i(2) o by simp
  then obtain U where U: "departing K t U c s'" using departingI [OF s'(2) _ n] by blast
  then have "U = T'" using T'(1) by (simp add: departing_def)
  with U s' T' show ?thesis by blast
qed

section \<open>To a ready queue\<close>

lemma leave_ready:
  assumes d: "departing K t T c s" and on: "is_online s c" and a: "mask_contains (tc_affinity T) c"
  shows "\<exists>s'. activate t (Prefer c) s = Some s' \<and> sys_inv K {c} {} s' \<and> placed t c s s'"
proof -
  have i: "sys_inv K {c} {t} s" and T: "task s t = Some T" using d by (simp_all add: departing_def)
  have dm: "dormant {c} s t T" using d by (auto simp: departing_def dormant_def)
  have u: "usable (tc_affinity T) (ms_cpus s) c" using on a by (simp add: usable_def is_online_def)
  have m: "may_activate s t T (Prefer c)"
    using d u by (simp add: may_activate_def departing_def usable_def)
  from activate_spec [OF i _ dm m] obtain s' e where
    s': "activate_ready_task t (Prefer c) s = Some (e, s')" "sys_inv K {c} ({t} - {t}) s'" "placed t e s s'" by auto
  have "e = c"
    using pick_ready_cpu_spec [OF sys_invD(1) [OF i] T, of "Prefer c"] u s'(1)
    by (auto simp: activate_ready_task_def bind_eq_Some_conv)
  with s' show ?thesis by (auto simp: activate_def)
qed

lemma leave_deferred:
  assumes d: "departing K t T c s" and no: "\<And>u. \<not> defers s u c" and st: "st = ms_cpus s ! c"
  shows "\<exists>st'. set_deferred_ready t (cpu_dequeue t st) = Some st' \<and> sys_inv K {c} {} (put_cpu c st' s) \<and>
    defers (put_cpu c st' s) t c \<and> same_cpus s (put_cpu c st' s) \<and> on_cpu (put_cpu c st' s) = on_cpu s \<and>
    (\<forall>u. u \<noteq> t \<longrightarrow> same_task s (put_cpu c st' s) u)"
proof -
  have c: "c < length (ms_cpus s)" using d by (simp add: departing_def on_cpu_def)
  have i: "sys_inv K {c} {t} s" using d by (simp add: departing_def)
  note g = sys_globD [OF sys_invD(1) [OF i]]
  have wf: "cpu_wf c st" using g(6) [OF c] by (simp add: st)
  note r = ready_dequeue [OF cpu_wfD(1) [OF wf], of t]
  let ?st = "(cpu_dequeue t st)\<lparr>deferred_ready := Some t\<rparr>" and ?s = "put_cpu c ((cpu_dequeue t st)\<lparr>deferred_ready := Some t\<rparr>) s"
  have none: "deferred_ready st = None" using no c by (cases "deferred_ready st") (auto simp: st defers_def)
  have f: "current_snapshot ?st = current_snapshot st" "idle_task_id ?st = idle_task_id st" "online ?st = online st"
    "cs_cpu_id ?st = cs_cpu_id st" "current_task_id ?st = current_task_id st"
    by (simp_all add: cpu_dequeue_def current_task_id_def)
  note f = f f(2,3) [simplified]
  have nq: "t \<notin># ready_mset st" using d c by (auto simp: departing_def on_queue_def st)
  have same: "filter_mset (\<lambda>i. i \<noteq> t) (ready_mset st) = ready_mset st"
    using nq by (auto simp: filter_mset_eq_conv)
  have q: "ready_mset ?st = ready_mset st" "cpu_ok ?st"
    using ready_mset_queues [of ?st "cpu_dequeue t st"] r same by simp_all
  have wf': "cpu_wf c ?st" using wf q by (simp add: cpu_wf_def f)
  have run: "set_deferred_ready t (cpu_dequeue t st) = Some ?st"
    using none by (simp add: set_deferred_ready_def cpu_dequeue_def)
  have inv: "sys_inv K {c} {t} ?s"
  proof (rule put_cpu_inv [OF i c wf'])
    show "idle_task_id ?st = idle_task_id (ms_cpus s ! c)" "online ?st = online (ms_cpus s ! c)"
      using f(2,3) unfolding st by blast+
  next
    fix u assume "u \<notin> {t}"
    then show "(u \<in># ready_mset ?st \<longleftrightarrow> on_queue s u c) \<and>
      (c \<notin> {c} \<longrightarrow> (current_task_id ?st = Some u \<longleftrightarrow> on_cpu s u c)) \<and> (deferred_ready ?st = Some u \<longleftrightarrow> defers s u c)"
      using c none unfolding q(1) by (simp add: st on_queue_def defers_def)
  next
    fix u assume "u \<in># ready_mset ?st"
    then have "on_queue s u c" using c unfolding q(1) by (simp add: on_queue_def st)
    then show "\<exists>T. task s u = Some T \<and> \<not> tcb_is_idle T" by (rule g(8))
  qed
  note o = put_cpu_obs [OF c, of ?st]
  have sc: "same_cpus s ?s" by (rule put_cpu_same_cpus [OF c]) (use f in \<open>simp_all add: st\<close>)
  have on: "on_cpu ?s = on_cpu s" using c f by (auto simp: fun_eq_iff o(2)) (auto simp: on_cpu_def st)
  note D = departingD [OF d]
  have df: "defers ?s t e \<longleftrightarrow> e = c" for e by (simp add: o(3) D)
  have oq: "on_queue ?s t e \<longleftrightarrow> on_queue s t e" for e using c by (simp add: o(1) q) (simp add: on_queue_def st)
  have "live_ok {c} ?s t T"
    by (auto simp: live_ok_def df oq on o(6-9) D is_exited_def)
  then have "task_ok {c} ?s t" using d by (intro task_okI [of _ _ T]) (simp_all add: o(6) departing_def)
  with sys_inv_close [OF inv] have "sys_inv K {c} {} ?s" by fastforce
  moreover have "same_task s ?s u" if "u \<noteq> t" for u
    by (rule put_cpu_same_task [OF c]) (use that f q none in \<open>simp_all add: st\<close>)
  ultimately show ?thesis using run df on sc by blast
qed

section \<open>To a place in the wait queues\<close>

lemma mark_sleeping_fit:
  assumes "tcb_ok T" "tcb_fit K s T"
  shows "tcb_ok (mark_sleeping n T)" "tcb_is_idle (mark_sleeping n T) = tcb_is_idle T"
    "tc_id (mark_sleeping n T) = tc_id T" "tcb_fit K s (mark_sleeping n T)"
  using assms by (auto simp: mark_sleeping_def tcb_ok_def tcb_is_idle_def tcb_fit_def is_exited_def)

lemma mark_exited_fit:
  assumes "tcb_ok T" "tcb_fit K s T"
  shows "tcb_ok (mark_exited code T)" "tcb_is_idle (mark_exited code T) = tcb_is_idle T"
    "tc_id (mark_exited code T) = tc_id T" "tcb_fit K s (mark_exited code T)"
  using assms
  by (auto simp: mark_exited_def tcb_ok_def tcb_is_idle_def tcb_fit_def is_exited_def tcb_aspace_ptr_def Let_def
      split: task_inner.split)

text \<open>The last step of a departure: the state of the task and its place in the wait queues agree.\<close>

lemma depart_to:
  assumes d: "departing K t T c s"
    and T2: "tcb_ok T2" "tc_id T2 = t" "tcb_is_idle T2 = tcb_is_idle T" "tcb_fit K s T2" "tc_ready_cpu T2 = None"
      "tc_running_cpu T2 = None"
    and w: "wq_inv w" "distinct (wq_exited w)"
    and other: "\<And>u x. u \<noteq> t \<Longrightarrow> u \<notin> L \<Longrightarrow> u \<in> set (waiters x w) \<longleftrightarrow> waits s u x"
      "\<And>u. u \<noteq> t \<Longrightarrow> u \<in> sleepers w \<longleftrightarrow> sleeps s u" "\<And>u. u \<noteq> t \<Longrightarrow> u \<in> set (wq_exited w) \<longleftrightarrow> in_exited s u"
    and lost: "\<And>u x. u \<in> L \<Longrightarrow> waits s u (ChildExit t) \<and> u \<notin> set (waiters x w)"
    and place: "\<And>x. t \<in> set (waiters x w) \<longleftrightarrow> tc_state T2 = Blocking x"
      "t \<in> sleepers w \<longleftrightarrow> (\<exists>n. tc_state T2 = Sleeping n)" "t \<in> set (wq_exited w) \<longleftrightarrow> is_exited (tc_state T2)"
    and s': "s' = put_wait w (put_reg (reg_put t T2 (ms_reg s)) s)"
  shows "sys_inv K {c} {} s'" "same_cpus s s'" "on_cpu s' = on_cpu s" "task s' t = Some T2"
    "u \<noteq> t \<Longrightarrow> u \<notin> L \<Longrightarrow> same_task s s' u"
proof -
  have i: "sys_inv K {c} {t} s" "sys_inv K {} {} s" "task s t = Some T" "\<not> tcb_is_idle T"
    using d by (simp_all add: departing_def)
  let ?s = "put_reg (reg_put t T2 (ms_reg s)) s"
  note p = put_task_inv [OF i(1,3) _ T2(1-4), simplified]
  have o: "on_queue s' = on_queue s" "on_cpu s' = on_cpu s" "defers s' = defers s" "idle_of s' = idle_of s"
    "is_online s' = is_online s" "task s' = (task s)(t \<mapsto> T2)" "length (ms_cpus s') = length (ms_cpus s)"
    by (simp_all add: s' put_wait_obs p(2))
  then show "same_cpus s s'" "on_cpu s' = on_cpu s" "task s' t = Some T2" by (simp_all add: same_cpus_def)
  have wo: "waits s' u x \<longleftrightarrow> u \<in> set (waiters x w)" "sleeps s' u \<longleftrightarrow> u \<in> sleepers w"
    "in_exited s' u \<longleftrightarrow> u \<in> set (wq_exited w)" for u x by (simp_all add: s' put_wait_obs)
  have k: "waits ?s = waits s" "sleeps ?s = sleeps s" "in_exited ?s = in_exited s" by simp_all
  have tL: "t \<notin> L" using lost departingD(12) [OF d] by blast
  show same: "same_task s s' u" if "u \<noteq> t" "u \<notin> L" for u
    using that other by (simp add: same_task_def o wo fun_eq_iff)
  have "sys_inv K {c} (insert t L) s'"
    unfolding s'
  proof (rule put_wait_inv [OF sys_inv_mono [OF p(1)] w])
    show "u \<in> set (waiters x w) \<longleftrightarrow> waits ?s u x" if "u \<notin> insert t L" for u x using that other(1) by (simp add: k)
    show "u \<in> sleepers w \<longleftrightarrow> sleeps ?s u" if "u \<notin> insert t L" for u using that other(2) by (simp add: k)
    show "u \<in> set (wq_exited w) \<longleftrightarrow> in_exited ?s u" if "u \<notin> insert t L" for u using that other(3) by (simp add: k)
  qed simp
  moreover have "task_ok {c} s' t"
  proof (rule task_okI)
    show "task s' t = Some T2" by (simp add: o)
    show "\<not> tcb_is_idle T2" using T2(3) i(4) by simp
    show "live_ok {c} s' t T2"
      by (simp add: live_ok_def T2(5,6) place o wo departingD [OF d])
  qed
  moreover have "task_ok {c} s' u" if "u \<in> L" for u
  proof -
    have ut: "u \<noteq> t" using that tL by auto
    have wt: "waits s u (ChildExit t)" "\<And>x. u \<notin> set (waiters x w)" using lost that by blast+
    then obtain U where U: "task s u = Some U" "\<not> tcb_is_idle U" "live_ok {c} s u U"
      using waiting_live [OF sys_invD(2) [OF i(1)]] ut by blast
    have "tc_state U = Blocking (ChildExit t)" using U(3) wt(1) by (simp add: live_ok_def)
    then have "live_ok {c} s' u U"
      using U(3) wt(2) other(2,3) [OF ut] by (auto simp: live_ok_def o wo)
    with U ut show ?thesis by (intro task_okI [of _ _ U]) (simp_all add: o)
  qed
  ultimately have "sys_glob K s' \<and> task_ok {c} s' u" for u
    unfolding sys_inv_def by (cases "u \<in> insert t L") auto
  then show "sys_inv K {c} {} s'" by (simp add: sys_inv_def)
qed

lemma departing_cosmetic:
  assumes d: "departing K t T c s" and k: "cosmetic T T'"
  shows "departing K t T' c (put_reg (reg_put t T' (ms_reg s)) s)"
proof -
  have i: "sys_inv K {c} {t} s" "sys_inv K {} {} s" "task s t = Some T" using d by (simp_all add: departing_def)
  have f: "tcb_is_idle T' = tcb_is_idle T" "tc_state T' = tc_state T" "tc_running_cpu T' = tc_running_cpu T"
    "tc_ready_cpu T' = tc_ready_cpu T" using k cosmeticD(2) [OF k] by (simp_all add: cosmetic_def)
  show ?thesis
    using d cosmetic_inv [OF i(1,3) k] cosmetic_inv [OF i(2,3) k] by (simp add: departing_def f)
qed

lemma departing_waiting: "departing K t T c s \<Longrightarrow> \<not> waiting t (ms_wait s)"
  by (simp add: departing_def waiting_obs)

text \<open>The wait result is cleared before a task blocks or sleeps.\<close>

lemma clear_result:
  assumes d: "departing K t T c s"
  defines "s1 \<equiv> put_reg (reg_put t (tcb_clear_wait_result T) (ms_reg s)) s"
  shows "departing K t (tcb_clear_wait_result T) c s1"
    "reg_mark_blocking t x (reg_clear_wait_result t (ms_reg s)) =
       reg_put t (mark_blocking x (tcb_clear_wait_result T)) (ms_reg s1)"
    "reg_mark_sleeping t n (reg_clear_wait_result t (ms_reg s)) =
       reg_put t (mark_sleeping n (tcb_clear_wait_result T)) (ms_reg s1)"
    "ms_wait s1 = ms_wait s" "refreshed t s s1"
proof -
  have T: "task s t = Some T" "sys_inv K {} {} s" using d by (simp_all add: departing_def)
  have c: "cosmetic T (tcb_clear_wait_result T)" by (simp add: cosmetic_def tcb_clear_wait_result_def)
  show 1: "departing K t (tcb_clear_wait_result T) c s1" unfolding s1_def by (rule departing_cosmetic [OF d c])
  then have T1: "task s1 t = Some (tcb_clear_wait_result T)" by (simp add: departing_def)
  have e: "reg_clear_wait_result t (ms_reg s) = ms_reg s1"
    by (simp add: s1_def reg_clear_wait_result_def modify_put [OF T(1)])
  show "reg_mark_blocking t x (reg_clear_wait_result t (ms_reg s)) =
       reg_put t (mark_blocking x (tcb_clear_wait_result T)) (ms_reg s1)"
    "reg_mark_sleeping t n (reg_clear_wait_result t (ms_reg s)) =
       reg_put t (mark_sleeping n (tcb_clear_wait_result T)) (ms_reg s1)"
    by (simp_all add: e reg_mark_blocking_def reg_mark_sleeping_def modify_put [OF T1])
  show "ms_wait s1 = ms_wait s" by (simp add: s1_def)
  show "refreshed t s s1" unfolding s1_def by (rule cosmetic_put(2) [OF T(2,1) c])
qed

lemma leave_blocked:
  assumes d: "departing K t T c s" and h: "held x (ms_wait s)"
  shows "\<exists>w. enqueue_wait_task t x (ms_wait s) = Some w \<and>
    leaves K (ToBlocked x) t c s
      (put_wait w (put_reg (reg_mark_blocking t x (reg_clear_wait_result t (ms_reg s))) s))"
proof -
  note cl = clear_result [OF d]
  define s1 where "s1 = put_reg (reg_put t (tcb_clear_wait_result T) (ms_reg s)) s"
  let ?T = "tcb_clear_wait_result T" and ?w = "ms_wait s"
  have d1: "departing K t ?T c s1" and e: "ms_wait s1 = ?w" using cl(1,4) by (simp_all add: s1_def)
  have i: "sys_inv K {} {} s" by (rule departingD(2) [OF d])
  note g1 = sys_invD(1) [OF departingD(2) [OF d1]] and D1 = departingD [OF d1]
  obtain w where w: "enqueue_wait_task t x ?w = Some w"
    using enqueue_wait_spec [OF h wq_okD(3,4) [OF sys_wait_ok(1) [OF i]], of t] by blast
  note st = enqueue_step [OF sys_wait_ok(1) [OF i] h w]
  have inv: "wq_inv w"
    by (rule block_keeps [OF sys_globD(3) [OF sys_invD(1) [OF i]] departing_waiting [OF d] h w])
  let ?T2 = "mark_blocking x ?T"
  define s2 where "s2 = put_wait w (put_reg (reg_put t (mark_blocking x ?T) (ms_reg s1)) s1)"
  have s': "put_wait w (put_reg (reg_mark_blocking t x (reg_clear_wait_result t (ms_reg s))) s) = s2"
    by (simp add: cl(2) s1_def s2_def)
  note f = mark_blocking_fit [OF conjunct1 [OF task_tcb_ok [OF g1 D1(4)]] sys_globD(9) [OF g1 D1(4)], of x]
  have T2: "tc_id ?T2 = t" "tc_ready_cpu ?T2 = None" "tc_running_cpu ?T2 = None" "tc_state ?T2 = Blocking x"
    using f(3) task_tcb_ok [OF g1 D1(4)] by (simp_all add: mark_blocking_def)
  have sl: "sleepers w = sleepers ?w" "wq_exited w = wq_exited ?w"
    using st by (simp_all add: same_times_def sleepers_def)
  have wt: "u \<in> set (waiters y w) \<longleftrightarrow> waits s1 u y \<or> u = t \<and> y = x" for u y
    using st by (auto simp: waits_def e)
  have n: "t \<notin> sleepers ?w" "t \<notin> set (wq_exited ?w)"
    using D1(13,14) by (simp_all add: sleeps_def in_exited_def e)
  have ex: "distinct (wq_exited w)" using sys_globD(4) [OF sys_invD(1) [OF i]] sl by simp
  have so: "u \<in> sleepers w \<longleftrightarrow> sleeps s1 u" "u \<in> set (wq_exited w) \<longleftrightarrow> in_exited s1 u" for u
    by (simp_all add: sl sleeps_def in_exited_def e)
  have p: "sys_inv K {c} {} s2 \<and> same_cpus s1 s2 \<and> on_cpu s2 = on_cpu s1 \<and> task s2 t = Some ?T2 \<and>
    (\<forall>u. u \<noteq> t \<longrightarrow> same_task s1 s2 u)"
    by (intro conjI allI impI; rule depart_to [OF d1 f(1) T2(1) f(2,4) T2(2,3) inv ex, of "{}"])
      (use so wt T2(4) n sl D1 in \<open>auto simp: is_exited_def s2_def\<close>)
  have wts: "waits s2 t x" by (simp add: s2_def put_wait_obs wt)
  have "same_task s s2 u" if "u \<noteq> t" for u
    using same_trans(2) [OF refreshed_same [OF cl(5) that]] p that by (simp add: s1_def)
  moreover have "same_cpus s s2" "on_cpu s2 = on_cpu s"
    using p same_trans(1) [of s s1 s2] cl(5) by (simp_all add: s1_def refreshed_def)
  ultimately have "leaves K (ToBlocked x) t c s s2"
    using p wts T2(4) by (simp add: leaves_def left_to_def woken_by_def lost_by_def state_is_def)
  with w show ?thesis by (simp add: s')
qed

lemma leave_sleeping:
  assumes d: "departing K t T c s"
  shows "leaves K (ToSleeping n) t c s
      (put_wait (enqueue_sleep_task t n (ms_wait s))
        (put_reg (reg_mark_sleeping t n (reg_clear_wait_result t (ms_reg s))) s))"
proof -
  note cl = clear_result [OF d]
  define s1 where "s1 = put_reg (reg_put t (tcb_clear_wait_result T) (ms_reg s)) s"
  let ?T = "tcb_clear_wait_result T" and ?w = "ms_wait s"
  have d1: "departing K t ?T c s1" and e: "ms_wait s1 = ?w" using cl(1,4) by (simp_all add: s1_def)
  have i: "sys_inv K {} {} s" by (rule departingD(2) [OF d])
  note g1 = sys_invD(1) [OF departingD(2) [OF d1]] and D1 = departingD [OF d1]
  let ?w' = "enqueue_sleep_task t n ?w"
  have inv: "wq_inv ?w'" by (rule sleep_keeps [OF sys_globD(3) [OF sys_invD(1) [OF i]] departing_waiting [OF d]])
  let ?T2 = "mark_sleeping n ?T"
  define s2 where "s2 = put_wait ?w' (put_reg (reg_put t (mark_sleeping n ?T) (ms_reg s1)) s1)"
  have s': "put_wait ?w' (put_reg (reg_mark_sleeping t n (reg_clear_wait_result t (ms_reg s))) s) = s2"
    by (simp add: cl(3) s1_def s2_def)
  note f = mark_sleeping_fit [OF conjunct1 [OF task_tcb_ok [OF g1 D1(4)]] sys_globD(9) [OF g1 D1(4)], of n]
  have T2: "tc_id ?T2 = t" "tc_ready_cpu ?T2 = None" "tc_running_cpu ?T2 = None" "tc_state ?T2 = Sleeping n"
    using f(3) task_tcb_ok [OF g1 D1(4)] by (simp_all add: mark_sleeping_def)
  have wt: "u \<in> set (waiters y ?w') \<longleftrightarrow> waits s1 u y" for u y
    by (simp add: waits_def e enqueue_sleep_task_def waiters_def split: wait_target.split)
  have so: "u \<in> sleepers ?w' \<longleftrightarrow> u = t \<or> sleeps s1 u" "u \<in> set (wq_exited ?w') \<longleftrightarrow> in_exited s1 u" for u
    by (auto simp: enqueue_sleep_task_def sleepers_def insert_by_tick_set sleeps_def in_exited_def e)
  have ex: "distinct (wq_exited ?w')" using sys_globD(4) [OF sys_invD(1) [OF i]] by (simp add: enqueue_sleep_task_def)
  have p: "sys_inv K {c} {} s2 \<and> same_cpus s1 s2 \<and> on_cpu s2 = on_cpu s1 \<and> task s2 t = Some ?T2 \<and>
    (\<forall>u. u \<noteq> t \<longrightarrow> same_task s1 s2 u)"
    by (intro conjI allI impI; rule depart_to [OF d1 f(1) T2(1) f(2,4) T2(2,3) inv ex, of "{}"])
      (use so wt T2(4) D1 in \<open>auto simp: is_exited_def s2_def\<close>)
  have sl: "sleeps s2 t" by (simp add: s2_def put_wait_obs so)
  have "same_task s s2 u" if "u \<noteq> t" for u
    using same_trans(2) [OF refreshed_same [OF cl(5) that]] p that by (simp add: s1_def)
  moreover have "same_cpus s s2" "on_cpu s2 = on_cpu s"
    using p same_trans(1) [of s s1 s2] cl(5) by (simp_all add: s1_def refreshed_def)
  ultimately show ?thesis
    using p sl T2(4) by (simp add: s' leaves_def left_to_def woken_by_def lost_by_def state_is_def)
qed

section \<open>To the exited tasks\<close>

lemma exited_queue:
  "wq_exited (enqueue_exited_task t w) = wq_exited w @ [t]"
  "waiters x (enqueue_exited_task t w) = waiters x (detach_task_from_run_queues t w)"
  "sleepers (enqueue_exited_task t w) = sleepers (detach_task_from_run_queues t w)"
  "wq_inv (enqueue_exited_task t w) = wq_inv (detach_task_from_run_queues t w)"
  "wq_timeouts (enqueue_exited_task t w) = wq_timeouts (detach_task_from_run_queues t w)"
  "kill_task t w = enqueue_exited_task t w"
  by (simp_all add: enqueue_exited_task_def kill_task_def Let_def wq_inv_exited waiters_def sleepers_def
      detach_task_from_run_queues_def split: wait_target.split)

lemma detached_obs:
  assumes "detached t w w'"
  shows "u \<in> set (waiters x w') \<longleftrightarrow> u \<noteq> t \<and> x \<noteq> TaskExit t \<and> x \<noteq> ChildExit t \<and> u \<in> set (waiters x w)"
    "u \<in> sleepers w' \<longleftrightarrow> u \<noteq> t \<and> u \<in> sleepers w"
  using assms by (auto simp: detached_def drop_task_def sleepers_def)

lemma leave_exited:
  fixes code :: int
  assumes d: "departing K t T c s" and none: "waiters (TaskExit t) (ms_wait s) = []"
  defines "s' \<equiv> put_reg (reg_mark_exited t code (ms_reg s)) (put_wait (enqueue_exited_task t (ms_wait s)) s)"
    and "L \<equiv> set (waiters (ChildExit t) (ms_wait s))"
  shows "sys_inv K {c} {} s'" "same_cpus s s'" "on_cpu s' = on_cpu s" "state_is s' t (Exited code)"
    "in_exited s' t" "u \<noteq> t \<Longrightarrow> u \<notin> L \<Longrightarrow> same_task s s' u"
    "u \<in> L \<Longrightarrow> state_is s' u (Blocking (ChildExit t))" "u \<in> L \<Longrightarrow> \<not> waits s' u x"
proof -
  let ?w = "ms_wait s" and ?w' = "enqueue_exited_task t (ms_wait s)" and ?T = "mark_exited code T"
  note D = departingD [OF d]
  note g = sys_invD(1) [OF D(2)]
  have dt: "detached t ?w (detach_task_from_run_queues t ?w)" by (rule detach_spec [OF sys_wait_ok(1) [OF D(2)]])
  have inv: "wq_inv ?w'" unfolding exited_queue(4) by (rule detach_keeps' [OF sys_globD(3) [OF g]])
  have e: "s' = put_wait ?w' (put_reg (reg_put t ?T (ms_reg s)) s)"
    by (simp add: s'_def reg_mark_exited_def modify_put [OF D(4)]) (simp add: put_wait_def put_reg_def)
  note f = mark_exited_fit [OF conjunct1 [OF task_tcb_ok [OF g D(4)]] sys_globD(9) [OF g D(4)], of code]
  have T2: "tc_id ?T = t" "tc_ready_cpu ?T = None" "tc_running_cpu ?T = None" "tc_state ?T = Exited code"
    using f(3) task_tcb_ok [OF g D(4)] by (simp_all add: mark_exited_def Let_def)
  have ob: "u \<in> set (waiters x ?w') \<longleftrightarrow> u \<noteq> t \<and> x \<noteq> ChildExit t \<and> waits s u x"
    "u \<in> sleepers ?w' \<longleftrightarrow> u \<noteq> t \<and> sleeps s u" "u \<in> set (wq_exited ?w') \<longleftrightarrow> u = t \<or> in_exited s u" for u x
    using none by (auto simp: exited_queue detached_obs [OF dt] waits_def sleeps_def in_exited_def)
  have ex: "distinct (wq_exited ?w')"
    using sys_globD(4) [OF g] D(14) by (simp add: exited_queue in_exited_def)
  have once: "waits s u x \<Longrightarrow> x = ChildExit t" if "u \<in> L" for u x
    using that waits_onceD(3) [OF sys_wait_ok(2) [OF D(2)], of u x "ChildExit t"] by (simp add: L_def waits_def)
  note p = depart_to [OF d f(1) T2(1) f(2,4) T2(2,3) inv ex _ _ _ _ _ _ _ e, of L]
  have o1: "u \<in> set (waiters x ?w') \<longleftrightarrow> waits s u x" if "u \<noteq> t" "u \<notin> L" for u x
    using that by (auto simp: ob L_def waits_def)
  have o2: "u \<in> sleepers ?w' \<longleftrightarrow> sleeps s u" "u \<in> set (wq_exited ?w') \<longleftrightarrow> in_exited s u" if "u \<noteq> t" for u
    using that by (simp_all add: ob)
  have o3: "waits s u (ChildExit t) \<and> u \<notin> set (waiters x ?w')" if "u \<in> L" for u x
    using once [OF that, of x] that by (auto simp: ob L_def waits_def)
  have o4: "t \<in> set (waiters x ?w') \<longleftrightarrow> tc_state ?T = Blocking x" "t \<in> sleepers ?w' \<longleftrightarrow> (\<exists>n. tc_state ?T = Sleeping n)"
    "t \<in> set (wq_exited ?w') \<longleftrightarrow> is_exited (tc_state ?T)" for x
    by (simp_all add: ob T2(4) is_exited_def)
  note P = p [OF o1 o2 o3 o4]
  show "sys_inv K {c} {} s'" "same_cpus s s'" "on_cpu s' = on_cpu s" by (rule P; assumption)+
  show "state_is s' t (Exited code)" using P(4) T2(4) by (simp add: state_is_def)
  show "in_exited s' t" by (simp add: e put_wait_obs ob)
  show "u \<noteq> t \<Longrightarrow> u \<notin> L \<Longrightarrow> same_task s s' u" by (rule P(5))
  show lw: "u \<in> L \<Longrightarrow> \<not> waits s' u x" using o3 by (simp add: e put_wait_obs)
  show "state_is s' u (Blocking (ChildExit t))" if "u \<in> L"
  proof -
    have "waits s u (ChildExit t)" "u \<noteq> t" using that D(12) by (auto simp: L_def waits_def)
    moreover from this obtain U where "task s u = Some U" "live_ok {} s u U"
      using waiting_live [OF sys_invD(2) [OF D(2)]] by blast
    ultimately show ?thesis
      using put_task_inv(2) [OF D(1,4) _ f(1) T2(1) f(2,4)] by (simp add: state_is_def e put_wait_obs live_ok_def)
  qed
qed

end
