(* ===== verification/Multi_Depart.thy ===== *)
theory Multi_Depart
  imports Multi_Leave
begin

text \<open>
  \<open>enqueue_task\<close> as a whole: for every target it returns, the running task ends where the target
  says, an exit wakes exactly the waiters of the task and of its parent, and no other task is
  touched, save those whose queue an exit deletes.
\<close>

section \<open>Departure after wake-ups\<close>

lemma readied_waits_not:
  assumes "sys_inv K E {} s" "readied u s"
  shows "\<not> waits s u x" "\<not> sleeps s u"
proof -
  have ok: "task_ok E s u" by (rule sys_invD(2) [OF assms(1)]) simp
  have "\<not> (waits s u x \<or> sleeps s u)"
  proof
    assume "waits s u x \<or> sleeps s u"
    then obtain T where "task s u = Some T" "live_ok E s u T" by (rule waiting_live [OF ok])
    with assms(2) \<open>waits s u x \<or> sleeps s u\<close> show False by (auto simp: readied_def live_ok_def)
  qed
  then show "\<not> waits s u x" "\<not> sleeps s u" by blast+
qed

lemma passes_waits:
  assumes "passes A s s'" "sys_inv K E {} s'"
  shows "waits s' u x \<longleftrightarrow> u \<notin> A \<and> waits s u x"
proof (cases "u \<in> A")
  case True
  then show ?thesis using readied_waits_not(1) [OF assms(2), of u x] assms(1) by (simp add: passes_def)
next
  case False
  then show ?thesis using assms(1) by (simp add: passes_def same_task_def)
qed

lemma passes_departing:
  assumes d: "departing K t T c s" and p: "passes A s s'" and t: "t \<notin> A" and inv: "sys_inv K {} {} s'"
  shows "departing K t T c s'"
proof -
  note D = departingD [OF d]
  have st: "same_task s s' t" using p t by (simp add: passes_def)
  have on: "on_cpu s' t c" using st D(3) by (simp add: same_task_def)
  have "sys_inv K {} {t} s'" by (rule sys_inv_mono [OF inv]) simp
  from open_switch [OF this on] have "sys_inv K {c} {t} s'" by simp
  then show ?thesis using st inv on D by (simp add: departing_def same_task_def)
qed

lemma leaves_refreshed:
  assumes r: "refreshed t s s1" and l: "leaves K target t c s1 s'" and T: "task s t = Some T"
  shows "leaves K target t c s s'"
proof -
  obtain T1 where T1: "task s1 t = Some T1" "cosmetic T T1" by (rule refreshed_task [OF r T])
  have w: "ms_wait s1 = ms_wait s" using r by (simp add: refreshed_def)
  have ex: "exit_wakes s1 t = exit_wakes s t" using T T1 by (simp add: exit_wakes_def w cosmetic_def split: option.split)
  have e: "woken_by target t s1 = woken_by target t s" "lost_by target t s1 = lost_by target t s"
    by (simp_all add: woken_by_def lost_by_def ex w split: queue_target.split)
  have o: "left_to target t c s1 s' = left_to target t c s s'"
    using T T1 by (simp add: left_to_def cosmetic_def split: queue_target.split)
  have "same_task s s' u" if "u \<noteq> t" "u \<notin> woken_by target t s" "u \<notin> lost_by target t s" for u
    using l that same_trans(2) [OF refreshed_same [OF r that(1)]] by (simp add: leaves_def e)
  moreover have "same_cpus s s'" "on_cpu s' = on_cpu s"
    using l r same_trans(1) [of s s1 s'] by (simp_all add: leaves_def refreshed_def)
  ultimately show ?thesis using l by (simp add: leaves_def e o)
qed

section \<open>Each way out\<close>

lemma depart_ready:
  assumes d: "departing K t T c s" and on: "is_online s c" and no: "\<And>u. \<not> defers s u c"
  shows "\<exists>s'. (if mask_contains (tc_affinity T) c then activate t (Prefer c) s
      else do {
        st \<leftarrow> cpu_at s c;
        st' \<leftarrow> set_deferred_ready t (cpu_dequeue t st);
        Some (put_cpu c st' s)
      }) = Some s' \<and> leaves K ToReady t c s s'"
proof -
  note D = departingD [OF d]
  have c: "c < length (ms_cpus s)" using D(3) by (simp add: on_cpu_def)
  show ?thesis
  proof (cases "mask_contains (tc_affinity T) c")
    case True
    obtain s' where s': "activate t (Prefer c) s = Some s'" "sys_inv K {c} {} s'" "placed t c s s'"
      using leave_ready [OF d on True] by blast
    have "leaves K ToReady t c s s'"
      using s' True D(4) placed_readied [OF s'(3)]
      by (simp add: leaves_def left_to_def woken_by_def lost_by_def) (simp add: placed_def)
    with s'(1) True show ?thesis by simp
  next
    case False
    obtain st' where st': "set_deferred_ready t (cpu_dequeue t (ms_cpus s ! c)) = Some st'"
      "sys_inv K {c} {} (put_cpu c st' s)" "defers (put_cpu c st' s) t c" "same_cpus s (put_cpu c st' s)"
      "on_cpu (put_cpu c st' s) = on_cpu s" "\<forall>u. u \<noteq> t \<longrightarrow> same_task s (put_cpu c st' s) u"
      using leave_deferred [OF d no refl] by blast
    have "leaves K ToReady t c s (put_cpu c st' s)"
      using st' False D(4) by (simp add: leaves_def left_to_def woken_by_def lost_by_def)
    with st'(1) False c show ?thesis by (simp add: cpu_at_def)
  qed
qed

lemma depart_exit:
  assumes d: "departing K t T c s"
  shows "\<exists>s'. (case wake_all_waiters_for_task_exit t (ms_wait s) of (ws, w1) \<Rightarrow>
      do {
        s1 \<leftarrow> resume_all ws (put_wait w1 s);
        snap \<leftarrow> reg_task_snapshot (ms_reg s1) t;
        s2 \<leftarrow> (case snap_parent snap of
            None \<Rightarrow> Some s1
          | Some parent \<Rightarrow>
              (case wake_child_exit_waiters parent (ms_wait s1) of (ws, w2) \<Rightarrow>
                 resume_all ws (put_wait w2 s1)));
        let w3 = enqueue_exited_task t (ms_wait s2);
        Some (put_reg (reg_mark_exited t code (ms_reg s2)) (put_wait w3 s2))
      }) = Some s' \<and> leaves K (ToExited code) t c s s'"
proof -
  note D = departingD [OF d]
  obtain ts1 w1 s1 where a: "wake_all_waiters_for_task_exit t (ms_wait s) = (ts1, w1)"
    "ts1 = waiters (TaskExit t) (ms_wait s)" "resume_all ts1 (put_wait w1 s) = Some s1" "sys_inv K {} {} s1"
    "passes (set ts1) s s1" using exit_waiters_spec(1) [OF D(2), of t] by blast
  have t1: "t \<notin> set ts1" using D(12) by (simp add: a(2) waits_def)
  have d1: "departing K t T c s1" by (rule passes_departing [OF d a(5) t1 a(4)])
  have snap: "reg_task_snapshot (ms_reg s1) t = Some (tcb_snapshot T)"
    using departingD(4) [OF d1] by (simp add: reg_task_snapshot_def task_def)
  define ts2 where "ts2 = (case tc_parent T of None \<Rightarrow> [] | Some p \<Rightarrow> waiters (ChildExit p) (ms_wait s1))"
  obtain s2 where b: "(case tc_parent T of None \<Rightarrow> Some s1
      | Some parent \<Rightarrow> (case wake_child_exit_waiters parent (ms_wait s1) of (ws, w2) \<Rightarrow>
          resume_all ws (put_wait w2 s1))) = Some s2" "sys_inv K {} {} s2" "passes (set ts2) s1 s2"
  proof (cases "tc_parent T")
    case None
    with a(4) show thesis by (intro that [of s1]) (simp_all add: ts2_def)
  next
    case (Some p)
    with exit_waiters_spec(2) [OF a(4), of p] show thesis by (auto simp: ts2_def intro: that)
  qed
  have t2: "t \<notin> set ts2"
    using departingD(12) [OF d1] by (auto simp: ts2_def waits_def split: option.splits)
  have d2: "departing K t T c s2" by (rule passes_departing [OF d1 b(3) t2 b(2)])
  have ps: "passes (set ts1 \<union> set ts2) s s2" by (rule passes_trans [OF a(5) b(3)])
  note pw = passes_waits [OF ps b(2)]
  have A: "exit_wakes s t = set ts1 \<union> set ts2"
    using passes_waits [OF a(5,4)] D(4)
    by (auto simp: exit_wakes_def a(2) ts2_def waits_def split: option.splits)
  have none: "waiters (TaskExit t) (ms_wait s2) = []"
  proof -
    have "u \<notin> set (waiters (TaskExit t) (ms_wait s2))" for u
      using pw [of u "TaskExit t"] by (auto simp: a(2) waits_def)
    then show ?thesis by (metis list.set_intros(1) neq_Nil_conv)
  qed
  have L: "set (waiters (ChildExit t) (ms_wait s2)) = lost_by (ToExited code) t s"
    using pw [of _ "ChildExit t"] by (auto simp: lost_by_def A waits_def)
  define s3 where "s3 = put_reg (reg_mark_exited t code (ms_reg s2)) (put_wait (enqueue_exited_task t (ms_wait s2)) s2)"
  note e = leave_exited [OF d2 none, where code = code, folded s3_def, unfolded L]
  have "same_task s s3 u" if "u \<noteq> t" "u \<notin> exit_wakes s t" "u \<notin> lost_by (ToExited code) t s" for u
    using e(6) [OF that(1,3)] ps that(2) same_trans(2) [of s s2 u s3] by (simp add: passes_def A)
  moreover have "readied u s3" if "u \<in> exit_wakes s t" for u
  proof -
    have "u \<noteq> t" "u \<notin> lost_by (ToExited code) t s" "readied u s2"
      using that t1 t2 ps by (auto simp: A lost_by_def passes_def)
    then show ?thesis using e(6) by (auto simp: readied_def same_task_def)
  qed
  moreover have "same_cpus s s3" "on_cpu s3 = on_cpu s"
    using same_trans(1) [OF _ e(2)] ps e(3) by (simp_all add: passes_def)
  ultimately have "leaves K (ToExited code) t c s s3"
    using e(1,4,5,7,8) by (simp add: leaves_def left_to_def woken_by_def)
  moreover have "snap_parent (tcb_snapshot T) = tc_parent T" by simp
  ultimately show ?thesis using a(1,3) snap b(1) by (auto simp: s3_def Let_def)
qed

lemma leave_spec:
  assumes inv: "sys_inv K {} {} s" and t: "on_cpu s t c" and n: "\<not> idle_of s t c" and on: "is_online s c"
    and no: "\<And>u. \<not> defers s u c" and h: "\<And>x. target = ToBlocked x \<Longrightarrow> held x (ms_wait s)"
  shows "\<exists>s'. enqueue_task target t c s = Some s' \<and> leaves K target t c s s'"
proof -
  obtain T0 where d0: "departing K t T0 c s" by (rule departingI [OF inv t n])
  obtain s1 T where s1: "sync_current_to_registry c s = Some s1" "departing K t T c s1" "refreshed t s s1"
    using departing_sync [OF d0] by blast
  note D = departingD [OF s1(2)]
  have w: "ms_wait s1 = ms_wait s" and on1: "is_online s1 c" and no1: "\<And>u. \<not> defers s1 u c"
    using s1(3) on no by (simp_all add: refreshed_def same_cpus_def)
  have "\<exists>s'. enqueue_task target t c s = Some s' \<and> leaves K target t c s1 s'"
  proof (cases target)
    case ToReady
    have "reg_get_affinity (ms_reg s1) t = Inr (tc_affinity T)"
      using D(4) by (simp add: reg_get_affinity_def task_def)
    with depart_ready [OF s1(2) on1 no1] s1(1) ToReady show ?thesis by (simp add: enqueue_task_def)
  next
    case (ToBlocked x)
    from leave_blocked [OF s1(2), of x] h [OF ToBlocked] s1(1) ToBlocked show ?thesis
      by (auto simp: enqueue_task_def w Let_def)
  next
    case (ToSleeping k)
    from leave_sleeping [OF s1(2), of k] s1(1) ToSleeping show ?thesis by (auto simp: enqueue_task_def Let_def)
  next
    case (ToExited code)
    from depart_exit [OF s1(2), of code] s1(1) ToExited show ?thesis by (simp add: enqueue_task_def)
  qed
  then show ?thesis using leaves_refreshed [OF s1(3) _ departingD(4) [OF d0]] by blast
qed

end
