(* ===== verification/Multi_Sched.thy ===== *)
theory Multi_Sched
  imports Multi_Depart
begin

text \<open>
  The scheduling entry points as a whole: the next task is chosen and installed, the timer advances
  the time, and \<open>schedule\<close>, \<open>schedule_wait\<close> and the first switch never panic, keep the invariant
  and move exactly the tasks they should.
\<close>

section \<open>The next task\<close>

text \<open>A task that was chosen and is in no queue any more.\<close>

definition arriving :: "(nat \<Rightarrow> bool) \<Rightarrow> task_id \<Rightarrow> tcb \<Rightarrow> nat \<Rightarrow> mcs \<Rightarrow> bool" where
  "arriving K u U c s \<longleftrightarrow> sys_inv K {c} {u} s \<and> task s u = Some U \<and> tc_running_cpu U = None \<and>
     (\<forall>d. \<not> on_queue s u d) \<and> (\<forall>d. \<not> defers s u d) \<and> (\<forall>x. \<not> waits s u x) \<and> \<not> sleeps s u \<and> \<not> in_exited s u \<and>
     (if tcb_is_idle U then idle_of s u c \<and> (\<forall>d. on_cpu s u d \<longrightarrow> d \<noteq> c \<longrightarrow> idle_of s u d)
      else \<forall>d. on_cpu s u d \<longrightarrow> d = c)"

definition chosen :: "nat \<Rightarrow> task_id \<Rightarrow> mcs \<Rightarrow> bool" where
  "chosen c u s \<longleftrightarrow> (\<exists>st'. pick_next_runnable (ms_cpus s ! c) = Some (u, st')) \<and>
     (if ready_mset (ms_cpus s ! c) = {#} then idle_of s u c else on_queue s u c)"

lemma choose_spec:
  assumes inv: "sys_inv K {c} {} s" and c: "c < length (ms_cpus s)"
  shows "\<exists>u U s1. choose_next c s = Some (u, tcb_snapshot U, s1) \<and> chosen c u s \<and> arriving K u U c s1 \<and>
    task s1 = task s \<and> ms_wait s1 = ms_wait s \<and> same_cpus s s1 \<and> on_cpu s1 = on_cpu s \<and> defers s1 = defers s \<and>
    (\<forall>v d. on_queue s1 v d \<longleftrightarrow> on_queue s v d \<and> v \<noteq> u)"
proof -
  let ?st = "ms_cpus s ! c"
  note g = sys_globD [OF sys_invD(1) [OF inv]]
  have wf: "cpu_wf c ?st" by (rule g(6) [OF c])
  obtain i where i: "idle_task_id ?st = Some i" using cpu_wfD(3) [OF wf] by blast
  have idle: "idle_of s i c" using i c by (simp add: idle_of_def)
  obtain u st' where p: "pick_next_runnable ?st = Some (u, st')" "cpu_ok st'"
    "if ready_mset ?st = {#} then u = i \<and> ready_mset st' = {#}
     else u \<in># ready_mset ?st \<and> ready_mset st' = ready_mset ?st - {#u#}"
    by (rule ready_pick [OF cpu_wfD(1) [OF wf] i])
  note pl = pick_place [OF p(1)]
  have ch: "chosen c u s" using p(1,3) idle c by (auto simp: chosen_def on_queue_def)
  have ok: "task_ok {c} s v" for v by (rule sys_invD(2) [OF inv]) simp
  have one: "count (ready_mset ?st) v \<le> 1" for v by (rule cpu_wfD(5) [OF wf])
  have iq: "\<not> on_queue s i d" for d
  proof
    assume "on_queue s i d"
    from g(8) [OF this] g(7) [OF idle] show False by auto
  qed
  obtain U where U: "task s u = Some U" using g(7) [OF idle] g(8) [of u c] p(3) c
    by (cases "ready_mset ?st = {#}") (auto simp: on_queue_def)
  have q: "v \<in># ready_mset st' \<longleftrightarrow> v \<in># ready_mset ?st \<and> v \<noteq> u" for v
  proof (cases "ready_mset ?st = {#}")
    case True
    then show ?thesis using p(3) by simp
  next
    case False
    then have r: "u \<in># ready_mset ?st" "ready_mset st' = ready_mset ?st - {#u#}" using p(3) by simp_all
    have "count (ready_mset ?st) u = 1" using one [of u] r(1) by (metis count_greater_eq_one_iff le_antisym)
    then show ?thesis by (auto simp: r(2) in_diff_count)
  qed
  have le: "count (ready_mset st') v \<le> 1" for v
  proof -
    have "count (ready_mset ?st - {#u#}) v \<le> count (ready_mset ?st) v" by simp
    then show ?thesis using p(3) one [of v] by (cases "ready_mset ?st = {#}") (simp_all del: count_diff)
  qed
  have cu: "current_task_id st' = current_task_id ?st" using pl by (simp add: current_task_id_def)
  have wf': "cpu_wf c st'" using wf pl p(2) le by (simp add: cpu_wf_def same_place_def)
  let ?s = "put_cpu c st' s"
  have inv1: "sys_inv K {c} {u} ?s"
  proof (rule put_cpu_inv [OF sys_inv_mono [OF inv] c wf'])
    show "idle_task_id st' = idle_task_id ?st" "online st' = online ?st" using pl by (simp_all add: same_place_def)
    show "(v \<in># ready_mset st' \<longleftrightarrow> on_queue s v c) \<and>
        (c \<notin> {c} \<longrightarrow> (current_task_id st' = Some v \<longleftrightarrow> on_cpu s v c)) \<and> (deferred_ready st' = Some v \<longleftrightarrow> defers s v c)"
      if "v \<notin> {u}" for v
      using that q c pl by (simp add: on_queue_def defers_def same_place_def)
    show "\<exists>T. task s v = Some T \<and> \<not> tcb_is_idle T" if "v \<in># ready_mset st'" for v
      by (rule g(8) [of v c]) (use that q c in \<open>simp add: on_queue_def\<close>)
  qed simp
  note o = put_cpu_obs [OF c, of st']
  have sc: "same_cpus s ?s" by (rule put_cpu_same_cpus [OF c]) (use pl in \<open>simp_all add: same_place_def\<close>)
  have oc: "on_cpu ?s = on_cpu s" "defers ?s = defers s"
    using c cu pl by (auto simp: fun_eq_iff o(2,3)) (auto simp: on_cpu_def defers_def same_place_def)
  have other: "v = u" if "on_queue s u d" "d \<noteq> c" "on_queue s v c" for v d
  proof -
    have "\<not> ready_mset ?st = {#}" using that(3) c by (auto simp: on_queue_def)
    then have "on_queue s u c" using p(3) c by (simp add: on_queue_def)
    moreover have "\<not> tcb_is_idle U" using g(8) [OF that(1)] U by simp
    ultimately show ?thesis using ok [of u] U that(1,2) by (auto simp: task_ok_def live_ok_def)
  qed
  have uq: "on_queue s u d \<Longrightarrow> d = c" for d
  proof -
    assume d: "on_queue s u d"
    have "ready_mset ?st \<noteq> {#}" using d iq p(3) by (cases "ready_mset ?st = {#}") auto
    then have "on_queue s u c" using p(3) c by (simp add: on_queue_def)
    with other [OF d] ok [of u] U g(8) [OF d] d show "d = c" by (auto simp: task_ok_def live_ok_def)
  qed
  have qs: "on_queue ?s v d \<longleftrightarrow> on_queue s v d \<and> v \<noteq> u" for v d
    using q [of v] uq c by (auto simp: o(1)) (auto simp: on_queue_def)
  have "arriving K u U c ?s"
  proof (cases "tcb_is_idle U")
    case True
    then have a: "absent_ok {c} s u" "idle_of s u c"
      using ok [of u] U p(3) g(8) [of u c] idle c by (auto simp: task_ok_def on_queue_def split: if_splits)
    have "tc_running_cpu U = None" using task_tcb_ok [OF sys_invD(1) [OF inv] U] True by (auto simp: tcb_ok_def)
    then show ?thesis
      using inv1 U True a sc by (auto simp: arriving_def qs oc o(6-9) absent_ok_def same_cpus_def)
  next
    case False
    have live: "live_ok {c} s u U" using ok [of u] U False by (simp add: task_ok_def)
    have "on_queue s u c"
      using p(3) c g(7) [OF idle] U False by (cases "ready_mset ?st = {#}") (auto simp: on_queue_def)
    then have r: "tc_ready_cpu U = Some c" using live by (simp add: live_ok_def)
    then have st: "tc_state U = Ready" "tc_running_cpu U = None"
      using task_tcb_ok [OF sys_invD(1) [OF inv] U] by (auto simp: tcb_ok_def)
    then show ?thesis
      using inv1 U False live by (auto simp: arriving_def qs oc o(6-9) live_ok_def is_exited_def)
  qed
  moreover have "choose_next c s = Some (u, tcb_snapshot U, ?s)"
    using p(1) U c by (simp add: choose_next_def cpu_at_def reg_task_snapshot_def task_def)
  ultimately show ?thesis using ch sc oc qs o(6) by auto
qed

section \<open>Its installation\<close>

text \<open>The next task runs on the CPU and is in no queue; no other task has changed.\<close>

definition switched :: "nat \<Rightarrow> task_id \<Rightarrow> mcs \<Rightarrow> mcs \<Rightarrow> bool" where
  "switched c u s s' \<longleftrightarrow> same_cpus s s' \<and> ms_wait s' = ms_wait s \<and> defers s' = defers s \<and>
     (\<forall>v d. on_cpu s' v d \<longleftrightarrow> (if d = c then v = u else on_cpu s v d)) \<and>
     (\<forall>v d. on_queue s' v d \<longleftrightarrow> on_queue s v d \<and> v \<noteq> u) \<and>
     (\<forall>v. v \<noteq> u \<longrightarrow> task s' v = task s v) \<and>
     (\<exists>U. task s u = Some U \<and> task s' u = Some (mark_running c U))"

lemma mark_running_fit:
  assumes "tcb_ok U" "tcb_fit K s U" "c < length (ms_cpus s)"
  shows "tcb_ok (mark_running c U)" "tcb_is_idle (mark_running c U) = tcb_is_idle U"
    "tc_id (mark_running c U) = tc_id U" "tcb_fit K s (mark_running c U)"
  using assms
  by (auto simp: mark_running_def tcb_ok_def tcb_is_idle_def tcb_fit_def is_exited_def tcb_aspace_ptr_def Let_def)

lemma mark_running_fields:
  "tc_state (mark_running c U) = Running" "tc_ready_cpu (mark_running c U) = None" "tc_cx (mark_running c U) = tc_cx U"
  "tc_running_cpu (mark_running c U) = (if tcb_is_idle U then None else Some c)"
  by (simp_all add: mark_running_def Let_def tcb_is_idle_def)

lemma set_current_spec:
  assumes a: "arriving K u U c s" and c: "c < length (ms_cpus s)"
  shows "\<exists>s'. set_current_task (tcb_snapshot U) c s = Some s' \<and> sys_inv K {} {} s' \<and> switched c u s s'"
proof -
  have inv: "sys_inv K {c} {u} s" and U: "task s u = Some U" "tc_running_cpu U = None"
    using a by (simp_all add: arriving_def)
  note g = sys_globD [OF sys_invD(1) [OF inv]]
  let ?snap = "tcb_snapshot U" and ?st = "ms_cpus s ! c"
  let ?e = "s\<lparr>ms_events := ms_events s @ notify_switch (current_aspace ?st) (snap_aspace ?snap) c\<rparr>"
  have e: "sys_inv K {c} {u} ?e" "same_task s ?e v" "same_cpus s ?e" "task ?e = task s" for v
    using inv sys_inv_cong [of ?e s] by simp_all
  let ?st' = "cpu_set_current_task ?snap ?st"
  have ce: "c < length (ms_cpus ?e)" using c by simp
  have f: "current_snapshot ?st' = Some ?snap" "idle_task_id ?st' = idle_task_id ?st" "online ?st' = online ?st"
    "deferred_ready ?st' = deferred_ready ?st" "cs_cpu_id ?st' = cs_cpu_id ?st"
    "current_task_id ?st' = Some u"
    using task_tcb_ok [OF sys_invD(1) [OF inv] U(1)]
    by (simp_all add: cpu_set_current_task_def Let_def current_task_id_def)
  have q: "ready_mset ?st' = ready_mset ?st" "cpu_ok ?st' = cpu_ok ?st"
    by (rule ready_mset_queues; simp add: cpu_set_current_task_def Let_def)+
  have wf: "cpu_wf c ?st'"
    using g(6) [OF c] g(9) [OF U(1)] by (simp add: cpu_wf_def f q tcb_fit_def)
  let ?s1 = "put_cpu c ?st' ?e"
  have inv1: "sys_inv K {c} {u} ?s1"
  proof (rule put_cpu_inv [OF e(1) ce wf])
    show "(v \<in># ready_mset ?st' \<longleftrightarrow> on_queue ?e v c) \<and>
        (c \<notin> {c} \<longrightarrow> (current_task_id ?st' = Some v \<longleftrightarrow> on_cpu ?e v c)) \<and>
        (deferred_ready ?st' = Some v \<longleftrightarrow> defers ?e v c)" for v
      using c by (simp add: q f on_queue_def defers_def)
    show "\<exists>T. task ?e v = Some T \<and> \<not> tcb_is_idle T" if "v \<in># ready_mset ?st'" for v
      unfolding e(4) by (rule g(8) [of v c]) (use that q c in \<open>simp add: on_queue_def\<close>)
  qed (simp_all add: f)
  note o = put_cpu_obs [OF ce, of ?st']
  have sc1: "same_cpus s ?s1"
    using same_trans(1) [OF e(3) put_cpu_same_cpus [OF ce]] f by simp
  have eo: "on_queue ?e = on_queue s" "on_cpu ?e = on_cpu s" "defers ?e = defers s" "waits ?e = waits s"
    "sleeps ?e = sleeps s" "in_exited ?e = in_exited s"
    using e(2) by (simp_all add: same_task_def fun_eq_iff)
  have cpu1: "on_cpu ?s1 v d \<longleftrightarrow> (if d = c then v = u else on_cpu s v d)" for v d by (auto simp: o(2) f eo)
  have q1: "on_queue ?s1 = on_queue s" "defers ?s1 = defers s"
    using c by (auto simp: fun_eq_iff o(1,3) q f eo) (auto simp: on_queue_def defers_def)
  have U1: "task ?s1 u = Some U" using U(1) by (simp add: o(6) e(4))
  note g1 = sys_invD(1) [OF inv1]
  have tk: "tcb_ok U" "tc_id U = u" "tcb_fit K ?s1 U"
    using task_tcb_ok [OF g1 U1] sys_globD(9) [OF g1 U1] by simp_all
  note mf = mark_running_fit [OF tk(1,3), of c]
  let ?U = "mark_running c U" and ?s2 = "put_reg (reg_put u (mark_running c U) (ms_reg ?s1)) ?s1"
  have c1: "c < length (ms_cpus ?s1)" using c by simp
  note p = put_task_inv [OF inv1 U1 _ mf(1) _ mf(2,4)]
  have inv2: "sys_inv K {c} {u} ?s2" and t2: "task ?s2 = (task s)(u \<mapsto> ?U)"
    using p mf(3) tk(2) c1 by (simp_all add: o(6) e(4))
  have run: "set_current_task ?snap c s = Some ?s2"
    using c U(2) U1 tk(2)
    by (simp add: set_current_task_def assert_that_def cpu_at_def reg_mark_running_def reg_expect_def task_def)
  have on2: "on_cpu ?s2 u c" by (simp add: cpu1)
  have "task_ok {} ?s2 u"
  proof (cases "tcb_is_idle U")
    case True
    then have "absent_ok {} ?s2 u"
      using a sc1 by (auto simp: absent_ok_def arriving_def q1 cpu1 o(7-9) eo same_cpus_def)
    then show ?thesis unfolding task_ok_def t2 using True mf(2) c1 by simp
  next
    case False
    have "live_ok {} ?s2 u ?U"
      using a False
      by (auto simp: live_ok_def arriving_def q1 cpu1 o(7-9) eo mark_running_fields is_exited_def)
    then show ?thesis unfolding task_ok_def t2 using False mf(2) c1 by simp
  qed
  with close_switch [OF inv2 on2] have "sys_inv K {} {} ?s2" by blast
  moreover have "switched c u s ?s2"
    unfolding switched_def t2 using a sc1 U(1) by (auto simp: cpu1 q1 arriving_def same_cpus_def)
  ultimately show ?thesis using run by blast
qed

lemma install_spec:
  assumes inv: "sys_inv K {c} {} s" and c: "c < length (ms_cpus s)"
  shows "\<exists>u U s1 s'. choose_next c s = Some (u, tcb_snapshot U, s1) \<and> task s u = Some U \<and> chosen c u s \<and>
    set_current_task (tcb_snapshot U) c s1 = Some s' \<and> sys_inv K {} {} s' \<and> switched c u s s'"
proof -
  obtain u U s1 where ch: "choose_next c s = Some (u, tcb_snapshot U, s1)" "chosen c u s" "arriving K u U c s1"
    "task s1 = task s" "ms_wait s1 = ms_wait s" "same_cpus s s1" "on_cpu s1 = on_cpu s" "defers s1 = defers s"
    "\<forall>v d. on_queue s1 v d \<longleftrightarrow> on_queue s v d \<and> v \<noteq> u"
    using choose_spec [OF assms] by blast
  have "c < length (ms_cpus s1)" using c ch(6) by (simp add: same_cpus_def)
  from set_current_spec [OF ch(3) this] obtain s' where
    s': "set_current_task (tcb_snapshot U) c s1 = Some s'" "sys_inv K {} {} s'" "switched c u s1 s'" by blast
  have "switched c u s s'"
    using s'(3) ch(4-9) same_trans(1) [OF ch(6)] by (auto simp: switched_def)
  moreover have "task s u = Some U" using ch(3,4) by (simp add: arriving_def)
  ultimately show ?thesis using ch(1,2) s'(1,2) by blast
qed

text \<open>The context the switch loads.\<close>

definition cx_of :: "mcs \<Rightarrow> task_id \<Rightarrow> nat" where
  "cx_of s t = (case task s t of None \<Rightarrow> 0 | Some T \<Rightarrow> tc_cx T)"

lemma finish_switch_spec:
  assumes inv: "sys_inv K {c} {} s" and c: "c < length (ms_cpus s)" and K: "\<And>x. K x \<Longrightarrow> x \<noteq> 0 \<and> ctx_ok x"
    and ex: "is_exit \<Longrightarrow> \<not> idle_of s t c \<and> \<not> on_queue s t c"
  shows "\<exists>u s'. finish_switch ctx_ok is_exit t cx c s =
      Some (if u = t then None else Some (cx, cx_of s u), s') \<and> chosen c u s \<and> sys_inv K {} {} s' \<and> switched c u s s'"
proof -
  obtain u U s1 s' where i: "choose_next c s = Some (u, tcb_snapshot U, s1)" "task s u = Some U" "chosen c u s"
    "set_current_task (tcb_snapshot U) c s1 = Some s'" "sys_inv K {} {} s'" "switched c u s s'"
    using install_spec [OF inv c] by blast
  have "K (tc_cx U)" using sys_globD(9) [OF sys_invD(1) [OF inv] i(2)] by (simp add: tcb_fit_def)
  then have k: "tc_cx U \<noteq> 0" "ctx_ok (tc_cx U)" using K by blast+
  have "u = t \<Longrightarrow> \<not> is_exit" using ex i(3) by (auto simp: chosen_def split: if_splits)
  with i(1,4) k have "finish_switch ctx_ok is_exit t cx c s = Some (if u = t then None else Some (cx, cx_of s u), s')"
    by (auto simp: finish_switch_def assert_that_def switch_pair_def cx_of_def i(2))
  with i show ?thesis by blast
qed

end
