(* ===== verification/Multi_Schedule.thy ===== *)
theory Multi_Schedule
  imports Multi_Sched
begin

text \<open>
  The timer, \<open>schedule\<close>, \<open>schedule_wait\<close>, the first switch and the end of a deferred migration:
  under the invariant and the conditions their callers establish they return and keep it.
\<close>

section \<open>The timer\<close>

definition waiting_in :: "mcs \<Rightarrow> task_id set" where
  "waiting_in s = {u. waiting u (ms_wait s)}"

lemma expired_waiting: "sys_inv K E X s \<Longrightarrow> expired s \<subseteq> waiting_in s"
  by (auto simp: expired_def woken_at_def timed_out_at_def waiting_in_def waiting_def sleepers_def)

lemma advance_ticks_obs [simp]:
  "waiters x (advance_ticks n w) = waiters x w" "sleepers (advance_ticks n w) = sleepers w"
  "wq_exited (advance_ticks n w) = wq_exited w" "held x (advance_ticks n w) = held x w"
  by (simp_all add: advance_ticks_def sleepers_def held_def waiters_def split: wait_target.split)

lemma advance_time_spec:
  assumes inv: "sys_inv K E X s"
  shows "sys_inv K E X (advance_time now c s)" "ms_cpus (advance_time now c s) = ms_cpus s"
    "passes {} s (advance_time now c s)" "waiting_in (advance_time now c s) = waiting_in s"
proof -
  obtain n base where e: "elapsed_ticks (timekeeper_last_ns s) now = (n, base)" by fastforce
  let ?s1 = "s\<lparr>timekeeper_last_ns := base\<rparr>" and ?w = "advance_ticks (max n 1) (ms_wait s)"
  have c1: "sys_inv K E X ?s1" "same_task s ?s1 u" "same_cpus s ?s1" for u
    using inv sys_inv_cong [of ?s1 s] by simp_all
  have o1: "waits ?s1 = waits s" "sleeps ?s1 = sleeps s" "in_exited ?s1 = in_exited s" "on_cpu ?s1 = on_cpu s"
    "defers ?s1 = defers s"
    using wait_cong [of ?s1 s] obs_cong [of ?s1 s] by simp_all
  let ?s2 = "put_wait ?w ?s1"
  note g = sys_globD [OF sys_invD(1) [OF inv]]
  have i2: "sys_inv K E X ?s2"
    by (rule put_wait_inv [OF c1(1) time_keeps [OF g(3)]])
      (use g(4) in \<open>simp_all add: o1 waits_def sleeps_def in_exited_def\<close>)
  have "same_task ?s1 ?s2 u" for u
    by (rule put_wait_same_task) (simp_all add: o1 waits_def sleeps_def in_exited_def)
  then have p2: "passes {} s ?s2"
    using c1(2) same_trans(2) [of s ?s1 _ ?s2] c1(3) same_trans(1) [of s ?s1 ?s2]
    by (simp add: passes_def put_wait_obs o1)
  have w2: "waiting_in ?s2 = waiting_in s" by (simp add: waiting_in_def waiting_def)
  show "sys_inv K E X (advance_time now c s)" "ms_cpus (advance_time now c s) = ms_cpus s"
    "passes {} s (advance_time now c s)" "waiting_in (advance_time now c s) = waiting_in s"
    using inv i2 p2 w2 by (simp_all add: advance_time_def e)
qed

lemma still_passes: "still s s' \<Longrightarrow> passes {} s s'"
  by (auto simp: passes_def still_def same_task_def fun_eq_iff)

lemma still_waiting: "still s s' \<Longrightarrow> waiting_in s' = waiting_in s"
  by (simp add: still_def waiting_in_def)

lemma tick_spec:
  assumes inv: "sys_inv K {} {} s" and c: "c < length (ms_cpus s)"
  shows "\<exists>b s' A. mcs_tick now c s = Some (b, s') \<and> sys_inv K {} {} s' \<and> passes A s s' \<and> A \<subseteq> waiting_in s"
proof -
  let ?s1 = "advance_time now c s"
  note a = advance_time_spec [OF inv, of now c]
  have c1: "c < length (ms_cpus ?s1)" using c a(2) by simp
  note g = sys_globD [OF sys_invD(1) [OF a(1)]]
  note wf = cpu_wfD [OF g(6) [OF c1]]
  obtain st where st: "cpu_tick (ms_cpus ?s1 ! c) = Some st" "touched (ms_cpus ?s1 ! c) st"
    using tick_touched [OF wf(1,6,7)] by blast
  let ?s2 = "put_cpu c st ?s1"
  note t = touch_spec [OF a(1) c1 st(2)]
  have p2: "passes {} s ?s2" using passes_trans [OF a(3) still_passes [OF t(2)]] by simp
  have w2: "waiting_in ?s2 = waiting_in s" using still_waiting [OF t(2)] a(4) by simp
  obtain s3 where s3: "activate_woken_and_timeout_tasks ?s2 = Some s3" "sys_inv K {} {} s3"
    "passes (expired ?s2) ?s2 s3" using expire_spec [OF t(1)] by blast
  have p3: "passes (expired ?s2) s s3" using passes_trans [OF p2 s3(3)] by simp
  have e3: "expired ?s2 \<subseteq> waiting_in s" using expired_waiting [OF t(1)] w2 by simp
  show ?thesis
  proof (cases "(cpu_should_reschedule CauseTick st \<or> has_woken_or_timeout_tasks (ms_wait ?s2)) \<and>
      is_timekeeper_cpu c ?s2")
    case True
    then have "mcs_tick now c s = Some (cpu_should_reschedule CauseTick st, s3)"
      using st(1) s3(1) c1 by (auto simp: mcs_tick_def cpu_at_def Let_def)
    with s3(2) p3 e3 show ?thesis by blast
  next
    case False
    then have "mcs_tick now c s = Some (cpu_should_reschedule CauseTick st, ?s2)"
      using st(1) c1 by (auto simp: mcs_tick_def cpu_at_def Let_def)
    with t(1) p2 show ?thesis by blast
  qed
qed

section \<open>schedule\<close>

lemma before_schedule_spec:
  assumes inv: "sys_inv K {} {} s" and c: "c < length (ms_cpus s)"
  shows "\<exists>go s' A. before_schedule now reason c s = Some (go, s') \<and> sys_inv K {} {} s' \<and> passes A s s' \<and>
    A \<subseteq> waiting_in s \<and> (go \<or> reason = Tick)"
proof -
  have e: "\<exists>s' A. (if is_timekeeper_cpu c s then map_option (\<lambda>s1. (True, s1)) (activate_woken_and_timeout_tasks s)
      else Some (True, s)) = Some (True, s') \<and> sys_inv K {} {} s' \<and> passes A s s' \<and> A \<subseteq> waiting_in s"
  proof (cases "is_timekeeper_cpu c s")
    case True
    with expire_spec [OF inv] expired_waiting [OF inv] show ?thesis by auto
  next
    case False
    with inv passes_refl show ?thesis by force
  qed
  show ?thesis
  proof (cases "reason = Tick \<or> reason = Reschedule")
    case True
    then show ?thesis
    proof
      assume r: "reason = Tick"
      from tick_spec [OF inv c, of now] show ?thesis unfolding r before_schedule_def by auto
    next
      assume r: "reason = Reschedule"
      have "before_schedule now reason c s = Some (True, s)" by (simp add: r before_schedule_def)
      with inv passes_refl [of s] show ?thesis by blast
    qed
  next
    case False
    then have b: "before_schedule now reason c s = (if is_timekeeper_cpu c s
        then map_option (\<lambda>s1. (True, s1)) (activate_woken_and_timeout_tasks s) else Some (True, s))"
      by (cases reason) (simp_all add: before_schedule_def)
    from e show ?thesis unfolding b by blast
  qed
qed

text \<open>What the CPU must be before it switches: online, with no migration of its own in flight.\<close>

definition switchable :: "nat \<Rightarrow> mcs \<Rightarrow> bool" where
  "switchable c s \<longleftrightarrow> is_online s c \<and> (\<forall>u. \<not> defers s u c)"

lemma switchable_passes: "passes A s s' \<Longrightarrow> switchable c s \<Longrightarrow> switchable c s'"
  by (simp add: switchable_def passes_def same_cpus_def)

text \<open>Where the reason of the switch sends the running task.\<close>

definition target_of :: "schedule_reason \<Rightarrow> queue_target \<Rightarrow> bool" where
  "target_of reason target \<longleftrightarrow>
     (case reason of
        Block x \<Rightarrow> target = ToBlocked x
      | Sleep n \<Rightarrow> if n = 0 then target = ToReady else \<exists>k. target = ToSleeping k
      | Exit code \<Rightarrow> target = ToExited code
      | _ \<Rightarrow> target = ToReady)"

lemma pick_queue_target: "target_of reason (pick_queue reason s)"
  by (simp add: pick_queue_def target_of_def split: schedule_reason.split)

text \<open>
  The switch of a CPU that runs the task \<open>t\<close>: \<open>t\<close> leaves for the target unless it is the idle
  task, the chosen task runs, and the result is the pair of contexts when it is another one.
\<close>

definition switch_pair_to :: "mcs \<Rightarrow> nat \<Rightarrow> task_id \<Rightarrow> task_id \<Rightarrow> mcs \<Rightarrow> (nat \<times> nat) option" where
  "switch_pair_to s c t u s' =
     (if u = t then None else Some (current_task_cx (ms_cpus s ! c), cx_of s' u))"

definition switches :: "(nat \<Rightarrow> bool) \<Rightarrow> schedule_reason \<Rightarrow> task_id \<Rightarrow> nat \<Rightarrow> mcs \<Rightarrow>
    (nat \<times> nat) option \<Rightarrow> mcs \<Rightarrow> bool" where
  "switches K reason t c s r s' \<longleftrightarrow>
     (\<exists>u s1. chosen c u s1 \<and> switched c u s1 s' \<and> r = switch_pair_to s c t u s' \<and>
        (if idle_of s t c then s1 = s
         else \<exists>target. target_of reason target \<and> leaves K target t c s s1))"

lemma switched_cx: "switched c u s s' \<Longrightarrow> cx_of s' u = cx_of s u"
  by (auto simp: switched_def cx_of_def mark_running_fields)

lemma on_cpu_current: "on_cpu s t c \<Longrightarrow> current_task_id (ms_cpus s ! c) = Some t"
  by (simp add: on_cpu_def)

lemma is_idle_obs: "on_cpu s t c \<Longrightarrow> is_current_idle (ms_cpus s ! c) \<longleftrightarrow> idle_of s t c"
  by (auto simp: on_cpu_def idle_of_def is_current_idle_def)

lemma leaves_still:
  assumes "still s s1" "leaves K target t c s1 s'"
  shows "leaves K target t c s s'"
proof -
  have w: "ms_wait s1 = ms_wait s" "task s1 = task s" "on_cpu s1 = on_cpu s" using stillD [OF assms(1)] by simp_all
  then have e: "exit_wakes s1 t = exit_wakes s t" by (simp add: exit_wakes_def split: option.split)
  have "same_task s s1 u" for u using assms(1) by (simp add: still_def)
  then have "same_task s1 s' u \<Longrightarrow> same_task s s' u" for u using same_trans(2) by blast
  moreover have "same_cpus s s'" using assms same_trans(1) by (auto simp: still_def leaves_def)
  moreover have "woken_by target t s1 = woken_by target t s" "lost_by target t s1 = lost_by target t s"
    "left_to target t c s1 s' = left_to target t c s s'"
    by (simp_all add: woken_by_def lost_by_def left_to_def e w split: queue_target.split)
  ultimately show ?thesis using assms(2) w by (simp add: leaves_def)
qed

lemma switchable_cpu: "switchable c s \<Longrightarrow> c < length (ms_cpus s)"
  by (simp add: switchable_def is_online_def)

lemma leaves_out:
  assumes l: "leaves K target t c s s1" and ex: "target = ToExited code" and n: "\<not> idle_of s t c"
  shows "\<not> idle_of s1 t c" "\<not> on_queue s1 t c"
proof -
  have "state_is s1 t (Exited code)" and i: "idle_of s1 = idle_of s" and inv: "sys_inv K {c} {} s1"
    using l ex by (simp_all add: leaves_def left_to_def same_cpus_def)
  then obtain T where T: "task s1 t = Some T" "tc_state T = Exited code" by (auto simp: state_is_def)
  show "\<not> idle_of s1 t c" using n i by simp
  have "tc_ready_cpu T = None"
    using T task_tcb_ok [OF sys_invD(1) [OF inv] T(1)] by (auto simp: tcb_ok_def)
  moreover have "task_ok {c} s1 t" by (rule sys_invD(2) [OF inv]) simp
  ultimately show "\<not> on_queue s1 t c"
    using T(1) by (auto simp: task_ok_def live_ok_def absent_ok_def split: if_splits)
qed

lemma switch_spec:
  assumes inv: "sys_inv K {} {} s" and ok: "switchable c s" and t: "on_cpu s t c"
    and K: "\<And>x. K x \<Longrightarrow> x \<noteq> 0 \<and> ctx_ok x" and h: "\<And>x. reason = Block x \<Longrightarrow> held x (ms_wait s)"
  shows "\<exists>r s'. do {
      st \<leftarrow> cpu_at s c;
      current \<leftarrow> current_task_id st;
      let current_cx = current_task_cx st;
      (if is_current_idle st then finish_switch ctx_ok False current current_cx c s
       else do {
         let s1 = (if reason \<in> {Yield, Sleep 0} then put_cpu c (prepare_yield st) s else s);
         s2 \<leftarrow> enqueue_task (pick_queue reason s1) current c s1;
         finish_switch ctx_ok (case reason of Exit _ \<Rightarrow> True | _ \<Rightarrow> False) current current_cx c s2
       })
    } = Some (r, s') \<and> sys_inv K {} {} s' \<and> switches K reason t c s r s'" (is "\<exists>r s'. ?run = _ \<and> _")
proof -
  have c: "c < length (ms_cpus s)" by (rule switchable_cpu [OF ok])
  let ?st = "ms_cpus s ! c"
  have cur: "current_task_id ?st = Some t" by (rule on_cpu_current [OF t])
  show ?thesis
  proof (cases "idle_of s t c")
    case True
    have i: "sys_inv K {c} {} s" by (rule open_switch [OF inv t]) (simp add: True)
    obtain u s' where f: "finish_switch ctx_ok False t (current_task_cx ?st) c s =
        Some (if u = t then None else Some (current_task_cx ?st, cx_of s u), s')" "chosen c u s" "sys_inv K {} {} s'"
      "switched c u s s'" using finish_switch_spec [OF i c K, of False t "current_task_cx ?st"] by auto
    have "?run = Some (switch_pair_to s c t u s', s')"
      using f(1) True c cur is_idle_obs [OF t] switched_cx [OF f(4)] by (simp add: cpu_at_def switch_pair_to_def)
    with f True show ?thesis unfolding switches_def by auto
  next
    case False
    define s1 where "s1 = (if reason \<in> {Yield, Sleep 0} then put_cpu c (prepare_yield ?st) s else s)"
    have s1: "sys_inv K {} {} s1" "still s s1"
      using touch_spec [OF inv c touches(1) [OF cpu_wfD(1) [OF sys_globD(6) [OF sys_invD(1) [OF inv] c]]]] inv
      by (auto simp: s1_def)
    note S = stillD [OF s1(2)]
    have o: "on_cpu s1 t c" "\<not> idle_of s1 t c" "is_online s1 c" "\<And>u. \<not> defers s1 u c" "c < length (ms_cpus s1)"
      using t False ok S c by (simp_all add: switchable_def same_cpus_def)
    have hb: "held x (ms_wait s1)" if "pick_queue reason s1 = ToBlocked x" for x
      using that h S(2) by (auto simp: pick_queue_def split: schedule_reason.splits if_splits)
    obtain s2 where s2: "enqueue_task (pick_queue reason s1) t c s1 = Some s2"
      "leaves K (pick_queue reason s1) t c s1 s2" using leave_spec [OF s1(1) o(1-4) hb] by blast
    let ?ex = "case reason of Exit _ \<Rightarrow> True | _ \<Rightarrow> False"
    have ex: "\<not> idle_of s2 t c \<and> \<not> on_queue s2 t c" if "?ex"
    proof -
      from that obtain code where "reason = Exit code" by (cases reason) simp_all
      then have "pick_queue reason s1 = ToExited code" by (simp add: pick_queue_def)
      from leaves_out [OF s2(2) this o(2)] show ?thesis by blast
    qed
    have i2: "sys_inv K {c} {} s2" "c < length (ms_cpus s2)" using s2(2) o(5) by (simp_all add: leaves_def same_cpus_def)
    obtain u s' where f: "finish_switch ctx_ok ?ex t (current_task_cx ?st) c s2 =
        Some (if u = t then None else Some (current_task_cx ?st, cx_of s2 u), s')" "chosen c u s2" "sys_inv K {} {} s'"
      "switched c u s2 s'"
      using finish_switch_spec [OF i2 K, of ?ex t "current_task_cx ?st"] ex by auto
    have "?run = Option.bind (enqueue_task (pick_queue reason s1) t c s1)
        (finish_switch ctx_ok ?ex t (current_task_cx ?st) c)"
      unfolding s1_def Let_def using False c cur is_idle_obs [OF t] by (simp add: cpu_at_def)
    then have "?run = Some (switch_pair_to s c t u s', s')"
      using f(1) s2(1) switched_cx [OF f(4)] by (simp add: switch_pair_to_def)
    moreover have "leaves K (pick_queue reason s1) t c s s2" by (rule leaves_still [OF s1(2) s2(2)])
    ultimately show ?thesis using f False pick_queue_target unfolding switches_def by metis
  qed
qed

text \<open>\<open>schedule\<close>, from the first phase to the switch.\<close>

lemma schedule_spec:
  assumes inv: "sys_inv K {} {} s0" and ok: "switchable c s0" and t: "on_cpu s0 t c"
    and K: "\<And>x. K x \<Longrightarrow> x \<noteq> 0 \<and> ctx_ok x" and h: "\<And>x. reason = Block x \<Longrightarrow> held x (ms_wait s0)"
  shows "\<exists>r s' A s. schedule ctx_ok now reason c s0 = Some (r, s') \<and> sys_inv K {} {} s' \<and>
    sys_inv K {} {} s \<and> passes A s0 s \<and> A \<subseteq> waiting_in s0 \<and>
    (reason = Tick \<and> r = None \<and> s' = s \<or> switches K reason t c s r s')"
proof -
  obtain go s A where b: "before_schedule now reason c s0 = Some (go, s)" "sys_inv K {} {} s" "passes A s0 s"
    "A \<subseteq> waiting_in s0" "go \<or> reason = Tick"
    using before_schedule_spec [OF inv switchable_cpu [OF ok], of now reason] by blast
  show ?thesis
  proof (cases go)
    case False
    then have "schedule ctx_ok now reason c s0 = Some (None, s)" using b(1) by (simp add: schedule_def)
    with False b show ?thesis by blast
  next
    case True
    have o: "switchable c s" "on_cpu s t c" "\<And>x. reason = Block x \<Longrightarrow> held x (ms_wait s)"
      using switchable_passes [OF b(3) ok] t h b(3) by (simp_all add: passes_def)
    obtain r s' where "do {
      st \<leftarrow> cpu_at s c;
      current \<leftarrow> current_task_id st;
      let current_cx = current_task_cx st;
      (if is_current_idle st then finish_switch ctx_ok False current current_cx c s
       else do {
         let s1 = (if reason \<in> {Yield, Sleep 0} then put_cpu c (prepare_yield st) s else s);
         s2 \<leftarrow> enqueue_task (pick_queue reason s1) current c s1;
         finish_switch ctx_ok (case reason of Exit _ \<Rightarrow> True | _ \<Rightarrow> False) current current_cx c s2
       })
    } = Some (r, s')" "sys_inv K {} {} s'" "switches K reason t c s r s'"
      using switch_spec [OF b(2) o(1,2) K o(3)] by blast
    then show ?thesis using True b by (auto simp: schedule_def)
  qed
qed

section \<open>schedule_wait\<close>

lemma dequeue_running:
  assumes inv: "sys_inv K E X s" and c: "c < length (ms_cpus s)" and n: "\<not> on_queue s t c"
  shows "sys_inv K E X (put_cpu c (cpu_dequeue t (ms_cpus s ! c)) s)"
    "still s (put_cpu c (cpu_dequeue t (ms_cpus s ! c)) s)"
proof -
  let ?st = "ms_cpus s ! c"
  have ok: "cpu_ok ?st" by (rule cpu_wfD(1) [OF sys_globD(6) [OF sys_invD(1) [OF inv] c]])
  have "filter_mset (\<lambda>i. i \<noteq> t) (ready_mset ?st) = ready_mset ?st"
    using n c by (auto simp: filter_mset_eq_conv on_queue_def)
  then have "touched ?st (cpu_dequeue t ?st)"
    using ready_dequeue [OF ok, of t] by (simp add: touched_def) (simp add: cpu_dequeue_def same_place_def
      current_task_id_def current_nice_def)
  from touch_spec [OF inv c this] show "sys_inv K E X (put_cpu c (cpu_dequeue t ?st) s)"
    "still s (put_cpu c (cpu_dequeue t ?st) s)" .
qed

lemma finish_wait_still:
  assumes inv: "sys_inv K E X s" and T: "task s t \<noteq> None"
  shows "sys_inv K E X (put_reg (reg_finish_wait t res (ms_reg s)) s)"
    "refreshed t s (put_reg (reg_finish_wait t res (ms_reg s)) s)"
    "result_is (put_reg (reg_finish_wait t res (ms_reg s)) s) t res"
proof -
  obtain T where T: "task s t = Some T" using assms(2) by blast
  have "cosmetic T (tcb_finish_wait res T)" by (simp add: cosmetic_def tcb_finish_wait_def)
  note c = cosmetic_put [OF inv T this]
  show "sys_inv K E X (put_reg (reg_finish_wait t res (ms_reg s)) s)"
    "refreshed t s (put_reg (reg_finish_wait t res (ms_reg s)) s)"
    using c(1,2) by (simp_all add: reg_finish_wait_def modify_put [OF T])
  show "result_is (put_reg (reg_finish_wait t res (ms_reg s)) s) t res"
    using c(3) by (simp add: reg_finish_wait_def modify_put [OF T] result_is_def) (simp add: tcb_finish_wait_def)
qed

lemma timeout_obs [simp]:
  "waiters y (enqueue_wait_timeout t x n w) = waiters y w" "sleepers (enqueue_wait_timeout t x n w) = sleepers w"
  "wq_exited (enqueue_wait_timeout t x n w) = wq_exited w" "held y (enqueue_wait_timeout t x n w) = held y w"
  by (simp_all add: enqueue_wait_timeout_def sleepers_def held_def waiters_def split: wait_target.split)

lemma timeout_record_spec:
  assumes inv: "sys_inv K E X s" and t: "waits s t x"
  shows "sys_inv K E X (put_wait (enqueue_wait_timeout t x n (ms_wait s)) s)"
    "same_task s (put_wait (enqueue_wait_timeout t x n (ms_wait s)) s) u"
proof -
  note g = sys_globD [OF sys_invD(1) [OF inv]]
  let ?w = "enqueue_wait_timeout t x n (ms_wait s)"
  have "wq_inv ?w" by (rule set_timeout_keeps [OF g(3)]) (use t in \<open>simp add: waits_def\<close>)
  then show "sys_inv K E X (put_wait ?w s)"
    by (rule put_wait_inv [OF inv]) (use g(4) in \<open>simp_all add: waits_def sleeps_def in_exited_def\<close>)
  show "same_task s (put_wait ?w s) u"
    by (rule put_wait_same_task) (simp_all add: waits_def sleeps_def in_exited_def)
qed

text \<open>The state of a waiter before the next task is chosen: its record of the timeout is made.\<close>

definition set_deadline :: "task_id \<Rightarrow> wait_target \<Rightarrow> nat option \<Rightarrow> mcs \<Rightarrow> mcs" where
  "set_deadline t x ticks s =
     (case ticks of
        None \<Rightarrow> s
      | Some n \<Rightarrow> put_wait (enqueue_wait_timeout t x
          (sat_add u64_max (wq_now (ms_wait s)) (max n 1)) (ms_wait s)) s)"

definition waits_out :: "(nat \<Rightarrow> bool) \<Rightarrow> wait_target \<Rightarrow> nat option \<Rightarrow> task_id \<Rightarrow> nat \<Rightarrow> mcs \<Rightarrow>
    (nat \<times> nat) option \<Rightarrow> mcs \<Rightarrow> bool" where
  "waits_out K x ticks t c s r s' \<longleftrightarrow>
     (\<exists>u s1. leaves K (ToBlocked x) t c s s1 \<and> u \<noteq> t \<and> chosen c u (set_deadline t x ticks s1) \<and>
        switched c u (set_deadline t x ticks s1) s' \<and> r = switch_pair_to s c t u s')"

lemma wait_spec:
  assumes inv: "sys_inv K {} {} s" and ok: "switchable c s" and t: "on_cpu s t c" and n: "\<not> idle_of s t c"
    and K: "\<And>x. K x \<Longrightarrow> x \<noteq> 0 \<and> ctx_ok x" and h: "held x (ms_wait s)"
  shows "\<exists>r s'. do {
      let st = ms_cpus s ! c;
      s1 \<leftarrow> enqueue_task (ToBlocked x) t c (put_cpu c (cpu_dequeue t st) s);
      let s2 = (case ticks of
          None \<Rightarrow> s1
        | Some ticks \<Rightarrow>
            put_wait (enqueue_wait_timeout t x
              (sat_add u64_max (wq_now (ms_wait s1)) (max ticks 1)) (ms_wait s1)) s1);
      (snap, s3) \<leftarrow> install_next c s2;
      pair \<leftarrow> switch_pair ctx_ok (current_task_cx st) (snap_task_cx snap);
      Some (Some pair, s3)
    } = Some (r, s') \<and> sys_inv K {} {} s' \<and> waits_out K x ticks t c s r s'"
proof -
  have c: "c < length (ms_cpus s)" by (rule switchable_cpu [OF ok])
  have nq: "\<not> on_queue s t c"
  proof -
    obtain T where "live_ok {} s t T" "tc_ready_cpu T = None" by (rule running_task [OF inv t n])
    then show ?thesis by (simp add: live_ok_def)
  qed
  let ?s0 = "put_cpu c (cpu_dequeue t (ms_cpus s ! c)) s"
  note s0 = dequeue_running [OF inv c nq]
  note S = stillD [OF s0(2)]
  have o: "on_cpu ?s0 t c" "\<not> idle_of ?s0 t c" "is_online ?s0 c" "\<And>u. \<not> defers ?s0 u c" "held x (ms_wait ?s0)"
    using t n ok S h by (simp_all add: switchable_def same_cpus_def)
  obtain s1 where s1: "enqueue_task (ToBlocked x) t c ?s0 = Some s1" "leaves K (ToBlocked x) t c ?s0 s1"
    using leave_spec [OF s0(1) o(1-4), of "ToBlocked x"] o(5) by blast
  have l: "leaves K (ToBlocked x) t c s s1" by (rule leaves_still [OF s0(2) s1(2)])
  then have i1: "sys_inv K {c} {} s1" "waits s1 t x" "state_is s1 t (Blocking x)" "same_cpus s s1"
    by (simp_all add: leaves_def left_to_def)
  define s2 where "s2 = set_deadline t x ticks s1"
  have s2: "sys_inv K {c} {} s2" "same_task s1 s2 v" "ms_cpus s2 = ms_cpus s1" for v
    using i1(1) timeout_record_spec [OF i1(1,2)] by (simp_all add: s2_def set_deadline_def split: option.split)
  have c2: "c < length (ms_cpus s2)" using i1(4) c s2(3) by (simp add: same_cpus_def)
  obtain u U s3 s' where f: "choose_next c s2 = Some (u, tcb_snapshot U, s3)" "task s2 u = Some U" "chosen c u s2"
    "set_current_task (tcb_snapshot U) c s3 = Some s'" "sys_inv K {} {} s'" "switched c u s2 s'"
    using install_spec [OF s2(1) c2] by blast
  have "K (tc_cx U)" using sys_globD(9) [OF sys_invD(1) [OF s2(1)] f(2)] by (simp add: tcb_fit_def)
  then have k: "tc_cx U \<noteq> 0" "ctx_ok (tc_cx U)" using K by blast+
  have ut: "u \<noteq> t"
  proof
    assume ut: "u = t"
    obtain T where T: "task s2 t = Some T" "tc_state T = Blocking x"
      using i1(3) s2(2) by (auto simp: state_is_def same_task_def)
    have "tc_ready_cpu T = None" using task_tcb_ok [OF sys_invD(1) [OF s2(1)] T(1)] T(2) by (auto simp: tcb_ok_def)
    moreover have "task_ok {c} s2 t" by (rule sys_invD(2) [OF s2(1)]) simp
    ultimately have "\<not> on_queue s2 t c" using T(1) by (auto simp: task_ok_def live_ok_def absent_ok_def split: if_splits)
    moreover have "\<not> idle_of s2 t c"
      using n i1(4) s2(3) obs_cong(4) [of s2 s1] by (simp add: same_cpus_def)
    ultimately show False using f(3) ut by (auto simp: chosen_def split: if_splits)
  qed
  have cx: "tc_cx U = cx_of s' u" using switched_cx [OF f(6)] f(2) by (simp add: cx_of_def)
  have run: "install_next c s2 = Some (tcb_snapshot U, s')" using f(1,4) by (simp add: install_next_def)
  have sp: "switch_pair ctx_ok (current_task_cx (ms_cpus s ! c)) (snap_task_cx (tcb_snapshot U)) =
      Some (current_task_cx (ms_cpus s ! c), cx_of s' u)"
    using k by (simp add: switch_pair_def assert_that_def cx [symmetric])
  have "waits_out K x ticks t c s (switch_pair_to s c t u s') s'"
    unfolding waits_out_def using l ut f(3,6) by (auto simp: s2_def)
  moreover have "switch_pair_to s c t u s' = Some (current_task_cx (ms_cpus s ! c), cx_of s' u)"
    using ut by (simp add: switch_pair_to_def)
  ultimately show ?thesis
    using s1(1) run sp f(5) unfolding s2_def set_deadline_def by (simp add: Let_def cong: option.case_cong)
qed

lemma schedule_wait_spec:
  assumes inv: "sys_inv K {} {} s0" and ok: "switchable c s0" and t: "on_cpu s0 t c" and n: "\<not> idle_of s0 t c"
    and K: "\<And>x. K x \<Longrightarrow> x \<noteq> 0 \<and> ctx_ok x" and h: "held x (ms_wait s0)"
  shows "\<exists>r s' A s. schedule_wait ctx_ok x ticks c s0 = Some (r, s') \<and> sys_inv K {} {} s' \<and>
    sys_inv K {} {} s \<and> passes A s0 s \<and> A \<subseteq> waiting_in s0 \<and>
    (if wait_target_ready x (ms_reg s) then r = None \<and> refreshed t s s' \<and> result_is s' t Woken
     else waits_out K x ticks t c s r s')"
proof -
  have c0: "c < length (ms_cpus s0)" by (rule switchable_cpu [OF ok])
  obtain s A where s: "(if is_timekeeper_cpu c s0 then activate_woken_and_timeout_tasks s0 else Some s0) = Some s"
    "sys_inv K {} {} s" "passes A s0 s" "A \<subseteq> waiting_in s0"
  proof (cases "is_timekeeper_cpu c s0")
    case True
    with expire_spec [OF inv] expired_waiting [OF inv] that show thesis by auto
  next
    case False
    with inv passes_refl [of s0] that [of s0 "{}"] show thesis by simp
  qed
  have o: "switchable c s" "on_cpu s t c" "\<not> idle_of s t c" "held x (ms_wait s)"
    using switchable_passes [OF s(3) ok] t n h s(3) by (simp_all add: passes_def same_cpus_def)
  have c: "c < length (ms_cpus s)" by (rule switchable_cpu [OF o(1)])
  have cur: "current_task_id (ms_cpus s ! c) = Some t" by (rule on_cpu_current [OF o(2)])
  show ?thesis
  proof (cases "wait_target_ready x (ms_reg s)")
    case True
    note f = finish_wait_still [OF s(2) current_registered [OF s(2) o(2)], of Woken]
    have "schedule_wait ctx_ok x ticks c s0 = Some (None, put_reg (reg_finish_wait t Woken (ms_reg s)) s)"
      using s(1) True c cur by (simp add: schedule_wait_def cpu_at_def)
    with True f s show ?thesis by auto
  next
    case False
    obtain r s' where w: "do {
      let st = ms_cpus s ! c;
      s1 \<leftarrow> enqueue_task (ToBlocked x) t c (put_cpu c (cpu_dequeue t st) s);
      let s2 = (case ticks of
          None \<Rightarrow> s1
        | Some ticks \<Rightarrow>
            put_wait (enqueue_wait_timeout t x
              (sat_add u64_max (wq_now (ms_wait s1)) (max ticks 1)) (ms_wait s1)) s1);
      (snap, s3) \<leftarrow> install_next c s2;
      pair \<leftarrow> switch_pair ctx_ok (current_task_cx st) (snap_task_cx snap);
      Some (Some pair, s3)
    } = Some (r, s')" "sys_inv K {} {} s'" "waits_out K x ticks t c s r s'"
      using wait_spec [OF s(2) o(1-3) K o(4), of ticks] by blast
    have "schedule_wait ctx_ok x ticks c s0 = Some (r, s')"
      using s(1) False c cur w(1) by (simp add: schedule_wait_def cpu_at_def Let_def)
    with False w s show ?thesis by auto
  qed
qed

section \<open>The first switch\<close>

lemma first_switch_spec:
  assumes inv: "sys_inv K {} {} s" and c: "c < length (ms_cpus s)" and t: "on_cpu s t c" and i: "idle_of s t c"
    and K: "\<And>x. K x \<Longrightarrow> x \<noteq> 0 \<and> ctx_ok x"
  shows "\<exists>u s1 s'. prepare_first_switch ctx_ok boot c s = Some ((boot, cx_of s' u), s') \<and> sys_inv K {} {} s' \<and>
    still s s1 \<and> chosen c u s1 \<and> switched c u s1 s'"
proof -
  let ?s1 = "put_cpu c (leave_boot_context (ms_cpus s ! c)) s"
  note s1 = touch_spec [OF inv c touches(2) [OF cpu_wfD(1) [OF sys_globD(6) [OF sys_invD(1) [OF inv] c]]]]
  note S = stillD [OF s1(2)]
  have c1: "c < length (ms_cpus ?s1)" using c by simp
  have "on_cpu ?s1 t c" "idle_of ?s1 t c" using t i S by (simp_all add: same_cpus_def)
  then have "sys_inv K {c} {} ?s1" using open_switch [OF s1(1)] by blast
  from install_spec [OF this c1] obtain u U s2 s' where
    f: "choose_next c ?s1 = Some (u, tcb_snapshot U, s2)" "task ?s1 u = Some U" "chosen c u ?s1"
    "set_current_task (tcb_snapshot U) c s2 = Some s'" "sys_inv K {} {} s'" "switched c u ?s1 s'" by blast
  have "K (tc_cx U)" using sys_globD(9) [OF sys_invD(1) [OF s1(1)] f(2)] by (simp add: tcb_fit_def)
  then have k: "tc_cx U \<noteq> 0" "ctx_ok (tc_cx U)" using K by blast+
  have cx: "cx_of s' u = tc_cx U" using switched_cx [OF f(6)] f(2) by (simp add: cx_of_def)
  have "prepare_first_switch ctx_ok boot c s = Some ((boot, cx_of s' u), s')"
    using f(1,4) k c by (simp add: prepare_first_switch_def cpu_at_def install_next_def switch_pair_def
        assert_that_def cx)
  with f(3,5,6) s1(2) show ?thesis by blast
qed

section \<open>The end of a migration\<close>

lemma deferred_spec:
  assumes inv: "sys_inv K {} {} s" and c: "c < length (ms_cpus s)"
  shows "\<exists>s'. enqueue_deferred_task c s = Some s' \<and> sys_inv K {} {} s' \<and> same_cpus s s' \<and> on_cpu s' = on_cpu s \<and>
    (\<forall>u. \<not> defers s' u c) \<and> (\<forall>u d. d \<noteq> c \<longrightarrow> (defers s' u d \<longleftrightarrow> defers s u d)) \<and>
    (\<forall>u. defers s u c \<longrightarrow> readied u s') \<and> (\<forall>u. \<not> defers s u c \<longrightarrow> same_task s s' u)"
proof (cases "deferred_ready (ms_cpus s ! c)")
  case None
  then have "enqueue_deferred_task c s = Some s" using c by (simp add: enqueue_deferred_task_def take_deferred_ready_def cpu_at_def)
  with None inv show ?thesis by (auto simp: defers_def)
next
  case (Some t)
  then have d: "defers s t c" using c by (simp add: defers_def)
  let ?st = "(ms_cpus s ! c)\<lparr>deferred_ready := None\<rparr>" and ?s = "put_cpu c ((ms_cpus s ! c)\<lparr>deferred_ready := None\<rparr>) s"
  note g = sys_globD [OF sys_invD(1) [OF inv]]
  have ok: "task_ok {} s t" by (rule sys_invD(2) [OF inv]) simp
  then obtain T where T: "task s t = Some T" "\<not> tcb_is_idle T" "live_ok {} s t T"
    using d by (auto simp: task_ok_def absent_ok_def split: option.splits if_splits)
  have r: "tc_running_cpu T = Some c" using T(3) d by (auto simp: live_ok_def)
  then have st: "tc_state T = Running" "tc_ready_cpu T = None"
    using task_tcb_ok [OF sys_invD(1) [OF inv] T(1)] by (auto simp: tcb_ok_def)
  have q: "ready_mset ?st = ready_mset (ms_cpus s ! c)" "cpu_ok ?st = cpu_ok (ms_cpus s ! c)"
    by (rule ready_mset_queues; simp)+
  have wf: "cpu_wf c ?st" using g(6) [OF c] by (simp add: cpu_wf_def q)
  have cu: "current_task_id ?st = current_task_id (ms_cpus s ! c)" by (simp add: current_task_id_def)
  have inv1: "sys_inv K {} {t} ?s"
  proof (rule put_cpu_inv [OF sys_inv_mono [OF inv] c wf])
    show "(u \<in># ready_mset ?st \<longleftrightarrow> on_queue s u c) \<and> (c \<notin> {} \<longrightarrow> (current_task_id ?st = Some u \<longleftrightarrow> on_cpu s u c)) \<and>
        (deferred_ready ?st = Some u \<longleftrightarrow> defers s u c)" if "u \<notin> {t}" for u
      using that c Some by (simp add: q cu on_queue_def on_cpu_def defers_def)
    show "\<exists>T. task s u = Some T \<and> \<not> tcb_is_idle T" if "u \<in># ready_mset ?st" for u
      by (rule g(8) [of u c]) (use that q c in \<open>simp add: on_queue_def\<close>)
  qed simp_all
  note o = put_cpu_obs [OF c, of ?st]
  have ob: "on_queue ?s = on_queue s" "on_cpu ?s = on_cpu s"
    using c by (auto simp: fun_eq_iff o(1,2) q cu) (auto simp: on_queue_def on_cpu_def)
  have df: "defers ?s u e \<longleftrightarrow> e \<noteq> c \<and> defers s u e" for u e by (simp add: o(3))
  have one: "defers s t e \<Longrightarrow> e = c" "\<not> on_cpu s t e" for e
    using T(3) r d by (auto simp: live_ok_def)
  have dm: "dormant {} ?s t T"
    using T r st one by (auto simp: dormant_def ob df o(6-9) live_ok_def is_exited_def)
  have ma: "may_activate ?s t T LeastLoaded" using r c one by (simp add: may_activate_def ob)
  from activate_keeps [OF inv1 _ dm ma] obtain s' e where
    s': "activate t LeastLoaded ?s = Some s'" "sys_inv K {} {} s'" "placed t e ?s s'" by auto
  have run: "enqueue_deferred_task c s = Some s'"
    using s'(1) Some c by (simp add: enqueue_deferred_task_def take_deferred_ready_def cpu_at_def)
  have sc: "same_cpus s ?s" by (rule put_cpu_same_cpus [OF c]) simp_all
  have other: "same_task s s' u" if "\<not> defers s u c" for u
  proof -
    have "u \<noteq> t" using that d by auto
    have "same_task s ?s u" by (rule put_cpu_same_task [OF c]) (use that c q cu in \<open>simp_all add: defers_def\<close>)
    then show ?thesis using s'(3) \<open>u \<noteq> t\<close> same_trans(2) by (auto simp: placed_def)
  qed
  have "u = t" if "defers s u c" for u using that Some by (simp add: defers_def)
  then show ?thesis
    using run s'(2,3) other same_trans(1) [OF sc] placed_readied [OF s'(3)]
    by (auto simp: placed_def ob df)
qed

end
