(* ===== verification/Multi_Tasks.thy ===== *)
theory Multi_Tasks
  imports Multi_Schedule
begin

text \<open>
  Creating tasks (\<open>scheduler/tasks.rs\<close>): a new task gets a number no task ever had, is registered
  ready but in no queue, and only its activation publishes it. Creation never disturbs another
  task, and the invariant bounds the queues of the CPUs by the ids handed out, so that activation
  finds room.
\<close>

section \<open>Fresh tasks\<close>

text \<open>A task that is registered and has not been published yet.\<close>

definition unstarted :: "mcs \<Rightarrow> task_id \<Rightarrow> bool" where
  "unstarted s t \<longleftrightarrow> (\<exists>T. task s t = Some T \<and> \<not> tcb_is_idle T \<and> tc_state T = Ready \<and>
     tc_ready_cpu T = None \<and> tc_running_cpu T = None)"

definition new_born :: "(nat \<Rightarrow> bool) \<Rightarrow> mcs \<Rightarrow> tcb \<Rightarrow> bool" where
  "new_born K s T \<longleftrightarrow> tc_id T = reg_next_id (ms_reg s) \<and> \<not> tcb_is_idle T \<and> tc_state T = Ready \<and>
     tc_ready_cpu T = None \<and> tc_running_cpu T = None \<and> tcb_fit K s T"

definition has_ids :: "mcs \<Rightarrow> bool" where
  "has_ids s \<longleftrightarrow> reg_next_id (ms_reg s) + 1 < usize_max"

lemma next_id_taken:
  "has_ids s \<Longrightarrow> take_next_id (ms_reg s) = (reg_next_id (ms_reg s), (ms_reg s)\<lparr>reg_next_id := reg_next_id (ms_reg s) + 1\<rparr>)"
  by (simp add: take_next_id_def sat_add_def has_ids_def)

lemma next_id_fresh:
  assumes "sys_glob K s" "reg_next_id (ms_reg s) \<le> i"
  shows "task s i = None"
proof (cases "task s i")
  case (Some T)
  then have "i < reg_next_id (ms_reg s)"
    using registered_below [OF sys_globD(1,2) [OF assms(1)]] by (simp add: task_def)
  with assms(2) show ?thesis by simp
qed

text \<open>The registry after an id has been taken.\<close>

definition id_taken :: "mcs \<Rightarrow> mcs" where
  "id_taken s = put_reg ((ms_reg s)\<lparr>reg_next_id := reg_next_id (ms_reg s) + 1\<rparr>) s"

lemma id_taken_spec:
  assumes inv: "sys_inv K E X s" and h: "has_ids s"
  shows "sys_inv K E X (id_taken s)" "task (id_taken s) = task s" "same_cpus s (id_taken s)"
    "same_task s (id_taken s) u"
proof -
  note g = sys_globD [OF sys_invD(1) [OF inv]]
  show tk: "task (id_taken s) = task s" by (simp add: id_taken_def task_put_reg) (simp add: task_def [abs_def])
  show sc: "same_cpus s (id_taken s)" by (simp add: id_taken_def)
  show st: "same_task s (id_taken s) u" for u by (simp add: same_task_def tk) (simp add: id_taken_def)
  have f: "tcb_fit K (id_taken s) = tcb_fit K s" using tcb_fit_same [OF sc] by blast
  have "i < reg_next_id (ms_reg s)" if "reg_get (ms_reg s) i = Some T" for i T
    using registered_below [OF g(1,2) that] .
  with g(1) h have r: "reg_ok ((ms_reg s)\<lparr>reg_next_id := reg_next_id (ms_reg s) + 1\<rparr>)"
    by (fastforce simp: reg_ok_def has_ids_def)
  have "sys_glob K (id_taken s)"
    unfolding sys_glob_def tk f unfolding id_taken_def put_reg_obs put_simps
    using r h g(3-10) by (simp add: has_ids_def)
  then show "sys_inv K E X (id_taken s)"
    using sys_invD(2) [OF inv] task_ok_same [OF sc st] by (simp add: sys_inv_def)
qed

text \<open>Registering a task under the id just taken.\<close>

lemma register_spec:
  assumes inv: "sys_inv K {} {} s" and i: "task s i = None" "i < reg_next_id (ms_reg s)" "tc_id T = i"
    and T: "\<not> tcb_is_idle T" "tc_state T = Ready" "tc_ready_cpu T = None" "tc_running_cpu T = None" "tcb_fit K s T"
  defines "s' \<equiv> put_reg (reg_put i T (ms_reg s)) s"
  shows "sys_inv K {} {} s'" "task s' = (task s)(i \<mapsto> T)" "same_cpus s s'" "u \<noteq> i \<Longrightarrow> same_task s s' u" "unstarted s' i"
proof -
  note g = sys_globD [OF sys_invD(1) [OF inv]]
  have om: "om_ok (reg_tasks (ms_reg s))" using g(1) by (simp add: reg_ok_def)
  show tk: "task s' = (task s)(i \<mapsto> T)"
    by (simp add: s'_def task_put_reg reg_get_put [OF om]) (simp add: task_def [abs_def] fun_eq_iff)
  show sc: "same_cpus s s'" by (simp add: s'_def)
  show st: "same_task s s' u" if "u \<noteq> i" for u
    using that by (simp add: same_task_def tk) (simp add: s'_def)
  show "unstarted s' i" using T by (simp add: unstarted_def tk)
  have f: "tcb_fit K s' = tcb_fit K s" using tcb_fit_same [OF sc] by blast
  have "tcb_ok T" using T by (simp add: tcb_ok_def is_exited_def)
  with g(1) i(2,3) have r: "reg_ok (reg_put i T (ms_reg s))"
    using om by (auto simp: reg_ok_def reg_get_put [OF om])
  have ni: "\<not> idle_of s i d" "\<not> on_queue s i d" for d using g(7) [of i d] g(8) [of i d] i(1) by auto
  have id: "\<exists>T. task s' u = Some T \<and> tcb_is_idle T" if "idle_of s u c" for u c
    using g(7) [OF that] ni that by (cases "u = i") (auto simp: tk)
  have q: "\<exists>T. task s' u = Some T \<and> \<not> tcb_is_idle T" if "on_queue s u c" for u c
    using g(8) [OF that] T(1) by (cases "u = i") (auto simp: tk)
  have k: "tcb_fit K s U" if "task s' u = Some U" for u U
    using that g(9) T(5) by (cases "u = i") (auto simp: tk)
  have "sys_glob K s'"
    unfolding sys_glob_def f unfolding s'_def put_reg_obs put_simps
    using r g(2-6,10) id [unfolded s'_def] q [unfolded s'_def] k [unfolded s'_def] by simp
  moreover have "task_ok {} s' u" for u
  proof (cases "u = i")
    case True
    have "absent_ok {} s i" using sys_invD(2) [OF inv, of i] i(1) by (simp add: task_ok_def)
    with ni have "live_ok {} s i T" using T by (auto simp: absent_ok_def live_ok_def)
    then show ?thesis using True T(1) by (simp add: task_ok_def tk) (simp add: live_ok_def s'_def)
  next
    case False
    with task_ok_same [OF sc st] sys_invD(2) [OF inv, of u] show ?thesis by simp
  qed
  ultimately show "sys_inv K {} {} s'" by (simp add: sys_inv_def)
qed

text \<open>Together: what every creation does to the state.\<close>

definition adds_task :: "task_id \<Rightarrow> mcs \<Rightarrow> mcs \<Rightarrow> bool" where
  "adds_task t s s' \<longleftrightarrow> t = reg_next_id (ms_reg s) \<and> task s t = None \<and> same_cpus s s' \<and> ms_wait s' = ms_wait s \<and>
     on_cpu s' = on_cpu s \<and> defers s' = defers s \<and> (\<forall>u. u \<noteq> t \<longrightarrow> same_task s s' u) \<and>
     reg_next_id (ms_reg s') = t + 1"

lemma create_spec:
  assumes inv: "sys_inv K {} {} s" and h: "has_ids s" and T: "new_born K s T"
  defines "s' \<equiv> put_reg (reg_put (tc_id T) T ((ms_reg s)\<lparr>reg_next_id := reg_next_id (ms_reg s) + 1\<rparr>)) s"
  shows "sys_inv K {} {} s'" "adds_task (tc_id T) s s'" "unstarted s' (tc_id T)" "task s' (tc_id T) = Some T"
proof -
  let ?s = "id_taken s"
  note i = id_taken_spec [OF inv h]
  have e: "s' = put_reg (reg_put (tc_id T) T (ms_reg ?s)) ?s" by (simp add: s'_def id_taken_def)
  have f: "task s (tc_id T) = None" using next_id_fresh [OF sys_invD(1) [OF inv]] T by (simp add: new_born_def)
  then have f': "task ?s (tc_id T) = None" by (simp add: i(2))
  have lt: "tc_id T < reg_next_id (ms_reg ?s)" using T by (simp add: new_born_def id_taken_def)
  have T': "\<not> tcb_is_idle T" "tc_state T = Ready" "tc_ready_cpu T = None" "tc_running_cpu T = None" "tcb_fit K ?s T"
    using T by (simp_all add: new_born_def tcb_fit_same [OF i(3)])
  note r = register_spec [OF i(1) f' lt refl T', folded e]
  show "sys_inv K {} {} s'" "unstarted s' (tc_id T)" by (rule r(1), rule r(5))
  show "task s' (tc_id T) = Some T" by (simp add: r(2))
  have "same_task s s' u" if "u \<noteq> tc_id T" for u by (rule same_trans(2) [OF i(4) r(4) [OF that]])
  then show "adds_task (tc_id T) s s'"
    using T f same_trans(1) [OF i(3) r(3)] by (simp add: adds_task_def new_born_def) (simp add: s'_def)
qed

text \<open>Publishing an unstarted task.\<close>

definition published :: "task_id \<Rightarrow> mcs \<Rightarrow> mcs \<Rightarrow> bool" where
  "published t s s' \<longleftrightarrow> moved {t} s s' \<and> readied t s'"

lemma unstarted_resting:
  assumes "sys_inv K {} {} s" "unstarted s t"
  shows "resting {} s t"
proof -
  obtain T where T: "task s t = Some T" "\<not> tcb_is_idle T" "tc_state T = Ready" "tc_ready_cpu T = None"
    "tc_running_cpu T = None" using assms(2) by (auto simp: unstarted_def)
  have "live_ok {} s t T" using sys_invD(2) [OF assms(1), of t] T by (simp add: task_ok_def)
  with T show ?thesis by (auto simp: resting_def dormant_def live_ok_def is_exited_def)
qed

lemma publish_task_spec:
  assumes inv: "sys_inv K {} {} s" and t: "unstarted s t"
  shows "\<exists>s'. activate t LeastLoaded s = Some s' \<and> sys_inv K {} {} s' \<and> published t s s'"
proof -
  have "sys_inv K {} {t} s" by (rule sys_inv_mono [OF inv]) simp
  from activate_wakes [OF this _ unstarted_resting [OF inv t]] show ?thesis
    by (auto simp: wakes_def published_def)
qed

section \<open>The creations\<close>

lemma new_task_born:
  assumes g: "sys_glob K s" and c: "is_online s c" and K: "K cx" and n: "inner \<noteq> InnerIdle"
  shows "new_born K s (new_task (length (ms_cpus s)) (reg_next_id (ms_reg s)) parent inner cx)"
proof -
  have l: "c < length (ms_cpus s)" "length (ms_cpus s) \<le> 64" using c sys_globD(5) [OF g] by (simp_all add: is_online_def)
  then have "mask_contains (max_cpus_all (length (ms_cpus s))) c" by (simp add: max_cpus_contains)
  with c K n show ?thesis
    by (auto simp: new_born_def new_task_def tcb_is_idle_def tcb_fit_def validate_policy_param_def)
qed

lemma spawn_kernel_spec:
  assumes inv: "sys_inv K {} {} s" and h: "has_ids s" and c: "is_online s c" and K: "K cx"
  shows "\<exists>s1 s'. mcs_spawn_kernel_task (length (ms_cpus s)) (Some cx) c s = Some (reg_next_id (ms_reg s), s') \<and>
    adds_task (reg_next_id (ms_reg s)) s s1 \<and> sys_inv K {} {} s' \<and> published (reg_next_id (ms_reg s)) s1 s'"
proof -
  let ?T = "\<lambda>p. new_task (length (ms_cpus s)) (reg_next_id (ms_reg s)) p InnerKernel cx"
  obtain p where p: "cpu_at s c = Some (ms_cpus s ! c)" "current_task_id (ms_cpus s ! c) = p"
    using c by (auto simp: cpu_at_def is_online_def)
  have b: "new_born K s (?T p)" by (rule new_task_born [OF sys_invD(1) [OF inv] c K]) simp
  note cr = create_spec [OF inv h b]
  have i: "tc_id (?T p) = reg_next_id (ms_reg s)" by (simp add: new_task_def)
  from publish_task_spec [OF cr(1,3)] obtain s' where "activate (reg_next_id (ms_reg s)) LeastLoaded
      (put_reg (reg_put (reg_next_id (ms_reg s)) (?T p) ((ms_reg s)\<lparr>reg_next_id := reg_next_id (ms_reg s) + 1\<rparr>)) s) = Some s'"
    "sys_inv K {} {} s'"
    "published (reg_next_id (ms_reg s)) (put_reg (reg_put (reg_next_id (ms_reg s)) (?T p)
       ((ms_reg s)\<lparr>reg_next_id := reg_next_id (ms_reg s) + 1\<rparr>)) s) s'"
    unfolding i by blast
  moreover have "adds_task (reg_next_id (ms_reg s)) s (put_reg (reg_put (reg_next_id (ms_reg s)) (?T p)
       ((ms_reg s)\<lparr>reg_next_id := reg_next_id (ms_reg s) + 1\<rparr>)) s)" using cr(2) unfolding i .
  ultimately show ?thesis
    using p by (auto simp: mcs_spawn_kernel_task_def spawn_kernel_task_def next_id_taken [OF h])
qed

lemma create_user_spec:
  assumes inv: "sys_inv K {} {} s" and h: "has_ids s" and c: "is_online s c" and K: "K cx"
  shows "\<exists>s'. create_user_task_spec (length (ms_cpus s)) (Some cx) (Some aspace) c s = Some (reg_next_id (ms_reg s), s') \<and>
    adds_task (reg_next_id (ms_reg s)) s s' \<and> sys_inv K {} {} s' \<and> unstarted s' (reg_next_id (ms_reg s))"
proof -
  let ?T = "\<lambda>p. new_task (length (ms_cpus s)) (reg_next_id (ms_reg s)) p (InnerUser (Some aspace)) cx"
  obtain p where p: "cpu_at s c = Some (ms_cpus s ! c)" "current_task_id (ms_cpus s ! c) = p"
    using c by (auto simp: cpu_at_def is_online_def)
  have b: "new_born K s (?T p)" by (rule new_task_born [OF sys_invD(1) [OF inv] c K]) simp
  have i: "tc_id (?T p) = reg_next_id (ms_reg s)" by (simp add: new_task_def)
  show ?thesis
    using p create_spec [OF inv h b] unfolding i
    by (simp add: create_user_task_spec_def spawn_user_task_spec_def next_id_taken [OF h])
qed

lemma spawn_user_spec:
  assumes inv: "sys_inv K {} {} s" and h: "has_ids s" and c: "is_online s c" and K: "K cx"
  shows "\<exists>s1 s'. mcs_spawn_user_task_spec (length (ms_cpus s)) (Some cx) (Some aspace) c s = Some (reg_next_id (ms_reg s), s') \<and>
    adds_task (reg_next_id (ms_reg s)) s s1 \<and> sys_inv K {} {} s' \<and> published (reg_next_id (ms_reg s)) s1 s'"
proof -
  obtain s1 where s1: "create_user_task_spec (length (ms_cpus s)) (Some cx) (Some aspace) c s = Some (reg_next_id (ms_reg s), s1)"
    "adds_task (reg_next_id (ms_reg s)) s s1" "sys_inv K {} {} s1" "unstarted s1 (reg_next_id (ms_reg s))"
    using create_user_spec [OF assms, of aspace] by blast
  from publish_task_spec [OF s1(3,4)] s1(1,2) show ?thesis by (auto simp: mcs_spawn_user_task_spec_def)
qed

text \<open>
  Fork and clone: the child inherits parameters and affinity from the current task. Without a
  user task to copy, or without memory for a kernel stack, only the id is lost.
\<close>

lemma inherit_born:
  assumes "sys_glob K s" "task s t = Some P" "K cx"
  shows "new_born K s (inherit_task P (reg_next_id (ms_reg s)) parent aspace cx)"
  using sys_globD(9) [OF assms(1,2)] assms(3)
  by (auto simp: new_born_def inherit_task_def tcb_is_idle_def tcb_fit_def)

definition may_add_task :: "task_id option \<Rightarrow> mcs \<Rightarrow> mcs \<Rightarrow> bool" where
  "may_add_task r s s' \<longleftrightarrow>
     (case r of
        None \<Rightarrow> same_cpus s s' \<and> ms_wait s' = ms_wait s \<and> (\<forall>u. same_task s s' u)
      | Some t \<Rightarrow> adds_task t s s' \<and> unstarted s' t)"

lemma copy_spec:
  assumes inv: "sys_inv K {} {} s" and h: "has_ids s" and P: "task s t = Some P"
    and f: "f = None \<or> (\<exists>parent aspace cx. K cx \<and> f = Some (inherit_task P (reg_next_id (ms_reg s)) parent aspace cx))"
  shows "\<exists>r s'. map_option (\<lambda>(child, r). (child, put_reg r s))
      (case f of None \<Rightarrow> Some (None, ms_reg (id_taken s))
       | Some C \<Rightarrow> Some (Some (reg_next_id (ms_reg s)), reg_put (tc_id C) C (ms_reg (id_taken s)))) = Some (r, s') \<and>
    sys_inv K {} {} s' \<and> may_add_task r s s' \<and> (r = None \<longleftrightarrow> f = None)"
proof (cases f)
  case None
  have "put_reg (ms_reg (id_taken s)) s = id_taken s" by (simp add: id_taken_def)
  moreover have "ms_wait (id_taken s) = ms_wait s" by (simp add: id_taken_def)
  ultimately show ?thesis using None id_taken_spec [OF inv h] by (auto simp: may_add_task_def)
next
  case (Some C)
  with f obtain parent aspace cx where C: "K cx" "C = inherit_task P (reg_next_id (ms_reg s)) parent aspace cx" by auto
  have b: "new_born K s C" unfolding C(2) by (rule inherit_born [OF sys_invD(1) [OF inv] P C(1)])
  then have i: "tc_id C = reg_next_id (ms_reg s)" by (simp add: new_born_def)
  show ?thesis
    using create_spec [OF inv h b] Some unfolding i
    by (simp add: may_add_task_def id_taken_def i)
qed

lemma current_known:
  assumes "sys_inv K {} {} s" "on_cpu s t c"
  shows "\<exists>T. task s t = Some T"
  using current_registered [OF assms] by blast

lemma fork_child_spec:
  assumes inv: "sys_inv K {} {} s" and h: "has_ids s" and t: "on_cpu s t c" and K: "\<And>cx. stack = Some cx \<Longrightarrow> K cx"
  shows "\<exists>r s'. create_fork_child aspace stack parent c s = Some (r, s') \<and> sys_inv K {} {} s' \<and> may_add_task r s s'"
proof -
  obtain P where P: "task s t = Some P" using current_known [OF inv t] by blast
  let ?f = "fork_from (reg_next_id (ms_reg s)) parent aspace stack P"
  have f: "?f = None \<or> (\<exists>parent aspace cx. K cx \<and> ?f = Some (inherit_task P (reg_next_id (ms_reg s)) parent aspace cx))"
    using K by (auto simp: fork_from_def split: task_inner.split) (cases stack; auto)
  have c: "cpu_at s c = Some (ms_cpus s ! c)" "current_task_id (ms_cpus s ! c) = Some t"
    using t by (simp_all add: cpu_at_def on_cpu_def)
  have e: "Task_Registry.fork_current aspace stack t parent (ms_reg s) =
      (case ?f of None \<Rightarrow> Some (None, ms_reg (id_taken s))
       | Some C \<Rightarrow> Some (Some (reg_next_id (ms_reg s)), reg_put (tc_id C) C (ms_reg (id_taken s))))"
    using P by (simp add: fork_current_def next_id_taken [OF h] id_taken_def task_def split: option.split)
  from copy_spec [OF inv h P f] show ?thesis
    unfolding e [symmetric] by (simp add: create_fork_child_def c) blast
qed

lemma clone_thread_spec:
  assumes inv: "sys_inv K {} {} s" and h: "has_ids s" and t: "on_cpu s t c" and K: "\<And>cx. stack = Some cx \<Longrightarrow> K cx"
  shows "\<exists>r s'. create_clone_thread stack c s = Some (r, s') \<and> sys_inv K {} {} s' \<and> may_add_task r s s'"
proof -
  obtain P where P: "task s t = Some P" using current_known [OF inv t] by blast
  let ?f = "clone_thread_from (reg_next_id (ms_reg s)) stack P"
  have f: "?f = None \<or> (\<exists>parent aspace cx. K cx \<and> ?f = Some (inherit_task P (reg_next_id (ms_reg s)) parent aspace cx))"
    using K by (auto simp: clone_thread_from_def split: task_inner.split) (cases stack; auto)
  have c: "cpu_at s c = Some (ms_cpus s ! c)" "current_task_id (ms_cpus s ! c) = Some t"
    using t by (simp_all add: cpu_at_def on_cpu_def)
  have e: "Task_Registry.clone_current_thread stack t (ms_reg s) =
      (case ?f of None \<Rightarrow> Some (None, ms_reg (id_taken s))
       | Some C \<Rightarrow> Some (Some (reg_next_id (ms_reg s)), reg_put (tc_id C) C (ms_reg (id_taken s))))"
    using P by (simp add: clone_current_thread_def next_id_taken [OF h] id_taken_def task_def split: option.split)
  from copy_spec [OF inv h P f] show ?thesis
    unfolding e [symmetric] by (simp add: create_clone_thread_def c) blast
qed

lemma activate_child_spec:
  assumes inv: "sys_inv K {} {} s1" and m: "may_add_task r s s1"
  shows "\<exists>s'. activate_child (r, s1) = Some (r, s') \<and> sys_inv K {} {} s' \<and>
    (case r of None \<Rightarrow> s' = s1 | Some t \<Rightarrow> published t s1 s')"
proof (cases r)
  case (Some t)
  with m have "unstarted s1 t" by (simp add: may_add_task_def)
  from publish_task_spec [OF inv this] Some show ?thesis by (auto simp: activate_child_def)
qed (use inv in \<open>simp add: activate_child_def\<close>)

lemma fork_clone_spec:
  assumes inv: "sys_inv K {} {} s" and h: "has_ids s" and t: "on_cpu s t c" and K: "\<And>cx. stack = Some cx \<Longrightarrow> K cx"
  shows "\<exists>r s1 s'. mcs_fork_current aspace stack c s = Some (r, s') \<and> may_add_task r s s1 \<and> sys_inv K {} {} s' \<and>
      (case r of None \<Rightarrow> s' = s1 | Some i \<Rightarrow> published i s1 s')"
    "\<exists>r s1 s'. mcs_clone_current_thread stack c s = Some (r, s') \<and> may_add_task r s s1 \<and> sys_inv K {} {} s' \<and>
      (case r of None \<Rightarrow> s' = s1 | Some i \<Rightarrow> published i s1 s')"
proof -
  have c: "cpu_at s c = Some (ms_cpus s ! c)" "current_task_id (ms_cpus s ! c) = Some t"
    using t by (simp_all add: cpu_at_def on_cpu_def)
  obtain r s1 where f: "create_fork_child aspace stack t c s = Some (r, s1)" "sys_inv K {} {} s1" "may_add_task r s s1"
    using fork_child_spec [OF assms] by blast
  from activate_child_spec [OF f(2,3)] f show "\<exists>r s1 s'. mcs_fork_current aspace stack c s = Some (r, s') \<and>
      may_add_task r s s1 \<and> sys_inv K {} {} s' \<and> (case r of None \<Rightarrow> s' = s1 | Some i \<Rightarrow> published i s1 s')"
    by (simp add: mcs_fork_current_def c) blast
  obtain r s1 where k: "create_clone_thread stack c s = Some (r, s1)" "sys_inv K {} {} s1" "may_add_task r s s1"
    using clone_thread_spec [OF assms] by blast
  from activate_child_spec [OF k(2,3)] k show "\<exists>r s1 s'. mcs_clone_current_thread stack c s = Some (r, s') \<and>
      may_add_task r s s1 \<and> sys_inv K {} {} s' \<and> (case r of None \<Rightarrow> s' = s1 | Some i \<Rightarrow> published i s1 s')"
    by (simp add: mcs_clone_current_thread_def) blast
qed

end
