(* ===== verification/Multi_Ends.thy ===== *)
theory Multi_Ends
  imports Multi_Tasks
begin

text \<open>
  The end of tasks (\<open>scheduler/tasks.rs\<close>): killing a task that does not run, discarding one that
  was never started, and reaping the exited ones. All of them take the task out of every queue and
  delete the queues of those that wait for its exit; these waiters keep their state but are in no
  queue any more.
\<close>

section \<open>Out of every run queue\<close>

lemma dequeue_fields:
  "current_snapshot (cpu_dequeue t st) = current_snapshot st" "idle_task_id (cpu_dequeue t st) = idle_task_id st"
  "online (cpu_dequeue t st) = online st" "deferred_ready (cpu_dequeue t st) = deferred_ready st"
  "cs_cpu_id (cpu_dequeue t st) = cs_cpu_id st" "current_task_id (cpu_dequeue t st) = current_task_id st"
  by (simp_all add: cpu_dequeue_def current_task_id_def)

lemma dequeue_wf:
  assumes "cpu_wf c st"
  shows "cpu_wf c (cpu_dequeue t st)" "u \<in># ready_mset (cpu_dequeue t st) \<longleftrightarrow> u \<noteq> t \<and> u \<in># ready_mset st"
proof -
  note r = ready_dequeue [OF cpu_wfD(1) [OF assms], of t]
  show "cpu_wf c (cpu_dequeue t st)" using assms by (simp add: cpu_wf_def r dequeue_fields)
  show "u \<in># ready_mset (cpu_dequeue t st) \<longleftrightarrow> u \<noteq> t \<and> u \<in># ready_mset st" by (auto simp: r)
qed

lemma dequeue_all_obs:
  fixes t :: task_id
  assumes "sys_glob K s"
  defines "s' \<equiv> dequeue_from_all_cpus t s"
  shows "on_queue s' u c \<longleftrightarrow> u \<noteq> t \<and> on_queue s u c" "on_cpu s' = on_cpu s" "defers s' = defers s"
    "same_cpus s s'" "task s' = task s" "ms_wait s' = ms_wait s" "ms_reg s' = ms_reg s"
    "waits s' = waits s" "sleeps s' = sleeps s" "in_exited s' = in_exited s"
proof -
  have at: "ms_cpus s' ! d = cpu_dequeue t (ms_cpus s ! d)" if "d < length (ms_cpus s)" for d
    using that by (simp add: s'_def dequeue_from_all_cpus_def)
  have l: "length (ms_cpus s') = length (ms_cpus s)" by (simp add: s'_def dequeue_from_all_cpus_def)
  show "on_queue s' u c \<longleftrightarrow> u \<noteq> t \<and> on_queue s u c"
    using dequeue_wf(2) [OF sys_globD(6) [OF assms(1)]] by (auto simp: on_queue_def l at)
  show "on_cpu s' = on_cpu s" "defers s' = defers s"
    by (auto simp: fun_eq_iff on_cpu_def defers_def l at dequeue_fields)
  have "idle_of s' = idle_of s" "is_online s' = is_online s"
    by (auto simp: fun_eq_iff idle_of_def is_online_def l at dequeue_fields)
  then show "same_cpus s s'" by (simp add: same_cpus_def l)
  show "ms_wait s' = ms_wait s" "ms_reg s' = ms_reg s" by (simp_all add: s'_def dequeue_from_all_cpus_def)
  then show "task s' = task s" "waits s' = waits s" "sleeps s' = sleeps s" "in_exited s' = in_exited s"
    using wait_cong [of s' s] by (simp_all add: task_def fun_eq_iff)
qed

lemma dequeue_all_spec:
  assumes inv: "sys_inv K E X s" and t: "t \<in> X"
  shows "sys_inv K E X (dequeue_from_all_cpus t s)" "u \<noteq> t \<Longrightarrow> same_task s (dequeue_from_all_cpus t s) u"
proof -
  let ?s = "dequeue_from_all_cpus t s"
  note G = sys_invD(1) [OF inv] and o = dequeue_all_obs [OF sys_invD(1) [OF inv], of t]
  show st: "same_task s ?s u" if "u \<noteq> t" for u
    using that by (simp add: same_task_def o(2-10) fun_eq_iff o(1))
  have i: "idle_of ?s = idle_of s" using o(4) by (simp add: same_cpus_def)
  have f: "tcb_fit K ?s = tcb_fit K s" using tcb_fit_same [OF o(4)] by blast
  have l: "length (ms_cpus ?s) = length (ms_cpus s)" using o(4) by (simp add: same_cpus_def)
  have w: "cpu_wf d (ms_cpus ?s ! d)" if "d < length (ms_cpus s)" for d
    using dequeue_wf(1) [OF sys_globD(6) [OF G that]] that by (simp add: dequeue_from_all_cpus_def)
  have "sys_glob K ?s"
    unfolding sys_glob_def o(5,6,7) i f l using sys_globD(1-5,7-10) [OF G] w by (simp add: o(1)) blast
  moreover have "task_ok E ?s u" if "u \<notin> X" for u
    using sys_invD(2) [OF inv that] task_ok_same [OF o(4) st] t that by metis
  ultimately show "sys_inv K E X ?s" by (simp add: sys_inv_def)
qed

section \<open>Out of every wait queue\<close>

text \<open>Those that wait for the exit of the task, or as its children's parent, lose their queue.\<close>

definition lost_with :: "task_id \<Rightarrow> mcs \<Rightarrow> task_id set" where
  "lost_with t s = {u. u \<noteq> t \<and> (waits s u (TaskExit t) \<or> waits s u (ChildExit t))}"

definition stranded :: "task_id \<Rightarrow> mcs \<Rightarrow> bool" where
  "stranded u s \<longleftrightarrow> (\<exists>T i. task s u = Some T \<and> (tc_state T = Blocking (TaskExit i) \<or> tc_state T = Blocking (ChildExit i)) \<and>
     (\<forall>x. \<not> waits s u x) \<and> \<not> sleeps s u)"

definition gone :: "task_id \<Rightarrow> mcs \<Rightarrow> mcs \<Rightarrow> bool" where
  "gone t s s' \<longleftrightarrow> same_cpus s s' \<and> on_cpu s' = on_cpu s \<and> defers s' = defers s \<and> (\<forall>c. \<not> on_queue s' t c) \<and>
     (\<forall>x. \<not> waits s' t x) \<and> \<not> sleeps s' t \<and>
     (\<forall>u. u \<noteq> t \<longrightarrow> u \<notin> lost_with t s \<longrightarrow> same_task s s' u) \<and> (\<forall>u \<in> lost_with t s. stranded u s')"

lemma detach_inv:
  fixes t :: task_id
  assumes inv: "sys_inv K {} {t} s"
    and w: "detached t (ms_wait s) w" "wq_inv w" "distinct (wq_exited w)"
    and e: "\<And>u. u \<noteq> t \<Longrightarrow> u \<in> set (wq_exited w) \<longleftrightarrow> in_exited s u"
  defines "s' \<equiv> put_wait w s"
  shows "sys_inv K {} {t} s'" "u \<noteq> t \<Longrightarrow> u \<notin> lost_with t s \<Longrightarrow> same_task s s' u" "u \<in> lost_with t s \<Longrightarrow> stranded u s'"
    "\<not> waits s' t x" "\<not> sleeps s' t" "same_cpus s s'"
proof -
  note d = detached_obs [OF w(1)] and o = put_wait_obs [where w = w and s = s, folded s'_def]
  have ob: "waits s' u x \<longleftrightarrow> u \<noteq> t \<and> x \<noteq> TaskExit t \<and> x \<noteq> ChildExit t \<and> waits s u x"
    "sleeps s' u \<longleftrightarrow> u \<noteq> t \<and> sleeps s u" for u x
    unfolding o(7,8) d by (simp_all add: waits_def sleeps_def)
  show "\<not> waits s' t x" "\<not> sleeps s' t" by (simp_all add: ob)
  show sc: "same_cpus s s'" by (rule o(10))
  have once: "x = y" if "waits s u x" "waits s u y" for u x y
    using waits_onceD(3) [OF sys_wait_ok(2) [OF inv], of u x y] that by (simp add: waits_def)
  show st: "same_task s s' u" if "u \<noteq> t" "u \<notin> lost_with t s" for u
    using that by (auto simp: same_task_def o(1-6,9) fun_eq_iff ob lost_with_def e)
  have lost: "waits s u x \<and> (x = TaskExit t \<or> x = ChildExit t)" if "u \<in> lost_with t s" "waits s u x" for u x
    using that once by (auto simp: lost_with_def)
  have L: "task_ok {} s' u \<and> stranded u s'" if u: "u \<in> lost_with t s" for u
  proof -
    obtain x where x: "waits s u x" "u \<noteq> t" using u by (auto simp: lost_with_def)
    with lost [OF u] have xt: "x = TaskExit t \<or> x = ChildExit t" by blast
    have ok: "task_ok {} s u" using sys_invD(2) [OF inv] x(2) by simp
    then obtain T where T: "task s u = Some T" "\<not> tcb_is_idle T" "live_ok {} s u T"
      using x(1) by (rule_tac x = x in waiting_live) auto
    have b: "tc_state T = Blocking x" using T(3) x(1) by (simp add: live_ok_def)
    have nw: "\<not> waits s' u y" for y using lost [OF u, of y] by (auto simp: ob)
    have ns: "\<not> sleeps s u" using T(3) b by (auto simp: live_ok_def)
    have "in_exited s' u = in_exited s u" using e [OF x(2)] by (simp add: o(9))
    with T(3) b xt nw ns have "live_ok {} s' u T" by (simp add: live_ok_def o(1-3,5) ob(2)) blast
    with T b xt nw ns show ?thesis by (auto simp: task_ok_def o(6) stranded_def ob(2))
  qed
  then show "u \<in> lost_with t s \<Longrightarrow> stranded u s'" by blast
  have i: "sys_inv K {} ({t} \<union> lost_with t s) s" by (rule sys_inv_mono [OF inv]) simp
  have "sys_inv K {} ({t} \<union> lost_with t s) s'"
    unfolding s'_def
    by (rule put_wait_inv [OF i w(2,3)]) (use d e in \<open>auto simp: lost_with_def waits_def sleeps_def\<close>)
  with L show "sys_inv K {} {t} s'" by (auto simp: sys_inv_def)
qed

section \<open>Changing the registry of a task that is nowhere\<close>

definition nowhere :: "mcs \<Rightarrow> task_id \<Rightarrow> bool" where
  "nowhere s t \<longleftrightarrow> (\<forall>c. \<not> on_queue s t c \<and> \<not> on_cpu s t c \<and> \<not> defers s t c) \<and> (\<forall>x. \<not> waits s t x) \<and> \<not> sleeps s t"

lemma exit_inv:
  fixes code :: int
  assumes inv: "sys_inv K {} {t} s" and n: "nowhere s t" "in_exited s t" and T: "task s t = Some T" "\<not> tcb_is_idle T"
  defines "s' \<equiv> put_reg (reg_mark_exited t code (ms_reg s)) s"
  shows "sys_inv K {} {} s'" "u \<noteq> t \<Longrightarrow> same_task s s' u" "state_is s' t (Exited code)" "same_cpus s s'"
proof -
  note g = sys_invD(1) [OF inv]
  note f = mark_exited_fit [OF conjunct1 [OF task_tcb_ok [OF g T(1)]] sys_globD(9) [OF g T(1)], of code]
  have e: "s' = put_reg (reg_put t (mark_exited code T) (ms_reg s)) s"
    by (simp add: s'_def reg_mark_exited_def modify_put [OF T(1)])
  have i: "tc_id (mark_exited code T) = t" using f(3) task_tcb_ok [OF g T(1)] by simp
  note p = put_task_inv [OF inv T(1) _ f(1) i f(2,4), folded e, simplified]
  have m: "tc_state (mark_exited code T) = Exited code" "tc_ready_cpu (mark_exited code T) = None"
    "tc_running_cpu (mark_exited code T) = None" by (simp_all add: mark_exited_def Let_def)
  have "live_ok {} s' t (mark_exited code T)"
    using n by (simp add: live_ok_def m is_exited_def) (simp add: e nowhere_def)
  then have ok: "task_ok {} s' t" using T(2) f(2) by (simp add: task_ok_def p(2))
  show "sys_inv K {} {} s'" using sys_inv_close [OF p(1) ok] by simp
  show "u \<noteq> t \<Longrightarrow> same_task s s' u" by (simp add: same_task_def p(2)) (simp add: e)
  show "state_is s' t (Exited code)" by (simp add: state_is_def p(2) mark_exited_def Let_def)
  show "same_cpus s s'" by (simp add: e)
qed

lemma remove_inv:
  fixes t :: task_id
  assumes inv: "sys_inv K {} {t} s" and n: "nowhere s t" "\<not> in_exited s t" and i: "\<And>c. \<not> idle_of s t c"
  defines "s' \<equiv> put_reg ((ms_reg s)\<lparr>reg_tasks := om_remove t (reg_tasks (ms_reg s))\<rparr>) s"
  shows "sys_inv K {} {} s'" "u \<noteq> t \<Longrightarrow> same_task s s' u" "task s' t = None" "same_cpus s s'"
proof -
  note g = sys_globD [OF sys_invD(1) [OF inv]]
  have om: "om_ok (reg_tasks (ms_reg s))" using g(1) by (simp add: reg_ok_def)
  have tk: "task s' = (task s)(t := None)"
    by (simp add: s'_def task_put_reg reg_get_removed [OF om]) (simp add: task_def [abs_def] fun_eq_iff)
  show "task s' t = None" by (simp add: tk)
  show sc: "same_cpus s s'" by (simp add: s'_def)
  show st: "same_task s s' u" if "u \<noteq> t" for u using that by (simp add: same_task_def tk) (simp add: s'_def)
  have f: "tcb_fit K s' = tcb_fit K s" using tcb_fit_same [OF sc] by blast
  have r: "reg_ok ((ms_reg s)\<lparr>reg_tasks := om_remove t (reg_tasks (ms_reg s))\<rparr>)"
    using g(1) om by (auto simp: reg_ok_def reg_get_removed om_ok_remove split: if_splits)
  have id: "\<exists>T. task s' u = Some T \<and> tcb_is_idle T" if "idle_of s u c" for u c
    using g(7) [OF that] i [of c] that by (cases "u = t") (simp_all add: tk)
  have q: "\<exists>T. task s' u = Some T \<and> \<not> tcb_is_idle T" if "on_queue s u c" for u c
    using g(8) [OF that] n(1) that by (cases "u = t") (simp_all add: tk nowhere_def)
  have k: "tcb_fit K s U" if "task s' u = Some U" for u U
    using that g(9) by (cases "u = t") (simp_all add: tk)
  have "sys_glob K s'"
    unfolding sys_glob_def f unfolding s'_def put_reg_obs put_simps
    using r g(2-6,10) id [unfolded s'_def] q [unfolded s'_def] k [unfolded s'_def] by simp
  moreover have "task_ok {} s' u" for u
  proof (cases "u = t")
    case True
    then show ?thesis using n by (simp add: task_ok_def tk) (simp add: absent_ok_def s'_def nowhere_def)
  next
    case False
    with task_ok_same [OF sc st] sys_invD(2) [OF inv, of u] show ?thesis by simp
  qed
  ultimately show "sys_inv K {} {} s'" by (simp add: sys_inv_def)
qed

section \<open>Killing, discarding and reaping\<close>

lemma current_somewhere: "list_ex (\<lambda>st. current_task_id st = Some t) (ms_cpus s) \<longleftrightarrow> (\<exists>c. on_cpu s t c)"
  unfolding list_ex_iff on_cpu_def Bex_def in_set_conv_nth by blast

text \<open>Taking a task that runs nowhere out of all queues, with a new list of exited tasks.\<close>

lemma take_everywhere:
  fixes t :: task_id
  assumes inv: "sys_inv K {} {} s" and p: "\<And>c. \<not> on_cpu s t c" "\<And>c. \<not> defers s t c"
    and w: "detached t (ms_wait s) w" "wq_inv w" "distinct (wq_exited w)"
    and e: "\<And>u. u \<noteq> t \<Longrightarrow> u \<in> set (wq_exited w) \<longleftrightarrow> in_exited s u"
  defines "s' \<equiv> put_wait w (dequeue_from_all_cpus t s)"
  shows "sys_inv K {} {t} s'" "gone t s s'" "nowhere s' t" "task s' t = task s t"
proof -
  let ?s = "dequeue_from_all_cpus t s"
  have i: "sys_inv K {} {t} s" by (rule sys_inv_mono [OF inv]) simp
  note o = dequeue_all_obs [OF sys_invD(1) [OF inv], of t] and d = dequeue_all_spec [OF i, of t, simplified]
  have w': "detached t (ms_wait ?s) w" "\<And>u. u \<noteq> t \<Longrightarrow> u \<in> set (wq_exited w) \<longleftrightarrow> in_exited ?s u"
    using w(1) e by (simp_all add: o)
  note k = detach_inv [OF d(1) w'(1) w(2,3) w'(2), folded s'_def]
  have l: "lost_with t ?s = lost_with t s" by (simp add: lost_with_def o)
  show "sys_inv K {} {t} s'" by (rule k(1))
  have oc: "on_cpu s' = on_cpu s" "defers s' = defers s" "on_queue s' = on_queue ?s" "task s' = task s"
    by (simp_all add: s'_def put_wait_obs o)
  show "nowhere s' t" using k(4,5) p by (simp add: nowhere_def oc o(1))
  have "same_task s s' u" if "u \<noteq> t" "u \<notin> lost_with t s" for u
    using same_trans(2) [OF d(2) k(2)] that l by simp
  then show "gone t s s'"
    using k(3-5) l same_trans(1) [OF o(4) k(6)] by (simp add: gone_def oc o(1))
  show "task s' t = task s t" by (simp add: oc)
qed

lemma gone_reg:
  assumes "gone t s s'" "\<And>u. u \<noteq> t \<Longrightarrow> same_task s' s'' u" "same_cpus s' s''"
    "ms_cpus s'' = ms_cpus s'" "ms_wait s'' = ms_wait s'"
  shows "gone t s s''"
proof -
  have st: "same_task s s'' u" if "u \<noteq> t" "u \<notin> lost_with t s" for u
    using assms(1,2) that same_trans(2) by (metis gone_def)
  have "stranded u s''" if "u \<in> lost_with t s" for u
  proof -
    have "u \<noteq> t" using that by (simp add: lost_with_def)
    from assms(2) [OF this] assms(1) that show ?thesis by (auto simp: gone_def stranded_def same_task_def)
  qed
  with assms st same_trans(1) show ?thesis
    using obs_cong [OF assms(4)] wait_cong [OF assms(5)] by (simp add: gone_def) blast
qed

lemma exited_list_spec:
  fixes t :: task_id
  assumes "sys_inv K {} {} s" "\<not> in_exited s t"
  defines "w \<equiv> kill_task t (ms_wait s)"
  shows "detached t (ms_wait s) w" "wq_inv w" "distinct (wq_exited w)" "set (wq_exited w) = insert t (set (wq_exited (ms_wait s)))"
proof -
  note g = sys_globD [OF sys_invD(1) [OF assms(1)]]
  have d: "detached t (ms_wait s) (detach_task_from_run_queues t (ms_wait s))"
    by (rule detach_spec [OF sys_wait_ok(1) [OF assms(1)]])
  show "detached t (ms_wait s) w" using d by (simp add: w_def kill_task_def Let_def wq_exited_irrelevant)
  show "wq_inv w" unfolding w_def exited_queue(6) exited_queue(4) by (rule detach_keeps' [OF g(3)])
  show "distinct (wq_exited w)" "set (wq_exited w) = insert t (set (wq_exited (ms_wait s)))"
    using g(4) assms(2) by (auto simp: w_def exited_queue(6,1) in_exited_def)
qed

definition kill_outcome :: "task_id \<Rightarrow> int \<Rightarrow> mcs \<Rightarrow> bool \<Rightarrow> mcs \<Rightarrow> bool" where
  "kill_outcome t code s b s' \<longleftrightarrow>
     (case task s t of
        None \<Rightarrow> \<not> b \<and> s' = s
      | Some T \<Rightarrow>
          if tcb_is_idle T then \<not> b \<and> s' = s
          else if is_exited (tc_state T) then b \<and> s' = s
          else if \<exists>c. on_cpu s t c then \<not> b \<and> s' = s
          else b \<and> gone t s s' \<and> state_is s' t (Exited code) \<and> in_exited s' t)"

lemma kill_spec:
  assumes inv: "sys_inv K {} {} s" and nd: "\<And>c. \<not> defers s t c"
  shows "\<exists>b s'. mcs_kill_task t code s = (b, s') \<and> sys_inv K {} {} s' \<and> kill_outcome t code s b s'"
proof (cases "task s t")
  case None
  with inv show ?thesis
    by (auto simp: mcs_kill_task_def reg_is_idle_task_def reg_state_def kill_outcome_def task_def)
next
  case (Some T)
  note T = Some
  show ?thesis
  proof (cases "tcb_is_idle T \<or> is_exited (tc_state T) \<or> (\<exists>c. on_cpu s t c)")
    case True
    with inv T show ?thesis
      by (simp add: mcs_kill_task_def reg_is_idle_task_def reg_state_def kill_outcome_def current_somewhere is_exited_def
          task_def split: task_state.split) auto
  next
    case False
    then have n: "\<not> tcb_is_idle T" "\<not> is_exited (tc_state T)" "\<And>c. \<not> on_cpu s t c" by auto
    have "live_ok {} s t T" using sys_invD(2) [OF inv, of t] T n(1) by (simp add: task_ok_def)
    with n(2) have ne: "\<not> in_exited s t" by (auto simp: live_ok_def)
    note w = exited_list_spec [OF inv ne]
    define s1 where "s1 = put_wait (kill_task t (ms_wait s)) (dequeue_from_all_cpus t s)"
    define s' where "s' = put_reg (reg_mark_exited t code (ms_reg s1)) s1"
    have "u \<in> set (wq_exited (kill_task t (ms_wait s))) \<longleftrightarrow> in_exited s u" if "u \<noteq> t" for u
      using w(4) that by (simp add: in_exited_def)
    note k = take_everywhere [OF inv n(3) nd w(1-3) this, folded s1_def]
    have T1: "task s1 t = Some T" and e1: "in_exited s1 t" by (simp_all add: k(4) T) (simp add: s1_def put_wait_obs w(4))
    note x = exit_inv [OF k(1,3) e1 T1 n(1), where code = code, folded s'_def]
    have "gone t s s'" by (rule gone_reg [OF k(2) x(2,4)]) (simp_all add: s'_def)
    moreover have "in_exited s' t" by (simp add: s'_def s1_def put_wait_obs w(4))
    moreover have "mcs_kill_task t code s = (True, s')"
      using T n dequeue_all_obs(6) [OF sys_invD(1) [OF inv], of t]
      by (auto simp: mcs_kill_task_def reg_is_idle_task_def reg_state_def current_somewhere is_exited_def s'_def s1_def
          task_def Let_def split: task_state.splits)
    ultimately show ?thesis using x(1,3) T n by (auto simp: kill_outcome_def)
  qed
qed

text \<open>A task that was never started is in no wait queue; discarding takes back its registration.\<close>

lemma discard_spec:
  assumes inv: "sys_inv K {} {} s" and t: "\<And>c. \<not> on_cpu s t c" "\<And>c. \<not> defers s t c" "\<And>c. \<not> idle_of s t c"
    and ne: "\<not> in_exited s t"
  shows "sys_inv K {} {} (discard_unstarted_task t s) \<and> gone t s (discard_unstarted_task t s) \<and>
    task (discard_unstarted_task t s) t = None"
proof -
  note g = sys_globD [OF sys_invD(1) [OF inv]]
  define w where "w = detach_task_from_run_queues t (ms_wait s)"
  define s1 where "s1 = put_wait w (dequeue_from_all_cpus t s)"
  define s' where "s' = put_reg ((ms_reg s1)\<lparr>reg_tasks := om_remove t (reg_tasks (ms_reg s1))\<rparr>) s1"
  have e: "wq_exited w = wq_exited (ms_wait s)" by (simp add: w_def detach_task_from_run_queues_def)
  have d: "detached t (ms_wait s) w" unfolding w_def by (rule detach_spec [OF sys_wait_ok(1) [OF inv]])
  have i: "wq_inv w" unfolding w_def by (rule detach_keeps' [OF g(3)])
  have x: "distinct (wq_exited w)" "\<And>u. u \<noteq> t \<Longrightarrow> u \<in> set (wq_exited w) \<longleftrightarrow> in_exited s u"
    using g(4) by (simp_all add: e in_exited_def)
  note k = take_everywhere [OF inv t(1,2) d i x, folded s1_def]
  have n: "\<not> in_exited s1 t" using ne by (simp add: s1_def put_wait_obs e in_exited_def)
  have ni: "\<not> idle_of s1 t c" for c using t(3) k(2) by (simp add: gone_def same_cpus_def)
  note r = remove_inv [OF k(1,3) n ni, folded s'_def]
  have "discard_unstarted_task t s = s'"
    using dequeue_all_obs(6,7) [OF sys_invD(1) [OF inv], of t]
    by (simp add: discard_unstarted_task_def discard_task_def Let_def s'_def s1_def w_def)
  moreover have "gone t s s'" by (rule gone_reg [OF k(2) r(2,4)]) (simp_all add: s'_def)
  ultimately show ?thesis using r(1,3) by simp
qed

text \<open>Reaping removes an exited task; nothing else can be reaped.\<close>

lemma exited_parked:
  assumes inv: "sys_inv K {} {} s" and t: "in_exited s t"
  obtains T where "task s t = Some T" "\<not> tcb_is_idle T" "is_exited (tc_state T)" "nowhere s t"
proof -
  have ok: "task_ok {} s t" by (rule sys_invD(2) [OF inv]) simp
  then obtain T where T: "task s t = Some T" "\<not> tcb_is_idle T" "live_ok {} s t T"
    using t by (auto simp: task_ok_def absent_ok_def split: option.splits if_splits)
  then have x: "is_exited (tc_state T)" using t by (simp add: live_ok_def)
  then have "tc_ready_cpu T = None" "tc_running_cpu T = None"
    using task_tcb_ok [OF sys_invD(1) [OF inv] T(1)] by (auto simp: tcb_ok_def is_exited_def)
  with T(3) x have "nowhere s t" by (auto simp: live_ok_def nowhere_def is_exited_def)
  with T x that show ?thesis by blast
qed

definition reaped :: "task_id \<Rightarrow> mcs \<Rightarrow> exited_task \<Rightarrow> mcs \<Rightarrow> bool" where
  "reaped t s e s' \<longleftrightarrow> gone t s s' \<and> task s' t = None \<and> \<not> in_exited s' t \<and>
     (\<exists>T. task s t = Some T \<and> tcb_exited_task T = Some e)"

lemma reap_step:
  assumes inv: "sys_inv K {} {} s" and t: "in_exited s t"
    and w: "w = forget_exited t ((ms_wait s)\<lparr>wq_exited := es\<rparr>)" "distinct es" "set es = set (wq_exited (ms_wait s)) - {t}"
  shows "\<exists>e r. reap_task t (ms_reg s) = (Some e, r) \<and> sys_inv K {} {} (put_reg r (put_wait w s)) \<and>
    reaped t s e (put_reg r (put_wait w s))"
proof -
  note g = sys_globD [OF sys_invD(1) [OF inv]]
  obtain T where T: "task s t = Some T" "\<not> tcb_is_idle T" "is_exited (tc_state T)" and n: "nowhere s t"
    using exited_parked [OF inv t] by blast
  obtain code where code: "tc_state T = Exited code" using T(3) by (auto simp: is_exited_def split: task_state.splits)
  then obtain e where e: "tcb_exited_task T = Some e" by (simp add: tcb_exited_task_def)
  define r where "r = (ms_reg s)\<lparr>reg_tasks := om_remove t (reg_tasks (ms_reg s))\<rparr>"
  have reap: "reap_task t (ms_reg s) = (Some e, r)"
    using T e by (simp add: reap_task_def task_def r_def)
  have eq: "w = detach_task_from_run_queues t ((ms_wait s)\<lparr>wq_exited := es\<rparr>)" by (simp add: w(1) forget_exited_eq)
  have ex: "wq_exited w = es" by (simp add: eq detach_task_from_run_queues_def)
  have "detached t ((ms_wait s)\<lparr>wq_exited := es\<rparr>) w"
    unfolding eq by (rule detach_spec) (use sys_wait_ok(1) [OF inv] in \<open>simp add: wq_exited_irrelevant\<close>)
  then have d: "detached t (ms_wait s) w" by (simp add: detached_def wq_exited_irrelevant)
  have i: "wq_inv w" unfolding eq by (rule detach_keeps [OF g(3)])
  have x: "distinct (wq_exited w)" "\<And>u. u \<noteq> t \<Longrightarrow> u \<in> set (wq_exited w) \<longleftrightarrow> in_exited s u"
    using w(2,3) by (simp_all add: ex in_exited_def)
  define s1 where "s1 = put_wait w s"
  have i0: "sys_inv K {} {t} s" by (rule sys_inv_mono [OF inv]) simp
  note k = detach_inv [OF i0 d i x, folded s1_def]
  have o: "on_queue s1 = on_queue s" "on_cpu s1 = on_cpu s" "defers s1 = defers s" "idle_of s1 = idle_of s"
    by (simp_all add: s1_def put_wait_obs)
  have n1: "nowhere s1 t" using n k(4,5) by (simp add: nowhere_def o)
  have ne: "\<not> in_exited s1 t" using w(3) by (simp add: s1_def put_wait_obs ex)
  have ni: "\<not> idle_of s1 t c" for c using g(7) [of t c] T(1,2) by (auto simp: o)
  have reg: "ms_reg s1 = ms_reg s" by (simp add: s1_def)
  note m = remove_inv [OF k(1) n1 ne ni, unfolded reg, folded r_def]
  have "gone t s s1" using k n by (simp add: gone_def o nowhere_def)
  then have "gone t s (put_reg r s1)" by (rule gone_reg [OF _ m(2,4)]) simp_all
  then have "reaped t s e (put_reg r s1)" using m(3) ne T(1) e by (simp add: reaped_def)
  with reap m(1) show ?thesis by (simp add: s1_def)
qed

lemma reap_exited_spec:
  assumes inv: "sys_inv K {} {} s"
  shows "if in_exited s t then \<exists>e s'. mcs_reap_exited_task t s = (Some e, s') \<and> sys_inv K {} {} s' \<and> reaped t s e s'
    else mcs_reap_exited_task t s = (None, s)"
proof (cases "in_exited s t")
  case True
  have "distinct (drop_task t (wq_exited (ms_wait s)))" "set (drop_task t (wq_exited (ms_wait s))) = set (wq_exited (ms_wait s)) - {t}"
    using sys_globD(4) [OF sys_invD(1) [OF inv]] by (auto simp: drop_task_def)
  from reap_step [OF inv True refl this] obtain e r where
    "reap_task t (ms_reg s) = (Some e, r)"
    "let s' = put_reg r (put_wait (forget_exited t ((ms_wait s)\<lparr>wq_exited := drop_task t (wq_exited (ms_wait s))\<rparr>)) s)
     in sys_inv K {} {} s' \<and> reaped t s e s'" by auto
  with True show ?thesis
    by (auto simp: mcs_reap_exited_task_def reap_exited_task_def take_task_eq in_exited_def Let_def)
next
  case False
  have "put_reg (ms_reg s) (put_wait (ms_wait s) s) = s" by (simp add: put_wait_def put_reg_def)
  with False show ?thesis
    by (simp add: mcs_reap_exited_task_def reap_exited_task_def take_task_eq in_exited_def)
qed

lemma reap_one_spec:
  assumes inv: "sys_inv K {} {} s"
  shows "case wq_exited (ms_wait s) of
      [] \<Rightarrow> mcs_reap_one_exited_task s = (None, s)
    | t # _ \<Rightarrow> \<exists>e s'. mcs_reap_one_exited_task s = (Some e, s') \<and> sys_inv K {} {} s' \<and> reaped t s e s'"
proof (cases "wq_exited (ms_wait s)")
  case Nil
  then have "put_reg (ms_reg s) (put_wait ((ms_wait s)\<lparr>wq_exited := []\<rparr>) s) = s" by (simp add: put_wait_def put_reg_def)
  with Nil show ?thesis by (simp add: mcs_reap_one_exited_task_def reap_one_exited_task_def)
next
  case (Cons t es)
  have "distinct es" "set es = set (wq_exited (ms_wait s)) - {t}" "in_exited s t"
    using sys_globD(4) [OF sys_invD(1) [OF inv]] Cons by (auto simp: in_exited_def)
  from reap_step [OF inv this(3) refl this(1,2)] Cons show ?thesis
    by (auto simp: mcs_reap_one_exited_task_def reap_one_exited_task_def Let_def)
qed

text \<open>The parent finds an exited child of its own, when one is registered and still listed.\<close>

lemma find_child_spec:
  assumes "reg_ok r"
  shows "case find_exited_child p r of
      None \<Rightarrow> \<forall>t T. reg_get r t = Some T \<longrightarrow> tc_parent T = Some p \<longrightarrow> \<not> is_exited (tc_state T)
    | Some t \<Rightarrow> \<exists>T. reg_get r t = Some T \<and> tc_parent T = Some p \<and> is_exited (tc_state T)"
proof -
  have om: "om_ok (reg_tasks r)" and id: "\<And>i T. reg_get r i = Some T \<Longrightarrow> tc_id T = i"
    using assms by (auto simp: reg_ok_def)
  let ?P = "\<lambda>(_, t). tc_parent t = Some p \<and> is_exited (tc_state t)"
  have mem: "(i, T) \<in> set (reg_tasks r) \<longleftrightarrow> reg_get r i = Some T" for i T
    by (simp add: reg_get_def om_get_iff [OF om])
  show ?thesis
  proof (cases "List.find ?P (reg_tasks r)")
    case None
    have "find_exited_child p r = None" by (simp add: find_exited_child_def None)
    then show ?thesis using None [unfolded find_None_iff] mem by auto
  next
    case (Some e)
    then have "e \<in> set (reg_tasks r)" "?P e" by (auto simp: find_Some_iff in_set_conv_nth)
    moreover from this have "tc_id (snd e) = fst e" using id mem [of "fst e" "snd e"] by simp
    ultimately show ?thesis
      using Some mem [of "fst e" "snd e"] by (auto simp: find_exited_child_def split_beta)
  qed
qed

lemma reap_child_spec:
  assumes inv: "sys_inv K {} {} s"
  shows "\<exists>r s'. reap_one_exited_child p s = (r, s') \<and> sys_inv K {} {} s' \<and>
    (case r of
       None \<Rightarrow> s' = s \<and> (\<forall>t T. task s t = Some T \<longrightarrow> tc_parent T = Some p \<longrightarrow> \<not> is_exited (tc_state T))
     | Some e \<Rightarrow> \<exists>t. reaped t s e s' \<and> et_parent e = Some p)"
proof -
  note f = find_child_spec [OF sys_globD(1) [OF sys_invD(1) [OF inv]], of p]
  show ?thesis
  proof (cases "find_exited_child p (ms_reg s)")
    case None
    with f inv show ?thesis by (simp add: reap_one_exited_child_def task_def)
  next
    case (Some t)
    with f obtain T where T: "task s t = Some T" "tc_parent T = Some p" "is_exited (tc_state T)" by (auto simp: task_def)
    have "tcb_fit K s T" by (rule sys_globD(9) [OF sys_invD(1) [OF inv] T(1)])
    with T(2) have "\<not> tcb_is_idle T" by (auto simp: tcb_fit_def)
    with sys_invD(2) [OF inv, of t] T have "in_exited s t" by (simp add: task_ok_def live_ok_def)
    then obtain e s' where e: "mcs_reap_exited_task t s = (Some e, s')" "sys_inv K {} {} s'" "reaped t s e s'"
      using reap_exited_spec [OF inv, of t] by auto
    moreover have "et_parent e = Some p"
      using e(3) T by (auto simp: reaped_def tcb_exited_task_def split: task_state.splits)
    ultimately show ?thesis using Some by (auto simp: reap_one_exited_child_def)
  qed
qed

end
