(* ===== verification/Multi_Params.thy ===== *)
theory Multi_Params
  imports Multi_Ends
begin

text \<open>
  Changes of a task's parameters (\<open>scheduler/policy.rs\<close>), of its image (\<open>execve_current\<close>), of the
  set of online CPUs and of the table of wait queues. They move at most the task they name; a
  queued task whose new affinity excludes its CPU is moved at once, a running one when its CPU
  reschedules.
\<close>

section \<open>The table of wait queues and the CPUs\<close>

lemma same_waits_inv:
  assumes inv: "sys_inv K E X s" and w: "wq_inv w" "\<And>x. waiters x w = waiters x (ms_wait s)"
    "wq_sleep w = wq_sleep (ms_wait s)" "wq_exited w = wq_exited (ms_wait s)"
  shows "sys_inv K E X (put_wait w s)" "same_task s (put_wait w s) u"
proof -
  have o: "u \<in> set (waiters x w) \<longleftrightarrow> waits s u x" "u \<in> sleepers w \<longleftrightarrow> sleeps s u" "u \<in> set (wq_exited w) \<longleftrightarrow> in_exited s u" for u x
    using w(2-4) by (simp_all add: waits_def sleeps_def sleepers_def in_exited_def)
  show "sys_inv K E X (put_wait w s)"
    by (rule put_wait_inv [OF inv w(1)]) (use sys_globD(4) [OF sys_invD(1) [OF inv]] w(4) o in simp_all)
  show "same_task s (put_wait w s) u" by (rule put_wait_same_task) (rule o)+
qed

lemma allocate_exited: "allocate_wait_queue name w = Some (q, w') \<Longrightarrow> wq_exited w' = wq_exited w"
  by (auto simp: allocate_wait_queue_def split: list.splits if_splits)

lemma release_exited: "try_release_wait_queue q w = Some (b, w') \<Longrightarrow> wq_exited w' = wq_exited w"
  by (auto simp: try_release_wait_queue_def split: if_splits)

lemma queue_table_spec:
  assumes inv: "sys_inv K E X s"
  shows "\<exists>q s'. mcs_allocate_wait_queue name s = Some (q, s') \<and> sys_inv K E X s' \<and> (\<forall>u. same_task s s' u) \<and>
      \<not> held (WaitQueue q) (ms_wait s) \<and> held (WaitQueue q) (ms_wait s')"
    "\<exists>s'. mcs_try_release_wait_queue q s =
        Some (held (WaitQueue q) (ms_wait s) \<and> waiters (WaitQueue q) (ms_wait s) = [], s') \<and> sys_inv K E X s' \<and>
      (\<forall>u. same_task s s' u) \<and> (held (WaitQueue q) (ms_wait s') \<longleftrightarrow> held (WaitQueue q) (ms_wait s) \<and> waiters (WaitQueue q) (ms_wait s) \<noteq> [])"
proof -
  note ok = sys_wait_ok(1) [OF inv] and i = sys_globD(3) [OF sys_invD(1) [OF inv]]
  obtain p w where a: "allocate_wait_queue name (ms_wait s) = Some (p, w)" "\<not> held (WaitQueue p) (ms_wait s)"
    "held (WaitQueue p) w" "\<And>x. waiters x w = waiters x (ms_wait s)" "wq_sleep w = wq_sleep (ms_wait s)"
    using allocate_spec [OF ok, of name] by blast
  note si = same_waits_inv [OF inv alloc_release_keep(1) [OF i a(1)] a(4,5) allocate_exited [OF a(1)]]
  show "\<exists>q s'. mcs_allocate_wait_queue name s = Some (q, s') \<and> sys_inv K E X s' \<and> (\<forall>u. same_task s s' u) \<and>
      \<not> held (WaitQueue q) (ms_wait s) \<and> held (WaitQueue q) (ms_wait s')"
    using si a(1-3) by (auto simp: mcs_allocate_wait_queue_def)
  obtain v where r: "try_release_wait_queue q (ms_wait s) =
      Some (held (WaitQueue q) (ms_wait s) \<and> waiters (WaitQueue q) (ms_wait s) = [], v)"
    "\<And>x. waiters x v = waiters x (ms_wait s)" "wq_sleep v = wq_sleep (ms_wait s)"
    "if held (WaitQueue q) (ms_wait s) \<and> waiters (WaitQueue q) (ms_wait s) = []
     then \<not> held (WaitQueue q) v \<and> no_record (WaitQueue q) v else v = ms_wait s"
    using release_spec [OF ok, of q] by blast
  note sr = same_waits_inv [OF inv alloc_release_keep(2) [OF i r(1)] r(2,3) release_exited [OF r(1)]]
  show "\<exists>s'. mcs_try_release_wait_queue q s =
        Some (held (WaitQueue q) (ms_wait s) \<and> waiters (WaitQueue q) (ms_wait s) = [], s') \<and> sys_inv K E X s' \<and>
      (\<forall>u. same_task s s' u) \<and> (held (WaitQueue q) (ms_wait s') \<longleftrightarrow> held (WaitQueue q) (ms_wait s) \<and> waiters (WaitQueue q) (ms_wait s) \<noteq> [])"
    using sr r(1,4) by (auto simp: mcs_try_release_wait_queue_def split: if_splits)
qed

text \<open>Bringing a CPU online only adds choices.\<close>

lemma online_spec:
  assumes inv: "sys_inv K E X s"
  shows "sys_inv K E X (set_cpu_online c s)" "same_task s (set_cpu_online c s) u"
    "is_online (set_cpu_online c s) d \<longleftrightarrow> is_online s d \<or> d = c \<and> c < length (ms_cpus s)"
    "length (ms_cpus (set_cpu_online c s)) = length (ms_cpus s)"
proof -
  let ?s = "set_cpu_online c s"
  note g = sys_globD [OF sys_invD(1) [OF inv]]
  have at: "?s = (if c < length (ms_cpus s) then put_cpu c (set_online True (ms_cpus s ! c)) s else s)"
  proof (cases "c < length (ms_cpus s) \<and> online (ms_cpus s ! c)")
    case True
    then have "set_online True (ms_cpus s ! c) = ms_cpus s ! c" by (simp add: set_online_def)
    then have "put_cpu c (set_online True (ms_cpus s ! c)) s = s" by (simp add: put_cpu_def)
    with True show ?thesis by (simp add: set_cpu_online_def cpu_at_def)
  qed (auto simp: set_cpu_online_def cpu_at_def)
  show on: "is_online ?s d \<longleftrightarrow> is_online s d \<or> d = c \<and> c < length (ms_cpus s)" for d
    by (auto simp: at put_cpu_obs set_online_def is_online_def nth_list_update)
  show l: "length (ms_cpus ?s) = length (ms_cpus s)" by (simp add: at)
  have f: "current_task_id (set_online True st) = current_task_id st" "idle_task_id (set_online True st) = idle_task_id st"
    "deferred_ready (set_online True st) = deferred_ready st" for st
    by (simp_all add: set_online_def current_task_id_def)
  have r: "ready_mset (set_online True st) = ready_mset st" "cpu_ok (set_online True st) = cpu_ok st" for st
    by (rule ready_mset_queues; simp add: set_online_def)+
  have o: "on_queue ?s = on_queue s" "on_cpu ?s = on_cpu s" "defers ?s = defers s" "idle_of ?s = idle_of s"
    by (auto simp: fun_eq_iff at put_cpu_obs r f) (auto simp: on_queue_def on_cpu_def defers_def idle_of_def)
  have k: "ms_reg ?s = ms_reg s" "ms_wait ?s = ms_wait s" by (simp_all add: at)
  then have t: "task ?s = task s" by (simp add: task_def fun_eq_iff)
  note w = wait_cong [OF k(2)]
  show st: "same_task s ?s u" for u by (simp add: same_task_def t o w)
  have wf: "cpu_wf d (ms_cpus ?s ! d)" if "d < length (ms_cpus s)" for d
    using g(6) [OF that] that
    by (cases "d = c") (simp_all add: at cpu_wf_def r f, simp_all add: set_online_def)
  have fit: "tcb_fit K ?s T" if "tcb_fit K s T" for T using that by (auto simp: tcb_fit_def on l)
  have "sys_glob K ?s"
    unfolding sys_glob_def k t o l using g(1-5,7,8,10) wf fit [OF g(9)] by blast
  moreover have "task_ok E ?s u" if "task_ok E s u" for u
    using that unfolding task_ok_def t live_ok_def [abs_def] absent_ok_def o w by (auto simp: on split: option.splits)
  ultimately show "sys_inv K E X ?s" using sys_invD(2) [OF inv] by (simp add: sys_inv_def)
qed

lemma timekeeper_spec:
  assumes inv: "sys_inv K E X s" and c: "c < length (ms_cpus s)" "timekeeper_cpu s = None \<or> timekeeper_cpu s = Some c"
  shows "\<exists>s'. set_timekeeper_cpu c now s = Some s' \<and> sys_inv K E X s' \<and> (\<forall>u. same_task s s' u) \<and> timekeeper_cpu s' = Some c"
proof -
  have k: "sys_inv K E X s'" "same_task s s' u" if "ms_reg s' = ms_reg s" "ms_wait s' = ms_wait s" "ms_cpus s' = ms_cpus s" for s' u
    using sys_inv_cong(1,2) [OF that] inv by simp_all
  from c show ?thesis
    by (auto simp: set_timekeeper_cpu_def intro!: k split: option.split)
qed

lemma online_mask_contains:
  "\<forall>st \<in> set cpus. cs_cpu_id st < 64 \<Longrightarrow>
   \<exists>m'. online_mask_of cpus m = Some m' \<and>
     (\<forall>c. mask_contains m' c \<longleftrightarrow> mask_contains m c \<or> (\<exists>st \<in> set cpus. online st \<and> cs_cpu_id st = c))"
proof (induction cpus arbitrary: m)
  case (Cons st cpus)
  show ?case
  proof (cases "online st")
    case True
    obtain m1 where m1: "mask_insert (cs_cpu_id st) m = Some m1" using mask_insert_total [of "cs_cpu_id st" m] Cons.prems by auto
    from Cons.IH [of m1] Cons.prems show ?thesis
      using True m1 mask_insert_contains [OF m1] by auto
  next
    case False
    with Cons.IH [of m] Cons.prems show ?thesis by auto
  qed
qed simp

lemma online_mask_spec:
  assumes g: "sys_glob K s"
  shows "\<exists>m. online_cpu_mask s = Some m \<and> (\<forall>c. mask_contains m c \<longleftrightarrow> is_online s c)"
proof -
  have id: "cs_cpu_id (ms_cpus s ! c) = c" if "c < length (ms_cpus s)" for c
    using cpu_wfD(2) [OF sys_globD(6) [OF g that]] .
  have "\<forall>st \<in> set (ms_cpus s). cs_cpu_id st < 64"
    using id sys_globD(5) [OF g] by (fastforce simp: in_set_conv_nth)
  moreover have "(\<exists>st \<in> set (ms_cpus s). online st \<and> cs_cpu_id st = c) \<longleftrightarrow> is_online s c" for c
    using id by (auto simp: is_online_def in_set_conv_nth Bex_def)
  moreover have "\<not> mask_contains mask_empty c" for c by (simp add: mask_contains_def mask_empty_def)
  ultimately show ?thesis using online_mask_contains [of "ms_cpus s" mask_empty] by (auto simp: online_cpu_mask_def)
qed

section \<open>A task's entry\<close>

text \<open>
  A change of the entry of one task that leaves its place alone; the new entry must be fit, and its
  affinity must allow the CPU the task is queued on.
\<close>

definition same_status :: "tcb \<Rightarrow> tcb \<Rightarrow> bool" where
  "same_status T T' \<longleftrightarrow> tc_id T' = tc_id T \<and> tc_state T' = tc_state T \<and> tc_ready_cpu T' = tc_ready_cpu T \<and>
     tc_running_cpu T' = tc_running_cpu T \<and> tcb_is_idle T' = tcb_is_idle T"

definition tuned :: "task_id \<Rightarrow> tcb \<Rightarrow> mcs \<Rightarrow> mcs \<Rightarrow> bool" where
  "tuned t T' s s' \<longleftrightarrow> same_cpus s s' \<and> ms_wait s' = ms_wait s \<and> on_queue s' = on_queue s \<and>
     on_cpu s' = on_cpu s \<and> defers s' = defers s \<and> task s' = (task s)(t \<mapsto> T')"

lemma retune_inv:
  assumes inv: "sys_inv K E X s" and T: "task s t = Some T" and r: "same_status T T'"
    and ok: "tcb_ok T'" "tcb_fit K s T'"
  defines "s' \<equiv> put_reg (reg_put t T' (ms_reg s)) s"
  shows "sys_inv K E (insert t X) s'" "tuned t T' s s'"
    "tc_affinity T' = tc_affinity T \<or> (\<forall>c. tc_ready_cpu T = Some c \<longrightarrow> mask_contains (tc_affinity T') c) \<Longrightarrow> sys_inv K E X s'"
proof -
  note g = sys_invD(1) [OF inv]
  have i: "sys_inv K E (insert t X) s" by (rule sys_inv_mono [OF inv]) blast
  have T': "tc_id T' = t" "tcb_is_idle T' = tcb_is_idle T" using r task_tcb_ok [OF g T] by (simp_all add: same_status_def)
  note p = put_task_inv [OF i T _ ok(1) T' ok(2), simplified, folded s'_def]
  show "sys_inv K E (insert t X) s'" by (rule p(1))
  show "tuned t T' s s'" by (simp add: tuned_def p(2)) (simp add: s'_def)
  assume a: "tc_affinity T' = tc_affinity T \<or> (\<forall>c. tc_ready_cpu T = Some c \<longrightarrow> mask_contains (tc_affinity T') c)"
  show "sys_inv K E X s'"
  proof (cases "t \<in> X")
    case True
    with p(1) show ?thesis by (simp add: insert_absorb)
  next
    case False
    have o: "on_queue s' = on_queue s" "on_cpu s' = on_cpu s" "defers s' = defers s" "is_online s' = is_online s"
      "idle_of s' = idle_of s" "waits s' = waits s" "sleeps s' = sleeps s" "in_exited s' = in_exited s"
      by (simp_all add: s'_def)
    have "task_ok E s t" using sys_invD(2) [OF inv False] .
    then have "task_ok E s' t"
      using r a by (auto simp: task_ok_def T p(2) absent_ok_def live_ok_def o same_status_def split: if_splits)
    with sys_inv_close [OF p(1) this] False show ?thesis by simp
  qed
qed

lemma tuned_still: "tuned t T' s s1 \<Longrightarrow> still s1 s' \<Longrightarrow> tuned t T' s s'"
  using same_trans(1) [of s s1 s'] stillD [of s1 s'] by (simp add: tuned_def)

lemma same_status_fields:
  "same_status T (T\<lparr>tc_nice := n\<rparr>)" "same_status T (T\<lparr>tc_affinity := m\<rparr>)" "same_status T (set_sched p prio T)"
  "same_status T (execve_from a T)"
  by (auto simp: same_status_def set_sched_def execve_from_def tcb_is_idle_def split: task_inner.split)

lemma execve_fields:
  "tc_affinity (execve_from a T) = tc_affinity T" "tc_policy (execve_from a T) = tc_policy T"
  "tc_priority (execve_from a T) = tc_priority T" "tc_nice (execve_from a T) = tc_nice T"
  "tc_cx (execve_from a T) = tc_cx T" "tc_last_cpu (execve_from a T) = tc_last_cpu T"
  "tc_parent (execve_from a T) = tc_parent T"
  by (simp_all add: execve_from_def split: task_inner.split)

lemma set_aspace_touched: "cpu_ok st \<Longrightarrow> touched st (set_current_aspace a st)"
  by (rule touched_queues)
    (simp_all add: same_place_def set_current_aspace_def current_task_id_def current_nice_def option.map_comp comp_def
      split: option.split)

lemma execve_spec:
  assumes inv: "sys_inv K {} {} s" and t: "on_cpu s t c" "\<not> idle_of s t c"
  shows "\<exists>T s'. mcs_execve_current aspace c s = Some s' \<and> sys_inv K {} {} s' \<and> task s t = Some T \<and>
    tuned t (execve_from aspace T) s s' \<and> current_aspace (ms_cpus s' ! c) = aspace"
proof -
  obtain T where T: "task s t = Some T" "\<not> tcb_is_idle T" "tc_state T = Running" by (rule running_task [OF inv t])
  have c: "c < length (ms_cpus s)" "current_task_id (ms_cpus s ! c) = Some t" using t(1) by (simp_all add: on_cpu_def)
  note g = sys_invD(1) [OF inv]
  let ?T = "execve_from aspace T" and ?st = "ms_cpus s ! c"
  define s1 where "s1 = put_reg (reg_put t ?T (ms_reg s)) s"
  have ok: "tcb_ok ?T" "tcb_fit K s ?T"
    using task_tcb_ok [OF g T(1)] sys_globD(9) [OF g T(1)] T(3) same_status_fields(4) [of T aspace]
    by (auto simp: tcb_ok_def tcb_fit_def execve_fields same_status_def)
  note r = retune_inv [OF inv T(1) same_status_fields(4) ok, folded s1_def]
  have i1: "sys_inv K {} {} s1" by (rule r(3)) (simp add: execve_fields)
  have k: "cpu_at s c = Some ?st" "reg_execve aspace t (ms_reg s) = Some (reg_put t ?T (ms_reg s))"
    using c T(1) by (simp_all add: cpu_at_def reg_execve_def reg_expect_def task_def)
  show ?thesis
  proof (cases "current_aspace ?st = aspace")
    case True
    with k c i1 r(2) T(1) show ?thesis by (simp add: mcs_execve_current_def s1_def)
  next
    case False
    let ?ev = "ms_events s @ notify_switch (current_aspace ?st) aspace c"
    define s2 where "s2 = put_cpu c (set_current_aspace aspace ?st) (s1\<lparr>ms_events := ?ev\<rparr>)"
    have e: "sys_inv K {} {} (s1\<lparr>ms_events := ?ev\<rparr>)" "still s1 (s1\<lparr>ms_events := ?ev\<rparr>)"
      using i1 sys_inv_cong [of "s1\<lparr>ms_events := ?ev\<rparr>" s1] by (auto simp: still_def)
    have "touched (ms_cpus (s1\<lparr>ms_events := ?ev\<rparr>) ! c) (set_current_aspace aspace ?st)"
      using set_aspace_touched [OF cpu_wfD(1) [OF sys_globD(6) [OF g c(1)]]] by (simp add: s1_def)
    note tc = touch_spec [OF e(1) _ this, folded s2_def]
    have cs: "c < length (ms_cpus (s1\<lparr>ms_events := ?ev\<rparr>))" using c(1) by (simp add: s1_def)
    have "tuned t ?T s s2" by (rule tuned_still [OF r(2) still_trans [OF e(2) tc(2) [OF cs]]])
    moreover have "mcs_execve_current aspace c s = Some s2"
      using k c False by (simp add: mcs_execve_current_def s2_def s1_def)
    moreover have "current_aspace (ms_cpus s2 ! c) = aspace"
      using c cpu_wfD(4) [OF sys_globD(6) [OF g c(1)]]
      by (auto simp: s2_def s1_def current_aspace_def set_current_aspace_def current_task_id_def)
    ultimately show ?thesis using tc(1) [OF cs] T(1) by blast
  qed
qed

lemma wait_result_spec:
  assumes inv: "sys_inv K {} {} s" and t: "on_cpu s t c"
  shows "\<exists>T s'. take_current_wait_result c s = Some (case tc_wait_result T of None \<Rightarrow> Woken | Some r \<Rightarrow> r, s') \<and>
    sys_inv K {} {} s' \<and> task s t = Some T \<and> tuned t (T\<lparr>tc_wait_result := None\<rparr>) s s'"
proof -
  obtain T where T: "task s t = Some T" using current_known [OF inv t] by blast
  have "cosmetic T (T\<lparr>tc_wait_result := None\<rparr>)" by (simp add: cosmetic_def)
  note p = cosmetic_inv [OF inv T this]
  show ?thesis
    using p T t by (auto simp: take_current_wait_result_def cpu_at_def on_cpu_def reg_take_wait_result_def task_def
        tcb_take_wait_result_def tuned_def intro!: exI [of _ T])
qed

lemma io_priority_spec:
  assumes inv: "sys_inv K {} {} s"
  shows "\<exists>s'. mcs_set_io_priority t n s =
      (if \<exists>T. task s t = Some T \<and> \<not> is_exited (tc_state T) then Inr () else Inl NoSuchTask, s') \<and> sys_inv K {} {} s' \<and>
    (case task s t of
       None \<Rightarrow> s' = s
     | Some T \<Rightarrow> if is_exited (tc_state T) then s' = s else tuned t (T\<lparr>tc_io_priority := n\<rparr>) s s')"
proof (cases "task s t")
  case None
  with inv show ?thesis by (simp add: mcs_set_io_priority_def reg_state_def task_def)
next
  case (Some T)
  have "cosmetic T (T\<lparr>tc_io_priority := n\<rparr>)" by (simp add: cosmetic_def)
  note p = cosmetic_inv [OF inv Some this]
  show ?thesis
    using p Some inv by (simp add: mcs_set_io_priority_def reg_state_def task_def reg_set_io_priority_def tuned_def)
qed

end
