(* ===== verification/Multi_Policy.thy ===== *)
theory Multi_Policy
  imports Multi_Params
begin

text \<open>
  The changes of scheduling parameters that may move a task (\<open>scheduler/policy.rs\<close>): nice value,
  affinity and policy. A ready task goes through its queue again, a running one is updated in place
  together with the cache of its CPU.
\<close>

section \<open>Nice values\<close>

lemma live_running:
  assumes inv: "sys_inv K {} {} s" and T: "task s t = Some T" "tc_running_cpu T = Some c"
  shows "\<not> tcb_is_idle T" "tc_state T = Running" "on_cpu s t c \<or> defers s t c" "c < length (ms_cpus s)"
proof -
  have k: "tcb_ok T" using task_tcb_ok [OF sys_invD(1) [OF inv] T(1)] by simp
  with T(2) show "\<not> tcb_is_idle T" "tc_state T = Running" by (auto simp: tcb_ok_def)
  with sys_invD(2) [OF inv, of t] T show d: "on_cpu s t c \<or> defers s t c" by (auto simp: task_ok_def live_ok_def)
  then show "c < length (ms_cpus s)" by (auto simp: on_cpu_def defers_def)
qed

lemma put_nice_spec:
  assumes inv: "sys_inv K E X s" and c: "c < length (ms_cpus s)" and n: "-20 \<le> n" "n \<le> 19"
  shows "sys_inv K E X (put_cpu c (set_current_nice n (ms_cpus s ! c)) s)"
    "still s (put_cpu c (set_current_nice n (ms_cpus s ! c)) s)"
proof -
  let ?st = "ms_cpus s ! c" and ?st' = "set_current_nice n (ms_cpus s ! c)"
  note g = sys_globD [OF sys_invD(1) [OF inv]]
  have r: "ready_mset ?st' = ready_mset ?st" "cpu_ok ?st' = cpu_ok ?st"
    by (rule ready_mset_queues; simp add: set_current_nice_def)+
  have f: "idle_task_id ?st' = idle_task_id ?st" "online ?st' = online ?st" "deferred_ready ?st' = deferred_ready ?st"
    "current_task_id ?st' = current_task_id ?st" "cs_cpu_id ?st' = cs_cpu_id ?st"
    by (simp_all add: set_current_nice_def current_task_id_def option.map_comp comp_def)
  have wf: "cpu_wf c ?st'" using g(6) [OF c] n by (auto simp: cpu_wf_def r f) (auto simp: set_current_nice_def)
  show "sys_inv K E X (put_cpu c ?st' s)"
    by (rule put_cpu_inv [OF inv c wf]) (use c g(8) in \<open>auto simp: r f on_queue_def on_cpu_def defers_def\<close>)
  have "same_task s (put_cpu c ?st' s) u" for u by (rule put_cpu_same_task [OF c]) (simp_all add: r f)
  then show "still s (put_cpu c ?st' s)"
    using put_cpu_same_cpus [OF c f(1,2)] by (simp add: still_def)
qed

lemma nice_spec:
  assumes inv: "sys_inv K {} {} s" and n: "-20 \<le> n" "n \<le> 19"
  shows "\<exists>s'. mcs_set_nice t n s =
      Some (if \<exists>T. task s t = Some T \<and> \<not> is_exited (tc_state T) then Inr () else Inl NoSuchTask, s') \<and> sys_inv K {} {} s' \<and>
    (case task s t of
       None \<Rightarrow> s' = s
     | Some T \<Rightarrow> if is_exited (tc_state T) then s' = s else tuned t (T\<lparr>tc_nice := n\<rparr>) s s')"
proof (cases "\<exists>T. task s t = Some T \<and> \<not> is_exited (tc_state T)")
  case False
  with inv show ?thesis by (auto simp: mcs_set_nice_def reg_state_def task_def split: option.split)
next
  case True
  then obtain T where T: "task s t = Some T" "\<not> is_exited (tc_state T)" by blast
  let ?T = "T\<lparr>tc_nice := n\<rparr>"
  obtain s1 where s1: "(case reg_running_cpu (ms_reg s) t of
      None \<Rightarrow> Some s
    | Some running \<Rightarrow> do { st \<leftarrow> cpu_at s running; Some (put_cpu running (set_current_nice n st) s) }) = Some s1"
    "sys_inv K {} {} s1" "still s s1" "ms_reg s1 = ms_reg s"
  proof (cases "tc_running_cpu T")
    case None
    with T inv that [of s] show thesis by (simp add: reg_running_cpu_def task_def)
  next
    case (Some c)
    have c: "c < length (ms_cpus s)" by (rule live_running(4) [OF inv T(1) Some])
    with Some T put_nice_spec [OF inv c n] that show thesis by (simp add: reg_running_cpu_def task_def cpu_at_def)
  qed
  have T1: "task s1 t = Some T" using T(1) stillD(3) [OF s1(3)] by simp
  note g = sys_invD(1) [OF s1(2)]
  have ok: "tcb_ok ?T" "tcb_fit K s1 ?T"
    using task_tcb_ok [OF g T1] sys_globD(9) [OF g T1] n
    by (simp_all add: tcb_ok_def tcb_fit_def tcb_is_idle_def tcb_aspace_ptr_def)
  note r = retune_inv [OF s1(2) T1 same_status_fields(1) ok]
  have "tuned t ?T s (put_reg (reg_put t ?T (ms_reg s1)) s1)"
    using r(2) stillD [OF s1(3)] same_trans(1) [of s s1] by (simp add: tuned_def)
  moreover have "sys_inv K {} {} (put_reg (reg_put t ?T (ms_reg s1)) s1)" by (rule r(3)) simp
  ultimately show ?thesis
    using T T1 s1(1) by (simp add: mcs_set_nice_def reg_state_def reg_set_nice_def task_def)
qed

section \<open>Affinity\<close>

definition affinity_ok :: "cpu_mask \<Rightarrow> mcs \<Rightarrow> bool" where
  "affinity_ok m s \<longleftrightarrow> (\<forall>c. mask_contains m c \<longrightarrow> c < length (ms_cpus s)) \<and> (\<exists>c. mask_contains m c \<and> is_online s c)"

lemma mask_within:
  assumes "n \<le> 64"
  shows "m AND NOT (max_cpus_all n) = 0 \<longleftrightarrow> (\<forall>c. mask_contains m c \<longrightarrow> c < n)"
proof -
  have "m AND NOT (max_cpus_all n) = 0 \<longleftrightarrow> (\<forall>c < 64. bit m c \<longrightarrow> bit (max_cpus_all n) c)"
    by (auto simp: bit_eq_iff bit_and_iff bit_not_iff)
  also have "\<dots> \<longleftrightarrow> (\<forall>c. mask_contains m c \<longrightarrow> mask_contains (max_cpus_all n) c)"
    using bit_imp_le_length [of m] by (auto simp: mask_contains_bit)
  finally show ?thesis by (simp add: max_cpus_contains [OF assms])
qed

lemma mask_disjoint: "m AND k = 0 \<longleftrightarrow> (\<forall>c. \<not> (mask_contains m c \<and> mask_contains k c))" for m k :: cpu_mask
proof -
  have "m AND k = 0 \<longleftrightarrow> (\<forall>c < 64. \<not> (bit m c \<and> bit k c))"
    by (auto simp: bit_eq_iff bit_and_iff)
  then show ?thesis using bit_imp_le_length [of m] by (auto simp: mask_contains_bit)
qed

text \<open>
  The outcome of a valid change: the task has the new affinity, is queued only where that allows,
  and no other task moved. A running task stays where it is.
\<close>

definition reassigned :: "task_id \<Rightarrow> cpu_mask \<Rightarrow> mcs \<Rightarrow> mcs \<Rightarrow> bool" where
  "reassigned t m s s' \<longleftrightarrow> same_cpus s s' \<and> ms_wait s' = ms_wait s \<and> on_cpu s' = on_cpu s \<and> defers s' = defers s \<and>
     (\<forall>u. u \<noteq> t \<longrightarrow> same_task s s' u) \<and> (\<exists>T. task s' t = Some T \<and> tc_affinity T = m) \<and>
     (\<forall>c. on_queue s' t c \<longrightarrow> mask_contains m c) \<and> ((\<exists>c. on_queue s t c) \<longleftrightarrow> (\<exists>c. on_queue s' t c))"

lemma tuned_others: "tuned t T' s s' \<Longrightarrow> u \<noteq> t \<Longrightarrow> same_task s s' u"
  using wait_cong [of s' s] by (simp add: tuned_def same_task_def)

lemma affinity_error:
  assumes inv: "sys_inv K {} {} s" and t: "\<And>T. task s t = Some T \<Longrightarrow> is_exited (tc_state T) \<or> \<not> affinity_ok m s"
  shows "mcs_set_affinity (length (ms_cpus s)) t m s =
    Some (Inl (if affinity_ok m s then NoSuchTask else SchedInvalidArg), s)"
proof -
  note g = sys_invD(1) [OF inv]
  obtain on where on: "online_cpu_mask s = Some on" "\<And>c. mask_contains on c \<longleftrightarrow> is_online s c"
    using online_mask_spec [OF g] by blast
  have w: "m AND NOT (max_cpus_all (length (ms_cpus s))) \<noteq> 0 \<or> m AND on = 0 \<longleftrightarrow> \<not> affinity_ok m s"
    using mask_within [OF sys_globD(5) [OF g], of m] mask_disjoint [of m on] on(2) by (auto simp: affinity_ok_def)
  show ?thesis
    using t w on(1) by (auto simp: mcs_set_affinity_def reg_state_def task_def split: option.split)
qed

lemma tuned_moved: "tuned t T' s s1 \<Longrightarrow> moved {t} s1 s' \<Longrightarrow> u \<noteq> t \<Longrightarrow> same_task s s' u"
  using tuned_others movedD(5) same_trans(2) by (metis singletonD)

lemma affinity_spec:
  assumes inv: "sys_inv K {} {} s" and T: "task s t = Some T" "\<not> tcb_is_idle T" "\<not> is_exited (tc_state T)"
    and m: "affinity_ok m s"
  shows "\<exists>s'. mcs_set_affinity (length (ms_cpus s)) t m s = Some (Inr (), s') \<and> sys_inv K {} {} s' \<and> reassigned t m s s'"
proof -
  note g = sys_invD(1) [OF inv]
  obtain on where on: "online_cpu_mask s = Some on" "\<And>c. mask_contains on c \<longleftrightarrow> is_online s c"
    using online_mask_spec [OF g] by blast
  have w: "m AND NOT (max_cpus_all (length (ms_cpus s))) = 0" "m AND on \<noteq> 0"
    using mask_within [OF sys_globD(5) [OF g], of m] mask_disjoint [of m on] on(2) m by (auto simp: affinity_ok_def)
  let ?T = "T\<lparr>tc_affinity := m\<rparr>" and ?r = "reg_put t (T\<lparr>tc_affinity := m\<rparr>) (ms_reg s)"
  define s1 where "s1 = put_reg ?r s"
  have ok: "tcb_ok ?T" "tcb_fit K s ?T"
    using task_tcb_ok [OF g T(1)] sys_globD(9) [OF g T(1)] m
    by (auto simp: tcb_ok_def tcb_fit_def tcb_is_idle_def tcb_aspace_ptr_def affinity_ok_def)
  note r = retune_inv [OF inv T(1) same_status_fields(2) ok, folded s1_def]
  note d = r(2) [unfolded tuned_def]
  have T1: "task s1 t = Some ?T" using d by simp
  have reg: "reg_get ?r t = Some ?T" using T1 by (simp add: s1_def task_put_reg)
  have live: "live_ok {} s t T" using sys_invD(2) [OF inv, of t] T by (simp add: task_ok_def)
  have q: "on_queue s t c \<longleftrightarrow> tc_ready_cpu T = Some c" for c using live by (simp add: live_ok_def)
  have run: "mcs_set_affinity (length (ms_cpus s)) t m s = map_option (\<lambda>s2. (Inr (), s2))
      (case tc_state T of
         Ready \<Rightarrow> (case tc_ready_cpu T of None \<Rightarrow> Some s1
           | Some ready \<Rightarrow> if mask_contains m ready then Some s1 else activate t LeastLoaded s1)
       | Running \<Rightarrow> (case tc_running_cpu T of None \<Rightarrow> None
           | Some running \<Rightarrow> if mask_contains m running then Some s1 else request_reschedule running CauseForced s1)
       | _ \<Rightarrow> Some s1)"
    using w on(1) T reg
    by (cases "tc_state T") (simp_all add: mcs_set_affinity_def reg_state_def task_def reg_set_affinity_def
        reg_ready_cpu_def reg_running_cpu_def s1_def Let_def split: option.split)
  have stay: "sys_inv K {} {} s1 \<and> reassigned t m s s1" if "\<And>c. tc_ready_cpu T = Some c \<Longrightarrow> mask_contains m c"
  proof -
    have "sys_inv K {} {} s1" by (rule r(3)) (use that in simp)
    then show ?thesis using d T1 tuned_others [OF r(2)] that q by (auto simp: reassigned_def)
  qed
  show ?thesis
  proof (cases "\<exists>c. tc_ready_cpu T = Some c \<and> \<not> mask_contains m c")
    case True
    then obtain c where c: "tc_ready_cpu T = Some c" "\<not> mask_contains m c" by blast
    then have st: "tc_state T = Ready" "tc_running_cpu T = None" using task_tcb_ok [OF g T(1)] by (auto simp: tcb_ok_def)
    have e: "is_online s c" using live c(1) by (simp add: live_ok_def)
    have dm: "dormant {} s1 t ?T"
      using live st c(1) e T1 T(2) d wait_cong [of s1 s]
      by (auto simp: dormant_def live_ok_def tcb_is_idle_def is_online_def same_cpus_def)
    have pa: "may_activate s1 t ?T LeastLoaded" by (rule resting_activate [OF dm]) (simp add: st(2))
    obtain d' s' where s': "activate_ready_task t LeastLoaded s1 = Some (d', s')" "sys_inv K {} {} s'"
      "placed t d' s1 s'" "usable m (ms_cpus s1) d'"
      using activate_spec [OF r(1) _ dm pa] by auto
    have "reassigned t m s s'"
      using s'(3,4) d T1 tuned_moved [OF r(2) placed_moved [OF s'(3)]] q c(1) same_trans(1) [of s s1 s']
      by (auto simp: reassigned_def placed_def usable_def mark_ready_def)
    with s'(1,2) c show ?thesis by (simp add: run st(1) activate_def)
  next
    case False
    then have s: "sys_inv K {} {} s1 \<and> reassigned t m s s1" using stay by blast
    show ?thesis
    proof (cases "tc_state T = Running")
      case True
      obtain c where c: "tc_running_cpu T = Some c" using task_tcb_ok [OF g T(1)] T(2) True by (auto simp: tcb_ok_def)
      have l: "c < length (ms_cpus s1)" using live_running(4) [OF inv T(1) c] by (simp add: s1_def)
      obtain s2 where s2: "request_reschedule c CauseForced s1 = Some s2" "requested s1 s2"
        using request_reschedule_spec [OF sys_invD(1) [OF conjunct1 [OF s]] l] by blast
      have st: "same_task s1 s2 u" "same_cpus s1 s2" for u using s2(2) by (simp_all add: requested_def)
      have o: "on_cpu s2 = on_cpu s1" "defers s2 = defers s1" "on_queue s2 = on_queue s1" "task s2 = task s1"
        using st(1) by (simp_all add: same_task_def fun_eq_iff)
      have "reassigned t m s s2"
        using s s2(2) same_trans(1) [OF _ st(2), of s] same_trans(2) [OF _ st(1), of s] by (auto simp: reassigned_def o requested_def)
      moreover have "sys_inv K {} {} s2" using s s2(2) by (auto simp: requested_def)
      ultimately show ?thesis using s s2(1) by (auto simp: run True c)
    next
      case nr: False
      with s False T(3) show ?thesis by (cases "tc_state T") (auto simp: run split: option.split)
    qed
  qed
qed

section \<open>Scheduling policy\<close>

lemma resched_after_spec:
  assumes g: "sys_glob K s" and c: "d < length (ms_cpus s)"
  shows "\<exists>b s'. resched_after d cause c s = Some (b, s') \<and> requested s s' \<and> (b \<longrightarrow> d = c)"
  using mark_need_resched_spec [OF assms] c by (auto simp: resched_after_def cpu_at_def)

text \<open>Refreshing what a CPU caches of its running task.\<close>

lemma refresh_current:
  assumes inv: "sys_inv K {} {} s" and t: "on_cpu s t c" and T: "task s t = Some T"
  shows "sys_inv K {} {} (put_cpu c (cpu_set_current_task (tcb_snapshot T) (ms_cpus s ! c)) s)"
    "still s (put_cpu c (cpu_set_current_task (tcb_snapshot T) (ms_cpus s ! c)) s)"
proof -
  let ?st = "ms_cpus s ! c" and ?st' = "cpu_set_current_task (tcb_snapshot T) (ms_cpus s ! c)"
  have c: "c < length (ms_cpus s)" and cu: "current_task_id ?st = Some t" using t by (simp_all add: on_cpu_def)
  note g = sys_globD [OF sys_invD(1) [OF inv]]
  have r: "ready_mset ?st' = ready_mset ?st" "cpu_ok ?st' = cpu_ok ?st"
    by (rule ready_mset_queues; simp add: cpu_set_current_task_def Let_def)+
  have i: "tc_id T = t" using task_tcb_ok [OF sys_invD(1) [OF inv] T] by simp
  have f: "idle_task_id ?st' = idle_task_id ?st" "online ?st' = online ?st" "deferred_ready ?st' = deferred_ready ?st"
    "current_task_id ?st' = Some t" "cs_cpu_id ?st' = cs_cpu_id ?st"
    by (simp_all add: cpu_set_current_task_def Let_def i) (simp add: current_task_id_def i)
  have sn: "current_snapshot ?st' = Some (tcb_snapshot T)" by (simp add: cpu_set_current_task_def Let_def)
  have wf: "cpu_wf c ?st'"
    using g(6) [OF c] g(9) [OF T] sn by (auto simp: cpu_wf_def r f tcb_fit_def)
  show "sys_inv K {} {} (put_cpu c ?st' s)"
    by (rule put_cpu_inv [OF inv c wf]) (use c g(8) cu in \<open>auto simp: r f on_queue_def on_cpu_def defers_def\<close>)
  have "same_task s (put_cpu c ?st' s) u" for u by (rule put_cpu_same_task [OF c]) (simp_all add: r f cu)
  then show "still s (put_cpu c ?st' s)"
    using put_cpu_same_cpus [OF c f(1,2)] by (simp add: still_def)
qed

text \<open>
  The outcome: the task has the new policy and priority, keeps its state, its queue and its CPU,
  and no other task changed.
\<close>

definition repolicied :: "task_id \<Rightarrow> sched_policy \<Rightarrow> int \<Rightarrow> mcs \<Rightarrow> mcs \<Rightarrow> bool" where
  "repolicied t p prio s s' \<longleftrightarrow> same_cpus s s' \<and> ms_wait s' = ms_wait s \<and> on_cpu s' = on_cpu s \<and> defers s' = defers s \<and>
     (\<forall>u. u \<noteq> t \<longrightarrow> same_task s s' u) \<and> on_queue s' t = on_queue s t \<and>
     (\<exists>T T'. task s t = Some T \<and> task s' t = Some T' \<and> tc_policy T' = p \<and> tc_priority T' = prio \<and> tc_state T' = tc_state T)"

lemma repolicied_requested:
  assumes r: "repolicied t p prio s s1" and q: "requested s1 s2"
  shows "repolicied t p prio s s2"
proof -
  have st: "same_task s1 s2 u" "same_cpus s1 s2" for u using q by (simp_all add: requested_def)
  have o: "on_cpu s2 = on_cpu s1" "defers s2 = defers s1" "on_queue s2 = on_queue s1" "task s2 = task s1"
    using st(1) by (simp_all add: same_task_def fun_eq_iff)
  show ?thesis
    using r q same_trans(1) [OF _ st(2), of s] same_trans(2) [OF _ st(1), of s] by (auto simp: repolicied_def o requested_def)
qed

text \<open>The steps before the branch on the state: out of the queues, then the new parameters.\<close>

lemma sched_params_spec:
  assumes inv: "sys_inv K {} {} s" and T: "task s t = Some T" "\<not> tcb_is_idle T"
    and p: "validate_policy_param p prio = Inr ()"
  defines "s2 \<equiv> put_reg (reg_put t (set_sched p prio T) (ms_reg s)) (dequeue_from_all_cpus t s)"
  shows "reg_set_task_sched t p prio (ms_reg (dequeue_from_all_cpus t s)) = (True, ms_reg s2)"
    "sys_inv K {} {t} s2" "task s2 = (task s)(t \<mapsto> set_sched p prio T)" "same_cpus s s2" "ms_wait s2 = ms_wait s"
    "on_cpu s2 = on_cpu s" "defers s2 = defers s" "on_queue s2 u c \<longleftrightarrow> u \<noteq> t \<and> on_queue s u c"
proof -
  let ?s = "dequeue_from_all_cpus t s" and ?T = "set_sched p prio T"
  note g = sys_invD(1) [OF inv]
  have i: "sys_inv K {} {t} s" by (rule sys_inv_mono [OF inv]) simp
  note o = dequeue_all_obs [OF g, of t] and d = dequeue_all_spec(1) [OF i, of t, simplified]
  have T1: "task ?s t = Some T" using T(1) by (simp add: o)
  have ok: "tcb_ok ?T" "tcb_fit K ?s ?T"
    using task_tcb_ok [OF g T(1)] sys_globD(9) [OF g T(1)] p
    by (simp_all add: tcb_ok_def tcb_fit_same [OF o(4)] set_sched_def tcb_is_idle_def tcb_aspace_ptr_def)
      (simp_all add: tcb_fit_def tcb_is_idle_def)
  note r = retune_inv [OF d T1 same_status_fields(3) ok, unfolded o(7), folded s2_def]
  show "reg_set_task_sched t p prio (ms_reg ?s) = (True, ms_reg s2)"
    using T1 by (simp add: reg_set_task_sched_def task_def s2_def o)
  show "sys_inv K {} {t} s2" using r(1) by simp
  show "task s2 = (task s)(t \<mapsto> ?T)" "ms_wait s2 = ms_wait s" "on_cpu s2 = on_cpu s" "defers s2 = defers s"
    "on_queue s2 u c \<longleftrightarrow> u \<noteq> t \<and> on_queue s u c" "same_cpus s s2"
    using r(2) same_trans(1) [OF o(4)] by (simp_all add: tuned_def o)
qed

lemma policy_ready:
  assumes inv: "sys_inv K {} {} s" and T: "task s t = Some T" "\<not> tcb_is_idle T" "tc_state T = Ready" "tc_ready_cpu T = Some d"
    and p: "validate_policy_param p prio = Inr ()"
  shows "\<exists>b s'. apply_sched_policy_change t p prio c s = Some (Inr b, s') \<and> sys_inv K {} {} s' \<and> repolicied t p prio s s' \<and>
    (b \<longrightarrow> d = c)"
proof -
  note g = sys_invD(1) [OF inv] and sp = sched_params_spec [OF inv T(1,2) p]
  let ?T = "set_sched p prio T"
  define s2 where "s2 = put_reg (reg_put t ?T (ms_reg s)) (dequeue_from_all_cpus t s)"
  note sp = sp [folded s2_def]
  have live: "live_ok {} s t T" using sys_invD(2) [OF inv, of t] T by (simp add: task_ok_def)
  have q: "on_queue s t e \<longleftrightarrow> e = d" for e using live T(4) by (auto simp: live_ok_def)
  have us: "is_online s d" "mask_contains (tc_affinity T) d" using live T(4) by (simp_all add: live_ok_def)
  have run: "tc_running_cpu T = None" using task_tcb_ok [OF g T(1)] T(3) by (auto simp: tcb_ok_def)
  have T2: "task s2 t = Some ?T" by (simp add: sp(3))
  have w: "waits s2 = waits s" "sleeps s2 = sleeps s" "in_exited s2 = in_exited s" using wait_cong [OF sp(5)] by auto
  have l: "is_online s2 d" "d < length (ms_cpus s2)" using us(1) sp(4) by (simp_all add: same_cpus_def) (simp add: is_online_def)
  have f: "tc_running_cpu ?T = None" "tc_ready_cpu ?T = Some d" "tc_affinity ?T = tc_affinity T" "\<not> tcb_is_idle ?T"
    "tc_policy ?T = p" "tc_priority ?T = prio"
    using T(2,4) run by (simp_all add: set_sched_def tcb_is_idle_def)
  have "dormant {} s2 t ?T"
    using live T2 T(3) l(2) f run by (auto simp: dormant_def sp(6-8) w live_ok_def)
  moreover have "may_publish s2 t ?T d" by (simp add: may_publish_def f)
  moreover have "usable (tc_affinity ?T) (ms_cpus s2) d" using l us(2) by (simp add: usable_def is_online_def f)
  ultimately obtain s3 where s3: "enqueue_ready_on_cpu t d s2 = Some s3" "sys_inv K {} {} s3" "placed t d s2 s3"
    using enqueue_ready_spec [OF sp(2), of t ?T d] by auto
  have l3: "d < length (ms_cpus s3)" using s3(3) l(2) by (simp add: placed_def same_cpus_def)
  from resched_after_spec [OF sys_invD(1) [OF s3(2)] l3] obtain b s4 where
    s4: "resched_after d (CauseReady p) c s3 = Some (b, s4)" "requested s3 s4" "b \<longrightarrow> d = c" by blast
  have "same_task s s3 u" if "u \<noteq> t" for u
  proof -
    have "same_task s s2 u" using that by (simp add: same_task_def sp(3,6,7) sp(8) w fun_eq_iff)
    then show ?thesis using s3(3) that same_trans(2) by (auto simp: placed_def)
  qed
  then have "repolicied t p prio s s3"
    using s3(3) T(1,3) T2 f same_trans(1) [OF sp(4)] by (auto simp: repolicied_def placed_def sp(5-7) q fun_eq_iff mark_ready_def)
  then have "repolicied t p prio s s4" by (rule repolicied_requested [OF _ s4(2)])
  moreover have "sys_inv K {} {} s4" using s4(2) s3(2) by (simp add: requested_def)
  moreover have "apply_sched_policy_change t p prio c s = Some (Inr b, s4)"
  proof -
    have e: "put_reg (ms_reg s2) (dequeue_from_all_cpus t s) = s2" by (simp add: s2_def)
    show ?thesis
      using T T2 s3(1) s4(1) sp(1) f(5)
      by (simp add: apply_sched_policy_change_def reg_task_snapshot_def task_def e is_exited_def)
  qed
  ultimately show ?thesis using s4(3) by blast
qed

lemma sched_params_closed:
  assumes inv: "sys_inv K {} {} s" and T: "task s t = Some T" "\<not> tcb_is_idle T" "tc_ready_cpu T = None"
    and p: "validate_policy_param p prio = Inr ()"
  defines "s2 \<equiv> put_reg (reg_put t (set_sched p prio T) (ms_reg s)) (dequeue_from_all_cpus t s)"
  shows "sys_inv K {} {} s2" "repolicied t p prio s s2" "task s2 t = Some (set_sched p prio T)"
proof -
  note sp = sched_params_spec [OF inv T(1,2) p, folded s2_def]
  let ?T = "set_sched p prio T"
  have live: "live_ok {} s t T" using sys_invD(2) [OF inv, of t] T by (simp add: task_ok_def)
  have w: "waits s2 = waits s" "sleeps s2 = sleeps s" "in_exited s2 = in_exited s" using wait_cong [OF sp(5)] by auto
  have f: "tc_running_cpu ?T = tc_running_cpu T" "tc_ready_cpu ?T = None" "tc_state ?T = tc_state T" "\<not> tcb_is_idle ?T"
    "tc_policy ?T = p" "tc_priority ?T = prio"
    using T(2,3) by (simp_all add: set_sched_def tcb_is_idle_def)
  have nq: "\<not> on_queue s t c" for c using live T(3) by (simp add: live_ok_def)
  have "live_ok {} s2 t ?T"
    using live unfolding live_ok_def f(1-3) sp(6,7) w by (simp add: sp(8) T(3))
  moreover have "task s2 t = Some ?T" by (simp add: sp(3))
  ultimately have "task_ok {} s2 t" using task_okI f(4) by blast
  with sys_inv_close [OF sp(2), of t] show "sys_inv K {} {} s2" by simp
  show "task s2 t = Some ?T" by (simp add: sp(3))
  have "same_task s s2 u" if "u \<noteq> t" for u
    using that by (simp add: same_task_def sp(3,6,7) sp(8) w fun_eq_iff)
  then show "repolicied t p prio s s2"
    using T(1) f by (simp add: repolicied_def sp(3-7) sp(8) nq fun_eq_iff)
qed

lemma refreshed_repolicied:
  assumes r: "refreshed t s s1" and p: "repolicied t p prio s1 s'" and T: "task s t \<noteq> None"
  shows "repolicied t p prio s s'"
proof -
  obtain T0 where T0: "task s t = Some T0" using T by blast
  obtain T1 where T1: "task s1 t = Some T1" "cosmetic T0 T1" by (rule refreshed_task [OF r T0])
  have "same_task s s' u" if "u \<noteq> t" for u
    using refreshed_same [OF r that] p that same_trans(2) by (auto simp: repolicied_def)
  then show ?thesis
    using r p T0 T1 same_trans(1) [of s s1 s'] by (auto simp: repolicied_def refreshed_def cosmetic_def)
qed

lemma still_repolicied:
  assumes "repolicied t p prio s s1" "still s1 s2"
  shows "repolicied t p prio s s2"
  using assms stillD [OF assms(2)] same_trans by (auto simp: repolicied_def still_def)

lemma policy_running:
  assumes inv: "sys_inv K {} {} s" and T: "task s t = Some T" "tc_running_cpu T = Some d" and t: "on_cpu s t d"
    and p: "validate_policy_param p prio = Inr ()"
  shows "\<exists>b s'. apply_sched_policy_change t p prio c s = Some (Inr b, s') \<and> sys_inv K {} {} s' \<and> repolicied t p prio s s' \<and>
    (b \<longrightarrow> d = c)"
proof -
  note lr = live_running [OF inv T]
  have d: "d < length (ms_cpus s)" "current_task_id (ms_cpus s ! d) = Some t" using t by (simp_all add: on_cpu_def)
  obtain s1 where s1: "sync_current_to_registry d s = Some s1" "sys_inv K {} {} s1" "refreshed t s s1"
    using sync_spec [OF inv d] T(1) by auto
  obtain T1 where T1: "task s1 t = Some T1" "cosmetic T T1" by (rule refreshed_task [OF s1(3) T(1)])
  have ni: "\<not> tcb_is_idle T1" using lr(1) cosmeticD(2) [OF T1(2)] by simp
  have st: "tc_state T1 = Running" using lr(2) T1(2) by (simp add: cosmetic_def)
  then have nr: "tc_ready_cpu T1 = None"
    using task_tcb_ok [OF sys_invD(1) [OF s1(2)] T1(1)] by (auto simp: tcb_ok_def)
  define s2 where "s2 = put_reg (reg_put t (set_sched p prio T1) (ms_reg s1)) (dequeue_from_all_cpus t s1)"
  note sc = sched_params_closed [OF s1(2) T1(1) ni nr p, folded s2_def]
    and sp = sched_params_spec [OF s1(2) T1(1) ni p, folded s2_def]
  have t2: "on_cpu s2 t d" using t s1(3) by (simp add: sp(6) refreshed_def)
  define s3 where "s3 = put_cpu d (cpu_set_current_task (tcb_snapshot (set_sched p prio T1)) (ms_cpus s2 ! d)) s2"
  note rc = refresh_current [OF sc(1) t2 sc(3), folded s3_def]
  have l3: "d < length (ms_cpus s3)" using t2 by (simp add: s3_def on_cpu_def)
  from resched_after_spec [OF sys_invD(1) [OF rc(1)] l3] obtain b s4 where
    s4: "resched_after d CauseTick c s3 = Some (b, s4)" "requested s3 s4" "b \<longrightarrow> d = c" by blast
  have "repolicied t p prio s s3"
    by (rule refreshed_repolicied [OF s1(3) still_repolicied [OF sc(2) rc(2)]]) (simp add: T(1))
  then have "repolicied t p prio s s4" by (rule repolicied_requested [OF _ s4(2)])
  moreover have "sys_inv K {} {} s4" using s4(2) rc(1) by (simp add: requested_def)
  moreover have "apply_sched_policy_change t p prio c s = Some (Inr b, s4)"
  proof -
    have e: "put_reg (ms_reg s2) (dequeue_from_all_cpus t s1) = s2" by (simp add: s2_def)
    have c2: "cpu_at s2 d = Some (ms_cpus s2 ! d)" using t2 by (simp add: cpu_at_def on_cpu_def)
    show ?thesis
      using T lr(2) sc(3) s4(1) sp(1) s1(1)
      by (simp add: apply_sched_policy_change_def reg_task_snapshot_def task_def e is_exited_def c2 s3_def)
  qed
  ultimately show ?thesis using s4(3) by blast
qed

lemma policy_waiting:
  assumes inv: "sys_inv K {} {} s" and T: "task s t = Some T" "\<not> tcb_is_idle T" "is_waiting_state (Some (tc_state T))"
    and p: "validate_policy_param p prio = Inr ()"
  shows "\<exists>s'. apply_sched_policy_change t p prio c s = Some (Inr False, s') \<and> sys_inv K {} {} s' \<and> repolicied t p prio s s'"
proof -
  have nr: "tc_ready_cpu T = None"
    using task_tcb_ok [OF sys_invD(1) [OF inv] T(1)] T(3) by (auto simp: tcb_ok_def is_waiting_state_def)
  define s2 where "s2 = put_reg (reg_put t (set_sched p prio T) (ms_reg s)) (dequeue_from_all_cpus t s)"
  note sc = sched_params_closed [OF inv T(1,2) nr p, folded s2_def]
    and sp = sched_params_spec [OF inv T(1,2) p, folded s2_def]
  have e: "put_reg (ms_reg s2) (dequeue_from_all_cpus t s) = s2" by (simp add: s2_def)
  have "apply_sched_policy_change t p prio c s = Some (Inr False, s2)"
    using T sc(3) sp(1)
    by (cases "tc_state T") (simp_all add: apply_sched_policy_change_def reg_task_snapshot_def task_def e is_waiting_state_def)
  with sc show ?thesis by blast
qed

text \<open>When a policy change is sound: valid parameters for a task that runs on a CPU, is queued, or waits.\<close>

definition may_repolicy :: "task_id \<Rightarrow> sched_policy \<Rightarrow> int \<Rightarrow> mcs \<Rightarrow> bool" where
  "may_repolicy t p prio s \<longleftrightarrow> validate_policy_param p prio = Inr () \<and>
     (\<exists>T. task s t = Some T \<and> \<not> tcb_is_idle T \<and>
        (case tc_state T of
           Ready \<Rightarrow> tc_ready_cpu T \<noteq> None
         | Running \<Rightarrow> \<exists>d. on_cpu s t d
         | _ \<Rightarrow> True))"

lemma policy_spec:
  assumes inv: "sys_inv K {} {} s" and m: "may_repolicy t p prio s"
  shows "\<exists>r s'. apply_sched_policy_change t p prio c s = Some (r, s') \<and> sys_inv K {} {} s' \<and>
    (case r of Inl e \<Rightarrow> e = NoSuchTask \<and> s' = s \<and> (\<exists>T. task s t = Some T \<and> is_exited (tc_state T))
     | Inr b \<Rightarrow> repolicied t p prio s s' \<and> (b \<longrightarrow> on_cpu s t c \<or> on_queue s t c))"
proof -
  obtain T where T: "task s t = Some T" "\<not> tcb_is_idle T" and p: "validate_policy_param p prio = Inr ()"
    using m by (auto simp: may_repolicy_def)
  have live: "live_ok {} s t T" using sys_invD(2) [OF inv, of t] T by (simp add: task_ok_def)
  show ?thesis
  proof (cases "tc_state T")
    case Ready
    then obtain d where d: "tc_ready_cpu T = Some d" using m T by (auto simp: may_repolicy_def)
    with live have "on_queue s t d" by (simp add: live_ok_def)
    with policy_ready [OF inv T Ready d p, of c] show ?thesis by fastforce
  next
    case Running
    then obtain d where d: "on_cpu s t d" using m T by (auto simp: may_repolicy_def)
    then have "tc_running_cpu T = Some d" using live by (simp add: live_ok_def)
    with policy_running [OF inv T(1) _ d p, of c] d show ?thesis by fastforce
  next
    case (Exited code)
    with T inv show ?thesis
      by (simp add: apply_sched_policy_change_def reg_task_snapshot_def task_def is_exited_def)
  next
    case (Blocking x)
    with policy_waiting [OF inv T _ p, of c] show ?thesis by (fastforce simp: is_waiting_state_def)
  next
    case (Sleeping n)
    with policy_waiting [OF inv T _ p, of c] show ?thesis by (fastforce simp: is_waiting_state_def)
  qed
qed

end
