(* ===== verification/Multi_Start.thy ===== *)
theory Multi_Start
  imports Multi_Policy
begin

text \<open>
  The initial state (\<open>MultiClassScheduler::new\<close> and \<open>init\<close>): every CPU gets an idle task of its own,
  numbered like the CPU, which it runs from then on. The invariant holds, whichever CPU boots.
\<close>

lemma cpu_init_new: "cpu_init c (cpu_new k) = cpu_new c"
  by (simp add: cpu_init_def cpu_new_def cfs_init_def cfs_new_def rr_init_def rr_new_def fifo_init_def fifo_new_def
      map_replicate_const)

lemma cpu_new_ready: "ready_mset (cpu_new c) = {#}"
proof -
  have "bucket_content (replicate bucket_count []) p = []" for p
    by (auto simp: bucket_content_def bucket_index_def split: option.split)
  moreover have "cfs_content cfs_new v = []" for v by (simp add: cfs_content_def cfs_new_def om_get_def)
  ultimately have "queued (cpu_new c) = {}"
    by (simp add: queued_def members_def rt_list_def fair_list_def idle_list_def cpu_new_def fifo_new_def rr_new_def)
  then show ?thesis by (metis set_ready_mset set_mset_eq_empty_iff)
qed

definition idle_tcb :: "(nat \<Rightarrow> nat) \<Rightarrow> nat \<Rightarrow> nat \<Rightarrow> tcb" where
  "idle_tcb cx n i = new_task n i None InnerIdle (cx i)"

definition start_cpu :: "(nat \<Rightarrow> nat) \<Rightarrow> nat \<Rightarrow> nat \<Rightarrow> nat \<Rightarrow> cpu_state" where
  "start_cpu cx n boot c =
     cpu_set_current_task (tcb_snapshot (idle_tcb cx n c)) (set_idle_task_id c (set_online (boot = c) (cpu_new c)))"

lemma start_cpu_fields:
  "current_task_id (start_cpu cx n boot c) = Some c" "idle_task_id (start_cpu cx n boot c) = Some c"
  "online (start_cpu cx n boot c) = (boot = c)" "deferred_ready (start_cpu cx n boot c) = None"
  "cs_cpu_id (start_cpu cx n boot c) = c" "ready_mset (start_cpu cx n boot c) = {#}" "cpu_ok (start_cpu cx n boot c)"
  "current_snapshot (start_cpu cx n boot c) = Some (tcb_snapshot (idle_tcb cx n c))"
proof -
  let ?s = "start_cpu cx n boot c"
  have q: "cfs_q ?s = cfs_q (cpu_new c)" "batch_q ?s = batch_q (cpu_new c)" "idle_q ?s = idle_q (cpu_new c)"
    "rr_q ?s = rr_q (cpu_new c)" "fifo_q ?s = fifo_q (cpu_new c)"
    by (simp_all add: start_cpu_def cpu_set_current_task_def set_idle_task_id_def set_online_def Let_def)
  show "ready_mset ?s = {#}" "cpu_ok ?s" using ready_mset_queues [OF q] cpu_new_ready cpu_new_ok by simp_all
  show "current_snapshot ?s = Some (tcb_snapshot (idle_tcb cx n c))"
    by (simp add: start_cpu_def cpu_set_current_task_def Let_def)
  then show "current_task_id ?s = Some c" by (simp add: current_task_id_def idle_tcb_def new_task_def)
qed (simp_all add: start_cpu_def cpu_set_current_task_def set_idle_task_id_def set_online_def Let_def cpu_new_def)

lemma init_cpus_spec:
  assumes "om_ok (reg_tasks r)" "reg_next_id r = c" "c + length sts < usize_max" "\<forall>st \<in> set sts. \<exists>k. st = cpu_new k"
  shows "\<exists>r'. init_cpus cx n boot c sts r = Some (map (start_cpu cx n boot) [c..<c + length sts], r') \<and>
    om_ok (reg_tasks r') \<and> reg_next_id r' = c + length sts \<and>
    reg_get r' = (\<lambda>i. if c \<le> i \<and> i < c + length sts then Some (idle_tcb cx n i) else reg_get r i)"
  using assms
proof (induction sts arbitrary: c r)
  case (Cons st sts)
  define r1 where "r1 = reg_put c (idle_tcb cx n c) (r\<lparr>reg_next_id := c + 1\<rparr>)"
  have sp: "spawn_idle_task n (cx c) r = (c, r1)"
    using Cons.prems(2,3) by (simp add: spawn_idle_task_def take_next_id_def sat_add_def r1_def idle_tcb_def)
  have om: "om_ok (reg_tasks (r\<lparr>reg_next_id := c + 1\<rparr>))" using Cons.prems(1) by simp
  have g1: "reg_get r1 = (reg_get r)(c \<mapsto> idle_tcb cx n c)" unfolding r1_def reg_get_put [OF om] by simp
  have "om_ok (reg_tasks r1)" "reg_next_id r1 = Suc c" using om by (simp_all add: r1_def)
  from Cons.IH [OF this] Cons.prems(3,4) obtain r' where r':
    "init_cpus cx n boot (Suc c) sts r1 = Some (map (start_cpu cx n boot) [Suc c..<Suc c + length sts], r')"
    "om_ok (reg_tasks r')" "reg_next_id r' = Suc c + length sts"
    "reg_get r' = (\<lambda>i. if Suc c \<le> i \<and> i < Suc c + length sts then Some (idle_tcb cx n i) else reg_get r1 i)"
    by auto
  have "reg_task_snapshot r1 c = Some (tcb_snapshot (idle_tcb cx n c))" by (simp add: reg_task_snapshot_def g1)
  moreover have "cpu_init c st = cpu_new c" using Cons.prems(4) cpu_init_new by auto
  moreover have "[c..<c + length (st # sts)] = c # [Suc c..<Suc c + length sts]" by (simp add: upt_rec)
  ultimately have "init_cpus cx n boot c (st # sts) r = Some (map (start_cpu cx n boot) [c..<c + length (st # sts)], r')"
    using sp r'(1) by (simp add: start_cpu_def)
  moreover have "reg_get r' = (\<lambda>i. if c \<le> i \<and> i < c + length (st # sts) then Some (idle_tcb cx n i) else reg_get r i)"
    by (auto simp: r'(4) g1 fun_eq_iff)
  ultimately show ?case using r'(2,3) by auto
qed (auto simp: fun_eq_iff)

definition mcs_start :: "(nat \<Rightarrow> nat) \<Rightarrow> nat \<Rightarrow> nat \<Rightarrow> mcs option" where
  "mcs_start cx n boot = mcs_init cx n boot (mcs_new n)"

lemma start_spec:
  assumes n: "boot < n" "n \<le> 64" and K: "\<And>c. c < n \<Longrightarrow> K (cx c)"
  shows "\<exists>s. mcs_start cx n boot = Some s \<and> sys_inv K {} {} s \<and> length (ms_cpus s) = n \<and> reg_next_id (ms_reg s) = n \<and>
    (\<forall>c. is_online s c \<longleftrightarrow> c = boot) \<and> (\<forall>c < n. on_cpu s c c \<and> idle_of s c c) \<and> (\<forall>t c. \<not> on_queue s t c \<and> \<not> defers s t c)"
proof -
  let ?m = "mcs_new n"
  have "om_ok (reg_tasks (reg_init (ms_reg ?m)))" "reg_next_id (reg_init (ms_reg ?m)) = 0"
    "0 + length (ms_cpus ?m) < usize_max" "\<forall>st \<in> set (ms_cpus ?m). \<exists>k. st = cpu_new k"
    using n by (auto simp: mcs_new_def reg_init_def reg_new_def usize_max_def)
  from init_cpus_spec [OF this, of cx n boot] obtain r where
    r: "init_cpus cx n boot 0 (ms_cpus ?m) (reg_init (ms_reg ?m)) = Some (map (start_cpu cx n boot) [0..<n], r)"
    "om_ok (reg_tasks r)" "reg_next_id r = n"
    "reg_get r = (\<lambda>i. if i < n then Some (idle_tcb cx n i) else None)"
    by (auto simp: mcs_new_def reg_init_def reg_get_def fun_eq_iff om_get_def)
  obtain s where s: "mcs_start cx n boot = Some s" "ms_reg s = r" "ms_wait s = wq_init (ms_wait ?m)"
    "ms_cpus s = map (start_cpu cx n boot) [0..<n]"
    using r(1) by (simp add: mcs_start_def mcs_init_def)
  have at: "ms_cpus s ! c = start_cpu cx n boot c" if "c < n" for c using that by (simp add: s(4))
  have l: "length (ms_cpus s) = n" by (simp add: s(4))
  have o: "on_queue s t c \<longleftrightarrow> False" "on_cpu s t c \<longleftrightarrow> t = c \<and> c < n" "defers s t c \<longleftrightarrow> False"
    "idle_of s t c \<longleftrightarrow> t = c \<and> c < n" "is_online s c \<longleftrightarrow> c = boot" for t c
    using n by (auto simp: on_queue_def on_cpu_def defers_def idle_of_def is_online_def l at start_cpu_fields)
  have w: "\<not> waits s t x" "\<not> sleeps s t" "\<not> in_exited s t" for t x
    by (auto simp: waits_def sleeps_def in_exited_def s(3) wq_init_def waiters_def sleepers_def queue_entry_def om_get_def
        mcs_new_def wq_new_def split: wait_target.split)
  have tk: "task s i = (if i < n then Some (idle_tcb cx n i) else None)" for i by (simp add: task_def s(2) r(4))
  have it: "tcb_is_idle (idle_tcb cx n i)" for i by (simp add: idle_tcb_def new_task_def tcb_is_idle_def)
  have fit: "tcb_fit K s (idle_tcb cx n i)" if "i < n" for i
    using n K [OF that] max_cpus_contains [OF n(2), of boot]
    by (auto simp: tcb_fit_def idle_tcb_def new_task_def validate_policy_param_def o(5))
  have reg: "reg_ok r" "reg_next_id r < usize_max"
    using r n by (auto simp: reg_ok_def usize_max_def idle_tcb_def new_task_def tcb_ok_def is_exited_def)
  have wf: "cpu_wf c (ms_cpus s ! c)" if "c < n" for c
    using that by (simp add: cpu_wf_def at start_cpu_fields idle_tcb_def new_task_def)
  have "sys_glob K s"
    unfolding sys_glob_def o s(2) l
    using reg wf n(2) wq_inv_empty fit it w by (auto simp: s(3) tk in_exited_def split: if_splits) (simp add: wq_init_def)
  moreover have "task_ok {} s t" for t
    by (simp add: task_ok_def tk it absent_ok_def o w)
  ultimately have "sys_inv K {} {} s" by (simp add: sys_inv_def)
  then show ?thesis using s(1) l r(3) o by (auto simp: s(2))
qed

end
