(* ===== verification/Multi_System.thy ===== *)
theory Multi_System
  imports Multi_Start
begin

text \<open>
  The scheduler as a state machine. Every call under the scheduler lock is one operation of
  \<open>mcs_op\<close>; \<open>allowed\<close> says what the caller must respect, and \<open>mcs_exec\<close> runs the operation, with
  \<open>None\<close> for a panic. From the initial state no sequence of allowed operations of any CPUs panics,
  and the invariant holds throughout.
\<close>

section \<open>Operations\<close>

datatype mcs_op =
    OpFirst nat nat
  | OpSchedule "nat option" schedule_reason nat
  | OpWait wait_target "nat option" nat
  | OpDeferred nat
  | OpWake task_id
  | OpInterrupt task_id
  | OpWakeOne nat
  | OpWakeAll nat
  | OpRequeue nat nat nat nat
  | OpWakeParent task_id
  | OpAllocate string
  | OpRelease nat
  | OpSpawnKernel "nat option" nat
  | OpSpawnUser "nat option" "nat option" nat
  | OpCreateUser "nat option" "nat option" nat
  | OpCreateFork nat "nat option" task_id nat
  | OpCreateThread "nat option" nat
  | OpFork nat "nat option" nat
  | OpClone "nat option" nat
  | OpActivate task_id
  | OpDiscard task_id
  | OpExecve nat nat
  | OpTakeResult nat
  | OpKill task_id int
  | OpReap task_id
  | OpReapOne
  | OpReapChild task_id
  | OpPolicy task_id sched_policy int nat
  | OpAffinity task_id cpu_mask
  | OpNice task_id int
  | OpIoPriority task_id nat
  | OpForce task_id
  | OpOnline nat
  | OpTimekeeper nat "nat option"
  | OpTakePending
  | OpTakeNeed nat

fun mcs_exec :: "(nat \<Rightarrow> bool) \<Rightarrow> mcs_op \<Rightarrow> mcs \<Rightarrow> mcs option" where
  "mcs_exec ok (OpFirst boot c) s = map_option snd (prepare_first_switch ok boot c s)"
| "mcs_exec ok (OpSchedule now reason c) s = map_option snd (schedule ok now reason c s)"
| "mcs_exec ok (OpWait x ticks c) s = map_option snd (schedule_wait ok x ticks c s)"
| "mcs_exec ok (OpDeferred c) s = enqueue_deferred_task c s"
| "mcs_exec ok (OpWake t) s = map_option snd (mcs_wake_task t s)"
| "mcs_exec ok (OpInterrupt t) s = map_option snd (mcs_interrupt_task t s)"
| "mcs_exec ok (OpWakeOne q) s = map_option snd (mcs_wake_one_in_wait_queue q s)"
| "mcs_exec ok (OpWakeAll q) s = map_option snd (mcs_wake_all_in_wait_queue q s)"
| "mcs_exec ok (OpRequeue f d k n) s = map_option snd (requeue_wait_queue_detailed f d k n s)"
| "mcs_exec ok (OpWakeParent p) s = mcs_wake_child_exit_waiters p s"
| "mcs_exec ok (OpAllocate name) s = map_option snd (mcs_allocate_wait_queue name s)"
| "mcs_exec ok (OpRelease q) s = map_option snd (mcs_try_release_wait_queue q s)"
| "mcs_exec ok (OpSpawnKernel stack c) s = map_option snd (mcs_spawn_kernel_task (length (ms_cpus s)) stack c s)"
| "mcs_exec ok (OpSpawnUser stack a c) s = map_option snd (mcs_spawn_user_task_spec (length (ms_cpus s)) stack a c s)"
| "mcs_exec ok (OpCreateUser stack a c) s = map_option snd (create_user_task_spec (length (ms_cpus s)) stack a c s)"
| "mcs_exec ok (OpCreateFork a stack p c) s = map_option snd (create_fork_child a stack p c s)"
| "mcs_exec ok (OpCreateThread stack c) s = map_option snd (create_clone_thread stack c s)"
| "mcs_exec ok (OpFork a stack c) s = map_option snd (mcs_fork_current a stack c s)"
| "mcs_exec ok (OpClone stack c) s = map_option snd (mcs_clone_current_thread stack c s)"
| "mcs_exec ok (OpActivate t) s = activate t LeastLoaded s"
| "mcs_exec ok (OpDiscard t) s = Some (discard_unstarted_task t s)"
| "mcs_exec ok (OpExecve a c) s = mcs_execve_current a c s"
| "mcs_exec ok (OpTakeResult c) s = map_option snd (take_current_wait_result c s)"
| "mcs_exec ok (OpKill t code) s = Some (snd (mcs_kill_task t code s))"
| "mcs_exec ok (OpReap t) s = Some (snd (mcs_reap_exited_task t s))"
| "mcs_exec ok OpReapOne s = Some (snd (mcs_reap_one_exited_task s))"
| "mcs_exec ok (OpReapChild p) s = Some (snd (reap_one_exited_child p s))"
| "mcs_exec ok (OpPolicy t p prio c) s = map_option snd (apply_sched_policy_change t p prio c s)"
| "mcs_exec ok (OpAffinity t m) s = map_option snd (mcs_set_affinity (length (ms_cpus s)) t m s)"
| "mcs_exec ok (OpNice t n) s = map_option snd (mcs_set_nice t n s)"
| "mcs_exec ok (OpIoPriority t n) s = Some (snd (mcs_set_io_priority t n s))"
| "mcs_exec ok (OpForce t) s = request_task_reschedule t s"
| "mcs_exec ok (OpOnline c) s = Some (set_cpu_online c s)"
| "mcs_exec ok (OpTimekeeper c now) s = set_timekeeper_cpu c now s"
| "mcs_exec ok OpTakePending s = Some (snd (take_pending_reschedule_cpus s))"
| "mcs_exec ok (OpTakeNeed c) s = map_option snd (take_need_resched c s)"

text \<open>
  What the callers respect. A CPU schedules only when it is online and has published the task its
  last switch deferred; it blocks only on targets that exist, and an idle task does not wait. A new
  task comes with a usable context. Killing and policy changes do not reach a task between two CPUs.
\<close>

definition usable_cx :: "(nat \<Rightarrow> bool) \<Rightarrow> nat \<Rightarrow> bool" where
  "usable_cx ok x \<longleftrightarrow> x \<noteq> 0 \<and> ok x"

definition busy :: "nat \<Rightarrow> mcs \<Rightarrow> bool" where
  "busy c s \<longleftrightarrow> (\<exists>t. on_cpu s t c \<and> \<not> idle_of s t c)"

fun allowed :: "(nat \<Rightarrow> bool) \<Rightarrow> mcs_op \<Rightarrow> mcs \<Rightarrow> bool" where
  "allowed ok (OpFirst boot c) s \<longleftrightarrow> c < length (ms_cpus s) \<and> \<not> busy c s"
| "allowed ok (OpSchedule now reason c) s \<longleftrightarrow> switchable c s \<and> (\<forall>x. reason = Block x \<longrightarrow> held x (ms_wait s))"
| "allowed ok (OpWait x ticks c) s \<longleftrightarrow> switchable c s \<and> busy c s \<and> held x (ms_wait s)"
| "allowed ok (OpDeferred c) s \<longleftrightarrow> c < length (ms_cpus s)"
| "allowed ok (OpWakeOne q) s \<longleftrightarrow> held (WaitQueue q) (ms_wait s)"
| "allowed ok (OpWakeAll q) s \<longleftrightarrow> held (WaitQueue q) (ms_wait s)"
| "allowed ok (OpRequeue f d k n) s \<longleftrightarrow> held (WaitQueue f) (ms_wait s) \<and> held (WaitQueue d) (ms_wait s)"
| "allowed ok (OpSpawnKernel stack c) s \<longleftrightarrow> has_ids s \<and> is_online s c \<and> (\<exists>cx. stack = Some cx \<and> usable_cx ok cx)"
| "allowed ok (OpSpawnUser stack a c) s \<longleftrightarrow> has_ids s \<and> is_online s c \<and> a \<noteq> None \<and> (\<exists>cx. stack = Some cx \<and> usable_cx ok cx)"
| "allowed ok (OpCreateUser stack a c) s \<longleftrightarrow> has_ids s \<and> is_online s c \<and> a \<noteq> None \<and> (\<exists>cx. stack = Some cx \<and> usable_cx ok cx)"
| "allowed ok (OpCreateFork a stack p c) s \<longleftrightarrow> has_ids s \<and> is_online s c \<and> (\<forall>cx. stack = Some cx \<longrightarrow> usable_cx ok cx)"
| "allowed ok (OpCreateThread stack c) s \<longleftrightarrow> has_ids s \<and> is_online s c \<and> (\<forall>cx. stack = Some cx \<longrightarrow> usable_cx ok cx)"
| "allowed ok (OpFork a stack c) s \<longleftrightarrow> has_ids s \<and> is_online s c \<and> (\<forall>cx. stack = Some cx \<longrightarrow> usable_cx ok cx)"
| "allowed ok (OpClone stack c) s \<longleftrightarrow> has_ids s \<and> is_online s c \<and> (\<forall>cx. stack = Some cx \<longrightarrow> usable_cx ok cx)"
| "allowed ok (OpActivate t) s \<longleftrightarrow> unstarted s t"
| "allowed ok (OpDiscard t) s \<longleftrightarrow> unstarted s t"
| "allowed ok (OpExecve a c) s \<longleftrightarrow> busy c s"
| "allowed ok (OpTakeResult c) s \<longleftrightarrow> c < length (ms_cpus s)"
| "allowed ok (OpKill t code) s \<longleftrightarrow> (\<forall>c. \<not> defers s t c)"
| "allowed ok (OpPolicy t p prio c) s \<longleftrightarrow> may_repolicy t p prio s"
| "allowed ok (OpAffinity t m) s \<longleftrightarrow> (\<forall>T. task s t = Some T \<longrightarrow> \<not> tcb_is_idle T)"
| "allowed ok (OpNice t n) s \<longleftrightarrow> -20 \<le> n \<and> n \<le> 19"
| "allowed ok (OpTimekeeper c now) s \<longleftrightarrow> c < length (ms_cpus s) \<and> (timekeeper_cpu s = None \<or> timekeeper_cpu s = Some c)"
| "allowed ok (OpTakeNeed c) s \<longleftrightarrow> c < length (ms_cpus s)"
| "allowed ok op s \<longleftrightarrow> True"

inductive mcs_step :: "(nat \<Rightarrow> bool) \<Rightarrow> mcs \<Rightarrow> mcs_op \<Rightarrow> mcs \<Rightarrow> bool" for ok where
  step: "allowed ok op s \<Longrightarrow> mcs_exec ok op s = Some s' \<Longrightarrow> mcs_step ok s op s'"

inductive mcs_reach :: "(nat \<Rightarrow> bool) \<Rightarrow> nat \<Rightarrow> mcs \<Rightarrow> bool" for ok n where
  start: "boot < n \<Longrightarrow> (\<And>c. c < n \<Longrightarrow> usable_cx ok (cx c)) \<Longrightarrow> mcs_start cx n boot = Some s \<Longrightarrow> mcs_reach ok n s"
| run: "mcs_reach ok n s \<Longrightarrow> mcs_step ok s op s' \<Longrightarrow> mcs_reach ok n s'"

section \<open>Every allowed operation returns and keeps the invariant\<close>

abbreviation runs :: "(nat \<Rightarrow> bool) \<Rightarrow> mcs_op \<Rightarrow> mcs \<Rightarrow> bool" where
  "runs ok op s \<equiv> \<exists>s'. mcs_exec ok op s = Some s' \<and> sys_inv (usable_cx ok) {} {} s' \<and>
     length (ms_cpus s') = length (ms_cpus s)"

lemma cpu_runs:
  assumes "sys_inv K E X s" "c < length (ms_cpus s)"
  shows "\<exists>t. on_cpu s t c"
  using cpu_wfD(4) [OF sys_globD(6) [OF sys_invD(1) [OF assms(1)] assms(2)]] assms(2) by (simp add: on_cpu_def)

lemma passes_length: "passes A s s' \<Longrightarrow> length (ms_cpus s') = length (ms_cpus s)"
  by (simp add: passes_def same_cpus_def)

lemma leaves_length: "leaves K target t c s s' \<Longrightarrow> length (ms_cpus s') = length (ms_cpus s)"
  by (simp add: leaves_def same_cpus_def)

lemma switched_length: "switched c u s s' \<Longrightarrow> length (ms_cpus s') = length (ms_cpus s)"
  by (simp add: switched_def same_cpus_def)

lemma refreshed_length: "refreshed t s s' \<Longrightarrow> length (ms_cpus s') = length (ms_cpus s)"
  by (simp add: refreshed_def same_cpus_def)

lemma still_length: "still s s' \<Longrightarrow> length (ms_cpus s') = length (ms_cpus s)"
  by (simp add: still_def same_cpus_def)

lemma deadline_length: "length (ms_cpus (set_deadline t x n s)) = length (ms_cpus s)"
  by (simp add: set_deadline_def split: option.split)

lemma switches_length:
  assumes "switches K reason t c s r s'"
  shows "length (ms_cpus s') = length (ms_cpus s)"
proof -
  obtain u s1 where "switched c u s1 s'" "s1 = s \<or> (\<exists>target. leaves K target t c s s1)"
    using assms by (auto simp: switches_def split: if_splits)
  then show ?thesis using switched_length leaves_length by metis
qed

lemma waits_out_length:
  assumes "waits_out K x ticks t c s r s'"
  shows "length (ms_cpus s') = length (ms_cpus s)"
proof -
  obtain u s1 where "leaves K (ToBlocked x) t c s s1" "switched c u (set_deadline t x ticks s1) s'"
    using assms by (auto simp: waits_out_def)
  then show ?thesis using switched_length leaves_length deadline_length by metis
qed

lemma usable_K: "usable_cx ok x \<Longrightarrow> x \<noteq> 0 \<and> ok x"
  by (simp add: usable_cx_def)

lemma schedule_runs:
  assumes inv: "sys_inv (usable_cx ok) {} {} s" and a: "allowed ok (OpSchedule now reason c) s"
  shows "runs ok (OpSchedule now reason c) s"
proof -
  have sw: "switchable c s" and h: "\<And>x. reason = Block x \<Longrightarrow> held x (ms_wait s)" using a by auto
  obtain t where t: "on_cpu s t c" using cpu_runs [OF inv switchable_cpu [OF sw]] by blast
  obtain r s' A s1 where r: "schedule ok now reason c s = Some (r, s')" "sys_inv (usable_cx ok) {} {} s'" "passes A s s1"
    "reason = Tick \<and> r = None \<and> s' = s1 \<or> switches (usable_cx ok) reason t c s1 r s'"
    using schedule_spec [where K = "usable_cx ok" and ctx_ok = ok and now = now and reason = reason, OF inv sw t usable_K [of ok] h] by blast
  have "length (ms_cpus s') = length (ms_cpus s)"
    using r(4) passes_length [OF r(3)] switches_length by auto
  with r show ?thesis by simp
qed

lemma wait_runs:
  assumes inv: "sys_inv (usable_cx ok) {} {} s" and a: "allowed ok (OpWait x ticks c) s"
  shows "runs ok (OpWait x ticks c) s"
proof -
  have sw: "switchable c s" and h: "held x (ms_wait s)" using a by auto
  obtain t where t: "on_cpu s t c" "\<not> idle_of s t c" using a by (auto simp: busy_def)
  obtain r s' A s1 where r: "schedule_wait ok x ticks c s = Some (r, s')" "sys_inv (usable_cx ok) {} {} s'" "passes A s s1"
    "if wait_target_ready x (ms_reg s1) then r = None \<and> refreshed t s1 s' \<and> result_is s' t Woken
     else waits_out (usable_cx ok) x ticks t c s1 r s'"
    using schedule_wait_spec [where K = "usable_cx ok" and ctx_ok = ok and ticks = ticks, OF inv sw t usable_K [of ok] h] by blast
  have "length (ms_cpus s') = length (ms_cpus s)"
    using r(4) passes_length [OF r(3)] waits_out_length refreshed_length by (auto split: if_splits)
  with r show ?thesis by simp
qed

lemma first_runs:
  assumes inv: "sys_inv (usable_cx ok) {} {} s" and a: "allowed ok (OpFirst boot c) s"
  shows "runs ok (OpFirst boot c) s"
proof -
  have c: "c < length (ms_cpus s)" using a by simp
  obtain t where t: "on_cpu s t c" "idle_of s t c" using cpu_runs [OF inv c] a by (auto simp: busy_def)
  from first_switch_spec [where K = "usable_cx ok" and ctx_ok = ok and boot = boot, OF inv c t usable_K [of ok]] show ?thesis
    by (auto simp: switched_length still_length)
qed

lemma deferred_runs:
  assumes inv: "sys_inv (usable_cx ok) {} {} s" and a: "allowed ok (OpDeferred c) s"
  shows "runs ok (OpDeferred c) s"
  using deferred_spec [OF inv, of c] a by (auto simp: same_cpus_def)

lemma waking_runs:
  assumes inv: "sys_inv (usable_cx ok) {} {} s"
  shows "runs ok (OpWake t) s" "runs ok (OpInterrupt t) s" "runs ok (OpWakeParent t) s"
    "allowed ok (OpWakeOne q) s \<Longrightarrow> runs ok (OpWakeOne q) s" "allowed ok (OpWakeAll q) s \<Longrightarrow> runs ok (OpWakeAll q) s"
    "allowed ok (OpRequeue f d k n) s \<Longrightarrow> runs ok (OpRequeue f d k n) s"
proof -
  show "runs ok (OpWake t) s" "runs ok (OpInterrupt t) s"
    using wake_task_spec [OF inv, of t] by (auto dest: passes_length split: if_splits)
  show "runs ok (OpWakeParent t) s"
    using child_waiters_spec [OF inv, of t] by (auto dest: passes_length)
  show "allowed ok (OpWakeOne q) s \<Longrightarrow> runs ok (OpWakeOne q) s" "allowed ok (OpWakeAll q) s \<Longrightarrow> runs ok (OpWakeAll q) s"
    using wake_one_spec [OF inv, of q] wake_all_spec [OF inv, of q] by (auto dest: passes_length)
  show "allowed ok (OpRequeue f d k n) s \<Longrightarrow> runs ok (OpRequeue f d k n) s"
    using requeue_detailed_spec [OF inv _ _ refl refl, of f d k n] by (auto simp: same_cpus_def)
qed

lemma adds_length: "adds_task t s s' \<Longrightarrow> length (ms_cpus s') = length (ms_cpus s)"
  by (simp add: adds_task_def same_cpus_def)

lemma may_add_length: "may_add_task r s s' \<Longrightarrow> length (ms_cpus s') = length (ms_cpus s)"
  by (auto simp: may_add_task_def adds_task_def same_cpus_def split: option.splits)

lemma published_length: "published t s s' \<Longrightarrow> length (ms_cpus s') = length (ms_cpus s)"
  by (simp add: published_def moved_def same_cpus_def)

lemma gone_length: "gone t s s' \<Longrightarrow> length (ms_cpus s') = length (ms_cpus s)"
  by (simp add: gone_def same_cpus_def)

lemma online_runs_task: "sys_inv K E X s \<Longrightarrow> is_online s c \<Longrightarrow> \<exists>t. on_cpu s t c"
  by (rule cpu_runs) (auto simp: is_online_def)

lemma creation_runs:
  assumes inv: "sys_inv (usable_cx ok) {} {} s"
  shows "allowed ok (OpSpawnKernel stack c) s \<Longrightarrow> runs ok (OpSpawnKernel stack c) s"
    "allowed ok (OpSpawnUser stack a c) s \<Longrightarrow> runs ok (OpSpawnUser stack a c) s"
    "allowed ok (OpCreateUser stack a c) s \<Longrightarrow> runs ok (OpCreateUser stack a c) s"
    "allowed ok (OpActivate t) s \<Longrightarrow> runs ok (OpActivate t) s"
proof -
  have l: "length (ms_cpus s') = length (ms_cpus s)" if "adds_task t s s1" "published t s1 s'" for t s1 s'
    using adds_length [OF that(1)] published_length [OF that(2)] by simp
  show "allowed ok (OpSpawnKernel stack c) s \<Longrightarrow> runs ok (OpSpawnKernel stack c) s"
    using spawn_kernel_spec [OF inv, of c] l by fastforce
  show "allowed ok (OpSpawnUser stack a c) s \<Longrightarrow> runs ok (OpSpawnUser stack a c) s"
    using spawn_user_spec [OF inv, of c] l by fastforce
  show "allowed ok (OpCreateUser stack a c) s \<Longrightarrow> runs ok (OpCreateUser stack a c) s"
    using create_user_spec [OF inv, of c] by (fastforce dest: adds_length)
  show "allowed ok (OpActivate t) s \<Longrightarrow> runs ok (OpActivate t) s"
    using publish_task_spec [OF inv, of t] by (auto dest: published_length)
qed

lemma fork_runs:
  assumes inv: "sys_inv (usable_cx ok) {} {} s" and h: "has_ids s" "is_online s c" "\<And>cx. stack = Some cx \<Longrightarrow> usable_cx ok cx"
  shows "runs ok (OpCreateFork a stack p c) s" "runs ok (OpCreateThread stack c) s"
    "runs ok (OpFork a stack c) s" "runs ok (OpClone stack c) s"
proof -
  obtain t where t: "on_cpu s t c" using online_runs_task [OF inv h(2)] by blast
  show "runs ok (OpCreateFork a stack p c) s" "runs ok (OpCreateThread stack c) s"
    using fork_child_spec [where aspace = a and parent = p and stack = stack, OF inv h(1) t h(3)] clone_thread_spec [where stack = stack, OF inv h(1) t h(3)]
    by (auto dest: may_add_length)
  have l: "length (ms_cpus s') = length (ms_cpus s)"
    if "may_add_task r s s1" "case r of None \<Rightarrow> s' = s1 | Some i \<Rightarrow> published i s1 s'" for r s1 s'
    using may_add_length [OF that(1)] that(2) published_length by (auto split: option.splits)
  show "runs ok (OpFork a stack c) s" "runs ok (OpClone stack c) s"
    using fork_clone_spec(1) [where aspace = a and stack = stack, OF inv h(1) t h(3)]
      fork_clone_spec(2) [where stack = stack, OF inv h(1) t h(3)] l by fastforce+
qed

lemma ending_runs:
  assumes inv: "sys_inv (usable_cx ok) {} {} s"
  shows "allowed ok (OpKill t code) s \<Longrightarrow> runs ok (OpKill t code) s" "runs ok (OpReap t) s" "runs ok OpReapOne s"
    "runs ok (OpReapChild t) s"
proof -
  show "allowed ok (OpKill t code) s \<Longrightarrow> runs ok (OpKill t code) s"
  proof -
    assume "allowed ok (OpKill t code) s"
    then obtain b s' where k: "mcs_kill_task t code s = (b, s')" "sys_inv (usable_cx ok) {} {} s'" "kill_outcome t code s b s'"
      using kill_spec [OF inv, of t code] by auto
    have "s' = s \<or> gone t s s'" using k(3) by (simp add: kill_outcome_def split: option.splits if_splits)
    with k(1,2) show ?thesis by (auto dest: gone_length)
  qed
  have rp: "reaped u s e s' \<Longrightarrow> length (ms_cpus s') = length (ms_cpus s)" for u e s'
    using gone_length by (auto simp: reaped_def)
  show "runs ok (OpReap t) s"
    using reap_exited_spec [OF inv, of t] inv rp by (auto split: if_splits)
  show "runs ok OpReapOne s"
    using reap_one_spec [OF inv] inv rp by (auto split: list.splits)
  show "runs ok (OpReapChild t) s"
    using reap_child_spec [OF inv, of t] rp by (auto split: option.splits)
qed

lemma discard_runs:
  assumes inv: "sys_inv (usable_cx ok) {} {} s" and a: "allowed ok (OpDiscard t) s"
  shows "runs ok (OpDiscard t) s"
proof -
  have u: "unstarted s t" using a by simp
  then obtain T where T: "task s t = Some T" "\<not> tcb_is_idle T" "tc_state T = Ready" by (auto simp: unstarted_def)
  have r: "resting {} s t" by (rule unstarted_resting [OF inv u])
  have "\<not> idle_of s t c" for c using sys_globD(7) [OF sys_invD(1) [OF inv], of t c] T by auto
  with discard_spec [OF inv, of t] r show ?thesis by (auto simp: resting_def dormant_def dest: gone_length)
qed

lemma image_runs:
  assumes inv: "sys_inv (usable_cx ok) {} {} s"
  shows "allowed ok (OpExecve a c) s \<Longrightarrow> runs ok (OpExecve a c) s" "allowed ok (OpTakeResult c) s \<Longrightarrow> runs ok (OpTakeResult c) s"
proof -
  show "allowed ok (OpExecve a c) s \<Longrightarrow> runs ok (OpExecve a c) s"
    using execve_spec [OF inv, of _ c a] by (fastforce simp: busy_def tuned_def same_cpus_def)
  assume a: "allowed ok (OpTakeResult c) s"
  then obtain t where "on_cpu s t c" using cpu_runs [OF inv] by auto
  from wait_result_spec [OF inv this] show "runs ok (OpTakeResult c) s" by (auto simp: tuned_def same_cpus_def)
qed

lemma params_runs:
  assumes inv: "sys_inv (usable_cx ok) {} {} s"
  shows "allowed ok (OpPolicy t p prio c) s \<Longrightarrow> runs ok (OpPolicy t p prio c) s"
    "allowed ok (OpAffinity t m) s \<Longrightarrow> runs ok (OpAffinity t m) s"
    "allowed ok (OpNice t n) s \<Longrightarrow> runs ok (OpNice t n) s" "runs ok (OpIoPriority t io) s"
proof -
  have tl: "length (ms_cpus s') = length (ms_cpus s)" if "tuned t T s s'" for T s'
    using that by (simp add: tuned_def same_cpus_def)
  show "allowed ok (OpPolicy t p prio c) s \<Longrightarrow> runs ok (OpPolicy t p prio c) s"
  proof -
    assume "allowed ok (OpPolicy t p prio c) s"
    then obtain r s' where r: "apply_sched_policy_change t p prio c s = Some (r, s')" "sys_inv (usable_cx ok) {} {} s'"
      "case r of Inl e \<Rightarrow> e = NoSuchTask \<and> s' = s \<and> (\<exists>T. task s t = Some T \<and> is_exited (tc_state T))
       | Inr b \<Rightarrow> repolicied t p prio s s' \<and> (b \<longrightarrow> on_cpu s t c \<or> on_queue s t c)"
      using policy_spec [OF inv, of t p prio c] by auto
    then show ?thesis by (cases r) (auto simp: repolicied_def same_cpus_def)
  qed
  show "allowed ok (OpAffinity t m) s \<Longrightarrow> runs ok (OpAffinity t m) s"
  proof -
    assume a: "allowed ok (OpAffinity t m) s"
    show ?thesis
    proof (cases "\<exists>T. task s t = Some T \<and> \<not> is_exited (tc_state T) \<and> affinity_ok m s")
      case True
      with a obtain T where "task s t = Some T" "\<not> tcb_is_idle T" "\<not> is_exited (tc_state T)" "affinity_ok m s" by auto
      from affinity_spec [OF inv this] show ?thesis by (auto simp: reassigned_def same_cpus_def)
    next
      case False
      then have "task s t = Some T \<Longrightarrow> is_exited (tc_state T) \<or> \<not> affinity_ok m s" for T by blast
      from affinity_error [OF inv this] inv show ?thesis by simp
    qed
  qed
  show "allowed ok (OpNice t n) s \<Longrightarrow> runs ok (OpNice t n) s"
  proof -
    assume "allowed ok (OpNice t n) s"
    then obtain e s' where k: "mcs_set_nice t n s = Some (e, s')" "sys_inv (usable_cx ok) {} {} s'"
      "case task s t of None \<Rightarrow> s' = s | Some T \<Rightarrow> if is_exited (tc_state T) then s' = s else tuned t (T\<lparr>tc_nice := n\<rparr>) s s'"
      using nice_spec [OF inv, of n t] by auto
    then show ?thesis using tl by (auto split: option.splits if_splits)
  qed
  obtain e s' where k: "mcs_set_io_priority t io s = (e, s')" "sys_inv (usable_cx ok) {} {} s'"
    "case task s t of None \<Rightarrow> s' = s | Some T \<Rightarrow> if is_exited (tc_state T) then s' = s else tuned t (T\<lparr>tc_io_priority := io\<rparr>) s s'"
    using io_priority_spec [OF inv, of t io] by blast
  then show "runs ok (OpIoPriority t io) s" using tl by (auto split: option.splits if_splits)
qed

lemma machine_runs:
  assumes inv: "sys_inv (usable_cx ok) {} {} s"
  shows "runs ok (OpAllocate name) s" "runs ok (OpRelease q) s" "runs ok (OpOnline c) s"
    "allowed ok (OpTimekeeper c now) s \<Longrightarrow> runs ok (OpTimekeeper c now) s" "runs ok OpTakePending s"
    "allowed ok (OpTakeNeed c) s \<Longrightarrow> runs ok (OpTakeNeed c) s" "runs ok (OpForce t) s"
proof -
  note g = sys_invD(1) [OF inv]
  show "runs ok (OpAllocate name) s" "runs ok (OpRelease q) s"
    using queue_table_spec(1) [OF inv, of name] queue_table_spec(2) [OF inv, of q]
    by (auto simp: mcs_allocate_wait_queue_def mcs_try_release_wait_queue_def)
  show "runs ok (OpOnline c) s" using online_spec [OF inv, of c] by simp
  show "allowed ok (OpTimekeeper c now) s \<Longrightarrow> runs ok (OpTimekeeper c now) s"
  proof -
    assume a: "allowed ok (OpTimekeeper c now) s"
    then obtain s' where s': "set_timekeeper_cpu c now s = Some s'" "sys_inv (usable_cx ok) {} {} s'"
      using timekeeper_spec [OF inv, of c now] by auto
    moreover have "ms_cpus s' = ms_cpus s" using s'(1) by (auto simp: set_timekeeper_cpu_def split: option.splits if_splits)
    ultimately show ?thesis by simp
  qed
  show "runs ok OpTakePending s"
    using inv sys_inv_cong(1) [of "s\<lparr>pending_cpus := mask_empty\<rparr>" s] by (simp add: take_pending_reschedule_cpus_def)
  show "allowed ok (OpTakeNeed c) s \<Longrightarrow> runs ok (OpTakeNeed c) s"
    using touch_spec(1) [OF inv _ touches(4) [OF cpu_wfD(1) [OF sys_globD(6) [OF g]]], of c False]
    by (simp add: take_need_resched_def cpu_at_def)
  show "runs ok (OpForce t) s"
  proof (cases "running_cpu s t")
    case None
    with inv show ?thesis by (simp add: request_task_reschedule_def)
  next
    case (Some d)
    then obtain T where T: "task s t = Some T" "tc_running_cpu T = Some d"
      by (auto simp: running_cpu_def reg_running_cpu_def task_def split: option.splits)
    have "d < length (ms_cpus s)" by (rule live_running(4) [OF inv T])
    from request_reschedule_spec [OF g this, of CauseForced] inv Some show ?thesis
      by (auto simp: request_task_reschedule_def requested_def same_cpus_def)
  qed
qed

lemma exec_runs:
  assumes inv: "sys_inv (usable_cx ok) {} {} s" and a: "allowed ok op s"
  shows "runs ok op s"
proof -
  note w = waking_runs [OF inv] and e = ending_runs [OF inv] and p = params_runs [OF inv] and m = machine_runs [OF inv]
    and c = creation_runs [OF inv] and f = fork_runs [OF inv] and i = image_runs [OF inv]
  show ?thesis
    using a
  proof (cases op)
    case (OpFirst b c) with a show ?thesis by (blast intro: first_runs [OF inv])
  next case (OpSchedule now r c) with a show ?thesis by (blast intro: schedule_runs [OF inv])
  next case (OpWait x n c) with a show ?thesis by (blast intro: wait_runs [OF inv])
  next case (OpDeferred c) with a show ?thesis by (blast intro: deferred_runs [OF inv])
  next case (OpDiscard t) with a show ?thesis by (blast intro: discard_runs [OF inv])
  next case (OpCreateFork a st p c) with a show ?thesis by (simp only: allowed.simps) (blast intro: f)
  next case (OpCreateThread st c) with a show ?thesis by (simp only: allowed.simps) (blast intro: f)
  next case (OpFork a st c) with a show ?thesis by (simp only: allowed.simps) (blast intro: f)
  next case (OpClone st c) with a show ?thesis by (simp only: allowed.simps) (blast intro: f)
  qed (use a in \<open>blast intro: w e p m c i\<close>)+
qed

lemma reach_inv: "mcs_reach ok n s \<Longrightarrow> n \<le> 64 \<Longrightarrow> sys_inv (usable_cx ok) {} {} s \<and> length (ms_cpus s) = n"
proof (induction rule: mcs_reach.induct)
  case (start boot cx s)
  with start_spec [of boot n "usable_cx ok" cx] show ?case by auto
next
  case (run s op s')
  then have a: "allowed ok op s" and e: "mcs_exec ok op s = Some s'" by (auto elim: mcs_step.cases)
  have "sys_inv (usable_cx ok) {} {} s" "length (ms_cpus s) = n" using run by simp_all
  with exec_runs [OF _ a] e show ?case by auto
qed

end
