(* ===== verification/Multi_Props.thy ===== *)
theory Multi_Props
  imports Multi_System
begin

text \<open>
  What the multi-class scheduler promises in every state its operations can reach: no operation
  panics, no task is in two places, waking is exact, a switch sends the running task where its reason
  says and takes the task the CPU prefers, and exited tasks are reaped once.
\<close>

section \<open>A state to apply the theorems at\<close>

text \<open>
  Two CPUs, of which the first one boots; the kernel task \<open>2\<close> has been spawned there.
\<close>

lemma demo_start:
  obtains s where "mcs_start (\<lambda>_. 1) 2 0 = Some s" "mcs_reach (\<lambda>_. True) 2 s" "reg_next_id (ms_reg s) = 2"
    "\<And>c. is_online s c \<longleftrightarrow> c = 0" "length (ms_cpus s) = 2" "switchable 0 s" "on_cpu s 0 0" "idle_of s 0 0"
    "\<And>t c. \<not> on_queue s t c"
proof -
  obtain s where s: "mcs_start (\<lambda>_. 1) 2 0 = Some s" "length (ms_cpus s) = 2" "reg_next_id (ms_reg s) = 2"
    "\<forall>c. is_online s c \<longleftrightarrow> c = 0" "\<forall>t c. \<not> on_queue s t c \<and> \<not> defers s t c" "on_cpu s 0 0" "idle_of s 0 0"
    using start_spec [of 0 2 "\<lambda>_. True" "\<lambda>_. 1"] by auto
  moreover have "mcs_reach (\<lambda>_. True) 2 s" by (rule mcs_reach.start [OF _ _ s(1)]) (simp_all add: usable_cx_def)
  ultimately show thesis using that by (simp add: switchable_def)
qed

lemma demo_spawned:
  obtains s where "mcs_reach (\<lambda>_. True) 2 s" "readied 2 s" "switchable 0 s" "length (ms_cpus s) = 2" "on_cpu s 0 0"
    "idle_of s 0 0" "\<And>u c. on_queue s u c \<Longrightarrow> u = 2 \<and> c = 0"
proof -
  obtain s where s: "mcs_reach (\<lambda>_. True) 2 s" "reg_next_id (ms_reg s) = 2" "\<And>c. is_online s c \<longleftrightarrow> c = 0" "length (ms_cpus s) = 2"
    "switchable 0 s" "on_cpu s 0 0" "idle_of s 0 0" "\<And>t c. \<not> on_queue s t c"
    by (rule demo_start) (rule that)
  have inv: "sys_inv (usable_cx (\<lambda>_. True)) {} {} s" using reach_inv [OF s(1)] by simp
  have h: "has_ids s" "is_online s 0" by (simp_all add: has_ids_def s(2,3) usize_max_def)
  obtain s1 s' where p: "mcs_spawn_kernel_task (length (ms_cpus s)) (Some 5) 0 s = Some (2, s')" "adds_task 2 s s1" "published 2 s1 s'"
    using spawn_kernel_spec [OF inv h, of 5] s(2) by (auto simp: usable_cx_def)
  have "mcs_step (\<lambda>_. True) s (OpSpawnKernel (Some 5) 0) s'"
    by (rule mcs_step.step) (use p(1) h in \<open>simp_all add: usable_cx_def\<close>)
  then have r: "mcs_reach (\<lambda>_. True) 2 s'" by (rule mcs_reach.run [OF s(1)])
  have sc: "same_cpus s s'" using p(2,3) same_trans(1) by (auto simp: adds_task_def published_def moved_def)
  have o: "switchable 0 s'" "on_cpu s' 0 0" "idle_of s' 0 0" "length (ms_cpus s') = 2"
    using p(2,3) s(4-7) sc by (simp_all add: adds_task_def published_def moved_def switchable_def same_cpus_def)
  have inv': "sys_inv (usable_cx (\<lambda>_. True)) {} {} s'" using reach_inv [OF r] by simp
  have "u = 2 \<and> c = 0" if q: "on_queue s' u c" for u c
  proof -
    have "on_queue s' u c \<longleftrightarrow> on_queue s u c" if "u \<noteq> 2"
      using p(2,3) that by (simp add: adds_task_def published_def moved_def same_task_def)
    then have "u = 2" using q s(8) by blast
    moreover obtain U where U: "task s' u = Some U" "\<not> tcb_is_idle U" using sys_globD(8) [OF sys_invD(1) [OF inv'] q] by blast
    then have "live_ok {} s' u U" using sys_invD(2) [OF inv', of u] by (simp add: task_ok_def)
    then have "is_online s' c" using q by (simp add: live_ok_def)
    ultimately show ?thesis using s(3) sc by (simp add: same_cpus_def)
  qed
  with r o p(3) that show thesis by (simp add: published_def)
qed

text \<open>The first CPU runs it, and it waits in a queue of its own.\<close>

lemma demo_running:
  obtains s q where "mcs_reach (\<lambda>_. True) 2 s" "on_cpu s 2 0" "\<not> idle_of s 2 0" "switchable 0 s" "held (WaitQueue q) (ms_wait s)"
proof -
  obtain s where s: "mcs_reach (\<lambda>_. True) 2 s" "readied 2 s" "switchable 0 s" "length (ms_cpus s) = 2" "on_cpu s 0 0"
    "idle_of s 0 0" "\<And>u c. on_queue s u c \<Longrightarrow> u = 2 \<and> c = 0"
    by (rule demo_spawned) (rule that)
  note inv = conjunct1 [OF reach_inv [OF s(1), simplified]]
  obtain p s1 where a: "mcs_allocate_wait_queue ''demo'' s = Some (p, s1)" "sys_inv (usable_cx (\<lambda>_. True)) {} {} s1"
    "\<forall>u. same_task s s1 u" "held (WaitQueue p) (ms_wait s1)"
    using queue_table_spec(1) [OF inv, of "''demo''"] by blast
  have c1: "ms_cpus s1 = ms_cpus s" using a(1) by (auto simp: mcs_allocate_wait_queue_def)
  note oc = obs_cong [OF c1]
  have "mcs_step (\<lambda>_. True) s (OpAllocate ''demo'') s1" by (rule mcs_step.step) (simp_all add: a(1))
  then have r1: "mcs_reach (\<lambda>_. True) 2 s1" by (rule mcs_reach.run [OF s(1)])
  have sw: "switchable 0 s1" "on_cpu s1 0 0" "idle_of s1 0 0" using s(3,5,6) by (simp_all add: switchable_def oc)
  have run: "schedule (\<lambda>_. True) None Reschedule 0 s1 = do {
      st \<leftarrow> cpu_at s1 0;
      current \<leftarrow> current_task_id st;
      let current_cx = current_task_cx st;
      (if is_current_idle st then finish_switch (\<lambda>_. True) False current current_cx 0 s1
       else do {
         let s' = (if Reschedule \<in> {Yield, Sleep 0} then put_cpu 0 (prepare_yield st) s1 else s1);
         s2 \<leftarrow> enqueue_task (pick_queue Reschedule s') current 0 s';
         finish_switch (\<lambda>_. True) (case Reschedule of Exit _ \<Rightarrow> True | _ \<Rightarrow> False) current current_cx 0 s2
       })
    }" by (simp add: schedule_def before_schedule_def)
  obtain r s2 where r: "schedule (\<lambda>_. True) None Reschedule 0 s1 = Some (r, s2)"
    "switches (usable_cx (\<lambda>_. True)) Reschedule 0 0 s1 r s2"
    using switch_spec [where K = "usable_cx (\<lambda>_. True)" and ctx_ok = "\<lambda>_. True" and reason = Reschedule,
      OF a(2) sw(1,2) usable_K [of "\<lambda>_. True"]] unfolding run by auto
  have "mcs_step (\<lambda>_. True) s1 (OpSchedule None Reschedule 0) s2"
    by (rule mcs_step.step) (use r(1) sw(1) in simp_all)
  then have r2: "mcs_reach (\<lambda>_. True) 2 s2" by (rule mcs_reach.run [OF r1])
  obtain u where u: "chosen 0 u s1" "switched 0 u s1 s2" using r(2) sw(3) by (auto simp: switches_def)
  obtain d where "on_queue s 2 d" using s(2) by (auto simp: readied_def)
  then have "on_queue s 2 0" using s(7) by blast
  then have "ready_mset (ms_cpus s1 ! 0) \<noteq> {#}" by (auto simp: on_queue_def c1)
  with u(1) s(7) have "u = 2" by (auto simp: chosen_def oc)
  moreover have "\<not> idle_of s2 2 0" using u(2) sw(3) by (auto simp: switched_def same_cpus_def idle_of_def)
  ultimately show thesis
    using r2 u(2) a(4) sw(1) that [of s2 p] by (simp add: switched_def switchable_def same_cpus_def)
qed

lemma waiting_held: "wq_ok w \<Longrightarrow> t \<in> set (waiters x w) \<Longrightarrow> held x w"
  by (auto simp: held_def wq_ok_def free_ok_def waiters_def split: if_splits)

lemma demo_waiting:
  obtains s q where "mcs_reach (\<lambda>_. True) 2 s" "held (WaitQueue q) (ms_wait s)" "waits s 2 (WaitQueue q)" "switchable 0 s"
    "length (ms_cpus s) = 2"
proof -
  obtain s q where s: "mcs_reach (\<lambda>_. True) 2 s" "on_cpu s 2 0" "\<not> idle_of s 2 0" "switchable 0 s" "held (WaitQueue q) (ms_wait s)"
    by (rule demo_running) (rule that)
  note inv = reach_inv [OF s(1), simplified]
  let ?K = "usable_cx (\<lambda>_. True)"
  have "allowed (\<lambda>_. True) (OpWait (WaitQueue q) None 0) s" using s by (auto simp: busy_def)
  then obtain s0 where s0: "mcs_exec (\<lambda>_. True) (OpWait (WaitQueue q) None 0) s = Some s0" "mcs_reach (\<lambda>_. True) 2 s0"
    using exec_runs [OF conjunct1 [OF inv]] mcs_reach.run [OF s(1) mcs_step.step] by blast
  obtain r s' A s1 where r: "schedule_wait (\<lambda>_. True) (WaitQueue q) None 0 s = Some (r, s')" "passes A s s1"
    "waits_out ?K (WaitQueue q) None 2 0 s1 r s'"
    using schedule_wait_spec [where K = ?K and ctx_ok = "\<lambda>_. True" and ticks = None,
      OF conjunct1 [OF inv] s(4,2,3) usable_K [of "\<lambda>_. True"] s(5)] by (auto simp: wait_target_ready_def)
  have e: "s0 = s'" using s0(1) r(1) by simp
  note inv' = reach_inv [OF s0(2), simplified]
  obtain u s2 where l: "leaves ?K (ToBlocked (WaitQueue q)) 2 0 s1 s2" "switched 0 u s2 s'"
    using r(3) by (auto simp: waits_out_def set_deadline_def)
  then have w: "waits s' 2 (WaitQueue q)" using wait_cong [of s' s2] by (simp add: leaves_def left_to_def switched_def)
  have iv: "sys_inv ?K {} {} s'" using inv' e by simp
  have "held (WaitQueue q) (ms_wait s')" by (rule waiting_held [OF sys_wait_ok(1) [OF iv]]) (use w in \<open>simp add: waits_def\<close>)
  moreover have "switchable 0 s'"
  proof -
    have ok: "task_ok {} s' 2" by (rule sys_invD(2) [OF iv]) simp
    have "waits s' 2 (WaitQueue q) \<or> sleeps s' 2" using w by blast
    then have n2: "\<not> defers s' 2 0" by (rule waiting_dormant [OF sys_invD(1) [OF iv] ok]) blast
    have df: "defers s' u 0 \<longleftrightarrow> defers s u 0" if "u \<noteq> 2" for u
      using l r(2) that by (simp add: leaves_def switched_def passes_def same_task_def woken_by_def lost_by_def)
    have "\<not> defers s' u 0" for u using n2 df [of u] s(4) by (cases "u = 2") (simp_all add: switchable_def)
    moreover have "is_online s' 0"
      using s(4) l r(2) by (simp add: switchable_def leaves_def switched_def passes_def same_cpus_def)
    ultimately show ?thesis by (simp add: switchable_def)
  qed
  ultimately show thesis using that [of s' q] s0(2) inv' e w by simp
qed

section \<open>Properties\<close>

lemma wake_panics:
  assumes inv: "sys_inv (usable_cx ok) {} {} s"
  shows "mcs_exec ok (OpWakeOne q) s = None \<longleftrightarrow> length (wq_queues (ms_wait s)) \<le> q"
    "mcs_exec ok (OpWakeAll q) s = None \<longleftrightarrow> length (wq_queues (ms_wait s)) \<le> q"
proof -
  have w: "wq_ok (ms_wait s)" using sys_globD(3) [OF sys_invD(1) [OF inv]] by (simp add: wq_inv_def)
  consider "length (wq_queues (ms_wait s)) \<le> q" | "held (WaitQueue q) (ms_wait s)"
    | "q < length (wq_queues (ms_wait s))" "wq_queues (ms_wait s) ! q = []"
    using wq_okD(2) [OF w]
    by (cases "q \<in> set (wq_free (ms_wait s))"; cases "length (wq_queues (ms_wait s)) \<le> q")
      (auto simp: held_def free_ok_def)
  then have "(mcs_exec ok (OpWakeOne q) s = None \<longleftrightarrow> length (wq_queues (ms_wait s)) \<le> q) \<and>
    (mcs_exec ok (OpWakeAll q) s = None \<longleftrightarrow> length (wq_queues (ms_wait s)) \<le> q)"
  proof cases
    case 1
    then show ?thesis
      by (simp add: mcs_wake_one_in_wait_queue_def mcs_wake_all_in_wait_queue_def wake_one_in_wait_queue_def
          wake_all_in_wait_queue_def pop_wait_queue_def)
  next
    case 2
    then have "q < length (wq_queues (ms_wait s))" by (simp add: held_def)
    with waking_runs(4,5) [OF inv, of q] 2 show ?thesis by auto
  next
    case 3
    then show ?thesis
      by (simp add: mcs_wake_one_in_wait_queue_def mcs_wake_all_in_wait_queue_def wake_one_in_wait_queue_def
          wake_all_in_wait_queue_def pop_wait_queue_def)
  qed
  then show "mcs_exec ok (OpWakeOne q) s = None \<longleftrightarrow> length (wq_queues (ms_wait s)) \<le> q"
    "mcs_exec ok (OpWakeAll q) s = None \<longleftrightarrow> length (wq_queues (ms_wait s)) \<le> q" by blast+
qed

text \<open>
  C21. No panic for callers that keep their guarantees. In every state that \<open>allowed\<close> operations
  reach from the initial one, on up to 64 CPUs and in any order, every operation whose caller keeps
  the guarantees of \<open>allowed\<close> returns, keeps the number of CPUs and leaves a task running on each of
  them. Without them some calls do panic: waking one or all tasks of a queue panics exactly when its
  id was never allocated, and changing the policy of a task that does not exist always does. What
  \<open>allowed\<close> leaves out (killing or changing the policy of a task between two CPUs, spawning when no
  kernel stack can be had) is listed there.
\<close>

theorem scheduler_total:
  assumes "mcs_reach ok n s" "n \<le> 64"
  shows "(allowed ok op s \<longrightarrow> (\<exists>s'. mcs_exec ok op s = Some s' \<and> length (ms_cpus s') = n \<and>
       (\<forall>c < n. \<exists>t. on_cpu s' t c))) \<and>
    (mcs_exec ok (OpWakeOne q) s = None \<longleftrightarrow> length (wq_queues (ms_wait s)) \<le> q) \<and>
    (mcs_exec ok (OpWakeAll q) s = None \<longleftrightarrow> length (wq_queues (ms_wait s)) \<le> q) \<and>
    (task s t = None \<longrightarrow> mcs_exec ok (OpPolicy t p prio c) s = None)"
proof -
  have inv: "sys_inv (usable_cx ok) {} {} s" and n: "length (ms_cpus s) = n"
    using reach_inv [OF assms] by simp_all
  have "\<exists>s'. mcs_exec ok op s = Some s' \<and> length (ms_cpus s') = n \<and> (\<forall>c < n. \<exists>t. on_cpu s' t c)"
    if "allowed ok op s"
    using exec_runs [OF inv that] cpu_runs n by metis
  moreover have "mcs_exec ok (OpPolicy t p prio c) s = None" if "task s t = None"
    using that by (simp add: apply_sched_policy_change_def reg_task_snapshot_def task_def)
  ultimately show ?thesis using wake_panics [OF inv] by blast
qed

theorem scheduler_total_witness:
  "\<exists>s s'. mcs_start (\<lambda>_. 1) 2 0 = Some s \<and> mcs_exec (\<lambda>_. True) (OpSpawnKernel (Some 5) 0) s = Some s' \<and>
     (\<forall>c < 2. \<exists>t. on_cpu s' t c)"
proof -
  obtain s where s: "mcs_start (\<lambda>_. 1) 2 0 = Some s" "mcs_reach (\<lambda>_. True) 2 s" "reg_next_id (ms_reg s) = 2"
    "\<And>c. is_online s c \<longleftrightarrow> c = 0"
    by (rule demo_start) (rule that)
  have "allowed (\<lambda>_. True) (OpSpawnKernel (Some 5) 0) s"
    using s(3,4) by (simp add: has_ids_def usable_cx_def usize_max_def)
  with scheduler_total [OF s(2), THEN conjunct1, of "OpSpawnKernel (Some 5) 0"] s(1) show ?thesis by auto
qed

text \<open>
  C22. One place per task. In every reachable state a task that is not idle runs on at most one CPU;
  it is in a run queue exactly when it is ready and published, then in one queue only, once, and on a
  CPU that is online and in its affinity; it is running exactly when some CPU runs it or holds it for
  its migration; it waits and sleeps only where its state says; and it is in the list of exited
  tasks exactly when it has exited.
\<close>

theorem scheduler_exclusive:
  assumes "mcs_reach ok n s" "n \<le> 64" "task s t = Some T" "\<not> tcb_is_idle T"
  shows "(on_cpu s t c \<longrightarrow> on_cpu s t d \<longrightarrow> c = d) \<and>
    (on_queue s t c \<longleftrightarrow> tc_ready_cpu T = Some c) \<and>
    (on_queue s t c \<longrightarrow> tc_state T = Ready \<and> is_online s c \<and> mask_contains (tc_affinity T) c \<and>
       count (ready_mset (ms_cpus s ! c)) t = 1 \<and> \<not> on_cpu s t d \<and> \<not> defers s t d) \<and>
    (tc_state T = Running \<longleftrightarrow> (\<exists>e. on_cpu s t e \<or> defers s t e)) \<and>
    (on_cpu s t c \<longrightarrow> \<not> defers s t d) \<and>
    (waits s t x \<longrightarrow> tc_state T = Blocking x) \<and>
    (tc_state T = Blocking x \<longrightarrow> waits s t x \<or> (\<exists>i. x = TaskExit i \<or> x = ChildExit i)) \<and>
    (sleeps s t \<longleftrightarrow> (\<exists>k. tc_state T = Sleeping k)) \<and> (in_exited s t \<longleftrightarrow> is_exited (tc_state T))"
proof -
  have inv: "sys_inv (usable_cx ok) {} {} s" using reach_inv [OF assms(1,2)] by simp
  note g = sys_invD(1) [OF inv]
  have live: "live_ok {} s t T" using sys_invD(2) [OF inv, of t] assms(3,4) by (simp add: task_ok_def)
  note L = live [unfolded live_ok_def]
  have k: "tcb_ok T" using task_tcb_ok [OF g assms(3)] by simp
  have run: "tc_running_cpu T = Some e \<longleftrightarrow> on_cpu s t e \<or> defers s t e" for e using L by simp
  have one: "on_cpu s t c \<Longrightarrow> on_cpu s t d \<Longrightarrow> c = d" "on_cpu s t c \<Longrightarrow> \<not> defers s t d" for c d
    using run L by (metis option.inject, metis empty_iff option.inject)
  have st: "tc_state T = Running \<longleftrightarrow> (\<exists>e. on_cpu s t e \<or> defers s t e)"
    using run k assms(4) by (auto simp: tcb_ok_def)
  have q: "tc_state T = Ready \<and> count (ready_mset (ms_cpus s ! c)) t = 1" if "on_queue s t c"
  proof -
    have "tc_ready_cpu T = Some c" using L that by simp
    then have "tc_state T = Ready" using k by (simp add: tcb_ok_def)
    moreover have "1 \<le> count (ready_mset (ms_cpus s ! c)) t" "c < length (ms_cpus s)"
      using that by (simp_all add: on_queue_def Suc_le_eq)
    then have "count (ready_mset (ms_cpus s ! c)) t = 1"
      using cpu_wfD(5) [OF sys_globD(6) [OF g]] le_antisym by metis
    ultimately show ?thesis by blast
  qed
  show ?thesis using L one st q run by auto
qed

theorem scheduler_exclusive_witness:
  "\<exists>s T c. mcs_reach (\<lambda>_. True) 2 s \<and> task s 2 = Some T \<and> on_queue s 2 c \<and> is_online s c \<and>
     count (ready_mset (ms_cpus s ! c)) 2 = 1 \<and> \<not> on_cpu s 2 0 \<and> \<not> in_exited s 2"
proof -
  obtain s where s: "mcs_reach (\<lambda>_. True) 2 s" "readied 2 s" by (rule demo_spawned) (rule that)
  obtain T c where T: "task s 2 = Some T" "tc_state T = Ready" "on_queue s 2 c" using s(2) by (auto simp: readied_def)
  have "sys_inv (usable_cx (\<lambda>_. True)) {} {} s" using reach_inv [OF s(1)] by simp
  then have "\<not> tcb_is_idle T" using sys_globD(8) [OF sys_invD(1)] T(1,3) by fastforce
  from scheduler_exclusive [OF s(1) _ T(1) this, of c 0] s(1) T show ?thesis by auto
qed

text \<open>
  C23. Waking is exact. In every reachable state \<open>wake_task\<close> and \<open>interrupt_task\<close> report whether the
  task was waiting or sleeping; if so it becomes ready in one run queue with the result \<open>Woken\<close> or
  \<open>Interrupted\<close>, and otherwise nothing changes for any task. Waking a whole wait queue makes exactly
  its waiters ready and returns their number. No other task is affected, and no CPU changes what it
  runs.
\<close>

theorem waking_exact:
  assumes "mcs_reach ok n s" "n \<le> 64" "held (WaitQueue q) (ms_wait s)"
  shows "(\<exists>s'. mcs_wake_task t s = Some (waiting t (ms_wait s), s') \<and>
      (if waiting t (ms_wait s) then passes {t} s s' \<and> result_is s' t Woken else passes {} s s')) \<and>
    (\<exists>s'. mcs_interrupt_task t s = Some (waiting t (ms_wait s), s') \<and>
      (if waiting t (ms_wait s) then passes {t} s s' \<and> result_is s' t Interrupted else passes {} s s')) \<and>
    (\<exists>s'. mcs_wake_all_in_wait_queue q s = Some (min (length (queue_of q s)) usize_max, s') \<and>
      passes (set (queue_of q s)) s s')"
proof -
  have inv: "sys_inv (usable_cx ok) {} {} s" using reach_inv [OF assms(1,2)] by simp
  show ?thesis using wake_task_spec [OF inv, of t] wake_all_spec [OF inv assms(3)] by blast
qed

theorem waking_exact_witness:
  "\<exists>s s' q. mcs_reach (\<lambda>_. True) 2 s \<and> waits s 2 (WaitQueue q) \<and> mcs_wake_task 2 s = Some (True, s') \<and>
     readied 2 s' \<and> result_is s' 2 Woken"
proof -
  obtain s q where s: "mcs_reach (\<lambda>_. True) 2 s" "held (WaitQueue q) (ms_wait s)" "waits s 2 (WaitQueue q)"
    by (rule demo_waiting) (rule that)
  have "waiting 2 (ms_wait s)" using s(3) by (auto simp: waiting_obs)
  then obtain s' where "mcs_wake_task 2 s = Some (True, s')" "passes {2} s s'" "result_is s' 2 Woken"
    using conjunct1 [OF waking_exact [OF s(1) _ s(2), of 2]] by auto
  with s(1,3) show ?thesis by (auto simp: passes_def)
qed

text \<open>
  C24. A scheduling call. In every reachable state a CPU that is online and owes no migration may
  call \<open>schedule\<close> for any reason: the call returns; timed waits that expired are first made ready, if
  this CPU keeps the time; then, unless a tick finds no reason to switch, the running task leaves to
  where the reason sends it (an idle task just stops), and the CPU installs the task \<open>pick_next_runnable\<close>
  chooses, a queued one if there is any and its idle task otherwise. The result is the pair of saved
  contexts to switch between, or nothing when the same task goes on.
\<close>

theorem schedule_switches:
  assumes "mcs_reach ok n s" "n \<le> 64" "allowed ok (OpSchedule now reason c) s" "on_cpu s t c"
  shows "\<exists>r s' A s1. schedule ok now reason c s = Some (r, s') \<and> passes A s s1 \<and> A \<subseteq> waiting_in s \<and>
    (reason = Tick \<and> r = None \<and> s' = s1 \<or> switches (usable_cx ok) reason t c s1 r s')"
proof -
  have inv: "sys_inv (usable_cx ok) {} {} s" using reach_inv [OF assms(1,2)] by simp
  have sw: "switchable c s" and h: "\<And>x. reason = Block x \<Longrightarrow> held x (ms_wait s)" using assms(3) by auto
  show ?thesis
    using schedule_spec [where K = "usable_cx ok" and ctx_ok = ok and now = now and reason = reason,
      OF inv sw assms(4) usable_K [of ok] h] by blast
qed

theorem schedule_switches_witness:
  "\<exists>s r s'. mcs_reach (\<lambda>_. True) 2 s \<and> on_cpu s 2 0 \<and> schedule (\<lambda>_. True) None Yield 0 s = Some (r, s') \<and>
     (\<exists>s1 s2 A. passes A s s1 \<and> leaves (usable_cx (\<lambda>_. True)) ToReady 2 0 s1 s2)"
proof -
  obtain s q where s: "mcs_reach (\<lambda>_. True) 2 s" "on_cpu s 2 0" "\<not> idle_of s 2 0" "switchable 0 s"
    by (rule demo_running) (rule that)
  have "allowed (\<lambda>_. True) (OpSchedule None Yield 0) s" using s(4) by simp
  from schedule_switches [OF s(1) _ this s(2)] obtain r s' A s1 where r:
    "schedule (\<lambda>_. True) None Yield 0 s = Some (r, s')" "passes A s s1"
    "switches (usable_cx (\<lambda>_. True)) Yield 2 0 s1 r s'" by auto
  have "\<not> idle_of s1 2 0" using s(3) r(2) by (simp add: passes_def same_cpus_def)
  with r(3) have "\<exists>s2. leaves (usable_cx (\<lambda>_. True)) ToReady 2 0 s1 s2"
    by (auto simp: switches_def target_of_def)
  with s(1,2) r(1,2) show ?thesis by blast
qed

text \<open>
  C25. The end of a task. In every reachable state, killing a task that neither runs nor is between
  two CPUs takes it out of every queue and makes it exited with the given code; a task that exited
  can be reaped exactly once, which returns its exit record and removes its entry; and a parent's
  \<open>reap_one_exited_child\<close> finds nothing only when it has no exited child. Only the tasks that wait for
  the exit itself are affected: they keep their state but are in no queue any more.
\<close>

theorem ending_exact:
  assumes "mcs_reach ok n s" "n \<le> 64" "\<forall>c. \<not> defers s t c"
  shows "(\<exists>b s'. mcs_kill_task t code s = (b, s') \<and> kill_outcome t code s b s') \<and>
    (if \<exists>T. task s t = Some T \<and> \<not> tcb_is_idle T \<and> is_exited (tc_state T)
     then \<exists>e s'. mcs_reap_exited_task t s = (Some e, s') \<and> reaped t s e s' \<and> fst (mcs_reap_exited_task t s') = None
     else mcs_reap_exited_task t s = (None, s)) \<and>
    (\<exists>r s'. reap_one_exited_child p s = (r, s') \<and>
      (case r of
         None \<Rightarrow> s' = s \<and> (\<forall>i T. task s i = Some T \<longrightarrow> tc_parent T = Some p \<longrightarrow> \<not> is_exited (tc_state T))
       | Some e \<Rightarrow> \<exists>i. reaped i s e s' \<and> et_parent e = Some p))"
proof -
  have inv: "sys_inv (usable_cx ok) {} {} s" using reach_inv [OF assms(1,2)] by simp
  have ex: "in_exited s t \<longleftrightarrow> (\<exists>T. task s t = Some T \<and> \<not> tcb_is_idle T \<and> is_exited (tc_state T))"
    using sys_invD(2) [OF inv, of t]
    by (auto simp: task_ok_def absent_ok_def live_ok_def split: option.splits if_splits)
  have "if in_exited s t then \<exists>e s'. mcs_reap_exited_task t s = (Some e, s') \<and> reaped t s e s' \<and> fst (mcs_reap_exited_task t s') = None
     else mcs_reap_exited_task t s = (None, s)"
  proof (cases "in_exited s t")
    case True
    then obtain e s' where e: "mcs_reap_exited_task t s = (Some e, s')" "sys_inv (usable_cx ok) {} {} s'" "reaped t s e s'"
      using reap_exited_spec [OF inv, of t] by auto
    have "\<not> in_exited s' t" using e(3) by (simp add: reaped_def)
    then have "fst (mcs_reap_exited_task t s') = None" using reap_exited_spec [OF e(2), of t] by simp
    with True e(1,3) show ?thesis by auto
  next
    case False
    then show ?thesis using reap_exited_spec [OF inv, of t] by simp
  qed
  with kill_spec [OF inv, of t code] reap_child_spec [OF inv, of p] assms(3) show ?thesis unfolding ex by blast
qed

theorem ending_exact_witness:
  "\<exists>s s'. mcs_reach (\<lambda>_. True) 2 s \<and> readied 2 s \<and> mcs_kill_task 2 7 s = (True, s') \<and> state_is s' 2 (Exited 7) \<and> in_exited s' 2"
proof -
  obtain s where s: "mcs_reach (\<lambda>_. True) 2 s" "readied 2 s" by (rule demo_spawned) (rule that)
  have inv: "sys_inv (usable_cx (\<lambda>_. True)) {} {} s" using reach_inv [OF s(1)] by simp
  obtain T c where T: "task s 2 = Some T" "tc_state T = Ready" "on_queue s 2 c" using s(2) by (auto simp: readied_def)
  have ni: "\<not> tcb_is_idle T" using sys_globD(8) [OF sys_invD(1) [OF inv]] T(1,3) by fastforce
  have "live_ok {} s 2 T" using sys_invD(2) [OF inv, of 2] T(1) ni by (simp add: task_ok_def)
  moreover have "tc_running_cpu T = None" using task_tcb_ok [OF sys_invD(1) [OF inv] T(1)] T(2) by (auto simp: tcb_ok_def)
  ultimately have nd: "\<forall>c. \<not> defers s 2 c" "\<forall>c. \<not> on_cpu s 2 c" by (auto simp: live_ok_def)
  have "\<exists>b s'. mcs_kill_task 2 7 s = (b, s') \<and> kill_outcome 2 7 s b s'"
    by (rule conjunct1 [OF ending_exact [OF s(1) _ nd(1)]]) simp
  then obtain b s' where "mcs_kill_task 2 7 s = (b, s')" "kill_outcome 2 7 s b s'" by blast
  with s T(1,2) ni nd(2) show ?thesis by (auto simp: kill_outcome_def)
qed

end
