(* ===== verification/Signal_State.thy ===== *)
theory Signal_State
  imports Ordered_Map
begin

unbundle bit_operations_syntax

text \<open>
  The types and the state of the signal subsystem (\<open>wateros-ipc/ipc-signal\<close>): signal sets as
  64-bit words, dispositions, the interval and POSIX timers of a process, and the state that each
  process and each thread keeps. A \<open>u128\<close> of nanoseconds is a natural number with the bound written
  out where the code saturates.
\<close>

section \<open>Signal numbers and errors\<close>

definition NSIG :: nat where "NSIG = 64"
definition SIG_DFL :: nat where "SIG_DFL = 0"
definition SIG_IGN :: nat where "SIG_IGN = 1"
definition SIG_BLOCK :: nat where "SIG_BLOCK = 0"
definition SIG_UNBLOCK :: nat where "SIG_UNBLOCK = 1"
definition SIG_SETMASK :: nat where "SIG_SETMASK = 2"
definition SIGKILL :: nat where "SIGKILL = 9"
definition SIGALRM :: nat where "SIGALRM = 14"
definition SIGCHLD :: nat where "SIGCHLD = 17"
definition SIGCONT :: nat where "SIGCONT = 18"
definition SIGSTOP :: nat where "SIGSTOP = 19"
definition SIGTSTP :: nat where "SIGTSTP = 20"
definition SIGTTIN :: nat where "SIGTTIN = 21"
definition SIGTTOU :: nat where "SIGTTOU = 22"
definition SIGURG :: nat where "SIGURG = 23"
definition SIGVTALRM :: nat where "SIGVTALRM = 26"
definition SIGPROF :: nat where "SIGPROF = 27"
definition SIGWINCH :: nat where "SIGWINCH = 28"
definition SA_NODEFER :: "64 word" where "SA_NODEFER = 0x40000000"
definition SA_RESETHAND :: "64 word" where "SA_RESETHAND = 0x80000000"
definition ITIMER_REAL :: nat where "ITIMER_REAL = 0"
definition ITIMER_VIRTUAL :: nat where "ITIMER_VIRTUAL = 1"
definition ITIMER_PROF :: nat where "ITIMER_PROF = 2"

lemmas signal_numbers = NSIG_def SIG_DFL_def SIG_IGN_def SIGKILL_def SIGALRM_def SIGCHLD_def SIGCONT_def
  SIGSTOP_def SIGTSTP_def SIGTTIN_def SIGTTOU_def SIGURG_def SIGVTALRM_def SIGPROF_def SIGWINCH_def

datatype signal_error =
    InvalidSignal
  | InvalidHow
  | NoSuchTask
  | NoSuchProcess
  | InvalidTimer
  | AlternateStackActive
  | NoSuchTimer

definition valid_signal :: "nat \<Rightarrow> bool" where
  "valid_signal sig \<longleftrightarrow> 0 < sig \<and> sig \<le> NSIG"

definition immutable_signal :: "nat \<Rightarrow> bool" where
  "immutable_signal sig \<longleftrightarrow> sig = SIGKILL \<or> sig = SIGSTOP"

definition default_ignored :: "nat \<Rightarrow> bool" where
  "default_ignored sig \<longleftrightarrow> sig = SIGCHLD \<or> sig = SIGURG \<or> sig = SIGWINCH"

definition default_stops :: "nat \<Rightarrow> bool" where
  "default_stops sig \<longleftrightarrow> sig = SIGSTOP \<or> sig = SIGTSTP \<or> sig = SIGTTIN \<or> sig = SIGTTOU"

definition default_terminates :: "nat \<Rightarrow> bool" where
  "default_terminates sig \<longleftrightarrow>
     valid_signal sig \<and> \<not> default_ignored sig \<and> \<not> default_stops sig \<and> sig \<noteq> SIGCONT"

section \<open>Signal sets\<close>

type_synonym signal_set = "64 word"

definition signal_bit :: "nat \<Rightarrow> signal_set option" where
  "signal_bit sig = (if valid_signal sig then Some (push_bit (sig - 1) 1) else None)"

definition ss_contains :: "signal_set \<Rightarrow> nat \<Rightarrow> bool" where
  "ss_contains m sig = (case signal_bit sig of Some b \<Rightarrow> m AND b \<noteq> 0 | None \<Rightarrow> False)"

definition ss_insert :: "nat \<Rightarrow> signal_set \<Rightarrow> signal_set" where
  "ss_insert sig m = (case signal_bit sig of Some b \<Rightarrow> m OR b | None \<Rightarrow> m)"

definition ss_remove :: "nat \<Rightarrow> signal_set \<Rightarrow> signal_set" where
  "ss_remove sig m = (case signal_bit sig of Some b \<Rightarrow> m AND NOT b | None \<Rightarrow> m)"

definition ss_union :: "signal_set \<Rightarrow> signal_set \<Rightarrow> signal_set" where
  "ss_union a b = a OR b"

definition ss_difference :: "signal_set \<Rightarrow> signal_set \<Rightarrow> signal_set" where
  "ss_difference a b = a AND NOT b"

definition ss_intersection :: "signal_set \<Rightarrow> signal_set \<Rightarrow> signal_set" where
  "ss_intersection a b = a AND b"

definition ss_is_empty :: "signal_set \<Rightarrow> bool" where
  "ss_is_empty m \<longleftrightarrow> m = 0"

text \<open>\<open>u64::trailing_zeros\<close>: the number of zero bits below the lowest set bit.\<close>

definition trailing_zeros :: "signal_set \<Rightarrow> nat" where
  "trailing_zeros m = length (takeWhile (\<lambda>i. \<not> bit m i) [0..<64])"

definition ss_first_signal :: "signal_set \<Rightarrow> nat option" where
  "ss_first_signal m = (if m = 0 then None else Some (trailing_zeros m + 1))"

subsection \<open>Sets of signals as words\<close>

lemma one_bit64: "bit ((2 :: 64 word) ^ n) i \<longleftrightarrow> i = n \<and> n < 64"
  by (auto simp: bit_exp_iff)

lemma ss_contains_bit: "ss_contains m sig \<longleftrightarrow> 0 < sig \<and> bit m (sig - 1)"
proof (cases "valid_signal sig")
  case True
  then have s: "0 < sig" "sig - 1 < 64" by (auto simp: valid_signal_def NSIG_def)
  have "m AND push_bit (sig - 1) 1 \<noteq> 0 \<longleftrightarrow> (\<exists>i. bit (m AND push_bit (sig - 1) 1) i)"
    by (metis bit_0_eq bit_eqI bot_apply bot_bool_def)
  also have "\<dots> \<longleftrightarrow> bit m (sig - 1)" using s by (auto simp: bit_and_iff one_bit64)
  finally show ?thesis using True s by (simp add: ss_contains_def signal_bit_def)
next
  case False
  then have "sig = 0 \<or> 64 \<le> sig - 1" by (auto simp: valid_signal_def NSIG_def)
  then have "\<not> (0 < sig \<and> bit m (sig - 1))" using bit_imp_le_length [of m "sig - 1"] by auto
  with False show ?thesis by (simp add: ss_contains_def signal_bit_def)
qed

lemma ss_contains_valid: "ss_contains m sig \<Longrightarrow> valid_signal sig"
  by (auto simp: ss_contains_def signal_bit_def split: option.splits if_splits)

lemma ss_eqI: "(\<And>i. ss_contains a i \<longleftrightarrow> ss_contains b i) \<Longrightarrow> a = b"
  by (rule bit_eqI) (metis Suc_diff_1 diff_Suc_1 ss_contains_bit zero_less_Suc)

lemma ss_contains_simps [simp]:
  "ss_contains 0 i \<longleftrightarrow> False"
  "ss_contains (ss_insert j m) i \<longleftrightarrow> i = j \<and> valid_signal i \<or> ss_contains m i"
  "ss_contains (ss_remove j m) i \<longleftrightarrow> i \<noteq> j \<and> ss_contains m i"
  "ss_contains (ss_union a b) i \<longleftrightarrow> ss_contains a i \<or> ss_contains b i"
  "ss_contains (ss_difference a b) i \<longleftrightarrow> ss_contains a i \<and> \<not> ss_contains b i"
  "ss_contains (ss_intersection a b) i \<longleftrightarrow> ss_contains a i \<and> ss_contains b i"
proof -
  show "ss_contains (ss_insert j m) i \<longleftrightarrow> i = j \<and> valid_signal i \<or> ss_contains m i"
    by (auto simp: ss_insert_def ss_contains_bit signal_bit_def bit_or_iff one_bit64 valid_signal_def NSIG_def)
  show "ss_contains (ss_remove j m) i \<longleftrightarrow> i \<noteq> j \<and> ss_contains m i"
  proof (cases "valid_signal j")
    case True
    then show ?thesis
      using bit_imp_le_length [of m "i - 1"]
      by (auto simp: ss_remove_def ss_contains_bit signal_bit_def bit_and_iff bit_not_iff one_bit64
          valid_signal_def NSIG_def)
  next
    case False
    then show ?thesis using ss_contains_valid [of m i] by (auto simp: ss_remove_def signal_bit_def)
  qed
  show "ss_contains (ss_difference a b) i \<longleftrightarrow> ss_contains a i \<and> \<not> ss_contains b i"
    using bit_imp_le_length [of a "i - 1"]
    by (auto simp: ss_difference_def ss_contains_bit bit_and_iff bit_not_iff)
qed (auto simp: ss_contains_bit ss_union_def ss_intersection_def bit_or_iff bit_and_iff)

lemma ss_is_empty_iff: "ss_is_empty m \<longleftrightarrow> (\<forall>i. \<not> ss_contains m i)"
proof
  assume "\<forall>i. \<not> ss_contains m i"
  then have "m = 0" by (intro ss_eqI) simp
  then show "ss_is_empty m" by (simp add: ss_is_empty_def)
qed (simp add: ss_is_empty_def)

lemma takeWhile_upt_found:
  assumes "k < n" "P k" "\<forall>i < k. \<not> P i"
  shows "takeWhile (\<lambda>i. \<not> P i) [0..<n] = [0..<k]"
proof -
  have "[0..<n] = [0..<k] @ k # [Suc k..<n]"
    using assms(1) by (metis upt_add_eq_append upt_conv_Cons le_add_diff_inverse less_imp_le zero_le)
  then show ?thesis using assms(2,3) by (simp add: takeWhile_append)
qed

text \<open>\<open>first_signal\<close> is the least member.\<close>

lemma ss_first_signal_None: "ss_first_signal m = None \<longleftrightarrow> (\<forall>i. \<not> ss_contains m i)"
  using ss_is_empty_iff [of m] by (simp add: ss_first_signal_def ss_is_empty_def)

lemma ss_first_signal_Some:
  "ss_first_signal m = Some s \<longleftrightarrow> ss_contains m s \<and> (\<forall>i < s. \<not> ss_contains m i)"
proof -
  have first: "\<exists>s. ss_first_signal m = Some s \<and> ss_contains m s \<and> (\<forall>i < s. \<not> ss_contains m i)" if m: "m \<noteq> 0"
  proof -
    obtain i where "bit m i" using m by (metis bit_eqI bit_0_eq bot_apply bot_bool_def)
    then have e: "\<exists>i. bit m i" by blast
    define k where "k = (LEAST i. bit m i)"
    have k: "bit m k" "\<forall>i < k. \<not> bit m i"
      unfolding k_def using LeastI_ex [OF e] not_less_Least by blast+
    then have "k < 64" using bit_imp_le_length by fastforce
    with k have "trailing_zeros m = k" by (simp add: trailing_zeros_def takeWhile_upt_found)
    with m k show ?thesis by (auto simp: ss_first_signal_def ss_contains_bit)
  qed
  show ?thesis
  proof
    assume a: "ss_first_signal m = Some s"
    then have "m \<noteq> 0" by (auto simp: ss_first_signal_def)
    with a first show "ss_contains m s \<and> (\<forall>i < s. \<not> ss_contains m i)" by auto
  next
    assume a: "ss_contains m s \<and> (\<forall>i < s. \<not> ss_contains m i)"
    then have "m \<noteq> 0" by auto
    with first obtain u where u: "ss_first_signal m = Some u" "ss_contains m u" "\<forall>i < u. \<not> ss_contains m i" by blast
    with a have "u = s" by (meson linorder_neqE_nat)
    with u(1) show "ss_first_signal m = Some s" by simp
  qed
qed

lemma ss_remove_absent [simp]: "\<not> ss_contains m i \<Longrightarrow> ss_remove i m = m"
  by (rule ss_eqI) auto

lemma ss_insert_present [simp]: "ss_contains m i \<Longrightarrow> ss_insert i m = m"
  by (rule ss_eqI) (auto dest: ss_contains_valid)

lemma ss_insert_remove: "ss_contains m i \<Longrightarrow> ss_insert i (ss_remove i m) = m"
  by (rule ss_eqI) (auto dest: ss_contains_valid)

text \<open>The number of members, which bounds how many signals a thread can still take.\<close>

definition ss_count :: "signal_set \<Rightarrow> nat" where
  "ss_count m = length (filter (ss_contains m) [1..<65])"

lemma ss_count_card: "ss_count m = card {i. ss_contains m i}"
proof -
  have "{i. ss_contains m i} = set (filter (ss_contains m) [1..<65])"
    using ss_contains_valid [of m] by (fastforce simp: valid_signal_def NSIG_def)
  then show ?thesis by (simp only: ss_count_def distinct_card distinct_filter distinct_upt)
qed

lemma finite_signals: "finite {i. ss_contains m i}"
  by (rule finite_subset [of _ "{..64}"]) (auto dest!: ss_contains_valid simp: valid_signal_def NSIG_def)

lemma ss_count_remove: "ss_contains m i \<Longrightarrow> ss_count (ss_remove i m) < ss_count m"
  unfolding ss_count_card by (rule psubset_card_mono [OF finite_signals]) auto

section \<open>Dispositions, deliveries and effects\<close>

record signal_action =
  sa_handler :: nat
  sa_flags :: "64 word"
  sa_restorer :: nat
  sa_mask :: signal_set

definition default_action :: signal_action where
  "default_action = \<lparr>sa_handler = SIG_DFL, sa_flags = 0, sa_restorer = 0, sa_mask = 0\<rparr>"

definition ignore_action :: signal_action where
  "ignore_action = \<lparr>sa_handler = SIG_IGN, sa_flags = 0, sa_restorer = 0, sa_mask = 0\<rparr>"

definition sa_is_default :: "signal_action \<Rightarrow> bool" where
  "sa_is_default a \<longleftrightarrow> sa_handler a = SIG_DFL"

definition sa_is_ignore :: "signal_action \<Rightarrow> bool" where
  "sa_is_ignore a \<longleftrightarrow> sa_handler a = SIG_IGN"

definition has_user_handler :: "signal_action \<Rightarrow> bool" where
  "has_user_handler a \<longleftrightarrow> SIG_IGN < sa_handler a"

lemma handler_cases: "sa_is_default a \<or> sa_is_ignore a \<or> has_user_handler a"
  by (auto simp: sa_is_default_def sa_is_ignore_def has_user_handler_def SIG_DFL_def SIG_IGN_def)

lemma handler_simps [simp]:
  "sa_is_default default_action" "\<not> sa_is_ignore default_action" "\<not> has_user_handler default_action"
  "sa_is_ignore a \<Longrightarrow> \<not> sa_is_default a" "has_user_handler a \<Longrightarrow> \<not> sa_is_default a"
  "has_user_handler a \<Longrightarrow> \<not> sa_is_ignore a" "sa_mask default_action = 0"
  by (auto simp: sa_is_default_def sa_is_ignore_def has_user_handler_def default_action_def SIG_DFL_def SIG_IGN_def)

datatype signal_delivery = Ignored | Pending | StopNow | ContinueNow

datatype pending_scope = ThreadScope | ProcessScope

record pending_signal =
  pg_signal :: nat
  pg_scope :: pending_scope
  pg_action :: signal_action
  pg_previous_mask :: signal_set

datatype signal_effect =
    HandlerEffect pending_signal
  | TerminateEffect nat
  | StopEffect nat
  | ContinueEffect nat

record signal_dispatch =
  sd_delivery :: signal_delivery
  sd_target :: "nat option"

definition dispatch_ignored :: signal_dispatch where
  "dispatch_ignored = \<lparr>sd_delivery = Ignored, sd_target = None\<rparr>"

definition dispatch_pending :: "nat option \<Rightarrow> signal_dispatch" where
  "dispatch_pending target = \<lparr>sd_delivery = Pending, sd_target = target\<rparr>"

definition dispatch_stop :: "nat option \<Rightarrow> signal_dispatch" where
  "dispatch_stop target = \<lparr>sd_delivery = StopNow, sd_target = target\<rparr>"

definition dispatch_continued :: "nat option \<Rightarrow> signal_dispatch" where
  "dispatch_continued target = \<lparr>sd_delivery = ContinueNow, sd_target = target\<rparr>"

lemmas dispatch_defs = dispatch_ignored_def dispatch_pending_def dispatch_stop_def dispatch_continued_def

record alt_stack =
  as_sp :: nat
  as_size :: nat
  as_active_frames :: nat

definition alt_default :: alt_stack where
  "alt_default = \<lparr>as_sp = 0, as_size = 0, as_active_frames = 0\<rparr>"

definition alt_is_enabled :: "alt_stack \<Rightarrow> bool" where
  "alt_is_enabled a \<longleftrightarrow> as_size a \<noteq> 0"

definition alt_contains :: "alt_stack \<Rightarrow> nat \<Rightarrow> bool" where
  "alt_contains a sp \<longleftrightarrow> alt_is_enabled a \<and> as_sp a \<le> sp \<and>
     (case checked_add usize_max (as_sp a) (as_size a) of None \<Rightarrow> False | Some e \<Rightarrow> sp < e)"

section \<open>Timers\<close>

definition u128_max :: nat where
  "u128_max = 2 ^ 128 - 1"

definition i32_max :: nat where
  "i32_max = 2 ^ 31 - 1"

definition sat_mul :: "nat \<Rightarrow> nat \<Rightarrow> nat \<Rightarrow> nat" where
  "sat_mul m a b = min m (a * b)"

record timer_spec =
  ts_interval :: nat
  ts_value :: nat

record interval_timer =
  it_interval :: nat
  it_deadline :: "nat option"
  it_generation :: nat

definition it_new :: interval_timer where
  "it_new = \<lparr>it_interval = 0, it_deadline = None, it_generation = 0\<rparr>"

definition it_remaining :: "interval_timer \<Rightarrow> nat \<Rightarrow> timer_spec" where
  "it_remaining tm now = \<lparr>ts_interval = it_interval tm,
     ts_value = (case it_deadline tm of None \<Rightarrow> 0 | Some d \<Rightarrow> d - now)\<rparr>"

definition it_replace :: "timer_spec \<Rightarrow> nat \<Rightarrow> interval_timer \<Rightarrow> interval_timer" where
  "it_replace spec now tm = \<lparr>it_interval = ts_interval spec,
     it_deadline = (if ts_value spec \<noteq> 0 then Some (sat_add u128_max now (ts_value spec)) else None),
     it_generation = (it_generation tm + 1) mod 2 ^ 64\<rparr>"

definition it_expire :: "nat \<Rightarrow> interval_timer \<Rightarrow> bool \<times> interval_timer" where
  "it_expire now tm =
     (case it_deadline tm of
        None \<Rightarrow> (False, tm)
      | Some d \<Rightarrow>
          if now < d then (False, tm)
          else if it_interval tm = 0 then (True, tm\<lparr>it_deadline := None\<rparr>)
          else (let overdue = now - d; periods = overdue div it_interval tm + 1
                in (True, tm\<lparr>it_deadline := Some (sat_add u128_max d (sat_mul u128_max periods (it_interval tm)))\<rparr>)))"

datatype posix_clock = RealtimeClock | MonotonicClock

record posix_timer =
  pt_clock :: posix_clock
  pt_signal :: nat
  pt_interval :: nat
  pt_deadline :: "nat option"
  pt_overrun :: nat

definition pt_new :: "posix_clock \<Rightarrow> nat \<Rightarrow> posix_timer" where
  "pt_new clock signal = \<lparr>pt_clock = clock, pt_signal = signal, pt_interval = 0, pt_deadline = None, pt_overrun = 0\<rparr>"

definition pt_now :: "nat \<Rightarrow> nat \<Rightarrow> posix_timer \<Rightarrow> nat" where
  "pt_now monotonic realtime tm = (case pt_clock tm of RealtimeClock \<Rightarrow> realtime | MonotonicClock \<Rightarrow> monotonic)"

definition pt_remaining :: "nat \<Rightarrow> nat \<Rightarrow> posix_timer \<Rightarrow> timer_spec" where
  "pt_remaining monotonic realtime tm = \<lparr>ts_interval = pt_interval tm,
     ts_value = (case pt_deadline tm of None \<Rightarrow> 0 | Some d \<Rightarrow> d - pt_now monotonic realtime tm)\<rparr>"

section \<open>Process and thread state\<close>

record process_signals =
  ps_actions :: "signal_action list"
  ps_pending :: signal_set
  ps_real :: interval_timer
  ps_virtual :: interval_timer
  ps_prof :: interval_timer
  ps_posix_timers :: "(nat, posix_timer) omap"
  ps_next_timer_id :: nat
  ps_user_cpu :: nat
  ps_total_cpu :: nat

definition ps_new :: process_signals where
  "ps_new = \<lparr>ps_actions = replicate NSIG default_action, ps_pending = 0, ps_real = it_new, ps_virtual = it_new,
     ps_prof = it_new, ps_posix_timers = [], ps_next_timer_id = 0, ps_user_cpu = 0, ps_total_cpu = 0\<rparr>"

text \<open>\<open>self.actions[sig - 1]\<close>; every caller has checked that the number is valid.\<close>

definition ps_action :: "process_signals \<Rightarrow> nat \<Rightarrow> signal_action" where
  "ps_action p sig = ps_actions p ! (sig - 1)"

definition ps_set_action :: "nat \<Rightarrow> signal_action \<Rightarrow> process_signals \<Rightarrow> process_signals" where
  "ps_set_action sig a p = p\<lparr>ps_actions := (ps_actions p)[sig - 1 := a]\<rparr>"

definition ps_timer :: "nat \<Rightarrow> process_signals \<Rightarrow> (signal_error, interval_timer) result" where
  "ps_timer which p =
     (if which = ITIMER_REAL then Inr (ps_real p)
      else if which = ITIMER_VIRTUAL then Inr (ps_virtual p)
      else if which = ITIMER_PROF then Inr (ps_prof p)
      else Inl InvalidTimer)"

definition ps_put_timer :: "nat \<Rightarrow> interval_timer \<Rightarrow> process_signals \<Rightarrow> process_signals" where
  "ps_put_timer which tm p =
     (if which = ITIMER_REAL then p\<lparr>ps_real := tm\<rparr>
      else if which = ITIMER_VIRTUAL then p\<lparr>ps_virtual := tm\<rparr>
      else if which = ITIMER_PROF then p\<lparr>ps_prof := tm\<rparr>
      else p)"

definition ps_timer_clock :: "nat \<Rightarrow> nat \<Rightarrow> process_signals \<Rightarrow> (signal_error, nat) result" where
  "ps_timer_clock which monotonic p =
     (if which = ITIMER_REAL then Inr monotonic
      else if which = ITIMER_VIRTUAL then Inr (ps_user_cpu p)
      else if which = ITIMER_PROF then Inr (ps_total_cpu p)
      else Inl InvalidTimer)"

record thread_signals =
  th_pid :: nat
  th_tid :: nat
  th_mask :: signal_set
  th_pending :: signal_set
  th_restore :: "signal_set option"
  th_waiting_for :: "signal_set option"
  th_alt_stack :: alt_stack

definition th_new :: "nat \<Rightarrow> nat \<Rightarrow> signal_set \<Rightarrow> thread_signals" where
  "th_new pid tid inherited = \<lparr>th_pid = pid, th_tid = tid, th_mask = inherited, th_pending = 0,
     th_restore = None, th_waiting_for = None, th_alt_stack = alt_default\<rparr>"

record real_deadline =
  rd_pid :: nat
  rd_generation :: nat

end
