(* ===== verification/Signal_Registry.thy ===== *)
theory Signal_Registry
  imports Signal_State
begin

text \<open>
  The signal registry (\<open>registry.rs\<close>): the life of process and thread signal states, dispositions,
  masks, the generation of signals and their delivery at the safe point of a thread. An operation
  returns its result and the registry it leaves, also when the result is an error; the dispatch in a
  result tells the caller what to do after the registry lock is released.
\<close>

record sig_registry =
  sr_processes :: "(nat, process_signals) omap"
  sr_threads :: "(nat, thread_signals) omap"
  sr_real_deadlines :: "(nat, real_deadline list) omap"

definition sr_new :: sig_registry where
  "sr_new = \<lparr>sr_processes = [], sr_threads = [], sr_real_deadlines = []\<rparr>"

section \<open>Access\<close>

definition put_process :: "nat \<Rightarrow> process_signals \<Rightarrow> sig_registry \<Rightarrow> sig_registry" where
  "put_process pid p s = s\<lparr>sr_processes := om_insert pid p (sr_processes s)\<rparr>"

definition put_thread :: "nat \<Rightarrow> thread_signals \<Rightarrow> sig_registry \<Rightarrow> sig_registry" where
  "put_thread t th s = s\<lparr>sr_threads := om_insert t th (sr_threads s)\<rparr>"

definition sr_thread :: "nat \<Rightarrow> sig_registry \<Rightarrow> (signal_error, thread_signals) result" where
  "sr_thread t s = ok_or NoSuchTask (om_get (sr_threads s) t)"

definition sr_process :: "nat \<Rightarrow> sig_registry \<Rightarrow> (signal_error, process_signals) result" where
  "sr_process pid s = ok_or NoSuchProcess (om_get (sr_processes s) pid)"

text \<open>A change in place through \<open>get_mut\<close>, of an entry the caller knows to exist.\<close>

definition modify_thread :: "nat \<Rightarrow> (thread_signals \<Rightarrow> thread_signals) \<Rightarrow> sig_registry \<Rightarrow> sig_registry" where
  "modify_thread t f s = (case om_get (sr_threads s) t of None \<Rightarrow> s | Some th \<Rightarrow> put_thread t (f th) s)"

definition modify_process :: "nat \<Rightarrow> (process_signals \<Rightarrow> process_signals) \<Rightarrow> sig_registry \<Rightarrow> sig_registry" where
  "modify_process pid f s = (case om_get (sr_processes s) pid of None \<Rightarrow> s | Some p \<Rightarrow> put_process pid (f p) s)"

text \<open>The \<open>?\<close> operator in an operation on the registry: an error leaves the registry as it is.\<close>

definition sig_try :: "(signal_error, 'a) result \<Rightarrow> sig_registry \<Rightarrow>
    ('a \<Rightarrow> (signal_error, 'b) result \<times> sig_registry) \<Rightarrow> (signal_error, 'b) result \<times> sig_registry" where
  "sig_try r s k = (case r of Inl e \<Rightarrow> (Inl e, s) | Inr x \<Rightarrow> k x)"

section \<open>Processes and threads\<close>

definition register_process :: "nat \<Rightarrow> nat \<Rightarrow> nat \<Rightarrow> sig_registry \<Rightarrow> sig_registry" where
  "register_process pid t tid s =
     (let s1 = (if om_get (sr_processes s) pid = None then put_process pid ps_new s else s)
      in if om_get (sr_threads s1) t = None then put_thread t (th_new pid tid 0) s1 else s1)"

definition has_thread :: "nat \<Rightarrow> sig_registry \<Rightarrow> bool" where
  "has_thread t s \<longleftrightarrow> om_get (sr_threads s) t \<noteq> None"

definition sig_fork_process :: "nat \<Rightarrow> nat \<Rightarrow> nat \<Rightarrow> nat \<Rightarrow> sig_registry \<Rightarrow> (signal_error, unit) result \<times> sig_registry" where
  "sig_fork_process parent child_pid child child_tid s =
     sig_try (sr_thread parent s) s (\<lambda>pt.
     sig_try (sr_process (th_pid pt) s) s (\<lambda>pp.
       (Inr (), put_thread child ((th_new child_pid child_tid (th_mask pt))\<lparr>th_alt_stack := th_alt_stack pt\<rparr>)
                  (put_process child_pid (ps_new\<lparr>ps_actions := ps_actions pp\<rparr>) s))))"

definition sig_register_thread :: "nat \<Rightarrow> nat \<Rightarrow> nat \<Rightarrow> sig_registry \<Rightarrow> (signal_error, unit) result \<times> sig_registry" where
  "sig_register_thread parent t tid s =
     sig_try (sr_thread parent s) s (\<lambda>pt. (Inr (), put_thread t (th_new (th_pid pt) tid (th_mask pt)) s))"

definition sig_exec_process :: "nat \<Rightarrow> sig_registry \<Rightarrow> (signal_error, unit) result \<times> sig_registry" where
  "sig_exec_process t s =
     sig_try (sr_thread t s) s (\<lambda>th.
       (let s1 = put_thread t (th\<lparr>th_alt_stack := alt_default\<rparr>) s
        in sig_try (sr_process (th_pid th) s1) s1 (\<lambda>p.
             (Inr (), put_process (th_pid th)
                (p\<lparr>ps_actions := map (\<lambda>a. if has_user_handler a then default_action else a) (ps_actions p),
                   ps_posix_timers := [], ps_next_timer_id := 0\<rparr>) s1))))"

definition drop_thread :: "nat \<Rightarrow> sig_registry \<Rightarrow> sig_registry" where
  "drop_thread t s = s\<lparr>sr_threads := om_remove t (sr_threads s)\<rparr>"

definition drop_thread_and_empty_process :: "nat \<Rightarrow> sig_registry \<Rightarrow> sig_registry" where
  "drop_thread_and_empty_process t s =
     (case om_get (sr_threads s) t of
        None \<Rightarrow> s
      | Some th \<Rightarrow>
          (let s1 = drop_thread t s
           in if list_ex (\<lambda>e. th_pid (snd e) = th_pid th) (sr_threads s1) then s1
              else s1\<lparr>sr_processes := om_remove (th_pid th) (sr_processes s1)\<rparr>))"

definition drop_process :: "nat \<Rightarrow> sig_registry \<Rightarrow> sig_registry" where
  "drop_process pid s =
     s\<lparr>sr_processes := om_remove pid (sr_processes s),
       sr_threads := filter (\<lambda>e. th_pid (snd e) \<noteq> pid) (sr_threads s)\<rparr>"

section \<open>Alternate signal stacks\<close>

definition alternate_stack :: "nat \<Rightarrow> sig_registry \<Rightarrow> (signal_error, alt_stack) result" where
  "alternate_stack t s = res_bind (sr_thread t s) (\<lambda>th. Inr (th_alt_stack th))"

definition replace_alternate_stack :: "nat \<Rightarrow> alt_stack \<Rightarrow> sig_registry \<Rightarrow> (signal_error, alt_stack) result \<times> sig_registry" where
  "replace_alternate_stack t replacement s =
     sig_try (sr_thread t s) s (\<lambda>th.
       if as_active_frames (th_alt_stack th) \<noteq> 0 then (Inl AlternateStackActive, s)
       else (Inr (th_alt_stack th), put_thread t (th\<lparr>th_alt_stack := replacement\<rparr>) s))"

definition enter_signal_frame :: "nat \<Rightarrow> bool \<Rightarrow> sig_registry \<Rightarrow> (signal_error, unit) result \<times> sig_registry" where
  "enter_signal_frame t on_alternate s =
     (if \<not> on_alternate then (Inr (), s)
      else sig_try (sr_thread t s) s (\<lambda>th.
        (let a = th_alt_stack th
         in (Inr (), put_thread t (th\<lparr>th_alt_stack := a\<lparr>as_active_frames := sat_add usize_max (as_active_frames a) 1\<rparr>\<rparr>) s))))"

definition leave_signal_frame :: "nat \<Rightarrow> bool \<Rightarrow> sig_registry \<Rightarrow> (signal_error, unit) result \<times> sig_registry" where
  "leave_signal_frame t on_alternate s =
     (if \<not> on_alternate then (Inr (), s)
      else sig_try (sr_thread t s) s (\<lambda>th.
        (let a = th_alt_stack th
         in (Inr (), put_thread t (th\<lparr>th_alt_stack := a\<lparr>as_active_frames := as_active_frames a - 1\<rparr>\<rparr>) s))))"

section \<open>Dispositions and masks\<close>

definition get_action :: "nat \<Rightarrow> nat \<Rightarrow> sig_registry \<Rightarrow> (signal_error, signal_action) result" where
  "get_action t sig s =
     (if \<not> valid_signal sig then Inl InvalidSignal
      else res_bind (sr_thread t s) (\<lambda>th. res_bind (sr_process (th_pid th) s) (\<lambda>p. Inr (ps_action p sig))))"

definition unmaskable :: "signal_set \<Rightarrow> signal_set" where
  "unmaskable m = ss_remove SIGSTOP (ss_remove SIGKILL m)"

definition set_action :: "nat \<Rightarrow> nat \<Rightarrow> signal_action \<Rightarrow> sig_registry \<Rightarrow> (signal_error, signal_action) result \<times> sig_registry" where
  "set_action t sig action s =
     (if \<not> valid_signal sig \<or> immutable_signal sig then (Inl InvalidSignal, s)
      else sig_try (sr_thread t s) s (\<lambda>th.
        (let pid = th_pid th; action = action\<lparr>sa_mask := unmaskable (sa_mask action)\<rparr>
         in sig_try (sr_process pid s) s (\<lambda>p.
           (let old = ps_action p sig; p1 = ps_set_action sig action p
            in (Inr old,
                if sa_is_ignore action
                then (put_process pid (p1\<lparr>ps_pending := ss_remove sig (ps_pending p1)\<rparr>) s)
                       \<lparr>sr_threads := map (\<lambda>(i, th). (i, if th_pid th = pid
                          then th\<lparr>th_pending := ss_remove sig (th_pending th)\<rparr> else th)) (sr_threads s)\<rparr>
                else put_process pid p1 s))))))"

definition replace_mask :: "nat \<Rightarrow> signal_set \<Rightarrow> sig_registry \<Rightarrow> (signal_error, unit) result \<times> sig_registry" where
  "replace_mask t m s =
     sig_try (sr_thread t s) s (\<lambda>th. (Inr (), put_thread t (th\<lparr>th_mask := unmaskable m\<rparr>) s))"

definition begin_sigsuspend :: "nat \<Rightarrow> signal_set \<Rightarrow> sig_registry \<Rightarrow> (signal_error, unit) result \<times> sig_registry" where
  "begin_sigsuspend t temporary s =
     (let temporary = unmaskable temporary
      in sig_try (sr_thread t s) s (\<lambda>th.
           if th_restore th \<noteq> None then (Inl InvalidHow, s)
           else (Inr (), put_thread t (th\<lparr>th_restore := Some (th_mask th), th_mask := temporary\<rparr>) s)))"

definition end_sigsuspend :: "nat \<Rightarrow> sig_registry \<Rightarrow> (signal_error, unit) result \<times> sig_registry" where
  "end_sigsuspend t s =
     sig_try (sr_thread t s) s (\<lambda>th.
       (case th_restore th of
          None \<Rightarrow> (Inr (), s)
        | Some m \<Rightarrow> (Inr (), put_thread t (th\<lparr>th_restore := None, th_mask := m\<rparr>) s)))"

definition begin_poll_sigmask :: "nat \<Rightarrow> signal_set \<Rightarrow> sig_registry \<Rightarrow> (signal_error, unit) result \<times> sig_registry" where
  "begin_poll_sigmask t temporary s =
     (let temporary = unmaskable temporary
      in sig_try (sr_thread t s) s (\<lambda>th.
           if th_restore th \<noteq> None then (Inl InvalidHow, s)
           else (Inr (), put_thread t (th\<lparr>th_restore := Some (th_mask th), th_mask := temporary\<rparr>) s)))"

definition end_poll_sigmask :: "nat \<Rightarrow> sig_registry \<Rightarrow> (signal_error, unit) result \<times> sig_registry" where
  "end_poll_sigmask t s =
     sig_try (sr_thread t s) s (\<lambda>th.
       (case th_restore th of
          None \<Rightarrow> (Inr (), s)
        | Some m \<Rightarrow> (Inr (), put_thread t (th\<lparr>th_restore := None, th_mask := m\<rparr>) s)))"

definition begin_signal_wait :: "nat \<Rightarrow> signal_set \<Rightarrow> sig_registry \<Rightarrow> (signal_error, unit) result \<times> sig_registry" where
  "begin_signal_wait t wait_set s =
     sig_try (sr_thread t s) s (\<lambda>th. (Inr (), put_thread t (th\<lparr>th_waiting_for := Some wait_set\<rparr>) s))"

definition end_signal_wait :: "nat \<Rightarrow> sig_registry \<Rightarrow> (signal_error, unit) result \<times> sig_registry" where
  "end_signal_wait t s =
     sig_try (sr_thread t s) s (\<lambda>th. (Inr (), put_thread t (th\<lparr>th_waiting_for := None\<rparr>) s))"

definition update_mask :: "nat \<Rightarrow> nat \<Rightarrow> signal_set option \<Rightarrow> sig_registry \<Rightarrow> (signal_error, signal_set) result \<times> sig_registry" where
  "update_mask t how change s =
     sig_try (sr_thread t s) s (\<lambda>th.
       (case change of
          None \<Rightarrow> (Inr (th_mask th), s)
        | Some m \<Rightarrow>
            (let m = unmaskable m;
                 put = (\<lambda>new. (Inr (th_mask th), put_thread t (th\<lparr>th_mask := new\<rparr>) s))
             in if how = SIG_BLOCK then put (ss_union (th_mask th) m)
                else if how = SIG_UNBLOCK then put (ss_difference (th_mask th) m)
                else if how = SIG_SETMASK then put m
                else (Inl InvalidHow, s))))"

section \<open>Generation\<close>

definition generation_delivery :: "nat \<Rightarrow> nat \<Rightarrow> sig_registry \<Rightarrow> (signal_error, signal_delivery) result" where
  "generation_delivery pid sig s =
     (if \<not> valid_signal sig then Inl InvalidSignal
      else if sig = SIGSTOP then Inr StopNow
      else res_bind (sr_process pid s) (\<lambda>p.
        (let action = ps_action p sig
         in if sa_is_ignore action then Inr Ignored
            else if sig = SIGCONT then Inr ContinueNow
            else Inr Pending)))"

definition pending_should_wake :: "nat \<Rightarrow> nat \<Rightarrow> sig_registry \<Rightarrow> bool" where
  "pending_should_wake t sig s =
     (case sr_thread t s of
        Inl e \<Rightarrow> False
      | Inr th \<Rightarrow>
          if (case th_waiting_for th of None \<Rightarrow> False | Some m \<Rightarrow> ss_contains m sig) then True
          else if ss_contains (th_mask th) sig then False
          else (case om_get (sr_processes s) (th_pid th) of
                  None \<Rightarrow> False
                | Some p \<Rightarrow> \<not> (sa_is_default (ps_action p sig) \<and> default_ignored sig)))"

definition send_thread :: "nat \<Rightarrow> nat \<Rightarrow> sig_registry \<Rightarrow> (signal_error, signal_dispatch) result \<times> sig_registry" where
  "send_thread t sig s =
     sig_try (sr_thread t s) s (\<lambda>th.
     sig_try (generation_delivery (th_pid th) sig s) s (\<lambda>delivery.
       (case delivery of
          Ignored \<Rightarrow> (Inr dispatch_ignored, s)
        | ContinueNow \<Rightarrow>
            sig_try (sr_process (th_pid th) s) s (\<lambda>p.
              (Inr (dispatch_continued (Some t)),
               if has_user_handler (ps_action p sig)
               then put_thread t (th\<lparr>th_pending := ss_insert sig (th_pending th)\<rparr>) s else s))
        | StopNow \<Rightarrow> (Inr (dispatch_stop (Some t)), s)
        | Pending \<Rightarrow>
            (let s1 = put_thread t (th\<lparr>th_pending := ss_insert sig (th_pending th)\<rparr>) s
             in (Inr (dispatch_pending (if pending_should_wake t sig s1 then Some t else None)), s1)))))"

definition force_thread_signal :: "nat \<Rightarrow> nat \<Rightarrow> sig_registry \<Rightarrow> (signal_error, signal_dispatch) result \<times> sig_registry" where
  "force_thread_signal t sig s =
     (if \<not> valid_signal sig then (Inl InvalidSignal, s)
      else sig_try (sr_thread t s) s (\<lambda>th.
           sig_try (sr_process (th_pid th) s) s (\<lambda>p.
             (let s1 = (if ss_contains (th_mask th) sig \<or> sa_is_ignore (ps_action p sig)
                        then modify_thread t (\<lambda>th. th\<lparr>th_mask := ss_remove sig (th_mask th)\<rparr>)
                               (put_process (th_pid th) (ps_set_action sig default_action p) s)
                        else s)
              in (Inr (dispatch_pending (Some t)),
                  modify_thread t (\<lambda>th. th\<lparr>th_pending := ss_insert sig (th_pending th), th_waiting_for := None\<rparr>) s1)))))"

text \<open>\<open>min_by_key\<close>: the first entry whose key is least.\<close>

fun min_by_key :: "('a \<Rightarrow> nat) \<Rightarrow> 'a list \<Rightarrow> 'a option" where
  "min_by_key f [] = None"
| "min_by_key f (x # xs) = (case min_by_key f xs of None \<Rightarrow> Some x | Some y \<Rightarrow> if f y < f x then Some y else Some x)"

definition process_target :: "nat \<Rightarrow> nat \<Rightarrow> signal_delivery \<Rightarrow> sig_registry \<Rightarrow> nat option" where
  "process_target pid sig delivery s =
     map_option fst (min_by_key (\<lambda>e. th_tid (snd e))
       (filter (\<lambda>(i, th). th_pid th = pid \<and>
          (delivery = StopNow \<or> delivery = ContinueNow \<or> \<not> ss_contains (th_mask th) sig \<or>
           (case th_waiting_for th of None \<Rightarrow> False | Some m \<Rightarrow> ss_contains m sig))) (sr_threads s)))"

definition send_process :: "nat \<Rightarrow> nat \<Rightarrow> sig_registry \<Rightarrow> (signal_error, signal_dispatch) result \<times> sig_registry" where
  "send_process pid sig s =
     sig_try (generation_delivery pid sig s) s (\<lambda>delivery.
       if delivery = Ignored then (Inr dispatch_ignored, s)
       else
         (let target = process_target pid sig delivery s
          in if delivery = ContinueNow then
               sig_try (sr_process pid s) s (\<lambda>p.
                 (Inr (dispatch_continued target),
                  if has_user_handler (ps_action p sig)
                  then put_process pid (p\<lparr>ps_pending := ss_insert sig (ps_pending p)\<rparr>) s else s))
             else if delivery = StopNow then (Inr (dispatch_stop target), s)
             else sig_try (sr_process pid s) s (\<lambda>p.
               (let s1 = put_process pid (p\<lparr>ps_pending := ss_insert sig (ps_pending p)\<rparr>) s
                in (Inr (dispatch_pending (map_option fst
                      (find (\<lambda>(i, th). th_pid th = pid \<and> pending_should_wake i sig s1) (sr_threads s1)))), s1)))))"

section \<open>Queries and synchronous consumption\<close>

definition sig_pending :: "nat \<Rightarrow> sig_registry \<Rightarrow> (signal_error, signal_set) result" where
  "sig_pending t s = res_bind (sr_thread t s) (\<lambda>th. res_bind (sr_process (th_pid th) s) (\<lambda>p.
     Inr (ss_union (th_pending th) (ps_pending p))))"

definition has_deliverable :: "nat \<Rightarrow> sig_registry \<Rightarrow> (signal_error, bool) result" where
  "has_deliverable t s = res_bind (sr_thread t s) (\<lambda>th. res_bind (sr_process (th_pid th) s) (\<lambda>p.
     Inr (\<not> ss_is_empty (ss_difference (ss_union (th_pending th) (ps_pending p)) (th_mask th)))))"

definition take_sigkill :: "nat \<Rightarrow> sig_registry \<Rightarrow> bool \<times> sig_registry" where
  "take_sigkill t s =
     (case om_get (sr_threads s) t of
        None \<Rightarrow> (False, s)
      | Some th \<Rightarrow>
          (let finish = (\<lambda>s. (True, modify_thread t (\<lambda>th. th\<lparr>th_restore := None, th_waiting_for := None\<rparr>) s))
           in if ss_contains (th_pending th) SIGKILL
              then finish (put_thread t (th\<lparr>th_pending := ss_remove SIGKILL (th_pending th)\<rparr>) s)
              else (case om_get (sr_processes s) (th_pid th) of
                      None \<Rightarrow> (False, s)
                    | Some p \<Rightarrow>
                        if \<not> ss_contains (ps_pending p) SIGKILL then (False, s)
                        else finish (put_process (th_pid th) (p\<lparr>ps_pending := ss_remove SIGKILL (ps_pending p)\<rparr>) s))))"

record taken_signal =
  tk_signal :: nat
  tk_scope :: pending_scope

definition take_pending_record :: "nat \<Rightarrow> signal_set \<Rightarrow> sig_registry \<Rightarrow> taken_signal option \<times> sig_registry" where
  "take_pending_record t wait_set s =
     (case om_get (sr_threads s) t of
        None \<Rightarrow> (None, s)
      | Some th \<Rightarrow>
          (case ss_first_signal (ss_intersection (th_pending th) wait_set) of
             Some sig \<Rightarrow> (Some \<lparr>tk_signal = sig, tk_scope = ThreadScope\<rparr>,
                          put_thread t (th\<lparr>th_pending := ss_remove sig (th_pending th)\<rparr>) s)
           | None \<Rightarrow>
               (case om_get (sr_processes s) (th_pid th) of
                  None \<Rightarrow> (None, s)
                | Some p \<Rightarrow>
                    (case ss_first_signal (ss_intersection (ps_pending p) wait_set) of
                       None \<Rightarrow> (None, s)
                     | Some sig \<Rightarrow> (Some \<lparr>tk_signal = sig, tk_scope = ProcessScope\<rparr>,
                                    put_process (th_pid th) (p\<lparr>ps_pending := ss_remove sig (ps_pending p)\<rparr>) s)))))"

definition take_pending :: "nat \<Rightarrow> signal_set \<Rightarrow> sig_registry \<Rightarrow> nat option \<times> sig_registry" where
  "take_pending t wait_set s = (let (r, s1) = take_pending_record t wait_set s in (map_option tk_signal r, s1))"

definition restore_pending_record :: "nat \<Rightarrow> taken_signal \<Rightarrow> sig_registry \<Rightarrow> (signal_error, unit) result \<times> sig_registry" where
  "restore_pending_record t r s =
     sig_try (sr_thread t s) s (\<lambda>th.
       (case tk_scope r of
          ThreadScope \<Rightarrow> (Inr (), put_thread t (th\<lparr>th_pending := ss_insert (tk_signal r) (th_pending th)\<rparr>) s)
        | ProcessScope \<Rightarrow> sig_try (sr_process (th_pid th) s) s (\<lambda>p.
            (Inr (), put_process (th_pid th) (p\<lparr>ps_pending := ss_insert (tk_signal r) (ps_pending p)\<rparr>) s))))"

section \<open>Delivery\<close>

text \<open>How many signals are pending for a thread: it bounds the recursion of \<open>take_deliverable\<close>.\<close>

definition pending_count :: "nat \<Rightarrow> sig_registry \<Rightarrow> nat" where
  "pending_count t s = (case om_get (sr_threads s) t of None \<Rightarrow> 0 | Some th \<Rightarrow>
     ss_count (th_pending th) +
     (case om_get (sr_processes s) (th_pid th) of None \<Rightarrow> 0 | Some p \<Rightarrow> ss_count (ps_pending p)))"

text \<open>The pending signal \<open>sig\<close> leaves the thread's own set if it is there, otherwise the process's.\<close>

definition remove_pending :: "nat \<Rightarrow> thread_signals \<Rightarrow> nat \<Rightarrow> sig_registry \<Rightarrow> pending_scope \<times> sig_registry" where
  "remove_pending t th sig s =
     (if ss_contains (th_pending th) sig
      then (ThreadScope, modify_thread t (\<lambda>th. th\<lparr>th_pending := ss_remove sig (th_pending th)\<rparr>) s)
      else (ProcessScope, modify_process (th_pid th) (\<lambda>p. p\<lparr>ps_pending := ss_remove sig (ps_pending p)\<rparr>) s))"

lemma om_get_insert_any: "om_get (om_insert k v m) = (om_get m)(k \<mapsto> v)"
proof
  fix j
  have less: "map_of (filter (\<lambda>e. fst e < k) m) j = (if j < k then map_of m j else None)"
    by (induction m) auto
  have more: "map_of (filter (\<lambda>e. k < fst e) m) j = (if k < j then map_of m j else None)"
    by (induction m) auto
  have "om_get (om_insert k v m) j =
      (case map_of ((k, v) # filter (\<lambda>e. k < fst e) m) j of None \<Rightarrow> map_of (filter (\<lambda>e. fst e < k) m) j
       | Some x \<Rightarrow> (case map_of (filter (\<lambda>e. fst e < k) m) j of None \<Rightarrow> Some x | Some y \<Rightarrow> Some y))"
    by (auto simp: om_get_def om_insert_def map_add_def split: option.splits)
  then show "om_get (om_insert k v m) j = ((om_get m)(k \<mapsto> v)) j"
    using less more by (cases "j < k"; cases "k < j") (auto simp: om_get_def split: option.splits)
qed

lemma registry_simps [simp]:
  "om_get (sr_threads (put_thread t th s)) = (om_get (sr_threads s))(t \<mapsto> th)"
  "sr_processes (put_thread t th s) = sr_processes s"
  "sr_real_deadlines (put_thread t th s) = sr_real_deadlines s"
  "om_get (sr_processes (put_process pid p s)) = (om_get (sr_processes s))(pid \<mapsto> p)"
  "sr_threads (put_process pid p s) = sr_threads s"
  "sr_real_deadlines (put_process pid p s) = sr_real_deadlines s"
  by (simp_all add: put_thread_def put_process_def om_get_insert_any)

lemma remove_pending_count:
  assumes "om_get (sr_threads s) t = Some th" "om_get (sr_processes s) (th_pid th) = Some p"
    "ss_contains (ss_union (th_pending th) (ps_pending p)) sig" "remove_pending t th sig s = (sc, s1)"
  shows "pending_count t s1 < pending_count t s"
  using assms ss_count_remove [of "th_pending th" sig] ss_count_remove [of "ps_pending p" sig]
  by (auto simp: remove_pending_def modify_thread_def modify_process_def pending_count_def split: if_splits)

function take_deliverable :: "nat \<Rightarrow> sig_registry \<Rightarrow> signal_effect option \<times> sig_registry" where
  "take_deliverable t s =
     (case om_get (sr_threads s) t of None \<Rightarrow> (None, s) | Some th \<Rightarrow>
     (case om_get (sr_processes s) (th_pid th) of None \<Rightarrow> (None, s) | Some p \<Rightarrow>
     (case ss_first_signal (ss_difference (ss_union (th_pending th) (ps_pending p)) (th_mask th)) of
        None \<Rightarrow> (None, s)
      | Some sig \<Rightarrow>
          (let action = ps_action p sig;
               (scope, s1) = remove_pending t th sig s;
               previous = (case th_restore th of None \<Rightarrow> th_mask th | Some m \<Rightarrow> m)
           in if sig = SIGKILL \<or> sa_is_default action \<and> default_terminates sig then
                (Some (TerminateEffect sig), modify_thread t (\<lambda>th. th\<lparr>th_restore := None, th_waiting_for := None\<rparr>) s1)
              else if sa_is_default action \<and> default_stops sig then
                (Some (StopEffect sig),
                 modify_thread t (\<lambda>th. th\<lparr>th_mask := previous, th_restore := None, th_waiting_for := None\<rparr>) s1)
              else if sig = SIGCONT \<and> \<not> has_user_handler action then
                (Some (ContinueEffect sig),
                 modify_thread t (\<lambda>th. th\<lparr>th_mask := previous, th_restore := None, th_waiting_for := None\<rparr>) s1)
              else if sa_is_ignore action \<or> sa_is_default action then
                (case take_deliverable t s1 of
                   (None, s2) \<Rightarrow> (None, snd (end_sigsuspend t s2))
                 | (Some e, s2) \<Rightarrow> (Some e, s2))
              else
                (let hm = ss_union (th_mask th) (sa_mask action);
                     hm = (if sa_flags action AND SA_NODEFER = 0 then ss_insert sig hm else hm);
                     s2 = modify_thread t (\<lambda>th. th\<lparr>th_mask := hm, th_restore := None, th_waiting_for := None\<rparr>) s1;
                     s3 = (if sa_flags action AND SA_RESETHAND \<noteq> 0
                           then modify_process (th_pid th) (ps_set_action sig default_action) s2 else s2)
                 in (Some (HandlerEffect \<lparr>pg_signal = sig, pg_scope = scope, pg_action = action,
                       pg_previous_mask = previous\<rparr>), s3))))))"
  by pat_completeness auto

termination
  by (relation "measure (\<lambda>(t, s). pending_count t s)")
    (auto intro!: remove_pending_count dest!: sym [of "(_, _)"] simp: ss_first_signal_Some)

declare take_deliverable.simps [simp del]

end
