(* ===== verification/Signal_Timers.thy ===== *)
theory Signal_Timers
  imports Signal_Registry
begin

text \<open>
  The timers of the signal registry (\<open>timer.rs\<close>): interval timers with the deadline index of
  \<open>ITIMER_REAL\<close>, POSIX timers with their overrun counts, CPU time accounting, and the operations of
  the global service (\<open>global.rs\<close>) that combine several registry operations under one lock.
\<close>

section \<open>Interval timers\<close>

definition sr_add_deadline :: "nat \<Rightarrow> real_deadline \<Rightarrow> sig_registry \<Rightarrow> sig_registry" where
  "sr_add_deadline d e s =
     s\<lparr>sr_real_deadlines := om_insert d
        ((case om_get (sr_real_deadlines s) d of None \<Rightarrow> [] | Some es \<Rightarrow> es) @ [e]) (sr_real_deadlines s)\<rparr>"

definition set_timer :: "nat \<Rightarrow> nat \<Rightarrow> timer_spec \<Rightarrow> nat \<Rightarrow> sig_registry \<Rightarrow> (signal_error, timer_spec) result \<times> sig_registry" where
  "set_timer pid which spec monotonic s =
     sig_try (sr_process pid s) s (\<lambda>p.
     sig_try (ps_timer_clock which monotonic p) s (\<lambda>now.
     sig_try (ps_timer which p) s (\<lambda>tm.
       (let tm1 = it_replace spec now tm;
            s1 = put_process pid (ps_put_timer which tm1 p) s
        in (Inr (it_remaining tm now),
            (case it_deadline tm1 of
               None \<Rightarrow> s1
             | Some d \<Rightarrow>
                 if which = ITIMER_REAL
                 then sr_add_deadline d \<lparr>rd_pid = pid, rd_generation = it_generation tm1\<rparr> s1 else s1))))))"

definition get_timer :: "nat \<Rightarrow> nat \<Rightarrow> nat \<Rightarrow> sig_registry \<Rightarrow> (signal_error, timer_spec) result" where
  "get_timer pid which monotonic s =
     res_bind (sr_process pid s) (\<lambda>p.
     res_bind (ps_timer_clock which monotonic p) (\<lambda>now.
     res_bind (ps_timer which p) (\<lambda>tm. Inr (it_remaining tm now))))"

section \<open>POSIX timers\<close>

text \<open>The loop \<open>for _ in 0..=len\<close>: the number of rounds left is the first argument.\<close>

fun find_timer_id :: "nat \<Rightarrow> process_signals \<Rightarrow> nat option \<times> process_signals" where
  "find_timer_id 0 p = (None, p)"
| "find_timer_id (Suc k) p =
     (let i = ps_next_timer_id p;
          p1 = p\<lparr>ps_next_timer_id := ((i + 1) mod 2 ^ 64) AND i32_max\<rparr>
      in if om_get (ps_posix_timers p1) i = None then (Some i, p1) else find_timer_id k p1)"

definition create_posix_timer :: "nat \<Rightarrow> posix_clock \<Rightarrow> nat \<Rightarrow> sig_registry \<Rightarrow> (signal_error, nat) result \<times> sig_registry" where
  "create_posix_timer pid clock signal s =
     (if \<not> valid_signal signal then (Inl InvalidSignal, s)
      else sig_try (sr_process pid s) s (\<lambda>p.
        (case find_timer_id (length (ps_posix_timers p) + 1) p of
           (None, p1) \<Rightarrow> (Inl InvalidTimer, put_process pid p1 s)
         | (Some i, p1) \<Rightarrow>
             (Inr i, put_process pid
                (p1\<lparr>ps_posix_timers := om_insert i (pt_new clock signal) (ps_posix_timers p1)\<rparr>) s))))"

definition posix_timer_of :: "nat \<Rightarrow> nat \<Rightarrow> sig_registry \<Rightarrow> (signal_error, process_signals \<times> posix_timer) result" where
  "posix_timer_of pid i s =
     res_bind (sr_process pid s) (\<lambda>p.
     res_bind (ok_or NoSuchTimer (om_get (ps_posix_timers p) i)) (\<lambda>tm. Inr (p, tm)))"

definition set_posix_timer :: "nat \<Rightarrow> nat \<Rightarrow> timer_spec \<Rightarrow> nat \<Rightarrow> nat \<Rightarrow> bool \<Rightarrow> sig_registry \<Rightarrow>
    (signal_error, timer_spec) result \<times> sig_registry" where
  "set_posix_timer pid i spec monotonic realtime absolute s =
     sig_try (posix_timer_of pid i s) s (\<lambda>(p, tm).
       (let now = pt_now monotonic realtime tm;
            deadline = (if ts_value spec = 0 then None
                        else if absolute then Some (ts_value spec)
                        else Some (sat_add u128_max now (ts_value spec)));
            tm1 = tm\<lparr>pt_interval := ts_interval spec, pt_deadline := deadline, pt_overrun := 0\<rparr>
        in (Inr (pt_remaining monotonic realtime tm),
            put_process pid (p\<lparr>ps_posix_timers := om_insert i tm1 (ps_posix_timers p)\<rparr>) s)))"

definition get_posix_timer :: "nat \<Rightarrow> nat \<Rightarrow> nat \<Rightarrow> nat \<Rightarrow> sig_registry \<Rightarrow> (signal_error, timer_spec) result" where
  "get_posix_timer pid i monotonic realtime s =
     res_bind (posix_timer_of pid i s) (\<lambda>(p, tm). Inr (pt_remaining monotonic realtime tm))"

definition get_posix_timer_overrun :: "nat \<Rightarrow> nat \<Rightarrow> sig_registry \<Rightarrow> (signal_error, nat) result" where
  "get_posix_timer_overrun pid i s = res_bind (posix_timer_of pid i s) (\<lambda>(p, tm). Inr (pt_overrun tm))"

definition delete_posix_timer :: "nat \<Rightarrow> nat \<Rightarrow> sig_registry \<Rightarrow> (signal_error, unit) result \<times> sig_registry" where
  "delete_posix_timer pid i s =
     sig_try (posix_timer_of pid i s) s (\<lambda>(p, tm).
       (Inr (), put_process pid (p\<lparr>ps_posix_timers := om_remove i (ps_posix_timers p)\<rparr>) s))"

section \<open>Expiry\<close>

definition pt_expire :: "nat \<Rightarrow> nat \<Rightarrow> posix_timer \<Rightarrow> bool \<times> posix_timer" where
  "pt_expire monotonic realtime tm =
     (case pt_deadline tm of
        None \<Rightarrow> (False, tm)
      | Some d \<Rightarrow>
          (let now = pt_now monotonic realtime tm
           in if now < d then (False, tm)
              else
                (let (deadline, expirations) =
                       (if pt_interval tm = 0 then (None, 1)
                        else (let n = (now - d) div pt_interval tm + 1
                              in (Some (sat_add u128_max d (sat_mul u128_max n (pt_interval tm))), n)))
                 in (True, tm\<lparr>pt_deadline := deadline,
                       pt_overrun := (if expirations - 1 \<le> i32_max then expirations - 1 else i32_max)\<rparr>))))"

definition expire_timers_of :: "nat \<Rightarrow> nat \<Rightarrow> process_signals \<Rightarrow> nat list \<times> process_signals" where
  "expire_timers_of monotonic realtime p =
     (map (\<lambda>(i, tm). pt_signal tm) (filter (\<lambda>(i, tm). fst (pt_expire monotonic realtime tm)) (ps_posix_timers p)),
      p\<lparr>ps_posix_timers := map (\<lambda>(i, tm). (i, snd (pt_expire monotonic realtime tm))) (ps_posix_timers p)\<rparr>)"

text \<open>Sending to each process in turn; a dispatch is kept where sending succeeds.\<close>

fun send_each :: "(nat \<times> nat) list \<Rightarrow> sig_registry \<Rightarrow> (signal_dispatch \<times> nat) list \<times> sig_registry" where
  "send_each [] s = ([], s)"
| "send_each ((pid, sig) # rest) s =
     (let (r, s1) = send_process pid sig s; (ds, s2) = send_each rest s1
      in ((case r of Inl e \<Rightarrow> ds | Inr d \<Rightarrow> (d, sig) # ds), s2))"

definition expire_posix_timers :: "nat \<Rightarrow> nat \<Rightarrow> sig_registry \<Rightarrow> (signal_dispatch \<times> nat) list \<times> sig_registry" where
  "expire_posix_timers monotonic realtime s =
     (let expired = concat (map (\<lambda>(pid, p). map (\<lambda>sig. (pid, sig)) (fst (expire_timers_of monotonic realtime p)))
                              (sr_processes s));
          s1 = s\<lparr>sr_processes := map (\<lambda>(pid, p). (pid, snd (expire_timers_of monotonic realtime p))) (sr_processes s)\<rparr>
      in send_each expired s1)"

definition account_cpu :: "nat \<Rightarrow> nat \<Rightarrow> nat \<Rightarrow> sig_registry \<Rightarrow>
    (signal_error, (signal_dispatch \<times> nat) list) result \<times> sig_registry" where
  "account_cpu pid user_delta total_delta s =
     sig_try (sr_process pid s) s (\<lambda>p.
       (let user_cpu = sat_add u128_max (ps_user_cpu p) user_delta;
            total_cpu = sat_add u128_max (ps_total_cpu p) total_delta;
            (virtual_expired, virtual) = it_expire user_cpu (ps_virtual p);
            (prof_expired, prof) = it_expire total_cpu (ps_prof p);
            s1 = put_process pid (p\<lparr>ps_user_cpu := user_cpu, ps_total_cpu := total_cpu,
                   ps_virtual := virtual, ps_prof := prof\<rparr>) s;
            (r1, s2) = (if virtual_expired then
                          (let (r, s2) = send_process pid SIGVTALRM s1 in (res_bind r (\<lambda>d. Inr [(d, SIGVTALRM)]), s2))
                        else (Inr [], s1))
        in sig_try r1 s2 (\<lambda>ds.
             if prof_expired then
               (let (r, s3) = send_process pid SIGPROF s2 in (res_bind r (\<lambda>d. Inr (ds @ [(d, SIGPROF)])), s3))
             else (Inr ds, s2))))"

text \<open>One entry of the bucket of \<open>deadline\<close>: a stale one is skipped.\<close>

definition expire_entry :: "nat \<Rightarrow> nat \<Rightarrow> real_deadline \<Rightarrow> sig_registry \<Rightarrow> signal_dispatch list \<times> sig_registry" where
  "expire_entry monotonic deadline e s =
     (case om_get (sr_processes s) (rd_pid e) of
        None \<Rightarrow> ([], s)
      | Some p \<Rightarrow>
          if it_generation (ps_real p) \<noteq> rd_generation e \<or> it_deadline (ps_real p) \<noteq> Some deadline then ([], s)
          else
            (let (fired, tm) = it_expire monotonic (ps_real p);
                 s1 = put_process (rd_pid e) (p\<lparr>ps_real := tm\<rparr>) s
             in if \<not> fired then ([], s1)
                else
                  (let s2 = (case it_deadline tm of
                               None \<Rightarrow> s1
                             | Some d \<Rightarrow> sr_add_deadline d \<lparr>rd_pid = rd_pid e, rd_generation = it_generation tm\<rparr> s1);
                       (r, s3) = send_process (rd_pid e) SIGALRM s2
                   in ((case r of Inl err \<Rightarrow> [] | Inr d \<Rightarrow> [d]), s3))))"

fun expire_entries :: "nat \<Rightarrow> nat \<Rightarrow> real_deadline list \<Rightarrow> sig_registry \<Rightarrow> signal_dispatch list \<times> sig_registry" where
  "expire_entries monotonic deadline [] s = ([], s)"
| "expire_entries monotonic deadline (e # es) s =
     (let (ds, s1) = expire_entry monotonic deadline e s; (ds', s2) = expire_entries monotonic deadline es s1
      in (ds @ ds', s2))"

fun expire_buckets :: "nat \<Rightarrow> nat list \<Rightarrow> sig_registry \<Rightarrow> signal_dispatch list \<times> sig_registry" where
  "expire_buckets monotonic [] s = ([], s)"
| "expire_buckets monotonic (d # ds) s =
     (let entries = (case om_get (sr_real_deadlines s) d of None \<Rightarrow> [] | Some es \<Rightarrow> es);
          s1 = s\<lparr>sr_real_deadlines := om_remove d (sr_real_deadlines s)\<rparr>;
          (out, s2) = expire_entries monotonic d entries s1;
          (out', s3) = expire_buckets monotonic ds s2
      in (out @ out', s3))"

definition expire_realtime :: "nat \<Rightarrow> sig_registry \<Rightarrow> signal_dispatch list \<times> sig_registry" where
  "expire_realtime monotonic s =
     expire_buckets monotonic (map fst (filter (\<lambda>e. fst e \<le> monotonic) (sr_real_deadlines s))) s"

section \<open>Combined operations of the global service\<close>

fun register_missing :: "nat \<Rightarrow> (nat \<times> nat) list \<Rightarrow> sig_registry \<Rightarrow> (signal_error, unit) result \<times> sig_registry" where
  "register_missing leader [] s = (Inr (), s)"
| "register_missing leader ((t, tid) # rest) s =
     (if t \<noteq> leader \<and> \<not> has_thread t s
      then (case sig_register_thread leader t tid s of
              (Inl e, s1) \<Rightarrow> (Inl e, s1)
            | (Inr u, s1) \<Rightarrow> register_missing leader rest s1)
      else register_missing leader rest s)"

definition ensure_process :: "nat \<Rightarrow> nat \<Rightarrow> nat \<Rightarrow> (nat \<times> nat) list \<Rightarrow> sig_registry \<Rightarrow> (signal_error, unit) result \<times> sig_registry" where
  "ensure_process pid leader leader_tid threads s =
     register_missing leader threads (register_process pid leader leader_tid s)"

definition exec_process_removing :: "nat \<Rightarrow> nat list \<Rightarrow> sig_registry \<Rightarrow> (signal_error, unit) result \<times> sig_registry" where
  "exec_process_removing t removed s = sig_exec_process t (fold drop_thread removed s)"

definition exit_thread :: "nat \<Rightarrow> nat \<Rightarrow> bool \<Rightarrow> sig_registry \<Rightarrow> sig_registry" where
  "exit_thread t pid last_thread s =
     (let s1 = drop_thread t s in if last_thread then drop_process pid s1 else s1)"

definition pending_in :: "nat \<Rightarrow> signal_set \<Rightarrow> sig_registry \<Rightarrow> (signal_error, bool) result" where
  "pending_in t m s = res_bind (sig_pending t s) (\<lambda>p. Inr (\<not> ss_is_empty (ss_intersection p m)))"

definition return_from_frame :: "nat \<Rightarrow> signal_set \<Rightarrow> nat \<Rightarrow> sig_registry \<Rightarrow> (signal_error, unit) result \<times> sig_registry" where
  "return_from_frame t restored frame_sp s =
     sig_try (alternate_stack t s) s (\<lambda>a.
       (case replace_mask t restored s of
          (Inl e, s1) \<Rightarrow> (Inl e, s1)
        | (Inr u, s1) \<Rightarrow> leave_signal_frame t (alt_contains a frame_sp) s1))"

end
