(* ===== verification/Signal_Inv.thy ===== *)
theory Signal_Inv
  imports Signal_Timers
begin

text \<open>
  What the signal registry keeps: the tables are ordered, every thread belongs to a registered
  process, \<open>SIGKILL\<close> and \<open>SIGSTOP\<close> are never blocked and keep their default disposition, \<open>SIGSTOP\<close> is
  never pending, and the deadline index knows every armed real timer.
\<close>

section \<open>The invariant\<close>

definition blockable :: "signal_set \<Rightarrow> bool" where
  "blockable m \<longleftrightarrow> \<not> ss_contains m SIGKILL \<and> \<not> ss_contains m SIGSTOP"

definition timer_armed_ok :: "interval_timer \<Rightarrow> bool" where
  "timer_armed_ok tm \<longleftrightarrow> (\<forall>d. it_deadline tm = Some d \<longrightarrow> 0 < d \<and> d \<le> u128_max)"

definition process_ok :: "process_signals \<Rightarrow> bool" where
  "process_ok p \<longleftrightarrow> length (ps_actions p) = NSIG \<and> (\<forall>a \<in> set (ps_actions p). blockable (sa_mask a)) \<and>
     sa_is_default (ps_action p SIGKILL) \<and> sa_is_default (ps_action p SIGSTOP) \<and> \<not> ss_contains (ps_pending p) SIGSTOP \<and>
     timer_armed_ok (ps_real p) \<and> timer_armed_ok (ps_virtual p) \<and> timer_armed_ok (ps_prof p) \<and>
     om_ok (ps_posix_timers p) \<and> (\<forall>i tm. om_get (ps_posix_timers p) i = Some tm \<longrightarrow> i \<le> i32_max \<and> valid_signal (pt_signal tm)) \<and>
     ps_next_timer_id p \<le> i32_max"

definition thread_ok :: "thread_signals \<Rightarrow> bool" where
  "thread_ok th \<longleftrightarrow> blockable (th_mask th) \<and> (\<forall>m. th_restore th = Some m \<longrightarrow> blockable m) \<and>
     \<not> ss_contains (th_pending th) SIGSTOP"

text \<open>
  An armed real timer of process \<open>pid\<close> is in the index, or among the entries \<open>es\<close> of the bucket \<open>d\<close>
  that the expiry has taken out and not yet visited.
\<close>

definition listed :: "nat \<Rightarrow> real_deadline list \<Rightarrow> sig_registry \<Rightarrow> nat \<Rightarrow> interval_timer \<Rightarrow> bool" where
  "listed d es s pid tm \<longleftrightarrow> (\<forall>x. it_deadline tm = Some x \<longrightarrow>
     (let e = \<lparr>rd_pid = pid, rd_generation = it_generation tm\<rparr>
      in (\<exists>l. om_get (sr_real_deadlines s) x = Some l \<and> e \<in> set l) \<or> x = d \<and> e \<in> set es))"

definition sig_inv_at :: "nat \<Rightarrow> real_deadline list \<Rightarrow> sig_registry \<Rightarrow> bool" where
  "sig_inv_at d es s \<longleftrightarrow> om_ok (sr_processes s) \<and> om_ok (sr_threads s) \<and> om_ok (sr_real_deadlines s) \<and>
     (\<forall>pid p. om_get (sr_processes s) pid = Some p \<longrightarrow> process_ok p \<and> listed d es s pid (ps_real p)) \<and>
     (\<forall>t th. om_get (sr_threads s) t = Some th \<longrightarrow> thread_ok th \<and> om_get (sr_processes s) (th_pid th) \<noteq> None)"

abbreviation sig_inv :: "sig_registry \<Rightarrow> bool" where
  "sig_inv s \<equiv> sig_inv_at 0 [] s"

lemma sig_invD:
  assumes "sig_inv_at d es s"
  shows "om_ok (sr_processes s)" "om_ok (sr_threads s)" "om_ok (sr_real_deadlines s)"
    "om_get (sr_processes s) pid = Some p \<Longrightarrow> process_ok p"
    "om_get (sr_processes s) pid = Some p \<Longrightarrow> listed d es s pid (ps_real p)"
    "om_get (sr_threads s) t = Some th \<Longrightarrow> thread_ok th"
    "om_get (sr_threads s) t = Some th \<Longrightarrow> \<exists>p. om_get (sr_processes s) (th_pid th) = Some p"
  using assms by (auto simp: sig_inv_at_def)

lemma blockable_simps [simp]:
  "blockable 0" "blockable (unmaskable m)" "blockable (ss_union a b) \<longleftrightarrow> blockable a \<and> blockable b"
  "blockable a \<Longrightarrow> blockable (ss_difference a b)" "blockable a \<Longrightarrow> blockable (ss_remove i a)"
  "i \<noteq> SIGKILL \<Longrightarrow> i \<noteq> SIGSTOP \<Longrightarrow> blockable a \<Longrightarrow> blockable (ss_insert i a)"
  by (auto simp: blockable_def unmaskable_def)

lemma signals_distinct [simp]:
  "SIGKILL \<noteq> SIGSTOP" "SIGSTOP \<noteq> SIGKILL" "SIGCONT \<noteq> SIGSTOP" "SIGCONT \<noteq> SIGKILL" "valid_signal SIGKILL"
  "valid_signal SIGSTOP" "valid_signal SIGALRM" "valid_signal SIGVTALRM" "valid_signal SIGPROF" "valid_signal SIGCONT"
  "SIGALRM \<noteq> SIGSTOP" "SIGVTALRM \<noteq> SIGSTOP" "SIGPROF \<noteq> SIGSTOP" "SIGALRM \<noteq> SIGCONT"
  by (simp_all add: signal_numbers valid_signal_def)

section \<open>Tables\<close>

lemma om_insert_same: "om_ok m \<Longrightarrow> om_get m k = Some v \<Longrightarrow> om_insert k v m = m"
proof -
  assume ok: "om_ok m" and g: "om_get m k = Some v"
  then have "(k, v) \<in> set m" by (simp add: om_get_iff)
  then obtain xs ys where m: "m = xs @ (k, v) # ys" by (meson split_list)
  have "\<forall>e \<in> set xs. fst e < k" "\<forall>e \<in> set ys. k < fst e"
    using ok m by (auto simp: om_ok_append om_ok_Cons)
  then have "filter (\<lambda>e. fst e < k) xs = xs" "filter (\<lambda>e. fst e < k) ys = []" "filter (\<lambda>e. k < fst e) xs = []"
    "filter (\<lambda>e. k < fst e) ys = ys"
    by (auto simp: filter_id_conv filter_empty_conv dest: less_asym)
  then show ?thesis by (simp add: om_insert_def m)
qed

lemma om_insert_insert: "om_insert k v (om_insert k w m) = om_insert k v m"
proof -
  have *: "filter (\<lambda>e. fst e < k) (filter (\<lambda>e. k < fst e) m) = []" "filter (\<lambda>e. k < fst e) (filter (\<lambda>e. fst e < k) m) = []"
    by (auto simp: filter_empty_conv)
  show ?thesis using * by (simp add: om_insert_def)
qed

lemma map_of_values: "map_of (map (\<lambda>(i, x). (i, f i x)) m) k = map_option (f k) (map_of m k)"
  by (induction m) auto

lemma om_get_values: "om_get (map (\<lambda>(i, x). (i, f i x)) m) k = map_option (f k) (om_get m k)"
  by (simp add: om_get_def map_of_values)

lemma om_ok_values: "om_ok (map (\<lambda>(i, x). (i, f i x)) m) \<longleftrightarrow> om_ok m"
proof -
  have "map fst (map (\<lambda>(i, x). (i, f i x)) m) = map fst m" by (induction m) auto
  then show ?thesis by (simp only: om_ok_def)
qed

lemma om_get_filter:
  assumes ok: "om_ok m"
  shows "om_get (filter (\<lambda>e. P (snd e)) m) k = Some v \<longleftrightarrow> om_get m k = Some v \<and> P v"
  using om_get_iff [OF om_ok_filter [OF ok]] om_get_iff [OF ok] by auto

lemma put_thread_same: "om_ok (sr_threads s) \<Longrightarrow> om_get (sr_threads s) t = Some th \<Longrightarrow> put_thread t th s = s"
  by (simp add: put_thread_def om_insert_same)

lemma put_process_same: "om_ok (sr_processes s) \<Longrightarrow> om_get (sr_processes s) pid = Some p \<Longrightarrow> put_process pid p s = s"
  by (simp add: put_process_def om_insert_same)

lemma put_put [simp]:
  "put_thread t a (put_thread t b s) = put_thread t a s"
  "put_process pid p (put_process pid q s) = put_process pid p s"
  "put_process pid p (put_thread t a s) = put_thread t a (put_process pid p s)"
  by (simp_all add: put_thread_def put_process_def om_insert_insert)

lemma put_ok [simp]:
  "om_ok (sr_threads s) \<Longrightarrow> om_ok (sr_threads (put_thread t a s))"
  "om_ok (sr_processes s) \<Longrightarrow> om_ok (sr_processes (put_process pid p s))"
  by (simp_all add: put_thread_def put_process_def om_ok_insert)

section \<open>Changes that keep the invariant\<close>

lemma listed_cong: "sr_real_deadlines s' = sr_real_deadlines s \<Longrightarrow> listed d es s' pid tm \<longleftrightarrow> listed d es s pid tm"
  by (simp add: listed_def)

lemma put_thread_inv:
  assumes "sig_inv_at d es s" "thread_ok th" "om_get (sr_processes s) (th_pid th) = Some p"
  shows "sig_inv_at d es (put_thread t th s)"
  using assms by (auto simp: sig_inv_at_def listed_cong [of "put_thread t th s" s])

lemma put_process_inv:
  assumes "sig_inv_at d es s" "process_ok p" "listed d es s pid (ps_real p)"
  shows "sig_inv_at d es (put_process pid p s)"
  using assms by (auto simp: sig_inv_at_def listed_cong [of "put_process pid p s" s])

text \<open>A change of an entry that is there, keeping what the invariant reads of it.\<close>

lemma update_thread_inv:
  assumes "sig_inv_at d es s" "om_get (sr_threads s) t = Some th0" "thread_ok th" "th_pid th = th_pid th0"
  shows "sig_inv_at d es (put_thread t th s)"
proof -
  obtain p where "om_get (sr_processes s) (th_pid th) = Some p" using sig_invD(7) [OF assms(1,2)] assms(4) by auto
  then show ?thesis by (rule put_thread_inv [OF assms(1,3)])
qed

lemma update_process_inv:
  assumes "sig_inv_at d es s" "om_get (sr_processes s) pid = Some p0" "process_ok p" "ps_real p = ps_real p0"
  shows "sig_inv_at d es (put_process pid p s)"
  using put_process_inv [OF assms(1,3)] sig_invD(5) [OF assms(1,2)] assms(4) by simp

lemma modify_thread_inv:
  assumes "sig_inv_at d es s" "\<And>th. thread_ok th \<Longrightarrow> thread_ok (f th) \<and> th_pid (f th) = th_pid th"
  shows "sig_inv_at d es (modify_thread t f s)"
  using update_thread_inv [OF assms(1)] sig_invD(6) [OF assms(1)] assms(2)
  by (auto simp: modify_thread_def assms(1) split: option.splits)

lemma modify_process_inv:
  assumes "sig_inv_at d es s" "\<And>p. process_ok p \<Longrightarrow> process_ok (f p) \<and> ps_real (f p) = ps_real p"
  shows "sig_inv_at d es (modify_process pid f s)"
  using update_process_inv [OF assms(1)] sig_invD(4) [OF assms(1)] assms(2)
  by (auto simp: modify_process_def assms(1) split: option.splits)

lemma thread_ok_new [simp]: "blockable m \<Longrightarrow> thread_ok (th_new pid tid m)"
  by (simp add: thread_ok_def th_new_def)

lemma thread_ok_fields:
  "thread_ok th \<Longrightarrow> thread_ok (th\<lparr>th_alt_stack := a\<rparr>)"
  "thread_ok th \<Longrightarrow> thread_ok (th\<lparr>th_waiting_for := w\<rparr>)"
  "thread_ok th \<Longrightarrow> thread_ok (th\<lparr>th_restore := None\<rparr>)"
  "thread_ok th \<Longrightarrow> blockable m \<Longrightarrow> thread_ok (th\<lparr>th_mask := m\<rparr>)"
  "thread_ok th \<Longrightarrow> sig \<noteq> SIGSTOP \<Longrightarrow> thread_ok (th\<lparr>th_pending := ss_insert sig (th_pending th)\<rparr>)"
  "thread_ok th \<Longrightarrow> thread_ok (th\<lparr>th_pending := ss_remove sig (th_pending th)\<rparr>)"
  by (auto simp: thread_ok_def)

lemma process_ok_new [simp]: "process_ok ps_new"
  by (simp add: process_ok_def ps_new_def ps_action_def timer_armed_ok_def it_new_def signal_numbers om_get_def)

lemma process_ok_pending:
  "process_ok p \<Longrightarrow> sig \<noteq> SIGSTOP \<Longrightarrow> process_ok (p\<lparr>ps_pending := ss_insert sig (ps_pending p)\<rparr>)"
  "process_ok p \<Longrightarrow> process_ok (p\<lparr>ps_pending := ss_remove sig (ps_pending p)\<rparr>)"
  by (auto simp: process_ok_def ps_action_def)

lemma process_ok_action:
  assumes "process_ok p" "valid_signal sig" "blockable (sa_mask a)" "immutable_signal sig \<longrightarrow> sa_is_default a"
  shows "process_ok (ps_set_action sig a p)"
proof -
  have l: "length (ps_actions p) = 64" using assms(1) by (simp add: process_ok_def NSIG_def)
  have other: "ps_action (ps_set_action sig a p) i = (if i = sig then a else ps_action p i)"
    if "valid_signal i" for i
  proof -
    have "i - 1 = sig - 1 \<longleftrightarrow> i = sig" "sig - 1 < 64"
      using that assms(2) by (auto simp: valid_signal_def NSIG_def)
    then show ?thesis using l by (auto simp: ps_action_def ps_set_action_def nth_list_update)
  qed
  have "set (ps_actions (ps_set_action sig a p)) \<subseteq> insert a (set (ps_actions p))"
    by (simp add: ps_set_action_def set_update_subset_insert)
  then show ?thesis
    using assms other [of SIGKILL] other [of SIGSTOP] l
    by (auto simp: process_ok_def immutable_signal_def ps_set_action_def NSIG_def)
qed

lemma process_ok_mask:
  assumes "process_ok p" "valid_signal sig"
  shows "blockable (sa_mask (ps_action p sig))"
proof -
  have "ps_action p sig \<in> set (ps_actions p)"
    using assms by (auto simp: ps_action_def process_ok_def valid_signal_def NSIG_def intro!: nth_mem)
  then show ?thesis using assms(1) by (simp add: process_ok_def)
qed

lemma ps_set_action_real [simp]: "ps_real (ps_set_action sig a p) = ps_real p" "ps_pending (ps_set_action sig a p) = ps_pending p"
  by (simp_all add: ps_set_action_def)

lemma sig_try_cases: "P (Inl e, s) \<Longrightarrow> r = Inl e \<Longrightarrow> P (sig_try r s k)" "r = Inr x \<Longrightarrow> P (k x) \<Longrightarrow> P (sig_try r s k)"
  by (simp_all add: sig_try_def)

lemma sig_try_simps [simp]: "sig_try (Inl e) s k = (Inl e, s)" "sig_try (Inr x) s k = k x"
  by (simp_all add: sig_try_def)

lemma sig_try_thread: "sig_try (sr_thread t s) s k =
    (case om_get (sr_threads s) t of None \<Rightarrow> (Inl NoSuchTask, s) | Some th \<Rightarrow> k th)"
  by (simp add: sr_thread_def split: option.splits)

lemma sig_try_process: "sig_try (sr_process pid s) s k =
    (case om_get (sr_processes s) pid of None \<Rightarrow> (Inl NoSuchProcess, s) | Some p \<Rightarrow> k p)"
  by (simp add: sr_process_def split: option.splits)

end
