(* ===== verification/Signal_Keeps.thy ===== *)
theory Signal_Keeps
  imports Signal_Inv
begin

text \<open>
  Every operation of the signal registry keeps its invariant, one lemma per group of operations.
\<close>

section \<open>Processes and threads\<close>

lemma th_new_pid: "th_pid (th_new pid tid m) = pid"
  by (simp add: th_new_def)

lemma register_process_inv: "sig_inv s \<Longrightarrow> sig_inv (register_process pid t tid s)"
proof -
  assume inv: "sig_inv s"
  define s1 where "s1 = (if om_get (sr_processes s) pid = None then put_process pid ps_new s else s)"
  have "sig_inv s1" "\<exists>p. om_get (sr_processes s1) pid = Some p"
    using put_process_inv [OF inv process_ok_new] inv
    by (auto simp: s1_def listed_def ps_new_def it_new_def)
  then show ?thesis
    using put_thread_inv [of 0 "[]" s1 "th_new pid tid 0"]
    by (auto simp: register_process_def s1_def [symmetric] Let_def th_new_pid)
qed

lemma fork_inv: "sig_inv s \<Longrightarrow> sig_inv (snd (sig_fork_process parent pid t tid s))"
proof -
  assume inv: "sig_inv s"
  have "process_ok (ps_new\<lparr>ps_actions := ps_actions p\<rparr>)" if "process_ok p" for p
    using that by (auto simp: process_ok_def ps_new_def ps_action_def timer_armed_ok_def it_new_def om_get_def)
  then have *: "sig_inv (put_process pid (ps_new\<lparr>ps_actions := ps_actions p\<rparr>) s)"
    if "om_get (sr_processes s) i = Some p" for i p
    using put_process_inv [OF inv] sig_invD(4) [OF inv that]
    by (auto simp: listed_def ps_new_def it_new_def)
  show ?thesis
    using put_thread_inv [OF *] sig_invD(6) [OF inv] inv
    by (auto simp: sig_fork_process_def sig_try_thread sig_try_process thread_ok_def th_new_def simp del: put_put
        split: option.splits)
qed

lemma register_thread_inv:
  assumes inv: "sig_inv s"
  shows "sig_inv (snd (sig_register_thread parent t tid s))"
proof (cases "om_get (sr_threads s) parent")
  case (Some th)
  obtain p where "om_get (sr_processes s) (th_pid th) = Some p" using sig_invD(7) [OF inv Some] by blast
  then show ?thesis
    using put_thread_inv [OF inv, of "th_new (th_pid th) tid (th_mask th)"] sig_invD(6) [OF inv Some] Some
    by (simp add: sig_register_thread_def sig_try_thread th_new_pid thread_ok_def [of th])
qed (simp add: sig_register_thread_def sig_try_thread inv)

lemma drop_thread_inv: "sig_inv s \<Longrightarrow> sig_inv (drop_thread t s)"
  by (auto simp: sig_inv_at_def drop_thread_def om_ok_remove om_get_remove listed_def split: if_splits)

lemma fold_drop_inv: "sig_inv s \<Longrightarrow> sig_inv (fold drop_thread ts s)"
  by (induction ts arbitrary: s) (simp_all add: drop_thread_inv)

lemma drop_process_inv: "sig_inv s \<Longrightarrow> sig_inv (drop_process pid s)"
proof -
  assume inv: "sig_inv s"
  have "om_get (filter (\<lambda>e. th_pid (snd e) \<noteq> pid) (sr_threads s)) t = Some th \<longleftrightarrow>
      om_get (sr_threads s) t = Some th \<and> th_pid th \<noteq> pid" for t th
    using om_get_filter [of "sr_threads s" "\<lambda>th. th_pid th \<noteq> pid"] sig_invD(2) [OF inv] by blast
  then show ?thesis
    using inv by (auto simp: sig_inv_at_def drop_process_def om_ok_remove om_get_remove om_ok_filter listed_def)
qed

lemma drop_empty_inv: "sig_inv s \<Longrightarrow> sig_inv (drop_thread_and_empty_process t s)"
proof (cases "om_get (sr_threads s) t")
  case (Some th)
  assume "sig_inv s"
  then have inv: "sig_inv (drop_thread t s)" by (rule drop_thread_inv)
  show ?thesis
  proof (cases "list_ex (\<lambda>e. th_pid (snd e) = th_pid th) (sr_threads (drop_thread t s))")
    case False
    have "th_pid th' \<noteq> th_pid th" if "om_get (sr_threads (drop_thread t s)) i = Some th'" for i th'
      using False that om_get_iff [OF sig_invD(2) [OF inv], of i] by (auto simp: list_ex_iff)
    then have "sig_inv ((drop_thread t s)\<lparr>sr_processes := om_remove (th_pid th) (sr_processes (drop_thread t s))\<rparr>)"
      using inv by (auto simp: sig_inv_at_def om_ok_remove om_get_remove listed_def)
    then show ?thesis using Some False by (simp add: drop_thread_and_empty_process_def Let_def)
  qed (use Some inv in \<open>simp add: drop_thread_and_empty_process_def Let_def\<close>)
qed (simp add: drop_thread_and_empty_process_def)

lemma exec_actions_ok:
  assumes "process_ok p"
  shows "process_ok (p\<lparr>ps_actions := map (\<lambda>a. if has_user_handler a then default_action else a) (ps_actions p),
    ps_posix_timers := [], ps_next_timer_id := 0\<rparr>)"
proof -
  have "SIGKILL - 1 < length (ps_actions p)" "SIGSTOP - 1 < length (ps_actions p)"
    using assms by (auto simp: process_ok_def signal_numbers)
  then show ?thesis using assms by (auto simp: process_ok_def ps_action_def om_get_def)
qed

lemma exec_inv: "sig_inv s \<Longrightarrow> sig_inv (snd (sig_exec_process t s))"
proof (cases "om_get (sr_threads s) t")
  case (Some th)
  assume inv: "sig_inv s"
  have 1: "sig_inv (put_thread t (th\<lparr>th_alt_stack := alt_default\<rparr>) s)"
    using update_thread_inv [OF inv Some] sig_invD(6) [OF inv Some] by (simp add: thread_ok_fields)
  obtain p where p: "om_get (sr_processes s) (th_pid th) = Some p" using sig_invD(7) [OF inv Some] by blast
  show ?thesis
    using update_process_inv [OF 1 _ exec_actions_ok [OF sig_invD(4) [OF inv p]], of "th_pid th" p] Some p
    by (simp add: sig_exec_process_def sig_try_thread sig_try_process Let_def del: put_put)
qed (simp add: sig_exec_process_def sig_try_thread)

lemma register_missing_inv: "sig_inv s \<Longrightarrow> sig_inv (snd (register_missing leader ts s))"
proof (induction leader ts s rule: register_missing.induct)
  case (2 leader t tid rest s)
  show ?case
    using 2 register_thread_inv [OF 2(3), of leader t tid] by (auto split: sum.splits prod.splits)
qed simp

section \<open>Thread fields\<close>

lemmas thread_ops = replace_alternate_stack_def enter_signal_frame_def leave_signal_frame_def replace_mask_def
  begin_sigsuspend_def end_sigsuspend_def begin_poll_sigmask_def end_poll_sigmask_def begin_signal_wait_def
  end_signal_wait_def update_mask_def

lemma thread_fields_inv:
  assumes inv: "sig_inv s"
  shows "sig_inv (snd (replace_alternate_stack t a s))" "sig_inv (snd (enter_signal_frame t b s))"
    "sig_inv (snd (leave_signal_frame t b s))" "sig_inv (snd (replace_mask t m s))"
    "sig_inv (snd (begin_sigsuspend t m s))" "sig_inv (snd (end_sigsuspend t s))"
    "sig_inv (snd (begin_poll_sigmask t m s))" "sig_inv (snd (end_poll_sigmask t s))"
    "sig_inv (snd (begin_signal_wait t m s))" "sig_inv (snd (end_signal_wait t s))"
    "sig_inv (snd (update_mask t how c s))"
  unfolding thread_ops sig_try_thread
  using sig_invD(6) [OF inv] inv
  by (auto simp: thread_ok_def Let_def split: option.splits if_splits intro!: update_thread_inv [OF inv])

lemma return_from_frame_inv: "sig_inv s \<Longrightarrow> sig_inv (snd (return_from_frame t m sp s))"
  using thread_fields_inv(4) [of s t m] thread_fields_inv(3)
  by (auto simp: return_from_frame_def sig_try_def split: sum.splits prod.splits)

lemma set_action_inv:
  assumes inv: "sig_inv s"
  shows "sig_inv (snd (set_action t sig a s))"
proof (cases "om_get (sr_threads s) t")
  case (Some th)
  define b where "b = a\<lparr>sa_mask := unmaskable (sa_mask a)\<rparr>"
  obtain p where p: "om_get (sr_processes s) (th_pid th) = Some p" using sig_invD(7) [OF inv Some] by blast
  show ?thesis
  proof (cases "valid_signal sig \<and> \<not> immutable_signal sig")
    case True
    then have ok: "process_ok (ps_set_action sig b p)"
      using process_ok_action [OF sig_invD(4) [OF inv p]] by (simp add: b_def)
    have ok2: "process_ok ((ps_set_action sig b p)\<lparr>ps_pending := ss_remove sig (ps_pending p)\<rparr>)"
      using process_ok_pending(2) [OF ok, of sig] by simp
    have 1: "sig_inv (put_process (th_pid th) (ps_set_action sig b p) s)"
      by (rule update_process_inv [OF inv p ok]) simp
    have 2: "sig_inv (put_process (th_pid th) ((ps_set_action sig b p)\<lparr>ps_pending := ss_remove sig (ps_pending p)\<rparr>) s)"
      by (rule update_process_inv [OF inv p ok2]) simp
    define f where "f i x = (if th_pid x = th_pid th then x\<lparr>th_pending := ss_remove sig (th_pending x)\<rparr> else x)"
      for i :: nat and x :: thread_signals
    have f: "thread_ok x \<Longrightarrow> thread_ok (f i x)" "th_pid (f i x) = th_pid x" for i x
      by (simp_all add: f_def thread_ok_fields)
    have "sig_inv (s1\<lparr>sr_threads := map (\<lambda>(i, x). (i, f i x)) (sr_threads s1)\<rparr>)" if "sig_inv s1" for s1
      using that f by (auto simp: sig_inv_at_def om_get_values om_ok_values listed_def)
    from this [OF 2] 1 True Some p show ?thesis
      by (simp add: set_action_def sig_try_thread sig_try_process Let_def b_def [symmetric] f_def)
  qed (auto simp: set_action_def inv)
qed (simp add: set_action_def sig_try_thread inv)

section \<open>Sending and taking\<close>

lemma generation_pending: "generation_delivery pid sig s = Inr Pending \<Longrightarrow> sig \<noteq> SIGSTOP \<and> valid_signal sig"
  by (auto simp: generation_delivery_def split: if_splits)

lemma generation_continue: "generation_delivery pid sig s = Inr ContinueNow \<Longrightarrow> sig = SIGCONT"
  by (auto simp: generation_delivery_def res_bind_def Let_def split: if_splits sum.splits)

lemma send_process_inv:
  assumes inv: "sig_inv_at d es s"
  shows "sig_inv_at d es (snd (send_process pid sig s))"
proof (cases "generation_delivery pid sig s")
  case (Inr dl)
  have "sig_inv_at d es (put_process pid (p\<lparr>ps_pending := ss_insert sig (ps_pending p)\<rparr>) s)"
    if "om_get (sr_processes s) pid = Some p" "sig \<noteq> SIGSTOP" for p
    by (rule update_process_inv [OF inv that(1) process_ok_pending(1) [OF sig_invD(4) [OF inv that(1)] that(2)]]) simp
  then show ?thesis
    using generation_pending [of pid sig s] generation_continue [of pid sig s] Inr inv
    by (cases dl) (auto simp: send_process_def sig_try_process Let_def split: option.splits)
qed (simp add: send_process_def inv)

lemma send_each_inv: "sig_inv s \<Longrightarrow> sig_inv (snd (send_each es s))"
proof (induction es s rule: send_each.induct)
  case (2 pid sig rest s)
  then show ?case
    using send_process_inv [OF 2(2), of pid sig] by (cases "send_process pid sig s") (auto split: prod.splits)
qed simp

lemma send_thread_inv:
  assumes inv: "sig_inv s"
  shows "sig_inv (snd (send_thread t sig s))"
proof (cases "om_get (sr_threads s) t")
  case (Some th)
  have p: "sig_inv (put_thread t (th\<lparr>th_pending := ss_insert sig (th_pending th)\<rparr>) s)" if "sig \<noteq> SIGSTOP"
    by (rule update_thread_inv [OF inv Some]) (use sig_invD(6) [OF inv Some] that in \<open>simp_all add: thread_ok_fields\<close>)
  show ?thesis
    using generation_pending [of "th_pid th" sig s] generation_continue [of "th_pid th" sig s] Some inv p
    by (auto simp: send_thread_def sig_try_thread sig_try_process sig_try_def [of "generation_delivery _ _ _"] Let_def
        split: option.splits sum.splits signal_delivery.splits)
qed (simp add: send_thread_def sig_try_thread inv)

lemma force_inv:
  assumes inv: "sig_inv s" and "sig \<noteq> SIGSTOP"
  shows "sig_inv (snd (force_thread_signal t sig s))"
proof (cases "om_get (sr_threads s) t")
  case (Some th)
  obtain p where p: "om_get (sr_processes s) (th_pid th) = Some p" using sig_invD(7) [OF inv Some] by blast
  have fin: "sig_inv (modify_thread t (\<lambda>th. th\<lparr>th_pending := ss_insert sig (th_pending th), th_waiting_for := None\<rparr>) s1)"
    if "sig_inv s1" for s1
    by (rule modify_thread_inv [OF that]) (use assms(2) in \<open>auto simp: thread_ok_def\<close>)
  have "sig_inv (put_process (th_pid th) (ps_set_action sig default_action p) s)" if "valid_signal sig"
    by (rule update_process_inv [OF inv p]) (simp_all add: process_ok_action [OF sig_invD(4) [OF inv p] that])
  then have m: "sig_inv (modify_thread t (\<lambda>th. th\<lparr>th_mask := ss_remove sig (th_mask th)\<rparr>)
      (put_process (th_pid th) (ps_set_action sig default_action p) s))" if "valid_signal sig"
    by (rule modify_thread_inv [OF _]) (use that in \<open>auto simp: thread_ok_def\<close>)
  show ?thesis
    using fin [OF m] fin [OF inv] Some p inv
    by (auto simp: force_thread_signal_def sig_try_thread sig_try_process Let_def)
qed (simp add: force_thread_signal_def sig_try_thread inv)

lemma remove_pending_inv:
  assumes inv: "sig_inv s"
  shows "sig_inv (snd (remove_pending t th sig s))"
  using modify_thread_inv [OF inv, of "\<lambda>th. th\<lparr>th_pending := ss_remove sig (th_pending th)\<rparr>" t]
    modify_process_inv [OF inv, of "\<lambda>p. p\<lparr>ps_pending := ss_remove sig (ps_pending p)\<rparr>" "th_pid th"]
  by (auto simp: remove_pending_def thread_ok_fields process_ok_pending)

lemma take_record_inv:
  assumes inv: "sig_inv s"
  shows "sig_inv (snd (take_pending_record t m s))"
  using update_thread_inv [OF inv] update_process_inv [OF inv] sig_invD(4,6) [OF inv] inv
  by (auto simp: take_pending_record_def thread_ok_fields process_ok_pending split: option.splits)

lemma restore_record_inv:
  assumes inv: "sig_inv s" and "tk_signal r \<noteq> SIGSTOP"
  shows "sig_inv (snd (restore_pending_record t r s))"
  using update_thread_inv [OF inv] update_process_inv [OF inv] sig_invD(4,6) [OF inv] inv assms(2)
  by (auto simp: restore_pending_record_def sig_try_thread sig_try_process thread_ok_fields process_ok_pending
      split: option.splits pending_scope.splits)

lemma take_sigkill_inv:
  assumes inv: "sig_inv s"
  shows "sig_inv (snd (take_sigkill t s))"
proof (cases "om_get (sr_threads s) t")
  case (Some th)
  have f: "sig_inv (modify_thread t (\<lambda>th. th\<lparr>th_restore := None, th_waiting_for := None\<rparr>) s1)" if "sig_inv s1" for s1
    by (rule modify_thread_inv [OF that]) (auto simp: thread_ok_def)
  have 1: "sig_inv (put_thread t (th\<lparr>th_pending := ss_remove SIGKILL (th_pending th)\<rparr>) s)"
    by (rule update_thread_inv [OF inv Some]) (use sig_invD(6) [OF inv Some] in \<open>simp_all add: thread_ok_fields\<close>)
  have 2: "sig_inv (put_process (th_pid th) (p\<lparr>ps_pending := ss_remove SIGKILL (ps_pending p)\<rparr>) s)"
    if "om_get (sr_processes s) (th_pid th) = Some p" for p
    by (rule update_process_inv [OF inv that]) (use sig_invD(4) [OF inv that] in \<open>simp_all add: process_ok_pending\<close>)
  show ?thesis using f [OF 1] f [OF 2] inv Some
    by (auto simp: take_sigkill_def Let_def split: option.splits)
qed (simp add: take_sigkill_def inv)

end
