(* ===== verification/Signal_Deliver.thy ===== *)
theory Signal_Deliver
  imports Signal_Keeps
begin

text \<open>
  The delivery of signals at the safe point of a thread. \<open>take_deliverable\<close> recurses over signals
  that have no effect; \<open>delivered\<close> says in one step what it computes from the thread and its
  process, and the two agree.
\<close>

section \<open>A reference without recursion\<close>

definition deliverable_set :: "thread_signals \<Rightarrow> process_signals \<Rightarrow> signal_set" where
  "deliverable_set th p = ss_difference (ss_union (th_pending th) (ps_pending p)) (th_mask th)"

text \<open>Signals that vanish when they are delivered: ignored ones, and those ignored by default.\<close>

definition discarded :: "process_signals \<Rightarrow> nat \<Rightarrow> bool" where
  "discarded p sig \<longleftrightarrow> sa_is_ignore (ps_action p sig) \<and> sig \<noteq> SIGKILL \<and> sig \<noteq> SIGCONT \<or>
     sa_is_default (ps_action p sig) \<and> default_ignored sig"

definition th_end :: "thread_signals \<Rightarrow> thread_signals" where
  "th_end th = (case th_restore th of None \<Rightarrow> th | Some m \<Rightarrow> th\<lparr>th_restore := None, th_mask := m\<rparr>)"

definition previous_mask :: "thread_signals \<Rightarrow> signal_set" where
  "previous_mask th = (case th_restore th of None \<Rightarrow> th_mask th | Some m \<Rightarrow> m)"

text \<open>The effect of a signal that is not discarded, on the thread and the process that lost it.\<close>

definition acted :: "nat \<Rightarrow> pending_scope \<Rightarrow> thread_signals \<Rightarrow> process_signals \<Rightarrow>
    signal_effect \<times> thread_signals \<times> process_signals" where
  "acted sig scope th p =
     (let a = ps_action p sig
      in if sig = SIGKILL \<or> sa_is_default a \<and> default_terminates sig then
           (TerminateEffect sig, th\<lparr>th_restore := None, th_waiting_for := None\<rparr>, p)
         else if sa_is_default a \<and> default_stops sig then
           (StopEffect sig, th\<lparr>th_mask := previous_mask th, th_restore := None, th_waiting_for := None\<rparr>, p)
         else if sig = SIGCONT \<and> \<not> has_user_handler a then
           (ContinueEffect sig, th\<lparr>th_mask := previous_mask th, th_restore := None, th_waiting_for := None\<rparr>, p)
         else
           (HandlerEffect \<lparr>pg_signal = sig, pg_scope = scope, pg_action = a, pg_previous_mask = previous_mask th\<rparr>,
            th\<lparr>th_mask := (let hm = ss_union (th_mask th) (sa_mask a)
                          in if sa_flags a AND SA_NODEFER = 0 then ss_insert sig hm else hm),
               th_restore := None, th_waiting_for := None\<rparr>,
            if sa_flags a AND SA_RESETHAND \<noteq> 0 then ps_set_action sig default_action p else p))"

text \<open>The least deliverable signal that has an effect, if there is one.\<close>

definition chosen :: "thread_signals \<Rightarrow> process_signals \<Rightarrow> nat option" where
  "chosen th p = find (\<lambda>i. ss_contains (deliverable_set th p) i \<and> \<not> discarded p i) [1..<65]"

definition ss_below :: "nat \<Rightarrow> signal_set \<Rightarrow> signal_set" where
  "ss_below sig m = fold ss_remove [sig..<65] m"

definition th_lose :: "signal_set \<Rightarrow> thread_signals \<Rightarrow> thread_signals" where
  "th_lose m th = th\<lparr>th_pending := ss_difference (th_pending th) m\<rparr>"

definition ps_lose :: "signal_set \<Rightarrow> process_signals \<Rightarrow> process_signals" where
  "ps_lose m p = p\<lparr>ps_pending := ss_difference (ps_pending p) m\<rparr>"

definition drop_signal :: "nat \<Rightarrow> thread_signals \<Rightarrow> process_signals \<Rightarrow> thread_signals \<times> process_signals" where
  "drop_signal sig th p =
     (if ss_contains (th_pending th) sig then (th\<lparr>th_pending := ss_remove sig (th_pending th)\<rparr>, p)
      else (th, p\<lparr>ps_pending := ss_remove sig (ps_pending p)\<rparr>))"

definition scope_of :: "nat \<Rightarrow> thread_signals \<Rightarrow> pending_scope" where
  "scope_of sig th = (if ss_contains (th_pending th) sig then ThreadScope else ProcessScope)"

definition delivered :: "thread_signals \<Rightarrow> process_signals \<Rightarrow> signal_effect option \<times> thread_signals \<times> process_signals" where
  "delivered th p =
     (let D = deliverable_set th p
      in case chosen th p of
           None \<Rightarrow> (None, if D = 0 then th else th_end (th_lose D th), ps_lose D p)
         | Some sig \<Rightarrow>
             (let (th1, p1) = drop_signal sig (th_lose (ss_below sig D) th) (ps_lose (ss_below sig D) p);
                  (e, th2, p2) = acted sig (scope_of sig th) th1 p1
              in (Some e, th2, p2)))"

section \<open>Facts of the reference\<close>

lemma ss_below_contains: "ss_contains (ss_below sig m) i \<longleftrightarrow> ss_contains m i \<and> i < sig"
proof -
  have "ss_contains (fold ss_remove xs m) i \<longleftrightarrow> ss_contains m i \<and> i \<notin> set xs" for xs
    by (induction xs arbitrary: m) auto
  then show ?thesis using ss_contains_valid [of m i] by (auto simp: ss_below_def valid_signal_def NSIG_def)
qed

lemma find_upt_Some:
  "find P [m..<n] = Some i \<longleftrightarrow> m \<le> i \<and> i < n \<and> P i \<and> (\<forall>j. m \<le> j \<and> j < i \<longrightarrow> \<not> P j)"
proof
  assume "find P [m..<n] = Some i"
  then obtain k where k: "k < length [m..<n]" "P ([m..<n] ! k)" "i = [m..<n] ! k" "\<forall>j < k. \<not> P ([m..<n] ! j)"
    by (auto simp: find_Some_iff)
  have "\<not> P j" if "m \<le> j" "j < i" for j
  proof -
    have "j - m < k" "[m..<n] ! (j - m) = j" using that k(1,3) by auto
    then show ?thesis using k(4) by metis
  qed
  then show "m \<le> i \<and> i < n \<and> P i \<and> (\<forall>j. m \<le> j \<and> j < i \<longrightarrow> \<not> P j)" using k(1-3) by auto
next
  assume a: "m \<le> i \<and> i < n \<and> P i \<and> (\<forall>j. m \<le> j \<and> j < i \<longrightarrow> \<not> P j)"
  then have "i - m < length [m..<n]" "P ([m..<n] ! (i - m))" "i = [m..<n] ! (i - m)"
    "\<forall>j < i - m. \<not> P ([m..<n] ! j)" by auto
  then show "find P [m..<n] = Some i" unfolding find_Some_iff by blast
qed

lemma chosen_Some:
  "chosen th p = Some sig \<longleftrightarrow> ss_contains (deliverable_set th p) sig \<and> \<not> discarded p sig \<and>
     (\<forall>i < sig. ss_contains (deliverable_set th p) i \<longrightarrow> discarded p i)"
  using ss_contains_valid [of "deliverable_set th p"]
  by (fastforce simp: chosen_def find_upt_Some valid_signal_def NSIG_def)

lemma chosen_None: "chosen th p = None \<longleftrightarrow> (\<forall>i. ss_contains (deliverable_set th p) i \<longrightarrow> discarded p i)"
  using ss_contains_valid [of "deliverable_set th p"]
  by (fastforce simp: chosen_def find_None_iff valid_signal_def NSIG_def)

lemma deliverable_contains:
  "ss_contains (deliverable_set th p) i \<longleftrightarrow>
    (ss_contains (th_pending th) i \<or> ss_contains (ps_pending p) i) \<and> \<not> ss_contains (th_mask th) i"
  by (simp add: deliverable_set_def)

lemma drop_fields:
  assumes "drop_signal sig th p = (th1, p1)"
  shows "th_mask th1 = th_mask th" "th_restore th1 = th_restore th" "th_pid th1 = th_pid th" "ps_actions p1 = ps_actions p"
    "discarded p1 = discarded p"
    "th1 = th\<lparr>th_pending := th_pending th1\<rparr>" "p1 = p\<lparr>ps_pending := ps_pending p1\<rparr>"
    "ss_contains (th_pending th1) i \<longleftrightarrow> ss_contains (th_pending th) i \<and> i \<noteq> sig"
    "ss_contains (ps_pending p1) i \<longleftrightarrow> ss_contains (ps_pending p) i \<and> (i = sig \<longrightarrow> ss_contains (th_pending th) sig)"
  using assms by (auto simp: drop_signal_def discarded_def ps_action_def fun_eq_iff split: if_splits)

lemma lose_eq:
  "(\<And>i. ss_contains (th_pending a) i \<and> \<not> ss_contains m i \<longleftrightarrow> ss_contains (th_pending b) i \<and> \<not> ss_contains n i) \<Longrightarrow>
     a = b\<lparr>th_pending := th_pending a\<rparr> \<Longrightarrow> th_lose m a = th_lose n b"
  "(\<And>i. ss_contains (ps_pending x) i \<and> \<not> ss_contains m i \<longleftrightarrow> ss_contains (ps_pending y) i \<and> \<not> ss_contains n i) \<Longrightarrow>
     x = y\<lparr>ps_pending := ps_pending x\<rparr> \<Longrightarrow> ps_lose m x = ps_lose n y"
proof -
  assume "\<And>i. ss_contains (th_pending a) i \<and> \<not> ss_contains m i \<longleftrightarrow> ss_contains (th_pending b) i \<and> \<not> ss_contains n i"
    and a: "a = b\<lparr>th_pending := th_pending a\<rparr>"
  then have "ss_difference (th_pending a) m = ss_difference (th_pending b) n" by (intro ss_eqI) simp
  then show "th_lose m a = th_lose n b" by (subst a) (simp add: th_lose_def)
next
  assume "\<And>i. ss_contains (ps_pending x) i \<and> \<not> ss_contains m i \<longleftrightarrow> ss_contains (ps_pending y) i \<and> \<not> ss_contains n i"
    and x: "x = y\<lparr>ps_pending := ps_pending x\<rparr>"
  then have "ss_difference (ps_pending x) m = ss_difference (ps_pending y) n" by (intro ss_eqI) simp
  then show "ps_lose m x = ps_lose n y" by (subst x) (simp add: ps_lose_def)
qed

text \<open>Discarding the least deliverable signal first changes nothing.\<close>

lemma delivered_step:
  assumes d: "ss_first_signal (deliverable_set th p) = Some sig" "discarded p sig" and s: "drop_signal sig th p = (th1, p1)"
  shows "chosen th1 p1 = chosen th p"
    "chosen th p = None \<Longrightarrow> th_lose (deliverable_set th1 p1) th1 = th_lose (deliverable_set th p) th"
    "chosen th p = None \<Longrightarrow> ps_lose (deliverable_set th1 p1) p1 = ps_lose (deliverable_set th p) p"
    "chosen th p = Some k \<Longrightarrow> delivered th1 p1 = delivered th p"
proof -
  note f = drop_fields [OF s]
  have sig: "ss_contains (deliverable_set th p) sig" "\<forall>i < sig. \<not> ss_contains (deliverable_set th p) i"
    using d(1) by (auto simp: ss_first_signal_Some)
  have D1: "ss_contains (deliverable_set th1 p1) i \<longleftrightarrow> ss_contains (deliverable_set th p) i \<and>
      (i = sig \<longrightarrow> ss_contains (th_pending th) sig \<and> ss_contains (ps_pending p) sig)" for i
    using f(1,8,9) sig(1) by (auto simp: deliverable_contains)
  show c: "chosen th1 p1 = chosen th p"
  proof -
    have "ss_contains (deliverable_set th1 p1) i \<and> \<not> discarded p1 i \<longleftrightarrow> ss_contains (deliverable_set th p) i \<and> \<not> discarded p i" for i
      using D1 d(2) f(5) by auto
    then show ?thesis by (simp add: chosen_def)
  qed
  show "th_lose (deliverable_set th1 p1) th1 = th_lose (deliverable_set th p) th"
    by (rule lose_eq(1)) (use D1 f(6,8) sig(1) in auto)
  show "ps_lose (deliverable_set th1 p1) p1 = ps_lose (deliverable_set th p) p"
    by (rule lose_eq(2)) (use D1 f(7,9) sig(1) in auto)
  assume k: "chosen th p = Some k"
  then have "ss_contains (deliverable_set th p) k" "k \<noteq> sig" using d(2) by (auto simp: chosen_Some)
  then have k2: "sig < k" using sig(2) by (meson linorder_neqE_nat)
  have l1: "th_lose (ss_below k (deliverable_set th1 p1)) th1 = th_lose (ss_below k (deliverable_set th p)) th"
    by (rule lose_eq(1)) (use D1 f(6,8) sig(1) k2 in \<open>auto simp: ss_below_contains\<close>)
  have l2: "ps_lose (ss_below k (deliverable_set th1 p1)) p1 = ps_lose (ss_below k (deliverable_set th p)) p"
    by (rule lose_eq(2)) (use D1 f(7,9) sig(1) k2 in \<open>auto simp: ss_below_contains\<close>)
  have "scope_of k th1 = scope_of k th" using f(8) k2 by (simp add: scope_of_def)
  then show "delivered th1 p1 = delivered th p" by (simp add: delivered_def c k l1 l2 Let_def)
qed

lemma th_end_end [simp]: "th_end (th_end th) = th_end th"
  by (simp add: th_end_def split: option.splits)

text \<open>The recursive code computes the reference.\<close>

lemma discarded_code:
  assumes "process_ok p" "valid_signal sig"
  shows "discarded p sig \<longleftrightarrow>
    (let a = ps_action p sig
     in \<not> (sig = SIGKILL \<or> sa_is_default a \<and> default_terminates sig) \<and> \<not> (sa_is_default a \<and> default_stops sig) \<and>
        \<not> (sig = SIGCONT \<and> \<not> has_user_handler a) \<and> (sa_is_ignore a \<or> sa_is_default a))"
proof -
  have "\<not> (default_ignored sig \<and> (sig = SIGKILL \<or> sig = SIGCONT \<or> default_stops sig))"
    by (auto simp: default_ignored_def default_stops_def signal_numbers)
  then show ?thesis using assms handler_simps(4,5,6) [of "ps_action p sig"]
    by (auto simp: discarded_def default_terminates_def Let_def)
qed


definition holds_at :: "nat \<Rightarrow> thread_signals \<Rightarrow> process_signals \<Rightarrow> sig_registry \<Rightarrow> bool" where
  "holds_at t th p s \<longleftrightarrow> om_ok (sr_threads s) \<and> om_ok (sr_processes s) \<and> om_get (sr_threads s) t = Some th \<and>
     om_get (sr_processes s) (th_pid th) = Some p"

abbreviation put_both :: "nat \<Rightarrow> thread_signals \<Rightarrow> process_signals \<Rightarrow> sig_registry \<Rightarrow> sig_registry" where
  "put_both t th p s \<equiv> put_thread t th (put_process (th_pid th) p s)"

lemma holds_put: "holds_at t th p s \<Longrightarrow> th_pid th1 = th_pid th \<Longrightarrow> holds_at t th1 p1 (put_both t th1 p1 s)"
  by (simp add: holds_at_def)

lemma holds_same: "holds_at t th p s \<Longrightarrow> put_both t th p s = s"
  by (simp add: holds_at_def put_thread_same put_process_same)

lemma put_both_put: "th_pid a = th_pid b \<Longrightarrow> put_both t a p (put_both t b q s) = put_both t a p s"
proof -
  assume e: "th_pid a = th_pid b"
  have "put_process (th_pid a) p (put_thread t b (put_process (th_pid b) q s)) = put_thread t b (put_process (th_pid a) p s)"
    unfolding e by simp
  then show ?thesis by simp
qed

lemma modify_both:
  assumes "holds_at t th p s"
  shows "th_pid (f th) = th_pid th \<Longrightarrow> modify_thread t f s = put_both t (f th) p s"
    "modify_process (th_pid th) g s = put_both t th (g p) s"
  using assms
  by (auto simp: holds_at_def modify_thread_def modify_process_def put_process_same put_thread_same)

lemma remove_pending_eq:
  assumes "holds_at t th p s" "drop_signal sig th p = (th1, p1)"
  shows "remove_pending t th sig s = (scope_of sig th, put_both t th1 p1 s)"
  using assms(2) modify_both [OF assms(1)]
  by (auto simp: remove_pending_def drop_signal_def scope_of_def split: if_splits)

lemma acted_code:
  assumes h: "holds_at t th p s" and ok: "process_ok p" "valid_signal sig" "\<not> discarded p sig"
    and d: "drop_signal sig th p = (th1, p1)" and a: "acted sig (scope_of sig th) th1 p1 = (e, th2, p2)"
    and first: "ss_first_signal (deliverable_set th p) = Some sig"
  shows "take_deliverable t s = (Some e, put_both t th2 p2 s)"
proof -
  note f = drop_fields [OF d]
  have h1: "holds_at t th1 p1 (put_both t th1 p1 s)" using h f(3) by (rule holds_put)
  note r = remove_pending_eq [OF h d]
  note m = modify_both [OF h1]
  have act: "ps_action p1 sig = ps_action p sig" using f(4) by (simp add: ps_action_def)
  have prev: "(case th_restore th of None \<Rightarrow> th_mask th | Some m \<Rightarrow> m) = previous_mask th1"
    using f(1,2) by (simp add: previous_mask_def split: option.splits)
  have th: "om_get (sr_threads s) t = Some th" "om_get (sr_processes s) (th_pid th) = Some p"
    using h by (simp_all add: holds_at_def)
  have fin: "put_both t x y (put_both t th1 p1 s) = put_both t x y s" if "th_pid x = th_pid th1" for x y
    using that by (rule put_both_put)
  have code: "discarded p sig \<longleftrightarrow> (let a = ps_action p1 sig
     in \<not> (sig = SIGKILL \<or> sa_is_default a \<and> default_terminates sig) \<and> \<not> (sa_is_default a \<and> default_stops sig) \<and>
        \<not> (sig = SIGCONT \<and> \<not> has_user_handler a) \<and> (sa_is_ignore a \<or> sa_is_default a))"
    using discarded_code [OF ok(1,2)] act by simp
  show ?thesis
  proof (cases "sig = SIGKILL \<or> sa_is_default (ps_action p1 sig) \<and> default_terminates sig \<or>
      sa_is_default (ps_action p1 sig) \<and> default_stops sig \<or> sig = SIGCONT \<and> \<not> has_user_handler (ps_action p1 sig)")
    case True
    have ft: "modify_thread t g (put_both t th1 p1 s) = put_both t (g th1) p1 s" if "th_pid (g th1) = th_pid th1" for g
      using m(1) [of g, OF that] fin [OF that] by simp
    let ?a = "ps_action p1 sig"
    consider (dead) "sig = SIGKILL \<or> sa_is_default ?a \<and> default_terminates sig"
      | (stop) "\<not> (sig = SIGKILL \<or> sa_is_default ?a \<and> default_terminates sig)" "sa_is_default ?a \<and> default_stops sig"
      | (cont) "\<not> (sig = SIGKILL \<or> sa_is_default ?a \<and> default_terminates sig)" "\<not> (sa_is_default ?a \<and> default_stops sig)"
          "sig = SIGCONT \<and> \<not> has_user_handler ?a"
      using True by blast
    then show ?thesis
    proof cases
      case dead
      then have "e = TerminateEffect sig \<and> th2 = th1\<lparr>th_restore := None, th_waiting_for := None\<rparr> \<and> p2 = p1"
        using a unfolding acted_def Let_def if_P [OF dead] by blast
      with dead first show ?thesis
        by (subst take_deliverable.simps)
          (simp add: th deliverable_set_def [symmetric] Let_def r prev act [symmetric] ft split del: if_split)
    next
      case stop
      then have "e = StopEffect sig \<and> p2 = p1 \<and>
          th2 = th1\<lparr>th_mask := previous_mask th1, th_restore := None, th_waiting_for := None\<rparr>"
        using a unfolding acted_def Let_def if_not_P [OF stop(1)] if_P [OF stop(2)] by blast
      with stop first show ?thesis
        by (subst take_deliverable.simps)
          (simp add: th deliverable_set_def [symmetric] Let_def r prev act [symmetric] ft split del: if_split)
    next
      case cont
      then have "e = ContinueEffect sig \<and> p2 = p1 \<and>
          th2 = th1\<lparr>th_mask := previous_mask th1, th_restore := None, th_waiting_for := None\<rparr>"
        using a unfolding acted_def Let_def if_not_P [OF cont(1)] if_not_P [OF cont(2)] if_P [OF cont(3)] by blast
      with cont first r act show ?thesis
        by (subst take_deliverable.simps)
          (auto simp: th deliverable_set_def [symmetric] Let_def prev ft)
    qed
  next
    case False
    then have hd: "\<not> (sa_is_ignore (ps_action p1 sig) \<or> sa_is_default (ps_action p1 sig))"
      using code ok(3) by (auto simp: Let_def)
    then have uh: "has_user_handler (ps_action p1 sig)" "\<not> sa_is_ignore (ps_action p1 sig)"
      "\<not> sa_is_default (ps_action p1 sig)" "sig \<noteq> SIGKILL"
      using handler_cases [of "ps_action p1 sig"] False by blast+
    define hm where "hm = (let hm = ss_union (th_mask th1) (sa_mask (ps_action p1 sig))
        in if sa_flags (ps_action p1 sig) AND SA_NODEFER = 0 then ss_insert sig hm else hm)"
    define th3 where "th3 = th1\<lparr>th_mask := hm, th_restore := None, th_waiting_for := None\<rparr>"
    have pid: "th_pid th3 = th_pid th1" by (simp add: th3_def)
    have s2: "modify_thread t (\<lambda>th. th\<lparr>th_mask := hm, th_restore := None, th_waiting_for := None\<rparr>) (put_both t th1 p1 s) =
        put_both t th3 p1 s"
      using m(1) [of "\<lambda>th. th\<lparr>th_mask := hm, th_restore := None, th_waiting_for := None\<rparr>"] fin [OF pid]
      by (simp add: th3_def)
    have "holds_at t th3 p1 (put_both t th3 p1 s)" by (rule holds_put [OF h]) (simp add: pid f(3))
    then have s3: "modify_process (th_pid th) g (put_both t th3 p1 s) = put_both t th3 (g p1) s" for g
      using modify_both(2) [of t th3 p1 "put_both t th3 p1 s" g] put_both_put [of th3 th3] pid f(3) by simp
    have hm': "(if sa_flags (ps_action p1 sig) AND SA_NODEFER = 0 then ss_insert sig (ss_union (th_mask th) (sa_mask (ps_action p1 sig)))
        else ss_union (th_mask th) (sa_mask (ps_action p1 sig))) = hm"
      using f(1) by (simp add: hm_def Let_def)
    have e: "e = HandlerEffect \<lparr>pg_signal = sig, pg_scope = scope_of sig th, pg_action = ps_action p1 sig,
        pg_previous_mask = previous_mask th1\<rparr>" "th2 = th3"
      "p2 = (if sa_flags (ps_action p1 sig) AND SA_RESETHAND \<noteq> 0 then ps_set_action sig default_action p1 else p1)"
      using a uh by (auto simp: acted_def hm_def th3_def Let_def)
    show ?thesis
      using uh first
      by (subst take_deliverable.simps)
        (simp add: th deliverable_set_def [symmetric] Let_def r prev act [symmetric] e s2 s3 hm' del: put_put)
  qed
qed

lemma end_sigsuspend_both:
  "holds_at t th p s \<Longrightarrow> snd (end_sigsuspend t s) = put_both t (th_end th) p s"
  by (auto simp: end_sigsuspend_def sig_try_thread holds_at_def th_end_def put_process_same put_thread_same
      split: option.splits)

lemma delivered_pid: "delivered th p = (r, th', p') \<Longrightarrow> th_pid th' = th_pid th"
  by (auto simp: delivered_def drop_signal_def acted_def th_lose_def th_end_def Let_def split: option.splits if_splits)

lemma take_deliverable_eq:
  assumes "holds_at t th p s" "process_ok p" "delivered th p = (r, th', p')"
  shows "take_deliverable t s = (r, put_both t th' p' s)"
  using assms
proof (induction "ss_count (th_pending th) + ss_count (ps_pending p)" arbitrary: s th p r th' p' rule: less_induct)
  case less
  note h = less.prems(1)
  have th: "om_get (sr_threads s) t = Some th" "om_get (sr_processes s) (th_pid th) = Some p"
    using h by (simp_all add: holds_at_def)
  show ?case
  proof (cases "ss_first_signal (deliverable_set th p)")
    case None
    then have "chosen th p = None" "deliverable_set th p = 0"
      by (auto simp: chosen_None ss_first_signal_None intro!: ss_eqI)
    then have "r = None" "th' = th" "p' = p"
      using less.prems(3) by (auto simp: delivered_def Let_def ps_lose_def ss_difference_def)
    with None show ?thesis
      by (subst take_deliverable.simps) (simp add: th deliverable_set_def [symmetric] holds_same [OF h])
  next
    case (Some sig)
    then have c: "ss_contains (deliverable_set th p) sig" "\<forall>i < sig. \<not> ss_contains (deliverable_set th p) i"
      by (auto simp: ss_first_signal_Some)
    obtain th1 p1 where d: "drop_signal sig th p = (th1, p1)" by fastforce
    show ?thesis
    proof (cases "discarded p sig")
      case False
      then have ch: "chosen th p = Some sig" using c by (auto simp: chosen_Some)
      have "ss_below sig (deliverable_set th p) = 0" by (rule ss_eqI) (use c(2) in \<open>auto simp: ss_below_contains\<close>)
      then have "delivered th p = (let (e, th2, p2) = acted sig (scope_of sig th) th1 p1 in (Some e, th2, p2))"
        by (simp add: delivered_def ch Let_def th_lose_def ps_lose_def ss_difference_def d)
      then obtain e where "r = Some e" "acted sig (scope_of sig th) th1 p1 = (e, th', p')"
        using less.prems(3) by (auto split: prod.splits)
      with acted_code [OF h less.prems(2) ss_contains_valid [OF c(1)] False d _ Some] show ?thesis by simp
    next
      case True
      note f = drop_fields [OF d] and st = delivered_step [OF Some True d]
      have h1: "holds_at t th1 p1 (put_both t th1 p1 s)" using h f(3) by (rule holds_put)
      have ok1: "process_ok p1" using less.prems(2) d by (auto simp: drop_signal_def process_ok_pending split: if_splits)
      have less_count: "ss_count (th_pending th1) + ss_count (ps_pending p1) < ss_count (th_pending th) + ss_count (ps_pending p)"
        using d c(1) ss_count_remove [of "th_pending th" sig] ss_count_remove [of "ps_pending p" sig]
        by (auto simp: drop_signal_def deliverable_contains split: if_splits)
      obtain r1 th2 p2 where dl: "delivered th1 p1 = (r1, th2, p2)" by (metis prod_cases3)
      have pid: "th_pid th2 = th_pid th1" using dl by (rule delivered_pid)
      have rec: "take_deliverable t (put_both t th1 p1 s) = (r1, put_both t th2 p2 s)"
        using less.hyps [OF less_count h1 ok1 dl] put_both_put [OF pid] by simp
      have code: "\<not> (sig = SIGKILL \<or> sa_is_default (ps_action p sig) \<and> default_terminates sig)"
        "\<not> (sa_is_default (ps_action p sig) \<and> default_stops sig)"
        "\<not> (sig = SIGCONT \<and> \<not> has_user_handler (ps_action p sig))" "sa_is_ignore (ps_action p sig) \<or> sa_is_default (ps_action p sig)"
        using True discarded_code [OF less.prems(2) ss_contains_valid [OF c(1)]] by (simp_all add: Let_def)
      have td: "take_deliverable t s = (case (r1, put_both t th2 p2 s) of
          (None, s2) \<Rightarrow> (None, snd (end_sigsuspend t s2)) | (Some e, s2) \<Rightarrow> (Some e, s2))"
        using code Some
        by (subst take_deliverable.simps) (auto simp: th deliverable_set_def [symmetric] Let_def remove_pending_eq [OF h d] rec simp del: put_put)
      show ?thesis
      proof (cases r1)
        case (Some e)
        then obtain k where k: "chosen th p = Some k" using dl st(1) by (auto simp: delivered_def Let_def split: option.splits)
        have "delivered th p = (r1, th2, p2)" using st(4) [OF k] dl by simp
        then show ?thesis using less.prems(3) td Some by simp
      next
        case None
        then have n: "chosen th p = None" using dl st(1) by (auto simp: delivered_def Let_def split: option.splits prod.splits)
        have h2: "holds_at t th2 p2 (put_both t th2 p2 s)" by (rule holds_put [OF h]) (simp add: pid f(3))
        have "th_end th2 = th'" "p2 = p'" "r = None"
          using dl n st(1-3) less.prems(3) c(1) None th_end_end [of th1]
          by (auto simp: delivered_def Let_def th_lose_def ss_difference_def split: if_splits)
        moreover have "th_pid (th_end th2) = th_pid th2" by (simp add: th_end_def split: option.splits)
        ultimately show ?thesis
          using td None end_sigsuspend_both [OF h2] put_both_put [of "th_end th2" th2 t p2 p2 s] by simp
      qed
    qed
  qed
qed

end
