(* ===== verification/Signal_Expiry.thy ===== *)
theory Signal_Expiry
  imports Signal_Keeps
begin

text \<open>
  The timers of the signal registry: an expiry moves a periodic timer to its first period after the
  present without drift, the deadline index never loses an armed timer, and one call of
  \<open>expire_realtime\<close> fires exactly the due timers, each once.
\<close>

section \<open>One timer\<close>

lemma div_period:
  fixes d now i :: nat
  assumes "0 < i" "d \<le> now"
  shows "now < d + ((now - d) div i + 1) * i" "d + ((now - d) div i) * i \<le> now"
proof -
  have e: "(now - d) div i * i + (now - d) mod i = now - d" "(now - d) mod i < i" using assms(1) by simp_all
  have "d + ((now - d) div i + 1) * i = d + (now - d) div i * i + i" by simp
  also have "\<dots> > now" using e assms(2) by linarith
  finally show "now < d + ((now - d) div i + 1) * i" .
  show "d + ((now - d) div i) * i \<le> now" using e(1) assms(2) by linarith
qed

lemma sat_sum: "d \<le> m \<Longrightarrow> sat_add m d (sat_mul m k i) = min m (d + k * i)"
  by (simp add: sat_add_def sat_mul_def min_def)

lemma it_expire_due:
  assumes "it_deadline tm = Some d" "d \<le> now" "now < u128_max"
  shows "\<exists>tm'. it_expire now tm = (True, tm') \<and> it_interval tm' = it_interval tm \<and> it_generation tm' = it_generation tm \<and>
    (if it_interval tm = 0 then it_deadline tm' = None
     else \<exists>k. it_deadline tm' = Some (min u128_max (d + (k + 1) * it_interval tm)) \<and> d + k * it_interval tm \<le> now \<and>
       now < d + (k + 1) * it_interval tm)"
  using assms div_period [of "it_interval tm" d now]
  by (auto simp: it_expire_def sat_sum Let_def intro!: exI [of _ "(now - d) div it_interval tm"])

lemma it_expire_not_due: "(\<And>d. it_deadline tm = Some d \<Longrightarrow> now < d) \<Longrightarrow> it_expire now tm = (False, tm)"
  by (auto simp: it_expire_def split: option.splits)

lemma it_expire_armed: "timer_armed_ok tm \<Longrightarrow> timer_armed_ok (snd (it_expire now tm))"
  by (auto simp: timer_armed_ok_def it_expire_def Let_def sat_add_def sat_mul_def u128_max_def split: option.splits)

lemma it_replace_armed: "timer_armed_ok (it_replace spec now tm)"
  by (auto simp: timer_armed_ok_def it_replace_def sat_add_def u128_max_def)

text \<open>No arithmetic of an expiry leaves the range of \<open>u128\<close>.\<close>

lemma it_expire_in_range:
  assumes "timer_armed_ok tm" "it_deadline tm = Some d" "d \<le> now" "now \<le> u128_max"
  shows "(now - d) div it_interval tm + 1 \<le> u128_max"
proof -
  have "now - d < u128_max" using assms by (auto simp: timer_armed_ok_def)
  moreover have "(now - d) div it_interval tm \<le> now - d" by simp
  ultimately show ?thesis by linarith
qed

lemma process_ok_timers:
  "process_ok p \<Longrightarrow> timer_armed_ok tm \<Longrightarrow> process_ok (p\<lparr>ps_real := tm\<rparr>)"
  "process_ok p \<Longrightarrow> timer_armed_ok v \<Longrightarrow> timer_armed_ok w \<Longrightarrow>
     process_ok (p\<lparr>ps_user_cpu := a, ps_total_cpu := b, ps_virtual := v, ps_prof := w\<rparr>)"
  "process_ok p \<Longrightarrow> timer_armed_ok tm \<Longrightarrow> process_ok (ps_put_timer which tm p)"
  by (auto simp: process_ok_def ps_action_def ps_put_timer_def)

section \<open>The deadline index\<close>

lemma add_deadline_simps [simp]:
  "sr_processes (sr_add_deadline d e s) = sr_processes s" "sr_threads (sr_add_deadline d e s) = sr_threads s"
  by (simp_all add: sr_add_deadline_def)

lemma add_deadline_get:
  "om_get (sr_real_deadlines (sr_add_deadline d e s)) = (om_get (sr_real_deadlines s))
     (d \<mapsto> (case om_get (sr_real_deadlines s) d of None \<Rightarrow> [] | Some es \<Rightarrow> es) @ [e])"
  by (simp add: sr_add_deadline_def om_get_insert_any)

lemma add_deadline_listed:
  "listed x es s pid tm \<Longrightarrow> listed x es (sr_add_deadline d e s) pid tm"
  "it_deadline tm = Some d \<Longrightarrow> listed x es (sr_add_deadline d \<lparr>rd_pid = pid, rd_generation = it_generation tm\<rparr> s) pid tm"
  by (auto simp: listed_def add_deadline_get Let_def split: option.splits)

lemma add_deadline_inv: "sig_inv_at x es s \<Longrightarrow> sig_inv_at x es (sr_add_deadline d e s)"
  by (auto simp: sig_inv_at_def add_deadline_listed(1)) (simp add: sr_add_deadline_def om_ok_insert)

lemma put_add: "put_process pid p (sr_add_deadline d e s) = sr_add_deadline d e (put_process pid p s)"
  by (simp add: put_process_def sr_add_deadline_def)

text \<open>A process gets a new real timer and an index entry for it.\<close>

lemma arm_real_inv:
  assumes inv: "sig_inv_at x es s" and p: "process_ok p"
    and i: "s1 = (case it_deadline (ps_real p) of None \<Rightarrow> put_process pid p s
      | Some d \<Rightarrow> sr_add_deadline d \<lparr>rd_pid = pid, rd_generation = it_generation (ps_real p)\<rparr> (put_process pid p s))"
  shows "sig_inv_at x es s1"
proof (cases "it_deadline (ps_real p)")
  case None
  then show ?thesis using put_process_inv [OF inv p] i by (simp add: listed_def)
next
  case (Some d)
  let ?e = "\<lparr>rd_pid = pid, rd_generation = it_generation (ps_real p)\<rparr>"
  have "sig_inv_at x es (put_process pid p (sr_add_deadline d ?e s))"
    by (rule put_process_inv [OF add_deadline_inv [OF inv] p add_deadline_listed(2) [OF Some]])
  with i Some show ?thesis by (simp add: put_add)
qed

lemma set_timer_inv:
  assumes inv: "sig_inv s"
  shows "sig_inv (snd (set_timer pid which spec now s))"
proof (cases "om_get (sr_processes s) pid")
  case (Some p)
  have ok: "process_ok (ps_put_timer which (it_replace spec n tm) p)" for n tm
    by (rule process_ok_timers(3) [OF sig_invD(4) [OF inv Some] it_replace_armed])
  show ?thesis
  proof (cases "which = ITIMER_REAL")
    case True
    then have "ps_real (ps_put_timer which tm p) = tm" for tm by (simp add: ps_put_timer_def)
    then show ?thesis
      using arm_real_inv [OF inv ok [of now "ps_real p"] refl, of pid] Some True
      by (auto simp: set_timer_def sig_try_process ps_timer_clock_def ps_timer_def Let_def split: option.splits)
  next
    case False
    then have "ps_real (ps_put_timer which tm p) = ps_real p" for tm by (simp add: ps_put_timer_def)
    then have "sig_inv (put_process pid (ps_put_timer which (it_replace spec n tm) p) s)" for n tm
      by (rule update_process_inv [OF inv Some ok])
    then show ?thesis
      using Some False inv
      by (auto simp: set_timer_def sig_try_process ps_timer_clock_def ps_timer_def Let_def split: option.splits)
  qed
qed (simp add: set_timer_def sig_try_process inv)

section \<open>POSIX timers and CPU time\<close>

lemma next_id_le: "((i + 1) mod 2 ^ 64) AND i32_max \<le> i32_max"
proof -
  have "i32_max = mask 31" by (simp add: i32_max_def mask_eq_exp_minus_1)
  then have "((i + 1) mod 2 ^ 64) AND i32_max = take_bit 31 ((i + 1) mod 2 ^ 64)" by (simp only: take_bit_eq_mask)
  also have "\<dots> < 2 ^ 31" by (rule take_bit_nat_less_exp)
  finally show ?thesis by (simp add: i32_max_def)
qed

lemma find_timer_id_spec:
  "find_timer_id k p = (r, p1) \<Longrightarrow> process_ok p \<Longrightarrow>
    process_ok p1 \<and> p1 = p\<lparr>ps_next_timer_id := ps_next_timer_id p1\<rparr> \<and>
    (\<forall>i. r = Some i \<longrightarrow> i \<le> i32_max \<and> om_get (ps_posix_timers p) i = None)"
proof (induction k p arbitrary: r p1 rule: find_timer_id.induct)
  case (2 k p)
  define q where "q = p\<lparr>ps_next_timer_id := ((ps_next_timer_id p + 1) mod 2 ^ 64) AND i32_max\<rparr>"
  have q: "process_ok q" "ps_posix_timers q = ps_posix_timers p" "q = p\<lparr>ps_next_timer_id := ps_next_timer_id q\<rparr>"
    using 2(3) next_id_le [of "ps_next_timer_id p"] by (simp_all add: q_def process_ok_def ps_action_def)
  show ?case
  proof (cases "om_get (ps_posix_timers p) (ps_next_timer_id p) = None")
    case True
    then have "r = Some (ps_next_timer_id p)" "p1 = q" using 2(2) q(2) by (simp_all add: q_def Let_def)
    with True q 2(3) show ?thesis by (simp add: process_ok_def)
  next
    case False
    then obtain y where "om_get (ps_posix_timers p) (ps_next_timer_id p) = Some y" by auto
    then have "find_timer_id k q = (r, p1)" using 2(2) q(2) by (simp add: q_def Let_def)
    from 2(1) [OF refl q_def _ this q(1)] False q(2) have p1: "process_ok p1" "p1 = q\<lparr>ps_next_timer_id := ps_next_timer_id p1\<rparr>"
      "\<forall>i. r = Some i \<longrightarrow> i \<le> i32_max \<and> om_get (ps_posix_timers p) i = None" by auto
    have "q\<lparr>ps_next_timer_id := n\<rparr> = p\<lparr>ps_next_timer_id := n\<rparr>" for n by (simp add: q_def)
    with p1 show ?thesis by metis
  qed
qed auto

lemma posix_timer_of_Inr: "posix_timer_of pid i s = Inr (p, tm) \<longleftrightarrow>
    om_get (sr_processes s) pid = Some p \<and> om_get (ps_posix_timers p) i = Some tm"
  by (auto simp: posix_timer_of_def res_bind_Inr_iff sr_process_def)

lemma process_ok_posix:
  assumes "process_ok p" "i \<le> i32_max" "valid_signal (pt_signal tm)"
  shows "process_ok (p\<lparr>ps_posix_timers := om_insert i tm (ps_posix_timers p)\<rparr>)"
    "process_ok (p\<lparr>ps_posix_timers := om_remove i (ps_posix_timers p)\<rparr>)"
  using assms
  by (auto simp: process_ok_def ps_action_def om_ok_insert om_get_insert om_ok_remove om_get_remove split: if_splits)

lemma posix_inv:
  assumes inv: "sig_inv s"
  shows "sig_inv (snd (create_posix_timer pid clock signal s))"
    "sig_inv (snd (set_posix_timer pid i spec mt rt absolute s))"
    "sig_inv (snd (delete_posix_timer pid i s))"
proof -
  have up: "sig_inv (put_process pid q s)" if "om_get (sr_processes s) pid = Some p" "process_ok q" "ps_real q = ps_real p" for p q
    using update_process_inv [OF inv that] .
  show "sig_inv (snd (create_posix_timer pid clock signal s))"
  proof (cases "om_get (sr_processes s) pid")
    case (Some p)
    obtain r p1 where f: "find_timer_id (length (ps_posix_timers p) + 1) p = (r, p1)" by fastforce
    note sp = find_timer_id_spec [OF f sig_invD(4) [OF inv Some]]
    then have re: "ps_real p1 = ps_real p" by (metis process_signals.select_convs(3) process_signals.surjective process_signals.update_convs(7))
    have "sig_inv (put_process pid p1 s)" using up [OF Some] sp re by blast
    moreover have "sig_inv (put_process pid (p1\<lparr>ps_posix_timers := om_insert j (pt_new clock signal) (ps_posix_timers p1)\<rparr>) s)"
      if "r = Some j" "valid_signal signal" for j
      using up [OF Some process_ok_posix(1) [of p1 j "pt_new clock signal"]] sp that re by (simp add: pt_new_def)
    ultimately show ?thesis
      using Some f inv by (auto simp: create_posix_timer_def sig_try_process split: option.splits)
  qed (simp add: create_posix_timer_def sig_try_process inv)
  have known: "process_ok p" "i \<le> i32_max" "valid_signal (pt_signal tm)" "om_get (sr_processes s) pid = Some p"
    if "posix_timer_of pid i s = Inr (p, tm)" for p tm
    using that sig_invD(4) [OF inv, of pid p] by (auto simp: posix_timer_of_Inr process_ok_def)
  show "sig_inv (snd (set_posix_timer pid i spec mt rt absolute s))"
    using up known process_ok_posix(1) inv
    by (auto simp: set_posix_timer_def sig_try_def Let_def split: sum.splits)
  show "sig_inv (snd (delete_posix_timer pid i s))"
    using up known process_ok_posix(2) inv
    by (auto simp: delete_posix_timer_def sig_try_def split: sum.splits)
qed

lemma expire_timers_ok: "process_ok p \<Longrightarrow> process_ok (snd (expire_timers_of mt rt p)) \<and> ps_real (snd (expire_timers_of mt rt p)) = ps_real p"
proof -
  assume ok: "process_ok p"
  have "pt_signal (snd (pt_expire mt rt tm)) = pt_signal tm" for tm
    by (simp add: pt_expire_def Let_def split: option.splits)
  then show ?thesis
    using ok om_get_values [of "\<lambda>(i :: nat) tm. snd (pt_expire mt rt tm)"] om_ok_values [of "\<lambda>(i :: nat) tm. snd (pt_expire mt rt tm)"]
    by (auto simp: process_ok_def expire_timers_of_def ps_action_def)
qed

lemma expire_posix_inv:
  assumes inv: "sig_inv s"
  shows "sig_inv (snd (expire_posix_timers mt rt s))"
proof -
  define f where "f pid p = snd (expire_timers_of mt rt p)" for pid :: nat and p
  have "sig_inv (s\<lparr>sr_processes := map (\<lambda>(pid, p). (pid, f pid p)) (sr_processes s)\<rparr>)"
    using inv expire_timers_ok [of _ mt rt]
    by (auto simp: sig_inv_at_def om_get_values om_ok_values f_def listed_def)
  then show ?thesis by (simp add: expire_posix_timers_def Let_def send_each_inv f_def)
qed

lemma account_inv:
  assumes inv: "sig_inv s"
  shows "sig_inv (snd (account_cpu pid u v s))"
proof (cases "om_get (sr_processes s) pid")
  case (Some p)
  note ok = sig_invD(4) [OF inv Some]
  obtain ve vt pe pt where e: "it_expire (sat_add u128_max (ps_user_cpu p) u) (ps_virtual p) = (ve, vt)"
    "it_expire (sat_add u128_max (ps_total_cpu p) v) (ps_prof p) = (pe, pt)" by fastforce
  define q where "q = p\<lparr>ps_user_cpu := sat_add u128_max (ps_user_cpu p) u, ps_total_cpu := sat_add u128_max (ps_total_cpu p) v,
    ps_virtual := vt, ps_prof := pt\<rparr>"
  have arm: "timer_armed_ok vt" "timer_armed_ok pt"
    using it_expire_armed [of "ps_virtual p" "sat_add u128_max (ps_user_cpu p) u"]
      it_expire_armed [of "ps_prof p" "sat_add u128_max (ps_total_cpu p) v"] ok e by (simp_all add: process_ok_def)
  have 1: "sig_inv (put_process pid q s)"
    by (rule update_process_inv [OF inv Some]) (simp_all add: q_def process_ok_timers(2) [OF ok arm])
  have 2: "sig_inv (snd (send_process pid SIGVTALRM (put_process pid q s)))" by (rule send_process_inv [OF 1])
  show ?thesis
    using 1 2 send_process_inv [OF 1, of pid SIGPROF] send_process_inv [OF 2, of pid SIGPROF]
    by (cases ve; cases pe)
      (auto simp: account_cpu_def sig_try_process Some Let_def e q_def [symmetric] sig_try_def [of "res_bind _ _"]
        split: prod.splits sum.splits)
qed (simp add: account_cpu_def sig_try_process inv)

section \<open>Expiry of the real timers\<close>

text \<open>A process whose real timer is due, and what the expiry makes of it.\<close>

definition real_due :: "nat \<Rightarrow> process_signals \<Rightarrow> bool" where
  "real_due now p \<longleftrightarrow> (\<exists>d. it_deadline (ps_real p) = Some d \<and> d \<le> now)"

definition alarmed :: "nat \<Rightarrow> process_signals \<Rightarrow> process_signals" where
  "alarmed now p = p\<lparr>ps_real := snd (it_expire now (ps_real p)),
     ps_pending := (if sa_is_ignore (ps_action p SIGALRM) then ps_pending p else ss_insert SIGALRM (ps_pending p))\<rparr>"

text \<open>The processes in \<open>pids\<close> are alarmed and nothing else changes.\<close>

definition alarms :: "nat \<Rightarrow> nat list \<Rightarrow> sig_registry \<Rightarrow> sig_registry \<Rightarrow> bool" where
  "alarms now pids s s' \<longleftrightarrow> distinct pids \<and> sr_threads s' = sr_threads s \<and>
     (\<forall>pid. if pid \<in> set pids
        then \<exists>p. om_get (sr_processes s) pid = Some p \<and> real_due now p \<and> om_get (sr_processes s') pid = Some (alarmed now p)
        else om_get (sr_processes s') pid = om_get (sr_processes s) pid)"

lemma alarms_refl: "alarms now [] s s"
  by (simp add: alarms_def)

lemma alarmsD:
  assumes "alarms now pids s s'"
  shows "pid \<in> set pids \<Longrightarrow> \<exists>p. om_get (sr_processes s) pid = Some p \<and> real_due now p \<and> om_get (sr_processes s') pid = Some (alarmed now p)"
    "pid \<notin> set pids \<Longrightarrow> om_get (sr_processes s') pid = om_get (sr_processes s) pid"
  using assms by (auto simp: alarms_def)

lemma alarmed_not_due:
  assumes "now < u128_max" "real_due now p"
  shows "\<not> real_due now (alarmed now p)"
proof -
  obtain d where d: "it_deadline (ps_real p) = Some d" "d \<le> now" using assms(2) by (auto simp: real_due_def)
  from it_expire_due [OF d assms(1)] show ?thesis
    using assms(1) by (auto simp: real_due_def alarmed_def split: if_splits)
qed

lemma alarms_trans:
  assumes n: "now < u128_max" and a: "alarms now xs s s1" and b: "alarms now ys s1 s2"
  shows "alarms now (xs @ ys) s s2"
proof -
  have "False" if x: "pid \<in> set xs" and y: "pid \<in> set ys" for pid
  proof -
    obtain p where p: "real_due now p" "om_get (sr_processes s1) pid = Some (alarmed now p)"
      using alarmsD(1) [OF a x] by blast
    obtain q where "om_get (sr_processes s1) pid = Some q" "real_due now q"
      using alarmsD(1) [OF b y] by blast
    with p alarmed_not_due [OF n p(1)] show False by simp
  qed
  then have d: "distinct (xs @ ys)" "\<And>pid. pid \<in> set xs \<Longrightarrow> pid \<notin> set ys"
    using a b by (auto simp: alarms_def)
  have "if pid \<in> set (xs @ ys)
        then \<exists>p. om_get (sr_processes s) pid = Some p \<and> real_due now p \<and> om_get (sr_processes s2) pid = Some (alarmed now p)
        else om_get (sr_processes s2) pid = om_get (sr_processes s) pid" for pid
    using alarmsD [OF a, of pid] alarmsD [OF b, of pid] d(2) [of pid]
    by (cases "pid \<in> set xs"; cases "pid \<in> set ys") auto
  with d a b show ?thesis by (simp add: alarms_def)
qed

lemma send_alarm:
  assumes "om_get (sr_processes s) pid = Some p"
  shows "\<exists>d. send_process pid SIGALRM s = (Inr d, put_process pid
    (p\<lparr>ps_pending := (if sa_is_ignore (ps_action p SIGALRM) then ps_pending p else ss_insert SIGALRM (ps_pending p))\<rparr>) s)
    \<or> send_process pid SIGALRM s = (Inr d, s) \<and> sa_is_ignore (ps_action p SIGALRM)"
  using assms by (auto simp: send_process_def generation_delivery_def sr_process_def Let_def)

text \<open>The keys of the index: new ones lie in the future.\<close>

definition no_new_keys :: "nat \<Rightarrow> sig_registry \<Rightarrow> sig_registry \<Rightarrow> bool" where
  "no_new_keys now s s' \<longleftrightarrow> (\<forall>d \<le> now. om_get (sr_real_deadlines s) d = None \<longrightarrow> om_get (sr_real_deadlines s') d = None)"

lemma send_process_deadlines: "sr_real_deadlines (snd (send_process pid sig s)) = sr_real_deadlines s"
  by (auto simp: send_process_def sig_try_def Let_def split: sum.splits)

lemma alarm_step:
  assumes inv: "sig_inv_at d (e # es) s" and now: "now < u128_max"
    and p: "om_get (sr_processes s) (rd_pid e) = Some p" "it_generation (ps_real p) = rd_generation e"
      "it_deadline (ps_real p) = Some d" "d \<le> now"
  shows "\<exists>o1 s'. expire_entry now d e s = ([o1], s') \<and> sig_inv_at d es s' \<and> alarms now [rd_pid e] s s' \<and> no_new_keys now s s'"
proof -
  obtain tm where tm: "it_expire now (ps_real p) = (True, tm)" "it_generation tm = it_generation (ps_real p)"
    "\<forall>x. it_deadline tm = Some x \<longrightarrow> now < x"
    using it_expire_due [OF p(3,4) now] now by (auto split: if_splits)
  define q where "q = p\<lparr>ps_real := tm\<rparr>"
  define s2 where "s2 = (case it_deadline (ps_real q) of None \<Rightarrow> put_process (rd_pid e) q s
      | Some x \<Rightarrow> sr_add_deadline x \<lparr>rd_pid = rd_pid e, rd_generation = it_generation (ps_real q)\<rparr> (put_process (rd_pid e) q s))"
  have okq: "process_ok q"
    using process_ok_timers(1) [OF sig_invD(4) [OF inv p(1)] it_expire_armed [of "ps_real p" now]] tm(1)
      sig_invD(4) [OF inv p(1)] by (simp add: q_def process_ok_def)
  have inv2: "sig_inv_at d (e # es) s2" by (rule arm_real_inv [OF inv okq s2_def])
  have get2: "om_get (sr_processes s2) = (om_get (sr_processes s))(rd_pid e \<mapsto> q)" "sr_threads s2 = sr_threads s"
    by (auto simp: s2_def split: option.splits)
  have inv3: "sig_inv_at d es s2"
  proof -
    have "listed d es s2 pid (ps_real x)" if x: "om_get (sr_processes s2) pid = Some x" for pid x
    proof (cases "pid = rd_pid e")
      case True
      then have "x = q" using x get2 by simp
      then show ?thesis
        using True add_deadline_listed(2) [of "ps_real q"]
        by (cases "it_deadline (ps_real q)") (auto simp: s2_def listed_def)
    next
      case False
      then have "\<lparr>rd_pid = pid, rd_generation = g\<rparr> \<noteq> e" for g by (auto)
      then show ?thesis using sig_invD(5) [OF inv2 x] by (auto simp: listed_def Let_def)
    qed
    then show ?thesis using inv2 by (simp add: sig_inv_at_def)
  qed
  have keys: "no_new_keys now s s2"
    using tm(3) by (auto simp: no_new_keys_def s2_def add_deadline_get q_def split: option.splits)
  obtain dd where dd: "send_process (rd_pid e) SIGALRM s2 = (Inr dd, snd (send_process (rd_pid e) SIGALRM s2))"
    "om_get (sr_processes (snd (send_process (rd_pid e) SIGALRM s2))) = (om_get (sr_processes s2))(rd_pid e \<mapsto> alarmed now p)"
    "sr_threads (snd (send_process (rd_pid e) SIGALRM s2)) = sr_threads s2"
  proof -
    have al: "alarmed now p = q\<lparr>ps_pending := (if sa_is_ignore (ps_action q SIGALRM) then ps_pending q else ss_insert SIGALRM (ps_pending q))\<rparr>"
      by (simp add: alarmed_def q_def tm(1) ps_action_def)
    have same: "q = alarmed now p" if "sa_is_ignore (ps_action q SIGALRM)" using that by (simp add: al)
    have g: "om_get (sr_processes s2) (rd_pid e) = Some q" using get2 by simp
    show ?thesis
      using send_alarm [OF g, folded al] that get2 same by (auto simp: fun_upd_idem)
  qed
  have ex: "expire_entry now d e s = ([dd], snd (send_process (rd_pid e) SIGALRM s2))"
  proof -
    have s2: "(case it_deadline tm of None \<Rightarrow> put_process (rd_pid e) (p\<lparr>ps_real := tm\<rparr>) s
      | Some x \<Rightarrow> sr_add_deadline x \<lparr>rd_pid = rd_pid e, rd_generation = it_generation tm\<rparr> (put_process (rd_pid e) (p\<lparr>ps_real := tm\<rparr>) s)) = s2"
      by (simp add: s2_def q_def split: option.splits)
    show ?thesis
      using p(1-3) tm(1) dd(1) by (auto simp: expire_entry_def Let_def s2 split: prod.splits)
  qed
  have due: "real_due now p" using p(3,4) by (auto simp: real_due_def)
  have "sig_inv_at d es (snd (send_process (rd_pid e) SIGALRM s2))" by (rule send_process_inv [OF inv3])
  moreover have "alarms now [rd_pid e] s (snd (send_process (rd_pid e) SIGALRM s2))"
    using dd(2,3) get2 p(1) due by (simp add: alarms_def)
  moreover have "no_new_keys now s (snd (send_process (rd_pid e) SIGALRM s2))"
    using keys by (simp add: no_new_keys_def send_process_deadlines)
  ultimately show ?thesis using ex by blast
qed

lemma stale_step:
  assumes inv: "sig_inv_at d (e # es) s"
    and st: "\<And>p. om_get (sr_processes s) (rd_pid e) = Some p \<Longrightarrow> it_generation (ps_real p) \<noteq> rd_generation e \<or> it_deadline (ps_real p) \<noteq> Some d"
  shows "expire_entry now d e s = ([], s)" "sig_inv_at d es s"
proof -
  show "expire_entry now d e s = ([], s)" using st by (auto simp: expire_entry_def split: option.splits)
  have "listed d es s pid (ps_real x)" if "om_get (sr_processes s) pid = Some x" for pid x
    using sig_invD(5) [OF inv that] st [of x] that by (auto simp: listed_def Let_def)
  then show "sig_inv_at d es s" using inv by (simp add: sig_inv_at_def)
qed

lemma no_new_keys_trans: "no_new_keys now a b \<Longrightarrow> no_new_keys now b c \<Longrightarrow> no_new_keys now a c"
  by (auto simp: no_new_keys_def)

lemma entries_spec:
  assumes "sig_inv_at d es s" "now < u128_max" "d \<le> now"
  shows "\<exists>out s' pids. expire_entries now d es s = (out, s') \<and> sig_inv_at d [] s' \<and> alarms now pids s s' \<and>
    length out = length pids \<and> no_new_keys now s s'"
  using assms(1)
proof (induction es arbitrary: s)
  case Nil
  then show ?case using alarms_refl [of now s] by (auto simp: no_new_keys_def)
next
  case (Cons e es)
  obtain o1 s1 xs where 1: "expire_entry now d e s = (o1, s1)" "sig_inv_at d es s1" "alarms now xs s s1" "length o1 = length xs"
    "no_new_keys now s s1"
  proof (cases "\<exists>p. om_get (sr_processes s) (rd_pid e) = Some p \<and> it_generation (ps_real p) = rd_generation e \<and>
      it_deadline (ps_real p) = Some d")
    case True
    then obtain p where p: "om_get (sr_processes s) (rd_pid e) = Some p" "it_generation (ps_real p) = rd_generation e"
      "it_deadline (ps_real p) = Some d" by blast
    obtain o1 s' where "expire_entry now d e s = ([o1], s')" "sig_inv_at d es s'" "alarms now [rd_pid e] s s'" "no_new_keys now s s'"
      using alarm_step [OF Cons.prems assms(2) p assms(3)] by blast
    then show ?thesis by (intro that [of "[o1]" s' "[rd_pid e]"]) auto
  next
    case False
    then have st: "it_generation (ps_real p) \<noteq> rd_generation e \<or> it_deadline (ps_real p) \<noteq> Some d"
      if "om_get (sr_processes s) (rd_pid e) = Some p" for p using that by blast
    show ?thesis
      by (rule that [of "[]" s "[]"])
        (use stale_step(1) [OF Cons.prems st, of now] stale_step(2) [OF Cons.prems st] alarms_refl [of now s] in \<open>auto simp: no_new_keys_def\<close>)
  qed
  obtain o2 s2 ys where 2: "expire_entries now d es s1 = (o2, s2)" "sig_inv_at d [] s2" "alarms now ys s1 s2"
    "length o2 = length ys" "no_new_keys now s1 s2" using Cons.IH [OF 1(2)] by blast
  have "alarms now (xs @ ys) s s2" by (rule alarms_trans [OF assms(2) 1(3) 2(3)])
  then show ?case using 1 2 no_new_keys_trans [OF 1(5) 2(5)] by (auto intro!: exI [of _ "xs @ ys"])
qed

lemma sig_inv_nil: "sig_inv_at d [] s \<longleftrightarrow> sig_inv s"
  by (auto simp: sig_inv_at_def listed_def)

lemma buckets_spec:
  assumes "sig_inv s" "now < u128_max" "\<forall>d \<in> set ds. d \<le> now"
  shows "\<exists>out s' pids. expire_buckets now ds s = (out, s') \<and> sig_inv s' \<and> alarms now pids s s' \<and> length out = length pids \<and>
    no_new_keys now s s' \<and> (\<forall>d \<in> set ds. om_get (sr_real_deadlines s') d = None)"
  using assms(1,3)
proof (induction ds arbitrary: s)
  case Nil
  then show ?case using alarms_refl [of now s] by (auto simp: no_new_keys_def)
next
  case (Cons d ds)
  define es where "es = (case om_get (sr_real_deadlines s) d of None \<Rightarrow> [] | Some es \<Rightarrow> es)"
  define s0 where "s0 = s\<lparr>sr_real_deadlines := om_remove d (sr_real_deadlines s)\<rparr>"
  note okd = sig_invD(3) [OF Cons.prems(1)]
  have get0: "om_get (sr_real_deadlines s0) = (om_get (sr_real_deadlines s))(d := None)"
    by (simp add: s0_def om_get_remove [OF okd])
  have "listed d es s0 pid tm" if "listed 0 [] s pid tm" for pid tm
    using that by (auto simp: listed_def Let_def get0 es_def)
  then have inv0: "sig_inv_at d es s0"
    using Cons.prems(1) by (auto simp: sig_inv_at_def s0_def om_ok_remove)
  have d: "d \<le> now" using Cons.prems(2) by simp
  obtain o1 s1 xs where 1: "expire_entries now d es s0 = (o1, s1)" "sig_inv s1" "alarms now xs s0 s1" "length o1 = length xs"
    "no_new_keys now s0 s1" using entries_spec [OF inv0 assms(2) d] unfolding sig_inv_nil [of d] by blast
  obtain o2 s2 ys where 2: "expire_buckets now ds s1 = (o2, s2)" "sig_inv s2" "alarms now ys s1 s2" "length o2 = length ys"
    "no_new_keys now s1 s2" "\<forall>d \<in> set ds. om_get (sr_real_deadlines s2) d = None"
    using Cons.IH [OF 1(2)] Cons.prems(2) by auto
  have "sr_processes s0 = sr_processes s" "sr_threads s0 = sr_threads s" by (simp_all add: s0_def)
  then have a: "alarms now xs s s1" using 1(3) unfolding alarms_def by metis
  have "no_new_keys now s s0" by (simp add: no_new_keys_def get0)
  then have k: "no_new_keys now s s2" "om_get (sr_real_deadlines s2) d = None"
    using no_new_keys_trans 1(5) 2(5) d by (blast, simp add: no_new_keys_def get0)
  have "expire_buckets now (d # ds) s = (o1 @ o2, s2)"
    using 1(1) 2(1) by (simp add: Let_def es_def [symmetric] s0_def [symmetric])
  then show ?case using 1(4) 2(2,4,6) k alarms_trans [OF assms(2) a 2(3)] by (auto intro!: exI [of _ "xs @ ys"])
qed

lemma expire_realtime_spec:
  assumes inv: "sig_inv s" and now: "now < u128_max"
  shows "\<exists>out s' pids. expire_realtime now s = (out, s') \<and> sig_inv s' \<and> alarms now pids s s' \<and> length out = length pids \<and>
    (\<forall>pid p. om_get (sr_processes s') pid = Some p \<longrightarrow> \<not> real_due now p)"
proof -
  let ?ds = "map fst (filter (\<lambda>e. fst e \<le> now) (sr_real_deadlines s))"
  obtain out s' pids where b: "expire_buckets now ?ds s = (out, s')" "sig_inv s'" "alarms now pids s s'" "length out = length pids"
    "no_new_keys now s s'" "\<forall>d \<in> set ?ds. om_get (sr_real_deadlines s') d = None"
    using buckets_spec [OF inv now, of ?ds] by auto
  have empty: "om_get (sr_real_deadlines s') d = None" if "d \<le> now" for d
  proof (cases "om_get (sr_real_deadlines s) d")
    case None
    then show ?thesis using b(5) that by (simp add: no_new_keys_def)
  next
    case (Some es)
    then have "(d, es) \<in> set (sr_real_deadlines s)" using om_get_iff [OF sig_invD(3) [OF inv]] by blast
    then have "d \<in> set ?ds" using that by force
    then show ?thesis using b(6) by blast
  qed
  have "\<not> real_due now p" if "om_get (sr_processes s') pid = Some p" for pid p
    using sig_invD(5) [OF b(2) that] empty by (auto simp: real_due_def listed_def Let_def)
  then show ?thesis using b by (auto simp: expire_realtime_def)
qed

end
