(* ===== verification/Signal_System.thy ===== *)
theory Signal_System
  imports Signal_Deliver Signal_Expiry
begin

text \<open>
  The signal service as a state machine: one operation per function of \<open>global.rs\<close> that changes the
  registry, and the states they can reach from the empty registry. \<open>SIGSTOP\<close> may not be forced on a
  thread as a fault nor put back as a pending record, because it is never taken as one.
\<close>

datatype sig_op =
    SigEnsure nat nat nat "(nat \<times> nat) list"
  | SigFork nat nat nat nat
  | SigRegisterThread nat nat nat
  | SigExec nat "nat list"
  | SigDropThread nat
  | SigDropProcess nat
  | SigDropEmpty nat
  | SigExit nat nat bool
  | SigSendThread nat nat
  | SigForce nat nat
  | SigSendProcess nat nat
  | SigTakePending nat signal_set
  | SigRestore nat taken_signal
  | SigTakeDeliverable nat
  | SigTakeKill nat
  | SigSetAction nat nat signal_action
  | SigUpdateMask nat nat "signal_set option"
  | SigBeginSuspend nat signal_set
  | SigEndSuspend nat
  | SigBeginPoll nat signal_set
  | SigEndPoll nat
  | SigBeginWait nat signal_set
  | SigEndWait nat
  | SigReplaceStack nat alt_stack
  | SigEnterFrame nat bool
  | SigLeaveFrame nat signal_set nat
  | SigSetTimer nat nat timer_spec nat
  | SigCreatePosix nat posix_clock nat
  | SigSetPosix nat nat timer_spec nat nat bool
  | SigDeletePosix nat nat
  | SigAccount nat nat nat
  | SigExpireReal nat
  | SigExpirePosix nat nat

fun sig_exec :: "sig_op \<Rightarrow> sig_registry \<Rightarrow> sig_registry" where
  "sig_exec (SigEnsure pid leader tid ts) s = snd (ensure_process pid leader tid ts s)"
| "sig_exec (SigFork parent pid t tid) s = snd (sig_fork_process parent pid t tid s)"
| "sig_exec (SigRegisterThread parent t tid) s = snd (sig_register_thread parent t tid s)"
| "sig_exec (SigExec t removed) s = snd (exec_process_removing t removed s)"
| "sig_exec (SigDropThread t) s = drop_thread t s"
| "sig_exec (SigDropProcess pid) s = drop_process pid s"
| "sig_exec (SigDropEmpty t) s = drop_thread_and_empty_process t s"
| "sig_exec (SigExit t pid b) s = exit_thread t pid b s"
| "sig_exec (SigSendThread t sig) s = snd (send_thread t sig s)"
| "sig_exec (SigForce t sig) s = snd (force_thread_signal t sig s)"
| "sig_exec (SigSendProcess pid sig) s = snd (send_process pid sig s)"
| "sig_exec (SigTakePending t m) s = snd (take_pending_record t m s)"
| "sig_exec (SigRestore t r) s = snd (restore_pending_record t r s)"
| "sig_exec (SigTakeDeliverable t) s = snd (take_deliverable t s)"
| "sig_exec (SigTakeKill t) s = snd (take_sigkill t s)"
| "sig_exec (SigSetAction t sig a) s = snd (set_action t sig a s)"
| "sig_exec (SigUpdateMask t how m) s = snd (update_mask t how m s)"
| "sig_exec (SigBeginSuspend t m) s = snd (begin_sigsuspend t m s)"
| "sig_exec (SigEndSuspend t) s = snd (end_sigsuspend t s)"
| "sig_exec (SigBeginPoll t m) s = snd (begin_poll_sigmask t m s)"
| "sig_exec (SigEndPoll t) s = snd (end_poll_sigmask t s)"
| "sig_exec (SigBeginWait t m) s = snd (begin_signal_wait t m s)"
| "sig_exec (SigEndWait t) s = snd (end_signal_wait t s)"
| "sig_exec (SigReplaceStack t a) s = snd (replace_alternate_stack t a s)"
| "sig_exec (SigEnterFrame t b) s = snd (enter_signal_frame t b s)"
| "sig_exec (SigLeaveFrame t m sp) s = snd (return_from_frame t m sp s)"
| "sig_exec (SigSetTimer pid which spec now) s = snd (set_timer pid which spec now s)"
| "sig_exec (SigCreatePosix pid clock sig) s = snd (create_posix_timer pid clock sig s)"
| "sig_exec (SigSetPosix pid i spec mt rt absolute) s = snd (set_posix_timer pid i spec mt rt absolute s)"
| "sig_exec (SigDeletePosix pid i) s = snd (delete_posix_timer pid i s)"
| "sig_exec (SigAccount pid u v) s = snd (account_cpu pid u v s)"
| "sig_exec (SigExpireReal now) s = snd (expire_realtime now s)"
| "sig_exec (SigExpirePosix mt rt) s = snd (expire_posix_timers mt rt s)"

fun sig_allowed :: "sig_op \<Rightarrow> bool" where
  "sig_allowed (SigForce t sig) \<longleftrightarrow> sig \<noteq> SIGSTOP"
| "sig_allowed (SigRestore t r) \<longleftrightarrow> tk_signal r \<noteq> SIGSTOP"
| "sig_allowed (SigExpireReal now) \<longleftrightarrow> now < u128_max"
| "sig_allowed _ \<longleftrightarrow> True"

inductive sig_step :: "sig_registry \<Rightarrow> sig_op \<Rightarrow> sig_registry \<Rightarrow> bool" where
  step: "sig_allowed op \<Longrightarrow> sig_step s op (sig_exec op s)"

inductive_cases sig_stepE: "sig_step s op s'"

inductive sig_reach :: "sig_registry \<Rightarrow> bool" where
  start: "sig_reach sr_new"
| run: "sig_reach s \<Longrightarrow> sig_step s op s' \<Longrightarrow> sig_reach s'"

lemma sr_new_inv: "sig_inv sr_new"
  by (simp add: sig_inv_at_def sr_new_def om_get_def)

lemma take_deliverable_cases:
  "(take_deliverable t s = (None, s) \<and> (om_get (sr_threads s) t = None \<or> \<not> (\<exists>th p. holds_at t th p s))) \<or>
   (\<exists>th p. holds_at t th p s)" if "om_ok (sr_threads s)" "om_ok (sr_processes s)"
  using that
  by (subst take_deliverable.simps) (auto simp: holds_at_def split: option.splits)

lemma acted_ok:
  assumes "process_ok p" "thread_ok th" "valid_signal sig" "sig \<noteq> SIGSTOP" "acted sig sc th p = (e, th', p')"
  shows "process_ok p' \<and> thread_ok th' \<and> ps_real p' = ps_real p"
proof -
  have m: "blockable (previous_mask th)" using assms(2) by (auto simp: previous_mask_def thread_ok_def split: option.splits)
  have h: "blockable (sa_mask (ps_action p sig))" by (rule process_ok_mask [OF assms(1,3)])
  have "process_ok (ps_set_action sig default_action p)" by (rule process_ok_action [OF assms(1,3)]) simp_all
  then show ?thesis
    using assms m h by (auto simp: acted_def Let_def thread_ok_def split: if_splits)
qed

lemma lose_ok:
  "thread_ok th \<Longrightarrow> thread_ok (th_lose m th)" "process_ok p \<Longrightarrow> process_ok (ps_lose m p) \<and> ps_real (ps_lose m p) = ps_real p"
  by (auto simp: th_lose_def ps_lose_def thread_ok_def process_ok_def ps_action_def)

lemma drop_ok:
  "drop_signal sig th p = (th1, p1) \<Longrightarrow> thread_ok th \<Longrightarrow> process_ok p \<Longrightarrow>
    thread_ok th1 \<and> process_ok p1 \<and> ps_real p1 = ps_real p"
  by (auto simp: drop_signal_def thread_ok_fields process_ok_pending split: if_splits)

lemma delivered_ok:
  assumes ok: "process_ok p" "thread_ok th" and d: "delivered th p = (r, th', p')"
  shows "process_ok p' \<and> thread_ok th' \<and> ps_real p' = ps_real p"
proof (cases "chosen th p")
  case None
  have "thread_ok (th_end th)" if "thread_ok th" for th using that by (auto simp: th_end_def thread_ok_def split: option.splits)
  then show ?thesis using d None ok lose_ok by (auto simp: delivered_def Let_def split: if_splits)
next
  case (Some sig)
  then have c: "ss_contains (deliverable_set th p) sig" by (simp add: chosen_Some)
  then have v: "valid_signal sig" "sig \<noteq> SIGSTOP"
    using ok ss_contains_valid by (auto simp: deliverable_contains thread_ok_def process_ok_def)
  let ?G = "ss_below sig (deliverable_set th p)"
  obtain th1 p1 where d1: "drop_signal sig (th_lose ?G th) (ps_lose ?G p) = (th1, p1)" by fastforce
  obtain e th2 p2 where a: "acted sig (scope_of sig th) th1 p1 = (e, th2, p2)" by (metis prod_cases3)
  have "thread_ok th1 \<and> process_ok p1 \<and> ps_real p1 = ps_real p"
    using drop_ok [OF d1] lose_ok(1) [OF ok(2), of ?G] lose_ok(2) [OF ok(1), of ?G] by simp
  with acted_ok [OF _ _ v a] d Some d1 a show ?thesis by (auto simp: delivered_def Let_def)
qed

lemma take_deliverable_inv:
  assumes inv: "sig_inv s"
  shows "sig_inv (snd (take_deliverable t s))"
proof -
  consider "take_deliverable t s = (None, s)" | th p where "holds_at t th p s"
    using take_deliverable_cases [OF sig_invD(2,1) [OF inv]] by blast
  then show ?thesis
  proof cases
    case 1
    then show ?thesis using inv by simp
  next
    case (2 th p)
    then have g: "om_get (sr_threads s) t = Some th" "om_get (sr_processes s) (th_pid th) = Some p"
      by (simp_all add: holds_at_def)
    note ok = sig_invD(4) [OF inv g(2)] sig_invD(6) [OF inv g(1)]
    obtain r th' p' where d: "delivered th p = (r, th', p')" by (metis prod_cases3)
    note new = delivered_ok [OF ok d]
    have pid: "th_pid th' = th_pid th" using d by (rule delivered_pid)
    have 1: "sig_inv (put_process (th_pid th') p' s)" using update_process_inv [OF inv g(2)] new pid by simp
    have "sig_inv (put_both t th' p' s)"
      by (rule update_thread_inv [OF 1, of t th]) (use new pid g in simp_all)
    then show ?thesis using take_deliverable_eq [OF 2 ok(1) d] by simp
  qed
qed

lemma sig_exec_inv:
  assumes inv: "sig_inv s" and ok: "sig_allowed op"
  shows "sig_inv (sig_exec op s)"
proof (cases op)
  case (SigExpireReal now)
  then show ?thesis using expire_realtime_spec [OF inv, of now] ok by auto
next
  case (SigExit t pid b)
  then show ?thesis using drop_thread_inv [OF inv] drop_process_inv by (simp add: exit_thread_def Let_def)
qed (use inv ok in \<open>simp_all add: ensure_process_def register_missing_inv register_process_inv fork_inv register_thread_inv
    exec_process_removing_def exec_inv fold_drop_inv drop_thread_inv drop_process_inv drop_empty_inv send_thread_inv force_inv
    send_process_inv take_record_inv restore_record_inv take_deliverable_inv take_sigkill_inv set_action_inv thread_fields_inv
    return_from_frame_inv set_timer_inv posix_inv account_inv expire_posix_inv\<close>)

lemma sig_reach_inv: "sig_reach s \<Longrightarrow> sig_inv s"
proof (induction rule: sig_reach.induct)
  case (run s op s')
  from run(2) obtain "sig_allowed op" "s' = sig_exec op s" by (rule sig_stepE)
  with run(3) show ?case by (simp add: sig_exec_inv)
qed (rule sr_new_inv)

end
