(* ===== verification/Signal_Props.thy ===== *)
theory Signal_Props
  imports Signal_System
begin

text \<open>
  What the signal subsystem promises in every state its operations can reach: well-formed tables,
  exact generation and delivery of signals, no lost signal, and exact expiry of the real timers.
\<close>

section \<open>A state to apply the theorems at\<close>

text \<open>Process 10 has the threads 100 and 101; it catches signal 10 and has its real timer armed.\<close>

definition demo_signals :: sig_registry where
  "demo_signals = fold sig_exec
     [SigEnsure 10 100 10 [(101, 11)], SigSetAction 100 10 \<lparr>sa_handler = 4096, sa_flags = 0, sa_restorer = 0, sa_mask = 0\<rparr>,
      SigSetTimer 10 0 \<lparr>ts_interval = 10, ts_value = 20\<rparr> 100, SigSendProcess 10 10] sr_new"

lemma reach_fold: "sig_reach s \<Longrightarrow> list_all sig_allowed ops \<Longrightarrow> sig_reach (fold sig_exec ops s)"
  by (induction ops arbitrary: s) (auto intro: sig_reach.run sig_step.step)

lemma demo_reach: "sig_reach demo_signals"
  unfolding demo_signals_def by (rule reach_fold [OF sig_reach.start]) simp

lemmas demo_eval = demo_signals_def ensure_process_def register_process_def sr_new_def put_process_def put_thread_def
  om_insert_def om_get_def has_thread_def sig_register_thread_def set_action_def sr_thread_def sr_process_def
  ps_set_action_def ps_action_def set_timer_def ps_timer_clock_def ps_timer_def ps_put_timer_def it_replace_def it_new_def
  ITIMER_REAL_def sr_add_deadline_def send_process_def generation_delivery_def valid_signal_def immutable_signal_def
  sa_is_ignore_def signal_numbers th_new_def ps_new_def default_action_def process_target_def Let_def sat_add_def u128_max_def

lemma demo_tables:
  "\<exists>p. om_get (sr_processes demo_signals) 10 = Some p \<and> ps_pending p = ss_insert 10 0 \<and>
     ps_action p 10 = \<lparr>sa_handler = 4096, sa_flags = 0, sa_restorer = 0, sa_mask = unmaskable 0\<rparr> \<and>
     it_deadline (ps_real p) = Some 120 \<and> ps_action p SIGALRM = default_action \<and> it_interval (ps_real p) = 10"
  "\<exists>th. om_get (sr_threads demo_signals) 100 = Some th \<and> th_pid th = 10 \<and> th_mask th = 0 \<and> th_pending th = 0 \<and>
     th_restore th = None"
  by (simp_all add: demo_eval)

section \<open>Well-formed tables\<close>

lemma i32_less: "i \<le> i32_max \<longleftrightarrow> i < 2 ^ 31"
  by (auto simp: i32_max_def)

text \<open>
  C26. Types of the signal tables. In every reachable state each thread belongs to a registered
  process; no thread blocks \<open>SIGKILL\<close> or \<open>SIGSTOP\<close>, nor would after the end of a temporary mask, nor
  does a handler's mask name them; both keep their default disposition; \<open>SIGSTOP\<close> is never pending;
  a process has 64 dispositions, its POSIX timers have valid signals and distinct numbers below
  $2^{31}$; and an armed real timer has an entry in the deadline index with its generation.
\<close>

theorem signal_registry_typed:
  assumes "sig_reach s"
  shows "(\<forall>t th. om_get (sr_threads s) t = Some th \<longrightarrow> (\<exists>p. om_get (sr_processes s) (th_pid th) = Some p) \<and>
      (\<forall>sig \<in> {SIGKILL, SIGSTOP}. \<not> ss_contains (th_mask th) sig \<and> (\<forall>m. th_restore th = Some m \<longrightarrow> \<not> ss_contains m sig)) \<and>
      \<not> ss_contains (th_pending th) SIGSTOP) \<and>
    (\<forall>pid p. om_get (sr_processes s) pid = Some p \<longrightarrow> length (ps_actions p) = 64 \<and> \<not> ss_contains (ps_pending p) SIGSTOP \<and>
      (\<forall>sig \<in> {SIGKILL, SIGSTOP}. sa_is_default (ps_action p sig) \<and>
         (\<forall>i. valid_signal i \<longrightarrow> \<not> ss_contains (sa_mask (ps_action p i)) sig)) \<and>
      distinct (map fst (ps_posix_timers p)) \<and>
      (\<forall>i tm. om_get (ps_posix_timers p) i = Some tm \<longrightarrow> i < 2 ^ 31 \<and> valid_signal (pt_signal tm)) \<and>
      (\<forall>d. it_deadline (ps_real p) = Some d \<longrightarrow> (\<exists>es. om_get (sr_real_deadlines s) d = Some es \<and>
         \<lparr>rd_pid = pid, rd_generation = it_generation (ps_real p)\<rparr> \<in> set es)))"
proof -
  note inv = sig_reach_inv [OF assms]
  have "\<not> ss_contains (sa_mask (ps_action p i)) SIGKILL \<and> \<not> ss_contains (sa_mask (ps_action p i)) SIGSTOP"
    if "om_get (sr_processes s) pid = Some p" "valid_signal i" for pid p i
    using process_ok_mask [OF sig_invD(4) [OF inv that(1)] that(2)] by (simp add: blockable_def)
  moreover have "distinct (map fst (ps_posix_timers p))" "length (ps_actions p) = 64" "\<not> ss_contains (ps_pending p) SIGSTOP"
    "sa_is_default (ps_action p SIGKILL)" "sa_is_default (ps_action p SIGSTOP)"
    "\<forall>i tm. om_get (ps_posix_timers p) i = Some tm \<longrightarrow> i < 2 ^ 31 \<and> valid_signal (pt_signal tm)"
    if "om_get (sr_processes s) pid = Some p" for pid p
    using sig_invD(4) [OF inv that] om_ok_distinct by (auto simp: process_ok_def NSIG_def i32_less)
  moreover have "\<exists>es. om_get (sr_real_deadlines s) d = Some es \<and> \<lparr>rd_pid = pid, rd_generation = it_generation (ps_real p)\<rparr> \<in> set es"
    if "om_get (sr_processes s) pid = Some p" "it_deadline (ps_real p) = Some d" for pid p d
    using sig_invD(5) [OF inv that(1)] that(2) by (auto simp: listed_def Let_def)
  moreover have "\<exists>p. om_get (sr_processes s) (th_pid th) = Some p" "blockable (th_mask th)" "\<not> ss_contains (th_pending th) SIGSTOP"
    "\<forall>m. th_restore th = Some m \<longrightarrow> blockable m" if "om_get (sr_threads s) t = Some th" for t th
    using sig_invD(6,7) [OF inv that] by (simp_all add: thread_ok_def)
  ultimately show ?thesis by (auto simp: blockable_def)
qed

theorem signal_registry_typed_witness:
  "\<exists>th p es. om_get (sr_threads demo_signals) 100 = Some th \<and> om_get (sr_processes demo_signals) (th_pid th) = Some p \<and>
     \<not> ss_contains (th_mask th) SIGKILL \<and> sa_is_default (ps_action p SIGKILL) \<and> om_get (sr_real_deadlines demo_signals) 120 = Some es \<and>
     \<lparr>rd_pid = 10, rd_generation = it_generation (ps_real p)\<rparr> \<in> set es"
  using signal_registry_typed [OF demo_reach] demo_tables by fastforce

section \<open>Delivery\<close>

text \<open>
  The outcome of a delivery to thread \<open>th\<close> of process \<open>p\<close>: the effect, and the thread and process
  afterwards.
\<close>

definition delivery_outcome :: "thread_signals \<Rightarrow> process_signals \<Rightarrow> signal_effect option \<Rightarrow> thread_signals \<Rightarrow>
    process_signals \<Rightarrow> bool" where
  "delivery_outcome th p r th' p' \<longleftrightarrow> th_pid th' = th_pid th \<and>
    (case r of
       None \<Rightarrow> (\<forall>i. ss_contains (deliverable_set th p) i \<longrightarrow> discarded p i) \<and>
         (\<forall>i. ss_contains (th_pending th') i \<longleftrightarrow> ss_contains (th_pending th) i \<and> ss_contains (th_mask th) i) \<and>
         (\<forall>i. ss_contains (ps_pending p') i \<longleftrightarrow> ss_contains (ps_pending p) i \<and> ss_contains (th_mask th) i) \<and>
         th_mask th' = (if deliverable_set th p = 0 then th_mask th else previous_mask th)
     | Some e \<Rightarrow> \<exists>sig. ss_contains (deliverable_set th p) sig \<and> \<not> discarded p sig \<and>
         (\<forall>i < sig. ss_contains (deliverable_set th p) i \<longrightarrow> discarded p i) \<and>
         (\<forall>i. ss_contains (th_pending th') i \<longleftrightarrow>
            ss_contains (th_pending th) i \<and> i \<noteq> sig \<and> (i < sig \<longrightarrow> ss_contains (th_mask th) i)) \<and>
         (\<forall>i. ss_contains (ps_pending p') i \<longleftrightarrow> ss_contains (ps_pending p) i \<and>
            (i = sig \<longrightarrow> ss_contains (th_pending th) sig) \<and> (i < sig \<longrightarrow> ss_contains (th_mask th) i)) \<and>
         th_restore th' = None \<and>
         (case e of
            TerminateEffect g \<Rightarrow> g = sig \<and> (sig = SIGKILL \<or> sa_is_default (ps_action p sig) \<and> default_terminates sig)
          | StopEffect g \<Rightarrow> g = sig \<and> sa_is_default (ps_action p sig) \<and> default_stops sig \<and> th_mask th' = previous_mask th
          | ContinueEffect g \<Rightarrow> g = sig \<and> sig = SIGCONT \<and> \<not> has_user_handler (ps_action p sig) \<and> th_mask th' = previous_mask th
          | HandlerEffect h \<Rightarrow> pg_signal h = sig \<and> has_user_handler (ps_action p sig) \<and> pg_action h = ps_action p sig \<and>
              pg_previous_mask h = previous_mask th \<and> pg_scope h = (if ss_contains (th_pending th) sig then ThreadScope else ProcessScope) \<and>
              (\<forall>i. ss_contains (th_mask th') i \<longleftrightarrow> ss_contains (th_mask th) i \<or> ss_contains (sa_mask (ps_action p sig)) i \<or>
                 i = sig \<and> sa_flags (ps_action p sig) AND SA_NODEFER = 0)))"

text \<open>
  C27. Delivery. In every reachable state a registered thread that takes a deliverable signal gets
  the least pending, unblocked signal that is not discarded (ignored, or ignored by default), with
  the effect its current disposition gives; the discarded ones below it are consumed, the signal
  itself leaves the thread's own set, or the process's if only that has it, and nothing else
  changes. A handler runs with its own mask added, and the mask it returns to is the one in force
  before a temporary mask. It gets nothing exactly when every deliverable signal is discarded; then
  all of them are consumed, and a temporary mask ends if there was one.
\<close>

theorem take_deliverable_correct:
  assumes "sig_reach s" "om_get (sr_threads s) t = Some th" "om_get (sr_processes s) (th_pid th) = Some p"
  shows "\<exists>r th' p'. take_deliverable t s = (r, put_thread t th' (put_process (th_pid th) p' s)) \<and>
    delivery_outcome th p r th' p'"
proof -
  note inv = sig_reach_inv [OF assms(1)]
  have h: "holds_at t th p s" using sig_invD(1,2) [OF inv] assms(2,3) by (simp add: holds_at_def)
  note ok = sig_invD(4) [OF inv assms(3)]
  obtain r th' p' where d: "delivered th p = (r, th', p')" by (metis prod_cases3)
  have pid: "th_pid th' = th_pid th" using d by (rule delivered_pid)
  have td: "take_deliverable t s = (r, put_thread t th' (put_process (th_pid th) p' s))"
    using take_deliverable_eq [OF h ok d] pid by simp
  show ?thesis
  proof (cases "chosen th p")
    case None
    have e: "r = None" "p' = ps_lose (deliverable_set th p) p"
      "th' = (if deliverable_set th p = 0 then th else th_end (th_lose (deliverable_set th p) th))"
      using d None by (simp_all add: delivered_def Let_def split: if_splits)
    have z: "deliverable_set th p = 0 \<Longrightarrow> ss_contains (th_pending th) i \<longrightarrow> ss_contains (th_mask th) i" for i
      using deliverable_contains [of th p i] by auto
    have t: "ss_contains (th_pending th') i \<longleftrightarrow> ss_contains (th_pending th) i \<and> ss_contains (th_mask th) i" for i
      using e(3) z [of i] by (auto simp: th_end_def th_lose_def deliverable_contains split: option.splits if_splits)
    have m: "th_mask th' = (if deliverable_set th p = 0 then th_mask th else previous_mask th)"
      using e(3) by (auto simp: th_end_def th_lose_def previous_mask_def split: option.splits)
    have "delivery_outcome th p r th' p'"
      using pid t m None e(1,2) by (auto simp: delivery_outcome_def chosen_None ps_lose_def deliverable_contains)
    with td show ?thesis by blast
  next
    case (Some sig)
    note c = chosen_Some [THEN iffD1, OF Some]
    let ?G = "ss_below sig (deliverable_set th p)"
    obtain th1 p1 where d1: "drop_signal sig (th_lose ?G th) (ps_lose ?G p) = (th1, p1)" by fastforce
    obtain e th2 p2 where a: "acted sig (scope_of sig th) th1 p1 = (e, th2, p2)" by (metis prod_cases3)
    have r: "r = Some e" "th' = th2" "p' = p2" using d Some d1 a by (simp_all add: delivered_def Let_def)
    note f = drop_fields [OF d1]
    have act: "ps_action p1 i = ps_action p i" for i using f(4) by (simp add: ps_action_def ps_lose_def)
    have th1: "th_mask th1 = th_mask th" "previous_mask th1 = previous_mask th"
      using f(1,2) by (simp_all add: th_lose_def previous_mask_def split: option.splits)
    have pend1: "ss_contains (th_pending th1) i \<longleftrightarrow> ss_contains (th_pending th) i \<and> i \<noteq> sig \<and> (i < sig \<longrightarrow> ss_contains (th_mask th) i)"
      "ss_contains (ps_pending p1) i \<longleftrightarrow> ss_contains (ps_pending p) i \<and> (i = sig \<longrightarrow> ss_contains (th_pending th) sig) \<and>
         (i < sig \<longrightarrow> ss_contains (th_mask th) i)" for i
      using f(8,9) [of i] by (auto simp: th_lose_def ps_lose_def ss_below_contains deliverable_contains)
    have pend2: "th_pending th2 = th_pending th1" "ps_pending p2 = ps_pending p1" "th_restore th2 = None"
      using a by (auto simp: acted_def Let_def split: if_splits)
    have eff: "case e of
            TerminateEffect g \<Rightarrow> g = sig \<and> (sig = SIGKILL \<or> sa_is_default (ps_action p sig) \<and> default_terminates sig)
          | StopEffect g \<Rightarrow> g = sig \<and> sa_is_default (ps_action p sig) \<and> default_stops sig \<and> th_mask th' = previous_mask th
          | ContinueEffect g \<Rightarrow> g = sig \<and> sig = SIGCONT \<and> \<not> has_user_handler (ps_action p sig) \<and> th_mask th' = previous_mask th
          | HandlerEffect h \<Rightarrow> pg_signal h = sig \<and> has_user_handler (ps_action p sig) \<and> pg_action h = ps_action p sig \<and>
              pg_previous_mask h = previous_mask th \<and> pg_scope h = (if ss_contains (th_pending th) sig then ThreadScope else ProcessScope) \<and>
              (\<forall>i. ss_contains (th_mask th') i \<longleftrightarrow> ss_contains (th_mask th) i \<or> ss_contains (sa_mask (ps_action p sig)) i \<or>
                 i = sig \<and> sa_flags (ps_action p sig) AND SA_NODEFER = 0)"
    proof -
      have v: "valid_signal sig" using c ss_contains_valid by blast
      have uh: "has_user_handler (ps_action p sig)"
        if "\<not> (sig = SIGKILL \<or> sa_is_default (ps_action p sig) \<and> default_terminates sig)"
          "\<not> (sa_is_default (ps_action p sig) \<and> default_stops sig)" "\<not> (sig = SIGCONT \<and> \<not> has_user_handler (ps_action p sig))"
        using that c discarded_code [OF ok v] handler_cases [of "ps_action p sig"] by (auto simp: Let_def)
      let ?A = "sig = SIGKILL \<or> sa_is_default (ps_action p sig) \<and> default_terminates sig"
      let ?B = "sa_is_default (ps_action p sig) \<and> default_stops sig"
      let ?C = "sig = SIGCONT \<and> \<not> has_user_handler (ps_action p sig)"
      note ac = a [unfolded acted_def Let_def act]
      consider (dead) ?A | (stop) "\<not> ?A" ?B | (cont) "\<not> ?A" "\<not> ?B" ?C | (hand) "\<not> ?A" "\<not> ?B" "\<not> ?C" by blast
      then show ?thesis
      proof cases
        case dead
        then show ?thesis using ac unfolding if_P [OF dead] by auto
      next
        case stop
        then show ?thesis using ac th1(2) r(2) unfolding if_not_P [OF stop(1)] if_P [OF stop(2)] by auto
      next
        case cont
        then show ?thesis
          using ac th1(2) r(2) unfolding if_not_P [OF cont(1)] if_not_P [OF cont(2)] if_P [OF cont(3)] by auto
      next
        case hand
        from ac [unfolded if_not_P [OF hand(1)] if_not_P [OF hand(2)] if_not_P [OF hand(3)]]
        have e: "e = HandlerEffect \<lparr>pg_signal = sig, pg_scope = scope_of sig th, pg_action = ps_action p sig,
            pg_previous_mask = previous_mask th1\<rparr>"
          "th_mask th2 = (if sa_flags (ps_action p sig) AND SA_NODEFER = 0 then ss_insert sig (ss_union (th_mask th1) (sa_mask (ps_action p sig)))
             else ss_union (th_mask th1) (sa_mask (ps_action p sig)))" by auto
        show ?thesis using uh [OF hand] v th1 e(2) r(2) unfolding e(1) by (auto simp: scope_of_def)
      qed
    qed
    have "delivery_outcome th p r th' p'"
      unfolding delivery_outcome_def r option.case pend2
      by (rule conjI [OF pid [unfolded r]], rule exI [of _ sig], intro conjI)
        (rule refl eff [unfolded r] conjunct1 [OF c] conjunct1 [OF conjunct2 [OF c]] conjunct2 [OF conjunct2 [OF c]]
          allI [OF pend1(1)] allI [OF pend1(2)])+
    with td show ?thesis by blast
  qed
qed


theorem take_deliverable_correct_witness:
  "\<exists>h s'. take_deliverable 100 demo_signals = (Some (HandlerEffect h), s') \<and> pg_signal h = 10 \<and> pg_scope h = ProcessScope \<and>
     pg_previous_mask h = 0"
proof -
  obtain p where p: "om_get (sr_processes demo_signals) 10 = Some p" "ps_pending p = ss_insert 10 0"
    "ps_action p 10 = \<lparr>sa_handler = 4096, sa_flags = 0, sa_restorer = 0, sa_mask = unmaskable 0\<rparr>" using demo_tables(1) by blast
  obtain th where th: "om_get (sr_threads demo_signals) 100 = Some th" "th_pid th = 10" "th_mask th = 0" "th_pending th = 0"
    "th_restore th = None" using demo_tables(2) by blast
  have "valid_signal 10" by (simp add: valid_signal_def NSIG_def)
  then have d: "ss_contains (deliverable_set th p) i \<longleftrightarrow> i = 10" for i
    using th p(2) by (auto simp: deliverable_contains)
  have nd: "\<not> discarded p 10"
    using p(3) by (simp add: discarded_def sa_is_ignore_def sa_is_default_def SIG_IGN_def SIG_DFL_def)
  from take_deliverable_correct [OF demo_reach th(1), of p] p(1) th(2) obtain r th' p' where
    r: "take_deliverable 100 demo_signals = (r, put_thread 100 th' (put_process 10 p' demo_signals))"
      "delivery_outcome th p r th' p'" by auto
  obtain e where e: "r = Some e"
    using r(2) nd d by (cases r) (auto simp: delivery_outcome_def)
  have "\<exists>h. e = HandlerEffect h \<and> pg_signal h = 10 \<and> pg_scope h = ProcessScope \<and> pg_previous_mask h = 0"
    using r(2) p(3) th(3,4,5)
    by (cases e) (auto simp: e delivery_outcome_def d signal_numbers sa_is_default_def previous_mask_def)
  with r(1) e show ?thesis by auto
qed

section \<open>Generation\<close>

text \<open>A pending signal interrupts the sleep of a thread that waits for it, or that would react to it.\<close>

definition interrupts :: "nat \<Rightarrow> process_signals \<Rightarrow> thread_signals \<Rightarrow> bool" where
  "interrupts sig p th \<longleftrightarrow> (case th_waiting_for th of None \<Rightarrow> False | Some m \<Rightarrow> ss_contains m sig) \<or>
     \<not> ss_contains (th_mask th) sig \<and> \<not> (sa_is_default (ps_action p sig) \<and> default_ignored sig)"

definition delivery_of :: "nat \<Rightarrow> process_signals \<Rightarrow> signal_delivery" where
  "delivery_of sig p = (if sig = SIGSTOP then StopNow else if sa_is_ignore (ps_action p sig) then Ignored
     else if sig = SIGCONT then ContinueNow else Pending)"

definition recorded :: "nat \<Rightarrow> process_signals \<Rightarrow> bool" where
  "recorded sig p \<longleftrightarrow> delivery_of sig p = Pending \<or> delivery_of sig p = ContinueNow \<and> has_user_handler (ps_action p sig)"

lemma generation_eq:
  "om_get (sr_processes s) pid = Some p \<Longrightarrow> valid_signal sig \<Longrightarrow> generation_delivery pid sig s = Inr (delivery_of sig p)"
  by (simp add: generation_delivery_def delivery_of_def sr_process_def Let_def)

lemma min_by_key_None: "min_by_key f xs = None \<longleftrightarrow> xs = []"
  by (cases xs) (auto split: option.splits)

lemma min_by_key_spec: "min_by_key f xs = Some x \<Longrightarrow> x \<in> set xs \<and> (\<forall>y \<in> set xs. f x \<le> f y)"
proof (induction xs arbitrary: x)
  case (Cons a xs)
  show ?case
  proof (cases "min_by_key f xs")
    case None
    then show ?thesis using Cons.prems by (auto simp: min_by_key_None)
  next
    case (Some y)
    then show ?thesis using Cons.IH [OF Some] Cons.prems by (auto split: if_splits)
  qed
qed simp

lemma should_wake_eq:
  "om_get (sr_threads s) t = Some th \<Longrightarrow> om_get (sr_processes s) (th_pid th) = Some p \<Longrightarrow>
    pending_should_wake t sig s \<longleftrightarrow> interrupts sig p th"
  by (auto simp: pending_should_wake_def interrupts_def sr_thread_def split: option.splits)

text \<open>The first thread of a process, by task number, that a signal interrupts.\<close>

definition first_interrupted :: "nat \<Rightarrow> nat \<Rightarrow> process_signals \<Rightarrow> sig_registry \<Rightarrow> nat option \<Rightarrow> bool" where
  "first_interrupted pid sig p s r \<longleftrightarrow>
     (let hit = (\<lambda>t. \<exists>th. om_get (sr_threads s) t = Some th \<and> th_pid th = pid \<and> interrupts sig p th)
      in case r of None \<Rightarrow> \<forall>t. \<not> hit t | Some t \<Rightarrow> hit t \<and> (\<forall>u < t. \<not> hit u))"

lemma find_sorted:
  assumes "om_ok m" "find P m = Some e"
  shows "e \<in> set m" "P e" "\<forall>x \<in> set m. fst x < fst e \<longrightarrow> \<not> P x"
proof -
  obtain i where i: "i < length m" "P (m ! i)" "e = m ! i" "\<forall>j < i. \<not> P (m ! j)"
    using assms(2) by (auto simp: find_Some_iff)
  then show "e \<in> set m" "P e" by auto
  have srt: "sorted_wrt (<) (map fst m)" using assms(1) by (simp add: om_ok_def)
  show "\<forall>x \<in> set m. fst x < fst e \<longrightarrow> \<not> P x"
  proof (intro ballI impI)
    fix x assume x: "x \<in> set m" "fst x < fst e"
    then obtain j where j: "j < length m" "x = m ! j" by (metis in_set_conv_nth)
    have "\<not> i \<le> j"
    proof
      assume "i \<le> j"
      then have "fst e \<le> fst x" using sorted_wrt_nth_less [OF srt, of i j] i(1,3) j by (cases "i = j") auto
      with x(2) show False by simp
    qed
    then show "\<not> P x" using i(4) j by simp
  qed
qed

lemma wake_target:
  assumes ok: "om_ok (sr_threads s)" and p: "om_get (sr_processes s) pid = Some p"
  shows "first_interrupted pid sig p s
    (map_option fst (find (\<lambda>(i, th). th_pid th = pid \<and> pending_should_wake i sig s) (sr_threads s)))"
proof -
  let ?P = "\<lambda>(i, th). th_pid th = pid \<and> pending_should_wake i sig s"
  have P: "?P (i, th) \<longleftrightarrow> th_pid th = pid \<and> interrupts sig p th" if "(i, th) \<in> set (sr_threads s)" for i th
    using should_wake_eq [of s i th p sig] that p om_get_iff [OF ok] by auto
  show ?thesis
  proof (cases "find ?P (sr_threads s)")
    case None
    then have "\<not> (th_pid th = pid \<and> interrupts sig p th)" if "(i, th) \<in> set (sr_threads s)" for i th
      using P [OF that] that unfolding find_None_iff by blast
    then show ?thesis unfolding None using om_get_iff [OF ok] by (auto simp: first_interrupted_def)
  next
    case (Some e)
    obtain i th where e: "e = (i, th)" by fastforce
    note f = find_sorted [OF ok Some]
    have hit: "om_get (sr_threads s) i = Some th" "th_pid th = pid" "interrupts sig p th"
      using f(1,2) P [of i th] om_get_iff [OF ok] by (auto simp: e)
    moreover have "\<not> (\<exists>th. om_get (sr_threads s) u = Some th \<and> th_pid th = pid \<and> interrupts sig p th)" if "u < i" for u
    proof
      assume "\<exists>th. om_get (sr_threads s) u = Some th \<and> th_pid th = pid \<and> interrupts sig p th"
      then obtain x where x: "(u, x) \<in> set (sr_threads s)" "th_pid x = pid \<and> interrupts sig p x" using om_get_iff [OF ok] by blast
      with f(3) that P [OF x(1)] show False by (auto simp: e)
    qed
    ultimately show ?thesis using Some by (auto simp: first_interrupted_def e)
  qed
qed

text \<open>
  C28. Generation. In every reachable state, sending a valid signal to a registered process or
  thread succeeds; whether it is dropped, stops, continues or becomes pending is decided by the
  number and the disposition; it is added to the process's set, or to the thread's own, exactly when
  it becomes pending or is a caught \<open>SIGCONT\<close>, and nothing else changes. The task to wake for a pending
  signal is the first thread of the process that the signal interrupts, and there is none only if it
  interrupts no thread; a stop or continuation names the thread with the least thread number.
\<close>

theorem send_signal_correct:
  assumes "sig_reach s" "om_get (sr_processes s) pid = Some p" "valid_signal sig"
  shows "(\<exists>d. send_process pid sig s =
      (Inr d, if recorded sig p then put_process pid (p\<lparr>ps_pending := ss_insert sig (ps_pending p)\<rparr>) s else s) \<and>
    sd_delivery d = delivery_of sig p \<and> (sd_delivery d = Ignored \<longrightarrow> sd_target d = None) \<and>
    (sd_delivery d = Pending \<longrightarrow> first_interrupted pid sig p s (sd_target d)) \<and>
    (sd_delivery d = StopNow \<or> sd_delivery d = ContinueNow \<longrightarrow>
      (case sd_target d of
         None \<Rightarrow> \<forall>t th. om_get (sr_threads s) t = Some th \<longrightarrow> th_pid th \<noteq> pid
       | Some t \<Rightarrow> \<exists>th. om_get (sr_threads s) t = Some th \<and> th_pid th = pid \<and>
           (\<forall>u x. om_get (sr_threads s) u = Some x \<longrightarrow> th_pid x = pid \<longrightarrow> th_tid th \<le> th_tid x)))) \<and>
    (\<forall>t th. om_get (sr_threads s) t = Some th \<longrightarrow> th_pid th = pid \<longrightarrow>
      send_thread t sig s =
        (Inr \<lparr>sd_delivery = delivery_of sig p,
           sd_target = (if delivery_of sig p = Ignored \<or> delivery_of sig p = Pending \<and> \<not> interrupts sig p th then None else Some t)\<rparr>,
         if recorded sig p then put_thread t (th\<lparr>th_pending := ss_insert sig (th_pending th)\<rparr>) s else s))"
proof -
  note inv = sig_reach_inv [OF assms(1)]
  note ok = sig_invD(2) [OF inv]
  note g = generation_eq [OF assms(2,3)]
  have tg: "case process_target pid sig dl s of
         None \<Rightarrow> \<forall>t th. om_get (sr_threads s) t = Some th \<longrightarrow> th_pid th \<noteq> pid
       | Some t \<Rightarrow> \<exists>th. om_get (sr_threads s) t = Some th \<and> th_pid th = pid \<and>
           (\<forall>u x. om_get (sr_threads s) u = Some x \<longrightarrow> th_pid x = pid \<longrightarrow> th_tid th \<le> th_tid x)"
    if "dl = StopNow \<or> dl = ContinueNow" for dl
  proof -
    have mine: "set (filter (\<lambda>(i, th). th_pid th = pid \<and> (dl = StopNow \<or> dl = ContinueNow \<or> \<not> ss_contains (th_mask th) sig \<or>
           (case th_waiting_for th of None \<Rightarrow> False | Some m \<Rightarrow> ss_contains m sig))) (sr_threads s)) =
        {(i, th). om_get (sr_threads s) i = Some th \<and> th_pid th = pid}"
      using that om_get_iff [OF ok] by auto
    show ?thesis
    proof (cases "process_target pid sig dl s")
      case None
      then show ?thesis using mine by (auto simp: process_target_def min_by_key_None)
    next
      case (Some t)
      then obtain th where "min_by_key (\<lambda>e. th_tid (snd e)) (filter (\<lambda>(i, th). th_pid th = pid \<and> (dl = StopNow \<or> dl = ContinueNow \<or>
           \<not> ss_contains (th_mask th) sig \<or> (case th_waiting_for th of None \<Rightarrow> False | Some m \<Rightarrow> ss_contains m sig))) (sr_threads s)) = Some (t, th)"
        by (auto simp: process_target_def)
      from min_by_key_spec [OF this, unfolded mine] Some show ?thesis by fastforce
    qed
  qed
  let ?p = "p\<lparr>ps_pending := ss_insert sig (ps_pending p)\<rparr>"
  have wk: "first_interrupted pid sig p s (map_option fst (find (\<lambda>(i, th). th_pid th = pid \<and> pending_should_wake i sig (put_process pid ?p s)) (sr_threads s)))"
    using wake_target [of "put_process pid ?p s" pid ?p sig] ok
    by (simp add: first_interrupted_def interrupts_def ps_action_def)
  have "\<exists>d. send_process pid sig s = (Inr d, if recorded sig p then put_process pid ?p s else s) \<and>
    sd_delivery d = delivery_of sig p \<and> (sd_delivery d = Ignored \<longrightarrow> sd_target d = None) \<and>
    (sd_delivery d = Pending \<longrightarrow> first_interrupted pid sig p s (sd_target d)) \<and>
    (sd_delivery d = StopNow \<or> sd_delivery d = ContinueNow \<longrightarrow> sd_target d = process_target pid sig (delivery_of sig p) s)"
    using wk assms(2) g by (cases "delivery_of sig p") (simp_all add: send_process_def sig_try_process Let_def recorded_def dispatch_defs)
  then obtain d where d: "send_process pid sig s = (Inr d, if recorded sig p then put_process pid ?p s else s) \<and>
    sd_delivery d = delivery_of sig p \<and> (sd_delivery d = Ignored \<longrightarrow> sd_target d = None) \<and>
    (sd_delivery d = Pending \<longrightarrow> first_interrupted pid sig p s (sd_target d)) \<and>
    (sd_delivery d = StopNow \<or> sd_delivery d = ContinueNow \<longrightarrow> sd_target d = process_target pid sig (delivery_of sig p) s)" by blast
  have "send_thread t sig s =
        (Inr \<lparr>sd_delivery = delivery_of sig p,
           sd_target = (if delivery_of sig p = Ignored \<or> delivery_of sig p = Pending \<and> \<not> interrupts sig p th then None else Some t)\<rparr>,
         if recorded sig p then put_thread t (th\<lparr>th_pending := ss_insert sig (th_pending th)\<rparr>) s else s)"
    if "om_get (sr_threads s) t = Some th" "th_pid th = pid" for t th
  proof -
    let ?th = "th\<lparr>th_pending := ss_insert sig (th_pending th)\<rparr>"
    have "pending_should_wake t sig (put_thread t ?th s) \<longleftrightarrow> interrupts sig p th"
      using should_wake_eq [of "put_thread t ?th s" t ?th p sig] that assms(2) by (simp add: interrupts_def)
    then show ?thesis
      using that assms(2) g
      by (cases "delivery_of sig p") (auto simp: send_thread_def sig_try_thread sig_try_process Let_def recorded_def dispatch_defs)
  qed
  moreover have "sd_delivery d = StopNow \<or> sd_delivery d = ContinueNow \<Longrightarrow>
      (case sd_target d of
         None \<Rightarrow> \<forall>t th. om_get (sr_threads s) t = Some th \<longrightarrow> th_pid th \<noteq> pid
       | Some t \<Rightarrow> \<exists>th. om_get (sr_threads s) t = Some th \<and> th_pid th = pid \<and>
           (\<forall>u x. om_get (sr_threads s) u = Some x \<longrightarrow> th_pid x = pid \<longrightarrow> th_tid th \<le> th_tid x))"
  proof -
    assume a: "sd_delivery d = StopNow \<or> sd_delivery d = ContinueNow"
    have eq: "sd_target d = process_target pid sig (delivery_of sig p) s" using d a by blast
    have "delivery_of sig p = StopNow \<or> delivery_of sig p = ContinueNow" using d a by simp
    from tg [OF this] show ?thesis unfolding eq .
  qed
  ultimately show ?thesis using d by blast
qed

theorem send_signal_correct_witness:
  "\<exists>d s'. send_process 10 SIGKILL demo_signals = (Inr d, s') \<and> sd_delivery d = Pending \<and> sd_target d = Some 100"
proof -
  obtain p where p: "om_get (sr_processes demo_signals) 10 = Some p" using demo_tables(1) by blast
  obtain th where th: "om_get (sr_threads demo_signals) 100 = Some th" "th_pid th = 10" "th_mask th = 0" using demo_tables(2) by blast
  have def: "sa_is_default (ps_action p SIGKILL)" using signal_registry_typed [OF demo_reach] p by blast
  have dv: "delivery_of SIGKILL p = Pending" using handler_simps(4) def by (auto simp: delivery_of_def signal_numbers)
  from send_signal_correct [OF demo_reach p, of SIGKILL] obtain d s' where
    d: "send_process 10 SIGKILL demo_signals = (Inr d, s')" "sd_delivery d = Pending" "first_interrupted 10 SIGKILL p demo_signals (sd_target d)"
    by (auto simp: dv)
  have hit: "interrupts SIGKILL p th" using th(3) by (simp add: interrupts_def default_ignored_def signal_numbers)
  have none: "om_get (sr_threads demo_signals) u = None" if "u < 100" for u using that by (simp add: demo_eval)
  have "sd_target d = Some 100"
  proof (cases "sd_target d")
    case None
    then show ?thesis using d(3) th hit by (auto simp: first_interrupted_def)
  next
    case (Some t)
    then have "\<not> t < 100" "\<not> 100 < t" using d(3) none th hit by (auto simp: first_interrupted_def)
    then show ?thesis using Some by simp
  qed
  with d show ?thesis by blast
qed

section \<open>No signal is lost\<close>

primrec effect_signal :: "signal_effect \<Rightarrow> nat" where
  "effect_signal (HandlerEffect h) = pg_signal h"
| "effect_signal (TerminateEffect sig) = sig"
| "effect_signal (StopEffect sig) = sig"
| "effect_signal (ContinueEffect sig) = sig"

text \<open>The operations that take a pending signal of a process, and when they do.\<close>

fun consumes :: "sig_op \<Rightarrow> nat \<Rightarrow> nat \<Rightarrow> process_signals \<Rightarrow> sig_registry \<Rightarrow> bool" where
  "consumes (SigTakeDeliverable t) pid sig p s \<longleftrightarrow>
     (case om_get (sr_threads s) t of None \<Rightarrow> False | Some th \<Rightarrow>
        th_pid th = pid \<and> \<not> ss_contains (th_mask th) sig \<and>
        (discarded p sig \<or> map_option effect_signal (fst (take_deliverable t s)) = Some sig))"
| "consumes (SigTakePending t m) pid sig p s \<longleftrightarrow>
     (case om_get (sr_threads s) t of None \<Rightarrow> False | Some th \<Rightarrow>
        th_pid th = pid \<and> fst (take_pending_record t m s) = Some \<lparr>tk_signal = sig, tk_scope = ProcessScope\<rparr>)"
| "consumes (SigTakeKill t) pid sig p s \<longleftrightarrow> sig = SIGKILL \<and> fst (take_sigkill t s) \<and>
     (case om_get (sr_threads s) t of None \<Rightarrow> False | Some th \<Rightarrow> th_pid th = pid)"
| "consumes (SigSetAction t i a) pid sig p s \<longleftrightarrow> i = sig \<and> sa_is_ignore a \<and>
     (case om_get (sr_threads s) t of None \<Rightarrow> False | Some th \<Rightarrow> th_pid th = pid)"
| "consumes (SigFork parent child t tid) pid sig p s \<longleftrightarrow> child = pid"
| "consumes _ pid sig p s \<longleftrightarrow> False"

definition stays :: "nat \<Rightarrow> nat \<Rightarrow> sig_registry \<Rightarrow> sig_registry \<Rightarrow> bool" where
  "stays pid sig s s' \<longleftrightarrow> (\<forall>p. om_get (sr_processes s) pid = Some p \<longrightarrow> ss_contains (ps_pending p) sig \<longrightarrow>
     (\<exists>p'. om_get (sr_processes s') pid = Some p' \<and> ss_contains (ps_pending p') sig))"

named_theorems stays_intros

lemma stays_same [stays_intros]: "sr_processes s' = sr_processes s \<Longrightarrow> stays pid sig s s'"
  by (simp add: stays_def)

lemma stays_trans: "stays pid sig a b \<Longrightarrow> stays pid sig b c \<Longrightarrow> stays pid sig a c"
  unfolding stays_def by blast

lemma stays_put: "(\<And>q. om_get (sr_processes s) i = Some q \<Longrightarrow> ss_contains (ps_pending q) sig \<Longrightarrow> ss_contains (ps_pending p) sig) \<Longrightarrow>
    stays pid sig s (put_process i p s)"
  by (auto simp: stays_def)

lemma stays_modify_thread [stays_intros]: "stays pid sig s a \<Longrightarrow> stays pid sig s (modify_thread t f a)"
  by (auto simp: stays_def modify_thread_def split: option.splits)

lemma stays_put_thread [stays_intros]: "stays pid sig s a \<Longrightarrow> stays pid sig s (put_thread t th a)"
  by (simp add: stays_def)

lemma stays_send: "stays pid sig s (snd (send_process i k s))"
  by (auto simp: send_process_def sig_try_def sr_process_def Let_def ok_or_def stays_def split: sum.splits option.splits)

lemma stays_each: "stays pid sig s (snd (send_each es s))"
proof (induction es s rule: send_each.induct)
  case (2 i k rest s)
  show ?case
    using stays_trans [OF stays_send [of pid sig s i k]] 2
    by (cases "send_process i k s") (auto split: prod.splits)
qed (simp add: stays_same)

lemma stays_register: "stays pid sig s (register_process i t tid s)"
  by (auto simp: register_process_def Let_def intro!: stays_intros stays_put)

lemma stays_missing: "stays pid sig s (snd (register_missing leader ts s))"
proof (induction leader ts s rule: register_missing.induct)
  case (2 leader t tid rest s)
  have "stays pid sig s (snd (sig_register_thread leader t tid s))"
    by (auto simp: sig_register_thread_def sig_try_thread split: option.splits intro!: stays_intros)
  then show ?case using 2 by (auto split: sum.splits prod.splits intro: stays_trans)
qed (simp add: stays_same)

lemma fold_drop_processes: "sr_processes (fold drop_thread ts s) = sr_processes s"
  by (induction ts arbitrary: s) (simp_all add: drop_thread_def)

lemma stays_account: "stays pid sig s (snd (account_cpu i u v s))"
proof (cases "om_get (sr_processes s) i")
  case (Some p)
  obtain ve vt pe pt where e: "it_expire (sat_add u128_max (ps_user_cpu p) u) (ps_virtual p) = (ve, vt)"
    "it_expire (sat_add u128_max (ps_total_cpu p) v) (ps_prof p) = (pe, pt)" by fastforce
  define q where "q = p\<lparr>ps_user_cpu := sat_add u128_max (ps_user_cpu p) u, ps_total_cpu := sat_add u128_max (ps_total_cpu p) v,
    ps_virtual := vt, ps_prof := pt\<rparr>"
  have 1: "stays pid sig s (put_process i q s)" by (rule stays_put) (simp add: Some q_def)
  note 2 = stays_trans [OF 1 stays_send]
  show ?thesis
    using 1 2 [of i SIGVTALRM] 2 [of i SIGPROF] stays_trans [OF 2 [of i SIGVTALRM] stays_send, of i SIGPROF]
    by (cases ve; cases pe)
      (auto simp: account_cpu_def sig_try_process Some Let_def e q_def [symmetric] sig_try_def [of "res_bind _ _"]
        split: prod.splits sum.splits)
qed (simp add: account_cpu_def sig_try_process stays_same)

lemma stays_posix: "stays pid sig s (snd (expire_posix_timers mt rt s))"
proof -
  let ?s = "s\<lparr>sr_processes := map (\<lambda>(pid, p). (pid, snd (expire_timers_of mt rt p))) (sr_processes s)\<rparr>"
  have "stays pid sig s ?s"
    using om_get_values [of "\<lambda>(i :: nat) p. snd (expire_timers_of mt rt p)" "sr_processes s" pid]
    by (auto simp: stays_def expire_timers_of_def)
  from stays_trans [OF this stays_each] show ?thesis by (simp add: expire_posix_timers_def Let_def)
qed

lemma stays_realtime: "sig_inv s \<Longrightarrow> now < u128_max \<Longrightarrow> stays pid sig s (snd (expire_realtime now s))"
proof -
  assume "sig_inv s" "now < u128_max"
  then obtain out s' pids where e: "expire_realtime now s = (out, s')" "alarms now pids s s'" using expire_realtime_spec by blast
  then show ?thesis
    using alarmsD [OF e(2), of pid] by (cases "pid \<in> set pids") (auto simp: stays_def alarmed_def)
qed

lemma stays_timers:
  "stays pid sig s (snd (set_timer i which spec now s))" "stays pid sig s (snd (create_posix_timer i clock k s))"
  "stays pid sig s (snd (set_posix_timer i j spec mt rt absolute s))" "stays pid sig s (snd (delete_posix_timer i j s))"
proof -
  have "ps_pending (snd (find_timer_id k p)) = ps_pending p" for k p
    by (induction k p rule: find_timer_id.induct) (simp_all add: Let_def)
  then have f: "ps_pending p1 = ps_pending p" if "find_timer_id k p = (r, p1)" for k p r p1 using that by (metis snd_conv)
  show "stays pid sig s (snd (create_posix_timer i clock k s))"
    by (auto simp: create_posix_timer_def sig_try_process dest!: f split: option.splits prod.splits
        simp del: find_timer_id.simps intro!: stays_intros stays_put)
  have a: "stays pid sig s a \<Longrightarrow> stays pid sig s (sr_add_deadline d e a)" for d e a by (simp add: stays_def)
  have b: "ps_pending (ps_put_timer w tm p) = ps_pending p" for w tm p by (simp add: ps_put_timer_def)
  show "stays pid sig s (snd (set_timer i which spec now s))"
    by (auto simp: set_timer_def sr_process_def ok_or_def sig_try_def Let_def b split: option.splits sum.splits
        intro!: stays_intros stays_put a)
  show "stays pid sig s (snd (set_posix_timer i j spec mt rt absolute s))" "stays pid sig s (snd (delete_posix_timer i j s))"
    by (auto simp: set_posix_timer_def delete_posix_timer_def sig_try_def posix_timer_of_Inr Let_def
        split: sum.splits intro!: stays_intros stays_put)
qed

lemma stays_threads:
  "stays pid sig s (snd (replace_alternate_stack t a s))" "stays pid sig s (snd (enter_signal_frame t b s))"
  "stays pid sig s (snd (leave_signal_frame t b s))" "stays pid sig s (snd (replace_mask t m s))"
  "stays pid sig s (snd (begin_sigsuspend t m s))" "stays pid sig s (snd (end_sigsuspend t s))"
  "stays pid sig s (snd (begin_poll_sigmask t m s))" "stays pid sig s (snd (end_poll_sigmask t s))"
  "stays pid sig s (snd (begin_signal_wait t m s))" "stays pid sig s (snd (end_signal_wait t s))"
  "stays pid sig s (snd (update_mask t how c s))" "stays pid sig s (snd (sig_register_thread t u tid s))"
  "stays pid sig s (snd (restore_pending_record t r s))" "stays pid sig s (snd (send_thread t k s))"
  "stays pid sig s (snd (force_thread_signal t k s))"
proof -
  show "stays pid sig s (snd (force_thread_signal t k s))"
    by (auto simp: force_thread_signal_def sig_try_thread sig_try_process Let_def split: option.splits
        intro!: stays_intros stays_put)
  show "stays pid sig s (snd (send_thread t k s))"
    by (auto simp: send_thread_def sig_try_def Let_def split: sum.splits signal_delivery.splits intro!: stays_intros)
  show "stays pid sig s (snd (restore_pending_record t r s))"
    by (auto simp: restore_pending_record_def sig_try_thread sig_try_process split: option.splits pending_scope.splits
        intro!: stays_intros stays_put)
qed (auto simp: thread_ops sig_register_thread_def sig_try_thread Let_def split: option.splits intro!: stays_intros)

lemma stays_exec: "stays pid sig s (snd (exec_process_removing t ts s))"
proof -
  have 1: "stays pid sig s (fold drop_thread ts s)" by (rule stays_same) (rule fold_drop_processes)
  have "stays pid sig s1 (snd (sig_exec_process t s1))" for s1
    by (auto simp: sig_exec_process_def sig_try_thread sig_try_process Let_def split: option.splits
        intro!: stays_intros stays_put)
  with 1 show ?thesis by (auto simp: exec_process_removing_def intro: stays_trans)
qed

lemma stays_frame: "stays pid sig s (snd (return_from_frame t m sp s))"
  using stays_threads(4) [of pid sig s t m] stays_threads(3)
  by (auto simp: return_from_frame_def sig_try_def split: sum.splits prod.splits intro: stays_trans stays_same)

text \<open>
  C29. No lost signal. In every reachable state a signal that is pending for a process stays pending
  through every operation, unless the process is removed or replaced, its disposition is set to
  ignore, a thread of the process takes it synchronously, or a thread that does not block it takes
  it for delivery, either as the signal whose effect it returns or as one that is discarded.
\<close>

theorem no_signal_lost:
  assumes "sig_reach s" "sig_allowed op" "om_get (sr_processes s) pid = Some p" "ss_contains (ps_pending p) sig"
  shows "consumes op pid sig p s \<or> om_get (sr_processes (sig_exec op s)) pid = None \<or>
    (\<exists>p'. om_get (sr_processes (sig_exec op s)) pid = Some p' \<and> ss_contains (ps_pending p') sig)"
proof -
  note inv = sig_reach_inv [OF assms(1)]
  have st: "stays pid sig s (sig_exec op s) \<Longrightarrow> ?thesis" using assms(3,4) by (auto simp: stays_def)
  show ?thesis
  proof (cases op)
    case (SigTakeDeliverable t)
    consider "take_deliverable t s = (None, s)" | th q where "holds_at t th q s"
      using take_deliverable_cases [OF sig_invD(2,1) [OF inv]] by blast
    then show ?thesis
    proof cases
      case 1
      then show ?thesis using assms(3,4) SigTakeDeliverable by simp
    next
      case (2 th q)
      then have g: "om_get (sr_threads s) t = Some th" "om_get (sr_processes s) (th_pid th) = Some q"
        by (simp_all add: holds_at_def)
      obtain r th' p' where r: "take_deliverable t s = (r, put_thread t th' (put_process (th_pid th) p' s))"
        "delivery_outcome th q r th' p'" using take_deliverable_correct [OF assms(1) g] by blast
      show ?thesis
      proof (cases "th_pid th = pid \<and> \<not> ss_contains (ps_pending p') sig")
        case False
        then show ?thesis using assms(3,4) r(1) SigTakeDeliverable by auto
      next
        case True
        then have qp: "q = p" using g(2) assms(3) by simp
        have "\<not> ss_contains (th_mask th) sig \<and> (discarded p sig \<or> map_option effect_signal r = Some sig)"
        proof (cases r)
          case None
          then show ?thesis using r(2) True assms(4) qp by (auto simp: delivery_outcome_def deliverable_contains)
        next
          case (Some e)
          from r(2) obtain k where k: "ss_contains (deliverable_set th p) k"
            "\<forall>i < k. ss_contains (deliverable_set th p) i \<longrightarrow> discarded p i"
            "\<forall>i. ss_contains (ps_pending p') i \<longleftrightarrow> ss_contains (ps_pending p) i \<and>
              (i = k \<longrightarrow> ss_contains (th_pending th) k) \<and> (i < k \<longrightarrow> ss_contains (th_mask th) i)"
            "effect_signal e = k"
            unfolding delivery_outcome_def Some option.case qp by (cases e) auto
          have "sig = k \<or> sig < k \<and> \<not> ss_contains (th_mask th) sig" using k(3) True assms(4) by blast
          then show ?thesis using k assms(4) Some by (auto simp: deliverable_contains)
        qed
        then show ?thesis using SigTakeDeliverable g(1) r(1) True by simp
      qed
    qed
  next
    case (SigTakePending t m)
    then show ?thesis using assms(3,4)
      by (auto simp: take_pending_record_def split: option.splits)
  next
    case (SigTakeKill t)
    then show ?thesis using assms(3,4)
      by (auto simp: take_sigkill_def Let_def modify_thread_def split: option.splits if_splits)
  next
    case (SigSetAction t i a)
    then show ?thesis using assms(3,4)
      by (auto simp: set_action_def sig_try_thread sig_try_process Let_def sa_is_ignore_def split: option.splits)
  next
    case (SigFork parent child t tid)
    then show ?thesis using assms(3,4)
      by (auto simp: sig_fork_process_def sig_try_thread sig_try_process split: option.splits)
  next
    case (SigDropEmpty t)
    then show ?thesis using assms(3,4) sig_invD(1) [OF inv]
      by (auto simp: drop_thread_and_empty_process_def drop_thread_def Let_def om_get_remove split: option.splits)
  next
    case (SigDropProcess i)
    then show ?thesis using assms(3,4) sig_invD(1) [OF inv] by (auto simp: drop_process_def om_get_remove)
  next
    case (SigExit t i b)
    then show ?thesis using assms(3,4) sig_invD(1) [OF inv]
      by (auto simp: exit_thread_def drop_thread_def drop_process_def Let_def om_get_remove)
  next
    case (SigEnsure i leader tid ts)
    then show ?thesis using st stays_trans [OF stays_register stays_missing] by (simp add: ensure_process_def)
  next
    case (SigDropThread t)
    then show ?thesis using assms(3,4) by (simp add: drop_thread_def)
  next
    case (SigExpireReal now)
    then show ?thesis using st stays_realtime [OF inv] assms(2) by simp
  qed (use st in \<open>simp_all add: stays_exec stays_threads stays_send stays_frame stays_timers stays_account stays_posix\<close>)
qed

theorem no_signal_lost_witness:
  "\<exists>p'. om_get (sr_processes (sig_exec (SigUpdateMask 100 0 (Some (- 1))) demo_signals)) 10 = Some p' \<and> ss_contains (ps_pending p') 10"
proof -
  obtain p where p: "om_get (sr_processes demo_signals) 10 = Some p" "ps_pending p = ss_insert 10 0" using demo_tables(1) by blast
  have "ss_contains (ps_pending p) 10" by (simp add: p(2) valid_signal_def NSIG_def)
  from no_signal_lost [OF demo_reach _ p(1) this, of "SigUpdateMask 100 0 (Some (- 1))"] p(1)
  show ?thesis by (auto simp: update_mask_def sig_try_thread Let_def split: option.splits)
qed

section \<open>The real timers\<close>

text \<open>The timer after its expiry: disarmed, or at the first period in the future.\<close>

definition rearmed :: "nat \<Rightarrow> interval_timer \<Rightarrow> interval_timer \<Rightarrow> bool" where
  "rearmed now tm tm' \<longleftrightarrow> it_interval tm' = it_interval tm \<and>
     (if it_interval tm = 0 then it_deadline tm' = None
      else \<exists>d k. it_deadline tm = Some d \<and> it_deadline tm' = Some (min u128_max (d + (k + 1) * it_interval tm)) \<and>
        d + k * it_interval tm \<le> now \<and> now < d + (k + 1) * it_interval tm)"

text \<open>
  C30. Expiry. In every reachable state one call of \<open>expire_realtime\<close> gives one dispatch for each
  process whose real timer is due and none for any other: those processes get \<open>SIGALRM\<close>, unless they
  ignore it, and their timer is disarmed if it is not periodic, or armed at the first whole number of
  periods after the old deadline that lies in the future; every other process and all threads stay as
  they were, and afterwards no timer is due. Entries of replaced timers do not fire.
\<close>

theorem expire_realtime_correct:
  assumes "sig_reach s" "now < u128_max"
  shows "\<exists>out s'. expire_realtime now s = (out, s') \<and> sig_reach s' \<and> sr_threads s' = sr_threads s \<and>
    length out = card {pid. \<exists>p. om_get (sr_processes s) pid = Some p \<and> real_due now p} \<and>
    (\<forall>pid p. om_get (sr_processes s) pid = Some p \<longrightarrow>
       (if real_due now p then
          \<exists>p'. om_get (sr_processes s') pid = Some p' \<and> p' = alarmed now p \<and> rearmed now (ps_real p) (ps_real p') \<and>
            (ss_contains (ps_pending p') SIGALRM \<or> sa_is_ignore (ps_action p SIGALRM))
        else om_get (sr_processes s') pid = Some p)) \<and>
    (\<forall>pid p. om_get (sr_processes s') pid = Some p \<longrightarrow> \<not> real_due now p)"
proof -
  note inv = sig_reach_inv [OF assms(1)]
  obtain out s' pids where e: "expire_realtime now s = (out, s')" "sig_inv s'" "alarms now pids s s'" "length out = length pids"
    "\<forall>pid p. om_get (sr_processes s') pid = Some p \<longrightarrow> \<not> real_due now p" using expire_realtime_spec [OF inv assms(2)] by blast
  have r: "sig_reach s'"
    using sig_reach.run [OF assms(1) sig_step.step [of "SigExpireReal now"]] assms(2) e(1) by simp
  have fired: "pid \<in> set pids \<longleftrightarrow> real_due now p" if "om_get (sr_processes s) pid = Some p" for pid p
    using alarmsD [OF e(3), of pid] that e(5) by (cases "pid \<in> set pids") auto
  have "set pids = {pid. \<exists>p. om_get (sr_processes s) pid = Some p \<and> real_due now p}"
    using alarmsD(1) [OF e(3)] fired by blast
  then have len: "length out = card {pid. \<exists>p. om_get (sr_processes s) pid = Some p \<and> real_due now p}"
    using e(3,4) distinct_card [of pids] by (simp add: alarms_def)
  have up: "if real_due now p then
          \<exists>p'. om_get (sr_processes s') pid = Some p' \<and> p' = alarmed now p \<and> rearmed now (ps_real p) (ps_real p') \<and>
            (ss_contains (ps_pending p') SIGALRM \<or> sa_is_ignore (ps_action p SIGALRM))
        else om_get (sr_processes s') pid = Some p"
    if p: "om_get (sr_processes s) pid = Some p" for pid p
  proof (cases "real_due now p")
    case True
    then obtain d where d: "it_deadline (ps_real p) = Some d" "d \<le> now" by (auto simp: real_due_def)
    have g: "om_get (sr_processes s') pid = Some (alarmed now p)"
      using alarmsD(1) [OF e(3), of pid] fired [OF p] True p by auto
    have al: "ss_contains (ps_pending (alarmed now p)) SIGALRM \<or> sa_is_ignore (ps_action p SIGALRM)"
      by (simp add: alarmed_def)
    have "ps_real (alarmed now p) = snd (it_expire now (ps_real p))" by (simp add: alarmed_def)
    then have "rearmed now (ps_real p) (ps_real (alarmed now p))"
      using it_expire_due [OF d assms(2)] d(1) unfolding rearmed_def by (cases "it_interval (ps_real p) = 0") auto
    then show ?thesis using True g al by simp
  next
    case False
    then show ?thesis using alarmsD(2) [OF e(3), of pid] fired [OF p] p by simp
  qed
  have th: "sr_threads s' = sr_threads s" using e(3) by (simp add: alarms_def)
  show ?thesis by (intro exI [of _ out] exI [of _ s'] conjI allI impI e(1) r th len up e(5) [rule_format])
qed

theorem expire_realtime_correct_witness:
  "\<exists>out s' p'. expire_realtime 145 demo_signals = (out, s') \<and> om_get (sr_processes s') 10 = Some p' \<and>
     ss_contains (ps_pending p') SIGALRM \<and> it_deadline (ps_real p') = Some 150"
proof -
  obtain p where p: "om_get (sr_processes demo_signals) 10 = Some p" "it_deadline (ps_real p) = Some 120"
    "ps_action p SIGALRM = default_action" "it_interval (ps_real p) = 10" using demo_tables(1) by blast
  have n: "(145 :: nat) < u128_max" by (simp add: u128_max_def)
  have due: "real_due 145 p" using p(2) by (simp add: real_due_def)
  from expire_realtime_correct [OF demo_reach n] obtain out s' where e: "expire_realtime 145 demo_signals = (out, s')"
    "\<forall>pid p. om_get (sr_processes demo_signals) pid = Some p \<longrightarrow> (if real_due 145 p then
          \<exists>p'. om_get (sr_processes s') pid = Some p' \<and> p' = alarmed 145 p \<and> rearmed 145 (ps_real p) (ps_real p') \<and>
            (ss_contains (ps_pending p') SIGALRM \<or> sa_is_ignore (ps_action p SIGALRM))
        else om_get (sr_processes s') pid = Some p)" by blast
  from e(2) p(1) due obtain p' where p': "om_get (sr_processes s') 10 = Some p'" "rearmed 145 (ps_real p) (ps_real p')"
    "ss_contains (ps_pending p') SIGALRM \<or> sa_is_ignore (ps_action p SIGALRM)" by (metis (mono_tags))
  from p'(2) obtain k where k: "it_deadline (ps_real p') = Some (min u128_max (120 + (k + 1) * 10))" "120 + k * 10 \<le> 145"
    "145 < 120 + (k + 1) * 10" using p(2,4) by (auto simp: rearmed_def)
  then have "k = 2" by auto
  with e(1) k(1) p'(1,3) p(3) show ?thesis by (auto simp: u128_max_def)
qed

end
