(* ===== verification/Process_State.thy ===== *)
theory Process_State
  imports Ordered_Map
begin

unbundle bit_operations_syntax

text \<open>
  The types of the process layer (\<open>task-api/api-v0/src/process.rs\<close>) and the records the
  process registry keeps (\<open>task-impl/impl-core/src/process.rs\<close>): threads, control blocks, I/O
  counters and the registry with its two reverse indexes. A \<open>BTreeMap\<close> is an ordered map, so the
  order in which the code walks processes and threads is the order of their ids.
\<close>

section \<open>Identities, states and errors\<close>

datatype process_error =
    ProcessNotFound
  | TaskNotFound
  | PermissionDenied
  | InvalidArgument
  | AlreadySessionLeader
  | ProcessGroupNotFound

datatype process_task_role = Leader | Member

datatype process_task_state = Runnable | TExited int

datatype process_state = PRunning | PStopped nat | PExiting int | PExited int

definition is_texited :: "process_task_state \<Rightarrow> bool" where
  "is_texited st = (case st of TExited c \<Rightarrow> True | Runnable \<Rightarrow> False)"

definition is_pexited :: "process_state \<Rightarrow> bool" where
  "is_pexited st = (case st of PExited c \<Rightarrow> True | _ \<Rightarrow> False)"

definition is_pexiting :: "process_state \<Rightarrow> bool" where
  "is_pexiting st = (case st of PExiting c \<Rightarrow> True | _ \<Rightarrow> False)"

definition is_pstopped :: "process_state \<Rightarrow> bool" where
  "is_pstopped st = (case st of PStopped c \<Rightarrow> True | _ \<Rightarrow> False)"

lemma is_texited_simps [simp]: "is_texited (TExited c)" "\<not> is_texited Runnable"
  by (simp_all add: is_texited_def)

lemma is_pexited_simps [simp]:
  "is_pexited (PExited c)" "\<not> is_pexited (PExiting c)" "\<not> is_pexited PRunning" "\<not> is_pexited (PStopped n)"
  by (simp_all add: is_pexited_def)

lemma is_pexiting_simps [simp]:
  "is_pexiting (PExiting c)" "\<not> is_pexiting (PExited c)" "\<not> is_pexiting PRunning" "\<not> is_pexiting (PStopped n)"
  by (simp_all add: is_pexiting_def)

lemma is_pstopped_simps [simp]:
  "is_pstopped (PStopped n)" "\<not> is_pstopped (PExiting c)" "\<not> is_pstopped (PExited c)" "\<not> is_pstopped PRunning"
  by (simp_all add: is_pstopped_def)

section \<open>Capabilities, clone flags and shared resources\<close>

record process_caps =
  cap_effective :: "32 word"
  cap_permitted :: "32 word"
  cap_inheritable :: "32 word"
  cap_bounding :: "32 word"

definition CAP_CHOWN :: "32 word" where "CAP_CHOWN = push_bit 0 1"
definition CAP_SETGID :: "32 word" where "CAP_SETGID = push_bit 6 1"
definition CAP_SETUID :: "32 word" where "CAP_SETUID = push_bit 7 1"
definition CAP_SETPCAP :: "32 word" where "CAP_SETPCAP = push_bit 8 1"
definition CAP_SYS_TIME :: "32 word" where "CAP_SYS_TIME = push_bit 25 1"

definition caps_root :: process_caps where
  "caps_root = \<lparr>
     cap_effective = CAP_CHOWN OR CAP_SETGID OR CAP_SETUID OR CAP_SETPCAP OR CAP_SYS_TIME,
     cap_permitted = CAP_CHOWN OR CAP_SETGID OR CAP_SETUID OR CAP_SETPCAP OR CAP_SYS_TIME,
     cap_inheritable = 0,
     cap_bounding = 0xFFFFFFFF\<rparr>"

type_synonym clone_flags = "64 word"

definition CLONE_SETTLS :: clone_flags where "CLONE_SETTLS = 0x00080000"

definition clone_flags_contains :: "clone_flags \<Rightarrow> clone_flags \<Rightarrow> bool" where
  "clone_flags_contains flags flag \<longleftrightarrow> flags AND flag = flag"

record address_space_ref =
  as_token :: nat
  as_user_ptr :: nat

record resource_limit =
  rl_cur :: nat
  rl_max :: nat

datatype seccomp_mode = SeccompSetModeStrictFail | SeccompSetModeWhitelist | SeccompNone

record seccomp_whitelist =
  wl_len :: nat
  wl_syscall :: "nat list"

section \<open>I/O counters\<close>

text \<open>Each counter saturates at the bound of \<open>u64\<close>; \<open>account_transfer\<close> counts one read and one write.\<close>

record process_io =
  io_rchar :: nat
  io_wchar :: nat
  io_syscr :: nat
  io_syscw :: nat

definition io_default :: process_io where
  "io_default = \<lparr>io_rchar = 0, io_wchar = 0, io_syscr = 0, io_syscw = 0\<rparr>"

definition io_account :: "bool \<Rightarrow> nat \<Rightarrow> process_io \<Rightarrow> process_io" where
  "io_account rd bytes c =
     (if rd then c\<lparr>io_syscr := sat_add u64_max (io_syscr c) 1,
                   io_rchar := sat_add u64_max (io_rchar c) bytes\<rparr>
      else c\<lparr>io_syscw := sat_add u64_max (io_syscw c) 1,
             io_wchar := sat_add u64_max (io_wchar c) bytes\<rparr>)"

definition io_account_transfer :: "nat \<Rightarrow> process_io \<Rightarrow> process_io" where
  "io_account_transfer bytes c = io_account False bytes (io_account True bytes c)"

definition io_snapshot :: "process_io \<Rightarrow> nat list" where
  "io_snapshot c = [io_rchar c, io_wchar c, io_syscr c, io_syscw c]"

section \<open>Threads and control blocks\<close>

datatype death_source = SourceTask nat | SourceProcess nat

record death_notice =
  dn_pid :: nat
  dn_signal :: int

record task_exit_result =
  xr_completed :: bool
  xr_notices :: "death_notice list"

record process_task =
  pk_tid :: nat
  pk_state :: process_task_state
  pk_tls :: nat
  pk_clear_tid :: "nat option"
  pk_comm :: "8 word list"

record pcb =
  pc_pid :: nat
  pc_leader :: nat
  pc_parent :: "nat option"
  pc_aspace :: "address_space_ref option"
  pc_rlimits :: "(nat, resource_limit) omap"
  pc_pgid :: nat
  pc_tasks :: "(nat, process_task) omap"
  pc_io :: process_io
  pc_exited_members :: "nat list"
  pc_exec :: bool
  pc_state :: process_state
  pc_sid :: nat
  pc_dumpable :: bool
  pc_subreaper :: bool
  pc_caps :: process_caps
  pc_keep_caps :: bool
  pc_stop_wait :: bool
  pc_cont_wait :: bool
  pc_umask :: "32 word"
  pc_death_signal :: int
  pc_death_source :: "death_source option"
  pc_seccomp_mode :: "seccomp_mode option"
  pc_whitelist :: seccomp_whitelist
  pc_sec_mode :: bool

record process_task_snapshot =
  kx_task :: nat
  kx_tid :: nat
  kx_pid :: nat
  kx_role :: process_task_role
  kx_state :: process_task_state
  kx_tls :: nat
  kx_clear_tid :: "nat option"

record process_snapshot =
  px_pid :: nat
  px_leader :: nat
  px_parent :: "nat option"
  px_aspace :: "address_space_ref option"
  px_task_count :: nat
  px_state :: process_state
  px_pgid :: nat
  px_sid :: nat
  px_white_list :: "nat list"
  px_sec_mode :: bool

definition pk_snapshot :: "process_task \<Rightarrow> nat \<Rightarrow> nat \<Rightarrow> nat \<Rightarrow> process_task_snapshot" where
  "pk_snapshot k task_id pid leader =
     \<lparr>kx_task = task_id, kx_tid = pk_tid k, kx_pid = pid,
      kx_role = (if task_id = leader then Leader else Member),
      kx_state = pk_state k, kx_tls = pk_tls k, kx_clear_tid = pk_clear_tid k\<rparr>"

definition pc_snapshot :: "pcb \<Rightarrow> process_snapshot" where
  "pc_snapshot p =
     \<lparr>px_pid = pc_pid p, px_leader = pc_leader p, px_parent = pc_parent p, px_aspace = pc_aspace p,
      px_task_count = length (pc_tasks p), px_state = pc_state p, px_pgid = pc_pgid p, px_sid = pc_sid p,
      px_white_list = wl_syscall (pc_whitelist p), px_sec_mode = pc_sec_mode p\<rparr>"

definition ptask_snapshot :: "nat \<Rightarrow> pcb \<Rightarrow> process_task_snapshot option" where
  "ptask_snapshot task_id p =
     map_option (\<lambda>k. pk_snapshot k task_id (pc_pid p) (pc_leader p)) (om_get (pc_tasks p) task_id)"

text \<open>
  A retired process: what \<open>cleanup\<close> returns, and the address space it releases (a null pointer is
  left alone).
\<close>

definition retired_cleanup :: "pcb \<Rightarrow> (process_snapshot \<times> nat list) \<times> nat option" where
  "retired_cleanup p =
     ((pc_snapshot p, map fst (pc_tasks p)),
      (case pc_aspace p of
         Some a \<Rightarrow> if as_user_ptr a \<noteq> 0 then Some (as_user_ptr a) else None
       | None \<Rightarrow> None))"

section \<open>The registry\<close>

record process_registry =
  pg_processes :: "(nat, pcb) omap"
  pg_pid_for_task :: "(nat, nat) omap"
  pg_task_for_thread :: "(nat, nat) omap"
  pg_next_pid :: nat
  pg_next_tid :: nat
  pg_subreapers :: nat

definition pg_new :: process_registry where
  "pg_new = \<lparr>pg_processes = [], pg_pid_for_task = [], pg_task_for_thread = [],
             pg_next_pid = 1, pg_next_tid = 1, pg_subreapers = 0\<rparr>"

definition pg_clear :: "process_registry \<Rightarrow> process_registry" where
  "pg_clear s = s\<lparr>pg_pid_for_task := [], pg_processes := [], pg_task_for_thread := [],
                  pg_next_pid := 1, pg_next_tid := 1, pg_subreapers := 0\<rparr>"

text \<open>
  \<open>process_mut\<close> hands out the control block for an update in place: here the update is applied to
  the entry. The operations check that the process exists before they use it.
\<close>

definition pg_process :: "process_registry \<Rightarrow> nat \<Rightarrow> pcb option" where
  "pg_process s pid = om_get (pg_processes s) pid"

definition pg_update :: "nat \<Rightarrow> (pcb \<Rightarrow> pcb) \<Rightarrow> process_registry \<Rightarrow> process_registry" where
  "pg_update pid f s =
     (case om_get (pg_processes s) pid of
        None \<Rightarrow> s
      | Some p \<Rightarrow> s\<lparr>pg_processes := om_insert pid (f p) (pg_processes s)\<rparr>)"

text \<open>
  The shape most setters share: \<open>self.process_mut(pid).ok_or(ProcessNotFound)?\<close>, then one field.
\<close>

definition pg_modify ::
  "nat \<Rightarrow> (pcb \<Rightarrow> pcb) \<Rightarrow> process_registry \<Rightarrow> (process_error + unit) \<times> process_registry" where
  "pg_modify pid f s =
     (case pg_process s pid of
        None \<Rightarrow> (Inl ProcessNotFound, s)
      | Some p \<Rightarrow> (Inr (), pg_update pid f s))"

text \<open>
  The allocation of ids. The counters saturate, so a loop that meets an occupied greatest id never
  ends: \<open>None\<close> stands for that.
\<close>

partial_function (option) alloc_pid_loop ::
  "(nat, pcb) omap \<Rightarrow> (nat, nat) omap \<Rightarrow> nat \<Rightarrow> (nat \<times> nat) option" where
  "alloc_pid_loop ps ts n =
     (if om_get ps n = None \<and> om_get ts n = None then Some (n, sat_add usize_max n 1)
      else alloc_pid_loop ps ts (sat_add usize_max n 1))"

partial_function (option) alloc_tid_loop :: "(nat, nat) omap \<Rightarrow> nat \<Rightarrow> (nat \<times> nat) option" where
  "alloc_tid_loop ts n =
     (if om_get ts n = None then Some (n, sat_add usize_max n 1)
      else alloc_tid_loop ts (sat_add usize_max n 1))"

definition alloc_pid :: "process_registry \<Rightarrow> (nat \<times> process_registry) option" where
  "alloc_pid s =
     (case alloc_pid_loop (pg_processes s) (pg_task_for_thread s) (pg_next_pid s) of
        None \<Rightarrow> None
      | Some (pid, n) \<Rightarrow> Some (pid, s\<lparr>pg_next_pid := n\<rparr>))"

definition alloc_tid :: "process_registry \<Rightarrow> (nat \<times> process_registry) option" where
  "alloc_tid s =
     (case alloc_tid_loop (pg_task_for_thread s) (pg_next_tid s) of
        None \<Rightarrow> None
      | Some (tid, n) \<Rightarrow> Some (tid, s\<lparr>pg_next_tid := n\<rparr>))"

end
