(* ===== verification/Process_Table.thy ===== *)
theory Process_Table
  imports Process_State
begin

text \<open>
  The operations of the process registry (\<open>task-impl/impl-core/src/process.rs\<close>) that create, end
  and remove processes and threads. An operation that can panic on a failed assertion, or spin in a
  loop, returns \<open>None\<close> in that case; otherwise it returns its \<open>ProcessResult\<close> and the registry.
\<close>

type_synonym 'a process_result = "((process_error + 'a) \<times> process_registry) option"

section \<open>Indexes\<close>

definition remove_task_indexes :: "nat \<Rightarrow> nat \<Rightarrow> nat \<Rightarrow> process_registry \<Rightarrow> process_registry option" where
  "remove_task_indexes pid t tid s =
     (if om_get (pg_pid_for_task s) t = Some pid \<and> om_get (pg_task_for_thread s) tid = Some t
      then Some (s\<lparr>pg_pid_for_task := om_remove t (pg_pid_for_task s),
                   pg_task_for_thread := om_remove tid (pg_task_for_thread s)\<rparr>)
      else None)"

fun remove_all_indexes ::
  "nat \<Rightarrow> (nat \<times> process_task) list \<Rightarrow> process_registry \<Rightarrow> process_registry option" where
  "remove_all_indexes pid [] s = Some s"
| "remove_all_indexes pid ((t, k) # ks) s =
     (case remove_task_indexes pid t (pk_tid k) s of
        None \<Rightarrow> None
      | Some s' \<Rightarrow> remove_all_indexes pid ks s')"

text \<open>\<open>find_map\<close> over \<open>task_for_thread\<close>: the tid of a task, if it has one.\<close>

definition tid_of_task :: "nat \<Rightarrow> process_registry \<Rightarrow> nat option" where
  "tid_of_task t s = map_option fst (find (\<lambda>e. snd e = t) (pg_task_for_thread s))"

fun drop_task_indexes :: "nat \<Rightarrow> nat list \<Rightarrow> process_registry \<Rightarrow> process_registry option" where
  "drop_task_indexes pid [] s = Some s"
| "drop_task_indexes pid (t # ts) s =
     (case tid_of_task t s of
        None \<Rightarrow> drop_task_indexes pid ts s
      | Some tid \<Rightarrow>
          (case remove_task_indexes pid t tid s of
             None \<Rightarrow> None
           | Some s' \<Rightarrow> drop_task_indexes pid ts s'))"

definition remove_process :: "nat \<Rightarrow> process_registry \<Rightarrow> (pcb option \<times> process_registry) option" where
  "remove_process pid s =
     (case pg_process s pid of
        None \<Rightarrow> Some (None, s)
      | Some p \<Rightarrow>
          let s1 = s\<lparr>pg_processes := om_remove pid (pg_processes s)\<rparr>;
              s2 = (if pc_subreaper p then s1\<lparr>pg_subreapers := pg_subreapers s1 - 1\<rparr> else s1)
          in (case remove_all_indexes pid (pc_tasks p) s2 of
                None \<Rightarrow> None
              | Some s3 \<Rightarrow> Some (Some p, s3)))"

definition insert_process :: "pcb \<Rightarrow> process_registry \<Rightarrow> process_registry option" where
  "insert_process p s =
     (if pg_process s (pc_pid p) \<noteq> None then None
      else Some (s\<lparr>pg_processes := om_insert (pc_pid p) p (pg_processes s)\<rparr>))"

section \<open>Creation\<close>

definition new_process_task :: "nat \<Rightarrow> process_task" where
  "new_process_task tid =
     \<lparr>pk_tid = tid, pk_state = Runnable, pk_tls = 0, pk_clear_tid = None, pk_comm = replicate 16 0\<rparr>"

definition new_pcb :: "nat \<Rightarrow> nat \<Rightarrow> nat option \<Rightarrow> address_space_ref option \<Rightarrow> pcb" where
  "new_pcb pid task_id parent aspace =
     \<lparr>pc_pid = pid, pc_leader = task_id, pc_parent = parent, pc_aspace = aspace, pc_rlimits = [],
      pc_pgid = pid, pc_tasks = om_insert task_id (new_process_task pid) [], pc_io = io_default,
      pc_exited_members = [], pc_exec = False, pc_state = PRunning,
      pc_sid = (if parent = None then pid else 0), pc_dumpable = True, pc_subreaper = False,
      pc_caps = caps_root, pc_keep_caps = False, pc_stop_wait = False, pc_cont_wait = False,
      pc_umask = 0x12, pc_death_signal = 0, pc_death_source = map_option SourceProcess parent,
      pc_seccomp_mode = None, pc_whitelist = \<lparr>wl_len = 0, wl_syscall = []\<rparr>, pc_sec_mode = False\<rparr>"

definition create_process_for_task ::
  "nat \<Rightarrow> nat option \<Rightarrow> address_space_ref option \<Rightarrow> process_registry \<Rightarrow> nat process_result" where
  "create_process_for_task task_id parent aspace s =
     (if om_get (pg_pid_for_task s) task_id \<noteq> None then Some (Inl InvalidArgument, s)
      else
        (case alloc_pid s of
           None \<Rightarrow> None
         | Some (pid, s1) \<Rightarrow>
             let s2 = (if pg_next_tid s1 \<le> pid then s1\<lparr>pg_next_tid := sat_add usize_max pid 1\<rparr> else s1)
             in (case insert_process (new_pcb pid task_id parent aspace) s2 of
                   None \<Rightarrow> None
                 | Some s3 \<Rightarrow>
                     if om_get (pg_pid_for_task s3) task_id \<noteq> None \<or> om_get (pg_task_for_thread s3) pid \<noteq> None
                     then None
                     else Some (Inr pid,
                       s3\<lparr>pg_pid_for_task := om_insert task_id pid (pg_pid_for_task s3),
                          pg_task_for_thread := om_insert pid task_id (pg_task_for_thread s3)\<rparr>))))"

text \<open>What a forked process takes over from its source, and the name its thread takes over.\<close>

definition inherit_fork :: "pcb \<Rightarrow> nat \<Rightarrow> 8 word list \<Rightarrow> nat \<Rightarrow> pcb \<Rightarrow> pcb" where
  "inherit_fork parent source_task comm child_task p =
     p\<lparr>pc_rlimits := pc_rlimits parent, pc_pgid := pc_pgid parent, pc_sid := pc_sid parent,
       pc_dumpable := pc_dumpable parent, pc_umask := pc_umask parent, pc_caps := pc_caps parent,
       pc_keep_caps := pc_keep_caps parent, pc_death_source := Some (SourceTask source_task),
       pc_tasks :=
         (case om_get (pc_tasks p) child_task of
            None \<Rightarrow> pc_tasks p
          | Some k \<Rightarrow> om_insert child_task (k\<lparr>pk_comm := comm\<rparr>) (pc_tasks p))\<rparr>"

definition create_process_like_fork_with_parent ::
  "nat \<Rightarrow> nat \<Rightarrow> nat \<Rightarrow> nat \<Rightarrow> address_space_ref option \<Rightarrow> process_registry \<Rightarrow> nat process_result" where
  "create_process_like_fork_with_parent source_pid child_parent source_task child_task aspace s =
     (case pg_process s source_pid of
        None \<Rightarrow> Some (Inl ProcessNotFound, s)
      | Some parent \<Rightarrow>
          if pg_process s child_parent = None then Some (Inl ProcessNotFound, s)
          else (case om_get (pc_tasks parent) source_task of
                  None \<Rightarrow> Some (Inl TaskNotFound, s)
                | Some k \<Rightarrow>
                    (case create_process_for_task child_task (Some child_parent) aspace s of
                       None \<Rightarrow> None
                     | Some (Inl e, s1) \<Rightarrow> Some (Inl e, s1)
                     | Some (Inr child_pid, s1) \<Rightarrow>
                         Some (Inr child_pid,
                           pg_update child_pid (inherit_fork parent source_task (pk_comm k) child_task) s1))))"

definition create_process_like_fork ::
  "nat \<Rightarrow> nat \<Rightarrow> nat \<Rightarrow> address_space_ref option \<Rightarrow> process_registry \<Rightarrow> nat process_result" where
  "create_process_like_fork parent parent_task child_task aspace s =
     create_process_like_fork_with_parent parent parent parent_task child_task aspace s"

definition cloned_task :: "nat \<Rightarrow> clone_flags \<Rightarrow> nat \<Rightarrow> nat option \<Rightarrow> 8 word list \<Rightarrow> process_task" where
  "cloned_task tid flags tls clear_tid comm =
     \<lparr>pk_tid = tid, pk_state = Runnable,
      pk_tls = (if clone_flags_contains flags CLONE_SETTLS then tls else 0),
      pk_clear_tid = clear_tid, pk_comm = comm\<rparr>"

definition add_task_to_process ::
  "nat \<Rightarrow> nat \<Rightarrow> nat \<Rightarrow> clone_flags \<Rightarrow> nat \<Rightarrow> nat option \<Rightarrow> process_registry \<Rightarrow> nat process_result" where
  "add_task_to_process pid parent_task task_id flags tls clear_tid s =
     (if om_get (pg_pid_for_task s) task_id \<noteq> None then Some (Inl InvalidArgument, s)
      else
        (case alloc_tid s of
           None \<Rightarrow> None
         | Some (tid, s1) \<Rightarrow>
             (case pg_process s1 pid of
                None \<Rightarrow> Some (Inl ProcessNotFound, s1)
              | Some p \<Rightarrow>
                  if pc_exec p then Some (Inl InvalidArgument, s1)
                  else (case om_get (pc_tasks p) parent_task of
                          None \<Rightarrow> Some (Inl TaskNotFound, s1)
                        | Some k \<Rightarrow>
                            let s2 = pg_update pid (\<lambda>p. p\<lparr>pc_tasks :=
                                om_insert task_id (cloned_task tid flags tls clear_tid (pk_comm k)) (pc_tasks p)\<rparr>) s1
                            in if om_get (pg_pid_for_task s2) task_id \<noteq> None \<or>
                                  om_get (pg_task_for_thread s2) tid \<noteq> None
                               then None
                               else Some (Inr task_id,
                                 s2\<lparr>pg_pid_for_task := om_insert task_id pid (pg_pid_for_task s2),
                                    pg_task_for_thread := om_insert tid task_id (pg_task_for_thread s2)\<rparr>)))))"

text \<open>
  The barrier of \<open>exec\<close>: while it is up no thread can be added, and the caller gets the threads that
  are to end. \<open>retain_only_task_in_process\<close> takes it down.
\<close>

definition begin_process_exec ::
  "nat \<Rightarrow> nat \<Rightarrow> process_registry \<Rightarrow> (process_error + nat list) \<times> process_registry" where
  "begin_process_exec pid exec_task s =
     (case pg_process s pid of
        None \<Rightarrow> (Inl ProcessNotFound, s)
      | Some p \<Rightarrow>
          if pc_exec p \<or> pc_leader p \<noteq> exec_task then (Inl InvalidArgument, s)
          else (Inr (map fst (pc_tasks p)), pg_update pid (\<lambda>p. p\<lparr>pc_exec := True\<rparr>) s))"

section \<open>Parent death and orphans\<close>

definition collect_child_pids :: "process_registry \<Rightarrow> nat \<Rightarrow> nat list" where
  "collect_child_pids s parent =
     map (pc_pid \<circ> snd) (filter (\<lambda>e. pc_parent (snd e) = Some parent) (pg_processes s))"

definition take_death_notices ::
  "death_source \<Rightarrow> process_registry \<Rightarrow> death_notice list \<times> process_registry" where
  "take_death_notices src s =
     (let hit = (\<lambda>p. pc_death_source p = Some src)
      in (map (\<lambda>e. \<lparr>dn_pid = pc_pid (snd e), dn_signal = pc_death_signal (snd e)\<rparr>)
            (filter (\<lambda>e. hit (snd e) \<and> 0 < pc_death_signal (snd e)) (pg_processes s)),
          s\<lparr>pg_processes :=
             map (\<lambda>e. (fst e, if hit (snd e) then (snd e)\<lparr>pc_death_source := None\<rparr> else snd e))
               (pg_processes s)\<rparr>))"

fun take_all_death_notices ::
  "death_source list \<Rightarrow> process_registry \<Rightarrow> death_notice list \<times> process_registry" where
  "take_all_death_notices [] s = ([], s)"
| "take_all_death_notices (src # srcs) s =
     (let (ns, s1) = take_death_notices src s;
          (ns', s2) = take_all_death_notices srcs s1
      in (ns @ ns', s2))"

definition INIT_PID :: nat where "INIT_PID = 1"

partial_function (option) find_subreaper :: "(nat, pcb) omap \<Rightarrow> nat option \<Rightarrow> nat option option" where
  "find_subreaper ps ancestor =
     (case ancestor of
        None \<Rightarrow> Some None
      | Some pid \<Rightarrow>
          (case om_get ps pid of
             None \<Rightarrow> Some None
           | Some p \<Rightarrow>
               if pc_subreaper p \<and> \<not> (is_pexiting (pc_state p) \<or> is_pexited (pc_state p))
               then Some (Some pid)
               else find_subreaper ps (pc_parent p)))"

definition adopt :: "nat \<Rightarrow> pcb \<Rightarrow> pcb" where
  "adopt target p = p\<lparr>pc_parent := Some target, pc_death_source := Some (SourceProcess target)\<rparr>"

definition adopt_all :: "nat \<Rightarrow> nat list \<Rightarrow> process_registry \<Rightarrow> process_registry" where
  "adopt_all target children s = foldl (\<lambda>s c. pg_update c (adopt target) s) s children"

definition reparent_orphans :: "nat \<Rightarrow> process_registry \<Rightarrow> process_registry option" where
  "reparent_orphans parent s =
     (if parent = INIT_PID then Some s
      else let children = collect_child_pids s parent
           in if children = [] then Some s
              else if pg_subreapers s = 0 then Some (adopt_all INIT_PID children s)
              else (case find_subreaper (pg_processes s) (Option.bind (pg_process s parent) pc_parent) of
                      None \<Rightarrow> None
                    | Some subreaper \<Rightarrow>
                        Some (adopt_all (case subreaper of Some pid \<Rightarrow> pid | None \<Rightarrow> INIT_PID) children s)))"

section \<open>Exits\<close>

definition all_texited :: "pcb \<Rightarrow> bool" where
  "all_texited p \<longleftrightarrow> list_all (\<lambda>e. is_texited (pk_state (snd e))) (pc_tasks p)"

text \<open>
  The update of the control block when one of its threads exits: the thread's state, the queue of
  exited members, and the state of the process once no thread is left.
\<close>

definition thread_exits :: "nat \<Rightarrow> process_task \<Rightarrow> int \<Rightarrow> pcb \<Rightarrow> pcb" where
  "thread_exits t k code p =
     (let p1 = p\<lparr>pc_tasks := om_insert t (k\<lparr>pk_state := TExited code\<rparr>) (pc_tasks p)\<rparr>;
          p2 = (if t \<noteq> pc_leader p \<and> \<not> is_texited (pk_state k)
                then p1\<lparr>pc_exited_members := pc_exited_members p1 @ [t]\<rparr> else p1)
      in if all_texited p2 then p2\<lparr>pc_state := PExited code\<rparr> else p2)"

definition mark_task_exited :: "nat \<Rightarrow> int \<Rightarrow> process_registry \<Rightarrow> task_exit_result process_result" where
  "mark_task_exited t code s =
     (case om_get (pg_pid_for_task s) t of
        None \<Rightarrow> Some (Inl TaskNotFound, s)
      | Some pid \<Rightarrow>
          let (ns, s1) = take_death_notices (SourceTask t) s
          in (case pg_process s1 pid of
                None \<Rightarrow> Some (Inl ProcessNotFound, s1)
              | Some p \<Rightarrow>
                  (case om_get (pc_tasks p) t of
                     None \<Rightarrow> Some (Inl TaskNotFound, s1)
                   | Some k \<Rightarrow>
                       let p' = thread_exits t k code p;
                           s2 = pg_update pid (thread_exits t k code) s1;
                           completed = (\<not> is_pexited (pc_state p) \<and> is_pexited (pc_state p'))
                       in if completed
                          then let (ns', s3) = take_death_notices (SourceProcess pid) s2
                               in (case reparent_orphans pid s3 of
                                     None \<Rightarrow> None
                                   | Some s4 \<Rightarrow> Some (Inr \<lparr>xr_completed = True, xr_notices = ns @ ns'\<rparr>, s4))
                          else Some (Inr \<lparr>xr_completed = False, xr_notices = ns\<rparr>, s2))))"

definition process_exits :: "int \<Rightarrow> pcb \<Rightarrow> pcb" where
  "process_exits code p =
     (let p1 = p\<lparr>pc_state := PExiting code\<rparr>
      in if all_texited p1 then p1\<lparr>pc_state := PExited code\<rparr> else p1)"

definition mark_process_exited :: "nat \<Rightarrow> int \<Rightarrow> process_registry \<Rightarrow> death_notice list process_result" where
  "mark_process_exited pid code s =
     (case pg_process s pid of
        None \<Rightarrow> Some (Inl ProcessNotFound, s)
      | Some p \<Rightarrow>
          if is_pexiting (pc_state p) \<or> is_pexited (pc_state p) then Some (Inr [], s)
          else let sources = map (SourceTask \<circ> fst) (pc_tasks p);
                   (ns, s1) = take_all_death_notices sources s;
                   (ns', s2) = take_death_notices (SourceProcess pid) s1
               in (case reparent_orphans pid s2 of
                     None \<Rightarrow> None
                   | Some s3 \<Rightarrow>
                       (case pg_process s3 pid of
                          None \<Rightarrow> Some (Inl ProcessNotFound, s3)
                        | Some q \<Rightarrow> Some (Inr (ns @ ns'), pg_update pid (process_exits code) s3))))"

section \<open>Removal of threads\<close>

text \<open>What is left of a process after \<open>exec\<close>: the calling thread, which leads it.\<close>

definition retain_task :: "nat \<Rightarrow> pcb \<Rightarrow> pcb" where
  "retain_task keep p =
     p\<lparr>pc_tasks := filter (\<lambda>e. fst e = keep) (pc_tasks p), pc_leader := keep, pc_exec := False,
       pc_state := PRunning, pc_exited_members := []\<rparr>"

definition retain_only_task_in_process ::
  "nat \<Rightarrow> nat \<Rightarrow> process_registry \<Rightarrow> (nat list option \<times> process_registry) option" where
  "retain_only_task_in_process pid keep s =
     (case pg_process s pid of
        None \<Rightarrow> Some (None, s)
      | Some p \<Rightarrow>
          if om_get (pc_tasks p) keep = None then Some (None, s)
          else let removed = filter (\<lambda>t. t \<noteq> keep) (map fst (pc_tasks p));
                   s1 = pg_update pid (retain_task keep) s
               in (case drop_task_indexes pid removed s1 of
                     None \<Rightarrow> None
                   | Some s2 \<Rightarrow> Some (Some removed, s2)))"

definition exited_members :: "pcb \<Rightarrow> nat list" where
  "exited_members p =
     filter (\<lambda>t. t \<noteq> pc_leader p \<and>
        (case om_get (pc_tasks p) t of Some k \<Rightarrow> is_texited (pk_state k) | None \<Rightarrow> False))
       (pc_exited_members p)"

definition drop_members :: "nat list \<Rightarrow> pcb \<Rightarrow> pcb" where
  "drop_members ts p =
     p\<lparr>pc_exited_members := [], pc_tasks := foldl (\<lambda>m t. om_remove t m) (pc_tasks p) ts\<rparr>"

definition take_exited_member_tasks ::
  "nat \<Rightarrow> process_registry \<Rightarrow> (nat list option \<times> process_registry) option" where
  "take_exited_member_tasks pid s =
     (case pg_process s pid of
        None \<Rightarrow> Some (None, s)
      | Some p \<Rightarrow>
          let removed = exited_members p;
              s1 = pg_update pid (drop_members removed) s
          in (case drop_task_indexes pid removed s1 of
                None \<Rightarrow> None
              | Some s2 \<Rightarrow> Some (Some removed, s2)))"

definition detach_aborted_fork :: "nat \<Rightarrow> process_registry \<Rightarrow> (nat \<times> pcb) process_result" where
  "detach_aborted_fork child s =
     (case om_get (pg_pid_for_task s) child of
        None \<Rightarrow> Some (Inl TaskNotFound, s)
      | Some pid \<Rightarrow>
          (case pg_process s pid of
             None \<Rightarrow> Some (Inl ProcessNotFound, s)
           | Some p \<Rightarrow>
               if length (pc_tasks p) \<noteq> 1 \<or> om_get (pc_tasks p) child = None
               then Some (Inl InvalidArgument, s)
               else if pc_state p \<noteq> PRunning then Some (Inl InvalidArgument, s)
               else (case remove_process pid s of
                       None \<Rightarrow> None
                     | Some (None, s1) \<Rightarrow> Some (Inl ProcessNotFound, s1)
                     | Some (Some q, s1) \<Rightarrow> Some (Inr (pid, q), s1))))"

definition abort_cloned_thread :: "nat \<Rightarrow> process_registry \<Rightarrow> unit process_result" where
  "abort_cloned_thread child s =
     (case om_get (pg_pid_for_task s) child of
        None \<Rightarrow> Some (Inl TaskNotFound, s)
      | Some pid \<Rightarrow>
          (case pg_process s pid of
             None \<Rightarrow> Some (Inl ProcessNotFound, s)
           | Some p \<Rightarrow>
               if pc_leader p = child then Some (Inl InvalidArgument, s)
               else (case om_get (pc_tasks p) child of
                       None \<Rightarrow> Some (Inl TaskNotFound, s)
                     | Some k \<Rightarrow>
                         (case remove_task_indexes pid child (pk_tid k)
                                 (pg_update pid (\<lambda>p. p\<lparr>pc_tasks := om_remove child (pc_tasks p)\<rparr>) s) of
                            None \<Rightarrow> None
                          | Some s1 \<Rightarrow> Some (Inr (), s1)))))"

definition detach_exited_process :: "nat \<Rightarrow> process_registry \<Rightarrow> (pcb option \<times> process_registry) option" where
  "detach_exited_process pid s =
     (case pg_process s pid of
        None \<Rightarrow> Some (None, s)
      | Some p \<Rightarrow>
          if \<not> is_pexited (pc_state p) then Some (None, s)
          else (case reparent_orphans pid s of
                  None \<Rightarrow> None
                | Some s1 \<Rightarrow> remove_process pid s1))"

text \<open>The two entry points of \<open>lib.rs\<close> that release what a removed process owned after the lock.\<close>

definition reap_process_with_tasks ::
  "nat \<Rightarrow> process_registry \<Rightarrow> (((process_snapshot \<times> nat list) \<times> nat option) option \<times> process_registry) option" where
  "reap_process_with_tasks pid s =
     (case detach_exited_process pid s of
        None \<Rightarrow> None
      | Some (None, s1) \<Rightarrow> Some (None, s1)
      | Some (Some p, s1) \<Rightarrow> Some (Some (retired_cleanup p), s1))"

definition abort_forked_process ::
  "nat \<Rightarrow> process_registry \<Rightarrow> (nat \<times> nat option) process_result" where
  "abort_forked_process child s =
     (case detach_aborted_fork child s of
        None \<Rightarrow> None
      | Some (Inl e, s1) \<Rightarrow> Some (Inl e, s1)
      | Some (Inr (pid, p), s1) \<Rightarrow> Some (Inr (pid, snd (retired_cleanup p)), s1))"

end
