(* ===== verification/Process_Attrs.thy ===== *)
theory Process_Attrs
  imports Process_Table
begin

text \<open>
  Attributes of processes and threads, job control, and the queries a waiting parent makes
  (\<open>task-impl/impl-core/src/process.rs\<close>). A query walks the processes in the order of their ids.
\<close>

section \<open>Attributes of a process\<close>

definition set_seccomp_mode ::
  "nat \<Rightarrow> seccomp_mode \<Rightarrow> process_registry \<Rightarrow> (process_error + unit) \<times> process_registry" where
  "set_seccomp_mode pid mode s = (Inr (), pg_update pid (\<lambda>p. p\<lparr>pc_seccomp_mode := Some mode\<rparr>) s)"

definition get_seccomp_mode :: "process_registry \<Rightarrow> nat \<Rightarrow> seccomp_mode option" where
  "get_seccomp_mode s pid = Option.bind (pg_process s pid) pc_seccomp_mode"

definition set_sec_mode ::
  "nat \<Rightarrow> bool \<Rightarrow> process_registry \<Rightarrow> (process_error + unit) \<times> process_registry" where
  "set_sec_mode pid mode s = (Inr (), pg_update pid (\<lambda>p. p\<lparr>pc_sec_mode := mode\<rparr>) s)"

definition get_sec_mode :: "process_registry \<Rightarrow> nat \<Rightarrow> bool option" where
  "get_sec_mode s pid = map_option pc_sec_mode (pg_process s pid)"

definition set_seccomp_whitelist :: "nat \<Rightarrow> seccomp_whitelist \<Rightarrow> process_registry \<Rightarrow> process_registry" where
  "set_seccomp_whitelist pid wl s = pg_update pid (\<lambda>p. p\<lparr>pc_whitelist := wl\<rparr>) s"

definition get_process_umask :: "process_registry \<Rightarrow> nat \<Rightarrow> 32 word option" where
  "get_process_umask s pid = map_option pc_umask (pg_process s pid)"

definition set_process_umask ::
  "nat \<Rightarrow> 32 word \<Rightarrow> process_registry \<Rightarrow> (process_error + unit) \<times> process_registry" where
  "set_process_umask pid um s = pg_modify pid (\<lambda>p. p\<lparr>pc_umask := um\<rparr>) s"

definition get_parent_death_signal :: "process_registry \<Rightarrow> nat \<Rightarrow> int option" where
  "get_parent_death_signal s pid = map_option pc_death_signal (pg_process s pid)"

definition set_parent_death_signal ::
  "nat \<Rightarrow> int \<Rightarrow> process_registry \<Rightarrow> (process_error + unit) \<times> process_registry" where
  "set_parent_death_signal pid sig s = pg_modify pid (\<lambda>p. p\<lparr>pc_death_signal := sig\<rparr>) s"

definition get_process_pgid :: "process_registry \<Rightarrow> nat \<Rightarrow> nat option" where
  "get_process_pgid s pid = map_option pc_pgid (pg_process s pid)"

definition set_process_pgid ::
  "nat \<Rightarrow> nat \<Rightarrow> process_registry \<Rightarrow> (process_error + unit) \<times> process_registry" where
  "set_process_pgid pid pgid s = pg_modify pid (\<lambda>p. p\<lparr>pc_pgid := pgid\<rparr>) s"

definition get_process_rlimit :: "process_registry \<Rightarrow> nat \<Rightarrow> nat \<Rightarrow> resource_limit option" where
  "get_process_rlimit s pid resource =
     Option.bind (pg_process s pid) (\<lambda>p. om_get (pc_rlimits p) resource)"

definition set_process_rlimit ::
  "nat \<Rightarrow> nat \<Rightarrow> resource_limit \<Rightarrow> process_registry \<Rightarrow> (process_error + unit) \<times> process_registry" where
  "set_process_rlimit pid resource limit s =
     (if rl_max limit < rl_cur limit then (Inl InvalidArgument, s)
      else pg_modify pid (\<lambda>p. p\<lparr>pc_rlimits := om_insert resource limit (pc_rlimits p)\<rparr>) s)"

definition update_process_address_space ::
  "nat \<Rightarrow> address_space_ref option \<Rightarrow> process_registry \<Rightarrow> (process_error + unit) \<times> process_registry" where
  "update_process_address_space pid aspace s = pg_modify pid (\<lambda>p. p\<lparr>pc_aspace := aspace\<rparr>) s"

definition process_dumpable :: "process_registry \<Rightarrow> nat \<Rightarrow> bool option" where
  "process_dumpable s pid = map_option pc_dumpable (pg_process s pid)"

definition set_process_dumpable ::
  "nat \<Rightarrow> bool \<Rightarrow> process_registry \<Rightarrow> (process_error + unit) \<times> process_registry" where
  "set_process_dumpable pid d s = pg_modify pid (\<lambda>p. p\<lparr>pc_dumpable := d\<rparr>) s"

definition process_child_subreaper :: "process_registry \<Rightarrow> nat \<Rightarrow> bool option" where
  "process_child_subreaper s pid = map_option pc_subreaper (pg_process s pid)"

text \<open>The counter of subreapers moves before the process is looked up.\<close>

definition set_process_child_subreaper ::
  "nat \<Rightarrow> bool \<Rightarrow> process_registry \<Rightarrow> (process_error + unit) \<times> process_registry" where
  "set_process_child_subreaper pid enabled s =
     (let was = (case pg_process s pid of Some p \<Rightarrow> pc_subreaper p | None \<Rightarrow> False);
          s1 = (if was \<noteq> enabled
                then (if enabled then s\<lparr>pg_subreapers := sat_add usize_max (pg_subreapers s) 1\<rparr>
                      else s\<lparr>pg_subreapers := pg_subreapers s - 1\<rparr>)
                else s)
      in pg_modify pid (\<lambda>p. p\<lparr>pc_subreaper := enabled\<rparr>) s1)"

definition process_caps_of :: "process_registry \<Rightarrow> nat \<Rightarrow> process_caps option" where
  "process_caps_of s pid = map_option pc_caps (pg_process s pid)"

definition set_process_caps ::
  "nat \<Rightarrow> process_caps \<Rightarrow> process_registry \<Rightarrow> (process_error + unit) \<times> process_registry" where
  "set_process_caps pid caps s = pg_modify pid (\<lambda>p. p\<lparr>pc_caps := caps\<rparr>) s"

definition process_keep_caps :: "process_registry \<Rightarrow> nat \<Rightarrow> bool option" where
  "process_keep_caps s pid = map_option pc_keep_caps (pg_process s pid)"

definition set_process_keep_caps ::
  "nat \<Rightarrow> bool \<Rightarrow> process_registry \<Rightarrow> (process_error + unit) \<times> process_registry" where
  "set_process_keep_caps pid enabled s = pg_modify pid (\<lambda>p. p\<lparr>pc_keep_caps := enabled\<rparr>) s"

definition create_session_for_process ::
  "nat \<Rightarrow> process_registry \<Rightarrow> (process_error + unit) \<times> process_registry" where
  "create_session_for_process pid s =
     (case pg_process s pid of
        None \<Rightarrow> (Inl ProcessNotFound, s)
      | Some p \<Rightarrow>
          if pc_pgid p = pid then (Inl AlreadySessionLeader, s)
          else (Inr (), pg_update pid (\<lambda>p. p\<lparr>pc_sid := pid, pc_pgid := pid\<rparr>) s))"

section \<open>Attributes of a thread\<close>

definition task_of :: "process_registry \<Rightarrow> nat \<Rightarrow> process_task option" where
  "task_of s t =
     Option.bind (om_get (pg_pid_for_task s) t) (\<lambda>pid.
     Option.bind (pg_process s pid) (\<lambda>p. om_get (pc_tasks p) t))"

definition modify_task ::
  "nat \<Rightarrow> (process_task \<Rightarrow> process_task) \<Rightarrow> process_registry \<Rightarrow> (process_error + unit) \<times> process_registry" where
  "modify_task t f s =
     (case om_get (pg_pid_for_task s) t of
        None \<Rightarrow> (Inl TaskNotFound, s)
      | Some pid \<Rightarrow>
          (case Option.bind (pg_process s pid) (\<lambda>p. om_get (pc_tasks p) t) of
             None \<Rightarrow> (Inl TaskNotFound, s)
           | Some k \<Rightarrow> (Inr (), pg_update pid (\<lambda>p. p\<lparr>pc_tasks := om_insert t (f k) (pc_tasks p)\<rparr>) s)))"

definition get_thread_comm :: "process_registry \<Rightarrow> nat \<Rightarrow> 8 word list option" where
  "get_thread_comm s t = map_option pk_comm (task_of s t)"

definition set_thread_comm ::
  "nat \<Rightarrow> 8 word list \<Rightarrow> process_registry \<Rightarrow> (process_error + unit) \<times> process_registry" where
  "set_thread_comm t comm s = modify_task t (\<lambda>k. k\<lparr>pk_comm := comm\<rparr>) s"

definition set_task_clear_child_tid ::
  "nat \<Rightarrow> nat option \<Rightarrow> process_registry \<Rightarrow> (process_error + unit) \<times> process_registry" where
  "set_task_clear_child_tid t addr s = modify_task t (\<lambda>k. k\<lparr>pk_clear_tid := addr\<rparr>) s"

definition task_clear_child_tid :: "process_registry \<Rightarrow> nat \<Rightarrow> nat option" where
  "task_clear_child_tid s t = Option.bind (task_of s t) pk_clear_tid"

section \<open>Identities and I/O\<close>

definition process_exists :: "process_registry \<Rightarrow> nat \<Rightarrow> bool" where
  "process_exists s pid \<longleftrightarrow> pg_process s pid \<noteq> None"

definition pgid_has_members :: "process_registry \<Rightarrow> nat \<Rightarrow> bool" where
  "pgid_has_members s pgid \<longleftrightarrow> list_ex (\<lambda>e. pc_pgid (snd e) = pgid) (pg_processes s)"

definition process_pids_in_pgid :: "process_registry \<Rightarrow> nat \<Rightarrow> nat list" where
  "process_pids_in_pgid s pgid =
     map (pc_pid \<circ> snd) (filter (\<lambda>e. pc_pgid (snd e) = pgid) (pg_processes s))"

definition task_ids_for_process :: "process_registry \<Rightarrow> nat \<Rightarrow> nat list option" where
  "task_ids_for_process s pid = map_option (map fst \<circ> pc_tasks) (pg_process s pid)"

definition process_snapshot_of :: "process_registry \<Rightarrow> nat \<Rightarrow> process_snapshot option" where
  "process_snapshot_of s pid = map_option pc_snapshot (pg_process s pid)"

definition process_task_snapshot_of :: "process_registry \<Rightarrow> nat \<Rightarrow> process_task_snapshot option" where
  "process_task_snapshot_of s t =
     Option.bind (om_get (pg_pid_for_task s) t) (\<lambda>pid.
     Option.bind (pg_process s pid) (ptask_snapshot t))"

definition process_identity_for_task :: "process_registry \<Rightarrow> nat \<Rightarrow> (nat \<times> nat option) option" where
  "process_identity_for_task s t =
     Option.bind (om_get (pg_pid_for_task s) t) (\<lambda>pid.
     map_option (\<lambda>p. (pid, pc_parent p)) (pg_process s pid))"

definition process_io_for_task :: "process_registry \<Rightarrow> nat \<Rightarrow> process_io option" where
  "process_io_for_task s t =
     Option.bind (om_get (pg_pid_for_task s) t) (\<lambda>pid. map_option pc_io (pg_process s pid))"

definition process_io_snapshot :: "process_registry \<Rightarrow> nat \<Rightarrow> nat list option" where
  "process_io_snapshot s t = map_option io_snapshot (process_io_for_task s t)"

text \<open>
  \<open>account_task_io\<close> and \<open>account_task_io_transfer\<close> update the counters the threads of a process
  share (the code reaches them through a shared pointer, cached per CPU).
\<close>

definition account_task_io :: "nat \<Rightarrow> bool \<Rightarrow> nat \<Rightarrow> process_registry \<Rightarrow> process_registry" where
  "account_task_io t rd bytes s =
     (case om_get (pg_pid_for_task s) t of
        None \<Rightarrow> s
      | Some pid \<Rightarrow> pg_update pid (\<lambda>p. p\<lparr>pc_io := io_account rd bytes (pc_io p)\<rparr>) s)"

definition account_task_io_transfer :: "nat \<Rightarrow> nat \<Rightarrow> process_registry \<Rightarrow> process_registry" where
  "account_task_io_transfer t bytes s =
     (case om_get (pg_pid_for_task s) t of
        None \<Rightarrow> s
      | Some pid \<Rightarrow> pg_update pid (\<lambda>p. p\<lparr>pc_io := io_account_transfer bytes (pc_io p)\<rparr>) s)"

definition task_id_for_thread :: "process_registry \<Rightarrow> nat \<Rightarrow> nat option" where
  "task_id_for_thread s tid = om_get (pg_task_for_thread s) tid"

definition leader_task_for_process :: "process_registry \<Rightarrow> nat \<Rightarrow> nat option" where
  "leader_task_for_process s pid = map_option pc_leader (pg_process s pid)"

definition all_process_pids :: "process_registry \<Rightarrow> nat list" where
  "all_process_pids s = map (pc_pid \<circ> snd) (pg_processes s)"

definition collect_exited_process_pids :: "process_registry \<Rightarrow> nat list" where
  "collect_exited_process_pids s =
     map (pc_pid \<circ> snd) (filter (\<lambda>e. is_pexited (pc_state (snd e))) (pg_processes s))"

section \<open>Waiting for children\<close>

definition find_child :: "(pcb \<Rightarrow> bool) \<Rightarrow> process_registry \<Rightarrow> process_snapshot option" where
  "find_child P s = map_option (pc_snapshot \<circ> snd) (find (\<lambda>e. P (snd e)) (pg_processes s))"

definition find_exited_child_process :: "process_registry \<Rightarrow> nat \<Rightarrow> process_snapshot option" where
  "find_exited_child_process s parent =
     find_child (\<lambda>p. pc_parent p = Some parent \<and> is_pexited (pc_state p)) s"

definition find_exited_child_process_in_pgid :: "process_registry \<Rightarrow> nat \<Rightarrow> nat \<Rightarrow> process_snapshot option" where
  "find_exited_child_process_in_pgid s parent pgid =
     find_child (\<lambda>p. pc_parent p = Some parent \<and> pc_pgid p = pgid \<and> is_pexited (pc_state p)) s"

definition has_child_process :: "process_registry \<Rightarrow> nat \<Rightarrow> bool" where
  "has_child_process s parent \<longleftrightarrow> list_ex (\<lambda>e. pc_parent (snd e) = Some parent) (pg_processes s)"

definition has_child_process_in_pgid :: "process_registry \<Rightarrow> nat \<Rightarrow> nat \<Rightarrow> bool" where
  "has_child_process_in_pgid s parent pgid \<longleftrightarrow>
     list_ex (\<lambda>e. pc_parent (snd e) = Some parent \<and> pc_pgid (snd e) = pgid) (pg_processes s)"

definition mark_process_stopped ::
  "nat \<Rightarrow> nat \<Rightarrow> process_registry \<Rightarrow> (process_error + unit) \<times> process_registry" where
  "mark_process_stopped pid signo s =
     (case pg_process s pid of
        None \<Rightarrow> (Inl ProcessNotFound, s)
      | Some p \<Rightarrow>
          if is_pexited (pc_state p) \<or> is_pexiting (pc_state p) then (Inl InvalidArgument, s)
          else if is_pstopped (pc_state p) then (Inr (), s)
          else (Inr (), pg_update pid (\<lambda>p. p\<lparr>pc_state := PStopped signo, pc_stop_wait := True,
                                            pc_cont_wait := False\<rparr>) s))"

definition mark_process_continued ::
  "nat \<Rightarrow> process_registry \<Rightarrow> (process_error + unit) \<times> process_registry" where
  "mark_process_continued pid s =
     (case pg_process s pid of
        None \<Rightarrow> (Inl ProcessNotFound, s)
      | Some p \<Rightarrow>
          if \<not> is_pstopped (pc_state p) then (Inl InvalidArgument, s)
          else (Inr (), pg_update pid (\<lambda>p. p\<lparr>pc_state := PRunning, pc_cont_wait := True,
                                            pc_stop_wait := False\<rparr>) s))"

definition consume_stop_wait :: "nat \<Rightarrow> bool \<Rightarrow> process_registry \<Rightarrow> process_registry" where
  "consume_stop_wait pid nowait s = (if nowait then s else pg_update pid (\<lambda>p. p\<lparr>pc_stop_wait := False\<rparr>) s)"

definition consume_continued_wait :: "nat \<Rightarrow> bool \<Rightarrow> process_registry \<Rightarrow> process_registry" where
  "consume_continued_wait pid nowait s = (if nowait then s else pg_update pid (\<lambda>p. p\<lparr>pc_cont_wait := False\<rparr>) s)"

definition find_stopped_child_process :: "process_registry \<Rightarrow> nat \<Rightarrow> process_snapshot option" where
  "find_stopped_child_process s parent =
     find_child (\<lambda>p. pc_parent p = Some parent \<and> pc_stop_wait p \<and> is_pstopped (pc_state p)) s"

definition stopped_child_ready_for_wait :: "process_registry \<Rightarrow> nat \<Rightarrow> nat \<Rightarrow> process_snapshot option" where
  "stopped_child_ready_for_wait s parent child =
     (case pg_process s child of
        None \<Rightarrow> None
      | Some p \<Rightarrow>
          if pc_parent p \<noteq> Some parent \<or> \<not> pc_stop_wait p then None
          else if \<not> is_pstopped (pc_state p) then None
          else Some (pc_snapshot p))"

definition find_stopped_child_process_in_pgid :: "process_registry \<Rightarrow> nat \<Rightarrow> nat \<Rightarrow> process_snapshot option" where
  "find_stopped_child_process_in_pgid s parent pgid =
     find_child (\<lambda>p. pc_parent p = Some parent \<and> pc_pgid p = pgid \<and> pc_stop_wait p \<and>
                    is_pstopped (pc_state p)) s"

definition find_continued_child_process :: "process_registry \<Rightarrow> nat \<Rightarrow> process_snapshot option" where
  "find_continued_child_process s parent =
     find_child (\<lambda>p. pc_parent p = Some parent \<and> pc_cont_wait p \<and> pc_state p = PRunning) s"

definition continued_child_ready_for_wait :: "process_registry \<Rightarrow> nat \<Rightarrow> nat \<Rightarrow> process_snapshot option" where
  "continued_child_ready_for_wait s parent child =
     (case pg_process s child of
        None \<Rightarrow> None
      | Some p \<Rightarrow>
          if pc_parent p \<noteq> Some parent \<or> \<not> pc_cont_wait p then None
          else if pc_state p \<noteq> PRunning then None
          else Some (pc_snapshot p))"

definition find_continued_child_process_in_pgid :: "process_registry \<Rightarrow> nat \<Rightarrow> nat \<Rightarrow> process_snapshot option" where
  "find_continued_child_process_in_pgid s parent pgid =
     find_child (\<lambda>p. pc_parent p = Some parent \<and> pc_pgid p = pgid \<and> pc_cont_wait p \<and>
                    pc_state p = PRunning) s"

end
