(* ===== verification/Process_Inv.thy ===== *)
theory Process_Inv
  imports Process_Attrs
begin

text \<open>
  The invariant of the process registry: the two indexes mirror the threads of the processes, every
  control block is well formed, parents are older than their children and exist (or are init), and
  the counter of subreapers is an upper bound of their number. Each lemma here is about a building
  block the operations share.
\<close>

section \<open>Lookup after an update\<close>

lemma pg_update_get:
  assumes "om_ok (pg_processes s)"
  shows "pg_process (pg_update pid f s) = (pg_process s)(pid := map_option f (pg_process s pid))"
  using assms by (auto simp: pg_update_def pg_process_def om_get_insert fun_eq_iff split: option.splits)

lemma pg_update_ok: "om_ok (pg_processes s) \<Longrightarrow> om_ok (pg_processes (pg_update pid f s))"
  by (auto simp: pg_update_def om_ok_insert split: option.splits)

lemma pg_update_fields [simp]:
  "pg_pid_for_task (pg_update pid f s) = pg_pid_for_task s"
  "pg_task_for_thread (pg_update pid f s) = pg_task_for_thread s"
  "pg_next_pid (pg_update pid f s) = pg_next_pid s"
  "pg_next_tid (pg_update pid f s) = pg_next_tid s"
  "pg_subreapers (pg_update pid f s) = pg_subreapers s"
  by (auto simp: pg_update_def split: option.splits)

lemma map_of_map_snd: "map_of (map (\<lambda>e. (fst e, f (snd e))) m) k = map_option f (map_of m k)"
  by (induction m) auto

lemma om_ok_map_snd: "om_ok m \<Longrightarrow> om_ok (map (\<lambda>e. (fst e, f (snd e))) m)"
  by (simp add: om_ok_def comp_def)

lemma finite_processes: "finite {pid. \<exists>p. pg_process s pid = Some p \<and> Q p}"
proof (rule finite_subset)
  show "{pid. \<exists>p. pg_process s pid = Some p \<and> Q p} \<subseteq> fst ` set (pg_processes s)"
    by (auto simp: pg_process_def om_get_def dest: map_of_SomeD intro: rev_image_eqI)
qed simp

section \<open>The invariant\<close>

definition pc_tids :: "pcb \<Rightarrow> nat \<Rightarrow> nat option" where
  "pc_tids p = (\<lambda>t. map_option pk_tid (om_get (pc_tasks p) t))"

definition has_task :: "process_registry \<Rightarrow> nat \<Rightarrow> nat \<Rightarrow> nat \<Rightarrow> bool" where
  "has_task s pid t tid \<longleftrightarrow> (\<exists>p. pg_process s pid = Some p \<and> pc_tids p t = Some tid)"

definition indexed :: "(nat \<Rightarrow> nat \<Rightarrow> nat \<Rightarrow> bool) \<Rightarrow> process_registry \<Rightarrow> bool" where
  "indexed M s \<longleftrightarrow> om_ok (pg_pid_for_task s) \<and> om_ok (pg_task_for_thread s) \<and>
     (\<forall>pid t tid tid'. M pid t tid \<and> M pid t tid' \<longrightarrow> tid = tid') \<and>
     (\<forall>t pid. om_get (pg_pid_for_task s) t = Some pid \<longleftrightarrow> (\<exists>tid. M pid t tid)) \<and>
     (\<forall>tid t. om_get (pg_task_for_thread s) tid = Some t \<longleftrightarrow> (\<exists>pid. M pid t tid))"

text \<open>Every thread that has exited and does not lead the process waits in the queue to be released.\<close>

definition exits_queued :: "pcb \<Rightarrow> bool" where
  "exits_queued p \<longleftrightarrow>
     (\<forall>t k. om_get (pc_tasks p) t = Some k \<and> is_texited (pk_state k) \<and> t \<noteq> pc_leader p \<longrightarrow>
            t \<in> set (pc_exited_members p))"

definition pcb_ok :: "nat \<Rightarrow> pcb \<Rightarrow> bool" where
  "pcb_ok pid p \<longleftrightarrow>
     pc_pid p = pid \<and> 0 < pid \<and> pid \<le> usize_max \<and> om_ok (pc_tasks p) \<and>
     om_get (pc_tasks p) (pc_leader p) \<noteq> None \<and> exits_queued p \<and>
     (all_texited p \<longleftrightarrow> is_pexited (pc_state p)) \<and>
     (\<forall>q. pc_parent p = Some q \<longrightarrow> 0 < q \<and> q < pid)"

definition parents_ok :: "process_registry \<Rightarrow> bool" where
  "parents_ok s \<longleftrightarrow>
     (\<forall>pid p q. pg_process s pid = Some p \<and> pc_parent p = Some q \<longrightarrow> q = INIT_PID \<or> pg_process s q \<noteq> None)"

definition subreaper_pids :: "process_registry \<Rightarrow> nat set" where
  "subreaper_pids s = {pid. \<exists>p. pg_process s pid = Some p \<and> pc_subreaper p}"

definition proc_inv :: "process_registry \<Rightarrow> bool" where
  "proc_inv s \<longleftrightarrow>
     om_ok (pg_processes s) \<and> indexed (has_task s) s \<and>
     (\<forall>pid p. pg_process s pid = Some p \<longrightarrow> pcb_ok pid p) \<and>
     parents_ok s \<and>
     (\<forall>pid. pg_process s pid \<noteq> None \<longrightarrow> pid < pg_next_pid s \<or> pg_next_pid s = usize_max) \<and>
     0 < pg_next_pid s \<and> pg_next_pid s \<le> usize_max \<and> pg_next_tid s \<le> usize_max \<and>
     card (subreaper_pids s) \<le> pg_subreapers s"

lemma proc_inv_parts:
  assumes "proc_inv s"
  shows "om_ok (pg_processes s)" "indexed (has_task s) s" "parents_ok s"
    "card (subreaper_pids s) \<le> pg_subreapers s" "0 < pg_next_pid s" "pg_next_pid s \<le> usize_max"
    "pg_next_tid s \<le> usize_max"
  using assms by (simp_all add: proc_inv_def)

lemma proc_inv_pcb: "proc_inv s \<Longrightarrow> pg_process s pid = Some p \<Longrightarrow> pcb_ok pid p"
  by (simp add: proc_inv_def)

lemma parent_exists:
  "proc_inv s \<Longrightarrow> pg_process s pid = Some p \<Longrightarrow> pc_parent p = Some q \<Longrightarrow> q = INIT_PID \<or> pg_process s q \<noteq> None"
  unfolding proc_inv_def parents_ok_def by blast

lemma proc_inv_new: "proc_inv pg_new"
  by (auto simp: proc_inv_def pg_new_def pg_process_def om_get_def indexed_def has_task_def parents_ok_def
      subreaper_pids_def usize_max_def)

lemma has_task_indexed:
  assumes "proc_inv s"
  shows "om_get (pg_pid_for_task s) t = Some pid \<longleftrightarrow> (\<exists>p k. pg_process s pid = Some p \<and> om_get (pc_tasks p) t = Some k)"
    "om_get (pg_task_for_thread s) tid = Some t \<longleftrightarrow>
      (\<exists>pid p k. pg_process s pid = Some p \<and> om_get (pc_tasks p) t = Some k \<and> pk_tid k = tid)"
proof -
  have i: "indexed (has_task s) s" by (rule proc_inv_parts(2) [OF assms])
  have a: "om_get (pg_pid_for_task s) t = Some pid \<longleftrightarrow> (\<exists>tid. has_task s pid t tid)"
    "om_get (pg_task_for_thread s) tid = Some t \<longleftrightarrow> (\<exists>pid. has_task s pid t tid)"
    using i unfolding indexed_def by blast+
  show "om_get (pg_pid_for_task s) t = Some pid \<longleftrightarrow> (\<exists>p k. pg_process s pid = Some p \<and> om_get (pc_tasks p) t = Some k)"
    unfolding a(1) has_task_def pc_tids_def by auto
  show "om_get (pg_task_for_thread s) tid = Some t \<longleftrightarrow>
      (\<exists>pid p k. pg_process s pid = Some p \<and> om_get (pc_tasks p) t = Some k \<and> pk_tid k = tid)"
    unfolding a(2) has_task_def pc_tids_def by auto
qed

lemma task_indexed:
  "proc_inv s \<Longrightarrow> pg_process s pid = Some p \<Longrightarrow> om_get (pc_tasks p) t = Some k \<Longrightarrow>
     om_get (pg_pid_for_task s) t = Some pid \<and> om_get (pg_task_for_thread s) (pk_tid k) = Some t"
  using has_task_indexed [of s] by blast

lemma all_texited_iff:
  "om_ok (pc_tasks p) \<Longrightarrow>
     all_texited p \<longleftrightarrow> (\<forall>t k. om_get (pc_tasks p) t = Some k \<longrightarrow> is_texited (pk_state k))"
  by (auto simp: all_texited_def list_all_iff om_get_iff)

section \<open>Updates that keep the threads\<close>

definition same_threads :: "process_registry \<Rightarrow> process_registry \<Rightarrow> bool" where
  "same_threads s s' \<longleftrightarrow>
     pg_pid_for_task s' = pg_pid_for_task s \<and> pg_task_for_thread s' = pg_task_for_thread s \<and>
     pg_next_pid s' = pg_next_pid s \<and> pg_next_tid s' = pg_next_tid s \<and>
     (om_ok (pg_processes s) \<longrightarrow> om_ok (pg_processes s')) \<and>
     (\<forall>pid. case pg_process s pid of
        None \<Rightarrow> pg_process s' pid = None
      | Some p \<Rightarrow> (\<exists>p'. pg_process s' pid = Some p' \<and> pc_tids p' = pc_tids p))"

lemma same_threadsD:
  assumes "same_threads s s'"
  shows "pg_process s' pid = Some p' \<Longrightarrow> \<exists>p. pg_process s pid = Some p \<and> pc_tids p' = pc_tids p"
    "pg_process s pid = Some p \<Longrightarrow> \<exists>p'. pg_process s' pid = Some p' \<and> pc_tids p' = pc_tids p"
    "pg_process s' pid = None \<longleftrightarrow> pg_process s pid = None"
  using assms unfolding same_threads_def by (auto split: option.splits dest: spec [of _ pid])

lemma same_threads_has_task: "same_threads s s' \<Longrightarrow> has_task s' = has_task s"
  unfolding has_task_def fun_eq_iff using same_threadsD [of s s'] by (metis option.sel)

lemma same_threads_inv:
  assumes inv: "proc_inv s" and same: "same_threads s s'"
    and ok: "\<And>pid p. pg_process s' pid = Some p \<Longrightarrow> pcb_ok pid p"
    and par: "\<And>pid p q. pg_process s' pid = Some p \<Longrightarrow> pc_parent p = Some q \<Longrightarrow> q = INIT_PID \<or> pg_process s q \<noteq> None"
    and sub: "card (subreaper_pids s') \<le> pg_subreapers s'"
  shows "proc_inv s'"
proof -
  have "indexed (has_task s') s'"
    using inv same unfolding same_threads_has_task [OF same] by (simp add: indexed_def proc_inv_def same_threads_def)
  moreover have "parents_ok s'" unfolding parents_ok_def using par same_threadsD(3) [OF same] by metis
  moreover have "\<forall>pid. pg_process s' pid \<noteq> None \<longrightarrow> pid < pg_next_pid s' \<or> pg_next_pid s' = usize_max"
    using inv same same_threadsD(3) [OF same] unfolding proc_inv_def same_threads_def by simp
  ultimately show ?thesis
    using inv same ok sub by (simp add: proc_inv_def same_threads_def)
qed

lemma same_threads_update:
  assumes "proc_inv s" "\<And>p. pg_process s pid = Some p \<Longrightarrow> pc_tids (f p) = pc_tids p"
  shows "same_threads s (pg_update pid f s)"
proof -
  have ok: "om_ok (pg_processes s)" by (rule proc_inv_parts(1) [OF assms(1)])
  show ?thesis
    using assms(2) unfolding same_threads_def pg_update_get [OF ok]
    by (auto simp: pg_update_ok split: option.splits)
qed

lemma subreaper_pids_update:
  assumes "om_ok (pg_processes s)" "\<And>p. pg_process s pid = Some p \<Longrightarrow> pc_subreaper (f p) = pc_subreaper p"
  shows "subreaper_pids (pg_update pid f s) = subreaper_pids s"
  using assms unfolding subreaper_pids_def pg_update_get [OF assms(1)] by (auto split: if_splits)

text \<open>One control block changes, but neither its threads, nor its parent, nor its subreaper mark.\<close>

lemma update_inv:
  assumes inv: "proc_inv s"
    and f: "\<And>p. pg_process s pid = Some p \<Longrightarrow> pcb_ok pid p \<Longrightarrow>
      pcb_ok pid (f p) \<and> pc_tids (f p) = pc_tids p \<and> pc_parent (f p) = pc_parent p \<and> pc_subreaper (f p) = pc_subreaper p"
  shows "proc_inv (pg_update pid f s)"
proof (rule same_threads_inv [OF inv])
  note ok = proc_inv_parts(1) [OF inv]
  have f': "pc_tids (f p) = pc_tids p" "pc_subreaper (f p) = pc_subreaper p" "pc_parent (f p) = pc_parent p" "pcb_ok pid (f p)"
    if "pg_process s pid = Some p" for p
    using f [OF that proc_inv_pcb [OF inv that]] by simp_all
  show "same_threads s (pg_update pid f s)" by (rule same_threads_update [OF inv f'(1)])
  show "card (subreaper_pids (pg_update pid f s)) \<le> pg_subreapers (pg_update pid f s)"
    using subreaper_pids_update [OF ok f'(2)] proc_inv_parts(4) [OF inv] by simp
  fix i p assume p: "pg_process (pg_update pid f s) i = Some p"
  then obtain p0 where p0: "pg_process s i = Some p0" "p = (if i = pid then f p0 else p0)"
    unfolding pg_update_get [OF ok] by (auto split: if_splits)
  then show "pcb_ok i p" using f'(4) proc_inv_pcb [OF inv p0(1)] by (auto split: if_splits)
  fix q assume "pc_parent p = Some q"
  with p0 f'(3) have "pc_parent p0 = Some q" by (auto split: if_splits)
  with p0(1) show "q = INIT_PID \<or> pg_process s q \<noteq> None"
    using proc_inv_parts(3) [OF inv] unfolding parents_ok_def by blast
qed

lemma modify_inv:
  assumes "proc_inv s"
    and "\<And>p. pg_process s pid = Some p \<Longrightarrow> pcb_ok pid p \<Longrightarrow>
      pcb_ok pid (f p) \<and> pc_tids (f p) = pc_tids p \<and> pc_parent (f p) = pc_parent p \<and> pc_subreaper (f p) = pc_subreaper p"
  shows "proc_inv (snd (pg_modify pid f s))"
  using assms update_inv [OF assms] by (auto simp: pg_modify_def split: option.splits)

text \<open>The fields the invariant does not look at.\<close>

lemma pcb_ok_cong:
  assumes "pc_pid q = pc_pid p" "pc_leader q = pc_leader p" "pc_parent q = pc_parent p" "pc_tasks q = pc_tasks p"
    "pc_exited_members q = pc_exited_members p" "pc_state q = pc_state p"
  shows "pcb_ok pid q \<longleftrightarrow> pcb_ok pid p"
  using assms by (simp add: pcb_ok_def exits_queued_def all_texited_def)

lemma pc_tids_cong: "pc_tasks q = pc_tasks p \<Longrightarrow> pc_tids q = pc_tids p"
  by (simp add: pc_tids_def)

lemma attr_inv:
  assumes "proc_inv s"
    and "\<And>p. pc_pid (f p) = pc_pid p \<and> pc_leader (f p) = pc_leader p \<and> pc_parent (f p) = pc_parent p \<and>
      pc_tasks (f p) = pc_tasks p \<and> pc_exited_members (f p) = pc_exited_members p \<and> pc_state (f p) = pc_state p \<and>
      pc_subreaper (f p) = pc_subreaper p"
  shows "proc_inv (pg_update pid f s)" "proc_inv (snd (pg_modify pid f s))"
proof -
  have f: "pcb_ok pid (f p) \<and> pc_tids (f p) = pc_tids p \<and> pc_parent (f p) = pc_parent p \<and> pc_subreaper (f p) = pc_subreaper p"
    if "pcb_ok pid p" for p
    using that assms(2) [of p] pcb_ok_cong [of "f p" p pid] pc_tids_cong [of "f p" p] by simp
  show "proc_inv (pg_update pid f s)" by (rule update_inv [OF assms(1)]) (use f in blast)
  show "proc_inv (snd (pg_modify pid f s))" by (rule modify_inv [OF assms(1)]) (use f in blast)
qed

section \<open>Removing index entries\<close>

lemma indexedD:
  assumes "indexed M s"
  shows "M pid t tid \<Longrightarrow> om_get (pg_pid_for_task s) t = Some pid"
    "M pid t tid \<Longrightarrow> om_get (pg_task_for_thread s) tid = Some t"
    "om_get (pg_task_for_thread s) tid = Some t \<Longrightarrow> \<exists>pid. M pid t tid"
    "om_get (pg_pid_for_task s) t = Some pid \<Longrightarrow> \<exists>tid. M pid t tid"
  using assms by (auto simp: indexed_def)

definition same_processes :: "process_registry \<Rightarrow> process_registry \<Rightarrow> bool" where
  "same_processes s s' \<longleftrightarrow>
     s' = s\<lparr>pg_pid_for_task := pg_pid_for_task s', pg_task_for_thread := pg_task_for_thread s'\<rparr>"

lemma same_processes_refl [simp]: "same_processes s s"
  by (simp add: same_processes_def)

lemma same_processes_fields:
  assumes "same_processes s s'"
  shows "pg_processes s' = pg_processes s" "pg_next_pid s' = pg_next_pid s" "pg_next_tid s' = pg_next_tid s"
    "pg_subreapers s' = pg_subreapers s"
proof -
  obtain a b where "s' = s\<lparr>pg_pid_for_task := a, pg_task_for_thread := b\<rparr>"
    using assms unfolding same_processes_def by blast
  then show "pg_processes s' = pg_processes s" "pg_next_pid s' = pg_next_pid s" "pg_next_tid s' = pg_next_tid s"
    "pg_subreapers s' = pg_subreapers s" by simp_all
qed

lemma same_processes_trans: "same_processes s s' \<Longrightarrow> same_processes s' s'' \<Longrightarrow> same_processes s s''"
  unfolding same_processes_def by (cases s, cases s', cases s'') simp

lemma indexed_unique:
  assumes "indexed M s" "M pid t tid"
  shows "M a t c \<Longrightarrow> a = pid \<and> c = tid" "M a b tid \<Longrightarrow> a = pid \<and> b = t"
proof -
  show u: "a = pid \<and> c = tid" if m: "M a t c" for a c
  proof -
    have "a = pid" using indexedD(1) [OF assms] indexedD(1) [OF assms(1) m] by simp
    then show ?thesis using assms m unfolding indexed_def by blast
  qed
  show "a = pid \<and> b = t" if "M a b tid"
  proof -
    have "b = t" using indexedD(2) [OF assms] indexedD(2) [OF assms(1) that] by simp
    then show ?thesis using u that by blast
  qed
qed

lemma remove_task_indexes_ok:
  assumes ix: "indexed M s" and m: "M pid t tid"
  shows "\<exists>s'. remove_task_indexes pid t tid s = Some s' \<and> same_processes s s' \<and> indexed (\<lambda>a b c. M a b c \<and> b \<noteq> t) s'"
proof -
  let ?s = "s\<lparr>pg_pid_for_task := om_remove t (pg_pid_for_task s), pg_task_for_thread := om_remove tid (pg_task_for_thread s)\<rparr>"
  have ok: "om_ok (pg_pid_for_task s)" "om_ok (pg_task_for_thread s)" using ix by (simp_all add: indexed_def)
  have r: "remove_task_indexes pid t tid s = Some ?s"
    using indexedD(1,2) [OF ix m] by (simp add: remove_task_indexes_def)
  have "indexed (\<lambda>a b c. M a b c \<and> b \<noteq> t) ?s"
    unfolding indexed_def
  proof (intro conjI allI impI)
    fix b c
    show "om_get (pg_pid_for_task ?s) b = Some c \<longleftrightarrow> (\<exists>tid. M c b tid \<and> b \<noteq> t)"
      using ix unfolding indexed_def by (simp add: om_get_remove [OF ok(1)])
    show "om_get (pg_task_for_thread ?s) c = Some b \<longleftrightarrow> (\<exists>pid. M pid b c \<and> b \<noteq> t)"
    proof (cases "c = tid")
      case True
      then show ?thesis using indexed_unique(2) [OF ix m] by (auto simp: om_get_remove [OF ok(2)])
    next
      case False
      then have "\<not> M pid t c" for pid using indexed_unique(1) [OF ix m] by blast
      then show ?thesis using ix False unfolding indexed_def by (auto simp: om_get_remove [OF ok(2)])
    qed
  next
    fix a b c c' assume "(M a b c \<and> b \<noteq> t) \<and> M a b c' \<and> b \<noteq> t"
    then show "c = c'" using ix unfolding indexed_def by blast
  qed (simp_all add: om_ok_remove ok)
  moreover have "same_processes s ?s" by (simp add: same_processes_def)
  ultimately show ?thesis using r by blast
qed

lemma remove_all_indexes_ok:
  assumes "indexed M s" "\<And>t k. (t, k) \<in> set ks \<Longrightarrow> M pid t (pk_tid k)" "distinct (map fst ks)"
  shows "\<exists>s'. remove_all_indexes pid ks s = Some s' \<and> same_processes s s' \<and>
    indexed (\<lambda>a b c. M a b c \<and> b \<notin> fst ` set ks) s'"
  using assms
proof (induction ks arbitrary: s M)
  case Nil
  then show ?case by simp
next
  case (Cons e ks)
  obtain t k where e: "e = (t, k)" by (cases e)
  obtain s1 where s1: "remove_task_indexes pid t (pk_tid k) s = Some s1" "same_processes s s1"
    "indexed (\<lambda>a b c. M a b c \<and> b \<noteq> t) s1"
    using remove_task_indexes_ok [OF Cons.prems(1), of pid t "pk_tid k"] Cons.prems(2) e by auto
  have "\<exists>s'. remove_all_indexes pid ks s1 = Some s' \<and> same_processes s1 s' \<and>
      indexed (\<lambda>a b c. (M a b c \<and> b \<noteq> t) \<and> b \<notin> fst ` set ks) s'"
    by (rule Cons.IH [OF s1(3)]) (use Cons.prems(2,3) e in \<open>force+\<close>)
  then obtain s' where "remove_all_indexes pid ks s1 = Some s'" "same_processes s1 s'"
    "indexed (\<lambda>a b c. (M a b c \<and> b \<noteq> t) \<and> b \<notin> fst ` set ks) s'" by blast
  then show ?case using s1(1) same_processes_trans [OF s1(2)] e by (simp add: conj_assoc)
qed

lemma find_SomeD: "find P xs = Some x \<Longrightarrow> P x \<and> x \<in> set xs"
  by (induction xs) (auto split: if_splits)

lemma tid_of_task_Some:
  assumes "indexed M s"
  shows "tid_of_task t s = Some tid \<Longrightarrow> \<exists>pid. M pid t tid"
    "tid_of_task t s = None \<Longrightarrow> \<not> M pid t tid'"
proof -
  have ok: "om_ok (pg_task_for_thread s)" using assms by (simp add: indexed_def)
  show "\<exists>pid. M pid t tid" if "tid_of_task t s = Some tid"
  proof -
    from that obtain e where "find (\<lambda>e. snd e = t) (pg_task_for_thread s) = Some e" "fst e = tid"
      by (auto simp: tid_of_task_def)
    then have "e \<in> set (pg_task_for_thread s) \<and> e = (tid, t)" by (auto dest: find_SomeD simp: prod_eq_iff)
    then have "(tid, t) \<in> set (pg_task_for_thread s)" by blast
    then show ?thesis using indexedD(3) [OF assms] om_get_iff [OF ok] by blast
  qed
  show "\<not> M pid t tid'" if "tid_of_task t s = None"
    using that indexedD(2) [OF assms, of pid t tid'] om_get_iff [OF ok, of tid' t]
    by (force simp: tid_of_task_def find_None_iff)
qed

lemma drop_task_indexes_ok:
  assumes "indexed M s" "\<And>t a c. t \<in> set ts \<Longrightarrow> M a t c \<Longrightarrow> a = pid"
  shows "\<exists>s'. drop_task_indexes pid ts s = Some s' \<and> same_processes s s' \<and>
    indexed (\<lambda>a b c. M a b c \<and> b \<notin> set ts) s'"
  using assms
proof (induction ts arbitrary: s M)
  case Nil
  then show ?case by simp
next
  case (Cons t ts)
  show ?case
  proof (cases "tid_of_task t s")
    case None
    then have n: "\<not> M a t c" for a c using tid_of_task_Some(2) [OF Cons.prems(1)] by blast
    have e: "(\<lambda>a b c. M a b c \<and> b \<notin> set (t # ts)) = (\<lambda>a b c. M a b c \<and> b \<notin> set ts)"
      using n by (auto simp: fun_eq_iff)
    have "\<exists>s'. drop_task_indexes pid ts s = Some s' \<and> same_processes s s' \<and>
        indexed (\<lambda>a b c. M a b c \<and> b \<notin> set ts) s'"
      by (rule Cons.IH [OF Cons.prems(1)]) (use Cons.prems(2) in force)
    then show ?thesis using None unfolding e by simp
  next
    case (Some tid)
    then have m: "M pid t tid" using tid_of_task_Some(1) [OF Cons.prems(1) Some] Cons.prems(2) by fastforce
    obtain s1 where s1: "remove_task_indexes pid t tid s = Some s1" "same_processes s s1"
      "indexed (\<lambda>a b c. M a b c \<and> b \<noteq> t) s1"
      using remove_task_indexes_ok [OF Cons.prems(1) m] by blast
    have "\<exists>s'. drop_task_indexes pid ts s1 = Some s' \<and> same_processes s1 s' \<and>
        indexed (\<lambda>a b c. (M a b c \<and> b \<noteq> t) \<and> b \<notin> set ts) s'"
      by (rule Cons.IH [OF s1(3)]) (use Cons.prems(2) in force)
    then show ?thesis using Some s1(1) same_processes_trans [OF s1(2)] by (auto simp: conj_assoc)
  qed
qed

end
