(* ===== verification/Process_Tree.thy ===== *)
theory Process_Tree
  imports Process_Inv
begin

text \<open>
  The process tree: the ancestors of a process, the search for the nearest living subreaper, the
  adoption of orphans and the notices of a parent's death. The search goes from a process to an
  older one, so it ends.
\<close>

section \<open>Ancestors\<close>

inductive ancestor :: "process_registry \<Rightarrow> nat \<Rightarrow> nat \<Rightarrow> bool" for s where
  parent: "pg_process s c = Some p \<Longrightarrow> pc_parent p = Some a \<Longrightarrow> ancestor s c a"
| further: "pg_process s c = Some p \<Longrightarrow> pc_parent p = Some b \<Longrightarrow> ancestor s b a \<Longrightarrow> ancestor s c a"

inductive_cases ancestorE: "ancestor s c a"

definition living_subreaper :: "process_registry \<Rightarrow> nat \<Rightarrow> bool" where
  "living_subreaper s q \<longleftrightarrow>
     (\<exists>p. pg_process s q = Some p \<and> pc_subreaper p \<and> \<not> is_pexiting (pc_state p) \<and> \<not> is_pexited (pc_state p))"

definition nearest_reaper :: "process_registry \<Rightarrow> nat \<Rightarrow> nat option \<Rightarrow> bool" where
  "nearest_reaper s c r \<longleftrightarrow>
     (case r of
        None \<Rightarrow> \<forall>a. ancestor s c a \<longrightarrow> \<not> living_subreaper s a
      | Some q \<Rightarrow> ancestor s c q \<and> living_subreaper s q \<and>
          (\<forall>a. ancestor s c a \<and> living_subreaper s a \<longrightarrow> a \<le> q))"

lemma ancestor_older:
  assumes "proc_inv s" "ancestor s c a"
  shows "a < c \<and> 0 < a"
  using assms(2)
proof induction
  case (parent c p a)
  then show ?case using proc_inv_pcb [OF assms(1) parent(1)] by (auto simp: pcb_ok_def)
next
  case (further c p b a)
  then show ?case using proc_inv_pcb [OF assms(1) further(1)] by (auto simp: pcb_ok_def)
qed

lemma ancestor_via_parent:
  assumes "pg_process s c = Some p" "pc_parent p = Some b"
  shows "ancestor s c a \<longleftrightarrow> a = b \<or> ancestor s b a"
  using assms by (auto elim: ancestorE intro: ancestor.intros)

lemma no_ancestor: "pg_process s c = Some p \<Longrightarrow> pc_parent p = None \<Longrightarrow> \<not> ancestor s c a"
  "pg_process s c = None \<Longrightarrow> \<not> ancestor s c a"
  by (auto elim: ancestorE)

lemma find_subreaper_nearest:
  assumes inv: "proc_inv s" and p: "pg_process s c = Some p"
  shows "\<exists>r. find_subreaper (pg_processes s) (pc_parent p) = Some r \<and> nearest_reaper s c r"
  using p
proof (induction c arbitrary: p rule: less_induct)
  case (less c)
  show ?case
  proof (cases "pc_parent p")
    case None
    then show ?thesis using no_ancestor(1) [OF less.prems] by (subst find_subreaper.simps) (simp add: nearest_reaper_def)
  next
    case (Some b)
    note anc = ancestor_via_parent [OF less.prems Some]
    have b: "b < c" using proc_inv_pcb [OF inv less.prems] Some by (simp add: pcb_ok_def)
    show ?thesis
    proof (cases "pg_process s b")
      case None
      then have "\<not> living_subreaper s b" by (simp add: living_subreaper_def)
      then show ?thesis using Some None anc no_ancestor(2) [OF None]
        by (subst find_subreaper.simps) (auto simp: nearest_reaper_def pg_process_def)
    next
      case q: (Some q)
      show ?thesis
      proof (cases "living_subreaper s b")
        case True
        then have "find_subreaper (pg_processes s) (pc_parent p) = Some (Some b)"
          using Some q by (subst find_subreaper.simps) (simp add: living_subreaper_def pg_process_def)
        moreover have "nearest_reaper s c (Some b)"
          using True anc ancestor_older [OF inv, of b] by (auto simp: nearest_reaper_def less_imp_le)
        ultimately show ?thesis by blast
      next
        case False
        then have e: "find_subreaper (pg_processes s) (pc_parent p) = find_subreaper (pg_processes s) (pc_parent q)"
          using Some q by (subst find_subreaper.simps) (auto simp: living_subreaper_def pg_process_def)
        obtain r where r: "find_subreaper (pg_processes s) (pc_parent q) = Some r" "nearest_reaper s b r"
          using less.IH [OF b q] by blast
        have "nearest_reaper s c r"
          using r(2) False anc unfolding nearest_reaper_def by (cases r) auto
        then show ?thesis using e r(1) by auto
      qed
    qed
  qed
qed

section \<open>Notices of a parent's death\<close>

definition cleared :: "death_source \<Rightarrow> pcb \<Rightarrow> pcb" where
  "cleared src p = (if pc_death_source p = Some src then p\<lparr>pc_death_source := None\<rparr> else p)"

lemma cleared_fields [simp]:
  "pc_pid (cleared src p) = pc_pid p" "pc_leader (cleared src p) = pc_leader p" "pc_parent (cleared src p) = pc_parent p"
  "pc_tasks (cleared src p) = pc_tasks p" "pc_state (cleared src p) = pc_state p"
  "pc_exited_members (cleared src p) = pc_exited_members p" "pc_subreaper (cleared src p) = pc_subreaper p"
  "pc_death_signal (cleared src p) = pc_death_signal p"
  "pc_death_source (cleared src p) = (if pc_death_source p = Some src then None else pc_death_source p)"
  by (simp_all add: cleared_def)

lemma map_processes:
  "pg_process (s\<lparr>pg_processes := map (\<lambda>e. (fst e, f (snd e))) (pg_processes s)\<rparr>) pid = map_option f (pg_process s pid)"
  by (simp add: pg_process_def om_get_def map_of_map_snd)

lemma take_death_notices_eq:
  "take_death_notices src s =
     (map (\<lambda>e. \<lparr>dn_pid = pc_pid (snd e), dn_signal = pc_death_signal (snd e)\<rparr>)
        (filter (\<lambda>e. pc_death_source (snd e) = Some src \<and> 0 < pc_death_signal (snd e)) (pg_processes s)),
      s\<lparr>pg_processes := map (\<lambda>e. (fst e, cleared src (snd e))) (pg_processes s)\<rparr>)"
  unfolding take_death_notices_def Let_def cleared_def by (simp add: if_distrib)

lemma take_death_notices_get:
  "pg_process (snd (take_death_notices src s)) pid = map_option (cleared src) (pg_process s pid)"
  unfolding take_death_notices_eq by (simp add: map_processes)

lemma take_death_notices_fields [simp]:
  "pg_subreapers (snd (take_death_notices src s)) = pg_subreapers s"
  "pg_pid_for_task (snd (take_death_notices src s)) = pg_pid_for_task s"
  "pg_task_for_thread (snd (take_death_notices src s)) = pg_task_for_thread s"
  "pg_next_pid (snd (take_death_notices src s)) = pg_next_pid s"
  "pg_next_tid (snd (take_death_notices src s)) = pg_next_tid s"
  by (simp_all add: take_death_notices_eq)

text \<open>The processes that get a notice: those that name the source and have asked for a signal.\<close>

definition owed :: "process_registry \<Rightarrow> death_source \<Rightarrow> death_notice \<Rightarrow> bool" where
  "owed s src n \<longleftrightarrow>
     (\<exists>p. pg_process s (dn_pid n) = Some p \<and> pc_death_source p = Some src \<and>
          pc_death_signal p = dn_signal n \<and> 0 < dn_signal n)"

lemma take_death_notices_mem:
  assumes inv: "proc_inv s"
  shows "n \<in> set (fst (take_death_notices src s)) \<longleftrightarrow> owed s src n"
    "distinct (map dn_pid (fst (take_death_notices src s)))"
proof -
  have ok: "om_ok (pg_processes s)" by (rule proc_inv_parts(1) [OF inv])
  have pid: "pc_pid p = i" if "(i, p) \<in> set (pg_processes s)" for i p
    using that proc_inv_pcb [OF inv, of i p] by (simp add: pg_process_def om_get_iff [OF ok] pcb_ok_def)
  show "n \<in> set (fst (take_death_notices src s)) \<longleftrightarrow> owed s src n"
    using pid unfolding take_death_notices_eq owed_def pg_process_def om_get_iff [OF ok]
    by (cases n) (force simp: image_iff)
  have "map dn_pid (fst (take_death_notices src s)) =
      map fst (filter (\<lambda>e. pc_death_source (snd e) = Some src \<and> 0 < pc_death_signal (snd e)) (pg_processes s))"
    unfolding take_death_notices_eq using pid by (auto simp: comp_def)
  then show "distinct (map dn_pid (fst (take_death_notices src s)))"
    using om_ok_distinct [OF om_ok_filter [OF ok]] by simp
qed

lemma take_death_notices_inv:
  assumes inv: "proc_inv s"
  shows "proc_inv (snd (take_death_notices src s))"
proof (rule same_threads_inv [OF inv])
  let ?s = "snd (take_death_notices src s)"
  show "same_threads s ?s"
    unfolding same_threads_def take_death_notices_get
    by (auto simp: take_death_notices_eq om_ok_map_snd pc_tids_def split: option.splits)
  have "subreaper_pids ?s = subreaper_pids s" unfolding subreaper_pids_def take_death_notices_get by auto
  then show "card (subreaper_pids ?s) \<le> pg_subreapers ?s" using proc_inv_parts(4) [OF inv] by simp
  fix pid p assume "pg_process ?s pid = Some p"
  then obtain p0 where p0: "pg_process s pid = Some p0" "p = cleared src p0" unfolding take_death_notices_get by auto
  then show "pcb_ok pid p" using proc_inv_pcb [OF inv p0(1)] pcb_ok_cong [of p p0 pid] by simp
  fix q assume "pc_parent p = Some q"
  then show "q = INIT_PID \<or> pg_process s q \<noteq> None"
    using p0 proc_inv_parts(3) [OF inv] unfolding parents_ok_def by (metis cleared_fields(3))
qed

lemma take_all_death_notices_snd:
  "snd (take_all_death_notices srcs s) = foldl (\<lambda>s src. snd (take_death_notices src s)) s srcs"
  by (induction srcs arbitrary: s) (simp_all add: case_prod_unfold Let_def)

definition all_cleared :: "death_source list \<Rightarrow> pcb \<Rightarrow> pcb" where
  "all_cleared srcs p = (if pc_death_source p \<in> Some ` set srcs then p\<lparr>pc_death_source := None\<rparr> else p)"

lemma take_all_death_notices_props:
  assumes "proc_inv s"
  shows "proc_inv (snd (take_all_death_notices srcs s))"
    "pg_process (snd (take_all_death_notices srcs s)) pid = map_option (all_cleared srcs) (pg_process s pid)"
    "pg_subreapers (snd (take_all_death_notices srcs s)) = pg_subreapers s"
proof -
  have "proc_inv (snd (take_all_death_notices srcs s)) \<and>
      pg_process (snd (take_all_death_notices srcs s)) = (\<lambda>pid. map_option (all_cleared srcs) (pg_process s pid)) \<and>
      pg_subreapers (snd (take_all_death_notices srcs s)) = pg_subreapers s"
    using assms
  proof (induction srcs arbitrary: s)
    case Nil
    then show ?case by (auto simp: all_cleared_def fun_eq_iff map_option_case split: option.splits)
  next
    case (Cons src srcs)
    let ?t = "snd (take_death_notices src s)"
    have "all_cleared srcs (cleared src p) = all_cleared (src # srcs) p" for p
      by (auto simp: all_cleared_def cleared_def)
    then show ?case
      using Cons.IH [OF take_death_notices_inv [OF Cons.prems, of src]]
      by (simp add: case_prod_unfold Let_def take_death_notices_get option.map_comp comp_def)
  qed
  then show "proc_inv (snd (take_all_death_notices srcs s))"
    "pg_process (snd (take_all_death_notices srcs s)) pid = map_option (all_cleared srcs) (pg_process s pid)"
    "pg_subreapers (snd (take_all_death_notices srcs s)) = pg_subreapers s" by simp_all
qed

lemma owed_after:
  "owed (snd (take_death_notices src s)) src' n \<longleftrightarrow> owed s src' n \<and> src' \<noteq> src"
  unfolding owed_def take_death_notices_get by (auto split: if_splits)

lemma owed_unique: "owed s src n \<Longrightarrow> owed s src' n' \<Longrightarrow> dn_pid n = dn_pid n' \<Longrightarrow> src = src'"
  by (auto simp: owed_def)

lemma take_all_death_notices_mem:
  assumes "proc_inv s"
  shows "set (fst (take_all_death_notices srcs s)) = {n. \<exists>src \<in> set srcs. owed s src n}"
    "distinct (map dn_pid (fst (take_all_death_notices srcs s)))"
proof -
  have "set (fst (take_all_death_notices srcs s)) = {n. \<exists>src \<in> set srcs. owed s src n} \<and>
      distinct (map dn_pid (fst (take_all_death_notices srcs s)))"
    using assms
  proof (induction srcs arbitrary: s)
    case Nil
    then show ?case by simp
  next
    case (Cons src srcs)
    let ?t = "snd (take_death_notices src s)"
    let ?a = "fst (take_death_notices src s)" and ?b = "fst (take_all_death_notices srcs ?t)"
    have e: "fst (take_all_death_notices (src # srcs) s) = ?a @ ?b" by (simp add: case_prod_unfold Let_def)
    have a: "set ?a = {n. owed s src n}" "distinct (map dn_pid ?a)"
      using take_death_notices_mem [OF Cons.prems] by auto
    have b: "set ?b = {n. \<exists>src' \<in> set srcs. owed s src' n \<and> src' \<noteq> src}" "distinct (map dn_pid ?b)"
      using Cons.IH [OF take_death_notices_inv [OF Cons.prems, of src]] unfolding owed_after by auto
    have "dn_pid ` set ?a \<inter> dn_pid ` set ?b = {}"
      unfolding a(1) b(1) using owed_unique by fastforce
    then show ?case unfolding e using a b by auto
  qed
  then show "set (fst (take_all_death_notices srcs s)) = {n. \<exists>src \<in> set srcs. owed s src n}"
    "distinct (map dn_pid (fst (take_all_death_notices srcs s)))" by simp_all
qed

section \<open>Adoption\<close>

lemma adopt_fields [simp]:
  "pc_pid (adopt q p) = pc_pid p" "pc_leader (adopt q p) = pc_leader p" "pc_parent (adopt q p) = Some q"
  "pc_tasks (adopt q p) = pc_tasks p" "pc_state (adopt q p) = pc_state p"
  "pc_exited_members (adopt q p) = pc_exited_members p" "pc_subreaper (adopt q p) = pc_subreaper p"
  "pc_death_signal (adopt q p) = pc_death_signal p" "pc_death_source (adopt q p) = Some (SourceProcess q)"
  "adopt q (adopt q p) = adopt q p"
  by (simp_all add: adopt_def)

lemma adopt_all_props:
  assumes "om_ok (pg_processes s)"
  shows "om_ok (pg_processes (adopt_all q cs s))"
    "pg_process (adopt_all q cs s) i = map_option (if i \<in> set cs then adopt q else id) (pg_process s i)"
    "pg_pid_for_task (adopt_all q cs s) = pg_pid_for_task s"
    "pg_task_for_thread (adopt_all q cs s) = pg_task_for_thread s"
    "pg_next_pid (adopt_all q cs s) = pg_next_pid s"
    "pg_next_tid (adopt_all q cs s) = pg_next_tid s"
    "pg_subreapers (adopt_all q cs s) = pg_subreapers s"
proof -
  have "om_ok (pg_processes (adopt_all q cs s)) \<and>
    pg_process (adopt_all q cs s) = (\<lambda>i. map_option (if i \<in> set cs then adopt q else id) (pg_process s i)) \<and>
    pg_pid_for_task (adopt_all q cs s) = pg_pid_for_task s \<and>
    pg_task_for_thread (adopt_all q cs s) = pg_task_for_thread s \<and>
    pg_next_pid (adopt_all q cs s) = pg_next_pid s \<and>
    pg_next_tid (adopt_all q cs s) = pg_next_tid s \<and>
    pg_subreapers (adopt_all q cs s) = pg_subreapers s"
    using assms
  proof (induction cs arbitrary: s)
    case Nil
    then show ?case by (auto simp: adopt_all_def fun_eq_iff option.map_ident)
  next
    case (Cons c cs)
    have e: "adopt_all q (c # cs) s = adopt_all q cs (pg_update c (adopt q) s)" by (simp add: adopt_all_def)
    have g: "map_option (if i \<in> set cs then adopt q else id) (pg_process (pg_update c (adopt q) s) i) =
        map_option (if i \<in> set (c # cs) then adopt q else id) (pg_process s i)" for i
      unfolding pg_update_get [OF Cons.prems]
      by (cases "pg_process s i") auto
    show ?case using Cons.IH [OF pg_update_ok [OF Cons.prems, of c "adopt q"]] unfolding e g by simp
  qed
  then show "om_ok (pg_processes (adopt_all q cs s))"
    "pg_process (adopt_all q cs s) i = map_option (if i \<in> set cs then adopt q else id) (pg_process s i)"
    "pg_pid_for_task (adopt_all q cs s) = pg_pid_for_task s"
    "pg_task_for_thread (adopt_all q cs s) = pg_task_for_thread s"
    "pg_next_pid (adopt_all q cs s) = pg_next_pid s"
    "pg_next_tid (adopt_all q cs s) = pg_next_tid s"
    "pg_subreapers (adopt_all q cs s) = pg_subreapers s" by simp_all
qed

lemma adopt_all_inv:
  assumes inv: "proc_inv s"
    and c: "\<And>i p. i \<in> set cs \<Longrightarrow> pg_process s i = Some p \<Longrightarrow> q < i"
    and q: "0 < q" "q = INIT_PID \<or> pg_process s q \<noteq> None"
  shows "proc_inv (adopt_all q cs s)"
proof (rule same_threads_inv [OF inv])
  note ok = proc_inv_parts(1) [OF inv]
  note ad = adopt_all_props [OF ok, of q cs]
  let ?s = "adopt_all q cs s"
  show "same_threads s ?s"
    unfolding same_threads_def ad by (auto simp: pc_tids_def ad(1) split: option.splits)
  have "subreaper_pids ?s = subreaper_pids s" unfolding subreaper_pids_def ad by (auto split: if_splits)
  then show "card (subreaper_pids ?s) \<le> pg_subreapers ?s" using proc_inv_parts(4) [OF inv] ad by simp
  fix i p assume "pg_process ?s i = Some p"
  then obtain p0 where p0: "pg_process s i = Some p0" "p = (if i \<in> set cs then adopt q p0 else p0)"
    unfolding ad by (auto split: if_splits)
  have k: "pcb_ok i p0" by (rule proc_inv_pcb [OF inv p0(1)])
  then show "pcb_ok i p" using p0 c [OF _ p0(1)] q(1)
    by (auto simp: pcb_ok_def exits_queued_def all_texited_def)
  fix a assume "pc_parent p = Some a"
  then show "a = INIT_PID \<or> pg_process s a \<noteq> None"
    using p0 q(2) proc_inv_parts(3) [OF inv] unfolding parents_ok_def by (auto split: if_splits)
qed

lemma collect_child_pids_set:
  assumes inv: "proc_inv s"
  shows "set (collect_child_pids s q) = {c. \<exists>p. pg_process s c = Some p \<and> pc_parent p = Some q}"
    "sorted_wrt (<) (collect_child_pids s q)"
proof -
  have ok: "om_ok (pg_processes s)" by (rule proc_inv_parts(1) [OF inv])
  have pid: "pc_pid p = i" if "(i, p) \<in> set (pg_processes s)" for i p
    using that proc_inv_pcb [OF inv, of i p] by (simp add: pg_process_def om_get_iff [OF ok] pcb_ok_def)
  have e: "collect_child_pids s q = map fst (filter (\<lambda>e. pc_parent (snd e) = Some q) (pg_processes s))"
    unfolding collect_child_pids_def using pid by auto
  show "set (collect_child_pids s q) = {c. \<exists>p. pg_process s c = Some p \<and> pc_parent p = Some q}"
    unfolding e pg_process_def om_get_iff [OF ok] by force
  show "sorted_wrt (<) (collect_child_pids s q)"
    unfolding e using om_ok_filter [OF ok, of "\<lambda>e. pc_parent (snd e) = Some q"] by (simp add: om_ok_def)
qed

text \<open>
  The reference for \<open>reparent_orphans\<close>: the new parent is the nearest living subreaper among the
  ancestors, or init, and the fast path for a registry without subreapers agrees with it.
\<close>

definition reaper_of :: "process_registry \<Rightarrow> nat \<Rightarrow> nat" where
  "reaper_of s pid =
     (case find_subreaper (pg_processes s) (Option.bind (pg_process s pid) pc_parent) of
        Some (Some q) \<Rightarrow> q
      | _ \<Rightarrow> INIT_PID)"

lemma no_subreapers:
  assumes "proc_inv s" "pg_subreapers s = 0"
  shows "\<not> living_subreaper s q"
proof -
  have "card (subreaper_pids s) = 0" using proc_inv_parts(4) [OF assms(1)] assms(2) by simp
  moreover have "finite (subreaper_pids s)" unfolding subreaper_pids_def by (rule finite_processes)
  ultimately have "subreaper_pids s = {}" by simp
  then show ?thesis by (auto simp: subreaper_pids_def living_subreaper_def)
qed

lemma reaper_of_props:
  assumes inv: "proc_inv s" and p: "pg_process s pid = Some p"
  shows "nearest_reaper s pid (Some (reaper_of s pid)) \<or> nearest_reaper s pid None \<and> reaper_of s pid = INIT_PID"
  using find_subreaper_nearest [OF assms] p by (auto simp: reaper_of_def split: option.splits)

definition adopted :: "nat \<Rightarrow> process_registry \<Rightarrow> process_registry" where
  "adopted pid s = (if pid = INIT_PID then s else adopt_all (reaper_of s pid) (collect_child_pids s pid) s)"

lemma reparent_orphans_eq:
  assumes inv: "proc_inv s" and p: "pg_process s pid = Some p"
  shows "reparent_orphans pid s = Some (adopted pid s)"
proof -
  obtain r where r: "find_subreaper (pg_processes s) (pc_parent p) = Some r" "nearest_reaper s pid r"
    using find_subreaper_nearest [OF inv p] by blast
  have e: "reaper_of s pid = (case r of Some q \<Rightarrow> q | None \<Rightarrow> INIT_PID)"
    using r(1) p by (simp add: reaper_of_def split: option.splits)
  show ?thesis
  proof (cases "pg_subreapers s = 0")
    case True
    then have "r = None" using r(2) no_subreapers [OF inv True] by (cases r) (auto simp: nearest_reaper_def)
    then show ?thesis using True e by (auto simp: reparent_orphans_def adopted_def adopt_all_def Let_def)
  next
    case False
    then show ?thesis using e r(1) p by (auto simp: reparent_orphans_def adopted_def adopt_all_def Let_def)
  qed
qed

lemma reaper_of_older:
  assumes inv: "proc_inv s" and p: "pg_process s pid = Some p" and pid: "pid \<noteq> INIT_PID"
  shows "0 < reaper_of s pid \<and> reaper_of s pid < pid \<and> (reaper_of s pid = INIT_PID \<or> pg_process s (reaper_of s pid) \<noteq> None)"
proof -
  have "0 < pid" using proc_inv_pcb [OF inv p] by (simp add: pcb_ok_def)
  then show ?thesis
    using reaper_of_props [OF inv p] ancestor_older [OF inv, of pid "reaper_of s pid"] pid
    by (auto simp: nearest_reaper_def living_subreaper_def INIT_PID_def)
qed

lemma adopted_props:
  assumes inv: "proc_inv s" and p: "pg_process s pid = Some p"
  shows "proc_inv (adopted pid s)"
    "pg_process (adopted pid s) c =
       map_option (\<lambda>q. if pid \<noteq> INIT_PID \<and> pc_parent q = Some pid then adopt (reaper_of s pid) q else q) (pg_process s c)"
    "pg_subreapers (adopted pid s) = pg_subreapers s"
    "pg_pid_for_task (adopted pid s) = pg_pid_for_task s"
    "pg_task_for_thread (adopted pid s) = pg_task_for_thread s"
proof -
  note ok = proc_inv_parts(1) [OF inv]
  note ch = collect_child_pids_set(1) [OF inv]
  show "proc_inv (adopted pid s)"
  proof (cases "pid = INIT_PID")
    case False
    note r = reaper_of_older [OF inv p False]
    have "proc_inv (adopt_all (reaper_of s pid) (collect_child_pids s pid) s)"
    proof (rule adopt_all_inv [OF inv])
      fix i q assume "i \<in> set (collect_child_pids s pid)" "pg_process s i = Some q"
      then have "pid < i" using proc_inv_pcb [OF inv, of i q] unfolding ch by (auto simp: pcb_ok_def)
      then show "reaper_of s pid < i" using r by simp
    qed (use r in auto)
    then show ?thesis using False by (simp add: adopted_def)
  qed (simp add: adopted_def inv)
  show "pg_process (adopted pid s) c =
       map_option (\<lambda>q. if pid \<noteq> INIT_PID \<and> pc_parent q = Some pid then adopt (reaper_of s pid) q else q) (pg_process s c)"
    by (cases "pg_process s c") (auto simp: adopted_def adopt_all_props(2) [OF ok] ch)
qed (simp_all add: adopted_def adopt_all_props [OF proc_inv_parts(1) [OF inv]])

end
