(* ===== verification/Process_Keeps.thy ===== *)
theory Process_Keeps
  imports Process_Tree
begin

text \<open>
  What the operations of the process registry do in a state that satisfies the invariant: none of
  their assertions fails, each has the effect stated here, and the invariant holds again.
\<close>

section \<open>Allocation of ids\<close>

lemma alloc_pid_loop_result:
  assumes "alloc_pid_loop ps ts n = Some r" "n \<le> usize_max"
  shows "om_get ps (fst r) = None \<and> om_get ts (fst r) = None \<and> n \<le> fst r \<and> fst r \<le> usize_max \<and>
    snd r = sat_add usize_max (fst r) 1"
proof -
  have "n \<le> usize_max \<longrightarrow> om_get ps (fst r) = None \<and> om_get ts (fst r) = None \<and> n \<le> fst r \<and>
      fst r \<le> usize_max \<and> snd r = sat_add usize_max (fst r) 1"
    using assms(1)
  proof (rule alloc_pid_loop.raw_induct [rotated], goal_cases)
    case (1 f ps ts n r)
    show ?case
    proof (cases "om_get ps n = None \<and> om_get ts n = None")
      case True
      with 1(2) show ?thesis by auto
    next
      case False
      with 1(2) have "f ps ts (sat_add usize_max n 1) = Some r" by (auto split: if_splits)
      from 1(1) [OF this] show ?thesis by (auto simp: sat_add_def)
    qed
  qed
  then show ?thesis using assms(2) by blast
qed

lemma alloc_pid_loop_returns:
  assumes "om_get ps m = None" "om_get ts m = None" "n \<le> m" "m \<le> usize_max"
  shows "alloc_pid_loop ps ts n \<noteq> None"
  using assms(3)
proof (induction "m - n" arbitrary: n)
  case 0
  then show ?case using assms by (subst alloc_pid_loop.simps) simp
next
  case (Suc d)
  then have "sat_add usize_max n 1 = n + 1" "n \<noteq> m" using assms(4) by (auto simp: sat_add_def)
  with Suc show ?case by (subst alloc_pid_loop.simps) auto
qed

lemma alloc_tid_loop_result:
  assumes "alloc_tid_loop ts n = Some r" "n \<le> usize_max"
  shows "om_get ts (fst r) = None \<and> n \<le> fst r \<and> fst r \<le> usize_max \<and> snd r = sat_add usize_max (fst r) 1"
proof -
  have "n \<le> usize_max \<longrightarrow> om_get ts (fst r) = None \<and> n \<le> fst r \<and> fst r \<le> usize_max \<and>
      snd r = sat_add usize_max (fst r) 1"
    using assms(1)
  proof (rule alloc_tid_loop.raw_induct [rotated], goal_cases)
    case (1 f ts n r)
    show ?case
    proof (cases "om_get ts n = None")
      case True
      with 1(2) show ?thesis by auto
    next
      case False
      with 1(2) have "f ts (sat_add usize_max n 1) = Some r" by (auto split: if_splits)
      from 1(1) [OF this] show ?thesis by (auto simp: sat_add_def)
    qed
  qed
  then show ?thesis using assms(2) by blast
qed

lemma alloc_tid_loop_returns:
  assumes "om_get ts m = None" "n \<le> m" "m \<le> usize_max"
  shows "alloc_tid_loop ts n \<noteq> None"
  using assms(2)
proof (induction "m - n" arbitrary: n)
  case 0
  then show ?case using assms by (subst alloc_tid_loop.simps) simp
next
  case (Suc d)
  then have "sat_add usize_max n 1 = n + 1" "n \<noteq> m" using assms(3) by (auto simp: sat_add_def)
  with Suc show ?case by (subst alloc_tid_loop.simps) auto
qed

definition free_pid :: "process_registry \<Rightarrow> bool" where
  "free_pid s \<longleftrightarrow> (\<exists>m. pg_next_pid s \<le> m \<and> m \<le> usize_max \<and> pg_process s m = None \<and> om_get (pg_task_for_thread s) m = None)"

definition free_tid :: "process_registry \<Rightarrow> bool" where
  "free_tid s \<longleftrightarrow> (\<exists>m. pg_next_tid s \<le> m \<and> m \<le> usize_max \<and> om_get (pg_task_for_thread s) m = None)"

lemma alloc_pid_free: "free_pid s \<Longrightarrow> alloc_pid s \<noteq> None"
  unfolding free_pid_def alloc_pid_def pg_process_def
  by (auto dest!: alloc_pid_loop_returns split: option.splits)

lemma alloc_tid_free: "free_tid s \<Longrightarrow> alloc_tid s \<noteq> None"
  unfolding free_tid_def alloc_tid_def
  by (auto dest!: alloc_tid_loop_returns split: option.splits)

section \<open>Creation\<close>

lemma indexed_insert:
  assumes ix: "indexed M s" and t: "om_get (pg_pid_for_task s) t = None" and tid: "om_get (pg_task_for_thread s) tid = None"
    and e: "pg_pid_for_task s' = om_insert t pid (pg_pid_for_task s)" "pg_task_for_thread s' = om_insert tid t (pg_task_for_thread s)"
  shows "indexed (\<lambda>a b c. M a b c \<or> a = pid \<and> b = t \<and> c = tid) s'"
proof -
  have n: "\<not> M a t c" "\<not> M a b tid" for a b c
    using t tid indexedD(1,2) [OF ix] by (metis option.distinct(1))+
  have ok: "om_ok (pg_pid_for_task s)" "om_ok (pg_task_for_thread s)" using ix by (simp_all add: indexed_def)
  have 1: "om_get (pg_pid_for_task s') b = Some a \<longleftrightarrow> (\<exists>c. M a b c \<or> a = pid \<and> b = t \<and> c = tid)" for a b
  proof -
    have "om_get (pg_pid_for_task s) b = Some a \<longleftrightarrow> (\<exists>c. M a b c)" using ix unfolding indexed_def by blast
    then show ?thesis using n(1) by (cases "b = t") (auto simp: e om_get_insert [OF ok(1)])
  qed
  have 2: "om_get (pg_task_for_thread s') c = Some b \<longleftrightarrow> (\<exists>a. M a b c \<or> a = pid \<and> b = t \<and> c = tid)" for b c
  proof -
    have "om_get (pg_task_for_thread s) c = Some b \<longleftrightarrow> (\<exists>a. M a b c)" using ix unfolding indexed_def by blast
    then show ?thesis using n(2) by (cases "c = tid") (auto simp: e om_get_insert [OF ok(2)])
  qed
  have 3: "c = c'" if "M a b c \<or> a = pid \<and> b = t \<and> c = tid" "M a b c' \<or> a = pid \<and> b = t \<and> c' = tid" for a b c c'
    using that n(1) ix unfolding indexed_def by blast
  have 4: "om_ok (pg_pid_for_task s')" "om_ok (pg_task_for_thread s')" unfolding e by (simp_all add: om_ok_insert ok)
  show ?thesis
    unfolding indexed_def
  proof (intro conjI allI impI)
    fix a b c c' assume "(M a b c \<or> a = pid \<and> b = t \<and> c = tid) \<and> (M a b c' \<or> a = pid \<and> b = t \<and> c' = tid)"
    then show "c = c'" using 3 [of a b c c'] by simp
  qed (rule 1 2 4)+
qed

definition created :: "nat \<Rightarrow> nat \<Rightarrow> nat option \<Rightarrow> address_space_ref option \<Rightarrow> process_registry \<Rightarrow> process_registry" where
  "created pid t parent aspace s =
     s\<lparr>pg_processes := om_insert pid (new_pcb pid t parent aspace) (pg_processes s),
       pg_pid_for_task := om_insert t pid (pg_pid_for_task s),
       pg_task_for_thread := om_insert pid t (pg_task_for_thread s),
       pg_next_pid := sat_add usize_max pid 1,
       pg_next_tid := (if pg_next_tid s \<le> pid then sat_add usize_max pid 1 else pg_next_tid s)\<rparr>"

definition fresh_pid :: "process_registry \<Rightarrow> nat \<Rightarrow> bool" where
  "fresh_pid s pid \<longleftrightarrow> pg_process s pid = None \<and> om_get (pg_task_for_thread s) pid = None \<and>
     pg_next_pid s \<le> pid \<and> pid \<le> usize_max"

lemma create_process_for_task_cases:
  assumes inv: "proc_inv s"
  obtains "om_get (pg_pid_for_task s) t \<noteq> None" "create_process_for_task t parent aspace s = Some (Inl InvalidArgument, s)"
  | "om_get (pg_pid_for_task s) t = None" "\<not> free_pid s" "create_process_for_task t parent aspace s = None"
  | pid where "om_get (pg_pid_for_task s) t = None" "fresh_pid s pid"
      "create_process_for_task t parent aspace s = Some (Inr pid, created pid t parent aspace s)"
proof (cases "om_get (pg_pid_for_task s) t")
  case (Some a)
  then show ?thesis using that(1) by (simp add: create_process_for_task_def)
next
  case None
  show ?thesis
  proof (cases "alloc_pid_loop (pg_processes s) (pg_task_for_thread s) (pg_next_pid s)")
    case n: None
    then have "alloc_pid s = None" by (simp add: alloc_pid_def)
    then show ?thesis using that(2) None alloc_pid_free [of s] by (auto simp: create_process_for_task_def)
  next
    case (Some r)
    note r = alloc_pid_loop_result [OF Some proc_inv_parts(6) [OF inv]]
    have f: "fresh_pid s (fst r)" using r by (simp add: fresh_pid_def pg_process_def)
    have a: "alloc_pid s = Some (fst r, s\<lparr>pg_next_pid := sat_add usize_max (fst r) 1\<rparr>)"
      using Some r by (simp add: alloc_pid_def case_prod_unfold)
    have "create_process_for_task t parent aspace s = Some (Inr (fst r), created (fst r) t parent aspace s)"
      using None r a by (simp add: create_process_for_task_def insert_process_def pg_process_def new_pcb_def created_def Let_def)
    then show ?thesis using that(3) None f by blast
  qed
qed

lemma new_pcb_fields [simp]:
  "pc_pid (new_pcb pid t parent a) = pid" "pc_leader (new_pcb pid t parent a) = t" "pc_parent (new_pcb pid t parent a) = parent"
  "pc_exited_members (new_pcb pid t parent a) = []" "pc_state (new_pcb pid t parent a) = PRunning"
  "pc_subreaper (new_pcb pid t parent a) = False" "pc_tasks (new_pcb pid t parent a) = [(t, new_process_task pid)]"
  "pc_death_source (new_pcb pid t parent a) = map_option SourceProcess parent" "pc_death_signal (new_pcb pid t parent a) = 0"
  "pc_aspace (new_pcb pid t parent a) = a" "pc_exec (new_pcb pid t parent a) = False"
  "pc_stop_wait (new_pcb pid t parent a) = False" "pc_cont_wait (new_pcb pid t parent a) = False" "pc_io (new_pcb pid t parent a) = io_default"
  by (simp_all add: new_pcb_def om_insert_def)

lemma created_get:
  assumes "om_ok (pg_processes s)"
  shows "pg_process (created pid t parent a s) = (pg_process s)(pid \<mapsto> new_pcb pid t parent a)"
  using assms by (simp add: created_def pg_process_def om_get_insert fun_eq_iff)

lemma fresh_pid_above:
  assumes inv: "proc_inv s" and pid: "fresh_pid s pid" and i: "pg_process s i \<noteq> None"
  shows "i < pid"
proof -
  have "i < pg_next_pid s \<or> pg_next_pid s = usize_max" using inv i by (simp add: proc_inv_def)
  moreover have "i \<le> usize_max" using proc_inv_pcb [OF inv, of i] i by (auto simp: pcb_ok_def)
  moreover have "i \<noteq> pid" using i pid by (auto simp: fresh_pid_def)
  ultimately show ?thesis using pid by (auto simp: fresh_pid_def)
qed

lemma created_inv:
  assumes inv: "proc_inv s" and t: "om_get (pg_pid_for_task s) t = None" and pid: "fresh_pid s pid"
    and par: "\<And>q. parent = Some q \<Longrightarrow> pg_process s q \<noteq> None"
  shows "proc_inv (created pid t parent a s)"
proof -
  note ok = proc_inv_parts(1) [OF inv]
  note g = created_get [OF ok, of pid t parent a]
  let ?s = "created pid t parent a s"
  have new: "pc_tids (new_pcb pid t parent a) = [t \<mapsto> pid]"
    by (auto simp: pc_tids_def om_get_def new_process_task_def fun_eq_iff)
  have ht: "has_task ?s = (\<lambda>x y z. has_task s x y z \<or> x = pid \<and> y = t \<and> z = pid)"
    using pid unfolding has_task_def g fresh_pid_def by (auto simp: fun_eq_iff new)
  have ix: "indexed (has_task ?s) ?s"
    unfolding ht by (rule indexed_insert [OF proc_inv_parts(2) [OF inv] t])
      (use pid in \<open>auto simp: fresh_pid_def created_def\<close>)
  note old = fresh_pid_above [OF inv pid]
  have pos: "0 < i" if "pg_process s i \<noteq> None" for i
    using proc_inv_pcb [OF inv, of i] that by (auto simp: pcb_ok_def)
  have pb: "0 < pid" "pid \<le> usize_max" using pid proc_inv_parts(5) [OF inv] by (auto simp: fresh_pid_def)
  have nt: "all_texited (new_pcb pid t parent a) = False"
    by (simp add: all_texited_def new_process_task_def)
  have "pcb_ok pid (new_pcb pid t parent a)"
    using pb par old pos by (auto simp: pcb_ok_def nt exits_queued_def om_get_def om_ok_Cons split: if_splits)
  then have pcbs: "\<forall>i p. pg_process ?s i = Some p \<longrightarrow> pcb_ok i p"
    unfolding g using proc_inv_pcb [OF inv] by auto
  have pars: "parents_ok ?s"
    using proc_inv_parts(3) [OF inv] par unfolding parents_ok_def g by (auto split: if_splits)
  have next_pid: "pg_next_pid ?s = sat_add usize_max pid 1" by (simp add: created_def)
  have "subreaper_pids ?s = subreaper_pids s"
    using pid unfolding subreaper_pids_def g fresh_pid_def by (auto split: if_splits)
  then have sub: "card (subreaper_pids ?s) \<le> pg_subreapers ?s"
    using proc_inv_parts(4) [OF inv] by (simp add: created_def)
  have nx: "\<forall>i. pg_process ?s i \<noteq> None \<longrightarrow> i < pg_next_pid ?s \<or> pg_next_pid ?s = usize_max"
    unfolding next_pid g using old pb by (fastforce simp: sat_add_def min_def split: if_splits)
  show ?thesis
    unfolding proc_inv_def
  proof (intro conjI)
    show "om_ok (pg_processes ?s)" using ok by (simp add: created_def om_ok_insert)
    show "0 < pg_next_pid ?s" "pg_next_pid ?s \<le> usize_max" unfolding next_pid using pb by (auto simp: sat_add_def)
    show "pg_next_tid ?s \<le> usize_max" using proc_inv_parts(7) [OF inv] by (simp add: created_def)
  qed (use ix pcbs pars sub nx in simp_all)
qed

end
