(* ===== verification/Process_Life.thy ===== *)
theory Process_Life
  imports Process_Keeps
begin

text \<open>
  The operations that fork, clone, end and release processes and threads: their effect, and that they
  keep the invariant.
\<close>

section \<open>Threads of one process\<close>

lemma all_texited_not: "om_ok (pc_tasks p) \<Longrightarrow> om_get (pc_tasks p) t = Some k \<Longrightarrow> \<not> is_texited (pk_state k) \<Longrightarrow> \<not> all_texited p"
  by (auto simp: all_texited_iff)

lemma pc_tids_insert:
  "om_ok (pc_tasks p) \<Longrightarrow> om_get (pc_tasks p) t = Some k \<Longrightarrow> pk_tid k' = pk_tid k \<Longrightarrow>
     pc_tids (p\<lparr>pc_tasks := om_insert t k' (pc_tasks p)\<rparr>) = pc_tids p"
  by (auto simp: pc_tids_def om_get_insert fun_eq_iff)

lemma task_update_ok:
  assumes ok: "pcb_ok pid p" and k: "om_get (pc_tasks p) t = Some k"
    and k': "pk_tid k' = pk_tid k" "pk_state k' = pk_state k"
  shows "pcb_ok pid (p\<lparr>pc_tasks := om_insert t k' (pc_tasks p)\<rparr>) \<and>
    pc_tids (p\<lparr>pc_tasks := om_insert t k' (pc_tasks p)\<rparr>) = pc_tids p"
proof
  let ?q = "p\<lparr>pc_tasks := om_insert t k' (pc_tasks p)\<rparr>"
  have m: "om_ok (pc_tasks p)" using ok by (simp add: pcb_ok_def)
  note g = om_get_insert [OF m] om_ok_insert [OF m]
  have "all_texited ?q \<longleftrightarrow> all_texited p"
    using k k' by (auto simp: all_texited_iff m g)
  then show "pcb_ok pid ?q" using ok k k' by (auto simp: pcb_ok_def exits_queued_def g)
  show "pc_tids ?q = pc_tids p" by (rule pc_tids_insert [OF m k k'(1)])
qed

lemma modify_task_inv:
  assumes inv: "proc_inv s" and f: "\<And>k. pk_tid (f k) = pk_tid k" "\<And>k. pk_state (f k) = pk_state k"
  shows "proc_inv (snd (modify_task t f s))"
proof (cases "om_get (pg_pid_for_task s) t")
  case None
  then show ?thesis using inv by (simp add: modify_task_def)
next
  case (Some pid)
  then obtain p k where pk: "pg_process s pid = Some p" "om_get (pc_tasks p) t = Some k"
    using has_task_indexed(1) [OF inv] by blast
  then have e: "snd (modify_task t f s) = pg_update pid (\<lambda>p. p\<lparr>pc_tasks := om_insert t (f k) (pc_tasks p)\<rparr>) s"
    using Some by (simp add: modify_task_def)
  show ?thesis unfolding e
    by (rule update_inv [OF inv]) (use pk task_update_ok [OF _ pk(2) f] in auto)
qed

lemma task_of_eq:
  assumes "proc_inv s" "pg_process s pid = Some p" "om_get (pc_tasks p) t = Some k"
  shows "task_of s t = Some k"
  using assms task_indexed [OF assms] by (simp add: task_of_def)

section \<open>Fork\<close>

lemma inherit_fork_fields [simp]:
  "pc_pid (inherit_fork q st c ct p) = pc_pid p" "pc_leader (inherit_fork q st c ct p) = pc_leader p"
  "pc_parent (inherit_fork q st c ct p) = pc_parent p" "pc_state (inherit_fork q st c ct p) = pc_state p"
  "pc_exited_members (inherit_fork q st c ct p) = pc_exited_members p"
  "pc_subreaper (inherit_fork q st c ct p) = pc_subreaper p"
  "pc_death_source (inherit_fork q st c ct p) = Some (SourceTask st)"
  "pc_death_signal (inherit_fork q st c ct p) = pc_death_signal p"
  by (simp_all add: inherit_fork_def)

lemma inherit_fork_ok:
  assumes "pcb_ok pid p"
  shows "pcb_ok pid (inherit_fork q st c ct p) \<and> pc_tids (inherit_fork q st c ct p) = pc_tids p"
proof (cases "om_get (pc_tasks p) ct")
  case None
  then show ?thesis
    using assms pcb_ok_cong [of "inherit_fork q st c ct p" p pid] pc_tids_cong [of "inherit_fork q st c ct p" p]
    by (simp add: inherit_fork_def)
next
  case (Some k)
  let ?q = "p\<lparr>pc_tasks := om_insert ct (k\<lparr>pk_comm := c\<rparr>) (pc_tasks p)\<rparr>"
  have "pcb_ok pid ?q \<and> pc_tids ?q = pc_tids p"
    by (rule task_update_ok [OF assms Some]) simp_all
  then show ?thesis
    using Some pcb_ok_cong [of "inherit_fork q st c ct p" ?q pid] pc_tids_cong [of "inherit_fork q st c ct p" ?q]
    by (simp add: inherit_fork_def)
qed

definition forked :: "nat \<Rightarrow> pcb \<Rightarrow> nat \<Rightarrow> process_task \<Rightarrow> nat \<Rightarrow> nat \<Rightarrow> address_space_ref option \<Rightarrow> process_registry \<Rightarrow> process_registry" where
  "forked pid parent st k child_parent child a s =
     pg_update pid (inherit_fork parent st (pk_comm k) child) (created pid child (Some child_parent) a s)"

lemma fork_cases:
  assumes inv: "proc_inv s"
  obtains e where "create_process_like_fork_with_parent src cp st ct a s = Some (Inl e, s)"
    "pg_process s src = None \<and> e = ProcessNotFound \<or> pg_process s cp = None \<and> e = ProcessNotFound \<or>
     (\<exists>p. pg_process s src = Some p \<and> om_get (pc_tasks p) st = None \<and> e = TaskNotFound) \<or>
     om_get (pg_pid_for_task s) ct \<noteq> None \<and> e = InvalidArgument"
  | "create_process_like_fork_with_parent src cp st ct a s = None" "\<not> free_pid s"
  | pid p k where "create_process_like_fork_with_parent src cp st ct a s = Some (Inr pid, forked pid p st k cp ct a s)"
    "pg_process s src = Some p" "om_get (pc_tasks p) st = Some k" "pg_process s cp \<noteq> None"
    "om_get (pg_pid_for_task s) ct = None" "fresh_pid s pid"
proof (cases "pg_process s src")
  case None
  then show ?thesis using that(1) by (simp add: create_process_like_fork_with_parent_def)
next
  case p: (Some p)
  show ?thesis
  proof (cases "pg_process s cp = None")
    case True
    then show ?thesis using that(1) p by (simp add: create_process_like_fork_with_parent_def)
  next
    case cp: False
    show ?thesis
    proof (cases "om_get (pc_tasks p) st")
      case None
      then show ?thesis using that(1) p cp by (simp add: create_process_like_fork_with_parent_def)
    next
      case k: (Some k)
      note d = create_process_like_fork_with_parent_def
      show ?thesis
      proof (rule create_process_for_task_cases [OF inv, of ct "Some cp" a])
        assume "om_get (pg_pid_for_task s) ct \<noteq> None" "create_process_for_task ct (Some cp) a s = Some (Inl InvalidArgument, s)"
        then show ?thesis using that(1) p cp k by (simp add: d)
      next
        assume "\<not> free_pid s" "create_process_for_task ct (Some cp) a s = None"
        then show ?thesis using that(2) p cp k by (simp add: d)
      next
        fix pid
        assume a: "om_get (pg_pid_for_task s) ct = None" "fresh_pid s pid"
          "create_process_for_task ct (Some cp) a s = Some (Inr pid, created pid ct (Some cp) a s)"
        then have "create_process_like_fork_with_parent src cp st ct a s = Some (Inr pid, forked pid p st k cp ct a s)"
          using p cp k by (simp add: d forked_def)
        then show ?thesis using that(3) p k cp a by blast
      qed
    qed
  qed
qed

lemma forked_inv:
  assumes inv: "proc_inv s" and cp: "pg_process s cp \<noteq> None"
    and ct: "om_get (pg_pid_for_task s) ct = None" and pid: "fresh_pid s pid"
  shows "proc_inv (forked pid p st k cp ct a s)"
  unfolding forked_def
  by (rule update_inv [OF created_inv [OF inv ct pid]]) (use cp inherit_fork_ok in auto)

lemma forked_get:
  assumes "proc_inv s"
  shows "pg_process (forked pid p st k cp ct a s) =
    (pg_process s)(pid \<mapsto> inherit_fork p st (pk_comm k) ct (new_pcb pid ct (Some cp) a))"
proof -
  have ok: "om_ok (pg_processes (created pid ct (Some cp) a s))"
    using proc_inv_parts(1) [OF assms] by (simp add: created_def om_ok_insert)
  show ?thesis unfolding forked_def pg_update_get [OF ok] created_get [OF proc_inv_parts(1) [OF assms]] by simp
qed

section \<open>Clone\<close>

definition with_thread :: "nat \<Rightarrow> nat \<Rightarrow> process_task \<Rightarrow> process_registry \<Rightarrow> process_registry" where
  "with_thread pid t k s =
     (pg_update pid (\<lambda>p. p\<lparr>pc_tasks := om_insert t k (pc_tasks p)\<rparr>) s)
       \<lparr>pg_pid_for_task := om_insert t pid (pg_pid_for_task s),
        pg_task_for_thread := om_insert (pk_tid k) t (pg_task_for_thread s)\<rparr>"

lemma pg_process_index [simp]:
  "pg_process (s\<lparr>pg_pid_for_task := x, pg_task_for_thread := y\<rparr>) = pg_process s"
  "pg_process (s\<lparr>pg_next_tid := n\<rparr>) = pg_process s"
  "pg_process (s\<lparr>pg_subreapers := m\<rparr>) = pg_process s"
  by (simp_all add: pg_process_def fun_eq_iff)

lemma next_tid_inv:
  assumes "proc_inv s" "n \<le> usize_max"
  shows "proc_inv (s\<lparr>pg_next_tid := n\<rparr>)"
proof -
  have "has_task (s\<lparr>pg_next_tid := n\<rparr>) = has_task s" by (simp add: has_task_def fun_eq_iff)
  moreover have "indexed M (s\<lparr>pg_next_tid := n\<rparr>) = indexed M s" for M by (simp add: indexed_def)
  moreover have "subreaper_pids (s\<lparr>pg_next_tid := n\<rparr>) = subreaper_pids s" by (simp add: subreaper_pids_def)
  ultimately show ?thesis using assms by (simp add: proc_inv_def parents_ok_def)
qed

lemma with_thread_inv:
  assumes inv: "proc_inv s" and p: "pg_process s pid = Some p" and t: "om_get (pg_pid_for_task s) t = None"
    and k: "om_get (pg_task_for_thread s) (pk_tid k) = None" "pk_state k = Runnable"
    and run: "\<not> all_texited p"
  shows "proc_inv (with_thread pid t k s)"
proof -
  note ok = proc_inv_parts(1) [OF inv]
  let ?f = "\<lambda>p. p\<lparr>pc_tasks := om_insert t k (pc_tasks p)\<rparr>"
  let ?s = "with_thread pid t k s"
  have pk: "pcb_ok pid p" by (rule proc_inv_pcb [OF inv p])
  then have m: "om_ok (pc_tasks p)" by (simp add: pcb_ok_def)
  have nt: "om_get (pc_tasks p) t = None" using task_indexed [OF inv p, of t] t by fastforce
  have g: "pg_process ?s = (pg_process s)(pid \<mapsto> ?f p)"
    using p by (simp add: with_thread_def pg_update_get [OF ok])
  have tids: "pc_tids (?f p) = (pc_tids p)(t \<mapsto> pk_tid k)"
    by (auto simp: pc_tids_def om_get_insert [OF m] fun_eq_iff)
  have ht: "has_task ?s = (\<lambda>a b c. has_task s a b c \<or> a = pid \<and> b = t \<and> c = pk_tid k)"
    using p nt unfolding has_task_def g by (auto simp: fun_eq_iff tids) (auto simp: pc_tids_def)
  have ix: "indexed (has_task ?s) ?s"
    unfolding ht by (rule indexed_insert [OF proc_inv_parts(2) [OF inv] t k(1)]) (simp_all add: with_thread_def)
  have "\<not> all_texited (?f p)"
    by (rule all_texited_not [of _ t k]) (simp_all add: om_get_insert [OF m] om_ok_insert [OF m] k(2))
  then have "pcb_ok pid (?f p)"
    using pk run k(2) by (auto simp: pcb_ok_def exits_queued_def om_get_insert [OF m] om_ok_insert [OF m])
  then have pcbs: "\<forall>i q. pg_process ?s i = Some q \<longrightarrow> pcb_ok i q" unfolding g using proc_inv_pcb [OF inv] by auto
  have "subreaper_pids ?s = subreaper_pids s" unfolding subreaper_pids_def g using p by (auto split: if_splits)
  then have sub: "card (subreaper_pids ?s) \<le> pg_subreapers ?s"
    using proc_inv_parts(4) [OF inv] by (simp add: with_thread_def)
  have par: "parents_ok ?s"
    using proc_inv_parts(3) [OF inv] p unfolding parents_ok_def g by (auto split: if_splits)
  have nx: "\<forall>i. pg_process ?s i \<noteq> None \<longrightarrow> i < pg_next_pid ?s \<or> pg_next_pid ?s = usize_max"
    using inv p unfolding g by (auto simp: proc_inv_def with_thread_def)
  show ?thesis
    unfolding proc_inv_def using ix pcbs sub par nx inv
    by (simp add: with_thread_def pg_update_ok ok proc_inv_def)
qed

definition fresh_tid :: "process_registry \<Rightarrow> nat \<Rightarrow> bool" where
  "fresh_tid s tid \<longleftrightarrow> om_get (pg_task_for_thread s) tid = None \<and> pg_next_tid s \<le> tid \<and> tid \<le> usize_max"

text \<open>The tid that was drawn is lost when the process or the cloning thread does not qualify.\<close>

lemma add_task_cases:
  assumes inv: "proc_inv s"
  obtains "add_task_to_process pid pt t flags tls ct s = Some (Inl InvalidArgument, s)" "om_get (pg_pid_for_task s) t \<noteq> None"
  | "add_task_to_process pid pt t flags tls ct s = None" "\<not> free_tid s"
  | e tid where "add_task_to_process pid pt t flags tls ct s = Some (Inl e, s\<lparr>pg_next_tid := sat_add usize_max tid 1\<rparr>)"
      "fresh_tid s tid"
      "(case pg_process s pid of None \<Rightarrow> e = ProcessNotFound
        | Some p \<Rightarrow> pc_exec p \<and> e = InvalidArgument \<or> \<not> pc_exec p \<and> om_get (pc_tasks p) pt = None \<and> e = TaskNotFound)"
  | tid p k where "add_task_to_process pid pt t flags tls ct s =
        Some (Inr t, with_thread pid t (cloned_task tid flags tls ct (pk_comm k)) (s\<lparr>pg_next_tid := sat_add usize_max tid 1\<rparr>))"
      "fresh_tid s tid" "pg_process s pid = Some p" "\<not> pc_exec p" "om_get (pc_tasks p) pt = Some k"
      "om_get (pg_pid_for_task s) t = None"
proof (cases "om_get (pg_pid_for_task s) t")
  case (Some x)
  then show ?thesis using that(1) by (simp add: add_task_to_process_def)
next
  case t: None
  show ?thesis
  proof (cases "alloc_tid_loop (pg_task_for_thread s) (pg_next_tid s)")
    case None
    then have n: "alloc_tid s = None" by (simp add: alloc_tid_def)
    then show ?thesis using that(2) t alloc_tid_free [of s] by (auto simp: add_task_to_process_def)
  next
    case (Some r)
    let ?s = "s\<lparr>pg_next_tid := sat_add usize_max (fst r) 1\<rparr>"
    note r = alloc_tid_loop_result [OF Some proc_inv_parts(7) [OF inv]]
    have f: "fresh_tid s (fst r)" using r by (simp add: fresh_tid_def)
    have a: "alloc_tid s = Some (fst r, ?s)" using Some r by (simp add: alloc_tid_def case_prod_unfold)
    show ?thesis
    proof (cases "pg_process s pid")
      case None
      then show ?thesis using that(3) [OF _ f] t a by (simp add: add_task_to_process_def)
    next
      case p: (Some p)
      show ?thesis
      proof (cases "pc_exec p \<or> om_get (pc_tasks p) pt = None")
        case True
        then show ?thesis using that(3) [OF _ f] t a p by (cases "pc_exec p") (simp_all add: add_task_to_process_def)
      next
        case False
        then obtain k where k: "om_get (pc_tasks p) pt = Some k" "\<not> pc_exec p" by auto
        have "add_task_to_process pid pt t flags tls ct s =
            Some (Inr t, with_thread pid t (cloned_task (fst r) flags tls ct (pk_comm k)) ?s)"
          using t a p k r by (simp add: add_task_to_process_def with_thread_def Let_def cloned_task_def)
        then show ?thesis using that(4) f p k t by blast
      qed
    qed
  qed
qed

lemma add_task_inv:
  assumes inv: "proc_inv s"
    and caller: "\<And>p k. pg_process s pid = Some p \<Longrightarrow> om_get (pc_tasks p) pt = Some k \<Longrightarrow> \<not> is_texited (pk_state k)"
    and r: "add_task_to_process pid pt t flags tls ct s = Some (x, s')"
  shows "proc_inv s'"
proof (rule add_task_cases [OF inv, of pid pt t flags tls ct])
  fix e tid assume "add_task_to_process pid pt t flags tls ct s = Some (Inl e, s\<lparr>pg_next_tid := sat_add usize_max tid 1\<rparr>)"
  then show ?thesis using r next_tid_inv [OF inv, of "sat_add usize_max tid 1"] by simp
next
  fix tid p and k :: process_task
  let ?s = "s\<lparr>pg_next_tid := sat_add usize_max tid 1\<rparr>" and ?k = "cloned_task tid flags tls ct (pk_comm k)"
  assume a: "add_task_to_process pid pt t flags tls ct s = Some (Inr t, with_thread pid t ?k ?s)" "fresh_tid s tid"
    "pg_process s pid = Some p" "om_get (pc_tasks p) pt = Some k" "om_get (pg_pid_for_task s) t = None"
  have "om_ok (pc_tasks p)" using proc_inv_pcb [OF inv a(3)] by (simp add: pcb_ok_def)
  then have run: "\<not> all_texited p" using all_texited_not [OF _ a(4) caller [OF a(3,4)]] by blast
  have "proc_inv (with_thread pid t ?k ?s)"
    by (rule with_thread_inv [OF next_tid_inv [OF inv] _ _ _ _ run])
      (use a in \<open>simp_all add: fresh_tid_def cloned_task_def\<close>)
  then show ?thesis using r a(1) by simp
qed (use r inv in auto)

end
