(* ===== verification/Process_Exit.thy ===== *)
theory Process_Exit
  imports Process_Life
begin

text \<open>
  The ends: exits of threads and processes, \<open>exec\<close>, the release of exited members and the removal of
  whole processes, each with its effect and the invariant it keeps.
\<close>

section \<open>Subreapers\<close>

lemma subreaper_pids_bound:
  assumes "proc_inv s"
  shows "finite (subreaper_pids s)" "subreaper_pids s \<subseteq> {1..usize_max}"
proof -
  show "finite (subreaper_pids s)" unfolding subreaper_pids_def by (rule finite_processes)
  show "subreaper_pids s \<subseteq> {1..usize_max}"
    using proc_inv_pcb [OF assms] by (auto simp: subreaper_pids_def pcb_ok_def Suc_le_eq)
qed

lemma subreapers_inv:
  assumes inv: "proc_inv s" and n: "card (subreaper_pids s) \<le> n"
  shows "proc_inv (s\<lparr>pg_subreapers := n\<rparr>)"
proof -
  have "has_task (s\<lparr>pg_subreapers := n\<rparr>) = has_task s" by (simp add: has_task_def fun_eq_iff)
  moreover have "indexed M (s\<lparr>pg_subreapers := n\<rparr>) = indexed M s" for M by (simp add: indexed_def)
  moreover have "subreaper_pids (s\<lparr>pg_subreapers := n\<rparr>) = subreaper_pids s" by (simp add: subreaper_pids_def)
  ultimately show ?thesis using inv n by (simp add: proc_inv_def parents_ok_def)
qed

lemma set_subreaper_inv:
  assumes inv: "proc_inv s"
  shows "proc_inv (snd (set_process_child_subreaper pid e s))"
proof (cases "pg_process s pid")
  case None
  have "proc_inv (s\<lparr>pg_subreapers := sat_add usize_max (pg_subreapers s) 1\<rparr>)"
  proof (rule subreapers_inv [OF inv])
    have "card (subreaper_pids s) \<le> usize_max"
      using card_mono [OF _ subreaper_pids_bound(2) [OF inv]] by simp
    then show "card (subreaper_pids s) \<le> sat_add usize_max (pg_subreapers s) 1"
      using proc_inv_parts(4) [OF inv] by (simp add: sat_add_def)
  qed
  then show ?thesis using None inv
    by (auto simp: set_process_child_subreaper_def pg_modify_def Let_def pg_process_def)
next
  case (Some p)
  note ok = proc_inv_parts(1) [OF inv]
  define n where "n = (if pc_subreaper p \<noteq> e then if e then sat_add usize_max (pg_subreapers s) 1
      else pg_subreapers s - 1 else pg_subreapers s)"
  let ?f = "\<lambda>p. p\<lparr>pc_subreaper := e\<rparr>"
  let ?s = "pg_update pid ?f (s\<lparr>pg_subreapers := n\<rparr>)"
  have ok': "om_ok (pg_processes (s\<lparr>pg_subreapers := n\<rparr>))" using ok by simp
  have r: "snd (set_process_child_subreaper pid e s) = ?s"
    using Some by (auto simp: set_process_child_subreaper_def pg_modify_def Let_def n_def)
  have g: "pg_process ?s = (pg_process s)(pid \<mapsto> ?f p)"
    unfolding pg_update_get [OF ok'] using Some by simp
  have sub: "subreaper_pids ?s = (if e then insert pid (subreaper_pids s) else subreaper_pids s - {pid})"
    unfolding subreaper_pids_def g by (auto split: if_splits)
  have mem: "pid \<in> subreaper_pids s \<longleftrightarrow> pc_subreaper p" using Some by (auto simp: subreaper_pids_def)
  note fin = subreaper_pids_bound(1) [OF inv]
  have pid: "pid \<in> {1..usize_max}" using proc_inv_pcb [OF inv Some] by (auto simp: pcb_ok_def)
  have top: "card (insert pid (subreaper_pids s)) \<le> usize_max"
    using card_mono [of "{1..usize_max}" "insert pid (subreaper_pids s)"] subreaper_pids_bound(2) [OF inv] pid by simp
  have c: "card (subreaper_pids s) \<le> pg_subreapers s" by (rule proc_inv_parts(4) [OF inv])
  have "card (if e then insert pid (subreaper_pids s) else subreaper_pids s - {pid}) \<le> n"
    unfolding n_def using c top mem fin
    by (auto simp: sat_add_def card_insert_if card_Diff_singleton_if insert_absorb)
  then have "card (subreaper_pids ?s) \<le> n" unfolding sub .
  moreover have "same_threads s ?s"
    unfolding same_threads_def g using Some pg_update_ok [OF ok'] by (auto simp: pc_tids_def split: option.splits)
  moreover have "pcb_ok i q" if q: "pg_process ?s i = Some q" for i q
  proof (cases "i = pid")
    case True
    have "pcb_ok pid (?f p) = pcb_ok pid p" by (rule pcb_ok_cong) simp_all
    then show ?thesis using q True proc_inv_pcb [OF inv Some] unfolding g by auto
  next
    case False
    then show ?thesis using q proc_inv_pcb [OF inv, of i q] unfolding g by simp
  qed
  moreover have "q = INIT_PID \<or> pg_process s q \<noteq> None" if "pg_process ?s i = Some x" "pc_parent x = Some q" for i x q
  proof (cases "i = pid")
    case True
    then show ?thesis using that parent_exists [OF inv Some] unfolding g by auto
  next
    case False
    then show ?thesis using that parent_exists [OF inv, of i x] unfolding g by simp
  qed
  ultimately show ?thesis unfolding r using same_threads_inv [OF inv, of ?s] by simp
qed

section \<open>Exits\<close>

lemma thread_exits_fields [simp]:
  "pc_pid (thread_exits t k c p) = pc_pid p" "pc_leader (thread_exits t k c p) = pc_leader p"
  "pc_parent (thread_exits t k c p) = pc_parent p" "pc_subreaper (thread_exits t k c p) = pc_subreaper p"
  "pc_tasks (thread_exits t k c p) = om_insert t (k\<lparr>pk_state := TExited c\<rparr>) (pc_tasks p)"
  "pc_death_source (thread_exits t k c p) = pc_death_source p" "pc_death_signal (thread_exits t k c p) = pc_death_signal p"
  "pc_exited_members (thread_exits t k c p) =
     (if t \<noteq> pc_leader p \<and> \<not> is_texited (pk_state k) then pc_exited_members p @ [t] else pc_exited_members p)"
  by (simp_all add: thread_exits_def Let_def)

lemma thread_exits_state:
  "pc_state (thread_exits t k c p) =
     (if all_texited (p\<lparr>pc_tasks := om_insert t (k\<lparr>pk_state := TExited c\<rparr>) (pc_tasks p)\<rparr>) then PExited c else pc_state p)"
  by (auto simp: thread_exits_def Let_def all_texited_def)

lemma all_texited_tasks: "pc_tasks p = pc_tasks q \<Longrightarrow> all_texited p = all_texited q"
  by (simp add: all_texited_def)

lemma thread_exits_ok:
  assumes ok: "pcb_ok pid p" and k: "om_get (pc_tasks p) t = Some k"
  shows "pcb_ok pid (thread_exits t k c p)" "pc_tids (thread_exits t k c p) = pc_tids p"
proof -
  let ?q = "thread_exits t k c p"
  have m: "om_ok (pc_tasks p)" using ok by (simp add: pcb_ok_def)
  note g = om_get_insert [OF m] om_ok_insert [OF m]
  have a: "all_texited ?q \<longleftrightarrow> (\<forall>t' k'. om_get (pc_tasks p) t' = Some k' \<and> t' \<noteq> t \<longrightarrow> is_texited (pk_state k'))"
    by (auto simp: all_texited_iff g)
  have e: "all_texited (p\<lparr>pc_tasks := om_insert t (k\<lparr>pk_state := TExited c\<rparr>) (pc_tasks p)\<rparr>) = all_texited ?q"
    by (rule all_texited_tasks) simp
  have "all_texited p \<Longrightarrow> all_texited ?q" unfolding a all_texited_iff [OF m] by blast
  then have st: "all_texited ?q \<longleftrightarrow> is_pexited (pc_state ?q)"
    using ok unfolding thread_exits_state e by (auto simp: pcb_ok_def)
  have "exits_queued ?q"
    using ok k by (auto simp: pcb_ok_def exits_queued_def g)
  then show "pcb_ok pid ?q" using ok st by (auto simp: pcb_ok_def g)
  show "pc_tids ?q = pc_tids p" using k by (auto simp: pc_tids_def g fun_eq_iff)
qed

lemma process_exits_fields [simp]:
  "pc_pid (process_exits c p) = pc_pid p" "pc_leader (process_exits c p) = pc_leader p"
  "pc_parent (process_exits c p) = pc_parent p" "pc_subreaper (process_exits c p) = pc_subreaper p"
  "pc_tasks (process_exits c p) = pc_tasks p" "pc_exited_members (process_exits c p) = pc_exited_members p"
  "pc_state (process_exits c p) = (if all_texited p then PExited c else PExiting c)"
  by (simp_all add: process_exits_def Let_def all_texited_def)

lemma process_exits_ok:
  "pcb_ok pid p \<Longrightarrow> pcb_ok pid (process_exits c p) \<and> pc_tids (process_exits c p) = pc_tids p"
  using all_texited_tasks [of "process_exits c p" p] by (auto simp: pcb_ok_def exits_queued_def pc_tids_def)

definition exit_thread_state :: "nat \<Rightarrow> nat \<Rightarrow> process_task \<Rightarrow> int \<Rightarrow> process_registry \<Rightarrow> process_registry" where
  "exit_thread_state pid t k c s = pg_update pid (thread_exits t k c) (snd (take_death_notices (SourceTask t) s))"

lemma mark_task_exited_cases:
  assumes inv: "proc_inv s"
  obtains "om_get (pg_pid_for_task s) t = None" "mark_task_exited t c s = Some (Inl TaskNotFound, s)"
  | pid p k where "pg_process s pid = Some p" "om_get (pc_tasks p) t = Some k"
      "\<not> is_pexited (pc_state p)" "is_pexited (pc_state (thread_exits t k c p))"
      "mark_task_exited t c s = Some (Inr \<lparr>xr_completed = True,
         xr_notices = fst (take_death_notices (SourceTask t) s) @
           fst (take_death_notices (SourceProcess pid) (exit_thread_state pid t k c s))\<rparr>,
         adopted pid (snd (take_death_notices (SourceProcess pid) (exit_thread_state pid t k c s))))"
      "proc_inv (exit_thread_state pid t k c s)"
  | pid p k where "pg_process s pid = Some p" "om_get (pc_tasks p) t = Some k"
      "is_pexited (pc_state p) \<or> \<not> is_pexited (pc_state (thread_exits t k c p))"
      "mark_task_exited t c s = Some (Inr \<lparr>xr_completed = False,
         xr_notices = fst (take_death_notices (SourceTask t) s)\<rparr>, exit_thread_state pid t k c s)"
      "proc_inv (exit_thread_state pid t k c s)"
proof (cases "om_get (pg_pid_for_task s) t")
  case None
  then show ?thesis using that(1) by (simp add: mark_task_exited_def)
next
  case (Some pid)
  then obtain p k where p: "pg_process s pid = Some p" "om_get (pc_tasks p) t = Some k"
    using has_task_indexed(1) [OF inv] by blast
  let ?src = "SourceTask t"
  let ?s1 = "snd (take_death_notices ?src s)" and ?s2 = "exit_thread_state pid t k c s"
  note inv1 = take_death_notices_inv [OF inv, of ?src]
  have p1: "pg_process ?s1 pid = Some (cleared ?src p)" using p(1) by (simp add: take_death_notices_get)
  have st: "pc_state (thread_exits t k c (cleared ?src p)) = pc_state (thread_exits t k c p)"
    unfolding thread_exits_state using all_texited_tasks [of "(cleared ?src p)\<lparr>pc_tasks := om_insert t (k\<lparr>pk_state := TExited c\<rparr>) (pc_tasks p)\<rparr>"
      "p\<lparr>pc_tasks := om_insert t (k\<lparr>pk_state := TExited c\<rparr>) (pc_tasks p)\<rparr>"] by simp
  have inv2: "proc_inv ?s2"
    unfolding exit_thread_state_def
  proof (rule update_inv [OF inv1])
    fix q assume q: "pg_process ?s1 pid = Some q" "pcb_ok pid q"
    then have "q = cleared ?src p" using p1 by simp
    then have "om_get (pc_tasks q) t = Some k" using p(2) by simp
    then show "pcb_ok pid (thread_exits t k c q) \<and> pc_tids (thread_exits t k c q) = pc_tids q \<and>
        pc_parent (thread_exits t k c q) = pc_parent q \<and> pc_subreaper (thread_exits t k c q) = pc_subreaper q"
      using thread_exits_ok [OF q(2)] by simp
  qed
  have p2: "pg_process ?s2 pid = Some (thread_exits t k c (cleared ?src p))"
    unfolding exit_thread_state_def pg_update_get [OF proc_inv_parts(1) [OF inv1]] using p1 by simp
  have rp: "reparent_orphans pid (snd (take_death_notices (SourceProcess pid) ?s2)) =
      Some (adopted pid (snd (take_death_notices (SourceProcess pid) ?s2)))"
    by (rule reparent_orphans_eq [OF take_death_notices_inv [OF inv2]]) (use p2 in \<open>simp add: take_death_notices_get\<close>)
  have e: "mark_task_exited t c s =
     (if \<not> is_pexited (pc_state p) \<and> is_pexited (pc_state (thread_exits t k c p))
      then Some (Inr \<lparr>xr_completed = True, xr_notices = fst (take_death_notices ?src s) @
           fst (take_death_notices (SourceProcess pid) ?s2)\<rparr>, adopted pid (snd (take_death_notices (SourceProcess pid) ?s2)))
      else Some (Inr \<lparr>xr_completed = False, xr_notices = fst (take_death_notices ?src s)\<rparr>, ?s2))"
    using Some p1 p(2) st rp
    by (simp add: mark_task_exited_def case_prod_unfold Let_def exit_thread_state_def [symmetric])
  show ?thesis
  proof (cases "\<not> is_pexited (pc_state p) \<and> is_pexited (pc_state (thread_exits t k c p))")
    case True
    then show ?thesis using that(2) [OF p _ _ _ inv2] e by simp
  next
    case False
    then show ?thesis using that(3) [OF p _ _ inv2] e by auto
  qed
qed

lemma mark_task_exited_inv:
  assumes inv: "proc_inv s"
  shows "\<exists>x s'. mark_task_exited t c s = Some (x, s') \<and> proc_inv s'"
proof (rule mark_task_exited_cases [OF inv, of t c])
  fix pid p k
  let ?s = "exit_thread_state pid t k c s" and ?src = "SourceProcess pid"
  assume a: "pg_process s pid = Some p" "proc_inv ?s"
    and m: "mark_task_exited t c s = Some (Inr \<lparr>xr_completed = True,
         xr_notices = fst (take_death_notices (SourceTask t) s) @ fst (take_death_notices ?src ?s)\<rparr>,
         adopted pid (snd (take_death_notices ?src ?s)))"
  note i3 = take_death_notices_inv [OF a(2), of ?src]
  have "pg_process (snd (take_death_notices ?src ?s)) pid \<noteq> None"
    using a(1) unfolding exit_thread_state_def take_death_notices_get
    by (simp add: pg_update_get proc_inv_parts(1) take_death_notices_inv [OF inv] take_death_notices_get)
  then have "proc_inv (adopted pid (snd (take_death_notices ?src ?s)))" using adopted_props(1) [OF i3] by blast
  then show ?thesis using m by blast
qed (use inv in auto)

definition exit_sources :: "nat \<Rightarrow> pcb \<Rightarrow> death_source list" where
  "exit_sources pid p = map (SourceTask \<circ> fst) (pc_tasks p) @ [SourceProcess pid]"

lemma take_all_death_notices_append:
  "take_all_death_notices (xs @ [y]) s =
     (let (ns, s1) = take_all_death_notices xs s; (ns', s2) = take_death_notices y s1 in (ns @ ns', s2))"
  by (induction xs arbitrary: s) (simp_all add: Let_def case_prod_unfold)

definition process_exit_state :: "nat \<Rightarrow> int \<Rightarrow> pcb \<Rightarrow> process_registry \<Rightarrow> process_registry" where
  "process_exit_state pid c p s =
     pg_update pid (process_exits c) (adopted pid (snd (take_all_death_notices (exit_sources pid p) s)))"

lemma mark_process_exited_eq:
  assumes inv: "proc_inv s" and p: "pg_process s pid = Some p"
    and st: "\<not> is_pexiting (pc_state p)" "\<not> is_pexited (pc_state p)"
  shows "mark_process_exited pid c s =
    Some (Inr (fst (take_all_death_notices (exit_sources pid p) s)), process_exit_state pid c p s)"
    "proc_inv (process_exit_state pid c p s)"
proof -
  let ?s = "snd (take_all_death_notices (exit_sources pid p) s)"
  note d = take_all_death_notices_props [OF inv, of "exit_sources pid p"]
  have ps: "pg_process ?s pid = Some (all_cleared (exit_sources pid p) p)" using p d(2) by simp
  note a = adopted_props [OF d(1) ps]
  have "pg_process (adopted pid ?s) pid \<noteq> None" using a(2) [of pid] ps by simp
  moreover have "reparent_orphans pid ?s = Some (adopted pid ?s)" by (rule reparent_orphans_eq [OF d(1) ps])
  ultimately show "mark_process_exited pid c s =
    Some (Inr (fst (take_all_death_notices (exit_sources pid p) s)), process_exit_state pid c p s)"
    using p st
    by (auto simp: mark_process_exited_def process_exit_state_def exit_sources_def take_all_death_notices_append
        Let_def case_prod_unfold split: option.splits)
  show "proc_inv (process_exit_state pid c p s)"
    unfolding process_exit_state_def by (rule update_inv [OF a(1)]) (use process_exits_ok in auto)
qed

lemma mark_process_exited_inv:
  assumes inv: "proc_inv s"
  shows "\<exists>x s'. mark_process_exited pid c s = Some (x, s') \<and> proc_inv s'"
proof (cases "pg_process s pid")
  case None
  then show ?thesis using inv by (simp add: mark_process_exited_def)
next
  case (Some p)
  show ?thesis
  proof (cases "is_pexiting (pc_state p) \<or> is_pexited (pc_state p)")
    case True
    then show ?thesis using inv Some by (simp add: mark_process_exited_def)
  next
    case False
    then show ?thesis using mark_process_exited_eq [OF inv Some] by blast
  qed
qed

end
