(* ===== verification/Process_Remove.thy ===== *)
theory Process_Remove
  imports Process_Exit
begin

text \<open>
  Threads and processes leave the registry: \<open>exec\<close> keeps one thread, exited members are released, a
  failed clone or fork is undone, and an exited process is detached for its parent.
\<close>

section \<open>Fewer threads\<close>

lemma indexed_cong:
  "pg_pid_for_task s' = pg_pid_for_task s \<Longrightarrow> pg_task_for_thread s' = pg_task_for_thread s \<Longrightarrow> indexed M s' = indexed M s"
  by (simp add: indexed_def)

lemma pg_process_cong: "pg_processes s' = pg_processes s \<Longrightarrow> pg_process s' = pg_process s"
  by (simp add: pg_process_def fun_eq_iff)

lemma shrink_inv:
  assumes inv: "proc_inv s" and p: "pg_process s pid = Some p"
    and f: "pcb_ok pid (f p)" "pc_parent (f p) = pc_parent p" "pc_subreaper (f p) = pc_subreaper p"
    and tids: "pc_tids (f p) = (\<lambda>t. if t \<in> R then None else pc_tids p t)"
    and R: "\<And>t. t \<in> R \<Longrightarrow> pc_tids p t \<noteq> None"
    and same: "same_processes (pg_update pid f s) s'"
    and ix: "indexed (\<lambda>a b c. has_task s a b c \<and> b \<notin> R) s'"
  shows "proc_inv s'" "pg_process s' = (pg_process s)(pid \<mapsto> f p)"
proof -
  note ok = proc_inv_parts(1) [OF inv]
  note sf = same_processes_fields [OF same]
  show g: "pg_process s' = (pg_process s)(pid \<mapsto> f p)"
    using pg_process_cong [OF sf(1)] p by (simp add: pg_update_get [OF ok])
  have own: "a = pid" if "has_task s a b c" "b \<in> R" for a b c
  proof -
    from R [OF that(2)] p obtain d where "has_task s pid b d" by (auto simp: has_task_def)
    then show ?thesis using indexed_unique(1) [OF proc_inv_parts(2) [OF inv]] that(1) by blast
  qed
  have "has_task s' = (\<lambda>a b c. has_task s a b c \<and> b \<notin> R)"
    unfolding has_task_def g using p own by (auto simp: fun_eq_iff tids has_task_def)
  with ix have ix': "indexed (has_task s') s'" by simp
  have sub: "subreaper_pids s' = subreaper_pids s"
    unfolding subreaper_pids_def g using p f(3) by (auto split: if_splits)
  have par: "parents_ok s'"
    using proc_inv_parts(3) [OF inv] p f(2) unfolding parents_ok_def g by (auto split: if_splits)
  have pcbs: "\<forall>i q. pg_process s' i = Some q \<longrightarrow> pcb_ok i q"
    unfolding g using f(1) proc_inv_pcb [OF inv] by auto
  have nx: "\<forall>i. pg_process s' i \<noteq> None \<longrightarrow> i < pg_next_pid s' \<or> pg_next_pid s' = usize_max"
    using inv p unfolding g sf by (auto simp: proc_inv_def)
  show "proc_inv s'"
    unfolding proc_inv_def using ix' sub par pcbs nx inv sf
    by (simp add: pg_update_ok [OF ok] proc_inv_def)
qed

lemma drop_indexes_shrink:
  assumes inv: "proc_inv s" and p: "pg_process s pid = Some p"
    and R: "\<And>t. t \<in> set ts \<Longrightarrow> pc_tids p t \<noteq> None"
  shows "\<exists>s'. drop_task_indexes pid ts (pg_update pid f s) = Some s' \<and> same_processes (pg_update pid f s) s' \<and>
    indexed (\<lambda>a b c. has_task s a b c \<and> b \<notin> set ts) s'"
proof (rule drop_task_indexes_ok)
  show "indexed (has_task s) (pg_update pid f s)"
    using proc_inv_parts(2) [OF inv] indexed_cong [of "pg_update pid f s" s] by simp
  fix t a c assume "t \<in> set ts" "has_task s a t c"
  moreover from R [OF this(1)] p obtain d where "has_task s pid t d" by (auto simp: has_task_def)
  ultimately show "a = pid" using indexed_unique(1) [OF proc_inv_parts(2) [OF inv]] by blast
qed

section \<open>Exec\<close>

lemma retain_task_fields [simp]:
  "pc_pid (retain_task t p) = pc_pid p" "pc_leader (retain_task t p) = t" "pc_parent (retain_task t p) = pc_parent p"
  "pc_tasks (retain_task t p) = filter (\<lambda>e. fst e = t) (pc_tasks p)" "pc_state (retain_task t p) = PRunning"
  "pc_exited_members (retain_task t p) = []" "pc_subreaper (retain_task t p) = pc_subreaper p"
  "pc_exec (retain_task t p) = False"
  by (simp_all add: retain_task_def)

lemma om_get_filter_key: "om_get (filter (\<lambda>e. Q (fst e)) m) k = (if Q k then om_get m k else None)"
  by (induction m) (auto simp: om_get_def)

lemma om_get_filter_eq: "om_get (filter (\<lambda>e. fst e = i) m) k = (if k = i then om_get m k else None)"
  by (induction m) (auto simp: om_get_def)

lemma retain_task_ok:
  assumes ok: "pcb_ok pid p" and k: "om_get (pc_tasks p) keep = Some k" and run: "\<not> is_texited (pk_state k)"
  shows "pcb_ok pid (retain_task keep p)"
proof -
  have m: "om_ok (pc_tasks p)" using ok by (simp add: pcb_ok_def)
  have g: "om_get (pc_tasks (retain_task keep p)) t = (if t = keep then Some k else None)" for t
    using k by (simp add: om_get_filter_eq)
  have m': "om_ok (pc_tasks (retain_task keep p))" using om_ok_filter [OF m] by simp
  have "\<not> all_texited (retain_task keep p)" by (rule all_texited_not [OF m' _ run, of keep]) (simp add: om_get_filter_eq k)
  then show ?thesis using ok m' k by (auto simp: pcb_ok_def exits_queued_def om_get_filter_eq split: if_splits)
qed

lemma retain_only_eq:
  assumes inv: "proc_inv s" and p: "pg_process s pid = Some p" and k: "om_get (pc_tasks p) keep = Some k"
    and run: "\<not> is_texited (pk_state k)"
  shows "\<exists>s'. retain_only_task_in_process pid keep s = Some (Some (filter (\<lambda>t. t \<noteq> keep) (map fst (pc_tasks p))), s') \<and>
    proc_inv s' \<and> pg_process s' = (pg_process s)(pid \<mapsto> retain_task keep p)"
proof -
  let ?R = "filter (\<lambda>t. t \<noteq> keep) (map fst (pc_tasks p))"
  have pk: "pcb_ok pid p" by (rule proc_inv_pcb [OF inv p])
  have R: "t \<in> set ?R \<longleftrightarrow> t \<noteq> keep \<and> pc_tids p t \<noteq> None" for t
    by (auto simp: pc_tids_def om_get_def map_of_eq_None_iff)
  have R': "\<And>t. t \<in> set ?R \<Longrightarrow> pc_tids p t \<noteq> None" using R by blast
  obtain s' where s': "drop_task_indexes pid ?R (pg_update pid (retain_task keep) s) = Some s'"
    "same_processes (pg_update pid (retain_task keep) s) s'" "indexed (\<lambda>a b c. has_task s a b c \<and> b \<notin> set ?R) s'"
    using drop_indexes_shrink [where f = "retain_task keep", OF inv p R'] by blast
  have t: "pc_tids (retain_task keep p) = (\<lambda>t. if t \<in> set ?R then None else pc_tids p t)"
  proof
    fix t
    show "pc_tids (retain_task keep p) t = (if t \<in> set ?R then None else pc_tids p t)"
      unfolding R using om_get_filter_key [of "\<lambda>i. i = keep" "pc_tasks p" t] by (auto simp: pc_tids_def)
  qed
  note sh = shrink_inv [where f = "retain_task keep", OF inv p retain_task_ok [OF pk k run] _ _ t R' s'(2,3)]
  have "retain_only_task_in_process pid keep s = Some (Some ?R, s')"
    using p k s'(1) by (simp add: retain_only_task_in_process_def Let_def)
  then show ?thesis using sh by (simp del: filter_map)
qed

lemma retain_only_none:
  assumes "pg_process s pid = None \<or> (\<exists>p. pg_process s pid = Some p \<and> om_get (pc_tasks p) keep = None)"
  shows "retain_only_task_in_process pid keep s = Some (None, s)"
  using assms by (auto simp: retain_only_task_in_process_def)

section \<open>Exited members\<close>

lemma foldl_om_remove: "foldl (\<lambda>m t. om_remove t m) m ts = filter (\<lambda>e. fst e \<notin> set ts) m"
proof (induction ts arbitrary: m)
  case Nil
  then show ?case by simp
next
  case (Cons t ts)
  then show ?case by (simp add: om_remove_def conj_commute)
qed

lemma drop_members_fields [simp]:
  "pc_pid (drop_members ts p) = pc_pid p" "pc_leader (drop_members ts p) = pc_leader p"
  "pc_parent (drop_members ts p) = pc_parent p" "pc_tasks (drop_members ts p) = filter (\<lambda>e. fst e \<notin> set ts) (pc_tasks p)"
  "pc_state (drop_members ts p) = pc_state p" "pc_exited_members (drop_members ts p) = []"
  "pc_subreaper (drop_members ts p) = pc_subreaper p"
  by (simp_all add: drop_members_def foldl_om_remove)

text \<open>Every exited member is in the queue, so one call releases them all.\<close>

lemma exited_members_set:
  assumes "pcb_ok pid p"
  shows "set (exited_members p) = {t. t \<noteq> pc_leader p \<and> (\<exists>k. om_get (pc_tasks p) t = Some k \<and> is_texited (pk_state k))}"
  using assms by (auto simp: exited_members_def pcb_ok_def exits_queued_def split: option.splits)

lemma drop_members_ok:
  assumes ok: "pcb_ok pid p"
  shows "pcb_ok pid (drop_members (exited_members p) p)"
proof -
  let ?q = "drop_members (exited_members p) p"
  have m: "om_ok (pc_tasks p)" using ok by (simp add: pcb_ok_def)
  have m': "om_ok (pc_tasks ?q)" using om_ok_filter [OF m] by simp
  have g: "om_get (pc_tasks ?q) t = (if t \<in> set (exited_members p) then None else om_get (pc_tasks p) t)" for t
    using om_get_filter_key [of "\<lambda>i. i \<notin> set (exited_members p)" "pc_tasks p" t] by simp
  note e = exited_members_set [OF ok]
  have "all_texited ?q \<longleftrightarrow> all_texited p"
  proof
    assume a: "all_texited ?q"
    show "all_texited p"
      unfolding all_texited_iff [OF m]
    proof (intro allI impI)
      fix t k assume k: "om_get (pc_tasks p) t = Some k"
      show "is_texited (pk_state k)"
      proof (cases "t \<in> set (exited_members p)")
        case True
        then show ?thesis using k unfolding e by simp
      next
        case False
        then have "om_get (pc_tasks ?q) t = Some k" unfolding g using k by simp
        then show ?thesis using a unfolding all_texited_iff [OF m'] by blast
      qed
    qed
  qed (auto simp: all_texited_iff [OF m] all_texited_iff [OF m'] g simp del: drop_members_fields split: if_splits)
  moreover have "exits_queued ?q" unfolding exits_queued_def g e by auto
  moreover have "om_get (pc_tasks ?q) (pc_leader ?q) \<noteq> None" unfolding g e using ok by (auto simp: pcb_ok_def)
  ultimately show ?thesis using ok m' by (simp add: pcb_ok_def)
qed

lemma take_exited_eq:
  assumes inv: "proc_inv s" and p: "pg_process s pid = Some p"
  shows "\<exists>s'. take_exited_member_tasks pid s = Some (Some (exited_members p), s') \<and> proc_inv s' \<and>
    pg_process s' = (pg_process s)(pid \<mapsto> drop_members (exited_members p) p)"
proof -
  let ?R = "exited_members p" and ?f = "drop_members (exited_members p)"
  have pk: "pcb_ok pid p" by (rule proc_inv_pcb [OF inv p])
  have R: "pc_tids p t \<noteq> None" if "t \<in> set ?R" for t
    using that unfolding exited_members_set [OF pk] by (auto simp: pc_tids_def)
  obtain s' where s': "drop_task_indexes pid ?R (pg_update pid ?f s) = Some s'"
    "same_processes (pg_update pid ?f s) s'" "indexed (\<lambda>a b c. has_task s a b c \<and> b \<notin> set ?R) s'"
    using drop_indexes_shrink [where f = ?f, OF inv p R] by blast
  have t: "pc_tids (?f p) = (\<lambda>t. if t \<in> set ?R then None else pc_tids p t)"
  proof
    fix t
    show "pc_tids (?f p) t = (if t \<in> set ?R then None else pc_tids p t)"
      using om_get_filter_key [of "\<lambda>i. i \<notin> set ?R" "pc_tasks p" t] by (simp add: pc_tids_def)
  qed
  note sh = shrink_inv [where f = ?f, OF inv p drop_members_ok [OF pk] _ _ t R s'(2,3)]
  have "take_exited_member_tasks pid s = Some (Some ?R, s')"
    using p s'(1) by (simp add: take_exited_member_tasks_def Let_def)
  then show ?thesis using sh by simp
qed

section \<open>A failed clone\<close>

lemma abort_cloned_eq:
  assumes inv: "proc_inv s" and p: "pg_process s pid = Some p" and k: "om_get (pc_tasks p) t = Some k"
    and lead: "t \<noteq> pc_leader p"
    and other: "om_get (pc_tasks p) t' = Some k'" "t' \<noteq> t" "\<not> is_texited (pk_state k')"
  shows "\<exists>s'. abort_cloned_thread t s = Some (Inr (), s') \<and> proc_inv s' \<and>
    pg_process s' = (pg_process s)(pid \<mapsto> p\<lparr>pc_tasks := om_remove t (pc_tasks p)\<rparr>)"
proof -
  let ?f = "\<lambda>p. p\<lparr>pc_tasks := om_remove t (pc_tasks p)\<rparr>"
  have pk: "pcb_ok pid p" by (rule proc_inv_pcb [OF inv p])
  then have m: "om_ok (pc_tasks p)" by (simp add: pcb_ok_def)
  note g = om_get_remove [OF m] om_ok_remove [OF m]
  have ix: "indexed (has_task s) (pg_update pid ?f s)"
    using proc_inv_parts(2) [OF inv] indexed_cong [of "pg_update pid ?f s" s] by simp
  have "has_task s pid t (pk_tid k)" using p k by (simp add: has_task_def pc_tids_def)
  from remove_task_indexes_ok [OF ix this] obtain s' where s':
    "remove_task_indexes pid t (pk_tid k) (pg_update pid ?f s) = Some s'" "same_processes (pg_update pid ?f s) s'"
    "indexed (\<lambda>a b c. has_task s a b c \<and> b \<notin> {t}) s'" by auto
  have "\<not> all_texited p" "\<not> all_texited (?f p)"
    by (rule all_texited_not [OF _ _ other(3), of _ t'], use m other(1,2) in \<open>simp_all add: g\<close>)+
  then have f: "pcb_ok pid (?f p)" using pk lead by (auto simp: pcb_ok_def exits_queued_def g)
  have t: "pc_tids (?f p) = (\<lambda>i. if i \<in> {t} then None else pc_tids p i)"
    by (auto simp: pc_tids_def g fun_eq_iff)
  have R: "pc_tids p i \<noteq> None" if "i \<in> {t}" for i using that k by (simp add: pc_tids_def)
  note sh = shrink_inv [where f = ?f, OF inv p f _ _ t R s'(2,3)]
  have "abort_cloned_thread t s = Some (Inr (), s')"
    using p k lead s'(1) task_indexed [OF inv p k] by (simp add: abort_cloned_thread_def)
  then show ?thesis using sh by simp
qed

section \<open>Removal of a process\<close>

lemma remove_process_eq:
  assumes inv: "proc_inv s" and p: "pg_process s pid = Some p"
    and kids: "pid = INIT_PID \<or> (\<forall>c q. pg_process s c = Some q \<longrightarrow> pc_parent q \<noteq> Some pid)"
  shows "\<exists>s'. remove_process pid s = Some (Some p, s') \<and> proc_inv s' \<and> pg_process s' = (pg_process s)(pid := None)"
proof -
  note ok = proc_inv_parts(1) [OF inv]
  have pk: "pcb_ok pid p" by (rule proc_inv_pcb [OF inv p])
  then have m: "om_ok (pc_tasks p)" by (simp add: pcb_ok_def)
  define n where "n = (if pc_subreaper p then pg_subreapers s - 1 else pg_subreapers s)"
  let ?s = "s\<lparr>pg_processes := om_remove pid (pg_processes s), pg_subreapers := n\<rparr>"
  have e: "(let s1 = s\<lparr>pg_processes := om_remove pid (pg_processes s)\<rparr>
      in if pc_subreaper p then s1\<lparr>pg_subreapers := pg_subreapers s1 - 1\<rparr> else s1) = ?s"
    by (simp add: n_def)
  have ix: "indexed (has_task s) ?s"
    using proc_inv_parts(2) [OF inv] indexed_cong [of ?s s] by simp
  have mem: "has_task s pid t (pk_tid k)" if "(t, k) \<in> set (pc_tasks p)" for t k
    using that p om_get_iff [OF m] by (auto simp: has_task_def pc_tids_def)
  obtain s' where s': "remove_all_indexes pid (pc_tasks p) ?s = Some s'" "same_processes ?s s'"
    "indexed (\<lambda>a b c. has_task s a b c \<and> b \<notin> fst ` set (pc_tasks p)) s'"
    using remove_all_indexes_ok [OF ix mem om_ok_distinct [OF m]] by blast
  note sf = same_processes_fields [OF s'(2)]
  have g: "pg_process s' = (pg_process s)(pid := None)"
    using pg_process_cong [OF sf(1)] by (simp add: pg_process_def fun_eq_iff om_get_remove [OF ok])
  have dom: "b \<in> fst ` set (pc_tasks p) \<longleftrightarrow> pc_tids p b \<noteq> None" for b
    by (auto simp: pc_tids_def om_get_def map_of_eq_None_iff)
  have own: "a = pid" if "has_task s a b c" "pc_tids p b \<noteq> None" for a b c
    using that p indexed_unique(1) [OF proc_inv_parts(2) [OF inv], of pid b] by (auto simp: has_task_def)
  have "has_task s' = (\<lambda>a b c. has_task s a b c \<and> b \<notin> fst ` set (pc_tasks p))"
  proof (intro ext)
    fix a b c
    show "has_task s' a b c = (has_task s a b c \<and> b \<notin> fst ` set (pc_tasks p))"
    proof (cases "a = pid")
      case True
      then show ?thesis unfolding dom using p by (auto simp: has_task_def g)
    next
      case False
      then have "has_task s' a b c = has_task s a b c" by (simp add: has_task_def g)
      then show ?thesis unfolding dom using own [of a b c] False by blast
    qed
  qed
  with s'(3) have ix': "indexed (has_task s') s'" by simp
  have sub: "subreaper_pids s' = subreaper_pids s - {pid}" unfolding subreaper_pids_def g by auto
  have "card (subreaper_pids s') \<le> n"
    unfolding sub n_def using proc_inv_parts(4) [OF inv] p
    by (auto simp: card_Diff_singleton_if subreaper_pids_def)
  then have sub': "card (subreaper_pids s') \<le> pg_subreapers s'" by (simp add: sf)
  have par: "parents_ok s'"
    using parent_exists [OF inv] kids unfolding parents_ok_def g by (metis fun_upd_apply option.distinct(1))
  have "proc_inv s'"
    unfolding proc_inv_def
  proof (intro conjI)
    show "om_ok (pg_processes s')" by (simp add: sf om_ok_remove ok)
    show "\<forall>i q. pg_process s' i = Some q \<longrightarrow> pcb_ok i q" unfolding g using proc_inv_pcb [OF inv] by simp
    show "\<forall>i. pg_process s' i \<noteq> None \<longrightarrow> i < pg_next_pid s' \<or> pg_next_pid s' = usize_max"
      unfolding g sf using inv by (simp add: proc_inv_def)
  qed (use ix' par sub' proc_inv_parts [OF inv] in \<open>simp_all add: sf\<close>)
  moreover have "remove_process pid s = Some (Some p, s')"
    using p s'(1) e by (simp add: remove_process_def Let_def)
  ultimately show ?thesis using g by blast
qed

lemma adopted_no_child:
  assumes inv: "proc_inv s" and p: "pg_process s pid = Some p" and n: "pid \<noteq> INIT_PID"
    and q: "pg_process (adopted pid s) c = Some q"
  shows "pc_parent q \<noteq> Some pid"
proof -
  obtain q0 where q0: "pg_process s c = Some q0" "q = (if pc_parent q0 = Some pid then adopt (reaper_of s pid) q0 else q0)"
  proof (cases "pg_process s c")
    case (Some x)
    then show ?thesis using that q n unfolding adopted_props(2) [OF inv p] by simp
  qed (use q in \<open>simp add: adopted_props(2) [OF inv p]\<close>)
  have "reaper_of s pid \<noteq> pid" using reaper_of_older [OF inv p n] by simp
  then show ?thesis by (cases "pc_parent q0 = Some pid") (simp_all add: q0(2))
qed

lemma detach_exited_eq:
  assumes inv: "proc_inv s" and p: "pg_process s pid = Some p" and x: "is_pexited (pc_state p)"
  shows "\<exists>s' q. detach_exited_process pid s = Some (Some q, s') \<and> proc_inv s' \<and>
    pg_process (adopted pid s) pid = Some q \<and> pc_tasks q = pc_tasks p \<and>
    pg_process s' = (pg_process (adopted pid s))(pid := None)"
proof -
  note a = adopted_props [OF inv p]
  have np: "pc_parent p \<noteq> Some pid" using proc_inv_pcb [OF inv p] by (auto simp: pcb_ok_def)
  then have q: "pg_process (adopted pid s) pid = Some p" using a(2) p by simp
  have "pid = INIT_PID \<or> (\<forall>c q. pg_process (adopted pid s) c = Some q \<longrightarrow> pc_parent q \<noteq> Some pid)"
    using adopted_no_child [OF inv p] by blast
  from remove_process_eq [OF a(1) q this] show ?thesis
    using p x q reparent_orphans_eq [OF inv p] by (auto simp: detach_exited_process_def)
qed

lemma detach_exited_none:
  "pg_process s pid = None \<or> (\<exists>p. pg_process s pid = Some p \<and> \<not> is_pexited (pc_state p)) \<Longrightarrow>
     detach_exited_process pid s = Some (None, s)"
  by (auto simp: detach_exited_process_def)

end
