(* ===== verification/Process_System.thy ===== *)
theory Process_System
  imports Process_Remove
begin

text \<open>
  The process registry as a state machine: one operation per critical section of
  \<open>with_process_registry\<close> that changes the registry, and the states they reach from the empty
  registry. The callers of the registry guarantee four things: a new process names a live parent or
  none (\<open>spawn.rs\<close> names the caller's process), a thread is cloned by a running thread and \<open>exec\<close>
  keeps a running thread (the caller itself, \<open>lifecycle.rs\<close>), and the undo of a clone or of a fork
  runs before the new thread has started, so another thread is still running in its process and the
  forked process has no children.
\<close>

datatype process_op =
    OpCreate nat "nat option" "address_space_ref option"
  | OpFork nat nat nat nat "address_space_ref option"
  | OpClone nat nat nat clone_flags nat "nat option"
  | OpBeginExec nat nat
  | OpExitTask nat int
  | OpExitProcess nat int
  | OpRetain nat nat
  | OpTakeMembers nat
  | OpAbortFork nat
  | OpAbortClone nat
  | OpReap nat
  | OpStop nat nat
  | OpContinue nat
  | OpConsumeStop nat bool
  | OpConsumeContinued nat bool
  | OpSetsid nat
  | OpSetPgid nat nat
  | OpSubreaper nat bool
  | OpUmask nat "32 word"
  | OpDeathSignal nat int
  | OpRlimit nat nat resource_limit
  | OpAspace nat "address_space_ref option"
  | OpDumpable nat bool
  | OpCaps nat process_caps
  | OpKeepCaps nat bool
  | OpSeccompMode nat seccomp_mode
  | OpSecMode nat bool
  | OpWhitelist nat seccomp_whitelist
  | OpComm nat "8 word list"
  | OpClearTid nat "nat option"
  | OpIo nat bool nat
  | OpIoTransfer nat nat
  | OpClear

fun process_exec :: "process_op \<Rightarrow> process_registry \<Rightarrow> process_registry option" where
  "process_exec (OpCreate t parent a) s = map_option snd (create_process_for_task t parent a s)"
| "process_exec (OpFork src cp st ct a) s = map_option snd (create_process_like_fork_with_parent src cp st ct a s)"
| "process_exec (OpClone pid pt t flags tls ct) s = map_option snd (add_task_to_process pid pt t flags tls ct s)"
| "process_exec (OpBeginExec pid t) s = Some (snd (begin_process_exec pid t s))"
| "process_exec (OpExitTask t c) s = map_option snd (mark_task_exited t c s)"
| "process_exec (OpExitProcess pid c) s = map_option snd (mark_process_exited pid c s)"
| "process_exec (OpRetain pid t) s = map_option snd (retain_only_task_in_process pid t s)"
| "process_exec (OpTakeMembers pid) s = map_option snd (take_exited_member_tasks pid s)"
| "process_exec (OpAbortFork t) s = map_option snd (detach_aborted_fork t s)"
| "process_exec (OpAbortClone t) s = map_option snd (abort_cloned_thread t s)"
| "process_exec (OpReap pid) s = map_option snd (detach_exited_process pid s)"
| "process_exec (OpStop pid signo) s = Some (snd (mark_process_stopped pid signo s))"
| "process_exec (OpContinue pid) s = Some (snd (mark_process_continued pid s))"
| "process_exec (OpConsumeStop pid nowait) s = Some (consume_stop_wait pid nowait s)"
| "process_exec (OpConsumeContinued pid nowait) s = Some (consume_continued_wait pid nowait s)"
| "process_exec (OpSetsid pid) s = Some (snd (create_session_for_process pid s))"
| "process_exec (OpSetPgid pid pgid) s = Some (snd (set_process_pgid pid pgid s))"
| "process_exec (OpSubreaper pid e) s = Some (snd (set_process_child_subreaper pid e s))"
| "process_exec (OpUmask pid um) s = Some (snd (set_process_umask pid um s))"
| "process_exec (OpDeathSignal pid sig) s = Some (snd (set_parent_death_signal pid sig s))"
| "process_exec (OpRlimit pid r l) s = Some (snd (set_process_rlimit pid r l s))"
| "process_exec (OpAspace pid a) s = Some (snd (update_process_address_space pid a s))"
| "process_exec (OpDumpable pid d) s = Some (snd (set_process_dumpable pid d s))"
| "process_exec (OpCaps pid c) s = Some (snd (set_process_caps pid c s))"
| "process_exec (OpKeepCaps pid e) s = Some (snd (set_process_keep_caps pid e s))"
| "process_exec (OpSeccompMode pid m) s = Some (snd (set_seccomp_mode pid m s))"
| "process_exec (OpSecMode pid m) s = Some (snd (set_sec_mode pid m s))"
| "process_exec (OpWhitelist pid wl) s = Some (set_seccomp_whitelist pid wl s)"
| "process_exec (OpComm t comm) s = Some (snd (set_thread_comm t comm s))"
| "process_exec (OpClearTid t addr) s = Some (snd (set_task_clear_child_tid t addr s))"
| "process_exec (OpIo t rd n) s = Some (account_task_io t rd n s)"
| "process_exec (OpIoTransfer t n) s = Some (account_task_io_transfer t n s)"
| "process_exec OpClear s = Some (pg_clear s)"

text \<open>A task of a process that has not exited.\<close>

definition runs_in :: "process_registry \<Rightarrow> nat \<Rightarrow> nat \<Rightarrow> bool" where
  "runs_in s pid t \<longleftrightarrow>
     (\<exists>p k. pg_process s pid = Some p \<and> om_get (pc_tasks p) t = Some k \<and> \<not> is_texited (pk_state k))"

fun process_allowed :: "process_op \<Rightarrow> process_registry \<Rightarrow> bool" where
  "process_allowed (OpCreate t parent a) s \<longleftrightarrow> (case parent of None \<Rightarrow> True | Some q \<Rightarrow> pg_process s q \<noteq> None)"
| "process_allowed (OpClone pid pt t flags tls ct) s \<longleftrightarrow> runs_in s pid pt \<or> task_of s pt = None"
| "process_allowed (OpRetain pid keep) s \<longleftrightarrow> runs_in s pid keep \<or> task_of s keep = None"
| "process_allowed (OpAbortClone t) s \<longleftrightarrow>
     (\<forall>pid. om_get (pg_pid_for_task s) t = Some pid \<longrightarrow> (\<exists>t'. t' \<noteq> t \<and> runs_in s pid t'))"
| "process_allowed (OpAbortFork t) s \<longleftrightarrow>
     (\<forall>pid c q. om_get (pg_pid_for_task s) t = Some pid \<and> pg_process s c = Some q \<longrightarrow> pc_parent q \<noteq> Some pid)"
| "process_allowed _ s \<longleftrightarrow> True"

text \<open>The ids that an operation draws.\<close>

fun ids_left :: "process_op \<Rightarrow> process_registry \<Rightarrow> bool" where
  "ids_left (OpCreate t parent a) s \<longleftrightarrow> free_pid s"
| "ids_left (OpFork src cp st ct a) s \<longleftrightarrow> free_pid s"
| "ids_left (OpClone pid pt t flags tls ct) s \<longleftrightarrow> free_tid s"
| "ids_left _ s \<longleftrightarrow> True"

text \<open>The operation gets as far as drawing one: its arguments pass the checks before it.\<close>

fun draws_id :: "process_op \<Rightarrow> process_registry \<Rightarrow> bool" where
  "draws_id (OpCreate t parent a) s \<longleftrightarrow> om_get (pg_pid_for_task s) t = None"
| "draws_id (OpFork src cp st ct a) s \<longleftrightarrow> pg_process s cp \<noteq> None \<and>
     (\<exists>p. pg_process s src = Some p \<and> om_get (pc_tasks p) st \<noteq> None) \<and> om_get (pg_pid_for_task s) ct = None"
| "draws_id (OpClone pid pt t flags tls ct) s \<longleftrightarrow> om_get (pg_pid_for_task s) t = None"
| "draws_id _ s \<longleftrightarrow> False"

inductive process_step :: "process_registry \<Rightarrow> process_op \<Rightarrow> process_registry \<Rightarrow> bool" where
  step: "process_allowed op s \<Longrightarrow> process_exec op s = Some s' \<Longrightarrow> process_step s op s'"

inductive_cases process_stepE: "process_step s op s'"

inductive process_reach :: "process_registry \<Rightarrow> bool" where
  start: "process_reach pg_new"
| run: "process_reach s \<Longrightarrow> process_step s op s' \<Longrightarrow> process_reach s'"

section \<open>Every operation keeps the invariant\<close>

definition kept :: "process_registry option \<Rightarrow> bool" where
  "kept r \<longleftrightarrow> (case r of None \<Rightarrow> True | Some s \<Rightarrow> proc_inv s)"

lemma attr_ops_inv:
  assumes inv: "proc_inv s"
  shows "proc_inv (snd (set_process_pgid pid pgid s))" "proc_inv (snd (set_process_umask pid um s))"
    "proc_inv (snd (set_parent_death_signal pid sig s))" "proc_inv (snd (set_process_rlimit pid r l s))"
    "proc_inv (snd (update_process_address_space pid a s))" "proc_inv (snd (set_process_dumpable pid d s))"
    "proc_inv (snd (set_process_caps pid c s))" "proc_inv (snd (set_process_keep_caps pid e s))"
    "proc_inv (snd (set_seccomp_mode pid sm s))" "proc_inv (snd (set_sec_mode pid m s))"
    "proc_inv (set_seccomp_whitelist pid wl s)" "proc_inv (consume_stop_wait pid n s)"
    "proc_inv (consume_continued_wait pid n s)" "proc_inv (account_task_io t rd b s)"
    "proc_inv (account_task_io_transfer t b s)" "proc_inv (snd (create_session_for_process pid s))"
    "proc_inv (snd (begin_process_exec pid t s))"
  by (auto simp: set_process_pgid_def set_process_umask_def set_parent_death_signal_def set_process_rlimit_def
      update_process_address_space_def set_process_dumpable_def set_process_caps_def set_process_keep_caps_def
      set_seccomp_mode_def set_sec_mode_def set_seccomp_whitelist_def consume_stop_wait_def consume_continued_wait_def
      account_task_io_def account_task_io_transfer_def create_session_for_process_def begin_process_exec_def inv
      split: option.splits intro!: attr_inv [OF inv])

lemma modify_task_ops_inv:
  assumes inv: "proc_inv s"
  shows "proc_inv (snd (set_thread_comm t comm s))" "proc_inv (snd (set_task_clear_child_tid t addr s))"
  by (auto simp: set_thread_comm_def set_task_clear_child_tid_def intro!: modify_task_inv [OF inv])

lemma state_update_inv:
  assumes inv: "proc_inv s" and p: "pg_process s pid = Some p" and n: "\<not> is_pexited (pc_state p)"
    and f: "\<And>p. pc_pid (f p) = pc_pid p \<and> pc_leader (f p) = pc_leader p \<and> pc_parent (f p) = pc_parent p \<and>
      pc_tasks (f p) = pc_tasks p \<and> pc_exited_members (f p) = pc_exited_members p \<and> \<not> is_pexited (pc_state (f p)) \<and>
      pc_subreaper (f p) = pc_subreaper p"
  shows "proc_inv (pg_update pid f s)"
proof (rule update_inv [OF inv])
  fix q assume q: "pg_process s pid = Some q" "pcb_ok pid q"
  have "all_texited (f q) = all_texited q" by (rule all_texited_tasks) (simp add: f)
  then show "pcb_ok pid (f q) \<and> pc_tids (f q) = pc_tids q \<and> pc_parent (f q) = pc_parent q \<and> pc_subreaper (f q) = pc_subreaper q"
    using q p n f [of q] pc_tids_cong [of "f q" q] by (simp add: pcb_ok_def exits_queued_def)
qed

lemma job_control_inv:
  assumes inv: "proc_inv s"
  shows "proc_inv (snd (mark_process_stopped pid signo s))" "proc_inv (snd (mark_process_continued pid s))"
proof -
  show "proc_inv (snd (mark_process_stopped pid signo s))"
    by (auto simp: mark_process_stopped_def inv split: option.splits intro!: state_update_inv [OF inv])
  show "proc_inv (snd (mark_process_continued pid s))"
    by (auto simp: mark_process_continued_def is_pstopped_def inv split: option.splits process_state.splits
        intro!: state_update_inv [OF inv])
qed

lemma proc_inv_clear: "proc_inv (pg_clear s)"
proof -
  have "pg_clear s = pg_new" by (cases s) (simp add: pg_clear_def pg_new_def)
  then show ?thesis using proc_inv_new by simp
qed

lemma runs_in_or_gone:
  assumes inv: "proc_inv s" and r: "runs_in s pid t \<or> task_of s t = None"
    and p: "pg_process s pid = Some p" and k: "om_get (pc_tasks p) t = Some k"
  shows "\<not> is_texited (pk_state k)"
  using r p k task_of_eq [OF inv p k] by (auto simp: runs_in_def)

lemma create_inv:
  assumes inv: "proc_inv s" and a: "process_allowed (OpCreate t parent a) s"
  shows "kept (process_exec (OpCreate t parent a) s)" "free_pid s \<Longrightarrow> process_exec (OpCreate t parent a) s \<noteq> None"
proof -
  have k: "kept (process_exec (OpCreate t parent a) s) \<and> (free_pid s \<longrightarrow> process_exec (OpCreate t parent a) s \<noteq> None)"
  proof (rule create_process_for_task_cases [OF inv, of t parent a])
    fix pid assume c: "om_get (pg_pid_for_task s) t = None" "fresh_pid s pid"
      "create_process_for_task t parent a s = Some (Inr pid, created pid t parent a s)"
    have "proc_inv (created pid t parent a s)"
      by (rule created_inv [OF inv c(1,2)]) (use assms(2) in auto)
    with c(3) show ?thesis by (simp add: kept_def)
  qed (use inv in \<open>simp_all add: kept_def\<close>)
  then show "kept (process_exec (OpCreate t parent a) s)" "free_pid s \<Longrightarrow> process_exec (OpCreate t parent a) s \<noteq> None"
    by simp_all
qed

lemma proc_fork_inv:
  assumes inv: "proc_inv s"
  shows "kept (process_exec (OpFork src cp st ct a) s)" "free_pid s \<Longrightarrow> process_exec (OpFork src cp st ct a) s \<noteq> None"
proof -
  have "kept (process_exec (OpFork src cp st ct a) s) \<and> (free_pid s \<longrightarrow> process_exec (OpFork src cp st ct a) s \<noteq> None)"
  proof (rule fork_cases [OF inv, of src cp st ct a])
    fix pid p and k :: process_task
    assume c: "create_process_like_fork_with_parent src cp st ct a s = Some (Inr pid, forked pid p st k cp ct a s)"
      "pg_process s cp \<noteq> None" "om_get (pg_pid_for_task s) ct = None" "fresh_pid s pid"
    show ?thesis using forked_inv [OF inv c(2-4), of p st k a] c(1) by (simp add: kept_def)
  qed (use inv in \<open>simp_all add: kept_def\<close>)
  then show "kept (process_exec (OpFork src cp st ct a) s)" "free_pid s \<Longrightarrow> process_exec (OpFork src cp st ct a) s \<noteq> None"
    by simp_all
qed

lemma clone_inv:
  assumes inv: "proc_inv s" and a: "process_allowed (OpClone pid pt t flags tls ct) s"
  shows "kept (process_exec (OpClone pid pt t flags tls ct) s)"
    "free_tid s \<Longrightarrow> process_exec (OpClone pid pt t flags tls ct) s \<noteq> None"
proof -
  show "kept (process_exec (OpClone pid pt t flags tls ct) s)"
  proof (cases "add_task_to_process pid pt t flags tls ct s")
    case (Some r)
    obtain x s' where "r = (x, s')" by (cases r)
    then show ?thesis
      using add_task_inv [OF inv _ Some [unfolded \<open>r = (x, s')\<close>]] runs_in_or_gone [OF inv, of pid pt] a Some
      by (simp add: kept_def)
  qed (simp add: kept_def)
  show "process_exec (OpClone pid pt t flags tls ct) s \<noteq> None" if "free_tid s"
    by (rule add_task_cases [OF inv, of pid pt t flags tls ct]) (use that in simp_all)
qed

lemma retain_inv:
  assumes inv: "proc_inv s" and a: "process_allowed (OpRetain pid keep) s"
  shows "\<exists>s'. process_exec (OpRetain pid keep) s = Some s' \<and> proc_inv s'"
proof (cases "\<exists>p k. pg_process s pid = Some p \<and> om_get (pc_tasks p) keep = Some k")
  case True
  then obtain p k where p: "pg_process s pid = Some p" "om_get (pc_tasks p) keep = Some k" by blast
  then have "\<not> is_texited (pk_state k)" using runs_in_or_gone [OF inv _ p] a by simp
  from retain_only_eq [OF inv p this] show ?thesis by auto
next
  case False
  then have "retain_only_task_in_process pid keep s = Some (None, s)"
    by (intro retain_only_none) (cases "pg_process s pid"; auto)
  then show ?thesis using inv by simp
qed

lemma take_members_inv:
  assumes inv: "proc_inv s"
  shows "\<exists>s'. process_exec (OpTakeMembers pid) s = Some s' \<and> proc_inv s'"
proof (cases "pg_process s pid")
  case None
  then show ?thesis using inv by (simp add: take_exited_member_tasks_def)
next
  case (Some p)
  then show ?thesis using take_exited_eq [OF inv Some] by auto
qed

lemma abort_clone_inv:
  assumes inv: "proc_inv s" and a: "process_allowed (OpAbortClone t) s"
  shows "\<exists>s'. process_exec (OpAbortClone t) s = Some s' \<and> proc_inv s'"
proof (cases "om_get (pg_pid_for_task s) t")
  case None
  then show ?thesis using inv by (simp add: abort_cloned_thread_def)
next
  case (Some pid)
  then obtain p k where p: "pg_process s pid = Some p" "om_get (pc_tasks p) t = Some k"
    using has_task_indexed(1) [OF inv] by blast
  show ?thesis
  proof (cases "pc_leader p = t")
    case True
    then show ?thesis using Some p inv by (simp add: abort_cloned_thread_def)
  next
    case False
    from a Some p(1) obtain t' k' where "t' \<noteq> t" "om_get (pc_tasks p) t' = Some k'" "\<not> is_texited (pk_state k')"
      by (auto simp: runs_in_def)
    from abort_cloned_eq [OF inv p _ this(2,1,3)] False show ?thesis by fastforce
  qed
qed

lemma abort_fork_inv:
  assumes inv: "proc_inv s" and a: "process_allowed (OpAbortFork t) s"
  shows "\<exists>s'. process_exec (OpAbortFork t) s = Some s' \<and> proc_inv s'"
proof (cases "om_get (pg_pid_for_task s) t")
  case None
  then show ?thesis using inv by (simp add: detach_aborted_fork_def)
next
  case (Some pid)
  then obtain p where p: "pg_process s pid = Some p" using has_task_indexed(1) [OF inv] by blast
  have "pid = INIT_PID \<or> (\<forall>c q. pg_process s c = Some q \<longrightarrow> pc_parent q \<noteq> Some pid)" using a Some by simp
  from remove_process_eq [OF inv p this] show ?thesis
    using Some p inv by (auto simp: detach_aborted_fork_def)
qed

lemma reap_inv:
  assumes inv: "proc_inv s"
  shows "\<exists>s'. process_exec (OpReap pid) s = Some s' \<and> proc_inv s'"
proof (cases "\<exists>p. pg_process s pid = Some p \<and> is_pexited (pc_state p)")
  case True
  then show ?thesis using detach_exited_eq [OF inv] by fastforce
next
  case False
  then have "detach_exited_process pid s = Some (None, s)"
    by (intro detach_exited_none) (cases "pg_process s pid"; auto)
  then show ?thesis using inv by simp
qed

lemma process_exec_inv:
  assumes inv: "proc_inv s" and a: "process_allowed op s"
  shows "kept (process_exec op s) \<and> (ids_left op s \<longrightarrow> process_exec op s \<noteq> None)"
proof (cases op)
  case (OpExitTask t c)
  then show ?thesis using mark_task_exited_inv [OF inv, of t c] by (auto simp: kept_def)
next
  case (OpExitProcess pid c)
  then show ?thesis using mark_process_exited_inv [OF inv, of pid c] by (auto simp: kept_def)
next
  case (OpRetain pid t)
  have "\<exists>s'. process_exec op s = Some s' \<and> proc_inv s'"
    using retain_inv [OF inv, of pid t] a unfolding OpRetain by blast
  then show ?thesis by (auto simp: kept_def)
next
  case (OpTakeMembers pid)
  then show ?thesis using take_members_inv [OF inv, of pid] by (auto simp: kept_def)
next
  case (OpAbortFork t)
  have "\<exists>s'. process_exec op s = Some s' \<and> proc_inv s'"
    using abort_fork_inv [OF inv, of t] a unfolding OpAbortFork by blast
  then show ?thesis by (auto simp: kept_def)
next
  case (OpAbortClone t)
  have "\<exists>s'. process_exec op s = Some s' \<and> proc_inv s'"
    using abort_clone_inv [OF inv, of t] a unfolding OpAbortClone by blast
  then show ?thesis by (auto simp: kept_def)
next
  case (OpReap pid)
  then show ?thesis using reap_inv [OF inv, of pid] by (auto simp: kept_def)
next
  case (OpCreate t parent x)
  then show ?thesis using create_inv [OF inv, of t parent x] a by auto
next
  case (OpFork src cp st ct x)
  then show ?thesis using proc_fork_inv [OF inv, of src cp st ct x] by auto
next
  case (OpClone pid pt t flags tls ct)
  then show ?thesis using clone_inv [OF inv, of pid pt t flags tls ct] a by auto
qed (simp_all add: kept_def attr_ops_inv [OF inv] modify_task_ops_inv [OF inv] job_control_inv [OF inv]
    set_subreaper_inv [OF inv] proc_inv_clear)

text \<open>An operation does not return exactly when the search for its id does not end.\<close>

lemma create_none:
  "proc_inv s \<Longrightarrow> create_process_for_task t parent a s = None \<longleftrightarrow> om_get (pg_pid_for_task s) t = None \<and> \<not> free_pid s"
  by (rule create_process_for_task_cases [of s t parent a]) (auto simp: fresh_pid_def free_pid_def)

lemma fork_none:
  assumes inv: "proc_inv s"
  shows "create_process_like_fork_with_parent src cp st ct a s = None \<longleftrightarrow> draws_id (OpFork src cp st ct a) s \<and> \<not> free_pid s"
  using create_none [OF inv, of ct "Some cp" a]
  by (auto simp: create_process_like_fork_with_parent_def split: option.splits sum.splits)

lemma clone_none:
  assumes inv: "proc_inv s"
  shows "add_task_to_process pid pt t flags tls ct s = None \<longleftrightarrow> om_get (pg_pid_for_task s) t = None \<and> \<not> free_tid s"
proof (rule add_task_cases [OF inv, of pid pt t flags tls ct])
  assume "add_task_to_process pid pt t flags tls ct s = None" "\<not> free_tid s"
  moreover from this have "om_get (pg_pid_for_task s) t = None"
    by (auto simp: add_task_to_process_def split: if_splits)
  ultimately show ?thesis by simp
qed (auto simp: fresh_tid_def free_tid_def)

lemma process_exec_none:
  assumes inv: "proc_inv s" and a: "process_allowed op s"
  shows "process_exec op s = None \<longleftrightarrow> draws_id op s \<and> \<not> ids_left op s"
proof (cases op)
  case (OpCreate t parent x)
  then show ?thesis using create_none [OF inv, of t parent x] by simp
next
  case (OpFork src cp st ct x)
  then show ?thesis using fork_none [OF inv, of src cp st ct x] by simp
next
  case (OpClone pid pt t flags tls ct)
  then show ?thesis using clone_none [OF inv, of pid pt t flags tls ct] by simp
qed (use process_exec_inv [OF inv a] in simp_all)

text \<open>That takes as many ids in use as there are ids from the counter on.\<close>

lemma used_ids:
  assumes "\<And>m. n \<le> m \<Longrightarrow> m \<le> usize_max \<Longrightarrow> om_get ps m \<noteq> None \<or> om_get ts m \<noteq> None"
  shows "usize_max < n + length ps + length ts"
proof -
  have "{n..usize_max} \<subseteq> fst ` set ps \<union> fst ` set ts"
    using assms by (fastforce simp: om_get_def dest!: map_of_SomeD intro: rev_image_eqI)
  from card_mono [OF _ this] have "card {n..usize_max} \<le> card (fst ` set ps \<union> fst ` set ts)" by simp
  also have "\<dots> \<le> card (fst ` set ps) + card (fst ` set ts)" by (rule card_Un_le)
  also have "\<dots> \<le> length ps + length ts"
    by (intro add_mono order_trans [OF card_image_le card_length]) simp_all
  finally show ?thesis by (simp del: card_atLeastAtMost add: card_atLeastAtMost [of n usize_max])
qed

lemma ids_left_room:
  "\<not> ids_left op s \<Longrightarrow>
   usize_max < max (pg_next_pid s) (pg_next_tid s) + length (pg_processes s) + length (pg_task_for_thread s)"
proof -
  assume n: "\<not> ids_left op s"
  then consider "\<not> free_pid s" | "\<not> free_tid s" by (cases op) auto
  then show ?thesis
  proof cases
    case 1
    then have "usize_max < pg_next_pid s + length (pg_processes s) + length (pg_task_for_thread s)"
      by (intro used_ids) (auto simp: free_pid_def pg_process_def)
    then show ?thesis by simp
  next
    case 2
    then have "usize_max < pg_next_tid s + length (pg_processes s) + length (pg_task_for_thread s)"
      by (intro used_ids) (auto simp: free_tid_def)
    then show ?thesis by simp
  qed
qed

lemma process_reach_inv: "process_reach s \<Longrightarrow> proc_inv s"
proof (induction rule: process_reach.induct)
  case start
  show ?case by (rule proc_inv_new)
next
  case (run s op s')
  then show ?case using process_exec_inv [OF run.IH, of op] by (auto simp: kept_def elim!: process_stepE)
qed

lemma process_reach_exec:
  "process_reach s \<Longrightarrow> process_allowed op s \<Longrightarrow> process_exec op s = Some s' \<Longrightarrow> process_reach s'"
  by (rule process_reach.run [OF _ process_step.step])

end
