(* ===== verification/Process_Props.thy ===== *)
theory Process_Props
  imports Process_System
begin

text \<open>
  What the process registry promises in every state its operations can reach: no failed assertion and
  no endless loop, mirrored tables, exact fork, exit, adoption and reaping, and the barrier of exec.
\<close>

section \<open>A state to apply the theorems at\<close>

text \<open>
  Init is process 1 (task 10). Process 2 (task 20) is a subreaper; its child, process 3, has the
  threads 30 and 31; thread 31, whose tid is 4, forked process 5 (task 40), which asked for signal 12 on its death.
\<close>

definition demo_ops :: "process_op list" where
  "demo_ops =
     [OpCreate 10 None None, OpCreate 20 (Some 1) None, OpSubreaper 2 True, OpFork 2 2 20 30 None,
      OpClone 3 30 31 0 0 None, OpFork 3 3 31 40 None, OpDeathSignal 5 12]"

fun process_run :: "process_op list \<Rightarrow> process_registry \<Rightarrow> process_registry option" where
  "process_run [] s = Some s"
| "process_run (op # ops) s =
     (if process_allowed op s then Option.bind (process_exec op s) (process_run ops) else None)"

definition demo_procs :: process_registry where
  "demo_procs = (case process_run demo_ops pg_new of Some s \<Rightarrow> s | None \<Rightarrow> pg_new)"

lemma process_run_reach: "process_reach s \<Longrightarrow> process_run ops s = Some s' \<Longrightarrow> process_reach s'"
  by (induction ops arbitrary: s) (auto simp: bind_eq_Some_conv split: if_splits intro: process_reach_exec)

lemma demo_procs_reach: "process_reach demo_procs"
  unfolding demo_procs_def
  by (cases "process_run demo_ops pg_new") (auto intro: process_run_reach [OF process_reach.start] process_reach.start)

lemmas process_eval = demo_procs_def demo_ops_def pg_new_def create_process_for_task_def alloc_pid_def
  alloc_pid_loop.simps alloc_tid_def alloc_tid_loop.simps insert_process_def pg_process_def om_insert_def om_get_def
  new_process_task_def sat_add_def usize_max_def pg_update_def pg_modify_def set_process_child_subreaper_def
  create_process_like_fork_with_parent_def inherit_fork_def add_task_to_process_def cloned_task_def
  clone_flags_contains_def CLONE_SETTLS_def set_parent_death_signal_def runs_in_def Let_def

lemma demo_run: "process_run demo_ops pg_new \<noteq> None"
  by (simp add: process_eval)

lemma demo_lookup:
  "map fst (pg_processes demo_procs) = [1, 2, 3, 5]"
  "map_option pc_parent (pg_process demo_procs 5) = Some (Some 3)"
  "map_option pc_parent (pg_process demo_procs 3) = Some (Some 2)"
  "map_option (map fst \<circ> pc_tasks) (pg_process demo_procs 3) = Some [30, 31]"
  "pg_pid_for_task demo_procs = [(10, 1), (20, 2), (30, 3), (31, 3), (40, 5)]"
  "pg_task_for_thread demo_procs = [(1, 10), (2, 20), (3, 30), (4, 31), (5, 40)]"
  by (simp_all add: process_eval)

section \<open>No panic\<close>

text \<open>
  C31. No panic. In every state that the operations reach from the empty registry, in any order and
  under the guarantees of \<open>process_allowed\<close> that the callers give, an operation fails to return
  exactly when it passes its checks, draws an id and finds none: no assertion on the indexes fails,
  and the walk over the ancestors ends. The search for an id then runs forever (the counter
  saturates); that takes so many processes and threads that their number and the larger counter
  together exceed the range of \<open>usize\<close>.
\<close>

theorem process_table_total:
  assumes "process_reach s" and "process_allowed op s"
  shows "(process_exec op s = None \<longleftrightarrow> draws_id op s \<and> \<not> ids_left op s) \<and>
    (process_exec op s = None \<longrightarrow>
      usize_max < max (pg_next_pid s) (pg_next_tid s) + length (pg_processes s) + length (pg_task_for_thread s))"
  using process_exec_none [OF process_reach_inv [OF assms(1)] assms(2)] ids_left_room by blast

theorem process_table_total_witness:
  "process_exec (OpClone 3 31 32 0 0 None) demo_procs \<noteq> None"
proof -
  have a: "process_allowed (OpClone 3 31 32 0 0 None) demo_procs" by (simp add: process_eval)
  have "max (pg_next_pid demo_procs) (pg_next_tid demo_procs) + length (pg_processes demo_procs) +
      length (pg_task_for_thread demo_procs) \<le> usize_max"
    by (simp add: process_eval usize_max_def)
  then show ?thesis using process_table_total [OF demo_procs_reach a] by (metis not_le)
qed

section \<open>Consistent tables\<close>

text \<open>
  C32. Consistent tables. In every reachable state the task index and the thread index hold exactly
  the threads of the processes; a control block is filed under its pid, its leader is one of its
  threads, its state is Exited exactly when every thread has exited, and every exited member waits to
  be released; a parent is older than its child and exists, unless it is init; and the counter that
  decides the fast path of adoption never falls below the number of subreapers.
\<close>

theorem process_tables_consistent:
  assumes "process_reach s"
  shows "(\<forall>t pid. om_get (pg_pid_for_task s) t = Some pid \<longleftrightarrow>
       (\<exists>p k. pg_process s pid = Some p \<and> om_get (pc_tasks p) t = Some k)) \<and>
    (\<forall>tid t. om_get (pg_task_for_thread s) tid = Some t \<longleftrightarrow>
       (\<exists>pid p k. pg_process s pid = Some p \<and> om_get (pc_tasks p) t = Some k \<and> pk_tid k = tid)) \<and>
    (\<forall>pid p. pg_process s pid = Some p \<longrightarrow> pc_pid p = pid \<and> om_get (pc_tasks p) (pc_leader p) \<noteq> None \<and>
       (is_pexited (pc_state p) \<longleftrightarrow> (\<forall>t k. om_get (pc_tasks p) t = Some k \<longrightarrow> is_texited (pk_state k))) \<and>
       (\<forall>t k. om_get (pc_tasks p) t = Some k \<and> is_texited (pk_state k) \<and> t \<noteq> pc_leader p \<longrightarrow> t \<in> set (pc_exited_members p)) \<and>
       (\<forall>q. pc_parent p = Some q \<longrightarrow> q < pid \<and> (q = INIT_PID \<or> process_exists s q))) \<and>
    card {pid. \<exists>p. pg_process s pid = Some p \<and> pc_subreaper p} \<le> pg_subreapers s"
proof -
  have inv: "proc_inv s" by (rule process_reach_inv [OF assms])
  have pc: "pc_pid p = pid \<and> om_get (pc_tasks p) (pc_leader p) \<noteq> None \<and>
       (is_pexited (pc_state p) \<longleftrightarrow> (\<forall>t k. om_get (pc_tasks p) t = Some k \<longrightarrow> is_texited (pk_state k))) \<and>
       (\<forall>t k. om_get (pc_tasks p) t = Some k \<and> is_texited (pk_state k) \<and> t \<noteq> pc_leader p \<longrightarrow> t \<in> set (pc_exited_members p)) \<and>
       (\<forall>q. pc_parent p = Some q \<longrightarrow> q < pid \<and> (q = INIT_PID \<or> process_exists s q))"
    if p: "pg_process s pid = Some p" for pid p
  proof -
    have ok: "pcb_ok pid p" by (rule proc_inv_pcb [OF inv p])
    then have m: "om_ok (pc_tasks p)" by (simp add: pcb_ok_def)
    show ?thesis
      using ok parent_exists [OF inv p]
      unfolding all_texited_iff [OF m, symmetric] by (auto simp: pcb_ok_def exits_queued_def process_exists_def)
  qed
  show ?thesis
    using has_task_indexed [OF inv] pc proc_inv_parts(4) [OF inv] unfolding subreaper_pids_def by blast
qed

theorem process_tables_consistent_witness:
  "card {pid. \<exists>p. pg_process demo_procs pid = Some p \<and> pc_subreaper p} \<le> pg_subreapers demo_procs \<and>
   (\<exists>p k. pg_process demo_procs 3 = Some p \<and> om_get (pc_tasks p) 31 = Some k)"
proof -
  have "om_get (pg_pid_for_task demo_procs) 31 = Some 3" by (simp add: demo_lookup om_get_def)
  then show ?thesis using process_tables_consistent [OF demo_procs_reach] by blast
qed

section \<open>Orphans\<close>

text \<open>
  C33. Orphans go to the nearest living subreaper. In a reachable state the children of a process
  that ends, init apart, and no others get a new parent: the nearest ancestor that is a subreaper and
  neither exiting nor exited, and init when no ancestor is one (whether the walk or its fast path
  decided); the new parent is also what their parent-death signal watches from then on.
\<close>

theorem orphans_adopted:
  assumes "process_reach s" and "pg_process s pid = Some p"
  shows "\<exists>s' q. reparent_orphans pid s = Some s' \<and>
    (if \<exists>a. ancestor s pid a \<and> living_subreaper s a
     then ancestor s pid q \<and> living_subreaper s q \<and> (\<forall>a. ancestor s pid a \<and> living_subreaper s a \<longrightarrow> a \<le> q)
     else q = INIT_PID) \<and>
    (\<forall>c. pg_process s' c =
       (case pg_process s c of
          None \<Rightarrow> None
        | Some x \<Rightarrow> Some (if pid \<noteq> INIT_PID \<and> pc_parent x = Some pid
                         then x\<lparr>pc_parent := Some q, pc_death_source := Some (SourceProcess q)\<rparr> else x)))"
proof -
  have inv: "proc_inv s" by (rule process_reach_inv [OF assms(1)])
  have "if \<exists>a. ancestor s pid a \<and> living_subreaper s a
     then ancestor s pid (reaper_of s pid) \<and> living_subreaper s (reaper_of s pid) \<and>
       (\<forall>a. ancestor s pid a \<and> living_subreaper s a \<longrightarrow> a \<le> reaper_of s pid)
     else reaper_of s pid = INIT_PID"
    using reaper_of_props [OF inv assms(2)] by (auto simp: nearest_reaper_def)
  moreover have "pg_process (adopted pid s) c =
       (case pg_process s c of
          None \<Rightarrow> None
        | Some x \<Rightarrow> Some (if pid \<noteq> INIT_PID \<and> pc_parent x = Some pid
                         then x\<lparr>pc_parent := Some (reaper_of s pid), pc_death_source := Some (SourceProcess (reaper_of s pid))\<rparr>
                         else x))" for c
    unfolding adopted_props(2) [OF inv assms(2)] adopt_def by (simp split: option.splits)
  ultimately show ?thesis using reparent_orphans_eq [OF inv assms(2)] by blast
qed

theorem orphans_adopted_witness:
  "\<exists>s' q x. reparent_orphans 3 demo_procs = Some s' \<and> ancestor demo_procs 3 q \<and> living_subreaper demo_procs q \<and>
     pg_process s' 5 = Some x \<and> pc_parent x = Some q"
proof -
  obtain p where p: "pg_process demo_procs 3 = Some p" "pc_parent p = Some 2" by (simp add: process_eval)
  obtain x where x: "pg_process demo_procs 5 = Some x" "pc_parent x = Some 3" by (simp add: process_eval)
  have "ancestor demo_procs 3 2" by (rule ancestor.parent [OF p])
  moreover have "living_subreaper demo_procs 2" by (simp add: living_subreaper_def process_eval)
  ultimately show ?thesis
    using orphans_adopted [OF demo_procs_reach p(1)] x by (auto simp: INIT_PID_def split: if_splits)
qed

section \<open>Fork\<close>

text \<open>
  C34. Fork. In a reachable state a fork fails, leaving the registry as it was, exactly when the
  source or the named parent does not exist, the source has no such thread, or the child's task is
  registered already; otherwise, when it returns, the new pid is unused as pid and as tid and above every
  pid in the table, the child has one runnable thread that bears the pid as its tid and the name of
  the forking thread, it takes over the group, the session, the limits, the umask, the capabilities and
  the dumpable mark, and starts with no parent-death signal, no subreaper mark and zero I/O counts,
  bound to the forking thread; the indexes name it, and every other process is as it was.
\<close>

theorem fork_correct:
  assumes "process_reach s"
    and "create_process_like_fork_with_parent src cp st ct a s = Some (r, s')"
  shows "case r of
      Inl e \<Rightarrow> s' = s \<and> (pg_process s src = None \<or> pg_process s cp = None \<or>
        (\<exists>p. pg_process s src = Some p \<and> om_get (pc_tasks p) st = None) \<or> om_get (pg_pid_for_task s) ct \<noteq> None)
    | Inr pid \<Rightarrow>
        pg_process s pid = None \<and> om_get (pg_task_for_thread s) pid = None \<and>
        (\<forall>i. pg_process s i \<noteq> None \<longrightarrow> i < pid) \<and> om_get (pg_pid_for_task s) ct = None \<and>
        pg_process s cp \<noteq> None \<and>
        (\<forall>i. i \<noteq> pid \<longrightarrow> pg_process s' i = pg_process s i) \<and>
        om_get (pg_pid_for_task s') ct = Some pid \<and> om_get (pg_task_for_thread s') pid = Some ct \<and>
        (\<exists>p k c. pg_process s src = Some p \<and> om_get (pc_tasks p) st = Some k \<and> pg_process s' pid = Some c \<and>
           pc_parent c = Some cp \<and> pc_leader c = ct \<and> pc_state c = PRunning \<and> pc_aspace c = a \<and>
           pc_tasks c = [(ct, (new_process_task pid)\<lparr>pk_comm := pk_comm k\<rparr>)] \<and>
           pc_pgid c = pc_pgid p \<and> pc_sid c = pc_sid p \<and> pc_rlimits c = pc_rlimits p \<and> pc_umask c = pc_umask p \<and>
           pc_caps c = pc_caps p \<and> pc_keep_caps c = pc_keep_caps p \<and> pc_dumpable c = pc_dumpable p \<and>
           pc_death_source c = Some (SourceTask st) \<and> pc_death_signal c = 0 \<and> \<not> pc_subreaper c \<and>
           pc_io c = io_default \<and> \<not> pc_exec c)"
proof -
  have inv: "proc_inv s" by (rule process_reach_inv [OF assms(1)])
  show ?thesis
  proof (rule fork_cases [OF inv, of src cp st ct a])
    fix e assume "create_process_like_fork_with_parent src cp st ct a s = Some (Inl e, s)"
      "pg_process s src = None \<and> e = ProcessNotFound \<or> pg_process s cp = None \<and> e = ProcessNotFound \<or>
       (\<exists>p. pg_process s src = Some p \<and> om_get (pc_tasks p) st = None \<and> e = TaskNotFound) \<or>
       om_get (pg_pid_for_task s) ct \<noteq> None \<and> e = InvalidArgument"
    then show ?thesis using assms(2) by auto
  next
    assume "create_process_like_fork_with_parent src cp st ct a s = None"
    then show ?thesis using assms(2) by simp
  next
    fix pid p and k :: process_task
    assume c: "create_process_like_fork_with_parent src cp st ct a s = Some (Inr pid, forked pid p st k cp ct a s)"
      "pg_process s src = Some p" "om_get (pc_tasks p) st = Some k" "pg_process s cp \<noteq> None"
      "om_get (pg_pid_for_task s) ct = None" "fresh_pid s pid"
    have r: "r = Inr pid" "s' = forked pid p st k cp ct a s" using c(1) assms(2) by auto
    note g = forked_get [OF inv, of pid p st k cp ct a]
    have "i < pid" if "pg_process s i \<noteq> None" for i by (rule fresh_pid_above [OF inv c(6) that])
    moreover have "om_get (pg_pid_for_task s') ct = Some pid" "om_get (pg_task_for_thread s') pid = Some ct"
      using proc_inv_parts(2) [OF inv] unfolding r(2) forked_def created_def by (simp_all add: indexed_def om_get_insert)
    moreover have "pg_process s pid = None" "om_get (pg_task_for_thread s) pid = None"
      using c(6) by (simp_all add: fresh_pid_def)
    ultimately show ?thesis
      using c(2,3,4,5) unfolding r g by (simp add: inherit_fork_def new_pcb_def om_insert_def om_get_def)
  qed
qed

theorem fork_correct_witness:
  "\<exists>pid s' c. create_process_like_fork_with_parent 3 2 30 50 None demo_procs = Some (Inr pid, s') \<and>
     pg_process s' pid = Some c \<and> pc_parent c = Some 2 \<and> pc_leader c = 50"
proof -
  obtain s' where s': "create_process_like_fork_with_parent 3 2 30 50 None demo_procs = Some (Inr 6, s')"
    by (simp add: process_eval)
  from fork_correct [OF demo_procs_reach this] show ?thesis using s' by auto
qed

section \<open>Exits\<close>

lemma owed_exit:
  assumes inv: "proc_inv s"
  shows "owed (exit_thread_state pid t k c s) src n \<longleftrightarrow> owed s src n \<and> src \<noteq> SourceTask t"
proof -
  note g = pg_update_get [OF proc_inv_parts(1) [OF take_death_notices_inv [OF inv, of "SourceTask t"]], of pid "thread_exits t k c"]
  show ?thesis
    unfolding owed_after [symmetric] unfolding exit_thread_state_def owed_def g by (auto split: if_splits)
qed

lemma owed_adopted:
  assumes "proc_inv s" "pg_process s pid = Some p" "owed (adopted pid s) (SourceTask t) n"
  shows "owed s (SourceTask t) n"
  using assms(3) unfolding owed_def adopted_props(2) [OF assms(1,2)] by (auto split: if_splits)

lemma exit_thread_get:
  assumes inv: "proc_inv s" and p: "pg_process s pid = Some p"
  shows "pg_process (exit_thread_state pid t k c s) pid = Some (thread_exits t k c (cleared (SourceTask t) p))"
  unfolding exit_thread_state_def pg_update_get [OF proc_inv_parts(1) [OF take_death_notices_inv [OF inv]]]
  using p by (simp add: take_death_notices_get)

lemma exit_state_eq:
  assumes "om_ok (pc_tasks p)"
  shows "pc_state (thread_exits t k c p) =
    (if \<forall>t' k'. om_get (pc_tasks p) t' = Some k' \<and> t' \<noteq> t \<longrightarrow> is_texited (pk_state k') then PExited c else pc_state p)"
proof -
  have "all_texited (p\<lparr>pc_tasks := om_insert t (k\<lparr>pk_state := TExited c\<rparr>) (pc_tasks p)\<rparr>) \<longleftrightarrow>
      (\<forall>t' k'. om_get (pc_tasks p) t' = Some k' \<and> t' \<noteq> t \<longrightarrow> is_texited (pk_state k'))"
    using assms by (auto simp: all_texited_iff om_ok_insert om_get_insert)
  then show ?thesis unfolding thread_exits_state by simp
qed

text \<open>
  C35. The exit of a thread. In a reachable state the exit of a registered thread changes no other
  thread; the process is exited with this code exactly when no other thread is left, else its state
  stays; the call reports completion exactly when this exit is what ended the process; the notices name,
  once each, exactly the processes that asked for a signal on the death of this thread (and, on
  completion, of the process), nobody is left waiting for this thread's death, and after completion no
  process but init keeps children.
\<close>

theorem thread_exit_correct:
  assumes "process_reach s" and "pg_process s pid = Some p" and "om_get (pc_tasks p) t = Some k"
  shows "\<exists>x s' p'. mark_task_exited t c s = Some (Inr x, s') \<and> pg_process s' pid = Some p' \<and>
    om_get (pc_tasks p') = (om_get (pc_tasks p))(t \<mapsto> k\<lparr>pk_state := TExited c\<rparr>) \<and>
    pc_state p' = (if \<forall>t' k'. om_get (pc_tasks p) t' = Some k' \<and> t' \<noteq> t \<longrightarrow> is_texited (pk_state k')
                   then PExited c else pc_state p) \<and>
    (xr_completed x \<longleftrightarrow> \<not> is_pexited (pc_state p) \<and> is_pexited (pc_state p')) \<and>
    set (xr_notices x) = {n. owed s (SourceTask t) n \<or> xr_completed x \<and> owed s (SourceProcess pid) n} \<and>
    distinct (map dn_pid (xr_notices x)) \<and> (\<forall>n. \<not> owed s' (SourceTask t) n) \<and>
    (xr_completed x \<and> pid \<noteq> INIT_PID \<longrightarrow> (\<forall>i q. pg_process s' i = Some q \<longrightarrow> pc_parent q \<noteq> Some pid))"
proof -
  have inv: "proc_inv s" by (rule process_reach_inv [OF assms(1)])
  have ok: "om_ok (pc_tasks p)" using proc_inv_pcb [OF inv assms(2)] by (simp add: pcb_ok_def)
  have np: "pc_parent p \<noteq> Some pid" using proc_inv_pcb [OF inv assms(2)] by (auto simp: pcb_ok_def)
  note ix = task_indexed [OF inv assms(2,3)]
  let ?cp = "cleared (SourceTask t) p"
  let ?e = "exit_thread_state pid t k c s"
  let ?p1 = "thread_exits t k c ?cp"
  note pe = exit_thread_get [OF inv assms(2), of t k c]
  have st: "pc_state ?p1 = pc_state (thread_exits t k c p)"
  proof -
    have "om_ok (pc_tasks ?cp)" using ok by simp
    then show ?thesis unfolding exit_state_eq [OF ok] by (subst exit_state_eq) auto
  qed
  have tasks: "om_get (pc_tasks ?p1) = (om_get (pc_tasks p))(t \<mapsto> k\<lparr>pk_state := TExited c\<rparr>)"
    by (simp add: om_get_insert [OF ok])
  note nt = take_death_notices_mem(1) [OF inv, of _ "SourceTask t"] take_death_notices_mem(2) [OF inv, of "SourceTask t"]
  show ?thesis
  proof (rule mark_task_exited_cases [OF inv, of t c])
    assume "om_get (pg_pid_for_task s) t = None"
    then show ?thesis using ix by simp
  next
    fix pid' p' and k' :: process_task
    assume m: "pg_process s pid' = Some p'" "om_get (pc_tasks p') t = Some k'"
      "is_pexited (pc_state p') \<or> \<not> is_pexited (pc_state (thread_exits t k' c p'))"
      "mark_task_exited t c s = Some (Inr \<lparr>xr_completed = False,
         xr_notices = fst (take_death_notices (SourceTask t) s)\<rparr>, exit_thread_state pid' t k' c s)"
    have same: "pid' = pid" "p' = p" "k' = k"
      using task_indexed [OF inv m(1,2)] ix m(1,2) assms(2,3) by auto
    have "\<not> owed ?e (SourceTask t) n" for n unfolding owed_exit [OF inv] by simp
    then show ?thesis
      using m(3,4) pe st tasks nt exit_state_eq [OF ok, of t k c] unfolding same by auto
  next
    fix pid' p' and k' :: process_task
    assume m: "pg_process s pid' = Some p'" "om_get (pc_tasks p') t = Some k'"
      "\<not> is_pexited (pc_state p')" "is_pexited (pc_state (thread_exits t k' c p'))"
      "mark_task_exited t c s = Some (Inr \<lparr>xr_completed = True,
         xr_notices = fst (take_death_notices (SourceTask t) s) @
           fst (take_death_notices (SourceProcess pid') (exit_thread_state pid' t k' c s))\<rparr>,
         adopted pid' (snd (take_death_notices (SourceProcess pid') (exit_thread_state pid' t k' c s))))"
      "proc_inv (exit_thread_state pid' t k' c s)"
    have same: "pid' = pid" "p' = p" "k' = k"
      using task_indexed [OF inv m(1,2)] ix m(1,2) assms(2,3) by auto
    note m = m [unfolded same]
    let ?d = "snd (take_death_notices (SourceProcess pid) ?e)"
    let ?q = "cleared (SourceProcess pid) ?p1"
    note i3 = take_death_notices_inv [OF m(6), of "SourceProcess pid"]
    have pd: "pg_process ?d pid = Some ?q" using pe by (simp add: take_death_notices_get)
    have pa: "pg_process (adopted pid ?d) pid = Some ?q"
      unfolding adopted_props(2) [OF i3 pd] using pd np by simp
    have no: "\<not> owed (adopted pid ?d) (SourceTask t) n" for n
      using owed_adopted [OF i3 pd, of t n] unfolding owed_after owed_exit [OF inv] by blast
    note np2 = take_death_notices_mem(1) [OF m(6), of _ "SourceProcess pid"] take_death_notices_mem(2) [OF m(6), of "SourceProcess pid"]
    have notices: "set (fst (take_death_notices (SourceTask t) s) @ fst (take_death_notices (SourceProcess pid) ?e)) =
        {n. owed s (SourceTask t) n \<or> owed s (SourceProcess pid) n}"
      using nt(1) np2(1) owed_exit [OF inv] by auto
    have dist: "distinct (map dn_pid (fst (take_death_notices (SourceTask t) s) @ fst (take_death_notices (SourceProcess pid) ?e)))"
    proof -
      have "dn_pid ` set (fst (take_death_notices (SourceTask t) s)) \<inter>
          dn_pid ` set (fst (take_death_notices (SourceProcess pid) ?e)) = {}"
        using nt(1) np2(1) owed_exit [OF inv] owed_unique by fastforce
      then show ?thesis using nt(2) np2(2) by simp
    qed
    have kids: "pid \<noteq> INIT_PID \<longrightarrow> (\<forall>i q. pg_process (adopted pid ?d) i = Some q \<longrightarrow> pc_parent q \<noteq> Some pid)"
      using adopted_no_child [OF i3 pd] by blast
    let ?x = "\<lparr>xr_completed = True, xr_notices = fst (take_death_notices (SourceTask t) s) @
           fst (take_death_notices (SourceProcess pid) ?e)\<rparr>"
    have sq: "pc_state ?q = (if \<forall>t' k'. om_get (pc_tasks p) t' = Some k' \<and> t' \<noteq> t \<longrightarrow> is_texited (pk_state k')
        then PExited c else pc_state p)" "pc_tasks ?q = pc_tasks ?p1"
      using st exit_state_eq [OF ok, of t k c] by simp_all
    have cm: "is_pexited (pc_state ?q)" using m(4) st by simp
    show ?thesis
      by (rule exI [of _ ?x], rule exI [of _ "adopted pid ?d"], rule exI [of _ ?q])
        (use m(3,5) pa tasks sq cm notices dist no kids in simp)
  qed
qed

theorem thread_exit_correct_witness:
  "\<exists>x s'. mark_task_exited 31 9 demo_procs = Some (Inr x, s') \<and> \<not> xr_completed x \<and>
     \<lparr>dn_pid = 5, dn_signal = 12\<rparr> \<in> set (xr_notices x)"
proof -
  obtain p k where p: "pg_process demo_procs 3 = Some p" "om_get (pc_tasks p) 31 = Some k" "\<exists>j. om_get (pc_tasks p) 30 = Some j \<and> \<not> is_texited (pk_state j)"
    "pc_state p = PRunning"
    by (simp add: process_eval)
  have "owed demo_procs (SourceTask 31) \<lparr>dn_pid = 5, dn_signal = 12\<rparr>"
    by (simp add: owed_def process_eval)
  moreover obtain x s' and p' :: pcb where x: "mark_task_exited 31 9 demo_procs = Some (Inr x, s')"
    "pc_state p' = (if \<forall>t' k'. om_get (pc_tasks p) t' = Some k' \<and> t' \<noteq> 31 \<longrightarrow> is_texited (pk_state k') then PExited 9 else pc_state p)"
    "xr_completed x \<longleftrightarrow> \<not> is_pexited (pc_state p) \<and> is_pexited (pc_state p')"
    "set (xr_notices x) = {n. owed demo_procs (SourceTask 31) n \<or> xr_completed x \<and> owed demo_procs (SourceProcess 3) n}"
    using thread_exit_correct [OF demo_procs_reach p(1,2), of 9] by blast
  moreover have "\<not> (\<forall>t' k'. om_get (pc_tasks p) t' = Some k' \<and> t' \<noteq> 31 \<longrightarrow> is_texited (pk_state k'))"
    using p(3) by (auto intro!: exI [of _ "30 :: nat"])
  ultimately show ?thesis using p(4) by auto
qed

text \<open>
  The exit of a process. In a reachable state \<open>exit_group\<close> on a process that is neither exiting
  nor exited marks it exiting, not exited, since its threads still run; it leaves them as they are,
  hands its children over (init keeps its own), and returns, once each, exactly the processes that asked
  for a signal on the death of one of its threads or of the process. A second call changes and returns
  nothing, and no parent can reap the process yet.
\<close>

theorem group_exit_correct:
  assumes "process_reach s" and "pg_process s pid = Some p"
    and "\<not> is_pexiting (pc_state p)" and "\<not> is_pexited (pc_state p)"
  shows "\<exists>ns s' p'. mark_process_exited pid c s = Some (Inr ns, s') \<and> pg_process s' pid = Some p' \<and>
    pc_state p' = PExiting c \<and> pc_tasks p' = pc_tasks p \<and>
    set ns = {n. owed s (SourceProcess pid) n \<or> (\<exists>t k. om_get (pc_tasks p) t = Some k \<and> owed s (SourceTask t) n)} \<and>
    distinct (map dn_pid ns) \<and>
    (pid \<noteq> INIT_PID \<longrightarrow> (\<forall>i q. pg_process s' i = Some q \<longrightarrow> pc_parent q \<noteq> Some pid)) \<and>
    mark_process_exited pid c' s' = Some (Inr [], s') \<and> detach_exited_process pid s' = Some (None, s')"
proof -
  have inv: "proc_inv s" by (rule process_reach_inv [OF assms(1)])
  have pk: "pcb_ok pid p" by (rule proc_inv_pcb [OF inv assms(2)])
  then have ok: "om_ok (pc_tasks p)" and np: "pc_parent p \<noteq> Some pid" and run: "\<not> all_texited p"
    using assms(4) by (auto simp: pcb_ok_def)
  let ?srcs = "exit_sources pid p"
  let ?d = "snd (take_all_death_notices ?srcs s)" and ?ns = "fst (take_all_death_notices ?srcs s)"
  let ?s = "process_exit_state pid c p s"
  note d = take_all_death_notices_props [OF inv, of ?srcs]
  have pd: "pg_process ?d pid = Some (all_cleared ?srcs p)" using assms(2) d(2) by simp
  have tk: "pc_tasks (all_cleared ?srcs p) = pc_tasks p" "pc_parent (all_cleared ?srcs p) = pc_parent p"
    by (simp_all add: all_cleared_def)
  note a = adopted_props [OF d(1) pd]
  have g: "pg_process ?s = (pg_process (adopted pid ?d))(pid \<mapsto> process_exits c (all_cleared ?srcs p))"
    unfolding process_exit_state_def pg_update_get [OF proc_inv_parts(1) [OF a(1)]] a(2) using pd np tk by simp
  have st: "pc_state (process_exits c (all_cleared ?srcs p)) = PExiting c"
    using run all_texited_tasks [OF tk(1)] by simp
  have keys: "fst ` set (pc_tasks p) = {t. \<exists>k. om_get (pc_tasks p) t = Some k}"
    by (force simp: om_get_iff [OF ok])
  have "set ?srcs = insert (SourceProcess pid) (SourceTask ` (fst ` set (pc_tasks p)))"
    by (auto simp: exit_sources_def)
  then have src: "set ?srcs = insert (SourceProcess pid) (SourceTask ` {t. \<exists>k. om_get (pc_tasks p) t = Some k})"
    unfolding keys .
  have ns: "set ?ns = {n. owed s (SourceProcess pid) n \<or> (\<exists>t k. om_get (pc_tasks p) t = Some k \<and> owed s (SourceTask t) n)}"
    unfolding take_all_death_notices_mem(1) [OF inv] src by auto
  have kids: "pid \<noteq> INIT_PID \<longrightarrow> (\<forall>i q. pg_process ?s i = Some q \<longrightarrow> pc_parent q \<noteq> Some pid)"
    using adopted_no_child [OF d(1) pd] np tk unfolding g by auto
  show ?thesis
    by (rule exI [of _ ?ns], rule exI [of _ ?s], rule exI [of _ "process_exits c (all_cleared ?srcs p)"])
      (use mark_process_exited_eq(1) [OF inv assms(2-4)] g st tk ns kids take_all_death_notices_mem(2) [OF inv]
       in \<open>simp add: mark_process_exited_def detach_exited_process_def\<close>)
qed

theorem group_exit_correct_witness:
  "\<exists>ns s'. mark_process_exited 3 9 demo_procs = Some (Inr ns, s') \<and> \<lparr>dn_pid = 5, dn_signal = 12\<rparr> \<in> set ns \<and>
     mark_process_exited 3 9 s' = Some (Inr [], s')"
proof -
  obtain p k where p: "pg_process demo_procs 3 = Some p" "pc_state p = PRunning" "om_get (pc_tasks p) 31 = Some k"
    by (simp add: process_eval)
  have "owed demo_procs (SourceTask 31) \<lparr>dn_pid = 5, dn_signal = 12\<rparr>"
    by (simp add: owed_def process_eval)
  then show ?thesis using group_exit_correct [OF demo_procs_reach p(1), of 9 9] p(2,3) by fastforce
qed

section \<open>Reaping\<close>

text \<open>
  C36. Reaping happens once. In a reachable state the detachment for the parent succeeds exactly when
  every thread of the process has exited; it returns the process with its threads, removes it and all
  their index entries, leaves no child of it behind (init apart) and keeps every other process, and a
  second detachment finds nothing. When it fails, nothing changes.
\<close>

theorem reap_once:
  assumes "process_reach s"
  shows "\<exists>r s'. detach_exited_process pid s = Some (r, s') \<and>
    (r = None \<longleftrightarrow> \<not> (\<exists>p. pg_process s pid = Some p \<and>
       (\<forall>t k. om_get (pc_tasks p) t = Some k \<longrightarrow> is_texited (pk_state k)))) \<and>
    (r = None \<longrightarrow> s' = s) \<and>
    (\<forall>q. r = Some q \<longrightarrow>
       (\<exists>p. pg_process s pid = Some p \<and> pc_tasks q = pc_tasks p) \<and> pg_process s' pid = None \<and>
       (\<forall>t k. om_get (pc_tasks q) t = Some k \<longrightarrow>
          om_get (pg_pid_for_task s') t = None \<and> om_get (pg_task_for_thread s') (pk_tid k) = None) \<and>
       (\<forall>i. i \<noteq> pid \<longrightarrow> (pg_process s' i = None \<longleftrightarrow> pg_process s i = None)) \<and>
       (pid \<noteq> INIT_PID \<longrightarrow> (\<forall>i x. pg_process s' i = Some x \<longrightarrow> pc_parent x \<noteq> Some pid)) \<and>
       detach_exited_process pid s' = Some (None, s'))"
proof -
  have inv: "proc_inv s" by (rule process_reach_inv [OF assms])
  have ex: "is_pexited (pc_state p) \<longleftrightarrow> (\<forall>t k. om_get (pc_tasks p) t = Some k \<longrightarrow> is_texited (pk_state k))"
    if "pg_process s pid = Some p" for p
    using proc_inv_pcb [OF inv that] all_texited_iff [of p] by (auto simp: pcb_ok_def)
  show ?thesis
  proof (cases "\<exists>p. pg_process s pid = Some p \<and> is_pexited (pc_state p)")
    case True
    then obtain p where p: "pg_process s pid = Some p" "is_pexited (pc_state p)" by blast
    obtain s' q where d: "detach_exited_process pid s = Some (Some q, s')" "proc_inv s'"
      "pg_process (adopted pid s) pid = Some q" "pc_tasks q = pc_tasks p" "pg_process s' = (pg_process (adopted pid s))(pid := None)"
      using detach_exited_eq [OF inv p] by blast
    note a = adopted_props [OF inv p(1)]
    have gone: "om_get (pg_pid_for_task s') t = None \<and> om_get (pg_task_for_thread s') (pk_tid k) = None"
      if k: "om_get (pc_tasks q) t = Some k" for t k
    proof -
      have k': "om_get (pc_tasks p) t = Some k" using k d(4) by simp
      have other: "pg_process s' i = Some x \<Longrightarrow> \<exists>y. pg_process s i = Some y \<and> pc_tasks x = pc_tasks y \<and> i \<noteq> pid" for i x
        unfolding d(5) a(2) by (cases "pg_process s i") (auto split: if_splits)
      have "om_get (pg_pid_for_task s') t \<noteq> Some i" for i
      proof
        assume "om_get (pg_pid_for_task s') t = Some i"
        then obtain x j where "pg_process s' i = Some x" "om_get (pc_tasks x) t = Some j"
          using has_task_indexed(1) [OF d(2)] by blast
        with other obtain y where "pg_process s i = Some y" "om_get (pc_tasks y) t = Some j" "i \<noteq> pid" by fastforce
        then show False using task_indexed [OF inv p(1) k'] task_indexed [OF inv, of i y t j] by simp
      qed
      moreover have "om_get (pg_task_for_thread s') (pk_tid k) \<noteq> Some i" for i
      proof
        assume "om_get (pg_task_for_thread s') (pk_tid k) = Some i"
        then obtain n x j where "pg_process s' n = Some x" "om_get (pc_tasks x) i = Some j" "pk_tid j = pk_tid k"
          using has_task_indexed(2) [OF d(2)] by blast
        with other obtain y where y: "pg_process s n = Some y" "om_get (pc_tasks y) i = Some j" "n \<noteq> pid" by fastforce
        then have "i = t" using task_indexed [OF inv p(1) k'] task_indexed [OF inv y(1,2)] \<open>pk_tid j = pk_tid k\<close> by simp
        then show False using task_indexed [OF inv p(1) k'] task_indexed [OF inv y(1,2)] y(3) by simp
      qed
      ultimately show ?thesis by (cases "om_get (pg_pid_for_task s') t"; cases "om_get (pg_task_for_thread s') (pk_tid k)") auto
    qed
    have kids: "pc_parent x \<noteq> Some pid" if "pid \<noteq> INIT_PID" "pg_process s' i = Some x" for i x
      using adopted_no_child [OF inv p(1) that(1)] that(2) unfolding d(5) by (auto split: if_splits)
    have none: "pg_process s' i = None \<longleftrightarrow> pg_process s i = None" if "i \<noteq> pid" for i
      unfolding d(5) a(2) using that by simp
    have pn: "pg_process s' pid = None" unfolding d(5) by simp
    show ?thesis
      by (rule exI [of _ "Some q"], rule exI [of _ s'])
        (use d(1,4) p ex [OF p(1)] gone kids none pn in \<open>auto simp: detach_exited_process_def\<close>)
  next
    case False
    have d: "detach_exited_process pid s = Some (None, s)"
      by (rule detach_exited_none) (use False in \<open>cases "pg_process s pid"; auto\<close>)
    have "\<not> (\<exists>p. pg_process s pid = Some p \<and> (\<forall>t k. om_get (pc_tasks p) t = Some k \<longrightarrow> is_texited (pk_state k)))"
      using False ex by blast
    then show ?thesis
      by (intro exI [of _ "None :: pcb option"] exI [of _ s]) (use d in simp)
  qed
qed

theorem reap_once_witness:
  "detach_exited_process 3 demo_procs = Some (None, demo_procs)"
proof -
  obtain p k where p: "pg_process demo_procs 3 = Some p" "om_get (pc_tasks p) 30 = Some k" "\<not> is_texited (pk_state k)"
    by (simp add: process_eval)
  then show ?thesis using reap_once [OF demo_procs_reach, of 3] by fastforce
qed

end
