(* ===== verification/Process_Barrier.thy ===== *)
theory Process_Barrier
  imports Process_Props
begin

text \<open>
  The barrier of \<open>exec\<close> and the queries of a waiting parent.
\<close>

section \<open>No operation adds a thread behind the barrier\<close>

definition barred :: "nat \<Rightarrow> pcb \<Rightarrow> process_registry \<Rightarrow> bool" where
  "barred pid p s \<longleftrightarrow>
     (\<forall>q. pg_process s pid = Some q \<longrightarrow> pc_exec q \<and> (\<forall>t. pc_tids q t \<noteq> None \<longrightarrow> pc_tids p t \<noteq> None))"

lemma barred_refl: "pg_process s pid = Some p \<Longrightarrow> pc_exec p \<Longrightarrow> barred pid p s"
  by (simp add: barred_def)

lemma barred_update:
  assumes b: "barred pid p s" and ok: "om_ok (pg_processes s)"
    and f: "\<And>q. pg_process s i = Some q \<Longrightarrow> (pc_exec q \<longrightarrow> pc_exec (f q)) \<and> pc_tids (f q) = pc_tids q"
  shows "barred pid p (pg_update i f s)"
  using b f unfolding barred_def pg_update_get [OF ok] by (auto split: if_splits)

lemma barred_attr:
  assumes b: "barred pid p s" and ok: "om_ok (pg_processes s)"
    and f: "\<And>q. (pc_exec q \<longrightarrow> pc_exec (f q)) \<and> pc_tasks (f q) = pc_tasks q"
  shows "barred pid p (pg_update i f s)" "barred pid p (snd (pg_modify i f s))"
proof -
  show u: "barred pid p (pg_update i f s)" by (rule barred_update [OF b ok]) (use f pc_tids_cong in blast)
  show "barred pid p (snd (pg_modify i f s))" using u b by (simp add: pg_modify_def split: option.splits)
qed

lemma barred_map:
  assumes "barred pid p s" and "pg_process s' pid = map_option f (pg_process s pid)"
    and "\<And>q. pc_exec (f q) = pc_exec q \<and> pc_tasks (f q) = pc_tasks q"
  shows "barred pid p s'"
  unfolding barred_def
proof (intro allI impI)
  fix q assume "pg_process s' pid = Some q"
  then obtain q0 where q0: "pg_process s pid = Some q0" "q = f q0" using assms(2) by auto
  have "pc_tids q = pc_tids q0" "pc_exec q = pc_exec q0" using assms(3) [of q0] pc_tids_cong [of q q0] q0(2) by simp_all
  then show "pc_exec q \<and> (\<forall>t. pc_tids q t \<noteq> None \<longrightarrow> pc_tids p t \<noteq> None)"
    using assms(1) q0(1) unfolding barred_def by simp
qed

lemma exec_kept [simp]:
  "pc_exec (cleared src q) = pc_exec q" "pc_exec (adopt i q) = pc_exec q"
  "pc_exec (all_cleared srcs q) = pc_exec q" "pc_exec (thread_exits t k c q) = pc_exec q"
  "pc_exec (process_exits c q) = pc_exec q" "pc_tasks (all_cleared srcs q) = pc_tasks q"
  "pc_exec (drop_members ts q) = pc_exec q"
  by (simp_all add: cleared_def adopt_def all_cleared_def thread_exits_def process_exits_def Let_def drop_members_def)

lemma barred_notices: "barred pid p s \<Longrightarrow> barred pid p (snd (take_death_notices src s))"
  by (rule barred_map [OF _ take_death_notices_get]) auto

lemma barred_adopted:
  assumes "proc_inv s" "pg_process s i = Some x" "barred pid p s"
  shows "barred pid p (adopted i s)"
  by (rule barred_map [OF assms(3) adopted_props(2) [OF assms(1,2)]]) auto

lemma barred_exit_thread:
  assumes inv: "proc_inv s" and b: "barred pid p s" and k: "pg_process s i = Some x" "om_get (pc_tasks x) t = Some k"
  shows "barred pid p (exit_thread_state i t k c s)"
  unfolding exit_thread_state_def
proof (rule barred_update [OF barred_notices [OF b]])
  note i1 = take_death_notices_inv [OF inv, of "SourceTask t"]
  show "om_ok (pg_processes (snd (take_death_notices (SourceTask t) s)))" by (rule proc_inv_parts(1) [OF i1])
  fix q assume q: "pg_process (snd (take_death_notices (SourceTask t) s)) i = Some q"
  then have "pcb_ok i q" by (rule proc_inv_pcb [OF i1])
  moreover have "om_get (pc_tasks q) t = Some k" using q k by (auto simp: take_death_notices_get)
  ultimately show "(pc_exec q \<longrightarrow> pc_exec (thread_exits t k c q)) \<and> pc_tids (thread_exits t k c q) = pc_tids q"
    using thread_exits_ok(2) by simp
qed

lemma barred_exit_task:
  assumes inv: "proc_inv s" and b: "barred pid p s" and r: "mark_task_exited t c s = Some (x, s')"
  shows "barred pid p s'"
proof (rule mark_task_exited_cases [OF inv, of t c])
  fix i q and k :: process_task
  let ?e = "exit_thread_state i t k c s"
  assume m: "pg_process s i = Some q" "om_get (pc_tasks q) t = Some k" "proc_inv ?e"
    "mark_task_exited t c s = Some (Inr \<lparr>xr_completed = True,
         xr_notices = fst (take_death_notices (SourceTask t) s) @ fst (take_death_notices (SourceProcess i) ?e)\<rparr>,
         adopted i (snd (take_death_notices (SourceProcess i) ?e)))"
  have "pg_process (snd (take_death_notices (SourceProcess i) ?e)) i = Some (cleared (SourceProcess i) (thread_exits t k c (cleared (SourceTask t) q)))"
    using exit_thread_get [OF inv m(1)] by (simp add: take_death_notices_get)
  from barred_adopted [OF take_death_notices_inv [OF m(3)] this barred_notices [OF barred_exit_thread [OF inv b m(1,2)]]]
  show ?thesis using r m(4) by simp
next
  fix i q and k :: process_task
  assume "pg_process s i = Some q" "om_get (pc_tasks q) t = Some k"
    "mark_task_exited t c s = Some (Inr \<lparr>xr_completed = False,
         xr_notices = fst (take_death_notices (SourceTask t) s)\<rparr>, exit_thread_state i t k c s)"
  then show ?thesis using r barred_exit_thread [OF inv b] by auto
qed (use r b in auto)

lemma barred_exit_process:
  assumes inv: "proc_inv s" and b: "barred pid p s" and r: "mark_process_exited i c s = Some (x, s')"
  shows "barred pid p s'"
proof (cases "\<exists>q. pg_process s i = Some q \<and> \<not> is_pexiting (pc_state q) \<and> \<not> is_pexited (pc_state q)")
  case True
  then obtain q where q: "pg_process s i = Some q" "\<not> is_pexiting (pc_state q)" "\<not> is_pexited (pc_state q)" by blast
  let ?d = "snd (take_all_death_notices (exit_sources i q) s)"
  note d = take_all_death_notices_props [OF inv, of "exit_sources i q"]
  have p: "pg_process ?d i = Some (all_cleared (exit_sources i q) q)" using q(1) d(2) by simp
  have bd: "barred pid p ?d" by (rule barred_map [OF b d(2)]) simp
  have "barred pid p (process_exit_state i c q s)"
    unfolding process_exit_state_def
    by (rule barred_attr(1) [OF barred_adopted [OF d(1) p bd] proc_inv_parts(1) [OF adopted_props(1) [OF d(1) p]]]) simp
  then show ?thesis using r mark_process_exited_eq(1) [OF inv q] by simp
next
  case False
  then show ?thesis using r b by (auto simp: mark_process_exited_def split: option.splits if_splits)
qed

lemma barred_fewer:
  assumes "barred pid p s" and "pg_process s' = (pg_process s)(i := x)"
    and "\<And>q. x = Some q \<Longrightarrow> \<exists>q0. pg_process s i = Some q0 \<and> (i = pid \<longrightarrow> pc_exec q = pc_exec q0) \<and>
      (\<forall>t. pc_tids q t \<noteq> None \<longrightarrow> pc_tids q0 t \<noteq> None)"
  shows "barred pid p s'"
  unfolding barred_def
proof (intro allI impI)
  fix q assume q: "pg_process s' pid = Some q"
  show "pc_exec q \<and> (\<forall>t. pc_tids q t \<noteq> None \<longrightarrow> pc_tids p t \<noteq> None)"
  proof (cases "i = pid")
    case True
    then have "x = Some q" using q assms(2) by simp
    from assms(3) [OF this] True assms(1) show ?thesis unfolding barred_def by blast
  next
    case False
    then show ?thesis using q assms(1,2) unfolding barred_def by simp
  qed
qed

lemma pc_tids_fewer:
  assumes "\<And>t. om_get (pc_tasks q) t \<noteq> None \<Longrightarrow> om_get (pc_tasks q0) t \<noteq> None"
  shows "\<forall>t. pc_tids q t \<noteq> None \<longrightarrow> pc_tids q0 t \<noteq> None"
  using assms by (auto simp: pc_tids_def)

lemma barred_take_members:
  assumes inv: "proc_inv s" and b: "barred pid p s" and r: "take_exited_member_tasks i s = Some (x, s')"
  shows "barred pid p s'"
proof (cases "pg_process s i")
  case None
  then show ?thesis using r b by (simp add: take_exited_member_tasks_def)
next
  case (Some q)
  have "om_get (pc_tasks (drop_members (exited_members q) q)) t \<noteq> None \<Longrightarrow> om_get (pc_tasks q) t \<noteq> None" for t
    using om_get_filter_key [of "\<lambda>i. i \<notin> set (exited_members q)" "pc_tasks q" t] by (auto split: if_splits)
  then have "\<forall>t. pc_tids (drop_members (exited_members q) q) t \<noteq> None \<longrightarrow> pc_tids q t \<noteq> None" by (rule pc_tids_fewer)
  moreover have "pg_process s' = (pg_process s)(i \<mapsto> drop_members (exited_members q) q)"
    using take_exited_eq [OF inv Some] r by auto
  ultimately show ?thesis by (intro barred_fewer [OF b]) (use Some in auto)
qed

lemma barred_abort_clone:
  assumes inv: "proc_inv s" and b: "barred pid p s" and a: "process_allowed (OpAbortClone t) s"
    and r: "abort_cloned_thread t s = Some (x, s')"
  shows "barred pid p s'"
proof (cases "s' = s")
  case False
  with r obtain i q k where q: "om_get (pg_pid_for_task s) t = Some i" "pg_process s i = Some q" "t \<noteq> pc_leader q"
    "om_get (pc_tasks q) t = Some k"
    by (auto simp: abort_cloned_thread_def split: option.splits if_splits)
  from a q(1,2) obtain t' k' where "om_get (pc_tasks q) t' = Some k'" "t' \<noteq> t" "\<not> is_texited (pk_state k')"
    by (auto simp: runs_in_def)
  from abort_cloned_eq [OF inv q(2,4,3) this] r
  have g: "pg_process s' = (pg_process s)(i \<mapsto> q\<lparr>pc_tasks := om_remove t (pc_tasks q)\<rparr>)" by auto
  have "om_ok (pc_tasks q)" using proc_inv_pcb [OF inv q(2)] by (simp add: pcb_ok_def)
  then have "\<forall>j. pc_tids (q\<lparr>pc_tasks := om_remove t (pc_tasks q)\<rparr>) j \<noteq> None \<longrightarrow> pc_tids q j \<noteq> None"
    by (intro pc_tids_fewer) (auto simp: om_get_remove split: if_splits)
  then show ?thesis by (intro barred_fewer [OF b g]) (use q(2) in auto)
qed (use b in simp)

lemma barred_reap:
  assumes inv: "proc_inv s" and b: "barred pid p s" and r: "detach_exited_process i s = Some (x, s')"
  shows "barred pid p s'"
proof (cases "\<exists>q. pg_process s i = Some q \<and> is_pexited (pc_state q)")
  case True
  then obtain q where q: "pg_process s i = Some q" "is_pexited (pc_state q)" by blast
  then have "pg_process s' = (pg_process (adopted i s))(i := None)" using detach_exited_eq [OF inv q] r by auto
  then show ?thesis by (rule barred_fewer [OF barred_adopted [OF inv q(1) b]]) simp
next
  case False
  then have "s' = s" using r by (auto simp: detach_exited_process_def split: option.splits if_splits)
  then show ?thesis using b by simp
qed

lemma barred_abort_fork:
  assumes inv: "proc_inv s" and b: "barred pid p s" and a: "process_allowed (OpAbortFork t) s"
    and r: "detach_aborted_fork t s = Some (x, s')"
  shows "barred pid p s'"
proof (cases "s' = s")
  case False
  then obtain i q where q: "om_get (pg_pid_for_task s) t = Some i" "pg_process s i = Some q"
    "\<exists>z. remove_process i s = Some (z, s')"
    using r by (auto simp: detach_aborted_fork_def split: option.splits if_splits)
  have "i = INIT_PID \<or> (\<forall>c x. pg_process s c = Some x \<longrightarrow> pc_parent x \<noteq> Some i)" using a q(1) by simp
  from remove_process_eq [OF inv q(2) this] q(3) have "pg_process s' = (pg_process s)(i := None)" by auto
  then show ?thesis by (rule barred_fewer [OF b]) simp
qed (use b in simp)

lemma barred_other:
  assumes "barred pid p s" and "pg_process s' pid = pg_process s pid"
  shows "barred pid p s'"
  using assms by (simp add: barred_def)

lemma barred_create:
  assumes inv: "proc_inv s" and p: "pg_process s pid = Some p" "pc_exec p"
    and r: "process_exec (OpCreate t parent a) s = Some s'"
  shows "barred pid p s'"
proof (rule create_process_for_task_cases [OF inv, of t parent a])
  fix i assume c: "fresh_pid s i" "create_process_for_task t parent a s = Some (Inr i, created i t parent a s)"
  have "pg_process s' pid = pg_process s pid"
    using c r p(1) created_get [OF proc_inv_parts(1) [OF inv], of i t parent a] by (auto simp: fresh_pid_def)
  then show ?thesis by (rule barred_other [OF barred_refl [OF p]])
qed (use r barred_refl [OF p] in auto)

lemma barred_fork:
  assumes inv: "proc_inv s" and p: "pg_process s pid = Some p" "pc_exec p"
    and r: "process_exec (OpFork src cp st ct a) s = Some s'"
  shows "barred pid p s'"
proof (rule fork_cases [OF inv, of src cp st ct a])
  fix i q and k :: process_task
  assume c: "fresh_pid s i" "create_process_like_fork_with_parent src cp st ct a s = Some (Inr i, forked i q st k cp ct a s)"
  have "pg_process s' pid = pg_process s pid"
    using c r p(1) forked_get [OF inv, of i q st k cp ct a] by (auto simp: fresh_pid_def)
  then show ?thesis by (rule barred_other [OF barred_refl [OF p]])
qed (use r barred_refl [OF p] in auto)

lemma barred_clone:
  assumes inv: "proc_inv s" and p: "pg_process s pid = Some p" "pc_exec p"
    and r: "process_exec (OpClone i pt t flags tls ct) s = Some s'"
  shows "barred pid p s'"
proof (rule add_task_cases [OF inv, of i pt t flags tls ct])
  fix tid q and k :: process_task
  let ?s = "s\<lparr>pg_next_tid := sat_add usize_max tid 1\<rparr>"
  assume c: "add_task_to_process i pt t flags tls ct s =
      Some (Inr t, with_thread i t (cloned_task tid flags tls ct (pk_comm k)) ?s)"
    "pg_process s i = Some q" "\<not> pc_exec q"
  have "i \<noteq> pid" using c(2,3) p by auto
  then have "pg_process (with_thread i t x (s\<lparr>pg_next_tid := n\<rparr>)) pid = pg_process s pid" for x n
    using pg_update_get [of "s\<lparr>pg_next_tid := n\<rparr>" i "\<lambda>p. p\<lparr>pc_tasks := om_insert t x (pc_tasks p)\<rparr>"]
      proc_inv_parts(1) [OF inv] by (simp add: with_thread_def)
  then have "pg_process s' pid = pg_process s pid" using c(1) r by auto
  then show ?thesis by (rule barred_other [OF barred_refl [OF p]])
next
  fix e tid assume c: "add_task_to_process i pt t flags tls ct s = Some (Inl e, s\<lparr>pg_next_tid := sat_add usize_max tid 1\<rparr>)"
  have "pg_process s' pid = pg_process s pid" using c r by auto
  then show ?thesis by (rule barred_other [OF barred_refl [OF p]])
qed (use r barred_refl [OF p] in auto)

lemma barred_retain:
  assumes inv: "proc_inv s" and p: "pg_process s pid = Some p" "pc_exec p" and n: "i \<noteq> pid"
    and a: "process_allowed (OpRetain i keep) s" and r: "process_exec (OpRetain i keep) s = Some s'"
  shows "barred pid p s'"
proof (cases "\<exists>q k. pg_process s i = Some q \<and> om_get (pc_tasks q) keep = Some k")
  case True
  then obtain q k where q: "pg_process s i = Some q" "om_get (pc_tasks q) keep = Some k" by blast
  then have "\<not> is_texited (pk_state k)" using runs_in_or_gone [OF inv _ q] a by simp
  from retain_only_eq [OF inv q this] r n have "pg_process s' pid = pg_process s pid" by auto
  then show ?thesis by (rule barred_other [OF barred_refl [OF p]])
next
  case False
  then have "retain_only_task_in_process i keep s = Some (None, s)"
    by (intro retain_only_none) (cases "pg_process s i"; auto)
  then show ?thesis using r barred_refl [OF p] by simp
qed

lemma barred_modify_task:
  assumes inv: "proc_inv s" and b: "barred pid p s" and f: "\<And>k. pk_tid (f k) = pk_tid k"
  shows "barred pid p (snd (modify_task t f s))"
proof (cases "om_get (pg_pid_for_task s) t")
  case None
  then show ?thesis using b by (simp add: modify_task_def)
next
  case (Some i)
  then obtain q k where q: "pg_process s i = Some q" "om_get (pc_tasks q) t = Some k"
    using has_task_indexed(1) [OF inv] by blast
  then have e: "snd (modify_task t f s) = pg_update i (\<lambda>p. p\<lparr>pc_tasks := om_insert t (f k) (pc_tasks p)\<rparr>) s"
    using Some by (simp add: modify_task_def)
  have "om_ok (pc_tasks q)" using proc_inv_pcb [OF inv q(1)] by (simp add: pcb_ok_def)
  from pc_tids_insert [OF this q(2) f] show ?thesis
    unfolding e by (intro barred_update [OF b proc_inv_parts(1) [OF inv]]) (use q(1) in auto)
qed

lemma barred_exec:
  assumes inv: "proc_inv s" and p: "pg_process s pid = Some p" "pc_exec p"
    and a: "process_allowed op s" and r: "process_exec op s = Some s'" and n: "\<And>keep. op \<noteq> OpRetain pid keep"
  shows "barred pid p s'"
proof -
  note b = barred_refl [OF p] and ok = proc_inv_parts(1) [OF inv]
  note at = barred_attr [OF b ok]
  show ?thesis
  proof (cases op)
    case (OpCreate t parent x)
    then show ?thesis using barred_create [OF inv p] r by blast
  next
    case (OpFork src cp st ct x)
    then show ?thesis using barred_fork [OF inv p] r by blast
  next
    case (OpClone i pt t flags tls ct)
    then show ?thesis using barred_clone [OF inv p] r by blast
  next
    case (OpBeginExec i t)
    then show ?thesis using r b by (auto simp: begin_process_exec_def split: option.splits intro!: at)
  next
    case (OpExitTask t c)
    then show ?thesis using r barred_exit_task [OF inv b] by auto
  next
    case (OpExitProcess i c)
    then show ?thesis using r barred_exit_process [OF inv b] by auto
  next
    case (OpRetain i keep)
    then show ?thesis using barred_retain [OF inv p _ a [unfolded OpRetain] r [unfolded OpRetain]] n by blast
  next
    case (OpTakeMembers i)
    then show ?thesis using r barred_take_members [OF inv b] by auto
  next
    case (OpAbortFork t)
    then show ?thesis using r barred_abort_fork [OF inv b a [unfolded OpAbortFork]] by auto
  next
    case (OpAbortClone t)
    then show ?thesis using r barred_abort_clone [OF inv b a [unfolded OpAbortClone]] by auto
  next
    case (OpReap i)
    then show ?thesis using r barred_reap [OF inv b] by auto
  next
    case (OpComm t comm)
    then show ?thesis using r by (auto simp: set_thread_comm_def intro!: barred_modify_task [OF inv b])
  next
    case (OpClearTid t x)
    then show ?thesis using r by (auto simp: set_task_clear_child_tid_def intro!: barred_modify_task [OF inv b])
  next
    case (OpSubreaper i e)
    have "barred pid p (s\<lparr>pg_subreapers := m\<rparr>)" for m using b by (simp add: barred_def)
    from barred_attr(2) [OF this, of _ "\<lambda>p. p\<lparr>pc_subreaper := e\<rparr>" i] show ?thesis
      using r ok at OpSubreaper by (auto simp: set_process_child_subreaper_def Let_def)
  next
    case OpClear
    then show ?thesis using r by (auto simp: barred_def pg_clear_def pg_process_def om_get_def)
  qed (use r b in \<open>auto simp: mark_process_stopped_def mark_process_continued_def consume_stop_wait_def consume_continued_wait_def
      create_session_for_process_def set_process_pgid_def set_process_umask_def set_parent_death_signal_def
      set_process_rlimit_def update_process_address_space_def set_process_dumpable_def set_process_caps_def
      set_process_keep_caps_def set_seccomp_mode_def set_sec_mode_def set_seccomp_whitelist_def account_task_io_def
      account_task_io_transfer_def split: option.splits if_splits intro!: at\<close>)
qed

text \<open>
  C37. The barrier of exec. In a reachable state, from the moment \<open>begin_process_exec\<close> has returned
  the list of threads until \<open>retain_only_task_in_process\<close>, every allowed operation leaves the barrier up
  and adds no thread to the process (it may go away altogether), a clone into it and a second exec fail;
  and once all but the calling thread are dropped, that thread leads a running process alone, the
  others are returned and gone from both indexes.
\<close>

theorem exec_barrier:
  assumes "process_reach s" and "pg_process s pid = Some p" and "om_get (pc_tasks p) t = Some k" and "\<not> is_texited (pk_state k)"
  shows "(\<not> pc_exec p \<and> pc_leader p = t \<longrightarrow>
      (\<exists>s' p'. begin_process_exec pid t s = (Inr (map fst (pc_tasks p)), s') \<and> pg_process s' pid = Some p' \<and> pc_exec p')) \<and>
    (pc_exec p \<longrightarrow> is_ok (fst (begin_process_exec pid t s)) = False \<and>
      (\<forall>op s' p'. process_step s op s' \<and> (\<forall>keep. op \<noteq> OpRetain pid keep) \<and> pg_process s' pid = Some p' \<longrightarrow>
         pc_exec p' \<and> (\<forall>j. om_get (pc_tasks p') j \<noteq> None \<longrightarrow> om_get (pc_tasks p) j \<noteq> None))) \<and>
    (\<exists>s' p'. retain_only_task_in_process pid t s = Some (Some (filter (\<lambda>j. j \<noteq> t) (map fst (pc_tasks p))), s') \<and>
      pg_process s' pid = Some p' \<and> pc_leader p' = t \<and> \<not> pc_exec p' \<and> pc_state p' = PRunning \<and>
      om_get (pc_tasks p') = [t \<mapsto> k] \<and>
      (\<forall>j x. om_get (pc_tasks p) j = Some x \<and> j \<noteq> t \<longrightarrow>
         om_get (pg_pid_for_task s') j = None \<and> om_get (pg_task_for_thread s') (pk_tid x) = None))"
proof (intro conjI impI)
  have inv: "proc_inv s" by (rule process_reach_inv [OF assms(1)])
  note ok = proc_inv_parts(1) [OF inv]
  show "\<exists>s' p'. begin_process_exec pid t s = (Inr (map fst (pc_tasks p)), s') \<and> pg_process s' pid = Some p' \<and> pc_exec p'"
    if "\<not> pc_exec p \<and> pc_leader p = t"
    using that assms(2) by (simp add: begin_process_exec_def pg_update_get [OF ok])
  show "is_ok (fst (begin_process_exec pid t s)) = False" if "pc_exec p"
    using that assms(2) by (simp add: begin_process_exec_def)
  show "\<forall>op s' p'. process_step s op s' \<and> (\<forall>keep. op \<noteq> OpRetain pid keep) \<and> pg_process s' pid = Some p' \<longrightarrow>
         pc_exec p' \<and> (\<forall>j. om_get (pc_tasks p') j \<noteq> None \<longrightarrow> om_get (pc_tasks p) j \<noteq> None)" if "pc_exec p"
  proof (intro allI impI)
    fix op s' p' assume a: "process_step s op s' \<and> (\<forall>keep. op \<noteq> OpRetain pid keep) \<and> pg_process s' pid = Some p'"
    then have "barred pid p s'" using barred_exec [OF inv assms(2) that] by (auto elim!: process_stepE)
    then show "pc_exec p' \<and> (\<forall>j. om_get (pc_tasks p') j \<noteq> None \<longrightarrow> om_get (pc_tasks p) j \<noteq> None)"
      using a by (simp add: barred_def pc_tids_def)
  qed
  obtain s' where r: "retain_only_task_in_process pid t s = Some (Some (filter (\<lambda>j. j \<noteq> t) (map fst (pc_tasks p))), s')"
    "proc_inv s'" "pg_process s' = (pg_process s)(pid \<mapsto> retain_task t p)"
    using retain_only_eq [OF inv assms(2-4)] by blast
  have tasks: "om_get (pc_tasks (retain_task t p)) = [t \<mapsto> k]"
    using assms(3) by (auto simp: om_get_filter_eq fun_eq_iff)
  have gone: "om_get (pg_pid_for_task s') j = None \<and> om_get (pg_task_for_thread s') (pk_tid x) = None"
    if j: "om_get (pc_tasks p) j = Some x \<and> j \<noteq> t" for j x
  proof -
    have old: "om_get (pg_pid_for_task s) j = Some pid" "om_get (pg_task_for_thread s) (pk_tid x) = Some j"
      using task_indexed [OF inv assms(2)] j by auto
    have "\<not> (\<exists>i q y. pg_process s' i = Some q \<and> om_get (pc_tasks q) j = Some y)"
    proof
      assume "\<exists>i q y. pg_process s' i = Some q \<and> om_get (pc_tasks q) j = Some y"
      then obtain i q y where q: "pg_process s' i = Some q" "om_get (pc_tasks q) j = Some y" by blast
      have "i \<noteq> pid" using q j tasks unfolding r(3) by (auto split: if_splits)
      then have "om_get (pg_pid_for_task s) j = Some i" using q task_indexed [OF inv, of i q j y] unfolding r(3) by simp
      then show False using old(1) \<open>i \<noteq> pid\<close> by simp
    qed
    moreover have "\<not> (\<exists>n. om_get (pg_task_for_thread s') (pk_tid x) = Some n)"
    proof
      assume "\<exists>n. om_get (pg_task_for_thread s') (pk_tid x) = Some n"
      then obtain n i q y where q: "pg_process s' i = Some q" "om_get (pc_tasks q) n = Some y" "pk_tid y = pk_tid x"
        using has_task_indexed(2) [OF r(2)] by blast
      have "om_get (pg_task_for_thread s) (pk_tid x) = Some n"
      proof (cases "i = pid")
        case True
        then show ?thesis using q tasks assms(3) task_indexed [OF inv assms(2), of t k] unfolding r(3) by (auto split: if_splits)
      next
        case False
        then show ?thesis using q task_indexed [OF inv, of i q n y] unfolding r(3) by simp
      qed
      then have "n = j" using old(2) by simp
      then show False using q(1,2) \<open>\<not> (\<exists>i q y. pg_process s' i = Some q \<and> om_get (pc_tasks q) j = Some y)\<close> by blast
    qed
    ultimately show ?thesis using has_task_indexed(1) [OF r(2), of j] by (metis option.exhaust)
  qed
  show "\<exists>s' p'. retain_only_task_in_process pid t s = Some (Some (filter (\<lambda>j. j \<noteq> t) (map fst (pc_tasks p))), s') \<and>
      pg_process s' pid = Some p' \<and> pc_leader p' = t \<and> \<not> pc_exec p' \<and> pc_state p' = PRunning \<and>
      om_get (pc_tasks p') = [t \<mapsto> k] \<and>
      (\<forall>j x. om_get (pc_tasks p) j = Some x \<and> j \<noteq> t \<longrightarrow>
         om_get (pg_pid_for_task s') j = None \<and> om_get (pg_task_for_thread s') (pk_tid x) = None)"
    by (rule exI [of _ s'], rule exI [of _ "retain_task t p"]) (use r tasks gone in simp)
qed

theorem exec_barrier_witness:
  "\<exists>s'. retain_only_task_in_process 3 30 demo_procs = Some (Some [31], s') \<and> om_get (pg_pid_for_task s') 31 = None"
proof -
  obtain p k j where p: "pg_process demo_procs 3 = Some p" "om_get (pc_tasks p) 30 = Some k" "\<not> is_texited (pk_state k)"
    "om_get (pc_tasks p) 31 = Some j" "map fst (pc_tasks p) = [30, 31]"
    by (simp add: process_eval)
  show ?thesis using exec_barrier [OF demo_procs_reach p(1-3)] p(4,5) by fastforce
qed

section \<open>Waiting for children\<close>

lemma find_least_key:
  assumes "om_ok m"
  shows "find (\<lambda>e. P (snd e)) m = None \<longleftrightarrow> (\<forall>c p. om_get m c = Some p \<longrightarrow> \<not> P p)"
    "find (\<lambda>e. P (snd e)) m = Some e \<Longrightarrow> om_get m (fst e) = Some (snd e) \<and> P (snd e) \<and>
       (\<forall>c q. om_get m c = Some q \<and> P q \<longrightarrow> fst e \<le> c)"
proof -
  show "find (\<lambda>e. P (snd e)) m = None \<longleftrightarrow> (\<forall>c p. om_get m c = Some p \<longrightarrow> \<not> P p)"
    unfolding om_get_iff [OF assms] by (auto simp: find_None_iff)
  have "find (\<lambda>e. P (snd e)) m = Some e \<Longrightarrow> e \<in> set m \<and> P (snd e) \<and> (\<forall>x \<in> set m. P (snd x) \<longrightarrow> fst e \<le> fst x)"
    using assms
  proof (induction m)
    case (Cons a m)
    then have m: "om_ok m" "\<forall>e' \<in> set m. fst a < fst e'" by (simp_all add: om_ok_Cons)
    show ?case
    proof (cases "P (snd a)")
      case True
      with Cons.prems(1) m(2) show ?thesis by (auto simp: less_imp_le)
    next
      case False
      with Cons.prems(1) Cons.IH [OF _ m(1)] show ?thesis by auto
    qed
  qed simp
  then show "find (\<lambda>e. P (snd e)) m = Some e \<Longrightarrow> om_get m (fst e) = Some (snd e) \<and> P (snd e) \<and>
       (\<forall>c q. om_get m c = Some q \<and> P q \<longrightarrow> fst e \<le> c)"
    unfolding om_get_iff [OF assms] by force
qed

lemma find_child_least:
  assumes inv: "proc_inv s"
  shows "case find_child P s of
      None \<Rightarrow> \<forall>c p. pg_process s c = Some p \<longrightarrow> \<not> P p
    | Some x \<Rightarrow> \<exists>p. pg_process s (px_pid x) = Some p \<and> x = pc_snapshot p \<and> P p \<and>
        (\<forall>c q. pg_process s c = Some q \<and> P q \<longrightarrow> px_pid x \<le> c)"
proof -
  note l = find_least_key [OF proc_inv_parts(1) [OF inv]]
  show ?thesis
  proof (cases "find (\<lambda>e. P (snd e)) (pg_processes s)")
    case None
    then have "find_child P s = None" "\<forall>c p. pg_process s c = Some p \<longrightarrow> \<not> P p"
      using l(1) [of P] by (simp_all add: find_child_def pg_process_def)
    then show ?thesis by simp
  next
    case (Some e)
    from l(2) [OF Some] have e: "pg_process s (fst e) = Some (snd e)" "P (snd e)"
      "\<forall>c q. pg_process s c = Some q \<and> P q \<longrightarrow> fst e \<le> c" by (simp_all add: pg_process_def)
    have "pc_pid (snd e) = fst e" using proc_inv_pcb [OF inv e(1)] by (simp add: pcb_ok_def)
    then show ?thesis using Some e by (simp add: find_child_def pc_snapshot_def)
  qed
qed

text \<open>
  Waiting for children. In a reachable state the search for an exited child finds the child with
  the least pid among the exited children, and fails only when there is none. A running child that is
  stopped is reported stopped, and not continued, until its parent consumes the report (a look that does
  not consume leaves it); a second stop does not report it again; a continuation takes a pending stop
  report back, is reported in turn, and once consumed is not reported again.
\<close>

theorem child_waits_correct:
  fixes signo sig' :: nat
  assumes "process_reach s" and "pg_process s pid = Some p" and "pc_parent p = Some parent" and "pc_state p = PRunning"
  defines "s1 \<equiv> snd (mark_process_stopped pid signo s)"
  defines "s2 \<equiv> snd (mark_process_continued pid s1)"
  shows "(case find_exited_child_process s parent of
        None \<Rightarrow> \<forall>c q. pg_process s c = Some q \<and> pc_parent q = Some parent \<longrightarrow> \<not> is_pexited (pc_state q)
      | Some x \<Rightarrow> \<exists>q. pg_process s (px_pid x) = Some q \<and> x = pc_snapshot q \<and> pc_parent q = Some parent \<and>
          is_pexited (pc_state q) \<and>
          (\<forall>c r. pg_process s c = Some r \<and> pc_parent r = Some parent \<and> is_pexited (pc_state r) \<longrightarrow> px_pid x \<le> c)) \<and>
    stopped_child_ready_for_wait s1 parent pid = Some ((pc_snapshot p)\<lparr>px_state := PStopped signo\<rparr>) \<and>
    continued_child_ready_for_wait s1 parent pid = None \<and>
    stopped_child_ready_for_wait (consume_stop_wait pid True s1) parent pid = stopped_child_ready_for_wait s1 parent pid \<and>
    stopped_child_ready_for_wait (consume_stop_wait pid False s1) parent pid = None \<and>
    stopped_child_ready_for_wait (snd (mark_process_stopped pid sig' (consume_stop_wait pid False s1))) parent pid = None \<and>
    stopped_child_ready_for_wait s2 parent pid = None \<and>
    continued_child_ready_for_wait s2 parent pid = Some (pc_snapshot p) \<and>
    continued_child_ready_for_wait (consume_continued_wait pid True s2) parent pid = Some (pc_snapshot p) \<and>
    continued_child_ready_for_wait (consume_continued_wait pid False s2) parent pid = None"
proof -
  have inv: "proc_inv s" by (rule process_reach_inv [OF assms(1)])
  have e: "case find_exited_child_process s parent of
        None \<Rightarrow> \<forall>c q. pg_process s c = Some q \<and> pc_parent q = Some parent \<longrightarrow> \<not> is_pexited (pc_state q)
      | Some x \<Rightarrow> \<exists>q. pg_process s (px_pid x) = Some q \<and> x = pc_snapshot q \<and> pc_parent q = Some parent \<and>
          is_pexited (pc_state q) \<and>
          (\<forall>c r. pg_process s c = Some r \<and> pc_parent r = Some parent \<and> is_pexited (pc_state r) \<longrightarrow> px_pid x \<le> c)"
    using find_child_least [OF inv, of "\<lambda>p. pc_parent p = Some parent \<and> is_pexited (pc_state p)"]
    by (auto simp: find_exited_child_process_def split: option.splits)
  have i1: "proc_inv s1" unfolding s1_def by (rule job_control_inv(1) [OF inv])
  note g = pg_update_get [OF proc_inv_parts(1) [OF inv]] and g1 = pg_update_get [OF proc_inv_parts(1) [OF i1]]
  have i2: "proc_inv s2" unfolding s2_def by (rule job_control_inv(2) [OF i1])
  note g2 = pg_update_get [OF proc_inv_parts(1) [OF i2]]
  have p1: "pg_process s1 pid = Some (p\<lparr>pc_state := PStopped signo, pc_stop_wait := True, pc_cont_wait := False\<rparr>)"
    unfolding s1_def using assms(2,4) by (simp add: mark_process_stopped_def g)
  have p2: "pg_process s2 pid = Some (p\<lparr>pc_state := PRunning, pc_stop_wait := False, pc_cont_wait := True\<rparr>)"
    unfolding s2_def using p1 by (simp add: mark_process_continued_def g1)
  have pc: "pg_process (consume_stop_wait pid False s1) pid =
      Some (p\<lparr>pc_state := PStopped signo, pc_stop_wait := False, pc_cont_wait := False\<rparr>)"
    using p1 by (simp add: consume_stop_wait_def g1)
  have pd: "pg_process (consume_continued_wait pid False s2) pid =
      Some (p\<lparr>pc_state := PRunning, pc_stop_wait := False, pc_cont_wait := False\<rparr>)"
    using p2 by (simp add: consume_continued_wait_def g2)
  show ?thesis
    using e p1 p2 pc pd assms(3,4)
    by (simp add: stopped_child_ready_for_wait_def continued_child_ready_for_wait_def consume_stop_wait_def
        consume_continued_wait_def mark_process_stopped_def pc_snapshot_def)
qed

theorem child_waits_correct_witness:
  "\<exists>x. stopped_child_ready_for_wait (snd (mark_process_stopped 3 19 demo_procs)) 2 3 = Some x \<and> px_state x = PStopped 19"
proof -
  obtain p where p: "pg_process demo_procs 3 = Some p" "pc_parent p = Some 2" "pc_state p = PRunning"
    by (simp add: process_eval)
  show ?thesis using child_waits_correct [OF demo_procs_reach p, of 19] by simp
qed

end
