(* ===== verification/Sv39_Pte.thy ===== *)
theory Sv39_Pte
  imports Vma_Correct
begin

text \<open>
  The Sv39 page table entry (\<open>mm-impl/impl-sv39/src/pagetable.rs\<close>) and the permission
  sets of \<open>mm-api/api-v0/src/perm.rs\<close> it encodes. An entry is a \<open>64 word\<close>, its
  flag field a \<open>16 word\<close> and a permission set an \<open>8 word\<close>, as in the source; a
  physical page number is a \<open>nat\<close> that \<open>pte_set\<close> shifts into bits 10 to 53.
\<close>

section \<open>Permission sets\<close>

definition PERM_R :: page_perm where "PERM_R = 1"
definition PERM_W :: page_perm where "PERM_W = 2"
definition PERM_X :: page_perm where "PERM_X = 4"
definition PERM_U :: page_perm where "PERM_U = 8"

definition readable :: "page_perm \<Rightarrow> bool" where "readable p \<longleftrightarrow> p AND PERM_R \<noteq> 0"
definition writable :: "page_perm \<Rightarrow> bool" where "writable p \<longleftrightarrow> p AND PERM_W \<noteq> 0"
definition executable :: "page_perm \<Rightarrow> bool" where "executable p \<longleftrightarrow> p AND PERM_X \<noteq> 0"
definition perm_user :: "page_perm \<Rightarrow> bool" where "perm_user p \<longleftrightarrow> p AND PERM_U \<noteq> 0"

section \<open>Flags\<close>

type_synonym pte_flags = "16 word"
type_synonym pte = "64 word"

definition FLAG_V :: pte_flags where "FLAG_V = 1"
definition FLAG_R :: pte_flags where "FLAG_R = 2"
definition FLAG_W :: pte_flags where "FLAG_W = 4"
definition FLAG_X :: pte_flags where "FLAG_X = 8"
definition FLAG_U :: pte_flags where "FLAG_U = 16"
definition FLAG_A :: pte_flags where "FLAG_A = 64"
definition FLAG_D :: pte_flags where "FLAG_D = 128"
definition FLAG_COW :: pte_flags where "FLAG_COW = 256"
definition FLAG_COW_WAS_WRITABLE :: pte_flags where "FLAG_COW_WAS_WRITABLE = 512"

definition flags_valid :: "pte_flags \<Rightarrow> bool" where
  "flags_valid f \<longleftrightarrow> f AND FLAG_V \<noteq> 0"

definition flags_leaf :: "pte_flags \<Rightarrow> bool" where
  "flags_leaf f \<longleftrightarrow> f AND (FLAG_R OR FLAG_W OR FLAG_X) \<noteq> 0"

definition flags_writable :: "pte_flags \<Rightarrow> bool" where
  "flags_writable f \<longleftrightarrow> f AND FLAG_W \<noteq> 0"

definition flags_cow :: "pte_flags \<Rightarrow> bool" where
  "flags_cow f \<longleftrightarrow> f AND FLAG_COW \<noteq> 0"

definition cow_was_writable :: "pte_flags \<Rightarrow> bool" where
  "cow_was_writable f \<longleftrightarrow> f AND FLAG_COW_WAS_WRITABLE \<noteq> 0"

definition prepare_cow :: "pte_flags \<Rightarrow> pte_flags" where
  "prepare_cow f = (f AND NOT FLAG_W) OR (FLAG_COW OR FLAG_COW_WAS_WRITABLE)"

definition clear_cow :: "pte_flags \<Rightarrow> pte_flags" where
  "clear_cow f = f AND NOT (FLAG_COW OR FLAG_COW_WAS_WRITABLE)"

definition restore_cow_writable :: "pte_flags \<Rightarrow> pte_flags" where
  "restore_cow_writable f = clear_cow f OR (FLAG_W OR FLAG_A OR FLAG_D)"

definition is_leaf_at_level :: "pte_flags \<Rightarrow> nat \<Rightarrow> bool" where
  "is_leaf_at_level f level = (if level = 0 then flags_valid f else flags_leaf f)"

definition from_perm :: "page_perm \<Rightarrow> pte_flags" where
  "from_perm p =
     (let f = FLAG_V;
          f = (if readable p then f OR FLAG_R else f);
          f = (if writable p then f OR FLAG_W else f);
          f = (if executable p then f OR FLAG_X else f);
          f = (if perm_user p then f OR FLAG_U else f)
      in f OR (FLAG_A OR FLAG_D))"

definition to_page_perm :: "pte_flags \<Rightarrow> page_perm" where
  "to_page_perm f =
     (let p = 0;
          p = (if f AND FLAG_R \<noteq> 0 then p OR PERM_R else p);
          p = (if f AND FLAG_W \<noteq> 0 then p OR PERM_W else p);
          p = (if f AND FLAG_X \<noteq> 0 then p OR PERM_X else p);
          p = (if f AND FLAG_U \<noteq> 0 then p OR PERM_U else p)
      in p)"

section \<open>Entries\<close>

definition pte_flags_of :: "pte \<Rightarrow> pte_flags" where
  "pte_flags_of e = ucast (e AND 0x3FF)"

definition pte_ppn :: "pte \<Rightarrow> nat" where
  "pte_ppn e = unat (drop_bit 10 e AND (push_bit 44 1 - 1))"

definition pte_set :: "nat \<Rightarrow> pte_flags \<Rightarrow> pte" where
  "pte_set ppn f = push_bit 10 (word_of_nat ppn) OR ucast f"

definition make_satp :: "nat \<Rightarrow> nat \<Rightarrow> 64 word" where
  "make_satp root asid =
     push_bit 60 8 OR push_bit 44 (word_of_nat asid AND 0xFFFF) OR
     (word_of_nat root AND (push_bit 44 1 - 1))"

text \<open>\<open>asid::from_token\<close> reads the number of the address space back from a token.\<close>

definition from_token :: "64 word \<Rightarrow> nat" where
  "from_token t = unat (ucast (drop_bit 44 t AND 0xFFFF) :: 16 word)"

definition vpn_indexes :: "nat \<Rightarrow> nat list" where
  "vpn_indexes v = [v AND 0x1FF, drop_bit 9 v AND 0x1FF, drop_bit 18 v AND 0x1FF]"

section \<open>The bits of the flags\<close>

lemmas flag_defs = FLAG_V_def FLAG_R_def FLAG_W_def FLAG_X_def FLAG_U_def FLAG_A_def FLAG_D_def
  FLAG_COW_def FLAG_COW_WAS_WRITABLE_def
lemmas perm_defs = PERM_R_def PERM_W_def PERM_X_def PERM_U_def

lemma and_bit_nz: "(w :: 'a::len word) AND 2 ^ n \<noteq> 0 \<longleftrightarrow> bit w n"
  by (simp add: and_exp_eq_0_iff_not_bit)

lemma bit_pow: "bit (2 ^ n :: 'a::len word) k \<longleftrightarrow> k = n \<and> n < LENGTH('a)"
  by (auto simp: bit_simps)

lemma flag_bits:
  "FLAG_V = 2 ^ 0" "FLAG_R = 2 ^ 1" "FLAG_W = 2 ^ 2" "FLAG_X = 2 ^ 3"
  "FLAG_U = 2 ^ 4" "FLAG_A = 2 ^ 6" "FLAG_D = 2 ^ 7"
  "FLAG_COW = 2 ^ 8" "FLAG_COW_WAS_WRITABLE = 2 ^ 9"
  by (simp_all add: flag_defs)

lemma perm_bits:
  "PERM_R = 2 ^ 0" "PERM_W = 2 ^ 1" "PERM_X = 2 ^ 2" "PERM_U = 2 ^ 3"
  by (simp_all add: perm_defs)

lemma flag_bit [simp]:
  "flags_valid f = bit f 0" "flags_writable f = bit f 2" "flags_cow f = bit f 8"
  "cow_was_writable f = bit f 9"
  by (simp_all only: flags_valid_def flags_writable_def flags_cow_def cow_was_writable_def
      flag_bits and_bit_nz)

lemma perm_bit [simp]:
  "readable p = bit p 0" "writable p = bit p 1" "executable p = bit p 2" "perm_user p = bit p 3"
  by (simp_all only: readable_def writable_def executable_def perm_user_def perm_bits and_bit_nz)

lemma flags_leaf_bits: "flags_leaf f \<longleftrightarrow> bit f 1 \<or> bit f 2 \<or> bit f 3"
proof -
  have "flags_leaf f \<longleftrightarrow> f AND FLAG_R \<noteq> 0 \<or> f AND FLAG_W \<noteq> 0 \<or> f AND FLAG_X \<noteq> 0"
    by (auto simp: flags_leaf_def bit.conj_disj_distrib or_eq_0_iff)
  then show ?thesis by (simp only: flag_bits and_bit_nz)
qed

lemma bit_flag [simp]:
  "bit FLAG_V k \<longleftrightarrow> k = 0" "bit FLAG_R k \<longleftrightarrow> k = 1" "bit FLAG_W k \<longleftrightarrow> k = 2"
  "bit FLAG_X k \<longleftrightarrow> k = 3" "bit FLAG_U k \<longleftrightarrow> k = 4" "bit FLAG_A k \<longleftrightarrow> k = 6"
  "bit FLAG_D k \<longleftrightarrow> k = 7" "bit FLAG_COW k \<longleftrightarrow> k = 8" "bit FLAG_COW_WAS_WRITABLE k \<longleftrightarrow> k = 9"
  unfolding flag_bits bit_pow by auto

lemma bit_perm [simp]:
  "bit PERM_R k \<longleftrightarrow> k = 0" "bit PERM_W k \<longleftrightarrow> k = 1" "bit PERM_X k \<longleftrightarrow> k = 2"
  "bit PERM_U k \<longleftrightarrow> k = 3"
  unfolding perm_bits bit_pow by auto

lemma bit_from_perm:
  "bit (from_perm p) k \<longleftrightarrow> k = 0 \<or> k = 1 \<and> readable p \<or> k = 2 \<and> writable p \<or>
     k = 3 \<and> executable p \<or> k = 4 \<and> perm_user p \<or> k = 6 \<or> k = 7"
  by (auto simp: from_perm_def Let_def bit_or_iff)

lemma bit_to_page_perm:
  "bit (to_page_perm f) k \<longleftrightarrow> k = 0 \<and> bit f 1 \<or> k = 1 \<and> bit f 2 \<or> k = 2 \<and> bit f 3 \<or>
     k = 3 \<and> bit f 4"
  unfolding to_page_perm_def Let_def flag_bits and_bit_nz
  by (auto simp: bit_or_iff)

lemma bit_prepare_cow:
  "bit (prepare_cow f) k \<longleftrightarrow> k = 8 \<or> k = 9 \<or> k \<noteq> 2 \<and> bit f k"
  using bit_imp_le_length [of f k]
  by (auto simp: prepare_cow_def bit_or_iff bit_and_iff bit_not_iff)

lemma bit_clear_cow: "bit (clear_cow f) k \<longleftrightarrow> k \<noteq> 8 \<and> k \<noteq> 9 \<and> bit f k"
  using bit_imp_le_length [of f k]
  by (auto simp: clear_cow_def bit_or_iff bit_and_iff bit_not_iff)

lemma bit_restore_cow:
  "bit (restore_cow_writable f) k \<longleftrightarrow>
     k = 2 \<or> k = 6 \<or> k = 7 \<or> k \<noteq> 8 \<and> k \<noteq> 9 \<and> bit f k"
  by (auto simp: restore_cow_writable_def bit_or_iff bit_clear_cow)

lemmas flag_ops = bit_from_perm bit_to_page_perm bit_prepare_cow bit_clear_cow bit_restore_cow

text \<open>Only the low ten bits of a flag set survive in an entry.\<close>

definition flags_fit :: "pte_flags \<Rightarrow> bool" where
  "flags_fit f \<longleftrightarrow> (\<forall>k. bit f k \<longrightarrow> k < 10)"

lemma flags_fit_intros [simp]:
  "flags_fit (from_perm p)" "flags_fit FLAG_V"
  "flags_fit f \<Longrightarrow> flags_fit (prepare_cow f)" "flags_fit f \<Longrightarrow> flags_fit (clear_cow f)"
  "flags_fit f \<Longrightarrow> flags_fit (restore_cow_writable f)"
  by (auto simp: flags_fit_def flag_ops)

section \<open>The fields of an entry\<close>

lemma mask10: "(0x3FF :: 64 word) = mask 10"
  by (simp add: mask_eq_exp_minus_1)

lemma mask44: "push_bit 44 1 - 1 = (mask 44 :: 64 word)"
  by (simp add: mask_eq_exp_minus_1 push_bit_eq_mult)

lemma bit_pte_flags_of: "bit (pte_flags_of e) k \<longleftrightarrow> k < 10 \<and> bit e k"
  by (auto simp: pte_flags_of_def mask10 bit_simps bit_mask_iff)

lemma flags_fit_pte [simp]: "flags_fit (pte_flags_of e)"
  by (auto simp: flags_fit_def bit_pte_flags_of)

lemma pte_flags_set [simp]: "flags_fit f \<Longrightarrow> pte_flags_of (pte_set p f) = f"
  by (rule bit_eqI) (auto simp: bit_pte_flags_of pte_set_def flags_fit_def bit_simps)

lemma pte_ppn_bound: "pte_ppn e < 2 ^ 44"
proof -
  have "unat (drop_bit 10 e AND mask 44) = take_bit 44 (unat (drop_bit 10 e))"
    by (simp only: take_bit_eq_mask [symmetric] unsigned_take_bit_eq)
  also have "\<dots> < 2 ^ 44" by (rule take_bit_nat_less_exp)
  finally have "unat (drop_bit 10 e AND mask 44) < 2 ^ 44" .
  then show ?thesis by (simp only: pte_ppn_def mask44)
qed

lemma pte_ppn_set [simp]:
  assumes "p < 2 ^ 44" and "flags_fit f"
  shows "pte_ppn (pte_set p f) = p"
proof -
  have w: "drop_bit 10 (pte_set p f) AND mask 44 = (word_of_nat p :: 64 word)"
  proof (rule bit_word_eqI)
    fix n
    assume "n < LENGTH(64)"
    have "bit p n \<Longrightarrow> n < 44"
      using assms(1) by (metis bit_nat_iff bit_take_bit_iff take_bit_nat_eq_self_iff)
    then show "bit (drop_bit 10 (pte_set p f) AND mask 44) n = bit (word_of_nat p :: 64 word) n"
      using assms(2) by (auto simp: pte_set_def bit_simps bit_mask_iff flags_fit_def)
  qed
  have "p < 2 ^ LENGTH(64)" using assms(1) by simp
  then have "unat (word_of_nat p :: 64 word) = p"
    by (simp add: unsigned_of_nat take_bit_nat_eq_self)
  then show ?thesis by (simp only: pte_ppn_def mask44 w)
qed

section \<open>What the encodings preserve\<close>

lemma perm_round: "to_page_perm (from_perm p) = p AND 15"
proof -
  have "(15 :: 8 word) = mask 4" by (simp add: mask_eq_exp_minus_1)
  then show ?thesis
    by (intro bit_eqI) (auto simp: flag_ops bit_simps bit_mask_iff less_Suc_eq numeral_eq_Suc)
qed

text \<open>Marking an entry copy-on-write hides the write permission, and resolving it restores it.\<close>

lemma cow_round:
  "to_page_perm (restore_cow_writable (prepare_cow f)) = to_page_perm f OR PERM_W"
  by (rule bit_eqI) (auto simp: flag_ops bit_or_iff)

lemma prepare_cow_perm:
  "\<not> writable (to_page_perm (prepare_cow f))"
  "perm_user (to_page_perm (prepare_cow f)) = perm_user (to_page_perm f)"
  "readable (to_page_perm (prepare_cow f)) = readable (to_page_perm f)"
  "executable (to_page_perm (prepare_cow f)) = executable (to_page_perm f)"
  "flags_valid (prepare_cow f) = flags_valid f"
  by (simp_all add: flag_ops)

lemma from_token_make_satp:
  assumes "asid < 2 ^ 16"
  shows "from_token (make_satp root asid) = asid"
proof -
  have "take_bit 16 (drop_bit 44 (make_satp root asid)) = (word_of_nat asid :: 64 word)"
  proof (rule bit_word_eqI)
    fix n
    assume "n < LENGTH(64)"
    have m: "(0xFFFF :: 64 word) = mask 16" by (simp add: mask_eq_exp_minus_1)
    have e: "push_bit 60 8 = (2 ^ 63 :: 64 word)" by (simp add: push_bit_eq_mult)
    have a: "bit asid n \<Longrightarrow> n < 16"
      using assms by (metis bit_nat_iff bit_take_bit_iff take_bit_nat_eq_self_iff)
    show "bit (take_bit 16 (drop_bit 44 (make_satp root asid))) n =
        bit (word_of_nat asid :: 64 word) n"
      unfolding make_satp_def mask44 m e
      using a by (auto simp: bit_take_bit_iff bit_drop_bit_eq bit_or_iff bit_and_iff
          bit_push_bit_iff bit_mask_iff bit_pow bit_of_nat_iff)
  qed
  moreover have "(0xFFFF :: 64 word) = mask 16" by (simp add: mask_eq_exp_minus_1)
  ultimately have "drop_bit 44 (make_satp root asid) AND 0xFFFF = word_of_nat asid"
    by (simp only: take_bit_eq_mask)
  then show ?thesis
    using assms by (simp add: from_token_def unsigned_ucast_eq unsigned_of_nat
        take_bit_nat_eq_self)
qed

section \<open>Indexes of a virtual page number\<close>

lemma vpn_index:
  "vpn_indexes v ! 0 = v mod 512" "vpn_indexes v ! 1 = v div 512 mod 512"
  "vpn_indexes v ! 2 = v div 512 div 512 mod 512"
proof -
  have m: "(511 :: nat) = mask 9" by (simp add: mask_eq_exp_minus_1)
  have a: "n AND 511 = n mod 512" for n :: nat
    unfolding m by (simp add: take_bit_eq_mask [symmetric] take_bit_eq_mod)
  show "vpn_indexes v ! 0 = v mod 512" "vpn_indexes v ! 1 = v div 512 mod 512"
    "vpn_indexes v ! 2 = v div 512 div 512 mod 512"
    by (simp_all add: vpn_indexes_def a drop_bit_eq_div div_mult2_eq [symmetric])
qed

lemma vpn_index_bound:
  assumes "k < 3"
  shows "vpn_indexes v ! k < 512"
proof -
  from assms have "k = 0 \<or> k = 1 \<or> k = 2" by auto
  then show ?thesis
    using vpn_index(1) [of v] vpn_index(2) [of v] vpn_index(3) [of v] by auto
qed

lemma vpn_of_indexes:
  "v mod 2 ^ 27 = vpn_indexes v ! 0 + 512 * (vpn_indexes v ! 1 + 512 * vpn_indexes v ! 2)"
proof -
  have "v mod (512 * (512 * 512)) =
      v mod 512 + 512 * (v div 512 mod 512 + 512 * (v div 512 div 512 mod 512))"
    by (metis mod_mult2_eq add.commute)
  then show ?thesis unfolding vpn_index by simp
qed

text \<open>
  The allocator of user address space identifiers (\<open>mm-impl/impl-sv39/src/asid.rs\<close>): a
  bitmap of 1024 words of 64 bits and the number of identifiers the hardware implements.
  Identifier 0 is the kernel's; a machine that implements none hands it to everyone.
\<close>

definition KERNEL_ASID :: nat where "KERNEL_ASID = 0"
definition MAX_ASID_BITS :: nat where "MAX_ASID_BITS = 16"
definition MAX_ASID_COUNT :: nat where "MAX_ASID_COUNT = 2 ^ MAX_ASID_BITS"

record asid_allocator =
  asid_bits :: "64 word list"
  asid_limit :: nat

definition asid_new :: asid_allocator where
  "asid_new = \<lparr>asid_bits = replicate (MAX_ASID_COUNT div 64) 0, asid_limit = MAX_ASID_COUNT\<rparr>"

definition asid_initialize :: "nat \<Rightarrow> asid_allocator \<Rightarrow> asid_allocator" where
  "asid_initialize implemented_bits s =
     (let bits = min implemented_bits MAX_ASID_BITS
      in s\<lparr>asid_limit := if bits = 0 then 1 else 2 ^ bits\<rparr>)"

text \<open>The body of the search loop: is the bit of \<open>raw\<close> set?\<close>

definition asid_taken :: "asid_allocator \<Rightarrow> nat \<Rightarrow> bool" where
  "asid_taken s raw \<longleftrightarrow> asid_bits s ! (raw div 64) AND push_bit (raw mod 64) 1 \<noteq> 0"

definition asid_allocate :: "asid_allocator \<Rightarrow> asid_allocator \<times> nat option" where
  "asid_allocate s =
     (if asid_limit s = 1 then (s, Some KERNEL_ASID)
      else case find (\<lambda>raw. \<not> asid_taken s raw) [1..<asid_limit s] of
             None \<Rightarrow> (s, None)
           | Some raw \<Rightarrow>
               (s\<lparr>asid_bits := (asid_bits s)[raw div 64 :=
                   asid_bits s ! (raw div 64) OR push_bit (raw mod 64) 1]\<rparr>, Some raw))"

definition asid_release :: "nat \<Rightarrow> asid_allocator \<Rightarrow> asid_allocator" where
  "asid_release raw s =
     (if raw = KERNEL_ASID \<or> asid_limit s \<le> raw then s
      else s\<lparr>asid_bits := (asid_bits s)[raw div 64 :=
             asid_bits s ! (raw div 64) AND NOT (push_bit (raw mod 64) 1)]\<rparr>)"

definition allocate_user :: "asid_allocator \<Rightarrow> asid_allocator \<times> (mm_error, nat) result" where
  "allocate_user s = (case asid_allocate s of (s', r) \<Rightarrow> (s', ok_or MmOutOfMemory r))"

section \<open>The identifiers in use\<close>

definition asid_inv :: "asid_allocator \<Rightarrow> bool" where
  "asid_inv s \<longleftrightarrow> length (asid_bits s) = 1024 \<and> 1 \<le> asid_limit s \<and> asid_limit s \<le> 2 ^ 16"

definition asids :: "asid_allocator \<Rightarrow> nat set" where
  "asids s = {raw. raw < asid_limit s \<and> asid_taken s raw}"

lemma asid_taken_bit: "asid_taken s raw \<longleftrightarrow> bit (asid_bits s ! (raw div 64)) (raw mod 64)"
  by (simp add: asid_taken_def push_bit_eq_mult and_exp_eq_0_iff_not_bit)

lemma asid_slot:
  assumes "asid_inv s" and "a < asid_limit s"
  shows "a div 64 < length (asid_bits s)"
  using assms by (auto simp: asid_inv_def)

lemma same_bit: "a = (b :: nat) \<longleftrightarrow> a div m = b div m \<and> a mod m = b mod m"
  by (metis div_mult_mod_eq)

lemma bitmap_set:
  "q < length L \<Longrightarrow> r < 64 \<Longrightarrow>
     bit (L[q := L ! q OR 2 ^ r] ! q' :: 64 word) r' \<longleftrightarrow> q' = q \<and> r' = r \<or> bit (L ! q') r'"
  by (auto simp: nth_list_update bit_or_iff bit_pow)

lemma bitmap_clear:
  "q < length L \<Longrightarrow> r < 64 \<Longrightarrow> r' < 64 \<Longrightarrow>
     bit (L[q := L ! q AND NOT (2 ^ r)] ! q' :: 64 word) r' \<longleftrightarrow>
       \<not> (q' = q \<and> r' = r) \<and> bit (L ! q') r'"
  by (auto simp: nth_list_update bit_and_iff bit_not_iff bit_pow)

lemma asid_set_taken:
  assumes "asid_inv s" and "a < asid_limit s"
  shows "asid_taken (s\<lparr>asid_bits := (asid_bits s)[a div 64 :=
           asid_bits s ! (a div 64) OR 2 ^ (a mod 64)]\<rparr>) b \<longleftrightarrow> b = a \<or> asid_taken s b"
  unfolding asid_taken_bit same_bit [of b a 64]
  using bitmap_set [OF asid_slot [OF assms], of "a mod 64" "b div 64" "b mod 64"] by simp

lemma asid_clear_taken:
  assumes "asid_inv s" and "a < asid_limit s"
  shows "asid_taken (s\<lparr>asid_bits := (asid_bits s)[a div 64 :=
           asid_bits s ! (a div 64) AND NOT (2 ^ (a mod 64))]\<rparr>) b \<longleftrightarrow>
         b \<noteq> a \<and> asid_taken s b"
  unfolding asid_taken_bit same_bit [of b a 64]
  using bitmap_clear [OF asid_slot [OF assms], of "a mod 64" "b mod 64" "b div 64"] by simp

lemma asid_allocate_spec:
  assumes inv: "asid_inv s" and a: "asid_allocate s = (s', r)"
  shows "asid_inv s' \<and> asid_limit s' = asid_limit s \<and>
    (case r of
       None \<Rightarrow> s' = s \<and> 1 < asid_limit s \<and> {1..<asid_limit s} \<subseteq> asids s
     | Some x \<Rightarrow>
         if asid_limit s = 1 then x = KERNEL_ASID \<and> s' = s
         else 0 < x \<and> x < asid_limit s \<and> x \<notin> asids s \<and> asids s' = insert x (asids s))"
proof (cases "asid_limit s = 1")
  case True
  with a inv show ?thesis by (auto simp: asid_allocate_def)
next
  case False
  note big = this
  show ?thesis
  proof (cases "find (\<lambda>raw. \<not> asid_taken s raw) [1..<asid_limit s]")
    case None
    with big a have "s' = s" "r = None" by (auto simp: asid_allocate_def)
    with None big inv show ?thesis by (auto simp: asids_def find_None_iff asid_inv_def)
  next
    case (Some x)
    from Some have "x \<in> set [1..<asid_limit s]" "\<not> asid_taken s x"
      by (auto simp: find_Some_iff)
    then have x: "0 < x" "x < asid_limit s" "\<not> asid_taken s x" by auto
    let ?s = "s\<lparr>asid_bits := (asid_bits s)[x div 64 :=
                  asid_bits s ! (x div 64) OR 2 ^ (x mod 64)]\<rparr>"
    from big a have "(s', r) = (?s, Some x)"
      unfolding asid_allocate_def Some by (simp add: push_bit_eq_mult)
    then have s': "s' = ?s" and r: "r = Some x" by auto
    from x inv have "asids ?s = insert x (asids s)"
      by (auto simp: asids_def asid_set_taken)
    with x big inv show ?thesis
      unfolding s' r by (simp add: asids_def asid_inv_def)
  qed
qed

lemma asid_release_spec:
  assumes inv: "asid_inv s"
  shows "asid_inv (asid_release raw s)" "asid_limit (asid_release raw s) = asid_limit s"
    "raw \<noteq> KERNEL_ASID \<Longrightarrow> asids (asid_release raw s) = asids s - {raw}"
    "raw = KERNEL_ASID \<Longrightarrow> asid_release raw s = s"
proof -
  show "asid_inv (asid_release raw s)" "asid_limit (asid_release raw s) = asid_limit s"
    "raw = KERNEL_ASID \<Longrightarrow> asid_release raw s = s"
    using assms by (simp_all add: asid_release_def asid_inv_def)
  show "asids (asid_release raw s) = asids s - {raw}" if "raw \<noteq> KERNEL_ASID"
  proof (cases "asid_limit s \<le> raw")
    case True
    then show ?thesis by (auto simp: asid_release_def asids_def)
  next
    case False
    with that have "asid_release raw s = s\<lparr>asid_bits := (asid_bits s)[raw div 64 :=
             asid_bits s ! (raw div 64) AND NOT (2 ^ (raw mod 64))]\<rparr>"
      by (simp add: asid_release_def)
    with asid_clear_taken [OF inv, of raw] False show ?thesis by (auto simp: asids_def)
  qed
qed

end
