(* ===== verification/Sv39_Table.thy ===== *)
theory Sv39_Table
  imports Sv39_Pte Zeroed_Pool
begin

text \<open>
  The three-level Sv39 page table (\<open>mm-impl/impl-sv39/src/pagetable.rs\<close>). Physical
  memory is a function from a frame and a word index to the 64-bit word there, which is how
  \<open>table_mut\<close> reads a frame as 512 entries under the kernel's identity mapping; the frame
  allocator is the one of \<open>Zeroed_Pool\<close>. A walk is the loop over the levels 2, 1, 0;
  a reference to a slot of a table is the pair of its frame and index.

  A zeroed frame has its bytes cleared before it enters the cache, or right after its raw
  allocation. Nobody reads a cached frame in between, so the model clears the words of a frame
  when the zeroed path hands it out.
\<close>

section \<open>Memory\<close>

type_synonym phys_words = "nat \<Rightarrow> nat \<Rightarrow> pte"

record phys =
  phys_words :: phys_words
  phys_frames :: frame_globals

definition mm_of_frame_error :: "frame_alloc_error \<Rightarrow> mm_error" where
  "mm_of_frame_error e =
     (case e of OutOfMemory \<Rightarrow> MmOutOfMemory | InvalidFrame \<Rightarrow> InvalidAddress
      | Unsupported \<Rightarrow> MmUnsupported)"

definition map_frame_error :: "(frame_alloc_error, 'a) result \<Rightarrow> (mm_error, 'a) result" where
  "map_frame_error r = (case r of Inl e \<Rightarrow> Inl (mm_of_frame_error e) | Inr x \<Rightarrow> Inr x)"

definition pte_at :: "phys \<Rightarrow> nat \<times> nat \<Rightarrow> pte" where
  "pte_at s slot = phys_words s (fst slot) (snd slot)"

definition put_pte :: "nat \<times> nat \<Rightarrow> pte \<Rightarrow> phys \<Rightarrow> phys" where
  "put_pte slot e s =
     s\<lparr>phys_words := (phys_words s)(fst slot := (phys_words s (fst slot))(snd slot := e))\<rparr>"

definition zero_phys_page :: "nat \<Rightarrow> phys \<Rightarrow> phys" where
  "zero_phys_page ppn s = s\<lparr>phys_words := (phys_words s)(ppn := (\<lambda>_. 0))\<rparr>"

definition copy_phys_page :: "nat \<Rightarrow> nat \<Rightarrow> phys \<Rightarrow> phys" where
  "copy_phys_page src dst s = s\<lparr>phys_words := (phys_words s)(dst := phys_words s src)\<rparr>"

definition alloc_table_frame_zeroed :: "phys \<Rightarrow> phys \<times> (mm_error, nat) result" where
  "alloc_table_frame_zeroed s =
     (case frame_alloc_zeroed_result (phys_frames s) of
        (g, Inl e) \<Rightarrow> (s\<lparr>phys_frames := g\<rparr>, Inl (mm_of_frame_error e))
      | (g, Inr p) \<Rightarrow> (zero_phys_page p (s\<lparr>phys_frames := g\<rparr>), Inr p))"

definition phys_alloc :: "phys \<Rightarrow> phys \<times> (mm_error, nat) result" where
  "phys_alloc s =
     (case frame_alloc_result (phys_frames s) of
        (g, r) \<Rightarrow> (s\<lparr>phys_frames := g\<rparr>, map_frame_error r))"

definition phys_dealloc :: "nat \<Rightarrow> phys \<Rightarrow> phys \<times> (mm_error, unit) result" where
  "phys_dealloc p s =
     (case frame_dealloc_result p (phys_frames s) of
        (g, r) \<Rightarrow> (s\<lparr>phys_frames := g\<rparr>, map_frame_error r))"

definition frame_inc_ref :: "nat \<Rightarrow> frame_globals \<Rightarrow> frame_globals \<times> (frame_alloc_error, nat) result"
where
  "frame_inc_ref p g = (case inc_ref p (alloc_state g) of (s, r) \<Rightarrow> (g\<lparr>alloc_state := s\<rparr>, r))"

definition frame_ref_count :: "nat \<Rightarrow> frame_globals \<Rightarrow> (frame_alloc_error, nat) result" where
  "frame_ref_count p g = ref_count p (alloc_state g)"

definition phys_inc_ref :: "nat \<Rightarrow> phys \<Rightarrow> phys \<times> (mm_error, nat) result" where
  "phys_inc_ref p s =
     (case frame_inc_ref p (phys_frames s) of
        (g, r) \<Rightarrow> (s\<lparr>phys_frames := g\<rparr>, map_frame_error r))"

section \<open>Walks\<close>

definition SV39_LEVELS :: nat where "SV39_LEVELS = 3"
definition SV39_ENTRIES :: nat where "SV39_ENTRIES = 512"

text \<open>The loop of \<open>walk_create\<close> from a table at \<open>level\<close> down to the leaf slot.\<close>

primrec walk_create_from ::
  "nat list \<Rightarrow> nat \<Rightarrow> nat \<Rightarrow> phys \<Rightarrow> phys \<times> (mm_error, nat \<times> nat) result" where
  "walk_create_from ix 0 ppn s = (s, Inr (ppn, ix ! 0))"
| "walk_create_from ix (Suc level) ppn s =
     (let slot = (ppn, ix ! Suc level); flags = pte_flags_of (pte_at s slot)
      in if \<not> flags_valid flags then
           (case alloc_table_frame_zeroed s of
              (s1, Inl e) \<Rightarrow> (s1, Inl e)
            | (s1, Inr child) \<Rightarrow>
                let s2 = put_pte slot (pte_set child FLAG_V) s1
                in walk_create_from ix level (pte_ppn (pte_at s2 slot)) s2)
         else if flags_leaf flags then (s, Inl AlreadyMapped)
         else walk_create_from ix level (pte_ppn (pte_at s slot)) s)"

definition walk_create :: "nat \<Rightarrow> nat \<Rightarrow> phys \<Rightarrow> phys \<times> (mm_error, nat \<times> nat) result" where
  "walk_create root vpn s = walk_create_from (vpn_indexes vpn) (SV39_LEVELS - 1) root s"

text \<open>The loop of \<open>walk_find\<close>: the slot found and its level.\<close>

primrec walk_find_from ::
  "nat list \<Rightarrow> nat \<Rightarrow> nat \<Rightarrow> phys \<Rightarrow> ((nat \<times> nat) \<times> nat) option" where
  "walk_find_from ix 0 ppn s =
     (if \<not> flags_valid (pte_flags_of (pte_at s (ppn, ix ! 0))) then None
      else Some ((ppn, ix ! 0), 0))"
| "walk_find_from ix (Suc level) ppn s =
     (let slot = (ppn, ix ! Suc level); flags = pte_flags_of (pte_at s slot)
      in if \<not> flags_valid flags then None
         else if flags_leaf flags then Some (slot, Suc level)
         else walk_find_from ix level (pte_ppn (pte_at s slot)) s)"

definition walk_find :: "nat \<Rightarrow> nat \<Rightarrow> phys \<Rightarrow> ((nat \<times> nat) \<times> nat) option" where
  "walk_find root vpn s = walk_find_from (vpn_indexes vpn) (SV39_LEVELS - 1) root s"

section \<open>The operations of an address space on pages\<close>

definition map_page_to_ppn ::
  "nat \<Rightarrow> nat \<Rightarrow> nat \<Rightarrow> page_perm \<Rightarrow> phys \<Rightarrow> phys \<times> (mm_error, unit) result" where
  "map_page_to_ppn root vpn ppn p s =
     (case walk_create root vpn s of
        (s1, Inl e) \<Rightarrow> (s1, Inl e)
      | (s1, Inr slot) \<Rightarrow>
          if flags_valid (pte_flags_of (pte_at s1 slot)) then (s1, Inl AlreadyMapped)
          else (put_pte slot (pte_set ppn (from_perm p)) s1, Inr ()))"

definition unmap_page_to_ppn ::
  "nat \<Rightarrow> nat \<Rightarrow> phys \<Rightarrow> phys \<times> (mm_error, nat option) result" where
  "unmap_page_to_ppn root vpn s =
     (case walk_find root vpn s of
        None \<Rightarrow> (s, Inr None)
      | Some (slot, level) \<Rightarrow>
          if \<not> is_leaf_at_level (pte_flags_of (pte_at s slot)) level then (s, Inr None)
          else (put_pte slot 0 s, Inr (Some (pte_ppn (pte_at s slot)))))"

definition protect_page ::
  "nat \<Rightarrow> nat \<Rightarrow> page_perm \<Rightarrow> phys \<Rightarrow> phys \<times> (mm_error, unit) result" where
  "protect_page root vpn p s =
     (case walk_find root vpn s of
        None \<Rightarrow> (s, Inl NotMapped)
      | Some (slot, level) \<Rightarrow>
          if \<not> is_leaf_at_level (pte_flags_of (pte_at s slot)) level then (s, Inl NotMapped)
          else (put_pte slot (pte_set (pte_ppn (pte_at s slot)) (from_perm p)) s, Inr ()))"

definition floor_page :: "nat \<Rightarrow> nat" where "floor_page va = va div page_size"
definition page_offset :: "nat \<Rightarrow> nat" where "page_offset va = va AND (page_size - 1)"
definition ceil_page :: "nat \<Rightarrow> nat" where "ceil_page va = (va + page_size - 1) div page_size"
definition page_addr :: "nat \<Rightarrow> nat" where "page_addr vpn = vpn * page_size"

definition translate_addr_with_perm ::
  "nat \<Rightarrow> nat \<Rightarrow> phys \<Rightarrow> (mm_error, (nat \<times> page_perm) option) result" where
  "translate_addr_with_perm root va s =
     (case walk_find root (floor_page va) s of
        None \<Rightarrow> Inr None
      | Some (slot, level) \<Rightarrow>
          if \<not> is_leaf_at_level (pte_flags_of (pte_at s slot)) level then Inr None
          else if level \<noteq> 0 then Inl MmUnsupported
          else Inr (Some (pte_ppn (pte_at s slot) * page_size + page_offset va,
                          to_page_perm (pte_flags_of (pte_at s slot)))))"

definition translate_addr :: "nat \<Rightarrow> nat \<Rightarrow> phys \<Rightarrow> (mm_error, nat option) result" where
  "translate_addr root va s =
     (case walk_find root (floor_page va) s of
        None \<Rightarrow> Inr None
      | Some (slot, level) \<Rightarrow>
          if \<not> is_leaf_at_level (pte_flags_of (pte_at s slot)) level then Inr None
          else if level \<noteq> 0 then Inl MmUnsupported
          else Inr (Some (pte_ppn (pte_at s slot) * page_size + page_offset va)))"

definition leaf_page_perm :: "nat \<Rightarrow> nat \<Rightarrow> phys \<Rightarrow> (mm_error, page_perm option) result" where
  "leaf_page_perm root vpn s =
     (case walk_find root vpn s of
        None \<Rightarrow> Inr None
      | Some (slot, level) \<Rightarrow>
          if \<not> is_leaf_at_level (pte_flags_of (pte_at s slot)) level then Inr None
          else Inr (Some (to_page_perm (pte_flags_of (pte_at s slot)))))"

text \<open>The default methods of the trait that pair a mapping with its frame.\<close>

definition map_page_with_alloc ::
  "nat \<Rightarrow> nat \<Rightarrow> page_perm \<Rightarrow> phys \<Rightarrow> phys \<times> (mm_error, unit) result" where
  "map_page_with_alloc root vpn p s =
     (case phys_alloc s of
        (s1, Inl e) \<Rightarrow> (s1, Inl e)
      | (s1, Inr ppn) \<Rightarrow> map_page_to_ppn root vpn ppn p s1)"

definition unmap_page_with_alloc ::
  "nat \<Rightarrow> nat \<Rightarrow> phys \<Rightarrow> phys \<times> (mm_error, bool) result" where
  "unmap_page_with_alloc root vpn s =
     (case unmap_page_to_ppn root vpn s of
        (s1, Inl e) \<Rightarrow> (s1, Inl e)
      | (s1, Inr None) \<Rightarrow> (s1, Inr False)
      | (s1, Inr (Some ppn)) \<Rightarrow>
          (case phys_dealloc ppn s1 of
             (s2, Inl e) \<Rightarrow> (s2, Inl e)
           | (s2, Inr u) \<Rightarrow> (s2, Inr True)))"

end
