(* ===== verification/Sv39_Tree.thy ===== *)
theory Sv39_Tree
  imports Sv39_Table
begin

text \<open>
  The shape of a page table: the frames of the tables below a level, the absence of leaves
  above the last level, and the entry a walk ends at. A list of indexes restricts each notion
  to some entries of the top table, which is what a loop over the entries has dealt with.
\<close>

section \<open>Tables, properness, entries\<close>

abbreviation e_valid :: "pte \<Rightarrow> bool" where "e_valid e \<equiv> flags_valid (pte_flags_of e)"
abbreviation e_leaf :: "pte \<Rightarrow> bool" where "e_leaf e \<equiv> flags_leaf (pte_flags_of e)"
abbreviation all_idx :: "nat list" where "all_idx \<equiv> [0..<512]"

primrec subtables :: "phys_words \<Rightarrow> nat \<Rightarrow> nat list \<Rightarrow> nat \<Rightarrow> nat list" where
  "subtables w 0 is p = []"
| "subtables w (Suc l) is p =
     concat (map (\<lambda>i. if e_valid (w p i)
                       then pte_ppn (w p i) # subtables w l all_idx (pte_ppn (w p i)) else []) is)"

primrec proper :: "phys_words \<Rightarrow> nat \<Rightarrow> nat list \<Rightarrow> nat \<Rightarrow> bool" where
  "proper w 0 is p \<longleftrightarrow> True"
| "proper w (Suc l) is p \<longleftrightarrow>
     (\<forall>i \<in> set is. e_valid (w p i) \<longrightarrow> \<not> e_leaf (w p i) \<and> proper w l all_idx (pte_ppn (w p i)))"

primrec leaf_slot :: "phys_words \<Rightarrow> nat \<Rightarrow> nat \<Rightarrow> nat list \<Rightarrow> (nat \<times> nat) option" where
  "leaf_slot w 0 p ix = Some (p, ix ! 0)"
| "leaf_slot w (Suc l) p ix =
     (if e_valid (w p (ix ! Suc l)) then leaf_slot w l (pte_ppn (w p (ix ! Suc l))) ix else None)"

definition entry :: "phys_words \<Rightarrow> nat \<Rightarrow> nat \<Rightarrow> nat list \<Rightarrow> pte" where
  "entry w l p ix = (case leaf_slot w l p ix of None \<Rightarrow> 0 | Some (q, i) \<Rightarrow> w q i)"

text \<open>Two walks take the same path when their indexes agree at every level they use.\<close>

definition same_path :: "nat \<Rightarrow> nat list \<Rightarrow> nat list \<Rightarrow> bool" where
  "same_path l ix jx \<longleftrightarrow> (\<forall>k \<le> l. ix ! k = jx ! k)"

definition path_ok :: "nat \<Rightarrow> nat list \<Rightarrow> bool" where
  "path_ok l ix \<longleftrightarrow> (\<forall>k \<le> l. ix ! k < 512)"

lemma zero_invalid [simp]: "\<not> e_valid 0" "pte_flags_of 0 = 0"
  by (auto simp: bit_pte_flags_of pte_flags_of_def)

lemma entry_0 [simp]: "entry w 0 p ix = w p (ix ! 0)"
  by (simp add: entry_def)

lemma entry_Suc [simp]:
  "entry w (Suc l) p ix =
     (if e_valid (w p (ix ! Suc l)) then entry w l (pte_ppn (w p (ix ! Suc l))) ix else 0)"
  by (simp add: entry_def)

lemma subtables_append: "subtables w l (is @ js) p = subtables w l is p @ subtables w l js p"
  by (cases l) auto

lemma subtables_Cons:
  "subtables w (Suc l) (i # is) p =
     (if e_valid (w p i) then pte_ppn (w p i) # subtables w l all_idx (pte_ppn (w p i)) else []) @
     subtables w (Suc l) is p"
  by simp

lemma subtables_Nil [simp]: "subtables w l [] p = []"
  by (cases l) auto

lemma proper_Nil [simp]: "proper w l [] p"
  by (cases l) auto

lemma subtable_mem:
  "e_valid (w p i) \<Longrightarrow> i \<in> set is \<Longrightarrow>
     set (pte_ppn (w p i) # subtables w l all_idx (pte_ppn (w p i))) \<subseteq> set (subtables w (Suc l) is p)"
  by auto

lemma path_ok_Suc: "path_ok (Suc l) ix \<Longrightarrow> path_ok l ix" "path_ok l ix \<Longrightarrow> ix ! l < 512"
  by (auto simp: path_ok_def)

lemma same_path_Suc: "same_path (Suc l) ix jx \<longleftrightarrow> ix ! Suc l = jx ! Suc l \<and> same_path l ix jx"
  by (auto simp: same_path_def le_Suc_eq)

section \<open>A tree depends on its tables only\<close>

lemma tables_cong:
  assumes "\<And>i. i \<in> set is \<Longrightarrow> w' p i = w p i"
    and "\<And>q. q \<in> set (subtables w l is p) \<Longrightarrow> w' q = w q"
  shows "subtables w' l is p = subtables w l is p \<and> proper w' l is p = proper w l is p"
  using assms
proof (induction l arbitrary: "is" p)
  case (Suc l)
  have IH: "subtables w' l all_idx (pte_ppn (w p i)) = subtables w l all_idx (pte_ppn (w p i)) \<and>
      proper w' l all_idx (pte_ppn (w p i)) = proper w l all_idx (pte_ppn (w p i))"
    if "i \<in> set is" "e_valid (w p i)" for i
  proof (rule Suc.IH)
    from subtable_mem [of w p i "is" l, OF that(2,1)]
    show "w' (pte_ppn (w p i)) j = w (pte_ppn (w p i)) j" for j
      using Suc.prems(2) [of "pte_ppn (w p i)"] by auto
    show "w' q = w q" if "q \<in> set (subtables w l all_idx (pte_ppn (w p i)))" for q
      using \<open>set (pte_ppn (w p i) # subtables w l all_idx (pte_ppn (w p i))) \<subseteq> _\<close> that
        Suc.prems(2) [of q] by auto
  qed
  have "subtables w' (Suc l) is p = subtables w (Suc l) is p"
    unfolding subtables.simps
    by (rule arg_cong [where f = concat], rule map_cong [OF refl]) (simp add: Suc.prems(1) IH)
  moreover have "proper w' (Suc l) is p = proper w (Suc l) is p"
    by (auto simp: Suc.prems(1) IH)
  ultimately show ?case by simp
qed simp

lemma leaf_slot_cong:
  assumes "path_ok l ix" and "\<And>q. q \<in> set (p # subtables w l all_idx p) \<Longrightarrow> w' q = w q"
  shows "leaf_slot w' l p ix = leaf_slot w l p ix"
  using assms
proof (induction l arbitrary: p)
  case (Suc l)
  have p: "w' p = w p" using Suc.prems(2) by simp
  show ?case
  proof (cases "e_valid (w p (ix ! Suc l))")
    case True
    have "ix ! Suc l \<in> set all_idx" using Suc.prems(1) by (auto simp: path_ok_def)
    from subtable_mem [of w p "ix ! Suc l" all_idx l, OF True this]
    have "\<And>q. q \<in> set (pte_ppn (w p (ix ! Suc l)) #
        subtables w l all_idx (pte_ppn (w p (ix ! Suc l)))) \<Longrightarrow> w' q = w q"
      using Suc.prems(2) by auto
    from Suc.IH [OF path_ok_Suc(1) [OF Suc.prems(1)] this] True p show ?thesis by simp
  qed (simp add: p)
qed simp

lemma leaf_slot_mem:
  assumes "path_ok l ix" and "leaf_slot w l p ix = Some (q, i)"
  shows "q \<in> set (p # subtables w l all_idx p) \<and> i = ix ! 0"
  using assms
proof (induction l arbitrary: p)
  case (Suc l)
  from Suc.prems(2) have v: "e_valid (w p (ix ! Suc l))"
    and s: "leaf_slot w l (pte_ppn (w p (ix ! Suc l))) ix = Some (q, i)"
    by (auto split: if_splits)
  have "ix ! Suc l \<in> set all_idx" using Suc.prems(1) by (auto simp: path_ok_def)
  from subtable_mem [of w p "ix ! Suc l" all_idx l, OF v this] Suc.IH [OF path_ok_Suc(1) [OF Suc.prems(1)] s]
  show ?case by auto
qed auto

lemma entry_cong:
  assumes "path_ok l ix" and "\<And>q. q \<in> set (p # subtables w l all_idx p) \<Longrightarrow> w' q = w q"
  shows "entry w' l p ix = entry w l p ix"
  using leaf_slot_cong [of l ix p w w', OF assms] leaf_slot_mem [OF assms(1), of w p] assms(2)
  by (auto simp: entry_def split: option.splits)

section \<open>Trees\<close>

lemma distinct_concat_map:
  assumes "distinct xs"
  shows "distinct (concat (map f xs)) \<longleftrightarrow> (\<forall>i \<in> set xs. distinct (f i)) \<and>
     (\<forall>i \<in> set xs. \<forall>j \<in> set xs. i \<noteq> j \<longrightarrow> set (f i) \<inter> set (f j) = {})"
  using assms
proof (induction xs)
  case (Cons x xs)
  then have IH: "distinct (concat (map f xs)) \<longleftrightarrow> (\<forall>i \<in> set xs. distinct (f i)) \<and>
     (\<forall>i \<in> set xs. \<forall>j \<in> set xs. i \<noteq> j \<longrightarrow> set (f i) \<inter> set (f j) = {})" and n: "x \<notin> set xs"
    by auto
  have "distinct (concat (map f (x # xs))) \<longleftrightarrow> distinct (f x) \<and> distinct (concat (map f xs)) \<and>
      (\<forall>j \<in> set xs. set (f x) \<inter> set (f j) = {})" by auto
  moreover have "(\<forall>i \<in> set (x # xs). \<forall>j \<in> set (x # xs). i \<noteq> j \<longrightarrow> Q i j) \<longleftrightarrow>
      (\<forall>j \<in> set xs. Q x j) \<and> (\<forall>i \<in> set xs. \<forall>j \<in> set xs. i \<noteq> j \<longrightarrow> Q i j)"
    if "\<And>i j. Q i j \<Longrightarrow> Q j i" for Q
    using n that by auto
  from this [of "\<lambda>i j. set (f i) \<inter> set (f j) = {}"]
  have "(\<forall>i \<in> set (x # xs). \<forall>j \<in> set (x # xs). i \<noteq> j \<longrightarrow> set (f i) \<inter> set (f j) = {}) \<longleftrightarrow>
      (\<forall>j \<in> set xs. set (f x) \<inter> set (f j) = {}) \<and>
      (\<forall>i \<in> set xs. \<forall>j \<in> set xs. i \<noteq> j \<longrightarrow> set (f i) \<inter> set (f j) = {})"
    by (simp only: Int_commute)
  moreover have "(\<forall>i \<in> set (x # xs). distinct (f i)) \<longleftrightarrow>
      distinct (f x) \<and> (\<forall>i \<in> set xs. distinct (f i))" by simp
  ultimately show ?case using IH by argo
qed simp

text \<open>The tables reached through one entry.\<close>

definition seg :: "phys_words \<Rightarrow> nat \<Rightarrow> nat \<Rightarrow> nat \<Rightarrow> nat list" where
  "seg w l p i =
     (if e_valid (w p i) then pte_ppn (w p i) # subtables w l all_idx (pte_ppn (w p i)) else [])"

definition tset :: "phys_words \<Rightarrow> nat \<Rightarrow> nat \<Rightarrow> nat set" where
  "tset w l p = set (p # subtables w l all_idx p)"

definition tree :: "phys_words \<Rightarrow> nat \<Rightarrow> nat \<Rightarrow> bool" where
  "tree w l p \<longleftrightarrow> proper w l all_idx p \<and> distinct (p # subtables w l all_idx p)"

lemma subtables_seg: "subtables w (Suc l) is p = concat (map (seg w l p) is)"
  by (simp add: seg_def [abs_def])

lemma set_seg: "set (seg w l p i) = (if e_valid (w p i) then tset w l (pte_ppn (w p i)) else {})"
  by (auto simp: seg_def tset_def)

lemma seg_pairs:
  fixes n :: nat
  assumes "\<And>i. \<not> v i \<Longrightarrow> A i"
  shows "((\<forall>i \<in> {0..<n}. A i) \<and> (\<forall>i \<in> {0..<n}. \<forall>j \<in> {0..<n}. i \<noteq> j \<longrightarrow>
      (if v i then T i else {}) \<inter> (if v j then T j else {}) = {})) \<longleftrightarrow>
    (\<forall>i < n. v i \<longrightarrow> A i \<and> (\<forall>j < n. v j \<longrightarrow> i \<noteq> j \<longrightarrow> T i \<inter> T j = {}))"
  (is "?L \<longleftrightarrow> ?R")
proof
  assume L: ?L
  show ?R
  proof (intro conjI allI impI)
    fix i assume i: "i < n" "v i"
    with L show "A i" by simp
    fix j assume j: "j < n" "v j" "i \<noteq> j"
    with i have "i \<in> {0..<n}" "j \<in> {0..<n}" by simp_all
    with L j(3) have "(if v i then T i else {}) \<inter> (if v j then T j else {}) = {}" by blast
    with i j show "T i \<inter> T j = {}" by simp
  qed
next
  assume R: ?R
  show ?L
  proof (intro conjI ballI impI)
    fix i assume i: "i \<in> {0..<n}"
    show "A i" using R assms i by (cases "v i") auto
    fix j assume "j \<in> {0..<n}" "i \<noteq> j"
    with R i show "(if v i then T i else {}) \<inter> (if v j then T j else {}) = {}" by simp
  qed
qed

lemma tset_0 [simp]: "tset w 0 p = {p}"
  by (simp add: tset_def)

lemma tree_0 [simp]: "tree w 0 p"
  by (simp add: tree_def)

lemma tset_self [simp]: "p \<in> tset w l p"
  by (simp add: tset_def)

lemma tset_Suc: "tset w (Suc l) p = insert p (\<Union>i \<in> {i. i < 512 \<and> e_valid (w p i)}. tset w l (pte_ppn (w p i)))"
proof -
  have "set (subtables w (Suc l) all_idx p) =
      (\<Union>i \<in> {i. i < 512 \<and> e_valid (w p i)}. tset w l (pte_ppn (w p i)))"
    by (simp only: subtables_seg set_concat set_map image_image set_seg) auto
  then show ?thesis by (simp only: tset_def list.set(2))
qed

lemma tree_Suc:
  "tree w (Suc l) p \<longleftrightarrow>
     (\<forall>i < 512. e_valid (w p i) \<longrightarrow> \<not> e_leaf (w p i) \<and> tree w l (pte_ppn (w p i)) \<and>
        p \<notin> tset w l (pte_ppn (w p i)) \<and>
        (\<forall>j < 512. e_valid (w p j) \<longrightarrow> i \<noteq> j \<longrightarrow>
           tset w l (pte_ppn (w p i)) \<inter> tset w l (pte_ppn (w p j)) = {}))"
proof -
  have d: "distinct (subtables w (Suc l) all_idx p) \<longleftrightarrow>
      (\<forall>i < 512. e_valid (w p i) \<longrightarrow> distinct (seg w l p i) \<and>
         (\<forall>j < 512. e_valid (w p j) \<longrightarrow> i \<noteq> j \<longrightarrow>
           tset w l (pte_ppn (w p i)) \<inter> tset w l (pte_ppn (w p j)) = {}))"
    unfolding subtables_seg distinct_concat_map [OF distinct_upt] set_seg set_upt
    by (rule seg_pairs) (simp add: seg_def)
  have n: "p \<notin> set (subtables w (Suc l) all_idx p) \<longleftrightarrow>
      (\<forall>i < 512. e_valid (w p i) \<longrightarrow> p \<notin> tset w l (pte_ppn (w p i)))"
    unfolding subtables_seg by (auto simp: set_seg split: if_splits)
  have s: "e_valid (w p i) \<Longrightarrow> distinct (seg w l p i) \<longleftrightarrow>
      distinct (pte_ppn (w p i) # subtables w l all_idx (pte_ppn (w p i)))" for i
    by (simp add: seg_def)
  show ?thesis
    unfolding tree_def [of w "Suc l"] distinct.simps(2) [of p] d n proper.simps
    by (auto simp: tree_def s simp del: distinct.simps) blast
qed

lemma tree_child:
  assumes "tree w (Suc l) p" and "i < 512" and "e_valid (w p i)"
  shows "tree w l (pte_ppn (w p i))" "\<not> e_leaf (w p i)" "p \<notin> tset w l (pte_ppn (w p i))"
    "tset w l (pte_ppn (w p i)) \<subseteq> tset w (Suc l) p"
    "j < 512 \<Longrightarrow> e_valid (w p j) \<Longrightarrow> j \<noteq> i \<Longrightarrow>
       tset w l (pte_ppn (w p i)) \<inter> tset w l (pte_ppn (w p j)) = {}"
  using assms unfolding tree_Suc tset_Suc by blast+

lemma tree_cong:
  assumes "\<And>q. q \<in> tset w l p \<Longrightarrow> w' q = w q"
  shows "tset w' l p = tset w l p" "tree w' l p = tree w l p"
    "path_ok l ix \<Longrightarrow> leaf_slot w' l p ix = leaf_slot w l p ix"
    "path_ok l ix \<Longrightarrow> entry w' l p ix = entry w l p ix"
proof -
  have a: "w' q = w q" if "q \<in> set (p # subtables w l all_idx p)" for q
    using assms that by (simp add: tset_def)
  then have "subtables w' l all_idx p = subtables w l all_idx p \<and>
      proper w' l all_idx p = proper w l all_idx p"
    by (intro tables_cong) auto
  then show "tset w' l p = tset w l p" "tree w' l p = tree w l p"
    by (simp_all add: tset_def tree_def)
  show "path_ok l ix \<Longrightarrow> leaf_slot w' l p ix = leaf_slot w l p ix"
    "path_ok l ix \<Longrightarrow> entry w' l p ix = entry w l p ix"
    using leaf_slot_cong [OF _ a] entry_cong [OF _ a] by auto
qed

lemma leaf_slot_tset:
  "path_ok l ix \<Longrightarrow> leaf_slot w l p ix = Some (q, i) \<Longrightarrow> q \<in> tset w l p \<and> i = ix ! 0"
  using leaf_slot_mem [of l ix w p q i] by (simp add: tset_def)

text \<open>A change confined to one child of a table.\<close>

lemma child_change:
  assumes t: "tree w (Suc l) p" and i: "i < 512" and wp: "w' p = (w p)(i := e)"
    and e: "e_valid e" "\<not> e_leaf e" and c: "tree w' l (pte_ppn e)" "p \<notin> tset w' l (pte_ppn e)"
    and other: "\<forall>j < 512. j \<noteq> i \<longrightarrow> e_valid (w p j) \<longrightarrow>
        (\<forall>q \<in> tset w l (pte_ppn (w p j)). w' q = w q \<and> q \<notin> tset w' l (pte_ppn e))"
  shows "tree w' (Suc l) p"
    "tset w' (Suc l) p = insert p (tset w' l (pte_ppn e) \<union>
       (\<Union>j \<in> {j. j < 512 \<and> j \<noteq> i \<and> e_valid (w p j)}. tset w l (pte_ppn (w p j))))"
    "path_ok (Suc l) jx \<Longrightarrow> jx ! Suc l \<noteq> i \<Longrightarrow>
       leaf_slot w' (Suc l) p jx = leaf_slot w (Suc l) p jx \<and>
       entry w' (Suc l) p jx = entry w (Suc l) p jx"
proof -
  have o: "w' q = w q \<and> q \<notin> tset w' l (pte_ppn e)"
    if "j < 512" "j \<noteq> i" "e_valid (w p j)" "q \<in> tset w l (pte_ppn (w p j))" for j q
    using other that by blast
  have same: "tset w' l (pte_ppn (w p j)) = tset w l (pte_ppn (w p j))"
    "tree w' l (pte_ppn (w p j))"
    if "j < 512" "j \<noteq> i" "e_valid (w p j)" for j
    using tree_cong(1,2) [of w l "pte_ppn (w p j)" w'] o [OF that] tree_child(1) [OF t that(1,3)]
    by auto
  show "tree w' (Suc l) p"
    unfolding tree_Suc
  proof (intro allI impI conjI)
    fix j
    assume j: "j < 512" "e_valid (w' p j)"
    show "\<not> e_leaf (w' p j)" "tree w' l (pte_ppn (w' p j))" "p \<notin> tset w' l (pte_ppn (w' p j))"
      using j e c wp same [of j] tree_child(2,3) [OF t j(1)] by (cases "j = i"; force)+
    fix k
    assume k: "k < 512" "e_valid (w' p k)" "j \<noteq> k"
    show "tset w' l (pte_ppn (w' p j)) \<inter> tset w' l (pte_ppn (w' p k)) = {}"
    proof (cases "j = i \<or> k = i")
      case True
      then show ?thesis
      proof
        assume "j = i"
        with k wp same(1) [of k] o [of k] show ?thesis by auto
      next
        assume "k = i"
        with j k wp same(1) [of j] o [of j] show ?thesis by auto
      qed
    next
      case False
      with j k wp same(1) [of k] same(1) [of j] tree_child(5) [OF t j(1), of k]
      show ?thesis by simp
    qed
  qed
  have "{j. j < 512 \<and> e_valid (w' p j)} = insert i {j. j < 512 \<and> j \<noteq> i \<and> e_valid (w p j)}"
    using wp e i by auto
  then show "tset w' (Suc l) p = insert p (tset w' l (pte_ppn e) \<union>
       (\<Union>j \<in> {j. j < 512 \<and> j \<noteq> i \<and> e_valid (w p j)}. tset w l (pte_ppn (w p j))))"
    unfolding tset_Suc using wp same(1) by auto
  assume jx: "path_ok (Suc l) jx" "jx ! Suc l \<noteq> i"
  show "leaf_slot w' (Suc l) p jx = leaf_slot w (Suc l) p jx \<and>
       entry w' (Suc l) p jx = entry w (Suc l) p jx"
  proof (cases "e_valid (w p (jx ! Suc l))")
    case True
    have "jx ! Suc l < 512" using path_ok_Suc(2) [OF jx(1)] .
    from o [OF this jx(2) True] tree_cong(3,4) [of w l "pte_ppn (w p (jx ! Suc l))" w' jx]
      path_ok_Suc(1) [OF jx(1)] True jx(2)
    show ?thesis by (simp add: wp)
  qed (use jx wp in simp)
qed

text \<open>Writing the slot a walk ends at changes the entry of that path only.\<close>

lemma leaf_write:
  assumes "tree w l p" and "path_ok l ix" and "leaf_slot w l p ix = Some (q, i)"
    and "w' = w(q := (w q)(i := v))"
  shows "tree w' l p \<and> tset w' l p = tset w l p \<and>
    (\<forall>jx. path_ok l jx \<longrightarrow> leaf_slot w' l p jx = leaf_slot w l p jx \<and>
       entry w' l p jx = (if same_path l ix jx then v else entry w l p jx))"
  using assms
proof (induction l arbitrary: p)
  case 0
  then show ?case by (auto simp: same_path_def)
next
  case (Suc l)
  let ?i = "ix ! Suc l"
  let ?c = "pte_ppn (w p ?i)"
  have i: "?i < 512" by (rule path_ok_Suc(2) [OF Suc.prems(2)])
  from Suc.prems(3) have v: "e_valid (w p ?i)" and s: "leaf_slot w l ?c ix = Some (q, i)"
    by (auto split: if_splits)
  note ch = tree_child [OF Suc.prems(1) i v]
  note ok = path_ok_Suc(1) [OF Suc.prems(2)]
  note IH = Suc.IH [OF ch(1) ok s Suc.prems(4)]
  have q: "q \<in> tset w l ?c" using leaf_slot_tset [OF ok s] by simp
  with ch(3) have "q \<noteq> p" by auto
  then have wp: "w' p = (w p)(?i := w p ?i)" by (simp add: Suc.prems(4))
  have t': "tset w' l ?c = tset w l ?c" using IH by simp
  have o: "\<forall>j < 512. j \<noteq> ?i \<longrightarrow> e_valid (w p j) \<longrightarrow>
      (\<forall>r \<in> tset w l (pte_ppn (w p j)). w' r = w r \<and> r \<notin> tset w' l ?c)"
  proof (intro allI impI ballI)
    fix j r
    assume "j < 512" "j \<noteq> ?i" "e_valid (w p j)" "r \<in> tset w l (pte_ppn (w p j))"
    with ch(5) [of j] q t' show "w' r = w r \<and> r \<notin> tset w' l ?c"
      by (auto simp: Suc.prems(4))
  qed
  have tr: "tree w' l ?c" and np: "p \<notin> tset w' l ?c" using IH ch(3) by auto
  note cc = child_change [OF Suc.prems(1) i wp v ch(2) tr np o]
  have ts: "tset w' (Suc l) p = tset w (Suc l) p"
  proof -
    have "tset w' (Suc l) p = insert p (tset w l ?c \<union>
       (\<Union>j \<in> {j. j < 512 \<and> j \<noteq> ?i \<and> e_valid (w p j)}. tset w l (pte_ppn (w p j))))"
      using cc(2) by (simp only: t')
    also have "\<dots> = tset w (Suc l) p" unfolding tset_Suc using i v by blast
    finally show ?thesis .
  qed
  have "leaf_slot w' (Suc l) p jx = leaf_slot w (Suc l) p jx \<and>
       entry w' (Suc l) p jx = (if same_path (Suc l) ix jx then v else entry w (Suc l) p jx)"
    if jx: "path_ok (Suc l) jx" for jx
  proof (cases "jx ! Suc l = ?i")
    case True
    with IH path_ok_Suc(1) [OF jx] v wp show ?thesis by (simp add: same_path_Suc)
  next
    case False
    with cc(3) [OF jx False] show ?thesis by (simp add: same_path_Suc)
  qed
  with cc(1) ts show ?case by blast
qed

section \<open>Allocating tables\<close>

abbreviation own :: "phys \<Rightarrow> nat \<Rightarrow> nat" where "own s \<equiv> g_owners (phys_frames s)"
abbreviation managed :: "phys \<Rightarrow> nat set" where "managed s \<equiv> g_frames (phys_frames s)"

text \<open>The allocator is consistent and every frame fits the page number field of an entry.\<close>

definition frames_ok :: "phys \<Rightarrow> bool" where
  "frames_ok s \<longleftrightarrow> g_inv (phys_frames s) \<and> (\<forall>p \<in> managed s. p < 2 ^ 44)"

lemma own_managed: "frames_ok s \<Longrightarrow> 0 < own s p \<Longrightarrow> p \<in> managed s"
  using global.unmanaged [of "phys_frames s" p] by (auto simp: frames_ok_def)

lemma table_alloc_Inr:
  assumes "frames_ok s" and "alloc_table_frame_zeroed s = (s', Inr c)"
  shows "frames_ok s'" "managed s' = managed s" "own s c = 0" "c \<in> managed s" "c < 2 ^ 44"
    "own s' = (own s)(c := 1)" "phys_words s' = (phys_words s)(c := (\<lambda>_. 0))"
  using assms zeroed_alloc_spec [of "phys_frames s"]
  by (auto simp: alloc_table_frame_zeroed_def frames_ok_def zero_phys_page_def
      split: prod.splits sum.splits)

lemma table_alloc_Inl:
  assumes "frames_ok s" and "alloc_table_frame_zeroed s = (s', Inl e)"
  shows "frames_ok s'" "managed s' = managed s" "own s' = own s" "phys_words s' = phys_words s"
    "e = MmOutOfMemory" "\<forall>p \<in> managed s. 0 < own s p"
  using assms zeroed_alloc_spec [of "phys_frames s"]
  by (auto simp: alloc_table_frame_zeroed_def frames_ok_def mm_of_frame_error_def
      split: prod.splits sum.splits)

section \<open>Walks over a tree\<close>

lemma walk_find_tree:
  assumes "tree (phys_words s) l p" and "path_ok l ix"
  shows "walk_find_from ix l p s =
    (case leaf_slot (phys_words s) l p ix of
       None \<Rightarrow> None
     | Some slot \<Rightarrow> if e_valid (pte_at s slot) then Some (slot, 0) else None)"
  using assms
proof (induction l arbitrary: p)
  case (Suc l)
  show ?case
  proof (cases "e_valid (phys_words s p (ix ! Suc l))")
    case True
    note ch = tree_child [OF Suc.prems(1) path_ok_Suc(2) [OF Suc.prems(2)] True]
    from Suc.IH [OF ch(1) path_ok_Suc(1) [OF Suc.prems(2)]] ch(2) True
    show ?thesis by (simp add: pte_at_def Let_def)
  qed (simp add: pte_at_def Let_def)
qed (simp add: pte_at_def)

text \<open>What \<open>walk_create\<close> may change: it adds empty tables, each from a free frame.\<close>

definition grown :: "phys \<Rightarrow> phys \<Rightarrow> nat \<Rightarrow> nat \<Rightarrow> bool" where
  "grown s s' l p \<longleftrightarrow> frames_ok s' \<and> managed s' = managed s \<and> tree (phys_words s') l p \<and>
     tset (phys_words s) l p \<subseteq> tset (phys_words s') l p \<and>
     (\<forall>q \<in> tset (phys_words s') l p - tset (phys_words s) l p. own s q = 0) \<and>
     own s' = (\<lambda>q. if q \<in> tset (phys_words s') l p - tset (phys_words s) l p then 1 else own s q) \<and>
     (\<forall>q. q \<notin> tset (phys_words s') l p \<longrightarrow> phys_words s' q = phys_words s q) \<and>
     (\<forall>jx. path_ok l jx \<longrightarrow> entry (phys_words s') l p jx = entry (phys_words s) l p jx)"

lemma grown_refl: "frames_ok s \<Longrightarrow> tree (phys_words s) l p \<Longrightarrow> grown s s l p"
  by (simp add: grown_def)

lemma grown_own: "grown s s' l p \<Longrightarrow> own s q \<le> own s' q"
  by (auto simp: grown_def)

text \<open>A child that has grown makes its parent grow.\<close>

lemma grown_child:
  assumes t: "tree (phys_words s) (Suc l) p" and own: "\<forall>q \<in> tset (phys_words s) (Suc l) p. 0 < own s q"
    and i: "i < 512" and v: "e_valid (phys_words s p i)"
    and g: "grown s s' l (pte_ppn (phys_words s p i))"
  shows "grown s s' (Suc l) p \<and> phys_words s' p = phys_words s p"
proof -
  let ?w = "phys_words s" and ?w' = "phys_words s'"
  let ?c = "pte_ppn (?w p i)"
  note ch = tree_child [OF t i v]
  have new: "q \<notin> tset ?w' l ?c" if "0 < own s q" "q \<notin> tset ?w l ?c" for q
    using g that by (fastforce simp: grown_def)
  have np: "p \<notin> tset ?w' l ?c" using new [of p] own ch(3) by simp
  then have wp: "?w' p = ?w p" using g by (simp add: grown_def)
  then have wp': "?w' p = (?w p)(i := ?w p i)" by simp
  have o: "\<forall>j < 512. j \<noteq> i \<longrightarrow> e_valid (?w p j) \<longrightarrow>
      (\<forall>r \<in> tset ?w l (pte_ppn (?w p j)). ?w' r = ?w r \<and> r \<notin> tset ?w' l ?c)"
  proof (intro allI impI ballI)
    fix j r
    assume j: "j < 512" "j \<noteq> i" "e_valid (?w p j)" "r \<in> tset ?w l (pte_ppn (?w p j))"
    have "r \<in> tset ?w (Suc l) p" using tree_child(4) [OF t j(1,3)] j(4) by blast
    then have "0 < own s r" using own by blast
    moreover have "r \<notin> tset ?w l ?c" using ch(5) [OF j(1,3,2)] j(4) by blast
    ultimately have "r \<notin> tset ?w' l ?c" using new by blast
    with g show "?w' r = ?w r \<and> r \<notin> tset ?w' l ?c" by (simp add: grown_def)
  qed
  have tr: "tree ?w' l ?c" using g by (simp add: grown_def)
  note cc = child_change [OF t i wp' v ch(2) tr np o]
  let ?O = "\<Union>j \<in> {j. j < 512 \<and> j \<noteq> i \<and> e_valid (?w p j)}. tset ?w l (pte_ppn (?w p j))"
  have T: "tset ?w (Suc l) p = insert p (tset ?w l ?c \<union> ?O)"
    unfolding tset_Suc using i v by blast
  have sub: "tset ?w l ?c \<subseteq> tset ?w' l ?c" using g by (simp add: grown_def)
  have N: "tset ?w' (Suc l) p - tset ?w (Suc l) p = tset ?w' l ?c - tset ?w l ?c"
    unfolding cc(2) T using o np by blast
  have ent: "entry ?w' (Suc l) p jx = entry ?w (Suc l) p jx" if jx: "path_ok (Suc l) jx" for jx
  proof (cases "jx ! Suc l = i")
    case True
    with g path_ok_Suc(1) [OF jx] v wp show ?thesis by (simp add: grown_def)
  next
    case False
    with cc(3) [OF jx False] show ?thesis by simp
  qed
  have "phys_words s' q = phys_words s q" if "q \<notin> tset ?w' (Suc l) p" for q
    using g that unfolding cc(2) by (simp add: grown_def)
  moreover have "tset ?w (Suc l) p \<subseteq> tset ?w' (Suc l) p"
    unfolding cc(2) T using sub by blast
  ultimately show ?thesis
    using g cc(1) ent wp unfolding grown_def N by simp
qed

lemma grown_trans:
  assumes "grown s s1 l p" and "grown s1 s2 l p"
    and "\<forall>q \<in> tset (phys_words s1) l p. 0 < own s1 q"
  shows "grown s s2 l p"
proof -
  note g1 = assms(1) [unfolded grown_def] and g2 = assms(2) [unfolded grown_def]
  have z: "own s q = 0" if "q \<in> tset (phys_words s2) l p - tset (phys_words s) l p" for q
    using that g1 g2 by (cases "q \<in> tset (phys_words s1) l p") (auto split: if_splits)
  moreover have "own s2 = (\<lambda>q. if q \<in> tset (phys_words s2) l p - tset (phys_words s) l p then 1 else own s q)"
    using g1 g2 by (auto simp: fun_eq_iff)
  moreover have "phys_words s2 q = phys_words s q" if "q \<notin> tset (phys_words s2) l p" for q
    using that g1 g2 by (metis subsetD)
  ultimately show ?thesis
    using g1 g2 unfolding grown_def by (metis (no_types, lifting) order_trans)
qed

lemma empty_tree:
  assumes "w p = (\<lambda>_. 0)"
  shows "tree w l p \<and> tset w l p = {p} \<and> entry w l p ix = 0"
proof (cases l)
  case 0
  with assms show ?thesis by simp
next
  case (Suc m)
  have n: "{i. i < 512 \<and> e_valid (w p i)} = {}" using assms by simp
  have t: "tree w (Suc m) p" unfolding tree_Suc using assms by simp
  have s: "tset w (Suc m) p = {p}" unfolding tset_Suc n by simp
  have "entry w (Suc m) p ix = 0" using assms by simp
  with t s show ?thesis by (simp only: Suc simp_thms)
qed

text \<open>The entry that links a fresh table.\<close>

lemma link_entry:
  "c < 2 ^ 44 \<Longrightarrow> e_valid (pte_set c FLAG_V) \<and> \<not> e_leaf (pte_set c FLAG_V) \<and>
     pte_ppn (pte_set c FLAG_V) = c"
  by (simp add: flags_leaf_bits)

lemma put_pte_simps [simp]:
  "phys_words (put_pte slot e s) = (phys_words s)(fst slot := (phys_words s (fst slot))(snd slot := e))"
  "phys_frames (put_pte slot e s) = phys_frames s"
  "frames_ok (put_pte slot e s) = frames_ok s"
  by (simp_all add: put_pte_def frames_ok_def)

lemma grown_link:
  assumes ok: "frames_ok s" and t: "tree (phys_words s) (Suc l) p"
    and own: "\<forall>q \<in> tset (phys_words s) (Suc l) p. 0 < own s q"
    and i: "i < 512" and v: "\<not> e_valid (phys_words s p i)"
    and a: "alloc_table_frame_zeroed s = (s1, Inr c)"
    and s2: "s2 = put_pte (p, i) (pte_set c FLAG_V) s1"
  shows "grown s s2 (Suc l) p" "c \<noteq> p" "phys_words s2 p = (phys_words s p)(i := pte_set c FLAG_V)"
    "phys_words s2 c = (\<lambda>_. 0)"
proof -
  let ?w = "phys_words s" and ?w' = "phys_words s2" and ?e = "pte_set c FLAG_V"
  note al = table_alloc_Inr [OF ok a]
  have cT: "c \<notin> tset ?w (Suc l) p" using own al(3) by auto
  then show cp: "c \<noteq> p" by auto
  then show wp: "?w' p = (?w p)(i := ?e)" and wc: "?w' c = (\<lambda>_. 0)"
    using al(7) by (simp_all add: s2)
  note e = link_entry [OF al(5)]
  note em = empty_tree [of ?w' c l, OF wc]
  have o: "\<forall>j < 512. j \<noteq> i \<longrightarrow> e_valid (?w p j) \<longrightarrow>
      (\<forall>r \<in> tset ?w l (pte_ppn (?w p j)). ?w' r = ?w r \<and> r \<notin> tset ?w' l (pte_ppn ?e))"
  proof (intro allI impI ballI)
    fix j r
    assume j: "j < 512" "j \<noteq> i" "e_valid (?w p j)" "r \<in> tset ?w l (pte_ppn (?w p j))"
    note ch = tree_child(3,4) [OF t j(1,3)]
    have "r \<noteq> c" "r \<noteq> p" using ch j(4) cT by auto
    with em e al(7) show "?w' r = ?w r \<and> r \<notin> tset ?w' l (pte_ppn ?e)" by (simp add: s2)
  qed
  have tr: "tree ?w' l (pte_ppn ?e)" "p \<notin> tset ?w' l (pte_ppn ?e)" using em e cp by auto
  from e have "e_valid ?e" "\<not> e_leaf ?e" by auto
  note cc = child_change [OF t i wp this tr o]
  let ?O = "\<Union>j \<in> {j. j < 512 \<and> j \<noteq> i \<and> e_valid (?w p j)}. tset ?w l (pte_ppn (?w p j))"
  have "{j. j < 512 \<and> e_valid (?w p j)} = {j. j < 512 \<and> j \<noteq> i \<and> e_valid (?w p j)}" using v by auto
  then have T: "tset ?w (Suc l) p = insert p ?O" unfolding tset_Suc by simp
  have "tset ?w' l (pte_ppn ?e) = {c}" using em e by simp
  then have T': "tset ?w' (Suc l) p = insert c (tset ?w (Suc l) p)" unfolding cc(2) T by blast
  have ent: "entry ?w' (Suc l) p jx = entry ?w (Suc l) p jx" if jx: "path_ok (Suc l) jx" for jx
  proof (cases "jx ! Suc l = i")
    case True
    have "entry ?w' (Suc l) p jx = entry ?w' l c jx" using True wp e by simp
    also have "\<dots> = 0" using em by blast
    also have "0 = entry ?w (Suc l) p jx" using True v by simp
    finally show ?thesis .
  next
    case False
    with cc(3) [OF jx False] show ?thesis by simp
  qed
  have frame: "?w' q = ?w q" if "q \<noteq> c" "q \<noteq> p" for q using that al(7) by (simp add: s2)
  have D: "tset ?w' (Suc l) p - tset ?w (Suc l) p = {c}" using T' cT by auto
  show "grown s s2 (Suc l) p"
    unfolding grown_def D
  proof (intro conjI)
    show "frames_ok s2" "managed s2 = managed s" using al(1,2) by (simp_all add: s2)
    show "tree ?w' (Suc l) p" by (rule cc(1))
    show "tset ?w (Suc l) p \<subseteq> tset ?w' (Suc l) p" using T' by blast
    show "\<forall>q \<in> {c}. own s q = 0" using al(3) by simp
    show "own s2 = (\<lambda>q. if q \<in> {c} then 1 else own s q)" using al(6) by (auto simp: s2 fun_eq_iff)
    show "\<forall>q. q \<notin> tset ?w' (Suc l) p \<longrightarrow> ?w' q = ?w q"
      unfolding T' using frame by (metis insertCI tset_self)
    show "\<forall>jx. path_ok (Suc l) jx \<longrightarrow> entry ?w' (Suc l) p jx = entry ?w (Suc l) p jx"
      using ent by blast
  qed
qed

lemma grown_owned:
  "grown s s' l p \<Longrightarrow> \<forall>q \<in> tset (phys_words s) l p. 0 < own s q \<Longrightarrow>
     \<forall>q \<in> tset (phys_words s') l p. 0 < own s' q"
  by (auto simp: grown_def)

lemma walk_create_tree:
  assumes "frames_ok s" and "tree (phys_words s) l p"
    and "\<forall>q \<in> tset (phys_words s) l p. 0 < own s q" and "path_ok l ix"
    and "walk_create_from ix l p s = (s', r)"
  shows "grown s s' l p \<and>
    (case r of
       Inr slot \<Rightarrow> leaf_slot (phys_words s') l p ix = Some slot
     | Inl e \<Rightarrow> e = MmOutOfMemory \<and> (\<forall>q \<in> managed s. 0 < own s' q))"
  using assms
proof (induction l arbitrary: p s)
  case 0
  then show ?case by (auto simp: grown_refl)
next
  case (Suc l)
  let ?i = "ix ! Suc l"
  have i: "?i < 512" by (rule path_ok_Suc(2) [OF Suc.prems(4)])
  note ok = path_ok_Suc(1) [OF Suc.prems(4)]
  show ?case
  proof (cases "e_valid (phys_words s p ?i)")
    case True
    note ch = tree_child [OF Suc.prems(2) i True]
    have "\<forall>q \<in> tset (phys_words s) l (pte_ppn (phys_words s p ?i)). 0 < own s q"
      using Suc.prems(3) ch(4) by blast
    note IH = Suc.IH [OF Suc.prems(1) ch(1) this ok]
    have "walk_create_from ix l (pte_ppn (phys_words s p ?i)) s = (s', r)"
      using Suc.prems(5) True ch(2) by (simp add: pte_at_def Let_def)
    note IH = IH [OF this]
    then have "grown s s' l (pte_ppn (phys_words s p ?i))" by blast
    from grown_child [OF Suc.prems(2,3) i True this] IH True show ?thesis
      by (auto split: sum.splits)
  next
    case False
    obtain s1 a where al: "alloc_table_frame_zeroed s = (s1, a)" by fastforce
    show ?thesis
    proof (cases a)
      case (Inl e)
      with al Suc.prems(5) False have e: "s' = s1" "r = Inl e" by (auto simp: pte_at_def Let_def)
      from al Inl have "alloc_table_frame_zeroed s = (s1, Inl e)" by simp
      note ta = table_alloc_Inl [OF Suc.prems(1) this]
      have "grown s s1 (Suc l) p"
        unfolding grown_def using ta Suc.prems(2) by simp
      with e ta show ?thesis by simp
    next
      case (Inr c)
      define s2 where "s2 = put_pte (p, ?i) (pte_set c FLAG_V) s1"
      from al Inr have al': "alloc_table_frame_zeroed s = (s1, Inr c)" by simp
      note gl = grown_link [OF Suc.prems(1-3) i False al' s2_def]
      note e = link_entry [OF table_alloc_Inr(5) [OF Suc.prems(1) al']]
      have ent: "phys_words s2 p ?i = pte_set c FLAG_V" using gl(3) by simp
      have ppn: "pte_ppn (pte_at s2 (p, ?i)) = c" using e ent by (simp add: pte_at_def)
      have w: "walk_create_from ix l c s2 = (s', r)"
        using Suc.prems(5) False al Inr ppn by (simp add: pte_at_def Let_def s2_def)
      have ok2: "frames_ok s2" using gl(1) by (simp add: grown_def)
      note em = empty_tree [of "phys_words s2" c l, OF gl(4)]
      note own2 = grown_owned [OF gl(1) Suc.prems(3)]
      have t2: "tree (phys_words s2) (Suc l) p" using gl(1) by (simp add: grown_def)
      have v2: "e_valid (phys_words s2 p ?i)" using e ent by simp
      note ch2 = tree_child [OF t2 i v2]
      have "\<forall>q \<in> tset (phys_words s2) l c. 0 < own s2 q" using own2 ch2(4) e ent by auto
      note IH = Suc.IH [OF ok2 conjunct1 [OF em] this ok w]
      then have "grown s2 s' l (pte_ppn (phys_words s2 p ?i))" using e ent by simp
      note gc = grown_child [OF t2 own2 i v2 this]
      then have wp: "phys_words s' p = phys_words s2 p" by simp
      have g: "grown s s' (Suc l) p" using grown_trans [OF gl(1) _ own2] gc by blast
      have "managed s2 = managed s" using gl(1) by (simp add: grown_def)
      with IH g wp ent e show ?thesis by (auto split: sum.splits)
    qed
  qed
qed

end
