(* ===== verification/Sv39_Map.thy ===== *)
theory Sv39_Map
  imports Sv39_Tree
begin

text \<open>
  The page operations of an address space, seen as operations on a map from virtual pages to a
  frame and the flags of its entry. \<open>space_ok\<close> is what every operation keeps: the tables
  form a tree, and each of them holds a frame.
\<close>

definition space_ok :: "phys \<Rightarrow> nat \<Rightarrow> bool" where
  "space_ok s root \<longleftrightarrow> frames_ok s \<and> tree (phys_words s) 2 root \<and>
     (\<forall>q \<in> tset (phys_words s) 2 root. 0 < own s q)"

definition space_tables :: "phys \<Rightarrow> nat \<Rightarrow> nat set" where
  "space_tables s root = tset (phys_words s) 2 root"

definition page_entry :: "phys \<Rightarrow> nat \<Rightarrow> nat \<Rightarrow> pte" where
  "page_entry s root vpn = entry (phys_words s) 2 root (vpn_indexes vpn)"

definition view :: "phys \<Rightarrow> nat \<Rightarrow> nat \<Rightarrow> (nat \<times> pte_flags) option" where
  "view s root vpn =
     (let e = page_entry s root vpn in if e_valid e then Some (pte_ppn e, pte_flags_of e) else None)"

text \<open>Sv39 translates 27 bits of a page number.\<close>

definition same_page :: "nat \<Rightarrow> nat \<Rightarrow> bool" where
  "same_page u v \<longleftrightarrow> u mod 2 ^ 27 = v mod 2 ^ 27"

lemma path_ok_vpn [simp]: "path_ok 2 (vpn_indexes v)"
  by (auto simp: path_ok_def intro: vpn_index_bound)

lemma base_512:
  assumes "a < 512" "b < 512" "(a :: nat) + 512 * c = b + 512 * d"
  shows "a = b \<and> c = d"
proof -
  from assms have "(a + 512 * c) mod 512 = (b + 512 * d) mod 512" by simp
  with assms(1,2) have "a = b" by simp
  with assms(3) show ?thesis by simp
qed

lemma same_path_vpn: "same_path 2 (vpn_indexes u) (vpn_indexes v) \<longleftrightarrow> same_page u v"
proof
  assume "same_path 2 (vpn_indexes u) (vpn_indexes v)"
  then have "vpn_indexes u ! k = vpn_indexes v ! k" if "k \<le> 2" for k
    using that by (simp add: same_path_def)
  from this [of 0] this [of 1] this [of 2] show "same_page u v"
    unfolding same_page_def vpn_of_indexes by simp
next
  have b: "vpn_indexes x ! k < 512" if "k \<le> 2" for x k
    using vpn_index_bound [of k x] that by simp
  assume "same_page u v"
  then have eq: "vpn_indexes u ! 0 + 512 * (vpn_indexes u ! 1 + 512 * vpn_indexes u ! 2) =
      vpn_indexes v ! 0 + 512 * (vpn_indexes v ! 1 + 512 * vpn_indexes v ! 2)"
    unfolding same_page_def vpn_of_indexes .
  note e0 = base_512 [OF b [of 0 u] b [of 0 v] eq]
  then have "vpn_indexes u ! 1 + 512 * vpn_indexes u ! 2 = vpn_indexes v ! 1 + 512 * vpn_indexes v ! 2"
    by simp
  note e1 = base_512 [OF b [of 1 u] b [of 1 v] this]
  show "same_path 2 (vpn_indexes u) (vpn_indexes v)"
    unfolding same_path_def
  proof (intro allI impI)
    fix k :: nat
    assume "k \<le> 2"
    then have "k = 0 \<or> k = 1 \<or> k = 2" by auto
    then show "vpn_indexes u ! k = vpn_indexes v ! k" using e0 e1 by auto
  qed
qed

section \<open>Changes of one space\<close>

text \<open>
  What an operation on one space leaves alone: every frame that is neither a table of it nor
  newly taken from the allocator.
\<close>

definition confined :: "phys \<Rightarrow> phys \<Rightarrow> nat \<Rightarrow> bool" where
  "confined s s' root \<longleftrightarrow> managed s' = managed s \<and>
     (\<forall>q \<in> space_tables s' root - space_tables s root. own s q = 0) \<and>
     (\<forall>q. q \<notin> space_tables s' root \<longrightarrow> phys_words s' q = phys_words s q)"

lemma view_cong: "phys_words s' = phys_words s \<Longrightarrow> view s' root = view s root"
  by (rule ext) (simp add: view_def page_entry_def)

lemma same_page_sym: "same_page u v = same_page v u"
  by (auto simp: same_page_def)

lemma space_ok_frames: "space_ok s root \<Longrightarrow> frames_ok s"
  by (simp add: space_ok_def)

lemma walk_find_space:
  assumes "space_ok s root"
  shows "walk_find root vpn s =
    (case leaf_slot (phys_words s) 2 root (vpn_indexes vpn) of
       None \<Rightarrow> None
     | Some slot \<Rightarrow> if e_valid (pte_at s slot) then Some (slot, 0) else None)"
  using walk_find_tree [of s 2 root "vpn_indexes vpn"] assms
  by (simp add: walk_find_def SV39_LEVELS_def space_ok_def)

lemma walk_find_view:
  assumes "space_ok s root"
  shows "case view s root vpn of
      None \<Rightarrow> walk_find root vpn s = None
    | Some (ppn, f) \<Rightarrow> \<exists>slot. walk_find root vpn s = Some (slot, 0) \<and>
        leaf_slot (phys_words s) 2 root (vpn_indexes vpn) = Some slot \<and>
        pte_ppn (pte_at s slot) = ppn \<and> pte_flags_of (pte_at s slot) = f \<and> flags_valid f"
proof (cases "leaf_slot (phys_words s) 2 root (vpn_indexes vpn)")
  case None
  then show ?thesis
    by (simp add: walk_find_space [OF assms] view_def page_entry_def entry_def)
next
  case (Some slot)
  then have "page_entry s root vpn = pte_at s slot"
    by (auto simp: page_entry_def entry_def pte_at_def split: prod.splits)
  with Some show ?thesis
    by (simp add: walk_find_space [OF assms] view_def Let_def)
qed

text \<open>Writing a valid or an empty entry into the slot of a page.\<close>

lemma write_slot:
  assumes sp: "space_ok s root"
    and slot: "leaf_slot (phys_words s) 2 root (vpn_indexes vpn) = Some slot"
  shows "space_ok (put_pte slot e s) root" "confined s (put_pte slot e s) root"
    "space_tables (put_pte slot e s) root = space_tables s root"
    "view (put_pte slot e s) root =
      (\<lambda>u. if same_page u vpn then if e_valid e then Some (pte_ppn e, pte_flags_of e) else None
           else view s root u)"
proof -
  let ?s = "put_pte slot e s"
  obtain q i where qi: "slot = (q, i)" by fastforce
  have w: "phys_words ?s = (phys_words s)(q := (phys_words s q)(i := e))" by (simp add: qi)
  note lw = leaf_write [of "phys_words s" 2 root "vpn_indexes vpn" q i "phys_words ?s" e, OF _ path_ok_vpn]
  have lw: "tree (phys_words ?s) 2 root \<and> tset (phys_words ?s) 2 root = tset (phys_words s) 2 root \<and>
    (\<forall>jx. path_ok 2 jx \<longrightarrow> leaf_slot (phys_words ?s) 2 root jx = leaf_slot (phys_words s) 2 root jx \<and>
       entry (phys_words ?s) 2 root jx = (if same_path 2 (vpn_indexes vpn) jx then e else entry (phys_words s) 2 root jx))"
    using sp slot w by (intro lw) (simp_all add: space_ok_def qi)
  show "space_tables ?s root = space_tables s root" using lw by (simp add: space_tables_def)
  show "space_ok ?s root" using lw sp by (simp add: space_ok_def)
  have "q \<in> tset (phys_words s) 2 root"
    using leaf_slot_tset [OF path_ok_vpn slot [unfolded qi]] by simp
  then show "confined s ?s root" using lw w by (auto simp: confined_def space_tables_def)
  have "page_entry ?s root u = (if same_page u vpn then e else page_entry s root u)" for u
    using lw [THEN conjunct2, THEN conjunct2, rule_format, OF path_ok_vpn, of u]
    unfolding page_entry_def same_path_vpn same_page_sym [of u vpn] by blast
  then show "view ?s root =
      (\<lambda>u. if same_page u vpn then if e_valid e then Some (pte_ppn e, pte_flags_of e) else None
           else view s root u)"
    by (simp add: view_def fun_eq_iff Let_def)
qed

lemma walk_create_space:
  assumes sp: "space_ok s root" and w: "walk_create root vpn s = (s', r)"
  shows "space_ok s' root" "confined s s' root" "view s' root = view s root"
    "own s' = (\<lambda>q. if q \<in> space_tables s' root - space_tables s root then 1 else own s q)"
    "space_tables s root \<subseteq> space_tables s' root"
    "r = Inr slot \<Longrightarrow> leaf_slot (phys_words s') 2 root (vpn_indexes vpn) = Some slot"
    "r = Inl e \<Longrightarrow> e = MmOutOfMemory \<and> (\<forall>q \<in> managed s. 0 < own s' q)"
proof -
  have wf: "walk_create_from (vpn_indexes vpn) 2 root s = (s', r)"
    using w by (simp add: walk_create_def SV39_LEVELS_def)
  have W: "grown s s' 2 root \<and>
    (case r of
       Inr slot \<Rightarrow> leaf_slot (phys_words s') 2 root (vpn_indexes vpn) = Some slot
     | Inl e \<Rightarrow> e = MmOutOfMemory \<and> (\<forall>q \<in> managed s. 0 < own s' q))"
    using sp by (intro walk_create_tree [OF _ _ _ path_ok_vpn wf]) (auto simp: space_ok_def)
  then have g: "grown s s' 2 root" by blast
  have o: "\<forall>q \<in> tset (phys_words s) 2 root. 0 < own s q" using sp by (simp add: space_ok_def)
  show "space_ok s' root" using g grown_owned [OF g o] by (simp add: space_ok_def grown_def)
  show "confined s s' root" using g by (simp add: confined_def space_tables_def grown_def)
  show "view s' root = view s root"
    using g by (simp add: view_def page_entry_def grown_def fun_eq_iff)
  show "own s' = (\<lambda>q. if q \<in> space_tables s' root - space_tables s root then 1 else own s q)"
    using g by (simp add: space_tables_def grown_def)
  show "space_tables s root \<subseteq> space_tables s' root" using g by (simp add: space_tables_def grown_def)
  show "r = Inr slot \<Longrightarrow> leaf_slot (phys_words s') 2 root (vpn_indexes vpn) = Some slot"
    "r = Inl e \<Longrightarrow> e = MmOutOfMemory \<and> (\<forall>q \<in> managed s. 0 < own s' q)"
    using W by (auto split: sum.splits)
qed

lemma confined_trans:
  assumes "confined s s1 root" "confined s1 s2 root" "space_tables s1 root \<subseteq> space_tables s2 root"
    and "\<forall>q \<in> space_tables s2 root - space_tables s1 root. own s q \<le> own s1 q"
  shows "confined s s2 root"
  unfolding confined_def
proof (intro conjI ballI allI impI)
  show "managed s2 = managed s" using assms(1,2) by (simp add: confined_def)
  show "own s q = 0" if q: "q \<in> space_tables s2 root - space_tables s root" for q
  proof (cases "q \<in> space_tables s1 root")
    case True
    with q assms(1) show ?thesis by (auto simp: confined_def)
  next
    case False
    with q assms(2,4) have "own s1 q = 0" "own s q \<le> own s1 q" by (auto simp: confined_def)
    then show ?thesis by simp
  qed
  show "phys_words s2 q = phys_words s q" if q: "q \<notin> space_tables s2 root" for q
  proof -
    have "q \<notin> space_tables s1 root" using q assms(3) by blast
    with q assms(1,2) show ?thesis by (simp add: confined_def)
  qed
qed

text \<open>A change confined to one space is not seen by a space with other tables.\<close>

lemma other_space:
  assumes c: "confined s s' root" and fr: "frames_ok s'" and o: "space_ok s other"
    and d: "space_tables s root \<inter> space_tables s other = {}"
    and le: "\<forall>q \<in> space_tables s other. 0 < own s' q"
  shows "space_ok s' other" "view s' other = view s other"
    "space_tables s' other = space_tables s other"
    "space_tables s' root \<inter> space_tables s' other = {}"
proof -
  have own: "\<forall>q \<in> space_tables s other. 0 < own s q"
    using o by (simp add: space_ok_def space_tables_def)
  have n: "q \<notin> space_tables s' root" if "q \<in> space_tables s other" for q
  proof
    assume a: "q \<in> space_tables s' root"
    have "q \<notin> space_tables s root" using d that by blast
    with a c have "own s q = 0" by (auto simp: confined_def)
    with own that show False by auto
  qed
  with c have w: "phys_words s' q = phys_words s q" if "q \<in> tset (phys_words s) 2 other" for q
    using that by (auto simp: confined_def space_tables_def)
  note tc = tree_cong [of "phys_words s" 2 other "phys_words s'", OF w]
  show t: "space_tables s' other = space_tables s other" using tc(1) by (simp add: space_tables_def)
  show "space_ok s' other" using o fr tc(1,2) le by (simp add: space_ok_def space_tables_def)
  show "view s' other = view s other" using tc(4) by (simp add: view_def page_entry_def fun_eq_iff)
  show "space_tables s' root \<inter> space_tables s' other = {}" using n t by blast
qed

section \<open>The page operations\<close>

lemma page_size_pos [simp]: "0 < page_size"
  by (simp add: page_size_def)

lemma page_offset_mod: "page_offset va = va mod page_size"
proof -
  have "page_size - 1 = mask 12" by (simp add: page_size_def mask_eq_exp_minus_1)
  then have "page_offset va = take_bit 12 va" by (simp add: page_offset_def take_bit_eq_mask)
  then show ?thesis by (simp add: take_bit_eq_mod page_size_def)
qed

lemma leaf_slot_path:
  "same_path l ix jx \<Longrightarrow> leaf_slot w l p ix = leaf_slot w l p jx"
  by (induction l arbitrary: p) (auto simp: same_path_Suc same_path_def)

lemma view_same_page: "same_page u v \<Longrightarrow> view s root u = view s root v"
  using leaf_slot_path [of 2 "vpn_indexes u" "vpn_indexes v" "phys_words s" root]
  by (simp add: view_def page_entry_def entry_def same_path_vpn)

lemma map_page_spec:
  assumes sp: "space_ok s root" and ppn: "ppn < 2 ^ 44"
    and m: "map_page_to_ppn root vpn ppn p s = (s', r)"
  shows "space_ok s' root" "confined s s' root"
    "own s' = (\<lambda>q. if q \<in> space_tables s' root - space_tables s root then 1 else own s q)"
    "space_tables s root \<subseteq> space_tables s' root"
    "case r of
       Inr u \<Rightarrow> view s root vpn = None \<and>
         view s' root = (\<lambda>u. if same_page u vpn then Some (ppn, from_perm p) else view s root u)
     | Inl e \<Rightarrow> view s' root = view s root \<and>
         (e = AlreadyMapped \<and> view s root vpn \<noteq> None \<or>
          e = MmOutOfMemory \<and> (\<forall>q \<in> managed s. 0 < own s' q))"
proof -
  obtain s1 a where w: "walk_create root vpn s = (s1, a)" by fastforce
  note wc = walk_create_space [OF sp w]
  have *: "space_ok s' root \<and> confined s s' root \<and>
    own s' = (\<lambda>q. if q \<in> space_tables s' root - space_tables s root then 1 else own s q) \<and>
    space_tables s root \<subseteq> space_tables s' root \<and>
    (case r of
       Inr u \<Rightarrow> view s root vpn = None \<and>
         view s' root = (\<lambda>u. if same_page u vpn then Some (ppn, from_perm p) else view s root u)
     | Inl e \<Rightarrow> view s' root = view s root \<and>
         (e = AlreadyMapped \<and> view s root vpn \<noteq> None \<or>
          e = MmOutOfMemory \<and> (\<forall>q \<in> managed s. 0 < own s' q)))"
  proof (cases a)
    case (Inl e)
    with m w have "s' = s1" "r = Inl e" by (auto simp: map_page_to_ppn_def)
    with wc(1-5) wc(7) [OF Inl] show ?thesis by simp
  next
    case (Inr slot)
    note ls = wc(6) [OF Inr]
    have pe: "page_entry s1 root vpn = pte_at s1 slot"
      using ls by (auto simp: page_entry_def entry_def pte_at_def split: prod.splits)
    have v: "view s root vpn = (if e_valid (pte_at s1 slot)
        then Some (pte_ppn (pte_at s1 slot), pte_flags_of (pte_at s1 slot)) else None)"
      unfolding wc(3) [symmetric] by (simp add: view_def pe Let_def)
    show ?thesis
    proof (cases "e_valid (pte_at s1 slot)")
      case True
      with m w Inr have "s' = s1" "r = Inl AlreadyMapped" by (auto simp: map_page_to_ppn_def)
      with wc(1-5) v True show ?thesis by simp
    next
      case False
      with m w Inr have s': "s' = put_pte slot (pte_set ppn (from_perm p)) s1" and r: "r = Inr ()"
        by (auto simp: map_page_to_ppn_def)
      note ws = write_slot [OF wc(1) ls, of "pte_set ppn (from_perm p)"]
      have "e_valid (pte_set ppn (from_perm p))" by (simp add: bit_from_perm)
      then have vw: "view s' root =
          (\<lambda>u. if same_page u vpn then Some (ppn, from_perm p) else view s root u)"
        unfolding s' ws(4) wc(3) using ppn by auto
      have o: "own s' = own s1" by (simp add: s')
      have t: "space_tables s' root = space_tables s1 root" using ws(3) s' by simp
      have "confined s s' root"
        using confined_trans [OF wc(2) ws(2) [folded s']] t by simp
      with ws(1) wc(4,5) o t vw v False r s' show ?thesis by simp
    qed
  qed
  then show "space_ok s' root" "confined s s' root"
    "own s' = (\<lambda>q. if q \<in> space_tables s' root - space_tables s root then 1 else own s q)"
    "space_tables s root \<subseteq> space_tables s' root"
    "case r of
       Inr u \<Rightarrow> view s root vpn = None \<and>
         view s' root = (\<lambda>u. if same_page u vpn then Some (ppn, from_perm p) else view s root u)
     | Inl e \<Rightarrow> view s' root = view s root \<and>
         (e = AlreadyMapped \<and> view s root vpn \<noteq> None \<or>
          e = MmOutOfMemory \<and> (\<forall>q \<in> managed s. 0 < own s' q))"
    by blast+
qed

lemma unmap_page_spec:
  assumes sp: "space_ok s root" and m: "unmap_page_to_ppn root vpn s = (s', r)"
  shows "space_ok s' root" "confined s s' root" "own s' = own s"
    "space_tables s' root = space_tables s root"
    "case view s root vpn of
       None \<Rightarrow> r = Inr None \<and> s' = s
     | Some (ppn, f) \<Rightarrow> r = Inr (Some ppn)"
    "view s' root = (\<lambda>u. if same_page u vpn then None else view s root u)"
proof -
  have cs: "confined s s root" by (simp add: confined_def)
  have vs: "view s root u = view s root vpn" if "same_page u vpn" for u
    using that by (rule view_same_page)
  note wf = walk_find_view [OF sp, of vpn]
  have *: "space_ok s' root \<and> confined s s' root \<and> own s' = own s \<and>
    space_tables s' root = space_tables s root \<and>
    (case view s root vpn of None \<Rightarrow> r = Inr None \<and> s' = s | Some (ppn, f) \<Rightarrow> r = Inr (Some ppn)) \<and>
    view s' root = (\<lambda>u. if same_page u vpn then None else view s root u)"
  proof (cases "view s root vpn")
    case None
    with wf m have "s' = s" "r = Inr None" by (auto simp: unmap_page_to_ppn_def)
    with sp cs None vs show ?thesis by (auto simp: fun_eq_iff)
  next
    case (Some pf)
    obtain ppn f where pf: "pf = (ppn, f)" by fastforce
    with wf Some obtain slot where sl: "walk_find root vpn s = Some (slot, 0)"
      "leaf_slot (phys_words s) 2 root (vpn_indexes vpn) = Some slot"
      "pte_ppn (pte_at s slot) = ppn" "e_valid (pte_at s slot)" by auto
    with m have "s' = put_pte slot 0 s" "r = Inr (Some ppn)"
      by (auto simp: unmap_page_to_ppn_def is_leaf_at_level_def)
    with write_slot [OF sp sl(2), of 0] Some pf show ?thesis by simp
  qed
  then show "space_ok s' root" "confined s s' root" "own s' = own s"
    "space_tables s' root = space_tables s root"
    "case view s root vpn of
       None \<Rightarrow> r = Inr None \<and> s' = s
     | Some (ppn, f) \<Rightarrow> r = Inr (Some ppn)"
    "view s' root = (\<lambda>u. if same_page u vpn then None else view s root u)"
    by blast+
qed

lemma protect_page_spec:
  assumes sp: "space_ok s root" and m: "protect_page root vpn p s = (s', r)"
  shows "space_ok s' root" "confined s s' root" "own s' = own s"
    "space_tables s' root = space_tables s root"
    "case view s root vpn of
       None \<Rightarrow> r = Inl NotMapped \<and> s' = s
     | Some (ppn, f) \<Rightarrow> r = Inr () \<and>
         view s' root = (\<lambda>u. if same_page u vpn then Some (ppn, from_perm p) else view s root u)"
proof -
  have cs: "confined s s root" by (simp add: confined_def)
  note wf = walk_find_view [OF sp, of vpn]
  have *: "space_ok s' root \<and> confined s s' root \<and> own s' = own s \<and>
    space_tables s' root = space_tables s root \<and>
    (case view s root vpn of
       None \<Rightarrow> r = Inl NotMapped \<and> s' = s
     | Some (ppn, f) \<Rightarrow> r = Inr () \<and>
         view s' root = (\<lambda>u. if same_page u vpn then Some (ppn, from_perm p) else view s root u))"
  proof (cases "view s root vpn")
    case None
    with wf m have "s' = s" "r = Inl NotMapped" by (auto simp: protect_page_def)
    with sp cs None show ?thesis by simp
  next
    case (Some pf)
    obtain ppn f where pf: "pf = (ppn, f)" by fastforce
    with wf Some obtain slot where sl: "walk_find root vpn s = Some (slot, 0)"
      "leaf_slot (phys_words s) 2 root (vpn_indexes vpn) = Some slot"
      "pte_ppn (pte_at s slot) = ppn" "e_valid (pte_at s slot)" by auto
    with m have "s' = put_pte slot (pte_set ppn (from_perm p)) s" "r = Inr ()"
      by (auto simp: protect_page_def is_leaf_at_level_def)
    moreover have "ppn < 2 ^ 44" using pte_ppn_bound sl(3) by blast
    ultimately show ?thesis
      using write_slot [OF sp sl(2), of "pte_set ppn (from_perm p)"] Some pf
      by (auto simp: bit_from_perm)
  qed
  then show "space_ok s' root" "confined s s' root" "own s' = own s"
    "space_tables s' root = space_tables s root"
    "case view s root vpn of
       None \<Rightarrow> r = Inl NotMapped \<and> s' = s
     | Some (ppn, f) \<Rightarrow> r = Inr () \<and>
         view s' root = (\<lambda>u. if same_page u vpn then Some (ppn, from_perm p) else view s root u)"
    by blast+
qed

lemma translate_spec:
  assumes sp: "space_ok s root"
  shows "translate_addr_with_perm root va s = Inr (map_option
      (\<lambda>(ppn, f). (ppn * page_size + va mod page_size, to_page_perm f))
      (view s root (va div page_size)))"
    "translate_addr root va s = Inr (map_option
      (\<lambda>(ppn, f). ppn * page_size + va mod page_size) (view s root (va div page_size)))"
    "leaf_page_perm root vpn s = Inr (map_option (\<lambda>(ppn, f). to_page_perm f) (view s root vpn))"
  using walk_find_view [OF sp, of "floor_page va"] walk_find_view [OF sp, of vpn]
  by (auto simp: translate_addr_with_perm_def translate_addr_def leaf_page_perm_def floor_page_def
      is_leaf_at_level_def page_offset_mod split: option.splits)


end
