(* ===== verification/Sv39_Fork.thy ===== *)
theory Sv39_Fork
  imports Sv39_Map
begin

text \<open>
  Copying and destroying a page table tree, and resolving copy-on-write pages
  (\<open>fork_table\<close>, \<open>destroy_table\<close>, \<open>handle_cow_page\<close>,
  \<open>ensure_private_for_write\<close> of \<open>pagetable.rs\<close>). The recursion over the levels
  is structural; the loop over the 512 entries of a table is \<open>try_each\<close> where the body
  may return early, and \<open>fold\<close> where it may not.
\<close>

section \<open>Areas behind a page\<close>

definition is_shared :: "('l, 'd) vm_area \<Rightarrow> bool" where "is_shared v \<longleftrightarrow> sharing v = Shared"
definition is_device :: "('l, 'd) vm_area \<Rightarrow> bool" where "is_device v \<longleftrightarrow> kind v = KDevice"

text \<open>\<open>vmas.lookup(page).and_then(get).is_some_and(P)\<close>\<close>

definition vma_where :: "(('l, 'd) vm_area \<Rightarrow> bool) \<Rightarrow> ('l, 'd) vma_set \<Rightarrow> nat \<Rightarrow> bool" where
  "vma_where P vmas page =
     (case Option.bind (vs_lookup vmas page) (om_get vmas) of None \<Rightarrow> False | Some v \<Rightarrow> P v)"

definition VPN_INDEX_BITS :: nat where "VPN_INDEX_BITS = 9"

definition entry_prefix :: "nat \<Rightarrow> nat \<Rightarrow> nat \<Rightarrow> nat" where
  "entry_prefix prefix level i = prefix OR push_bit (level * VPN_INDEX_BITS) i"

section \<open>Destroying\<close>

definition destroy_entry ::
  "('l, 'd) vma_set \<Rightarrow> (nat \<Rightarrow> nat \<Rightarrow> phys \<Rightarrow> phys) \<Rightarrow> nat \<Rightarrow> nat \<Rightarrow> nat \<Rightarrow> nat \<Rightarrow> phys \<Rightarrow> phys" where
  "destroy_entry vmas rec level ppn prefix i s =
     (let e = pte_at s (ppn, i); flags = pte_flags_of e; pfx = entry_prefix prefix level i
      in if \<not> flags_valid flags then s
         else if is_leaf_at_level flags level then
           if perm_user (to_page_perm flags) \<and> \<not> vma_where is_non_owned vmas (page_addr pfx)
           then fst (phys_dealloc (pte_ppn e) s) else s
         else if 0 < level then rec (pte_ppn e) pfx s
         else s)"

primrec destroy_table :: "('l, 'd) vma_set \<Rightarrow> nat \<Rightarrow> nat \<Rightarrow> nat \<Rightarrow> phys \<Rightarrow> phys" where
  "destroy_table vmas 0 ppn prefix s =
     fst (phys_dealloc ppn
       (fold (destroy_entry vmas (\<lambda>_ _ s. s) 0 ppn prefix) [0..<SV39_ENTRIES] s))"
| "destroy_table vmas (Suc level) ppn prefix s =
     fst (phys_dealloc ppn
       (fold (destroy_entry vmas (destroy_table vmas level) (Suc level) ppn prefix)
         [0..<SV39_ENTRIES] s))"

section \<open>Copying\<close>

primrec try_each ::
  "('i \<Rightarrow> 's \<Rightarrow> 's \<times> (mm_error, unit) result) \<Rightarrow> 'i list \<Rightarrow> 's \<Rightarrow> 's \<times> (mm_error, unit) result"
where
  "try_each f [] s = (s, Inr ())"
| "try_each f (i # is) s =
     (case f i s of (s1, Inl e) \<Rightarrow> (s1, Inl e) | (s1, Inr u) \<Rightarrow> try_each f is s1)"

text \<open>The branch for a leaf.\<close>

definition fork_leaf ::
  "('l, 'd) vma_set \<Rightarrow> nat \<Rightarrow> nat \<Rightarrow> nat \<Rightarrow> nat \<Rightarrow> phys \<Rightarrow> phys \<times> (mm_error, unit) result" where
  "fork_leaf vmas parent child pfx i s =
     (let e = pte_at s (parent, i); flags = pte_flags_of e; ppn = pte_ppn e
      in if perm_user (to_page_perm flags) then
           let page = page_addr pfx; shared = vma_where is_shared vmas page;
               non_owned = vma_where is_non_owned vmas page
           in (case (if non_owned then (s, Inr 0) else phys_inc_ref ppn s) of
                 (s1, Inl err) \<Rightarrow> (s1, Inl err)
               | (s1, Inr n) \<Rightarrow>
                   if shared \<or> non_owned then (put_pte (child, i) (pte_set ppn flags) s1, Inr ())
                   else if flags_writable flags then
                     let cow = pte_set ppn (prepare_cow flags)
                     in (put_pte (child, i) cow (put_pte (parent, i) cow s1), Inr ())
                   else (put_pte (child, i) (pte_set ppn flags) s1, Inr ()))
         else (put_pte (child, i) (pte_set ppn flags) s, Inr ()))"

definition fork_entry ::
  "('l, 'd) vma_set \<Rightarrow> (nat \<Rightarrow> nat \<Rightarrow> nat \<Rightarrow> phys \<Rightarrow> phys \<times> (mm_error, unit) result) \<Rightarrow> nat
     \<Rightarrow> nat \<Rightarrow> nat \<Rightarrow> nat \<Rightarrow> nat \<Rightarrow> phys \<Rightarrow> phys \<times> (mm_error, unit) result" where
  "fork_entry vmas rec level parent child prefix i s =
     (let e = pte_at s (parent, i); flags = pte_flags_of e; pfx = entry_prefix prefix level i
      in if \<not> flags_valid flags then (s, Inr ())
         else if is_leaf_at_level flags level then fork_leaf vmas parent child pfx i s
         else if 0 < level then
           (case alloc_table_frame_zeroed s of
              (s1, Inl err) \<Rightarrow> (s1, Inl err)
            | (s1, Inr sub) \<Rightarrow>
                (case rec (pte_ppn e) sub pfx s1 of
                   (s2, Inl err) \<Rightarrow> (destroy_table vmas (level - 1) sub pfx s2, Inl err)
                 | (s2, Inr u) \<Rightarrow> (put_pte (child, i) (pte_set sub FLAG_V) s2, Inr ())))
         else (s, Inr ()))"

primrec fork_table ::
  "('l, 'd) vma_set \<Rightarrow> nat \<Rightarrow> nat \<Rightarrow> nat \<Rightarrow> nat \<Rightarrow> phys \<Rightarrow> phys \<times> (mm_error, unit) result" where
  "fork_table vmas 0 parent child prefix s =
     try_each (fork_entry vmas (\<lambda>_ _ _ s. (s, Inr ())) 0 parent child prefix) [0..<SV39_ENTRIES] s"
| "fork_table vmas (Suc level) parent child prefix s =
     try_each (fork_entry vmas (fork_table vmas level) (Suc level) parent child prefix)
       [0..<SV39_ENTRIES] s"

section \<open>Copy-on-write pages\<close>

definition handle_cow_page :: "nat \<Rightarrow> nat \<Rightarrow> phys \<Rightarrow> phys \<times> (mm_error, bool) result" where
  "handle_cow_page root vpn s =
     (case walk_find root vpn s of
        None \<Rightarrow> (s, Inr False)
      | Some (slot, level) \<Rightarrow>
          let e = pte_at s slot; flags = pte_flags_of e
          in if \<not> is_leaf_at_level flags level \<or> \<not> flags_cow flags \<or> \<not> cow_was_writable flags
             then (s, Inr False)
             else let old = pte_ppn e; new_flags = restore_cow_writable flags
               in (case map_frame_error (frame_ref_count old (phys_frames s)) of
                     Inl err \<Rightarrow> (s, Inl err)
                   | Inr n \<Rightarrow>
                       if n \<le> 1 then (put_pte slot (pte_set old new_flags) s, Inr True)
                       else (case phys_alloc s of
                         (s1, Inl err) \<Rightarrow> (s1, Inl err)
                       | (s1, Inr new) \<Rightarrow>
                           (case phys_dealloc old (copy_phys_page old new s1) of
                              (s2, Inl err) \<Rightarrow> (s2, Inl err)
                            | (s2, Inr u) \<Rightarrow> (put_pte slot (pte_set new new_flags) s2, Inr True)))))"

definition handle_cow_fault_no_flush :: "nat \<Rightarrow> nat \<Rightarrow> phys \<Rightarrow> phys \<times> (mm_error, bool) result" where
  "handle_cow_fault_no_flush root fault_addr s = handle_cow_page root (floor_page fault_addr) s"

definition ensure_private_for_write ::
  "('l, 'd) vma_set \<Rightarrow> nat \<Rightarrow> nat \<Rightarrow> phys \<Rightarrow> phys \<times> (mm_error, bool) result" where
  "ensure_private_for_write vmas root vpn s =
     (if vma_where is_shared vmas (page_addr vpn)
      then (s, res_bind (translate_addr root (page_addr vpn) s) (\<lambda>r. Inr (r \<noteq> None)))
      else case handle_cow_page root vpn s of
        (s1, Inl err) \<Rightarrow> (s1, Inl err)
      | (s1, Inr True) \<Rightarrow> (s1, Inr True)
      | (s1, Inr False) \<Rightarrow>
          (case walk_find root vpn s1 of
             None \<Rightarrow> (s1, Inr False)
           | Some (slot, level) \<Rightarrow>
               let e = pte_at s1 slot; flags = pte_flags_of e
               in if \<not> is_leaf_at_level flags level \<or> \<not> perm_user (to_page_perm flags)
                  then (s1, Inr False)
                  else let old = pte_ppn e
                    in (case map_frame_error (frame_ref_count old (phys_frames s1)) of
                          Inl err \<Rightarrow> (s1, Inl err)
                        | Inr n \<Rightarrow>
                            if n \<le> 1 then (s1, Inr True)
                            else (case phys_alloc s1 of
                              (s2, Inl err) \<Rightarrow> (s2, Inl err)
                            | (s2, Inr new) \<Rightarrow>
                                (case phys_dealloc old (copy_phys_page old new s2) of
                                   (s3, Inl err) \<Rightarrow> (s3, Inl err)
                                 | (s3, Inr u) \<Rightarrow>
                                     (put_pte slot (pte_set new (clear_cow flags)) s3, Inr True))))))"

section \<open>The frames a tree holds\<close>

text \<open>
  What destroying a tree releases, in order: the frame of each user leaf that its area owns, and
  each table after its entries.
\<close>

primrec held :: "phys_words \<Rightarrow> ('l, 'd) vma_set \<Rightarrow> nat \<Rightarrow> nat list \<Rightarrow> nat \<Rightarrow> nat \<Rightarrow> nat list" where
  "held w vmas 0 is p pfx =
     concat (map (\<lambda>i. if e_valid (w p i) \<and> perm_user (to_page_perm (pte_flags_of (w p i))) \<and>
         \<not> vma_where is_non_owned vmas (page_addr (entry_prefix pfx 0 i))
       then [pte_ppn (w p i)] else []) is)"
| "held w vmas (Suc l) is p pfx =
     concat (map (\<lambda>i. if \<not> e_valid (w p i) then []
       else if e_leaf (w p i) then
         (if perm_user (to_page_perm (pte_flags_of (w p i))) \<and>
             \<not> vma_where is_non_owned vmas (page_addr (entry_prefix pfx (Suc l) i))
          then [pte_ppn (w p i)] else [])
       else held w vmas l all_idx (pte_ppn (w p i)) (entry_prefix pfx (Suc l) i) @ [pte_ppn (w p i)]) is)"

definition dealloc_each :: "nat list \<Rightarrow> phys \<Rightarrow> phys" where
  "dealloc_each ps s = fold (\<lambda>q s. fst (phys_dealloc q s)) ps s"

lemma dealloc_each_simps [simp]:
  "dealloc_each [] s = s" "dealloc_each (q # ps) s = dealloc_each ps (fst (phys_dealloc q s))"
  "dealloc_each (ps @ qs) s = dealloc_each qs (dealloc_each ps s)"
  by (simp_all add: dealloc_each_def)

lemma phys_dealloc_words [simp]: "phys_words (fst (phys_dealloc q s)) = phys_words s"
  by (simp add: phys_dealloc_def split: prod.splits)

lemma dealloc_each_words [simp]: "phys_words (dealloc_each ps s) = phys_words s"
  by (induction ps arbitrary: s) auto

lemma fold_concat_map:
  assumes "\<And>i s. i \<in> set is \<Longrightarrow> phys_words s = w \<Longrightarrow> f i s = dealloc_each (g i) s"
    and "phys_words s = w"
  shows "fold f is s = dealloc_each (concat (map g is)) s"
  using assms by (induction "is" arbitrary: s) auto

text \<open>Destroying a tree is releasing exactly what it holds.\<close>

lemma destroy_table_held:
  "destroy_table vmas l p pfx s = dealloc_each (held (phys_words s) vmas l all_idx p pfx @ [p]) s"
proof (induction l arbitrary: p pfx s)
  case 0
  have "fold (destroy_entry vmas (\<lambda>_ _ s. s) 0 p pfx) all_idx s =
      dealloc_each (held (phys_words s) vmas 0 all_idx p pfx) s"
    unfolding held.simps
    by (rule fold_concat_map [where w = "phys_words s"])
      (auto simp: destroy_entry_def Let_def pte_at_def is_leaf_at_level_def)
  then show ?case by (simp add: SV39_ENTRIES_def)
next
  case (Suc l)
  have "fold (destroy_entry vmas (destroy_table vmas l) (Suc l) p pfx) all_idx s =
      dealloc_each (held (phys_words s) vmas (Suc l) all_idx p pfx) s"
    unfolding held.simps
    by (rule fold_concat_map [where w = "phys_words s"])
      (auto simp: destroy_entry_def Let_def pte_at_def is_leaf_at_level_def Suc.IH)
  then show ?case by (simp add: SV39_ENTRIES_def)
qed

lemma phys_dealloc_owned:
  assumes "frames_ok s" and "0 < own s q"
  shows "frames_ok (fst (phys_dealloc q s))" "managed (fst (phys_dealloc q s)) = managed s"
    "own (fst (phys_dealloc q s)) = (own s)(q := own s q - 1)" "snd (phys_dealloc q s) = Inr ()"
  using global.dealloc_ok [of "phys_frames s" q] assms
  by (auto simp: phys_dealloc_def frames_ok_def map_frame_error_def)

lemma dealloc_each_owned:
  assumes "frames_ok s" and "\<And>q. count_list ps q \<le> own s q"
  shows "frames_ok (dealloc_each ps s) \<and> managed (dealloc_each ps s) = managed s \<and>
    own (dealloc_each ps s) = (\<lambda>q. own s q - count_list ps q)"
  using assms
proof (induction ps arbitrary: s)
  case (Cons x ps)
  have "0 < own s x" using Cons.prems(2) [of x] by simp
  note d = phys_dealloc_owned [OF Cons.prems(1) this]
  have "count_list ps q \<le> own (fst (phys_dealloc x s)) q" for q
    using Cons.prems(2) [of q] d(3) by (auto split: if_splits)
  from Cons.IH [OF d(1) this] d(2,3) show ?case by (auto simp: fun_eq_iff)
qed simp

end
