(* ===== verification/Sv39_Copy.thy ===== *)
theory Sv39_Copy
  imports Sv39_Fork
begin

text \<open>
  What copying a tree does, proved entry by entry: \<open>forked\<close> relates the states before and
  after a loop over some entries of a table, on success and on failure, and composes along the
  loop and along the levels.
\<close>

section \<open>What is held depends on the tables\<close>

lemma held_append: "held w vmas l (is @ js) p pfx = held w vmas l is p pfx @ held w vmas l js p pfx"
  by (cases l) auto

lemma held_Nil [simp]: "held w vmas l [] p pfx = []"
  by (cases l) auto

lemma held_cong:
  assumes "\<And>i. i \<in> set is \<Longrightarrow> w' p i = w p i"
    and "\<And>q. q \<in> set (subtables w l is p) \<Longrightarrow> w' q = w q"
  shows "held w' vmas l is p pfx = held w vmas l is p pfx"
  using assms
proof (induction l arbitrary: "is" p pfx)
  case (Suc l)
  have IH: "held w' vmas l all_idx (pte_ppn (w p i)) x = held w vmas l all_idx (pte_ppn (w p i)) x"
    if i: "i \<in> set is" "e_valid (w p i)" for i x
  proof (rule Suc.IH)
    note sm = subtable_mem [of w p i "is" l, OF i(2,1)]
    show "w' (pte_ppn (w p i)) j = w (pte_ppn (w p i)) j" for j
      using sm Suc.prems(2) [of "pte_ppn (w p i)"] by auto
    show "w' q = w q" if "q \<in> set (subtables w l all_idx (pte_ppn (w p i)))" for q
      using sm that Suc.prems(2) [of q] by auto
  qed
  show ?case
    unfolding held.simps
    by (rule arg_cong [where f = concat], rule map_cong [OF refl]) (simp add: Suc.prems(1) IH)
next
  case 0
  then show ?case
    unfolding held.simps
    by (intro arg_cong [where f = concat] map_cong [OF refl]) simp
qed

lemma held_zero: "(\<And>i. i \<in> set is \<Longrightarrow> w p i = 0) \<Longrightarrow>
    held w vmas l is p pfx = [] \<and> subtables w l is p = [] \<and> proper w l is p"
  by (cases l) auto

lemma subtables_held: "proper w l is p \<Longrightarrow> set (subtables w l is p) \<subseteq> set (held w vmas l is p pfx)"
proof (induction l arbitrary: "is" p pfx)
  case (Suc l)
  show ?case
  proof
    fix q
    assume "q \<in> set (subtables w (Suc l) is p)"
    then obtain i where i: "i \<in> set is" "e_valid (w p i)"
      and q: "q = pte_ppn (w p i) \<or> q \<in> set (subtables w l all_idx (pte_ppn (w p i)))"
      by (auto split: if_splits)
    then have pr: "\<not> e_leaf (w p i)" "proper w l all_idx (pte_ppn (w p i))" using Suc.prems by auto
    have "q \<in> set (held w vmas l all_idx (pte_ppn (w p i)) (entry_prefix pfx (Suc l) i) @ [pte_ppn (w p i)])"
      using q Suc.IH [OF pr(2), of "entry_prefix pfx (Suc l) i"] by auto
    with i pr(1) show "q \<in> set (held w vmas (Suc l) is p pfx)" by auto
  qed
qed simp

lemma entry_cong_at:
  assumes "path_ok l ix" and "w' p (ix ! l) = w p (ix ! l)"
    and "\<And>q. q \<in> set (subtables w l [ix ! l] p) \<Longrightarrow> w' q = w q"
  shows "entry w' l p ix = entry w l p ix"
proof (cases l)
  case 0
  with assms show ?thesis by simp
next
  case (Suc m)
  show ?thesis
  proof (cases "e_valid (w p (ix ! l))")
    case True
    have "entry w' m (pte_ppn (w p (ix ! l))) ix = entry w m (pte_ppn (w p (ix ! l))) ix"
    proof (rule tree_cong(4))
      show "path_ok m ix" using assms(1) path_ok_Suc(1) Suc by simp
      show "w' q = w q" if "q \<in> tset w m (pte_ppn (w p (ix ! l)))" for q
        using assms(3) that True unfolding Suc by (auto simp: tset_def Suc)
    qed
    with assms(2) True show ?thesis by (simp add: Suc)
  qed (use assms(2) in \<open>simp add: Suc\<close>)
qed

section \<open>The relation\<close>

text \<open>Frame and flags of an entry, if it is valid.\<close>

definition fview :: "pte \<Rightarrow> (nat \<times> pte_flags) option" where
  "fview e = (if e_valid e then Some (pte_ppn e, pte_flags_of e) else None)"

text \<open>The flags a leaf has in both spaces after the copy.\<close>

definition fork_flags :: "('l, 'd) vma_set \<Rightarrow> nat \<Rightarrow> pte_flags \<Rightarrow> pte_flags" where
  "fork_flags vmas page f =
     (if perm_user (to_page_perm f) \<and> \<not> vma_where is_shared vmas page \<and>
         \<not> vma_where is_non_owned vmas page \<and> flags_writable f then prepare_cow f else f)"

primrec path_vpn :: "nat \<Rightarrow> nat \<Rightarrow> nat list \<Rightarrow> nat" where
  "path_vpn 0 pfx ix = entry_prefix pfx 0 (ix ! 0)"
| "path_vpn (Suc l) pfx ix = path_vpn l (entry_prefix pfx (Suc l) (ix ! Suc l)) ix"

definition fork_view :: "('l, 'd) vma_set \<Rightarrow> nat \<Rightarrow> pte \<Rightarrow> (nat \<times> pte_flags) option" where
  "fork_view vmas vpn e = map_option (\<lambda>(q, f). (q, fork_flags vmas (page_addr vpn) f)) (fview e)"

definition fork_pre :: "('l, 'd) vma_set \<Rightarrow> nat \<Rightarrow> nat \<Rightarrow> nat \<Rightarrow> nat \<Rightarrow> nat list \<Rightarrow> phys \<Rightarrow> bool" where
  "fork_pre vmas l p c pfx is s \<longleftrightarrow> frames_ok s \<and> proper (phys_words s) l is p \<and>
     distinct (p # subtables (phys_words s) l is p) \<and>
     (\<forall>q \<in> set (p # subtables (phys_words s) l is p). 0 < own s q) \<and>
     c \<notin> set (p # subtables (phys_words s) l is p) \<and> 0 < own s c \<and>
     (\<forall>i \<in> set is. phys_words s c i = 0) \<and> distinct is \<and> set is \<subseteq> {..<512} \<and>
     (\<forall>q \<in> set (held (phys_words s) vmas l is p pfx). 0 < own s q) \<and>
     (\<forall>q. own s q + length (held (phys_words s) vmas l is p pfx) \<le> u32_max)"

definition forked ::
  "('l, 'd) vma_set \<Rightarrow> nat \<Rightarrow> nat \<Rightarrow> nat \<Rightarrow> nat \<Rightarrow> nat list \<Rightarrow> phys \<Rightarrow> phys \<Rightarrow> (mm_error, unit) result \<Rightarrow> bool"
where
  "forked vmas l p c pfx is s s' r \<longleftrightarrow>
     frames_ok s' \<and> managed s' = managed s \<and>
     (\<forall>q. own s' q = own s q + count_list (held (phys_words s') vmas l is c pfx) q) \<and>
     proper (phys_words s') l is c \<and> distinct (subtables (phys_words s') l is c) \<and>
     (\<forall>q \<in> set (subtables (phys_words s') l is c). own s q = 0) \<and>
     subtables (phys_words s') l is p = subtables (phys_words s) l is p \<and>
     proper (phys_words s') l is p \<and>
     (\<forall>q. 0 < own s q \<longrightarrow> q \<notin> set (p # c # subtables (phys_words s) l is p) \<longrightarrow>
        phys_words s' q = phys_words s q) \<and>
     (\<forall>i. i \<notin> set is \<longrightarrow> phys_words s' p i = phys_words s p i \<and> phys_words s' c i = phys_words s c i) \<and>
     (\<forall>ix. path_ok l ix \<longrightarrow> ix ! l \<in> set is \<longrightarrow>
        fview (entry (phys_words s') l p ix) = fview (entry (phys_words s) l p ix) \<or>
        fview (entry (phys_words s') l p ix) = fork_view vmas (path_vpn l pfx ix) (entry (phys_words s) l p ix)) \<and>
     (case r of
        Inr u \<Rightarrow> length (held (phys_words s') vmas l is c pfx) = length (held (phys_words s) vmas l is p pfx) \<and>
          (\<forall>ix. path_ok l ix \<longrightarrow> ix ! l \<in> set is \<longrightarrow>
             fview (entry (phys_words s') l p ix) = fork_view vmas (path_vpn l pfx ix) (entry (phys_words s) l p ix) \<and>
             fview (entry (phys_words s') l c ix) = fork_view vmas (path_vpn l pfx ix) (entry (phys_words s) l p ix))
      | Inl e \<Rightarrow> e = MmOutOfMemory)"

lemma forkedD:
  assumes "forked vmas l p c pfx is s s' r"
  shows "frames_ok s'" "managed s' = managed s"
    "own s' q = own s q + count_list (held (phys_words s') vmas l is c pfx) q"
    "proper (phys_words s') l is c" "distinct (subtables (phys_words s') l is c)"
    "q \<in> set (subtables (phys_words s') l is c) \<Longrightarrow> own s q = 0"
    "subtables (phys_words s') l is p = subtables (phys_words s) l is p"
    "proper (phys_words s') l is p"
    "0 < own s q \<Longrightarrow> q \<notin> set (p # c # subtables (phys_words s) l is p) \<Longrightarrow> phys_words s' q = phys_words s q"
    "i \<notin> set is \<Longrightarrow> phys_words s' p i = phys_words s p i"
    "i \<notin> set is \<Longrightarrow> phys_words s' c i = phys_words s c i"
    "path_ok l ix \<Longrightarrow> ix ! l \<in> set is \<Longrightarrow>
        fview (entry (phys_words s') l p ix) = fview (entry (phys_words s) l p ix) \<or>
        fview (entry (phys_words s') l p ix) = fork_view vmas (path_vpn l pfx ix) (entry (phys_words s) l p ix)"
    "r = Inl e \<Longrightarrow> e = MmOutOfMemory"
    "r = Inr () \<Longrightarrow> length (held (phys_words s') vmas l is c pfx) = length (held (phys_words s) vmas l is p pfx)"
    "r = Inr () \<Longrightarrow> path_ok l ix \<Longrightarrow> ix ! l \<in> set is \<Longrightarrow>
        fview (entry (phys_words s') l p ix) = fork_view vmas (path_vpn l pfx ix) (entry (phys_words s) l p ix) \<and>
        fview (entry (phys_words s') l c ix) = fork_view vmas (path_vpn l pfx ix) (entry (phys_words s) l p ix)"
  using assms unfolding forked_def by auto

lemma forked_owned:
  assumes "forked vmas l p c pfx is s s' r" and "q \<in> set (subtables (phys_words s') l is c)"
  shows "0 < own s' q"
proof -
  have "q \<in> set (held (phys_words s') vmas l is c pfx)"
    using subtables_held [OF forkedD(4) [OF assms(1)]] assms(2) by blast
  then have "0 < count_list (held (phys_words s') vmas l is c pfx) q"
    using count_list_0_iff by (metis neq0_conv)
  then show ?thesis using forkedD(3) [OF assms(1), of q] by simp
qed

section \<open>Composition along the loop\<close>

lemma forked_Nil: "frames_ok s \<Longrightarrow> forked vmas l p c pfx [] s s (Inr ())"
  by (simp add: forked_def)

lemma subtables_one: "subtables w l (i # is) p = subtables w l [i] p @ subtables w l is p"
  using subtables_append [of w l "[i]" "is" p] by simp

lemma held_one: "held w vmas l (i # is) p pfx = held w vmas l [i] p pfx @ held w vmas l is p pfx"
  using held_append [of w vmas l "[i]" "is" p pfx] by simp

lemma proper_one: "proper w l (i # is) p \<longleftrightarrow> proper w l [i] p \<and> proper w l is p"
  by (cases l) auto

text \<open>After the first entry, the rest of the parent is as it was.\<close>

lemma forked_rest:
  assumes pre: "fork_pre vmas l p c pfx (i # is) s" and f: "forked vmas l p c pfx [i] s s1 r"
  shows "j \<in> set is \<Longrightarrow> phys_words s1 p j = phys_words s p j"
    "q \<in> set (subtables (phys_words s) l is p) \<Longrightarrow> phys_words s1 q = phys_words s q"
    "subtables (phys_words s1) l is p = subtables (phys_words s) l is p"
    "proper (phys_words s1) l is p"
    "held (phys_words s1) vmas l is p pfx = held (phys_words s) vmas l is p pfx"
    "path_ok l ix \<Longrightarrow> ix ! l \<in> set is \<Longrightarrow>
       entry (phys_words s1) l p ix = entry (phys_words s) l p ix"
proof -
  have i: "i \<notin> set is" using pre by (simp add: fork_pre_def)
  show wp: "phys_words s1 p j = phys_words s p j" if "j \<in> set is" for j
    using forkedD(10) [OF f, of j] that i by auto
  show wq: "phys_words s1 q = phys_words s q" if "q \<in> set (subtables (phys_words s) l is p)" for q
  proof (rule forkedD(9) [OF f])
    show "0 < own s q" using pre that by (simp add: fork_pre_def subtables_one [of _ _ i "is"])
    have d: "distinct (p # subtables (phys_words s) l [i] p @ subtables (phys_words s) l is p)"
      "c \<notin> set (p # subtables (phys_words s) l [i] p @ subtables (phys_words s) l is p)"
      using pre by (simp_all add: fork_pre_def subtables_one [of _ _ i "is"])
    then show "q \<notin> set (p # c # subtables (phys_words s) l [i] p)" using that by auto
  qed
  from tables_cong [of "is" "phys_words s1" p "phys_words s" l, OF wp wq]
  show "subtables (phys_words s1) l is p = subtables (phys_words s) l is p"
    and "proper (phys_words s1) l is p"
    using pre by (auto simp: fork_pre_def proper_one [of _ l i "is"])
  show "held (phys_words s1) vmas l is p pfx = held (phys_words s) vmas l is p pfx"
    by (rule held_cong) (simp_all add: wp wq)
  show "entry (phys_words s1) l p ix = entry (phys_words s) l p ix"
    if ix: "path_ok l ix" "ix ! l \<in> set is"
  proof (rule entry_cong_at)
    show "path_ok l ix" by (rule ix(1))
    show "phys_words s1 p (ix ! l) = phys_words s p (ix ! l)" by (rule wp [OF ix(2)])
    fix q
    assume "q \<in> set (subtables (phys_words s) l [ix ! l] p)"
    with ix(2) have "q \<in> set (subtables (phys_words s) l is p)" by (cases l) auto
    then show "phys_words s1 q = phys_words s q" by (rule wq)
  qed
qed

lemma forked_step_pre:
  assumes pre: "fork_pre vmas l p c pfx (i # is) s" and f: "forked vmas l p c pfx [i] s s1 (Inr ())"
  shows "fork_pre vmas l p c pfx is s1"
proof -
  note R = forked_rest [OF pre f]
  have own: "own s q \<le> own s1 q" for q using forkedD(3) [OF f, of q] by simp
  have d: "distinct (p # subtables (phys_words s) l [i] p @ subtables (phys_words s) l is p)"
    using pre by (simp add: fork_pre_def subtables_one [of _ _ i "is"])
  have bound: "own s1 q + length (held (phys_words s) vmas l is p pfx) \<le> u32_max" for q
  proof -
    have "count_list (held (phys_words s1) vmas l [i] c pfx) q
        \<le> length (held (phys_words s1) vmas l [i] c pfx)" by (rule count_le_length)
    with forkedD(3) [OF f, of q] forkedD(14) [OF f]
    have "own s1 q \<le> own s q + length (held (phys_words s) vmas l [i] p pfx)" by simp
    moreover have "own s q + length (held (phys_words s) vmas l (i # is) p pfx) \<le> u32_max"
      using pre by (simp add: fork_pre_def)
    ultimately show ?thesis by (simp add: held_one [of _ _ _ i "is"])
  qed
  have mem: "q \<in> set (p # subtables (phys_words s) l (i # is) p)"
    if "q \<in> set (p # subtables (phys_words s) l is p)" for q
    using that by (auto simp: subtables_one [of _ _ i "is"])
  have c0: "phys_words s1 c j = 0" if "j \<in> set is" for j
    using forkedD(11) [OF f, of j] pre that by (auto simp: fork_pre_def)
  show ?thesis
    unfolding fork_pre_def R(3,5)
  proof (intro conjI ballI allI)
    show "frames_ok s1" by (rule forkedD(1) [OF f])
    show "proper (phys_words s1) l is p" by (rule R(4))
    show "distinct (p # subtables (phys_words s) l is p)" using d by auto
    show "0 < own s1 q" if "q \<in> set (p # subtables (phys_words s) l is p)" for q
      using mem [OF that] pre own [of q] by (auto simp: fork_pre_def)
    show "c \<notin> set (p # subtables (phys_words s) l is p)"
      using mem [of c] pre by (auto simp: fork_pre_def)
    show "0 < own s1 c" using pre own [of c] by (auto simp: fork_pre_def)
    show "phys_words s1 c j = 0" if "j \<in> set is" for j using that by (rule c0)
    show "distinct is" "set is \<subseteq> {..<512}" using pre by (auto simp: fork_pre_def)
    show "0 < own s1 q" if "q \<in> set (held (phys_words s) vmas l is p pfx)" for q
    proof -
      have "q \<in> set (held (phys_words s) vmas l (i # is) p pfx)"
        using that by (simp add: held_one [of _ _ _ i "is"])
      with pre own [of q] show ?thesis by (auto simp: fork_pre_def)
    qed
    show "own s1 q + length (held (phys_words s) vmas l is p pfx) \<le> u32_max" for q by (rule bound)
  qed
qed

text \<open>A failure at the first entry leaves the rest of the child empty.\<close>

lemma forked_fail:
  assumes pre: "fork_pre vmas l p c pfx (i # is) s" and f: "forked vmas l p c pfx [i] s s1 (Inl e)"
  shows "forked vmas l p c pfx (i # is) s s1 (Inl e)"
proof -
  note R = forked_rest [OF pre f]
  have c0: "phys_words s1 c j = 0" if "j \<in> set is" for j
    using forkedD(11) [OF f, of j] pre that by (auto simp: fork_pre_def)
  note Z = held_zero [of "is" "phys_words s1" c vmas l pfx, OF c0]
  have E: "fview (entry (phys_words s1) l p ix) = fview (entry (phys_words s) l p ix) \<or>
      fview (entry (phys_words s1) l p ix) = fork_view vmas (path_vpn l pfx ix) (entry (phys_words s) l p ix)"
    if "path_ok l ix" "ix ! l \<in> set (i # is)" for ix
    using forkedD(12) [OF f that(1)] R(6) [OF that(1)] that(2) by auto
  show ?thesis
    unfolding forked_def subtables_one [of _ _ i "is"] held_one [of _ _ _ i "is"] proper_one [of _ _ i "is"]
  proof (intro conjI allI impI ballI)
    fix q
    show "own s1 q = own s q + count_list (held (phys_words s1) vmas l [i] c pfx @
        held (phys_words s1) vmas l is c pfx) q"
      using forkedD(3) [OF f, of q] Z by simp
    show "phys_words s1 q = phys_words s q"
      if "0 < own s q" "q \<notin> set (p # c # subtables (phys_words s) l [i] p @ subtables (phys_words s) l is p)"
      using forkedD(9) [OF f, of q] that by auto
    show "own s q = 0" if "q \<in> set (subtables (phys_words s1) l [i] c @ subtables (phys_words s1) l is c)"
      using forkedD(6) [OF f, of q] that Z by auto
  next
    fix j
    assume "j \<notin> set (i # is)"
    then show "phys_words s1 p j = phys_words s p j" "phys_words s1 c j = phys_words s c j"
      using forkedD(10,11) [OF f, of j] by auto
  next
    fix ix
    assume "path_ok l ix" "ix ! l \<in> set (i # is)"
    then show "fview (entry (phys_words s1) l p ix) = fview (entry (phys_words s) l p ix) \<or>
      fview (entry (phys_words s1) l p ix) = fork_view vmas (path_vpn l pfx ix) (entry (phys_words s) l p ix)"
      by (rule E)
  qed (use forkedD [OF f] Z R in auto)
qed

text \<open>The child's part for the first entry is not touched by the rest of the loop.\<close>

lemma forked_first:
  assumes pre: "fork_pre vmas l p c pfx (i # is) s" and f: "forked vmas l p c pfx [i] s s1 (Inr ())"
    and g: "forked vmas l p c pfx is s1 s' r"
  shows "phys_words s' p i = phys_words s1 p i" "phys_words s' c i = phys_words s1 c i"
    "q \<in> set (subtables (phys_words s1) l [i] c) \<Longrightarrow> phys_words s' q = phys_words s1 q"
    "q \<in> set (subtables (phys_words s) l [i] p) \<Longrightarrow> phys_words s' q = phys_words s1 q"
proof -
  note R = forked_rest [OF pre f]
  have i: "i \<notin> set is" using pre by (simp add: fork_pre_def)
  show "phys_words s' p i = phys_words s1 p i" "phys_words s' c i = phys_words s1 c i"
    using forkedD(10,11) [OF g i] by auto
  have d: "distinct (p # subtables (phys_words s) l [i] p @ subtables (phys_words s) l is p)"
    "c \<notin> set (p # subtables (phys_words s) l [i] p @ subtables (phys_words s) l is p)"
    "\<forall>q \<in> set (p # subtables (phys_words s) l [i] p @ subtables (phys_words s) l is p). 0 < own s q"
    "0 < own s c"
    using pre by (simp_all add: fork_pre_def subtables_one [of _ _ i "is"])
  show "phys_words s' q = phys_words s1 q" if q: "q \<in> set (subtables (phys_words s1) l [i] c)"
  proof (rule forkedD(9) [OF g])
    show "0 < own s1 q" by (rule forked_owned [OF f q])
    have z: "own s q = 0" by (rule forkedD(6) [OF f q])
    show "q \<notin> set (p # c # subtables (phys_words s1) l is p)"
    proof
      assume "q \<in> set (p # c # subtables (phys_words s1) l is p)"
      then have "q = c \<or> q \<in> set (p # subtables (phys_words s) l [i] p @ subtables (phys_words s) l is p)"
        unfolding R(3) by auto
      with d(3,4) have "0 < own s q" by blast
      with z show False by simp
    qed
  qed
  show "phys_words s' q = phys_words s1 q" if q: "q \<in> set (subtables (phys_words s) l [i] p)"
  proof (rule forkedD(9) [OF g])
    show "0 < own s1 q" using d(3) q forkedD(3) [OF f, of q] by auto
    show "q \<notin> set (p # c # subtables (phys_words s1) l is p)"
      unfolding R(3) using d(1,2) q by auto
  qed
qed

lemma forked_Cons:
  assumes pre: "fork_pre vmas l p c pfx (i # is) s" and f: "forked vmas l p c pfx [i] s s1 (Inr ())"
    and g: "forked vmas l p c pfx is s1 s' r"
  shows "forked vmas l p c pfx (i # is) s s' r"
proof -
  note R = forked_rest [OF pre f] and F = forked_first [OF pre f g]
  let ?w = "phys_words s" and ?w1 = "phys_words s1" and ?w' = "phys_words s'"
  have own1: "own s q \<le> own s1 q" for q using forkedD(3) [OF f, of q] by simp
  have tc: "subtables ?w' l [i] c = subtables ?w1 l [i] c \<and> proper ?w' l [i] c = proper ?w1 l [i] c"
    using F(2,3) by (intro tables_cong) auto
  have hc: "held ?w' vmas l [i] c pfx = held ?w1 vmas l [i] c pfx"
    using F(2,3) by (intro held_cong) auto
  have tp: "subtables ?w' l [i] p = subtables ?w1 l [i] p \<and> proper ?w' l [i] p = proper ?w1 l [i] p"
    using F(1,4) forkedD(7) [OF f] by (intro tables_cong) auto
  have ep: "entry ?w' l p ix = entry ?w1 l p ix" if "path_ok l ix" "ix ! l = i" for ix
    by (rule entry_cong_at [OF that(1)]) (use F(1,4) forkedD(7) [OF f] that in auto)
  have ec: "entry ?w' l c ix = entry ?w1 l c ix" if "path_ok l ix" "ix ! l = i" for ix
    by (rule entry_cong_at [OF that(1)]) (use F(2,3) that in auto)
  have fr: "own s q = 0" if "q \<in> set (subtables ?w' l is c)" for q
    using forkedD(6) [OF g that] own1 [of q] by simp
  have dj: "set (subtables ?w1 l [i] c) \<inter> set (subtables ?w' l is c) = {}"
    using forkedD(6) [OF g] forked_owned [OF f] by fastforce
  have E: "fview (entry ?w' l p ix) = fview (entry ?w l p ix) \<or>
      fview (entry ?w' l p ix) = fork_view vmas (path_vpn l pfx ix) (entry ?w l p ix)"
    if ix: "path_ok l ix" "ix ! l \<in> set (i # is)" for ix
  proof (cases "ix ! l = i")
    case True
    with forkedD(12) [OF f ix(1)] ep [OF ix(1)] show ?thesis by simp
  next
    case False
    with ix have "ix ! l \<in> set is" by simp
    with forkedD(12) [OF g ix(1)] R(6) [OF ix(1)] show ?thesis by simp
  qed
  have S: "fview (entry ?w' l p ix) = fork_view vmas (path_vpn l pfx ix) (entry ?w l p ix) \<and>
      fview (entry ?w' l c ix) = fork_view vmas (path_vpn l pfx ix) (entry ?w l p ix)"
    if ix: "path_ok l ix" "ix ! l \<in> set (i # is)" and r: "r = Inr ()" for ix
  proof (cases "ix ! l = i")
    case True
    with forkedD(15) [OF f refl ix(1)] ep [OF ix(1)] ec [OF ix(1)] show ?thesis by simp
  next
    case False
    with ix have "ix ! l \<in> set is" by simp
    with forkedD(15) [OF g r ix(1)] R(6) [OF ix(1)] show ?thesis by simp
  qed
  show ?thesis
    unfolding forked_def subtables_one [of _ _ i "is"] held_one [of _ _ _ i "is"] proper_one [of _ _ i "is"]
  proof (intro conjI allI impI ballI)
    show "frames_ok s'" by (rule forkedD(1) [OF g])
    show "managed s' = managed s" using forkedD(2) [OF f] forkedD(2) [OF g] by simp
    show "own s' q = own s q + count_list (held ?w' vmas l [i] c pfx @ held ?w' vmas l is c pfx) q" for q
      using forkedD(3) [OF f, of q] forkedD(3) [OF g, of q] hc by simp
    show "proper ?w' l [i] c" "proper ?w' l is c" "proper ?w' l [i] p" "proper ?w' l is p"
      using forkedD(4,8) [OF f] forkedD(4,8) [OF g] tc tp by auto
    show "distinct (subtables ?w' l [i] c @ subtables ?w' l is c)"
      using forkedD(5) [OF f] forkedD(5) [OF g] dj tc by auto
    show "own s q = 0" if "q \<in> set (subtables ?w' l [i] c @ subtables ?w' l is c)" for q
      using that fr forkedD(6) [OF f, of q] tc by auto
    show "subtables ?w' l [i] p @ subtables ?w' l is p = subtables ?w l [i] p @ subtables ?w l is p"
      using forkedD(7) [OF f] forkedD(7) [OF g] tp R(3) by simp
    show "?w' q = ?w q"
      if "0 < own s q" "q \<notin> set (p # c # subtables ?w l [i] p @ subtables ?w l is p)" for q
      using forkedD(9) [OF f, of q] forkedD(9) [OF g, of q] that own1 [of q] R(3) by auto
    show "?w' p j = ?w p j" "?w' c j = ?w c j" if "j \<notin> set (i # is)" for j
      using forkedD(10,11) [OF f, of j] forkedD(10,11) [OF g, of j] that by auto
    show "fview (entry ?w' l p ix) = fview (entry ?w l p ix) \<or>
      fview (entry ?w' l p ix) = fork_view vmas (path_vpn l pfx ix) (entry ?w l p ix)"
      if "path_ok l ix" "ix ! l \<in> set (i # is)" for ix using that by (rule E)
    show "case r of
        Inr u \<Rightarrow> length (held ?w' vmas l [i] c pfx @ held ?w' vmas l is c pfx) =
            length (held ?w vmas l [i] p pfx @ held ?w vmas l is p pfx) \<and>
          (\<forall>ix. path_ok l ix \<longrightarrow> ix ! l \<in> set (i # is) \<longrightarrow>
             fview (entry ?w' l p ix) = fork_view vmas (path_vpn l pfx ix) (entry ?w l p ix) \<and>
             fview (entry ?w' l c ix) = fork_view vmas (path_vpn l pfx ix) (entry ?w l p ix))
      | Inl e \<Rightarrow> e = MmOutOfMemory"
    proof (cases r)
      case (Inl e)
      with forkedD(13) [OF g] show ?thesis by simp
    next
      case (Inr u)
      then have r: "r = Inr ()" by simp
      show ?thesis using S r forkedD(14) [OF f] forkedD(14) [OF g] hc R(5) by simp
    qed
  qed
qed

lemma forked_loop:
  assumes step: "\<And>i s s1 r. fork_pre vmas l p c pfx [i] s \<Longrightarrow> f i s = (s1, r) \<Longrightarrow>
      forked vmas l p c pfx [i] s s1 r"
    and "fork_pre vmas l p c pfx is s" and "try_each f is s = (s', r)"
  shows "forked vmas l p c pfx is s s' r"
  using assms(2,3)
proof (induction "is" arbitrary: s)
  case Nil
  then show ?case by (auto simp: fork_pre_def intro: forked_Nil)
next
  case (Cons i "is")
  have b: "own s q + length (held (phys_words s) vmas l [i] p pfx) \<le> u32_max" for q
  proof -
    have "own s q + length (held (phys_words s) vmas l (i # is) p pfx) \<le> u32_max"
      using Cons.prems(1) unfolding fork_pre_def by blast
    then show ?thesis by (simp add: held_one [of _ _ _ i "is"])
  qed
  have one: "fork_pre vmas l p c pfx [i] s"
    using Cons.prems(1) b unfolding fork_pre_def subtables_one [of _ _ i "is"]
      held_one [of _ _ _ i "is"] proper_one [of _ _ i "is"]
    by auto
  obtain s1 a where fi: "f i s = (s1, a)" by fastforce
  note st = step [OF one fi]
  show ?case
  proof (cases a)
    case (Inl e)
    with fi Cons.prems(2) have "s' = s1" "r = Inl e" by auto
    with forked_fail [OF Cons.prems(1)] st Inl show ?thesis by simp
  next
    case (Inr u)
    with fi Cons.prems(2) have rest: "try_each f is s1 = (s', r)" by simp
    from st Inr have st': "forked vmas l p c pfx [i] s s1 (Inr ())" by simp
    show ?thesis
      by (rule forked_Cons [OF Cons.prems(1) st'
            Cons.IH [OF forked_step_pre [OF Cons.prems(1) st'] rest]])
  qed
qed

text \<open>
  One entry of \<open>fork_table\<close> (an empty entry, a leaf, a link to a lower table) establishes
  \<open>forked\<close>, hence a whole table does.
\<close>

lemma phys_inc_ref_owned:
  assumes ok: "frames_ok s" and own: "0 < own s q" and lt: "own s q < u32_max"
  shows "\<exists>s' n. phys_inc_ref q s = (s', Inr n) \<and> frames_ok s' \<and> managed s' = managed s \<and>
    own s' = (own s)(q := own s q + 1) \<and> phys_words s' = phys_words s"
proof -
  let ?g = "phys_frames s"
  have inv: "g_inv ?g" using ok by (simp add: frames_ok_def)
  from own have nc: "q \<notin> set (cached (zero_pool ?g))" and o: "0 < owners (alloc_state ?g) q"
    and eq: "own s q = owners (alloc_state ?g) q"
    by (auto simp: g_owners_def split: if_splits)
  obtain a r where ir: "inc_ref q (alloc_state ?g) = (a, r)" by fastforce
  note io = inc_ref_owned [OF g_invD(1) [OF inv] o]
  have sat: "sat_add u32_max (owners (alloc_state ?g) q) 1 = owners (alloc_state ?g) q + 1"
    using lt eq by (simp add: sat_add_def)
  from io ir sat have a: "frame_inv a" "pool_frames a = pool_frames (alloc_state ?g)"
    "owners a = (owners (alloc_state ?g))(q := owners (alloc_state ?g) q + 1)" by auto
  from ir o inc_ref_eq [OF g_invD(1) [OF inv], of q] obtain n where r: "r = Inr n" by auto
  let ?s = "s\<lparr>phys_frames := ?g\<lparr>alloc_state := a\<rparr>\<rparr>"
  have "phys_inc_ref q s = (?s, Inr n)"
    using ir r by (simp add: phys_inc_ref_def frame_inc_ref_def map_frame_error_def)
  moreover have "g_inv (?g\<lparr>alloc_state := a\<rparr>)"
    using inv a nc by (auto simp: g_inv_def)
  then have "frames_ok ?s" using ok a(2) by (simp add: frames_ok_def g_frames_def)
  moreover have "own ?s = (own s)(q := own s q + 1)"
    using a(3) nc by (auto simp: g_owners_def fun_eq_iff)
  moreover have "managed ?s = managed s" using a(2) by (simp add: g_frames_def)
  ultimately show ?thesis by auto
qed

lemma fview_invalid [simp]: "\<not> e_valid e \<Longrightarrow> fview e = None" "fview 0 = None"
  by (simp_all add: fview_def)

lemma fview_set: "q < 2 ^ 44 \<Longrightarrow> flags_fit f \<Longrightarrow> flags_valid f \<Longrightarrow> fview (pte_set q f) = Some (q, f)"
  by (simp add: fview_def)

section \<open>An empty entry\<close>

lemma subtables_invalid: "\<not> e_valid (w p i) \<Longrightarrow> subtables w l [i] p = [] \<and> proper w l [i] p \<and> held w vmas l [i] p pfx = []"
  by (cases l) auto

lemma entry_invalid: "\<not> e_valid (w p (ix ! l)) \<Longrightarrow> fview (entry w l p ix) = None"
  by (cases l) auto

lemma step_invalid:
  assumes pre: "fork_pre vmas l p c pfx [i] s" and v: "\<not> e_valid (phys_words s p i)"
  shows "forked vmas l p c pfx [i] s s (Inr ())"
proof -
  have z: "\<not> e_valid (phys_words s c i)" using pre by (simp add: fork_pre_def)
  note P = subtables_invalid [of "phys_words s" p i l vmas pfx, OF v]
    and C = subtables_invalid [of "phys_words s" c i l vmas pfx, OF z]
  have "fview (entry (phys_words s) l p ix) = None" "fview (entry (phys_words s) l c ix) = None"
    if "ix ! l = i" for ix
    using entry_invalid [of "phys_words s" p ix l] entry_invalid [of "phys_words s" c ix l] v z that
    by auto
  with pre P C show ?thesis by (simp add: forked_def fork_view_def fork_pre_def)
qed

section \<open>A leaf\<close>

lemma leaf_result:
  assumes v: "e_valid e" and F: "F = fork_flags vmas (page_addr vpn) (pte_flags_of e)"
  shows "fview (pte_set (pte_ppn e) F) = fork_view vmas vpn e" "flags_fit F" "flags_valid F"
    "perm_user (to_page_perm F) = perm_user (to_page_perm (pte_flags_of e))"
proof -
  show fit: "flags_fit F" by (simp add: F fork_flags_def)
  show val: "flags_valid F" using v by (simp add: F fork_flags_def bit_prepare_cow)
  show "perm_user (to_page_perm F) = perm_user (to_page_perm (pte_flags_of e))"
    unfolding F fork_flags_def using prepare_cow_perm(2) by auto
  show "fview (pte_set (pte_ppn e) F) = fork_view vmas vpn e"
    using fview_set [OF pte_ppn_bound fit val] v by (simp add: fork_view_def fview_def F)
qed

text \<open>What \<open>fork_leaf\<close> does in one step: count the reference, then write both entries.\<close>

lemma fork_leaf_spec:
  assumes ok: "frames_ok s" and cp: "c \<noteq> p" and v: "e_valid (phys_words s p i)"
    and e: "e = phys_words s p i" and F: "F = fork_flags vmas (page_addr pfx) (pte_flags_of e)"
    and counted: "counted \<longleftrightarrow> perm_user (to_page_perm (pte_flags_of e)) \<and>
        \<not> vma_where is_non_owned vmas (page_addr pfx)"
    and own: "counted \<Longrightarrow> 0 < own s (pte_ppn e) \<and> own s (pte_ppn e) < u32_max"
    and f: "fork_leaf vmas p c pfx i s = (s', r)"
  shows "r = Inr () \<and> frames_ok s' \<and> managed s' = managed s \<and>
    own s' = (if counted then (own s)(pte_ppn e := own s (pte_ppn e) + 1) else own s) \<and>
    (\<exists>e'. fview e' = fork_view vmas pfx e \<and>
      phys_words s' = (phys_words s)(p := (phys_words s p)(i := e'),
        c := (phys_words s c)(i := pte_set (pte_ppn e) F)))"
proof -
  have ev: "e_valid e" using v e by simp
  note lr = leaf_result [OF ev F]
  have pe: "pte_at s (p, i) = e" by (simp add: pte_at_def e)
  have same: "(phys_words s)(p := (phys_words s p)(i := e)) = phys_words s" by (simp add: e)
  have keep: "fview e = fork_view vmas pfx e" if "F = pte_flags_of e"
    using ev that F by (simp add: fork_view_def fview_def)
  show ?thesis
  proof (cases "perm_user (to_page_perm (pte_flags_of e))")
    case False
    then have Fe: "F = pte_flags_of e" by (simp add: F fork_flags_def)
    from f False pe have "s' = put_pte (c, i) (pte_set (pte_ppn e) F) s" "r = Inr ()"
      by (simp_all add: fork_leaf_def Let_def Fe)
    with False counted ok keep [OF Fe] same show ?thesis
      by (auto intro!: exI [of _ e] simp: fun_upd_twist)
  next
    case True
    note user = this
    let ?page = "page_addr pfx"
    obtain s1 n where s1: "(if vma_where is_non_owned vmas ?page then (s, Inr 0)
        else phys_inc_ref (pte_ppn e) s) = (s1, Inr n)"
      and k: "frames_ok s1" "managed s1 = managed s" "phys_words s1 = phys_words s"
        "own s1 = (if counted then (own s)(pte_ppn e := own s (pte_ppn e) + 1) else own s)"
    proof (cases "vma_where is_non_owned vmas ?page")
      case True
      with counted ok show ?thesis by (intro that [of s 0]) auto
    next
      case False
      with counted user have "counted" by simp
      with own phys_inc_ref_owned [OF ok] obtain s1 n where
        "phys_inc_ref (pte_ppn e) s = (s1, Inr n)" "frames_ok s1" "managed s1 = managed s"
        "own s1 = (own s)(pte_ppn e := own s (pte_ppn e) + 1)" "phys_words s1 = phys_words s"
        by blast
      with False \<open>counted\<close> show ?thesis by (intro that [of s1 n]) auto
    qed
    show ?thesis
    proof (cases "vma_where is_shared vmas ?page \<or> vma_where is_non_owned vmas ?page \<or>
        \<not> flags_writable (pte_flags_of e)")
      case True
      then have Fe: "F = pte_flags_of e" by (auto simp: F fork_flags_def)
      from f user pe s1 True have "s' = put_pte (c, i) (pte_set (pte_ppn e) F) s1" "r = Inr ()"
        by (auto simp: fork_leaf_def Let_def Fe split: if_splits)
      with k keep [OF Fe] same show ?thesis
        by (auto intro!: exI [of _ e] simp: fun_upd_twist)
    next
      case False
      then have Fe: "F = prepare_cow (pte_flags_of e)" using user by (simp add: F fork_flags_def)
      from f user pe s1 False
      have "s' = put_pte (c, i) (pte_set (pte_ppn e) F) (put_pte (p, i) (pte_set (pte_ppn e) F) s1)"
        "r = Inr ()"
        by (auto simp: fork_leaf_def Let_def Fe split: if_splits)
      with k lr(1) cp show ?thesis
        by (auto intro!: exI [of _ "pte_set (pte_ppn e) F"] simp: fun_upd_twist)
    qed
  qed
qed

lemma step_leaf:
  assumes pre: "fork_pre vmas 0 p c pfx [i] s" and v: "e_valid (phys_words s p i)"
    and f: "fork_entry vmas rec 0 p c pfx i s = (s', r)"
  shows "forked vmas 0 p c pfx [i] s s' r"
proof -
  define e where "e = phys_words s p i"
  define q where "q = entry_prefix pfx 0 i"
  define F where "F = fork_flags vmas (page_addr q) (pte_flags_of e)"
  define counted where "counted \<longleftrightarrow> perm_user (to_page_perm (pte_flags_of e)) \<and>
        \<not> vma_where is_non_owned vmas (page_addr q)"
  have cp: "c \<noteq> p" and ok: "frames_ok s" using pre by (auto simp: fork_pre_def)
  have hp: "held (phys_words s) vmas 0 [i] p pfx = (if counted then [pte_ppn e] else [])"
    using v by (auto simp: counted_def e_def q_def)
  have own: "0 < own s (pte_ppn e) \<and> own s (pte_ppn e) < u32_max" if counted
  proof -
    from pre have "\<forall>x \<in> set (held (phys_words s) vmas 0 [i] p pfx). 0 < own s x"
      "own s (pte_ppn e) + length (held (phys_words s) vmas 0 [i] p pfx) \<le> u32_max"
      unfolding fork_pre_def by blast+
    with that hp show ?thesis by simp
  qed
  have fl: "fork_leaf vmas p c q i s = (s', r)"
    using f v by (simp add: fork_entry_def Let_def pte_at_def is_leaf_at_level_def q_def)
  have L: "r = Inr () \<and> frames_ok s' \<and> managed s' = managed s \<and>
    own s' = (if counted then (own s)(pte_ppn e := own s (pte_ppn e) + 1) else own s) \<and>
    (\<exists>e'. fview e' = fork_view vmas q e \<and>
      phys_words s' = (phys_words s)(p := (phys_words s p)(i := e'),
        c := (phys_words s c)(i := pte_set (pte_ppn e) F)))"
    by (rule fork_leaf_spec [OF ok cp v e_def F_def counted_def own fl])
  then obtain e' where e': "fview e' = fork_view vmas q e"
    and w': "phys_words s' = (phys_words s)(p := (phys_words s p)(i := e'),
        c := (phys_words s c)(i := pte_set (pte_ppn e) F))" by blast
  have ev: "e_valid e" using v by (simp add: e_def)
  note lr = leaf_result [OF ev F_def]
  have hc: "held (phys_words s') vmas 0 [i] c pfx = (if counted then [pte_ppn e] else [])"
    using lr(2,3,4) pte_ppn_bound [of e] by (auto simp: w' counted_def q_def)
  have P: "fview (entry (phys_words s') 0 p ix) = fork_view vmas (path_vpn 0 pfx ix) (entry (phys_words s) 0 p ix)"
    "fview (entry (phys_words s') 0 c ix) = fork_view vmas (path_vpn 0 pfx ix) (entry (phys_words s) 0 p ix)"
    if "ix ! 0 = i" for ix
    using that e' lr(1) cp by (simp_all add: w' e_def q_def)
  show ?thesis
    unfolding forked_def hc hp
    using L P cp by (auto simp: w')
qed

section \<open>A link to a lower table\<close>

lemma step_node:
  assumes pre: "fork_pre vmas (Suc l) p c pfx [i] s" and v: "e_valid (phys_words s p i)"
    and IH: "\<And>p c pfx s s' r. fork_pre vmas l p c pfx all_idx s \<Longrightarrow> rec p c pfx s = (s', r) \<Longrightarrow>
        forked vmas l p c pfx all_idx s s' r"
    and f: "fork_entry vmas rec (Suc l) p c pfx i s = (s', r)"
  shows "forked vmas (Suc l) p c pfx [i] s s' r"
proof -
  let ?w = "phys_words s"
  define pp where "pp = pte_ppn (?w p i)"
  define x where "x = entry_prefix pfx (Suc l) i"
  have ok: "frames_ok s" and cown: "0 < own s c" and ci: "?w c i = 0"
    using pre by (auto simp: fork_pre_def)
  have lf: "\<not> e_leaf (?w p i)" and prp: "proper ?w l all_idx pp"
    using pre v by (auto simp: fork_pre_def pp_def)
  have st: "subtables ?w (Suc l) [i] p = pp # subtables ?w l all_idx pp" using v by (simp add: pp_def)
  have hp: "held ?w vmas (Suc l) [i] p pfx = held ?w vmas l all_idx pp x @ [pp]"
    using v lf by (simp add: pp_def x_def)
  have T: "distinct (p # pp # subtables ?w l all_idx pp)"
    "\<forall>q \<in> set (p # pp # subtables ?w l all_idx pp). 0 < own s q"
    "c \<notin> set (p # pp # subtables ?w l all_idx pp)"
    using pre unfolding fork_pre_def st by blast+
  have bound: "own s q + (length (held ?w vmas l all_idx pp x) + 1) \<le> u32_max" for q
  proof -
    have "own s q + length (held ?w vmas (Suc l) [i] p pfx) \<le> u32_max"
      using pre unfolding fork_pre_def by blast
    then show ?thesis unfolding hp by simp
  qed
  have hown: "\<forall>q \<in> set (held ?w vmas l all_idx pp x). 0 < own s q"
    using pre unfolding fork_pre_def hp by simp
  have i: "i < 512" using pre by (simp add: fork_pre_def)
  obtain s1 a where al: "alloc_table_frame_zeroed s = (s1, a)" by fastforce
  show ?thesis
  proof (cases a)
    case (Inl e)
    with al have al': "alloc_table_frame_zeroed s = (s1, Inl e)" by simp
    note ta = table_alloc_Inl [OF ok al']
    from f al' v lf have "s' = s1" "r = Inl e"
      by (auto simp: fork_entry_def Let_def pte_at_def is_leaf_at_level_def)
    with ta pre st ci show ?thesis by (auto simp: forked_def fork_pre_def)
  next
    case (Inr sub)
    with al have al': "alloc_table_frame_zeroed s = (s1, Inr sub)" by simp
    note ta = table_alloc_Inr [OF ok al']
    obtain s2 b where rc: "rec pp sub x s1 = (s2, b)" by fastforce
    have own1: "own s1 q = own s q + (if q = sub then 1 else 0)" for q using ta(3,6) by auto
    have nsub: "sub \<noteq> q" if "0 < own s q" for q using ta(3) that by auto
    have w1: "phys_words s1 q = ?w q" if "0 < own s q" for q using ta(7) nsub [OF that] by simp
    have pown: "0 < own s p" "0 < own s pp" using T(2) by auto
    have cong: "subtables (phys_words s1) l all_idx pp = subtables ?w l all_idx pp \<and>
        proper (phys_words s1) l all_idx pp = proper ?w l all_idx pp"
      using w1 T(2) by (intro tables_cong) auto
    have hcong: "held (phys_words s1) vmas l all_idx pp x = held ?w vmas l all_idx pp x"
      using w1 T(2) by (intro held_cong) auto
    have pre1: "fork_pre vmas l pp sub x all_idx s1"
      unfolding fork_pre_def conjunct1 [OF cong] conjunct2 [OF cong] hcong
    proof (intro conjI ballI allI)
      show "frames_ok s1" by (rule ta(1))
      show "proper ?w l all_idx pp" by (rule prp)
      show "distinct (pp # subtables ?w l all_idx pp)" using T(1) by auto
      show "0 < own s1 q" if "q \<in> set (pp # subtables ?w l all_idx pp)" for q
        using T(2) that own1 [of q] by auto
      show "sub \<notin> set (pp # subtables ?w l all_idx pp)"
      proof
        assume "sub \<in> set (pp # subtables ?w l all_idx pp)"
        with T(2) have "0 < own s sub" by auto
        with ta(3) show False by simp
      qed
      show "0 < own s1 sub" using ta(6) by simp
      show "phys_words s1 sub j = 0" for j using ta(7) by simp
      show "0 < own s1 q" if "q \<in> set (held ?w vmas l all_idx pp x)" for q
        using hown that own1 [of q] by auto
      show "own s1 q + length (held ?w vmas l all_idx pp x) \<le> u32_max" for q
        using bound [of q] own1 [of q] by auto
    qed auto
    note g = IH [OF pre1 rc]
    have w2: "phys_words s2 q = ?w q" if "0 < own s q" "q \<notin> set (pp # subtables ?w l all_idx pp)" for q
    proof -
      have "phys_words s2 q = phys_words s1 q"
        using forkedD(9) [OF g, of q] that own1 [of q] nsub [OF that(1)] cong by auto
      with w1 [OF that(1)] show ?thesis by simp
    qed
    have wc: "phys_words s2 c = ?w c" using w2 [OF cown] T(3) by auto
    have wp: "phys_words s2 p = ?w p" using w2 [OF pown(1)] T(1) by auto
    have ent1: "entry (phys_words s1) l pp ix = entry ?w l pp ix" if "path_ok l ix" for ix
      by (rule entry_cong [OF that]) (use w1 T(2) in auto)
    have ix_all: "ix ! l \<in> set all_idx" if "path_ok l ix" for ix
      using path_ok_Suc(2) [OF that] by simp
    show ?thesis
    proof (cases b)
      case (Inl e)
      then have gl: "forked vmas l pp sub x all_idx s1 s2 (Inl e)" using g by simp
      let ?R = "held (phys_words s2) vmas l all_idx sub x @ [sub]"
      from f al' v lf rc Inl have s': "s' = dealloc_each ?R s2" and r: "r = Inl e"
        by (auto simp: fork_entry_def Let_def pte_at_def is_leaf_at_level_def pp_def x_def
            destroy_table_held)
      have own2: "own s2 q = own s q + count_list ?R q" for q
        using forkedD(3) [OF gl, of q] own1 [of q] by auto
      have D: "frames_ok s' \<and> managed s' = managed s2 \<and> own s' = (\<lambda>q. own s2 q - count_list ?R q)"
        unfolding s' by (rule dealloc_each_owned [OF forkedD(1) [OF gl]]) (simp add: own2)
      then have own': "own s' q = own s q" for q using own2 [of q] by simp
      have w': "phys_words s' = phys_words s2" by (simp add: s')
      have st': "subtables (phys_words s2) (Suc l) [i] p = subtables ?w (Suc l) [i] p"
        "proper (phys_words s2) (Suc l) [i] p"
        using forkedD(7,8) [OF gl] cong v lf by (auto simp: wp pp_def)
      have sc: "subtables (phys_words s2) (Suc l) [i] c = []" "proper (phys_words s2) (Suc l) [i] c"
        "held (phys_words s2) vmas (Suc l) [i] c pfx = []" using ci by (simp_all add: wc)
      show ?thesis
        unfolding forked_def w' st' sc r sum.case
      proof (intro conjI allI impI ballI)
        show "frames_ok s'" "managed s' = managed s" using D forkedD(2) [OF gl] ta(2) by auto
        show "proper (phys_words s2) (Suc l) [i] c" "proper (phys_words s2) (Suc l) [i] p"
          by (rule sc(2), rule st'(2))
        show "own s' q = own s q + count_list [] q" for q using own' by simp
        show "phys_words s2 q = ?w q"
          if "0 < own s q" "q \<notin> set (p # c # subtables ?w (Suc l) [i] p)" for q
          using w2 [OF that(1)] that(2) unfolding st by auto
        show "phys_words s2 p j = ?w p j" "phys_words s2 c j = ?w c j" for j by (simp_all add: wp wc)
        show "e = MmOutOfMemory" by (rule forkedD(13) [OF gl refl])
        fix ix
        assume ix: "path_ok (Suc l) ix" "ix ! Suc l \<in> set [i]"
        note px = path_ok_Suc(1) [OF ix(1)]
        from ix(2) forkedD(12) [OF gl px ix_all [OF px]] ent1 [OF px]
        show "fview (entry (phys_words s2) (Suc l) p ix) = fview (entry ?w (Suc l) p ix) \<or>
            fview (entry (phys_words s2) (Suc l) p ix) =
              fork_view vmas (path_vpn (Suc l) pfx ix) (entry ?w (Suc l) p ix)"
          using v by (simp add: wp pp_def x_def)
      qed simp_all
    next
      case (Inr u)
      then have gr: "forked vmas l pp sub x all_idx s1 s2 (Inr ())" using g by simp
      from f al' v lf rc Inr have s': "s' = put_pte (c, i) (pte_set sub FLAG_V) s2" and r: "r = Inr ()"
        by (auto simp: fork_entry_def Let_def pte_at_def is_leaf_at_level_def pp_def x_def)
      let ?w' = "phys_words s'"
      note lk = link_entry [OF ta(5)]
      have w'c: "?w' c = (?w c)(i := pte_set sub FLAG_V)" by (simp add: s' wc)
      have w'q: "?w' q = phys_words s2 q" if "q \<noteq> c" for q using that by (simp add: s')
      have cn: "c \<notin> set (sub # subtables (phys_words s2) l all_idx sub)"
        using forkedD(6) [OF gr, of c] own1 [of c] cown nsub [OF cown] by auto
      have ws: "?w' q = phys_words s2 q" if "q \<in> set (sub # subtables (phys_words s2) l all_idx sub)" for q
        using w'q [of q] cn that by metis
      have cs: "subtables ?w' l all_idx sub = subtables (phys_words s2) l all_idx sub \<and>
          proper ?w' l all_idx sub = proper (phys_words s2) l all_idx sub"
        by (intro tables_cong) (simp_all add: ws)
      have ch: "held ?w' vmas l all_idx sub x = held (phys_words s2) vmas l all_idx sub x"
        by (intro held_cong) (simp_all add: ws)
      have ce: "entry ?w' l sub ix = entry (phys_words s2) l sub ix" if "path_ok l ix" for ix
        by (rule entry_cong [OF that ws])
      have cpp: "c \<notin> set (pp # subtables (phys_words s2) l all_idx pp)"
        using T(3) forkedD(7) [OF gr] cong by auto
      have wpp: "?w' q = phys_words s2 q" if "q \<in> set (pp # subtables (phys_words s2) l all_idx pp)" for q
        using w'q [of q] cpp that by metis
      have ps: "subtables ?w' l all_idx pp = subtables (phys_words s2) l all_idx pp \<and>
          proper ?w' l all_idx pp = proper (phys_words s2) l all_idx pp"
        by (intro tables_cong) (simp_all add: wpp)
      have pe: "entry ?w' l pp ix = entry (phys_words s2) l pp ix" if "path_ok l ix" for ix
        by (rule entry_cong [OF that wpp])
      have pc: "p \<noteq> c" using T(3) by auto
      have w'p: "?w' p = ?w p" using w'q [OF pc] wp by simp
      have S: "subtables ?w' (Suc l) [i] c = sub # subtables (phys_words s2) l all_idx sub"
        "proper ?w' (Suc l) [i] c" "held ?w' vmas (Suc l) [i] c pfx = held (phys_words s2) vmas l all_idx sub x @ [sub]"
        using lk cs ch forkedD(4) [OF gr] by (simp_all add: w'c x_def)
      have P: "subtables ?w' (Suc l) [i] p = subtables ?w (Suc l) [i] p" "proper ?w' (Suc l) [i] p"
        using ps forkedD(7,8) [OF gr] cong v lf by (auto simp: w'p pp_def)
      have own': "own s' q = own s q + count_list (held (phys_words s2) vmas l all_idx sub x @ [sub]) q" for q
        using forkedD(3) [OF gr, of q] own1 [of q] by (auto simp: s')
      have E: "fview (entry ?w' (Suc l) p ix) = fork_view vmas (path_vpn (Suc l) pfx ix) (entry ?w (Suc l) p ix) \<and>
          fview (entry ?w' (Suc l) c ix) = fork_view vmas (path_vpn (Suc l) pfx ix) (entry ?w (Suc l) p ix)"
        if ix: "path_ok (Suc l) ix" "ix ! Suc l = i" for ix
      proof -
        note px = path_ok_Suc(1) [OF ix(1)]
        from forkedD(15) [OF gr refl px ix_all [OF px]] ent1 [OF px] pe [OF px] ce [OF px] v lk ix(2)
        show ?thesis by (simp add: w'p w'c pp_def x_def)
      qed
      show ?thesis
        unfolding forked_def P S r
      proof (intro conjI allI impI ballI)
        show "frames_ok s'" "managed s' = managed s"
          using forkedD(1,2) [OF gr] ta(2) by (simp_all add: s')
        show "own s' q = own s q + count_list (held (phys_words s2) vmas l all_idx sub x @ [sub]) q" for q
          by (rule own')
        show "proper ?w' (Suc l) [i] c" "proper ?w' (Suc l) [i] p" by (rule S(2), rule P(2))
        show "distinct (sub # subtables (phys_words s2) l all_idx sub)"
          using forkedD(5) [OF gr] forkedD(6) [OF gr, of sub] ta(6) by auto
        show "own s q = 0" if "q \<in> set (sub # subtables (phys_words s2) l all_idx sub)" for q
          using that forkedD(6) [OF gr, of q] own1 [of q] ta(3) by auto
        show "?w' q = ?w q" if "0 < own s q" "q \<notin> set (p # c # subtables ?w (Suc l) [i] p)" for q
          using w2 [OF that(1)] that(2) w'q [of q] unfolding st by auto
        show "?w' p j = ?w p j" "?w' c j = ?w c j" if "j \<notin> set [i]" for j
          using that by (simp_all add: w'p w'c)
        show "fview (entry ?w' (Suc l) p ix) = fview (entry ?w (Suc l) p ix) \<or>
            fview (entry ?w' (Suc l) p ix) =
              fork_view vmas (path_vpn (Suc l) pfx ix) (entry ?w (Suc l) p ix)"
          if "path_ok (Suc l) ix" "ix ! Suc l \<in> set [i]" for ix
          using E that by simp
        show "case Inr () of Inl e \<Rightarrow> e = MmOutOfMemory
          | Inr u \<Rightarrow> length (held (phys_words s2) vmas l all_idx sub x @ [sub]) =
              length (held ?w vmas (Suc l) [i] p pfx) \<and>
            (\<forall>ix. path_ok (Suc l) ix \<longrightarrow> ix ! Suc l \<in> set [i] \<longrightarrow>
              fview (entry ?w' (Suc l) p ix) = fork_view vmas (path_vpn (Suc l) pfx ix) (entry ?w (Suc l) p ix) \<and>
              fview (entry ?w' (Suc l) c ix) = fork_view vmas (path_vpn (Suc l) pfx ix) (entry ?w (Suc l) p ix))"
          using E forkedD(14) [OF gr refl] hcong hp by simp
      qed (rule refl)
    qed
  qed
qed

section \<open>Whole tables\<close>

theorem fork_table_forked:
  assumes "fork_pre vmas l p c pfx all_idx s" and "fork_table vmas l p c pfx s = (s', r)"
  shows "forked vmas l p c pfx all_idx s s' r"
  using assms
proof (induction l arbitrary: p c pfx s s' r)
  case 0
  have "try_each (fork_entry vmas (\<lambda>_ _ _ s. (s, Inr ())) 0 p c pfx) all_idx s = (s', r)"
    using 0(2) by (simp add: SV39_ENTRIES_def)
  with 0(1) show ?case
  proof (rule forked_loop [rotated])
    fix i s s1 r
    assume pre: "fork_pre vmas 0 p c pfx [i] s"
      and f: "fork_entry vmas (\<lambda>_ _ _ s. (s, Inr ())) 0 p c pfx i s = (s1, r)"
    show "forked vmas 0 p c pfx [i] s s1 r"
    proof (cases "e_valid (phys_words s p i)")
      case True
      show ?thesis by (rule step_leaf [OF pre True f])
    next
      case False
      with f have "s1 = s" "r = Inr ()" by (auto simp: fork_entry_def Let_def pte_at_def)
      with step_invalid [OF pre False] show ?thesis by simp
    qed
  qed
next
  case (Suc l)
  have "try_each (fork_entry vmas (fork_table vmas l) (Suc l) p c pfx) all_idx s = (s', r)"
    using Suc.prems(2) by (simp add: SV39_ENTRIES_def)
  with Suc.prems(1) show ?case
  proof (rule forked_loop [rotated])
    fix i s s1 r
    assume pre: "fork_pre vmas (Suc l) p c pfx [i] s"
      and f: "fork_entry vmas (fork_table vmas l) (Suc l) p c pfx i s = (s1, r)"
    show "forked vmas (Suc l) p c pfx [i] s s1 r"
    proof (cases "e_valid (phys_words s p i)")
      case True
      show ?thesis by (rule step_node [OF pre True Suc.IH f])
    next
      case False
      with f have "s1 = s" "r = Inr ()" by (auto simp: fork_entry_def Let_def pte_at_def)
      with step_invalid [OF pre False] show ?thesis by simp
    qed
  qed
qed

end
