(* ===== verification/Sv39_Refs.thy ===== *)
theory Sv39_Refs
  imports Sv39_Copy
begin

text \<open>
  The frames a tree holds, counted: each table once and each frame as often as user pages refer
  to it. This turns the list \<open>held\<close>, which follows the loops, into a property of the
  pages, so that the operations on pages can be accounted for.
\<close>

section \<open>Paths\<close>

definition paths :: "nat \<Rightarrow> nat list set" where
  "paths l = {ix. length ix = Suc l \<and> path_ok l ix}"

lemma paths_0: "paths 0 = (\<lambda>i. [i]) ` {..<512}"
  by (auto simp: paths_def path_ok_def length_Suc_conv image_iff)

lemma path_ok_snoc: "length ix = Suc l \<Longrightarrow> path_ok (Suc l) (ix @ [i]) \<longleftrightarrow> path_ok l ix \<and> i < 512"
  by (auto simp: path_ok_def nth_append le_Suc_eq)

lemma paths_Suc: "paths (Suc l) = (\<Union>i < 512. (\<lambda>ix. ix @ [i]) ` paths l)"
proof (rule set_eqI, rule iffI)
  fix ix
  assume ix: "ix \<in> paths (Suc l)"
  then have "ix \<noteq> []" by (auto simp: paths_def)
  then have e: "ix = butlast ix @ [last ix]" by simp
  have "length (butlast ix) = Suc l" using ix by (simp add: paths_def)
  moreover have "path_ok (Suc l) (butlast ix @ [last ix])" using ix e by (simp add: paths_def)
  ultimately have "butlast ix \<in> paths l" "last ix < 512"
    using path_ok_snoc [of "butlast ix" l "last ix"] by (simp_all add: paths_def)
  with e show "ix \<in> (\<Union>i < 512. (\<lambda>ix. ix @ [i]) ` paths l)" by (metis UN_I image_eqI lessThan_iff)
next
  fix ix
  assume "ix \<in> (\<Union>i < 512. (\<lambda>ix. ix @ [i]) ` paths l)"
  then show "ix \<in> paths (Suc l)" using path_ok_snoc by (auto simp: paths_def)
qed

lemma finite_paths: "finite (paths l)"
  by (induction l) (simp_all add: paths_0 paths_Suc)

lemma leaf_slot_snoc:
  "length ix = Suc l \<Longrightarrow> leaf_slot w l p (ix @ js) = leaf_slot w l p ix"
  by (rule leaf_slot_path) (simp add: same_path_def nth_append)

lemma path_vpn_snoc: "length ix = Suc l \<Longrightarrow> path_vpn l pfx (ix @ js) = path_vpn l pfx ix"
proof -
  have "same_path l ix jx \<Longrightarrow> path_vpn l pfx ix = path_vpn l pfx jx" for l pfx ix jx
    by (induction l arbitrary: pfx) (auto simp: same_path_Suc same_path_def)
  then show "length ix = Suc l \<Longrightarrow> path_vpn l pfx (ix @ js) = path_vpn l pfx ix"
    by (simp add: same_path_def nth_append)
qed

lemma entry_snoc:
  assumes "length ix = Suc l"
  shows "entry w (Suc l) p (ix @ [i]) = (if e_valid (w p i) then entry w l (pte_ppn (w p i)) ix else 0)"
  using assms leaf_slot_snoc [OF assms, of w "pte_ppn (w p i)" "[i]"]
  by (simp add: entry_def nth_append)

section \<open>Counting\<close>

text \<open>The frame a page refers to, if destroying the space would release it.\<close>

definition counted :: "('l, 'd) vma_set \<Rightarrow> nat \<Rightarrow> pte \<Rightarrow> nat option" where
  "counted vmas vpn e =
     (if e_valid e \<and> perm_user (to_page_perm (pte_flags_of e)) \<and>
         \<not> vma_where is_non_owned vmas (page_addr vpn) then Some (pte_ppn e) else None)"

definition leaf_refs :: "phys_words \<Rightarrow> ('l, 'd) vma_set \<Rightarrow> nat \<Rightarrow> nat \<Rightarrow> nat \<Rightarrow> nat \<Rightarrow> nat" where
  "leaf_refs w vmas l p pfx q =
     card {ix \<in> paths l. counted vmas (path_vpn l pfx ix) (entry w l p ix) = Some q}"

lemma count_concat: "count_list (concat (map f xs)) q = (\<Sum>x\<leftarrow>xs. count_list (f x) q)"
  by (induction xs) auto

lemma sum_upt: "(\<Sum>i\<leftarrow>[0..<n]. g i) = (\<Sum>i<n. g i :: nat)"
  by (simp add: sum_list_distinct_conv_sum_set atLeast_upt)

lemma leaf_refs_0: "leaf_refs w vmas 0 p pfx q =
    (\<Sum>i<512. if counted vmas (entry_prefix pfx 0 i) (w p i) = Some q then 1 else 0)"
proof -
  have "{ix \<in> paths 0. counted vmas (path_vpn 0 pfx ix) (entry w 0 p ix) = Some q} =
      (\<lambda>i. [i]) ` {i. i < 512 \<and> counted vmas (entry_prefix pfx 0 i) (w p i) = Some q}"
    by (auto simp: paths_0)
  then have "leaf_refs w vmas 0 p pfx q =
      card {i. i < 512 \<and> counted vmas (entry_prefix pfx 0 i) (w p i) = Some q}"
    by (simp add: leaf_refs_def card_image inj_on_def)
  also have "\<dots> = (\<Sum>i<512. if counted vmas (entry_prefix pfx 0 i) (w p i) = Some q then 1 else 0)"
    by (simp add: sum.If_cases Int_def Collect_conj_eq [symmetric] lessThan_def)
  finally show ?thesis .
qed

lemma counted_zero [simp]: "counted vmas v 0 = None"
  by (simp add: counted_def)

lemma leaf_refs_Suc: "leaf_refs w vmas (Suc l) p pfx q =
    (\<Sum>i<512. if e_valid (w p i)
      then leaf_refs w vmas l (pte_ppn (w p i)) (entry_prefix pfx (Suc l) i) q else 0)"
proof -
  let ?A = "\<lambda>i. {ix \<in> paths l. e_valid (w p i) \<and>
      counted vmas (path_vpn l (entry_prefix pfx (Suc l) i) ix) (entry w l (pte_ppn (w p i)) ix) = Some q}"
  have eq: "counted vmas (path_vpn (Suc l) pfx (ix @ [i])) (entry w (Suc l) p (ix @ [i])) = Some q \<longleftrightarrow>
      e_valid (w p i) \<and>
      counted vmas (path_vpn l (entry_prefix pfx (Suc l) i) ix) (entry w l (pte_ppn (w p i)) ix) = Some q"
    if "ix \<in> paths l" for ix i
  proof -
    have len: "length ix = Suc l" using that by (simp add: paths_def)
    have v: "path_vpn (Suc l) pfx (ix @ [i]) = path_vpn l (entry_prefix pfx (Suc l) i) ix"
      using len by (simp add: nth_append path_vpn_snoc)
    show ?thesis unfolding v entry_snoc [OF len] by auto
  qed
  have "{ix \<in> paths (Suc l). counted vmas (path_vpn (Suc l) pfx ix) (entry w (Suc l) p ix) = Some q} =
      (\<Union>i < 512. (\<lambda>ix. ix @ [i]) ` ?A i)"
    unfolding paths_Suc using eq by blast
  then have "leaf_refs w vmas (Suc l) p pfx q = card (\<Union>i < 512. (\<lambda>ix. ix @ [i]) ` ?A i)"
    by (simp only: leaf_refs_def)
  also have "\<dots> = (\<Sum>i<512. card ((\<lambda>ix. ix @ [i]) ` ?A i))"
    by (rule card_UN_disjoint) (auto simp: finite_paths)
  also have "\<dots> = (\<Sum>i<512. card (?A i))"
    by (rule sum.cong [OF refl], rule card_image) (simp add: inj_on_def)
  also have "\<dots> = (\<Sum>i<512. if e_valid (w p i)
      then leaf_refs w vmas l (pte_ppn (w p i)) (entry_prefix pfx (Suc l) i) q else 0)"
    by (rule sum.cong [OF refl]) (simp add: leaf_refs_def)
  finally show ?thesis .
qed

lemma sum_disjoint_sets:
  fixes n :: nat
  assumes "\<And>i j. i < n \<Longrightarrow> j < n \<Longrightarrow> i \<noteq> j \<Longrightarrow> A i \<inter> A j = {}"
  shows "(\<Sum>i<n. if q \<in> A i then 1 else 0 :: nat) = (if q \<in> (\<Union>i<n. A i) then 1 else 0)"
  using assms
proof (induction n)
  case (Suc n)
  have IH: "(\<Sum>i<n. if q \<in> A i then 1 else 0 :: nat) = (if q \<in> (\<Union>i<n. A i) then 1 else 0)"
    using Suc.prems by (intro Suc.IH) auto
  have "q \<notin> A n" if "q \<in> (\<Union>i<n. A i)"
  proof -
    from that obtain j where j: "j < n" "q \<in> A j" by blast
    with Suc.prems [of n j] show ?thesis by auto
  qed
  then show ?case using IH by (auto simp: lessThan_Suc)
qed simp

lemma held_count:
  assumes "tree w l p"
  shows "count_list (held w vmas l all_idx p pfx @ [p]) q =
    (if q \<in> tset w l p then 1 else 0) + leaf_refs w vmas l p pfx q"
  using assms
proof (induction l arbitrary: p pfx)
  case 0
  have "count_list (held w vmas 0 all_idx p pfx) q = leaf_refs w vmas 0 p pfx q"
    unfolding held.simps count_concat sum_upt leaf_refs_0
    by (rule sum.cong [OF refl]) (auto simp: counted_def)
  then show ?case by simp
next
  case (Suc l)
  let ?c = "\<lambda>i. pte_ppn (w p i)" and ?x = "\<lambda>i. entry_prefix pfx (Suc l) i"
  let ?A = "\<lambda>i. if e_valid (w p i) then tset w l (?c i) else {}"
  have one: "count_list (if \<not> e_valid (w p i) then []
       else if e_leaf (w p i) then
         (if perm_user (to_page_perm (pte_flags_of (w p i))) \<and>
             \<not> vma_where is_non_owned vmas (page_addr (?x i)) then [?c i] else [])
       else held w vmas l all_idx (?c i) (?x i) @ [?c i]) q =
      (if q \<in> ?A i then 1 else 0) + (if e_valid (w p i) then leaf_refs w vmas l (?c i) (?x i) q else 0)"
    if i: "i < 512" for i
  proof (cases "e_valid (w p i)")
    case True
    note ch = tree_child [OF Suc.prems i True]
    show ?thesis using Suc.IH [OF ch(1), of "?x i"] ch(2) True by simp
  qed simp
  have "count_list (held w vmas (Suc l) all_idx p pfx) q =
      (\<Sum>i<512. (if q \<in> ?A i then 1 else 0) +
         (if e_valid (w p i) then leaf_refs w vmas l (?c i) (?x i) q else 0))"
    unfolding held.simps count_concat sum_upt by (rule sum.cong [OF refl]) (use one in simp)
  also have "\<dots> = (if q \<in> (\<Union>i<512. ?A i) then 1 else 0) + leaf_refs w vmas (Suc l) p pfx q"
  proof -
    have "(\<Sum>i<512. if q \<in> ?A i then 1 else 0 :: nat) = (if q \<in> (\<Union>i<512. ?A i) then 1 else 0)"
      by (rule sum_disjoint_sets) (use tree_child(5) [OF Suc.prems] in auto)
    then show ?thesis by (simp only: sum.distrib leaf_refs_Suc)
  qed
  finally have C: "count_list (held w vmas (Suc l) all_idx p pfx) q =
      (if q \<in> (\<Union>i<512. ?A i) then 1 else 0) + leaf_refs w vmas (Suc l) p pfx q" .
  have U: "tset w (Suc l) p = insert p (\<Union>i<512. ?A i)" unfolding tset_Suc by auto
  have "p \<notin> (\<Union>i<512. ?A i)" using tree_child(3) [OF Suc.prems] by auto
  with C show ?case unfolding U by auto
qed

section \<open>Paths and page numbers\<close>

lemma or_add_512:
  assumes "a < (2 :: nat) ^ k"
  shows "(2 ^ k * b) OR a = a + 2 ^ k * b"
proof -
  have "(2 ^ k * b) AND a = 0"
  proof (rule bit_eqI)
    fix n
    have "bit a n \<Longrightarrow> n < k"
      using assms by (metis bit_take_bit_iff take_bit_nat_eq_self_iff)
    moreover have "bit (2 ^ k * b) n \<Longrightarrow> k \<le> n"
      by (simp add: push_bit_eq_mult [symmetric] mult.commute bit_push_bit_iff)
    ultimately show "bit ((2 ^ k * b) AND a) n = bit (0 :: nat) n" by (auto simp: bit_and_iff)
  qed
  then show ?thesis by (simp add: disjunctive_add_eq_or [symmetric] add.commute)
qed

lemma path_vpn_value:
  assumes "path_ok 2 ix"
  shows "path_vpn 2 0 ix = ix ! 0 + 512 * (ix ! 1 + 512 * ix ! 2)"
proof -
  have b: "ix ! 0 < 2 ^ 9" "ix ! 1 < 2 ^ 9" using assms by (auto simp: path_ok_def)
  have l1: "2 ^ 9 * ix ! 1 < 2 ^ 18" using b(2) by simp
  have e2: "0 OR push_bit 18 (ix ! 2) = 2 ^ 18 * ix ! 2"
    by (simp add: push_bit_eq_mult)
  have e1: "(2 ^ 18 * ix ! 2) OR push_bit 9 (ix ! 1) = 2 ^ 9 * (ix ! 1 + 512 * ix ! 2)"
    using or_add_512 [OF l1, of "ix ! 2"] by (simp add: push_bit_eq_mult mult.commute)
  have e0: "(2 ^ 9 * (ix ! 1 + 512 * ix ! 2)) OR ix ! 0 = ix ! 0 + 512 * (ix ! 1 + 512 * ix ! 2)"
    using or_add_512 [OF b(1), of "ix ! 1 + 512 * ix ! 2"] by simp
  have "path_vpn (Suc (Suc 0)) 0 ix =
      ((0 OR push_bit 18 (ix ! 2)) OR push_bit 9 (ix ! 1)) OR ix ! 0"
    by (simp add: entry_prefix_def VPN_INDEX_BITS_def numeral_2_eq_2)
  also have "\<dots> = ix ! 0 + 512 * (ix ! 1 + 512 * ix ! 2)" unfolding e2 e1 e0 ..
  finally show ?thesis by (simp add: numeral_2_eq_2)
qed

lemma path_vpn_indexes: "path_vpn 2 0 (vpn_indexes v) = v mod 2 ^ 27"
  unfolding path_vpn_value [OF path_ok_vpn] vpn_of_indexes ..

lemma list_three: "length xs = 3 \<Longrightarrow> xs = [xs ! 0, xs ! 1, xs ! 2]"
  by (auto simp: length_Suc_conv numeral_3_eq_3)

lemma indexes_value:
  assumes "a < 512" "b < 512" "c < 512"
  shows "vpn_indexes (a + 512 * (b + 512 * c)) = [a, b, c]"
proof -
  let ?v = "a + 512 * (b + 512 * c)"
  have l: "length (vpn_indexes ?v) = 3" by (simp add: vpn_indexes_def)
  have lt: "?v < 2 ^ 27" using assms by simp
  have bd: "vpn_indexes ?v ! k < 512" if "k < 3" for k using that by (rule vpn_index_bound)
  have b0: "vpn_indexes ?v ! 0 < 512" and b1: "vpn_indexes ?v ! 1 < 512" by (rule bd, simp)+
  have eq: "a + 512 * (b + 512 * c) =
      vpn_indexes ?v ! 0 + 512 * (vpn_indexes ?v ! 1 + 512 * vpn_indexes ?v ! 2)"
    using vpn_of_indexes [of ?v] mod_less [OF lt] by linarith
  note e0 = base_512 [OF assms(1) b0 eq]
  note e1 = base_512 [OF assms(2) b1 conjunct2 [OF e0]]
  have "vpn_indexes ?v ! 0 = a" "vpn_indexes ?v ! 1 = b" "vpn_indexes ?v ! 2 = c"
    by (rule conjunct1 [OF e0, symmetric], rule conjunct1 [OF e1, symmetric],
        rule conjunct2 [OF e1, symmetric])
  then show ?thesis by (subst list_three [OF l]) (simp only:)
qed

lemma paths_2: "paths 2 = vpn_indexes ` {..<2 ^ 27}"
proof (rule set_eqI, rule iffI)
  fix ix
  assume ix: "ix \<in> paths 2"
  then obtain a b c where e: "ix = [a, b, c]"
    by (auto simp: paths_def length_Suc_conv numeral_2_eq_2)
  have "ix ! 0 < 512" "ix ! 1 < 512" "ix ! 2 < 512" using ix by (auto simp: paths_def path_ok_def)
  then have l: "a < 512" "b < 512" "c < 512" by (simp_all add: e)
  then have "a + 512 * (b + 512 * c) < 2 ^ 27" by simp
  with indexes_value [OF l] e show "ix \<in> vpn_indexes ` {..<2 ^ 27}" by (metis image_eqI lessThan_iff)
next
  fix ix
  assume "ix \<in> vpn_indexes ` {..<2 ^ 27}"
  then show "ix \<in> paths 2" by (auto simp: paths_def) (simp add: vpn_indexes_def)
qed

lemma inj_vpn_indexes: "inj_on vpn_indexes {..<2 ^ 27}"
proof (rule inj_onI)
  fix u v :: nat
  assume "u \<in> {..<2 ^ 27}" "v \<in> {..<2 ^ 27}" "vpn_indexes u = vpn_indexes v"
  with vpn_of_indexes [of u] vpn_of_indexes [of v] show "u = v" by simp
qed

section \<open>References of a space\<close>

text \<open>
  The references a space holds to a frame: one if it is one of its tables, and one for every
  page that maps it with user permission and owns it.
\<close>

definition page_ref :: "('l, 'd) vma_set \<Rightarrow> nat \<Rightarrow> (nat \<times> pte_flags) option \<Rightarrow> nat option" where
  "page_ref vmas vpn pf =
     (case pf of None \<Rightarrow> None
      | Some (ppn, f) \<Rightarrow>
          if perm_user (to_page_perm f) \<and> \<not> vma_where is_non_owned vmas (page_addr vpn)
          then Some ppn else None)"

definition page_refs :: "phys \<Rightarrow> ('l, 'd) vma_set \<Rightarrow> nat \<Rightarrow> nat \<Rightarrow> nat set" where
  "page_refs s vmas root q = {v. v < 2 ^ 27 \<and> page_ref vmas v (view s root v) = Some q}"

definition refs :: "phys \<Rightarrow> ('l, 'd) vma_set \<Rightarrow> nat \<Rightarrow> nat \<Rightarrow> nat" where
  "refs s vmas root q =
     (if q \<in> space_tables s root then 1 else 0) + card (page_refs s vmas root q)"

definition space_held :: "phys \<Rightarrow> ('l, 'd) vma_set \<Rightarrow> nat \<Rightarrow> nat list" where
  "space_held s vmas root = held (phys_words s) vmas 2 all_idx root 0 @ [root]"

lemma view_fview: "view s root v = fview (page_entry s root v)"
  by (simp add: view_def fview_def Let_def)

lemma counted_page_ref: "counted vmas v e = page_ref vmas v (fview e)"
  by (simp add: counted_def page_ref_def fview_def)

lemma finite_page_refs [simp]: "finite (page_refs s vmas root q)"
  by (rule finite_subset [of _ "{..<2 ^ 27}"]) (auto simp: page_refs_def)

lemma space_held_count:
  assumes "space_ok s root"
  shows "count_list (space_held s vmas root) q = refs s vmas root q"
proof -
  have "{ix \<in> paths 2. counted vmas (path_vpn 2 0 ix) (entry (phys_words s) 2 root ix) = Some q} =
      vpn_indexes ` page_refs s vmas root q"
    unfolding paths_2 page_refs_def counted_page_ref
    by (auto simp: path_vpn_indexes view_fview page_entry_def)
  then have "leaf_refs (phys_words s) vmas 2 root 0 q = card (vpn_indexes ` page_refs s vmas root q)"
    by (simp only: leaf_refs_def)
  also have "\<dots> = card (page_refs s vmas root q)"
    by (rule card_image, rule inj_on_subset [OF inj_vpn_indexes]) (auto simp: page_refs_def)
  finally show ?thesis
    using held_count [of "phys_words s" 2 root vmas 0 q] assms
    by (simp only: space_held_def refs_def space_tables_def space_ok_def)
qed

text \<open>Destroying a space gives back exactly its references.\<close>

lemma destroy_space:
  assumes sp: "space_ok s root" and le: "\<And>q. refs s vmas root q \<le> own s q"
  shows "frames_ok (destroy_table vmas 2 root 0 s)"
    "managed (destroy_table vmas 2 root 0 s) = managed s"
    "own (destroy_table vmas 2 root 0 s) = (\<lambda>q. own s q - refs s vmas root q)"
    "phys_words (destroy_table vmas 2 root 0 s) = phys_words s"
proof -
  have e: "destroy_table vmas 2 root 0 s = dealloc_each (space_held s vmas root) s"
    by (simp only: destroy_table_held space_held_def)
  have c: "count_list (space_held s vmas root) q \<le> own s q" for q
    unfolding space_held_count [OF sp] by (rule le)
  note d = dealloc_each_owned [OF space_ok_frames [OF sp] c]
  then show "frames_ok (destroy_table vmas 2 root 0 s)"
    "managed (destroy_table vmas 2 root 0 s) = managed s"
    "own (destroy_table vmas 2 root 0 s) = (\<lambda>q. own s q - refs s vmas root q)"
    unfolding e space_held_count [OF sp] by auto
  show "phys_words (destroy_table vmas 2 root 0 s) = phys_words s" by (simp add: e)
qed

text \<open>A table tree holds at most this many references.\<close>

definition max_space_refs :: nat where "max_space_refs = 512 * (512 * (512 + 1) + 1)"

lemma length_concat_bound:
  "(\<And>x. x \<in> set xs \<Longrightarrow> length (f x) \<le> b) \<Longrightarrow> length (concat (map f xs)) \<le> length xs * b"
proof (induction xs)
  case (Cons x xs)
  then have "length (concat (map f xs)) \<le> length xs * b" "length (f x) \<le> b" by simp_all
  then show ?case by simp
qed simp

lemma held_length_step:
  assumes "\<And>p pfx. length (held w vmas l all_idx p pfx) \<le> b"
  shows "length (held w vmas (Suc l) all_idx p pfx) \<le> 512 * (b + 1)"
  unfolding held.simps
  using length_concat_bound [of all_idx _ "b + 1"] assms
  by (intro order_trans [OF length_concat_bound [where b = "b + 1"]]) auto

lemma held_length: "length (held w vmas 2 all_idx p pfx) \<le> max_space_refs"
proof -
  have 0: "length (held w vmas 0 all_idx p pfx) \<le> 512" for p pfx
    unfolding held.simps by (intro order_trans [OF length_concat_bound [where b = 1]]) auto
  note 1 = held_length_step [of w vmas 0 512, OF 0]
  note 2 = held_length_step [of w vmas "Suc 0" "512 * (512 + 1)", OF 1]
  show ?thesis using 2 [of p pfx] by (simp only: max_space_refs_def numeral_2_eq_2)
qed

end
