(* ===== verification/Sv39_Space.thy ===== *)
theory Sv39_Space
  imports Sv39_Refs
begin

text \<open>
  Address spaces (\<open>Sv39AddressSpace\<close> of \<open>pagetable.rs\<close>): creation, the
  copy-on-write fork and destruction. The machine is the physical memory with its frame
  allocator and the allocator of address space identifiers. Flushing translations is the
  hardware's part and changes nothing the model keeps.
\<close>

section \<open>State\<close>

record ('l, 'd) aspace =
  as_root :: nat
  as_asid :: nat
  user_brk_start :: nat
  user_brk_current_end :: nat
  user_brk_max :: nat
  mmap_anon_cursor :: nat
  mmap_file_cursor :: nat
  mmap_base :: nat
  user_stack_bottom :: nat
  user_stack_top :: nat
  as_vmas :: "('l, 'd) vma_set"

record machine =
  mach_phys :: phys
  mach_asids :: asid_allocator

definition fresh_space :: "nat \<Rightarrow> nat \<Rightarrow> ('l, 'd) aspace" where
  "fresh_space root asid =
     \<lparr>as_root = root, as_asid = asid, user_brk_start = 0, user_brk_current_end = 0,
      user_brk_max = 0, mmap_anon_cursor = 0, mmap_file_cursor = 0, mmap_base = 0,
      user_stack_bottom = 0, user_stack_top = 0, as_vmas = []\<rparr>"

definition aspace_new :: "machine \<Rightarrow> machine \<times> (mm_error, ('l, 'd) aspace) result" where
  "aspace_new m =
     (case allocate_user (mach_asids m) of
        (ids, Inl e) \<Rightarrow> (m\<lparr>mach_asids := ids\<rparr>, Inl e)
      | (ids, Inr asid) \<Rightarrow>
          (case alloc_table_frame_zeroed (mach_phys m) of
             (s, Inl e) \<Rightarrow> (\<lparr>mach_phys = s, mach_asids = asid_release asid ids\<rparr>, Inl e)
           | (s, Inr root) \<Rightarrow>
               (\<lparr>mach_phys = s, mach_asids = ids\<rparr>, Inr (fresh_space root asid))))"

definition aspace_new_kernel :: "machine \<Rightarrow> machine \<times> (mm_error, ('l, 'd) aspace) result" where
  "aspace_new_kernel m =
     (case alloc_table_frame_zeroed (mach_phys m) of
        (s, Inl e) \<Rightarrow> (m\<lparr>mach_phys := s\<rparr>, Inl e)
      | (s, Inr root) \<Rightarrow> (m\<lparr>mach_phys := s\<rparr>, Inr (fresh_space root KERNEL_ASID)))"

definition satp_value :: "('l, 'd) aspace \<Rightarrow> 64 word" where
  "satp_value a = make_satp (as_root a) (as_asid a)"

definition kernel_satp_value :: "('l, 'd) aspace \<Rightarrow> 64 word" where
  "kernel_satp_value a = make_satp (as_root a) KERNEL_ASID"

section \<open>Fork and destruction\<close>

text \<open>\<open>dup\<close> duplicates a demand loader, as in \<open>Vma\<close>.\<close>

definition fork_cow ::
  "('l \<Rightarrow> (mm_error, 'l) result) \<Rightarrow> ('l, 'd) aspace \<Rightarrow> machine
     \<Rightarrow> machine \<times> (mm_error, ('l, 'd) aspace) result" where
  "fork_cow dup a m =
     (case vs_duplicate dup (as_vmas a) of
        Inl e \<Rightarrow> (m, Inl e)
      | Inr child_vmas \<Rightarrow>
          (case allocate_user (mach_asids m) of
             (ids, Inl e) \<Rightarrow> (m\<lparr>mach_asids := ids\<rparr>, Inl e)
           | (ids, Inr asid) \<Rightarrow>
               (case alloc_table_frame_zeroed (mach_phys m) of
                  (s, Inl e) \<Rightarrow> (\<lparr>mach_phys = s, mach_asids = asid_release asid ids\<rparr>, Inl e)
                | (s, Inr root) \<Rightarrow>
                    (case fork_table (as_vmas a) (SV39_LEVELS - 1) (as_root a) root 0 s of
                       (s', Inl e) \<Rightarrow>
                         (\<lparr>mach_phys = destroy_table (as_vmas a) (SV39_LEVELS - 1) root 0 s',
                           mach_asids = asid_release asid ids\<rparr>, Inl e)
                     | (s', Inr u) \<Rightarrow>
                         (\<lparr>mach_phys = s', mach_asids = ids\<rparr>,
                          Inr (a\<lparr>as_root := root, as_asid := asid, as_vmas := child_vmas\<rparr>))))))"

definition destroy_page_tables ::
  "('l, 'd) aspace \<Rightarrow> phys \<Rightarrow> ('l, 'd) aspace \<times> phys" where
  "destroy_page_tables a s =
     (if as_root a = 0 then (a, s)
      else (a\<lparr>as_root := 0\<rparr>, destroy_table (as_vmas a) (SV39_LEVELS - 1) (as_root a) 0 s))"

section \<open>Copying a space\<close>

text \<open>
  The references a copy adds to a frame are counted in 32 bits; there is room for them when no
  frame is near the bound.
\<close>

definition ref_room :: "phys \<Rightarrow> bool" where
  "ref_room s \<longleftrightarrow> (\<forall>q. own s q + max_space_refs + 1 \<le> u32_max)"

text \<open>What both spaces show of a page after a fork.\<close>

definition fork_page ::
  "('l, 'd) vma_set \<Rightarrow> nat \<Rightarrow> (nat \<times> pte_flags) option \<Rightarrow> (nat \<times> pte_flags) option" where
  "fork_page vmas vpn pf = map_option (\<lambda>(q, f). (q, fork_flags vmas (page_addr vpn) f)) pf"

definition forked_view :: "('l, 'd) vma_set \<Rightarrow> phys \<Rightarrow> nat \<Rightarrow> nat \<Rightarrow> (nat \<times> pte_flags) option" where
  "forked_view vmas s root vpn = fork_page vmas (vpn mod 2 ^ 27) (view s root vpn)"

lemma fork_view_page:
  "fork_view vmas (path_vpn 2 0 (vpn_indexes v)) (entry (phys_words s) 2 root (vpn_indexes v)) =
     forked_view vmas s root v"
  by (simp add: fork_view_def forked_view_def fork_page_def path_vpn_indexes view_fview page_entry_def)

lemma own_tables: "space_ok s root \<Longrightarrow> q \<in> space_tables s root \<Longrightarrow> 0 < own s q"
  by (simp add: space_ok_def space_tables_def)

lemma fork_space_pre:
  assumes sp: "space_ok s root" and al: "alloc_table_frame_zeroed s = (s1, Inr c)"
    and owned: "\<forall>q. 0 < refs s vmas root q \<longrightarrow> 0 < own s q" and room: "ref_room s"
  shows "fork_pre vmas 2 root c 0 all_idx s1" "space_ok s1 root"
    "view s1 root = view s root" "space_tables s1 root = space_tables s root"
    "c \<notin> space_tables s root"
proof -
  note ok = space_ok_frames [OF sp]
  note ta = table_alloc_Inr [OF ok al]
  have cn: "c \<noteq> q" if "0 < own s q" for q using ta(3) that by auto
  show cT: "c \<notin> space_tables s root" using own_tables [OF sp] ta(3) by fastforce
  then have w: "phys_words s1 q = phys_words s q" if "q \<in> tset (phys_words s) 2 root" for q
    using ta(7) that by (auto simp: space_tables_def)
  note tc = tree_cong [of "phys_words s" 2 root "phys_words s1", OF w]
  show ts: "space_tables s1 root = space_tables s root" using tc(1) by (simp add: space_tables_def)
  show vw: "view s1 root = view s root" using tc(4) by (simp add: view_def page_entry_def fun_eq_iff)
  have own1: "own s q \<le> own s1 q" for q using ta(3,6) by auto
  show sp1: "space_ok s1 root"
    using sp ta(1) tc(1,2) own1 unfolding space_ok_def by (metis order_less_le_trans)
  have hc: "count_list (held (phys_words s1) vmas 2 all_idx root 0 @ [root]) q = refs s vmas root q" for q
    using space_held_count [OF sp1, of vmas q] vw ts
    by (simp add: space_held_def refs_def page_refs_def)
  show "fork_pre vmas 2 root c 0 all_idx s1"
    unfolding fork_pre_def
  proof (intro conjI ballI allI)
    show "frames_ok s1" by (rule ta(1))
    show "proper (phys_words s1) 2 all_idx root" "distinct (root # subtables (phys_words s1) 2 all_idx root)"
      using sp1 by (auto simp: space_ok_def tree_def)
    show "0 < own s1 q" if "q \<in> set (root # subtables (phys_words s1) 2 all_idx root)" for q
      using own_tables [OF sp1, of q] that by (simp add: space_tables_def tset_def)
    show "c \<notin> set (root # subtables (phys_words s1) 2 all_idx root)"
      using cT ts by (simp add: space_tables_def tset_def)
    show "0 < own s1 c" using ta(6) by simp
    show "phys_words s1 c i = 0" for i using ta(7) by simp
    show "0 < own s1 q" if "q \<in> set (held (phys_words s1) vmas 2 all_idx root 0)" for q
    proof -
      have "0 < count_list (held (phys_words s1) vmas 2 all_idx root 0 @ [root]) q"
        using that count_list_0_iff [of "held (phys_words s1) vmas 2 all_idx root 0 @ [root]" q] by auto
      with hc owned have "0 < own s q" by simp
      with own1 [of q] show ?thesis by simp
    qed
    show "own s1 q + length (held (phys_words s1) vmas 2 all_idx root 0) \<le> u32_max" for q
    proof -
      have "own s1 q \<le> own s q + 1" using ta(3,6) by auto
      moreover have "own s q + max_space_refs + 1 \<le> u32_max" using room by (simp add: ref_room_def)
      ultimately show ?thesis
        using held_length [of "phys_words s1" vmas root 0] by linarith
    qed
  qed auto
qed

lemma child_tree:
  assumes f: "forked vmas 2 root c 0 all_idx s1 s2 r" and c: "0 < own s1 c"
  shows "tree (phys_words s2) 2 c" "\<forall>q \<in> tset (phys_words s2) 2 c. 0 < own s2 q"
    "q \<in> tset (phys_words s2) 2 c \<Longrightarrow> q = c \<or> own s1 q = 0"
proof -
  have "c \<notin> set (subtables (phys_words s2) 2 all_idx c)" using forkedD(6) [OF f, of c] c by auto
  then show "tree (phys_words s2) 2 c" using forkedD(4,5) [OF f] by (simp add: tree_def)
  show "\<forall>q \<in> tset (phys_words s2) 2 c. 0 < own s2 q"
    using forked_owned [OF f] forkedD(3) [OF f, of c] c by (auto simp: tset_def)
  show "q \<in> tset (phys_words s2) 2 c \<Longrightarrow> q = c \<or> own s1 q = 0"
    using forkedD(6) [OF f, of q] by (auto simp: tset_def)
qed

lemma parent_tree:
  assumes pre: "fork_pre vmas 2 root c 0 all_idx s1" and f: "forked vmas 2 root c 0 all_idx s1 s2 r"
  shows "tree (phys_words s2) 2 root" "tset (phys_words s2) 2 root = tset (phys_words s1) 2 root"
  using forkedD(7,8) [OF f] pre by (auto simp: tree_def tset_def fork_pre_def)

lemma vpn_all: "vpn_indexes v ! 2 \<in> set all_idx"
  using vpn_index_bound [of 2 v] by simp

lemma fork_space_ok:
  assumes sp: "space_ok s root" and al: "alloc_table_frame_zeroed s = (s1, Inr c)"
    and owned: "\<forall>q. 0 < refs s vmas root q \<longrightarrow> 0 < own s q" and room: "ref_room s"
    and fk: "fork_table vmas 2 root c 0 s1 = (s2, Inr u)"
  shows "space_ok s2 root" "space_ok s2 c" "managed s2 = managed s"
    "space_tables s2 root = space_tables s root"
    "q \<in> space_tables s2 c \<Longrightarrow> own s q = 0"
    "view s2 root v = forked_view vmas s root v" "view s2 c v = forked_view vmas s root v"
    "own s2 q = own s q + refs s2 vmas c q"
    "0 < own s q \<Longrightarrow> q \<notin> space_tables s root \<Longrightarrow> phys_words s2 q = phys_words s q"
proof -
  note P = fork_space_pre [OF sp al owned room]
  note ta = table_alloc_Inr [OF space_ok_frames [OF sp] al]
  have F: "forked vmas 2 root c 0 all_idx s1 s2 (Inr ())"
    using fork_table_forked [OF P(1) fk] by simp
  have c1: "0 < own s1 c" using ta(6) by simp
  note ct = child_tree [OF F c1] and pt = parent_tree [OF P(1) F]
  have own1: "own s1 q = own s q + (if q = c then 1 else 0)" for q using ta(3,6) by auto
  show sc: "space_ok s2 c" using ct(1,2) forkedD(1) [OF F] by (simp add: space_ok_def)
  show "space_ok s2 root"
    unfolding space_ok_def pt(2)
  proof (intro conjI ballI)
    show "frames_ok s2" by (rule forkedD(1) [OF F])
    show "tree (phys_words s2) 2 root" by (rule pt(1))
    show "0 < own s2 q" if "q \<in> tset (phys_words s1) 2 root" for q
      using own_tables [OF P(2), of q] that forkedD(3) [OF F, of q] by (simp add: space_tables_def)
  qed
  show "managed s2 = managed s" using forkedD(2) [OF F] ta(2) by simp
  show "space_tables s2 root = space_tables s root" using pt(2) P(4) by (simp add: space_tables_def)
  show "q \<in> space_tables s2 c \<Longrightarrow> own s q = 0"
    using ct(3) [of q] own1 [of q] ta(3) by (auto simp: space_tables_def)
  have e1: "entry (phys_words s1) 2 root (vpn_indexes v) = entry (phys_words s) 2 root (vpn_indexes v)"
  proof (rule tree_cong(4) [OF _ path_ok_vpn])
    show "phys_words s1 q = phys_words s q" if "q \<in> tset (phys_words s) 2 root" for q
      using that P(5) ta(7) by (auto simp: space_tables_def)
  qed
  have V: "fview (entry (phys_words s2) 2 root (vpn_indexes v)) = forked_view vmas s root v \<and>
      fview (entry (phys_words s2) 2 c (vpn_indexes v)) = forked_view vmas s root v"
    using forkedD(15) [OF F refl path_ok_vpn vpn_all, of v] unfolding e1 fork_view_page .
  then show "view s2 root v = forked_view vmas s root v" "view s2 c v = forked_view vmas s root v"
    by (simp_all add: view_fview page_entry_def)
  show "own s2 q = own s q + refs s2 vmas c q"
    using space_held_count [OF sc, of vmas q] forkedD(3) [OF F, of q] own1 [of q] by (auto simp: space_held_def)
  show "phys_words s2 q = phys_words s q" if "0 < own s q" "q \<notin> space_tables s root"
  proof -
    have "q \<noteq> c" using that(1) ta(3) by auto
    then have "phys_words s2 q = phys_words s1 q"
      using forkedD(9) [OF F, of q] that own1 [of q] P(4) by (auto simp: space_tables_def tset_def)
    with ta(7) \<open>q \<noteq> c\<close> show ?thesis by simp
  qed
qed

text \<open>A fork that fails gives back every reference it took.\<close>

lemma fork_space_fails:
  assumes sp: "space_ok s root" and al: "alloc_table_frame_zeroed s = (s1, Inr c)"
    and owned: "\<forall>q. 0 < refs s vmas root q \<longrightarrow> 0 < own s q" and room: "ref_room s"
    and fk: "fork_table vmas 2 root c 0 s1 = (s2, Inl e)" and s3: "s3 = destroy_table vmas 2 c 0 s2"
  shows "e = MmOutOfMemory" "space_ok s3 root" "managed s3 = managed s" "own s3 = own s"
    "space_tables s3 root = space_tables s root"
    "view s3 root v = view s root v \<or> view s3 root v = forked_view vmas s root v"
    "0 < own s q \<Longrightarrow> q \<notin> space_tables s root \<Longrightarrow> phys_words s3 q = phys_words s q"
proof -
  note P = fork_space_pre [OF sp al owned room]
  note ta = table_alloc_Inr [OF space_ok_frames [OF sp] al]
  have F: "forked vmas 2 root c 0 all_idx s1 s2 (Inl e)"
    using fork_table_forked [OF P(1) fk] by simp
  have c1: "0 < own s1 c" using ta(6) by simp
  note ct = child_tree [OF F c1] and pt = parent_tree [OF P(1) F]
  have own1: "own s1 q = own s q + (if q = c then 1 else 0)" for q using ta(3,6) by auto
  have sc: "space_ok s2 c" using ct(1,2) forkedD(1) [OF F] by (simp add: space_ok_def)
  have own2: "own s2 q = own s q + refs s2 vmas c q" for q
    using space_held_count [OF sc, of vmas q] forkedD(3) [OF F, of q] own1 [of q]
    by (auto simp: space_held_def)
  then have le: "refs s2 vmas c q \<le> own s2 q" for q by simp
  note D = destroy_space [OF sc le, folded s3]
  show "e = MmOutOfMemory" by (rule forkedD(13) [OF F refl])
  show "managed s3 = managed s" using D(2) forkedD(2) [OF F] ta(2) by simp
  show own3: "own s3 = own s" using D(3) own2 by (simp add: fun_eq_iff)
  have ts: "tset (phys_words s3) 2 root = tset (phys_words s) 2 root"
    using pt(2) P(4) D(4) by (simp add: space_tables_def)
  then show "space_tables s3 root = space_tables s root" by (simp add: space_tables_def)
  show "space_ok s3 root"
    unfolding space_ok_def ts own3 using sp D(1) pt(1) by (simp add: space_ok_def D(4))
  have e1: "entry (phys_words s1) 2 root (vpn_indexes v) = entry (phys_words s) 2 root (vpn_indexes v)"
  proof (rule tree_cong(4) [OF _ path_ok_vpn])
    show "phys_words s1 q = phys_words s q" if "q \<in> tset (phys_words s) 2 root" for q
      using that P(5) ta(7) by (auto simp: space_tables_def)
  qed
  show "view s3 root v = view s root v \<or> view s3 root v = forked_view vmas s root v"
    using forkedD(12) [OF F path_ok_vpn vpn_all, of v] unfolding e1 fork_view_page
    by (simp add: view_fview page_entry_def D(4))
  show "phys_words s3 q = phys_words s q" if "0 < own s q" "q \<notin> space_tables s root"
  proof -
    have "q \<noteq> c" using that(1) ta(3) by auto
    then have "phys_words s2 q = phys_words s1 q"
      using forkedD(9) [OF F, of q] that own1 [of q] P(4) by (auto simp: space_tables_def tset_def)
    with ta(7) \<open>q \<noteq> c\<close> D(4) show ?thesis by simp
  qed
qed

text \<open>
  Resolving copy-on-write pages, and how an operation on one page changes the references of its
  space.
\<close>

section \<open>Allocating and releasing data frames\<close>

lemma phys_alloc_Inr:
  assumes "frames_ok s" and "phys_alloc s = (s', Inr p)"
  shows "frames_ok s'" "managed s' = managed s" "own s p = 0" "p < 2 ^ 44"
    "own s' = (own s)(p := 1)" "phys_words s' = phys_words s"
  using assms global.alloc_ok [of "phys_frames s"]
  by (auto simp: phys_alloc_def frames_ok_def map_frame_error_def split: prod.splits sum.splits)

lemma phys_alloc_Inl:
  assumes "frames_ok s" and "phys_alloc s = (s', Inl e)"
  shows "frames_ok s'" "managed s' = managed s" "own s' = own s" "phys_words s' = phys_words s"
    "e = MmOutOfMemory" "\<forall>p \<in> managed s. 0 < own s p"
  using assms global.alloc_fails [of "phys_frames s"]
  by (auto simp: phys_alloc_def frames_ok_def map_frame_error_def mm_of_frame_error_def
      split: prod.splits sum.splits)

lemma ref_count_owned:
  assumes "frames_ok s" and "0 < own s q"
  shows "map_frame_error (frame_ref_count q (phys_frames s)) = Inr (own s q)"
proof -
  have "frame_inv (alloc_state (phys_frames s))" using assms(1) by (simp add: frames_ok_def g_inv_def)
  moreover have "owners (alloc_state (phys_frames s)) q = own s q"
    using assms(2) by (auto simp: g_owners_def split: if_splits)
  ultimately show ?thesis
    using assms(2) by (simp add: frame_ref_count_def ref_count_eq map_frame_error_def)
qed

section \<open>Giving a page its own frame\<close>

text \<open>The tail \<open>handle_cow_page\<close> and \<open>ensure_private_for_write\<close> share.\<close>

definition replace_frame :: "nat \<times> nat \<Rightarrow> nat \<Rightarrow> pte_flags \<Rightarrow> phys \<Rightarrow> phys \<times> (mm_error, bool) result" where
  "replace_frame slot old f s =
     (case phys_alloc s of
        (s1, Inl err) \<Rightarrow> (s1, Inl err)
      | (s1, Inr new) \<Rightarrow>
          (case phys_dealloc old (copy_phys_page old new s1) of
             (s2, Inl err) \<Rightarrow> (s2, Inl err)
           | (s2, Inr u) \<Rightarrow> (put_pte slot (pte_set new f) s2, Inr True)))"

lemma copy_phys_page_simps [simp]:
  "phys_frames (copy_phys_page p q s) = phys_frames s"
  "frames_ok (copy_phys_page p q s) = frames_ok s"
  "phys_words (copy_phys_page p q s) = (phys_words s)(q := phys_words s p)"
  by (simp_all add: copy_phys_page_def frames_ok_def)

definition page_becomes ::
  "phys \<Rightarrow> phys \<Rightarrow> nat \<Rightarrow> nat \<Rightarrow> (nat \<times> pte_flags) option \<Rightarrow> bool" where
  "page_becomes s s' root vpn pf \<longleftrightarrow> space_ok s' root \<and> managed s' = managed s \<and>
     space_tables s' root = space_tables s root \<and>
     view s' root = (\<lambda>u. if same_page u vpn then pf else view s root u)"

lemma page_becomes_refl:
  assumes "space_ok s root" and "view s root vpn = pf"
  shows "page_becomes s s root vpn pf"
  using assms view_same_page [of _ vpn s root] by (auto simp: page_becomes_def fun_eq_iff)

lemma replace_frame_spec:
  assumes sp: "space_ok s root" and slot: "leaf_slot (phys_words s) 2 root (vpn_indexes vpn) = Some slot"
    and old: "0 < own s old" "old \<notin> space_tables s root" and f: "flags_fit f" "flags_valid f"
    and r: "replace_frame slot old f s = (s', r)"
  shows "(r = Inl MmOutOfMemory \<and> (\<forall>p \<in> managed s. 0 < own s p) \<and> own s' = own s \<and>
      phys_words s' = phys_words s \<and> page_becomes s s' root vpn (view s root vpn)) \<or>
    (\<exists>new. r = Inr True \<and> own s new = 0 \<and> own s' = (own s)(old := own s old - 1, new := 1) \<and>
       page_becomes s s' root vpn (Some (new, f)) \<and> phys_words s' new = phys_words s old \<and>
       (\<forall>q. q \<noteq> new \<longrightarrow> q \<notin> space_tables s root \<longrightarrow> phys_words s' q = phys_words s q))"
proof -
  note ok = space_ok_frames [OF sp]
  obtain s1 a where al: "phys_alloc s = (s1, a)" by fastforce
  show ?thesis
  proof (cases a)
    case (Inl e)
    with al have "phys_alloc s = (s1, Inl e)" by simp
    note pa = phys_alloc_Inl [OF ok this]
    from r al Inl have e: "s' = s1" "r = Inl e" by (auto simp: replace_frame_def)
    have "space_tables s1 root = space_tables s root" using pa(4) by (simp add: space_tables_def)
    moreover have "space_ok s1 root" using sp pa by (simp add: space_ok_def)
    moreover have "view s1 root = (\<lambda>u. if same_page u vpn then view s root vpn else view s root u)"
      using view_cong [OF pa(4)] view_same_page [of _ vpn s root] by (auto simp: fun_eq_iff)
    ultimately show ?thesis using e pa by (simp add: page_becomes_def)
  next
    case (Inr new)
    with al have "phys_alloc s = (s1, Inr new)" by simp
    note pa = phys_alloc_Inr [OF ok this]
    have no: "new \<noteq> old" using pa(3) old(1) by auto
    have nT: "new \<notin> space_tables s root" using own_tables [OF sp, of new] pa(3) by auto
    let ?s2 = "copy_phys_page old new s1"
    have o2: "0 < own ?s2 old" using pa(5) no old(1) by simp
    have "frames_ok ?s2" using pa(1) by simp
    note d = phys_dealloc_owned [OF this o2]
    define s3 where "s3 = fst (phys_dealloc old ?s2)"
    have r': "s' = put_pte slot (pte_set new f) s3" "r = Inr True"
      using r al Inr d(4) by (auto simp: replace_frame_def s3_def split: prod.splits)
    have w3: "phys_words s3 = (phys_words s)(new := phys_words s old)" by (simp add: s3_def pa(6))
    have own3: "own s3 = (own s)(old := own s old - 1, new := 1)"
      using d(3) pa(5) no by (simp add: s3_def fun_upd_twist)
    have wT: "phys_words s3 q = phys_words s q" if "q \<in> tset (phys_words s) 2 root" for q
      using that nT w3 by (auto simp: space_tables_def)
    note tc = tree_cong [of "phys_words s" 2 root "phys_words s3", OF wT]
    have pos: "0 < own s3 q" if "q \<in> tset (phys_words s) 2 root" for q
    proof -
      have "q \<in> space_tables s root" using that by (simp add: space_tables_def)
      with own_tables [OF sp this] old(2) show ?thesis by (auto simp: own3)
    qed
    have sp3: "space_ok s3 root"
      using sp d(1) tc(1,2) pos by (simp add: space_ok_def s3_def)
    have sl3: "leaf_slot (phys_words s3) 2 root (vpn_indexes vpn) = Some slot"
      using slot tc(3) [of "vpn_indexes vpn"] by simp
    have v3: "view s3 root = view s root"
      using tc(4) by (simp add: view_def page_entry_def fun_eq_iff)
    note ws = write_slot [OF sp3 sl3, of "pte_set new f", folded r'(1)]
    have t': "space_tables s' root = space_tables s root"
      using ws(3) tc(1) by (simp add: space_tables_def)
    have "e_valid (pte_set new f)" using f by simp
    then have v': "view s' root = (\<lambda>u. if same_page u vpn then Some (new, f) else view s root u)"
      unfolding ws(4) v3 using f pa(4) by auto
    have m': "managed s' = managed s" using d(2) pa(2) by (simp add: r'(1) s3_def)
    have sT: "fst slot \<in> space_tables s root"
      using slot leaf_slot_tset [OF path_ok_vpn] by (cases slot) (auto simp: space_tables_def)
    then have "phys_words s' new = phys_words s old" using nT w3 by (auto simp: r'(1))
    moreover have "\<forall>q. q \<noteq> new \<longrightarrow> q \<notin> space_tables s root \<longrightarrow> phys_words s' q = phys_words s q"
      using sT w3 by (auto simp: r'(1))
    moreover have "own s' = (own s)(old := own s old - 1, new := 1)" using own3 by (simp add: r'(1))
    moreover have "page_becomes s s' root vpn (Some (new, f))"
      using ws(1) t' v' m' unfolding page_becomes_def by blast
    ultimately show ?thesis using r'(2) pa(3) by blast
  qed
qed

section \<open>\<open>handle_cow_page\<close> and \<open>ensure_private_for_write\<close>\<close>

lemma handle_cow_page_spec:
  assumes sp: "space_ok s root" and h: "handle_cow_page root vpn s = (s', r)"
    and own: "\<forall>ppn f. view s root vpn = Some (ppn, f) \<longrightarrow> flags_cow f \<longrightarrow>
        0 < own s ppn \<and> ppn \<notin> space_tables s root"
  shows "case view s root vpn of
      None \<Rightarrow> r = Inr False \<and> s' = s
    | Some (old, f) \<Rightarrow>
        if \<not> (flags_cow f \<and> cow_was_writable f) then r = Inr False \<and> s' = s
        else if own s old = 1 then r = Inr True \<and> own s' = own s \<and>
          page_becomes s s' root vpn (Some (old, restore_cow_writable f)) \<and>
          (\<forall>q. q \<notin> space_tables s root \<longrightarrow> phys_words s' q = phys_words s q)
        else (r = Inl MmOutOfMemory \<and> (\<forall>p \<in> managed s. 0 < own s p) \<and> own s' = own s \<and>
            phys_words s' = phys_words s \<and> page_becomes s s' root vpn (Some (old, f))) \<or>
          (\<exists>new. r = Inr True \<and> own s new = 0 \<and> own s' = (own s)(old := own s old - 1, new := 1) \<and>
             page_becomes s s' root vpn (Some (new, restore_cow_writable f)) \<and>
             phys_words s' new = phys_words s old \<and>
             (\<forall>q. q \<noteq> new \<longrightarrow> q \<notin> space_tables s root \<longrightarrow> phys_words s' q = phys_words s q))"
proof (cases "view s root vpn")
  case None
  with walk_find_view [OF sp, of vpn] h show ?thesis by (auto simp: handle_cow_page_def)
next
  case (Some pf)
  obtain old f where pf: "pf = (old, f)" by fastforce
  with Some have v: "view s root vpn = Some (old, f)" by simp
  from walk_find_view [OF sp, of vpn] v obtain slot where sl:
    "walk_find root vpn s = Some (slot, 0)"
    "leaf_slot (phys_words s) 2 root (vpn_indexes vpn) = Some slot"
    "pte_ppn (pte_at s slot) = old" "pte_flags_of (pte_at s slot) = f" "flags_valid f" by auto
  show ?thesis
  proof (cases "flags_cow f \<and> cow_was_writable f")
    case False
    with h sl v show ?thesis by (auto simp: handle_cow_page_def Let_def)
  next
    case True
    with own v have o: "0 < own s old" "old \<notin> space_tables s root" by auto
    note rc = ref_count_owned [OF space_ok_frames [OF sp] o(1)]
    have fit: "flags_fit f" using sl(4) by (metis flags_fit_pte)
    have nf: "flags_fit (restore_cow_writable f)" "flags_valid (restore_cow_writable f)"
      using fit sl(5) by (simp_all add: bit_restore_cow)
    show ?thesis
    proof (cases "own s old = 1")
      case one: True
      have lt: "old < 2 ^ 44" using pte_ppn_bound sl(3) by blast
      have s': "s' = put_pte slot (pte_set old (restore_cow_writable f)) s" "r = Inr True"
        using h sl True rc one
        by (auto simp: handle_cow_page_def Let_def is_leaf_at_level_def)
      note ws = write_slot [OF sp sl(2), of "pte_set old (restore_cow_writable f)", folded s'(1)]
      have "page_becomes s s' root vpn (Some (old, restore_cow_writable f))"
        unfolding page_becomes_def ws(4) using ws(1,3) nf lt by (auto simp: s'(1))
      moreover have "fst slot \<in> space_tables s root"
        using sl(2) leaf_slot_tset [OF path_ok_vpn] by (cases slot) (auto simp: space_tables_def)
      then have "\<forall>q. q \<notin> space_tables s root \<longrightarrow> phys_words s' q = phys_words s q"
        by (auto simp: s'(1))
      ultimately show ?thesis using v True one s' by simp
    next
      case many: False
      with o(1) have "\<not> own s old \<le> 1" by simp
      then have "replace_frame slot old (restore_cow_writable f) s = (s', r)"
        using h sl True rc
        by (simp add: handle_cow_page_def Let_def is_leaf_at_level_def replace_frame_def)
      from replace_frame_spec [OF sp sl(2) o nf this] v True many show ?thesis by simp
    qed
  qed
qed

section \<open>References of the space\<close>

lemma same_page_small: "v < 2 ^ 27 \<Longrightarrow> same_page v vpn \<longleftrightarrow> v = vpn mod 2 ^ 27"
  by (simp add: same_page_def)

lemma card_pred_update:
  assumes "finite {v. v < (n :: nat) \<and> P v}" and "\<And>v. v < n \<Longrightarrow> v \<noteq> k \<Longrightarrow> Q v = P v" and "k < n"
  shows "card {v. v < n \<and> Q v} + (if P k then 1 else 0) = card {v. v < n \<and> P v} + (if Q k then 1 else 0)"
proof -
  let ?R = "{v. v < n \<and> P v \<and> v \<noteq> k}"
  have f: "finite ?R" by simp
  have "{v. v < n \<and> P v} = (if P k then insert k ?R else ?R)"
    "{v. v < n \<and> Q v} = (if Q k then insert k ?R else ?R)"
    using assms(2,3) by auto
  then show ?thesis using f by simp
qed

lemma refs_page_update:
  assumes "view s' root = (\<lambda>u. if same_page u vpn then pf else view s root u)"
    and "space_tables s' root = space_tables s root"
  shows "refs s' vmas root q + (if page_ref vmas (vpn mod 2 ^ 27) (view s root vpn) = Some q then 1 else 0) =
    refs s vmas root q + (if page_ref vmas (vpn mod 2 ^ 27) pf = Some q then 1 else 0)"
proof -
  let ?k = "vpn mod 2 ^ 27"
  have vk: "view s root ?k = view s root vpn" by (rule view_same_page) (simp add: same_page_def)
  have "card {v. v < 2 ^ 27 \<and> page_ref vmas v (view s' root v) = Some q} +
      (if page_ref vmas ?k (view s root ?k) = Some q then 1 else 0) =
      card {v. v < 2 ^ 27 \<and> page_ref vmas v (view s root v) = Some q} +
      (if page_ref vmas ?k (view s' root ?k) = Some q then 1 else 0)"
    by (rule card_pred_update) (auto simp: assms(1) same_page_small)
  then show ?thesis
    unfolding refs_def page_refs_def vk by (simp add: assms same_page_def)
qed

lemma page_becomes_refs:
  assumes "page_becomes s s' root vpn pf"
  shows "refs s' vmas root q + (if page_ref vmas (vpn mod 2 ^ 27) (view s root vpn) = Some q then 1 else 0) =
    refs s vmas root q + (if page_ref vmas (vpn mod 2 ^ 27) pf = Some q then 1 else 0)"
  using assms by (intro refs_page_update) (simp_all add: page_becomes_def)

lemma mapped_refs:
  assumes "page_ref vmas (vpn mod 2 ^ 27) (view s root vpn) = Some q"
  shows "0 < refs s vmas root q"
proof -
  have "view s root (vpn mod 2 ^ 27) = view s root vpn"
    by (rule view_same_page) (simp add: same_page_def)
  with assms have "vpn mod 2 ^ 27 \<in> page_refs s vmas root q" by (simp add: page_refs_def)
  then have "0 < card (page_refs s vmas root q)" by (metis card_gt_0_iff empty_iff finite_page_refs)
  then show ?thesis by (simp add: refs_def)
qed

end
