(* ===== verification/Sv39_Mem.thy ===== *)
theory Sv39_Mem
  imports Sv39_Space
begin

text \<open>
  The user memory of a process: its address space and the physical memory it maps. This theory
  has the range checks and the bookkeeping of \<open>Sv39AddressSpace\<close> that involve both its
  areas and its page table (\<open>pagetable.rs\<close>), and the mapping helpers of
  \<open>mm-impl/common/src/mapping.rs\<close> at this address space and the global allocator.
  Addresses are \<open>nat\<close>; the checked additions of the source are written out.

  A demand loader and the device leases live outside these files: what a loader does is the
  record \<open>loader_ops\<close> of functions, a parameter of the operations that call it. The four
  kernel symbols that user mappings must not cover are the parameter \<open>reserved\<close>.
\<close>

section \<open>State and sequencing\<close>

record ('l, 'd) user_mem =
  um_space :: "('l, 'd) aspace"
  um_phys :: phys

record 'l loader_ops =
  lo_duplicate :: "'l \<Rightarrow> (mm_error, 'l) result"
  lo_load_page :: "'l \<Rightarrow> nat \<Rightarrow> (nat \<Rightarrow> pte) \<Rightarrow> 'l \<times> (nat \<Rightarrow> pte) \<times> (mm_error, unit) result"
  lo_load_shared :: "'l \<Rightarrow> nat \<Rightarrow> phys \<Rightarrow> 'l \<times> phys \<times> (mm_error, nat option) result"
  lo_write_page :: "'l \<Rightarrow> nat \<Rightarrow> (nat \<Rightarrow> pte) \<Rightarrow> 'l \<times> (mm_error, unit) result"
  lo_flush :: "'l \<Rightarrow> 'l \<times> (mm_error, unit) result"

text \<open>The \<open>?\<close> operator on an operation with a state.\<close>

definition st_bind ::
  "'s \<times> (mm_error, 'a) result \<Rightarrow> ('s \<Rightarrow> 'a \<Rightarrow> 's \<times> (mm_error, 'b) result) \<Rightarrow> 's \<times> (mm_error, 'b) result"
where
  "st_bind r f = (case r of (s, Inl e) \<Rightarrow> (s, Inl e) | (s, Inr x) \<Rightarrow> f s x)"

definition on_phys ::
  "(phys \<Rightarrow> phys \<times> (mm_error, 'a) result) \<Rightarrow> ('l, 'd) user_mem
     \<Rightarrow> ('l, 'd) user_mem \<times> (mm_error, 'a) result" where
  "on_phys f m = (case f (um_phys m) of (s, r) \<Rightarrow> (m\<lparr>um_phys := s\<rparr>, r))"

definition upd_vmas ::
  "(('l, 'd) vma_set \<Rightarrow> (mm_error, ('l, 'd) vma_set) result) \<Rightarrow> ('l, 'd) user_mem
     \<Rightarrow> ('l, 'd) user_mem \<times> (mm_error, unit) result" where
  "upd_vmas f m =
     (case f (as_vmas (um_space m)) of
        Inl e \<Rightarrow> (m, Inl e)
      | Inr vm \<Rightarrow> (m\<lparr>um_space := (um_space m)\<lparr>as_vmas := vm\<rparr>\<rparr>, Inr ()))"

primrec try_fold ::
  "('i \<Rightarrow> 'a \<Rightarrow> 's \<Rightarrow> 's \<times> (mm_error, 'a) result) \<Rightarrow> 'i list \<Rightarrow> 'a \<Rightarrow> 's \<Rightarrow> 's \<times> (mm_error, 'a) result"
where
  "try_fold f [] x s = (s, Inr x)"
| "try_fold f (i # is) x s = st_bind (f i x s) (\<lambda>s' x'. try_fold f is x' s')"

text \<open>The virtual pages \<open>while vpn < end\<close> visits.\<close>

definition page_span :: "nat \<Rightarrow> nat \<Rightarrow> nat list" where
  "page_span st en = [floor_page st..<ceil_page en]"

section \<open>Ranges\<close>

definition USER_VA_LIMIT :: nat where "USER_VA_LIMIT = 0x4000000000"

definition range_overlaps_stack :: "('l, 'd) aspace \<Rightarrow> nat \<Rightarrow> nat \<Rightarrow> bool" where
  "range_overlaps_stack a st en \<longleftrightarrow>
     user_stack_bottom a < user_stack_top a \<and> st < user_stack_top a \<and> user_stack_bottom a < en"

definition stack_overlap_end :: "('l, 'd) aspace \<Rightarrow> nat \<Rightarrow> nat \<Rightarrow> nat option" where
  "stack_overlap_end a st en =
     (if range_overlaps_stack a st en then Some (page_addr (ceil_page (user_stack_top a))) else None)"

definition page_range_overlaps_addr :: "nat \<Rightarrow> nat \<Rightarrow> nat \<Rightarrow> bool" where
  "page_range_overlaps_addr st en addr =
     (let page_start = page_addr (floor_page addr); page_end = page_start + page_size
      in st < page_end \<and> page_start < en)"

definition kernel_reserved_overlap_end :: "nat list \<Rightarrow> nat \<Rightarrow> nat \<Rightarrow> nat option" where
  "kernel_reserved_overlap_end reserved st en =
     (case map (\<lambda>addr. page_addr (floor_page addr) + page_size)
             (filter (page_range_overlaps_addr st en) reserved) of
        [] \<Rightarrow> None
      | e # es \<Rightarrow> Some (foldr max es e))"

definition range_overlaps_kernel_reserved :: "nat list \<Rightarrow> nat \<Rightarrow> nat \<Rightarrow> bool" where
  "range_overlaps_kernel_reserved reserved st en \<longleftrightarrow> list_ex (page_range_overlaps_addr st en) reserved"

definition validate_user_mapping_range ::
  "nat list \<Rightarrow> ('l, 'd) aspace \<Rightarrow> nat \<Rightarrow> nat \<Rightarrow> (mm_error, unit) result" where
  "validate_user_mapping_range reserved a st en =
     (if en \<le> st \<or> USER_VA_LIMIT < en then Inl InvalidAddress
      else if range_overlaps_stack a st en \<or> range_overlaps_kernel_reserved reserved st en
      then Inl InvalidAddress else Inr ())"

primrec any_translated :: "nat \<Rightarrow> phys \<Rightarrow> nat list \<Rightarrow> (mm_error, bool) result" where
  "any_translated root s [] = Inr False"
| "any_translated root s (vpn # vs) =
     res_bind (translate_addr root (page_addr vpn) s) (\<lambda>t.
       if t \<noteq> None then Inr True else any_translated root s vs)"

definition user_mapping_range_occupied ::
  "nat \<Rightarrow> nat \<Rightarrow> ('l, 'd) user_mem \<Rightarrow> (mm_error, bool) result" where
  "user_mapping_range_occupied st en m =
     (if vs_overlaps (as_vmas (um_space m)) st en then Inr True
      else any_translated (as_root (um_space m)) (um_phys m) (page_span st en))"

definition demand_vma_contains :: "('l, 'd) aspace \<Rightarrow> nat \<Rightarrow> bool" where
  "demand_vma_contains a page = vma_where demand_paged (as_vmas a) page"

definition shared_vma_contains :: "('l, 'd) aspace \<Rightarrow> nat \<Rightarrow> bool" where
  "shared_vma_contains a page = vma_where is_shared (as_vmas a) page"

definition non_owned_vma_contains :: "('l, 'd) aspace \<Rightarrow> nat \<Rightarrow> bool" where
  "non_owned_vma_contains a page = vma_where is_non_owned (as_vmas a) page"

definition device_vma_overlaps :: "('l, 'd) aspace \<Rightarrow> nat \<Rightarrow> nat \<Rightarrow> bool" where
  "device_vma_overlaps a st en = vs_overlaps_where is_device (as_vmas a) st en"

section \<open>Registering areas\<close>

definition register_device_vma ::
  "('l, 'd) vm_area \<Rightarrow> ('l, 'd) user_mem \<Rightarrow> ('l, 'd) user_mem \<times> (mm_error, unit) result" where
  "register_device_vma v m =
     (if \<not> is_device v then (m, Inl InvalidAddress) else upd_vmas (vs_insert v) m)"

definition register_external_vma ::
  "('l, 'd) vm_area \<Rightarrow> ('l, 'd) user_mem \<Rightarrow> ('l, 'd) user_mem \<times> (mm_error, unit) result" where
  "register_external_vma v m =
     (if \<not> is_external v then (m, Inl InvalidAddress) else upd_vmas (vs_insert v) m)"

definition remove_vmas ::
  "'l loader_ops \<Rightarrow> nat \<Rightarrow> nat \<Rightarrow> ('l, 'd) user_mem \<Rightarrow> ('l, 'd) user_mem \<times> (mm_error, unit) result" where
  "remove_vmas lo st en m = upd_vmas (vs_remove_range (lo_duplicate lo) st en) m"

definition protect_vmas ::
  "'l loader_ops \<Rightarrow> nat \<Rightarrow> nat \<Rightarrow> page_perm \<Rightarrow> ('l, 'd) user_mem
     \<Rightarrow> ('l, 'd) user_mem \<times> (mm_error, unit) result" where
  "protect_vmas lo st en p m = upd_vmas (vs_protect_range (lo_duplicate lo) st en p) m"

definition register_shared_anon_vma ::
  "nat \<Rightarrow> nat \<Rightarrow> page_perm \<Rightarrow> ('l, 'd) user_mem \<Rightarrow> ('l, 'd) user_mem \<times> (mm_error, unit) result" where
  "register_shared_anon_vma st en p m =
     upd_vmas (vs_insert (area_anonymous st en p Shared KAnonymous False)) m"

definition register_shared_file_vma ::
  "nat \<Rightarrow> nat \<Rightarrow> page_perm \<Rightarrow> nat \<Rightarrow> 'l \<Rightarrow> ('l, 'd) user_mem \<Rightarrow> ('l, 'd) user_mem \<times> (mm_error, unit) result"
where
  "register_shared_file_vma st en p off loader m =
     upd_vmas (vs_insert (area_file st en p Shared False off 0 (Some loader))) m"

definition register_demand_vma ::
  "nat list \<Rightarrow> nat \<Rightarrow> nat \<Rightarrow> page_perm \<Rightarrow> vma_sharing \<Rightarrow> nat \<Rightarrow> nat \<Rightarrow> ('l, 'd) vma_backing
     \<Rightarrow> ('l, 'd) user_mem \<Rightarrow> ('l, 'd) user_mem \<times> (mm_error, unit) result" where
  "register_demand_vma reserved st en p sh off sz b m =
     (case validate_user_mapping_range reserved (um_space m) st en of
        Inl e \<Rightarrow> (m, Inl e)
      | Inr u \<Rightarrow>
          (case b of
             BAnonymous \<Rightarrow> upd_vmas (vs_insert (area_anonymous st en p sh KAnonymous True)) m
           | BFile loader \<Rightarrow> upd_vmas (vs_insert (area_file st en p sh True off sz loader)) m
           | _ \<Rightarrow> (m, Inl InvalidAddress)))"

section \<open>Mapping helpers\<close>

text \<open>
  The global allocator always offers its zeroed path, so \<open>alloc_zeroed_frame_with_alloc\<close>
  takes its first branch.
\<close>

definition alloc_zeroed_frame_with_alloc :: "phys \<Rightarrow> phys \<times> (mm_error, nat) result" where
  "alloc_zeroed_frame_with_alloc s = alloc_table_frame_zeroed s"

definition mmap_map_end :: "nat \<Rightarrow> nat \<Rightarrow> (mm_error, nat) result" where
  "mmap_map_end base len =
     res_bind (ok_or InvalidAddress (checked_add usize_max len (page_size - 1))) (\<lambda>n.
       ok_or InvalidAddress (checked_add usize_max base (n div page_size * page_size)))"

definition map_zeroed_page_with_alloc ::
  "nat \<Rightarrow> nat \<Rightarrow> page_perm \<Rightarrow> phys \<Rightarrow> phys \<times> (mm_error, unit) result" where
  "map_zeroed_page_with_alloc root vpn p s =
     st_bind (alloc_zeroed_frame_with_alloc s) (\<lambda>s1 ppn. map_page_to_ppn root vpn ppn p s1)"

definition map_zeroed_range_with_alloc ::
  "nat \<Rightarrow> nat \<Rightarrow> nat \<Rightarrow> page_perm \<Rightarrow> phys \<Rightarrow> phys \<times> (mm_error, unit) result" where
  "map_zeroed_range_with_alloc root st en p s =
     (if en \<le> st then (s, Inr ())
      else try_each (\<lambda>vpn. map_zeroed_page_with_alloc root vpn p) (page_span st en) s)"

definition map_range_with_alloc ::
  "nat \<Rightarrow> nat \<Rightarrow> nat \<Rightarrow> page_perm \<Rightarrow> phys \<Rightarrow> phys \<times> (mm_error, unit) result" where
  "map_range_with_alloc root st en p s =
     (if en \<le> st then (s, Inr ())
      else try_each (\<lambda>vpn. map_page_with_alloc root vpn p) (page_span st en) s)"

definition unmap_range_with_alloc :: "nat \<Rightarrow> nat \<Rightarrow> nat \<Rightarrow> phys \<Rightarrow> phys \<times> (mm_error, unit) result" where
  "unmap_range_with_alloc root st en s =
     (if en \<le> st then (s, Inr ())
      else try_each (\<lambda>vpn s. st_bind (unmap_page_with_alloc root vpn s) (\<lambda>s' b. (s', Inr ())))
             (page_span st en) s)"

text \<open>Undo the pages mapped so far, ignoring the results.\<close>

definition unmap_each :: "nat \<Rightarrow> nat list \<Rightarrow> phys \<Rightarrow> phys" where
  "unmap_each root vs s = fold (\<lambda>v s. fst (unmap_page_to_ppn root v s)) vs s"

fun map_pages ::
  "nat \<Rightarrow> nat \<Rightarrow> nat \<Rightarrow> page_perm \<Rightarrow> nat list \<Rightarrow> phys \<Rightarrow> phys \<times> (mm_error, unit) result" where
  "map_pages root first vpn p [] s = (s, Inr ())"
| "map_pages root first vpn p (ppn # ppns) s =
     (case map_page_to_ppn root vpn ppn p s of
        (s1, Inl e) \<Rightarrow> (unmap_each root [first..<vpn] s1, Inl e)
      | (s1, Inr u) \<Rightarrow> map_pages root first (vpn + 1) p ppns s1)"

definition map_external_pages ::
  "nat \<Rightarrow> nat \<Rightarrow> nat \<Rightarrow> page_perm \<Rightarrow> nat list \<Rightarrow> phys \<Rightarrow> phys \<times> (mm_error, unit) result" where
  "map_external_pages root st en p pages s =
     (if en \<le> st \<or> st mod page_size \<noteq> 0 \<or> en mod page_size \<noteq> 0 then (s, Inl InvalidAddress)
      else if length pages \<noteq> (en - st) div page_size then (s, Inl InvalidAddress)
      else map_pages root (floor_page st) (floor_page st) p pages s)"

text \<open>
  Physical memory is words; a page filled from bytes has them in little-endian order and zeroes
  after the end of the source.
\<close>

definition byte_at :: "8 word list \<Rightarrow> nat \<Rightarrow> 8 word" where
  "byte_at src k = (if k < length src then src ! k else 0)"

definition word_of_bytes :: "8 word list \<Rightarrow> nat \<Rightarrow> pte" where
  "word_of_bytes src k = foldr (\<lambda>j w. push_bit 8 w OR ucast (byte_at src (k + j))) [0..<8] 0"

definition fill_phys_page :: "nat \<Rightarrow> nat \<Rightarrow> 8 word list \<Rightarrow> phys \<Rightarrow> phys" where
  "fill_phys_page ppn page_index src s =
     s\<lparr>phys_words := (phys_words s)(ppn := (\<lambda>i. word_of_bytes src (page_index * page_size + 8 * i)))\<rparr>"

definition map_range_from_backing ::
  "nat \<Rightarrow> nat \<Rightarrow> nat \<Rightarrow> page_perm \<Rightarrow> 8 word list \<Rightarrow> phys \<Rightarrow> phys \<times> (mm_error, unit) result" where
  "map_range_from_backing root base en p src s =
     try_each (\<lambda>vpn s. st_bind (phys_alloc s) (\<lambda>s1 ppn.
         map_page_to_ppn root vpn ppn p (fill_phys_page ppn (vpn - floor_page base) src s1)))
       (page_span base en) s"

text \<open>
  \<open>map_range_from_loader\<close>: each page is loaded into a fresh zeroed frame; the first
  failure returns that frame and unmaps what was mapped before it.
\<close>

definition write_page_words :: "nat \<Rightarrow> (nat \<Rightarrow> pte) \<Rightarrow> phys \<Rightarrow> phys" where
  "write_page_words ppn ws s = s\<lparr>phys_words := (phys_words s)(ppn := ws)\<rparr>"

definition undo_page :: "nat \<Rightarrow> nat \<Rightarrow> nat \<Rightarrow> nat \<Rightarrow> phys \<Rightarrow> phys" where
  "undo_page root base vpn ppn s =
     fst (unmap_range_with_alloc root base (page_addr vpn) (fst (phys_dealloc ppn s)))"

definition load_and_map ::
  "('ld \<Rightarrow> nat \<Rightarrow> (nat \<Rightarrow> pte) \<Rightarrow> 'ld \<times> (nat \<Rightarrow> pte) \<times> (mm_error, unit) result) \<Rightarrow> nat \<Rightarrow> nat
     \<Rightarrow> page_perm \<Rightarrow> nat \<Rightarrow> 'ld \<Rightarrow> phys \<Rightarrow> phys \<times> (mm_error, 'ld) result" where
  "load_and_map load root base p vpn ld s =
     st_bind (alloc_zeroed_frame_with_alloc s) (\<lambda>s1 ppn.
       case load ld (vpn - floor_page base) (phys_words s1 ppn) of
         (ld', ws, Inl e) \<Rightarrow> (undo_page root base vpn ppn (write_page_words ppn ws s1), Inl e)
       | (ld', ws, Inr u) \<Rightarrow>
           (case map_page_to_ppn root vpn ppn p (write_page_words ppn ws s1) of
              (s2, Inl e) \<Rightarrow> (undo_page root base vpn ppn s2, Inl e)
            | (s2, Inr u) \<Rightarrow> (s2, Inr ld')))"

definition map_range_from_loader ::
  "('ld \<Rightarrow> nat \<Rightarrow> (nat \<Rightarrow> pte) \<Rightarrow> 'ld \<times> (nat \<Rightarrow> pte) \<times> (mm_error, unit) result) \<Rightarrow> nat \<Rightarrow> nat \<Rightarrow> nat
     \<Rightarrow> page_perm \<Rightarrow> 'ld \<Rightarrow> phys \<Rightarrow> phys \<times> (mm_error, 'ld) result" where
  "map_range_from_loader load root base en p ld s =
     try_fold (load_and_map load root base p) (page_span base en) ld s"

section \<open>Unmapping a range\<close>

definition unmap_mmap_page ::
  "('l, 'd) aspace \<Rightarrow> nat \<Rightarrow> bool \<Rightarrow> phys \<Rightarrow> phys \<times> (mm_error, bool) result" where
  "unmap_mmap_page a vpn changed s =
     (if non_owned_vma_contains a (page_addr vpn)
      then st_bind (unmap_page_to_ppn (as_root a) vpn s) (\<lambda>s' r. (s', Inr (changed \<or> r \<noteq> None)))
      else st_bind (unmap_page_with_alloc (as_root a) vpn s) (\<lambda>s' b. (s', Inr (changed \<or> b))))"

definition unmap_mmap_range ::
  "nat \<Rightarrow> nat \<Rightarrow> ('l, 'd) user_mem \<Rightarrow> ('l, 'd) user_mem \<times> (mm_error, bool) result" where
  "unmap_mmap_range st en m =
     (if vs_overlaps_where is_external (as_vmas (um_space m)) st en then (m, Inl MmUnsupported)
      else on_phys (try_fold (unmap_mmap_page (um_space m)) (page_span st en) False) m)"

end
