(* ===== verification/Sv39_Fault.thy ===== *)
theory Sv39_Fault
  imports Sv39_Mem
begin

text \<open>
  Page faults (\<open>mm-impl/common/src/fault.rs\<close> and the wrappers of
  \<open>mm-impl/impl-sv39/src/lib.rs\<close>), the write-back of shared file mappings, and the search
  for a free range (\<open>pagetable.rs\<close>).
\<close>

section \<open>Backings\<close>

definition backing_load_page ::
  "'l loader_ops \<Rightarrow> ('l, 'd) vma_backing \<Rightarrow> nat \<Rightarrow> (nat \<Rightarrow> pte)
     \<Rightarrow> ('l, 'd) vma_backing \<times> (nat \<Rightarrow> pte) \<times> (mm_error, unit) result" where
  "backing_load_page lo b off dst =
     (case b of
        BAnonymous \<Rightarrow> (b, dst, Inr ())
      | BFile (Some l) \<Rightarrow>
          (case lo_load_page lo l off dst of (l', dst', r) \<Rightarrow> (BFile (Some l'), dst', r))
      | _ \<Rightarrow> (b, dst, Inl MmUnsupported))"

definition backing_load_shared ::
  "'l loader_ops \<Rightarrow> ('l, 'd) vma_backing \<Rightarrow> nat \<Rightarrow> phys
     \<Rightarrow> ('l, 'd) vma_backing \<times> phys \<times> (mm_error, nat option) result" where
  "backing_load_shared lo b off s =
     (case b of
        BAnonymous \<Rightarrow> (b, s, Inr None)
      | BFile (Some l) \<Rightarrow>
          (case lo_load_shared lo l off s of (l', s', r) \<Rightarrow> (BFile (Some l'), s', r))
      | _ \<Rightarrow> (b, s, Inl MmUnsupported))"

definition backing_write_page ::
  "'l loader_ops \<Rightarrow> ('l, 'd) vma_backing \<Rightarrow> nat \<Rightarrow> (nat \<Rightarrow> pte)
     \<Rightarrow> ('l, 'd) vma_backing \<times> (mm_error, unit) result" where
  "backing_write_page lo b off src =
     (case b of
        BFile (Some l) \<Rightarrow> (case lo_write_page lo l off src of (l', r) \<Rightarrow> (BFile (Some l'), r))
      | _ \<Rightarrow> (b, Inl MmUnsupported))"

definition backing_flush ::
  "'l loader_ops \<Rightarrow> ('l, 'd) vma_backing \<Rightarrow> ('l, 'd) vma_backing \<times> (mm_error, unit) result" where
  "backing_flush lo b =
     (case b of
        BAnonymous \<Rightarrow> (b, Inr ())
      | BFile (Some l) \<Rightarrow> (case lo_flush lo l of (l', r) \<Rightarrow> (BFile (Some l'), r))
      | _ \<Rightarrow> (b, Inl MmUnsupported))"

definition set_backing ::
  "nat \<Rightarrow> ('l, 'd) vm_area \<Rightarrow> ('l, 'd) vma_backing \<Rightarrow> ('l, 'd) user_mem \<Rightarrow> ('l, 'd) user_mem" where
  "set_backing index v b m =
     m\<lparr>um_space := (um_space m)\<lparr>as_vmas := om_insert index (v\<lparr>backing := b\<rparr>) (as_vmas (um_space m))\<rparr>\<rparr>"

section \<open>Faults in a lazy area\<close>

datatype fault_access = ReadAccess | WriteAccess | ExecuteAccess

fun access_allowed :: "fault_access \<Rightarrow> page_perm \<Rightarrow> bool" where
  "access_allowed ReadAccess p = readable p"
| "access_allowed WriteAccess p = writable p"
| "access_allowed ExecuteAccess p = executable p"

text \<open>Map a frame the fault obtained; the frame goes back when the page table refuses it.\<close>

definition map_or_release ::
  "nat \<Rightarrow> nat \<Rightarrow> nat \<Rightarrow> page_perm \<Rightarrow> phys \<Rightarrow> phys \<times> (mm_error, bool) result" where
  "map_or_release root vpn ppn p s =
     (case map_page_to_ppn root vpn ppn p s of
        (s1, Inl e) \<Rightarrow> (fst (phys_dealloc ppn s1), Inl e)
      | (s1, Inr u) \<Rightarrow> (s1, Inr True))"

text \<open>The second half: a private copy in a fresh zeroed frame.\<close>

definition fault_private ::
  "'l loader_ops \<Rightarrow> nat \<Rightarrow> ('l, 'd) vm_area \<Rightarrow> nat \<Rightarrow> nat \<Rightarrow> ('l, 'd) user_mem
     \<Rightarrow> ('l, 'd) user_mem \<times> (mm_error, bool) result" where
  "fault_private lo index v vpn off m =
     (case alloc_zeroed_frame_with_alloc (um_phys m) of
        (s1, Inl e) \<Rightarrow> (m\<lparr>um_phys := s1\<rparr>, Inl e)
      | (s1, Inr ppn) \<Rightarrow>
          (case backing_load_page lo (backing v) off (phys_words s1 ppn) of
             (b, ws, Inl e) \<Rightarrow>
               (set_backing index v b (m\<lparr>um_phys := fst (phys_dealloc ppn (write_page_words ppn ws s1))\<rparr>),
                Inl e)
           | (b, ws, Inr u) \<Rightarrow>
               (case map_or_release (as_root (um_space m)) vpn ppn (perm v) (write_page_words ppn ws s1) of
                  (s2, r) \<Rightarrow> (set_backing index v b (m\<lparr>um_phys := s2\<rparr>), r))))"

definition handle_vma_fault ::
  "'l loader_ops \<Rightarrow> nat \<Rightarrow> fault_access \<Rightarrow> ('l, 'd) user_mem
     \<Rightarrow> ('l, 'd) user_mem \<times> (mm_error, bool) result" where
  "handle_vma_fault lo fault_addr access m =
     (let vpn = floor_page fault_addr; page = page_addr vpn; vmas = as_vmas (um_space m);
          root = as_root (um_space m)
      in case vs_lookup vmas page of
           None \<Rightarrow> (m, Inr False)
         | Some index \<Rightarrow>
             (case om_get vmas index of
                None \<Rightarrow> (m, Inl InvalidAddress)
              | Some v \<Rightarrow>
                  if \<not> demand_paged v \<or> is_device v then (m, Inr False)
                  else if \<not> access_allowed access (perm v) \<or> \<not> perm_user (perm v) then (m, Inr False)
                  else
                    (case translate_addr root page (um_phys m) of
                       Inl e \<Rightarrow> (m, Inl e)
                     | Inr (Some pa) \<Rightarrow> (m, Inr True)
                     | Inr None \<Rightarrow>
                         let off = file_offset v + (page - start v)
                         in if writable (perm v) then fault_private lo index v vpn off m
                            else
                              (case backing_load_shared lo (backing v) off (um_phys m) of
                                 (b, s1, Inl e) \<Rightarrow> (set_backing index v b (m\<lparr>um_phys := s1\<rparr>), Inl e)
                               | (b, s1, Inr (Some ppn)) \<Rightarrow>
                                   (case map_or_release root vpn ppn (perm v) s1 of
                                      (s2, r) \<Rightarrow> (set_backing index v b (m\<lparr>um_phys := s2\<rparr>), r))
                               | (b, s1, Inr None) \<Rightarrow>
                                   fault_private lo index (v\<lparr>backing := b\<rparr>) vpn off
                                     (set_backing index v b (m\<lparr>um_phys := s1\<rparr>))))))"

text \<open>The store fault of the trap handler: a page another CPU made writable counts as handled.\<close>

definition kernel_handle_cow_fault :: "nat \<Rightarrow> nat \<Rightarrow> phys \<Rightarrow> phys \<times> (mm_error, bool) result" where
  "kernel_handle_cow_fault root fault_addr s =
     st_bind (handle_cow_fault_no_flush root fault_addr s) (\<lambda>s1 changed.
       if changed then (s1, Inr True)
       else (s1, res_bind (leaf_page_perm root (floor_page fault_addr) s1) (\<lambda>p.
              Inr (case p of None \<Rightarrow> False | Some p \<Rightarrow> perm_user p \<and> writable p))))"

section \<open>Writing shared file mappings back\<close>

definition is_shared_file :: "('l, 'd) vm_area \<Rightarrow> bool" where
  "is_shared_file v \<longleftrightarrow> kind v = KFile \<and> sharing v = Shared"

definition sync_page ::
  "'l loader_ops \<Rightarrow> nat \<Rightarrow> phys \<Rightarrow> ('l, 'd) vm_area \<Rightarrow> nat \<Rightarrow> ('l, 'd) vma_backing
     \<Rightarrow> ('l, 'd) vma_backing \<times> (mm_error, unit) result" where
  "sync_page lo root s v vpn b =
     (case translate_addr root (page_addr vpn) s of
        Inl e \<Rightarrow> (b, Inl e)
      | Inr None \<Rightarrow> (b, Inr ())
      | Inr (Some pa) \<Rightarrow>
          backing_write_page lo b (file_offset v + (page_addr vpn - start v))
            (phys_words s (pa div page_size)))"

definition sync_area ::
  "'l loader_ops \<Rightarrow> nat \<Rightarrow> phys \<Rightarrow> nat \<Rightarrow> nat \<Rightarrow> ('l, 'd) vm_area
     \<Rightarrow> ('l, 'd) vm_area \<times> (mm_error, unit) result" where
  "sync_area lo root s st en v =
     (if \<not> is_shared_file v \<or> \<not> area_overlaps v st en then (v, Inr ())
      else case st_bind (try_each (sync_page lo root s v)
                          (page_span (max st (start v)) (min en (end_addr v))) (backing v))
                  (\<lambda>b u. backing_flush lo b) of
             (b, r) \<Rightarrow> (v\<lparr>backing := b\<rparr>, r))"

fun sync_areas ::
  "'l loader_ops \<Rightarrow> nat \<Rightarrow> phys \<Rightarrow> nat \<Rightarrow> nat \<Rightarrow> ('l, 'd) vma_set
     \<Rightarrow> ('l, 'd) vma_set \<times> (mm_error, unit) result" where
  "sync_areas lo root s st en [] = ([], Inr ())"
| "sync_areas lo root s st en ((k, v) # vs) =
     (case sync_area lo root s st en v of
        (v', Inl e) \<Rightarrow> ((k, v') # vs, Inl e)
      | (v', Inr u) \<Rightarrow>
          (case sync_areas lo root s st en vs of (vs', r) \<Rightarrow> ((k, v') # vs', r)))"

definition sync_shared_file_vmas ::
  "'l loader_ops \<Rightarrow> nat \<Rightarrow> nat \<Rightarrow> ('l, 'd) user_mem \<Rightarrow> ('l, 'd) user_mem \<times> (mm_error, unit) result" where
  "sync_shared_file_vmas lo st en m =
     (case sync_areas lo (as_root (um_space m)) (um_phys m) st en (as_vmas (um_space m)) of
        (vs, r) \<Rightarrow> (m\<lparr>um_space := (um_space m)\<lparr>as_vmas := vs\<rparr>\<rparr>, r))"

text \<open>
  \<open>destroy_and_take_asid\<close>: a failed write-back is only logged; the areas are dropped and
  the identifier passes to the caller.
\<close>

definition destroy_and_take_asid ::
  "'l loader_ops \<Rightarrow> ('l, 'd) user_mem \<Rightarrow> ('l, 'd) user_mem \<times> nat" where
  "destroy_and_take_asid lo m =
     (let m1 = fst (sync_shared_file_vmas lo 0 USER_VA_LIMIT m)
      in case destroy_page_tables (um_space m1) (um_phys m1) of
           (a, s) \<Rightarrow> (\<lparr>um_space = a\<lparr>as_vmas := [], as_asid := KERNEL_ASID\<rparr>, um_phys = s\<rparr>, as_asid a))"

section \<open>The search for a free range\<close>

definition MAX_SEARCH_PAGES :: nat where "MAX_SEARCH_PAGES = 2 ^ 20"

text \<open>The \<open>for\<close> loop: the first mapped page of the candidate range.\<close>

primrec first_mapped :: "nat \<Rightarrow> phys \<Rightarrow> nat \<Rightarrow> nat list \<Rightarrow> (mm_error, nat option) result" where
  "first_mapped root s base [] = Inr None"
| "first_mapped root s base (i # is) =
     res_bind (ok_or InvalidAddress (checked_add usize_max base (i * page_size))) (\<lambda>va.
       res_bind (translate_addr root va s) (\<lambda>t.
         if t \<noteq> None then Inr (Some va) else first_mapped root s base is))"

definition pages_between :: "nat \<Rightarrow> nat \<Rightarrow> nat" where
  "pages_between lo hi = (hi - lo + page_size - 1) div page_size"

definition page_align :: "nat \<Rightarrow> nat" where "page_align va = page_addr (ceil_page va)"

text \<open>Where the candidate range is known to collide: the stack, a kernel page, an area.\<close>

definition collision_end ::
  "nat list \<Rightarrow> ('l, 'd) aspace \<Rightarrow> nat \<Rightarrow> nat \<Rightarrow> nat option" where
  "collision_end reserved a base en =
     (case stack_overlap_end a base en of
        Some j \<Rightarrow> Some j
      | None \<Rightarrow>
          (case kernel_reserved_overlap_end reserved base en of
             Some j \<Rightarrow> Some j
           | None \<Rightarrow> vs_overlap_end (as_vmas a) base en))"

lemma page_align_ge: "va \<le> page_align va"
proof -
  have "va + page_size - 1 < ((va + page_size - 1) div page_size) * page_size + page_size"
    using mod_less_divisor [of page_size "va + page_size - 1"]
      div_mult_mod_eq [of "va + page_size - 1" page_size] by (simp add: page_size_def)
  then show ?thesis by (simp add: page_align_def page_addr_def ceil_page_def page_size_def)
qed

lemma first_mapped_ge: "first_mapped root s base is = Inr (Some va) \<Longrightarrow> base \<le> va"
  by (induction "is") (auto simp: res_bind_def split: sum.splits if_splits)

function find_free_loop ::
  "nat list \<Rightarrow> ('l, 'd) aspace \<Rightarrow> phys \<Rightarrow> nat \<Rightarrow> nat \<Rightarrow> nat \<Rightarrow> (mm_error, nat) result" where
  "find_free_loop reserved a s n_pages base skipped =
     (if USER_VA_LIMIT \<le> base \<or> MAX_SEARCH_PAGES < skipped then Inl InvalidAddress
      else if usize_max < n_pages * page_size \<or> usize_max < base + n_pages * page_size
      then Inl InvalidAddress
      else let en = base + n_pages * page_size
        in if USER_VA_LIMIT < en
           then find_free_loop reserved a s n_pages (page_align USER_VA_LIMIT)
                  (sat_add usize_max skipped (pages_between base USER_VA_LIMIT))
           else (case collision_end reserved a base en of
             Some j \<Rightarrow>
               let jump = max j (base + page_size)
               in find_free_loop reserved a s n_pages (page_align jump)
                    (sat_add usize_max skipped (pages_between base jump))
           | None \<Rightarrow>
               (case first_mapped (as_root a) s base [0..<n_pages] of
                  Inl e \<Rightarrow> Inl e
                | Inr None \<Rightarrow> Inr base
                | Inr (Some mapped) \<Rightarrow>
                    let jump = min (sat_add usize_max mapped page_size) USER_VA_LIMIT;
                        base' = page_align jump
                    in if USER_VA_LIMIT \<le> base' then Inl InvalidAddress
                       else find_free_loop reserved a s n_pages base'
                              (sat_add usize_max skipped (pages_between base jump)))))"
  by pat_completeness auto

text \<open>Each round moves the candidate up, so the search ends at the limit of user addresses.\<close>

lemma mapped_jump_gt:
  assumes "base < USER_VA_LIMIT" "base \<le> mapped"
  shows "base < min (sat_add usize_max mapped page_size) USER_VA_LIMIT"
  using assms by (auto simp: sat_add_def USER_VA_LIMIT_def usize_max_def page_size_def min_def)

termination find_free_loop
proof (relation "measure (\<lambda>(reserved, a, s, n, base, skipped). USER_VA_LIMIT - base)", goal_cases)
  case 1
  show ?case by simp
next
  case (2 reserved a s n_pages base skipped en)
  then show ?case using page_align_ge [of USER_VA_LIMIT] by simp
next
  case (3 reserved a s n_pages base skipped en r mapped jump base')
  have "first_mapped (as_root a) s base [0..<n_pages] = Inr (Some mapped)" using 3(6,7) by simp
  then have "base \<le> mapped" by (rule first_mapped_ge)
  moreover have "base < USER_VA_LIMIT" using 3(1) by simp
  ultimately have "base < jump" unfolding 3(8) by (intro mapped_jump_gt)
  then have "base < base'" using page_align_ge [of jump] unfolding 3(9) by (rule less_le_trans)
  then show ?case using 3(10) by simp
next
  case (4 reserved a s n_pages base skipped en j jump)
  have "base < jump" unfolding 4(6) by (simp add: page_size_def)
  then have "base < page_align jump" using page_align_ge [of jump] by (rule less_le_trans)
  then show ?case using 4(1) by (auto intro: diff_less_mono2)
qed

declare find_free_loop.simps [simp del]

definition find_free_mmap_base_considering_vmas ::
  "nat list \<Rightarrow> ('l, 'd) aspace \<Rightarrow> phys \<Rightarrow> nat \<Rightarrow> nat \<Rightarrow> (mm_error, nat) result" where
  "find_free_mmap_base_considering_vmas reserved a s cursor len =
     (if len = 0 \<or> usize_max < len + (page_size - 1) then Inl InvalidAddress
      else let n_pages = (len + (page_size - 1)) div page_size;
               brk_guard = page_align (user_brk_current_end a);
               search_start = max cursor (max (mmap_base a) brk_guard)
           in find_free_loop reserved a s n_pages (page_align search_start) 0)"

section \<open>The range the search returns\<close>

text \<open>What the callers rely on: the pages are user pages, nothing is there yet.\<close>

definition free_range :: "nat list \<Rightarrow> ('l, 'd) aspace \<Rightarrow> phys \<Rightarrow> nat \<Rightarrow> nat \<Rightarrow> bool" where
  "free_range reserved a s base n_pages \<longleftrightarrow>
     base mod page_size = 0 \<and> base + n_pages * page_size \<le> USER_VA_LIMIT
       \<and> \<not> range_overlaps_stack a base (base + n_pages * page_size)
       \<and> kernel_reserved_overlap_end reserved base (base + n_pages * page_size) = None
       \<and> vs_overlap_end (as_vmas a) base (base + n_pages * page_size) = None
       \<and> (\<forall>i < n_pages. translate_addr (as_root a) (base + i * page_size) s = Inr None)"

lemma first_mapped_None:
  "first_mapped root s base is = Inr None \<Longrightarrow> i \<in> set is \<Longrightarrow>
   translate_addr root (base + i * page_size) s = Inr None"
  by (induction "is") (auto simp: res_bind_def ok_or_def checked_add_def split: sum.splits if_splits option.splits)

lemma page_align_mod [simp]: "page_align va mod page_size = 0"
  by (simp add: page_align_def page_addr_def)

lemma find_free_loop_free:
  "find_free_loop reserved a s n_pages base skipped = Inr r \<Longrightarrow> base mod page_size = 0 \<Longrightarrow>
   free_range reserved a s r n_pages \<and> base \<le> r"
proof (induction reserved a s n_pages base skipped rule: find_free_loop.induct)
  case (1 reserved a s n_pages base skipped)
  let ?en = "base + n_pages * page_size"
  have r: "find_free_loop reserved a s n_pages base skipped = Inr r" by (rule 1(4))
  note unf = r [unfolded find_free_loop.simps [of reserved a s n_pages base skipped]]
  have g: "\<not> (USER_VA_LIMIT \<le> base \<or> MAX_SEARCH_PAGES < skipped)"
    "\<not> (usize_max < n_pages * page_size \<or> usize_max < ?en)"
    using unf by (auto split: if_splits)
  show ?case
  proof (cases "USER_VA_LIMIT < ?en")
    case True
    then show ?thesis using 1(1) [OF g refl True] unf g page_align_ge [of USER_VA_LIMIT]
      by (auto simp: Let_def)
  next
    case le: False
    show ?thesis
    proof (cases "collision_end reserved a base ?en")
      case (Some j)
      then show ?thesis
        using 1(3) [OF g refl le Some refl] unf g le page_align_ge [of "max j (base + page_size)"]
        by (auto simp: Let_def)
    next
      case None
      show ?thesis
      proof (cases "first_mapped (as_root a) s base [0..<n_pages]")
        case (Inl e)
        then show ?thesis using unf g le None by (auto simp: Let_def)
      next
        case (Inr o')
        show ?thesis
        proof (cases o')
          case (Some mapped)
          let ?jump = "min (sat_add usize_max mapped page_size) USER_VA_LIMIT"
          have lt: "\<not> USER_VA_LIMIT \<le> page_align ?jump"
            and rec: "find_free_loop reserved a s n_pages (page_align ?jump)
              (sat_add usize_max skipped (pages_between base ?jump)) = Inr r"
            using unf g le None Inr Some by (auto simp: Let_def split: if_splits)
          have "base \<le> mapped" using first_mapped_ge Inr Some by blast
          then have "base < ?jump" using mapped_jump_gt g(1) by simp
          then have "base \<le> page_align ?jump" using page_align_ge [of ?jump] by linarith
          then show ?thesis
            using 1(2) [OF g refl le None Inr Some refl refl lt rec page_align_mod] by simp
        next
          case nil: None
          have "r = base" using unf g le None Inr nil by (auto simp: Let_def)
          moreover have "stack_overlap_end a base ?en = None"
            "kernel_reserved_overlap_end reserved base ?en = None"
            "vs_overlap_end (as_vmas a) base ?en = None"
            using None by (auto simp: collision_end_def split: option.splits)
          ultimately show ?thesis
            using first_mapped_None [OF Inr [unfolded nil]] le 1(5)
            by (auto simp: free_range_def stack_overlap_end_def split: if_splits)
        qed
      qed
    qed
  qed
qed

lemma find_free_mmap_base_free:
  assumes "find_free_mmap_base_considering_vmas reserved a s cursor len = Inr r"
  shows "free_range reserved a s r ((len + (page_size - 1)) div page_size)"
    "cursor \<le> r" "mmap_base a \<le> r"
proof -
  let ?st = "max cursor (max (mmap_base a) (page_align (user_brk_current_end a)))"
  have "find_free_loop reserved a s ((len + (page_size - 1)) div page_size) (page_align ?st) 0 = Inr r"
    using assms unfolding find_free_mmap_base_considering_vmas_def Let_def
    by (simp only: split: if_splits) simp_all
  note * = find_free_loop_free [OF this page_align_mod]
  show "free_range reserved a s r ((len + (page_size - 1)) div page_size)" using * by blast
  show "cursor \<le> r" "mmap_base a \<le> r" using * page_align_ge [of ?st] by simp_all
qed

end
