(* ===== verification/Sv39_Props.thy ===== *)
theory Sv39_Props
  imports Sv39_Fault Vma_Props
begin

text \<open>
  What the Sv39 address spaces promise: the page operations implement a map of pages, a fork
  shares every page copy-on-write with exact reference counts, a write fault gives the page its
  own frame, dropping a space gives back what it held, and the search for a free range returns one.
\<close>

section \<open>Operations on one space\<close>

text \<open>
  An operation on a space keeps it well formed, keeps the frames of the machine, writes to no
  frame in use outside its tables, and is not seen by a space with other tables.
\<close>

definition only_space :: "phys \<Rightarrow> phys \<Rightarrow> nat \<Rightarrow> bool" where
  "only_space s s' root \<longleftrightarrow> space_ok s' root \<and> managed s' = managed s \<and>
     (\<forall>q. 0 < own s q \<longrightarrow> q \<notin> space_tables s root \<longrightarrow> phys_words s' q = phys_words s q) \<and>
     (\<forall>other. space_ok s other \<longrightarrow> space_tables s root \<inter> space_tables s other = {} \<longrightarrow>
        space_ok s' other \<and> view s' other = view s other)"

lemma only_spaceI:
  assumes "space_ok s' root" "confined s s' root" "\<forall>q. own s q \<le> own s' q"
  shows "only_space s s' root"
  unfolding only_space_def
proof (intro conjI allI impI)
  show "space_ok s' root" by (rule assms(1))
  show "managed s' = managed s" using assms(2) by (simp add: confined_def)
  show "phys_words s' q = phys_words s q" if "0 < own s q" "q \<notin> space_tables s root" for q
  proof -
    have "q \<notin> space_tables s' root" using that assms(2) by (auto simp: confined_def)
    then show ?thesis using assms(2) by (simp add: confined_def)
  qed
  fix other assume o: "space_ok s other" and d: "space_tables s root \<inter> space_tables s other = {}"
  have "\<forall>q \<in> space_tables s other. 0 < own s' q"
    using own_tables [OF o] assms(3) by (metis less_le_trans)
  note t = other_space [OF assms(2) space_ok_frames [OF assms(1)] o d this]
  show "space_ok s' other" "view s' other = view s other" by (rule t(1), rule t(2))
qed

lemma map_page_only:
  assumes "space_ok s root" "ppn < 2 ^ 44" "map_page_to_ppn root vpn ppn p s = (s', r)"
  shows "only_space s s' root"
proof -
  note m = map_page_spec [OF assms]
  have "\<forall>q. own s q \<le> own s' q" using m(2,3) by (auto simp: confined_def)
  then show ?thesis by (rule only_spaceI [OF m(1,2)])
qed

text \<open>
  C38. The page operations of an address space implement a map from virtual pages (27 bits of
  the page number) to a frame and its permission, and each acts on that map only. Mapping fails on
  a page that is mapped already, or when every frame is in use, and then leaves the map as it was;
  otherwise it maps exactly that page. It takes a frame for each table it adds and no other.
  Unmapping removes exactly that page and reports its frame, protecting changes its permission and
  keeps its frame, and both say when it was not mapped. Translation reads the map.
\<close>

theorem page_operations_correct:
  assumes "space_ok s root"
  shows "(\<forall>s' r. ppn < 2 ^ 44 \<longrightarrow> map_page_to_ppn root vpn ppn p s = (s', r) \<longrightarrow> only_space s s' root \<and>
      own s' = (\<lambda>q. if q \<in> space_tables s' root - space_tables s root then 1 else own s q) \<and>
      (case r of
         Inr _ \<Rightarrow> view s root vpn = None \<and>
           view s' root = (\<lambda>u. if same_page u vpn then Some (ppn, from_perm p) else view s root u)
       | Inl e \<Rightarrow> view s' root = view s root \<and>
           (e = AlreadyMapped \<and> view s root vpn \<noteq> None \<or>
            e = MmOutOfMemory \<and> (\<forall>q \<in> managed s. 0 < own s' q)))) \<and>
    (\<forall>s' r. unmap_page_to_ppn root vpn s = (s', r) \<longrightarrow> only_space s s' root \<and> own s' = own s \<and>
      r = Inr (map_option fst (view s root vpn)) \<and>
      view s' root = (\<lambda>u. if same_page u vpn then None else view s root u)) \<and>
    (\<forall>s' r. protect_page root vpn p s = (s', r) \<longrightarrow> only_space s s' root \<and> own s' = own s \<and>
      r = (if view s root vpn = None then Inl NotMapped else Inr ()) \<and>
      view s' root = (\<lambda>u. if same_page u vpn
        then map_option (\<lambda>(q, f). (q, from_perm p)) (view s root vpn) else view s root u)) \<and>
    translate_addr_with_perm root va s = Inr (map_option
      (\<lambda>(q, f). (q * page_size + va mod page_size, to_page_perm f)) (view s root (va div page_size))) \<and>
    leaf_page_perm root vpn s = Inr (map_option (\<lambda>(q, f). to_page_perm f) (view s root vpn))"
proof (intro conjI allI impI)
  fix s' r assume m: "ppn < 2 ^ 44" "map_page_to_ppn root vpn ppn p s = (s', r)"
  note M = map_page_spec [OF assms m]
  show "only_space s s' root" by (rule map_page_only [OF assms m])
  show "own s' = (\<lambda>q. if q \<in> space_tables s' root - space_tables s root then 1 else own s q)" by (rule M(3))
  show "case r of
         Inr _ \<Rightarrow> view s root vpn = None \<and>
           view s' root = (\<lambda>u. if same_page u vpn then Some (ppn, from_perm p) else view s root u)
       | Inl e \<Rightarrow> view s' root = view s root \<and>
           (e = AlreadyMapped \<and> view s root vpn \<noteq> None \<or>
            e = MmOutOfMemory \<and> (\<forall>q \<in> managed s. 0 < own s' q))" by (rule M(5))
next
  fix s' r assume u: "unmap_page_to_ppn root vpn s = (s', r)"
  note U = unmap_page_spec [OF assms u]
  show "only_space s s' root" using U(3) by (intro only_spaceI [OF U(1,2)]) simp
  show "own s' = own s" by (rule U(3))
  show "r = Inr (map_option fst (view s root vpn))" using U(5) by (auto split: option.splits)
  show "view s' root = (\<lambda>u. if same_page u vpn then None else view s root u)" by (rule U(6))
next
  fix s' r assume u: "protect_page root vpn p s = (s', r)"
  note U = protect_page_spec [OF assms u]
  show "only_space s s' root" using U(3) by (intro only_spaceI [OF U(1,2)]) simp
  show "own s' = own s" by (rule U(3))
  show "r = (if view s root vpn = None then Inl NotMapped else Inr ())" using U(5) by (auto split: option.splits)
  show "view s' root = (\<lambda>u. if same_page u vpn
        then map_option (\<lambda>(q, f). (q, from_perm p)) (view s root vpn) else view s root u)"
    using U(5) view_same_page [of _ vpn s root] by (auto split: option.splits)
qed (rule translate_spec [OF assms])+

section \<open>A machine to apply the theorems at\<close>

text \<open>
  The frames 16 to 31 but 17 are managed, all memory is zero; a first space has the page 5.
\<close>

definition demo_frames :: frame_allocator where
  "demo_frames = the (init_with_reserved 16 32 17 18 new_frame_allocator)"

definition demo_phys :: phys where
  "demo_phys = \<lparr>phys_words = (\<lambda>_ _. 0), phys_frames = \<lparr>alloc_state = demo_frames, zero_pool = new_zeroed_pool\<rparr>\<rparr>"

lemma demo_phys_ok: "frames_ok demo_phys" "own demo_phys q = 0" "managed demo_phys = {16..<32} - {17}"
proof -
  have "init_with_reserved 16 32 17 18 new_frame_allocator = Some demo_frames"
    by (simp add: demo_frames_def init_with_reserved_def Let_def)
  moreover have "(32 :: nat) \<le> usize_max" by (simp add: usize_max_def)
  ultimately have "frame_inv demo_frames \<and> pool_frames demo_frames =
      {16..<32} - {clamp_nat 16 32 17..<clamp_nat (clamp_nat 16 32 17) 32 18} \<and> owners demo_frames = (\<lambda>_. 0)"
    by (rule init_with_reserved_inv)
  moreover have "clamp_nat 16 32 17 = 17" "clamp_nat 17 32 18 = 18" by (simp_all add: clamp_nat_def)
  ultimately have f: "frame_inv demo_frames" "pool_frames demo_frames = {16..<32} - {17..<18}"
    "owners demo_frames = (\<lambda>_. 0)" by simp_all
  then show "own demo_phys q = 0" by (simp add: g_owners_def demo_phys_def)
  have k: "{17..<18 :: nat} = {17}" by (simp add: set_eq_iff) presburger
  show m: "managed demo_phys = {16..<32} - {17}"
    unfolding g_frames_def demo_phys_def by (simp only: phys.simps frame_globals.simps f(2) k)
  have "g_inv (phys_frames demo_phys)"
    using f(1) by (simp add: g_inv_def demo_phys_def new_zeroed_pool_def pool_inv_def cached_def)
  moreover have "\<forall>p \<in> managed demo_phys. p < 2 ^ 44" unfolding m by simp
  ultimately show "frames_ok demo_phys" by (simp only: frames_ok_def)
qed

text \<open>While a frame is free, a table frame can be had.\<close>

lemma table_alloc_free:
  assumes "frames_ok s" "q \<in> managed s" "own s q = 0"
  obtains s' c where "alloc_table_frame_zeroed s = (s', Inr c)" "frames_ok s'" "managed s' = managed s"
    "own s c = 0" "c \<in> managed s" "c < 2 ^ 44" "own s' = (own s)(c := 1)"
    "phys_words s' = (phys_words s)(c := (\<lambda>_. 0))"
proof -
  obtain s' r where a: "alloc_table_frame_zeroed s = (s', r)" by fastforce
  show thesis
  proof (cases r)
    case (Inl e)
    with table_alloc_Inl(6) [OF assms(1), of s' e] a assms(2,3) show thesis by auto
  next
    case (Inr c)
    with a have a': "alloc_table_frame_zeroed s = (s', Inr c)" by simp
    from that [OF a' table_alloc_Inr [OF assms(1) a']] show thesis .
  qed
qed

lemma free_frame:
  assumes "managed s = {16..<32} - {17}" "own s = (\<lambda>_. 0)(a := x, b := y, c := z, d := u)"
  obtains q where "q \<in> managed s" "own s q = 0"
proof -
  have "\<not> {18, 19, 20, 21, 22} \<subseteq> {a, b, c, d}"
  proof
    assume "{18, 19, 20, 21, 22} \<subseteq> {a, b, c, d}"
    from card_mono [OF _ this] card_insert_le_m1 [of 4 "{b, c, d}" a] card_insert_le_m1 [of 3 "{c, d}" b]
      card_insert_le_m1 [of 2 "{d}" c]
    show False by simp
  qed
  then obtain q where "q \<in> {18, 19, 20, 21, 22}" "q \<noteq> a" "q \<noteq> b" "q \<noteq> c" "q \<noteq> d" by blast
  have "q \<in> {16..<32} - {17}" using \<open>q \<in> {18, 19, 20, 21, 22}\<close> by auto
  then have "q \<in> managed s" unfolding assms(1) .
  moreover have "own s q = 0"
    unfolding assms(2) using \<open>q \<noteq> a\<close> \<open>q \<noteq> b\<close> \<open>q \<noteq> c\<close> \<open>q \<noteq> d\<close> by simp
  ultimately show thesis by (rule that)
qed

lemma fresh_root:
  assumes "frames_ok s" "alloc_table_frame_zeroed s = (s', Inr c)"
  shows "space_ok s' c" "view s' c v = None" "space_tables s' c = {c}"
proof -
  note a = table_alloc_Inr [OF assms]
  have e: "tree (phys_words s') l c \<and> tset (phys_words s') l c = {c} \<and> entry (phys_words s') l c ix = 0" for l ix
    using a(7) by (intro empty_tree) simp
  show "space_ok s' c" using e a(1,6) by (simp add: space_ok_def)
  show "view s' c v = None" using e by (simp add: view_def page_entry_def)
  show "space_tables s' c = {c}" using e by (simp add: space_tables_def)
qed
lemma own_root: "space_ok s root \<Longrightarrow> 0 < own s root"
  by (simp add: space_ok_def)

lemma walk_fresh:
  assumes a: "alloc_table_frame_zeroed s = (s1, Inr a)" and ok: "frames_ok s" "0 < own s root"
    and w: "phys_words s root = (\<lambda>_. 0)"
    and b: "alloc_table_frame_zeroed (put_pte (root, vpn_indexes v ! 2) (pte_set a FLAG_V) s1) = (s2, Inr b)"
  shows "map_page_to_ppn root v ppn p s =
    (put_pte (b, vpn_indexes v ! 0) (pte_set ppn (from_perm p))
       (put_pte (a, vpn_indexes v ! 1) (pte_set b FLAG_V) s2), Inr ())"
proof -
  note A = table_alloc_Inr [OF ok(1) a]
  let ?t = "put_pte (root, vpn_indexes v ! 2) (pte_set a FLAG_V) s1"
  have ok1: "frames_ok ?t" using A(1) by simp
  note B = table_alloc_Inr [OF ok1 b]
  have n: "a \<noteq> root" "b \<noteq> a" "b \<noteq> root" using A(3,6) B(3) ok(2) by (auto split: if_splits)
  have z1: "phys_words s1 root i = 0" for i using A(7) w n by simp
  have zt: "phys_words ?t a i = 0" for i using A(7) n by simp
  have zb: "phys_words s2 b i = 0" for i using B(7) by simp
  note link = link_entry [OF A(5)] link_entry [OF B(5)]
  have step0: "walk_create_from (vpn_indexes v) 0 b
      (put_pte (a, vpn_indexes v ! 1) (pte_set b FLAG_V) s2) =
    (put_pte (a, vpn_indexes v ! 1) (pte_set b FLAG_V) s2, Inr (b, vpn_indexes v ! 0))" by simp
  have step1: "walk_create_from (vpn_indexes v) (Suc 0) a ?t =
    (put_pte (a, vpn_indexes v ! 1) (pte_set b FLAG_V) s2, Inr (b, vpn_indexes v ! 0))"
    using zt [of "vpn_indexes v ! 1"] b link n
    by (simp add: pte_at_def Let_def)
  have "walk_create_from (vpn_indexes v) (Suc (Suc 0)) root s =
    (put_pte (a, vpn_indexes v ! 1) (pte_set b FLAG_V) s2, Inr (b, vpn_indexes v ! 0))"
    using w a link step1
    by (simp del: walk_create_from.simps
        add: walk_create_from.simps(2) [of _ "Suc 0"] pte_at_def Let_def numeral_2_eq_2)
  then have "walk_create root v s =
    (put_pte (a, vpn_indexes v ! 1) (pte_set b FLAG_V) s2, Inr (b, vpn_indexes v ! 0))"
    by (simp add: walk_create_def SV39_LEVELS_def numeral_2_eq_2)
  then show ?thesis using n zb by (simp add: map_page_to_ppn_def pte_at_def)
qed

text \<open>The page 5 of a fresh space shows a frame of its own, readable and writable by the user.\<close>

lemma demo_space:
  obtains s root d free where "space_ok s root" "d \<notin> space_tables s root" "d < 2 ^ 44" "own s d = 1"
    "view s root = (\<lambda>u. if same_page u 5 then Some (d, from_perm 11) else None)"
    "\<And>q. own s q \<le> 1" "0 \<notin> managed s" "free \<in> managed s" "own s free = 0"
proof -
  have z: "own demo_phys = (\<lambda>_. 0)" using demo_phys_ok(2) by (simp add: fun_eq_iff)
  obtain s1 root where 1: "alloc_table_frame_zeroed demo_phys = (s1, Inr root)" "frames_ok s1"
    "managed s1 = managed demo_phys" "own s1 = (\<lambda>_. 0)(root := 1)" "phys_words s1 = (phys_words demo_phys)(root := (\<lambda>_. 0))"
    by (rule table_alloc_free [of demo_phys 18]) (simp_all add: demo_phys_ok z)
  note R = fresh_root [OF demo_phys_ok(1) 1(1)]
  obtain s2 r where p: "phys_alloc s1 = (s2, r)" by fastforce
  have "own s1 = (\<lambda>_. 0)(root := 1, root := 1, root := 1, root := 1)" using 1(4) by simp
  from free_frame [OF _ this] 1(3) demo_phys_ok(3) obtain q where q: "q \<in> managed s1" "own s1 q = 0" by metis
  obtain d where r: "r = Inr d"
    using phys_alloc_Inl(6) [OF 1(2), of s2] p q by (cases r) auto
  note P = phys_alloc_Inr [OF 1(2) p [unfolded r]]
  have dr: "d \<noteq> root" using P(3) 1(4) by auto
  have w2: "phys_words s2 root = (\<lambda>_. 0)" using P(6) 1(5) by simp
  have t2: "tree (phys_words s2) l root \<and> tset (phys_words s2) l root = {root} \<and> entry (phys_words s2) l root ix = 0" for l ix
    by (rule empty_tree [where w = "phys_words s2" and p = root, OF w2])
  have sp2: "space_ok s2 root" using t2 P(1,5) 1(4) dr by (simp add: space_ok_def)
  have o2: "own s2 = (\<lambda>_. 0)(root := 1, d := 1, d := 1, d := 1)" using P(5) 1(4) by simp
  from free_frame [OF _ o2] P(2) 1(3) demo_phys_ok(3) obtain q2 where q2: "q2 \<in> managed s2" "own s2 q2 = 0" by metis
  obtain s3 a where 3: "alloc_table_frame_zeroed s2 = (s3, Inr a)" "frames_ok s3" "managed s3 = managed s2"
    "own s3 = (own s2)(a := 1)" by (rule table_alloc_free [OF P(1) q2])
  let ?t = "put_pte (root, vpn_indexes 5 ! 2) (pte_set a FLAG_V) s3"
  have o3: "own ?t = (\<lambda>_. 0)(root := 1, d := 1, a := 1, a := 1)" using 3(4) o2 by simp
  have "managed ?t = {16..<32} - {17}" using 3(3) P(2) 1(3) demo_phys_ok(3) by simp
  from free_frame [OF this o3] obtain q3 where q3: "q3 \<in> managed ?t" "own ?t q3 = 0" by blast
  have "frames_ok ?t" using 3(2) by simp
  from table_alloc_free [OF this q3] obtain s4 b where b: "alloc_table_frame_zeroed ?t = (s4, Inr b)"
    "managed s4 = managed ?t" "own s4 = (own ?t)(b := 1)" by blast
  have "0 < own s2 root" using o2 dr by simp
  from walk_fresh [OF 3(1) P(1) this w2 b(1), of d 11]
  obtain s5 where m: "map_page_to_ppn root 5 d 11 s2 = (s5, Inr ())" "own s5 = own s4" "managed s5 = managed s4"
    by (auto intro: that)
  have o5: "own s5 = (\<lambda>_. 0)(root := 1, d := 1, a := 1, b := 1)" using m(2) b(3) o3 by simp
  have m5: "managed s5 = {16..<32} - {17}" using m(3) b(2) 3(3) P(2) 1(3) demo_phys_ok(3) by simp
  obtain q5 where q5: "q5 \<in> managed s5" "own s5 q5 = 0" by (rule free_frame [OF m5 o5])
  note M = map_page_spec [OF sp2 P(4) m(1)]
  have v2: "view s2 root v = None" for v using t2 by (simp add: view_def page_entry_def)
  have ts2: "space_tables s2 root = {root}" using t2 by (simp add: space_tables_def)
  have dn: "d \<notin> space_tables s5 root" 
  proof
    assume "d \<in> space_tables s5 root"
    then have "d \<in> space_tables s5 root - space_tables s2 root" using ts2 dr by simp
    then have "own s2 d = 0" using M(2) unfolding confined_def by blast
    then show False using P(5) by simp
  qed
  show thesis
  proof (rule that [of s5 root d q5])
    show "space_ok s5 root" by (rule M(1))
    show "d \<notin> space_tables s5 root" by (rule dn)
    show "d < 2 ^ 44" by (rule P(4))
    show "own s5 d = 1" using M(3) dn o2 by simp
    show "view s5 root = (\<lambda>u. if same_page u 5 then Some (d, from_perm 11) else None)"
      using M(5) v2 by (simp add: fun_eq_iff)
    show "own s5 q \<le> 1" for q using M(3) o2 by auto
    show "0 \<notin> managed s5" using m5 by simp
    show "q5 \<in> managed s5" "own s5 q5 = 0" by (rule q5)+
  qed
qed

theorem page_operations_correct_witness:
  "\<exists>s root d. view s root 5 = Some (d, from_perm 11) \<and> snd (protect_page root 5 9 s) = Inr () \<and>
     map_page_to_ppn root 5 d 9 s \<noteq> (s, Inr ()) \<and>
     translate_addr_with_perm root (5 * page_size + 7) s = Inr (Some (d * page_size + 7, 11))"
proof -
  obtain s root d where s: "space_ok s root" "d < 2 ^ 44"
    "view s root = (\<lambda>u. if same_page u 5 then Some (d, from_perm 11) else None)"
    by (rule demo_space) (rule that)
  have v: "view s root 5 = Some (d, from_perm 11)" using s(3) by (simp add: same_page_def)
  note C = page_operations_correct [OF s(1)]
  have "snd (protect_page root 5 9 s) = Inr ()"
    using C [THEN conjunct2, THEN conjunct2, THEN conjunct1] v by (metis option.distinct(1) prod.collapse)
  moreover have "map_page_to_ppn root 5 d 9 s \<noteq> (s, Inr ())"
    using C [THEN conjunct1, rule_format, OF s(2), of 5 9 s "Inr ()"] v by auto
  moreover have "translate_addr_with_perm root (5 * page_size + 7) s = Inr (Some (d * page_size + 7, 11))"
    using C [THEN conjunct2, THEN conjunct2, THEN conjunct2, THEN conjunct1, of "5 * page_size + 7"] v
    by (simp add: page_size_def perm_round)
  ultimately show ?thesis using v by auto
qed

text \<open>
  The copy-on-write fork of an address space and the end of the copy.
\<close>

section \<open>Identifiers\<close>

text \<open>An identifier for the child: a fresh one, or the kernel's when the hardware has no others.\<close>

definition asid_given :: "asid_allocator \<Rightarrow> nat \<Rightarrow> asid_allocator \<Rightarrow> bool" where
  "asid_given ids x ids' \<longleftrightarrow>
     (if asid_limit ids = 1 then x = KERNEL_ASID \<and> ids' = ids
      else x \<noteq> KERNEL_ASID \<and> x \<notin> asids ids \<and> asids ids' = insert x (asids ids))"

lemma allocate_user_cases:
  assumes "asid_inv ids"
  obtains "allocate_user ids = (ids, Inl MmOutOfMemory)"
  | ids' x where "allocate_user ids = (ids', Inr x)" "asid_given ids x ids'" "asids (asid_release x ids') = asids ids"
proof -
  obtain ids' r where a: "asid_allocate ids = (ids', r)" by fastforce
  note S = asid_allocate_spec [OF assms a]
  show thesis
  proof (cases r)
    case None
    with S a that(1) show thesis by (simp add: allocate_user_def ok_or_def)
  next
    case (Some x)
    with S a have "allocate_user ids = (ids', Inr x)" "asid_given ids x ids'"
      by (auto simp: allocate_user_def ok_or_def asid_given_def KERNEL_ASID_def)
    moreover have "asids (asid_release x ids') = asids ids"
      using S Some asid_release_spec(3,4) [of ids' x]
      by (cases "asid_limit ids = 1") (auto simp: KERNEL_ASID_def asid_release_def)
    ultimately show thesis by (rule that(2))
  qed
qed

section \<open>The areas of a copy\<close>

lemma vma_where_iff:
  assumes "vs_inv m"
  shows "vma_where P m page \<longleftrightarrow> (\<exists>k v. om_get m k = Some v \<and> in_area v page \<and> P v)"
proof -
  have l: "vs_lookup m page = Some k \<longleftrightarrow> (\<exists>v. om_get m k = Some v \<and> in_area v page)" for k
    by (rule lookup_spec [OF assms])
  show ?thesis
  proof (cases "vs_lookup m page")
    case None
    then show ?thesis using l by (auto simp: vma_where_def)
  next
    case (Some k)
    then obtain v where v: "om_get m k = Some v" "in_area v page" using l by blast
    have u: "k' = k" if "om_get m k' = Some v'" "in_area v' page" for k' v'
      using l [of k'] that Some by simp
    have "vma_where P m page \<longleftrightarrow> P v" using Some v(1) by (simp add: vma_where_def)
    also have "\<dots> \<longleftrightarrow> (\<exists>k v. om_get m k = Some v \<and> in_area v page \<and> P v)"
    proof
      assume "P v"
      with v show "\<exists>k v. om_get m k = Some v \<and> in_area v page \<and> P v" by blast
    next
      assume "\<exists>k v. om_get m k = Some v \<and> in_area v page \<and> P v"
      then obtain k' v' where o: "om_get m k' = Some v'" "in_area v' page" "P v'" by blast
      from u [OF o(1,2)] o(1,3) v(1) show "P v" by simp
    qed
    finally show ?thesis .
  qed
qed

lemma area_duplicate_kind:
  assumes "area_duplicate dup v = Inr c"
  shows "in_area c page = in_area v page" "is_non_owned c = is_non_owned v" "is_shared c = is_shared v"
  using assms area_duplicate_Inr [OF assms]
  by (auto simp: in_area_def area_duplicate_def res_bind_def is_non_owned_def is_shared_def backing_duplicate_def
      split: sum.splits vma_backing.splits option.splits)

lemma duplicate_where:
  assumes inv: "vs_inv m" and d: "vs_duplicate dup m = Inr m'"
    and P: "\<And>v c. area_duplicate dup v = Inr c \<Longrightarrow> P c = P v"
  shows "vma_where P m' page = vma_where P m page"
proof -
  have inv': "vs_inv m'" using vs_duplicate_correct [OF inv d] by blast
  note get = vs_duplicate_get [OF inv d]
  show ?thesis
    unfolding vma_where_iff [OF inv] vma_where_iff [OF inv']
  proof
    assume "\<exists>k v. om_get m' k = Some v \<and> in_area v page \<and> P v"
    then obtain k c where c: "om_get m' k = Some c" "in_area c page" "P c" by blast
    then obtain v where "om_get m k = Some v" using get(3) [of k] by (cases "om_get m k") auto
    with get(2) [OF this] c P area_duplicate_kind(1) show "\<exists>k v. om_get m k = Some v \<and> in_area v page \<and> P v"
      by (metis option.inject)
  next
    assume "\<exists>k v. om_get m k = Some v \<and> in_area v page \<and> P v"
    then obtain k v where v: "om_get m k = Some v" "in_area v page" "P v" by blast
    with get(2) [OF v(1)] P area_duplicate_kind(1) show "\<exists>k v. om_get m' k = Some v \<and> in_area v page \<and> P v"
      by metis
  qed
qed

lemma refs_same_vmas:
  assumes "\<And>page. vma_where is_non_owned vmas' page = vma_where is_non_owned vmas page"
  shows "refs s vmas' root = refs s vmas root"
proof -
  have "page_ref vmas' v pf = page_ref vmas v pf" for v pf
    by (cases pf) (simp_all add: page_ref_def assms)
  then show ?thesis by (simp add: fun_eq_iff refs_def page_refs_def)
qed

section \<open>Fork\<close>

text \<open>What a fork needs: the space is well formed, what it refers to is in use, and no reference
  count is near its 32-bit bound.\<close>

definition may_fork :: "('l, 'd) aspace \<Rightarrow> phys \<Rightarrow> bool" where
  "may_fork a s \<longleftrightarrow> space_ok s (as_root a) \<and> ref_room s \<and>
     (\<forall>q. 0 < refs s (as_vmas a) (as_root a) q \<longrightarrow> 0 < own s q)"

text \<open>Memory in use that is no table of the space is untouched.\<close>

definition rest_same :: "phys \<Rightarrow> phys \<Rightarrow> nat \<Rightarrow> bool" where
  "rest_same s s' root \<longleftrightarrow> managed s' = managed s \<and>
     (\<forall>q. 0 < own s q \<longrightarrow> q \<notin> space_tables s root \<longrightarrow> phys_words s' q = phys_words s q)"

lemma forked_read_only:
  assumes "forked_view vmas s root v = Some (q, f)" "flags_writable f" "perm_user (to_page_perm f)"
  shows "vma_where is_shared vmas (page_addr (v mod 2 ^ 27)) \<or>
    vma_where is_non_owned vmas (page_addr (v mod 2 ^ 27))"
proof (rule ccontr)
  assume n: "\<not> ?thesis"
  obtain g where g: "view s root v = Some (q, g)" "f = fork_flags vmas (page_addr (v mod 2 ^ 27)) g"
    using assms(1) by (auto simp: forked_view_def fork_page_def)
  have "\<not> flags_writable (prepare_cow g)" by (simp add: bit_prepare_cow)
  with g(2) n assms(2) have "f = g" "\<not> perm_user (to_page_perm g)"
    by (auto simp: fork_flags_def split: if_splits)
  with assms(3) show False by simp
qed

text \<open>What both outcomes of a fork mean for the memory \<open>s\<close> it started from.\<close>

definition fork_result ::
  "('l, 'd) aspace \<Rightarrow> phys \<Rightarrow> ('l, 'd) aspace \<Rightarrow> phys \<Rightarrow> bool" where
  "fork_result a s child s' \<longleftrightarrow>
     space_ok s' (as_root a) \<and> space_ok s' (as_root child) \<and>
     space_tables s' (as_root a) = space_tables s (as_root a) \<and>
     (\<forall>q \<in> space_tables s' (as_root child). own s q = 0) \<and>
     view s' (as_root a) = forked_view (as_vmas a) s (as_root a) \<and>
     view s' (as_root child) = forked_view (as_vmas a) s (as_root a) \<and>
     own s' = (\<lambda>q. own s q + refs s' (as_vmas child) (as_root child) q) \<and>
     (\<forall>v q f. view s' (as_root child) v = Some (q, f) \<longrightarrow> flags_writable f \<longrightarrow> perm_user (to_page_perm f) \<longrightarrow>
        vma_where is_shared (as_vmas a) (page_addr (v mod 2 ^ 27)) \<or>
        vma_where is_non_owned (as_vmas a) (page_addr (v mod 2 ^ 27)))"

definition fork_failed :: "('l, 'd) aspace \<Rightarrow> machine \<Rightarrow> machine \<Rightarrow> bool" where
  "fork_failed a m m' \<longleftrightarrow>
     space_ok (mach_phys m') (as_root a) \<and> own (mach_phys m') = own (mach_phys m) \<and>
     asids (mach_asids m') = asids (mach_asids m) \<and>
     (\<forall>v. view (mach_phys m') (as_root a) v \<in>
        {view (mach_phys m) (as_root a) v, forked_view (as_vmas a) (mach_phys m) (as_root a) v})"

lemma fork_same_refs:
  assumes "vs_inv vmas" "vs_duplicate dup vmas = Inr vmas'"
  shows "refs s vmas' root = refs s vmas root"
  by (rule refs_same_vmas, rule duplicate_where [OF assms], rule area_duplicate_kind(2))

text \<open>A step that leaves the memory readable through the same tables.\<close>

lemma table_alloc_same:
  assumes sp: "space_ok s root" and al: "alloc_table_frame_zeroed s = (s', Inl e)"
  shows "space_ok s' root" "own s' = own s" "view s' root = view s root" "rest_same s s' root" "e = MmOutOfMemory"
proof -
  note T = table_alloc_Inl [OF space_ok_frames [OF sp] al]
  show "own s' = own s" "e = MmOutOfMemory" using T by auto
  show "view s' root = view s root" by (rule view_cong [OF T(4)])
  show "rest_same s s' root" using T by (simp add: rest_same_def)
  show "space_ok s' root" using T sp by (simp add: space_ok_def)
qed

lemma fork_tables:
  assumes may: "may_fork a s" and inv: "vs_inv (as_vmas a)" "vs_duplicate dup (as_vmas a) = Inr cv"
    and al: "alloc_table_frame_zeroed s = (s1, Inr c)"
    and fk: "fork_table (as_vmas a) 2 (as_root a) c 0 s1 = (s2, Inr u)"
  shows "fork_result a s (a\<lparr>as_root := c, as_asid := x, as_vmas := cv\<rparr>) s2" "rest_same s s2 (as_root a)"
proof -
  have m: "space_ok s (as_root a)" "\<forall>q. 0 < refs s (as_vmas a) (as_root a) q \<longrightarrow> 0 < own s q" "ref_room s"
    using may by (auto simp: may_fork_def)
  note F = fork_space_ok [OF m(1) al m(2,3) fk]
  show "fork_result a s (a\<lparr>as_root := c, as_asid := x, as_vmas := cv\<rparr>) s2"
    unfolding fork_result_def
    using F(1,2,4-8) fork_same_refs [OF inv] forked_read_only [of "as_vmas a" s "as_root a"]
    by (simp add: fun_eq_iff)
  show "rest_same s s2 (as_root a)" using F(3,9) by (simp add: rest_same_def)
qed

lemma fork_tables_fail:
  assumes may: "may_fork a s" and al: "alloc_table_frame_zeroed s = (s1, Inr c)"
    and fk: "fork_table (as_vmas a) 2 (as_root a) c 0 s1 = (s2, Inl e)"
  defines "s3 \<equiv> destroy_table (as_vmas a) 2 c 0 s2"
  shows "e = MmOutOfMemory" "space_ok s3 (as_root a)" "own s3 = own s" "rest_same s s3 (as_root a)"
    "view s3 (as_root a) v = view s (as_root a) v \<or> view s3 (as_root a) v = forked_view (as_vmas a) s (as_root a) v"
proof -
  have m: "space_ok s (as_root a)" "\<forall>q. 0 < refs s (as_vmas a) (as_root a) q \<longrightarrow> 0 < own s q" "ref_room s"
    using may by (auto simp: may_fork_def)
  note F = fork_space_fails [OF m(1) al m(2,3) fk meta_eq_to_obj_eq [OF s3_def]]
  show "e = MmOutOfMemory" "space_ok s3 (as_root a)" "own s3 = own s"
    "view s3 (as_root a) v = view s (as_root a) v \<or> view s3 (as_root a) v = forked_view (as_vmas a) s (as_root a) v"
    by (rule F(1), rule F(2), rule F(4), rule F(6))
  show "rest_same s s3 (as_root a)" using F(3,7) by (simp add: rest_same_def)
qed

text \<open>Dropping the copy gives back exactly what the fork took.\<close>

lemma drop_copy:
  assumes s: "space_ok s (as_root a)" and f: "fork_result a s child s'" and nz: "as_root child \<noteq> 0"
  shows "case destroy_page_tables child s' of (gone, s'') \<Rightarrow>
    as_root gone = 0 \<and> own s'' = own s \<and> space_ok s'' (as_root a) \<and> view s'' (as_root a) = view s' (as_root a)"
proof -
  let ?s = "destroy_table (as_vmas child) 2 (as_root child) 0 s'"
  have sp: "space_ok s' (as_root child)" and o: "own s' = (\<lambda>q. own s q + refs s' (as_vmas child) (as_root child) q)"
    and pa: "space_ok s' (as_root a)"
    using f by (auto simp: fork_result_def)
  then have "refs s' (as_vmas child) (as_root child) q \<le> own s' q" for q by simp
  note D = destroy_space [OF sp this]
  have own: "own ?s = own s" using D(3) o by (simp add: fun_eq_iff)
  have w: "phys_words ?s = phys_words s'" by (rule D(4))
  have ok: "space_ok ?s (as_root a)"
    unfolding space_ok_def w
  proof (intro conjI ballI)
    show "frames_ok ?s" by (rule D(1))
    show "tree (phys_words s') 2 (as_root a)" using pa by (simp add: space_ok_def)
    show "0 < own ?s q" if "q \<in> tset (phys_words s') 2 (as_root a)" for q
      unfolding own using own_tables [OF s] that f by (simp add: fork_result_def space_tables_def)
  qed
  have "view ?s (as_root a) = view s' (as_root a)" by (rule view_cong [OF w])
  with own ok nz show ?thesis by (simp add: destroy_page_tables_def SV39_LEVELS_def)
qed

text \<open>
  C39. Forking an address space whose areas and table are well formed, with every frame it
  refers to in use and its reference counts short of the 32-bit bound by one whole space, gives a
  child that shows the frame the parent shows at every page: a writable user page outside shared and
  borrowed areas is read-only and marked copy-on-write in both, and no other page changes. So no
  private page of the two spaces is left writable. The child's tables are frames that were not in
  use, the count of every frame grows by exactly the references the child has to it, no memory in use
  but the parent's tables is written, and dropping the child at once restores every count. A fork
  that fails (no memory, no identifier, or an area that cannot be duplicated) leaves every reference
  count and every identifier as they were, and the parent with the same page or its read-only form at
  every address.
\<close>

theorem fork_cow_correct:
  assumes may: "may_fork a (mach_phys m)" and areas: "vs_inv (as_vmas a)" and ids: "asid_inv (mach_asids m)"
    and zero: "0 \<notin> managed (mach_phys m)" and r: "fork_cow dup a m = (m', r)"
  shows "rest_same (mach_phys m) (mach_phys m') (as_root a) \<and>
    (case r of
       Inl e \<Rightarrow> (e = MmOutOfMemory \<or> vs_duplicate dup (as_vmas a) = Inl e) \<and> fork_failed a m m'
     | Inr child \<Rightarrow> fork_result a (mach_phys m) child (mach_phys m') \<and>
         asid_given (mach_asids m) (as_asid child) (mach_asids m') \<and>
         vs_duplicate dup (as_vmas a) = Inr (as_vmas child) \<and>
         child = a\<lparr>as_root := as_root child, as_asid := as_asid child, as_vmas := as_vmas child\<rparr> \<and>
         (case destroy_page_tables child (mach_phys m') of (gone, s'') \<Rightarrow>
            as_root gone = 0 \<and> own s'' = own (mach_phys m) \<and> space_ok s'' (as_root a) \<and>
            view s'' (as_root a) = view (mach_phys m') (as_root a)))"
proof (cases "vs_duplicate dup (as_vmas a)")
  case (Inl e)
  with r have "m' = m" "r = Inl e" by (auto simp: fork_cow_def)
  with Inl may show ?thesis by (simp add: fork_failed_def rest_same_def may_fork_def)
next
  case dup: (Inr cv)
  have sp: "space_ok (mach_phys m) (as_root a)" using may by (simp add: may_fork_def)
  show ?thesis
  proof (rule allocate_user_cases [OF ids])
    assume "allocate_user (mach_asids m) = (mach_asids m, Inl MmOutOfMemory)"
    with r dup have "m' = m" "r = Inl MmOutOfMemory" by (auto simp: fork_cow_def)
    with sp show ?thesis by (simp add: fork_failed_def rest_same_def)
  next
    fix ids' x assume u: "allocate_user (mach_asids m) = (ids', Inr x)"
      "asid_given (mach_asids m) x ids'" "asids (asid_release x ids') = asids (mach_asids m)"
    obtain s1 al where al: "alloc_table_frame_zeroed (mach_phys m) = (s1, al)" by fastforce
    show ?thesis
    proof (cases al)
      case (Inl e)
      with r dup u al have "m' = \<lparr>mach_phys = s1, mach_asids = asid_release x ids'\<rparr>" "r = Inl e"
        by (auto simp: fork_cow_def)
      with table_alloc_same [OF sp al [unfolded Inl]] u(3) show ?thesis by (simp add: fork_failed_def)
    next
      case (Inr c)
      note al' = al [unfolded Inr]
      have c: "c \<noteq> 0" using table_alloc_Inr(4) [OF space_ok_frames [OF sp] al'] zero by metis
      obtain s2 fr where fk: "fork_table (as_vmas a) 2 (as_root a) c 0 s1 = (s2, fr)" by fastforce
      show ?thesis
      proof (cases fr)
        case (Inl e)
        with r dup u(1) al' fk have "m' = \<lparr>mach_phys = destroy_table (as_vmas a) 2 c 0 s2,
            mach_asids = asid_release x ids'\<rparr>" "r = Inl e" by (auto simp: fork_cow_def SV39_LEVELS_def)
        with fork_tables_fail [OF may al' fk [unfolded Inl]] u(3) show ?thesis by (simp add: fork_failed_def)
      next
        case (Inr u')
        let ?child = "a\<lparr>as_root := c, as_asid := x, as_vmas := cv\<rparr>"
        have e: "m' = \<lparr>mach_phys = s2, mach_asids = ids'\<rparr>" "r = Inr ?child"
          using r dup u(1) al' fk Inr by (auto simp: fork_cow_def SV39_LEVELS_def)
        note F = fork_tables [OF may areas dup al' fk [unfolded Inr]]
        from F(2) F(1) [of x] drop_copy [OF sp F(1) [of x]] c u(2) dup show ?thesis unfolding e by simp
      qed
    qed
  qed
qed

text \<open>
  The write fault on a copy-on-write page, and a machine the theorems on forks and faults apply to.
\<close>

section \<open>The fault\<close>

text \<open>A space whose tables nobody wrote to, and whose frames are still in use, is as before.\<close>

lemma space_untouched:
  assumes o: "space_ok s other" and fr: "frames_ok s'"
    and w: "\<And>q. q \<in> space_tables s other \<Longrightarrow> phys_words s' q = phys_words s q \<and> 0 < own s' q"
  shows "space_ok s' other" "view s' other = view s other"
proof -
  note tc = tree_cong [of "phys_words s" 2 other "phys_words s'"]
  have eq: "phys_words s' q = phys_words s q" if "q \<in> tset (phys_words s) 2 other" for q
    using w that by (simp add: space_tables_def)
  show "space_ok s' other" using o fr w tc(1,2) eq by (simp add: space_ok_def space_tables_def)
  show "view s' other = view s other"
    using tc(4) [OF eq path_ok_vpn] by (simp add: view_def page_entry_def fun_eq_iff)
qed

text \<open>The frame a resolved fault leaves the page with, and what happened to the counts.\<close>

definition own_frame :: "phys \<Rightarrow> phys \<Rightarrow> nat \<Rightarrow> nat \<Rightarrow> bool" where
  "own_frame s s' old new \<longleftrightarrow> phys_words s' new = phys_words s old \<and>
     (if own s old = 1 then new = old \<and> own s' = own s
      else own s new = 0 \<and> own s' = (own s)(old := own s old - 1, new := 1))"

text \<open>What a resolved fault means for the space and for the others.\<close>

definition cow_resolved :: "phys \<Rightarrow> phys \<Rightarrow> nat \<Rightarrow> nat \<Rightarrow> nat \<Rightarrow> nat \<Rightarrow> pte_flags \<Rightarrow> bool" where
  "cow_resolved s s' root vpn old new g \<longleftrightarrow>
     own_frame s s' old new \<and> flags_writable g \<and> \<not> flags_cow g \<and> space_ok s' root \<and> managed s' = managed s \<and>
     view s' root = (\<lambda>u. if same_page u vpn then Some (new, g) else view s root u) \<and>
     (\<forall>q. 0 < own s q \<longrightarrow> q \<notin> space_tables s root \<longrightarrow> phys_words s' q = phys_words s q) \<and>
     (\<forall>other. space_ok s other \<longrightarrow> space_tables s root \<inter> space_tables s other = {} \<longrightarrow>
        old \<notin> space_tables s other \<longrightarrow> space_ok s' other \<and> view s' other = view s other)"

lemma cow_resolvedI:
  assumes P: "own_frame s s' old new" "page_becomes s s' root vpn (Some (new, restore_cow_writable f))"
    and W: "\<And>q. 0 < own s q \<Longrightarrow> q \<notin> space_tables s root \<Longrightarrow> phys_words s' q = phys_words s q"
  shows "cow_resolved s s' root vpn old new (restore_cow_writable f)"
proof -
  have B: "space_ok s' root" "managed s' = managed s"
    "view s' root = (\<lambda>u. if same_page u vpn then Some (new, restore_cow_writable f) else view s root u)"
    using P(2) by (simp_all add: page_becomes_def)
  have "space_ok s' other \<and> view s' other = view s other"
    if O: "space_ok s other" "space_tables s root \<inter> space_tables s other = {}" "old \<notin> space_tables s other" for other
  proof -
    have t: "phys_words s' q = phys_words s q \<and> 0 < own s' q" if "q \<in> space_tables s other" for q
      using own_tables [OF O(1) that] that W [of q] O(2,3) P(1) by (auto simp: own_frame_def split: if_splits)
    from space_untouched [OF O(1) space_ok_frames [OF B(1)] t] show ?thesis by blast
  qed
  with P(1) B W show ?thesis by (simp add: cow_resolved_def bit_restore_cow)
qed

text \<open>
  C40. A write fault on a page marked copy-on-write that was writable gives the page a frame it
  does not share: its own, when no one else refers to it, and otherwise a frame that was not in
  use, filled with the contents of the shared one, whose count drops by one. The page becomes
  writable and is no longer marked; no other page of the space changes, no memory in use but the
  space's tables is written, and every space with tables of its own keeps its pages. Without a free frame the
  fault fails and changes nothing; on any other page it reports that it did nothing.
\<close>

theorem cow_fault_correct:
  assumes sp: "space_ok s root" and h: "handle_cow_page root vpn s = (s', r)"
    and cow: "\<forall>ppn f. view s root vpn = Some (ppn, f) \<longrightarrow> flags_cow f \<longrightarrow>
        0 < own s ppn \<and> ppn \<notin> space_tables s root"
  shows "case view s root vpn of
      None \<Rightarrow> r = Inr False \<and> s' = s
    | Some (old, f) \<Rightarrow>
        if \<not> (flags_cow f \<and> cow_was_writable f) then r = Inr False \<and> s' = s
        else (r = Inl MmOutOfMemory \<and> own s old \<noteq> 1 \<and> (\<forall>q \<in> managed s. 0 < own s q) \<and>
            own s' = own s \<and> phys_words s' = phys_words s) \<or>
          (\<exists>new. r = Inr True \<and> cow_resolved s s' root vpn old new (restore_cow_writable f))"
proof (cases "view s root vpn")
  case None
  with handle_cow_page_spec [OF sp h cow] show ?thesis by simp
next
  case (Some pf)
  obtain old f where pf: "pf = (old, f)" by fastforce
  note v = Some [unfolded pf]
  note S = handle_cow_page_spec [OF sp h cow]
  show ?thesis
  proof (cases "flags_cow f \<and> cow_was_writable f")
    case False
    with S v show ?thesis by simp
  next
    case True
    have o: "0 < own s old" "old \<notin> space_tables s root" using cow v True by auto
    show ?thesis
    proof (cases "own s old = 1")
      case one: True
      with S v True have R: "r = Inr True" "own s' = own s"
        "page_becomes s s' root vpn (Some (old, restore_cow_writable f))"
        "\<forall>q. q \<notin> space_tables s root \<longrightarrow> phys_words s' q = phys_words s q" by auto
      have "cow_resolved s s' root vpn old old (restore_cow_writable f)"
        using one R(2,4) o(2) by (intro cow_resolvedI [OF _ R(3)]) (simp_all add: own_frame_def)
      with v True R(1) show ?thesis by auto
    next
      case many: False
      then consider (oom) "r = Inl MmOutOfMemory" "\<forall>q \<in> managed s. 0 < own s q" "own s' = own s" "phys_words s' = phys_words s"
        | (copy) new where "r = Inr True" "own s new = 0" "own s' = (own s)(old := own s old - 1, new := 1)"
          "page_becomes s s' root vpn (Some (new, restore_cow_writable f))" "phys_words s' new = phys_words s old"
          "\<forall>q. q \<noteq> new \<longrightarrow> q \<notin> space_tables s root \<longrightarrow> phys_words s' q = phys_words s q"
        using S v True by auto
      then show ?thesis
      proof cases
        case oom
        with v True many show ?thesis by simp
      next
        case copy
        have "own_frame s s' old new" using many copy(2,3,5) by (simp add: own_frame_def)
        moreover have "phys_words s' q = phys_words s q" if "0 < own s q" "q \<notin> space_tables s root" for q
          using that copy(2,6) by (metis less_irrefl)
        ultimately have "cow_resolved s s' root vpn old new (restore_cow_writable f)"
          by (intro cow_resolvedI [OF _ copy(4)])
        with v True copy(1) show ?thesis by auto
      qed
    qed
  qed
qed

section \<open>The theorems at a machine\<close>

text \<open>The first space of the demonstration machine can be forked, with the first free identifiers.\<close>

definition demo_aspace :: "nat \<Rightarrow> (unit, unit) aspace" where
  "demo_aspace root = fresh_space root 1"

lemma demo_may_fork:
  assumes "space_ok s root" "own s d = 1" "\<And>q. own s q \<le> 1"
    "view s root = (\<lambda>u. if same_page u 5 then Some (d, from_perm 11) else None)"
  shows "may_fork (demo_aspace root) s"
proof -
  let ?none = "[] :: (unit, unit) vma_set"
  have "0 < own s q" if "0 < refs s ?none root q" for q
  proof (cases "q \<in> space_tables s root")
    case True
    then show ?thesis by (rule own_tables [OF assms(1)])
  next
    case False
    with that have "page_refs s ?none root q \<noteq> {}" by (auto simp: refs_def)
    then have "q = d" by (auto simp: page_refs_def page_ref_def assms(4) split: if_splits)
    with assms(2) show ?thesis by simp
  qed
  moreover have "ref_room s"
    unfolding ref_room_def
  proof
    fix q
    have "own s q + max_space_refs + 1 \<le> 1 + max_space_refs + 1" using assms(3) by simp
    also have "\<dots> \<le> u32_max" by (simp add: max_space_refs_def u32_max_def)
    finally show "own s q + max_space_refs + 1 \<le> u32_max" .
  qed
  ultimately show ?thesis using assms(1) by (simp add: may_fork_def demo_aspace_def fresh_space_def)
qed

lemma asid_new_inv: "asid_inv asid_new"
  by (simp add: asid_inv_def asid_new_def MAX_ASID_COUNT_def MAX_ASID_BITS_def)

theorem fork_cow_correct_witness:
  "\<exists>m root d. view (mach_phys m) root 5 = Some (d, from_perm 11) \<and>
     (case fork_cow Inr (demo_aspace root) m of
        (m', Inl e) \<Rightarrow> e = MmOutOfMemory \<and> own (mach_phys m') = own (mach_phys m)
      | (m', Inr child) \<Rightarrow>
          view (mach_phys m') (as_root child) 5 = Some (d, prepare_cow (from_perm 11)) \<and>
          view (mach_phys m') root 5 = Some (d, prepare_cow (from_perm 11)) \<and>
          as_asid child \<noteq> KERNEL_ASID)"
proof -
  obtain s root d where s: "space_ok s root" "own s d = 1" "\<And>q. own s q \<le> 1" "0 \<notin> managed s"
    "view s root = (\<lambda>u. if same_page u 5 then Some (d, from_perm 11) else None)"
    by (rule demo_space) (rule that)
  let ?m = "\<lparr>mach_phys = s, mach_asids = asid_new\<rparr>"
  have v: "view s root 5 = Some (d, from_perm 11)" using s(5) by (simp add: same_page_def)
  obtain m' r where f: "fork_cow Inr (demo_aspace root) ?m = (m', r)" by fastforce
  have a: "as_vmas (demo_aspace root) = []" "as_root (demo_aspace root) = root"
    by (simp_all add: demo_aspace_def fresh_space_def)
  have inv: "vs_inv (as_vmas (demo_aspace root))" using vs_inv_empty by (simp add: a)
  have may: "may_fork (demo_aspace root) (mach_phys ?m)" using demo_may_fork [OF s(1-3,5)] by simp
  have zero: "0 \<notin> managed (mach_phys ?m)" using s(4) by simp
  have ids: "asid_inv (mach_asids ?m)" using asid_new_inv by simp
  note C = fork_cow_correct [OF may inv ids zero f]
  have fv: "forked_view ([] :: (unit, unit) vma_set) s root 5 = Some (d, prepare_cow (from_perm 11))"
    using v by (simp add: forked_view_def fork_page_def fork_flags_def vma_where_iff [OF vs_inv_empty] om_get_def perm_round
        bit_from_perm)
  have lim: "asid_limit asid_new \<noteq> 1"
    by (simp add: asid_new_def MAX_ASID_COUNT_def MAX_ASID_BITS_def)
  have dup: "vs_duplicate Inr ([] :: (unit, unit) vma_set) = Inr []" by (simp add: vs_duplicate_def)
  have "case r of
        Inl e \<Rightarrow> e = MmOutOfMemory \<and> own (mach_phys m') = own s
      | Inr child \<Rightarrow> view (mach_phys m') (as_root child) 5 = Some (d, prepare_cow (from_perm 11)) \<and>
          view (mach_phys m') root 5 = Some (d, prepare_cow (from_perm 11)) \<and> as_asid child \<noteq> KERNEL_ASID"
    using C fv lim a dup
    by (simp add: fork_result_def fork_failed_def asid_given_def split: sum.splits)
  then have "view (mach_phys ?m) root 5 = Some (d, from_perm 11) \<and>
     (case fork_cow Inr (demo_aspace root) ?m of
        (m', Inl e) \<Rightarrow> e = MmOutOfMemory \<and> own (mach_phys m') = own (mach_phys ?m)
      | (m', Inr child) \<Rightarrow>
          view (mach_phys m') (as_root child) 5 = Some (d, prepare_cow (from_perm 11)) \<and>
          view (mach_phys m') root 5 = Some (d, prepare_cow (from_perm 11)) \<and>
          as_asid child \<noteq> KERNEL_ASID)"
    using v unfolding f by (simp split: sum.splits)
  then show ?thesis by (intro exI)
qed

text \<open>A page two spaces share copy-on-write.\<close>

lemma demo_cow:
  obtains s root d free where "space_ok s root" "d \<notin> space_tables s root" "own s d = 2"
    "view s root 5 = Some (d, prepare_cow (from_perm 11))" "free \<in> managed s" "own s free = 0"
proof -
  obtain s root d free where s: "space_ok s root" "d \<notin> space_tables s root" "d < 2 ^ 44" "own s d = 1"
    "view s root = (\<lambda>u. if same_page u 5 then Some (d, from_perm 11) else None)"
    "free \<in> managed s" "own s free = 0"
    by (rule demo_space) (rule that)
  have "0 < own s d" "own s d < u32_max" using s(4) by (simp_all add: u32_max_def)
  from phys_inc_ref_owned [OF space_ok_frames [OF s(1)] this] obtain t where
    t: "frames_ok t" "managed t = managed s" "own t = (own s)(d := own s d + 1)" "phys_words t = phys_words s" by blast
  have tok: "space_ok t root" using s(1) t by (auto simp: space_ok_def)
  have vt: "view t root = view s root" by (rule view_cong [OF t(4)])
  from walk_find_view [OF tok, of 5] obtain slot where
    slot: "leaf_slot (phys_words t) 2 root (vpn_indexes 5) = Some slot"
    unfolding vt s(5) by (auto simp: same_page_def)
  let ?e = "pte_set d (prepare_cow (from_perm 11))"
  note W = write_slot [OF tok slot, of ?e]
  have fit: "flags_fit (prepare_cow (from_perm 11))" "flags_valid (prepare_cow (from_perm 11))"
    by (simp_all add: bit_prepare_cow bit_from_perm)
  have ts: "space_tables t root = space_tables s root" using t(4) by (simp add: space_tables_def)
  show thesis
  proof (rule that [of "put_pte slot ?e t" root d free])
    show "space_ok (put_pte slot ?e t) root" by (rule W(1))
    show "d \<notin> space_tables (put_pte slot ?e t) root" using W(3) s(2) ts by simp
    show "own (put_pte slot ?e t) d = 2" using t(3) s(4) by simp
    show "view (put_pte slot ?e t) root 5 = Some (d, prepare_cow (from_perm 11))"
      unfolding W(4) using fit s(3) by (simp add: same_page_def)
    show "free \<in> managed (put_pte slot ?e t)" using s(6) t(2) by simp
    show "own (put_pte slot ?e t) free = 0" using s(4,7) t(3) by auto
  qed
qed

theorem cow_fault_correct_witness:
  "\<exists>s root d. view s root 5 = Some (d, prepare_cow (from_perm 11)) \<and> own s d = 2 \<and>
     (case handle_cow_page root 5 s of (s', r) \<Rightarrow> r = Inr True \<and> own s' d = 1 \<and>
        (\<exists>new g. new \<noteq> d \<and> view s' root 5 = Some (new, g) \<and> flags_writable g \<and>
           phys_words s' new = phys_words s d))"
proof -
  obtain s root d free where s: "space_ok s root" "d \<notin> space_tables s root" "own s d = 2"
    "view s root 5 = Some (d, prepare_cow (from_perm 11))" "free \<in> managed s" "own s free = 0"
    by (rule demo_cow) (rule that)
  obtain s' r where h: "handle_cow_page root 5 s = (s', r)" by fastforce
  have c: "\<forall>ppn f. view s root 5 = Some (ppn, f) \<longrightarrow> flags_cow f \<longrightarrow>
      0 < own s ppn \<and> ppn \<notin> space_tables s root" using s by simp
  note C = cow_fault_correct [OF s(1) h c]
  have "flags_cow (prepare_cow (from_perm 11)) \<and> cow_was_writable (prepare_cow (from_perm 11))"
    by (simp add: bit_prepare_cow)
  with C s(3-6) obtain new where n: "r = Inr True"
    "cow_resolved s s' root 5 d new (restore_cow_writable (prepare_cow (from_perm 11)))"
    by auto
  then have "new \<noteq> d" "own s' d = 1" "phys_words s' new = phys_words s d"
    using s(3) by (auto simp: cow_resolved_def own_frame_def)
  moreover have "view s' root 5 = Some (new, restore_cow_writable (prepare_cow (from_perm 11)))"
    using n(2) by (simp add: cow_resolved_def same_page_def)
  moreover have "flags_writable (restore_cow_writable (prepare_cow (from_perm 11)))"
    using n(2) by (simp only: cow_resolved_def)
  ultimately have "view s root 5 = Some (d, prepare_cow (from_perm 11)) \<and> own s d = 2 \<and>
     (case handle_cow_page root 5 s of (s', r) \<Rightarrow> r = Inr True \<and> own s' d = 1 \<and>
        (\<exists>new g. new \<noteq> d \<and> view s' root 5 = Some (new, g) \<and> flags_writable g \<and>
           phys_words s' new = phys_words s d))"
    using s(3,4) h n(1) by auto
  then show ?thesis by (intro exI)
qed

end
