(* ===== verification/Spec2Isabelle.thy ===== *)
theory Spec2Isabelle
  imports Pool_Interleaving Vma_Props Pipe_Endpoint Cpu_Props Task_Lifecycle Wait_Reach Multi_Props Signal_Props Process_Barrier Sv39_Props
begin

text \<open>
  WaterOS: a verification library for the kernel's memory, pipes, scheduling, signals and processes.

  WaterOS is a Rust kernel; its components live under \<open>src/os/components/\<close>. This library
  models the components that hold the kernel's own logic as HOL functions on records and proves what
  each of them promises. Theory by theory, a group of definitions follows one Rust file, a lemma group
  proves its invariant and the effect of every operation, and the numbered properties, each after a
  text that states it, collect what matters to the callers.

  \<^bold>\<open>Conventions.\<close> A definition has the name of the Rust function it translates, with a
  prefix where several types have a method of that name. A \<open>Result\<close> is a sum with the error on
  the left; a panic, a failed \<open>expect\<close> or assertion, and a loop that never ends are
  \<open>None\<close>. A \<open>usize\<close> is a natural number, with its bound \<open>usize_max\<close> written
  out where the code saturates, checks or wraps; bit masks, page table entries and signal sets are
  words. A \<open>BTreeMap\<close> is an ordered association list (\<open>Ordered_Map\<close>), and a queue a
  list with its head first. Time, identifiers drawn from elsewhere and what other CPUs do in between
  are arguments.

  \<^bold>\<open>How the parts interact.\<close> The frame allocator owns physical memory. The page tables
  take their frames from it and keep one reference for each user page and table; the areas of an
  address space say which pages the space owns and shares. The task registry, the wait queues and the
  per-CPU state are the three parts of the multi-class scheduler, which runs every operation under one
  lock. The process registry groups tasks into processes, the signal registry delivers signals to
  their threads, and both tell their caller which tasks to wake. Pipes block their readers and writers
  on wait queues.

  \<^bold>\<open>Physical frames\<close> (\<open>wateros-mm/mm-frame-alloctor/.../impl-stack/src/lib.rs\<close>).
  \<^item> \<open>Frame_Alloc\<close> is \<open>StackFrameAllocator\<close>: a range with a reserved hole, the frames
    never handed out, the recycled stack, the allocated flags and the 32-bit reference counts.
    \<open>Frame_Interface\<close> is the contract of an allocator as a locale, interpreted on it, and on the
    global allocator.
  \<^item> \<open>Zeroed_Pool\<close> is the cache of zeroed frames and the global allocation paths that take two
    locks one after the other; \<open>Pool_Interleaving\<close> runs their critical sections on any number of
    CPUs in any order and proves that reserved slots stay within the capacity and that no frame is held
    twice.

  \<^bold>\<open>Address spaces\<close> (\<open>mm-impl/common/src\<close>, \<open>mm-impl/impl-sv39/src\<close>,
  \<open>mm-api\<close>).
  \<^item> \<open>Vma\<close> models \<open>VmArea\<close> and \<open>VmaSet\<close> of \<open>vma.rs\<close>. The abstraction is the
    map from an address to what is mapped there; \<open>Vma_Correct\<close>, \<open>Vma_Ranges\<close> and
    \<open>Vma_Props\<close> prove that insertion, removal and permission changes act on that map at exactly
    their range, whatever is split and merged.
  \<^item> \<open>Sv39_Pte\<close> and \<open>Sv39_Table\<close> hold the entries, the allocator of identifiers
    (\<open>asid.rs\<close>), and the walks and page operations over a memory of 64-bit words.
    \<open>Sv39_Tree\<close> and \<open>Sv39_Map\<close> read a table as a tree of frames and as a map from page
    numbers of 27 bits (the code uses no others; higher bits are ignored by the index arithmetic), and
    prove what each page operation does to that map.
  \<^item> \<open>Sv39_Fork\<close> and \<open>Sv39_Space\<close> model creation, the copy-on-write fork, destruction and
    the write fault of \<open>Sv39AddressSpace\<close>. \<open>Sv39_Copy\<close> follows the recursion over the levels with an invariant that also accounts for a failure in the middle;
    \<open>Sv39_Refs\<close> counts the references of a tree page by page; \<open>Sv39_Props\<close> states the
    properties. A fork needs room in the 32-bit counts: \<open>ref_room\<close> asks for one whole space of references
    (\<open>max_space_refs\<close>, about 2 to the 27) below the bound, since the code reports an error when a
    count is full.
  \<^item> \<open>Sv39_Mem\<close> and \<open>Sv39_Fault\<close> model the range checks, the mapping helpers of
    \<open>mapping.rs\<close>, demand faults, the write-back of shared files and the search for a free range;
    proved of them are that the search ends (each round moves the candidate up) and that the range it
    returns is free. A demand loader is a record of functions, a parameter.

  \<^bold>\<open>Pipes\<close> (\<open>wateros-ipc/ipc-pipe/.../impl-ringbuf/src\<close>).
  \<^item> \<open>Pipe\<close> is the state of \<open>kernel_pipe.rs\<close> with its segments, read leases, capacity and
    poll events; blocking loops are functions of the environment's steps between two attempts, with
    fuel that is the length of that list. \<open>Pipe_Correct\<close> proves the invariant and the refinement
    of a queue of messages, \<open>Pipe_System\<close> that bytes leave in the order they entered and that no
    wake-up is lost, and \<open>Pipe_Endpoint\<close> (\<open>endpoint.rs\<close>) that reference counts are the open
    endpoints.

  \<^bold>\<open>Scheduling\<close> (\<open>wateros-task/task-scheduler\<close>, \<open>task-impl/impl-core/src/tcb.rs\<close>,
  \<open>wateros-base/src/cpu.rs\<close>).
  \<^item> \<open>Ready_Queues\<close>, \<open>Cpu_Mask\<close> and \<open>Cpu_State\<close> model the FIFO, round-robin and fair
    queues, CPU sets and the per-CPU state; \<open>Cpu_Mset\<close>, \<open>Cpu_Correct\<close> and \<open>Cpu_Props\<close>
    prove the choice of the next task, the accounting of a tick and the preemption check.
  \<^item> \<open>Task_Registry\<close> (\<open>registry.rs\<close>, \<open>tcb.rs\<close>) is the table of tasks; the kernel stack
    of a new task comes as an option, \<open>None\<close> when it cannot be had, and then creation panics as
    the code does. \<open>Task_Lifecycle\<close> proves the life of a task.
  \<^item> \<open>Wait_Queues\<close> (\<open>wait_queues.rs\<close>) is the queues, sleeps and timeouts.
    \<open>Wait_Correct\<close>, \<open>Wait_Props\<close>, \<open>Wait_Lifecycle\<close> and \<open>Wait_Reach\<close> prove that a
    task waits in one place, that expiry is exact, and exactly which calls panic.
  \<^item> \<open>Multi_State\<close>, \<open>Multi_Class\<close> and \<open>Multi_Ops\<close> are the scheduler of
    \<open>impl-multi-class\<close>; \<open>Multi_System\<close> is its operations as one step function.
    \<open>Multi_Inv\<close> is the invariant; the other \<open>Multi_*\<close> theories prove that every operation
    keeps it, and \<open>Multi_Props\<close> concludes: each task is in one place, the switches, wake-ups and
    ends are exact, and no operation panics for callers that keep the guarantees of \<open>allowed\<close>.
    The bound of 64 CPUs is that of the CPU mask.

  \<^bold>\<open>Signals\<close> (\<open>wateros-ipc/ipc-signal\<close>). \<open>Signal_State\<close>, \<open>Signal_Registry\<close> and
  \<open>Signal_Timers\<close> model signal sets, dispositions, timers and the registry; the recursion of
  \<open>take_deliverable\<close> ends because each call consumes a pending signal. \<open>Signal_Inv\<close>,
  \<open>Signal_Keeps\<close> and \<open>Signal_System\<close> prove the invariant; \<open>Signal_Deliver\<close>,
  \<open>Signal_Expiry\<close> and \<open>Signal_Props\<close> prove delivery, sending, expiry and that no pending signal
  is lost.

  \<^bold>\<open>Processes\<close> (\<open>task-impl/impl-core/src/process.rs\<close>). \<open>Process_State\<close>,
  \<open>Process_Table\<close> and \<open>Process_Attrs\<close> model the registry. The search for a free id and the walk
  over the ancestors are loops that may not end, so they are partial functions into \<open>option\<close>;
  \<open>Process_Props\<close> proves that the walk ends in every reachable state and the search exactly when
  an id is left. \<open>Process_Tree\<close>, \<open>Process_Exit\<close>, \<open>Process_Life\<close> and \<open>Process_Remove\<close>
  prove adoption, exits, forks and removal; \<open>Process_Barrier\<close> proves the barrier of exec.

  \<^bold>\<open>Guarantees of callers.\<close> \<open>allowed\<close> and \<open>process_allowed\<close> are not code: they list
  what the callers of the two registries keep. For the scheduler these are that queue ids were allocated
  and tasks exist, that a new task has a kernel stack, and that a task in a deferred-migration slot is
  neither killed nor given a new policy; properties that depend on them say so. The caller of a page
  table operation owns the space, and frame 0 is not managed, since the code uses it for no table.

  \<^bold>\<open>Shared machinery.\<close> \<open>Prelude\<close> has the bounded arithmetic, the error sums and the named
  collections of simplification rules; \<open>Ordered_Map\<close> is the ordered map as a locale of laws with
  its interpretation. A relation of reachable states (\<open>wq_reach\<close>, \<open>mcs_reach\<close>,
  \<open>process_reach\<close>, \<open>ep_reach\<close> and others) starts at the initial state of a component and steps
  by its operations, and invariants follow by rule induction.

  \<^bold>\<open>Not modelled.\<close> Assembly, traps, saved contexts and translation flushes belong to the
  architecture layer; the LoongArch tables repeat the structure of Sv39. The system call layer,
  \<open>brk\<close>, \<open>mmap\<close>, \<open>mprotect\<close> and \<open>mremap\<close>, copies between user and kernel, the
  ELF loader, futexes and shared memory, the virtual file system, file systems, drivers, the network
  stack, terminals and the graphical interface are left for extensions or are input and output only.
  Diagnostic counters, logs and self tests change nothing the model keeps. The kernel stacks of the
  idle tasks are allocated at boot, before any of the modelled operations.
\<close>

end
